(* ===== verification/Prelude.thy ===== *)
theory Prelude
  imports Main "HOL-Library.Word"
begin

text \<open>
  Shared vocabulary of the development: the machine integers of the Rust sources as
  \<open>word\<close> types, little-endian byte encodings (\<open>to_le_bytes\<close> / \<open>from_le_bytes\<close>),
  slices, \<open>slice::chunks\<close> and \<open>usize::div_ceil\<close>, the error monad used for
  \<open>Result\<close>, and the generic list lemmas the components share.

  \<open>usize\<close> and the \<open>u64\<close> clocks and counters are modelled as \<open>nat\<close>: their values are bounded by
  the memory of the machine (respectively by its uptime), so the saturating additions of the
  source never saturate, while \<open>saturating_sub\<close> is exactly the truncating subtraction of \<open>nat\<close>.
  The integers whose wrap-around matters (\<open>u8\<close>, \<open>u16\<close>, \<open>u32\<close>) keep their width.
\<close>

unbundle bit_operations_syntax

section \<open>Machine integers\<close>

type_synonym u8 = "8 word"
type_synonym u16 = "16 word"
type_synonym u32 = "32 word"
type_synonym u64 = "64 word"
type_synonym bytes = "u8 list"

text \<open>Facts that unfold wire-level encoders and decoders, used by \<open>simp add: wire_simps\<close>.\<close>

named_theorems wire_simps

section \<open>The error monad\<close>

text \<open>\<open>Result<T, E>\<close> is \<open>'e + 'a\<close> with \<open>Inl\<close> for \<open>Err\<close>; \<open>sbind\<close> is the \<open>?\<close> operator.\<close>

definition sbind :: "'e + 'a \<Rightarrow> ('a \<Rightarrow> 'e + 'b) \<Rightarrow> 'e + 'b" where
  "sbind x f = (case x of Inl e \<Rightarrow> Inl e | Inr a \<Rightarrow> f a)"

lemma sbind_Inl [simp]: "sbind (Inl e) f = Inl e"
  and sbind_Inr [simp]: "sbind (Inr a) f = f a"
  by (simp_all add: sbind_def)

lemma sbind_eq_Inr: "sbind x f = Inr b \<longleftrightarrow> (\<exists>a. x = Inr a \<and> f a = Inr b)"
  by (cases x) auto

lemma sbind_eq_Inl: "sbind x f = Inl e \<longleftrightarrow> x = Inl e \<or> (\<exists>a. x = Inr a \<and> f a = Inl e)"
  by (cases x) auto

definition ok_or :: "'a option \<Rightarrow> 'e \<Rightarrow> 'e + 'a" where
  "ok_or x e = (case x of None \<Rightarrow> Inl e | Some a \<Rightarrow> Inr a)"

lemma ok_or_simps [simp]: "ok_or None e = Inl e" "ok_or (Some a) e = Inr a"
  by (simp_all add: ok_or_def)

lemma ok_or_eq_Inr: "ok_or x e = Inr a \<longleftrightarrow> x = Some a"
  by (cases x) auto

section \<open>Slices and little-endian integers\<close>

text \<open>\<open>buf[a..b]\<close>; every use in the sources is guarded by a length check.\<close>

definition subslice :: "nat \<Rightarrow> nat \<Rightarrow> 'a list \<Rightarrow> 'a list" where
  "subslice a b xs = take (b - a) (drop a xs)"

definition le16 :: "u16 \<Rightarrow> bytes" where
  "le16 w = [ucast w, ucast (drop_bit 8 w)]"

definition le32 :: "u32 \<Rightarrow> bytes" where
  "le32 w = [ucast w, ucast (drop_bit 8 w), ucast (drop_bit 16 w), ucast (drop_bit 24 w)]"

text \<open>Big-endian: \<open>to_be_bytes\<close>, \<open>BufMut::put_u16\<close>.\<close>

definition be16 :: "u16 \<Rightarrow> bytes" where
  "be16 w = [ucast (drop_bit 8 w), ucast w]"

definition be32 :: "u32 \<Rightarrow> bytes" where
  "be32 w = [ucast (drop_bit 24 w), ucast (drop_bit 16 w), ucast (drop_bit 8 w), ucast w]"

definition u16_of :: "u8 \<Rightarrow> u8 \<Rightarrow> u16" where
  "u16_of a b = ucast a OR push_bit 8 (ucast b)"

definition u32_of :: "u8 \<Rightarrow> u8 \<Rightarrow> u8 \<Rightarrow> u8 \<Rightarrow> u32" where
  "u32_of a b c d = ucast a OR push_bit 8 (ucast b) OR push_bit 16 (ucast c) OR push_bit 24 (ucast d)"

text \<open>
  \<open>uN::from_le_bytes(s.try_into().map_err(|_| e)?)\<close>: the conversion of a subslice to an array
  fails with \<open>e\<close> unless the subslice has exactly the width of the integer.
\<close>

fun rd16 :: "'e \<Rightarrow> bytes \<Rightarrow> 'e + u16" where
  "rd16 e [a, b] = Inr (u16_of a b)"
| "rd16 e _ = Inl e"

fun rd32 :: "'e \<Rightarrow> bytes \<Rightarrow> 'e + u32" where
  "rd32 e [a, b, c, d] = Inr (u32_of a b c d)"
| "rd32 e _ = Inl e"

lemma u16_of_le16 [simp]: "u16_of (ucast w) (ucast (drop_bit 8 w)) = w"
  unfolding u16_of_def by (rule bit_word_eqI) (auto simp: bit_simps)

lemma u32_of_le32 [simp]:
  "u32_of (ucast w) (ucast (drop_bit 8 w)) (ucast (drop_bit 16 w)) (ucast (drop_bit 24 w)) = w"
proof (rule bit_word_eqI)
  fix n assume "n < LENGTH(32)"
  then consider "n < 8" | "8 \<le> n \<and> n < 16" | "16 \<le> n \<and> n < 24" | "24 \<le> n \<and> n < 32" by fastforce
  then show "bit (u32_of (ucast w) (ucast (drop_bit 8 w)) (ucast (drop_bit 16 w))
      (ucast (drop_bit 24 w))) n \<longleftrightarrow> bit w n"
    by cases (auto simp: u32_of_def bit_simps)
qed

lemma ucast_u16_of [simp]: "ucast (u16_of a b) = a" "ucast (drop_bit 8 (u16_of a b)) = b"
  unfolding u16_of_def by (rule bit_word_eqI; auto simp: bit_simps dest: bit_imp_le_length)+

lemma ucast_u32_of [simp]:
  "ucast (u32_of a b c d) = a" "ucast (drop_bit 8 (u32_of a b c d)) = b"
  "ucast (drop_bit 16 (u32_of a b c d)) = c" "ucast (drop_bit 24 (u32_of a b c d)) = d"
  unfolding u32_of_def by (rule bit_word_eqI; auto simp: bit_simps dest: bit_imp_le_length)+

lemma rd16_le16 [simp]: "rd16 e (le16 w) = Inr w"
  by (simp add: le16_def)

lemma rd32_le32 [simp]: "rd32 e (le32 w) = Inr w"
  by (simp add: le32_def)

lemma length_le16 [simp]: "length (le16 w) = 2"
  by (simp add: le16_def)

lemma length_le32 [simp]: "length (le32 w) = 4"
  by (simp add: le32_def)

lemma rd16_eq_Inr: "rd16 e bs = Inr w \<longleftrightarrow> bs = le16 w"
  by (cases "(e, bs)" rule: rd16.cases) (auto simp: le16_def)

lemma rd32_eq_Inr: "rd32 e bs = Inr w \<longleftrightarrow> bs = le32 w"
  by (cases "(e, bs)" rule: rd32.cases) (auto simp: le32_def)

lemma rd16_total: "length bs = 2 \<Longrightarrow> \<exists>w. rd16 e bs = Inr w"
  by (cases "(e, bs)" rule: rd16.cases) auto

lemma rd32_total: "length bs = 4 \<Longrightarrow> \<exists>w. rd32 e bs = Inr w"
  by (cases "(e, bs)" rule: rd32.cases) auto

lemma length_subslice [simp]: "length (subslice a b xs) = min (b - a) (length xs - a)"
  by (auto simp: subslice_def)

lemma rd16_slice: "i + 2 \<le> length buf \<Longrightarrow> \<exists>w. rd16 e (subslice i (i + 2) buf) = Inr w"
  by (rule rd16_total) simp

lemma rd32_slice: "i + 4 \<le> length buf \<Longrightarrow> \<exists>w. rd32 e (subslice i (i + 4) buf) = Inr w"
  by (rule rd32_total) simp

text \<open>Reading a subslice out of a message that was built by concatenation.\<close>

lemma subslice_append_left [simp]: "b \<le> length xs \<Longrightarrow> subslice a b (xs @ ys) = subslice a b xs"
  by (auto simp: subslice_def)

lemma subslice_append_right [simp]:
  "length xs \<le> a \<Longrightarrow> subslice a b (xs @ ys) = subslice (a - length xs) (b - length xs) ys"
  by (auto simp: subslice_def)

lemma subslice_all [simp]: "subslice 0 (length xs) xs = xs"
  by (simp add: subslice_def)

lemma subslice_Suc [simp]: "subslice (Suc a) (Suc b) (x # xs) = subslice a b xs"
  by (simp add: subslice_def)

lemma subslice_split: "a \<le> b \<Longrightarrow> b \<le> c \<Longrightarrow> subslice a b xs @ subslice b c xs = subslice a c xs"
proof -
  assume "a \<le> b" and "b \<le> c"
  have "take (b - a) (drop a xs) @ take (c - b) (drop (b - a) (drop a xs)) = take (c - a) (drop a xs)"
    using \<open>a \<le> b\<close> \<open>b \<le> c\<close> take_add [of "b - a" "c - b" "drop a xs"] by simp
  then show ?thesis using \<open>a \<le> b\<close> by (simp add: subslice_def)
qed

lemma subslice_drop: "a \<le> b \<Longrightarrow> subslice a b xs @ drop b xs = drop a xs"
  by (metis append_take_drop_id drop_drop le_add_diff_inverse2 subslice_def)

section \<open>Chunks and ceiling division\<close>

definition div_ceil :: "nat \<Rightarrow> nat \<Rightarrow> nat" where
  "div_ceil a b = (a + b - 1) div b"

text \<open>\<open>slice::chunks(n)\<close> for a positive constant \<open>n\<close>.\<close>

function chunks :: "nat \<Rightarrow> 'a list \<Rightarrow> 'a list list" where
  "chunks n xs = (if n = 0 \<or> xs = [] then [] else take n xs # chunks n (drop n xs))"
  by pat_completeness auto
termination
  by (relation "measure (\<lambda>(n, xs). length xs)") auto

declare chunks.simps [simp del]

lemma chunks_Nil [simp]: "chunks n [] = []"
  by (simp add: chunks.simps)

lemma chunks_rec: "0 < n \<Longrightarrow> xs \<noteq> [] \<Longrightarrow> chunks n xs = take n xs # chunks n (drop n xs)"
  by (subst chunks.simps) simp

lemma concat_chunks: "0 < n \<Longrightarrow> concat (chunks n xs) = xs"
proof (induction n xs rule: chunks.induct)
  case (1 n xs)
  then show ?case by (cases "xs = []") (simp_all add: chunks_rec)
qed

lemma length_chunks: "0 < n \<Longrightarrow> length (chunks n xs) = div_ceil (length xs) n"
proof (induction n xs rule: chunks.induct)
  case (1 n xs)
  show ?case
  proof (cases "xs = []")
    case True
    then show ?thesis using "1.prems" by (simp add: div_ceil_def)
  next
    case False
    with 1 have IH: "length (chunks n (drop n xs)) = div_ceil (length xs - n) n" by simp
    have "Suc ((length xs - n + n - 1) div n) = (length xs + n - 1) div n"
    proof (cases "n \<le> length xs")
      case True
      moreover have "length xs + n - 1 = (length xs - 1) + n" using False by (cases xs) auto
      ultimately show ?thesis using "1.prems" by (simp only: le_add_diff_inverse2 div_add_self2)
    next
      case less: False
      moreover obtain k where "length xs = Suc k" using False by (cases xs) auto
      ultimately have "(length xs + n - 1) div n = 1"
        using "1.prems" by (intro div_nat_eqI) auto
      with less "1.prems" show ?thesis by simp
    qed
    with IH False "1.prems" show ?thesis by (simp add: chunks_rec div_ceil_def)
  qed
qed

lemma chunks_nth:
  "0 < n \<Longrightarrow> i < length (chunks n xs) \<Longrightarrow> chunks n xs ! i = take n (drop (n * i) xs)"
proof (induction n xs arbitrary: i rule: chunks.induct)
  case (1 n xs)
  show ?case
  proof (cases "xs = []")
    case True
    then show ?thesis using "1.prems" by simp
  next
    case False
    with 1 show ?thesis
      by (cases i) (auto simp: chunks_rec add.commute)
  qed
qed

lemma div_ceil_bound: "0 < n \<Longrightarrow> i < div_ceil m n \<Longrightarrow> n * i < m"
proof -
  assume n: "0 < n" and i: "i < div_ceil m n"
  have "n * Suc i \<le> n * ((m + n - 1) div n)"
    using i by (simp add: div_ceil_def del: mult_Suc_right)
  also have "\<dots> \<le> m + n - 1" by (rule times_div_less_eq_dividend)
  finally show ?thesis using n by simp
qed

lemma div_ceil_last: "0 < n \<Longrightarrow> m \<le> n * div_ceil m n"
proof -
  assume n: "0 < n"
  have "m + n - 1 < n * Suc ((m + n - 1) div n)"
    using n by (simp add: dividend_less_times_div)
  then show ?thesis using n by (simp add: div_ceil_def)
qed

section \<open>Words\<close>

lemma unat_lt_u8: "unat (w :: u8) < 256"
  using unsigned_less [where 'a = nat, of w] by simp

lemma unat_lt_u16: "unat (w :: u16) < 65536"
  using unsigned_less [where 'a = nat, of w] by simp

lemma unat_lt_u32: "unat (w :: u32) < 4294967296"
  using unsigned_less [where 'a = nat, of w] by simp

text \<open>\<open>saturating_add\<close> and \<open>saturating_sub\<close> of the unsigned integers.\<close>

definition sat_add :: "'a::len word \<Rightarrow> 'a word \<Rightarrow> 'a word" where
  "sat_add a b = (if 2 ^ LENGTH('a) \<le> unat a + unat b then - 1 else a + b)"

definition sat_sub :: "'a::len word \<Rightarrow> 'a word \<Rightarrow> 'a word" where
  "sat_sub a b = (if a < b then 0 else a - b)"

lemma unat_sat_add: "unat a + unat b < 2 ^ LENGTH('a) \<Longrightarrow> unat (sat_add a b) = unat a + unat b"
  for a b :: "'a::len word"
  by (simp add: sat_add_def unat_word_ariths)

lemma unat_sat_sub: "unat (sat_sub a b) = unat a - unat b"
  by (auto simp: sat_sub_def word_less_nat_alt unat_sub_if' not_less)

lemma xor_right_cancel [simp]: "a XOR c = b XOR c \<longleftrightarrow> a = b" for a b c :: "'a::len word"
  by (metis xor.assoc xor.right_neutral xor_self_eq)

lemma xor_left_cancel [simp]: "c XOR a = c XOR b \<longleftrightarrow> a = b" for a b c :: "'a::len word"
  by (simp add: xor.commute [of c])

lemma xor_eq_0_iff [simp]: "a XOR b = 0 \<longleftrightarrow> a = b" for a b :: "'a::len word"
  using xor_right_cancel [of a b b] by simp

section \<open>XOR sums and zero-extended reads\<close>

definition xsum :: "('a \<Rightarrow> u8) \<Rightarrow> 'a list \<Rightarrow> u8" where
  "xsum f xs = foldr (\<lambda>x acc. f x XOR acc) xs 0"

definition byte_at :: "bytes \<Rightarrow> nat \<Rightarrow> u8" where
  "byte_at xs j = (if j < length xs then xs ! j else 0)"

lemma xsum_simps [simp]: "xsum f [] = 0" "xsum f (x # xs) = f x XOR xsum f xs"
  by (simp_all add: xsum_def)

lemma xsum_append: "xsum f (xs @ ys) = xsum f xs XOR xsum f ys"
  by (induction xs) (simp_all add: xor.assoc)

lemma xsum_map: "xsum f (map g xs) = xsum (\<lambda>x. f (g x)) xs"
  by (induction xs) simp_all

lemma xsum_cong: "(\<And>x. x \<in> set xs \<Longrightarrow> f x = g x) \<Longrightarrow> xsum f xs = xsum g xs"
  by (induction xs) simp_all

lemma xsum_xor: "xsum (\<lambda>x. f x XOR g x) xs = xsum f xs XOR xsum g xs"
  by (induction xs) (simp_all add: xor.assoc xor.left_commute)

lemma xsum_zero: "(\<And>x. x \<in> set xs \<Longrightarrow> f x = 0) \<Longrightarrow> xsum f xs = 0"
  by (induction xs) simp_all

section \<open>Lists\<close>

lemma sum_list_filter_le: "sum_list (map f (filter P xs)) \<le> sum_list (map f xs)" for f :: "'a \<Rightarrow> nat"
  by (induction xs) auto

lemma sum_list_split_filter:
  "sum_list (map f xs) = sum_list (map f (filter P xs)) + sum_list (map f (filter (\<lambda>x. \<not> P x) xs))"
  for f :: "'a \<Rightarrow> nat"
  by (induction xs) auto

lemma map_filter_Cons:
  "List.map_filter f (x # xs) = (case f x of None \<Rightarrow> List.map_filter f xs | Some y \<Rightarrow> y # List.map_filter f xs)"
  by (simp add: List.map_filter_def split: option.split)

lemma set_map_filter: "y \<in> set (List.map_filter f xs) \<longleftrightarrow> (\<exists>x \<in> set xs. f x = Some y)"
  by (induction xs) (auto simp: map_filter_Cons List.map_filter_def split: option.splits)

lemma map_map_filter:
  "(\<And>x y. f x = Some y \<Longrightarrow> g y = x) \<Longrightarrow> map g (List.map_filter f xs) = filter (\<lambda>x. f x \<noteq> None) xs"
  by (induction xs) (auto simp: map_filter_Cons List.map_filter_def split: option.splits)

end
