(* ===== verification/Gf256.thy ===== *)
theory Gf256
  imports Prelude
begin

text \<open>
  The GF(256) arithmetic of \<open>transport-core/src/fec.rs\<close>: the exp/log tables built by
  \<open>build_tables\<close>, multiplication and inversion through them, and the coefficient hash
  \<open>gf_coeff\<close>. The lemmas show that the tables enumerate the powers of the generator 2 under the
  polynomial \<open>0x11D\<close>, that table multiplication agrees with shift-and-add multiplication, and that
  it forms a field together with XOR. The locale \<open>byte_field\<close> states what the elimination code
  needs from a multiplication and proves linearity of inner products once; it is interpreted by
  \<open>gf_mul\<close>.
\<close>

section \<open>Definitions\<close>

record gf_tables =
  gf_exp :: "u8 list"
  gf_log :: "u8 list"

text \<open>One step of the table loop: multiplication of \<open>x\<close> by 2.\<close>

definition xtime :: "u8 \<Rightarrow> u8" where
  "xtime x = (let carry = x AND 0x80; x = push_bit 1 x in if carry \<noteq> 0 then x XOR 0x1D else x)"

definition build_step :: "nat \<Rightarrow> u8 list \<times> u8 list \<times> u8 \<Rightarrow> u8 list \<times> u8 list \<times> u8" where
  "build_step i = (\<lambda>(exp, log, x).
     (exp[i := x, i + 255 := x], log[unat x := word_of_nat i], xtime x))"

definition build_tables :: gf_tables where
  "build_tables =
     (let (exp, log, x) = fold build_step [0..<255] (replicate 512 0, replicate 256 0, 1);
          exp = exp[255 := exp ! 0];
          exp = exp[510 := exp ! 255]
      in \<lparr>gf_exp = exp, gf_log = log\<rparr>)"

definition gf_mul :: "u8 \<Rightarrow> u8 \<Rightarrow> u8" where
  "gf_mul a b =
     (if a = 0 \<or> b = 0 then 0
      else gf_exp build_tables !
        (unat (gf_log build_tables ! unat a) + unat (gf_log build_tables ! unat b)))"

text \<open>\<open>gf_inv(0)\<close> is an assertion failure, here \<open>None\<close>.\<close>

definition gf_inv :: "u8 \<Rightarrow> u8 option" where
  "gf_inv a =
     (if a = 0 then None
      else Some (gf_exp build_tables ! (255 - unat (gf_log build_tables ! unat a))))"

definition gf_coeff :: "u16 \<Rightarrow> u32 \<Rightarrow> u8" where
  "gf_coeff repair_seq src_seq =
     (let h = (ucast repair_seq :: u32) * 0x9E3779B9 + src_seq * 0x6B436201;
          c = ucast (drop_bit 24 h XOR drop_bit 16 h XOR drop_bit 8 h XOR h) :: u8
      in if c = 0 then 0x01 else c)"

section \<open>The generator\<close>

lemma bit7_iff: "x AND 0x80 \<noteq> (0 :: u8) \<longleftrightarrow> bit x 7"
  using and_exp_eq_0_iff_not_bit [of x 7] by simp

lemma xtime_eq: "xtime x = push_bit 1 x XOR (if bit x 7 then 0x1D else 0)"
  using bit7_iff [of x] by (simp add: xtime_def Let_def)

lemma xtime_xor: "xtime (a XOR b) = xtime a XOR xtime b"
  by (auto simp: xtime_eq push_bit_xor bit_xor_iff xor.assoc xor.left_commute)

lemma xtime_0 [simp]: "xtime 0 = 0"
  by (simp add: xtime_eq)

lemma funpow_xtime_xor: "(xtime ^^ n) (a XOR b) = (xtime ^^ n) a XOR (xtime ^^ n) b"
  by (induction n) (simp_all add: xtime_xor)

lemma funpow_xtime_0 [simp]: "(xtime ^^ n) 0 = 0"
  by (induction n) simp_all

text \<open>The same step on natural numbers, for evaluation inside the kernel.\<close>

definition xtime_nat :: "nat \<Rightarrow> nat" where
  "xtime_nat n = (if n < 128 then 2 * n else (2 * n - 256) XOR 29)"

primrec xtime_iter :: "nat \<Rightarrow> nat \<Rightarrow> nat" where
  "xtime_iter 0 x = x"
| "xtime_iter (Suc n) x = xtime_iter n (xtime_nat x)"

lemma xtime_iter_numeral: "xtime_iter (numeral k) x = xtime_iter (pred_numeral k) (xtime_nat x)"
  by (simp add: numeral_eq_Suc)

lemma bit7_unat: "bit x 7 \<longleftrightarrow> 128 \<le> unat (x :: u8)"
proof -
  have "unat x < 256" using unsigned_less [of x] by simp
  moreover have "bit x 7 \<longleftrightarrow> bit (unat x) 7" by (simp add: bit_unsigned_iff)
  then have "bit x 7 \<longleftrightarrow> odd (unat x div 128)" by (simp only: bit_iff_odd) simp
  ultimately show ?thesis by (auto simp: odd_iff_mod_2_eq_one; presburger)
qed

lemma unat_xtime: "unat (xtime x) = xtime_nat (unat x)"
proof -
  have lt: "unat x < 256" using unsigned_less [of x] by simp
  have sh: "unat (x * 2) = (2 * unat x) mod 256"
    by (simp add: unat_word_ariths mult.commute)
  show ?thesis
  proof (cases "bit x 7")
    case True
    then have "(2 * unat x) mod 256 = 2 * unat x - 256"
      using lt by (auto simp: bit7_unat mod_if)
    with True show ?thesis
      by (simp add: xtime_eq unsigned_xor_eq sh xtime_nat_def bit7_unat)
  next
    case False
    with lt sh show ?thesis by (simp add: xtime_eq xtime_nat_def bit7_unat)
  qed
qed

lemma unat_funpow_xtime: "unat ((xtime ^^ n) x) = xtime_iter n (unat x)"
proof (induction n arbitrary: x)
  case 0
  then show ?case by simp
next
  case (Suc n)
  show ?case using Suc.IH [of "xtime x"] by (simp add: funpow_swap1 unat_xtime)
qed

abbreviation gpow :: "nat \<Rightarrow> u8" where
  "gpow n \<equiv> (xtime ^^ n) 1"

lemma gpow_255: "gpow 255 = 1"
  by (simp add: word_unat_eq_iff unat_funpow_xtime xtime_iter_numeral xtime_nat_def)

lemma gpow_proper_divisors: "gpow 85 \<noteq> 1" "gpow 51 \<noteq> 1" "gpow 15 \<noteq> 1"
proof -
  have "unat (gpow 85) \<noteq> 1" "unat (gpow 51) \<noteq> 1" "unat (gpow 15) \<noteq> 1"
    by (simp_all add: unat_funpow_xtime xtime_iter_numeral xtime_nat_def)
  then show "gpow 85 \<noteq> 1" "gpow 51 \<noteq> 1" "gpow 15 \<noteq> 1" by force+
qed

lemma gpow_gcd: "gpow a = 1 \<Longrightarrow> gpow b = 1 \<Longrightarrow> gpow (gcd a b) = 1"
proof (induction a b rule: gcd_nat_induct)
  case (step m n)
  then show ?case by (metis funpow_mod_eq gcd_red_nat)
qed simp

lemma gpow_mult: "gpow a = 1 \<Longrightarrow> gpow (a * k) = 1"
  by (induction k) (simp_all add: funpow_add)

lemma gpow_period: "0 < d \<Longrightarrow> d < 255 \<Longrightarrow> gpow d \<noteq> 1"
proof
  assume d: "0 < d" "d < 255" and one: "gpow d = 1"
  let ?g = "gcd d 255"
  have g1: "gpow ?g = 1" using gpow_gcd [OF one gpow_255] .
  have dvd: "?g dvd 255" by simp
  have "?g \<le> d" using d(1) by (simp add: gcd_le1_nat)
  then have lt: "?g < 255" using d(2) by simp
  have "?g dvd 85 \<or> ?g dvd 51 \<or> ?g dvd 15"
  proof -
    have "\<forall>g < 255. g dvd (255 :: nat) \<longrightarrow> g dvd 85 \<or> g dvd 51 \<or> g dvd 15"
      by code_simp
    then show ?thesis using dvd lt by blast
  qed
  then show False
    using gpow_mult [OF g1] gpow_proper_divisors by (auto elim!: dvdE)
qed

lemma inj_xtime: "inj xtime"
proof (rule injI)
  fix a b assume "xtime a = xtime b"
  then have "xtime (a XOR b) = 0" by (simp add: xtime_xor)
  then have "xtime_nat (unat (a XOR b)) = 0" by (simp flip: unat_xtime)
  then have "unat (a XOR b) = 0 \<or> (2 * unat (a XOR b) - 256) XOR 29 = 0 \<and> 128 \<le> unat (a XOR b)"
    by (auto simp: xtime_nat_def split: if_splits)
  moreover have "(2 * n - 256) XOR 29 \<noteq> 0" for n :: nat
  proof
    assume "(2 * n - 256) XOR 29 = 0"
    then have "2 * n - 256 = 29" by (metis xor_self_eq xor.left_neutral xor.assoc xor.right_neutral)
    then show False by presburger
  qed
  ultimately have "unat (a XOR b) = 0" by blast
  then show "a = b" by (simp only: unat_eq_0 xor_eq_0_iff)
qed

lemma inj_funpow_xtime: "inj (xtime ^^ n)"
  by (rule inj_fn) (rule inj_xtime)

lemma gpow_add: "(xtime ^^ i) (gpow j) = gpow (i + j)"
  by (simp add: funpow_add)

lemma gpow_eq_le: "i \<le> j \<Longrightarrow> j < 255 \<Longrightarrow> gpow i = gpow j \<Longrightarrow> i = j"
proof -
  assume ij: "i \<le> j" "j < 255" "gpow i = gpow j"
  then have "(xtime ^^ i) (gpow (j - i)) = (xtime ^^ i) 1"
    by (simp only: gpow_add le_add_diff_inverse)
  then have "gpow (j - i) = 1" by (rule injD [OF inj_funpow_xtime])
  then show "i = j" using ij(1,2) gpow_period [of "j - i"] by linarith
qed

lemma gpow_inj: "i < 255 \<Longrightarrow> j < 255 \<Longrightarrow> gpow i = gpow j \<Longrightarrow> i = j"
  using gpow_eq_le [of i j] gpow_eq_le [of j i] by (cases "i \<le> j") auto

lemma gpow_nonzero [simp]: "gpow n \<noteq> 0"
  using injD [OF inj_funpow_xtime [of n], of 1 0] by auto

lemma gpow_surj:
  assumes "x \<noteq> 0"
  obtains i where "i < 255" and "x = gpow i"
proof -
  have inj: "inj_on gpow {0..<255}" by (auto intro!: inj_onI gpow_inj)
  have "card (gpow ` {0..<255}) = 255" using card_image [OF inj] by simp
  moreover have "card (UNIV - {0 :: u8}) = 255" by (simp add: card_Diff_singleton card_word)
  moreover have "gpow ` {0..<255} \<subseteq> UNIV - {0}" by auto
  ultimately have "gpow ` {0..<255} = UNIV - {0}"
    by (intro card_subset_eq) simp_all
  then have "x \<in> gpow ` {0..<255}" using assms by simp
  then show ?thesis using that by auto
qed

section \<open>The tables\<close>

lemma build_fold:
  assumes "n \<le> 255" and "fold build_step [0..<n] (replicate 512 0, replicate 256 0, 1) = (e, l, x)"
  shows "x = gpow n \<and> length e = 512 \<and> length l = 256 \<and>
    (\<forall>i < n. e ! i = gpow i \<and> e ! (i + 255) = gpow i \<and> l ! unat (gpow i) = word_of_nat i)"
  using assms
proof (induction n arbitrary: e l x)
  case 0
  then show ?case by auto
next
  case (Suc n)
  obtain e' l' x' where prev:
    "fold build_step [0..<n] (replicate 512 0, replicate 256 0, 1) = (e', l', x')"
    by (metis prod_cases3)
  from Suc.prems(2) prev have "build_step n (e', l', x') = (e, l, x)" by simp
  then have eq: "e = e'[n := x', n + 255 := x']" "l = l'[unat x' := word_of_nat n]" "x = xtime x'"
    by (simp_all add: build_step_def)
  from Suc.IH [OF _ prev] Suc.prems(1) have IH: "x' = gpow n" "length e' = 512" "length l' = 256"
    "\<And>i. i < n \<Longrightarrow> e' ! i = gpow i" "\<And>i. i < n \<Longrightarrow> e' ! (i + 255) = gpow i"
    "\<And>i. i < n \<Longrightarrow> l' ! unat (gpow i) = word_of_nat i" by auto
  have ub: "unat (y :: u8) < 256" for y using unsigned_less [of y] by simp
  have ne: "unat (gpow n) \<noteq> unat (gpow i)" if "i < n" for i
    using gpow_inj [of i n] that Suc.prems(1) by (auto simp: word_unat_eq_iff [symmetric])
  show ?case
    using IH Suc.prems(1) ub ne by (auto simp: eq nth_list_update less_Suc_eq)
qed

lemma build_tables_facts:
  shows gf_exp_nth: "k < 510 \<Longrightarrow> gf_exp build_tables ! k = gpow k"
    and gf_log_nth: "i < 255 \<Longrightarrow> gf_log build_tables ! unat (gpow i) = word_of_nat i"
proof -
  obtain e l x where f: "fold build_step [0..<255] (replicate 512 0, replicate 256 0, 1) = (e, l, x)"
    by (metis prod_cases3)
  note F = build_fold [OF order_refl f]
  have tab: "build_tables = \<lparr>gf_exp = e[255 := e ! 0, 510 := e[255 := e ! 0] ! 255], gf_log = l\<rparr>"
    unfolding build_tables_def f by (simp add: Let_def)
  show "i < 255 \<Longrightarrow> gf_log build_tables ! unat (gpow i) = word_of_nat i"
    using F by (simp add: tab)
  assume k: "k < 510"
  have "e ! 0 = 1" using F by force
  moreover have "e ! k = gpow k" if "k < 255" using F that by simp
  moreover have "e ! k = gpow k" if "255 < k"
  proof -
    define i where "i = k - 255"
    have i: "i < 255" "k = i + 255" using k that by (auto simp: i_def)
    then have "e ! k = gpow i" using F by simp
    also have "gpow i = gpow k" using gpow_add [of i 255] gpow_255 by (simp only: i(2))
    finally show ?thesis .
  qed
  ultimately show "gf_exp build_tables ! k = gpow k"
    using k F gpow_255 by (cases "k = 255"; cases "k < 255") (simp_all add: tab nth_list_update)
qed

section \<open>Field laws\<close>

lemma gf_mul_gpow: "i < 255 \<Longrightarrow> j < 255 \<Longrightarrow> gf_mul (gpow i) (gpow j) = gpow (i + j)"
  by (simp add: gf_mul_def gf_log_nth gf_exp_nth unat_of_nat)

lemma gf_mul_0 [simp]: "gf_mul 0 b = 0" "gf_mul a 0 = 0"
  by (simp_all add: gf_mul_def)

text \<open>Multiplication by a fixed factor is an iterate of the linear map \<open>xtime\<close>.\<close>

lemma gf_mul_funpow: "i < 255 \<Longrightarrow> gf_mul (gpow i) b = (xtime ^^ i) b"
proof (cases "b = 0")
  case False
  assume i: "i < 255"
  from False obtain j where "j < 255" "b = gpow j" by (rule gpow_surj)
  with i show ?thesis by (simp add: gf_mul_gpow gpow_add)
qed simp

lemma gf_mul_commute: "gf_mul a b = gf_mul b a"
  by (simp add: gf_mul_def add.commute)

lemma gf_mul_xor_right: "gf_mul a (b XOR c) = gf_mul a b XOR gf_mul a c"
proof (cases "a = 0")
  case False
  then obtain i where "i < 255" "a = gpow i" by (rule gpow_surj)
  then show ?thesis by (simp add: gf_mul_funpow funpow_xtime_xor)
qed simp

lemma gf_mul_xor_left: "gf_mul (a XOR b) c = gf_mul a c XOR gf_mul b c"
  using gf_mul_xor_right [of c a b] by (simp only: gf_mul_commute [of c])

lemma gf_mul_assoc: "gf_mul (gf_mul a b) c = gf_mul a (gf_mul b c)"
proof (cases "a = 0 \<or> c = 0")
  case False
  then obtain i k where ik: "i < 255" "a = gpow i" "k < 255" "c = gpow k"
    by (metis gpow_surj)
  have "gf_mul (gf_mul a b) c = (xtime ^^ k) ((xtime ^^ i) b)"
    using ik by (simp add: gf_mul_commute [of _ "gpow k"] gf_mul_funpow)
  also have "\<dots> = (xtime ^^ i) ((xtime ^^ k) b)"
    by (metis add.commute comp_apply funpow_add)
  also have "\<dots> = gf_mul a (gf_mul b c)"
    using ik by (simp add: gf_mul_commute [of _ "gpow k"] gf_mul_funpow)
  finally show ?thesis .
qed auto

lemma gf_mul_1 [simp]: "gf_mul 1 b = b" "gf_mul b 1 = b"
  using gf_mul_funpow [of 0 b] by (simp_all add: gf_mul_commute)

lemma gf_inv_mul: "gf_inv a = Some b \<Longrightarrow> gf_mul a b = 1"
proof -
  assume inv: "gf_inv a = Some b"
  then have "a \<noteq> 0" by (auto simp: gf_inv_def)
  then obtain i where i: "i < 255" "a = gpow i" by (rule gpow_surj)
  with inv have b: "b = gpow (255 - i)"
    by (simp add: gf_inv_def gf_log_nth gf_exp_nth unat_of_nat)
  have "gf_mul a b = (xtime ^^ i) (gpow (255 - i))" by (simp add: i b gf_mul_funpow)
  also have "\<dots> = 1" using i(1) gpow_255 by (simp only: gpow_add) simp
  finally show ?thesis .
qed

lemma gf_inv_total: "a \<noteq> 0 \<Longrightarrow> \<exists>b. gf_inv a = Some b"
  by (simp add: gf_inv_def)

lemma gf_coeff_nonzero: "gf_coeff r s \<noteq> 0"
  by (simp add: gf_coeff_def Let_def)

section \<open>The interface of the elimination code\<close>

text \<open>The inner product of a coefficient row with the unknowns, for any multiplication.\<close>

primrec dot :: "(u8 \<Rightarrow> u8 \<Rightarrow> u8) \<Rightarrow> u8 list \<Rightarrow> (nat \<Rightarrow> u8) \<Rightarrow> u8" where
  "dot mul [] x = 0"
| "dot mul (a # as) x = mul a (x 0) XOR dot mul as (\<lambda>i. x (Suc i))"

text \<open>
  What a client needs of the byte field. \<open>inv a\<close> is only required to invert non-zero bytes,
  which is the contract of \<open>gf_inv\<close>.
\<close>

locale byte_field =
  fixes mul :: "u8 \<Rightarrow> u8 \<Rightarrow> u8"
    and inv :: "u8 \<Rightarrow> u8 option"
  assumes mul_assoc: "mul (mul a b) c = mul a (mul b c)"
    and mul_commute: "mul a b = mul b a"
    and mul_xor: "mul a (b XOR c) = mul a b XOR mul a c"
    and mul_one: "mul 1 a = a"
    and inv_mul: "inv a = Some b \<Longrightarrow> mul a b = 1"
    and inv_defined: "a \<noteq> 0 \<Longrightarrow> inv a \<noteq> None"
begin

lemma mul_zero [simp]: "mul a 0 = 0" "mul 0 a = 0"
proof -
  show "mul a 0 = 0" using mul_xor [of a 0 0] by simp
  then show "mul 0 a = 0" by (simp add: mul_commute)
qed

lemma mul_xor_left: "mul (a XOR b) c = mul a c XOR mul b c"
  using mul_xor [of c a b] by (simp only: mul_commute [of c])

lemma mul_cancel: "inv a = Some b \<Longrightarrow> mul b (mul a c) = c"
  using inv_mul by (metis mul_assoc mul_commute mul_one)

lemma inv_nonzero: "inv a = Some b \<Longrightarrow> b \<noteq> 0"
  using inv_mul by fastforce

lemma mul_swap: "mul (mul a k) y = mul k (mul a y)"
  by (metis mul_assoc mul_commute)

lemma dot_scale: "dot mul (map (\<lambda>v. mul v k) as) x = mul k (dot mul as x)"
  by (induction "as" arbitrary: x) (simp_all add: mul_xor mul_swap)

lemma dot_axpy:
  "length bs = length as \<Longrightarrow>
   dot mul (map2 (\<lambda>a p. a XOR mul f p) as bs) x = dot mul as x XOR mul f (dot mul bs x)"
proof (induction "as" bs arbitrary: x rule: list_induct2')
  case (4 a "as" b bs)
  then show ?case
    by (simp add: mul_xor mul_xor_left mul_assoc xor.assoc xor.left_commute)
qed simp_all

lemma dot_xor: "dot mul as (\<lambda>i. x i XOR y i) = dot mul as x XOR dot mul as y"
  by (induction "as" arbitrary: x y) (simp_all add: mul_xor xor.assoc xor.left_commute)

lemma dot_zero: "(\<And>i. i < length as \<Longrightarrow> as ! i = 0 \<or> x i = 0) \<Longrightarrow> dot mul as x = 0"
proof (induction "as" arbitrary: x)
  case (Cons a "as")
  have "dot mul as (\<lambda>i. x (Suc i)) = 0"
  proof (rule Cons.IH)
    fix i assume "i < length as"
    then show "as ! i = 0 \<or> x (Suc i) = 0" using Cons.prems [of "Suc i"] by simp
  qed
  moreover have "mul a (x 0) = 0" using Cons.prems [of 0] by auto
  ultimately show ?case by simp
qed simp

lemma dot_single:
  assumes "c < length as" and "\<And>i. i < length as \<Longrightarrow> i \<noteq> c \<Longrightarrow> as ! i = 0 \<or> x i = 0"
  shows "dot mul as x = mul (as ! c) (x c)"
  using assms
proof (induction "as" arbitrary: x c)
  case (Cons a "as")
  show ?case
  proof (cases c)
    case 0
    have "dot mul as (\<lambda>i. x (Suc i)) = 0"
      by (rule dot_zero) (use Cons.prems(2) [of "Suc _"] 0 in simp)
    then show ?thesis using 0 by simp
  next
    case (Suc d)
    have "dot mul as (\<lambda>i. x (Suc i)) = mul (as ! d) (x (Suc d))"
    proof (rule Cons.IH)
      show "d < length as" using Cons.prems(1) Suc by simp
      fix i assume "i < length as" "i \<noteq> d"
      then show "as ! i = 0 \<or> x (Suc i) = 0" using Cons.prems(2) [of "Suc i"] Suc by simp
    qed
    moreover have "mul a (x 0) = 0" using Cons.prems(2) [of 0] Suc by auto
    ultimately show ?thesis using Suc by simp
  qed
qed simp

lemma dot_cong: "(\<And>i. i < length as \<Longrightarrow> x i = y i) \<Longrightarrow> dot mul as x = dot mul as y"
proof (induction "as" arbitrary: x y)
  case (Cons a "as")
  have "dot mul as (\<lambda>i. x (Suc i)) = dot mul as (\<lambda>i. y (Suc i))"
    by (rule Cons.IH) (simp add: Cons.prems)
  then show ?case using Cons.prems [of 0] by simp
qed simp

lemma dot_update:
  "p < length as \<Longrightarrow> as ! p = 0 \<Longrightarrow> dot mul (as[p := c]) x = dot mul as x XOR mul c (x p)"
proof (induction "as" arbitrary: p x)
  case (Cons a "as")
  then show ?case by (cases p) (simp_all add: xor.commute xor.left_commute xor.assoc)
qed simp

end

interpretation gf: byte_field gf_mul gf_inv
proof unfold_locales
  show "gf_inv a \<noteq> None" if "a \<noteq> 0" for a
    using gf_inv_total [OF that] by auto
qed (rule gf_mul_assoc gf_mul_commute gf_mul_xor_right gf_mul_1 gf_inv_mul, assumption?)+

section \<open>Agreement with shift-and-add multiplication\<close>

text \<open>
  The schoolbook product modulo \<open>x^8 + x^4 + x^3 + x^2 + 1\<close>: for each set bit \<open>i\<close> of \<open>b\<close>, add
  \<open>a\<close> multiplied \<open>i\<close> times by \<open>x\<close>.
\<close>

primrec shift_add :: "nat \<Rightarrow> u8 \<Rightarrow> u8 \<Rightarrow> u8" where
  "shift_add 0 a b = 0"
| "shift_add (Suc n) a b = (if bit b 0 then a else 0) XOR shift_add n (xtime a) (drop_bit 1 b)"

lemma gf_mul_2: "gf_mul 2 b = xtime b"
proof -
  have "gpow 1 = 2" by (simp add: xtime_eq bit_numeral_rec)
  then show ?thesis using gf_mul_funpow [of 1 b] by simp
qed

lemma gf_mul_xtime: "gf_mul (xtime a) b = xtime (gf_mul a b)"
  by (simp add: gf_mul_assoc flip: gf_mul_2)

lemma byte_split: "b = (if bit b 0 then 1 else 0) XOR xtime (drop_bit 1 b)" for b :: u8
proof -
  have nb: "\<not> bit (drop_bit 1 b) 7"
    by (auto simp: bit_simps dest: bit_imp_le_length)
  have "b = (if bit b 0 then 1 else 0) XOR push_bit 1 (drop_bit 1 b)"
  proof (rule bit_word_eqI)
    fix n assume "n < LENGTH(8)"
    then show "bit b n \<longleftrightarrow> bit ((if bit b 0 then 1 else 0) XOR push_bit 1 (drop_bit 1 b)) n"
      by (cases n) (auto simp: bit_simps simp del: push_bit_Suc)
  qed
  with nb show ?thesis by (simp add: xtime_eq)
qed

lemma gf_mul_shift_add_aux: "drop_bit n b = 0 \<Longrightarrow> gf_mul a b = shift_add n a b"
proof (induction n arbitrary: a b)
  case 0
  then show ?case by simp
next
  case (Suc n)
  then have IH: "gf_mul (xtime a) (drop_bit 1 b) = shift_add n (xtime a) (drop_bit 1 b)"
    by (simp add: drop_bit_drop_bit)
  have "gf_mul a b = gf_mul a (if bit b 0 then 1 else 0) XOR gf_mul a (xtime (drop_bit 1 b))"
    by (subst byte_split) (rule gf_mul_xor_right)
  also have "gf_mul a (xtime (drop_bit 1 b)) = gf_mul (xtime a) (drop_bit 1 b)"
    by (metis gf_mul_commute gf_mul_xtime)
  finally show ?case using IH by (simp add: if_distrib)
qed

lemma gf_mul_shift_add: "gf_mul a b = shift_add 8 a b"
  by (rule gf_mul_shift_add_aux) (rule bit_word_eqI, auto simp: bit_simps dest: bit_imp_le_length)


section \<open>Evaluation\<close>

text \<open>
  Facts that evaluate products and inverses of concrete bytes by simplification, without building
  the tables.
\<close>

lemma shift_add_8:
  "shift_add 8 a b =
     (let a1 = xtime a; a2 = xtime a1; a3 = xtime a2; a4 = xtime a3; a5 = xtime a4; a6 = xtime a5; a7 = xtime a6
      in (if bit b 0 then a else 0) XOR (if bit b 1 then a1 else 0) XOR (if bit b 2 then a2 else 0) XOR
         (if bit b 3 then a3 else 0) XOR (if bit b 4 then a4 else 0) XOR (if bit b 5 then a5 else 0) XOR
         (if bit b 6 then a6 else 0) XOR (if bit b 7 then a7 else 0))"
  by (simp add: eval_nat_numeral bit_drop_bit_eq Let_def comp_def)

lemmas gf_eval = gf_mul_shift_add shift_add_8 xtime_def bit_numeral_rec

lemma gf_inv_unique: "gf_mul a b = 1 \<Longrightarrow> gf_inv a = Some b"
proof -
  assume ab: "gf_mul a b = 1"
  then have "a \<noteq> 0" by auto
  then obtain c where c: "gf_inv a = Some c" using gf_inv_total by blast
  then show ?thesis using gf.mul_cancel [OF c, of b] ab by simp
qed

section \<open>Properties\<close>

text \<open>
  The logarithm tables implement the field: the table product is the schoolbook product of
  polynomials modulo \<open>x^8 + x^4 + x^3 + x^2 + 1\<close> for all 65536 operand pairs, every non-zero byte has
  the inverse \<open>gf_inv\<close> returns, \<open>gf_inv 0\<close> is the assertion failure, and no coefficient is zero.
\<close>

theorem gf_tables_correct:
  "gf_mul a b = shift_add 8 a b \<and>
   (case gf_inv a of None \<Rightarrow> a = 0 | Some k \<Rightarrow> a \<noteq> 0 \<and> gf_mul a k = 1 \<and> gf_mul k a = 1) \<and>
   gf_coeff rs s \<noteq> 0"
  using gf_mul_shift_add [of a b] gf_coeff_nonzero [of rs s] gf_inv_mul [of a] gf_inv_total [of a] gf_mul_commute [of a]
  by (cases "a = 0") (auto simp: gf_inv_def split: option.split)

end
