(* ===== verification/Gauss.thy ===== *)
theory Gauss
  imports Gf256
begin

text \<open>
  \<open>gaussian_elim\<close> of \<open>transport-core/src/fec.rs\<close>: Gauss-Jordan elimination over GF(256) with a
  right-hand side of byte vectors. The state of the column loop is a record; every elementary row
  operation keeps exactly the solutions of the system, so the reported columns are the ones the
  system determines: soundness (\<open>gaussian_elim_sound\<close>) and completeness
  (\<open>gaussian_elim_complete\<close>).
\<close>

section \<open>Definitions\<close>

record gauss_state =
  ge_coeffs :: "u8 list list"
  ge_rhs :: "u8 list list"
  ge_pivot_row :: "nat option list"
  ge_current_row :: nat

definition swap_rows :: "nat \<Rightarrow> nat \<Rightarrow> 'a list \<Rightarrow> 'a list" where
  "swap_rows i p xs = xs[i := xs ! p, p := xs ! i]"

text \<open>\<open>row[c] ^= gf_mul(factor, pivot[c])\<close> for every position of the row.\<close>

definition axpy_row :: "u8 \<Rightarrow> u8 list \<Rightarrow> u8 list \<Rightarrow> u8 list" where
  "axpy_row factor row pivot = map2 (\<lambda>a p. a XOR gf_mul factor p) row pivot"

text \<open>
  The inner loop: every row but the pivot row loses its multiple of the pivot row. The factor is
  read from the coefficient matrix before the row is changed, for both matrices.
\<close>

definition eliminate_rows :: "nat \<Rightarrow> nat \<Rightarrow> u8 list list \<Rightarrow> u8 list list \<Rightarrow> u8 list list" where
  "eliminate_rows cur col coeffs m =
     map (\<lambda>r. if r = cur \<or> coeffs ! r ! col = 0 then m ! r
              else axpy_row (coeffs ! r ! col) (m ! r) (m ! cur)) [0..<length m]"

text \<open>One column with pivot row \<open>p\<close>; \<open>None\<close> is the assertion failure of \<open>gf_inv\<close>.\<close>

definition pivot_step :: "nat \<Rightarrow> nat \<Rightarrow> gauss_state \<Rightarrow> gauss_state option" where
  "pivot_step col p s =
     (let cur = ge_current_row s;
          coeffs = swap_rows cur p (ge_coeffs s);
          rhs = swap_rows cur p (ge_rhs s);
          lead = coeffs ! cur ! col
      in case gf_inv lead of
           None \<Rightarrow> None
         | Some inv_lead \<Rightarrow>
             (let coeffs = coeffs[cur := map (\<lambda>v. gf_mul v inv_lead) (coeffs ! cur)];
                  rhs = rhs[cur := map (\<lambda>b. gf_mul b inv_lead) (rhs ! cur)]
              in Some (s\<lparr>ge_coeffs := eliminate_rows cur col coeffs coeffs,
                         ge_rhs := eliminate_rows cur col coeffs rhs,
                         ge_pivot_row := (ge_pivot_row s)[col := Some cur],
                         ge_current_row := cur + 1\<rparr>)))"

fun gauss_loop :: "nat \<Rightarrow> nat list \<Rightarrow> gauss_state \<Rightarrow> gauss_state option" where
  "gauss_loop n_rows [] s = Some s"
| "gauss_loop n_rows (col # cols) s =
     (case find (\<lambda>r. ge_coeffs s ! r ! col \<noteq> 0) [ge_current_row s..<n_rows] of
        None \<Rightarrow> gauss_loop n_rows cols s
      | Some p \<Rightarrow>
          (case pivot_step col p s of
             None \<Rightarrow> None
           | Some s' \<Rightarrow>
               if n_rows \<le> ge_current_row s' then Some s' else gauss_loop n_rows cols s'))"

text \<open>A pivot column is reported when no non-pivot column of its row has a coefficient.\<close>

definition fully_determined :: "gauss_state \<Rightarrow> nat \<Rightarrow> nat \<Rightarrow> bool" where
  "fully_determined s n_unknowns pr =
     list_all (\<lambda>c. ge_coeffs s ! pr ! c = 0) (filter (\<lambda>c. ge_pivot_row s ! c = None) [0..<n_unknowns])"

definition collect_solutions :: "gauss_state \<Rightarrow> nat \<Rightarrow> (nat \<times> bytes) list" where
  "collect_solutions s n_unknowns =
     List.map_filter
       (\<lambda>col. case ge_pivot_row s ! col of
          None \<Rightarrow> None
        | Some pr \<Rightarrow> if fully_determined s n_unknowns pr then Some (col, ge_rhs s ! pr) else None)
       [0..<n_unknowns]"

definition gaussian_elim ::
  "u8 list list \<Rightarrow> u8 list list \<Rightarrow> nat \<Rightarrow> nat \<Rightarrow> (nat \<times> bytes) list option" where
  "gaussian_elim coeffs rhs n_unknowns payload_len =
     (let n_rows = length coeffs
      in if n_rows = 0 \<or> n_unknowns = 0 \<or> payload_len = 0 then Some []
         else map_option (\<lambda>s. collect_solutions s n_unknowns)
           (gauss_loop n_rows [0..<n_unknowns]
             \<lparr>ge_coeffs = coeffs, ge_rhs = rhs,
              ge_pivot_row = replicate n_unknowns None, ge_current_row = 0\<rparr>))"

section \<open>Systems and their solutions\<close>

text \<open>\<open>x\<close> solves byte \<open>j\<close> of every row.\<close>

definition solves :: "u8 list list \<Rightarrow> u8 list list \<Rightarrow> nat \<Rightarrow> (nat \<Rightarrow> u8) \<Rightarrow> bool" where
  "solves C R j x \<longleftrightarrow> (\<forall>r < length C. dot gf_mul (C ! r) x = R ! r ! j)"

definition rect :: "nat \<Rightarrow> nat \<Rightarrow> 'a list list \<Rightarrow> bool" where
  "rect rows width M \<longleftrightarrow> length M = rows \<and> (\<forall>r < rows. length (M ! r) = width)"

lemma rectD: "rect n w M \<Longrightarrow> length M = n" "rect n w M \<Longrightarrow> r < n \<Longrightarrow> length (M ! r) = w"
  by (simp_all add: rect_def)

lemma length_axpy_row [simp]: "length (axpy_row f a b) = min (length a) (length b)"
  by (simp add: axpy_row_def)

lemma nth_axpy_row:
  "i < length a \<Longrightarrow> i < length b \<Longrightarrow> axpy_row f a b ! i = a ! i XOR gf_mul f (b ! i)"
  by (simp add: axpy_row_def)

lemma length_swap_rows [simp]: "length (swap_rows i p xs) = length xs"
  by (simp add: swap_rows_def)

lemma nth_swap_rows:
  "i < length xs \<Longrightarrow> p < length xs \<Longrightarrow> r < length xs \<Longrightarrow>
   swap_rows i p xs ! r = xs ! (if r = i then p else if r = p then i else r)"
  by (simp add: swap_rows_def nth_list_update)

lemma rect_swap: "rect n w M \<Longrightarrow> i < n \<Longrightarrow> p < n \<Longrightarrow> rect n w (swap_rows i p M)"
  by (auto simp: rect_def nth_swap_rows)

lemma rect_scale: "rect n w M \<Longrightarrow> rect n w (M[i := map f (M ! i)])"
  by (cases "i < length M") (auto simp: rect_def nth_list_update)

lemma length_eliminate_rows [simp]: "length (eliminate_rows cur col C M) = length M"
  by (simp add: eliminate_rows_def)

lemma nth_eliminate_rows:
  "r < length M \<Longrightarrow> eliminate_rows cur col C M ! r =
     (if r = cur \<or> C ! r ! col = 0 then M ! r else axpy_row (C ! r ! col) (M ! r) (M ! cur))"
  by (simp add: eliminate_rows_def)

lemma rect_eliminate: "rect n w M \<Longrightarrow> cur < n \<Longrightarrow> rect n w (eliminate_rows cur col C M)"
  by (auto simp: rect_def nth_eliminate_rows)

text \<open>The three elementary operations keep exactly the same solutions.\<close>

lemma solves_swap:
  assumes "rect n w C" "rect n l R" "i < n" "p < n"
  shows "solves (swap_rows i p C) (swap_rows i p R) j x \<longleftrightarrow> solves C R j x"
proof -
  have *: "solves (swap_rows i p C) (swap_rows i p R) j x \<longleftrightarrow>
      (\<forall>r < n. let q = if r = i then p else if r = p then i else r in dot gf_mul (C ! q) x = R ! q ! j)"
    using assms by (simp add: solves_def nth_swap_rows rectD Let_def)
  show ?thesis unfolding * using assms
    by (auto simp: solves_def rectD Let_def split: if_splits)
qed

lemma solves_scale:
  assumes "rect n w C" "rect n l R" "i < n" "j < l" "gf_inv a = Some k"
  shows "solves (C[i := map (\<lambda>v. gf_mul v k) (C ! i)]) (R[i := map (\<lambda>b. gf_mul b k) (R ! i)]) j x
    \<longleftrightarrow> solves C R j x"
proof -
  have "gf_mul k u = gf_mul v k \<longleftrightarrow> u = v" for u v
    using gf.mul_cancel [OF assms(5)] by (metis gf_mul_assoc gf_mul_commute)
  then show ?thesis using assms
    by (auto simp: solves_def nth_list_update rectD gf.dot_scale)
qed

lemma solves_eliminate:
  assumes "rect n w C" "rect n l R" "cur < n" "j < l"
  shows "solves (eliminate_rows cur col C C) (eliminate_rows cur col C R) j x \<longleftrightarrow> solves C R j x"
    (is "?L \<longleftrightarrow> ?R")
proof -
  have row: "dot gf_mul (eliminate_rows cur col C C ! r) x = eliminate_rows cur col C R ! r ! j \<longleftrightarrow>
      dot gf_mul (C ! r) x = R ! r ! j"
    if "r < n" "dot gf_mul (C ! cur) x = R ! cur ! j" for r
    using assms that
    by (auto simp: nth_eliminate_rows rectD nth_axpy_row)
      (auto simp: axpy_row_def gf.dot_axpy rectD)
  have cur: "dot gf_mul (eliminate_rows cur col C C ! cur) x = eliminate_rows cur col C R ! cur ! j \<longleftrightarrow>
      dot gf_mul (C ! cur) x = R ! cur ! j"
    using assms by (simp add: nth_eliminate_rows rectD)
  show ?thesis
    using row cur assms(1,3) by (auto simp: solves_def rectD)
qed

section \<open>The loop invariant\<close>

text \<open>
  After the columns below \<open>k\<close>: every pivot column is a unit vector, every row above the current one
  is the pivot row of some column, and the remaining rows vanish on the non-pivot columns.
\<close>

definition gauss_inv :: "nat \<Rightarrow> nat \<Rightarrow> nat \<Rightarrow> nat \<Rightarrow> gauss_state \<Rightarrow> bool" where
  "gauss_inv n_rows n l k s \<longleftrightarrow>
     rect n_rows n (ge_coeffs s) \<and> rect n_rows l (ge_rhs s) \<and> length (ge_pivot_row s) = n \<and>
     ge_current_row s \<le> n_rows \<and>
     (\<forall>c < n. \<forall>r. ge_pivot_row s ! c = Some r \<longrightarrow> c < k \<and> r < ge_current_row s \<and>
        ge_coeffs s ! r ! c = 1 \<and> (\<forall>r' < n_rows. r' \<noteq> r \<longrightarrow> ge_coeffs s ! r' ! c = 0)) \<and>
     (\<forall>r < ge_current_row s. \<exists>c < n. ge_pivot_row s ! c = Some r) \<and>
     (\<forall>c < n. \<forall>c' < n. \<forall>r. ge_pivot_row s ! c = Some r \<longrightarrow> ge_pivot_row s ! c' = Some r \<longrightarrow> c = c') \<and>
     (\<forall>c < n. c < k \<longrightarrow> ge_pivot_row s ! c = None \<longrightarrow>
        (\<forall>r < n_rows. ge_current_row s \<le> r \<longrightarrow> ge_coeffs s ! r ! c = 0))"

lemma gauss_invD:
  assumes "gauss_inv n_rows n l k s"
  shows "rect n_rows n (ge_coeffs s)" "rect n_rows l (ge_rhs s)" "length (ge_pivot_row s) = n"
    "ge_current_row s \<le> n_rows"
    "c < n \<Longrightarrow> ge_pivot_row s ! c = Some r \<Longrightarrow> c < k"
    "c < n \<Longrightarrow> ge_pivot_row s ! c = Some r \<Longrightarrow> r < ge_current_row s"
    "c < n \<Longrightarrow> ge_pivot_row s ! c = Some r \<Longrightarrow> ge_coeffs s ! r ! c = 1"
    "c < n \<Longrightarrow> ge_pivot_row s ! c = Some r \<Longrightarrow> r' < n_rows \<Longrightarrow> r' \<noteq> r \<Longrightarrow> ge_coeffs s ! r' ! c = 0"
    "r < ge_current_row s \<Longrightarrow> \<exists>c < n. ge_pivot_row s ! c = Some r"
    "c < n \<Longrightarrow> c < k \<Longrightarrow> ge_pivot_row s ! c = None \<Longrightarrow> r < n_rows \<Longrightarrow> ge_current_row s \<le> r \<Longrightarrow>
       ge_coeffs s ! r ! c = 0"
    "c < n \<Longrightarrow> c' < n \<Longrightarrow> ge_pivot_row s ! c = Some r \<Longrightarrow> ge_pivot_row s ! c' = Some r \<Longrightarrow> c = c'"
  using assms unfolding gauss_inv_def by blast+

text \<open>The coefficient matrix after one pivot step, entry by entry.\<close>

definition pivot_coeffs :: "nat \<Rightarrow> nat \<Rightarrow> u8 \<Rightarrow> nat \<Rightarrow> u8 list list \<Rightarrow> u8 list list" where
  "pivot_coeffs cur p k col C =
     (let C1 = swap_rows cur p C; C2 = C1[cur := map (\<lambda>v. gf_mul v k) (C1 ! cur)]
      in eliminate_rows cur col C2 C2)"

lemma pivot_coeffs_entry:
  assumes "rect n_rows n C" "cur < n_rows" "p < n_rows" "r < n_rows" "c < n" "col < n"
  shows "pivot_coeffs cur p k col C ! r ! c =
    (if r = cur then gf_mul (C ! p ! c) k
     else let q = (if r = p then cur else r) in
       C ! q ! c XOR gf_mul (C ! q ! col) (gf_mul (C ! p ! c) k))"
proof -
  note R = rectD [OF assms(1)]
  have "rect n_rows n (swap_rows cur p C)" by (rule rect_swap [OF assms(1-3)])
  note S = rectD [OF this]
  show ?thesis
    using assms(2-) R S
    by (auto simp: pivot_coeffs_def Let_def nth_eliminate_rows nth_list_update nth_swap_rows nth_axpy_row)
qed

lemma pivot_step_Some:
  assumes inv: "gauss_inv n_rows n l col s" and col: "col < n"
    and p: "ge_current_row s \<le> p" "p < n_rows" "ge_coeffs s ! p ! col \<noteq> 0"
  obtains s' k where "pivot_step col p s = Some s'"
    and "gf_inv (ge_coeffs s ! p ! col) = Some k"
    and "ge_coeffs s' = pivot_coeffs (ge_current_row s) p k col (ge_coeffs s)"
    and "ge_pivot_row s' = (ge_pivot_row s)[col := Some (ge_current_row s)]"
    and "ge_current_row s' = Suc (ge_current_row s)"
    and "rect n_rows n (ge_coeffs s')" "rect n_rows l (ge_rhs s')"
    and "\<And>j x. j < l \<Longrightarrow> solves (ge_coeffs s') (ge_rhs s') j x \<longleftrightarrow> solves (ge_coeffs s) (ge_rhs s) j x"
proof -
  let ?cur = "ge_current_row s"
  note C = gauss_invD(1) [OF inv] and R = gauss_invD(2) [OF inv]
  have cur: "?cur < n_rows" using p by simp
  from p(3) obtain k where k: "gf_inv (ge_coeffs s ! p ! col) = Some k"
    using gf_inv_total by blast
  define C1 where "C1 = swap_rows ?cur p (ge_coeffs s)"
  define R1 where "R1 = swap_rows ?cur p (ge_rhs s)"
  define C2 where "C2 = C1[?cur := map (\<lambda>v. gf_mul v k) (C1 ! ?cur)]"
  define R2 where "R2 = R1[?cur := map (\<lambda>b. gf_mul b k) (R1 ! ?cur)]"
  have r1: "rect n_rows n C1" "rect n_rows l R1"
    using C R cur p(2) by (simp_all add: C1_def R1_def rect_swap)
  have r2: "rect n_rows n C2" "rect n_rows l R2"
    using r1 by (simp_all add: C2_def R2_def rect_scale)
  have lead: "C1 ! ?cur ! col = ge_coeffs s ! p ! col"
    using cur p(2) rectD(1) [OF C] by (simp add: C1_def nth_swap_rows)
  define s' where "s' = s\<lparr>ge_coeffs := eliminate_rows ?cur col C2 C2,
     ge_rhs := eliminate_rows ?cur col C2 R2,
     ge_pivot_row := (ge_pivot_row s)[col := Some ?cur], ge_current_row := Suc ?cur\<rparr>"
  have step: "pivot_step col p s = Some s'"
    using k lead by (simp add: pivot_step_def Let_def s'_def C2_def R2_def C1_def R1_def)
  have sol: "solves (ge_coeffs s') (ge_rhs s') j x \<longleftrightarrow> solves (ge_coeffs s) (ge_rhs s) j x"
    if "j < l" for j x
    using solves_eliminate [OF r2 cur that] solves_scale [OF r1 cur that k] solves_swap [OF C R cur p(2)]
    by (simp add: s'_def C2_def R2_def C1_def R1_def)
  show thesis
    by (rule that [OF step k]) (use sol r2 cur in
      \<open>simp_all add: s'_def pivot_coeffs_def Let_def C2_def C1_def rect_eliminate\<close>)
qed

lemma pivot_coeffs_column:
  assumes inv: "gauss_inv n_rows n l col s" and col: "col < n"
    and p: "ge_current_row s \<le> p" "p < n_rows"
    and k: "gf_inv (ge_coeffs s ! p ! col) = Some k"
    and c: "c < n" "ge_pivot_row s ! c = Some r0" and r: "r < n_rows"
  shows "pivot_coeffs (ge_current_row s) p k col (ge_coeffs s) ! r ! c = (if r = r0 then 1 else 0)"
proof -
  have cur: "ge_current_row s < n_rows" using p by simp
  have r0: "r0 < ge_current_row s" using gauss_invD(6) [OF inv c] .
  have zero: "ge_coeffs s ! p ! c = 0" using gauss_invD(8) [OF inv c p(2)] p(1) r0 by simp
  have zero': "ge_coeffs s ! q ! c = 0" if "q < n_rows" "q \<noteq> r0" for q
    using gauss_invD(8) [OF inv c that] .
  show ?thesis
    using pivot_coeffs_entry [OF gauss_invD(1) [OF inv] cur p(2) r c(1) col, of k]
      gauss_invD(7) [OF inv c] zero zero' r r0 p cur
    by (auto simp: Let_def)
qed

lemma pivot_coeffs_new_column:
  assumes inv: "gauss_inv n_rows n l col s" and col: "col < n"
    and p: "ge_current_row s \<le> p" "p < n_rows"
    and k: "gf_inv (ge_coeffs s ! p ! col) = Some k" and r: "r < n_rows"
  shows "pivot_coeffs (ge_current_row s) p k col (ge_coeffs s) ! r ! col =
    (if r = ge_current_row s then 1 else 0)"
  using pivot_coeffs_entry [OF gauss_invD(1) [OF inv] _ p(2) r col col, of "ge_current_row s" k]
    gf_inv_mul [OF k] p by (simp add: Let_def)

lemma pivot_step_inv:
  assumes inv: "gauss_inv n_rows n l col s" and col: "col < n"
    and p: "ge_current_row s \<le> p" "p < n_rows"
    and k: "gf_inv (ge_coeffs s ! p ! col) = Some k"
    and s': "ge_coeffs s' = pivot_coeffs (ge_current_row s) p k col (ge_coeffs s)"
      "ge_pivot_row s' = (ge_pivot_row s)[col := Some (ge_current_row s)]"
      "ge_current_row s' = Suc (ge_current_row s)"
      "rect n_rows n (ge_coeffs s')" "rect n_rows l (ge_rhs s')"
  shows "gauss_inv n_rows n l (Suc col) s'"
proof -
  let ?cur = "ge_current_row s"
  have cur: "?cur < n_rows" using p by simp
  have pr: "ge_pivot_row s' ! c = (if c = col then Some ?cur else ge_pivot_row s ! c)" if "c < n" for c
    using that gauss_invD(3) [OF inv] by (auto simp: s'(2) nth_list_update)
  have piv: "c < Suc col \<and> r < Suc ?cur \<and> ge_coeffs s' ! r ! c = 1 \<and>
      (\<forall>r' < n_rows. r' \<noteq> r \<longrightarrow> ge_coeffs s' ! r' ! c = 0)"
    if c: "c < n" and some: "ge_pivot_row s' ! c = Some r" for c r
  proof (cases "c = col")
    case True
    then have "r = ?cur" using some pr [OF c] by simp
    then show ?thesis
      using True cur pivot_coeffs_new_column [OF inv col p k] by (simp add: s'(1))
  next
    case False
    then have old: "ge_pivot_row s ! c = Some r" using some pr [OF c] by simp
    show ?thesis
      using pivot_coeffs_column [OF inv col p k c old] gauss_invD(5,6) [OF inv c old] cur
      by (auto simp: s'(1))
  qed
  have rows: "\<exists>c < n. ge_pivot_row s' ! c = Some r" if "r < Suc ?cur" for r
  proof (cases "r = ?cur")
    case True
    then show ?thesis using pr col by auto
  next
    case False
    then obtain c where c: "c < n" "ge_pivot_row s ! c = Some r"
      using gauss_invD(9) [OF inv, of r] \<open>r < Suc ?cur\<close> by auto
    then have "c < col" using gauss_invD(5) [OF inv] by blast
    then show ?thesis using c pr [of c] by auto
  qed
  have free: "ge_coeffs s' ! r ! c = 0"
    if c: "c < n" "c < Suc col" and none: "ge_pivot_row s' ! c = None" and r: "r < n_rows" "Suc ?cur \<le> r"
    for c r
  proof -
    have "c < col" "ge_pivot_row s ! c = None" using c none pr [of c] by (auto split: if_splits)
    then have "ge_coeffs s ! q ! c = 0" if "q < n_rows" "?cur \<le> q" for q
      using gauss_invD(10) [OF inv c(1)] that by blast
    then show ?thesis
      using pivot_coeffs_entry [OF gauss_invD(1) [OF inv] cur p(2) r(1) c(1) col, of k] p r cur
      by (auto simp: s'(1) Let_def)
  qed
  have inj: "c = c'"
    if "c < n" "c' < n" "ge_pivot_row s' ! c = Some r" "ge_pivot_row s' ! c' = Some r" for c c' r
  proof (rule ccontr)
    assume "c \<noteq> c'"
    then have "r \<noteq> ?cur" and "ge_pivot_row s ! c = Some r \<and> ge_pivot_row s ! c' = Some r \<or> r = ?cur"
      using that pr [of c] pr [of c'] gauss_invD(6) [OF inv, of c r] gauss_invD(6) [OF inv, of c' r]
      by (auto split: if_splits)
    then show False using gauss_invD(11) [OF inv that(1,2)] \<open>c \<noteq> c'\<close> by blast
  qed
  show ?thesis
    unfolding gauss_inv_def
    using s' gauss_invD(3) [OF inv] cur piv rows free inj by (auto simp: Suc_le_eq)
qed

lemma gauss_inv_mono:
  assumes "gauss_inv n_rows n l k s" "n_rows \<le> ge_current_row s" "k \<le> n"
  shows "gauss_inv n_rows n l n s"
  using assms unfolding gauss_inv_def by (auto dest: order.strict_trans2)

lemma gauss_inv_skip:
  assumes inv: "gauss_inv n_rows n l col s" and col: "col < n"
    and none: "find (\<lambda>r. ge_coeffs s ! r ! col \<noteq> 0) [ge_current_row s..<n_rows] = None"
  shows "gauss_inv n_rows n l (Suc col) s"
proof -
  have "ge_coeffs s ! r ! col = 0" if "r < n_rows" "ge_current_row s \<le> r" for r
    using none that by (auto simp: find_None_iff)
  then show ?thesis
    using inv unfolding gauss_inv_def by (auto simp: less_Suc_eq)
qed

text \<open>The loop never fails and ends in reduced form with the solutions it started with.\<close>

lemma gauss_loop_correct:
  assumes "gauss_inv n_rows n l col s" "col \<le> n"
  shows "\<exists>s'. gauss_loop n_rows [col..<n] s = Some s' \<and> gauss_inv n_rows n l n s' \<and>
    (\<forall>j < l. \<forall>x. solves (ge_coeffs s') (ge_rhs s') j x \<longleftrightarrow> solves (ge_coeffs s) (ge_rhs s) j x)"
  using assms
proof (induction "n - col" arbitrary: col s)
  case 0
  then show ?case by simp
next
  case (Suc m)
  then have col: "col < n" and m: "m = n - Suc col" "Suc col \<le> n" by auto
  have upt: "[col..<n] = col # [Suc col..<n]" using col by (rule upt_conv_Cons)
  show ?case
  proof (cases "find (\<lambda>r. ge_coeffs s ! r ! col \<noteq> 0) [ge_current_row s..<n_rows]")
    case None
    show ?thesis
      using Suc.hyps(1) [OF m(1) gauss_inv_skip [OF Suc.prems(1) col None] m(2)] None
      by (simp add: upt)
  next
    case (Some p)
    then have p: "ge_current_row s \<le> p" "p < n_rows" "ge_coeffs s ! p ! col \<noteq> 0"
      by (auto simp: find_Some_iff)
    obtain s' k where s': "pivot_step col p s = Some s'"
      "gf_inv (ge_coeffs s ! p ! col) = Some k"
      "ge_coeffs s' = pivot_coeffs (ge_current_row s) p k col (ge_coeffs s)"
      "ge_pivot_row s' = (ge_pivot_row s)[col := Some (ge_current_row s)]"
      "ge_current_row s' = Suc (ge_current_row s)"
      "rect n_rows n (ge_coeffs s')" "rect n_rows l (ge_rhs s')"
      "\<And>j x. j < l \<Longrightarrow> solves (ge_coeffs s') (ge_rhs s') j x \<longleftrightarrow> solves (ge_coeffs s) (ge_rhs s) j x"
      by (rule pivot_step_Some [OF Suc.prems(1) col p]) blast
    have inv': "gauss_inv n_rows n l (Suc col) s'"
      by (rule pivot_step_inv [OF Suc.prems(1) col p(1,2) s'(2-7)])
    show ?thesis
    proof (cases "n_rows \<le> ge_current_row s'")
      case True
      then show ?thesis
        using Some s'(1,8) gauss_inv_mono [OF inv' True m(2)] by (simp add: upt)
    next
      case False
      then show ?thesis
        using Some s'(1,8) Suc.hyps(1) [OF m(1) inv' m(2)] by (simp add: upt)
    qed
  qed
qed

section \<open>What the elimination reports\<close>

lemma gauss_inv_init:
  "rect n_rows n C \<Longrightarrow> rect n_rows l R \<Longrightarrow>
   gauss_inv n_rows n l 0 \<lparr>ge_coeffs = C, ge_rhs = R,
     ge_pivot_row = replicate n None, ge_current_row = 0\<rparr>"
  by (simp add: gauss_inv_def)

lemma gaussian_elim_state:
  assumes "rect n_rows n C" "rect n_rows l R" "0 < n_rows" "0 < n" "0 < l"
  obtains s where "gaussian_elim C R n l = Some (collect_solutions s n)" "gauss_inv n_rows n l n s"
    "\<And>j x. j < l \<Longrightarrow> solves (ge_coeffs s) (ge_rhs s) j x \<longleftrightarrow> solves C R j x"
proof -
  obtain s where s: "gauss_loop n_rows [0..<n]
       \<lparr>ge_coeffs = C, ge_rhs = R, ge_pivot_row = replicate n None, ge_current_row = 0\<rparr> = Some s"
    "gauss_inv n_rows n l n s"
    "\<forall>j < l. \<forall>x. solves (ge_coeffs s) (ge_rhs s) j x \<longleftrightarrow> solves C R j x"
    using gauss_loop_correct [OF gauss_inv_init [OF assms(1,2)] le0] by auto
  have "gaussian_elim C R n l = Some (collect_solutions s n)"
    using s(1) assms(3-5) rectD(1) [OF assms(1)] by (simp add: gaussian_elim_def Let_def)
  then show thesis using that s by blast
qed

lemma collect_solutions_iff:
  "(col, v) \<in> set (collect_solutions s n) \<longleftrightarrow>
   col < n \<and> (\<exists>pr. ge_pivot_row s ! col = Some pr \<and> fully_determined s n pr \<and> v = ge_rhs s ! pr)"
proof -
  have "(case ge_pivot_row s ! c of None \<Rightarrow> None
      | Some pr \<Rightarrow> if fully_determined s n pr then Some (c, ge_rhs s ! pr) else None) = Some (col, v) \<longleftrightarrow>
    c = col \<and> (\<exists>pr. ge_pivot_row s ! col = Some pr \<and> fully_determined s n pr \<and> v = ge_rhs s ! pr)" for c
    by (cases "ge_pivot_row s ! c") auto
  then show ?thesis by (auto simp: collect_solutions_def set_map_filter)
qed

lemma distinct_collect_solutions: "distinct (map fst (collect_solutions s n))"
  unfolding collect_solutions_def
  by (subst map_map_filter) (auto split: option.splits if_splits)

lemma fully_determined_iff:
  "fully_determined s n pr \<longleftrightarrow> (\<forall>c < n. ge_pivot_row s ! c = None \<longrightarrow> ge_coeffs s ! pr ! c = 0)"
  by (auto simp: fully_determined_def list_all_iff)

lemma determined_value:
  assumes inv: "gauss_inv n_rows n l n s"
    and col: "col < n" "ge_pivot_row s ! col = Some pr" and det: "fully_determined s n pr"
    and sol: "solves (ge_coeffs s) (ge_rhs s) j x"
  shows "ge_rhs s ! pr ! j = x col"
proof -
  note C = gauss_invD(1) [OF inv]
  have pr: "pr < n_rows" using gauss_invD(4,6) [OF inv] col by fastforce
  have "ge_coeffs s ! pr ! i = 0" if i: "i < n" "i \<noteq> col" for i
  proof (cases "ge_pivot_row s ! i")
    case None
    then show ?thesis using det i by (simp add: fully_determined_iff)
  next
    case (Some r)
    have "pr \<noteq> r" using gauss_invD(11) [OF inv i(1) col(1)] Some col(2) i(2) by auto
    then show ?thesis using gauss_invD(8) [OF inv i(1) Some pr] by simp
  qed
  then have "dot gf_mul (ge_coeffs s ! pr) x = gf_mul (ge_coeffs s ! pr ! col) (x col)"
    using rectD(2) [OF C pr] col(1) by (intro gf.dot_single) auto
  then show ?thesis
    using sol pr rectD(1) [OF C] gauss_invD(7) [OF inv col] by (simp add: solves_def)
qed

text \<open>
  The kernel vector of a free column \<open>f\<close>: 1 at \<open>f\<close>, and at every pivot column the entry of its
  pivot row at \<open>f\<close>.
\<close>

definition kernel_vec :: "gauss_state \<Rightarrow> nat \<Rightarrow> nat \<Rightarrow> nat \<Rightarrow> u8" where
  "kernel_vec s n f i =
     (if i = f then 1
      else if i < n then (case ge_pivot_row s ! i of None \<Rightarrow> 0 | Some r \<Rightarrow> ge_coeffs s ! r ! f)
      else 0)"

lemma kernel_vec_dot:
  assumes inv: "gauss_inv n_rows n l n s" and f: "f < n" "ge_pivot_row s ! f = None" and r: "r < n_rows"
  shows "dot gf_mul (ge_coeffs s ! r) (kernel_vec s n f) = 0"
proof (cases "r < ge_current_row s")
  case False
  have "ge_coeffs s ! r ! i = 0" if i: "i < n" for i
  proof (cases "ge_pivot_row s ! i")
    case None
    then show ?thesis using i False r gauss_invD(10) [OF inv i i] by simp
  next
    case (Some a)
    then show ?thesis using False gauss_invD(6) [OF inv i Some] gauss_invD(8) [OF inv i Some r] by simp
  qed
  then show ?thesis using rectD(2) [OF gauss_invD(1) [OF inv] r] by (intro gf.dot_zero) auto
next
  case True
  then obtain c where c: "c < n" "ge_pivot_row s ! c = Some r" using gauss_invD(9) [OF inv] by blast
  have cf: "c \<noteq> f" using c f by auto
  let ?row = "ge_coeffs s ! r"
  let ?e = "\<lambda>i. if i = f then 1 else (0 :: u8)"
  let ?g = "\<lambda>i. if i = c then ?row ! f else (0 :: u8)"
  have len: "length ?row = n" using rectD(2) [OF gauss_invD(1) [OF inv] r] .
  have zero: "?row ! i = 0 \<or> kernel_vec s n f i = ?e i XOR ?g i" if "i < n" for i
    using that c cf f gauss_invD(8) [OF inv that _ r] gauss_invD(11) [OF inv that c(1)]
    by (cases "ge_pivot_row s ! i") (auto simp: kernel_vec_def)
  have "dot gf_mul ?row (kernel_vec s n f) =
      dot gf_mul ?row (\<lambda>i. kernel_vec s n f i XOR (?e i XOR ?g i)) XOR dot gf_mul ?row (\<lambda>i. ?e i XOR ?g i)"
    by (simp add: gf.dot_xor xor.assoc)
  also have "dot gf_mul ?row (\<lambda>i. kernel_vec s n f i XOR (?e i XOR ?g i)) = 0"
    using zero len by (intro gf.dot_zero) auto
  also have "dot gf_mul ?row (\<lambda>i. ?e i XOR ?g i) = dot gf_mul ?row ?e XOR dot gf_mul ?row ?g"
    by (rule gf.dot_xor)
  also have "dot gf_mul ?row ?e = ?row ! f"
    using gf.dot_single [of f ?row ?e] f len by simp
  also have "dot gf_mul ?row ?g = ?row ! f"
    using gf.dot_single [of c ?row ?g] c len gauss_invD(7) [OF inv c] by simp
  finally show ?thesis by simp
qed

lemma undetermined_other_solution:
  assumes inv: "gauss_inv n_rows n l n s" and col: "col < n"
    and und: "\<nexists>v. (col, v) \<in> set (collect_solutions s n)"
    and sol: "solves (ge_coeffs s) (ge_rhs s) j x"
  shows "\<exists>y. solves (ge_coeffs s) (ge_rhs s) j y \<and> y col \<noteq> x col"
proof -
  obtain f where f: "f < n" "ge_pivot_row s ! f = None" "kernel_vec s n f col \<noteq> 0"
  proof (cases "ge_pivot_row s ! col")
    case None
    then show ?thesis using that [of col] col by (simp add: kernel_vec_def)
  next
    case (Some pr)
    then have "\<not> fully_determined s n pr" using und col by (auto simp: collect_solutions_iff)
    then obtain f where "f < n" "ge_pivot_row s ! f = None" "ge_coeffs s ! pr ! f \<noteq> 0"
      by (auto simp: fully_determined_iff)
    then show ?thesis using that [of f] col Some by (simp add: kernel_vec_def)
  qed
  let ?y = "\<lambda>i. x i XOR kernel_vec s n f i"
  have "solves (ge_coeffs s) (ge_rhs s) j ?y"
    using sol kernel_vec_dot [OF inv f(1,2)] rectD(1) [OF gauss_invD(1) [OF inv]]
    by (simp add: solves_def gf.dot_xor)
  moreover have "?y col \<noteq> x col" using f(3) xor_left_cancel [of "x col" "kernel_vec s n f col" 0] by simp
  ultimately show ?thesis by blast
qed

lemma gaussian_elim_total:
  "rect n_rows n C \<Longrightarrow> rect n_rows l R \<Longrightarrow> \<exists>res. gaussian_elim C R n l = Some res"
proof (cases "0 < n_rows \<and> 0 < n \<and> 0 < l")
  case True
  assume "rect n_rows n C" "rect n_rows l R"
  then show ?thesis using True gaussian_elim_state [of n_rows n C l R] by blast
next
  case False
  assume "rect n_rows n C" "rect n_rows l R"
  then show ?thesis using False rectD(1) by (auto simp: gaussian_elim_def Let_def)
qed

lemma gaussian_elim_sound:
  assumes "rect n_rows n C" "rect n_rows l R" "gaussian_elim C R n l = Some res"
    and "(col, v) \<in> set res"
  shows "col < n" "length v = l" "j < l \<Longrightarrow> solves C R j x \<Longrightarrow> v ! j = x col"
proof -
  have pos: "0 < n_rows" "0 < n" "0 < l"
    using assms rectD(1) [OF assms(1)] by (auto simp: gaussian_elim_def Let_def split: if_splits)
  obtain s where s: "gaussian_elim C R n l = Some (collect_solutions s n)" "gauss_inv n_rows n l n s"
    "\<And>j x. j < l \<Longrightarrow> solves (ge_coeffs s) (ge_rhs s) j x \<longleftrightarrow> solves C R j x"
    by (rule gaussian_elim_state [OF assms(1,2) pos]) blast
  from s(1) assms(3,4) obtain pr where pr: "col < n" "ge_pivot_row s ! col = Some pr"
    "fully_determined s n pr" "v = ge_rhs s ! pr" by (auto simp: collect_solutions_iff)
  then show "col < n" by simp
  show "length v = l"
    using pr(4) rectD(2) [OF gauss_invD(2) [OF s(2)]] gauss_invD(4,6) [OF s(2)] pr(1,2) by fastforce
  show "v ! j = x col" if "j < l" "solves C R j x"
    using determined_value [OF s(2) pr(1,2,3)] s(3) that pr(4) by blast
qed

lemma gaussian_elim_distinct:
  assumes "gaussian_elim C R n l = Some res"
  shows "distinct (map fst res)"
  using assms distinct_collect_solutions
  by (auto simp: gaussian_elim_def Let_def split: if_splits)

lemma gaussian_elim_complete:
  assumes "rect n_rows n C" "rect n_rows l R" "0 < n_rows" "gaussian_elim C R n l = Some res"
    and "col < n" "col \<notin> fst ` set res" "j < l" "solves C R j x"
  shows "\<exists>y. solves C R j y \<and> y col \<noteq> x col"
proof -
  have pos: "0 < n" "0 < l" using assms(5,7) by simp_all
  obtain s where s: "gaussian_elim C R n l = Some (collect_solutions s n)" "gauss_inv n_rows n l n s"
    "\<And>j x. j < l \<Longrightarrow> solves (ge_coeffs s) (ge_rhs s) j x \<longleftrightarrow> solves C R j x"
    by (rule gaussian_elim_state [OF assms(1-3) pos]) blast
  have "\<nexists>v. (col, v) \<in> set (collect_solutions s n)" using assms(4,6) s(1) by force
  then show ?thesis
    using undetermined_other_solution [OF s(2) assms(5)] s(3) assms(7,8) by blast
qed

section \<open>Properties\<close>

text \<open>
  C15. Elimination is exact. On every rectangular system \<open>gaussian_elim\<close> returns without panic; it
  reports each column at most once; the vector reported for a column is the value of that unknown in
  every solution; and a column that is not reported is not determined: every solution can be changed
  in it.
\<close>

theorem gaussian_elim_exact:
  assumes "rect n_rows n C" and "rect n_rows l R" and "0 < n_rows"
  shows "\<exists>res. gaussian_elim C R n l = Some res \<and> distinct (map fst res) \<and>
    (\<forall>col v. (col, v) \<in> set res \<longrightarrow> col < n \<and> length v = l \<and> (\<forall>j < l. \<forall>x. solves C R j x \<longrightarrow> x col = v ! j)) \<and>
    (\<forall>col < n. col \<notin> fst ` set res \<longrightarrow>
       (\<forall>j < l. \<forall>x. solves C R j x \<longrightarrow> (\<exists>y. solves C R j y \<and> y col \<noteq> x col)))"
proof -
  obtain res where g: "gaussian_elim C R n l = Some res" using gaussian_elim_total [OF assms(1,2)] by blast
  have "x col = v ! j" if "(col, v) \<in> set res" "j < l" "solves C R j x" for col v j x
    using gaussian_elim_sound(3) [OF assms(1,2) g that] by simp
  then show ?thesis
    using g gaussian_elim_distinct [OF g] gaussian_elim_sound(1,2) [OF assms(1,2) g]
      gaussian_elim_complete [OF assms g] by blast
qed

theorem gaussian_elim_exact_witness:
  "\<exists>res. gaussian_elim [[1, 0], [0, 0]] [[7], [0]] 2 1 = Some res \<and>
     (\<forall>v. (0, v) \<in> set res \<longrightarrow> v = [7])"
proof -
  have r: "rect 2 2 [[1, 0], [0, 0 :: u8]]" "rect 2 1 [[7], [0 :: u8]]" by (auto simp: rect_def less_Suc_eq numeral_2_eq_2)
  obtain res where g: "gaussian_elim [[1, 0], [0, 0]] [[7], [0]] 2 1 = Some res"
    and d: "\<And>v. (0, v) \<in> set res \<Longrightarrow> length v = 1 \<and>
      (\<forall>x. solves [[1, 0], [0, 0]] [[7], [0]] 0 x \<longrightarrow> x 0 = v ! 0)"
    using gaussian_elim_exact [OF r] by auto
  have "solves [[1, 0], [0, 0]] [[7], [0]] 0 (\<lambda>_. 7)" by (auto simp: solves_def less_Suc_eq)
  then have "v = [7]" if "(0, v) \<in> set res" for v
    using d [OF that] by (cases v) auto
  then show ?thesis using g by blast
qed

end
