(* ===== verification/Serial.thy ===== *)
theory Serial
  imports Prelude
begin

text \<open>
  RFC 1982 serial arithmetic on \<open>u32\<close> sequence numbers (\<open>serial_cmp\<close>, \<open>seq_in_window\<close> of
  \<open>fec.rs\<close>, \<open>seq_advanced\<close> of \<open>video_rx.rs\<close>) and the wrapping iteration
  \<open>while seq != window_end\<close> over a half-open serial interval. The locale \<open>serial_order\<close> is the
  contract the window code relies on: comparison is antisymmetric, invariant under translation, and
  total except at the half range.
\<close>

section \<open>Definitions\<close>

datatype ordering = Less | Equal | Greater

definition serial_cmp :: "u32 \<Rightarrow> u32 \<Rightarrow> ordering option" where
  "serial_cmp a b =
     (if a = b then Some Equal
      else let distance = a - b
        in if distance = 0x80000000 then None
           else if distance < 0x80000000 then Some Greater
           else Some Less)"

definition seq_in_window :: "u32 \<Rightarrow> u32 \<Rightarrow> u32 \<Rightarrow> bool" where
  "seq_in_window seq base len = (seq - base < len)"

definition seq_advanced :: "u32 \<Rightarrow> u32 \<Rightarrow> bool" where
  "seq_advanced candidate previous =
     (let distance = candidate - previous in distance \<noteq> 0 \<and> distance < 0x80000000)"

text \<open>The sequence numbers visited by \<open>let mut seq = base; while seq != end { ..; seq += 1 }\<close>.\<close>

function seq_range :: "u32 \<Rightarrow> u32 \<Rightarrow> u32 list" where
  "seq_range seq window_end =
     (if seq = window_end then [] else seq # seq_range (seq + 1) window_end)"
  by pat_completeness auto
termination
proof (relation "measure (\<lambda>(s, e). unat (e - s))")
  fix s e :: u32
  assume "s \<noteq> e"
  then have "e - s \<noteq> 0" by simp
  then have "unat (e - s - 1) < unat (e - s)"
    by (metis measure_unat)
  then show "((s + 1, e), s, e) \<in> measure (\<lambda>(s, e). unat (e - s))"
    by (simp add: diff_diff_eq)
qed simp

declare seq_range.simps [simp del]

section \<open>Serial comparison\<close>

text \<open>Negation on words, in terms of natural numbers.\<close>

lemma unat_minus_eq: "a \<noteq> 0 \<Longrightarrow> unat (- a) = 2 ^ 32 - unat a" for a :: u32
  using unat_sub_if' [of 0 a] by (simp add: unat_eq_0 [symmetric])

lemma serial_half: "unat (a - b) = 2 ^ 31 \<longleftrightarrow> unat (b - a) = 2 ^ 31" for a b :: u32
proof (cases "a = b")
  case False
  then have "unat (b - a) = 2 ^ 32 - unat (a - b)" using unat_minus_eq [of "a - b"] by simp
  moreover have "unat (a - b) < 2 ^ 32" using unat_lt_u32 [of "a - b"] by simp
  ultimately show ?thesis by auto
qed simp

lemma serial_cmp_unat:
  "serial_cmp a b =
     (let d = unat (a - b) in
      if d = 0 then Some Equal else if d = 2 ^ 31 then None
      else if d < 2 ^ 31 then Some Greater else Some Less)"
proof -
  have "a = b \<longleftrightarrow> unat (a - b) = 0" by (simp add: unat_eq_0)
  moreover have "a - b = 0x80000000 \<longleftrightarrow> unat (a - b) = 2 ^ 31" by (simp add: word_unat_eq_iff)
  moreover have "a - b < 0x80000000 \<longleftrightarrow> unat (a - b) < 2 ^ 31" by (simp add: word_less_nat_alt)
  ultimately show ?thesis by (simp add: serial_cmp_def Let_def)
qed

fun flip_ordering :: "ordering \<Rightarrow> ordering" where
  "flip_ordering Less = Greater"
| "flip_ordering Equal = Equal"
| "flip_ordering Greater = Less"

locale serial_order =
  fixes cmp :: "'a::ab_group_add \<Rightarrow> 'a \<Rightarrow> ordering option"
  assumes cmp_refl: "cmp a b = Some Equal \<longleftrightarrow> a = b"
    and cmp_flip: "cmp b a = map_option flip_ordering (cmp a b)"
    and cmp_translate: "cmp (a + k) (b + k) = cmp a b"
begin

lemma cmp_antisym: "cmp a b = Some Less \<Longrightarrow> cmp b a = Some Greater"
  by (simp add: cmp_flip [of b a])

lemma cmp_not_both: "cmp a b = Some Greater \<Longrightarrow> cmp b a \<noteq> Some Greater"
  by (simp add: cmp_flip [of b a])

lemma cmp_unordered_sym: "cmp a b = None \<longleftrightarrow> cmp b a = None"
  by (simp add: cmp_flip [of b a])

lemma cmp_origin: "cmp a b = cmp (a - b) 0"
  using cmp_translate [of "a - b" b 0] by simp

end

interpretation serial: serial_order serial_cmp
proof
  fix a b k :: u32
  show "serial_cmp a b = Some Equal \<longleftrightarrow> a = b"
    by (simp add: serial_cmp_def Let_def)
  show "serial_cmp (a + k) (b + k) = serial_cmp a b"
    by (simp add: serial_cmp_def)
  show "serial_cmp b a = map_option flip_ordering (serial_cmp a b)"
  proof (cases "a = b")
    case False
    then have "unat (b - a) = 2 ^ 32 - unat (a - b)" using unat_minus_eq [of "a - b"] by simp
    moreover have "unat (a - b) < 2 ^ 32" using unat_lt_u32 [of "a - b"] by simp
    moreover have "unat (a - b) \<noteq> 0" using False by (simp add: unat_eq_0)
    ultimately show ?thesis by (auto simp: serial_cmp_unat Let_def)
  qed (simp add: serial_cmp_def)
qed

lemma seq_advanced_cmp: "seq_advanced a b \<longleftrightarrow> serial_cmp a b = Some Greater"
  by (simp add: seq_advanced_def serial_cmp_def Let_def)

section \<open>Serial intervals\<close>

lemma seq_range_same [simp]: "seq_range s s = []"
  by (simp add: seq_range.simps)

lemma seq_range_rec: "s \<noteq> e \<Longrightarrow> seq_range s e = s # seq_range (s + 1) e"
  by (subst seq_range.simps) simp

lemma unat_diff_Suc: "s \<noteq> e \<Longrightarrow> unat (e - s) = Suc (unat (e - (s + 1)))" for s e :: u32
proof -
  assume "s \<noteq> e"
  then have "e - s \<noteq> 0" by simp
  then have "unat (e - s - 1) = unat (e - s) - 1" "0 < unat (e - s)"
    by (simp_all add: unat_minus_one unat_gt_0)
  then show ?thesis by (simp add: diff_diff_eq)
qed

lemma seq_range_eq: "seq_range s e = map (\<lambda>i. s + word_of_nat i) [0..<unat (e - s)]"
proof (induction s e rule: seq_range.induct)
  case (1 s e)
  show ?case
  proof (cases "s = e")
    case False
    have "seq_range s e = s # map (\<lambda>i. s + 1 + word_of_nat i) [0..<unat (e - (s + 1))]"
      using False 1 by (simp add: seq_range_rec)
    also have "\<dots> = map (\<lambda>i. s + word_of_nat i) [0..<Suc (unat (e - (s + 1)))]"
      by (simp add: upt_conv_Cons map_Suc_upt [symmetric] comp_def add.assoc del: upt_Suc)
    finally show ?thesis using False by (simp add: unat_diff_Suc)
  qed simp
qed

lemma length_seq_range [simp]: "length (seq_range s e) = unat (e - s)"
  by (simp add: seq_range_eq)

lemma seq_range_nth: "i < unat (e - s) \<Longrightarrow> seq_range s e ! i = s + word_of_nat i"
  by (simp add: seq_range_eq)

lemma set_seq_range: "q \<in> set (seq_range s e) \<longleftrightarrow> seq_in_window q s (e - s)"
proof
  assume "q \<in> set (seq_range s e)"
  then obtain i where i: "i < unat (e - s)" "q = s + word_of_nat i" by (auto simp: seq_range_eq)
  then have "unat (q - s) = i"
    using unat_lt_u32 [of "e - s"] by (simp add: unat_of_nat)
  then show "seq_in_window q s (e - s)" using i by (simp add: seq_in_window_def word_less_nat_alt)
next
  assume "seq_in_window q s (e - s)"
  then have "unat (q - s) < unat (e - s)" by (simp add: seq_in_window_def word_less_nat_alt)
  moreover have "q = s + word_of_nat (unat (q - s))" by simp
  ultimately show "q \<in> set (seq_range s e)" unfolding seq_range_eq set_map by force
qed

lemma distinct_seq_range [simp]: "distinct (seq_range s e)"
proof -
  have "inj_on (\<lambda>i. s + word_of_nat i) {0..<unat (e - s)}"
  proof (rule inj_onI)
    fix i j assume ij: "i \<in> {0..<unat (e - s)}" "j \<in> {0..<unat (e - s)}"
      and eq: "s + word_of_nat i = s + word_of_nat j"
    have "unat (word_of_nat i :: u32) = i" "unat (word_of_nat j :: u32) = j"
      using ij unat_lt_u32 [of "e - s"] by (simp_all add: unat_of_nat)
    then show "i = j" using eq by (metis add_left_cancel)
  qed
  then show ?thesis by (simp add: seq_range_eq distinct_map)
qed

lemma seq_range_snoc: "e - s \<noteq> - 1 \<Longrightarrow> seq_range s (e + 1) = seq_range s e @ [e]"
proof -
  assume "e - s \<noteq> - 1"
  then have "1 + (e - s) \<noteq> 0" by (metis add.commute eq_neg_iff_add_eq_0)
  then have "unat (1 + (e - s)) = Suc (unat (e - s))" by (rule unatSuc)
  then have "unat (e + 1 - s) = Suc (unat (e - s))" by (simp add: algebra_simps)
  then show ?thesis by (simp add: seq_range_eq)
qed

section \<open>Properties\<close>

text \<open>
  Serial comparison is RFC 1982: \<open>a\<close> is after \<open>b\<close> exactly when the wrapping distance from \<open>b\<close> to
  \<open>a\<close> is between 1 and 2^31 - 1, the comparison flips when its operands do, and it does not depend on
  where in the 32-bit circle the two numbers are; \<open>seq_advanced\<close> is its strict order, and the wrapping
  loop over a window visits exactly the numbers \<open>seq_in_window\<close> accepts, each once.
\<close>

theorem serial_arithmetic_correct:
  "(serial_cmp a b = Some Greater \<longleftrightarrow> 0 < unat (a - b) \<and> unat (a - b) < 2 ^ 31) \<and>
   serial_cmp b a = map_option flip_ordering (serial_cmp a b) \<and>
   serial_cmp (a + k) (b + k) = serial_cmp a b \<and>
   (seq_advanced a b \<longleftrightarrow> serial_cmp a b = Some Greater) \<and>
   distinct (seq_range a b) \<and> (k \<in> set (seq_range a b) \<longleftrightarrow> seq_in_window k a (b - a))"
proof (intro conjI)
  show "serial_cmp a b = Some Greater \<longleftrightarrow> 0 < unat (a - b) \<and> unat (a - b) < 2 ^ 31"
    by (auto simp: serial_cmp_unat Let_def)
qed (rule serial.cmp_flip serial.cmp_translate seq_advanced_cmp set_seq_range distinct_seq_range)+

end
