(* ===== verification/Ord_Map.thy ===== *)
theory Ord_Map
  imports Prelude
begin

text \<open>
  The part of \<open>std::collections::BTreeMap\<close> the decoder uses, as an association list in strictly
  increasing key order: lookup, insertion, removal, ordered iteration. The locale \<open>ordered_map\<close> is
  the interface (what a lookup returns after an update, what every update keeps of the invariant,
  how it changes the size and a weight summed over the values); the client lemmas on folds of
  updates are proved in it once and reach the decoder through the interpretation \<open>btree\<close>.
\<close>

section \<open>Definitions\<close>

type_synonym ('k, 'v) btree_map = "('k \<times> 'v) list"

definition bt_get :: "('k, 'v) btree_map \<Rightarrow> 'k \<Rightarrow> 'v option" where
  "bt_get m k = map_of m k"

fun bt_insert :: "'k::linorder \<Rightarrow> 'v \<Rightarrow> ('k, 'v) btree_map \<Rightarrow> ('k, 'v) btree_map" where
  "bt_insert k v [] = [(k, v)]"
| "bt_insert k v ((k', v') # m) =
     (if k < k' then (k, v) # (k', v') # m
      else if k = k' then (k, v) # m
      else (k', v') # bt_insert k v m)"

definition bt_remove :: "'k \<Rightarrow> ('k, 'v) btree_map \<Rightarrow> ('k, 'v) btree_map" where
  "bt_remove k m = filter (\<lambda>e. fst e \<noteq> k) m"

text \<open>\<open>entry(k).or_insert(v)\<close>.\<close>

definition bt_or_insert :: "'k::linorder \<Rightarrow> 'v \<Rightarrow> ('k, 'v) btree_map \<Rightarrow> ('k, 'v) btree_map" where
  "bt_or_insert k v m = (case bt_get m k of None \<Rightarrow> bt_insert k v m | Some _ \<Rightarrow> m)"

definition bt_wf :: "('k::linorder, 'v) btree_map \<Rightarrow> bool" where
  "bt_wf m \<longleftrightarrow> sorted_wrt (<) (map fst m)"

definition bt_weight :: "('v \<Rightarrow> nat) \<Rightarrow> ('k, 'v) btree_map \<Rightarrow> nat" where
  "bt_weight f m = sum_list (map (\<lambda>e. f (snd e)) m)"

section \<open>The interface\<close>

locale ordered_map =
  fixes get :: "'m \<Rightarrow> 'k \<Rightarrow> 'v option"
    and insert :: "'k \<Rightarrow> 'v \<Rightarrow> 'm \<Rightarrow> 'm"
    and remove :: "'k \<Rightarrow> 'm \<Rightarrow> 'm"
    and weight :: "('v \<Rightarrow> nat) \<Rightarrow> 'm \<Rightarrow> nat"
    and invar :: "'m \<Rightarrow> bool"
  assumes get_insert: "get (insert k v m) = (get m)(k \<mapsto> v)"
    and get_remove: "get (remove k m) = (get m)(k := None)"
    and invar_insert: "invar m \<Longrightarrow> invar (insert k v m)"
    and invar_remove: "invar m \<Longrightarrow> invar (remove k m)"
    and weight_insert_new: "invar m \<Longrightarrow> get m k = None \<Longrightarrow> weight f (insert k v m) = weight f m + f v"
    and weight_insert_old:
      "invar m \<Longrightarrow> get m k = Some u \<Longrightarrow> weight f (insert k v m) + f u = weight f m + f v"
    and weight_remove:
      "invar m \<Longrightarrow> get m k = Some u \<Longrightarrow> weight f (remove k m) + f u = weight f m"
    and remove_absent: "get m k = None \<Longrightarrow> remove k m = m"
begin

definition or_insert :: "'k \<Rightarrow> 'v \<Rightarrow> 'm \<Rightarrow> 'm" where
  "or_insert k v m = (case get m k of None \<Rightarrow> insert k v m | Some _ \<Rightarrow> m)"

lemma get_or_insert: "get (or_insert k v m) q = (if q = k \<and> get m k = None then Some v else get m q)"
  by (auto simp: or_insert_def get_insert split: option.split)

lemma get_fold_or_insert:
  "get (fold (\<lambda>k. or_insert k v) ks m) q = (if q \<in> set ks \<and> get m q = None then Some v else get m q)"
  by (induction ks arbitrary: m) (auto simp: get_or_insert)

lemma invar_fold_or_insert: "invar m \<Longrightarrow> invar (fold (\<lambda>k. or_insert k v) ks m)"
  by (induction ks arbitrary: m) (auto simp: or_insert_def invar_insert split: option.split)

lemma weight_fold_or_insert:
  "invar m \<Longrightarrow> distinct ks \<Longrightarrow>
   weight f (fold (\<lambda>k. or_insert k v) ks m) = weight f m + f v * length (filter (\<lambda>k. get m k = None) ks)"
proof (induction ks arbitrary: m)
  case (Cons k ks)
  let ?m = "or_insert k v m"
  have inv: "invar ?m" using Cons.prems by (auto simp: or_insert_def invar_insert split: option.split)
  have same: "filter (\<lambda>q. get ?m q = None) ks = filter (\<lambda>q. get m q = None) ks"
    using Cons.prems(2) by (intro filter_cong) (auto simp: get_or_insert)
  have "weight f ?m = weight f m + (if get m k = None then f v else 0)"
    using Cons.prems by (auto simp: or_insert_def weight_insert_new split: option.split)
  then show ?case using Cons.IH [OF inv] Cons.prems(2) same by (simp add: algebra_simps)
qed simp

lemma get_fold_remove: "get (fold remove ks m) q = (if q \<in> set ks then None else get m q)"
  by (induction ks arbitrary: m) (auto simp: get_remove)

lemma invar_fold_remove: "invar m \<Longrightarrow> invar (fold remove ks m)"
  by (induction ks arbitrary: m) (auto simp: invar_remove)

lemma weight_remove_le: "invar m \<Longrightarrow> weight f (remove k m) \<le> weight f m"
  by (cases "get m k") (auto simp: remove_absent dest: weight_remove [of _ _ _ f])

lemma weight_fold_remove_le: "invar m \<Longrightarrow> weight f (fold remove ks m) \<le> weight f m"
proof (induction ks arbitrary: m)
  case (Cons k ks)
  then show ?case using weight_remove_le [of m f k] invar_remove [of m k] by force
qed simp

lemma get_fold_insert:
  "distinct (map fst kvs) \<Longrightarrow>
   get (fold (\<lambda>(k, v). insert k (g v)) kvs m) q = (case map_of kvs q of Some v \<Rightarrow> Some (g v) | None \<Rightarrow> get m q)"
proof (induction kvs arbitrary: m)
  case (Cons kv kvs)
  then have "map_of kvs (fst kv) = None" by (simp add: map_of_eq_None_iff)
  with Cons show ?case by (cases kv) (auto simp: get_insert split: option.split)
qed simp

lemma invar_fold_insert: "invar m \<Longrightarrow> invar (fold (\<lambda>(k, v). insert k (g v)) kvs m)"
  by (induction kvs arbitrary: m) (auto simp: invar_insert)

lemma weight_fold_insert:
  "invar m \<Longrightarrow> distinct (map fst kvs) \<Longrightarrow> (\<And>k. k \<in> fst ` set kvs \<Longrightarrow> get m k = Some u) \<Longrightarrow>
   weight f (fold (\<lambda>(k, v). insert k (g v)) kvs m) + length kvs * f u =
   weight f m + sum_list (map (\<lambda>(k, v). f (g v)) kvs)"
proof (induction kvs arbitrary: m)
  case (Cons kv kvs)
  obtain k v where kv: "kv = (k, v)" by (cases kv)
  have "weight f (insert k (g v) m) + f u = weight f m + f (g v)"
    using Cons.prems kv by (intro weight_insert_old) auto
  moreover have "weight f (fold (\<lambda>(k, v). insert k (g v)) kvs (insert k (g v) m)) + length kvs * f u =
      weight f (insert k (g v) m) + sum_list (map (\<lambda>(k, v). f (g v)) kvs)"
    using Cons.prems kv by (intro Cons.IH) (auto simp: get_insert invar_insert)
  ultimately show ?case by (simp add: kv)
qed simp

end

section \<open>The sorted association list implements it\<close>

lemma bt_get_insert: "bt_get (bt_insert k v m) = (bt_get m)(k \<mapsto> v)"
  unfolding bt_get_def by (induction k v m rule: bt_insert.induct) (auto simp: fun_eq_iff)

lemma bt_get_remove: "bt_get (bt_remove k m) = (bt_get m)(k := None)"
  unfolding bt_get_def bt_remove_def by (induction m) (auto simp: fun_eq_iff)

lemma set_keys_insert: "fst ` set (bt_insert k v m) = insert k (fst ` set m)"
  by (induction k v m rule: bt_insert.induct) auto

lemma bt_wf_insert: "bt_wf m \<Longrightarrow> bt_wf (bt_insert k v m)"
proof (induction k v m rule: bt_insert.induct)
  case (2 k v k' v' m)
  then show ?case using set_keys_insert [of k v m] by (auto simp: bt_wf_def)
qed (simp add: bt_wf_def)

lemma bt_wf_remove: "bt_wf m \<Longrightarrow> bt_wf (bt_remove k m)"
  unfolding bt_wf_def bt_remove_def by (induction m) auto

lemma bt_get_None_keys: "bt_get m k = None \<longleftrightarrow> k \<notin> fst ` set m"
  by (simp add: bt_get_def map_of_eq_None_iff)

lemma bt_weight_simps [simp]:
  "bt_weight f [] = 0" "bt_weight f (e # m) = f (snd e) + bt_weight f m"
  by (simp_all add: bt_weight_def)

lemma bt_weight_insert_new:
  "bt_get m k = None \<Longrightarrow> bt_weight f (bt_insert k v m) = bt_weight f m + f v"
  by (induction k v m rule: bt_insert.induct) (auto simp: bt_get_def split: if_splits)

lemma bt_weight_insert_old:
  "bt_wf m \<Longrightarrow> bt_get m k = Some u \<Longrightarrow> bt_weight f (bt_insert k v m) + f u = bt_weight f m + f v"
proof (induction k v m rule: bt_insert.induct)
  case (2 k v k' v' m)
  have "k \<notin> fst ` set m" if "k < k'"
    using 2(2) that by (auto simp: bt_wf_def dest!: order.strict_trans [OF that])
  then have "\<not> k < k'" using 2(3) by (auto simp: bt_get_def map_of_eq_None_iff [symmetric] split: if_splits)
  with 2 show ?case by (auto simp: bt_wf_def bt_get_def split: if_splits)
qed (simp add: bt_get_def)

lemma bt_remove_absent: "bt_get m k = None \<Longrightarrow> bt_remove k m = m"
  by (auto simp: bt_get_None_keys bt_remove_def filter_id_conv)

lemma bt_weight_remove:
  "bt_wf m \<Longrightarrow> bt_get m k = Some u \<Longrightarrow> bt_weight f (bt_remove k m) + f u = bt_weight f m"
proof (induction m)
  case (Cons e m)
  show ?case
  proof (cases "fst e = k")
    case True
    then have "bt_get m k = None" using Cons.prems(1) by (auto simp: bt_wf_def bt_get_None_keys)
    then show ?thesis using True Cons.prems(2) bt_remove_absent [of m k]
      by (cases e) (simp add: bt_remove_def bt_get_def)
  next
    case False
    then show ?thesis using Cons by (cases e) (simp add: bt_remove_def bt_get_def bt_wf_def)
  qed
qed (simp add: bt_get_def)

lemma length_bt_weight: "length m = bt_weight (\<lambda>_. Suc 0) m"
  by (induction m) simp_all

lemma bt_get_eq: "bt_wf m \<Longrightarrow> bt_get m k = Some v \<longleftrightarrow> (k, v) \<in> set m"
  unfolding bt_wf_def bt_get_def
  by (rule map_of_eq_Some_iff) (simp add: strict_sorted_iff)

lemma distinct_keys: "bt_wf m \<Longrightarrow> distinct (map fst m)"
  by (simp add: bt_wf_def strict_sorted_iff)

lemma length_eq_card_dom: "bt_wf m \<Longrightarrow> length m = card (dom (bt_get m))"
  using distinct_card [OF distinct_keys, of m] by (simp add: bt_get_def [abs_def] dom_map_of_conv_image_fst)

interpretation btree: ordered_map bt_get bt_insert bt_remove bt_weight bt_wf
  rewrites "btree.or_insert = bt_or_insert"
proof -
  show om: "ordered_map bt_get bt_insert bt_remove bt_weight bt_wf"
    by unfold_locales (simp_all add: bt_get_insert bt_get_remove bt_wf_insert bt_wf_remove
      bt_weight_insert_new bt_weight_insert_old bt_weight_remove bt_remove_absent)
  show "ordered_map.or_insert bt_get bt_insert = bt_or_insert"
    by (intro ext) (simp add: bt_or_insert_def ordered_map.or_insert_def [OF om])
qed

end
