(* ===== verification/Fec_Encoder.thy ===== *)
theory Fec_Encoder
  imports Gf256 Serial
begin

text \<open>
  The sliding-window encoder of \<open>transport-core/src/fec.rs\<close>: configuration, symbols, the window of
  length-prefixed payloads with its symbol and byte caps, acknowledgement, and the repair symbols
  with their ratio counter. \<open>None\<close> results stand for the panics and divergences of the source;
  the lemmas show that a sanitised encoder never has them, keeps its caps, emits repairs at the
  configured rate, and that every repair it emits is a valid GF(256) equation over its window.
\<close>

section \<open>Configuration and symbols\<close>

record fec_config =
  redundancy_numerator :: u8
  redundancy_denominator :: u8
  window_max_symbols :: u16
  window_max_bytes :: u32

definition default_streaming :: fec_config where
  "default_streaming =
     \<lparr>redundancy_numerator = 1, redundancy_denominator = 8,
      window_max_symbols = 64, window_max_bytes = 524288\<rparr>"

definition sanitised :: "fec_config \<Rightarrow> fec_config" where
  "sanitised c =
     \<lparr>redundancy_numerator = redundancy_numerator c,
      redundancy_denominator = max (redundancy_denominator c) 1,
      window_max_symbols = min (max (window_max_symbols c) 1) 128,
      window_max_bytes = max (window_max_bytes c) 1\<rparr>"

datatype symbol =
    Source u32 bytes \<comment> \<open>seq, payload\<close>
  | Repair u16 u32 u32 bytes \<comment> \<open>repair_seq, window_base, window_end, payload\<close>

record encoder_output =
  eo_source :: symbol
  eo_repairs :: "symbol list"

record window_entry =
  we_seq :: u32
  prefixed_payload :: bytes

record fec_encoder =
  enc_config :: fec_config
  window :: "window_entry list"
  window_byte_total :: u32
  next_repair_seq :: u16
  ratio_acc :: u16

section \<open>Operations\<close>

definition encoder_new :: "fec_config \<Rightarrow> fec_encoder" where
  "encoder_new c =
     \<lparr>enc_config = sanitised c, window = [], window_byte_total = 0,
      next_repair_seq = 0, ratio_acc = 0\<rparr>"

definition set_redundancy :: "fec_encoder \<Rightarrow> u8 \<Rightarrow> u8 \<Rightarrow> fec_encoder" where
  "set_redundancy e numerator denominator =
     e\<lparr>enc_config := (enc_config e)\<lparr>redundancy_numerator := numerator,
                                    redundancy_denominator := max denominator 1\<rparr>\<rparr>"

definition evict_oldest :: "fec_encoder \<Rightarrow> fec_encoder" where
  "evict_oldest e =
     (case window e of
        [] \<Rightarrow> e
      | entry # rest \<Rightarrow>
          (let payload_bytes = word_of_nat (length (prefixed_payload entry) - 2) :: u32
           in e\<lparr>window := rest, window_byte_total := sat_sub (window_byte_total e) payload_bytes\<rparr>))"

text \<open>
  \<open>while window.len() >= max_symbols { evict_oldest() }\<close>. On an empty window the body changes
  nothing, so a cap of 0 would diverge: \<open>None\<close>.
\<close>

function evict_symbols :: "fec_encoder \<Rightarrow> fec_encoder option" where
  "evict_symbols e =
     (if unat (window_max_symbols (enc_config e)) \<le> length (window e)
      then (if window e = [] then None else evict_symbols (evict_oldest e))
      else Some e)"
  by pat_completeness auto
termination
  by (relation "measure (\<lambda>e. length (window e))") (auto simp: evict_oldest_def Let_def split: list.splits)

function evict_bytes :: "u32 \<Rightarrow> fec_encoder \<Rightarrow> fec_encoder" where
  "evict_bytes new_bytes e =
     (if window e \<noteq> [] \<and> sat_add (window_byte_total e) new_bytes > window_max_bytes (enc_config e)
      then evict_bytes new_bytes (evict_oldest e)
      else e)"
  by pat_completeness auto
termination
  by (relation "measure (\<lambda>(n, e). length (window e))") (auto simp: evict_oldest_def Let_def split: list.splits)

declare evict_symbols.simps [simp del] evict_bytes.simps [simp del]

text \<open>The length prefix (two bytes, little-endian) followed by the payload.\<close>

definition prefixed :: "bytes \<Rightarrow> bytes" where
  "prefixed p = le16 (word_of_nat (length p)) @ p"

text \<open>\<open>for (j, &b) in src.iter().enumerate() { acc[j] ^= gf_mul(coeff, b) }\<close>.\<close>

definition xor_scaled :: "u8 \<Rightarrow> bytes \<Rightarrow> bytes \<Rightarrow> bytes" where
  "xor_scaled coeff src acc =
     map (\<lambda>j. if j < length src then acc ! j XOR gf_mul coeff (src ! j) else acc ! j) [0..<length acc]"

text \<open>The linear combination of the window: \<open>repair[j] = XOR_i gf_mul(coeff_i, src_i[j])\<close>.\<close>

definition combine_window :: "u16 \<Rightarrow> window_entry list \<Rightarrow> bytes" where
  "combine_window repair_seq ws =
     (let max_eff_len = fold max (map (\<lambda>w. length (prefixed_payload w)) ws) 0
      in fold (\<lambda>entry acc.
            xor_scaled (gf_coeff repair_seq (we_seq entry)) (prefixed_payload entry) acc)
          ws (replicate max_eff_len 0))"

definition build_repair :: "fec_encoder \<Rightarrow> fec_encoder \<times> symbol" where
  "build_repair e =
     (let repair_seq = next_repair_seq e; e = e\<lparr>next_repair_seq := repair_seq + 1\<rparr>
      in case window e of
           [] \<Rightarrow> (e, Repair repair_seq 0 0 [])
         | front # _ \<Rightarrow>
             (let window_base = we_seq front;
                  window_end = we_seq (last (window e)) + 1
              in (e, Repair repair_seq window_base window_end (combine_window repair_seq (window e)))))"

text \<open>
  \<open>while ratio_acc >= denominator { ratio_acc -= denominator; repairs.push(build_repair()) }\<close>.
  Each iteration takes at least 1 off \<open>ratio_acc\<close> unless the denominator is 0, so
  \<open>ratio_acc + 1\<close> units of fuel reach the end of every loop that has one.
\<close>

fun repair_loop :: "nat \<Rightarrow> fec_encoder \<Rightarrow> (fec_encoder \<times> symbol list) option" where
  "repair_loop 0 e = None"
| "repair_loop (Suc fuel) e =
     (let den = ucast (redundancy_denominator (enc_config e)) :: u16
      in if den \<le> ratio_acc e
         then (let (e', r) = build_repair (e\<lparr>ratio_acc := ratio_acc e - den\<rparr>)
               in map_option (\<lambda>(e'', rs). (e'', r # rs)) (repair_loop fuel e'))
         else Some (e, []))"

text \<open>
  \<open>push_source\<close> in its two phases: admission of the symbol into the window under both caps, then
  the ratio counter. The assertion on the payload length and a diverging loop give \<open>None\<close>.
\<close>

definition enc_admit :: "fec_encoder \<Rightarrow> u32 \<Rightarrow> bytes \<Rightarrow> fec_encoder option" where
  "enc_admit e sq p =
     (case evict_symbols e of
        None \<Rightarrow> None
      | Some e1 \<Rightarrow>
          (let new_bytes = word_of_nat (length p) :: u32;
               e2 = evict_bytes new_bytes e1
           in Some (e2\<lparr>window_byte_total := sat_add (window_byte_total e2) new_bytes,
                       window := window e2 @ [\<lparr>we_seq = sq, prefixed_payload = prefixed p\<rparr>]\<rparr>)))"

definition enc_emit :: "fec_encoder \<Rightarrow> (fec_encoder \<times> symbol list) option" where
  "enc_emit e =
     (if 0 < redundancy_numerator (enc_config e)
      then (let e' = e\<lparr>ratio_acc := ratio_acc e + ucast (redundancy_numerator (enc_config e))\<rparr>
            in repair_loop (Suc (unat (ratio_acc e'))) e')
      else Some (e, []))"

definition enc_push_source :: "fec_encoder \<Rightarrow> u32 \<Rightarrow> bytes \<Rightarrow> (fec_encoder \<times> encoder_output) option" where
  "enc_push_source e sq p =
     (if 65520 < length p then None
      else Option.bind (enc_admit e sq p) (\<lambda>e'.
        map_option (\<lambda>(e'', repairs). (e'', \<lparr>eo_source = Source sq p, eo_repairs = repairs\<rparr>))
          (enc_emit e')))"

text \<open>The eviction loop of \<open>acknowledge\<close>.\<close>

function ack_evict :: "u32 \<Rightarrow> fec_encoder \<Rightarrow> fec_encoder" where
  "ack_evict h e =
     (case window e of
        [] \<Rightarrow> e
      | front # _ \<Rightarrow>
          (if serial_cmp (we_seq front) h \<in> {Some Less, Some Equal} then ack_evict h (evict_oldest e) else e))"
  by pat_completeness auto
termination
  by (relation "measure (\<lambda>(h, e). length (window e))") (auto simp: evict_oldest_def Let_def split: list.splits)

declare ack_evict.simps [simp del] repair_loop.simps(2) [simp del]

definition acknowledge :: "fec_encoder \<Rightarrow> u32 \<Rightarrow> fec_encoder" where
  "acknowledge e h =
     (if window e = [] then e
      else (case serial_cmp h (we_seq (last (window e))) of
              None \<Rightarrow> e
            | Some Greater \<Rightarrow> e
            | Some _ \<Rightarrow> ack_evict h e))"

definition enc_window_len :: "fec_encoder \<Rightarrow> nat" where
  "enc_window_len e = length (window e)"

definition enc_window_base :: "fec_encoder \<Rightarrow> u32 option" where
  "enc_window_base e = (case window e of [] \<Rightarrow> None | front # _ \<Rightarrow> Some (we_seq front))"

section \<open>Well-formed encoders\<close>

definition config_ok :: "fec_config \<Rightarrow> bool" where
  "config_ok c \<longleftrightarrow> 1 \<le> redundancy_denominator c \<and> 1 \<le> window_max_symbols c \<and>
     window_max_symbols c \<le> 128 \<and> 1 \<le> window_max_bytes c"

definition entry_bytes :: "window_entry \<Rightarrow> nat" where
  "entry_bytes w = length (prefixed_payload w) - 2"

definition window_bytes :: "window_entry list \<Rightarrow> nat" where
  "window_bytes ws = sum_list (map entry_bytes ws)"

definition entry_ok :: "window_entry \<Rightarrow> bool" where
  "entry_ok w \<longleftrightarrow> (\<exists>p. prefixed_payload w = prefixed p \<and> length p \<le> 65520)"

definition enc_ok :: "fec_encoder \<Rightarrow> bool" where
  "enc_ok e \<longleftrightarrow> config_ok (enc_config e) \<and>
     length (window e) \<le> unat (window_max_symbols (enc_config e)) \<and>
     list_all entry_ok (window e) \<and>
     unat (window_byte_total e) = window_bytes (window e) \<and>
     (length (window e) \<le> 1 \<or> window_bytes (window e) \<le> unat (window_max_bytes (enc_config e))) \<and>
     unat (ratio_acc e) < 255"

lemma config_ok_sanitised: "config_ok (sanitised c)"
  by (auto simp: config_ok_def sanitised_def max_def min_def not_le)

lemma config_ok_unat:
  assumes "config_ok c"
  shows "1 \<le> unat (redundancy_denominator c)" "1 \<le> unat (window_max_symbols c)"
    "unat (window_max_symbols c) \<le> 128"
  using assms by (auto simp: config_ok_def word_le_nat_alt)

lemma enc_ok_new: "enc_ok (encoder_new c)"
  using config_ok_sanitised by (simp add: enc_ok_def encoder_new_def window_bytes_def)

lemma enc_ok_set_redundancy: "enc_ok e \<Longrightarrow> enc_ok (set_redundancy e n d)"
  by (auto simp: enc_ok_def set_redundancy_def config_ok_def max_def not_le)

lemma length_prefixed [simp]: "length (prefixed p) = length p + 2"
  by (simp add: prefixed_def)

lemma window_bytes_bound: "list_all entry_ok ws \<Longrightarrow> window_bytes ws \<le> 65520 * length ws"
  by (induction ws) (auto simp: window_bytes_def entry_ok_def entry_bytes_def)

text \<open>What every eviction keeps: it drops a prefix of the window and touches nothing else.\<close>

definition evicts :: "fec_encoder \<Rightarrow> fec_encoder \<Rightarrow> bool" where
  "evicts e e' \<longleftrightarrow> (\<exists>k. window e' = drop k (window e)) \<and> enc_config e' = enc_config e \<and>
     next_repair_seq e' = next_repair_seq e \<and> ratio_acc e' = ratio_acc e"

definition enc_core :: "fec_encoder \<Rightarrow> bool" where
  "enc_core e \<longleftrightarrow> config_ok (enc_config e) \<and> length (window e) \<le> 128 \<and>
     list_all entry_ok (window e) \<and> unat (window_byte_total e) = window_bytes (window e)"

lemma evicts_refl [simp]: "evicts e e"
  by (auto simp: evicts_def intro: exI [of _ 0])

lemma evicts_trans: "evicts e e' \<Longrightarrow> evicts e' e'' \<Longrightarrow> evicts e e''"
  by (auto simp: evicts_def)

lemma evict_oldest_Cons:
  "window e = w # ws \<Longrightarrow> window (evict_oldest e) = ws"
  by (simp add: evict_oldest_def Let_def)

lemma evict_oldest_evicts: "evicts e (evict_oldest e)"
  by (cases "window e") (auto simp: evicts_def evict_oldest_def Let_def intro: exI [of _ 1])

lemma unat_small: "n < 4294967296 \<Longrightarrow> unat (word_of_nat n :: u32) = n"
  by (simp add: unat_of_nat)

lemma evict_oldest_core: "enc_core e \<Longrightarrow> enc_core (evict_oldest e)"
proof (cases "window e")
  case (Cons w ws)
  assume core: "enc_core e"
  then have w: "entry_ok w" "list_all entry_ok ws" using Cons by (auto simp: enc_core_def)
  then have "entry_bytes w \<le> 65520" by (auto simp: entry_ok_def entry_bytes_def)
  then show ?thesis using core Cons
    by (simp add: enc_core_def evict_oldest_def Let_def unat_sat_sub window_bytes_def unat_small
        flip: entry_bytes_def)
qed (simp add: evict_oldest_def)

lemma evict_symbols_spec:
  "enc_core e \<Longrightarrow> \<exists>e'. evict_symbols e = Some e' \<and> enc_core e' \<and> evicts e e' \<and>
     length (window e') < unat (window_max_symbols (enc_config e'))"
proof (induction e rule: evict_symbols.induct)
  case (1 e)
  show ?case
  proof (cases "unat (window_max_symbols (enc_config e)) \<le> length (window e)")
    case True
    have "1 \<le> unat (window_max_symbols (enc_config e))"
      using 1 config_ok_unat by (simp add: enc_core_def)
    then have ne: "window e \<noteq> []" using True by auto
    obtain e' where "evict_symbols (evict_oldest e) = Some e'" "enc_core e'" "evicts (evict_oldest e) e'"
      "length (window e') < unat (window_max_symbols (enc_config e'))"
      using "1.IH" [OF True ne evict_oldest_core [OF "1.prems"]] by blast
    then show ?thesis
      using True ne evicts_trans [OF evict_oldest_evicts] by (auto simp: evict_symbols.simps [of e])
  next
    case False
    then show ?thesis using "1.prems" by (simp add: evict_symbols.simps [of e])
  qed
qed

lemma evict_bytes_spec:
  "enc_core e \<Longrightarrow> enc_core (evict_bytes n e) \<and> evicts e (evict_bytes n e) \<and>
     (window (evict_bytes n e) = [] \<or>
      sat_add (window_byte_total (evict_bytes n e)) n \<le> window_max_bytes (enc_config (evict_bytes n e)))"
proof (induction n e rule: evict_bytes.induct)
  case (1 n e)
  show ?case
  proof (cases "window e \<noteq> [] \<and> sat_add (window_byte_total e) n > window_max_bytes (enc_config e)")
    case True
    then show ?thesis
      using "1.IH" [OF True evict_oldest_core [OF "1.prems"]] evicts_trans [OF evict_oldest_evicts]
      by (auto simp: evict_bytes.simps [of n e])
  next
    case False
    then have "evict_bytes n e = e" by (subst evict_bytes.simps) auto
    then show ?thesis using "1.prems" False by (auto simp: not_less)
  qed
qed

lemma ack_evict_spec: "enc_core e \<Longrightarrow> enc_core (ack_evict h e) \<and> evicts e (ack_evict h e)"
proof (induction h e rule: ack_evict.induct)
  case (1 h e)
  show ?case
  proof (cases "window e")
    case Nil
    then show ?thesis using "1.prems" by (simp add: ack_evict.simps [of h e])
  next
    case (Cons w ws)
    then show ?thesis
      using "1.IH" [OF Cons _ evict_oldest_core [OF "1.prems"]] "1.prems" evicts_trans [OF evict_oldest_evicts]
      by (simp add: ack_evict.simps [of h e])
  qed
qed

section \<open>Repairs\<close>

definition repair_of :: "u16 \<Rightarrow> window_entry list \<Rightarrow> symbol" where
  "repair_of rs ws = (if ws = [] then Repair rs 0 0 []
     else Repair rs (we_seq (hd ws)) (we_seq (last ws) + 1) (combine_window rs ws))"

lemma build_repair_eq:
  "build_repair e = (e\<lparr>next_repair_seq := next_repair_seq e + 1\<rparr>, repair_of (next_repair_seq e) (window e))"
  by (cases "window e") (simp_all add: build_repair_def repair_of_def Let_def)

lemma repair_loop_spec:
  assumes "config_ok (enc_config e)" "unat (ratio_acc e) < fuel"
  defines "d \<equiv> unat (redundancy_denominator (enc_config e))"
  shows "repair_loop fuel e = Some
    (e\<lparr>ratio_acc := word_of_nat (unat (ratio_acc e) mod d),
       next_repair_seq := next_repair_seq e + word_of_nat (unat (ratio_acc e) div d)\<rparr>,
     map (\<lambda>i. repair_of (next_repair_seq e + word_of_nat i) (window e)) [0..<unat (ratio_acc e) div d])"
  using assms(1,2) unfolding d_def
proof (induction fuel arbitrary: e)
  case (Suc fuel)
  let ?d = "redundancy_denominator (enc_config e)"
  let ?den = "ucast ?d :: u16"
  have d: "1 \<le> unat ?d" using Suc.prems config_ok_unat by blast
  have den: "unat ?den = unat ?d" by (simp add: unsigned_ucast_eq take_bit_nat_eq_self_iff unat_lt_u8 order.strict_trans [OF unat_lt_u8])
  show ?case
  proof (cases "?den \<le> ratio_acc e")
    case False
    then have "unat (ratio_acc e) < unat ?d" using den by (simp add: word_le_nat_alt)
    then show ?thesis using False by (simp add: repair_loop.simps(2))
  next
    case True
    then have le: "unat ?d \<le> unat (ratio_acc e)" using den by (simp add: word_le_nat_alt)
    let ?a = "ratio_acc e - ?den"
    let ?e = "e\<lparr>ratio_acc := ?a, next_repair_seq := next_repair_seq e + 1\<rparr>"
    have a: "unat ?a = unat (ratio_acc e) - unat ?d" using True den by (simp add: unat_sub)
    have IH: "repair_loop fuel ?e = Some
      (?e\<lparr>ratio_acc := word_of_nat (unat ?a mod unat ?d),
          next_repair_seq := next_repair_seq ?e + word_of_nat (unat ?a div unat ?d)\<rparr>,
       map (\<lambda>i. repair_of (next_repair_seq ?e + word_of_nat i) (window e)) [0..<unat ?a div unat ?d])"
      using Suc.IH [of ?e] Suc.prems a d le by simp
    have div: "unat (ratio_acc e) div unat ?d = Suc (unat ?a div unat ?d)"
      using a le d by (simp add: le_div_geq)
    have md: "unat ?a mod unat ?d = unat (ratio_acc e) mod unat ?d"
      using a le by (simp add: le_mod_geq)
    have reps: "map (\<lambda>i. repair_of (next_repair_seq e + word_of_nat i) (window e))
        [0..<Suc (unat ?a div unat ?d)] =
      repair_of (next_repair_seq e) (window e) #
        map (\<lambda>i. repair_of (next_repair_seq e + 1 + word_of_nat i) (window e)) [0..<unat ?a div unat ?d]"
      by (simp add: upt_conv_Cons map_Suc_upt [symmetric] comp_def add.assoc del: upt_Suc)
    show ?thesis using True IH md
      by (simp add: repair_loop.simps(2) build_repair_eq Let_def div reps add.assoc del: upt_Suc)
  qed
qed simp

section \<open>Pushing a source symbol\<close>

lemma enc_ok_core: "enc_ok e \<Longrightarrow> enc_core e"
  using config_ok_unat(3) by (fastforce simp: enc_ok_def enc_core_def)

lemma enc_admit_spec:
  assumes ok: "enc_ok e" and len: "length p \<le> 65520"
  obtains e' k where "enc_admit e sq p = Some e'" "enc_ok e'"
    "window e' = drop k (window e) @ [\<lparr>we_seq = sq, prefixed_payload = prefixed p\<rparr>]"
    "enc_config e' = enc_config e" "next_repair_seq e' = next_repair_seq e" "ratio_acc e' = ratio_acc e"
proof -
  obtain e1 where e1: "evict_symbols e = Some e1" "enc_core e1" "evicts e e1"
    "length (window e1) < unat (window_max_symbols (enc_config e1))"
    using evict_symbols_spec [OF enc_ok_core [OF ok]] by blast
  define nb where "nb = (word_of_nat (length p) :: u32)"
  have nb: "unat nb = length p" using len by (simp add: nb_def unat_small)
  define e2 where "e2 = evict_bytes nb e1"
  have e2: "enc_core e2" "evicts e1 e2"
    "window e2 = [] \<or> sat_add (window_byte_total e2) nb \<le> window_max_bytes (enc_config e2)"
    using evict_bytes_spec [OF e1(2)] by (simp_all add: e2_def)
  obtain k where k: "window e2 = drop k (window e)" and same: "enc_config e2 = enc_config e"
    "next_repair_seq e2 = next_repair_seq e" "ratio_acc e2 = ratio_acc e"
    using evicts_trans [OF e1(3) e2(2)] by (auto simp: evicts_def)
  define e3 where "e3 = e2\<lparr>window_byte_total := sat_add (window_byte_total e2) nb,
    window := window e2 @ [\<lparr>we_seq = sq, prefixed_payload = prefixed p\<rparr>]\<rparr>"
  have "window_bytes (window e2) \<le> 65520 * 128"
    using window_bytes_bound [of "window e2"] e2(1) by (auto simp: enc_core_def)
  then have tot: "unat (sat_add (window_byte_total e2) nb) = window_bytes (window e2) + length p"
    using e2(1) nb len by (subst unat_sat_add) (simp_all add: enc_core_def)
  have bytes3: "window_bytes (window e3) = window_bytes (window e2) + length p"
    by (simp add: e3_def window_bytes_def entry_bytes_def)
  have "length (window e2) \<le> length (window e1)" using e2(2) by (auto simp: evicts_def)
  then have "enc_ok e3"
    using ok e1(3,4) e2(1,3) len same tot bytes3
    by (auto simp: enc_ok_def enc_core_def e3_def evicts_def entry_ok_def word_le_nat_alt)
  moreover have "enc_admit e sq p = Some e3"
    using e1(1) by (simp add: enc_admit_def Let_def e3_def e2_def nb_def)
  ultimately show thesis using that [of e3 k] k same by (simp add: e3_def)
qed

text \<open>The ratio counter emits the quotient and keeps the remainder.\<close>

lemma enc_emit_spec:
  assumes ok: "enc_ok e"
  defines "n \<equiv> unat (redundancy_numerator (enc_config e))"
    and "d \<equiv> unat (redundancy_denominator (enc_config e))"
  shows "\<exists>e'. enc_emit e = Some (e', map (\<lambda>i. repair_of (next_repair_seq e + word_of_nat i) (window e))
       [0..<(if n = 0 then 0 else (unat (ratio_acc e) + n) div d)]) \<and>
     enc_ok e' \<and> window e' = window e \<and> enc_config e' = enc_config e \<and>
     unat (ratio_acc e') = (if n = 0 then unat (ratio_acc e) else (unat (ratio_acc e) + n) mod d)"
proof (cases "n = 0")
  case True
  then show ?thesis using ok by (simp add: enc_emit_def n_def unat_eq_0)
next
  case False
  have cfg: "config_ok (enc_config e)" and acc: "unat (ratio_acc e) < 255" using ok by (simp_all add: enc_ok_def)
  let ?n = "redundancy_numerator (enc_config e)"
  define e4 where "e4 = e\<lparr>ratio_acc := ratio_acc e + ucast ?n\<rparr>"
  have "unat (ucast ?n :: u16) = n"
    by (simp add: n_def unsigned_ucast_eq take_bit_nat_eq_self_iff order.strict_trans [OF unat_lt_u8])
  then have a4: "unat (ratio_acc e4) = unat (ratio_acc e) + n"
    using acc unat_lt_u8 [of ?n] by (simp add: e4_def unat_word_ariths n_def)
  have same: "enc_config e4 = enc_config e" "next_repair_seq e4 = next_repair_seq e" "window e4 = window e"
    by (simp_all add: e4_def)
  define m where "m = unat (ratio_acc e) + n"
  define e5 where "e5 = e4\<lparr>ratio_acc := word_of_nat (m mod d),
    next_repair_seq := next_repair_seq e4 + word_of_nat (m div d)\<rparr>"
  have loop: "repair_loop (Suc (unat (ratio_acc e4))) e4 = Some (e5,
      map (\<lambda>i. repair_of (next_repair_seq e + word_of_nat i) (window e)) [0..<m div d])"
    using repair_loop_spec [of e4 "Suc (unat (ratio_acc e4))"] cfg
    by (simp add: same a4 e5_def m_def d_def)
  have "1 \<le> d" "d < 256" using config_ok_unat(1) [OF cfg] unat_lt_u8 by (simp_all add: d_def)
  then have "m mod d < 255" using mod_less_divisor [of d m] by linarith
  moreover have "enc_emit e = repair_loop (Suc (unat (ratio_acc e4))) e4"
    using False by (simp add: enc_emit_def e4_def Let_def n_def unat_eq_0 word_gt_0)
  ultimately show ?thesis
    using False ok loop by (simp add: m_def [symmetric] enc_ok_def e5_def e4_def unat_of_nat)
qed

lemma enc_push_source_spec:
  assumes ok: "enc_ok e" and len: "length p \<le> 65520"
  defines "n \<equiv> unat (redundancy_numerator (enc_config e))"
    and "d \<equiv> unat (redundancy_denominator (enc_config e))"
  shows "\<exists>e' k. enc_push_source e sq p = Some (e',
       \<lparr>eo_source = Source sq p,
        eo_repairs = map (\<lambda>i. repair_of (next_repair_seq e + word_of_nat i) (window e'))
          [0..<(if n = 0 then 0 else (unat (ratio_acc e) + n) div d)]\<rparr>) \<and>
     window e' = drop k (window e) @ [\<lparr>we_seq = sq, prefixed_payload = prefixed p\<rparr>] \<and>
     enc_config e' = enc_config e \<and>
     unat (ratio_acc e') = (if n = 0 then unat (ratio_acc e) else (unat (ratio_acc e) + n) mod d) \<and>
     enc_ok e'"
proof -
  obtain e3 k where e3: "enc_admit e sq p = Some e3" "enc_ok e3"
    "window e3 = drop k (window e) @ [\<lparr>we_seq = sq, prefixed_payload = prefixed p\<rparr>]"
    "enc_config e3 = enc_config e" "next_repair_seq e3 = next_repair_seq e" "ratio_acc e3 = ratio_acc e"
    by (rule enc_admit_spec [OF ok len])
  show ?thesis
    using enc_emit_spec [OF e3(2)] len e3
    by (auto simp: enc_push_source_def n_def d_def intro!: exI [of _ k])
qed

lemma enc_ok_acknowledge: "enc_ok e \<Longrightarrow> enc_ok (acknowledge e h)"
proof -
  assume ok: "enc_ok e"
  have "enc_ok (ack_evict h e)"
  proof -
    obtain k where k: "window (ack_evict h e) = drop k (window e)"
      and same: "enc_config (ack_evict h e) = enc_config e" "ratio_acc (ack_evict h e) = ratio_acc e"
      using ack_evict_spec [OF enc_ok_core [OF ok]] by (auto simp: evicts_def)
    have "window_bytes (drop k (window e)) \<le> window_bytes (window e)"
      unfolding window_bytes_def by (metis append_take_drop_id le_add2 map_append sum_list_append)
    then show ?thesis
      using ok ack_evict_spec [OF enc_ok_core [OF ok], of h] k same
      by (auto simp: enc_ok_def enc_core_def)
  qed
  then show ?thesis using ok by (auto simp: acknowledge_def split: option.split ordering.split)
qed

section \<open>Repairs are equations over the source stream\<close>

text \<open>
  \<open>src\<close> is the source stream: the payload of every sequence number. A repair is valid for it when
  each of its bytes is the combination of the length-prefixed payloads of its window, and it is long
  enough for all of them.
\<close>

definition repair_valid :: "(u32 \<Rightarrow> bytes) \<Rightarrow> u16 \<Rightarrow> u32 \<Rightarrow> u32 \<Rightarrow> bytes \<Rightarrow> bool" where
  "repair_valid src rs base wend p \<longleftrightarrow>
     (\<forall>j < length p. p ! j =
        xsum (\<lambda>s. gf_mul (gf_coeff rs s) (byte_at (prefixed (src s)) j)) (seq_range base wend)) \<and>
     (\<forall>s \<in> set (seq_range base wend). length (src s) + 2 \<le> length p \<and> length (src s) \<le> 65520)"

fun symbol_valid :: "(u32 \<Rightarrow> bytes) \<Rightarrow> symbol \<Rightarrow> bool" where
  "symbol_valid src (Source s p) \<longleftrightarrow> p = src s \<and> length p \<le> 65520"
| "symbol_valid src (Repair rs base wend p) \<longleftrightarrow> repair_valid src rs base wend p"

lemma length_xor_scaled [simp]: "length (xor_scaled c src acc) = length acc"
  by (simp add: xor_scaled_def)

lemma nth_xor_scaled:
  "j < length acc \<Longrightarrow> xor_scaled c src acc ! j = acc ! j XOR gf_mul c (byte_at src j)"
  by (simp add: xor_scaled_def byte_at_def)

lemma fold_xor_scaled:
  "length (fold (\<lambda>w acc. xor_scaled (f w) (g w) acc) ws acc) = length acc"
  "j < length acc \<Longrightarrow> fold (\<lambda>w acc. xor_scaled (f w) (g w) acc) ws acc ! j =
     acc ! j XOR xsum (\<lambda>w. gf_mul (f w) (byte_at (g w) j)) ws"
  by (induction ws arbitrary: acc) (simp_all add: nth_xor_scaled xor.assoc)

lemma fold_max_ge: "x \<in> set xs \<Longrightarrow> x \<le> fold max xs (m :: nat)"
  by (subst Max.set_eq_fold [symmetric]) (simp add: max.coboundedI2)

lemma combine_window_length:
  "w \<in> set ws \<Longrightarrow> length (prefixed_payload w) \<le> length (combine_window rs ws)"
  by (simp add: combine_window_def Let_def fold_xor_scaled fold_max_ge)

lemma combine_window_nth:
  "j < length (combine_window rs ws) \<Longrightarrow> combine_window rs ws ! j =
     xsum (\<lambda>w. gf_mul (gf_coeff rs (we_seq w)) (byte_at (prefixed_payload w) j)) ws"
  by (simp add: combine_window_def Let_def fold_xor_scaled)

text \<open>The window of an encoder fed with consecutive sequence numbers.\<close>

definition contiguous :: "window_entry list \<Rightarrow> bool" where
  "contiguous ws \<longleftrightarrow> successively (\<lambda>v w. we_seq w = we_seq v + 1) ws"

lemma contiguous_drop: "contiguous ws \<Longrightarrow> contiguous (drop k ws)"
  unfolding contiguous_def by (metis append_take_drop_id successively_append_iff)

lemma contiguous_snoc:
  "contiguous (ws @ [w]) \<longleftrightarrow> contiguous ws \<and> (ws = [] \<or> we_seq w = we_seq (last ws) + 1)"
  by (auto simp: contiguous_def successively_append_iff)

lemma contiguous_nth: "contiguous ws \<Longrightarrow> i < length ws \<Longrightarrow> we_seq (ws ! i) = we_seq (hd ws) + word_of_nat i"
proof (induction ws arbitrary: i rule: rev_induct)
  case (snoc w ws)
  show ?case
  proof (cases "i < length ws")
    case True
    then have "ws \<noteq> []" by auto
    with True snoc show ?thesis by (simp add: contiguous_snoc nth_append)
  next
    case False
    then have i: "i = length ws" using snoc.prems by simp
    show ?thesis
    proof (cases "ws = []")
      case ne: False
      then have "we_seq (last ws) = we_seq (hd ws) + word_of_nat (length ws - 1)"
        using snoc.IH [of "length ws - 1"] snoc.prems by (simp add: contiguous_snoc last_conv_nth)
      moreover have "word_of_nat (length ws) = (word_of_nat (length ws - 1) + 1 :: u32)"
        using ne by (cases ws) simp_all
      ultimately show ?thesis using snoc.prems ne by (simp add: i contiguous_snoc add.assoc)
    qed (simp add: i)
  qed
qed simp

lemma contiguous_range:
  assumes "contiguous ws" "ws \<noteq> []" "length ws \<le> 128"
  shows "map we_seq ws = seq_range (we_seq (hd ws)) (we_seq (last ws) + 1)"
    and "unat (we_seq (last ws) + 1 - we_seq (hd ws)) = length ws"
proof -
  have "we_seq (last ws) = we_seq (hd ws) + word_of_nat (length ws - 1)"
    using contiguous_nth [OF assms(1), of "length ws - 1"] assms(2) by (simp add: last_conv_nth)
  then have "we_seq (last ws) + 1 - we_seq (hd ws) = word_of_nat (Suc (length ws - 1))"
    by simp
  then show len: "unat (we_seq (last ws) + 1 - we_seq (hd ws)) = length ws"
    using assms(2,3) by (simp add: unat_of_nat)
  show "map we_seq ws = seq_range (we_seq (hd ws)) (we_seq (last ws) + 1)"
    using contiguous_nth [OF assms(1)] by (auto simp: seq_range_eq len intro!: nth_equalityI)
qed

definition window_of :: "(u32 \<Rightarrow> bytes) \<Rightarrow> window_entry list \<Rightarrow> bool" where
  "window_of src ws \<longleftrightarrow> contiguous ws \<and>
     (\<forall>w \<in> set ws. prefixed_payload w = prefixed (src (we_seq w)) \<and> length (src (we_seq w)) \<le> 65520)"

lemma repair_of_valid:
  assumes "window_of src ws" "length ws \<le> 128"
  shows "symbol_valid src (repair_of rs ws)"
proof (cases "ws = []")
  case False
  note R = contiguous_range [OF _ False assms(2)]
  have c: "contiguous ws" and pay: "\<And>w. w \<in> set ws \<Longrightarrow> prefixed_payload w = prefixed (src (we_seq w))"
    "\<And>w. w \<in> set ws \<Longrightarrow> length (src (we_seq w)) \<le> 65520"
    using assms(1) by (auto simp: window_of_def)
  have "combine_window rs ws ! j =
      xsum (\<lambda>s. gf_mul (gf_coeff rs s) (byte_at (prefixed (src s)) j)) (map we_seq ws)"
    if "j < length (combine_window rs ws)" for j
    using that pay(1) by (simp add: combine_window_nth xsum_map cong: xsum_cong)
  moreover have "length (src s) + 2 \<le> length (combine_window rs ws) \<and> length (src s) \<le> 65520"
    if "s \<in> set (map we_seq ws)" for s
    using that pay combine_window_length [of _ ws rs] by fastforce
  ultimately show ?thesis
    using False by (simp add: repair_of_def repair_valid_def R(1) [OF c, symmetric])
qed (simp add: repair_of_def repair_valid_def)

lemma window_of_push:
  assumes "window_of src ws" "ws = [] \<or> sq = we_seq (last ws) + 1" "src sq = p" "length p \<le> 65520"
  shows "window_of src (drop k ws @ [\<lparr>we_seq = sq, prefixed_payload = prefixed p\<rparr>])"
proof -
  have "window_of src (drop k ws)"
    using assms(1) contiguous_drop by (auto simp: window_of_def dest: in_set_dropD)
  moreover have "drop k ws = [] \<or> sq = we_seq (last (drop k ws)) + 1"
    using assms(2) by (cases "drop k ws = []") auto
  ultimately show ?thesis
    using assms(3,4) by (auto simp: window_of_def contiguous_snoc)
qed

section \<open>Acknowledgement\<close>

lemma ack_evict_window:
  "window (ack_evict h e) = dropWhile (\<lambda>w. serial_cmp (we_seq w) h \<in> {Some Less, Some Equal}) (window e)"
proof (induction h e rule: ack_evict.induct)
  case (1 h e)
  show ?case
  proof (cases "window e")
    case Nil
    then show ?thesis by (simp add: ack_evict.simps [of h e])
  next
    case (Cons w ws)
    then show ?thesis
      using "1.IH" [OF Cons] evict_oldest_Cons [OF Cons] by (simp add: ack_evict.simps [of h e])
  qed
qed

lemma not_after_iff: "serial_cmp a h \<in> {Some Less, Some Equal} \<longleftrightarrow> unat (h - a) < 2 ^ 31"
proof (cases "a = h")
  case False
  then have "unat (a - h) = 2 ^ 32 - unat (h - a)" "unat (h - a) \<noteq> 0"
    using unat_minus_eq [of "h - a"] by (simp_all add: unat_eq_0)
  then show ?thesis using unat_lt_u32 [of "h - a"] by (auto simp: serial_cmp_unat Let_def)
qed (simp add: serial_cmp_def)

lemma serial_offset:
  "unat (h - (f + word_of_nat i)) =
     (if i \<le> unat (h - f) then unat (h - f) - i else unat (h - f) + 2 ^ 32 - i)"
  if "i \<le> 128" for h f :: u32
proof -
  have i: "unat (word_of_nat i :: u32) = i" using that by (simp add: unat_of_nat)
  have "h - (f + word_of_nat i) = (h - f) - word_of_nat i" by simp
  then show ?thesis by (simp only: unat_sub_if' [of "h - f"] i) simp
qed

lemma serial_offset_rev:
  "unat ((f + word_of_nat i) - h) =
     (if unat (h - f) \<le> i then i - unat (h - f) else i + 2 ^ 32 - unat (h - f))"
  if "i \<le> 128" for h f :: u32
proof -
  have i: "unat (word_of_nat i :: u32) = i" using that by (simp add: unat_of_nat)
  have "(f + word_of_nat i) - h = word_of_nat i - (h - f)" by simp
  then show ?thesis by (simp only: unat_sub_if' [of _ "h - f"] i) simp
qed

lemma dropWhile_prefix:
  assumes "m \<le> length xs" "\<And>i. i < m \<Longrightarrow> P (xs ! i)" "m < length xs \<Longrightarrow> \<not> P (xs ! m)"
  shows "dropWhile P xs = drop m xs"
proof -
  have "takeWhile P xs = take m xs" using assms by (intro takeWhile_eq_take_P_nth) auto
  then show ?thesis using assms(1) by (simp add: dropWhile_eq_drop)
qed

text \<open>On a contiguous window an acknowledgement removes exactly the symbols up to it.\<close>

lemma acknowledge_window:
  assumes ok: "enc_ok e" and c: "contiguous (window e)"
  shows "window (acknowledge e h) =
    (if h \<in> set (map we_seq (window e)) then drop (Suc (unat (h - we_seq (hd (window e))))) (window e)
     else window e)"
proof (cases "window e = []")
  case False
  let ?ws = "window e" and ?f = "we_seq (hd (window e))" and ?P = "\<lambda>w. serial_cmp (we_seq w) h \<in> {Some Less, Some Equal}"
  define m where "m = unat (h - ?f)"
  have len: "length ?ws \<le> 128"
    using ok config_ok_unat(3) [of "enc_config e"] by (simp add: enc_ok_def)
  have nth: "we_seq (?ws ! i) = ?f + word_of_nat i" if "i < length ?ws" for i
    using contiguous_nth [OF c that] .
  have P: "?P (?ws ! i) \<longleftrightarrow> i \<le> m \<and> m - i < 2 ^ 31" if "i < length ?ws" for i
    using serial_offset [of i h ?f] that len unat_lt_u32 [of "h - ?f"]
    unfolding not_after_iff nth [OF that] m_def by auto
  have mem: "h \<in> set (map we_seq ?ws) \<longleftrightarrow> m < length ?ws"
    using set_seq_range [of h ?f "we_seq (last ?ws) + 1"] contiguous_range [OF c False len]
    by (simp add: seq_in_window_def word_less_nat_alt m_def)
  have guard: "window (acknowledge e h) = (if serial_cmp h (we_seq (last ?ws)) \<in> {Some Less, Some Equal}
      then dropWhile ?P ?ws else ?ws)"
    using False by (auto simp: acknowledge_def ack_evict_window split: option.splits ordering.splits)
  have g: "serial_cmp h (we_seq (last ?ws)) \<in> {Some Less, Some Equal} \<longleftrightarrow> unat (we_seq (last ?ws) - h) < 2 ^ 31"
    by (rule not_after_iff)
  have lasth: "unat (we_seq (last ?ws) - h) =
      (if m \<le> length ?ws - 1 then length ?ws - 1 - m else length ?ws - 1 + 2 ^ 32 - m)"
    using serial_offset_rev [of "length ?ws - 1" ?f h] nth [of "length ?ws - 1"] False len
    by (simp add: last_conv_nth m_def)
  show ?thesis
  proof (cases "m < length ?ws")
    case True
    have "dropWhile ?P ?ws = drop (Suc m) ?ws"
      by (rule dropWhile_prefix) (use True P len in auto)
    moreover have "unat (we_seq (last ?ws) - h) < 2 ^ 31"
      unfolding lasth using True len by auto
    ultimately show ?thesis using True guard mem unfolding g by (simp add: m_def [symmetric])
  next
    case out: False
    have "\<not> ?P (hd ?ws)" if "unat (we_seq (last ?ws) - h) < 2 ^ 31"
      using P [of 0] that lasth out False len by (simp add: hd_conv_nth split: if_splits)
    then have "unat (we_seq (last ?ws) - h) < 2 ^ 31 \<Longrightarrow> dropWhile ?P ?ws = ?ws"
      by (simp add: dropWhile_eq_self_iff)
    then show ?thesis using out g guard mem by auto
  qed
qed (simp add: acknowledge_def)

section \<open>Encoder sessions\<close>

text \<open>
  A sender's use of the encoder: it pushes the next symbol of the stream \<open>src\<close>, handles an
  acknowledgement, or changes the redundancy, in any order.
\<close>

datatype enc_op = PushNext | AckSeq u32 | SetRatio u8 u8

fun enc_session ::
  "(u32 \<Rightarrow> bytes) \<Rightarrow> u32 \<Rightarrow> fec_encoder \<Rightarrow> enc_op list \<Rightarrow> (fec_encoder \<times> symbol list) option" where
  "enc_session src s e [] = Some (e, [])"
| "enc_session src s e (PushNext # ops) =
     (case enc_push_source e s (src s) of
        None \<Rightarrow> None
      | Some (e', out) \<Rightarrow>
          map_option (\<lambda>(e'', syms). (e'', eo_source out # eo_repairs out @ syms))
            (enc_session src (s + 1) e' ops))"
| "enc_session src s e (AckSeq h # ops) = enc_session src s (acknowledge e h) ops"
| "enc_session src s e (SetRatio n d # ops) = enc_session src s (set_redundancy e n d) ops"

definition same_caps :: "fec_encoder \<Rightarrow> fec_encoder \<Rightarrow> bool" where
  "same_caps e e' \<longleftrightarrow> window_max_symbols (enc_config e') = window_max_symbols (enc_config e) \<and>
     window_max_bytes (enc_config e') = window_max_bytes (enc_config e)"

lemma same_caps_ack: "same_caps e (acknowledge e h)"
proof -
  have "enc_config (evict_oldest e) = enc_config e" for e
    by (simp add: evict_oldest_def Let_def split: list.split)
  then have "enc_config (ack_evict h e) = enc_config e"
    by (induction h e rule: ack_evict.induct) (subst ack_evict.simps, simp split: list.split)
  then show ?thesis
    by (simp add: same_caps_def acknowledge_def split: option.split ordering.split)
qed

definition session_inv :: "(u32 \<Rightarrow> bytes) \<Rightarrow> u32 \<Rightarrow> fec_encoder \<Rightarrow> bool" where
  "session_inv src s e \<longleftrightarrow> enc_ok e \<and> window_of src (window e) \<and>
     (window e = [] \<or> s = we_seq (last (window e)) + 1)"

lemma session_inv_drop:
  assumes "session_inv src s e" "enc_ok e'" "window e' = drop k (window e)"
  shows "session_inv src s e'"
  using assms contiguous_drop [of "window e" k]
  by (cases "k < length (window e)") (auto simp: session_inv_def window_of_def dest: in_set_dropD)

lemma session_inv_ack: "session_inv src s e \<Longrightarrow> session_inv src s (acknowledge e h)"
proof -
  assume inv: "session_inv src s e"
  then have "contiguous (window e)" "enc_ok e" by (auto simp: session_inv_def window_of_def)
  then obtain k where "window (acknowledge e h) = drop k (window e)"
    using acknowledge_window [of e h] by (metis drop0)
  then show ?thesis using session_inv_drop [OF inv] enc_ok_acknowledge \<open>enc_ok e\<close> by blast
qed

lemma session_inv_push:
  assumes inv: "session_inv src s e" and len: "length (src s) \<le> 65520"
  obtains e' out where "enc_push_source e s (src s) = Some (e', out)" "session_inv src (s + 1) e'"
    "eo_source out = Source s (src s)" "\<forall>r \<in> set (eo_repairs out). symbol_valid src r"
    "enc_config e' = enc_config e"
proof -
  have ok: "enc_ok e" using inv by (simp add: session_inv_def)
  obtain e' k n where p: "enc_push_source e s (src s) = Some (e', \<lparr>eo_source = Source s (src s),
      eo_repairs = map (\<lambda>i. repair_of (next_repair_seq e + word_of_nat i) (window e')) [0..<n]\<rparr>)"
    and w: "window e' = drop k (window e) @ [\<lparr>we_seq = s, prefixed_payload = prefixed (src s)\<rparr>]"
    and ok': "enc_ok e'" and cfg: "enc_config e' = enc_config e"
    using enc_push_source_spec [OF ok len] by blast
  have wo: "window_of src (window e')"
    using window_of_push [of src "window e" s] inv len by (simp add: w session_inv_def)
  have "length (window e') \<le> 128"
    using ok' config_ok_unat(3) [of "enc_config e'"] by (simp add: enc_ok_def)
  then have "\<forall>r \<in> set (map (\<lambda>i. repair_of (next_repair_seq e + word_of_nat i) (window e')) [0..<n]).
      symbol_valid src r"
    using repair_of_valid [OF wo] by auto
  moreover have "session_inv src (s + 1) e'" using ok' wo by (simp add: session_inv_def w)
  ultimately show thesis using that p cfg by simp
qed

lemma enc_session_valid:
  assumes src: "\<And>q. length (src q) \<le> 65520" and inv: "session_inv src s e"
  shows "\<exists>e' syms. enc_session src s e ops = Some (e', syms) \<and> enc_ok e' \<and>
    (\<forall>y \<in> set syms. symbol_valid src y) \<and> same_caps e e'"
  using inv
proof (induction ops arbitrary: s e)
  case Nil
  then show ?case by (simp add: session_inv_def same_caps_def)
next
  case (Cons op ops)
  show ?case
  proof (cases op)
    case PushNext
    obtain e' out where "enc_push_source e s (src s) = Some (e', out)" "session_inv src (s + 1) e'"
      "eo_source out = Source s (src s)" "\<forall>r \<in> set (eo_repairs out). symbol_valid src r"
      "enc_config e' = enc_config e"
      by (rule session_inv_push [OF Cons.prems src])
    then show ?thesis using PushNext Cons.IH [of "s + 1" e'] src by (fastforce simp: same_caps_def)
  next
    case (AckSeq h)
    then show ?thesis
      using Cons.IH [OF session_inv_ack [OF Cons.prems]] same_caps_ack [of e h] by (fastforce simp: same_caps_def)
  next
    case (SetRatio n d)
    have "session_inv src s (set_redundancy e n d)"
      using Cons.prems enc_ok_set_redundancy by (simp add: session_inv_def) (simp add: set_redundancy_def)
    moreover have "same_caps e (set_redundancy e n d)" by (simp add: same_caps_def set_redundancy_def)
    ultimately show ?thesis using Cons.IH SetRatio by (fastforce simp: same_caps_def)
  qed
qed

lemma session_inv_new: "session_inv src s (encoder_new c)"
  using enc_ok_new by (simp add: session_inv_def window_of_def contiguous_def) (simp add: encoder_new_def)

section \<open>Properties\<close>

text \<open>
  C16. In every session (any interleaving of pushing the next stream symbol, acknowledgements and
  redundancy changes) with payloads within the asserted limit, the encoder never panics or loops,
  and every symbol it emits is valid for the stream: sources carry the stream's payload, and each
  repair is the GF(256) combination of the length-prefixed payloads of exactly the sequence
  numbers in its declared window.
\<close>

theorem encoder_symbols_valid:
  assumes "\<forall>q. length (src q) \<le> 65520"
  shows "\<exists>e syms. enc_session src s (encoder_new c) ops = Some (e, syms) \<and>
    (\<forall>y \<in> set syms. symbol_valid src y)"
  using enc_session_valid [OF _ session_inv_new, of src s c ops] assms by blast

text \<open>A two-symbol session with one repair per source, checked through the theorem.\<close>

theorem encoder_symbols_valid_witness:
  "\<exists>e syms. enc_session (\<lambda>q. [ucast q, 7]) 4294967295
      (encoder_new \<lparr>redundancy_numerator = 1, redundancy_denominator = 1,
        window_max_symbols = 4, window_max_bytes = 100\<rparr>) [PushNext, PushNext, AckSeq 4294967295]
    = Some (e, syms) \<and> (\<forall>y \<in> set syms. symbol_valid (\<lambda>q. [ucast q, 7]) y)"
  by (rule encoder_symbols_valid) simp

text \<open>
  The window caps of the configuration hold in every session: at most \<open>window_max_symbols\<close>
  (clamped to 1..128) symbols are retained; the byte counter is exactly the number of retained
  payload bytes, and it exceeds \<open>window_max_bytes\<close> only when a single symbol does.
\<close>

theorem encoder_caps:
  assumes "\<forall>q. length (src q) \<le> 65520"
    and "enc_session src s (encoder_new c) ops = Some (e, syms)"
  shows "length (window e) \<le> unat (min (max (window_max_symbols c) 1) 128)
    \<and> unat (window_byte_total e) = sum_list (map (\<lambda>w. length (prefixed_payload w) - 2) (window e))
    \<and> (length (window e) \<le> 1 \<or> unat (window_byte_total e) \<le> unat (max (window_max_bytes c) 1))"
proof -
  have "enc_ok e" and "same_caps (encoder_new c) e"
    using enc_session_valid [OF _ session_inv_new, of src s c ops] assms by auto
  then show ?thesis
    by (simp add: enc_ok_def same_caps_def encoder_new_def sanitised_def window_bytes_def entry_bytes_def [abs_def])
qed

theorem encoder_caps_witness:
  "\<exists>e syms. enc_session (\<lambda>q. [1, 2, 3]) 0
      (encoder_new \<lparr>redundancy_numerator = 0, redundancy_denominator = 0,
        window_max_symbols = 0, window_max_bytes = 5\<rparr>) [PushNext, PushNext] = Some (e, syms) \<and>
     length (window e) \<le> 1"
proof -
  let ?c = "\<lparr>redundancy_numerator = 0, redundancy_denominator = 0,
        window_max_symbols = 0, window_max_bytes = 5\<rparr>"
  obtain e syms where run: "enc_session (\<lambda>q. [1, 2, 3]) 0 (encoder_new ?c) [PushNext, PushNext] = Some (e, syms)"
    using enc_session_valid [OF _ session_inv_new, of "\<lambda>q. [1, 2, 3]" 0 ?c "[PushNext, PushNext]"] by auto
  have "length (window e) \<le> unat (min (max (window_max_symbols ?c) 1) 128)"
    using encoder_caps [OF _ run] by simp
  then show ?thesis using run by auto
qed

primrec push_many :: "(u32 \<Rightarrow> bytes) \<Rightarrow> u32 \<Rightarrow> nat \<Rightarrow> fec_encoder \<Rightarrow> (fec_encoder \<times> nat) option" where
  "push_many src s 0 e = Some (e, 0)"
| "push_many src s (Suc k) e =
     (case enc_push_source e s (src s) of
        None \<Rightarrow> None
      | Some (e', out) \<Rightarrow>
          map_option (\<lambda>(e'', m). (e'', length (eo_repairs out) + m)) (push_many src (s + 1) k e'))"

lemma push_many_count:
  assumes src: "\<And>q. length (src q) \<le> 65520"
  shows "enc_ok e \<Longrightarrow> unat (redundancy_denominator (enc_config e)) = d \<Longrightarrow>
    unat (redundancy_numerator (enc_config e)) = n \<Longrightarrow> unat (ratio_acc e) < d \<Longrightarrow>
    \<exists>e'. push_many src s k e = Some (e', (unat (ratio_acc e) + k * n) div d)"
proof (induction k arbitrary: s e)
  case (Suc k)
  let ?a = "unat (ratio_acc e)"
  obtain e' out where p: "enc_push_source e s (src s) = Some (e', out)" "enc_config e' = enc_config e" "enc_ok e'"
    and r: "length (eo_repairs out) = (if n = 0 then 0 else (?a + n) div d)"
      "unat (ratio_acc e') = (if n = 0 then ?a else (?a + n) mod d)"
    using enc_push_source_spec [OF Suc.prems(1) src, of s s] Suc.prems(2,3) by fastforce
  have d: "0 < d" using Suc.prems(4) by simp
  have lt: "unat (ratio_acc e') < d" using r(2) d Suc.prems(4) by simp
  obtain e'' where rest: "push_many src (s + 1) k e' = Some (e'', (unat (ratio_acc e') + k * n) div d)"
    using Suc.IH [OF p(3) _ _ lt] Suc.prems(2,3) p(2) by auto
  have "?a + n + k * n = d * ((?a + n) div d) + ((?a + n) mod d + k * n)"
    by (simp add: mult_div_mod_eq flip: add.assoc)
  then have "(?a + n) div d + ((?a + n) mod d + k * n) div d = (?a + n + k * n) div d"
    using d by (metis div_mult_self4 neq0_conv)
  then show ?case using p(1) rest r by (simp add: algebra_simps)
qed simp

text \<open>
  The repair rate: with a fixed ratio \<open>n/d\<close> (denominator at least 1), pushing \<open>k\<close> consecutive
  symbols into a fresh encoder emits exactly \<open>\<lfloor>k n / d\<rfloor>\<close> repairs.
\<close>

theorem encoder_repair_rate:
  assumes "\<forall>q. length (src q) \<le> 65520"
  shows "\<exists>e. push_many src s k (encoder_new c) =
    Some (e, k * unat (redundancy_numerator c) div unat (max (redundancy_denominator c) 1))"
proof -
  have "1 \<le> unat (redundancy_denominator (sanitised c))"
    using config_ok_unat(1) [OF config_ok_sanitised] .
  then show ?thesis
    using push_many_count [of src "encoder_new c" _ _ s k] assms enc_ok_new [of c]
    by (simp add: encoder_new_def) (simp add: sanitised_def)
qed

theorem encoder_repair_rate_witness:
  "\<exists>e. push_many (\<lambda>q. [9]) 0 40 (encoder_new default_streaming) = Some (e, 5)"
  using encoder_repair_rate [of "\<lambda>q. [9]" 0 40 default_streaming] by (simp add: default_streaming_def)

text \<open>
  Acknowledging \<open>h\<close> on the (contiguous) window of a session removes exactly the symbols up to
  and including \<open>h\<close> when \<open>h\<close> is in the window, and changes nothing otherwise (stale, future and
  half-range acknowledgements alike), also across the wrap of \<open>u32\<close>.
\<close>

theorem acknowledge_exact:
  assumes "enc_ok e" and "contiguous (window e)"
  shows "window (acknowledge e h) =
    (if h \<in> set (map we_seq (window e)) then drop (Suc (unat (h - we_seq (hd (window e))))) (window e)
     else window e)"
  using assms by (rule acknowledge_window)

theorem acknowledge_exact_witness:
  "window (acknowledge \<lparr>enc_config = default_streaming,
       window = [\<lparr>we_seq = 4294967295, prefixed_payload = prefixed []\<rparr>, \<lparr>we_seq = 0, prefixed_payload = prefixed []\<rparr>],
       window_byte_total = 0, next_repair_seq = 0, ratio_acc = 0\<rparr> 4294967295) =
     [\<lparr>we_seq = 0, prefixed_payload = prefixed []\<rparr>]"
  by (subst acknowledge_exact)
    (auto simp: enc_ok_def config_ok_def default_streaming_def entry_ok_def window_bytes_def
      entry_bytes_def contiguous_def)

end
