(* ===== verification/Fec_Decoder.thy ===== *)
theory Fec_Decoder
  imports Gauss Serial Ord_Map Fec_Encoder
begin

text \<open>
  \<open>FecDecoder\<close> of \<open>fec.rs\<close>: bounded retention of source and repair symbols, cap-driven eviction
  (\<open>make_room\<close>), the rolling repair horizon, recovery by repeated Gaussian elimination, and the
  contiguous frontier with its loss spans. A function that could panic (an index out of range, the
  inverse of zero) or loop for ever returns an \<open>option\<close>, with \<open>None\<close> for that outcome; the two
  unbounded loops are \<open>partial_function\<close>s. The invariant \<open>dec_ok\<close> carries the caps; \<open>Fec_Recovery\<close>
  builds the correctness of recovery on this theory.
\<close>

section \<open>State\<close>

datatype decoder_event =
  EvRecovered u32 bytes bool \<comment> \<open>\<open>seq\<close>, \<open>payload\<close>, \<open>via_fec\<close>\<close>
| EvLossSpan u32 u32         \<comment> \<open>\<open>from_seq\<close>, \<open>to_seq_exclusive\<close>\<close>
| EvEvicted u32 u32

datatype source_state = Received bytes | Recovered bytes | Missing

fun state_payload :: "source_state \<Rightarrow> bytes option" where
  "state_payload (Received p) = Some p"
| "state_payload (Recovered p) = Some p"
| "state_payload Missing = None"

definition is_known :: "source_state \<Rightarrow> bool" where
  "is_known s = (state_payload s \<noteq> None)"

record received_repair =
  rr_seq :: u16
  rr_base :: u32
  rr_end :: u32
  rr_payload :: bytes

record fec_decoder_stats =
  source_symbols_received :: nat
  repair_symbols_received :: nat
  symbols_recovered :: nat
  loss_spans :: nat
  loss_spans_recovered :: nat

record fec_decoder_accounting =
  source_symbols :: nat
  repair_symbols :: nat
  dedup_keys :: nat
  algebra_symbols :: nat
  retained_bytes :: nat

record fec_decoder =
  max_symbols :: u16
  max_bytes :: u32
  sources :: "(u32, source_state) btree_map"
  repairs :: "received_repair list"
  seen_repair_keys :: "(u16 \<times> u32) set"
  highest_contiguous :: "u32 option"
  dec_stats :: fec_decoder_stats
  open_loss_span :: "u32 option"
  open_loss_span_has_recovery :: bool
  newest_seq :: "u32 option"
  roll_horizon :: "(u32 \<times> u32) option"

datatype repair_horizon = Stale | Overlapping | Forward

definition decoder_new :: "u16 \<Rightarrow> u32 \<Rightarrow> fec_decoder" where
  "decoder_new ms mb =
     \<lparr>max_symbols = min (max ms 1) 128,
      max_bytes = min (max mb 1) (16 * 1024 * 1024),
      sources = [], repairs = [], seen_repair_keys = {}, highest_contiguous = None,
      dec_stats = \<lparr>source_symbols_received = 0, repair_symbols_received = 0,
        symbols_recovered = 0, loss_spans = 0, loss_spans_recovered = 0\<rparr>,
      open_loss_span = None, open_loss_span_has_recovery = False,
      newest_seq = None, roll_horizon = None\<rparr>"

definition highest_fully_decoded :: "fec_decoder \<Rightarrow> u32 option" where
  "highest_fully_decoded d = highest_contiguous d"

fun source_cost :: "source_state \<Rightarrow> nat" where
  "source_cost (Received p) = length p + 8"
| "source_cost (Recovered p) = length p + 8"
| "source_cost Missing = 8"

definition accounting :: "fec_decoder \<Rightarrow> fec_decoder_accounting" where
  "accounting d =
     (let source_bytes = bt_weight source_cost (sources d);
          repair_bytes = sum_list (map (\<lambda>r. length (rr_payload r) + 16) (repairs d))
      in \<lparr>source_symbols = length (sources d),
          repair_symbols = length (repairs d),
          dedup_keys = card (seen_repair_keys d),
          algebra_symbols = max (length (sources d)) (length (repairs d)),
          retained_bytes = source_bytes + repair_bytes + card (seen_repair_keys d) * 8\<rparr>)"

section \<open>Retention\<close>

definition note_newest :: "u32 \<Rightarrow> fec_decoder \<Rightarrow> fec_decoder" where
  "note_newest seq d =
     (case newest_seq d of
        None \<Rightarrow> d\<lparr>newest_seq := Some seq\<rparr>
      | Some current \<Rightarrow> if seq - current < 0x80000000 then d\<lparr>newest_seq := Some seq\<rparr> else d)"

definition repair_horizon_relation :: "fec_decoder \<Rightarrow> u32 \<Rightarrow> u32 \<Rightarrow> repair_horizon" where
  "repair_horizon_relation d window_base window_end =
     (case roll_horizon d of
        None \<Rightarrow> Forward
      | Some (horizon_base, horizon_end) \<Rightarrow>
          (case serial_cmp window_end horizon_end of
             None \<Rightarrow> Stale
           | Some Less \<Rightarrow> Stale
           | Some Equal \<Rightarrow> if window_base = horizon_base then Forward else Stale
           | Some Greater \<Rightarrow>
               (case serial_cmp window_base horizon_base of
                  Some Greater \<Rightarrow> Forward
                | Some Equal \<Rightarrow> Forward
                | Some Less \<Rightarrow> Overlapping
                | None \<Rightarrow> Overlapping)))"

definition repair_key :: "received_repair \<Rightarrow> u16 \<times> u32" where
  "repair_key r = (rr_seq r, rr_base r)"

definition evict_oldest_repair :: "fec_decoder \<Rightarrow> fec_decoder" where
  "evict_oldest_repair d =
     d\<lparr>repairs := tl (repairs d), seen_repair_keys := set (map repair_key (tl (repairs d)))\<rparr>"

text \<open>\<open>Iterator::max_by_key\<close>: the last of the elements with the greatest key.\<close>

fun max_by_key :: "('a \<Rightarrow> 'b::linorder) \<Rightarrow> 'a list \<Rightarrow> 'a option" where
  "max_by_key f [] = None"
| "max_by_key f (x # xs) =
     (case max_by_key f xs of None \<Rightarrow> Some x | Some y \<Rightarrow> if f x \<le> f y then Some y else Some x)"

definition eviction_candidate :: "fec_decoder \<Rightarrow> u32 \<Rightarrow> (u32 \<times> source_state) option" where
  "eviction_candidate d newest =
     (let frontier = (case highest_contiguous d of Some h \<Rightarrow> h | None \<Rightarrow> newest)
      in case max_by_key (\<lambda>e. frontier - fst e)
               (filter (\<lambda>e. frontier - fst e < 0x80000000) (sources d)) of
           Some e \<Rightarrow> Some e
         | None \<Rightarrow> max_by_key (\<lambda>e. newest - fst e) (sources d))"

definition drop_source :: "u32 \<Rightarrow> fec_decoder \<Rightarrow> fec_decoder" where
  "drop_source seq d = d\<lparr>sources := bt_remove seq (sources d)\<rparr>"

lemma max_by_key_in: "max_by_key f xs = Some x \<Longrightarrow> x \<in> set xs"
  by (induction xs arbitrary: x) (auto split: option.splits if_splits)

lemma eviction_candidate_in: "eviction_candidate d newest = Some e \<Longrightarrow> e \<in> set (sources d)"
  by (auto simp: eviction_candidate_def Let_def split: option.splits dest!: max_by_key_in)

lemma length_drop_source: "e \<in> set (sources d) \<Longrightarrow> length (sources (drop_source (fst e) d)) < length (sources d)"
  by (auto simp: drop_source_def bt_remove_def intro: length_filter_less)

function make_room ::
  "nat \<Rightarrow> nat \<Rightarrow> nat \<Rightarrow> nat \<Rightarrow> fec_decoder \<Rightarrow> fec_decoder \<times> decoder_event list" where
  "make_room added_sources added_repairs added_keys added_bytes d =
     (let acc = accounting d;
          cap = unat (max_symbols d);
          over_symbols = (source_symbols acc + added_sources > cap \<or>
                          repair_symbols acc + added_repairs > cap);
          over_bytes = (retained_bytes acc + added_bytes + added_keys * 8 > unat (max_bytes d))
      in if \<not> over_symbols \<and> \<not> over_bytes then (d, [])
         else if repairs d \<noteq> [] \<and> (repair_symbols acc + added_repairs > cap \<or> over_bytes)
         then make_room added_sources added_repairs added_keys added_bytes (evict_oldest_repair d)
         else case newest_seq d of
                None \<Rightarrow> (d, [])
              | Some newest \<Rightarrow>
                  (case eviction_candidate d newest of
                     None \<Rightarrow> (d, [])
                   | Some e \<Rightarrow>
                       (let (d', evs) = make_room added_sources added_repairs added_keys added_bytes
                              (drop_source (fst e) d)
                        in (d', (if snd e = Missing then [EvEvicted (fst e) (fst e + 1)] else []) @ evs))))"
  by pat_completeness auto
termination
proof (relation "measure (\<lambda>(_, _, _, _, d). length (sources d) + length (repairs d))", goal_cases)
  case (2 as ar ak ab d)
  then show ?case by (cases "repairs d") (simp_all add: evict_oldest_repair_def)
next
  case (3 as ar ak ab d acc cap os ob newest e)
  from eviction_candidate_in [OF 3(8)] show ?case
    using length_drop_source [of e d] by (simp add: drop_source_def)
qed simp

declare make_room.simps [simp del]

definition roll_for_repair :: "u32 \<Rightarrow> u32 \<Rightarrow> fec_decoder \<Rightarrow> fec_decoder \<times> decoder_event list" where
  "roll_for_repair window_base window_len d =
     (if window_len = 0 then (d, [])
      else let kept = filter (\<lambda>r. seq_in_window (rr_base r) window_base window_len \<and>
                 seq_in_window (rr_end r - 1) window_base window_len) (repairs d);
               obsolete = filter (\<lambda>seq. \<not> seq_in_window seq window_base window_len) (map fst (sources d));
               events = map (\<lambda>seq. EvEvicted seq (seq + 1))
                 (filter (\<lambda>seq. bt_get (sources d) seq = Some Missing) obsolete)
           in (d\<lparr>repairs := kept, seen_repair_keys := set (map repair_key kept),
                  sources := fold bt_remove obsolete (sources d)\<rparr>, events))"

definition frontier_seq :: "fec_decoder \<Rightarrow> u32" where
  "frontier_seq d = (case highest_contiguous d of None \<Rightarrow> 0 | Some h \<Rightarrow> h + 1)"

definition open_span_at :: "u32 \<Rightarrow> fec_decoder \<Rightarrow> fec_decoder" where
  "open_span_at seq d =
     (if open_loss_span d \<noteq> None then d
      else d\<lparr>dec_stats := (dec_stats d)\<lparr>loss_spans := loss_spans (dec_stats d) + 1\<rparr>,
             open_loss_span := Some seq, open_loss_span_has_recovery := False\<rparr>)"

definition note_open_span_at_frontier :: "fec_decoder \<Rightarrow> fec_decoder" where
  "note_open_span_at_frontier d =
     (if open_loss_span d \<noteq> None then d
      else let frontier = frontier_seq d
           in if bt_get (sources d) frontier = Some Missing then open_span_at frontier d else d)"

section \<open>Recovery\<close>

definition missing_seqs :: "fec_decoder \<Rightarrow> u32 list" where
  "missing_seqs d = map fst (filter (\<lambda>e. \<not> is_known (snd e)) (sources d))"

text \<open>\<open>slice::binary_search\<close> on a strictly sorted slice: the position of the key, if present.\<close>

fun binary_search :: "'a list \<Rightarrow> 'a \<Rightarrow> nat option" where
  "binary_search [] k = None"
| "binary_search (x # xs) k = (if x = k then Some 0 else map_option Suc (binary_search xs k))"

text \<open>One XOR assignment \<open>row[i] ^= v\<close>; every use is guarded by a bound on \<open>i\<close>.\<close>

definition xor_at :: "nat \<Rightarrow> u8 \<Rightarrow> bytes \<Rightarrow> bytes" where
  "xor_at i v row = row[i := row ! i XOR v]"

definition subtract_known :: "received_repair \<Rightarrow> nat \<Rightarrow> u8 \<Rightarrow> bytes \<Rightarrow> bytes \<Rightarrow> bytes" where
  "subtract_known r max_eff_len coeff p row =
     (let len_bytes = le16 (word_of_nat (length p));
          row = (if rr_payload r \<noteq> [] then xor_at 0 (gf_mul coeff (len_bytes ! 0)) row else row);
          row = (if 2 \<le> length (rr_payload r) then xor_at 1 (gf_mul coeff (len_bytes ! 1)) row else row)
      in fold (\<lambda>(k, b) row. if 2 + k < max_eff_len then xor_at (2 + k) (gf_mul coeff b) row else row)
           (enumerate 0 p) row)"

definition elim_row_step ::
  "fec_decoder \<Rightarrow> u32 list \<Rightarrow> nat \<Rightarrow> received_repair \<Rightarrow> u32 \<Rightarrow> bytes \<times> bytes \<Rightarrow> bytes \<times> bytes" where
  "elim_row_step d missing max_eff_len r seq row =
     (let coeff = gf_coeff (rr_seq r) seq
      in case bt_get (sources d) seq of
           None \<Rightarrow> row
         | Some state \<Rightarrow>
             (case state_payload state of
                Some p \<Rightarrow> (fst row, subtract_known r max_eff_len coeff p (snd row))
              | None \<Rightarrow>
                  (case binary_search missing seq of
                     Some pos \<Rightarrow> ((fst row)[pos := coeff], snd row)
                   | None \<Rightarrow> row)))"

definition elim_row :: "fec_decoder \<Rightarrow> u32 list \<Rightarrow> nat \<Rightarrow> received_repair \<Rightarrow> bytes \<times> bytes" where
  "elim_row d missing max_eff_len r =
     fold (elim_row_step d missing max_eff_len r) (seq_range (rr_base r) (rr_end r))
       (replicate (length missing) 0,
        rr_payload r @ replicate (max_eff_len - length (rr_payload r)) 0)"

definition decode_solution :: "bytes \<Rightarrow> bytes option" where
  "decode_solution eff =
     (if length eff < 2 then None
      else let payload_len = unat (u16_of (eff ! 0) (eff ! 1));
               stop = min (2 + payload_len) (length eff)
           in Some (subslice 2 stop eff))"

definition one_elim_pass :: "fec_decoder \<Rightarrow> (u32 \<times> bytes) list option" where
  "one_elim_pass d =
     (if repairs d = [] then Some []
      else let missing = missing_seqs d
      in if missing = [] then Some []
      else let max_eff_len = fold max (map (\<lambda>r. length (rr_payload r)) (repairs d)) 0
      in if max_eff_len = 0 then Some []
      else let n_unknowns = length missing
      in if n_unknowns > 128 \<or> length (repairs d) > 128 then Some []
      else let scratch = length (repairs d) * (n_unknowns + max_eff_len) + 2 * n_unknowns + 2 * max_eff_len
      in if retained_bytes (accounting d) + scratch > unat (max_bytes d) then Some []
      else let rows = map (elim_row d missing max_eff_len) (repairs d)
      in case gaussian_elim (map fst rows) (map snd rows) n_unknowns max_eff_len of
           None \<Rightarrow> None
         | Some solutions \<Rightarrow>
             Some (List.map_filter (\<lambda>(col, eff). map_option (Pair (missing ! col)) (decode_solution eff))
               solutions))"

definition store_recovered :: "(u32 \<times> bytes) list \<Rightarrow> fec_decoder \<Rightarrow> fec_decoder" where
  "store_recovered batch d =
     d\<lparr>dec_stats := (dec_stats d)\<lparr>symbols_recovered := symbols_recovered (dec_stats d) + length batch\<rparr>,
       sources := fold (\<lambda>(seq, p). bt_insert seq (Recovered p)) batch (sources d)\<rparr>"

partial_function (option) try_recover :: "fec_decoder \<Rightarrow> (fec_decoder \<times> (u32 \<times> bytes) list) option" where
  "try_recover d =
     Option.bind (one_elim_pass d) (\<lambda>batch.
       if batch = [] then Some (d, [])
       else if retained_bytes (accounting d) + sum_list (map (\<lambda>(_, p). length p) batch)
              > unat (max_bytes d) then Some (d, [])
       else Option.bind (try_recover (store_recovered batch d)) (\<lambda>(d', rest). Some (d', batch @ rest)))"

section \<open>The contiguous frontier\<close>

definition close_open_span_step :: "u32 \<Rightarrow> bool \<Rightarrow> fec_decoder \<Rightarrow> fec_decoder" where
  "close_open_span_step resolved_seq via_fec d =
     (if open_loss_span d = None then d
      else let d = (if via_fec then d\<lparr>open_loss_span_has_recovery := True\<rparr> else d);
               still_missing = (bt_get (sources d) (resolved_seq + 1) = Some Missing)
           in if still_missing then d
              else let d = (if open_loss_span_has_recovery d
                            then d\<lparr>dec_stats := (dec_stats d)\<lparr>loss_spans_recovered :=
                                     loss_spans_recovered (dec_stats d) + 1\<rparr>\<rparr>
                            else d)
                   in d\<lparr>open_loss_span := None, open_loss_span_has_recovery := False\<rparr>)"

text \<open>
  The inner scan of \<open>advance_contiguous\<close>: \<open>Some (Some e)\<close> when the missing run starting before \<open>scan\<close>
  is bounded by the known symbol \<open>e\<close>, \<open>Some None\<close> when it is open-ended.
\<close>

partial_function (option) scan_missing :: "(u32, source_state) btree_map \<Rightarrow> u32 \<Rightarrow> u32 option option" where
  "scan_missing srcs scan =
     (case bt_get srcs scan of
        None \<Rightarrow> Some None
      | Some state \<Rightarrow>
          if is_known state then Some (Some scan) else scan_missing srcs (scan + 1))"

definition abandon_span :: "u32 \<Rightarrow> u32 \<Rightarrow> fec_decoder \<Rightarrow> fec_decoder" where
  "abandon_span span_start scan d =
     d\<lparr>sources := fold bt_remove (seq_range span_start scan) (sources d),
       highest_contiguous := Some (scan - 1),
       open_loss_span := None, open_loss_span_has_recovery := False\<rparr>"

partial_function (option) advance_contiguous :: "fec_decoder \<Rightarrow> (fec_decoder \<times> decoder_event list) option" where
  "advance_contiguous d =
     (let nxt = frontier_seq d
      in case bt_get (sources d) nxt of
           None \<Rightarrow> Some (d, [])
         | Some (Received _) \<Rightarrow>
             advance_contiguous ((close_open_span_step nxt False d)\<lparr>highest_contiguous := Some nxt\<rparr>)
         | Some (Recovered _) \<Rightarrow>
             advance_contiguous ((close_open_span_step nxt True d)\<lparr>highest_contiguous := Some nxt\<rparr>)
         | Some Missing \<Rightarrow>
             (let d = open_span_at nxt d
              in Option.bind (scan_missing (sources d) (nxt + 1)) (\<lambda>bound.
                   case bound of
                     None \<Rightarrow> Some (d, [])
                   | Some scan \<Rightarrow>
                       Option.bind (advance_contiguous (abandon_span nxt scan d)) (\<lambda>(d', evs).
                         Some (d', EvLossSpan nxt scan # evs)))))"

section \<open>Symbols\<close>

text \<open>The common tail of \<open>push_source\<close> and \<open>admit_repair\<close>.\<close>

definition recover_and_advance :: "fec_decoder \<Rightarrow> (fec_decoder \<times> decoder_event list) option" where
  "recover_and_advance d =
     Option.bind (try_recover d) (\<lambda>(d, recovered).
     Option.bind (advance_contiguous d) (\<lambda>(d, evs).
       Some (d, map (\<lambda>(s, p). EvRecovered s p True) recovered @ evs)))"

definition store_received :: "u32 \<Rightarrow> bytes \<Rightarrow> fec_decoder \<Rightarrow> fec_decoder" where
  "store_received seq payload d =
     d\<lparr>sources := bt_insert seq (Received payload) (sources d),
       dec_stats := (dec_stats d)\<lparr>source_symbols_received := source_symbols_received (dec_stats d) + 1\<rparr>\<rparr>"

definition dec_push_source :: "fec_decoder \<Rightarrow> u32 \<Rightarrow> bytes \<Rightarrow> (fec_decoder \<times> decoder_event list) option" where
  "dec_push_source d seq payload =
     (if length payload + 8 > unat (max_bytes d) then Some (d, [EvRecovered seq payload False])
      else case bt_get (sources d) seq of
             Some (Received _) \<Rightarrow> Some (d, [])
           | Some (Recovered _) \<Rightarrow> Some (d, [])
           | entry \<Rightarrow>
               (let (added_sources, added_bytes) =
                      (if entry = Some Missing then (0, length payload) else (1, length payload + 8));
                    (d, evicted) = make_room added_sources 0 0 added_bytes d;
                    d = note_newest seq (note_open_span_at_frontier d);
                    d = store_received seq payload d
                in Option.bind (recover_and_advance d) (\<lambda>(d, evs).
                     Some (d, evicted @ EvRecovered seq payload False # evs))))"

definition added_sources :: "u32 \<Rightarrow> u32 \<Rightarrow> fec_decoder \<Rightarrow> nat" where
  "added_sources window_base window_end d =
     length (filter (\<lambda>seq. bt_get (sources d) seq = None) (seq_range window_base window_end))"

definition repair_bytes_needed :: "u32 \<Rightarrow> u32 \<Rightarrow> bytes \<Rightarrow> fec_decoder \<Rightarrow> nat" where
  "repair_bytes_needed window_base window_end payload d =
     retained_bytes (accounting d) + (added_sources window_base window_end d * 8 + length payload + 16) + 8"

text \<open>The admission loop; \<open>None\<close> is the early \<open>return None\<close> when no repair is left to evict.\<close>

function admit_room :: "u32 \<Rightarrow> u32 \<Rightarrow> bytes \<Rightarrow> fec_decoder \<Rightarrow> fec_decoder option" where
  "admit_room window_base window_end payload d =
     (let over_repairs = (repair_symbols (accounting d) \<ge> unat (max_symbols d));
          over_bytes = (repair_bytes_needed window_base window_end payload d > unat (max_bytes d))
      in if \<not> over_repairs \<and> \<not> over_bytes then Some d
         else if repairs d = [] then None
         else admit_room window_base window_end payload (evict_oldest_repair d))"
  by pat_completeness auto
termination
proof (relation "measure (\<lambda>(_, _, _, d). length (repairs d))", goal_cases)
  case (2 b e p d)
  then show ?case by (cases "repairs d") (simp_all add: evict_oldest_repair_def)
qed simp

declare admit_room.simps [simp del]

definition register_repair :: "u16 \<Rightarrow> u32 \<Rightarrow> u32 \<Rightarrow> bytes \<Rightarrow> fec_decoder \<Rightarrow> fec_decoder" where
  "register_repair repair_seq window_base window_end payload d =
     (let d = d\<lparr>seen_repair_keys := insert (repair_seq, window_base) (seen_repair_keys d),
                dec_stats := (dec_stats d)\<lparr>repair_symbols_received := repair_symbols_received (dec_stats d) + 1\<rparr>\<rparr>;
          d = d\<lparr>sources := fold (\<lambda>seq. bt_or_insert seq Missing) (seq_range window_base window_end) (sources d)\<rparr>;
          d = note_open_span_at_frontier d;
          d = (if window_end - window_base \<noteq> 0
               then (note_newest (window_end - 1) d)\<lparr>roll_horizon := Some (window_base, window_end)\<rparr>
               else d)
      in d\<lparr>repairs := repairs d @ [\<lparr>rr_seq = repair_seq, rr_base = window_base,
             rr_end = window_end, rr_payload = payload\<rparr>]\<rparr>)"

text \<open>\<open>Some None\<close> is the \<open>None\<close> of the source: the repair cannot be admitted.\<close>

definition admit_repair ::
  "u16 \<Rightarrow> u32 \<Rightarrow> u32 \<Rightarrow> bytes \<Rightarrow> fec_decoder \<Rightarrow> (fec_decoder \<times> decoder_event list) option option" where
  "admit_repair repair_seq window_base window_end payload d =
     (let window_len = window_end - window_base;
          (d, evicted) = roll_for_repair window_base window_len d
      in case admit_room window_base window_end payload d of
           None \<Rightarrow> Some None
         | Some d \<Rightarrow>
             if source_symbols (accounting d) + added_sources window_base window_end d > unat (max_symbols d)
                \<or> repair_bytes_needed window_base window_end payload d > unat (max_bytes d)
             then Some None
             else Option.bind
                    (recover_and_advance (register_repair repair_seq window_base window_end payload d))
                    (\<lambda>(d, evs). Some (Some (d, evicted @ evs))))"

definition dec_push_repair ::
  "fec_decoder \<Rightarrow> u16 \<Rightarrow> u32 \<Rightarrow> u32 \<Rightarrow> bytes \<Rightarrow> (fec_decoder \<times> decoder_event list) option" where
  "dec_push_repair d repair_seq window_base window_end payload =
     (let window_len = window_end - window_base
      in if length payload + 16 > unat (max_bytes d) \<or> window_len > 128
           \<or> window_len > ucast (max_symbols d) then Some (d, [])
      else if repair_horizon_relation d window_base window_end \<noteq> Forward then Some (d, [])
      else if (repair_seq, window_base) \<in> seen_repair_keys d then Some (d, [])
      else Option.bind (admit_repair repair_seq window_base window_end payload d) (\<lambda>planned.
             case planned of None \<Rightarrow> Some (d, []) | Some r \<Rightarrow> Some r))"

fun push_symbol :: "fec_decoder \<Rightarrow> symbol \<Rightarrow> (fec_decoder \<times> decoder_event list) option" where
  "push_symbol d (Source seq payload) = dec_push_source d seq payload"
| "push_symbol d (Repair repair_seq window_base window_end payload) =
     dec_push_repair d repair_seq window_base window_end payload"

declare try_recover.simps [code] scan_missing.simps [code] advance_contiguous.simps [code]

section \<open>Invariant\<close>

definition repair_cost :: "received_repair \<Rightarrow> nat" where
  "repair_cost r = length (rr_payload r) + 24"

abbreviation retained :: "fec_decoder \<Rightarrow> nat" where
  "retained d \<equiv> retained_bytes (accounting d)"

text \<open>The structural part: kept by every internal step, also while a cap is exceeded.\<close>

definition dec_core :: "fec_decoder \<Rightarrow> bool" where
  "dec_core d \<longleftrightarrow>
     1 \<le> unat (max_symbols d) \<and> unat (max_symbols d) \<le> 128 \<and> 1 \<le> unat (max_bytes d) \<and>
     bt_wf (sources d) \<and>
     seen_repair_keys d = set (map repair_key (repairs d)) \<and> distinct (map repair_key (repairs d)) \<and>
     (newest_seq d = None \<longrightarrow> sources d = []) \<and>
     (\<forall>r \<in> set (repairs d). unat (rr_end r - rr_base r) \<le> unat (max_symbols d))"

text \<open>
  The caps of the decoder. The byte cap can be exceeded by the 8 bytes of one source entry
  (\<open>push_source\<close> may evict the entry it is about to fill).
\<close>

definition dec_ok :: "fec_decoder \<Rightarrow> bool" where
  "dec_ok d \<longleftrightarrow> dec_core d \<and> length (sources d) \<le> unat (max_symbols d) \<and>
     length (repairs d) \<le> unat (max_symbols d) \<and> retained d \<le> unat (max_bytes d) + 8"

text \<open>What no internal step changes.\<close>

definition same_limits :: "fec_decoder \<Rightarrow> fec_decoder \<Rightarrow> bool" where
  "same_limits d d' \<longleftrightarrow> max_symbols d' = max_symbols d \<and> max_bytes d' = max_bytes d"

lemma same_limits_refl [simp]: "same_limits d d"
  and same_limits_trans: "same_limits d d' \<Longrightarrow> same_limits d' d'' \<Longrightarrow> same_limits d d''"
  by (simp_all add: same_limits_def)

lemmas dec_coreD = dec_core_def [THEN iffD1]

lemma dec_ok_core: "dec_ok d \<Longrightarrow> dec_core d"
  by (simp add: dec_ok_def)

lemma dec_ok_new: "dec_ok (decoder_new ms mb)"
  by (auto simp: dec_ok_def dec_core_def decoder_new_def accounting_def bt_wf_def min_def max_def
      word_le_nat_alt)

lemma accounting_simps [simp]:
  "source_symbols (accounting d) = length (sources d)"
  "repair_symbols (accounting d) = length (repairs d)"
  "dedup_keys (accounting d) = card (seen_repair_keys d)"
  by (simp_all add: accounting_def Let_def)

lemma retained_eq:
  "dec_core d \<Longrightarrow> retained d = bt_weight source_cost (sources d) + sum_list (map repair_cost (repairs d))"
proof -
  assume c: "dec_core d"
  then have "card (seen_repair_keys d) = length (repairs d)"
    using distinct_card [of "map repair_key (repairs d)"] by (simp add: dec_core_def)
  moreover have "sum_list (map (\<lambda>r. length (rr_payload r) + 16) rs) + length rs * 8 = sum_list (map repair_cost rs)" for rs
    by (induction rs) (simp_all add: repair_cost_def)
  ultimately show ?thesis by (simp add: accounting_def Let_def)
qed

lemma retained_cong:
  "sources d' = sources d \<Longrightarrow> repairs d' = repairs d \<Longrightarrow> seen_repair_keys d' = seen_repair_keys d \<Longrightarrow>
   retained d' = retained d"
  by (simp add: accounting_def)

lemma core_get: "dec_core d \<Longrightarrow> bt_get (sources d) k = Some v \<longleftrightarrow> (k, v) \<in> set (sources d)"
  by (simp add: dec_core_def bt_get_eq)

lemma missing_iff: "dec_core d \<Longrightarrow> s \<in> set (missing_seqs d) \<longleftrightarrow> bt_get (sources d) s = Some Missing"
proof -
  assume c: "dec_core d"
  have "\<not> is_known v \<longleftrightarrow> v = Missing" for v by (cases v) (simp_all add: is_known_def)
  then show ?thesis by (force simp: missing_seqs_def core_get [OF c])
qed

lemma distinct_missing: "dec_core d \<Longrightarrow> distinct (missing_seqs d)"
  unfolding missing_seqs_def by (intro distinct_map_filter distinct_keys) (simp add: dec_core_def)

section \<open>Eviction keeps the invariant\<close>

lemma evict_oldest_repair_core:
  assumes "dec_core d" "repairs d \<noteq> []"
  shows "dec_core (evict_oldest_repair d)" "retained (evict_oldest_repair d) \<le> retained d"
proof -
  obtain r rs where r: "repairs d = r # rs" using assms(2) by (cases "repairs d") auto
  show core: "dec_core (evict_oldest_repair d)"
    using assms(1) r by (auto simp: dec_core_def evict_oldest_repair_def)
  show "retained (evict_oldest_repair d) \<le> retained d"
    unfolding retained_eq [OF core] retained_eq [OF assms(1)] by (simp add: evict_oldest_repair_def r)
qed

lemma drop_source_core:
  assumes "dec_core d"
  shows "dec_core (drop_source s d)"
  using assms by (auto simp: dec_core_def drop_source_def btree.invar_remove bt_remove_def [of _ "[]"])

text \<open>
  \<open>make_room\<close> only forgets: the lookup of every sequence number is unchanged or becomes absent, the
  repairs are a suffix, and an eviction event is emitted exactly for the missing entries dropped.
\<close>

definition forgets :: "fec_decoder \<Rightarrow> fec_decoder \<Rightarrow> decoder_event list \<Rightarrow> bool" where
  "forgets d d' evs \<longleftrightarrow>
     d' = d\<lparr>sources := sources d', repairs := repairs d', seen_repair_keys := seen_repair_keys d'\<rparr> \<and>
     bt_get (sources d') \<subseteq>\<^sub>m bt_get (sources d) \<and>
     (\<exists>k. repairs d' = drop k (repairs d)) \<and>
     length (sources d') \<le> length (sources d) \<and>
     set evs = {EvEvicted s (s + 1) | s. bt_get (sources d) s = Some Missing \<and> bt_get (sources d') s = None}"

lemma forgets_refl [simp]: "forgets d d []"
  by (auto simp: forgets_def intro: exI [of _ 0])

lemma forgets_evict_repair:
  assumes "forgets (evict_oldest_repair d) d' evs"
  shows "forgets d d' evs"
proof -
  obtain k where "repairs d' = drop k (tl (repairs d))"
    using assms by (auto simp: forgets_def evict_oldest_repair_def)
  then have "repairs d' = drop (Suc k) (repairs d)" by (simp add: drop_Suc)
  then show ?thesis using assms unfolding forgets_def evict_oldest_repair_def by auto
qed

lemma forgets_drop_source:
  assumes core: "dec_core d" and e: "e \<in> set (sources d)"
    and f: "forgets (drop_source (fst e) d) d' evs"
  shows "forgets d d' ((if snd e = Missing then [EvEvicted (fst e) (fst e + 1)] else []) @ evs)"
proof -
  have ge: "bt_get (sources d) (fst e) = Some (snd e)" using core_get [OF core] e by simp
  have get: "bt_get (sources (drop_source (fst e) d)) = (bt_get (sources d))(fst e := None)"
    by (simp add: drop_source_def btree.get_remove)
  have sub: "bt_get (sources d') \<subseteq>\<^sub>m (bt_get (sources d))(fst e := None)"
    using f by (simp add: forgets_def get)
  then have "bt_get (sources d') (fst e) = None"
    by (metis domIff fun_upd_same map_le_def)
  moreover have "bt_get (sources d') \<subseteq>\<^sub>m bt_get (sources d)"
    using sub by (auto simp: map_le_def split: if_splits)
  moreover have "length (sources d') \<le> length (sources d)"
    using f length_drop_source [OF e] by (simp add: forgets_def)
  moreover have "d' = d\<lparr>sources := sources d', repairs := repairs d', seen_repair_keys := seen_repair_keys d'\<rparr>"
    using f by (simp add: forgets_def drop_source_def)
  moreover have "repairs (drop_source (fst e) d) = repairs d" by (simp add: drop_source_def)
  moreover have "set evs = {EvEvicted s (s + 1) | s. s \<noteq> fst e \<and> bt_get (sources d) s = Some Missing \<and>
      bt_get (sources d') s = None}"
    using f by (auto simp: forgets_def get)
  ultimately show ?thesis
    using f ge unfolding forgets_def by auto
qed

lemma max_by_key_None: "max_by_key f xs = None \<longleftrightarrow> xs = []"
  by (cases xs) (auto split: option.split)

lemma eviction_candidate_None: "eviction_candidate d newest = None \<longleftrightarrow> sources d = []"
  by (auto simp: eviction_candidate_def Let_def max_by_key_None split: option.split)

lemma empty_fits:
  assumes "dec_core d" "sources d = []" "repairs d = []"
  shows "retained d = 0"
  using retained_eq [OF assms(1)] assms(2,3) by simp

lemma make_room_spec:
  assumes "dec_core d" "as \<le> unat (max_symbols d)" "length (repairs d) \<le> unat (max_symbols d)"
    "ab \<le> unat (max_bytes d)"
  shows "\<exists>d' evs. make_room as 0 0 ab d = (d', evs) \<and> forgets d d' evs \<and> dec_core d' \<and>
    length (sources d') + as \<le> unat (max_symbols d) \<and> retained d' + ab \<le> unat (max_bytes d)"
  using assms
proof (induction "length (sources d) + length (repairs d)" arbitrary: d rule: less_induct)
  case less
  let ?cap = "unat (max_symbols d)" and ?mb = "unat (max_bytes d)"
  let ?over = "length (sources d) + as > ?cap" and ?overb = "retained d + ab > ?mb"
  note core = less.prems(1) and rep = less.prems(3)
  have eq: "make_room as 0 0 ab d =
     (if \<not> ?over \<and> \<not> ?overb then (d, [])
      else if repairs d \<noteq> [] \<and> ?overb then make_room as 0 0 ab (evict_oldest_repair d)
      else case newest_seq d of None \<Rightarrow> (d, []) | Some newest \<Rightarrow>
        (case eviction_candidate d newest of None \<Rightarrow> (d, [])
         | Some e \<Rightarrow> (let (d', evs) = make_room as 0 0 ab (drop_source (fst e) d)
             in (d', (if snd e = Missing then [EvEvicted (fst e) (fst e + 1)] else []) @ evs))))"
    using rep by (subst make_room.simps [of as 0 0 ab d]) simp
  consider (fits) "\<not> ?over" "\<not> ?overb" | (repair) "?over \<or> ?overb" "repairs d \<noteq> []" "?overb"
    | (source) "?over \<or> ?overb" "\<not> (repairs d \<noteq> [] \<and> ?overb)" by blast
  then show ?case
  proof cases
    case fits
    then show ?thesis using core by (auto simp: eq)
  next
    case repair
    have "length (repairs (evict_oldest_repair d)) < length (repairs d)"
      using repair(2) by (cases "repairs d") (simp_all add: evict_oldest_repair_def)
    then show ?thesis
      using less.hyps [of "evict_oldest_repair d"] evict_oldest_repair_core [OF core repair(2)]
        forgets_evict_repair [of d] less.prems repair
      by (fastforce simp: eq evict_oldest_repair_def)
  next
    case source
    have ne: "sources d \<noteq> []" using source empty_fits [OF core] less.prems(2,4) by auto
    obtain newest where n: "newest_seq d = Some newest" using ne core by (auto simp: dec_core_def)
    obtain e where e: "eviction_candidate d newest = Some e"
      using ne eviction_candidate_None by (metis not_Some_eq)
    have mem: "e \<in> set (sources d)" using e by (rule eviction_candidate_in)
    let ?d = "drop_source (fst e) d"
    have lim: "max_symbols ?d = max_symbols d" "max_bytes ?d = max_bytes d" "repairs ?d = repairs d"
      by (simp_all add: drop_source_def)
    obtain d' evs where IH: "make_room as 0 0 ab ?d = (d', evs)" "forgets ?d d' evs" "dec_core d'"
      "length (sources d') + as \<le> ?cap" "retained d' + ab \<le> ?mb"
      using less.hyps [of ?d] drop_source_core [OF core] length_drop_source [OF mem] less.prems(2-4)
      by (auto simp: lim)
    show ?thesis
      using source n e IH forgets_drop_source [OF core mem IH(2)] by (auto simp: eq)
  qed
qed

section \<open>Elimination passes\<close>

lemma length_xor_at [simp]: "length (xor_at i v row) = length row"
  by (simp add: xor_at_def)

lemma length_fold_inv:
  "(\<And>x row. length (f x row) = length row) \<Longrightarrow> length (fold f xs row) = length row"
  by (induction xs arbitrary: row) simp_all

lemma length_subtract_known [simp]: "length (subtract_known r m c p row) = length row"
  unfolding subtract_known_def Let_def
  by (subst length_fold_inv) (auto split: prod.split)

lemma elim_row_step_lengths:
  "length (fst (elim_row_step d ms m r s row)) = length (fst row)"
  "length (snd (elim_row_step d ms m r s row)) = length (snd row)"
  by (simp_all add: elim_row_step_def Let_def split: option.split)

lemma fold_row_lengths:
  "length (fst (fold (elim_row_step d ms m r) ss row)) = length (fst row)"
  "length (snd (fold (elim_row_step d ms m r) ss row)) = length (snd row)"
  by (induction ss arbitrary: row) (simp_all add: elim_row_step_lengths)

lemma elim_row_lengths:
  "length (fst (elim_row d ms m r)) = length ms"
  "length (rr_payload r) \<le> m \<Longrightarrow> length (snd (elim_row d ms m r)) = m"
  by (simp_all add: elim_row_def fold_row_lengths)

definition eff_len :: "fec_decoder \<Rightarrow> nat" where
  "eff_len d = fold max (map (\<lambda>r. length (rr_payload r)) (repairs d)) 0"

lemma eff_len_ge: "r \<in> set (repairs d) \<Longrightarrow> length (rr_payload r) \<le> eff_len d"
  unfolding eff_len_def by (rule fold_max_ge) simp

definition elim_rows :: "fec_decoder \<Rightarrow> (bytes \<times> bytes) list" where
  "elim_rows d = map (elim_row d (missing_seqs d) (eff_len d)) (repairs d)"

lemma elim_rows_rect:
  "rect (length (repairs d)) (length (missing_seqs d)) (map fst (elim_rows d))"
  "rect (length (repairs d)) (eff_len d) (map snd (elim_rows d))"
  by (simp_all add: rect_def elim_rows_def elim_row_lengths eff_len_ge)

text \<open>The work guard: a pass solves the system only when its scratch space fits the byte cap.\<close>

definition elim_scratch :: "fec_decoder \<Rightarrow> nat" where
  "elim_scratch d = length (repairs d) * (length (missing_seqs d) + eff_len d)
     + 2 * length (missing_seqs d) + 2 * eff_len d"

definition elim_runs :: "fec_decoder \<Rightarrow> bool" where
  "elim_runs d \<longleftrightarrow> repairs d \<noteq> [] \<and> missing_seqs d \<noteq> [] \<and> eff_len d \<noteq> 0 \<and>
     length (missing_seqs d) \<le> 128 \<and> length (repairs d) \<le> 128 \<and>
     retained d + elim_scratch d \<le> unat (max_bytes d)"

definition solution_symbols :: "fec_decoder \<Rightarrow> (nat \<times> bytes) list \<Rightarrow> (u32 \<times> bytes) list" where
  "solution_symbols d sols =
     List.map_filter (\<lambda>(col, eff). map_option (Pair (missing_seqs d ! col)) (decode_solution eff)) sols"

lemma one_elim_pass_eq:
  "one_elim_pass d =
     (if \<not> elim_runs d then Some []
      else map_option (solution_symbols d)
        (gaussian_elim (map fst (elim_rows d)) (map snd (elim_rows d)) (length (missing_seqs d)) (eff_len d)))"
  by (auto simp: one_elim_pass_def elim_runs_def elim_scratch_def eff_len_def [symmetric]
      elim_rows_def [symmetric] solution_symbols_def Let_def not_less split: option.split)

lemma map_fst_solution_symbols:
  "map fst (solution_symbols d sols) =
   map (nth (missing_seqs d)) (map fst (filter (\<lambda>x. decode_solution (snd x) \<noteq> None) sols))"
  unfolding solution_symbols_def
  by (induction sols) (auto simp: map_filter_Cons List.map_filter_def split: option.split)

lemma distinct_solution_symbols:
  assumes "distinct (map fst sols)" "distinct (missing_seqs d)" "\<forall>x \<in> fst ` set sols. x < length (missing_seqs d)"
  shows "distinct (map fst (solution_symbols d sols))"
proof -
  have "inj_on (nth (missing_seqs d)) (fst ` set sols)"
    using inj_on_nth [OF assms(2)] assms(3) by auto
  then have "inj_on (nth (missing_seqs d)) (fst ` set (filter (\<lambda>x. decode_solution (snd x) \<noteq> None) sols))"
    by (rule inj_on_subset) auto
  moreover have "distinct (map fst (filter (\<lambda>x. decode_solution (snd x) \<noteq> None) sols))"
    using assms(1) by (rule distinct_map_filter)
  ultimately show ?thesis unfolding map_fst_solution_symbols distinct_map [of "nth (missing_seqs d)"] by auto
qed

lemma one_elim_pass_shape:
  assumes "dec_core d"
  obtains batch where "one_elim_pass d = Some batch" "distinct (map fst batch)"
    "fst ` set batch \<subseteq> set (missing_seqs d)"
proof (cases "elim_runs d")
  case False
  then show ?thesis using that [of "[]"] by (simp add: one_elim_pass_eq)
next
  case True
  obtain sols where g: "gaussian_elim (map fst (elim_rows d)) (map snd (elim_rows d))
      (length (missing_seqs d)) (eff_len d) = Some sols"
    using gaussian_elim_total [OF elim_rows_rect] by blast
  have cols: "\<forall>x \<in> fst ` set sols. x < length (missing_seqs d)"
    using gaussian_elim_sound(1) [OF elim_rows_rect g] by auto
  show ?thesis
  proof (rule that)
    show "one_elim_pass d = Some (solution_symbols d sols)" using True g by (simp add: one_elim_pass_eq)
    show "distinct (map fst (solution_symbols d sols))"
      by (rule distinct_solution_symbols) (use gaussian_elim_distinct [OF g] distinct_missing [OF assms] cols in auto)
    show "fst ` set (solution_symbols d sols) \<subseteq> set (missing_seqs d)"
      using cols by (force simp: solution_symbols_def set_map_filter)
  qed
qed

text \<open>Every recovered symbol replaces a missing entry; nothing else of the state but the counter changes.\<close>

definition recovers :: "fec_decoder \<Rightarrow> fec_decoder \<Rightarrow> (u32 \<times> bytes) list \<Rightarrow> bool" where
  "recovers d d' rec \<longleftrightarrow>
     d' = d\<lparr>sources := sources d', dec_stats := dec_stats d'\<rparr> \<and>
     distinct (map fst rec) \<and> fst ` set rec \<subseteq> set (missing_seqs d) \<and>
     bt_get (sources d') = (\<lambda>s. case map_of rec s of Some p \<Rightarrow> Some (Recovered p) | None \<Rightarrow> bt_get (sources d) s) \<and>
     length (sources d') = length (sources d) \<and>
     retained d' = retained d + sum_list (map (\<lambda>(_, p). length p) rec)"

lemma recovers_refl [simp]: "recovers d d []"
  by (simp add: recovers_def)

lemma recovers_get:
  "recovers d d' rec \<Longrightarrow>
   bt_get (sources d') s = (case map_of rec s of Some p \<Rightarrow> Some (Recovered p) | None \<Rightarrow> bt_get (sources d) s)"
  unfolding recovers_def by meson

lemma recoversD:
  assumes "recovers d d' rec"
  shows "max_symbols d' = max_symbols d" "max_bytes d' = max_bytes d" "repairs d' = repairs d"
    "seen_repair_keys d' = seen_repair_keys d" "newest_seq d' = newest_seq d"
    "highest_contiguous d' = highest_contiguous d" "roll_horizon d' = roll_horizon d"
    "open_loss_span d' = open_loss_span d"
proof -
  have d': "d' = d\<lparr>sources := sources d', dec_stats := dec_stats d'\<rparr>"
    using assms by (simp add: recovers_def)
  show "max_symbols d' = max_symbols d" "max_bytes d' = max_bytes d" "repairs d' = repairs d"
    "seen_repair_keys d' = seen_repair_keys d" "newest_seq d' = newest_seq d"
    "highest_contiguous d' = highest_contiguous d" "roll_horizon d' = roll_horizon d"
    "open_loss_span d' = open_loss_span d"
    by (subst d', simp)+
qed

lemma store_recovered_spec:
  assumes core: "dec_core d" and dist: "distinct (map fst b)" and miss: "fst ` set b \<subseteq> set (missing_seqs d)"
  shows "dec_core (store_recovered b d)" "recovers d (store_recovered b d) b"
proof -
  let ?m = "fold (\<lambda>(seq, p). bt_insert seq (Recovered p)) b (sources d)"
  have wf: "bt_wf (sources d)" using core by (simp add: dec_core_def)
  have gm: "\<And>k. k \<in> fst ` set b \<Longrightarrow> bt_get (sources d) k = Some Missing"
    using miss missing_iff [OF core] by blast
  have len: "length ?m = length (sources d)"
    using btree.weight_fold_insert [OF wf dist gm, where f = "\<lambda>_. Suc 0" and g = Recovered]
    by (simp add: length_bt_weight [symmetric] sum_list_triv case_prod_unfold)
  show core': "dec_core (store_recovered b d)"
    using core len btree.invar_fold_insert [OF wf, of Recovered b] by (auto simp: dec_core_def store_recovered_def)
  have "sum_list (map (\<lambda>(k, v). source_cost (Recovered v)) b) = sum_list (map (\<lambda>(_, p). length p) b) + length b * 8" for b :: "(u32 \<times> bytes) list"
    by (induction b) auto
  then have "retained (store_recovered b d) = retained d + sum_list (map (\<lambda>(_, p). length p) b)"
    using btree.weight_fold_insert [OF wf dist gm, where f = source_cost and g = Recovered]
    unfolding retained_eq [OF core'] retained_eq [OF core] by (simp add: store_recovered_def)
  moreover have "bt_get ?m = (\<lambda>s. case map_of b s of Some p \<Rightarrow> Some (Recovered p) | None \<Rightarrow> bt_get (sources d) s)"
    using btree.get_fold_insert [OF dist, of Recovered "sources d"] by auto
  ultimately show "recovers d (store_recovered b d) b"
    using dist miss len by (simp add: recovers_def) (simp add: store_recovered_def)
qed

lemma recovers_missing:
  assumes "recovers d d' rec" "dec_core d" "dec_core d'"
  shows "set (missing_seqs d') = set (missing_seqs d) - fst ` set rec"
proof -
  have "s \<in> fst ` set rec \<longleftrightarrow> map_of rec s \<noteq> None" for s by (simp add: map_of_eq_None_iff)
  then show ?thesis
    using assms(1) missing_iff [OF assms(2)] missing_iff [OF assms(3)]
    by (auto simp: recovers_def split: option.splits)
qed

lemma recovers_trans:
  assumes "recovers d d' b" "recovers d' d'' b'" and core: "dec_core d" "dec_core d'"
  shows "recovers d d'' (b @ b')"
proof -
  note miss = recovers_missing [OF assms(1) core]
  have disj: "fst ` set b \<inter> fst ` set b' = {}" using assms(2) miss by (auto simp: recovers_def)
  have apart: "map_of b s = None \<or> map_of b' s = None" for s
    using disj by (auto simp: map_of_eq_None_iff)
  have "map_of (b @ b') s = (case map_of b s of Some p \<Rightarrow> Some p | None \<Rightarrow> map_of b' s)" for s
    by (simp add: map_add_def split: option.split)
  moreover have "bt_get (sources d'') s = (case map_of b' s of Some p \<Rightarrow> Some (Recovered p)
      | None \<Rightarrow> (case map_of b s of Some p \<Rightarrow> Some (Recovered p) | None \<Rightarrow> bt_get (sources d) s))" for s
    by (cases "map_of b' s") (simp_all add: recovers_get [OF assms(2)] recovers_get [OF assms(1)])
  ultimately have "bt_get (sources d'') s = (case map_of (b @ b') s of Some p \<Rightarrow> Some (Recovered p)
      | None \<Rightarrow> bt_get (sources d) s)" for s
    using apart [of s] by (cases "map_of b s"; cases "map_of b' s") auto
  then have get: "bt_get (sources d'') = (\<lambda>s. case map_of (b @ b') s of Some p \<Rightarrow> Some (Recovered p)
      | None \<Rightarrow> bt_get (sources d) s)" by (rule ext)
  obtain x y x' y' where "d' = d\<lparr>sources := x, dec_stats := y\<rparr>" "d'' = d'\<lparr>sources := x', dec_stats := y'\<rparr>"
    using assms(1,2) unfolding recovers_def by meson
  then have "d'' = d\<lparr>sources := sources d'', dec_stats := dec_stats d''\<rparr>" by simp
  moreover have "retained d'' = retained d + sum_list (map (\<lambda>(_, p). length p) (b @ b'))"
    "length (sources d'') = length (sources d)" "distinct (map fst (b @ b'))"
    "fst ` set (b @ b') \<subseteq> set (missing_seqs d)"
    using assms(1,2) miss disj unfolding recovers_def by (simp_all, blast+)
  ultimately show ?thesis
    using get unfolding recovers_def by blast
qed

text \<open>
  \<open>try_recover\<close> returns, because each round resolves at least one missing entry. The lemma carries
  an invariant \<open>I\<close> of the state and a property \<open>G\<close> of the recovered symbols through the rounds.
\<close>

lemma try_recover_spec:
  assumes core: "dec_core d" and I: "I d"
    and step: "\<And>d b. dec_core d \<Longrightarrow> I d \<Longrightarrow> one_elim_pass d = Some b \<Longrightarrow> I (store_recovered b d) \<and> (\<forall>x \<in> set b. G x)"
  shows "\<exists>d' rec. try_recover d = Some (d', rec) \<and> recovers d d' rec \<and> dec_core d' \<and>
    (rec = [] \<or> retained d' \<le> unat (max_bytes d)) \<and> I d' \<and> (\<forall>x \<in> set rec. G x)"
  using core I
proof (induction "card (set (missing_seqs d))" arbitrary: d rule: less_induct)
  case less
  note core = less.prems(1)
  obtain b where b: "one_elim_pass d = Some b" "distinct (map fst b)" "fst ` set b \<subseteq> set (missing_seqs d)"
    by (rule one_elim_pass_shape [OF core])
  let ?d = "store_recovered b d"
  note st = store_recovered_spec [OF core b(2,3)]
  have stop: ?case if "b = [] \<or> retained d + sum_list (map (\<lambda>(_, p). length p) b) > unat (max_bytes d)"
  proof -
    have "try_recover d = Some (d, [])" using that b(1) by (subst try_recover.simps) auto
    then show ?thesis using less.prems by simp
  qed
  show ?case
  proof (cases "b = [] \<or> retained d + sum_list (map (\<lambda>(_, p). length p) b) > unat (max_bytes d)")
    case False
    have "0 < card (fst ` set b)" using False by (simp add: card_gt_0_iff)
    moreover have "card (fst ` set b) \<le> card (set (missing_seqs d))" by (rule card_mono [OF _ b(3)]) simp
    ultimately have lt: "card (set (missing_seqs ?d)) < card (set (missing_seqs d))"
      unfolding recovers_missing [OF st(2) core st(1)] card_Diff_subset [OF _ b(3), simplified] by linarith
    have I: "I ?d" and G: "\<forall>x \<in> set b. G x" using step [OF core less.prems(2) b(1)] by auto
    obtain d' rec where r: "try_recover ?d = Some (d', rec)" "recovers ?d d' rec" "dec_core d'"
      "rec = [] \<or> retained d' \<le> unat (max_bytes ?d)" "I d'" "\<forall>x \<in> set rec. G x"
      using less.hyps [OF lt st(1) I] by (elim exE conjE) (rule that)
    have "try_recover d = Some (d', b @ rec)" using False b(1) r(1) by (subst try_recover.simps) auto
    moreover have "retained d' \<le> unat (max_bytes d)"
    proof (cases "rec = []")
      case True
      then have "retained d' = retained ?d" using r(2) unfolding recovers_def by simp
      then show ?thesis using st(2) False unfolding recovers_def by linarith
    qed (use r(4) recoversD(2) [OF st(2)] in simp)
    moreover have "\<forall>x \<in> set (b @ rec). G x" using r(6) G by auto
    ultimately show ?thesis
      using recovers_trans [OF st(2) r(2) core st(1)] r(3,5) by blast
  qed (rule stop)
qed

section \<open>Walking the frontier\<close>

lemma run_length:
  assumes "finite (dom f)" "card (dom f) < 2 ^ 32"
  shows "\<exists>r. f ((s :: u32) + word_of_nat r) = None"
proof (rule ccontr)
  assume "\<not> ?thesis"
  then have all: "s + word_of_nat r \<in> dom f" for r by auto
  have "q \<in> dom f" for q using all [of "unat (q - s)"] by simp
  then have "dom f = UNIV" by blast
  then show False using assms(2) card_word [where 'a = 32] by simp
qed

definition run_of :: "(u32, source_state) btree_map \<Rightarrow> u32 \<Rightarrow> nat \<Rightarrow> bool" where
  "run_of m s r \<longleftrightarrow> bt_get m (s + word_of_nat r) = None \<and> (\<forall>i < r. bt_get m (s + word_of_nat i) \<noteq> None)"

lemma run_of_exists: "length m < 2 ^ 32 \<Longrightarrow> \<exists>r. run_of m s r"
proof -
  assume len: "length m < 2 ^ 32"
  have "card (dom (bt_get m)) \<le> length m"
    using card_length [of "map fst m"] by (simp add: bt_get_def [abs_def] dom_map_of_conv_image_fst)
  then obtain r where r: "bt_get m (s + word_of_nat r) = None"
    using run_length [of "bt_get m" s] len by (auto simp: bt_get_def [abs_def] finite_dom_map_of)
  show ?thesis unfolding run_of_def
    using LeastI [of "\<lambda>r. bt_get m (s + word_of_nat r) = None", OF r] not_less_Least by blast
qed

lemma run_of_Suc: "run_of m s (Suc r) \<longleftrightarrow> bt_get m s \<noteq> None \<and> run_of m (s + 1) r"
  by (auto simp: run_of_def less_Suc_eq_0_disj add.assoc)

lemma scan_missing_total:
  assumes "run_of m s r"
  obtains (unbounded) "scan_missing m s = Some None" "\<forall>i < r. bt_get m (s + word_of_nat i) = Some Missing"
  | (bounded) k where "k < r" "scan_missing m s = Some (Some (s + word_of_nat k))"
      "\<forall>i < k. bt_get m (s + word_of_nat i) = Some Missing"
      "\<exists>v. bt_get m (s + word_of_nat k) = Some v \<and> is_known v"
  using assms
proof (induction r arbitrary: s thesis)
  case 0
  then have "bt_get m s = None" by (simp add: run_of_def)
  then have "scan_missing m s = Some None" by (subst scan_missing.simps) simp
  then show ?case using 0(1) by simp
next
  case (Suc r)
  obtain v where v: "bt_get m s = Some v" and run: "run_of m (s + 1) r"
    using Suc.prems(3) by (auto simp: run_of_Suc)
  show ?case
  proof (cases "is_known v")
    case True
    then have "scan_missing m s = Some (Some s)" using v by (subst scan_missing.simps) simp
    then show ?thesis using Suc.prems(2) [of 0] v True by simp
  next
    case False
    then have m: "bt_get m s = Some Missing" using v by (cases v) (auto simp: is_known_def)
    have eq: "scan_missing m s = scan_missing m (s + 1)"
      using v False by (subst scan_missing.simps) simp
    show ?thesis
    proof (rule Suc.IH [OF _ _ run])
      assume "scan_missing m (s + 1) = Some None" "\<forall>i<r. bt_get m (s + 1 + word_of_nat i) = Some Missing"
      then have "\<forall>i<Suc r. bt_get m (s + word_of_nat i) = Some Missing" "scan_missing m s = Some None"
        using m eq by (auto simp: less_Suc_eq_0_disj add.assoc)
      then show thesis by (rule Suc.prems(1) [rotated])
    next
      fix k assume "k < r" "scan_missing m (s + 1) = Some (Some (s + 1 + word_of_nat k))"
        "\<forall>i<k. bt_get m (s + 1 + word_of_nat i) = Some Missing"
        "\<exists>v. bt_get m (s + 1 + word_of_nat k) = Some v \<and> is_known v"
      then have "\<forall>i<Suc k. bt_get m (s + word_of_nat i) = Some Missing" "Suc k < Suc r"
        "scan_missing m s = Some (Some (s + word_of_nat (Suc k)))"
        "\<exists>v. bt_get m (s + word_of_nat (Suc k)) = Some v \<and> is_known v"
        using m eq by (auto simp: less_Suc_eq_0_disj add.assoc)
      then show thesis using Suc.prems(2) by blast
    qed
  qed
qed

text \<open>\<open>walk s n\<close>: the \<open>n\<close> sequence numbers from \<open>s\<close> on, wrapping.\<close>

definition walk :: "u32 \<Rightarrow> nat \<Rightarrow> u32 list" where
  "walk s n = map (\<lambda>i. s + word_of_nat i) [0..<n]"

lemma walk_0 [simp]: "walk s 0 = []"
  by (simp add: walk_def)

lemma walk_add: "walk s (a + b) = walk s a @ walk (s + word_of_nat a) b"
proof -
  have "[0..<a + b] = [0..<a] @ map (\<lambda>i. i + a) [0..<b]"
    using upt_add_eq_append [of 0 a b] by (simp add: map_add_upt add.commute)
  then show ?thesis by (simp add: walk_def add.commute add.left_commute)
qed

lemma walk_Suc: "walk s (Suc n) = s # walk (s + 1) n"
  using walk_add [of s 1 n] by (simp add: walk_def)

lemma seq_range_walk: "seq_range s e = walk s (unat (e - s))"
  by (simp add: walk_def seq_range_eq)

lemma in_walk: "n \<le> 2 ^ 32 \<Longrightarrow> q \<in> set (walk s n) \<longleftrightarrow> unat (q - s) < n"
proof
  assume n: "n \<le> 2 ^ 32" and "q \<in> set (walk s n)"
  then obtain i where i: "i < n" "q = s + word_of_nat i" by (auto simp: walk_def)
  then have "unat (q - s) = i" using n by (simp add: unat_of_nat)
  then show "unat (q - s) < n" using i by simp
next
  assume "unat (q - s) < n"
  moreover have "q = s + word_of_nat (unat (q - s))" by simp
  ultimately show "q \<in> set (walk s n)" unfolding walk_def by force
qed

lemma run_of_lt: "run_of m s r \<Longrightarrow> r < 2 ^ 32"
proof (rule ccontr)
  assume run: "run_of m s r" and "\<not> r < 2 ^ 32"
  moreover have "unat (word_of_nat r :: u32) < 2 ^ 32" using unat_lt_u32 by simp
  ultimately have "bt_get m (s + word_of_nat (unat (word_of_nat r :: u32))) \<noteq> None"
    unfolding run_of_def by (meson less_le_trans not_less)
  then show False using run by (simp add: run_of_def)
qed

definition same_frame :: "fec_decoder \<Rightarrow> fec_decoder \<Rightarrow> bool" where
  "same_frame d d' \<longleftrightarrow> max_symbols d' = max_symbols d \<and> max_bytes d' = max_bytes d \<and>
     repairs d' = repairs d \<and> seen_repair_keys d' = seen_repair_keys d \<and>
     newest_seq d' = newest_seq d \<and> roll_horizon d' = roll_horizon d"

lemma same_frame_trans: "same_frame d d' \<Longrightarrow> same_frame d' d'' \<Longrightarrow> same_frame d d''"
  by (simp add: same_frame_def)

lemma same_frame_core:
  assumes "dec_core d" "same_frame d d'" "bt_wf (sources d')" "length (sources d') \<le> length (sources d)"
  shows "dec_core d'"
  using assms by (auto simp: dec_core_def same_frame_def)

definition lost_seqs :: "decoder_event list \<Rightarrow> u32 list" where
  "lost_seqs evs = concat (map (\<lambda>e. case e of EvLossSpan a b \<Rightarrow> seq_range a b | _ \<Rightarrow> []) evs)"

definition is_loss_span :: "decoder_event \<Rightarrow> bool" where
  "is_loss_span e \<longleftrightarrow> (\<exists>a b. e = EvLossSpan a b)"

text \<open>
  What one call of \<open>advance_contiguous\<close> does, \<open>F\<close> being the frontier before it and \<open>r\<close> the length of
  the run of retained sequence numbers from there: the frontier moves by \<open>n\<close>, the missing sequence
  numbers it passes are reported in \<open>LossSpan\<close>s in order, each exactly once, and forgotten, and it
  stops at the end of the run or before an open-ended missing tail.
\<close>

definition advanced :: "fec_decoder \<Rightarrow> nat \<Rightarrow> fec_decoder \<Rightarrow> decoder_event list \<Rightarrow> nat \<Rightarrow> bool" where
  "advanced d r d' evs n \<longleftrightarrow>
     n \<le> r \<and> frontier_seq d' = frontier_seq d + word_of_nat n \<and>
     list_all is_loss_span evs \<and>
     lost_seqs evs = filter (\<lambda>s. bt_get (sources d) s = Some Missing) (walk (frontier_seq d) n) \<and>
     bt_get (sources d') = (\<lambda>s. if s \<in> set (lost_seqs evs) then None else bt_get (sources d) s) \<and>
     (\<forall>i. n \<le> i \<and> i < r \<longrightarrow> bt_get (sources d) (frontier_seq d + word_of_nat i) = Some Missing) \<and>
     same_frame d d' \<and> bt_wf (sources d') \<and>
     (\<forall>f. bt_weight f (sources d') \<le> bt_weight f (sources d))"

lemma close_span_frame [simp]:
  "sources (close_open_span_step s v d) = sources d"
  "same_frame d (close_open_span_step s v d)"
  "highest_contiguous (close_open_span_step s v d) = highest_contiguous d"
  by (simp_all add: close_open_span_step_def same_frame_def Let_def)

lemma open_span_frame [simp]:
  "sources (open_span_at s d) = sources d" "same_frame d (open_span_at s d)"
  "highest_contiguous (open_span_at s d) = highest_contiguous d"
  by (simp_all add: open_span_at_def same_frame_def)

lemma walk_seq_range: "n < 2 ^ 32 \<Longrightarrow> walk s n = seq_range s (s + word_of_nat n)"
  by (simp add: seq_range_walk unat_of_nat)

lemma walk_disjoint: "a + b < 2 ^ 32 \<Longrightarrow> set (walk s a) \<inter> set (walk (s + word_of_nat a) b) = {}"
proof -
  assume "a + b < 2 ^ 32"
  then have "distinct (walk s (a + b))" by (simp only: walk_seq_range distinct_seq_range)
  then show ?thesis by (simp add: walk_add)
qed

lemma advanced_stop:
  assumes "\<And>i. i < r \<Longrightarrow> bt_get (sources d) (frontier_seq d + word_of_nat i) = Some Missing"
    and "sources d' = sources d" "same_frame d d'" "highest_contiguous d' = highest_contiguous d"
    and "bt_wf (sources d)"
  shows "advanced d r d' [] 0"
  using assms by (simp add: advanced_def lost_seqs_def frontier_seq_def)

lemma advanced_known:
  assumes "bt_get (sources d) (frontier_seq d) \<noteq> Some Missing"
    and d1: "sources d1 = sources d" "same_frame d d1" "highest_contiguous d1 = Some (frontier_seq d)"
    and adv: "advanced d1 r d' evs n"
  shows "advanced d (Suc r) d' evs (Suc n)"
proof -
  have F: "frontier_seq d1 = frontier_seq d + 1" by (simp add: frontier_seq_def [of d1] d1(3))
  have tail: "bt_get (sources d) (frontier_seq d + word_of_nat i) = Some Missing" if i: "Suc n \<le> i" "i < Suc r" for i
  proof -
    obtain j where "i = Suc j" using i by (cases i) auto
    then show ?thesis using adv i F d1(1) by (simp add: advanced_def add.assoc)
  qed
  show ?thesis
    using adv [unfolded advanced_def F d1(1)] assms(1) same_frame_trans [OF d1(2)] tail
    by (simp add: advanced_def walk_Suc add.assoc)
qed

lemma abandon_span_get:
  assumes "Suc k < 2 ^ 32"
  shows "bt_get (sources (abandon_span s (s + word_of_nat (Suc k)) d)) =
    (\<lambda>q. if q \<in> set (walk s (Suc k)) then None else bt_get (sources d) q)"
  using btree.get_fold_remove [of "seq_range s (s + word_of_nat (Suc k))" "sources d"]
  unfolding walk_seq_range [OF assms] abandon_span_def by (intro ext) simp

lemma advanced_span:
  assumes miss: "\<And>i. i \<le> k \<Longrightarrow> bt_get (sources d) (frontier_seq d + word_of_nat i) = Some Missing"
    and d0: "sources d0 = sources d" "same_frame d d0" and wf: "bt_wf (sources d)"
    and r: "Suc k + r < 2 ^ 32"
    and adv: "advanced (abandon_span (frontier_seq d) (frontier_seq d + word_of_nat (Suc k)) d0) r d' evs n"
  shows "advanced d (Suc k + r) d' (EvLossSpan (frontier_seq d) (frontier_seq d + word_of_nat (Suc k)) # evs) (Suc k + n)"
proof -
  let ?F = "frontier_seq d"
  define S where "S = frontier_seq d + word_of_nat (Suc k)"
  let ?d1 = "abandon_span ?F S d0"
  note adv = adv [folded S_def]
  have F1: "frontier_seq ?d1 = S" by (simp add: frontier_seq_def abandon_span_def)
  have fr: "same_frame d ?d1" using d0(2) by (simp add: same_frame_def abandon_span_def)
  have get1: "bt_get (sources ?d1) = (\<lambda>q. if q \<in> set (walk ?F (Suc k)) then None else bt_get (sources d) q)"
    using abandon_span_get [of k ?F d0, folded S_def, unfolded d0(1)] r by simp
  have span: "seq_range ?F S = walk ?F (Suc k)" using walk_seq_range [of "Suc k" ?F, folded S_def] r by simp
  have out: "q \<notin> set (walk ?F (Suc k))" if "q \<in> set (walk S m)" "m \<le> r" for q m
    using walk_disjoint [of "Suc k" m ?F, folded S_def] that r by auto
  have n: "n \<le> r" using adv by (simp add: advanced_def)
  have lost: "lost_seqs evs = filter (\<lambda>s. bt_get (sources d) s = Some Missing) (walk S n)"
  proof -
    have "filter (\<lambda>s. bt_get (sources ?d1) s = Some Missing) (walk S n) = filter (\<lambda>s. bt_get (sources d) s = Some Missing) (walk S n)"
      using out [OF _ n] by (intro filter_cong) (auto simp: get1)
    then show ?thesis using adv unfolding advanced_def F1 by simp
  qed
  have head: "filter (\<lambda>s. bt_get (sources d) s = Some Missing) (walk ?F (Suc k)) = walk ?F (Suc k)"
    using miss by (intro filter_True) (auto simp: walk_def less_Suc_eq_le)
  have tail: "bt_get (sources d) (?F + word_of_nat i) = Some Missing" if i: "Suc k + n \<le> i" "i < Suc k + r" for i
  proof -
    obtain j where j: "i = Suc k + j" using i(1) by (metis add_leD1 le_Suc_ex)
    then have "bt_get (sources ?d1) (S + word_of_nat j) = Some Missing"
      using adv i unfolding advanced_def F1 by simp
    then have "bt_get (sources d) (S + word_of_nat j) = Some Missing" by (simp add: get1 split: if_splits)
    then show ?thesis by (simp add: j S_def add.assoc)
  qed
  have weight: "bt_weight f (sources d') \<le> bt_weight f (sources d)" for f
    using adv btree.weight_fold_remove_le [OF wf, of f "seq_range ?F S"] d0(1)
    unfolding advanced_def abandon_span_def by simp (metis (no_types, lifting) order_trans)
  have get: "bt_get (sources d') = (\<lambda>q. if q \<in> set (walk ?F (Suc k) @ lost_seqs evs) then None else bt_get (sources d) q)"
    using adv unfolding advanced_def by (auto simp: get1)
  have ls: "lost_seqs (EvLossSpan ?F S # evs) = walk ?F (Suc k) @ lost_seqs evs"
    by (simp add: lost_seqs_def span)
  have "frontier_seq d' = ?F + word_of_nat (Suc k + n)"
    using adv unfolding advanced_def F1 by (simp add: S_def add.assoc)
  then show ?thesis
    using adv tail weight same_frame_trans [OF fr] n get head lost
    unfolding advanced_def S_def [symmetric] ls walk_add filter_append by (simp add: is_loss_span_def)
qed

lemma advance_step_known:
  assumes "bt_get (sources d) (frontier_seq d) = Some v" "is_known v"
  obtains d1 where "advance_contiguous d = advance_contiguous d1" "sources d1 = sources d"
    "same_frame d d1" "highest_contiguous d1 = Some (frontier_seq d)"
proof -
  let ?d = "\<lambda>b. (close_open_span_step (frontier_seq d) b d)\<lparr>highest_contiguous := Some (frontier_seq d)\<rparr>"
  have "\<exists>b. advance_contiguous d = advance_contiguous (?d b)"
    using assms by (subst advance_contiguous.simps) (cases v; auto simp: is_known_def Let_def)
  then obtain b where "advance_contiguous d = advance_contiguous (?d b)" ..
  moreover have "same_frame d (?d b)"
    using close_span_frame(2) [of d "frontier_seq d" b] by (simp add: same_frame_def)
  ultimately show ?thesis using that [of "?d b"] by simp
qed

lemma abandon_wf: "bt_wf (sources d) \<Longrightarrow> bt_wf (sources (abandon_span a b d))"
  by (simp add: abandon_span_def btree.invar_fold_remove)

lemma abandon_run:
  assumes lt: "Suc k + r < 2 ^ 32" and run: "run_of (sources d) F (Suc k + r)" and d0: "sources d0 = sources d"
  defines "d1 \<equiv> abandon_span F (F + word_of_nat (Suc k)) d0"
  shows "run_of (sources d1) (frontier_seq d1) r"
proof -
  define S where "S = F + word_of_nat (Suc k)"
  have F1: "frontier_seq d1 = S" by (simp add: frontier_seq_def d1_def abandon_span_def S_def)
  have get1: "bt_get (sources d1) q = (if q \<in> set (walk F (Suc k)) then None else bt_get (sources d) q)" for q
    using abandon_span_get [of k F d0] lt unfolding d1_def d0 by simp
  have S: "S + word_of_nat i = F + word_of_nat (Suc k + i)" for i by (simp add: S_def add.assoc)
  have "bt_get (sources d1) (S + word_of_nat i) \<noteq> None" if "i < r" for i
  proof -
    have "S + word_of_nat i \<in> set (walk S r)" using that by (auto simp: walk_def)
    then have "S + word_of_nat i \<notin> set (walk F (Suc k))"
      using walk_disjoint [of "Suc k" r F, folded S_def] lt by auto
    moreover have "bt_get (sources d) (S + word_of_nat i) \<noteq> None"
      unfolding S using run that unfolding run_of_def by (meson add_less_cancel_left)
    ultimately show ?thesis by (simp add: get1)
  qed
  moreover have "bt_get (sources d1) (S + word_of_nat r) = None"
    unfolding get1 S using run unfolding run_of_def by meson
  ultimately show ?thesis by (simp add: run_of_def F1)
qed

lemma advance_contiguous_spec:
  assumes "bt_wf (sources d)" "run_of (sources d) (frontier_seq d) r"
  shows "\<exists>d' evs n. advance_contiguous d = Some (d', evs) \<and> advanced d r d' evs n"
  using assms
proof (induction r arbitrary: d rule: less_induct)
  case (less r)
  let ?F = "frontier_seq d" and ?d0 = "open_span_at (frontier_seq d) d"
  note wf = less.prems(1) and run = less.prems(2)
  show ?case
  proof (cases r)
    case 0
    then have "bt_get (sources d) ?F = None" using run by (simp add: run_of_def)
    then have "advance_contiguous d = Some (d, [])" by (subst advance_contiguous.simps) simp
    moreover have "advanced d r d [] 0" using 0 wf by (intro advanced_stop) (simp_all add: same_frame_def)
    ultimately show ?thesis by blast
  next
    case (Suc r')
    obtain v where v: "bt_get (sources d) ?F = Some v" and run': "run_of (sources d) (?F + 1) r'"
      using run by (auto simp: Suc run_of_Suc)
    show ?thesis
    proof (cases "is_known v")
      case True
      obtain d1 where d1: "advance_contiguous d = advance_contiguous d1" "sources d1 = sources d"
        "same_frame d d1" "highest_contiguous d1 = Some ?F"
        by (rule advance_step_known [OF v True])
      have "frontier_seq d1 = ?F + 1" by (simp add: frontier_seq_def [of d1] d1(4))
      then obtain d' evs n where "advance_contiguous d1 = Some (d', evs)" "advanced d1 r' d' evs n"
        using less.IH [of r' d1] run' wf by (auto simp: Suc d1(2))
      moreover have "bt_get (sources d) ?F \<noteq> Some Missing" using v True by (auto simp: is_known_def)
      ultimately show ?thesis using advanced_known [OF _ d1(2-4)] d1(1) Suc by metis
    next
      case False
      then have m: "bt_get (sources d) ?F = Some Missing" using v by (cases v) (auto simp: is_known_def)
      have eq: "advance_contiguous d = Option.bind (scan_missing (sources d) (?F + 1)) (\<lambda>bound.
          case bound of None \<Rightarrow> Some (?d0, [])
          | Some scan \<Rightarrow> Option.bind (advance_contiguous (abandon_span ?F scan ?d0)) (\<lambda>(d', evs).
              Some (d', EvLossSpan ?F scan # evs)))"
        using m by (subst advance_contiguous.simps) (simp add: Let_def)
      show ?thesis using run'
      proof (cases rule: scan_missing_total)
        case unbounded
        have "bt_get (sources d) (?F + word_of_nat i) = Some Missing" if "i < r" for i
          using that m unbounded(2) Suc by (cases i) (auto simp: add.assoc)
        then have "advanced d r ?d0 [] 0" using wf by (intro advanced_stop) simp_all
        moreover have "advance_contiguous d = Some (?d0, [])" using eq unbounded(1) by simp
        ultimately show ?thesis by blast
      next
        case (bounded k)
        obtain r1 where r1: "r = Suc k + r1" using bounded(1) Suc by (metis add_Suc less_imp_add_positive)
        let ?S = "?F + word_of_nat (Suc k)"
        let ?d1 = "abandon_span ?F ?S ?d0"
        have lt: "Suc k + r1 < 2 ^ 32" using run_of_lt [OF run] r1 by simp
        have miss: "bt_get (sources d) (?F + word_of_nat i) = Some Missing" if "i \<le> k" for i
          using that m bounded(3) by (cases i) (auto simp: add.assoc)
        have S: "?F + 1 + word_of_nat k = ?S" by (simp add: add.assoc)
        have run1: "run_of (sources ?d1) (frontier_seq ?d1) r1"
          by (rule abandon_run [OF lt run [unfolded r1]]) simp
        obtain d' evs n where a: "advance_contiguous ?d1 = Some (d', evs)" "advanced ?d1 r1 d' evs n"
          using less.IH [of r1 ?d1] run1 abandon_wf [of ?d0 ?F ?S] wf by (auto simp: r1)
        have "advance_contiguous d = Some (d', EvLossSpan ?F ?S # evs)"
          using eq a(1) bounded(2) unfolding S by simp
        moreover have "advanced d r d' (EvLossSpan ?F ?S # evs) (Suc k + n)"
          unfolding r1 by (rule advanced_span [OF miss _ _ wf lt a(2)]) simp_all
        ultimately show ?thesis by blast
      qed
    qed
  qed
qed

section \<open>Every symbol keeps the invariant\<close>

lemma recover_and_advance_spec:
  assumes core: "dec_core d" and len: "length (sources d) \<le> unat (max_symbols d)" and I: "I d"
    and step: "\<And>d b. dec_core d \<Longrightarrow> I d \<Longrightarrow> one_elim_pass d = Some b \<Longrightarrow> I (store_recovered b d) \<and> (\<forall>x \<in> set b. G x)"
  obtains d1 rec d' evs r n where
    "recover_and_advance d = Some (d', map (\<lambda>(s, p). EvRecovered s p True) rec @ evs)"
    "try_recover d = Some (d1, rec)" "recovers d d1 rec" "dec_core d1" "I d1" "\<forall>x \<in> set rec. G x"
    "run_of (sources d1) (frontier_seq d1) r" "advanced d1 r d' evs n" "dec_core d'"
    "length (sources d') \<le> length (sources d)" "repairs d' = repairs d" "same_limits d d'"
    "retained d' \<le> max (retained d) (unat (max_bytes d))"
proof -
  have "\<exists>d' rec. try_recover d = Some (d', rec) \<and> recovers d d' rec \<and> dec_core d' \<and>
    (rec = [] \<or> retained d' \<le> unat (max_bytes d)) \<and> I d' \<and> (\<forall>x \<in> set rec. G x)"
    by (rule try_recover_spec [where I = I and G = G]) (fact core I step)+
  then obtain d1 rec where t: "try_recover d = Some (d1, rec)" "recovers d d1 rec" "dec_core d1"
    "rec = [] \<or> retained d1 \<le> unat (max_bytes d)" "I d1" "\<forall>x \<in> set rec. G x"
    by (elim exE conjE) (rule that)
  have l1: "length (sources d1) = length (sources d)" using t(2) unfolding recovers_def by simp
  then have "length (sources d1) < 2 ^ 32" using len unat_lt_u16 [of "max_symbols d"] by simp
  then obtain r where r: "run_of (sources d1) (frontier_seq d1) r" using run_of_exists by blast
  have wf1: "bt_wf (sources d1)" using t(3) by (simp add: dec_core_def)
  obtain d' evs n where a: "advance_contiguous d1 = Some (d', evs)" "advanced d1 r d' evs n"
    using advance_contiguous_spec [OF wf1 r] by (elim exE conjE) (rule that)
  have fr: "same_frame d1 d'" and w: "\<And>f. bt_weight f (sources d') \<le> bt_weight f (sources d1)"
    and wf: "bt_wf (sources d')" using a(2) by (simp_all add: advanced_def)
  have l2: "length (sources d') \<le> length (sources d1)" using w [of "\<lambda>_. Suc 0"] by (simp add: length_bt_weight)
  have core': "dec_core d'" by (rule same_frame_core [OF t(3) fr wf l2])
  have "retained d' \<le> retained d1"
    unfolding retained_eq [OF core'] retained_eq [OF t(3)] using w [of source_cost] fr by (simp add: same_frame_def)
  moreover have "retained d1 \<le> max (retained d) (unat (max_bytes d))"
    using t(2,4) unfolding recovers_def by auto
  ultimately have ret: "retained d' \<le> max (retained d) (unat (max_bytes d))" by simp
  have "recover_and_advance d = Some (d', map (\<lambda>(s, p). EvRecovered s p True) rec @ evs)"
    by (simp add: recover_and_advance_def t(1) a(1))
  then show ?thesis
    using t a(2) core' r l1 l2 fr recoversD(1-3) [OF t(2)] ret
    by (intro that [of d' rec evs d1 r n]) (simp_all add: same_limits_def same_frame_def)
qed

lemma note_newest_frame [simp]:
  "sources (note_newest s d) = sources d" "repairs (note_newest s d) = repairs d"
  "seen_repair_keys (note_newest s d) = seen_repair_keys d" "max_symbols (note_newest s d) = max_symbols d"
  "max_bytes (note_newest s d) = max_bytes d" "newest_seq (note_newest s d) \<noteq> None"
  "highest_contiguous (note_newest s d) = highest_contiguous d" "roll_horizon (note_newest s d) = roll_horizon d"
  by (simp_all add: note_newest_def split: option.split)

lemma note_open_frame [simp]:
  "sources (note_open_span_at_frontier d) = sources d" "repairs (note_open_span_at_frontier d) = repairs d"
  "seen_repair_keys (note_open_span_at_frontier d) = seen_repair_keys d"
  "max_symbols (note_open_span_at_frontier d) = max_symbols d" "max_bytes (note_open_span_at_frontier d) = max_bytes d"
  "newest_seq (note_open_span_at_frontier d) = newest_seq d"
  "highest_contiguous (note_open_span_at_frontier d) = highest_contiguous d"
  "roll_horizon (note_open_span_at_frontier d) = roll_horizon d"
  by (simp_all add: note_open_span_at_frontier_def open_span_at_def Let_def)

definition admit_source :: "u32 \<Rightarrow> bytes \<Rightarrow> fec_decoder \<Rightarrow> fec_decoder" where
  "admit_source seq p d = store_received seq p (note_newest seq (note_open_span_at_frontier d))"

lemma admit_source_frame [simp]:
  "sources (admit_source s p d) = bt_insert s (Received p) (sources d)" "repairs (admit_source s p d) = repairs d"
  "max_symbols (admit_source s p d) = max_symbols d" "max_bytes (admit_source s p d) = max_bytes d"
  by (simp_all add: admit_source_def store_received_def)

lemma admit_source_core: "dec_core d \<Longrightarrow> dec_core (admit_source s p d)"
  by (simp add: dec_core_def btree.invar_insert)
    (simp add: admit_source_def store_received_def)

lemma forgetsD:
  assumes "forgets d d' evs"
  shows "max_symbols d' = max_symbols d" "max_bytes d' = max_bytes d"
    "highest_contiguous d' = highest_contiguous d" "newest_seq d' = newest_seq d"
    "roll_horizon d' = roll_horizon d"
proof -
  obtain a b c where d': "d' = d\<lparr>sources := a, repairs := b, seen_repair_keys := c\<rparr>"
    using assms unfolding forgets_def by meson
  show "max_symbols d' = max_symbols d" "max_bytes d' = max_bytes d"
    "highest_contiguous d' = highest_contiguous d" "newest_seq d' = newest_seq d"
    "roll_horizon d' = roll_horizon d" by (simp_all add: d')
qed

lemma forgets_get: "forgets d d' evs \<Longrightarrow> bt_get (sources d') s = Some v \<Longrightarrow> bt_get (sources d) s = Some v"
  unfolding forgets_def by (metis domI map_le_def)

lemma forgets_shorter:
  assumes f: "forgets d d' evs" and core: "dec_core d" "dec_core d'"
    and s: "bt_get (sources d) s = Some v" "bt_get (sources d') s = None"
  shows "length (sources d') < length (sources d)"
proof -
  have sub: "dom (bt_get (sources d')) \<subseteq> dom (bt_get (sources d))"
    using f unfolding forgets_def by (meson map_le_implies_dom_le)
  have "dom (bt_get (sources d')) \<subset> dom (bt_get (sources d))"
  proof (rule psubsetI [OF sub])
    show "dom (bt_get (sources d')) \<noteq> dom (bt_get (sources d))" using s by (metis domI domIff)
  qed
  moreover have "finite (dom (bt_get (sources d)))" by (simp add: bt_get_def [abs_def] finite_dom_map_of)
  ultimately have "card (dom (bt_get (sources d'))) < card (dom (bt_get (sources d)))" by (rule psubset_card_mono [rotated])
  then show ?thesis using length_eq_card_dom core by (metis dec_core_def)
qed

lemma admit_source_size:
  assumes core: "dec_core d"
  shows "bt_get (sources d) s = None \<Longrightarrow> length (sources (admit_source s p d)) = Suc (length (sources d)) \<and>
      retained (admit_source s p d) = retained d + length p + 8"
    and "bt_get (sources d) s = Some Missing \<Longrightarrow> length (sources (admit_source s p d)) = length (sources d) \<and>
      retained (admit_source s p d) = retained d + length p"
proof -
  have wf: "bt_wf (sources d)" using core by (simp add: dec_core_def)
  note eqs = length_bt_weight retained_eq [OF core] retained_eq [OF admit_source_core [OF core]]
  {
    assume "bt_get (sources d) s = None"
    then show "length (sources (admit_source s p d)) = Suc (length (sources d)) \<and>
        retained (admit_source s p d) = retained d + length p + 8"
      unfolding eqs by (simp add: btree.weight_insert_new [OF wf])
  next
    assume "bt_get (sources d) s = Some Missing"
    from btree.weight_insert_old [OF wf this, of source_cost "Received p"]
      btree.weight_insert_old [OF wf this, of "\<lambda>_. Suc 0" "Received p"]
    show "length (sources (admit_source s p d)) = length (sources d) \<and>
        retained (admit_source s p d) = retained d + length p"
      unfolding eqs by simp
  }
qed

lemma push_source_stored:
  assumes ok: "dec_ok d" and p: "length p + 8 \<le> unat (max_bytes d)"
    and entry: "bt_get (sources d) s = None \<or> bt_get (sources d) s = Some Missing"
  obtains d1 ev where
    "dec_push_source d s p = Option.bind (recover_and_advance (admit_source s p d1))
       (\<lambda>(d, evs). Some (d, ev @ EvRecovered s p False # evs))"
    "forgets d d1 ev" "dec_core d1" "length (sources (admit_source s p d1)) \<le> unat (max_symbols d)"
    "retained (admit_source s p d1) \<le> unat (max_bytes d) + 8" "length (repairs d1) \<le> unat (max_symbols d)"
    "\<exists>ab. make_room (if bt_get (sources d) s = None then 1 else 0) 0 0 ab d = (d1, ev)"
proof -
  let ?miss = "bt_get (sources d) s = Some Missing"
  define as where "as = (if ?miss then 0 else 1 :: nat)"
  define ab where "ab = (if ?miss then length p else length p + 8)"
  have core: "dec_core d" using ok by (rule dec_ok_core)
  have "\<exists>d1 ev. make_room as 0 0 ab d = (d1, ev) \<and> forgets d d1 ev \<and> dec_core d1 \<and>
    length (sources d1) + as \<le> unat (max_symbols d) \<and> retained d1 + ab \<le> unat (max_bytes d)"
    by (rule make_room_spec) (use ok p in \<open>auto simp: dec_ok_def dec_core_def as_def ab_def\<close>)
  then obtain d1 ev where m: "make_room as 0 0 ab d = (d1, ev)" "forgets d d1 ev" "dec_core d1"
    "length (sources d1) + as \<le> unat (max_symbols d)" "retained d1 + ab \<le> unat (max_bytes d)"
    by (elim exE conjE) (rule that)
  have "dec_push_source d s p = Option.bind (recover_and_advance (admit_source s p d1))
       (\<lambda>(d, evs). Some (d, ev @ EvRecovered s p False # evs))"
    using p entry m(1) by (auto simp: dec_push_source_def as_def ab_def admit_source_def not_less)
  moreover have "length (sources (admit_source s p d1)) \<le> unat (max_symbols d) \<and>
      retained (admit_source s p d1) \<le> unat (max_bytes d) + 8"
  proof (cases "bt_get (sources d1) s = None")
    case True
    have "length (sources d1) < unat (max_symbols d)"
    proof (cases ?miss)
      case miss: True
      show ?thesis using forgets_shorter [OF m(2) core m(3) miss True] ok by (simp add: dec_ok_def)
    qed (use m(4) in \<open>simp add: as_def\<close>)
    then show ?thesis using admit_source_size(1) [OF m(3) True, of p] m(5) by (auto simp: ab_def split: if_splits)
  next
    case False
    then have 1: "bt_get (sources d1) s = Some Missing" using forgets_get [OF m(2)] entry by fastforce
    then show ?thesis
      using admit_source_size(2) [OF m(3) 1, of p] m(4,5) by (auto simp: as_def ab_def split: if_splits)
  qed
  moreover have "length (repairs d1) \<le> unat (max_symbols d)"
    using m(2) ok by (auto simp: forgets_def dec_ok_def)
  moreover have "\<exists>ab. make_room (if bt_get (sources d) s = None then 1 else 0) 0 0 ab d = (d1, ev)"
    using m(1) entry by (auto simp: as_def)
  ultimately show ?thesis using that m(2,3) by blast
qed

lemma push_source_ignored:
  assumes "\<not> (length p + 8 \<le> unat (max_bytes d) \<and> (bt_get (sources d) s = None \<or> bt_get (sources d) s = Some Missing))"
  shows "dec_push_source d s p = Some (d, if length p + 8 > unat (max_bytes d) then [EvRecovered s p False] else [])"
  using assms by (cases "bt_get (sources d) s") (auto simp: dec_push_source_def not_less split: source_state.split)

lemma dec_ok_push_source:
  assumes ok: "dec_ok d"
  shows "\<exists>d' evs. dec_push_source d s p = Some (d', evs) \<and> dec_ok d' \<and> same_limits d d'"
proof (cases "length p + 8 \<le> unat (max_bytes d) \<and> (bt_get (sources d) s = None \<or> bt_get (sources d) s = Some Missing)")
  case True
  then obtain d1 ev where P: "dec_push_source d s p = Option.bind (recover_and_advance (admit_source s p d1))
       (\<lambda>(d, evs). Some (d, ev @ EvRecovered s p False # evs))"
    and f: "forgets d d1 ev" and core: "dec_core d1"
    and sz: "length (sources (admit_source s p d1)) \<le> unat (max_symbols d)"
      "retained (admit_source s p d1) \<le> unat (max_bytes d) + 8" "length (repairs d1) \<le> unat (max_symbols d)"
    using push_source_stored [OF ok, of p s] by blast
  let ?d = "admit_source s p d1"
  have lim: "max_symbols ?d = max_symbols d" "max_bytes ?d = max_bytes d" using forgetsD [OF f] by simp_all
  obtain d' evs where R: "recover_and_advance ?d = Some (d', evs)" "dec_core d'"
    "length (sources d') \<le> length (sources ?d)" "repairs d' = repairs ?d" "same_limits ?d d'"
    "retained d' \<le> max (retained ?d) (unat (max_bytes ?d))"
    by (rule recover_and_advance_spec [OF admit_source_core [OF core, of s p], where I = "\<lambda>_. True" and G = "\<lambda>_. True"])
      (use sz lim in auto)
  have "dec_ok d'" using R sz lim by (simp add: dec_ok_def same_limits_def)
  then show ?thesis using P R lim by (simp add: same_limits_def)
qed (simp add: push_source_ignored ok)

text \<open>
  The state in which a repair is registered: nothing outside its window is retained (unless the
  window is empty), and every retained equation lies within the window.
\<close>

definition trimmed :: "u32 \<Rightarrow> u32 \<Rightarrow> fec_decoder \<Rightarrow> fec_decoder \<Rightarrow> bool" where
  "trimmed wb wl d d' \<longleftrightarrow>
     max_symbols d' = max_symbols d \<and> max_bytes d' = max_bytes d \<and>
     newest_seq d' = newest_seq d \<and> highest_contiguous d' = highest_contiguous d \<and>
     length (sources d') \<le> length (sources d) \<and> retained d' \<le> retained d \<and>
     bt_get (sources d') = (\<lambda>s. if wl = 0 \<or> seq_in_window s wb wl then bt_get (sources d) s else None) \<and>
     seen_repair_keys d' \<subseteq> seen_repair_keys d \<and>
     (\<forall>r \<in> set (repairs d'). r \<in> set (repairs d) \<and>
        (wl = 0 \<or> seq_in_window (rr_base r) wb wl \<and> seq_in_window (rr_end r - 1) wb wl))"

lemma fold_bt_remove_Nil: "fold bt_remove ks [] = []"
  by (induction ks) (simp_all add: bt_remove_def)

lemma roll_for_repair_spec:
  assumes core: "dec_core d" and roll: "roll_for_repair wb wl d = (d', ev)"
  shows "dec_core d' \<and> trimmed wb wl d d'"
proof (cases "wl = 0")
  case True
  then show ?thesis using assms by (simp add: roll_for_repair_def trimmed_def)
next
  case False
  let ?obs = "filter (\<lambda>seq. \<not> seq_in_window seq wb wl) (map fst (sources d))"
  let ?kept = "filter (\<lambda>r. seq_in_window (rr_base r) wb wl \<and> seq_in_window (rr_end r - 1) wb wl) (repairs d)"
  have d': "d' = d\<lparr>repairs := ?kept, seen_repair_keys := set (map repair_key ?kept), sources := fold bt_remove ?obs (sources d)\<rparr>"
    using roll False by (auto simp: roll_for_repair_def Let_def)
  have wf: "bt_wf (sources d)" using core by (simp add: dec_core_def)
  have core': "dec_core d'"
    using core btree.invar_fold_remove [OF wf, of ?obs]
    by (auto simp: dec_core_def d' distinct_map_filter fold_bt_remove_Nil)
  have w: "bt_weight f (sources d') \<le> bt_weight f (sources d)" for f
    using btree.weight_fold_remove_le [OF wf, of f ?obs] by (simp add: d')
  have "retained d' \<le> retained d"
    unfolding retained_eq [OF core'] retained_eq [OF core]
    using w [of source_cost] by (intro add_mono) (simp_all add: d' sum_list_filter_le)
  moreover have "length (sources d') \<le> length (sources d)" using w [of "\<lambda>_. Suc 0"] by (simp add: length_bt_weight)
  moreover have "s \<in> set ?obs \<or> bt_get (sources d) s = None \<longleftrightarrow> \<not> seq_in_window s wb wl \<or> bt_get (sources d) s = None" for s
    by (auto simp: bt_get_None_keys)
  then have "bt_get (sources d') = (\<lambda>s. if seq_in_window s wb wl then bt_get (sources d) s else None)"
    by (intro ext) (auto simp: d' btree.get_fold_remove)
  ultimately show ?thesis using core' core False by (auto simp: trimmed_def d' dec_core_def)
qed

lemma trimmed_evict:
  assumes "trimmed wb wl d d'" "dec_core d'" "repairs d' \<noteq> []"
  shows "trimmed wb wl d (evict_oldest_repair d')"
proof -
  have "retained (evict_oldest_repair d') \<le> retained d'" by (rule evict_oldest_repair_core [OF assms(2,3)])
  moreover have "set (tl (repairs d')) \<subseteq> set (repairs d')" by (cases "repairs d'") auto
  moreover have "seen_repair_keys (evict_oldest_repair d') \<subseteq> seen_repair_keys d'"
    using assms(2) calculation(2) by (auto simp: evict_oldest_repair_def dec_core_def)
  ultimately show ?thesis using assms(1) by (auto simp: trimmed_def evict_oldest_repair_def)
qed

lemma admit_room_spec:
  assumes "dec_core d1" "trimmed wb wl d d1" "admit_room wb we p d1 = Some d2"
  shows "dec_core d2 \<and> trimmed wb wl d d2 \<and> length (repairs d2) < unat (max_symbols d2) \<and>
    repair_bytes_needed wb we p d2 \<le> unat (max_bytes d2)"
  using assms
proof (induction wb we p d1 rule: admit_room.induct)
  case (1 wb we p d1)
  show ?case
  proof (cases "length (repairs d1) < unat (max_symbols d1) \<and> repair_bytes_needed wb we p d1 \<le> unat (max_bytes d1)")
    case True
    then show ?thesis using 1(2-4) by (subst (asm) admit_room.simps) (simp add: Let_def not_less not_le)
  next
    case False
    then have eq: "admit_room wb we p d1 = (if repairs d1 = [] then None else admit_room wb we p (evict_oldest_repair d1))"
      by (subst admit_room.simps) (auto simp: Let_def not_less not_le)
    then have ne: "repairs d1 \<noteq> []" "admit_room wb we p (evict_oldest_repair d1) = Some d2"
      using 1(4) by (auto split: if_splits)
    show ?thesis
      by (rule 1(1)) (use False ne evict_oldest_repair_core [OF 1(2) ne(1)] trimmed_evict [OF 1(3,2) ne(1)] in \<open>auto simp: not_less\<close>)
  qed
qed

lemma register_repair_spec:
  assumes core: "dec_core d" and key: "(rs, wb) \<notin> seen_repair_keys d"
    and win: "unat (we - wb) \<le> unat (max_symbols d)"
    and d': "d' = register_repair rs wb we p d"
  shows "dec_core d'" "max_symbols d' = max_symbols d" "max_bytes d' = max_bytes d"
    "repairs d' = repairs d @ [\<lparr>rr_seq = rs, rr_base = wb, rr_end = we, rr_payload = p\<rparr>]"
    "bt_get (sources d') = (\<lambda>s. if s \<in> set (seq_range wb we) \<and> bt_get (sources d) s = None then Some Missing
       else bt_get (sources d) s)"
    "length (sources d') = length (sources d) + added_sources wb we d"
    "retained d' = repair_bytes_needed wb we p d"
proof -
  let ?m = "fold (\<lambda>seq. bt_or_insert seq Missing) (seq_range wb we) (sources d)"
  have wf: "bt_wf (sources d)" using core by (simp add: dec_core_def)
  have src: "sources d' = ?m" by (simp add: d' register_repair_def Let_def)
  show lim: "max_symbols d' = max_symbols d" "max_bytes d' = max_bytes d"
    and rep: "repairs d' = repairs d @ [\<lparr>rr_seq = rs, rr_base = wb, rr_end = we, rr_payload = p\<rparr>]"
    by (simp_all add: d' register_repair_def Let_def)
  have keys: "seen_repair_keys d' = insert (rs, wb) (seen_repair_keys d)"
    by (simp add: d' register_repair_def Let_def)
  have new: "newest_seq d' = None \<Longrightarrow> we = wb \<and> newest_seq d = None"
    by (auto simp: d' register_repair_def Let_def split: if_splits)
  show core': "dec_core d'"
    using core key win new btree.invar_fold_or_insert [OF wf, of Missing "seq_range wb we"]
    by (auto simp: dec_core_def src lim rep keys repair_key_def)
  show "bt_get (sources d') = (\<lambda>s. if s \<in> set (seq_range wb we) \<and> bt_get (sources d) s = None then Some Missing
       else bt_get (sources d) s)"
    by (intro ext) (simp add: src btree.get_fold_or_insert)
  have w: "bt_weight f ?m = bt_weight f (sources d) + f Missing * added_sources wb we d" for f
    using btree.weight_fold_or_insert [OF wf distinct_seq_range, of f Missing wb we] by (simp add: added_sources_def)
  show "length (sources d') = length (sources d) + added_sources wb we d"
    using w [of "\<lambda>_. Suc 0"] by (simp add: src length_bt_weight)
  show "retained d' = repair_bytes_needed wb we p d"
    unfolding repair_bytes_needed_def retained_eq [OF core'] retained_eq [OF core]
    by (simp add: src rep w repair_cost_def)
qed

definition is_evicted :: "decoder_event \<Rightarrow> bool" where
  "is_evicted e \<longleftrightarrow> (\<exists>s. e = EvEvicted s (s + 1))"

lemma push_repair_cases:
  assumes ok: "dec_ok d"
  obtains (ignored) "dec_push_repair d rs wb we p = Some (d, [])"
  | (admitted) d2 ev where
      "dec_push_repair d rs wb we p = Option.bind (recover_and_advance (register_repair rs wb we p d2))
         (\<lambda>(d, evs). Some (d, ev @ evs))"
      "dec_core d2" "trimmed wb (we - wb) d d2" "(rs, wb) \<notin> seen_repair_keys d2"
      "unat (we - wb) \<le> unat (max_symbols d2)"
      "length (sources d2) + added_sources wb we d2 \<le> unat (max_symbols d2)"
      "length (repairs d2) < unat (max_symbols d2)" "repair_bytes_needed wb we p d2 \<le> unat (max_bytes d2)"
      "list_all is_evicted ev" "\<forall>e \<in> set ev. \<exists>s. bt_get (sources d) s = Some Missing"
proof -
  have core: "dec_core d" using ok by (rule dec_ok_core)
  obtain d1 ev where r: "roll_for_repair wb (we - wb) d = (d1, ev)" by (cases "roll_for_repair wb (we - wb) d")
  have 1: "dec_core d1 \<and> trimmed wb (we - wb) d d1" by (rule roll_for_repair_spec [OF core r])
  show ?thesis
  proof (cases "length p + 16 > unat (max_bytes d) \<or> we - wb > 128 \<or> we - wb > ucast (max_symbols d)
      \<or> repair_horizon_relation d wb we \<noteq> Forward \<or> (rs, wb) \<in> seen_repair_keys d")
    case True
    then have "dec_push_repair d rs wb we p = Some (d, [])" by (auto simp: dec_push_repair_def Let_def)
    then show ?thesis by (rule ignored)
  next
    case False
    then have push: "dec_push_repair d rs wb we p = Option.bind (admit_repair rs wb we p d)
        (\<lambda>planned. case planned of None \<Rightarrow> Some (d, []) | Some r \<Rightarrow> Some r)"
      by (simp add: dec_push_repair_def Let_def)
    show ?thesis
    proof (cases "admit_room wb we p d1")
      case None
      then show ?thesis using ignored push r by (simp add: admit_repair_def)
    next
      case (Some d2)
      have 2: "dec_core d2 \<and> trimmed wb (we - wb) d d2 \<and> length (repairs d2) < unat (max_symbols d2) \<and>
          repair_bytes_needed wb we p d2 \<le> unat (max_bytes d2)"
        using admit_room_spec [OF _ _ Some] 1 by blast
      have key: "(rs, wb) \<notin> seen_repair_keys d2" using False 2 by (auto simp: trimmed_def)
      have "unat (ucast (max_symbols d) :: u32) = unat (max_symbols d)"
        using unat_lt_u16 [of "max_symbols d"] by (simp add: unsigned_ucast_eq take_bit_nat_eq_self)
      then have win: "unat (we - wb) \<le> unat (max_symbols d2)"
        using False 2 by (simp add: word_less_nat_alt not_less trimmed_def)
      show ?thesis
      proof (cases "length (sources d2) + added_sources wb we d2 > unat (max_symbols d2)")
        case True
        then show ?thesis using ignored push r Some by (simp add: admit_repair_def)
      next
        case False
        have "dec_push_repair d rs wb we p = Option.bind (recover_and_advance (register_repair rs wb we p d2))
            (\<lambda>(d, evs). Some (d, ev @ evs))"
          using push r Some False 2
          by (cases "recover_and_advance (register_repair rs wb we p d2)") (auto simp: admit_repair_def)
        moreover have "list_all is_evicted ev"
          using r by (auto simp: roll_for_repair_def Let_def is_evicted_def list_all_iff split: if_splits)
        moreover have "\<forall>e \<in> set ev. \<exists>s. bt_get (sources d) s = Some Missing"
          using r by (auto simp: roll_for_repair_def Let_def split: if_splits)
        ultimately show ?thesis using admitted 2 key win False by force
      qed
    qed
  qed
qed

lemma dec_ok_push_repair:
  assumes ok: "dec_ok d"
  shows "\<exists>d' evs. dec_push_repair d rs wb we p = Some (d', evs) \<and> dec_ok d' \<and> same_limits d d'"
  using ok
proof (cases rule: push_repair_cases [where rs = rs and wb = wb and we = we and p = p])
  case (admitted d2 ev)
  let ?d = "register_repair rs wb we p d2"
  note R = register_repair_spec [OF admitted(2,4,5) refl, of p]
  have lim: "max_symbols d2 = max_symbols d" "max_bytes d2 = max_bytes d"
    using admitted(3) by (simp_all add: trimmed_def)
  obtain d' evs where S: "recover_and_advance ?d = Some (d', evs)" "dec_core d'"
    "length (sources d') \<le> length (sources ?d)" "repairs d' = repairs ?d" "same_limits ?d d'"
    "retained d' \<le> max (retained ?d) (unat (max_bytes ?d))"
    by (rule recover_and_advance_spec [OF R(1), where I = "\<lambda>_. True" and G = "\<lambda>_. True"])
      (simp_all add: R(2,6) admitted(6))
  have "dec_ok d'" using S R admitted(6-8) by (simp add: dec_ok_def same_limits_def)
  then show ?thesis using admitted(1) S(1,5) R(2,3) lim by (simp add: same_limits_def)
qed (simp add: ok)

lemma dec_ok_push_symbol:
  assumes "dec_ok d"
  shows "\<exists>d' evs. push_symbol d y = Some (d', evs) \<and> dec_ok d' \<and> same_limits d d'"
  using dec_ok_push_source [OF assms] dec_ok_push_repair [OF assms] by (cases y) auto

section \<open>Decoder runs\<close>

fun decode_run :: "fec_decoder \<Rightarrow> symbol list \<Rightarrow> (fec_decoder \<times> decoder_event list) option" where
  "decode_run d [] = Some (d, [])"
| "decode_run d (y # ys) =
     Option.bind (push_symbol d y) (\<lambda>(d', evs).
     Option.bind (decode_run d' ys) (\<lambda>(d'', evs'). Some (d'', evs @ evs')))"

lemma decode_run_ok:
  assumes "dec_ok d"
  shows "\<exists>d' evs. decode_run d ys = Some (d', evs) \<and> dec_ok d' \<and> same_limits d d'"
  using assms
proof (induction ys arbitrary: d)
  case (Cons y ys)
  obtain d1 e1 where 1: "push_symbol d y = Some (d1, e1)" "dec_ok d1" "same_limits d d1"
    using dec_ok_push_symbol [OF Cons.prems] by blast
  obtain d2 e2 where 2: "decode_run d1 ys = Some (d2, e2)" "dec_ok d2" "same_limits d1 d2"
    using Cons.IH [OF 1(2)] by blast
  have "decode_run d (y # ys) = Some (d2, e1 @ e2)" by (simp add: 1(1) 2(1))
  then show ?case using 2(2) same_limits_trans [OF 1(3) 2(3)] by blast
qed simp

section \<open>Properties\<close>

text \<open>
  C13. Whatever symbols arrive, well-formed or hostile, in any order, the decoder returns: no index
  is out of range, no inverse of zero is taken and neither the recovery rounds nor the frontier walk
  loop for ever. At most \<open>max_symbols\<close> (clamped to 1..128) source entries and as many repairs are
  retained, there is exactly one deduplication key per retained repair, and the retained bytes
  exceed the configured cap by at most the 8 bytes of one source entry.
\<close>

theorem decoder_total_bounded:
  "\<exists>d evs. decode_run (decoder_new ms mb) ys = Some (d, evs) \<and>
     source_symbols (accounting d) \<le> unat (min (max ms 1) 128) \<and>
     repair_symbols (accounting d) \<le> unat (min (max ms 1) 128) \<and>
     dedup_keys (accounting d) = repair_symbols (accounting d) \<and>
     retained_bytes (accounting d) \<le> unat (min (max mb 1) (16 * 1024 * 1024)) + 8"
proof -
  obtain d evs where r: "decode_run (decoder_new ms mb) ys = Some (d, evs)" "dec_ok d"
    "same_limits (decoder_new ms mb) d"
    using decode_run_ok [OF dec_ok_new] by blast
  then have "card (seen_repair_keys d) = length (repairs d)"
    using distinct_card [of "map repair_key (repairs d)"] by (simp add: dec_ok_def dec_core_def)
  then show ?thesis using r by (simp add: dec_ok_def same_limits_def decoder_new_def)
qed

text \<open>
  C14. What one pass of the frontier does. Every sequence number it passes is known or is reported in
  a \<open>LossSpan\<close> of this call, in order and exactly once; the reported ones are forgotten and nothing
  else is; it stops only where no symbol is retained or before a missing run that no known symbol
  bounds.
\<close>

theorem frontier_accounts_for_all:
  assumes "dec_ok d"
  shows "\<exists>d' evs n r. advance_contiguous d = Some (d', evs) \<and>
    frontier_seq d' = frontier_seq d + word_of_nat n \<and>
    lost_seqs evs = filter (\<lambda>s. bt_get (sources d) s = Some Missing) (walk (frontier_seq d) n) \<and>
    (\<forall>i < n. bt_get (sources d) (frontier_seq d + word_of_nat i) \<noteq> None) \<and>
    (\<forall>s. bt_get (sources d') s = (if s \<in> set (lost_seqs evs) then None else bt_get (sources d) s)) \<and>
    n \<le> r \<and> bt_get (sources d) (frontier_seq d + word_of_nat r) = None \<and>
    (\<forall>i. n \<le> i \<and> i < r \<longrightarrow> bt_get (sources d) (frontier_seq d + word_of_nat i) = Some Missing)"
proof -
  have wf: "bt_wf (sources d)" and len: "length (sources d) < 2 ^ 32"
    using assms by (simp_all add: dec_ok_def dec_core_def)
  obtain r where r: "run_of (sources d) (frontier_seq d) r" using run_of_exists [OF len] by blast
  obtain d' evs n where a: "advance_contiguous d = Some (d', evs)" "advanced d r d' evs n"
    using advance_contiguous_spec [OF wf r] by (elim exE conjE) (rule that)
  have "n \<le> r" using a(2) by (simp add: advanced_def)
  then have "\<forall>i < n. bt_get (sources d) (frontier_seq d + word_of_nat i) \<noteq> None"
    using r unfolding run_of_def by (meson less_le_trans)
  moreover have "bt_get (sources d) (frontier_seq d + word_of_nat r) = None" using r by (simp add: run_of_def)
  ultimately show ?thesis
    using a unfolding advanced_def by (intro exI [of _ d'] exI [of _ evs] exI [of _ n] exI [of _ r]) simp
qed

theorem frontier_accounts_for_all_witness:
  "\<exists>d' evs. advance_contiguous ((decoder_new 4 100)\<lparr>sources := [(0, Received [1]), (1, Missing), (2, Received [7])],
      newest_seq := Some 2\<rparr>) = Some (d', evs) \<and> lost_seqs evs = [1] \<and> frontier_seq d' = 3"
proof -
  let ?d = "(decoder_new 4 100)\<lparr>sources := [(0, Received [1]), (1, Missing), (2, Received [7])], newest_seq := Some 2\<rparr>"
  have ok: "dec_ok ?d" by (simp add: dec_ok_def dec_core_def decoder_new_def accounting_def bt_wf_def)
  have F: "frontier_seq ?d = 0" by (simp add: frontier_seq_def decoder_new_def)
  obtain d' evs n r where a: "advance_contiguous ?d = Some (d', evs)" "frontier_seq d' = word_of_nat n"
    "lost_seqs evs = filter (\<lambda>s. bt_get (sources ?d) s = Some Missing) (walk 0 n)"
    "\<And>i. i < n \<Longrightarrow> bt_get (sources ?d) (word_of_nat i) \<noteq> None"
    "bt_get (sources ?d) (word_of_nat r) = None"
    "\<And>i. n \<le> i \<Longrightarrow> i < r \<Longrightarrow> bt_get (sources ?d) (word_of_nat i) = Some Missing"
    using frontier_accounts_for_all [OF ok] unfolding F by auto
  have "r \<noteq> 0" using a(5) by (intro notI) (simp add: bt_get_def)
  moreover have "r \<noteq> 1" "r \<noteq> 2" using a(5) by (auto simp: bt_get_def)
  ultimately have "2 < r" by linarith
  then have "\<not> n \<le> 2" using a(6) [of 2] by (auto simp: bt_get_def)
  moreover have "\<not> 3 < n" using a(4) [of 3] by (auto simp: bt_get_def)
  ultimately have "n = 3" by linarith
  then show ?thesis using a(1-3) by (simp add: walk_def upt_conv_Cons bt_get_def)
qed

end
