(* ===== verification/Fec_Recovery.thy ===== *)
theory Fec_Recovery
  imports Fec_Decoder
begin

text \<open>
  Correctness of recovery: what a Gaussian pass solves is the source stream, provided every
  sequence number of every retained equation is still retained (\<open>covered\<close>). Pushing a repair always
  re-establishes that; pushing a source does not, and the last section shows an execution in which
  the decoder delivers a payload that was never sent.
\<close>

section \<open>Definitions\<close>

text \<open>
  \<open>src\<close> is the stream of payloads. A sound state holds only payloads of the stream and equations
  valid for it; it is covered when every equation's window is retained.
\<close>

definition dec_sound :: "(u32 \<Rightarrow> bytes) \<Rightarrow> fec_decoder \<Rightarrow> bool" where
  "dec_sound src d \<longleftrightarrow>
     (\<forall>s v p. bt_get (sources d) s = Some v \<longrightarrow> state_payload v = Some p \<longrightarrow> p = src s \<and> length p \<le> 65520) \<and>
     (\<forall>r \<in> set (repairs d). repair_valid src (rr_seq r) (rr_base r) (rr_end r) (rr_payload r))"

definition covered :: "fec_decoder \<Rightarrow> bool" where
  "covered d \<longleftrightarrow> (\<forall>r \<in> set (repairs d). \<forall>s \<in> set (seq_range (rr_base r) (rr_end r)).
     bt_get (sources d) s \<noteq> None)"

fun event_sound :: "(u32 \<Rightarrow> bytes) \<Rightarrow> decoder_event \<Rightarrow> bool" where
  "event_sound src (EvRecovered s p v) \<longleftrightarrow> p = src s"
| "event_sound src _ \<longleftrightarrow> True"

section \<open>The rows of the system\<close>

lemma nth_xor_at: "i < length row \<Longrightarrow> xor_at i v row ! j = (if i = j then row ! j XOR v else row ! j)"
  by (simp add: xor_at_def nth_list_update)

lemma fold_xor_payload:
  "j < length row \<Longrightarrow> length row = l \<Longrightarrow>
   fold (\<lambda>(k, b) row. if 2 + k < l then xor_at (2 + k) (gf_mul c b) row else row) (enumerate n p) row ! j =
   row ! j XOR (if 2 + n \<le> j \<and> j < 2 + n + length p then gf_mul c (p ! (j - 2 - n)) else 0)"
proof (induction p arbitrary: n row)
  case (Cons b p)
  let ?row = "if 2 + n < l then xor_at (2 + n) (gf_mul c b) row else row"
  have row: "length ?row = l" using Cons.prems by simp
  have head: "?row ! j = row ! j XOR (if j = 2 + n then gf_mul c b else 0)"
    using Cons.prems by (auto simp: nth_xor_at)
  have "fold (\<lambda>(k, b) row. if 2 + k < l then xor_at (2 + k) (gf_mul c b) row else row) (enumerate (Suc n) p) ?row ! j =
      ?row ! j XOR (if 2 + Suc n \<le> j \<and> j < 2 + Suc n + length p then gf_mul c (p ! (j - 2 - Suc n)) else 0)"
    by (rule Cons.IH) (use Cons.prems row in simp_all)
  then show ?case unfolding enumerate_simps fold_simps prod.case head
    by (auto simp: xor.assoc nth_Cons')
qed auto

lemma nth_subtract_known:
  assumes "j < length row" "length row = l" "2 \<le> length (rr_payload r)" "length (rr_payload r) \<le> l"
  shows "subtract_known r l c p row ! j = row ! j XOR gf_mul c (byte_at (prefixed p) j)"
proof -
  let ?lb = "le16 (word_of_nat (length p))"
  let ?r1 = "xor_at 1 (gf_mul c (?lb ! 1)) (xor_at 0 (gf_mul c (?lb ! 0)) row)"
  have ne: "rr_payload r \<noteq> []" using assms(3) by auto
  have "subtract_known r l c p row ! j = ?r1 ! j XOR
      (if 2 \<le> j \<and> j < 2 + length p then gf_mul c (p ! (j - 2)) else 0)"
    using fold_xor_payload [of j ?r1 l c 0 p] assms ne by (simp add: subtract_known_def Let_def)
  moreover have "?r1 ! j = row ! j XOR (if j = 0 then gf_mul c (?lb ! 0) else if j = 1 then gf_mul c (?lb ! 1) else 0)"
    using assms by (auto simp: nth_xor_at)
  moreover have "byte_at (prefixed p) j = (if j = 0 then ?lb ! 0 else if j = 1 then ?lb ! 1
      else if j < 2 + length p then p ! (j - 2) else 0)"
    by (auto simp: byte_at_def prefixed_def nth_append)
  ultimately show ?thesis by auto
qed

lemma binary_search_Some: "binary_search xs k = Some i \<Longrightarrow> i < length xs \<and> xs ! i = k"
  by (induction xs arbitrary: i) (auto split: if_splits)

lemma binary_search_None: "binary_search xs k = None \<longleftrightarrow> k \<notin> set xs"
  by (induction xs) auto

text \<open>The unknowns of the system at byte \<open>j\<close>: the bytes of the missing prefixed payloads.\<close>

definition unknowns :: "(u32 \<Rightarrow> bytes) \<Rightarrow> fec_decoder \<Rightarrow> nat \<Rightarrow> nat \<Rightarrow> u8" where
  "unknowns src d j i = byte_at (prefixed (src (missing_seqs d ! i))) j"

definition term_at :: "(u32 \<Rightarrow> bytes) \<Rightarrow> u16 \<Rightarrow> nat \<Rightarrow> u32 \<Rightarrow> u8" where
  "term_at src rs j s = gf_mul (gf_coeff rs s) (byte_at (prefixed (src s)) j)"

text \<open>Each step moves the term of one sequence number to one side of the equation or the other.\<close>

lemma elim_row_step_balance:
  assumes core: "dec_core d" and sound: "dec_sound src d"
    and s: "bt_get (sources d) s \<noteq> None" and len: "2 \<le> length (rr_payload r)" "length (rr_payload r) \<le> l"
    and row: "length (fst row) = length (missing_seqs d)" "length (snd row) = l" "j < l"
    and fresh: "\<And>i. i < length (missing_seqs d) \<Longrightarrow> missing_seqs d ! i = s \<Longrightarrow> fst row ! i = 0"
  defines "row' \<equiv> elim_row_step d (missing_seqs d) l r s row"
  shows "dot gf_mul (fst row') (unknowns src d j) XOR snd row' ! j =
      dot gf_mul (fst row) (unknowns src d j) XOR snd row ! j XOR term_at src (rr_seq r) j s"
    and "\<And>i. i < length (missing_seqs d) \<Longrightarrow> missing_seqs d ! i \<noteq> s \<Longrightarrow> fst row' ! i = fst row ! i"
proof -
  obtain v where v: "bt_get (sources d) s = Some v" using s by blast
  have both: "dot gf_mul (fst row') (unknowns src d j) XOR snd row' ! j =
      dot gf_mul (fst row) (unknowns src d j) XOR snd row ! j XOR term_at src (rr_seq r) j s \<and>
      (\<forall>i < length (missing_seqs d). missing_seqs d ! i \<noteq> s \<longrightarrow> fst row' ! i = fst row ! i)"
  proof (cases "state_payload v")
    case (Some p)
    then have "row' = (fst row, subtract_known r l (gf_coeff (rr_seq r) s) p (snd row))"
      using v by (simp add: row'_def elim_row_step_def)
    moreover have "p = src s" using sound v Some by (simp add: dec_sound_def)
    ultimately show ?thesis
      using nth_subtract_known [of j "snd row" l r] row len by (simp add: term_at_def xor.assoc)
  next
    case None
    then have m: "bt_get (sources d) s = Some Missing" using v by (cases v) auto
    then obtain pos where pos: "binary_search (missing_seqs d) s = Some pos"
      using missing_iff [OF core] binary_search_None [of "missing_seqs d" s] by auto
    have row': "row' = ((fst row)[pos := gf_coeff (rr_seq r) s], snd row)"
      using v None pos by (simp add: row'_def elim_row_step_def)
    have p: "pos < length (missing_seqs d)" "missing_seqs d ! pos = s" using binary_search_Some [OF pos] by auto
    have "dot gf_mul (fst row') (unknowns src d j) =
        dot gf_mul (fst row) (unknowns src d j) XOR term_at src (rr_seq r) j s"
      using gf.dot_update [of pos "fst row" "gf_coeff (rr_seq r) s" "unknowns src d j"] p row fresh
      by (simp add: row' unknowns_def term_at_def)
    then show ?thesis using p by (auto simp: row' nth_list_update row(1) xor.commute xor.left_commute xor.assoc)
  qed
  then show "dot gf_mul (fst row') (unknowns src d j) XOR snd row' ! j =
      dot gf_mul (fst row) (unknowns src d j) XOR snd row ! j XOR term_at src (rr_seq r) j s" by blast
  show "\<And>i. i < length (missing_seqs d) \<Longrightarrow> missing_seqs d ! i \<noteq> s \<Longrightarrow> fst row' ! i = fst row ! i"
    using both by blast
qed

lemma elim_fold_balance:
  assumes core: "dec_core d" and sound: "dec_sound src d"
    and len: "2 \<le> length (rr_payload r)" "length (rr_payload r) \<le> l" and j: "j < l"
  shows "distinct ss \<Longrightarrow> (\<And>s. s \<in> set ss \<Longrightarrow> bt_get (sources d) s \<noteq> None) \<Longrightarrow>
    length (fst row) = length (missing_seqs d) \<Longrightarrow> length (snd row) = l \<Longrightarrow>
    (\<And>i. i < length (missing_seqs d) \<Longrightarrow> missing_seqs d ! i \<in> set ss \<Longrightarrow> fst row ! i = 0) \<Longrightarrow>
    row' = fold (elim_row_step d (missing_seqs d) l r) ss row \<Longrightarrow>
    dot gf_mul (fst row') (unknowns src d j) XOR snd row' ! j =
    dot gf_mul (fst row) (unknowns src d j) XOR snd row ! j XOR xsum (term_at src (rr_seq r) j) ss"
proof (induction ss arbitrary: row)
  case (Cons s ss)
  let ?row = "elim_row_step d (missing_seqs d) l r s row"
  note step = elim_row_step_balance [OF core sound _ len Cons.prems(3,4) j, of s]
  have 1: "dot gf_mul (fst ?row) (unknowns src d j) XOR snd ?row ! j =
      dot gf_mul (fst row) (unknowns src d j) XOR snd row ! j XOR term_at src (rr_seq r) j s"
    by (rule step(1)) (use Cons.prems in auto)
  have keep: "fst ?row ! i = 0" if "i < length (missing_seqs d)" "missing_seqs d ! i \<in> set ss" for i
  proof -
    have "fst ?row ! i = fst row ! i" by (rule step(2)) (use Cons.prems that in auto)
    then show ?thesis using Cons.prems(5) that by simp
  qed
  have "dot gf_mul (fst row') (unknowns src d j) XOR snd row' ! j =
      dot gf_mul (fst ?row) (unknowns src d j) XOR snd ?row ! j XOR xsum (term_at src (rr_seq r) j) ss"
    by (rule Cons.IH) (use Cons.prems keep in \<open>auto simp: elim_row_step_lengths\<close>)
  then show ?case using 1 by (simp flip: xor.assoc)
qed simp

lemma elim_row_solved:
  assumes core: "dec_core d" and sound: "dec_sound src d" and cov: "covered d"
    and r: "r \<in> set (repairs d)" and j: "j < eff_len d"
  shows "dot gf_mul (fst (elim_row d (missing_seqs d) (eff_len d) r)) (unknowns src d j) =
    snd (elim_row d (missing_seqs d) (eff_len d) r) ! j"
proof -
  let ?ss = "seq_range (rr_base r) (rr_end r)" and ?l = "eff_len d"
  let ?rhs = "rr_payload r @ replicate (?l - length (rr_payload r)) 0"
  have valid: "repair_valid src (rr_seq r) (rr_base r) (rr_end r) (rr_payload r)"
    using sound r by (simp add: dec_sound_def)
  have le: "length (rr_payload r) \<le> ?l" by (rule eff_len_ge [OF r])
  have zero: "dot gf_mul (replicate (length (missing_seqs d)) 0) x = 0" for x
    by (rule gf.dot_zero) simp
  have rhs: "?rhs ! j = xsum (term_at src (rr_seq r) j) ?ss"
  proof (cases "j < length (rr_payload r)")
    case True
    then show ?thesis using valid by (simp add: nth_append repair_valid_def term_at_def cong: xsum_cong)
  next
    case False
    have "term_at src (rr_seq r) j s = 0" if "s \<in> set ?ss" for s
      using valid that False by (force simp: repair_valid_def term_at_def byte_at_def)
    then show ?thesis using False j le by (simp add: nth_append xsum_zero)
  qed
  show ?thesis
  proof (cases "?ss = []")
    case True
    then show ?thesis using rhs by (simp add: elim_row_def zero)
  next
    case False
    then obtain s where "s \<in> set ?ss" by (cases ?ss) auto
    then have "2 \<le> length (rr_payload r)" using valid by (force simp: repair_valid_def)
    from elim_fold_balance [OF core sound this le j distinct_seq_range _ _ _ _ refl,
        where row = "(replicate (length (missing_seqs d)) 0, ?rhs)", of "rr_base r" "rr_end r"]
    have "dot gf_mul (fst (elim_row d (missing_seqs d) ?l r)) (unknowns src d j) XOR snd (elim_row d (missing_seqs d) ?l r) ! j
       = ?rhs ! j XOR xsum (term_at src (rr_seq r) j) ?ss"
      using cov r le by (simp add: elim_row_def zero covered_def)
    then show ?thesis by (simp add: rhs)
  qed
qed

lemma stream_solves:
  assumes "dec_core d" "dec_sound src d" "covered d" "j < eff_len d"
  shows "solves (map fst (elim_rows d)) (map snd (elim_rows d)) j (unknowns src d j)"
  using elim_row_solved [OF assms(1-3) _ assms(4)] by (simp add: solves_def elim_rows_def)

section \<open>Soundness of recovery\<close>

text \<open>A column that occurs in no equation cannot be determined.\<close>

lemma elim_fold_untouched:
  "i < length (fst row) \<Longrightarrow> distinct ms \<Longrightarrow> length (fst row) = length ms \<Longrightarrow> ms ! i \<notin> set ss \<Longrightarrow>
   fst (fold (elim_row_step d ms l r) ss row) ! i = fst row ! i"
proof (induction ss arbitrary: row)
  case (Cons s ss)
  have "pos \<noteq> i" if "binary_search ms s = Some pos" for pos
    using binary_search_Some [OF that] Cons.prems by auto
  then have "fst (elim_row_step d ms l r s row) ! i = fst row ! i"
    by (auto simp: elim_row_step_def Let_def split: option.split)
  then show ?case using Cons by (simp add: elim_row_step_lengths)
qed simp

lemma solved_column_covered:
  assumes core: "dec_core d" and sound: "dec_sound src d" and cov: "covered d"
    and g: "gaussian_elim (map fst (elim_rows d)) (map snd (elim_rows d)) (length (missing_seqs d)) (eff_len d) = Some sols"
    and sol: "(col, v) \<in> set sols" and l: "0 < eff_len d"
  shows "\<exists>r \<in> set (repairs d). missing_seqs d ! col \<in> set (seq_range (rr_base r) (rr_end r))"
proof (rule ccontr)
  assume none: "\<not> ?thesis"
  let ?C = "map fst (elim_rows d)" and ?x = "unknowns src d 0"
  note S = gaussian_elim_sound [OF elim_rows_rect g sol]
  have x: "solves ?C (map snd (elim_rows d)) 0 ?x" by (rule stream_solves [OF core sound cov l])
  have zero: "?C ! k ! col = 0" if "k < length (repairs d)" for k
    using that none S(1) distinct_missing [OF core]
    by (simp add: elim_rows_def elim_row_def elim_fold_untouched)
  let ?y = "?x(col := ?x col XOR 1)"
  have "dot gf_mul (?C ! k) ?y = dot gf_mul (?C ! k) ?x" if k: "k < length (repairs d)" for k
  proof -
    have "dot gf_mul (?C ! k) (\<lambda>i. ?x i XOR (if i = col then 1 else 0)) =
        dot gf_mul (?C ! k) ?x XOR dot gf_mul (?C ! k) (\<lambda>i. if i = col then 1 else 0)"
      by (rule gf.dot_xor)
    moreover have "dot gf_mul (?C ! k) (\<lambda>i. if i = col then 1 else 0) = 0"
      using zero [OF k] by (intro gf.dot_zero) auto
    moreover have "(\<lambda>i. ?x i XOR (if i = col then 1 else 0)) = ?y" by auto
    ultimately show ?thesis by simp
  qed
  then have "solves ?C (map snd (elim_rows d)) 0 ?y" using x by (simp add: solves_def elim_rows_def)
  then have "?y col = ?x col" using S(3) [OF l] x by metis
  then show False using xor_left_cancel [of "?x col" 1 0] by simp
qed

lemma decode_solution_prefixed:
  assumes "length p \<le> 65520" "length p + 2 \<le> length v" "\<And>j. j < length v \<Longrightarrow> v ! j = byte_at (prefixed p) j"
  shows "decode_solution v = Some p"
proof -
  have len: "unat (word_of_nat (length p) :: u16) = length p" using assms(1) by (simp add: unat_of_nat)
  have "v \<noteq> []" using assms(2) by auto
  then have v: "v ! 0 = ucast (word_of_nat (length p) :: u16)" "v ! 1 = ucast (drop_bit 8 (word_of_nat (length p) :: u16))"
    using assms(2) assms(3) [of 0] assms(3) [of 1] by (auto simp: byte_at_def prefixed_def le16_def)
  have "subslice 2 (2 + length p) v = p"
  proof (rule nth_equalityI)
    show "length (subslice 2 (2 + length p) v) = length p" using assms(2) by simp
    fix i assume "i < length (subslice 2 (2 + length p) v)"
    then show "subslice 2 (2 + length p) v ! i = p ! i"
      using assms(2) assms(3) [of "2 + i"] by (simp add: subslice_def byte_at_def prefixed_def nth_append)
  qed
  then show ?thesis using assms(2) unfolding decode_solution_def v by (simp add: len Let_def min_def)
qed

lemma one_elim_pass_sound:
  assumes core: "dec_core d" and sound: "dec_sound src d" and cov: "covered d"
    and pass: "one_elim_pass d = Some b" and x: "x \<in> set b"
  shows "snd x = src (fst x) \<and> length (snd x) \<le> 65520"
proof -
  have run: "elim_runs d" using pass x by (auto simp: one_elim_pass_eq split: if_splits)
  then obtain sols where g: "gaussian_elim (map fst (elim_rows d)) (map snd (elim_rows d))
      (length (missing_seqs d)) (eff_len d) = Some sols" and b: "b = solution_symbols d sols"
    using pass by (auto simp: one_elim_pass_eq)
  obtain col v p where sol: "(col, v) \<in> set sols" and p: "decode_solution v = Some p"
    and x: "x = (missing_seqs d ! col, p)"
    using x by (auto simp: b solution_symbols_def set_map_filter)
  let ?s = "missing_seqs d ! col"
  note S = gaussian_elim_sound [OF elim_rows_rect g sol]
  have l: "0 < eff_len d" using run by (simp add: elim_runs_def)
  obtain r where r: "r \<in> set (repairs d)" "?s \<in> set (seq_range (rr_base r) (rr_end r))"
    using solved_column_covered [OF core sound cov g sol l] by blast
  have len: "length (src ?s) + 2 \<le> length v" "length (src ?s) \<le> 65520"
    using sound r eff_len_ge [OF r(1)] S(2) by (force simp: dec_sound_def repair_valid_def)+
  have "v ! j = byte_at (prefixed (src ?s)) j" if "j < length v" for j
    using S(3) [OF _ stream_solves [OF core sound cov]] that S(2) by (simp add: unknowns_def)
  then have "decode_solution v = Some (src ?s)" by (rule decode_solution_prefixed [OF len(2,1)])
  then show ?thesis using p len by (simp add: x)
qed

lemma sound_store_recovered:
  assumes core: "dec_core d" and sound: "dec_sound src d" and cov: "covered d" and pass: "one_elim_pass d = Some b"
  shows "dec_sound src (store_recovered b d) \<and> covered (store_recovered b d)"
proof -
  obtain b' where "one_elim_pass d = Some b'" and b: "distinct (map fst b')" "fst ` set b' \<subseteq> set (missing_seqs d)"
    by (rule one_elim_pass_shape [OF core])
  then have "b' = b" using pass by simp
  note R = store_recovered_spec [OF core b, unfolded this]
  have get: "bt_get (sources (store_recovered b d)) s =
      (case map_of b s of Some p \<Rightarrow> Some (Recovered p) | None \<Rightarrow> bt_get (sources d) s)" for s
    by (rule recovers_get [OF R(2)])
  have good: "p = src s \<and> length p \<le> 65520" if "map_of b s = Some p" for s p
    using one_elim_pass_sound [OF core sound cov pass map_of_SomeD [OF that]] by auto
  have rep: "repairs (store_recovered b d) = repairs d" by (rule recoversD(3) [OF R(2)])
  show ?thesis
    using sound cov good unfolding dec_sound_def covered_def get rep
    by (auto split: option.splits)
qed

section \<open>Symbols\<close>

lemma sound_advanced:
  assumes "dec_sound src d" "advanced d r d' evs n"
  shows "dec_sound src d'" "list_all (event_sound src) evs" "evs = [] \<Longrightarrow> covered d \<Longrightarrow> covered d'"
proof -
  have get: "bt_get (sources d') s = Some v \<Longrightarrow> bt_get (sources d) s = Some v" for s v
    using assms(2) by (auto simp: advanced_def split: if_splits)
  have rep: "repairs d' = repairs d" using assms(2) by (simp add: advanced_def same_frame_def)
  show "dec_sound src d'" using assms(1) get unfolding dec_sound_def rep by blast
  have "event_sound src e" if "is_loss_span e" for e using that by (auto simp: is_loss_span_def)
  then show "list_all (event_sound src) evs" using assms(2) by (auto simp: advanced_def list_all_iff)
  show "covered d'" if "evs = []" "covered d"
    using that assms(2) by (simp add: covered_def rep advanced_def lost_seqs_def)
qed

lemma recover_and_advance_sound:
  assumes core: "dec_core d" and len: "length (sources d) \<le> unat (max_symbols d)"
    and sound: "dec_sound src d" and cov: "covered d"
  obtains d' evs where "recover_and_advance d = Some (d', evs)" "dec_sound src d'" "list_all (event_sound src) evs"
    "list_all (\<lambda>e. \<not> is_loss_span e) evs \<Longrightarrow> covered d'"
    "dom (bt_get (sources d')) \<subseteq> dom (bt_get (sources d))"
proof -
  let ?I = "\<lambda>d. dec_sound src d \<and> covered d" and ?G = "\<lambda>x. snd x = src (fst x)"
  obtain d1 rec d' evs r n where R:
    "recover_and_advance d = Some (d', map (\<lambda>(s, p). EvRecovered s p True) rec @ evs)"
    "recovers d d1 rec" "dec_core d1" "?I d1" "\<forall>x \<in> set rec. ?G x" "advanced d1 r d' evs n"
    by (rule recover_and_advance_spec [OF core len, where I = ?I and G = ?G])
      (use sound cov sound_store_recovered one_elim_pass_sound in blast)+
  note A = sound_advanced [OF conjunct1 [OF R(4)] R(6)]
  have "dom (bt_get (sources d1)) \<subseteq> dom (bt_get (sources d))"
  proof
    fix s assume "s \<in> dom (bt_get (sources d1))"
    then show "s \<in> dom (bt_get (sources d))"
      using recovers_get [OF R(2), of s] R(2) missing_iff [OF core, of s]
      by (cases "map_of rec s") (auto simp: recovers_def dest!: map_of_SomeD)
  qed
  moreover have "dom (bt_get (sources d')) \<subseteq> dom (bt_get (sources d1))"
    using R(6) by (auto simp: advanced_def split: if_splits)
  moreover have "list_all (event_sound src) (map (\<lambda>(s, p). EvRecovered s p True) rec @ evs)"
    using A(2) R(5) by (auto simp: list_all_iff)
  moreover have "covered d'" if "list_all (\<lambda>e. \<not> is_loss_span e) (map (\<lambda>(s, p). EvRecovered s p True) rec @ evs)"
  proof -
    have "list_all is_loss_span evs" using R(6) by (simp add: advanced_def)
    then have "evs = []" using that by (cases evs) auto
    then show ?thesis using A(3) R(4) by blast
  qed
  ultimately show ?thesis using that R(1) A(1) by blast
qed

text \<open>
  Dropping retained state to make byte room is safe, because it drops every equation first; only the
  cap on the number of sources drops a source while equations over it remain.
\<close>

lemma make_room_covered:
  assumes "covered d" "length (sources d) + as \<le> unat (max_symbols d)" "length (repairs d) \<le> unat (max_symbols d)"
    "make_room as 0 0 ab d = (d', evs)"
  shows "covered d'"
  using assms
proof (induction "length (sources d) + length (repairs d)" arbitrary: d evs rule: less_induct)
  case less
  let ?over = "retained d + ab > unat (max_bytes d)"
  have eq: "make_room as 0 0 ab d =
     (if \<not> ?over then (d, []) else if repairs d \<noteq> [] then make_room as 0 0 ab (evict_oldest_repair d)
      else case newest_seq d of None \<Rightarrow> (d, []) | Some newest \<Rightarrow>
        (case eviction_candidate d newest of None \<Rightarrow> (d, [])
         | Some e \<Rightarrow> (let (d', evs) = make_room as 0 0 ab (drop_source (fst e) d)
             in (d', (if snd e = Missing then [EvEvicted (fst e) (fst e + 1)] else []) @ evs))))"
    using less.prems(2,3) by (subst make_room.simps [of as 0 0 ab d]) simp
  show ?case
  proof (cases "?over \<and> repairs d \<noteq> []")
    case True
    let ?d = "evict_oldest_repair d"
    have "set (tl (repairs d)) \<subseteq> set (repairs d)" "length (tl (repairs d)) < length (repairs d)"
      using True by (cases "repairs d", auto)+
    then show ?thesis
      by (intro less.hyps [of ?d]) (use less.prems True eq in \<open>auto simp: evict_oldest_repair_def covered_def\<close>)
  next
    case False
    show ?thesis
    proof (cases ?over)
      case True
      then have nil: "repairs d = []" using False by simp
      show ?thesis
      proof (cases "\<exists>newest e. newest_seq d = Some newest \<and> eviction_candidate d newest = Some e")
        case True
        then obtain newest e where e: "newest_seq d = Some newest" "eviction_candidate d newest = Some e" by blast
        obtain ev where "make_room as 0 0 ab (drop_source (fst e) d) = (d', ev)"
          using less.prems(4) eq e nil \<open>?over\<close> by (auto split: prod.splits)
        moreover have "length (sources (drop_source (fst e) d)) < length (sources d)"
          by (rule length_drop_source [OF eviction_candidate_in [OF e(2)]])
        ultimately show ?thesis
          by (intro less.hyps [of "drop_source (fst e) d"]) (use less.prems nil in \<open>auto simp: drop_source_def covered_def\<close>)
      qed (use less.prems(1,4) eq nil \<open>?over\<close> in \<open>auto split: option.splits\<close>)
    qed (use less.prems(1,4) eq in simp)
  qed
qed

lemma sound_admit_source:
  assumes "dec_sound src d" "symbol_valid src (Source s p)"
  shows "dec_sound src (admit_source s p d)"
  using assms by (auto simp: dec_sound_def btree.get_insert split: if_splits)

lemma covered_admit_source: "covered d \<Longrightarrow> covered (admit_source s p d)"
  by (auto simp: covered_def btree.get_insert)

lemma sound_forgets: "dec_sound src d \<Longrightarrow> forgets d d' evs \<Longrightarrow> dec_sound src d'"
proof -
  assume s: "dec_sound src d" and f: "forgets d d' evs"
  obtain k where "repairs d' = drop k (repairs d)" using f unfolding forgets_def by blast
  then have "set (repairs d') \<subseteq> set (repairs d)" by (simp add: set_drop_subset)
  then show ?thesis using s forgets_get [OF f] unfolding dec_sound_def by blast
qed

lemma evicted_sound: "forgets d d' evs \<Longrightarrow> list_all (event_sound src) evs \<and> list_all (\<lambda>e. \<not> is_loss_span e) evs"
  unfolding forgets_def list_all_iff is_loss_span_def by auto

lemma push_source_sound:
  assumes ok: "dec_ok d" and sound: "dec_sound src d" and cov: "covered d" and valid: "symbol_valid src (Source s p)"
    and room: "bt_get (sources d) s \<noteq> None \<or> length (sources d) < unat (max_symbols d)"
  shows "\<exists>d' evs. dec_push_source d s p = Some (d', evs) \<and> dec_sound src d' \<and> list_all (event_sound src) evs \<and>
    (list_all (\<lambda>e. \<not> is_loss_span e) evs \<longrightarrow> covered d') \<and>
    dom (bt_get (sources d')) \<subseteq> insert s (dom (bt_get (sources d)))"
proof (cases "length p + 8 \<le> unat (max_bytes d) \<and> (bt_get (sources d) s = None \<or> bt_get (sources d) s = Some Missing)")
  case True
  then obtain d1 ev ab where P: "dec_push_source d s p = Option.bind (recover_and_advance (admit_source s p d1))
       (\<lambda>(d, evs). Some (d, ev @ EvRecovered s p False # evs))"
    and f: "forgets d d1 ev" and core: "dec_core d1"
    and sz: "length (sources (admit_source s p d1)) \<le> unat (max_symbols d)"
    and m: "make_room (if bt_get (sources d) s = None then 1 else 0) 0 0 ab d = (d1, ev)"
    using push_source_stored [OF ok, of p s] by blast
  have cov1: "covered d1"
    by (rule make_room_covered [OF cov _ _ m]) (use room ok in \<open>auto simp: dec_ok_def\<close>)
  let ?d = "admit_source s p d1"
  obtain d' evs where R: "recover_and_advance ?d = Some (d', evs)" "dec_sound src d'" "list_all (event_sound src) evs"
    "list_all (\<lambda>e. \<not> is_loss_span e) evs \<Longrightarrow> covered d'" "dom (bt_get (sources d')) \<subseteq> dom (bt_get (sources ?d))"
    by (rule recover_and_advance_sound [OF admit_source_core [OF core, of s p] _
          sound_admit_source [OF sound_forgets [OF sound f] valid] covered_admit_source [OF cov1]])
      (use sz forgetsD(1) [OF f] in auto)
  have "dom (bt_get (sources ?d)) \<subseteq> insert s (dom (bt_get (sources d)))"
    using forgets_get [OF f] by (auto simp: btree.get_insert)
  then show ?thesis
    using P R valid evicted_sound [OF f, of src] by (auto simp: is_loss_span_def)
next
  case False
  then show ?thesis using push_source_ignored [OF False] sound cov valid by auto
qed

text \<open>Every equation kept for an incoming window lies inside it.\<close>

lemma window_inside:
  assumes b: "seq_in_window rb wb (we - wb)" and e: "seq_in_window (re - 1) wb (we - wb)"
    and len: "unat (re - rb) \<le> 128" "unat (we - wb) \<le> 128" and s: "s \<in> set (seq_range rb re)"
  shows "s \<in> set (seq_range wb we)"
proof -
  define a where "a = unat (rb - wb)"
  have k: "unat (s - rb) < unat (re - rb)" using s by (simp add: set_seq_range seq_in_window_def word_less_nat_alt)
  have a: "a < unat (we - wb)" using b by (simp add: seq_in_window_def word_less_nat_alt a_def)
  have "re - rb \<noteq> 0" using k by auto
  then have r1: "unat (re - 1 - rb) = unat (re - rb) - 1"
    by (metis unat_minus_one diff_right_commute)
  have add: "unat (x - wb) = a + unat (x - rb)" if "unat (x - rb) \<le> 128" for x
    using that a len(2) unat_word_ariths(1) [of "rb - wb" "x - rb"] by (simp add: a_def)
  have "a + (unat (re - rb) - 1) < unat (we - wb)"
    using e add [of "re - 1"] r1 len by (simp add: seq_in_window_def word_less_nat_alt)
  then have "unat (s - wb) < unat (we - wb)" using add [of s] k len by simp
  then show ?thesis by (simp add: set_seq_range seq_in_window_def word_less_nat_alt)
qed

lemma register_repair_covered:
  assumes core: "dec_core d2" and trim: "trimmed wb (we - wb) d d2" and key: "(rs, wb) \<notin> seen_repair_keys d2"
    and win: "unat (we - wb) \<le> unat (max_symbols d2)" and cov: "we = wb \<Longrightarrow> covered d"
  shows "covered (register_repair rs wb we p d2)"
proof -
  note R = register_repair_spec [OF core key win refl, of p]
  have ms: "unat (max_symbols d2) \<le> 128" using core by (simp add: dec_core_def)
  have "bt_get (sources (register_repair rs wb we p d2)) s \<noteq> None"
    if r: "r \<in> set (repairs d2)" and s: "s \<in> set (seq_range (rr_base r) (rr_end r))" for r s
  proof (cases "we = wb")
    case True
    then have "bt_get (sources d2) s \<noteq> None"
      using cov trim r s by (auto simp: trimmed_def covered_def)
    then show ?thesis unfolding R(5) by auto
  next
    case False
    have "unat (rr_end r - rr_base r) \<le> 128" using core r ms by (force simp: dec_core_def)
    then have "s \<in> set (seq_range wb we)"
      using window_inside [of "rr_base r" wb we "rr_end r" s] trim r s False win ms by (auto simp: trimmed_def)
    then show ?thesis by (simp add: R(5))
  qed
  then show ?thesis by (auto simp: covered_def R(4)) (simp add: R(5))
qed

lemma sound_register:
  assumes core: "dec_core d2" and trim: "trimmed wb (we - wb) d d2" and key: "(rs, wb) \<notin> seen_repair_keys d2"
    and win: "unat (we - wb) \<le> unat (max_symbols d2)" and sound: "dec_sound src d" and valid: "repair_valid src rs wb we p"
  shows "dec_sound src (register_repair rs wb we p d2)"
  unfolding dec_sound_def
proof (intro conjI allI impI ballI)
  note R = register_repair_spec [OF core key win refl, of p]
  {
    fix s v q assume "bt_get (sources (register_repair rs wb we p d2)) s = Some v" "state_payload v = Some q"
    then have "bt_get (sources d) s = Some v" using trim by (auto simp: R(5) trimmed_def split: if_splits)
    then show "q = src s" "length q \<le> 65520" using sound \<open>state_payload v = Some q\<close> by (auto simp: dec_sound_def)
  next
    fix r assume "r \<in> set (repairs (register_repair rs wb we p d2))"
    then show "repair_valid src (rr_seq r) (rr_base r) (rr_end r) (rr_payload r)"
      using valid sound trim by (auto simp: R(4) trimmed_def dec_sound_def)
  }
qed

lemma push_repair_sound:
  assumes ok: "dec_ok d" and sound: "dec_sound src d" and valid: "symbol_valid src (Repair rs wb we p)"
    and cov: "we = wb \<Longrightarrow> covered d"
  shows "\<exists>d' evs. dec_push_repair d rs wb we p = Some (d', evs) \<and> dec_sound src d' \<and> list_all (event_sound src) evs \<and>
    (covered d \<and> list_all (\<lambda>e. \<not> is_loss_span e) evs \<longrightarrow> covered d') \<and>
    dom (bt_get (sources d')) \<subseteq> set (seq_range wb we) \<union> dom (bt_get (sources d))"
  using ok
proof (cases rule: push_repair_cases [where rs = rs and wb = wb and we = we and p = p])
  case (admitted d2 ev)
  let ?d = "register_repair rs wb we p d2"
  note R = register_repair_spec [OF admitted(2,4,5) refl, of p]
  have get2: "bt_get (sources d2) s = Some v \<Longrightarrow> bt_get (sources d) s = Some v" for s v
    using admitted(3) by (auto simp: trimmed_def split: if_splits)
  have s2: "dec_sound src ?d"
    by (rule sound_register [OF admitted(2,3,4,5) sound]) (use valid in simp)
  obtain d' evs where A: "recover_and_advance ?d = Some (d', evs)" "dec_sound src d'" "list_all (event_sound src) evs"
    "list_all (\<lambda>e. \<not> is_loss_span e) evs \<Longrightarrow> covered d'" "dom (bt_get (sources d')) \<subseteq> dom (bt_get (sources ?d))"
    by (rule recover_and_advance_sound [OF R(1) _ s2 register_repair_covered [OF admitted(2,3,4,5) cov]])
      (simp_all add: R(2,6) admitted(6))
  have "dom (bt_get (sources ?d)) \<subseteq> set (seq_range wb we) \<union> dom (bt_get (sources d))"
    using get2 by (auto simp: R(5) split: if_splits)
  moreover have "list_all (event_sound src) ev" using admitted(9) by (auto simp: list_all_iff is_evicted_def)
  ultimately have "dec_push_repair d rs wb we p = Some (d', ev @ evs) \<and> dec_sound src d' \<and>
      list_all (event_sound src) (ev @ evs) \<and> (list_all (\<lambda>e. \<not> is_loss_span e) (ev @ evs) \<longrightarrow> covered d') \<and>
      dom (bt_get (sources d')) \<subseteq> set (seq_range wb we) \<union> dom (bt_get (sources d))"
    using admitted(1) A by auto
  then show ?thesis by blast
qed (simp add: sound)

section \<open>Runs without loss\<close>

fun symbol_seqs :: "symbol \<Rightarrow> u32 set" where
  "symbol_seqs (Source s p) = {s}"
| "symbol_seqs (Repair rs wb we p) = set (seq_range wb we)"

lemma room_for:
  assumes "dec_core d" "finite M" "dom (bt_get (sources d)) \<subseteq> M" "card M \<le> cap" "s \<in> M"
  shows "bt_get (sources d) s \<noteq> None \<or> length (sources d) < cap"
proof (cases "bt_get (sources d) s = None")
  case True
  then have "dom (bt_get (sources d)) \<subset> M" using assms(3,5) by (metis domIff psubsetI)
  then have "card (dom (bt_get (sources d))) < card M" using assms(2) by (rule psubset_card_mono [rotated])
  then show ?thesis using assms(1,4) length_eq_card_dom by (metis dec_core_def less_le_trans)
qed simp

lemma push_symbol_sound:
  assumes ok: "dec_ok d" and sound: "dec_sound src d" and cov: "covered d" and valid: "symbol_valid src y"
    and M: "finite M" "dom (bt_get (sources d)) \<subseteq> M" "card M \<le> unat (max_symbols d)" "symbol_seqs y \<subseteq> M"
  shows "\<exists>d' evs. push_symbol d y = Some (d', evs) \<and> dec_sound src d' \<and> list_all (event_sound src) evs \<and>
    (list_all (\<lambda>e. \<not> is_loss_span e) evs \<longrightarrow> covered d') \<and> dom (bt_get (sources d')) \<subseteq> M"
proof (cases y)
  case (Source s p)
  have "bt_get (sources d) s \<noteq> None \<or> length (sources d) < unat (max_symbols d)"
    by (rule room_for [OF dec_ok_core [OF ok] M(1-3)]) (use M(4) Source in simp)
  from push_source_sound [OF ok sound cov valid [unfolded Source] this]
  show ?thesis using Source M(2,4) by fastforce
next
  case (Repair rs wb we p)
  from push_repair_sound [OF ok sound valid [unfolded Repair] cov]
  show ?thesis using Repair M(2,4) cov by fastforce
qed

lemma decode_run_sound:
  assumes "dec_ok d" "dec_sound src d" "covered d" "\<And>y. y \<in> set ys \<Longrightarrow> symbol_valid src y"
    and "finite M" "dom (bt_get (sources d)) \<subseteq> M" "card M \<le> unat (max_symbols d)" "\<And>y. y \<in> set ys \<Longrightarrow> symbol_seqs y \<subseteq> M"
    and "decode_run d ys = Some (d', evs)" "list_all (\<lambda>e. \<not> is_loss_span e) evs"
  shows "list_all (event_sound src) evs"
  using assms
proof (induction ys arbitrary: d evs)
  case (Cons y ys)
  obtain d1 e1 where 1: "push_symbol d y = Some (d1, e1)" "dec_sound src d1" "list_all (event_sound src) e1"
    "list_all (\<lambda>e. \<not> is_loss_span e) e1 \<longrightarrow> covered d1" "dom (bt_get (sources d1)) \<subseteq> M"
    using push_symbol_sound [OF Cons.prems(1-3) _ Cons.prems(5-7), of y] Cons.prems(4,8) by auto
  obtain e2 where 2: "decode_run d1 ys = Some (d', e2)" "evs = e1 @ e2"
    using Cons.prems(9) 1(1) by (auto simp: bind_eq_Some_conv)
  have ok1: "dec_ok d1" "max_symbols d1 = max_symbols d"
    using dec_ok_push_symbol [OF Cons.prems(1), of y] 1(1) by (auto simp: same_limits_def)
  have "list_all (event_sound src) e2"
    by (rule Cons.IH [of d1]) (use Cons.prems 1 2 ok1 in \<open>auto simp: list_all_iff\<close>)
  then show ?case using 1(3) 2(2) by simp
qed simp

lemma new_sound: "dec_sound src (decoder_new ms mb)" "covered (decoder_new ms mb)"
  "bt_get (sources (decoder_new ms mb)) = Map.empty"
  by (auto simp: dec_sound_def covered_def decoder_new_def bt_get_def)

section \<open>A single loss is always repaired\<close>

lemma elim_fold_coeff:
  assumes "distinct ms" "i < length ms" "bt_get (sources d) (ms ! i) = Some Missing"
  shows "distinct ss \<Longrightarrow> ms ! i \<in> set ss \<Longrightarrow> length (fst row) = length ms \<Longrightarrow>
    fst (fold (elim_row_step d ms l r) ss row) ! i = gf_coeff (rr_seq r) (ms ! i)"
proof (induction ss arbitrary: row)
  case (Cons s ss)
  show ?case
  proof (cases "ms ! i = s")
    case True
    obtain pos where pos: "binary_search ms s = Some pos"
      using binary_search_None [of ms s] True assms(2) nth_mem by fastforce
    then have "pos = i" using binary_search_Some [OF pos] assms(1,2) True nth_eq_iff_index_eq by blast
    then have "fst (elim_row_step d ms l r s row) ! i = gf_coeff (rr_seq r) (ms ! i)"
      using assms(2,3) pos True Cons.prems(3) by (simp add: elim_row_step_def)
    then show ?thesis
      using True Cons.prems assms(1,2) by (simp add: elim_fold_untouched elim_row_step_lengths)
  next
    case False
    then show ?thesis using Cons by (simp add: elim_row_step_lengths)
  qed
qed simp

lemma elim_row_coeff:
  assumes "dec_core d" "i < length (missing_seqs d)" "missing_seqs d ! i \<in> set (seq_range (rr_base r) (rr_end r))"
  shows "fst (elim_row d (missing_seqs d) l r) ! i = gf_coeff (rr_seq r) (missing_seqs d ! i)"
proof -
  have "bt_get (sources d) (missing_seqs d ! i) = Some Missing"
    using missing_iff [OF assms(1)] nth_mem [OF assms(2)] by blast
  then show ?thesis
    unfolding elim_row_def by (intro elim_fold_coeff distinct_missing assms) simp_all
qed

lemma one_missing_solved:
  assumes core: "dec_core d" and sound: "dec_sound src d" and cov: "covered d" and runs: "elim_runs d"
    and ms: "missing_seqs d = [m]" and r: "r \<in> set (repairs d)" "m \<in> set (seq_range (rr_base r) (rr_end r))"
  shows "one_elim_pass d = Some [(m, src m)]"
proof -
  obtain b where b: "one_elim_pass d = Some b" "distinct (map fst b)" "fst ` set b \<subseteq> set (missing_seqs d)"
    by (rule one_elim_pass_shape [OF core])
  obtain sols where g: "gaussian_elim (map fst (elim_rows d)) (map snd (elim_rows d))
      (length (missing_seqs d)) (eff_len d) = Some sols"
    using gaussian_elim_total [OF elim_rows_rect] by blast
  have l: "0 < eff_len d" using runs by (simp add: elim_runs_def)
  obtain k where k: "k < length (repairs d)" "repairs d ! k = r" using r(1) by (auto simp: in_set_conv_nth)
  have row: "map fst (elim_rows d) ! k = [gf_coeff (rr_seq r) m]"
    using elim_row_coeff [OF core, of 0 r "eff_len d"] elim_row_lengths(1) [of d "[m]" "eff_len d" r] k r(2)
    by (simp add: elim_rows_def ms length_Suc_conv) auto
  have "0 \<in> fst ` set sols"
  proof (rule ccontr)
    assume "0 \<notin> fst ` set sols"
    then obtain y where y: "solves (map fst (elim_rows d)) (map snd (elim_rows d)) 0 y" "y 0 \<noteq> unknowns src d 0 0"
      using gaussian_elim_complete [OF elim_rows_rect _ g _ _ l stream_solves [OF core sound cov l]] r(1) ms by force
    have "dot gf_mul (map fst (elim_rows d) ! k) y = dot gf_mul (map fst (elim_rows d) ! k) (unknowns src d 0)"
      using y(1) stream_solves [OF core sound cov l] k(1) by (simp add: solves_def elim_rows_def)
    then have "gf_mul (gf_coeff (rr_seq r) m) (y 0) = gf_mul (gf_coeff (rr_seq r) m) (unknowns src d 0 0)"
      by (simp add: row)
    moreover obtain c where "gf_inv (gf_coeff (rr_seq r) m) = Some c" using gf_inv_total [OF gf_coeff_nonzero] by blast
    ultimately show False using y(2) gf.mul_cancel by metis
  qed
  then obtain v where v: "(0, v) \<in> set sols" by force
  have "length (src m) + 2 \<le> length (rr_payload r) \<and> length (src m) \<le> 65520"
    using sound r by (simp add: dec_sound_def repair_valid_def)
  then have "decode_solution v \<noteq> None"
    using gaussian_elim_sound(2) [OF elim_rows_rect g v] eff_len_ge [OF r(1)] by (simp add: decode_solution_def)
  then obtain p where "(m, p) \<in> set (solution_symbols d sols)"
    using v ms by (force simp: solution_symbols_def set_map_filter)
  then have mem: "(m, p) \<in> set b" using b(1) runs g by (simp add: one_elim_pass_eq)
  then have "p = src m" using one_elim_pass_sound [OF core sound cov b(1)] by force
  moreover have "b = [(m, p)]"
  proof -
    have "card (set (map fst b)) \<le> card {m}" using b(3) ms by (intro card_mono) auto
    then have "length b \<le> 1" using distinct_card [OF b(2)] by simp
    then show ?thesis using mem by (cases b) auto
  qed
  ultimately show ?thesis using b(1) by simp
qed

text \<open>Room for one more equation and its elimination, in terms of the state before it arrives.\<close>

definition elim_room :: "fec_decoder \<Rightarrow> bytes \<Rightarrow> bool" where
  "elim_room d p \<longleftrightarrow>
     (let l = max (eff_len d) (length p) in
      length (repairs d) < unat (max_symbols d) \<and>
      retained d + (length p + 32) + (Suc (length (repairs d)) * Suc l + 2 + 2 * l) \<le> unat (max_bytes d))"

lemma fold_max_le_iff: "fold max xs (a :: nat) \<le> b \<longleftrightarrow> a \<le> b \<and> (\<forall>x \<in> set xs. x \<le> b)"
  by (induction xs arbitrary: a) auto

lemma roll_repairs: "roll_for_repair wb wl d = (d', ev) \<Longrightarrow> length (repairs d') \<le> length (repairs d)"
  by (auto simp: roll_for_repair_def Let_def split: if_splits)

lemma added_single:
  assumes "trimmed wb (we - wb) d d1" "m \<in> set (seq_range wb we)"
    and "\<And>s. s \<in> set (seq_range wb we) \<Longrightarrow> s \<noteq> m \<Longrightarrow> \<exists>v. bt_get (sources d) s = Some v \<and> is_known v"
  shows "added_sources wb we d1 \<le> 1"
proof -
  have "bt_get (sources d1) s \<noteq> None" if "s \<in> set (seq_range wb we)" "s \<noteq> m" for s
    using assms(1) assms(3) [OF that] that(1) by (auto simp: trimmed_def set_seq_range)
  then have "set (filter (\<lambda>s. bt_get (sources d1) s = None) (seq_range wb we)) \<subseteq> {m}" by fastforce
  then have "card (set (filter (\<lambda>s. bt_get (sources d1) s = None) (seq_range wb we))) \<le> card {m}"
    by (intro card_mono) auto
  then show ?thesis
    using distinct_card [of "filter (\<lambda>s. bt_get (sources d1) s = None) (seq_range wb we)"]
    by (simp add: added_sources_def)
qed

lemma registered_single_missing:
  assumes core: "dec_core d2" and key: "(rs, wb) \<notin> seen_repair_keys d2" and win: "unat (we - wb) \<le> unat (max_symbols d2)"
    and trim: "trimmed wb (we - wb) d d2" and m: "m \<in> set (seq_range wb we)"
    and unknown: "bt_get (sources d) m = None \<or> bt_get (sources d) m = Some Missing"
    and known: "\<And>s. s \<in> set (seq_range wb we) \<Longrightarrow> s \<noteq> m \<Longrightarrow> \<exists>v. bt_get (sources d) s = Some v \<and> is_known v"
  shows "missing_seqs (register_repair rs wb we p d2) = [m]"
proof -
  let ?d = "register_repair rs wb we p d2"
  note R = register_repair_spec [OF core key win refl, of p]
  have ne: "we - wb \<noteq> 0" using m by (auto simp: set_seq_range seq_in_window_def)
  have get: "bt_get (sources d2) s = (if s \<in> set (seq_range wb we) then bt_get (sources d) s else None)" for s
    using trim ne by (simp add: trimmed_def set_seq_range)
  have "bt_get (sources ?d) s = Some Missing \<longleftrightarrow> s = m" for s
    using m unknown known [of s] by (cases "s = m") (auto simp: R(5) get is_known_def)
  then have "set (missing_seqs ?d) = {m}" using missing_iff [OF R(1)] by blast
  moreover have "distinct (missing_seqs ?d)" by (rule distinct_missing [OF R(1)])
  ultimately show ?thesis using distinct_card [of "missing_seqs ?d"] by (cases "missing_seqs ?d") (auto simp: subset_singleton_iff)
qed

lemma single_loss_admitted:
  assumes ok: "dec_ok d" and m: "m \<in> set (seq_range wb we)"
    and known: "\<And>s. s \<in> set (seq_range wb we) \<Longrightarrow> s \<noteq> m \<Longrightarrow> \<exists>v. bt_get (sources d) s = Some v \<and> is_known v"
    and win: "unat (we - wb) \<le> unat (max_symbols d)"
    and fwd: "repair_horizon_relation d wb we = Forward" and key: "(rs, wb) \<notin> seen_repair_keys d"
    and room: "elim_room d p"
  obtains d2 ev where
    "dec_push_repair d rs wb we p = Option.bind (recover_and_advance (register_repair rs wb we p d2))
       (\<lambda>(d, evs). Some (d, ev @ evs))"
    "dec_core d2" "trimmed wb (we - wb) d d2" "length (repairs d2) \<le> length (repairs d)" "added_sources wb we d2 \<le> 1"
    "length (sources d2) + added_sources wb we d2 \<le> unat (max_symbols d)"
proof -
  have core: "dec_core d" and ms: "unat (max_symbols d) \<le> 128" using ok by (simp_all add: dec_ok_def dec_core_def)
  obtain d1 ev where r: "roll_for_repair wb (we - wb) d = (d1, ev)" by (cases "roll_for_repair wb (we - wb) d")
  have 1: "dec_core d1" "trimmed wb (we - wb) d d1" using roll_for_repair_spec [OF core r] by auto
  have lim: "max_symbols d1 = max_symbols d" "max_bytes d1 = max_bytes d" "retained d1 \<le> retained d"
    using 1(2) by (simp_all add: trimmed_def)
  have add: "added_sources wb we d1 \<le> 1" by (rule added_single [OF 1(2) m known])
  have need: "repair_bytes_needed wb we p d1 \<le> unat (max_bytes d)"
    using room lim(3) add by (simp add: repair_bytes_needed_def elim_room_def Let_def)
  have admit: "admit_room wb we p d1 = Some d1"
    using room need roll_repairs [OF r] by (subst admit_room.simps) (simp add: lim elim_room_def Let_def not_less not_le)
  have "card (dom (bt_get (sources d1)) \<union> set (seq_range wb we)) \<le> unat (max_symbols d)"
  proof -
    have ne: "we - wb \<noteq> 0" using m by (auto simp: set_seq_range seq_in_window_def)
    have "dom (bt_get (sources d1)) \<subseteq> set (seq_range wb we)"
      using 1(2) ne by (auto simp: trimmed_def set_seq_range split: if_splits)
    then have "dom (bt_get (sources d1)) \<union> set (seq_range wb we) = set (seq_range wb we)" by blast
    then show ?thesis using distinct_card [OF distinct_seq_range, of wb we] win by simp
  qed
  moreover have "card (dom (bt_get (sources d1)) \<union> set (seq_range wb we)) = length (sources d1) + added_sources wb we d1"
  proof -
    let ?new = "set (filter (\<lambda>s. bt_get (sources d1) s = None) (seq_range wb we))"
    have "dom (bt_get (sources d1)) \<union> set (seq_range wb we) = dom (bt_get (sources d1)) \<union> ?new" by auto
    moreover have "card (dom (bt_get (sources d1)) \<union> ?new) = card (dom (bt_get (sources d1))) + card ?new"
      by (rule card_Un_disjoint) (auto simp: bt_get_def [abs_def] finite_dom_map_of)
    moreover have "card ?new = added_sources wb we d1" unfolding added_sources_def by (rule distinct_card) simp
    ultimately show ?thesis using length_eq_card_dom [of "sources d1"] 1(1) by (simp add: dec_core_def)
  qed
  ultimately have cap: "length (sources d1) + added_sources wb we d1 \<le> unat (max_symbols d)" by simp
  have "unat (ucast (max_symbols d) :: u32) = unat (max_symbols d)"
    using unat_lt_u16 [of "max_symbols d"] by (simp add: unsigned_ucast_eq take_bit_nat_eq_self)
  then have guards: "\<not> (length p + 16 > unat (max_bytes d) \<or> we - wb > 128 \<or> we - wb > ucast (max_symbols d))"
    using room win ms by (simp add: elim_room_def Let_def word_less_nat_alt not_less)
  have "admit_repair rs wb we p d = Option.bind (recover_and_advance (register_repair rs wb we p d1))
      (\<lambda>(d, evs). Some (Some (d, ev @ evs)))"
    using r admit cap need by (simp add: admit_repair_def lim)
  then have "dec_push_repair d rs wb we p = Option.bind (recover_and_advance (register_repair rs wb we p d1))
      (\<lambda>(d, evs). Some (d, ev @ evs))"
    using guards fwd key
    by (cases "recover_and_advance (register_repair rs wb we p d1)") (auto simp: dec_push_repair_def)
  then show ?thesis using that 1 roll_repairs [OF r] add cap by blast
qed

lemma registered_room:
  assumes core: "dec_core d2" and key: "(rs, wb) \<notin> seen_repair_keys d2" and win: "unat (we - wb) \<le> unat (max_symbols d2)"
    and trim: "trimmed wb (we - wb) d d2" and reps: "length (repairs d2) \<le> length (repairs d)"
    and add: "added_sources wb we d2 \<le> 1" and ms: "missing_seqs (register_repair rs wb we p d2) = [m]"
    and room: "elim_room d p" and p: "p \<noteq> []" and cap: "unat (max_symbols d) \<le> 128"
  shows "elim_runs (register_repair rs wb we p d2)"
    and "retained (register_repair rs wb we p d2) + length p \<le> unat (max_bytes d)"
proof -
  let ?d = "register_repair rs wb we p d2" and ?l = "max (eff_len d) (length p)"
  note R = register_repair_spec [OF core key win refl, of p]
  have l: "eff_len ?d \<le> ?l"
    using eff_len_ge trim unfolding eff_len_def fold_max_le_iff
    by (force simp: R(4) trimmed_def eff_len_def [symmetric] le_max_iff_disj)
  have "length p \<le> eff_len ?d"
    using eff_len_ge [of "\<lparr>rr_seq = rs, rr_base = wb, rr_end = we, rr_payload = p\<rparr>" ?d] by (simp add: R(4))
  then have pos: "eff_len ?d \<noteq> 0" using p by (metis le_zero_eq length_0_conv)
  have ret: "retained ?d \<le> retained d + (length p + 32)"
    using add trim by (simp add: R(7) repair_bytes_needed_def trimmed_def)
  have "elim_scratch ?d = Suc (length (repairs d2)) * Suc (eff_len ?d) + 2 + 2 * eff_len ?d"
    by (simp add: elim_scratch_def ms R(4))
  also have "\<dots> \<le> Suc (length (repairs d)) * Suc ?l + 2 + 2 * ?l"
    using l reps by (intro add_mono mult_le_mono) simp_all
  finally have total: "retained ?d + elim_scratch ?d \<le> unat (max_bytes d)"
    using ret room unfolding elim_room_def Let_def by linarith
  have lim: "max_bytes ?d = max_bytes d" using trim by (simp add: R(3) trimmed_def)
  show "elim_runs ?d"
    using total pos room reps cap unfolding elim_runs_def lim by (simp add: ms R(4) elim_room_def Let_def)
  have "length p \<le> 2 * ?l" by simp
  then show "retained ?d + length p \<le> unat (max_bytes d)"
    using ret room unfolding elim_room_def Let_def by linarith
qed

section \<open>Concrete executions\<close>

text \<open>
  A decoder for at most 8 symbols and 200 bytes, one repair over \<open>[0, wend)\<close> of the stream whose
  payloads are all the single byte 1.
\<close>

definition small_repair :: "u32 \<Rightarrow> bytes \<Rightarrow> received_repair" where
  "small_repair wend p = \<lparr>rr_seq = 0, rr_base = 0, rr_end = wend, rr_payload = p\<rparr>"

definition small_state ::
  "(u32, source_state) btree_map \<Rightarrow> received_repair list \<Rightarrow> u32 option \<Rightarrow> fec_decoder_stats \<Rightarrow> u32 option \<Rightarrow> u32
   \<Rightarrow> fec_decoder" where
  "small_state srcs reps hc st span nw =
     \<lparr>max_symbols = 8, max_bytes = 200, sources = srcs, repairs = reps,
      seen_repair_keys = set (map repair_key reps), highest_contiguous = hc, dec_stats = st,
      open_loss_span = span, open_loss_span_has_recovery = False, newest_seq = Some nw,
      roll_horizon = (case reps of [] \<Rightarrow> None | r # _ \<Rightarrow> Some (rr_base r, rr_end r))\<rparr>"

abbreviation stats_of :: "nat \<Rightarrow> nat \<Rightarrow> nat \<Rightarrow> nat \<Rightarrow> nat \<Rightarrow> fec_decoder_stats" where
  "stats_of a b c d e \<equiv> \<lparr>source_symbols_received = a, repair_symbols_received = b,
     symbols_recovered = c, loss_spans = d, loss_spans_recovered = e\<rparr>"

lemma coeffs_0: "gf_coeff 0 0 = 1" "gf_coeff 0 1 = 75" "gf_coeff 0 2 = 150"
  by (simp_all add: gf_coeff_def)

lemma prods: "gf_mul 150 15 = 1" "gf_mul 151 15 = 14" "gf_mul 75 30 = 1"
  by (simp_all add: gf_eval)

lemma invs: "gf_inv 150 = Some 15" "gf_inv 75 = Some 30" "gf_inv 1 = Some 1"
  by (rule gf_inv_unique, simp add: prods)+

lemma ranges: "seq_range 0 3 = [0, 1, 2]" "seq_range 0 2 = [0, 1]"
  by (simp_all add: seq_range.simps)

lemmas small_defs = small_state_def small_repair_def repair_key_def bt_get_def bt_weight_def Let_def ranges

lemmas elim_eval = small_defs missing_seqs_def is_known_def one_elim_pass_def accounting_def elim_row_def
  coeffs_0 elim_row_step_def subtract_known_def le16_def xor_at_def gaussian_elim_def pivot_step_def
  swap_rows_def eliminate_rows_def axpy_row_def collect_solutions_def fully_determined_def invs prods
  decode_solution_def u16_of_def subslice_def List.map_filter_def upt_conv_Cons

lemmas push_eval = small_defs dec_push_repair_def repair_horizon_relation_def admit_repair_def
  roll_for_repair_def admit_room.simps seq_in_window_def repair_bytes_needed_def accounting_def
  added_sources_def register_repair_def bt_or_insert_def note_open_span_at_frontier_def
  open_span_at_def frontier_seq_def note_newest_def dec_push_source_def make_room.simps store_received_def

lemma small_retained:
  "retained (small_state srcs reps hc st span nw) =
     bt_weight source_cost srcs + sum_list (map (\<lambda>r. length (rr_payload r) + 16) reps) + card (set (map repair_key reps)) * 8"
  "max_bytes (small_state srcs reps hc st span nw) = 200"
  by (simp_all add: accounting_def small_state_def)

lemma small_repair_payload [simp]: "rr_payload (small_repair w p) = p"
  by (simp add: small_repair_def)

lemma try_recover_once:
  assumes "one_elim_pass d = Some b" "b \<noteq> []"
    "retained d + sum_list (map (\<lambda>(_, p). length p) b) \<le> unat (max_bytes d)"
    "one_elim_pass (store_recovered b d) = Some []"
  shows "try_recover d = Some (store_recovered b d, b)"
proof -
  have "try_recover (store_recovered b d) = Some (store_recovered b d, [])"
    using assms(4) by (subst try_recover.simps) simp
  then show ?thesis using assms(1-3) by (subst try_recover.simps) simp
qed

subsection \<open>One loss, one repair\<close>

lemma heal_pass:
  "one_elim_pass (small_state [(0, Received [1]), (1, Missing)] [small_repair 2 [74, 0, 74]] hc st span nw) = Some [(1, [1])]"
  by (simp add: elim_eval)

lemma heal_done:
  "one_elim_pass (small_state [(0, Received [1]), (1, Recovered [1])] reps hc st span nw) = Some []"
  by (simp add: one_elim_pass_def small_state_def missing_seqs_def is_known_def)

lemma heal_source:
  "push_symbol (decoder_new 8 200) (Source 0 [1]) =
     Some (small_state [(0, Received [1])] [] (Some 0) (stats_of (Suc 0) 0 0 0 0) None 0, [EvRecovered 0 [1] False])"
  by code_simp

lemma heal_repair:
  "push_symbol (small_state [(0, Received [1])] [] (Some 0) st None 0) (Repair 0 0 2 [74, 0, 74]) =
     Option.bind (recover_and_advance (small_state [(0, Received [1]), (1, Missing)] [small_repair 2 [74, 0, 74]] (Some 0)
       (st\<lparr>repair_symbols_received := repair_symbols_received st + 1, loss_spans := loss_spans st + 1\<rparr>) (Some 1) 1))
       (\<lambda>(d, evs). Some (d, evs))"
  by (simp add: push_eval)

lemma heal_recover:
  "try_recover (small_state [(0, Received [1]), (1, Missing)] [small_repair 2 [74, 0, 74]] hc st span nw) =
     Some (small_state [(0, Received [1]), (1, Recovered [1])] [small_repair 2 [74, 0, 74]] hc
       (st\<lparr>symbols_recovered := symbols_recovered st + 1\<rparr>) span nw, [(1, [1])])"
proof -
  have st: "store_recovered [(1, [1])] (small_state [(0, Received [1]), (1, Missing)] [small_repair 2 [74, 0, 74]] hc st span nw) =
      small_state [(0, Received [1]), (1, Recovered [1])] [small_repair 2 [74, 0, 74]] hc
        (st\<lparr>symbols_recovered := symbols_recovered st + 1\<rparr>) span nw"
    by (simp add: store_recovered_def small_state_def)
  show ?thesis unfolding st [symmetric]
    by (rule try_recover_once) (simp_all only: heal_pass st, simp_all add: heal_done small_retained bt_weight_def)
qed

subsection \<open>An abandoned source corrupts a later recovery\<close>

lemma corrupt_pass:
  "one_elim_pass (small_state [(0, Missing), (1, Received [1]), (2, Missing)] [small_repair 3 [220, 0, 220]] hc st span nw) = Some []"
  "one_elim_pass (small_state [(1, Received [1]), (2, Missing), (3, Received [1])] [small_repair 3 [220, 0, 220]] hc st span nw)
     = Some [(2, [14])]"
  by (simp_all add: elim_eval)

lemma corrupt_done:
  "one_elim_pass (small_state [(1, Received [1]), (2, Recovered [14]), (3, Received [1])] reps hc st span nw) = Some []"
  by (simp add: one_elim_pass_def small_state_def missing_seqs_def is_known_def)

lemma corrupt_source:
  "push_symbol (decoder_new 8 200) (Source 1 [1]) =
     Some (small_state [(1, Received [1])] [] None (stats_of (Suc 0) 0 0 0 0) None 1, [EvRecovered 1 [1] False])"
  by code_simp

lemma corrupt_repair:
  "push_symbol (small_state [(1, Received [1])] [] None st None 1) (Repair 0 0 3 [220, 0, 220]) =
     Option.bind (recover_and_advance (small_state [(0, Missing), (1, Received [1]), (2, Missing)] [small_repair 3 [220, 0, 220]] None
       (st\<lparr>repair_symbols_received := repair_symbols_received st + 1, loss_spans := loss_spans st + 1\<rparr>) (Some 0) 2))
       (\<lambda>(d, evs). Some (d, evs))"
  by (simp add: push_eval)

lemma corrupt_advance:
  "advance_contiguous (small_state [(0, Missing), (1, Received [1]), (2, Missing)] [small_repair 3 [220, 0, 220]] None
      (stats_of (Suc 0) (Suc 0) 0 (Suc 0) 0) (Some 0) 2) =
   Some (small_state [(1, Received [1]), (2, Missing)] [small_repair 3 [220, 0, 220]] (Some 1)
      (stats_of (Suc 0) (Suc 0) 0 (Suc (Suc 0)) 0) (Some 2) 2, [EvLossSpan 0 1])"
  "advance_contiguous (small_state [(1, Received [1]), (2, Recovered [14]), (3, Received [1])] [small_repair 3 [220, 0, 220]] (Some 1)
      (stats_of (Suc (Suc 0)) (Suc 0) (Suc 0) (Suc (Suc 0)) 0) (Some 2) 3) =
   Some (small_state [(1, Received [1]), (2, Recovered [14]), (3, Received [1])] [small_repair 3 [220, 0, 220]] (Some 3)
      (stats_of (Suc (Suc 0)) (Suc 0) (Suc 0) (Suc (Suc 0)) (Suc 0)) None 3, [])"
  by code_simp+

lemma corrupt_next:
  "push_symbol (small_state [(1, Received [1]), (2, Missing)] [small_repair 3 [220, 0, 220]] (Some 1) st (Some 2) 2) (Source 3 [1]) =
     Option.bind (recover_and_advance (small_state [(1, Received [1]), (2, Missing), (3, Received [1])] [small_repair 3 [220, 0, 220]]
       (Some 1) (st\<lparr>source_symbols_received := source_symbols_received st + 1\<rparr>) (Some 2) 3))
       (\<lambda>(d, evs). Some (d, EvRecovered 3 [1] False # evs))"
  by (simp add: push_eval)

lemma corrupt_recover:
  "try_recover (small_state [(1, Received [1]), (2, Missing), (3, Received [1])] [small_repair 3 [220, 0, 220]] hc st span nw) =
     Some (small_state [(1, Received [1]), (2, Recovered [14]), (3, Received [1])] [small_repair 3 [220, 0, 220]] hc
       (st\<lparr>symbols_recovered := symbols_recovered st + 1\<rparr>) span nw, [(2, [14])])"
proof -
  have st: "store_recovered [(2, [14])] (small_state [(1, Received [1]), (2, Missing), (3, Received [1])] [small_repair 3 [220, 0, 220]] hc st span nw) =
      small_state [(1, Received [1]), (2, Recovered [14]), (3, Received [1])] [small_repair 3 [220, 0, 220]] hc
        (st\<lparr>symbols_recovered := symbols_recovered st + 1\<rparr>) span nw"
    by (simp add: store_recovered_def small_state_def)
  show ?thesis unfolding st [symmetric]
    by (rule try_recover_once) (simp_all only: corrupt_pass st, simp_all add: corrupt_done small_retained bt_weight_def)
qed

text \<open>
  C18. A payload that was never sent. All three symbols are valid for the stream that always sends \<open>[1]\<close>;
  the decoder reports source 0 lost, keeps the repair that covers it, and then recovers
  source 2 as \<open>[14]\<close>.
\<close>

theorem abandoned_source_corrupts:
  "list_all (symbol_valid (\<lambda>_. [1])) [Source 1 [1], Repair 0 0 3 [220, 0, 220], Source 3 [1]] \<and>
   map_option snd (decode_run (decoder_new 8 200) [Source 1 [1], Repair 0 0 3 [220, 0, 220], Source 3 [1]]) =
     Some [EvRecovered 1 [1] False, EvLossSpan 0 1, EvRecovered 3 [1] False, EvRecovered 2 [14] True]"
proof
  show "list_all (symbol_valid (\<lambda>_. [1])) [Source 1 [1], Repair 0 0 3 [220, 0, 220], Source 3 [1]]"
    by (simp add: repair_valid_def ranges coeffs_0 byte_at_def prefixed_def le16_def less_Suc_eq)
  have 2: "try_recover (small_state [(0, Missing), (1, Received [1]), (2, Missing)] [small_repair 3 [220, 0, 220]] hc st span nw) =
      Some (small_state [(0, Missing), (1, Received [1]), (2, Missing)] [small_repair 3 [220, 0, 220]] hc st span nw, [])" for hc st span nw
    by (subst try_recover.simps) (simp add: corrupt_pass)
  show "map_option snd (decode_run (decoder_new 8 200) [Source 1 [1], Repair 0 0 3 [220, 0, 220], Source 3 [1]]) =
     Some [EvRecovered 1 [1] False, EvLossSpan 0 1, EvRecovered 3 [1] False, EvRecovered 2 [14] True]"
    unfolding decode_run.simps corrupt_source
    by (simp add: corrupt_repair corrupt_next recover_and_advance_def corrupt_recover 2 corrupt_advance del: push_symbol.simps)
qed

text \<open>
  The byte cap can be exceeded. With a cap of 42 bytes the decoder retains 50: the entry that
  \<open>push_source\<close> is about to fill is evicted to make room for itself, and is reported as evicted although
  the same call delivers it.
\<close>

theorem byte_cap_exceeded:
  "map_option (\<lambda>(d, evs). (retained_bytes (accounting d), evs)) (decode_run (decoder_new 2 42)
     [Repair 0 5 7 [1, 2], Source 6 (replicate 10 0), Source 5 (replicate 24 0)]) =
   Some (50, [EvRecovered 6 (replicate 10 0) False, EvEvicted 5 6, EvRecovered 5 (replicate 24 0) False])"
  by code_simp

subsection \<open>The states of the healed execution\<close>

lemma heal_state:
  "dec_ok (small_state [(0, Received [1])] [] (Some 0) st None 0)"
  "dec_sound (\<lambda>_. [1]) (small_state [(0, Received [1])] [] (Some 0) st None 0)"
  by (simp_all add: dec_ok_def dec_core_def dec_sound_def small_defs accounting_def bt_wf_def)

lemma heal_valid: "repair_valid (\<lambda>_. [1]) 0 0 2 [74, 0, 74]"
  by (simp add: repair_valid_def ranges coeffs_0 byte_at_def prefixed_def le16_def less_Suc_eq)

lemma heal_advance:
  "map_option snd (advance_contiguous (small_state [(0, Received [1]), (1, Recovered [1])] [small_repair 2 [74, 0, 74]] (Some 0)
      (stats_of (Suc 0) (Suc 0) (Suc 0) (Suc 0) 0) (Some 1) 1)) = Some []"
  by code_simp

lemma heal_run:
  "map_option snd (decode_run (decoder_new 8 200) [Source 0 [1], Repair 0 0 2 [74, 0, 74]]) =
     Some [EvRecovered 0 [1] False, EvRecovered 1 [1] True]"
  unfolding decode_run.simps heal_source using heal_advance
  by (auto simp: heal_repair recover_and_advance_def heal_recover map_option_eq_Some simp del: push_symbol.simps)

section \<open>Properties\<close>

text \<open>
  Pushing a repair is always safe. In every state the decoder can be in, whatever it evicted or
  gave up before, a valid repair over a non-empty window is handled without panic and every symbol
  recovered in that call is the payload the sender's stream has at that sequence number.
\<close>

theorem repair_push_recovers_stream:
  assumes "dec_ok d" and "dec_sound src d" and "repair_valid src rs wb we p" and "we \<noteq> wb"
  shows "\<exists>d' evs. push_symbol d (Repair rs wb we p) = Some (d', evs) \<and> dec_sound src d' \<and>
    (\<forall>s q v. EvRecovered s q v \<in> set evs \<longrightarrow> q = src s)"
  using push_repair_sound [of d src rs wb we p] assms by (fastforce simp: list_all_iff)

theorem repair_push_recovers_stream_witness:
  "\<exists>d' evs. push_symbol (small_state [(0, Received [1])] [] (Some 0) (stats_of 1 0 0 0 0) None 0) (Repair 0 0 2 [74, 0, 74]) = Some (d', evs) \<and>
     dec_sound (\<lambda>_. [1]) d' \<and> (\<forall>s q v. EvRecovered s q v \<in> set evs \<longrightarrow> q = [1])"
  by (rule repair_push_recovers_stream [where src = "\<lambda>_. [1]", OF heal_state heal_valid]) simp

text \<open>
  C12. Recovery delivers the stream. When valid symbols arrive in any order, with any losses and
  duplicates, and mention no more sequence numbers than the decoder may retain, then every payload
  the decoder delivers is the stream's, up to the first loss span it declares.
\<close>

theorem decoder_recovers_stream:
  assumes "\<forall>y \<in> set ys. symbol_valid src y"
    and "card (\<Union>y \<in> set ys. symbol_seqs y) \<le> unat (min (max ms 1) 128)"
    and "decode_run (decoder_new ms mb) ys = Some (d, evs)"
    and "\<forall>a b. EvLossSpan a b \<notin> set evs"
  shows "\<forall>s p v. EvRecovered s p v \<in> set evs \<longrightarrow> p = src s"
proof -
  let ?M = "\<Union>y \<in> set ys. symbol_seqs y"
  have "finite (symbol_seqs y)" for y by (cases y) simp_all
  then have fin: "finite ?M" by blast
  have "list_all (event_sound src) evs"
    by (rule decode_run_sound [OF dec_ok_new new_sound(1,2) _ fin _ _ _ assms(3)])
      (use assms in \<open>auto simp: bt_get_def decoder_new_def list_all_iff is_loss_span_def\<close>)
  then show ?thesis by (force simp: list_all_iff)
qed

theorem decoder_recovers_stream_witness:
  "\<exists>d evs. decode_run (decoder_new 8 200) [Source 0 [1], Repair 0 0 2 [74, 0, 74]] = Some (d, evs) \<and>
     EvRecovered 1 [1] True \<in> set evs \<and> (\<forall>s p v. EvRecovered s p v \<in> set evs \<longrightarrow> p = [1])"
proof -
  obtain d where run: "decode_run (decoder_new 8 200) [Source 0 [1], Repair 0 0 2 [74, 0, 74]] =
      Some (d, [EvRecovered 0 [1] False, EvRecovered 1 [1] True])"
    using heal_run by (auto simp: map_option_eq_Some simp del: decode_run.simps)
  have "card ({0} \<union> set (seq_range 0 2)) \<le> 8" by (simp add: ranges card_insert_if)
  then have "\<forall>s p v. EvRecovered s p v \<in> set [EvRecovered 0 [1] False, EvRecovered 1 [1] True] \<longrightarrow> p = [1]"
    by (intro decoder_recovers_stream [where src = "\<lambda>_. [1]", OF _ _ run]) (use heal_valid in auto)
  then show ?thesis using run by fastforce
qed

text \<open>
  One loss per window is always repaired: when every symbol of a valid repair's window but one is
  known, the repair is not behind the decoder's horizon and there is room for the elimination, then
  the call delivers the missing symbol, with the payload of the stream.
\<close>

theorem single_loss_repaired:
  assumes "dec_ok d" and "dec_sound src d" and "repair_valid src rs wb we p"
    and "m \<in> set (seq_range wb we)" and "bt_get (sources d) m = None \<or> bt_get (sources d) m = Some Missing"
    and "\<forall>s \<in> set (seq_range wb we). s \<noteq> m \<longrightarrow> (\<exists>v. bt_get (sources d) s = Some v \<and> is_known v)"
    and "unat (we - wb) \<le> unat (max_symbols d)" and "repair_horizon_relation d wb we = Forward"
    and "(rs, wb) \<notin> seen_repair_keys d" and "elim_room d p"
  shows "\<exists>d' evs. push_symbol d (Repair rs wb we p) = Some (d', evs) \<and> EvRecovered m (src m) True \<in> set evs"
proof -
  have known: "\<And>s. s \<in> set (seq_range wb we) \<Longrightarrow> s \<noteq> m \<Longrightarrow> \<exists>v. bt_get (sources d) s = Some v \<and> is_known v"
    using assms(6) by blast
  obtain d2 ev where A: "dec_push_repair d rs wb we p = Option.bind (recover_and_advance (register_repair rs wb we p d2))
       (\<lambda>(d, evs). Some (d, ev @ evs))"
    "dec_core d2" "trimmed wb (we - wb) d d2" "length (repairs d2) \<le> length (repairs d)" "added_sources wb we d2 \<le> 1"
    "length (sources d2) + added_sources wb we d2 \<le> unat (max_symbols d)"
    by (rule single_loss_admitted [OF assms(1,4) known assms(7-10)])
  let ?d = "register_repair rs wb we p d2" and ?r = "\<lparr>rr_seq = rs, rr_base = wb, rr_end = we, rr_payload = p\<rparr>"
  have key: "(rs, wb) \<notin> seen_repair_keys d2" and lim: "max_symbols d2 = max_symbols d" "max_bytes d2 = max_bytes d"
    using assms(9) A(3) by (auto simp: trimmed_def)
  have win: "unat (we - wb) \<le> unat (max_symbols d2)" using assms(7) lim by simp
  note R = register_repair_spec [OF A(2) key win refl, of p]
  have ne: "we \<noteq> wb" using assms(4) by auto
  have lm: "length (src m) + 2 \<le> length p" using assms(3,4) by (simp add: repair_valid_def)
  then have p: "p \<noteq> []" and lenm: "length (src m) \<le> length p" by auto
  have cap: "unat (max_symbols d) \<le> 128" using assms(1) by (simp add: dec_ok_def dec_core_def)
  note ms = registered_single_missing [OF A(2) key win A(3) assms(4,5) known, of p]
  note room = registered_room [OF A(2) key win A(3,4,5) ms assms(10) p cap]
  have cov: "covered ?d" by (rule register_repair_covered [OF A(2,3) key win]) (use ne in simp)
  have sound: "dec_sound src ?d" by (rule sound_register [OF A(2,3) key win assms(2,3)])
  have pass: "one_elim_pass ?d = Some [(m, src m)]"
    by (rule one_missing_solved [OF R(1) sound cov room(1) ms, of ?r]) (simp_all add: R(4) assms(4))
  have fits: "\<not> retained ?d + length (src m) > unat (max_bytes ?d)" using room(2) lenm by (simp add: R(3) lim)
  obtain d' evs rec where T: "recover_and_advance ?d = Some (d', map (\<lambda>(s, p). EvRecovered s p True) rec @ evs)"
    "try_recover ?d = Some (fst (the (try_recover ?d)), rec)"
    by (rule recover_and_advance_spec [OF R(1), where I = "\<lambda>_. True" and G = "\<lambda>_. True"])
      (simp_all add: R(2,6) A(6) lim)
  have "(m, src m) \<in> set rec"
    using T(2) pass fits by (subst (asm) try_recover.simps) (auto simp: bind_eq_Some_conv split: if_splits)
  then show ?thesis using A(1) T(1) by force
qed

theorem single_loss_repaired_witness:
  "\<exists>d' evs. push_symbol (small_state [(0, Received [1])] [] (Some 0) (stats_of 1 0 0 0 0) None 0) (Repair 0 0 2 [74, 0, 74]) = Some (d', evs) \<and>
     EvRecovered 1 [1] True \<in> set evs"
  by (rule single_loss_repaired [where src = "\<lambda>_. [1]" and m = 1, OF heal_state heal_valid])
    (auto simp: small_defs is_known_def repair_horizon_relation_def elim_room_def eff_len_def accounting_def)

end
