(* ===== verification/Fec_Wire.thy ===== *)
theory Fec_Wire
  imports Fec_Encoder
begin

text \<open>
  The wire formats of \<open>fec_wire.rs\<close>: the v1 and v2 chunk headers that split an encoded frame into
  source payloads, the v1 and v2 symbol messages, and the control messages of the feedback channel,
  with the CRC-32 that protects the v2 formats. A parser returns \<open>Inl\<close> with the source's error. The
  properties are that encoding and parsing are inverse on the nose, that a v2 message is never read
  as v1, and that a frame is split and put together again unchanged.
\<close>

section \<open>Constants and types\<close>

definition FEC_MSG_MAX :: nat where "FEC_MSG_MAX = 1200"
definition V2_SOURCE_PAYLOAD_MAX :: nat where "V2_SOURCE_PAYLOAD_MAX = 1185"
definition V2_REPAIR_PAYLOAD_MAX :: nat where "V2_REPAIR_PAYLOAD_MAX = 1200"
definition V2_REPAIR_MSG_MAX :: nat where "V2_REPAIR_MSG_MAX = 1221"
definition ENCODED_FRAME_MAX :: nat where "ENCODED_FRAME_MAX = 4 * 1024 * 1024"
definition V2_CHUNK_COUNT_MAX :: u16 where "V2_CHUNK_COUNT_MAX = 4096"
definition CHUNK_HEADER_LEN :: nat where "CHUNK_HEADER_LEN = 13"
definition CHUNK_FRAGMENT_MAX :: nat where "CHUNK_FRAGMENT_MAX = 1182"
definition CHUNK_V2_HEADER_LEN :: nat where "CHUNK_V2_HEADER_LEN = 21"
definition CHUNK_V2_FRAGMENT_MAX :: nat where "CHUNK_V2_FRAGMENT_MAX = 1164"
definition V2_SOURCE_HEADER_LEN :: nat where "V2_SOURCE_HEADER_LEN = 15"
definition V2_REPAIR_HEADER_LEN :: nat where "V2_REPAIR_HEADER_LEN = 21"

lemmas wire_consts = FEC_MSG_MAX_def V2_SOURCE_PAYLOAD_MAX_def V2_REPAIR_PAYLOAD_MAX_def
  V2_REPAIR_MSG_MAX_def ENCODED_FRAME_MAX_def V2_CHUNK_COUNT_MAX_def CHUNK_HEADER_LEN_def
  CHUNK_FRAGMENT_MAX_def CHUNK_V2_HEADER_LEN_def CHUNK_V2_FRAGMENT_MAX_def
  V2_SOURCE_HEADER_LEN_def V2_REPAIR_HEADER_LEN_def

datatype epoch = Epoch u32

primrec epoch_get :: "epoch \<Rightarrow> u32" where
  "epoch_get (Epoch v) = v"

definition epoch_new :: "u32 \<Rightarrow> epoch option" where
  "epoch_new value = (if value \<noteq> 0 then Some (Epoch value) else None)"

datatype wire_version = WireV1 | WireV2

datatype fec_wire_error =
  Empty | UnknownKind u8 | Truncated | Oversize | InvalidEpoch | InvalidLength | CrcMismatch
| InvalidChunkCount | InvalidChunkIndex | InvalidFrameType | InvalidEncodedFrameLength

datatype v2_symbol =
  V2Source epoch u32 bytes
| V2Repair epoch u16 u32 u32 bytes

datatype parsed_symbol_msg = SymV1 symbol | SymV2 v2_symbol

fun symbol_version :: "parsed_symbol_msg \<Rightarrow> wire_version" where
  "symbol_version (SymV1 _) = WireV1"
| "symbol_version (SymV2 _) = WireV2"

record chunk_v2_header =
  c2_frame_id :: u32
  c2_chunk_index :: u16
  c2_chunk_count :: u16
  c2_frame_type_key :: bool
  c2_timestamp_us :: u32
  c2_encoded_frame_len :: u32
  c2_encoded_frame_crc32 :: u32

section \<open>CRC-32\<close>

definition crc_bit :: "u32 \<Rightarrow> u32" where
  "crc_bit crc = drop_bit 1 crc XOR (0xEDB88320 AND (0 - (crc AND 1)))"

definition crc_byte :: "u8 \<Rightarrow> u32 \<Rightarrow> u32" where
  "crc_byte b crc = (crc_bit ^^ 8) (crc XOR ucast b)"

definition ieee_crc32 :: "bytes \<Rightarrow> u32" where
  "ieee_crc32 bs = NOT (fold crc_byte bs (NOT 0))"

section \<open>v1 chunks\<close>

record chunk_header =
  ch_frame_id :: u32
  ch_chunk_index :: u16
  ch_chunk_count :: u16
  ch_frame_type_key :: bool
  ch_timestamp_us :: u32

definition bool_byte :: "bool \<Rightarrow> u8" where
  "bool_byte b = (if b then 1 else 0)"

definition encode_chunk :: "u32 \<Rightarrow> u16 \<Rightarrow> u16 \<Rightarrow> bool \<Rightarrow> u32 \<Rightarrow> bytes \<Rightarrow> bytes" where
  "encode_chunk frame_id chunk_index chunk_count frame_type_key timestamp_us fragment =
     le32 frame_id @ le16 chunk_index @ le16 chunk_count @ [bool_byte frame_type_key] @
     le32 timestamp_us @ fragment"

definition chunk_frame :: "u32 \<Rightarrow> bool \<Rightarrow> u32 \<Rightarrow> bytes \<Rightarrow> bytes list" where
  "chunk_frame frame_id frame_type_key timestamp_us data =
     (if data = [] then [encode_chunk frame_id 0 1 frame_type_key timestamp_us []]
      else let chunk_count = div_ceil (length data) CHUNK_FRAGMENT_MAX
           in map (\<lambda>(i, fragment). encode_chunk frame_id (word_of_nat i) (word_of_nat chunk_count)
                      frame_type_key timestamp_us fragment)
                (enumerate 0 (chunks CHUNK_FRAGMENT_MAX data)))"

text \<open>\<open>from_le_bytes(s.try_into().ok()?)\<close>.\<close>

definition get16 :: "bytes \<Rightarrow> u16 option" where
  "get16 bs = (case rd16 () bs of Inl _ \<Rightarrow> None | Inr w \<Rightarrow> Some w)"

definition get32 :: "bytes \<Rightarrow> u32 option" where
  "get32 bs = (case rd32 () bs of Inl _ \<Rightarrow> None | Inr w \<Rightarrow> Some w)"

definition parse_chunk_header :: "bytes \<Rightarrow> (chunk_header \<times> bytes) option" where
  "parse_chunk_header buf =
     (if length buf < CHUNK_HEADER_LEN then None
      else Option.bind (get32 (subslice 0 4 buf)) (\<lambda>frame_id.
           Option.bind (get16 (subslice 4 6 buf)) (\<lambda>chunk_index.
           Option.bind (get16 (subslice 6 8 buf)) (\<lambda>chunk_count.
           Option.bind (get32 (subslice 9 13 buf)) (\<lambda>timestamp_us.
             Some (\<lparr>ch_frame_id = frame_id, ch_chunk_index = chunk_index, ch_chunk_count = chunk_count,
                    ch_frame_type_key = (buf ! 8 \<noteq> 0), ch_timestamp_us = timestamp_us\<rparr>,
                   drop CHUNK_HEADER_LEN buf))))))"

section \<open>v2 chunks\<close>

definition validate_chunk_v2 :: "chunk_v2_header \<Rightarrow> bytes \<Rightarrow> fec_wire_error + unit" where
  "validate_chunk_v2 header fragment =
     (if c2_chunk_count header = 0 \<or> c2_chunk_count header > V2_CHUNK_COUNT_MAX then Inl InvalidChunkCount
      else if c2_chunk_index header \<ge> c2_chunk_count header then Inl InvalidChunkIndex
      else if unat (c2_encoded_frame_len header) > ENCODED_FRAME_MAX then Inl InvalidEncodedFrameLength
      else if length fragment > CHUNK_V2_FRAGMENT_MAX then Inl Oversize
      else Inr ())"

definition encode_chunk_v2 :: "chunk_v2_header \<Rightarrow> bytes \<Rightarrow> fec_wire_error + bytes" where
  "encode_chunk_v2 header fragment =
     sbind (validate_chunk_v2 header fragment) (\<lambda>_.
       Inr (le32 (c2_frame_id header) @ le16 (c2_chunk_index header) @ le16 (c2_chunk_count header) @
            [bool_byte (c2_frame_type_key header)] @ le32 (c2_timestamp_us header) @
            le32 (c2_encoded_frame_len header) @ le32 (c2_encoded_frame_crc32 header) @ fragment))"

text \<open>\<open>.expect(..)\<close> panics on an error: \<open>None\<close>.\<close>

definition expect :: "'e + 'a \<Rightarrow> 'a option" where
  "expect r = (case r of Inl _ \<Rightarrow> None | Inr a \<Rightarrow> Some a)"

fun all_some :: "'a option list \<Rightarrow> 'a list option" where
  "all_some [] = Some []"
| "all_some (x # xs) = Option.bind x (\<lambda>a. map_option (Cons a) (all_some xs))"

text \<open>\<open>None\<close> is a panic; \<open>Some (Inl e)\<close> an error returned to the caller.\<close>

definition chunk_frame_v2 :: "u32 \<Rightarrow> bool \<Rightarrow> u32 \<Rightarrow> bytes \<Rightarrow> (fec_wire_error + bytes list) option" where
  "chunk_frame_v2 frame_id frame_type_key timestamp_us data =
     (if length data > ENCODED_FRAME_MAX then Some (Inl InvalidEncodedFrameLength)
      else let chunk_count = div_ceil (max (length data) 1) CHUNK_V2_FRAGMENT_MAX
      in if chunk_count > unat V2_CHUNK_COUNT_MAX then Some (Inl InvalidChunkCount)
      else let crc = ieee_crc32 data;
               fragments = (if data = [] then [[]] else chunks CHUNK_V2_FRAGMENT_MAX data)
      in map_option Inr (all_some (map (\<lambda>(index, fragment).
           expect (encode_chunk_v2
             \<lparr>c2_frame_id = frame_id, c2_chunk_index = word_of_nat index, c2_chunk_count = word_of_nat chunk_count,
              c2_frame_type_key = frame_type_key, c2_timestamp_us = timestamp_us,
              c2_encoded_frame_len = word_of_nat (length data), c2_encoded_frame_crc32 = crc\<rparr> fragment))
           (enumerate 0 fragments))))"

definition parse_chunk_v2 :: "bytes \<Rightarrow> fec_wire_error + (chunk_v2_header \<times> bytes)" where
  "parse_chunk_v2 buf =
     (if length buf < CHUNK_V2_HEADER_LEN then Inl Truncated
      else let frame_type = buf ! 8 in
      sbind (rd32 Truncated (subslice 0 4 buf)) (\<lambda>frame_id.
      sbind (rd16 Truncated (subslice 4 6 buf)) (\<lambda>chunk_index.
      sbind (rd16 Truncated (subslice 6 8 buf)) (\<lambda>chunk_count.
      sbind (rd32 Truncated (subslice 9 13 buf)) (\<lambda>timestamp_us.
      sbind (rd32 Truncated (subslice 13 17 buf)) (\<lambda>encoded_frame_len.
      sbind (rd32 Truncated (subslice 17 21 buf)) (\<lambda>encoded_frame_crc32.
        let header = \<lparr>c2_frame_id = frame_id, c2_chunk_index = chunk_index, c2_chunk_count = chunk_count,
              c2_frame_type_key = (frame_type = 1), c2_timestamp_us = timestamp_us,
              c2_encoded_frame_len = encoded_frame_len, c2_encoded_frame_crc32 = encoded_frame_crc32\<rparr>
        in if frame_type > 1 then Inl InvalidFrameType
           else sbind (validate_chunk_v2 header (drop CHUNK_V2_HEADER_LEN buf)) (\<lambda>_.
             Inr (header, drop CHUNK_V2_HEADER_LEN buf)))))))))"

definition validate_encoded_frame_v2 :: "chunk_v2_header \<Rightarrow> bytes \<Rightarrow> fec_wire_error + unit" where
  "validate_encoded_frame_v2 header encoded_frame =
     (if length encoded_frame \<noteq> unat (c2_encoded_frame_len header) then Inl InvalidLength
      else if ieee_crc32 encoded_frame \<noteq> c2_encoded_frame_crc32 header then Inl CrcMismatch
      else Inr ())"

section \<open>Symbol messages\<close>

fun encode_symbol_msg :: "symbol \<Rightarrow> bytes" where
  "encode_symbol_msg (Source seq payload) = 0 # le32 seq @ payload"
| "encode_symbol_msg (Repair repair_seq window_base window_end payload) =
     1 # le16 repair_seq @ le32 window_base @ le32 window_end @ payload"

definition encode_symbol_msg_v2 :: "v2_symbol \<Rightarrow> fec_wire_error + bytes" where
  "encode_symbol_msg_v2 y =
     (let (kind, ep, repair_seq, window_base, window_end, seq, payload) =
            (case y of
               V2Source ep seq payload \<Rightarrow> (2, ep, 0, 0, 0, seq, payload)
             | V2Repair ep repair_seq window_base window_end payload \<Rightarrow>
                 (3, ep, repair_seq, window_base, window_end, 0, payload));
          max_len = (if kind = (2 :: u8) then V2_SOURCE_PAYLOAD_MAX else V2_REPAIR_PAYLOAD_MAX)
      in if length payload > max_len then Inl Oversize
         else Inr (kind # le32 (epoch_get ep) @
           (if kind = 2 then le32 seq else le16 repair_seq @ le32 window_base @ le32 window_end) @
           le16 (word_of_nat (length payload)) @ le32 (ieee_crc32 payload) @ payload))"

definition parse_v2_source :: "bytes \<Rightarrow> fec_wire_error + v2_symbol" where
  "parse_v2_source buf =
     (if length buf < V2_SOURCE_HEADER_LEN then Inl Truncated
      else if length buf > FEC_MSG_MAX then Inl Oversize
      else sbind (rd32 Truncated (subslice 1 5 buf)) (\<lambda>e.
           sbind (ok_or (epoch_new e) InvalidEpoch) (\<lambda>ep.
           sbind (rd32 Truncated (subslice 5 9 buf)) (\<lambda>seq.
           sbind (rd16 Truncated (subslice 9 11 buf)) (\<lambda>len.
             if unat len > V2_SOURCE_PAYLOAD_MAX \<or> length buf \<noteq> V2_SOURCE_HEADER_LEN + unat len
             then Inl InvalidLength
             else let payload = drop V2_SOURCE_HEADER_LEN buf
             in sbind (rd32 Truncated (subslice 11 15 buf)) (\<lambda>crc.
                  if ieee_crc32 payload \<noteq> crc then Inl CrcMismatch
                  else Inr (V2Source ep seq payload)))))))"

definition parse_v2_repair :: "bytes \<Rightarrow> fec_wire_error + v2_symbol" where
  "parse_v2_repair buf =
     (if length buf < V2_REPAIR_HEADER_LEN then Inl Truncated
      else if length buf > V2_REPAIR_MSG_MAX then Inl Oversize
      else sbind (rd32 Truncated (subslice 1 5 buf)) (\<lambda>e.
           sbind (ok_or (epoch_new e) InvalidEpoch) (\<lambda>ep.
           sbind (rd16 Truncated (subslice 5 7 buf)) (\<lambda>repair_seq.
           sbind (rd32 Truncated (subslice 7 11 buf)) (\<lambda>window_base.
           sbind (rd32 Truncated (subslice 11 15 buf)) (\<lambda>window_end.
           sbind (rd16 Truncated (subslice 15 17 buf)) (\<lambda>len.
             if unat len > V2_REPAIR_PAYLOAD_MAX \<or> length buf \<noteq> V2_REPAIR_HEADER_LEN + unat len
             then Inl InvalidLength
             else let payload = drop V2_REPAIR_HEADER_LEN buf
             in sbind (rd32 Truncated (subslice 17 21 buf)) (\<lambda>crc.
                  if ieee_crc32 payload \<noteq> crc then Inl CrcMismatch
                  else Inr (V2Repair ep repair_seq window_base window_end payload)))))))))"

definition parse_v1_source :: "bytes \<Rightarrow> fec_wire_error + symbol" where
  "parse_v1_source buf =
     (if length buf < 5 then Inl Truncated
      else sbind (rd32 Truncated (subslice 1 5 buf)) (\<lambda>seq. Inr (Source seq (drop 5 buf))))"

definition parse_v1_repair :: "bytes \<Rightarrow> fec_wire_error + symbol" where
  "parse_v1_repair buf =
     (if length buf < 11 then Inl Truncated
      else sbind (rd16 Truncated (subslice 1 3 buf)) (\<lambda>repair_seq.
           sbind (rd32 Truncated (subslice 3 7 buf)) (\<lambda>window_base.
           sbind (rd32 Truncated (subslice 7 11 buf)) (\<lambda>window_end.
             Inr (Repair repair_seq window_base window_end (drop 11 buf))))))"

definition parse_symbol_msg_versioned :: "bytes \<Rightarrow> fec_wire_error + parsed_symbol_msg" where
  "parse_symbol_msg_versioned buf =
     (case buf of [] \<Rightarrow> Inl Empty
      | kind # _ \<Rightarrow>
          if kind = 0 then map_sum id SymV1 (parse_v1_source buf)
          else if kind = 1 then map_sum id SymV1 (parse_v1_repair buf)
          else if kind = 2 then map_sum id SymV2 (parse_v2_source buf)
          else if kind = 3 then map_sum id SymV2 (parse_v2_repair buf)
          else Inl (UnknownKind kind))"

definition parse_symbol_msg :: "bytes \<Rightarrow> symbol option" where
  "parse_symbol_msg buf =
     (case parse_symbol_msg_versioned buf of Inr (SymV1 y) \<Rightarrow> Some y | _ \<Rightarrow> None)"

section \<open>Control messages\<close>

datatype ack_msg = Subscribe | NeedsIdr | Ack u32

datatype v2_control_msg =
  V2Subscribe epoch
| V2Ack epoch u32
| V2NeedsIdr epoch u8

datatype parsed_control_msg = CtlV1 ack_msg | CtlV2 v2_control_msg

fun control_version :: "parsed_control_msg \<Rightarrow> wire_version" where
  "control_version (CtlV1 _) = WireV1"
| "control_version (CtlV2 _) = WireV2"

fun encode_ack_msg :: "ack_msg \<Rightarrow> bytes" where
  "encode_ack_msg Subscribe = [0x01]"
| "encode_ack_msg NeedsIdr = [0x00]"
| "encode_ack_msg (Ack seq) = le32 seq"

fun encode_control_msg_v2 :: "v2_control_msg \<Rightarrow> bytes" where
  "encode_control_msg_v2 (V2Subscribe ep) = 0x82 # le32 (epoch_get ep)"
| "encode_control_msg_v2 (V2Ack ep highest_seq) = 0x81 # le32 (epoch_get ep) @ le32 highest_seq"
| "encode_control_msg_v2 (V2NeedsIdr ep reason) = 0x80 # le32 (epoch_get ep) @ [reason]"

text \<open>The length test shared by the three v2 arms: too short is \<open>Truncated\<close>, too long \<open>InvalidLength\<close>.\<close>

definition exact_len :: "nat \<Rightarrow> bytes \<Rightarrow> fec_wire_error + unit" where
  "exact_len n bs = (if length bs < n then Inl Truncated else if length bs > n then Inl InvalidLength else Inr ())"

definition parse_epoch :: "bytes \<Rightarrow> fec_wire_error + epoch" where
  "parse_epoch bs = sbind (rd32 Truncated bs) (\<lambda>v. ok_or (epoch_new v) InvalidEpoch)"

definition parse_control_msg :: "bytes \<Rightarrow> fec_wire_error + parsed_control_msg" where
  "parse_control_msg buf =
     (case buf of
        [] \<Rightarrow> Inl Empty
      | kind # rest \<Rightarrow>
          if kind = 0x80 then
            sbind (exact_len 5 rest) (\<lambda>_. sbind (parse_epoch (take 4 rest)) (\<lambda>ep.
              Inr (CtlV2 (V2NeedsIdr ep (rest ! 4)))))
          else if kind = 0x81 then
            sbind (exact_len 8 rest) (\<lambda>_. sbind (parse_epoch (take 4 rest)) (\<lambda>ep.
              sbind (rd32 Truncated (drop 4 rest)) (\<lambda>h. Inr (CtlV2 (V2Ack ep h)))))
          else if kind = 0x82 then
            sbind (exact_len 4 rest) (\<lambda>_. sbind (parse_epoch rest) (\<lambda>ep. Inr (CtlV2 (V2Subscribe ep))))
          else if buf = [0x00] then Inr (CtlV1 NeedsIdr)
          else if buf = [0x01] then Inr (CtlV1 Subscribe)
          else (case buf of [a, b, c, d] \<Rightarrow> Inr (CtlV1 (Ack (u32_of a b c d))) | _ \<Rightarrow> Inl (UnknownKind kind)))"

definition parse_ack_msg :: "bytes \<Rightarrow> ack_msg option" where
  "parse_ack_msg buf = (case parse_control_msg buf of Inr (CtlV1 msg) \<Rightarrow> Some msg | _ \<Rightarrow> None)"

section \<open>Slices of concatenations\<close>

lemma subslice_Cons [simp]: "0 < a \<Longrightarrow> subslice a b (x # xs) = subslice (a - 1) (b - 1) xs"
  by (cases a) (auto simp: subslice_def)

lemma subslice_whole [simp]: "length xs = n \<Longrightarrow> subslice 0 n xs = xs"
  by (auto simp: subslice_def)

lemma split_at: "a \<le> b \<Longrightarrow> drop a xs = subslice a b xs @ drop b xs"
  by (simp add: subslice_drop)

lemma nth_as_slice: "i < length xs \<Longrightarrow> drop i xs = xs ! i # drop (Suc i) xs"
  by (rule Cons_nth_drop_Suc [symmetric])

lemma epoch_new_eq: "epoch_new v = Some ep \<longleftrightarrow> v \<noteq> 0 \<and> ep = Epoch v"
  by (auto simp: epoch_new_def)

lemma epoch_new_get [simp]: "epoch_get ep \<noteq> 0 \<Longrightarrow> epoch_new (epoch_get ep) = Some ep"
  by (cases ep) (simp add: epoch_new_def)

lemma le16_inj [simp]: "le16 a = le16 b \<longleftrightarrow> a = b"
  by (auto dest: arg_cong [where f = "rd16 ()"])

lemma le32_inj [simp]: "le32 a = le32 b \<longleftrightarrow> a = b"
  by (auto dest: arg_cong [where f = "rd32 ()"])

section \<open>Symbol messages: parsing is the inverse of encoding\<close>

definition valid_v2 :: "v2_symbol \<Rightarrow> bool" where
  "valid_v2 y = (case y of
     V2Source ep s p \<Rightarrow> epoch_get ep \<noteq> 0 \<and> length p \<le> V2_SOURCE_PAYLOAD_MAX
   | V2Repair ep rs wb we p \<Rightarrow> epoch_get ep \<noteq> 0 \<and> length p \<le> V2_REPAIR_PAYLOAD_MAX)"

lemma encode_v2_simps:
  "encode_symbol_msg_v2 (V2Source ep s p) =
     (if length p > 1185 then Inl Oversize
      else Inr (2 # le32 (epoch_get ep) @ le32 s @ le16 (word_of_nat (length p)) @ le32 (ieee_crc32 p) @ p))"
  "encode_symbol_msg_v2 (V2Repair ep rs wb we p) =
     (if length p > 1200 then Inl Oversize
      else Inr (3 # le32 (epoch_get ep) @ le16 rs @ le32 wb @ le32 we @ le16 (word_of_nat (length p)) @
        le32 (ieee_crc32 p) @ p))"
  by (simp_all add: encode_symbol_msg_v2_def wire_consts)

lemma parse_v2_source_encoded:
  assumes "epoch_get ep \<noteq> 0" "length p \<le> 1185"
  shows "parse_v2_source (2 # le32 (epoch_get ep) @ le32 s @ le16 (word_of_nat (length p)) @ le32 (ieee_crc32 p) @ p)
    = Inr (V2Source ep s p)"
  using assms by (simp add: parse_v2_source_def wire_consts unat_of_nat)

lemma parse_v2_repair_encoded:
  assumes "epoch_get ep \<noteq> 0" "length p \<le> 1200"
  shows "parse_v2_repair (3 # le32 (epoch_get ep) @ le16 rs @ le32 wb @ le32 we @ le16 (word_of_nat (length p)) @
      le32 (ieee_crc32 p) @ p) = Inr (V2Repair ep rs wb we p)"
  using assms by (simp add: parse_v2_repair_def wire_consts unat_of_nat)

lemma parse_v2_source_Inr:
  assumes "parse_v2_source buf = Inr y"
  shows "valid_v2 y \<and> encode_symbol_msg_v2 y = Inr (2 # tl buf)"
proof -
  obtain e s len crc where len: "15 \<le> length buf" "unat len \<le> 1185" "length buf = 15 + unat len"
    and f: "subslice 1 5 buf = le32 e" "e \<noteq> 0" "subslice 5 9 buf = le32 s" "subslice 9 11 buf = le16 len"
      "subslice 11 15 buf = le32 (ieee_crc32 (drop 15 buf))" and y: "y = V2Source (Epoch e) s (drop 15 buf)"
    using assms
    by (auto simp: parse_v2_source_def wire_consts sbind_eq_Inr rd32_eq_Inr rd16_eq_Inr ok_or_eq_Inr epoch_new_eq
        Let_def not_less split: if_splits)
  have "tl buf = subslice 1 5 buf @ subslice 5 9 buf @ subslice 9 11 buf @ subslice 11 15 buf @ drop 15 buf"
    using split_at [of 1 5 buf] split_at [of 5 9 buf] split_at [of 9 11 buf] split_at [of 11 15 buf]
    by (simp add: drop_Suc)
  moreover have "word_of_nat (length (drop 15 buf)) = len" using len by simp
  ultimately show ?thesis using len f by (simp add: y encode_v2_simps valid_v2_def wire_consts)
qed

lemma parse_v2_repair_Inr:
  assumes "parse_v2_repair buf = Inr y"
  shows "valid_v2 y \<and> encode_symbol_msg_v2 y = Inr (3 # tl buf)"
proof -
  obtain e rs wb we len where len: "21 \<le> length buf" "unat len \<le> 1200" "length buf = 21 + unat len"
    and f: "subslice 1 5 buf = le32 e" "e \<noteq> 0" "subslice 5 7 buf = le16 rs" "subslice 7 11 buf = le32 wb"
      "subslice 11 15 buf = le32 we" "subslice 15 17 buf = le16 len"
      "subslice 17 21 buf = le32 (ieee_crc32 (drop 21 buf))" and y: "y = V2Repair (Epoch e) rs wb we (drop 21 buf)"
    using assms
    by (auto simp: parse_v2_repair_def wire_consts sbind_eq_Inr rd32_eq_Inr rd16_eq_Inr ok_or_eq_Inr epoch_new_eq
        Let_def not_less split: if_splits)
  have "tl buf = subslice 1 5 buf @ subslice 5 7 buf @ subslice 7 11 buf @ subslice 11 15 buf @ subslice 15 17 buf @
      subslice 17 21 buf @ drop 21 buf"
    using split_at [of 1 5 buf] split_at [of 5 7 buf] split_at [of 7 11 buf] split_at [of 11 15 buf]
      split_at [of 15 17 buf] split_at [of 17 21 buf] by (simp add: drop_Suc)
  moreover have "word_of_nat (length (drop 21 buf)) = len" using len by simp
  ultimately show ?thesis using len f by (simp add: y encode_v2_simps valid_v2_def wire_consts)
qed

lemma map_sum_eq_Inr: "map_sum id f x = Inr y \<longleftrightarrow> (\<exists>z. x = Inr z \<and> y = f z)"
  by (cases x) auto

lemma parse_v1_source_Inr: "parse_v1_source buf = Inr y \<Longrightarrow> encode_symbol_msg y = 0 # tl buf"
proof -
  assume "parse_v1_source buf = Inr y"
  then obtain s where "y = Source s (drop 5 buf)" "subslice 1 5 buf = le32 s"
    by (auto simp: parse_v1_source_def sbind_eq_Inr rd32_eq_Inr split: if_splits)
  then show ?thesis using split_at [of 1 5 buf] by (simp add: drop_Suc)
qed

lemma parse_v1_repair_Inr: "parse_v1_repair buf = Inr y \<Longrightarrow> encode_symbol_msg y = 1 # tl buf"
proof -
  assume "parse_v1_repair buf = Inr y"
  then obtain rs wb we where "y = Repair rs wb we (drop 11 buf)" "subslice 1 3 buf = le16 rs"
    "subslice 3 7 buf = le32 wb" "subslice 7 11 buf = le32 we"
    by (auto simp: parse_v1_repair_def sbind_eq_Inr rd32_eq_Inr rd16_eq_Inr split: if_splits)
  then show ?thesis
    using split_at [of 1 3 buf] split_at [of 3 7 buf] split_at [of 7 11 buf] by (simp add: drop_Suc)
qed

lemma parse_encode_v1: "parse_symbol_msg_versioned (encode_symbol_msg y) = Inr (SymV1 y)"
  by (cases y) (simp_all add: parse_symbol_msg_versioned_def parse_v1_source_def parse_v1_repair_def)

section \<open>CRC-32 detects every change of a single byte\<close>

lemma crc_bit_eq: "crc_bit c = drop_bit 1 c XOR (if bit c 0 then 0xEDB88320 else 0)"
proof -
  have "c AND 1 = (if bit c 0 then 1 else 0)"
    by (simp add: bit_0 and_one_eq odd_iff_mod_2_eq_one)
  then show ?thesis by (simp add: crc_bit_def)
qed

lemma crc_bit_xor: "crc_bit (a XOR b) = crc_bit a XOR crc_bit b"
  by (auto simp: crc_bit_eq bit_xor_iff xor.assoc xor.left_commute xor.commute)

text \<open>The polynomial has its top bit set and shifting clears it, so no non-zero state maps to zero.\<close>

lemma crc_bit_zero: "crc_bit c = 0 \<Longrightarrow> c = 0"
proof -
  assume z: "crc_bit c = 0"
  have top: "bit (0xEDB88320 :: u32) 31" by (simp add: bit_numeral_rec)
  have nb: "\<not> bit c 0"
  proof
    assume b: "bit c 0"
    have "\<not> bit c 32" using bit_imp_le_length [of c 32] by auto
    then have "bit (crc_bit c) 31" using b top by (simp add: crc_bit_eq bit_xor_iff bit_drop_bit_eq)
    then show False using z by simp
  qed
  then have "drop_bit 1 c = 0" using z by (simp add: crc_bit_eq)
  moreover have "bit c (Suc n) \<longleftrightarrow> bit (drop_bit 1 c) n" for n by (simp add: bit_drop_bit_eq)
  ultimately have "\<not> bit c (Suc n)" for n by simp
  then have "\<not> bit c n" for n using nb by (cases n) auto
  then show "c = 0" by (intro bit_word_eqI) simp
qed

lemma inj_crc_bit: "crc_bit a = crc_bit b \<Longrightarrow> a = b"
  using crc_bit_zero [of "a XOR b"] by (simp add: crc_bit_xor)

lemma inj_crc_bit_pow: "(crc_bit ^^ n) a = (crc_bit ^^ n) b \<Longrightarrow> a = b"
  by (induction n arbitrary: a b) (auto dest: inj_crc_bit)

lemma inj_crc_byte_state: "crc_byte x a = crc_byte x b \<Longrightarrow> a = b"
  by (auto simp: crc_byte_def dest: inj_crc_bit_pow)

lemma inj_crc_byte: "crc_byte x a = crc_byte y a \<Longrightarrow> x = y"
proof -
  assume "crc_byte x a = crc_byte y a"
  then have "(ucast x :: u32) = ucast y" by (auto simp: crc_byte_def dest: inj_crc_bit_pow)
  then have "unat (ucast x :: u32) = unat (ucast y :: u32)" by simp
  then show ?thesis using unat_lt_u8 [of x] unat_lt_u8 [of y] by (simp add: unsigned_ucast_eq take_bit_nat_eq_self word_unat_eq_iff)
qed

lemma inj_crc_fold: "fold crc_byte bs a = fold crc_byte bs b \<Longrightarrow> a = b"
  by (induction bs arbitrary: a b) (auto dest: inj_crc_byte_state)

lemma crc_single_byte: "ieee_crc32 (us @ x # vs) = ieee_crc32 (us @ y # vs) \<longleftrightarrow> x = y"
proof
  assume "ieee_crc32 (us @ x # vs) = ieee_crc32 (us @ y # vs)"
  then have "crc_byte x (fold crc_byte us (NOT 0)) = crc_byte y (fold crc_byte us (NOT 0))"
    by (auto simp: ieee_crc32_def dest: inj_crc_fold)
  then show "x = y" by (rule inj_crc_byte)
qed simp

section \<open>Chunks\<close>

lemma bool_byte_simps [simp]: "bool_byte b = 1 \<longleftrightarrow> b" "bool_byte b = 0 \<longleftrightarrow> \<not> b" "\<not> 1 < bool_byte b"
  by (simp_all add: bool_byte_def)

lemma parse_encode_chunk:
  "parse_chunk_header (encode_chunk fid i n k ts frag) =
     Some (\<lparr>ch_frame_id = fid, ch_chunk_index = i, ch_chunk_count = n, ch_frame_type_key = k, ch_timestamp_us = ts\<rparr>, frag)"
proof -
  have "(le32 fid @ le16 i @ le16 n @ bool_byte k # le32 ts @ frag) ! 8 = bool_byte k"
    by (simp add: nth_append)
  then show ?thesis
    by (simp add: parse_chunk_header_def encode_chunk_def CHUNK_HEADER_LEN_def get16_def get32_def)
qed

lemma chunk_frame_nonempty:
  assumes "data \<noteq> []"
  shows "chunk_frame fid k ts data = map (\<lambda>i. encode_chunk fid (word_of_nat i) (word_of_nat (div_ceil (length data) 1182)) k ts
     (chunks 1182 data ! i)) [0..<length (chunks 1182 data)]"
  using assms by (auto simp: chunk_frame_def CHUNK_FRAGMENT_MAX_def Let_def nth_enumerate_eq intro!: nth_equalityI)

lemma sbind_validate:
  "encode_chunk_v2 h frag = Inr buf \<longleftrightarrow> validate_chunk_v2 h frag = Inr () \<and>
     buf = le32 (c2_frame_id h) @ le16 (c2_chunk_index h) @ le16 (c2_chunk_count h) @ [bool_byte (c2_frame_type_key h)] @
       le32 (c2_timestamp_us h) @ le32 (c2_encoded_frame_len h) @ le32 (c2_encoded_frame_crc32 h) @ frag"
  by (auto simp: encode_chunk_v2_def sbind_eq_Inr)

lemma parse_encode_chunk_v2:
  assumes "encode_chunk_v2 h frag = Inr buf"
  shows "parse_chunk_v2 buf = Inr (h, frag)" "length buf = 21 + length frag" "length frag \<le> 1164"
proof -
  let ?b = "le32 (c2_frame_id h) @ le16 (c2_chunk_index h) @ le16 (c2_chunk_count h) @ bool_byte (c2_frame_type_key h) #
       le32 (c2_timestamp_us h) @ le32 (c2_encoded_frame_len h) @ le32 (c2_encoded_frame_crc32 h) @ frag"
  have v: "validate_chunk_v2 h frag = Inr ()" and buf: "buf = ?b" using assms by (simp_all add: sbind_validate)
  have "?b ! 8 = bool_byte (c2_frame_type_key h)" by (simp add: nth_append)
  then show "parse_chunk_v2 buf = Inr (h, frag)"
    using v by (cases h) (simp add: parse_chunk_v2_def buf CHUNK_V2_HEADER_LEN_def Let_def)
  show "length buf = 21 + length frag" by (simp add: buf)
  show "length frag \<le> 1164" using v by (simp add: validate_chunk_v2_def wire_consts not_less split: if_splits)
qed

lemma encode_parse_chunk_v2:
  assumes "parse_chunk_v2 buf = Inr (h, frag)"
  shows "encode_chunk_v2 h frag = Inr buf"
proof -
  have len: "21 \<le> length buf" using assms by (auto simp: parse_chunk_v2_def CHUNK_V2_HEADER_LEN_def not_less split: if_splits)
  have f: "subslice 0 4 buf = le32 (c2_frame_id h)" "subslice 4 6 buf = le16 (c2_chunk_index h)"
      "subslice 6 8 buf = le16 (c2_chunk_count h)" "subslice 9 13 buf = le32 (c2_timestamp_us h)"
      "subslice 13 17 buf = le32 (c2_encoded_frame_len h)" "subslice 17 21 buf = le32 (c2_encoded_frame_crc32 h)"
    and k: "c2_frame_type_key h = (buf ! 8 = 1)" "\<not> 1 < buf ! 8" and v: "validate_chunk_v2 h (drop 21 buf) = Inr ()"
    and frag: "frag = drop 21 buf"
    using assms by (auto simp: parse_chunk_v2_def CHUNK_V2_HEADER_LEN_def sbind_eq_Inr rd32_eq_Inr rd16_eq_Inr Let_def split: if_splits)
  have "unat (buf ! 8) < 2" using k(2) by (simp add: word_less_nat_alt)
  then have "buf ! 8 = 0 \<or> buf ! 8 = 1" by (auto simp: word_unat_eq_iff less_Suc_eq numeral_2_eq_2)
  then have "buf ! 8 = bool_byte (buf ! 8 = 1)" by (auto simp: bool_byte_def)
  then have "drop 8 buf = bool_byte (c2_frame_type_key h) # drop 9 buf"
    using nth_as_slice [of 8 buf] len k(1) by simp
  then have "buf = subslice 0 4 buf @ subslice 4 6 buf @ subslice 6 8 buf @ bool_byte (c2_frame_type_key h) # subslice 9 13 buf @
      subslice 13 17 buf @ subslice 17 21 buf @ drop 21 buf"
    using split_at [of 0 4 buf] split_at [of 4 6 buf] split_at [of 6 8 buf] split_at [of 9 13 buf]
      split_at [of 13 17 buf] split_at [of 17 21 buf] by simp
  then show ?thesis using v f by (simp add: sbind_validate frag)
qed

text \<open>The fragments of a frame, and the header of each of its chunks.\<close>

definition fragments_v2 :: "bytes \<Rightarrow> bytes list" where
  "fragments_v2 data = (if data = [] then [[]] else chunks 1164 data)"

definition header_v2 :: "u32 \<Rightarrow> bool \<Rightarrow> u32 \<Rightarrow> bytes \<Rightarrow> nat \<Rightarrow> chunk_v2_header" where
  "header_v2 fid k ts data i =
     \<lparr>c2_frame_id = fid, c2_chunk_index = word_of_nat i, c2_chunk_count = word_of_nat (length (fragments_v2 data)),
      c2_frame_type_key = k, c2_timestamp_us = ts, c2_encoded_frame_len = word_of_nat (length data),
      c2_encoded_frame_crc32 = ieee_crc32 data\<rparr>"

lemma fragments_v2_facts:
  "concat (fragments_v2 data) = data" "length (fragments_v2 data) = div_ceil (max (length data) 1) 1164"
  "i < length (fragments_v2 data) \<Longrightarrow> length (fragments_v2 data ! i) \<le> 1164"
proof -
  show "concat (fragments_v2 data) = data" by (simp add: fragments_v2_def concat_chunks)
  have "max (length data) 1 = length data" if "data \<noteq> []" using that by (cases data) auto
  then show "length (fragments_v2 data) = div_ceil (max (length data) 1) 1164"
    by (auto simp: fragments_v2_def length_chunks div_ceil_def)
  show "i < length (fragments_v2 data) \<Longrightarrow> length (fragments_v2 data ! i) \<le> 1164"
    by (auto simp: fragments_v2_def chunks_nth split: if_splits)
qed

lemma fragment_count: "length data \<le> 4194304 \<Longrightarrow> 0 < length (fragments_v2 data) \<and> length (fragments_v2 data) \<le> 3604"
  unfolding fragments_v2_facts(2) div_ceil_def by auto

lemma all_some_map: "(\<And>x. x \<in> set xs \<Longrightarrow> f x = Some (g x)) \<Longrightarrow> all_some (map f xs) = Some (map g xs)"
  by (induction xs) auto

lemma encode_chunk_header_v2:
  assumes "length data \<le> 4194304" "i < length (fragments_v2 data)"
  shows "\<exists>buf. encode_chunk_v2 (header_v2 fid k ts data i) (fragments_v2 data ! i) = Inr buf"
proof -
  have "unat (word_of_nat i :: u16) = i" "unat (word_of_nat (length (fragments_v2 data)) :: u16) = length (fragments_v2 data)"
    "unat (word_of_nat (length data) :: u32) = length data"
    using assms fragment_count [OF assms(1)] by (simp_all add: unat_of_nat)
  then have "validate_chunk_v2 (header_v2 fid k ts data i) (fragments_v2 data ! i) = Inr ()"
    using assms fragment_count [OF assms(1)] fragments_v2_facts(3) [OF assms(2)]
    by (auto simp: validate_chunk_v2_def header_v2_def wire_consts word_less_nat_alt word_le_nat_alt simp flip: unat_eq_0)
  then show ?thesis by (simp add: encode_chunk_v2_def)
qed

lemma chunk_frame_v2_eq:
  assumes "length data \<le> 4194304"
  shows "\<exists>bufs. chunk_frame_v2 fid k ts data = Some (Inr bufs) \<and> length bufs = length (fragments_v2 data) \<and>
    (\<forall>i < length bufs. encode_chunk_v2 (header_v2 fid k ts data i) (fragments_v2 data ! i) = Inr (bufs ! i))"
proof -
  let ?f = "\<lambda>(i, frag). expect (encode_chunk_v2 (header_v2 fid k ts data i) frag)"
  let ?g = "\<lambda>(i, frag). projr (encode_chunk_v2 (header_v2 fid k ts data i) frag)"
  let ?xs = "enumerate 0 (fragments_v2 data)"
  have "?f x = Some (?g x)" if x: "x \<in> set ?xs" for x
  proof -
    obtain i where "i < length (fragments_v2 data)" "x = (i, fragments_v2 data ! i)"
      using x by (auto simp: in_set_enumerate_eq)
    then show ?thesis using encode_chunk_header_v2 [OF assms, of i fid k ts] by (auto simp: expect_def)
  qed
  then have all: "all_some (map ?f ?xs) = Some (map ?g ?xs)" by (rule all_some_map)
  have "\<not> 4096 < length (fragments_v2 data)" using fragment_count [OF assms] by simp
  then have "chunk_frame_v2 fid k ts data = map_option Inr (all_some (map ?f ?xs))"
    using assms unfolding chunk_frame_v2_def wire_consts Let_def fragments_v2_facts(2) [symmetric]
      fragments_v2_def [symmetric] header_v2_def by simp
  moreover have "encode_chunk_v2 (header_v2 fid k ts data i) (fragments_v2 data ! i) = Inr (map ?g ?xs ! i)"
    if "i < length (fragments_v2 data)" for i
    using that encode_chunk_header_v2 [OF assms that, of fid k ts] by (auto simp: nth_enumerate_eq)
  ultimately show ?thesis using all by (intro exI [of _ "map ?g ?xs"]) simp
qed

section \<open>Properties\<close>

text \<open>
  C17. v2 symbol messages: a symbol with a non-zero epoch whose payload fits its limit is encoded and
  parsed back unchanged, within the message size limit of its kind; a larger payload is refused.
\<close>

theorem v2_symbol_roundtrip:
  assumes "case y of V2Source ep s p \<Rightarrow> epoch_get ep \<noteq> 0 | V2Repair ep rs wb we p \<Rightarrow> epoch_get ep \<noteq> 0"
  shows "case encode_symbol_msg_v2 y of
      Inr buf \<Rightarrow> parse_symbol_msg_versioned buf = Inr (SymV2 y) \<and>
        length buf \<le> (case y of V2Source _ _ _ \<Rightarrow> FEC_MSG_MAX | V2Repair _ _ _ _ _ \<Rightarrow> V2_REPAIR_MSG_MAX)
    | Inl e \<Rightarrow> e = Oversize \<and> (case y of V2Source ep s p \<Rightarrow> length p > V2_SOURCE_PAYLOAD_MAX
        | V2Repair ep rs wb we p \<Rightarrow> length p > V2_REPAIR_PAYLOAD_MAX)"
  using assms
  by (cases y) (simp_all add: encode_v2_simps parse_symbol_msg_versioned_def parse_v2_source_encoded
      parse_v2_repair_encoded FEC_MSG_MAX_def V2_REPAIR_MSG_MAX_def V2_SOURCE_PAYLOAD_MAX_def V2_REPAIR_PAYLOAD_MAX_def)

theorem v2_symbol_roundtrip_witness:
  "\<exists>buf. encode_symbol_msg_v2 (V2Source (Epoch 7) 4294967295 [1, 2, 3]) = Inr buf \<and>
     parse_symbol_msg_versioned buf = Inr (SymV2 (V2Source (Epoch 7) 4294967295 [1, 2, 3]))"
  using v2_symbol_roundtrip [of "V2Source (Epoch 7) 4294967295 [1, 2, 3]"]
  by (simp add: encode_v2_simps)

text \<open>
  Parsing a symbol message is strict: every accepted message is byte for byte the encoding of
  the symbol returned, v2 exactly for the kinds 2 and 3 and then with a non-zero epoch and a payload
  within its limit. So no two messages parse to the same symbol, trailing or missing bytes are
  rejected for v2, and malformed v2 data is never read as v1.
\<close>

theorem symbol_parse_canonical:
  assumes "parse_symbol_msg_versioned buf = Inr m"
  shows "case m of
      SymV1 y \<Rightarrow> hd buf \<in> {0, 1} \<and> encode_symbol_msg y = buf
    | SymV2 y \<Rightarrow> hd buf \<in> {2, 3} \<and> valid_v2 y \<and> encode_symbol_msg_v2 y = Inr buf"
proof (cases buf)
  case (Cons kind rest)
  then show ?thesis
    using assms parse_v1_source_Inr [of buf] parse_v1_repair_Inr [of buf] parse_v2_source_Inr [of buf] parse_v2_repair_Inr [of buf]
    by (auto simp: parse_symbol_msg_versioned_def map_sum_eq_Inr split: if_splits)
qed (use assms in \<open>simp add: parse_symbol_msg_versioned_def\<close>)

theorem symbol_parse_canonical_witness:
  "encode_symbol_msg (Source 258 [9]) = [0, 2, 1, 0, 0, 9]"
proof -
  have "parse_symbol_msg_versioned [0, 2, 1, 0, 0, 9] = Inr (SymV1 (Source 258 [9]))"
    by (simp add: parse_symbol_msg_versioned_def parse_v1_source_def subslice_def u32_of_def)
  from symbol_parse_canonical [OF this] show ?thesis by simp
qed

text \<open>
  A payload with one corrupted byte never passes the checksum: CRC-32 distinguishes any two byte
  strings that differ in exactly one byte, so a v2 source message whose payload had one byte altered
  in transit is rejected with \<open>CrcMismatch\<close>.
\<close>

theorem corrupted_byte_rejected:
  assumes "epoch_get ep \<noteq> 0" and "length (us @ x # vs) \<le> V2_SOURCE_PAYLOAD_MAX" and "x \<noteq> z"
    and "encode_symbol_msg_v2 (V2Source ep s (us @ x # vs)) = Inr (hdr @ us @ x # vs)"
  shows "parse_symbol_msg_versioned (hdr @ us @ z # vs) = Inl CrcMismatch"
proof -
  define n where "n = length (us @ x # vs)"
  have n: "unat (word_of_nat n :: u16) = n" "n \<le> 1185" "Suc (length us + length vs) = n"
    using assms(2) by (simp_all add: n_def V2_SOURCE_PAYLOAD_MAX_def unat_of_nat del: of_nat_Suc of_nat_add)
  have "hdr @ us @ x # vs = (2 # le32 (epoch_get ep) @ le32 s @ le16 (word_of_nat n) @ le32 (ieee_crc32 (us @ x # vs))) @ us @ x # vs"
    using assms(2,4) by (simp add: n_def encode_v2_simps V2_SOURCE_PAYLOAD_MAX_def split: if_splits)
  then have hdr: "hdr = 2 # le32 (epoch_get ep) @ le32 s @ le16 (word_of_nat n) @ le32 (ieee_crc32 (us @ x # vs))"
    by (simp only: append_same_eq)
  show ?thesis
    using assms(1,3) crc_single_byte [of us z vs x] n
    by (auto simp: hdr parse_symbol_msg_versioned_def parse_v2_source_def wire_consts)
qed

theorem corrupted_byte_rejected_witness:
  "\<exists>hdr. encode_symbol_msg_v2 (V2Source (Epoch 1) 0 [5, 6]) = Inr (hdr @ [5, 6]) \<and>
     parse_symbol_msg_versioned (hdr @ [5, 7]) = Inl CrcMismatch"
proof -
  obtain hdr where e: "encode_symbol_msg_v2 (V2Source (Epoch 1) 0 [5, 6]) = Inr (hdr @ [5, 6])"
    by (simp add: encode_v2_simps flip: append_assoc append_Cons)
  have "parse_symbol_msg_versioned (hdr @ [5] @ 7 # []) = Inl CrcMismatch"
    by (rule corrupted_byte_rejected [where x = 6 and s = 0 and ep = "Epoch 1"])
      (use e in \<open>simp_all add: V2_SOURCE_PAYLOAD_MAX_def\<close>)
  then show ?thesis using e by auto
qed

text \<open>
  Splitting a frame: a frame of at most 4 MiB is split without panic into chunks that parse back
  to their header and fragment, numbered from 0, each carrying the number of chunks, the length and
  the checksum of the frame and fitting one source symbol; the fragments in order are the frame, and
  it passes \<open>validate_encoded_frame_v2\<close> against every one of the headers. A longer frame is refused.
\<close>

theorem frame_split_roundtrip:
  "case chunk_frame_v2 fid k ts data of
     None \<Rightarrow> False
   | Some (Inl e) \<Rightarrow> e = InvalidEncodedFrameLength \<and> length data > ENCODED_FRAME_MAX
   | Some (Inr bufs) \<Rightarrow> bufs \<noteq> [] \<and> (\<exists>frags. length frags = length bufs \<and> concat frags = data \<and>
       (\<forall>i < length bufs. length (bufs ! i) \<le> V2_SOURCE_PAYLOAD_MAX \<and>
          (\<exists>h. parse_chunk_v2 (bufs ! i) = Inr (h, frags ! i) \<and>
             c2_frame_id h = fid \<and> c2_frame_type_key h = k \<and> c2_timestamp_us h = ts \<and>
             unat (c2_chunk_index h) = i \<and> unat (c2_chunk_count h) = length bufs \<and>
             validate_encoded_frame_v2 h data = Inr ())))"
proof (cases "length data \<le> 4194304")
  case True
  then obtain bufs where b: "chunk_frame_v2 fid k ts data = Some (Inr bufs)" "length bufs = length (fragments_v2 data)"
    "\<And>i. i < length bufs \<Longrightarrow> encode_chunk_v2 (header_v2 fid k ts data i) (fragments_v2 data ! i) = Inr (bufs ! i)"
    using chunk_frame_v2_eq by blast
  have n: "0 < length bufs" "length bufs \<le> 3604" using fragment_count [OF True] b(2) by simp_all
  have "length (bufs ! i) \<le> V2_SOURCE_PAYLOAD_MAX \<and> parse_chunk_v2 (bufs ! i) = Inr (header_v2 fid k ts data i, fragments_v2 data ! i) \<and>
      unat (c2_chunk_index (header_v2 fid k ts data i)) = i \<and> unat (c2_chunk_count (header_v2 fid k ts data i)) = length bufs"
    if "i < length bufs" for i
    using parse_encode_chunk_v2 [OF b(3) [OF that]] that n b(2)
    by (simp add: header_v2_def V2_SOURCE_PAYLOAD_MAX_def unat_of_nat)
  moreover have "validate_encoded_frame_v2 (header_v2 fid k ts data i) data = Inr ()" for i
    using True by (simp add: validate_encoded_frame_v2_def header_v2_def unat_of_nat)
  moreover have "c2_frame_id (header_v2 fid k ts data i) = fid \<and> c2_frame_type_key (header_v2 fid k ts data i) = k \<and>
      c2_timestamp_us (header_v2 fid k ts data i) = ts" for i by (simp add: header_v2_def)
  ultimately show ?thesis
    using b(1,2) n fragments_v2_facts(1) [of data] by (auto intro!: exI [of _ "fragments_v2 data"])
next
  case False
  then show ?thesis by (simp add: chunk_frame_v2_def ENCODED_FRAME_MAX_def)
qed

theorem frame_split_roundtrip_witness:
  "\<exists>bufs. chunk_frame_v2 5 True 99 [1, 2, 3] = Some (Inr bufs) \<and> length bufs = 1 \<and>
     (\<exists>h. parse_chunk_v2 (bufs ! 0) = Inr (h, [1, 2, 3]))"
proof -
  have "fragments_v2 [1, 2, 3] = [[1, 2, 3]]" by (simp add: fragments_v2_def chunks_rec)
  then obtain bufs where c: "chunk_frame_v2 5 True 99 [1, 2, 3] = Some (Inr bufs)" "length bufs = 1"
    using chunk_frame_v2_eq [of "[1, 2, 3]" 5 True 99] by auto
  from frame_split_roundtrip [where fid = 5 and k = True and ts = 99 and data = "[1, 2, 3]"] c obtain frags h where
    "length frags = 1" "concat frags = [1, 2, 3]" "parse_chunk_v2 (bufs ! 0) = Inr (h, frags ! 0)" by auto
  moreover from this have "frags ! 0 = [1, 2, 3]" by (cases frags) auto
  ultimately show ?thesis using c by auto
qed

fun control_epoch :: "v2_control_msg \<Rightarrow> epoch" where
  "control_epoch (V2Subscribe ep) = ep"
| "control_epoch (V2Ack ep h) = ep"
| "control_epoch (V2NeedsIdr ep r) = ep"

fun v2_kind_clash :: "ack_msg \<Rightarrow> bool" where
  "v2_kind_clash (Ack seq) \<longleftrightarrow> (ucast seq :: u8) \<in> {0x80, 0x81, 0x82}"
| "v2_kind_clash _ \<longleftrightarrow> False"

lemma parse_control_v2:
  "epoch_get (control_epoch m) \<noteq> 0 \<Longrightarrow> parse_control_msg (encode_control_msg_v2 m) = Inr (CtlV2 m)"
  by (cases m) (simp_all add: parse_control_msg_def exact_len_def parse_epoch_def nth_append)

lemma parse_control_ack:
  "parse_control_msg (encode_ack_msg a) = (if v2_kind_clash a then Inl Truncated else Inr (CtlV1 a))"
  by (cases a) (auto simp: parse_control_msg_def exact_len_def le32_def)

text \<open>
  Control messages: a v2 control message with a non-zero epoch is parsed back unchanged. A v1
  message is, except an acknowledgement of a sequence number whose low byte is 0x80, 0x81 or 0x82:
  its first byte is a reserved v2 kind, so the message is dropped.
\<close>

theorem control_roundtrip:
  "(epoch_get (control_epoch m) \<noteq> 0 \<longrightarrow> parse_control_msg (encode_control_msg_v2 m) = Inr (CtlV2 m)) \<and>
   parse_ack_msg (encode_ack_msg a) = (if v2_kind_clash a then None else Some a)"
  using parse_control_v2 by (simp add: parse_ack_msg_def parse_control_ack)

theorem control_roundtrip_witness:
  "parse_control_msg (encode_control_msg_v2 (V2Ack (Epoch 3) 77)) = Inr (CtlV2 (V2Ack (Epoch 3) 77)) \<and>
   parse_ack_msg (encode_ack_msg (Ack 0x80)) = None"
  using control_roundtrip [of "V2Ack (Epoch 3) 77" "Ack 0x80"] by simp

text \<open>
  Parsing a control message is strict: every accepted message is byte for byte the encoding of
  the message returned, and it is v2 exactly when its first byte is 0x80, 0x81 or 0x82.
\<close>

theorem control_parse_canonical:
  assumes "parse_control_msg buf = Inr m"
  shows "case m of
      CtlV1 a \<Rightarrow> encode_ack_msg a = buf \<and> hd buf \<notin> {0x80, 0x81, 0x82}
    | CtlV2 c \<Rightarrow> encode_control_msg_v2 c = buf \<and> hd buf \<in> {0x80, 0x81, 0x82} \<and> epoch_get (control_epoch c) \<noteq> 0"
proof (cases buf)
  case (Cons kind rest)
  have five: "rest = take 4 rest @ [rest ! 4]" if "length rest = 5"
    using that take_Suc_conv_app_nth [of 4 rest] by simp
  show ?thesis
    using assms five
    by (auto simp: Cons parse_control_msg_def exact_len_def parse_epoch_def sbind_eq_Inr rd32_eq_Inr ok_or_eq_Inr epoch_new_eq
        le32_def [of "u32_of _ _ _ _"] split: if_splits list.splits) (metis append_take_drop_id)
qed (use assms in \<open>simp add: parse_control_msg_def\<close>)

theorem control_parse_canonical_witness:
  "encode_control_msg_v2 (V2NeedsIdr (Epoch 1) 9) = [0x80, 1, 0, 0, 0, 9]"
proof -
  have "parse_control_msg [0x80, 1, 0, 0, 0, 9] = Inr (CtlV2 (V2NeedsIdr (Epoch 1) 9))"
    by (simp add: parse_control_msg_def exact_len_def parse_epoch_def u32_of_def epoch_new_def)
  from control_parse_canonical [OF this] show ?thesis by simp
qed

end
