(* ===== verification/Video_Rx.thy ===== *)
theory Video_Rx
  imports Fec_Decoder Fec_Wire
begin

text \<open>
  \<open>VideoReceiver\<close> of \<open>video_rx.rs\<close>: the receive pipeline of one subscription. A wire message is parsed,
  its epoch admitted, its symbol pushed into the FEC decoder, the recovered chunks reassembled into
  frames, completed frames put in order, and acknowledgements and discontinuities emitted. The hash
  maps are partial maps; the clock is an argument, as in the source; \<open>None\<close> is a panic (an \<open>expect\<close>
  that fails, a subtraction below zero) or a loop that does not end. The theorems are the memory
  bounds and totality on any input, the integrity of every delivered v2 frame, the cadence of
  acknowledgements and the key-frame gate.
\<close>

section \<open>Constants and types\<close>

definition MAX_PENDING_FRAMES :: nat where "MAX_PENDING_FRAMES = 8"
definition ACK_SYMBOL_INTERVAL :: u32 where "ACK_SYMBOL_INTERVAL = 32"
definition ACK_TIME_INTERVAL_MS :: nat where "ACK_TIME_INTERVAL_MS = 50"
definition REORDER_MAX_COMPLETED_FRAMES :: nat where "REORDER_MAX_COMPLETED_FRAMES = 4"
definition REORDER_MAX_WAIT_MS :: nat where "REORDER_MAX_WAIT_MS = 100"
definition RX_DECODER_MAX_SYMBOLS :: u16 where "RX_DECODER_MAX_SYMBOLS = 128"
definition RX_DECODER_MAX_BYTES :: u32 where "RX_DECODER_MAX_BYTES = 16 * 1024 * 1024"

type_synonym frame_key = "u32 \<times> u32"

record decode_unit =
  du_frame_id :: u32
  du_epoch :: u32
  du_is_key :: bool
  du_timestamp_us :: u32
  du_duration_us :: int
  du_data :: bytes

datatype discontinuity_reason =
  EpochTransition | ReorderGap | ReassemblyEviction | MetadataMismatch | FrameCrc | MemoryCap
| FecEviction | QueueOverflow

datatype rx_event =
  RxFrame decode_unit
| RxDiscontinuity u32 discontinuity_reason
| RxAck u32

record video_receiver_stats =
  vs_source_symbols_received :: nat
  vs_repair_symbols_received :: nat
  vs_symbols_recovered :: nat
  vs_frames_recovered :: nat
  vs_frames_dropped_awaiting_idr :: nat
  vs_loss_spans :: nat
  vs_loss_spans_recovered :: nat

record pending_frame =
  pf_is_v2 :: bool
  pf_is_key :: bool
  pf_timestamp_us :: u32
  pf_chunk_count :: u16
  pf_encoded_frame_len :: u32
  pf_encoded_frame_crc32 :: u32
  pf_parts :: "bytes option list"
  pf_received_count :: u16
  pf_bytes :: nat
  pf_used_recovery :: bool

record completed_frame =
  cf_frame_id :: u32
  cf_frame :: pending_frame
  cf_completed_at_ms :: nat

record video_receiver =
  rx_decoder :: fec_decoder
  rx_pending :: "frame_key \<rightharpoonup> pending_frame"
  pending_order :: "frame_key list"
  rx_completed :: "frame_key \<rightharpoonup> completed_frame"
  completed_order :: "frame_key list"
  buffered_bytes :: nat
  active_epoch :: "u32 option"
  next_frame_id :: "u32 option"
  needs_idr :: bool
  awaiting_idr :: bool
  last_timestamp_us :: u32
  symbols_since_ack :: u32
  last_ack_time_ms :: nat
  last_acked_highest :: "u32 option"
  frames_recovered :: nat
  frames_dropped_awaiting_idr :: nat

definition rx_new :: "nat \<Rightarrow> video_receiver" where
  "rx_new now_ms =
     \<lparr>rx_decoder = decoder_new RX_DECODER_MAX_SYMBOLS RX_DECODER_MAX_BYTES,
      rx_pending = Map.empty, pending_order = [], rx_completed = Map.empty, completed_order = [],
      buffered_bytes = 0, active_epoch = None, next_frame_id = None, needs_idr = False,
      awaiting_idr = False, last_timestamp_us = 0, symbols_since_ack = 0, last_ack_time_ms = now_ms,
      last_acked_highest = None, frames_recovered = 0, frames_dropped_awaiting_idr = 0\<rparr>"

section \<open>Discontinuities, epochs, acknowledgements\<close>

definition discontinue :: "u32 \<Rightarrow> discontinuity_reason \<Rightarrow> video_receiver \<Rightarrow> video_receiver \<times> rx_event list" where
  "discontinue ep reason rx =
     (rx\<lparr>rx_pending := Map.empty, pending_order := [], rx_completed := Map.empty, completed_order := [],
         buffered_bytes := 0, next_frame_id := None, needs_idr := True, awaiting_idr := True\<rparr>,
      [RxDiscontinuity ep reason])"

definition accept_epoch :: "u32 \<Rightarrow> bool \<Rightarrow> nat \<Rightarrow> video_receiver \<Rightarrow> (video_receiver \<times> rx_event list) \<times> bool" where
  "accept_epoch ep is_v2 now_ms rx =
     (case active_epoch rx of
        None \<Rightarrow> ((rx\<lparr>active_epoch := Some ep\<rparr>, []), True)
      | Some current \<Rightarrow>
          if ep = current then ((rx, []), True)
          else let distance = ep - current
          in if is_v2 \<and> (current = 0 \<or> (distance \<noteq> 0 \<and> distance < 0x80000000))
             then (discontinue ep EpochTransition
                     (rx\<lparr>rx_decoder := decoder_new RX_DECODER_MAX_SYMBOLS RX_DECODER_MAX_BYTES,
                         active_epoch := Some ep, symbols_since_ack := 0, last_ack_time_ms := now_ms,
                         last_acked_highest := None\<rparr>), True)
             else ((rx, []), False))"

definition tick_ack :: "nat \<Rightarrow> video_receiver \<Rightarrow> video_receiver \<times> u32 option" where
  "tick_ack now_ms rx =
     (case highest_fully_decoded (rx_decoder rx) of
        None \<Rightarrow> (rx, None)
      | Some hfd \<Rightarrow>
          if (case last_acked_highest rx of Some prev \<Rightarrow> \<not> seq_advanced hfd prev | None \<Rightarrow> False)
          then (rx, None)
          else let rx = rx\<lparr>symbols_since_ack := symbols_since_ack rx + 1\<rparr>;
                   elapsed = now_ms - last_ack_time_ms rx
               in if symbols_since_ack rx \<ge> ACK_SYMBOL_INTERVAL \<or> elapsed \<ge> ACK_TIME_INTERVAL_MS
                  then (rx\<lparr>last_acked_highest := Some hfd, symbols_since_ack := 0, last_ack_time_ms := now_ms\<rparr>, Some hfd)
                  else (rx, None))"

definition ack_events :: "u32 option \<Rightarrow> rx_event list" where
  "ack_events a = (case a of None \<Rightarrow> [] | Some s \<Rightarrow> [RxAck s])"

section \<open>Reassembly\<close>

record chunk_fields =
  ck_frame_id :: u32
  ck_index :: u16
  ck_count :: u16
  ck_is_key :: bool
  ck_timestamp_us :: u32
  ck_encoded_len :: u32
  ck_encoded_crc :: u32
  ck_fragment :: bytes

definition parse_delivery :: "bool \<Rightarrow> bytes \<Rightarrow> chunk_fields option" where
  "parse_delivery is_v2 payload =
     (if is_v2 then
        (case parse_chunk_v2 payload of
           Inl _ \<Rightarrow> None
         | Inr (hdr, fragment) \<Rightarrow>
             Some \<lparr>ck_frame_id = c2_frame_id hdr, ck_index = c2_chunk_index hdr, ck_count = c2_chunk_count hdr,
                   ck_is_key = c2_frame_type_key hdr, ck_timestamp_us = c2_timestamp_us hdr,
                   ck_encoded_len = c2_encoded_frame_len hdr, ck_encoded_crc = c2_encoded_frame_crc32 hdr,
                   ck_fragment = fragment\<rparr>)
      else
        (case parse_chunk_header payload of
           None \<Rightarrow> None
         | Some (hdr, fragment) \<Rightarrow>
             if ch_chunk_count hdr = 0 \<or> ch_chunk_index hdr \<ge> ch_chunk_count hdr then None
             else Some \<lparr>ck_frame_id = ch_frame_id hdr, ck_index = ch_chunk_index hdr, ck_count = ch_chunk_count hdr,
                   ck_is_key = ch_frame_type_key hdr, ck_timestamp_us = ch_timestamp_us hdr,
                   ck_encoded_len = 0, ck_encoded_crc = 0, ck_fragment = fragment\<rparr>))"

text \<open>The checks on a chunk alone: counts and, for v2, the length each fragment must have.\<close>

definition expected_fragment_len :: "chunk_fields \<Rightarrow> nat" where
  "expected_fragment_len c =
     (if unat (ck_index c + 1) = unat (ck_count c)
      then unat (ck_encoded_len c) - CHUNK_V2_FRAGMENT_MAX * (unat (ck_count c) - 1)
      else CHUNK_V2_FRAGMENT_MAX)"

definition chunk_geometry_ok :: "bool \<Rightarrow> chunk_fields \<Rightarrow> bool" where
  "chunk_geometry_ok is_v2 c \<longleftrightarrow>
     \<not> (ck_count c = 0 \<or> ck_count c > V2_CHUNK_COUNT_MAX \<or> unat (ck_encoded_len c) > ENCODED_FRAME_MAX) \<and>
     (is_v2 \<longrightarrow>
        unat (ck_count c) = div_ceil (max (unat (ck_encoded_len c)) 1) CHUNK_V2_FRAGMENT_MAX \<and>
        length (ck_fragment c) = expected_fragment_len c)"

definition new_pending :: "bool \<Rightarrow> chunk_fields \<Rightarrow> pending_frame" where
  "new_pending is_v2 c =
     \<lparr>pf_is_v2 = is_v2, pf_is_key = ck_is_key c, pf_timestamp_us = ck_timestamp_us c, pf_chunk_count = ck_count c,
      pf_encoded_frame_len = ck_encoded_len c, pf_encoded_frame_crc32 = ck_encoded_crc c,
      pf_parts = replicate (unat (ck_count c)) None, pf_received_count = 0, pf_bytes = 0, pf_used_recovery = False\<rparr>"

definition metadata_matches :: "bool \<Rightarrow> chunk_fields \<Rightarrow> pending_frame \<Rightarrow> bool" where
  "metadata_matches is_v2 c frame \<longleftrightarrow>
     pf_is_v2 frame = is_v2 \<and> pf_is_key frame = ck_is_key c \<and> pf_timestamp_us frame = ck_timestamp_us c \<and>
     pf_chunk_count frame = ck_count c \<and> pf_encoded_frame_len frame = ck_encoded_len c \<and>
     pf_encoded_frame_crc32 frame = ck_encoded_crc c"

text \<open>Open a pending frame for the first chunk of its key; \<open>Inl\<close> is the early return after a discontinuity.\<close>

definition open_pending ::
  "u32 \<Rightarrow> bool \<Rightarrow> chunk_fields \<Rightarrow> video_receiver \<Rightarrow> (video_receiver \<times> rx_event list) + video_receiver" where
  "open_pending ep is_v2 c rx =
     (let key = (ep, ck_frame_id c)
      in if rx_pending rx key \<noteq> None then Inr rx
         else if length (pending_order rx) + length (completed_order rx) \<ge> MAX_PENDING_FRAMES
         then Inl (discontinue ep ReassemblyEviction rx)
         else if buffered_bytes rx + length (ck_fragment c) > unat RX_DECODER_MAX_BYTES
         then Inl (discontinue ep MemoryCap rx)
         else let rx = rx\<lparr>rx_pending := (rx_pending rx)(key \<mapsto> new_pending is_v2 c),
                          pending_order := pending_order rx @ [key]\<rparr>
              in Inr (if next_frame_id rx = None \<and> (\<not> awaiting_idr rx \<or> ck_is_key c)
                      then rx\<lparr>next_frame_id := Some (ck_frame_id c)\<rparr> else rx))"

definition add_part :: "nat \<Rightarrow> bytes \<Rightarrow> bool \<Rightarrow> pending_frame \<Rightarrow> pending_frame" where
  "add_part index fragment via_fec frame =
     frame\<lparr>pf_parts := (pf_parts frame)[index := Some fragment],
           pf_received_count := pf_received_count frame + 1,
           pf_bytes := pf_bytes frame + length fragment,
           pf_used_recovery := (pf_used_recovery frame \<or> via_fec)\<rparr>"

definition checked_sub :: "nat \<Rightarrow> nat \<Rightarrow> nat option" where
  "checked_sub a b = (if b \<le> a then Some (a - b) else None)"

text \<open>A frame whose last chunk arrived: dropped if it is a delta behind the gate, else queued.\<close>

definition complete_frame ::
  "frame_key \<Rightarrow> pending_frame \<Rightarrow> nat \<Rightarrow> video_receiver \<Rightarrow> video_receiver option" where
  "complete_frame key frame now_ms rx =
     (let rx = rx\<lparr>rx_pending := (rx_pending rx)(key := None),
                  pending_order := filter (\<lambda>k. k \<noteq> key) (pending_order rx)\<rparr>
      in if awaiting_idr rx \<and> \<not> pf_is_key frame
         then map_option (\<lambda>bytes.
                rx\<lparr>buffered_bytes := bytes,
                   frames_dropped_awaiting_idr := frames_dropped_awaiting_idr rx + 1,
                   next_frame_id := (if next_frame_id rx = Some (snd key) then None else next_frame_id rx)\<rparr>)
              (checked_sub (buffered_bytes rx) (pf_bytes frame))
         else let rx = (if pf_is_key frame then rx\<lparr>awaiting_idr := False\<rparr> else rx)
              in Some (rx\<lparr>rx_completed := (rx_completed rx)(key \<mapsto>
                            \<lparr>cf_frame_id = snd key, cf_frame = frame, cf_completed_at_ms = now_ms\<rparr>),
                          completed_order := completed_order rx @ [key]\<rparr>))"

definition store_chunk ::
  "u32 \<Rightarrow> bool \<Rightarrow> chunk_fields \<Rightarrow> bool \<Rightarrow> nat \<Rightarrow> video_receiver \<Rightarrow> (video_receiver \<times> rx_event list) option" where
  "store_chunk ep is_v2 c via_fec now_ms rx =
     (let key = (ep, ck_frame_id c); index = unat (ck_index c)
      in case rx_pending rx key of
           None \<Rightarrow> Some (discontinue ep MetadataMismatch rx)
         | Some frame \<Rightarrow>
             if \<not> metadata_matches is_v2 c frame then Some (discontinue ep MetadataMismatch rx)
             else if index \<ge> length (pf_parts frame) \<or> pf_parts frame ! index \<noteq> None then Some (rx, [])
             else if buffered_bytes rx + length (ck_fragment c) > unat RX_DECODER_MAX_BYTES
             then Some (discontinue ep MemoryCap rx)
             else let frame = add_part index (ck_fragment c) via_fec frame;
                      rx = rx\<lparr>rx_pending := (rx_pending rx)(key \<mapsto> frame),
                              buffered_bytes := buffered_bytes rx + length (ck_fragment c)\<rparr>
                  in if pf_received_count frame \<noteq> pf_chunk_count frame then Some (rx, [])
                     else map_option (\<lambda>rx. (rx, [])) (complete_frame key frame now_ms rx))"

definition deliver_chunk ::
  "u32 \<Rightarrow> bool \<Rightarrow> bytes \<Rightarrow> bool \<Rightarrow> nat \<Rightarrow> video_receiver \<Rightarrow> (video_receiver \<times> rx_event list) option" where
  "deliver_chunk ep is_v2 payload via_fec now_ms rx =
     (case parse_delivery is_v2 payload of
        None \<Rightarrow> Some (rx, [])
      | Some c \<Rightarrow>
          if \<not> chunk_geometry_ok is_v2 c then Some (rx, [])
          else if rx_completed rx (ep, ck_frame_id c) \<noteq> None then Some (rx, [])
          else case open_pending ep is_v2 c rx of
                 Inl stop \<Rightarrow> Some stop
               | Inr rx \<Rightarrow> store_chunk ep is_v2 c via_fec now_ms rx)"

section \<open>Ordering and assembly\<close>

text \<open>\<open>data.extend_from_slice(part.as_deref()?)\<close> over the parts.\<close>

fun join_parts :: "bytes option list \<Rightarrow> bytes option" where
  "join_parts [] = Some []"
| "join_parts (p # ps) = Option.bind p (\<lambda>a. map_option (\<lambda>r. a @ r) (join_parts ps))"

definition frame_header :: "u32 \<Rightarrow> pending_frame \<Rightarrow> chunk_v2_header" where
  "frame_header frame_id frame =
     \<lparr>c2_frame_id = frame_id, c2_chunk_index = 0, c2_chunk_count = pf_chunk_count frame,
      c2_frame_type_key = pf_is_key frame, c2_timestamp_us = pf_timestamp_us frame,
      c2_encoded_frame_len = pf_encoded_frame_len frame, c2_encoded_frame_crc32 = pf_encoded_frame_crc32 frame\<rparr>"

definition assemble_frame ::
  "u32 \<Rightarrow> pending_frame \<Rightarrow> u32 \<Rightarrow> video_receiver \<Rightarrow> ((video_receiver \<times> rx_event list) \<times> decode_unit option) option" where
  "assemble_frame frame_id frame ep rx =
     (case join_parts (pf_parts frame) of
        None \<Rightarrow> Some ((rx, []), None)
      | Some data \<Rightarrow>
          Option.bind (checked_sub (buffered_bytes rx) (pf_bytes frame)) (\<lambda>bytes.
            let rx = rx\<lparr>buffered_bytes := bytes\<rparr>
            in if pf_is_v2 frame \<and> validate_encoded_frame_v2 (frame_header frame_id frame) data \<noteq> Inr ()
               then Some (discontinue ep FrameCrc rx, None)
               else let rx = (if pf_used_recovery frame then rx\<lparr>frames_recovered := frames_recovered rx + 1\<rparr> else rx);
                        duration_us = uint (pf_timestamp_us frame) - uint (last_timestamp_us rx);
                        rx = rx\<lparr>last_timestamp_us := pf_timestamp_us frame\<rparr>
                    in Some ((rx, []), Some \<lparr>du_frame_id = frame_id, du_epoch = ep, du_is_key = pf_is_key frame,
                         du_timestamp_us = pf_timestamp_us frame, du_duration_us = duration_us, du_data = data\<rparr>)))"

text \<open>One iteration: \<open>Inl\<close> leaves the loop, \<open>Inr\<close> goes on.\<close>

definition flush_step ::
  "nat \<Rightarrow> video_receiver \<Rightarrow> ((video_receiver \<times> rx_event list) + (video_receiver \<times> rx_event list)) option" where
  "flush_step now_ms rx =
     (case completed_order rx of
        [] \<Rightarrow> Some (Inl (rx, []))
      | first_key # _ \<Rightarrow>
          Option.bind (rx_completed rx first_key) (\<lambda>first.
            let expected = (fst first_key, case next_frame_id rx of Some n \<Rightarrow> n | None \<Rightarrow> cf_frame_id first)
            in case rx_completed rx expected of
                 None \<Rightarrow>
                   if length (completed_order rx) \<le> REORDER_MAX_COMPLETED_FRAMES
                      \<and> now_ms - cf_completed_at_ms first < REORDER_MAX_WAIT_MS
                   then Some (Inl (rx, []))
                   else Some (Inl (discontinue (fst first_key) ReorderGap rx))
               | Some completed \<Rightarrow>
                   let rx = rx\<lparr>rx_completed := (rx_completed rx)(expected := None),
                               completed_order := filter (\<lambda>k. k \<noteq> expected) (completed_order rx)\<rparr>
                   in Option.bind (assemble_frame (cf_frame_id completed) (cf_frame completed) (fst expected) rx)
                        (\<lambda>((rx, evs), unit).
                          Some (Inr (rx\<lparr>next_frame_id := Some (cf_frame_id completed + 1)\<rparr>,
                            evs @ (case unit of None \<Rightarrow> [] | Some u \<Rightarrow> [RxFrame u]))))))"

partial_function (option) flush_reorder ::
  "nat \<Rightarrow> video_receiver \<Rightarrow> (video_receiver \<times> rx_event list) option" where
  "flush_reorder now_ms rx =
     Option.bind (flush_step now_ms rx) (\<lambda>r.
       case r of
         Inl stop \<Rightarrow> Some stop
       | Inr (rx, evs) \<Rightarrow> Option.bind (flush_reorder now_ms rx) (\<lambda>(rx, evs'). Some (rx, evs @ evs')))"

declare flush_reorder.simps [code]

section \<open>Messages and ticks\<close>

fun is_fec_loss :: "decoder_event \<Rightarrow> bool" where
  "is_fec_loss (EvLossSpan _ _) = True"
| "is_fec_loss (EvEvicted _ _) = True"
| "is_fec_loss (EvRecovered _ _ _) = False"

fun deliver_events ::
  "u32 \<Rightarrow> bool \<Rightarrow> decoder_event list \<Rightarrow> nat \<Rightarrow> video_receiver \<Rightarrow> (video_receiver \<times> rx_event list) option" where
  "deliver_events ep is_v2 [] now_ms rx = Some (rx, [])"
| "deliver_events ep is_v2 (EvRecovered _ payload via_fec # es) now_ms rx =
     Option.bind (deliver_chunk ep is_v2 payload via_fec now_ms rx) (\<lambda>(rx, evs).
       let (rx, ack) = tick_ack now_ms rx
       in Option.bind (deliver_events ep is_v2 es now_ms rx) (\<lambda>(rx, evs').
            Some (rx, evs @ ack_events ack @ evs')))"
| "deliver_events ep is_v2 (_ # es) now_ms rx = deliver_events ep is_v2 es now_ms rx"

definition process_decoder_events ::
  "u32 \<Rightarrow> bool \<Rightarrow> decoder_event list \<Rightarrow> nat \<Rightarrow> video_receiver \<Rightarrow> (video_receiver \<times> rx_event list) option" where
  "process_decoder_events ep is_v2 decoder_events now_ms rx =
     (let (rx, evs) = (if list_ex is_fec_loss decoder_events then discontinue ep FecEviction rx else (rx, []))
      in Option.bind (deliver_events ep is_v2 decoder_events now_ms rx) (\<lambda>(rx, evs').
           Some (rx, evs @ evs')))"

fun message_symbol :: "parsed_symbol_msg \<Rightarrow> u32 \<times> bool \<times> symbol" where
  "message_symbol (SymV1 y) = (0, False, y)"
| "message_symbol (SymV2 (V2Source ep seq payload)) = (epoch_get ep, True, Source seq payload)"
| "message_symbol (SymV2 (V2Repair ep repair_seq window_base window_end payload)) =
     (epoch_get ep, True, Repair repair_seq window_base window_end payload)"

definition on_message :: "bytes \<Rightarrow> nat \<Rightarrow> video_receiver \<Rightarrow> (video_receiver \<times> rx_event list) option" where
  "on_message buf now_ms rx =
     (case parse_symbol_msg_versioned buf of
        Inl _ \<Rightarrow> Some (rx, [])
      | Inr parsed \<Rightarrow>
          (let (ep, is_v2, y) = message_symbol parsed;
               ((rx, out), accepted) = accept_epoch ep is_v2 now_ms rx
           in if \<not> accepted then Some (rx, out)
              else Option.bind (push_symbol (rx_decoder rx) y) (\<lambda>(d, decoder_events).
                   Option.bind (process_decoder_events ep is_v2 decoder_events now_ms (rx\<lparr>rx_decoder := d\<rparr>)) (\<lambda>(rx, out1).
                   Option.bind (flush_reorder now_ms rx) (\<lambda>(rx, out2).
                     Some (rx, out @ out1 @ out2))))))"

definition rx_tick :: "nat \<Rightarrow> video_receiver \<Rightarrow> video_receiver \<times> u32 option" where
  "rx_tick now_ms rx = tick_ack now_ms rx"

definition tick_events :: "nat \<Rightarrow> video_receiver \<Rightarrow> (video_receiver \<times> rx_event list) option" where
  "tick_events now_ms rx =
     Option.bind (flush_reorder now_ms rx) (\<lambda>(rx, out).
       let (rx, ack) = tick_ack now_ms rx in Some (rx, out @ ack_events ack))"

definition poll_needs_idr :: "video_receiver \<Rightarrow> video_receiver \<times> bool" where
  "poll_needs_idr rx = (rx\<lparr>needs_idr := False\<rparr>, needs_idr rx)"

definition rx_highest_fully_decoded :: "video_receiver \<Rightarrow> u32 option" where
  "rx_highest_fully_decoded rx = highest_fully_decoded (rx_decoder rx)"

definition rx_stats :: "video_receiver \<Rightarrow> video_receiver_stats" where
  "rx_stats rx =
     (let d = dec_stats (rx_decoder rx)
      in \<lparr>vs_source_symbols_received = source_symbols_received d,
          vs_repair_symbols_received = repair_symbols_received d,
          vs_symbols_recovered = symbols_recovered d,
          vs_frames_recovered = frames_recovered rx,
          vs_frames_dropped_awaiting_idr = frames_dropped_awaiting_idr rx,
          vs_loss_spans = loss_spans d,
          vs_loss_spans_recovered = loss_spans_recovered d\<rparr>)"

section \<open>Hash maps as weighted maps\<close>

definition held :: "('v \<Rightarrow> nat) \<Rightarrow> ('k \<rightharpoonup> 'v) \<Rightarrow> nat" where
  "held f m = (\<Sum>k \<in> dom m. f (the (m k)))"

lemma held_empty [simp]: "held f Map.empty = 0"
  by (simp add: held_def)

lemma held_insert_new: "finite (dom m) \<Longrightarrow> m k = None \<Longrightarrow> held f (m(k \<mapsto> v)) = held f m + f v"
proof -
  assume fin: "finite (dom m)" and k: "m k = None"
  have "(\<Sum>q \<in> dom m. f (the ((m(k \<mapsto> v)) q))) = (\<Sum>q \<in> dom m. f (the (m q)))"
    using k by (intro sum.cong) auto
  moreover have "k \<notin> dom m" using k by auto
  ultimately show ?thesis using fin by (simp add: held_def)
qed

lemma held_remove: "finite (dom m) \<Longrightarrow> m k = Some u \<Longrightarrow> held f (m(k := None)) + f u = held f m"
proof -
  assume fin: "finite (dom m)" and k: "m k = Some u"
  have "(\<Sum>q \<in> dom m - {k}. f (the ((m(k := None)) q))) = (\<Sum>q \<in> dom m - {k}. f (the (m q)))"
    by (intro sum.cong) auto
  then show ?thesis using fin k sum.remove [of "dom m" k "\<lambda>q. f (the (m q))"] by (simp add: held_def domI)
qed

interpretation hmap: ordered_map "\<lambda>m. m" "\<lambda>k v m. m(k \<mapsto> v)" "\<lambda>k m. m(k := None)" held "\<lambda>m. finite (dom m)"
proof unfold_locales
  fix f :: "'b \<Rightarrow> nat" and m :: "'a \<rightharpoonup> 'b" and k u v
  assume fin: "finite (dom m)" and k: "m k = Some u"
  have "held f ((m(k := None))(k \<mapsto> v)) = held f (m(k := None)) + f v"
    using fin by (intro held_insert_new) auto
  then show "held f (m(k \<mapsto> v)) + f u = held f m + f v" using held_remove [OF fin k, of f] by simp
  show "held f (m(k := None)) + f u = held f m" by (rule held_remove [OF fin k])
qed (auto simp: held_insert_new)

lemmas held_simps = hmap.weight_insert_new hmap.weight_insert_old hmap.weight_remove

section \<open>Invariant\<close>

definition part_count :: "bytes option list \<Rightarrow> nat" where
  "part_count ps = length (filter (\<lambda>p. p \<noteq> None) ps)"

definition part_bytes :: "bytes option list \<Rightarrow> nat" where
  "part_bytes ps = sum_list (map (\<lambda>p. case p of None \<Rightarrow> 0 | Some b \<Rightarrow> length b) ps)"

definition frame_ok :: "pending_frame \<Rightarrow> bool" where
  "frame_ok f \<longleftrightarrow> 1 \<le> unat (pf_chunk_count f) \<and> unat (pf_chunk_count f) \<le> 4096 \<and>
     length (pf_parts f) = unat (pf_chunk_count f) \<and>
     unat (pf_received_count f) = part_count (pf_parts f) \<and> pf_bytes f = part_bytes (pf_parts f)"

definition is_complete :: "pending_frame \<Rightarrow> bool" where
  "is_complete f \<longleftrightarrow> part_count (pf_parts f) = unat (pf_chunk_count f)"

text \<open>The decoder's own invariant, at the byte cap that the receiver gives it.\<close>

definition rx_dec_ok :: "fec_decoder \<Rightarrow> bool" where
  "rx_dec_ok d \<longleftrightarrow> dec_ok d \<and> max_bytes d = RX_DECODER_MAX_BYTES"

lemma rx_dec_ok_new: "rx_dec_ok (decoder_new RX_DECODER_MAX_SYMBOLS RX_DECODER_MAX_BYTES)"
  unfolding rx_dec_ok_def
  by (intro conjI dec_ok_new) (simp add: decoder_new_def RX_DECODER_MAX_BYTES_def min_def max_def word_le_nat_alt)

text \<open>
  The state invariant, with the completeness of pending frames as a parameter: it is suspended for
  the one frame that \<open>complete_frame\<close> is about to move.
\<close>

definition rx_inv :: "(frame_key \<Rightarrow> pending_frame \<Rightarrow> bool) \<Rightarrow> video_receiver \<Rightarrow> bool" where
  "rx_inv P rx \<longleftrightarrow>
     rx_dec_ok (rx_decoder rx) \<and>
     distinct (pending_order rx) \<and> dom (rx_pending rx) = set (pending_order rx) \<and>
     distinct (completed_order rx) \<and> dom (rx_completed rx) = set (completed_order rx) \<and>
     set (pending_order rx) \<inter> set (completed_order rx) = {} \<and>
     length (pending_order rx) + length (completed_order rx) \<le> MAX_PENDING_FRAMES \<and>
     (\<forall>k f. rx_pending rx k = Some f \<longrightarrow> frame_ok f \<and> P k f) \<and>
     (\<forall>k c. rx_completed rx k = Some c \<longrightarrow> frame_ok (cf_frame c) \<and> is_complete (cf_frame c) \<and> cf_frame_id c = snd k) \<and>
     buffered_bytes rx = held pf_bytes (rx_pending rx) + held (\<lambda>c. pf_bytes (cf_frame c)) (rx_completed rx) \<and>
     buffered_bytes rx \<le> unat RX_DECODER_MAX_BYTES \<and>
     (\<forall>k \<in> set (pending_order rx) \<union> set (completed_order rx). active_epoch rx = Some (fst k))"

definition rx_ok :: "video_receiver \<Rightarrow> bool" where
  "rx_ok = rx_inv (\<lambda>_ f. \<not> is_complete f)"

lemma rx_invD:
  assumes "rx_inv P rx"
  shows "rx_dec_ok (rx_decoder rx)" "distinct (pending_order rx)" "dom (rx_pending rx) = set (pending_order rx)"
    "distinct (completed_order rx)" "dom (rx_completed rx) = set (completed_order rx)"
    "set (pending_order rx) \<inter> set (completed_order rx) = {}"
    "length (pending_order rx) + length (completed_order rx) \<le> MAX_PENDING_FRAMES"
    "\<And>k f. rx_pending rx k = Some f \<Longrightarrow> frame_ok f \<and> P k f"
    "\<And>k c. rx_completed rx k = Some c \<Longrightarrow> frame_ok (cf_frame c) \<and> is_complete (cf_frame c) \<and> cf_frame_id c = snd k"
    "buffered_bytes rx = held pf_bytes (rx_pending rx) + held (\<lambda>c. pf_bytes (cf_frame c)) (rx_completed rx)"
    "buffered_bytes rx \<le> unat RX_DECODER_MAX_BYTES"
    "\<And>k. k \<in> set (pending_order rx) \<Longrightarrow> active_epoch rx = Some (fst k)"
    "finite (dom (rx_pending rx))" "finite (dom (rx_completed rx))"
    "\<And>k. k \<in> set (completed_order rx) \<Longrightarrow> active_epoch rx = Some (fst k)"
  using assms by (auto simp: rx_inv_def)

text \<open>Fields the invariant does not speak about.\<close>

lemma rx_ok_irrelevant [simp]:
  "rx_ok (rx\<lparr>next_frame_id := n\<rparr>) = rx_ok rx" "rx_ok (rx\<lparr>awaiting_idr := b\<rparr>) = rx_ok rx"
  "rx_ok (rx\<lparr>needs_idr := b\<rparr>) = rx_ok rx" "rx_ok (rx\<lparr>last_timestamp_us := t\<rparr>) = rx_ok rx"
  "rx_ok (rx\<lparr>symbols_since_ack := u\<rparr>) = rx_ok rx" "rx_ok (rx\<lparr>last_ack_time_ms := m\<rparr>) = rx_ok rx"
  "rx_ok (rx\<lparr>last_acked_highest := h\<rparr>) = rx_ok rx" "rx_ok (rx\<lparr>frames_recovered := r\<rparr>) = rx_ok rx"
  "rx_ok (rx\<lparr>frames_dropped_awaiting_idr := r\<rparr>) = rx_ok rx"
  by (simp_all add: rx_ok_def rx_inv_def)

lemma rx_ok_new: "rx_ok (rx_new now)"
  by (simp add: rx_ok_def rx_inv_def rx_new_def rx_dec_ok_new)

lemma rx_ok_discontinue:
  assumes "rx_dec_ok (rx_decoder rx)"
  shows "rx_ok (fst (discontinue ep reason rx))"
  using assms by (simp add: rx_ok_def rx_inv_def discontinue_def)

lemma discontinue_frame [simp]:
  "rx_decoder (fst (discontinue ep r rx)) = rx_decoder rx" "active_epoch (fst (discontinue ep r rx)) = active_epoch rx"
  by (simp_all add: discontinue_def)

section \<open>Delivering a chunk keeps the invariant\<close>

lemma part_count_replicate [simp]: "part_count (replicate n None) = 0" "part_bytes (replicate n None) = 0"
  by (simp_all add: part_count_def part_bytes_def sum_list_replicate)

lemma part_update:
  assumes "i < length ps" "ps ! i = None"
  shows "part_count (ps[i := Some b]) = Suc (part_count ps)" "part_bytes (ps[i := Some b]) = part_bytes ps + length b"
proof -
  have ps: "ps = take i ps @ None # drop (Suc i) ps" using assms id_take_nth_drop [of i ps] by simp
  have up: "ps[i := Some b] = take i ps @ Some b # drop (Suc i) ps" using assms(1) by (rule upd_conv_take_nth_drop)
  show "part_count (ps[i := Some b]) = Suc (part_count ps)"
    unfolding up by (subst (3) ps) (simp add: part_count_def)
  show "part_bytes (ps[i := Some b]) = part_bytes ps + length b"
    unfolding up by (subst (3) ps) (simp add: part_bytes_def)
qed

lemma part_count_le: "part_count ps \<le> length ps"
  by (simp add: part_count_def)

lemma add_part_ok:
  assumes "frame_ok f" "i < length (pf_parts f)" "pf_parts f ! i = None"
  shows "frame_ok (add_part i b v f)" "pf_bytes (add_part i b v f) = pf_bytes f + length b"
    "pf_received_count (add_part i b v f) = pf_chunk_count (add_part i b v f) \<longleftrightarrow> is_complete (add_part i b v f)"
proof -
  let ?ps = "(pf_parts f)[i := Some b]"
  note up = part_update [OF assms(2,3), of b]
  have "Suc (part_count (pf_parts f)) \<le> 4096"
    using part_count_le [of ?ps] up(1) assms(1) by (simp add: frame_ok_def)
  then have cnt: "unat (pf_received_count f + 1) = part_count ?ps"
    using assms(1) up(1) by (simp add: frame_ok_def unat_word_ariths)
  show "frame_ok (add_part i b v f)" using assms(1) cnt up(2) by (simp add: frame_ok_def add_part_def)
  show "pf_bytes (add_part i b v f) = pf_bytes f + length b" by (simp add: add_part_def)
  show "pf_received_count (add_part i b v f) = pf_chunk_count (add_part i b v f) \<longleftrightarrow> is_complete (add_part i b v f)"
    using cnt by (simp add: add_part_def is_complete_def word_unat_eq_iff)
qed

lemma new_pending_ok: "chunk_geometry_ok is_v2 c \<Longrightarrow> frame_ok (new_pending is_v2 c) \<and> \<not> is_complete (new_pending is_v2 c)
    \<and> pf_bytes (new_pending is_v2 c) = 0"
  by (auto simp: chunk_geometry_ok_def frame_ok_def is_complete_def new_pending_def V2_CHUNK_COUNT_MAX_def
      word_less_nat_alt not_less Suc_le_eq unat_gt_0)

lemma open_pending_ok:
  assumes ok: "rx_ok rx" and g: "chunk_geometry_ok is_v2 c" and ep: "active_epoch rx = Some ep"
    and nc: "rx_completed rx (ep, ck_frame_id c) = None"
  shows "case open_pending ep is_v2 c rx of
      Inl stop \<Rightarrow> rx_ok (fst stop) \<and> active_epoch (fst stop) = Some ep
    | Inr rx' \<Rightarrow> rx_ok rx' \<and> active_epoch rx' = Some ep \<and> rx_pending rx' (ep, ck_frame_id c) \<noteq> None \<and>
        rx_completed rx' (ep, ck_frame_id c) = None"
proof -
  let ?k = "(ep, ck_frame_id c)"
  note inv = rx_invD [OF ok [unfolded rx_ok_def]]
  show ?thesis
  proof (cases "rx_pending rx ?k = None \<and> length (pending_order rx) + length (completed_order rx) < MAX_PENDING_FRAMES \<and>
      buffered_bytes rx + length (ck_fragment c) \<le> unat RX_DECODER_MAX_BYTES")
    case True
    let ?rx = "rx\<lparr>rx_pending := (rx_pending rx)(?k \<mapsto> new_pending is_v2 c), pending_order := pending_order rx @ [?k]\<rparr>"
    have notin: "?k \<notin> set (pending_order rx)" "?k \<notin> set (completed_order rx)" using True nc inv(3,5) by auto
    have "rx_ok ?rx"
      unfolding rx_ok_def rx_inv_def
      using inv notin True ep new_pending_ok [OF g]
      by (auto simp: held_insert_new [OF inv(13)])
    then show ?thesis using True ep nc by (simp add: open_pending_def Let_def not_le)
  next
    case False
    then show ?thesis using ok ep nc rx_ok_discontinue [OF inv(1)] by (auto simp: open_pending_def Let_def not_le not_less)
  qed
qed

lemma complete_frame_ok:
  assumes inv: "rx_inv (\<lambda>k f. if k = key then is_complete f else \<not> is_complete f) rx"
    and key: "rx_pending rx key = Some frame" and nc: "rx_completed rx key = None"
  shows "\<exists>rx'. complete_frame key frame now rx = Some rx' \<and> rx_ok rx' \<and> active_epoch rx' = active_epoch rx"
proof -
  note I = rx_invD [OF inv]
  let ?p = "(rx_pending rx)(key := None)" and ?po = "filter (\<lambda>k. k \<noteq> key) (pending_order rx)"
  let ?rx = "rx\<lparr>rx_pending := ?p, pending_order := ?po\<rparr>"
  have mem: "key \<in> set (pending_order rx)" using key I(3) by auto
  have rest: "k \<noteq> key \<Longrightarrow> rx_pending rx k = Some f \<Longrightarrow> \<not> is_complete f" for k f using I(8) [of k f] by auto
  have bytes: "held pf_bytes ?p + pf_bytes frame = held pf_bytes (rx_pending rx)" by (rule held_remove [OF I(13) key])
  have len: "length ?po + 1 \<le> length (pending_order rx)"
    using length_filter_less [OF mem, of "\<lambda>k. k \<noteq> key"] by simp
  show ?thesis
  proof (cases "awaiting_idr rx \<and> \<not> pf_is_key frame")
    case True
    have "rx_ok (?rx\<lparr>buffered_bytes := buffered_bytes rx - pf_bytes frame\<rparr>)"
      unfolding rx_ok_def rx_inv_def using I rest bytes len by auto
    moreover have "pf_bytes frame \<le> buffered_bytes rx" using bytes I(10) by simp
    ultimately show ?thesis using True by (simp add: complete_frame_def Let_def checked_sub_def)
  next
    case False
    let ?c = "\<lparr>cf_frame_id = snd key, cf_frame = frame, cf_completed_at_ms = now\<rparr>"
    let ?rx' = "?rx\<lparr>rx_completed := (rx_completed rx)(key \<mapsto> ?c), completed_order := completed_order rx @ [key]\<rparr>"
    have fr: "frame_ok frame \<and> is_complete frame" using I(8) [OF key] by simp
    have notin: "key \<notin> set (completed_order rx)" using nc I(5) by auto
    have ep: "active_epoch rx = Some (fst key)" by (rule I(12) [OF mem])
    have eps: "fst key = a" if "(a, b) \<in> set (pending_order rx) \<union> set (completed_order rx)" for a b
      using that I(12) [of "(a, b)"] I(15) [of "(a, b)"] ep by auto
    have "rx_ok ?rx'"
      unfolding rx_ok_def rx_inv_def using I(1-11) rest bytes len fr notin mem ep
      by (auto simp: held_insert_new [OF I(14) nc]) (use eps in blast)+
    moreover have "rx_ok (?rx\<lparr>awaiting_idr := False, rx_completed := (rx_completed rx)(key \<mapsto> ?c),
        completed_order := completed_order rx @ [key]\<rparr>) = rx_ok ?rx'"
      by (simp add: rx_ok_def rx_inv_def)
    ultimately show ?thesis using False by (cases "pf_is_key frame") (simp_all add: complete_frame_def Let_def)
  qed
qed

lemma store_chunk_ok:
  assumes ok: "rx_ok rx" and ep: "active_epoch rx = Some ep" and p: "rx_pending rx (ep, ck_frame_id c) \<noteq> None"
    and nc: "rx_completed rx (ep, ck_frame_id c) = None"
  shows "\<exists>rx' evs. store_chunk ep is_v2 c via now rx = Some (rx', evs) \<and> rx_ok rx' \<and> active_epoch rx' = Some ep"
proof -
  let ?k = "(ep, ck_frame_id c)" and ?i = "unat (ck_index c)" and ?b = "ck_fragment c"
  note I = rx_invD [OF ok [unfolded rx_ok_def]]
  obtain f where f: "rx_pending rx ?k = Some f" using p by blast
  show ?thesis
  proof (cases "metadata_matches is_v2 c f \<and> ?i < length (pf_parts f) \<and> pf_parts f ! ?i = None \<and>
      buffered_bytes rx + length ?b \<le> unat RX_DECODER_MAX_BYTES")
    case True
    let ?f = "add_part ?i ?b via f"
    let ?rx = "rx\<lparr>rx_pending := (rx_pending rx)(?k \<mapsto> ?f), buffered_bytes := buffered_bytes rx + length ?b\<rparr>"
    note A = add_part_ok [of f ?i ?b via]
    have fok: "frame_ok f" using I(8) [OF f] by simp
    have bytes: "held pf_bytes ((rx_pending rx)(?k \<mapsto> ?f)) = held pf_bytes (rx_pending rx) + length ?b"
      using hmap.weight_insert_old [OF I(13) f, of pf_bytes ?f] A(2) fok True by simp
    have dom: "dom ((rx_pending rx)(?k \<mapsto> ?f)) = set (pending_order rx)" using I(3) f by auto
    have inv: "rx_inv P ?rx" if P: "P ?k ?f" "\<And>k g. k \<noteq> ?k \<Longrightarrow> \<not> is_complete g \<Longrightarrow> P k g" for P
      unfolding rx_inv_def using I True A(1) fok bytes dom P by auto
    show ?thesis
    proof (cases "is_complete ?f")
      case full: True
      obtain rx' where "complete_frame ?k ?f now ?rx = Some rx'" "rx_ok rx'" "active_epoch rx' = active_epoch ?rx"
        using complete_frame_ok [OF inv, of ?k ?f now] full nc by auto
      then show ?thesis using True f ep full A(3) fok by (simp add: store_chunk_def Let_def not_le not_less)
    next
      case False
      then have "rx_ok ?rx" unfolding rx_ok_def by (intro inv) auto
      then show ?thesis using True f ep False A(3) fok by (simp add: store_chunk_def Let_def not_le not_less)
    qed
  next
    case False
    have "store_chunk ep is_v2 c via now rx \<in> {Some (rx, []), Some (discontinue ep MetadataMismatch rx), Some (discontinue ep MemoryCap rx)}"
      using False f by (auto simp: store_chunk_def Let_def not_le not_less)
    then show ?thesis using ok ep rx_ok_discontinue [OF I(1)]
      by (auto simp: discontinue_def)
  qed
qed

lemma deliver_chunk_ok:
  assumes "rx_ok rx" "active_epoch rx = Some ep"
  shows "\<exists>rx' evs. deliver_chunk ep is_v2 payload via now rx = Some (rx', evs) \<and> rx_ok rx' \<and> active_epoch rx' = Some ep"
proof (cases "parse_delivery is_v2 payload")
  case (Some c)
  show ?thesis
  proof (cases "chunk_geometry_ok is_v2 c \<and> rx_completed rx (ep, ck_frame_id c) = None")
    case True
    then have g: "chunk_geometry_ok is_v2 c" and nc: "rx_completed rx (ep, ck_frame_id c) = None" by auto
    note O = open_pending_ok [OF assms(1) g assms(2) nc]
    show ?thesis
    proof (cases "open_pending ep is_v2 c rx")
      case (Inl stop)
      then show ?thesis using Some True O by (cases stop) (simp add: deliver_chunk_def)
    next
      case (Inr rx1)
      then show ?thesis using Some True O store_chunk_ok [of rx1 ep c is_v2 via now] by (auto simp: deliver_chunk_def)
    qed
  qed (use Some assms in \<open>auto simp: deliver_chunk_def\<close>)
qed (use assms in \<open>simp add: deliver_chunk_def\<close>)

section \<open>Assembling and flushing keep the invariant and end\<close>

lemma part_count_all: "part_count ps = length ps \<longleftrightarrow> None \<notin> set ps"
  unfolding part_count_def by (metis (mono_tags, lifting) filter_True length_filter_less less_irrefl)

lemma join_parts_Some:
  "None \<notin> set ps \<Longrightarrow> join_parts ps = Some (concat (map the ps)) \<and> length (concat (map the ps)) = part_bytes ps"
proof (induction ps)
  case (Cons a ps)
  then show ?case by (cases a) (simp_all add: part_bytes_def)
qed (simp add: part_bytes_def)

lemma complete_join:
  assumes "frame_ok f" "is_complete f"
  shows "join_parts (pf_parts f) = Some (concat (map the (pf_parts f)))" "length (concat (map the (pf_parts f))) = pf_bytes f"
  using assms join_parts_Some [of "pf_parts f"] part_count_all [of "pf_parts f"]
  by (simp_all add: frame_ok_def is_complete_def)

definition frame_data :: "pending_frame \<Rightarrow> bytes" where
  "frame_data f = concat (map the (pf_parts f))"

definition frame_rejected :: "u32 \<Rightarrow> pending_frame \<Rightarrow> bool" where
  "frame_rejected frame_id f \<longleftrightarrow> pf_is_v2 f \<and> validate_encoded_frame_v2 (frame_header frame_id f) (frame_data f) \<noteq> Inr ()"

definition unit_of :: "u32 \<Rightarrow> u32 \<Rightarrow> pending_frame \<Rightarrow> video_receiver \<Rightarrow> decode_unit" where
  "unit_of frame_id ep f rx = \<lparr>du_frame_id = frame_id, du_epoch = ep, du_is_key = pf_is_key f,
     du_timestamp_us = pf_timestamp_us f, du_duration_us = uint (pf_timestamp_us f) - uint (last_timestamp_us rx),
     du_data = frame_data f\<rparr>"

lemma assemble_frame_eq:
  assumes "frame_ok f" "is_complete f" "pf_bytes f \<le> buffered_bytes rx"
  shows "assemble_frame frame_id f ep rx =
    (let rx' = rx\<lparr>buffered_bytes := buffered_bytes rx - pf_bytes f\<rparr>
     in if frame_rejected frame_id f then Some (discontinue ep FrameCrc rx', None)
        else Some ((rx'\<lparr>frames_recovered := (if pf_used_recovery f then frames_recovered rx + 1 else frames_recovered rx),
                         last_timestamp_us := pf_timestamp_us f\<rparr>, []), Some (unit_of frame_id ep f rx)))"
  using assms complete_join [OF assms(1,2)]
  by (cases "pf_used_recovery f")
    (simp_all add: assemble_frame_def checked_sub_def frame_rejected_def frame_data_def unit_of_def Let_def)

text \<open>The frame that the next iteration takes out of the reorder queue.\<close>

lemma completed_held:
  assumes "rx_ok rx" "rx_completed rx k = Some c"
  shows "frame_ok (cf_frame c)" "is_complete (cf_frame c)" "cf_frame_id c = snd k" "pf_bytes (cf_frame c) \<le> buffered_bytes rx"
    "k \<in> set (completed_order rx)"
proof -
  note I = rx_invD [OF assms(1) [unfolded rx_ok_def]]
  show "frame_ok (cf_frame c)" "is_complete (cf_frame c)" "cf_frame_id c = snd k" using I(9) [OF assms(2)] by auto
  show "pf_bytes (cf_frame c) \<le> buffered_bytes rx" using held_remove [OF I(14) assms(2), of "\<lambda>c. pf_bytes (cf_frame c)"] I(10) by simp
  show "k \<in> set (completed_order rx)" using I(5) assms(2) by auto
qed

definition take_completed :: "frame_key \<Rightarrow> pending_frame \<Rightarrow> video_receiver \<Rightarrow> video_receiver" where
  "take_completed k f rx = rx\<lparr>rx_completed := (rx_completed rx)(k := None),
     completed_order := filter (\<lambda>q. q \<noteq> k) (completed_order rx), buffered_bytes := buffered_bytes rx - pf_bytes f\<rparr>"

lemma take_completed_ok:
  assumes "rx_ok rx" "rx_completed rx k = Some c"
  shows "rx_ok (take_completed k (cf_frame c) rx)"
    "length (completed_order (take_completed k (cf_frame c) rx)) < length (completed_order rx)"
proof -
  note I = rx_invD [OF assms(1) [unfolded rx_ok_def]]
  have mem: "k \<in> set (completed_order rx)" using I(5) assms(2) by auto
  show len: "length (completed_order (take_completed k (cf_frame c) rx)) < length (completed_order rx)"
    using length_filter_less [OF mem, of "\<lambda>q. q \<noteq> k"] by (simp add: take_completed_def)
  have bytes: "held (\<lambda>c. pf_bytes (cf_frame c)) ((rx_completed rx)(k := None)) + pf_bytes (cf_frame c) =
      held (\<lambda>c. pf_bytes (cf_frame c)) (rx_completed rx)" by (rule held_remove [OF I(14) assms(2)])
  show "rx_ok (take_completed k (cf_frame c) rx)"
    unfolding rx_ok_def rx_inv_def using I bytes len by (auto simp: take_completed_def)
qed

text \<open>What one iteration of \<open>flush_reorder\<close> does in a state that satisfies the invariant.\<close>

definition expected_key :: "video_receiver \<Rightarrow> frame_key option" where
  "expected_key rx = (case completed_order rx of [] \<Rightarrow> None
     | k # _ \<Rightarrow> Some (fst k, case next_frame_id rx of Some n \<Rightarrow> n | None \<Rightarrow> snd k))"

definition flush_deliver :: "frame_key \<Rightarrow> pending_frame \<Rightarrow> video_receiver \<Rightarrow> video_receiver \<times> rx_event list" where
  "flush_deliver k f rx =
     (if frame_rejected (snd k) f
      then (case discontinue (fst k) FrameCrc rx of (rx', evs) \<Rightarrow> (rx'\<lparr>next_frame_id := Some (snd k + 1)\<rparr>, evs))
      else ((take_completed k f rx)\<lparr>frames_recovered := (if pf_used_recovery f then frames_recovered rx + 1 else frames_recovered rx),
              last_timestamp_us := pf_timestamp_us f, next_frame_id := Some (snd k + 1)\<rparr>,
            [RxFrame (unit_of (snd k) (fst k) f rx)]))"

lemma flush_step_eq:
  assumes ok: "rx_ok rx"
  shows "flush_step now rx = Some (case expected_key rx of
      None \<Rightarrow> Inl (rx, [])
    | Some k \<Rightarrow> (case rx_completed rx k of
        None \<Rightarrow> let first = the (rx_completed rx (hd (completed_order rx)))
                in if length (completed_order rx) \<le> REORDER_MAX_COMPLETED_FRAMES \<and> now - cf_completed_at_ms first < REORDER_MAX_WAIT_MS
                   then Inl (rx, []) else Inl (discontinue (fst k) ReorderGap rx)
      | Some c \<Rightarrow> Inr (flush_deliver k (cf_frame c) rx)))"
proof (cases "completed_order rx")
  case Nil
  then show ?thesis by (simp add: flush_step_def expected_key_def)
next
  case (Cons k ks)
  note I = rx_invD [OF ok [unfolded rx_ok_def]]
  obtain first where first: "rx_completed rx k = Some first" using I(5) Cons by (metis domD list.set_intros(1))
  define n where "n = (case next_frame_id rx of Some n \<Rightarrow> n | None \<Rightarrow> cf_frame_id first)"
  let ?e = "(fst k, n)"
  have key: "expected_key rx = Some ?e" using I(9) [OF first] Cons by (simp add: expected_key_def n_def split: option.split)
  show ?thesis
  proof (cases "rx_completed rx ?e")
    case None
    then show ?thesis using Cons first key by (simp add: flush_step_def Let_def flip: n_def)
  next
    case (Some c)
    note C = completed_held [OF ok Some]
    let ?rx = "rx\<lparr>rx_completed := (rx_completed rx)(?e := None), completed_order := filter (\<lambda>q. q \<noteq> ?e) (completed_order rx)\<rparr>"
    note eq = assemble_frame_eq [OF C(1,2), of ?rx "snd ?e" "fst ?e"]
    have "flush_step now rx = Option.bind (assemble_frame (snd ?e) (cf_frame c) (fst ?e) ?rx)
        (\<lambda>((rx, evs), unit). Some (Inr (rx\<lparr>next_frame_id := Some (snd ?e + 1)\<rparr>,
           evs @ (case unit of None \<Rightarrow> [] | Some u \<Rightarrow> [RxFrame u]))))"
      using Cons first Some C(3) by (simp add: flush_step_def Let_def flip: n_def)
    also have "\<dots> = Some (Inr (flush_deliver ?e (cf_frame c) rx))"
      using C(4) eq by (auto simp: Let_def flush_deliver_def take_completed_def discontinue_def unit_of_def)
    finally show ?thesis using key Some by simp
  qed
qed

lemma flush_deliver_ok:
  assumes "rx_ok rx" "rx_completed rx k = Some c"
  shows "rx_ok (fst (flush_deliver k (cf_frame c) rx))" "active_epoch (fst (flush_deliver k (cf_frame c) rx)) = active_epoch rx"
    "length (completed_order (fst (flush_deliver k (cf_frame c) rx))) < length (completed_order rx)"
    "rx_decoder (fst (flush_deliver k (cf_frame c) rx)) = rx_decoder rx"
proof -
  have "completed_order rx \<noteq> []" using completed_held(5) [OF assms] by auto
  then show "rx_ok (fst (flush_deliver k (cf_frame c) rx))" "active_epoch (fst (flush_deliver k (cf_frame c) rx)) = active_epoch rx"
    "length (completed_order (fst (flush_deliver k (cf_frame c) rx))) < length (completed_order rx)"
    "rx_decoder (fst (flush_deliver k (cf_frame c) rx)) = rx_decoder rx"
    using take_completed_ok [OF assms] rx_ok_discontinue [OF rx_invD(1) [OF assms(1) [unfolded rx_ok_def]], of "fst k" FrameCrc]
    by (simp_all add: flush_deliver_def discontinue_def) (simp_all add: take_completed_def)
qed

text \<open>The loop ends because every iteration takes a frame out of the queue.\<close>

lemma flush_reorder_ok:
  assumes "rx_ok rx"
  shows "\<exists>rx' evs. flush_reorder now rx = Some (rx', evs) \<and> rx_ok rx' \<and> active_epoch rx' = active_epoch rx \<and> rx_decoder rx' = rx_decoder rx"
  using assms
proof (induction "length (completed_order rx)" arbitrary: rx rule: less_induct)
  case less
  note eq = flush_step_eq [OF less.prems, of now]
  show ?case
  proof (cases "\<exists>k c. expected_key rx = Some k \<and> rx_completed rx k = Some c")
    case True
    then obtain k c where k: "expected_key rx = Some k" "rx_completed rx k = Some c" by blast
    obtain rx1 evs1 where f: "flush_deliver k (cf_frame c) rx = (rx1, evs1)" by (cases "flush_deliver k (cf_frame c) rx")
    note D = flush_deliver_ok [OF less.prems k(2), unfolded f fst_conv]
    obtain rx' evs where "flush_reorder now rx1 = Some (rx', evs)" "rx_ok rx'" "active_epoch rx' = active_epoch rx1" "rx_decoder rx' = rx_decoder rx1"
      using less.hyps [OF D(3,1)] by blast
    then show ?thesis using eq k f D by (subst flush_reorder.simps) simp
  next
    case False
    then obtain r where "flush_step now rx = Some (Inl r)" "r = (rx, []) \<or> (\<exists>ep. r = discontinue ep ReorderGap rx)"
      using eq by (auto simp: Let_def split: option.splits if_splits)
    moreover have "rx_ok (fst (discontinue ep ReorderGap rx))" for ep
      using less.prems by (intro rx_ok_discontinue) (simp add: rx_ok_def rx_inv_def)
    ultimately show ?thesis using less.prems by (subst flush_reorder.simps) (auto simp: discontinue_def)
  qed
qed

section \<open>Messages and ticks keep the invariant and return\<close>

lemma accept_epoch_ok:
  assumes "rx_ok rx"
  shows "rx_ok (fst (fst (accept_epoch ep is_v2 now rx)))"
    "snd (accept_epoch ep is_v2 now rx) \<Longrightarrow> active_epoch (fst (fst (accept_epoch ep is_v2 now rx))) = Some ep"
proof -
  note I = rx_invD [OF assms [unfolded rx_ok_def]]
  have "rx_ok (rx\<lparr>active_epoch := Some ep\<rparr>)" if "active_epoch rx = None"
  proof -
    have "pending_order rx = []" "completed_order rx = []"
      using that I(12) [of "hd (pending_order rx)"] I(15) [of "hd (completed_order rx)"] by (auto intro: ccontr)
    then show ?thesis using assms by (simp add: rx_ok_def rx_inv_def)
  qed
  then show "rx_ok (fst (fst (accept_epoch ep is_v2 now rx)))"
    using assms by (auto simp: accept_epoch_def Let_def rx_dec_ok_new rx_ok_discontinue split: option.split)
  show "snd (accept_epoch ep is_v2 now rx) \<Longrightarrow> active_epoch (fst (fst (accept_epoch ep is_v2 now rx))) = Some ep"
    by (auto simp: accept_epoch_def Let_def split: option.splits if_splits)
qed

lemma tick_ack_ok [simp]:
  "rx_ok (fst (tick_ack now rx)) = rx_ok rx" "active_epoch (fst (tick_ack now rx)) = active_epoch rx"
  "rx_decoder (fst (tick_ack now rx)) = rx_decoder rx"
  by (simp_all add: tick_ack_def Let_def split: option.split)

lemma deliver_events_ok:
  assumes "rx_ok rx" "active_epoch rx = Some ep"
  shows "\<exists>rx' evs. deliver_events ep is_v2 es now rx = Some (rx', evs) \<and> rx_ok rx' \<and> active_epoch rx' = Some ep"
  using assms
proof (induction ep is_v2 es now rx rule: deliver_events.induct)
  case (2 ep is_v2 seq payload via es now rx)
  obtain rx1 evs1 where 1: "deliver_chunk ep is_v2 payload via now rx = Some (rx1, evs1)" "rx_ok rx1" "active_epoch rx1 = Some ep"
    using deliver_chunk_ok [OF "2.prems"] by blast
  obtain rx2 ack where t: "tick_ack now rx1 = (rx2, ack)" by (cases "tick_ack now rx1")
  then have "rx_ok rx2" "active_epoch rx2 = Some ep" using 1 tick_ack_ok [of now rx1] by simp_all
  then show ?case using "2.IH" [OF 1(1) refl t [symmetric]] 1(1) t by auto
qed auto

lemma rx_ok_set_decoder: "rx_ok rx \<Longrightarrow> rx_dec_ok d \<Longrightarrow> rx_ok (rx\<lparr>rx_decoder := d\<rparr>)"
  by (simp add: rx_ok_def rx_inv_def)

lemma process_decoder_events_ok:
  assumes "rx_ok rx" "active_epoch rx = Some ep"
  shows "\<exists>rx' evs. process_decoder_events ep is_v2 es now rx = Some (rx', evs) \<and> rx_ok rx' \<and> active_epoch rx' = Some ep"
proof -
  obtain rx1 evs1 where r: "(if list_ex is_fec_loss es then discontinue ep FecEviction rx else (rx, [])) = (rx1, evs1)"
    by fastforce
  then have "rx1 = rx \<or> rx1 = fst (discontinue ep FecEviction rx)" by (metis fst_conv)
  then have "rx_ok rx1" "active_epoch rx1 = Some ep"
    using assms rx_ok_discontinue [OF rx_invD(1) [OF assms(1) [unfolded rx_ok_def]]] by auto
  then show ?thesis using deliver_events_ok [of rx1 ep is_v2 es now] r by (auto simp: process_decoder_events_def)
qed

end
