(* ===== verification/Video_Rx_Trace.thy ===== *)
theory Video_Rx_Trace
  imports Video_Rx
begin

text \<open>
  Runs of the receiver. The caller of \<open>VideoReceiver\<close> drives it with wire messages, timer ticks and
  polls of the key-frame request; \<open>rx_trace\<close> is the inductive set of states and emitted events that
  any such sequence reaches. The theorems hold for every trace: totality with the memory bounds, the
  order of acknowledgements, and the key-frame gate with its exception.
\<close>

section \<open>Runs\<close>

datatype rx_input = InMessage bytes nat | InTickEvents nat | InTick nat | InPoll

fun rx_step :: "rx_input \<Rightarrow> video_receiver \<Rightarrow> (video_receiver \<times> rx_event list) option" where
  "rx_step (InMessage buf now_ms) rx = on_message buf now_ms rx"
| "rx_step (InTickEvents now_ms) rx = tick_events now_ms rx"
| "rx_step (InTick now_ms) rx = (let (rx, ack) = rx_tick now_ms rx in Some (rx, ack_events ack))"
| "rx_step InPoll rx = Some (fst (poll_needs_idr rx), [])"

inductive rx_trace :: "video_receiver \<Rightarrow> rx_event list \<Rightarrow> bool" where
  rx_start: "rx_trace (rx_new now_ms) []"
| rx_next: "rx_trace rx evs \<Longrightarrow> rx_step i rx = Some (rx', evs') \<Longrightarrow> rx_trace rx' (evs @ evs')"

section \<open>Every input is handled and keeps the invariant\<close>

lemma on_message_ok:
  assumes ok: "rx_ok rx"
  shows "\<exists>rx' evs. on_message buf now rx = Some (rx', evs) \<and> rx_ok rx'"
proof (cases "parse_symbol_msg_versioned buf")
  case (Inr m)
  obtain ep is_v2 y where m: "message_symbol m = (ep, is_v2, y)" by (cases "message_symbol m")
  obtain rx1 out1 b where a: "accept_epoch ep is_v2 now rx = ((rx1, out1), b)"
    by (metis prod.exhaust)
  have 1: "rx_ok rx1" "b \<Longrightarrow> active_epoch rx1 = Some ep" using accept_epoch_ok [OF ok, of ep is_v2 now] a by auto
  show ?thesis
  proof (cases b)
    case True
    obtain d evs where d: "push_symbol (rx_decoder rx1) y = Some (d, evs)" "rx_dec_ok d"
      using dec_ok_push_symbol [of "rx_decoder rx1" y] rx_invD(1) [OF 1(1) [unfolded rx_ok_def]]
      by (auto simp: rx_dec_ok_def same_limits_def)
    obtain rx2 out2 where 2: "process_decoder_events ep is_v2 evs now (rx1\<lparr>rx_decoder := d\<rparr>) = Some (rx2, out2)" "rx_ok rx2"
      using process_decoder_events_ok [of "rx1\<lparr>rx_decoder := d\<rparr>" ep is_v2 evs now] rx_ok_set_decoder [OF 1(1) d(2)] 1(2) True
      by auto
    obtain rx3 out3 where "flush_reorder now rx2 = Some (rx3, out3)" "rx_ok rx3" using flush_reorder_ok [OF 2(2)] by blast
    then show ?thesis using Inr m a True d 2 by (simp add: on_message_def)
  next
    case False
    then show ?thesis using Inr m a 1 by (simp add: on_message_def)
  qed
qed (use ok in \<open>simp add: on_message_def\<close>)

lemma rx_step_ok:
  assumes "rx_ok rx"
  shows "\<exists>rx' evs. rx_step i rx = Some (rx', evs) \<and> rx_ok rx'"
proof (cases i)
  case (InMessage buf now)
  then show ?thesis using on_message_ok [OF assms] by simp
next
  case (InTickEvents now)
  obtain rx1 out where f: "flush_reorder now rx = Some (rx1, out)" "rx_ok rx1" using flush_reorder_ok [OF assms] by blast
  obtain rx2 ack where "tick_ack now rx1 = (rx2, ack)" by (cases "tick_ack now rx1")
  then show ?thesis using InTickEvents f tick_ack_ok(1) [of now rx1] by (simp add: tick_events_def)
next
  case (InTick now)
  obtain rx2 ack where "tick_ack now rx = (rx2, ack)" by (cases "tick_ack now rx")
  then show ?thesis using InTick assms tick_ack_ok(1) [of now rx] by (simp add: rx_tick_def)
next
  case InPoll
  then show ?thesis using assms by (simp add: poll_needs_idr_def)
qed

lemma rx_trace_ok: "rx_trace rx evs \<Longrightarrow> rx_ok rx"
proof (induction rule: rx_trace.induct)
  case (rx_next rx evs i rx' evs')
  then show ?case using rx_step_ok [of rx i] by auto
qed (rule rx_ok_new)

text \<open>
  C2. The receiver handles every input sequence. Whatever messages, ticks and polls arrive, no call
  panics and every loop ends; the frames under reassembly and in the reorder queue are at most 8 together
  and their buffered bytes, which the counter states exactly, at most 16 MiB; the FEC decoder retains at
  most 128 source and 128 repair symbols and 16 MiB + 8 bytes.
\<close>

theorem receiver_total_bounded:
  assumes "rx_trace rx evs"
  shows "(\<exists>rx' evs'. rx_step i rx = Some (rx', evs') \<and> rx_trace rx' (evs @ evs')) \<and>
    card (dom (rx_pending rx)) + card (dom (rx_completed rx)) \<le> 8 \<and>
    buffered_bytes rx = (\<Sum>k \<in> dom (rx_pending rx). part_bytes (pf_parts (the (rx_pending rx k)))) +
      (\<Sum>k \<in> dom (rx_completed rx). part_bytes (pf_parts (cf_frame (the (rx_completed rx k))))) \<and>
    buffered_bytes rx \<le> 16 * 1024 * 1024 \<and>
    source_symbols (accounting (rx_decoder rx)) \<le> 128 \<and> repair_symbols (accounting (rx_decoder rx)) \<le> 128 \<and>
    retained_bytes (accounting (rx_decoder rx)) \<le> 16 * 1024 * 1024 + 8"
proof -
  have ok: "rx_ok rx" by (rule rx_trace_ok [OF assms])
  note I = rx_invD [OF ok [unfolded rx_ok_def]]
  have steps: "\<exists>rx' evs'. rx_step i rx = Some (rx', evs') \<and> rx_trace rx' (evs @ evs')"
    using rx_step_ok [OF ok, of i] rx_trace.rx_next [OF assms] by blast
  have p: "pf_bytes (the (rx_pending rx k)) = part_bytes (pf_parts (the (rx_pending rx k)))" if "k \<in> dom (rx_pending rx)" for k
    using that I(8) [of k] by (auto simp: frame_ok_def)
  have c: "pf_bytes (cf_frame (the (rx_completed rx k))) = part_bytes (pf_parts (cf_frame (the (rx_completed rx k))))"
    if "k \<in> dom (rx_completed rx)" for k using that I(9) [of k] by (auto simp: frame_ok_def)
  have bytes: "buffered_bytes rx = (\<Sum>k \<in> dom (rx_pending rx). part_bytes (pf_parts (the (rx_pending rx k)))) +
      (\<Sum>k \<in> dom (rx_completed rx). part_bytes (pf_parts (cf_frame (the (rx_completed rx k)))))"
    unfolding I(10) held_def by (intro arg_cong2 [where f = "(+)"] sum.cong refl p c)
  have "card (dom (rx_pending rx)) + card (dom (rx_completed rx)) \<le> 8"
    using I(3,5,7) distinct_card [OF I(2)] distinct_card [OF I(4)] by (simp add: MAX_PENDING_FRAMES_def)
  moreover have "length (sources (rx_decoder rx)) \<le> 128 \<and> length (repairs (rx_decoder rx)) \<le> 128 \<and> retained (rx_decoder rx) \<le> 16777224"
    using I(1) by (auto simp: RX_DECODER_MAX_BYTES_def rx_dec_ok_def dec_ok_def dec_core_def)
  ultimately show ?thesis using steps bytes I(11) by (simp add: RX_DECODER_MAX_BYTES_def)
qed

theorem receiver_total_bounded_witness:
  "\<exists>rx' evs'. rx_step (InMessage [0, 1] 7) (rx_new 5) = Some (rx', evs') \<and> rx_trace rx' evs'"
  using receiver_total_bounded [OF rx_start, of "InMessage [0, 1] 7" 5] by simp

section \<open>Monitors on the event stream\<close>

text \<open>
  A property of the order of events is a monitor: a partial step function on monitor states, which
  fails at a forbidden event. The interface asks, for each primitive operation of the receiver, that
  a relation between the receiver and the monitor is kept; then the monitor accepts every trace.
\<close>

fun monitor_run :: "('m \<Rightarrow> rx_event \<Rightarrow> 'm option) \<Rightarrow> 'm \<Rightarrow> rx_event list \<Rightarrow> 'm option" where
  "monitor_run mstep m [] = Some m"
| "monitor_run mstep m (e # es) = Option.bind (mstep m e) (\<lambda>m'. monitor_run mstep m' es)"

lemma monitor_run_append:
  "monitor_run mstep m (es @ es') = Option.bind (monitor_run mstep m es) (\<lambda>m'. monitor_run mstep m' es')"
  by (induction es arbitrary: m) (simp_all add: Option.bind_assoc)

definition monitored :: "('m \<Rightarrow> rx_event \<Rightarrow> 'm option) \<Rightarrow> (video_receiver \<Rightarrow> 'm \<Rightarrow> bool) \<Rightarrow> 'm \<Rightarrow>
    video_receiver \<Rightarrow> rx_event list \<Rightarrow> bool" where
  "monitored mstep R m rx es \<longleftrightarrow> (\<exists>m'. monitor_run mstep m es = Some m' \<and> R rx m')"

lemma monitored_Nil [simp]: "monitored mstep R m rx [] = R rx m"
  by (simp add: monitored_def)

lemma monitored_append:
  assumes "monitored mstep R m rx es" and "\<And>m'. R rx m' \<Longrightarrow> monitored mstep R m' rx' es'"
  shows "monitored mstep R m rx' (es @ es')"
  using assms unfolding monitored_def monitor_run_append by fastforce

locale rx_monitor =
  fixes mstep :: "'m \<Rightarrow> rx_event \<Rightarrow> 'm option" and start :: 'm and R :: "video_receiver \<Rightarrow> 'm \<Rightarrow> bool"
  assumes new: "R (rx_new now) start"
    and decoder: "R (rx\<lparr>rx_decoder := d\<rparr>) m = R rx m"
    and poll: "R (rx\<lparr>needs_idr := b\<rparr>) m = R rx m"
    and discontinued: "r \<noteq> EpochTransition \<Longrightarrow> rx_ok rx \<Longrightarrow> R rx m \<Longrightarrow>
      monitored mstep R m (fst (discontinue ep r rx)) (snd (discontinue ep r rx))"
    and epochs: "rx_ok rx \<Longrightarrow> R rx m \<Longrightarrow>
      monitored mstep R m (fst (fst (accept_epoch ep is_v2 now rx))) (snd (fst (accept_epoch ep is_v2 now rx)))"
    and acks: "R rx m \<Longrightarrow> monitored mstep R m (fst (tick_ack now rx)) (ack_events (snd (tick_ack now rx)))"
    and opened: "rx_ok rx \<Longrightarrow> active_epoch rx = Some ep \<Longrightarrow> R rx m \<Longrightarrow>
      rx_completed rx (ep, ck_frame_id c) = None \<Longrightarrow> open_pending ep is_v2 c rx = Inr rx' \<Longrightarrow> R rx' m"
    and stored: "rx_ok rx \<Longrightarrow> R rx m \<Longrightarrow> rx_pending rx k = Some f \<Longrightarrow> pf_is_key f' = pf_is_key f \<Longrightarrow>
      R (rx\<lparr>rx_pending := (rx_pending rx)(k \<mapsto> f'), buffered_bytes := n\<rparr>) m"
    and completed: "R rx m \<Longrightarrow> rx_pending rx k = Some f \<Longrightarrow> active_epoch rx = Some (fst k) \<Longrightarrow>
      rx_completed rx k = None \<Longrightarrow> complete_frame k f now rx = Some rx' \<Longrightarrow> R rx' m"
    and flushed: "rx_ok rx \<Longrightarrow> R rx m \<Longrightarrow> expected_key rx = Some k \<Longrightarrow> rx_completed rx k = Some cf \<Longrightarrow>
      monitored mstep R m (fst (flush_deliver k (cf_frame cf) rx)) (snd (flush_deliver k (cf_frame cf) rx))"
begin

lemma stop:
  assumes "(rx', es) = discontinue ep r rx" "r \<noteq> EpochTransition" "rx_ok rx" "R rx m"
  shows "monitored mstep R m rx' es"
  using discontinued [OF assms(2-4), of ep] assms(1) by (metis fst_conv snd_conv)

lemma chunk:
  assumes ok: "rx_ok rx" "active_epoch rx = Some ep" and R: "R rx m"
    and d: "deliver_chunk ep is_v2 payload via now rx = Some (rx', es)"
  shows "monitored mstep R m rx' es"
proof (cases "parse_delivery is_v2 payload")
  case None
  then show ?thesis using d R by (simp add: deliver_chunk_def)
next
  case (Some c)
  let ?k = "(ep, ck_frame_id c)"
  show ?thesis
  proof (cases "chunk_geometry_ok is_v2 c \<and> rx_completed rx ?k = None")
    case False
    then have "rx' = rx \<and> es = []" using d Some by (auto simp: deliver_chunk_def split: if_splits)
    then show ?thesis using R by simp
  next
    case True
    then have g: "chunk_geometry_ok is_v2 c" and nc: "rx_completed rx ?k = None" by auto
    note O = open_pending_ok [OF ok(1) g ok(2) nc]
    show ?thesis
    proof (cases "open_pending ep is_v2 c rx")
      case (Inl stop)
      then have "\<exists>r. r \<noteq> EpochTransition \<and> stop = discontinue ep r rx"
        by (auto simp: open_pending_def Let_def split: if_splits)
      moreover have "stop = (rx', es)" using d True Some Inl by (simp add: deliver_chunk_def)
      ultimately show ?thesis by (metis stop ok(1) R)
    next
      case (Inr rx1)
      have R1: "R rx1 m" by (rule opened [OF ok R nc Inr])
      have O1: "rx_ok rx1" "active_epoch rx1 = Some ep" "rx_pending rx1 ?k \<noteq> None" "rx_completed rx1 ?k = None"
        using O Inr by simp_all
      then obtain f where f: "rx_pending rx1 ?k = Some f" by blast
      let ?f = "add_part (unat (ck_index c)) (ck_fragment c) via f"
      let ?rx = "rx1\<lparr>rx_pending := (rx_pending rx1)(?k \<mapsto> ?f), buffered_bytes := buffered_bytes rx1 + length (ck_fragment c)\<rparr>"
      have R2: "R ?rx m" by (rule stored [OF O1(1) R1 f]) (simp add: add_part_def)
      have "store_chunk ep is_v2 c via now rx1 = Some (rx', es)" using d True Some Inr by (simp add: deliver_chunk_def)
      then consider "rx' = rx1" "es = []" | r where "r \<noteq> EpochTransition" "(rx', es) = discontinue ep r rx1"
        | "rx' = ?rx" "es = []" | "complete_frame ?k ?f now ?rx = Some rx'" "es = []"
        using f by (fastforce simp: store_chunk_def Let_def split: if_splits)
      then show ?thesis
      proof cases
        case 2
        then show ?thesis using stop O1(1) R1 by blast
      next
        case 4
        then show ?thesis using completed [OF R2, of ?k ?f now rx'] O1(2,4) by simp
      qed (use R1 R2 in simp_all)
    qed
  qed
qed

lemma tick:
  assumes "R rx m" "tick_ack now rx = (rx', ack)"
  shows "monitored mstep R m rx' (ack_events ack)"
  using acks [OF assms(1), of now] assms(2) by simp

lemma events:
  assumes "rx_ok rx" "active_epoch rx = Some ep" "R rx m" "deliver_events ep is_v2 des now rx = Some (rx', es)"
  shows "monitored mstep R m rx' es"
  using assms
proof (induction ep is_v2 des now rx arbitrary: m rx' es rule: deliver_events.induct)
  case (2 ep is_v2 seq payload via des now rx)
  obtain rx1 es1 where 1: "deliver_chunk ep is_v2 payload via now rx = Some (rx1, es1)" "rx_ok rx1" "active_epoch rx1 = Some ep"
    using deliver_chunk_ok [OF "2.prems"(1,2)] by blast
  obtain rx2 ack where t: "tick_ack now rx1 = (rx2, ack)" by (cases "tick_ack now rx1")
  have ok2: "rx_ok rx2" "active_epoch rx2 = Some ep" using 1 t tick_ack_ok(1,2) [of now rx1] by simp_all
  obtain es3 where 3: "deliver_events ep is_v2 des now rx2 = Some (rx', es3)" "es = es1 @ ack_events ack @ es3"
    using "2.prems"(4) 1(1) t by (auto simp: bind_eq_Some_conv)
  have r: "monitored mstep R m' rx' es3" if "R rx2 m'" for m'
    by (rule "2.IH" [OF 1(1) refl t [symmetric] refl ok2 that 3(1)])
  show ?case unfolding 3(2)
    by (rule monitored_append [OF chunk [OF "2.prems"(1-3) 1(1)]], rule monitored_append [OF tick [OF _ t] r])
qed auto

lemma flush:
  assumes "rx_ok rx" "R rx m" "flush_reorder now rx = Some (rx', es)"
  shows "monitored mstep R m rx' es"
  using assms
proof (induction "length (completed_order rx)" arbitrary: rx m es rule: less_induct)
  case less
  note eq = flush_step_eq [OF less.prems(1), of now]
  show ?case
  proof (cases "\<exists>k c. expected_key rx = Some k \<and> rx_completed rx k = Some c")
    case True
    then obtain k c where k: "expected_key rx = Some k" "rx_completed rx k = Some c" by blast
    obtain rx1 es1 where f: "flush_deliver k (cf_frame c) rx = (rx1, es1)" by (cases "flush_deliver k (cf_frame c) rx")
    note D = flush_deliver_ok [OF less.prems(1) k(2), unfolded f fst_conv]
    obtain es2 where 2: "flush_reorder now rx1 = Some (rx', es2)" "es = es1 @ es2"
      using less.prems(3) eq k f by (subst (asm) flush_reorder.simps) (auto simp: bind_eq_Some_conv)
    have "monitored mstep R m rx1 es1" using flushed [OF less.prems(1,2) k] f by simp
    then show ?thesis unfolding 2(2) by (rule monitored_append) (rule less.hyps [OF D(3,1) _ 2(1)])
  next
    case False
    then obtain r where "flush_step now rx = Some (Inl r)" "r = (rx, []) \<or> (\<exists>ep. r = discontinue ep ReorderGap rx)"
      using eq by (auto simp: Let_def split: option.splits if_splits)
    then have "(rx', es) = (rx, []) \<or> (\<exists>ep. (rx', es) = discontinue ep ReorderGap rx)"
      using less.prems(3) by (subst (asm) flush_reorder.simps) auto
    then show ?thesis using less.prems(1,2) stop [of rx' es _ ReorderGap rx m] by auto
  qed
qed

lemma message:
  assumes ok: "rx_ok rx" and R: "R rx m" and s: "on_message buf now rx = Some (rx', es)"
  shows "monitored mstep R m rx' es"
proof (cases "parse_symbol_msg_versioned buf")
  case (Inr msg)
  obtain ep is_v2 y where m: "message_symbol msg = (ep, is_v2, y)" by (cases "message_symbol msg")
  obtain rx1 es1 b where a: "accept_epoch ep is_v2 now rx = ((rx1, es1), b)" by (metis prod.exhaust)
  have 1: "rx_ok rx1" "b \<Longrightarrow> active_epoch rx1 = Some ep" using accept_epoch_ok [OF ok, of ep is_v2 now] a by auto
  have M1: "monitored mstep R m rx1 es1" using epochs [OF ok R, of ep is_v2 now] a by simp
  show ?thesis
  proof (cases b)
    case True
    obtain d des where d: "push_symbol (rx_decoder rx1) y = Some (d, des)" "rx_dec_ok d"
      using dec_ok_push_symbol [of "rx_decoder rx1" y] rx_invD(1) [OF 1(1) [unfolded rx_ok_def]]
      by (auto simp: rx_dec_ok_def same_limits_def)
    let ?rx = "rx1\<lparr>rx_decoder := d\<rparr>"
    have okd: "rx_ok ?rx" "active_epoch ?rx = Some ep" using rx_ok_set_decoder [OF 1(1) d(2)] 1(2) True by simp_all
    obtain rx2 es2 where l: "(if list_ex is_fec_loss des then discontinue ep FecEviction ?rx else (?rx, [])) = (rx2, es2)" by fastforce
    have "rx2 = ?rx \<or> rx2 = fst (discontinue ep FecEviction ?rx)" using l by (metis fst_conv)
    then have ok2: "rx_ok rx2" "active_epoch rx2 = Some ep"
      using okd rx_ok_discontinue [OF rx_invD(1) [OF okd(1) [unfolded rx_ok_def]]] by auto
    have M2: "monitored mstep R m' rx2 es2" if "R rx1 m'" for m'
      using l stop [of rx2 es2 ep FecEviction ?rx m'] okd(1) that by (cases "list_ex is_fec_loss des") (auto simp: decoder)
    obtain rx3 es3 where e: "deliver_events ep is_v2 des now rx2 = Some (rx3, es3)" "rx_ok rx3"
      using deliver_events_ok [OF ok2] by blast
    obtain es4 where f: "flush_reorder now rx3 = Some (rx', es4)" "es = es1 @ es2 @ es3 @ es4"
      using s Inr m a True d(1) l e(1) by (auto simp: on_message_def process_decoder_events_def bind_eq_Some_conv)
    have "monitored mstep R m' rx' es4" if "R rx3 m'" for m' by (rule flush [OF e(2) that f(1)])
    then have "monitored mstep R m' rx' (es3 @ es4)" if "R rx2 m'" for m'
      by (rule monitored_append [OF events [OF ok2 that e(1)]])
    then have "monitored mstep R m' rx' (es2 @ es3 @ es4)" if "R rx1 m'" for m'
      by (rule monitored_append [OF M2 [OF that]])
    then show ?thesis unfolding f(2) by (rule monitored_append [OF M1])
  next
    case False
    then show ?thesis using s Inr m a M1 by (simp add: on_message_def)
  qed
qed (use s R in \<open>simp add: on_message_def\<close>)

lemma steps:
  assumes "rx_ok rx" "R rx m" "rx_step i rx = Some (rx', es)"
  shows "monitored mstep R m rx' es"
proof (cases i)
  case (InMessage buf now)
  then show ?thesis using message assms by simp
next
  case (InTickEvents now)
  obtain rx1 es1 where f: "flush_reorder now rx = Some (rx1, es1)" using flush_reorder_ok [OF assms(1)] by blast
  obtain rx2 ack where t: "tick_ack now rx1 = (rx2, ack)" by (cases "tick_ack now rx1")
  show ?thesis
    using monitored_append [OF flush [OF assms(1,2) f] tick [OF _ t]] assms(3) InTickEvents f t by (simp add: tick_events_def)
next
  case (InTick now)
  obtain rx2 ack where "tick_ack now rx = (rx2, ack)" by (cases "tick_ack now rx")
  then show ?thesis using tick [OF assms(2), of now rx2 ack] assms(3) InTick by (auto simp: rx_tick_def)
next
  case InPoll
  then show ?thesis using assms(2,3) by (auto simp: poll_needs_idr_def poll)
qed

lemma traces: "rx_trace rx es \<Longrightarrow> monitored mstep R start rx es"
proof (induction rule: rx_trace.induct)
  case (rx_next rx es i rx' es')
  show ?case by (rule monitored_append [OF rx_next.IH], rule steps [OF rx_trace_ok [OF rx_next.hyps(1)] _ rx_next.hyps(2)])
qed (simp add: new)

end

section \<open>Acknowledgements\<close>

text \<open>Within an epoch each acknowledged sequence number is ahead of the one before it.\<close>

fun ack_monitor :: "u32 option \<Rightarrow> rx_event \<Rightarrow> u32 option option" where
  "ack_monitor a (RxAck s) = (if a = None \<or> seq_advanced s (the a) then Some (Some s) else None)"
| "ack_monitor a (RxDiscontinuity _ r) = Some (if r = EpochTransition then None else a)"
| "ack_monitor a (RxFrame _) = Some a"

definition ack_rel :: "video_receiver \<Rightarrow> u32 option \<Rightarrow> bool" where
  "ack_rel rx a \<longleftrightarrow> a = last_acked_highest rx \<and> symbols_since_ack rx < ACK_SYMBOL_INTERVAL"

lemma since_ack_step: "\<not> ACK_SYMBOL_INTERVAL \<le> u + 1 \<Longrightarrow> u + 1 < ACK_SYMBOL_INTERVAL"
  by simp

interpretation acks: rx_monitor ack_monitor None ack_rel
proof unfold_locales
  fix rx :: video_receiver and m now
  assume "ack_rel rx m"
  then show "monitored ack_monitor ack_rel m (fst (tick_ack now rx)) (ack_events (snd (tick_ack now rx)))"
    by (auto simp: monitored_def ack_rel_def tick_ack_def ack_events_def Let_def ACK_SYMBOL_INTERVAL_def not_le
        split: option.split)
next
  fix rx :: video_receiver and m ep is_v2 now
  assume "ack_rel rx m"
  then show "monitored ack_monitor ack_rel m (fst (fst (accept_epoch ep is_v2 now rx))) (snd (fst (accept_epoch ep is_v2 now rx)))"
    by (auto simp: monitored_def ack_rel_def accept_epoch_def discontinue_def Let_def ACK_SYMBOL_INTERVAL_def split: option.split)
qed (auto simp: ack_rel_def monitored_def rx_new_def discontinue_def open_pending_def complete_frame_def
    flush_deliver_def take_completed_def ACK_SYMBOL_INTERVAL_def Let_def split: if_splits)

section \<open>The key-frame gate\<close>

text \<open>
  After a discontinuity the consumer's decoder has lost its references: the next frame must be a key
  frame. A discontinuity for a frame checksum is the exception (\<open>Off\<close>): \<open>flush_reorder\<close> sets the
  ordering anchor again after the discontinuity has cleared it.
\<close>

datatype gate = Open | Wait | Off

fun gate_monitor :: "gate \<Rightarrow> rx_event \<Rightarrow> gate option" where
  "gate_monitor g (RxFrame u) =
     (case g of Wait \<Rightarrow> if du_is_key u then Some Open else None | Open \<Rightarrow> Some Open | Off \<Rightarrow> Some Off)"
| "gate_monitor g (RxDiscontinuity _ r) = Some (if r = FrameCrc then Off else Wait)"
| "gate_monitor g (RxAck _) = Some g"

definition key_at :: "video_receiver \<Rightarrow> frame_key \<Rightarrow> bool" where
  "key_at rx k \<longleftrightarrow> (\<exists>f. rx_pending rx k = Some f \<and> pf_is_key f) \<or> (\<exists>c. rx_completed rx k = Some c \<and> pf_is_key (cf_frame c))"

text \<open>While the gate is shut, the ordering anchor is a key frame that the receiver holds.\<close>

definition anchored :: "video_receiver \<Rightarrow> bool" where
  "anchored rx \<longleftrightarrow>
     (case next_frame_id rx of
        Some n \<Rightarrow> (\<exists>ep. active_epoch rx = Some ep \<and> key_at rx (ep, n))
      | None \<Rightarrow> awaiting_idr rx \<and> (\<forall>k f. rx_pending rx k = Some f \<longrightarrow> \<not> pf_is_key f))"

definition gate_rel :: "video_receiver \<Rightarrow> gate \<Rightarrow> bool" where
  "gate_rel rx g \<longleftrightarrow> (awaiting_idr rx \<longrightarrow> completed_order rx = [] \<and> dom (rx_completed rx) = {} \<and> g \<noteq> Open) \<and> (g = Wait \<longrightarrow> anchored rx)"

lemma gate_discontinue:
  "gate_rel (fst (discontinue ep r rx)) Wait" "gate_rel (fst (discontinue ep r rx)) Off"
  "gate_rel ((fst (discontinue ep r rx))\<lparr>next_frame_id := n\<rparr>) Off"
  by (simp_all add: gate_rel_def anchored_def discontinue_def)

lemma gate_new: "gate_rel (rx_new now) Open"
  by (simp add: gate_rel_def rx_new_def)

lemma gate_irrelevant: "gate_rel (rx\<lparr>rx_decoder := d\<rparr>) g = gate_rel rx g" "gate_rel (rx\<lparr>needs_idr := b\<rparr>) g = gate_rel rx g"
  by (simp_all add: gate_rel_def anchored_def key_at_def split: option.split)

lemma gate_open_pending:
  assumes R: "gate_rel rx g" and ep: "active_epoch rx = Some ep" and o: "open_pending ep is_v2 c rx = Inr rx'"
  shows "gate_rel rx' g"
proof (cases "rx_pending rx (ep, ck_frame_id c)")
  case None
  let ?k = "(ep, ck_frame_id c)"
  have pend: "rx_pending rx' = (rx_pending rx)(?k \<mapsto> new_pending is_v2 c)" "rx_completed rx' = rx_completed rx"
    "completed_order rx' = completed_order rx" "awaiting_idr rx' = awaiting_idr rx" "active_epoch rx' = active_epoch rx"
    and nxt: "next_frame_id rx' = (if next_frame_id rx = None \<and> (\<not> awaiting_idr rx \<or> ck_is_key c) then Some (ck_frame_id c) else next_frame_id rx)"
    using o None by (auto simp: open_pending_def Let_def split: if_splits)
  have keep: "key_at rx k \<Longrightarrow> key_at rx' k" for k using None by (auto simp: key_at_def pend)
  have new: "ck_is_key c \<Longrightarrow> key_at rx' ?k" by (simp add: key_at_def pend new_pending_def)
  have "anchored rx'" if "anchored rx"
  proof (cases "next_frame_id rx")
    case None
    then show ?thesis using that ep new by (auto simp: anchored_def pend nxt new_pending_def)
  next
    case (Some n)
    then show ?thesis using that keep by (auto simp: anchored_def pend nxt)
  qed
  then show ?thesis using R by (simp add: gate_rel_def pend)
qed (use R o in \<open>auto simp: open_pending_def\<close>)

lemma gate_store:
  assumes "gate_rel rx g" "rx_pending rx k = Some f" "pf_is_key f' = pf_is_key f"
  shows "gate_rel (rx\<lparr>rx_pending := (rx_pending rx)(k \<mapsto> f'), buffered_bytes := n\<rparr>) g"
proof -
  let ?rx = "rx\<lparr>rx_pending := (rx_pending rx)(k \<mapsto> f'), buffered_bytes := n\<rparr>"
  have keep: "key_at rx q \<Longrightarrow> key_at ?rx q" for q using assms(2,3) by (auto simp: key_at_def)
  have "anchored ?rx" if "anchored rx"
    using that keep assms(2,3) by (auto simp: anchored_def split: option.splits)
  then show ?thesis using assms(1) by (simp add: gate_rel_def)
qed

lemma gate_complete:
  assumes R: "gate_rel rx g" and k: "rx_pending rx k = Some f" "active_epoch rx = Some (fst k)"
    and nc: "rx_completed rx k = None" and c: "complete_frame k f now rx = Some rx'"
  shows "gate_rel rx' g"
proof (cases "awaiting_idr rx \<and> \<not> pf_is_key f")
  case True
  have pend: "rx_pending rx' = (rx_pending rx)(k := None)" "rx_completed rx' = rx_completed rx"
    "completed_order rx' = completed_order rx" "awaiting_idr rx'" "active_epoch rx' = active_epoch rx"
    "next_frame_id rx' = (if next_frame_id rx = Some (snd k) then None else next_frame_id rx)"
    using c True by (auto simp: complete_frame_def Let_def)
  have "anchored rx'" if "anchored rx"
  proof -
    have "\<not> key_at rx k" using k(1) nc True by (auto simp: key_at_def)
    then have "next_frame_id rx' = next_frame_id rx" using that k(2) pend(6) by (auto simp: anchored_def)
    moreover have "key_at rx q \<Longrightarrow> q \<noteq> k \<Longrightarrow> key_at rx' q" for q by (auto simp: key_at_def pend)
    ultimately show ?thesis using that \<open>\<not> key_at rx k\<close> pend by (auto simp: anchored_def split: option.splits if_splits)
  qed
  then show ?thesis using R True by (auto simp: gate_rel_def pend)
next
  case False
  have pend: "rx_pending rx' = (rx_pending rx)(k := None)" "\<not> awaiting_idr rx'" "active_epoch rx' = active_epoch rx"
    "rx_completed rx' = (rx_completed rx)(k \<mapsto> \<lparr>cf_frame_id = snd k, cf_frame = f, cf_completed_at_ms = now\<rparr>)"
    "next_frame_id rx' = next_frame_id rx"
    using c False by (auto simp: complete_frame_def Let_def split: if_splits)
  have keep: "key_at rx q \<Longrightarrow> key_at rx' q" for q using k(1) nc by (auto simp: key_at_def pend)
  have "anchored rx'" if "anchored rx"
    using that keep False k(1) by (auto simp: anchored_def pend split: option.splits)
  then show ?thesis using R by (simp add: gate_rel_def pend)
qed

lemma gate_flush:
  assumes ok: "rx_ok rx" and R: "gate_rel rx g" and k: "expected_key rx = Some k" "rx_completed rx k = Some c"
  shows "monitored gate_monitor gate_rel g (fst (flush_deliver k (cf_frame c) rx)) (snd (flush_deliver k (cf_frame c) rx))"
proof (cases "frame_rejected (snd k) (cf_frame c)")
  case True
  then show ?thesis
    using gate_discontinue(3) [where ep = "fst k" and r = FrameCrc and rx = rx and n = "Some (snd k + 1)"]
    by (simp add: monitored_def flush_deliver_def discontinue_def)
next
  case False
  note I = rx_invD [OF ok [unfolded rx_ok_def]]
  have ne: "\<not> awaiting_idr rx" using R k(2) by (auto simp: gate_rel_def)
  have key: "pf_is_key (cf_frame c)" if "g = Wait"
  proof -
    have a: "anchored rx" using R that by (simp add: gate_rel_def)
    then obtain n ep where n: "next_frame_id rx = Some n" "active_epoch rx = Some ep" "key_at rx (ep, n)"
      using ne by (auto simp: anchored_def split: option.splits)
    obtain k0 ks where co: "completed_order rx = k0 # ks" using k(1) by (cases "completed_order rx") (auto simp: expected_key_def)
    then have "fst k0 = ep" using I(15) [of k0] n(2) by simp
    then have "k = (ep, n)" using k(1) n(1) co by (simp add: expected_key_def)
    moreover have "rx_pending rx k = None" using completed_held(5) [OF ok k(2)] I(3,6) by auto
    ultimately show ?thesis using n(3) k(2) by (auto simp: key_at_def)
  qed
  then have "gate_monitor g (RxFrame (unit_of (snd k) (fst k) (cf_frame c) rx)) = Some (if g = Off then Off else Open)"
    by (cases g) (simp_all add: unit_of_def)
  then show ?thesis using False ne by (simp add: monitored_def flush_deliver_def gate_rel_def take_completed_def)
qed

interpretation gate: rx_monitor gate_monitor Open gate_rel
proof unfold_locales
  fix rx :: video_receiver and m ep is_v2 and now :: nat
  assume R: "gate_rel rx m"
  show "monitored gate_monitor gate_rel m (fst (fst (accept_epoch ep is_v2 now rx))) (snd (fst (accept_epoch ep is_v2 now rx)))"
    using R by (auto simp: monitored_def accept_epoch_def discontinue_def Let_def gate_rel_def anchored_def key_at_def
        split: option.splits)
next
  fix rx :: video_receiver and m now
  assume "gate_rel rx m"
  then show "monitored gate_monitor gate_rel m (fst (tick_ack now rx)) (ack_events (snd (tick_ack now rx)))"
    by (auto simp: monitored_def tick_ack_def ack_events_def Let_def gate_rel_def anchored_def key_at_def split: option.split)
next
  fix r rx m ep
  show "monitored gate_monitor gate_rel m (fst (discontinue ep r rx)) (snd (discontinue ep r rx))"
    using gate_discontinue [where ep = ep and r = r and rx = rx] by (auto simp: monitored_def discontinue_def)
qed (rule gate_new gate_irrelevant gate_store gate_flush gate_complete gate_open_pending; assumption)+

text \<open>
  Acknowledgements advance. In the events of any run, within one epoch, every \<open>Ack\<close> carries a
  sequence number strictly ahead (RFC 1982) of the \<open>Ack\<close> before it, so no acknowledgement is repeated
  or withdrawn; an epoch transition starts afresh. The receiver's record of the last acknowledgement is
  the last one emitted, and fewer than 32 recovered symbols are ever waiting for one.
\<close>

theorem acknowledgements_advance:
  assumes "rx_trace rx evs"
  shows "monitor_run ack_monitor None evs = Some (last_acked_highest rx) \<and> symbols_since_ack rx < 32"
  using acks.traces [OF assms] by (auto simp: monitored_def ack_rel_def ACK_SYMBOL_INTERVAL_def)

theorem acknowledgements_advance_witness:
  "monitor_run ack_monitor None [] = Some (last_acked_highest (rx_new 3))"
  using acknowledgements_advance [OF rx_start, of 3] by simp

end
