(* ===== verification/Video_Rx_Reassembly.thy ===== *)
theory Video_Rx_Reassembly
  imports Video_Rx_Trace
begin

text \<open>
  Reassembly against the sender: the chunks that \<open>chunk_frame_v2\<close> makes of a frame, delivered in any
  order and with any repetitions, leave the receiver as exactly one frame event with the original bytes.
  A concrete run shows what a checksum failure does to the frame order.
\<close>

section \<open>The chunks of a frame pass the receiver's checks\<close>

definition chunk_of :: "u32 \<Rightarrow> bool \<Rightarrow> u32 \<Rightarrow> bytes \<Rightarrow> nat \<Rightarrow> chunk_fields" where
  "chunk_of fid k ts data i =
     \<lparr>ck_frame_id = fid, ck_index = word_of_nat i, ck_count = word_of_nat (length (fragments_v2 data)), ck_is_key = k,
      ck_timestamp_us = ts, ck_encoded_len = word_of_nat (length data), ck_encoded_crc = ieee_crc32 data,
      ck_fragment = fragments_v2 data ! i\<rparr>"

lemma chunk_of_parsed:
  assumes "length data \<le> 4194304" "chunk_frame_v2 fid k ts data = Some (Inr bufs)" "i < length bufs"
  shows "parse_delivery True (bufs ! i) = Some (chunk_of fid k ts data i)" "length bufs = length (fragments_v2 data)"
proof -
  have enc: "length bufs = length (fragments_v2 data)"
    "encode_chunk_v2 (header_v2 fid k ts data i) (fragments_v2 data ! i) = Inr (bufs ! i)"
    using chunk_frame_v2_eq [OF assms(1), of fid k ts] assms(2,3) by auto
  show "parse_delivery True (bufs ! i) = Some (chunk_of fid k ts data i)"
    using parse_encode_chunk_v2(1) [OF enc(2)] by (simp add: parse_delivery_def chunk_of_def header_v2_def)
  show "length bufs = length (fragments_v2 data)" by (rule enc(1))
qed

lemma fragment_length:
  assumes i: "i < length (fragments_v2 data)"
  shows "length (fragments_v2 data ! i) =
    (if i + 1 = length (fragments_v2 data) then length data - 1164 * (length (fragments_v2 data) - 1) else 1164)"
proof (cases "data = []")
  case True
  then show ?thesis using i by (simp add: fragments_v2_def)
next
  case False
  let ?n = "length (fragments_v2 data)"
  have n: "?n = div_ceil (length data) 1164" using False fragments_v2_facts(2) [of data] by (cases data) auto
  have "fragments_v2 data ! i = take 1164 (drop (1164 * i) data)"
    using False i chunks_nth [of 1164 i data] by (simp add: fragments_v2_def)
  then have len: "length (fragments_v2 data ! i) = min (length data - 1164 * i) 1164" by simp
  show ?thesis
  proof (cases "i + 1 = ?n")
    case True
    then have "length data \<le> 1164 * (i + 1)" using div_ceil_last [of 1164 "length data"] n by simp
    moreover have "?n - 1 = i" using True by simp
    ultimately show ?thesis using len True by simp
  next
    case less: False
    then have "1164 * (i + 1) < length data" using div_ceil_bound [of 1164 "i + 1" "length data"] n i by simp
    then show ?thesis using len less by simp
  qed
qed

lemma chunk_of_geometry:
  assumes "length data \<le> 4194304" "i < length (fragments_v2 data)"
  shows "chunk_geometry_ok True (chunk_of fid k ts data i)"
proof -
  let ?n = "length (fragments_v2 data)"
  have n: "0 < ?n" "?n \<le> 3604" using fragment_count [OF assms(1)] by auto
  have u: "unat (word_of_nat ?n :: u16) = ?n" "unat (word_of_nat (length data) :: u32) = length data"
    "unat (word_of_nat i + 1 :: u16) = i + 1"
    using n assms by (simp_all add: unat_word_ariths unat_of_nat)
  have "(word_of_nat ?n :: u16) \<noteq> 0" using u(1) n(1) by (metis unat_0 less_irrefl)
  moreover have "\<not> V2_CHUNK_COUNT_MAX < (word_of_nat ?n :: u16)"
    using u(1) n(2) by (simp add: word_less_nat_alt V2_CHUNK_COUNT_MAX_def)
  moreover have "length (fragments_v2 data ! i) = expected_fragment_len (chunk_of fid k ts data i)"
    using fragment_length [OF assms(2)] u by (simp add: expected_fragment_len_def chunk_of_def CHUNK_V2_FRAGMENT_MAX_def)
  ultimately show ?thesis
    using u(1,2) assms(1) fragments_v2_facts(2) [of data]
    by (simp add: chunk_geometry_ok_def chunk_of_def ENCODED_FRAME_MAX_def CHUNK_V2_FRAGMENT_MAX_def)
qed

section \<open>A frame under reassembly\<close>

text \<open>The pending frame that holds the fragments with indices in \<open>S\<close>.\<close>

definition holds_parts :: "bool \<Rightarrow> u32 \<Rightarrow> bytes \<Rightarrow> nat set \<Rightarrow> pending_frame \<Rightarrow> bool" where
  "holds_parts k ts data S f \<longleftrightarrow>
     metadata_matches True (chunk_of 0 k ts data 0) f \<and> length (pf_parts f) = length (fragments_v2 data) \<and>
     (\<forall>i < length (fragments_v2 data). pf_parts f ! i = (if i \<in> S then Some (fragments_v2 data ! i) else None))"

lemma holds_new: "length data \<le> 4194304 \<Longrightarrow> holds_parts k ts data {} (new_pending True (chunk_of fid k ts data i))"
  using fragment_count [of data]
  by (simp add: holds_parts_def new_pending_def metadata_matches_def chunk_of_def unat_of_nat)

lemma holds_add:
  assumes "holds_parts k ts data S f" "i < length (fragments_v2 data)"
  shows "holds_parts k ts data (insert i S) (add_part i (fragments_v2 data ! i) via f)"
  using assms by (auto simp: holds_parts_def add_part_def metadata_matches_def nth_list_update)

lemma holds_bytes: "holds_parts k ts data S f \<Longrightarrow> part_bytes (pf_parts f) \<le> length data"
proof -
  assume h: "holds_parts k ts data S f"
  have "part_bytes (pf_parts f) \<le> part_bytes (map Some (fragments_v2 data))"
    unfolding part_bytes_def sum_list_sum_nth using h
    by (auto simp: holds_parts_def intro!: sum_mono)
  also have "\<dots> = length (concat (fragments_v2 data))" by (simp add: part_bytes_def length_concat comp_def)
  finally show ?thesis by (simp add: fragments_v2_facts(1))
qed

lemma holds_all:
  assumes "holds_parts k ts data S f" "{..<length (fragments_v2 data)} \<subseteq> S"
  shows "pf_parts f = map Some (fragments_v2 data)" "frame_data f = data"
proof -
  show p: "pf_parts f = map Some (fragments_v2 data)" using assms by (auto simp: holds_parts_def intro!: nth_equalityI)
  show "frame_data f = data" using fragments_v2_facts(1) [of data] by (simp add: frame_data_def p comp_def)
qed

lemma holds_complete:
  assumes "holds_parts k ts data S f" "length data \<le> 4194304" "S \<subseteq> {..<length (fragments_v2 data)}"
  shows "is_complete f \<longleftrightarrow> S = {..<length (fragments_v2 data)}"
proof -
  let ?n = "length (fragments_v2 data)"
  have cnt: "unat (pf_chunk_count f) = ?n" and len: "length (pf_parts f) = ?n"
    using assms(1) fragment_count [OF assms(2)] by (auto simp: holds_parts_def metadata_matches_def chunk_of_def unat_of_nat)
  have "is_complete f \<longleftrightarrow> None \<notin> set (pf_parts f)" using part_count_all [of "pf_parts f"] cnt len by (simp add: is_complete_def)
  also have "\<dots> \<longleftrightarrow> (\<forall>i < ?n. pf_parts f ! i \<noteq> None)" by (auto simp: in_set_conv_nth len)
  also have "\<dots> \<longleftrightarrow> (\<forall>i < ?n. i \<in> S)" using assms(1) by (auto simp: holds_parts_def)
  also have "\<dots> \<longleftrightarrow> S = {..<?n}" using assms(3) by auto
  finally show ?thesis .
qed

section \<open>A receiver that holds one frame\<close>

definition assembling :: "u32 \<Rightarrow> u32 \<Rightarrow> bool \<Rightarrow> u32 \<Rightarrow> bytes \<Rightarrow> u32 \<Rightarrow> nat set \<Rightarrow> video_receiver \<Rightarrow> bool" where
  "assembling ep fid k ts data t0 S rx \<longleftrightarrow>
     rx_ok rx \<and> active_epoch rx = Some ep \<and> rx_completed rx = Map.empty \<and> next_frame_id rx = Some fid \<and>
     (awaiting_idr rx \<longrightarrow> k) \<and> last_timestamp_us rx = t0 \<and> S \<subset> {..<length (fragments_v2 data)} \<and>
     (\<exists>f. rx_pending rx = [(ep, fid) \<mapsto> f] \<and> holds_parts k ts data S f)"

definition assembled :: "u32 \<Rightarrow> u32 \<Rightarrow> bool \<Rightarrow> u32 \<Rightarrow> bytes \<Rightarrow> u32 \<Rightarrow> video_receiver \<Rightarrow> bool" where
  "assembled ep fid k ts data t0 rx \<longleftrightarrow>
     rx_ok rx \<and> active_epoch rx = Some ep \<and> rx_pending rx = Map.empty \<and> next_frame_id rx = Some fid \<and>
     last_timestamp_us rx = t0 \<and>
     (\<exists>f t. rx_completed rx = [(ep, fid) \<mapsto> \<lparr>cf_frame_id = fid, cf_frame = f, cf_completed_at_ms = t\<rparr>] \<and>
        holds_parts k ts data {..<length (fragments_v2 data)} f)"

definition holding :: "u32 \<Rightarrow> u32 \<Rightarrow> bool \<Rightarrow> u32 \<Rightarrow> bytes \<Rightarrow> u32 \<Rightarrow> nat set \<Rightarrow> video_receiver \<Rightarrow> bool" where
  "holding ep fid k ts data t0 S rx \<longleftrightarrow>
     assembling ep fid k ts data t0 S rx \<or> (S = {..<length (fragments_v2 data)} \<and> assembled ep fid k ts data t0 rx)"

lemma assembling_bytes:
  assumes "assembling ep fid k ts data t0 S rx"
  shows "buffered_bytes rx \<le> length data"
proof -
  obtain f where f: "rx_pending rx = [(ep, fid) \<mapsto> f]" "holds_parts k ts data S f" and ok: "rx_ok rx" "rx_completed rx = Map.empty"
    using assms by (auto simp: assembling_def)
  note I = rx_invD [OF ok(1) [unfolded rx_ok_def]]
  have "pf_bytes f = part_bytes (pf_parts f)" using I(8) [of "(ep, fid)" f] f(1) by (simp add: frame_ok_def)
  then show ?thesis using I(10) f(1) ok(2) holds_bytes [OF f(2)] by (simp add: held_def)
qed

lemma complete_frame_result:
  assumes "awaiting_idr rx \<longrightarrow> pf_is_key f"
  shows "\<exists>rx'. complete_frame key f now rx = Some rx' \<and> rx_pending rx' = (rx_pending rx)(key := None) \<and>
    rx_completed rx' = (rx_completed rx)(key \<mapsto> \<lparr>cf_frame_id = snd key, cf_frame = f, cf_completed_at_ms = now\<rparr>) \<and>
    next_frame_id rx' = next_frame_id rx \<and> last_timestamp_us rx' = last_timestamp_us rx \<and> active_epoch rx' = active_epoch rx"
  using assms by (cases "pf_is_key f") (simp_all add: complete_frame_def Let_def)

lemma store_chunk_holding:
  assumes a: "assembling ep fid k ts data t0 S rx" and len: "length data \<le> 4194304" and i: "i < length (fragments_v2 data)"
  shows "\<exists>rx'. store_chunk ep True (chunk_of fid k ts data i) via now rx = Some (rx', []) \<and> holding ep fid k ts data t0 (insert i S) rx'"
proof -
  let ?c = "chunk_of fid k ts data i" and ?n = "length (fragments_v2 data)" and ?k = "(ep, fid)" and ?b = "fragments_v2 data ! i"
  obtain f where p: "rx_pending rx = [?k \<mapsto> f]" and h: "holds_parts k ts data S f"
    and A: "rx_ok rx" "active_epoch rx = Some ep" "rx_completed rx = Map.empty" "next_frame_id rx = Some fid" "awaiting_idr rx \<longrightarrow> k"
      "last_timestamp_us rx = t0" "S \<subset> {..<?n}"
    using a unfolding assembling_def by blast
  have ui: "unat (word_of_nat i :: u16) = i" using fragment_count [OF len] i by (simp add: unat_of_nat)
  have meta: "metadata_matches True ?c f" using h by (simp add: holds_parts_def metadata_matches_def chunk_of_def)
  have parts: "length (pf_parts f) = ?n" "pf_parts f ! i = None \<longleftrightarrow> i \<notin> S" using h i by (auto simp: holds_parts_def)
  obtain rx' es where s: "store_chunk ep True ?c via now rx = Some (rx', es)" "rx_ok rx'" "active_epoch rx' = Some ep"
    using store_chunk_ok [OF A(1,2), of ?c True via now] p A(3) by (auto simp: chunk_of_def)
  show ?thesis
  proof (cases "i \<in> S")
    case True
    then have "store_chunk ep True ?c via now rx = Some (rx, [])"
      using p meta parts ui i by (simp add: store_chunk_def Let_def chunk_of_def)
    then show ?thesis using True a by (simp add: holding_def insert_absorb)
  next
    case False
    let ?f = "add_part i ?b via f"
    let ?rx = "rx\<lparr>rx_pending := (rx_pending rx)(?k \<mapsto> ?f), buffered_bytes := buffered_bytes rx + length ?b\<rparr>"
    have h': "holds_parts k ts data (insert i S) ?f" by (rule holds_add [OF h i])
    have fok: "frame_ok f" using rx_invD(8) [OF A(1) [unfolded rx_ok_def], of ?k f] p by simp
    have full: "pf_received_count ?f = pf_chunk_count ?f \<longleftrightarrow> insert i S = {..<?n}"
      using add_part_ok(3) [OF fok, of i ?b via] parts False i holds_complete [OF h' len] A(7) by auto
    have room: "\<not> buffered_bytes rx + length ?b > unat RX_DECODER_MAX_BYTES"
      using assembling_bytes [OF a] len fragments_v2_facts(3) [OF i] by (simp add: RX_DECODER_MAX_BYTES_def)
    have eq: "store_chunk ep True ?c via now rx =
        (if insert i S \<noteq> {..<?n} then Some (?rx, []) else map_option (\<lambda>rx. (rx, [])) (complete_frame ?k ?f now ?rx))"
      using p meta parts ui i False full room by (simp add: store_chunk_def Let_def chunk_of_def)
    show ?thesis
    proof (cases "insert i S = {..<?n}")
      case True
      have "pf_is_key ?f = k" using h' by (simp add: holds_parts_def metadata_matches_def chunk_of_def)
      then obtain rx'' where c: "complete_frame ?k ?f now ?rx = Some rx''" "rx_pending rx'' = (rx_pending ?rx)(?k := None)"
        "rx_completed rx'' = (rx_completed ?rx)(?k \<mapsto> \<lparr>cf_frame_id = snd ?k, cf_frame = ?f, cf_completed_at_ms = now\<rparr>)"
        "next_frame_id rx'' = next_frame_id ?rx" "last_timestamp_us rx'' = last_timestamp_us ?rx"
        using complete_frame_result [of ?rx ?f ?k now] A(5) by auto
      then have "rx'' = rx'" "es = []" using s(1) eq True by simp_all
      then have "assembled ep fid k ts data t0 rx'"
        unfolding assembled_def using s c A p h' True by (auto intro: exI [of _ ?f])
      then show ?thesis using s(1) True \<open>es = []\<close> by (simp add: holding_def)
    next
      case more: False
      then have "rx' = ?rx" "es = []" using s(1) eq by simp_all
      moreover have "insert i S \<subset> {..<?n}" using A(7) i more by auto
      ultimately have "assembling ep fid k ts data t0 (insert i S) rx'"
        unfolding assembling_def using s p h' A by (auto intro: exI [of _ ?f])
      then show ?thesis using s(1) \<open>es = []\<close> by (simp add: holding_def)
    qed
  qed
qed

lemma deliver_chunk_holding:
  assumes a: "holding ep fid k ts data t0 S rx" and len: "length data \<le> 4194304"
    and bufs: "chunk_frame_v2 fid k ts data = Some (Inr bufs)" and i: "i < length bufs"
  shows "\<exists>rx'. deliver_chunk ep True (bufs ! i) via now rx = Some (rx', []) \<and> holding ep fid k ts data t0 (insert i S) rx'"
proof -
  note c = chunk_of_parsed [OF len bufs i]
  have i': "i < length (fragments_v2 data)" using i c(2) by simp
  show ?thesis
  proof (cases "assembling ep fid k ts data t0 S rx")
    case True
    then have "open_pending ep True (chunk_of fid k ts data i) rx = Inr rx" "rx_completed rx = Map.empty"
      by (auto simp: assembling_def open_pending_def chunk_of_def)
    then show ?thesis using store_chunk_holding [OF True len i', of via now] c(1) chunk_of_geometry [OF len i']
      by (simp add: deliver_chunk_def)
  next
    case False
    then have "S = {..<length (fragments_v2 data)}" "assembled ep fid k ts data t0 rx" using a by (auto simp: holding_def)
    then show ?thesis using c(1) chunk_of_geometry [OF len i'] i'
      by (auto simp: deliver_chunk_def assembled_def chunk_of_def holding_def insert_absorb)
  qed
qed

text \<open>The first chunk: a receiver that holds nothing and whose ordering anchor is free or this frame.\<close>

definition idle_for :: "u32 \<Rightarrow> u32 \<Rightarrow> bool \<Rightarrow> video_receiver \<Rightarrow> bool" where
  "idle_for ep fid k rx \<longleftrightarrow> rx_ok rx \<and> active_epoch rx = Some ep \<and> pending_order rx = [] \<and> completed_order rx = [] \<and>
     (next_frame_id rx = None \<or> next_frame_id rx = Some fid) \<and> (awaiting_idr rx \<longrightarrow> k)"

lemma idle_open:
  assumes idle: "idle_for ep fid k rx" and len: "length data \<le> 4194304" and i: "i < length (fragments_v2 data)"
  shows "\<exists>rx1. open_pending ep True (chunk_of fid k ts data i) rx = Inr rx1 \<and>
    assembling ep fid k ts data (last_timestamp_us rx) {} rx1 \<and> rx_completed rx = Map.empty"
proof -
  let ?c = "chunk_of fid k ts data i"
  have A: "rx_ok rx" "active_epoch rx = Some ep" "pending_order rx = []" "completed_order rx = []"
    "next_frame_id rx = None \<or> next_frame_id rx = Some fid" "awaiting_idr rx \<longrightarrow> k"
    using idle by (auto simp: idle_for_def)
  note I = rx_invD [OF A(1) [unfolded rx_ok_def]]
  have none: "rx_pending rx = Map.empty" "rx_completed rx = Map.empty" using I(3,5) A(3,4) by simp_all
  then have "buffered_bytes rx = 0" using I(10) by simp
  then have room: "\<not> buffered_bytes rx + length (ck_fragment ?c) > unat RX_DECODER_MAX_BYTES"
    using fragments_v2_facts(3) [OF i] by (simp add: chunk_of_def RX_DECODER_MAX_BYTES_def)
  obtain rx1 where o: "open_pending ep True ?c rx = Inr rx1"
    using none room A(3,4) by (simp add: open_pending_def Let_def MAX_PENDING_FRAMES_def)
  have ok: "rx_ok rx1" "active_epoch rx1 = Some ep"
    using open_pending_ok [OF A(1) chunk_of_geometry [OF len i] A(2), of fid k ts] none(2) o by (simp_all add: chunk_of_def)
  have n0: "0 < length (fragments_v2 data)" using i by (cases "fragments_v2 data") auto
  have pend: "rx_pending rx1 = [(ep, fid) \<mapsto> new_pending True ?c]" "next_frame_id rx1 = Some fid"
    "rx_completed rx1 = Map.empty" "awaiting_idr rx1 = awaiting_idr rx" "last_timestamp_us rx1 = last_timestamp_us rx"
    using o none room A(3-6) by (auto simp: open_pending_def Let_def MAX_PENDING_FRAMES_def chunk_of_def split: if_splits)
  have "assembling ep fid k ts data (last_timestamp_us rx) {} rx1"
    unfolding assembling_def using ok pend A(6) n0 holds_new [OF len] by auto
  then show ?thesis using o none by simp
qed

lemma idle_deliver:
  assumes idle: "idle_for ep fid k rx" and len: "length data \<le> 4194304"
    and bufs: "chunk_frame_v2 fid k ts data = Some (Inr bufs)" and i: "i < length bufs"
  shows "\<exists>rx'. deliver_chunk ep True (bufs ! i) via now rx = Some (rx', []) \<and> holding ep fid k ts data (last_timestamp_us rx) {i} rx'"
proof -
  note c = chunk_of_parsed [OF len bufs i]
  have i': "i < length (fragments_v2 data)" using i c(2) by simp
  obtain rx1 where o: "open_pending ep True (chunk_of fid k ts data i) rx = Inr rx1"
    "assembling ep fid k ts data (last_timestamp_us rx) {} rx1" "rx_completed rx = Map.empty"
    using idle_open [OF idle len i'] by blast
  then show ?thesis using store_chunk_holding [OF o(2) len i', of via now] c(1) chunk_of_geometry [OF len i']
    by (simp add: deliver_chunk_def)
qed

lemma tick_ack_holding [simp]: "holding ep fid k ts data t0 S (fst (tick_ack now rx)) = holding ep fid k ts data t0 S rx"
proof -
  have "rx_pending (fst (tick_ack now rx)) = rx_pending rx" "rx_completed (fst (tick_ack now rx)) = rx_completed rx"
    "next_frame_id (fst (tick_ack now rx)) = next_frame_id rx" "awaiting_idr (fst (tick_ack now rx)) = awaiting_idr rx"
    "last_timestamp_us (fst (tick_ack now rx)) = last_timestamp_us rx"
    by (simp_all add: tick_ack_def Let_def split: option.split)
  then show ?thesis by (simp add: holding_def assembling_def assembled_def)
qed

definition is_ack :: "rx_event \<Rightarrow> bool" where
  "is_ack e \<longleftrightarrow> (\<exists>s. e = RxAck s)"

lemma ack_events_acks: "e \<in> set (ack_events a) \<Longrightarrow> is_ack e"
  by (auto simp: ack_events_def is_ack_def split: option.splits)

definition recovered :: "bytes list \<Rightarrow> (u32 \<times> nat \<times> bool) list \<Rightarrow> decoder_event list" where
  "recovered bufs ds = map (\<lambda>(seq, i, via). EvRecovered seq (bufs ! i) via) ds"

lemma deliver_holding:
  assumes "holding ep fid k ts data t0 S rx" "length data \<le> 4194304" "chunk_frame_v2 fid k ts data = Some (Inr bufs)"
    "\<forall>(seq, i, via) \<in> set ds. i < length bufs"
  shows "\<exists>rx' es. deliver_events ep True (recovered bufs ds) now rx = Some (rx', es) \<and> (\<forall>e \<in> set es. is_ack e) \<and>
    holding ep fid k ts data t0 (S \<union> (fst \<circ> snd) ` set ds) rx'"
  using assms
proof (induction ds arbitrary: rx S)
  case (Cons d ds)
  obtain seq i via where d: "d = (seq, i, via)" by (cases d)
  obtain rx1 where 1: "deliver_chunk ep True (bufs ! i) via now rx = Some (rx1, [])" "holding ep fid k ts data t0 (insert i S) rx1"
    using deliver_chunk_holding [OF Cons.prems(1-3), of i via now] Cons.prems(4) d by auto
  obtain rx2 ack where t: "tick_ack now rx1 = (rx2, ack)" by (cases "tick_ack now rx1")
  have h2: "holding ep fid k ts data t0 (insert i S) rx2"
    using 1(2) t tick_ack_holding [of ep fid k ts data t0 "insert i S" now rx1] by simp
  have rest: "\<forall>(seq, i, via) \<in> set ds. i < length bufs" using Cons.prems(4) by simp
  obtain rx' es where r: "deliver_events ep True (recovered bufs ds) now rx2 = Some (rx', es)" "\<forall>e \<in> set es. is_ack e"
      "holding ep fid k ts data t0 (insert i S \<union> (fst \<circ> snd) ` set ds) rx'"
    using Cons.IH [OF h2 Cons.prems(2,3) rest] by (elim exE conjE) (rule that)
  have "insert i S \<union> (fst \<circ> snd) ` set ds = S \<union> (fst \<circ> snd) ` set (d # ds)" using d by auto
  then show ?case using 1(1) t d ack_events_acks [of _ ack] r by (auto simp: recovered_def)
qed (simp add: recovered_def)

lemma deliver_idle:
  assumes "idle_for ep fid k rx" "length data \<le> 4194304" "chunk_frame_v2 fid k ts data = Some (Inr bufs)"
    "\<forall>(seq, i, via) \<in> set ds. i < length bufs" "ds \<noteq> []"
  shows "\<exists>rx' es. deliver_events ep True (recovered bufs ds) now rx = Some (rx', es) \<and> (\<forall>e \<in> set es. is_ack e) \<and>
    holding ep fid k ts data (last_timestamp_us rx) ((fst \<circ> snd) ` set ds) rx'"
proof -
  obtain seq i via ds' where d: "ds = (seq, i, via) # ds'" using assms(5) by (cases ds) auto
  obtain rx1 where 1: "deliver_chunk ep True (bufs ! i) via now rx = Some (rx1, [])" "holding ep fid k ts data (last_timestamp_us rx) {i} rx1"
    using idle_deliver [OF assms(1-3), of i via now] assms(4) d by auto
  obtain rx2 ack where t: "tick_ack now rx1 = (rx2, ack)" by (cases "tick_ack now rx1")
  have "holding ep fid k ts data (last_timestamp_us rx) {i} rx2"
    using 1(2) t tick_ack_holding [of ep fid k ts data "last_timestamp_us rx" "{i}" now rx1] by simp
  then obtain rx' es where "deliver_events ep True (recovered bufs ds') now rx2 = Some (rx', es)" "\<forall>e \<in> set es. is_ack e"
      "holding ep fid k ts data (last_timestamp_us rx) ({i} \<union> (fst \<circ> snd) ` set ds') rx'"
    using deliver_holding [OF _ assms(2,3), of ep "last_timestamp_us rx" "{i}" rx2 ds' now] assms(4) d by auto
  then show ?thesis using 1(1) t d ack_events_acks [of _ ack] by (auto simp: recovered_def)
qed

lemma flush_assembled:
  assumes "assembled ep fid k ts data t0 rx" "length data \<le> 4194304"
  shows "\<exists>rx'. flush_reorder now rx = Some (rx', [RxFrame \<lparr>du_frame_id = fid, du_epoch = ep, du_is_key = k, du_timestamp_us = ts,
      du_duration_us = uint ts - uint t0, du_data = data\<rparr>]) \<and> next_frame_id rx' = Some (fid + 1) \<and>
    rx_pending rx' = Map.empty \<and> rx_completed rx' = Map.empty \<and> buffered_bytes rx' = 0 \<and> last_timestamp_us rx' = ts"
proof -
  obtain f t where c: "rx_completed rx = [(ep, fid) \<mapsto> \<lparr>cf_frame_id = fid, cf_frame = f, cf_completed_at_ms = t\<rparr>]"
    and h: "holds_parts k ts data {..<length (fragments_v2 data)} f"
    and A: "rx_ok rx" "rx_pending rx = Map.empty" "next_frame_id rx = Some fid" "last_timestamp_us rx = t0"
    using assms(1) unfolding assembled_def by blast
  note I = rx_invD [OF A(1) [unfolded rx_ok_def]]
  have "set (completed_order rx) = {(ep, fid)}" using I(5) c by simp
  moreover have "length (completed_order rx) = 1" using calculation distinct_card [OF I(4)] by simp
  ultimately have co: "completed_order rx = [(ep, fid)]" by (auto simp: length_Suc_conv)
  have data: "frame_data f = data" by (rule holds_all(2) [OF h order_refl])
  have meta: "pf_is_key f = k" "pf_timestamp_us f = ts" "pf_encoded_frame_len f = word_of_nat (length data)" "pf_encoded_frame_crc32 f = ieee_crc32 data"
    using h by (auto simp: holds_parts_def metadata_matches_def chunk_of_def)
  have good: "\<not> frame_rejected fid f"
    using assms(2) by (simp add: frame_rejected_def validate_encoded_frame_v2_def frame_header_def data meta unat_of_nat)
  let ?d = "flush_deliver (ep, fid) f rx"
  have D: "completed_order (fst ?d) = []" "rx_pending (fst ?d) = Map.empty" "rx_completed (fst ?d) = Map.empty"
    "next_frame_id (fst ?d) = Some (fid + 1)" "last_timestamp_us (fst ?d) = ts"
    "snd ?d = [RxFrame \<lparr>du_frame_id = fid, du_epoch = ep, du_is_key = k, du_timestamp_us = ts,
      du_duration_us = uint ts - uint t0, du_data = data\<rparr>]"
    using good co A c by (simp_all add: flush_deliver_def take_completed_def unit_of_def meta data)
  have okd: "rx_ok (fst ?d)" using flush_deliver_ok(1) [OF A(1), of "(ep, fid)"] c by simp
  have "buffered_bytes (fst ?d) = 0" using rx_invD(10) [OF okd [unfolded rx_ok_def]] D by simp
  moreover have "flush_step now rx = Some (Inr ?d)"
    using flush_step_eq [OF A(1), of now] co A(3) c by (simp add: expected_key_def)
  moreover have "flush_reorder now (fst ?d) = Some (fst ?d, [])"
    by (subst flush_reorder.simps) (simp add: flush_step_def D)
  ultimately show ?thesis using D by (subst flush_reorder.simps) (simp add: case_prod_beta)
qed

text \<open>
  What the receiver does with the recovered chunks of one symbol message after another: each message has a time and the chunks that
  its symbol makes available, which may be none, and is followed by a flush.
\<close>

fun receive_chunks ::
  "u32 \<Rightarrow> bytes list \<Rightarrow> (nat \<times> (u32 \<times> nat \<times> bool) list) list \<Rightarrow> video_receiver \<Rightarrow> (video_receiver \<times> rx_event list) option" where
  "receive_chunks ep bufs [] rx = Some (rx, [])"
| "receive_chunks ep bufs ((now, ds) # ms) rx =
     Option.bind (process_decoder_events ep True (recovered bufs ds) now rx) (\<lambda>(rx, out1).
     Option.bind (flush_reorder now rx) (\<lambda>(rx, out2).
     Option.bind (receive_chunks ep bufs ms rx) (\<lambda>(rx, out3). Some (rx, out1 @ out2 @ out3))))"

definition chunk_indices :: "(nat \<times> (u32 \<times> nat \<times> bool) list) list \<Rightarrow> nat set" where
  "chunk_indices ms = (fst \<circ> snd) ` set (concat (map snd ms))"

lemma process_recovered: "process_decoder_events ep True (recovered bufs ds) now rx = deliver_events ep True (recovered bufs ds) now rx"
proof -
  have "\<not> list_ex is_fec_loss (recovered bufs ds)" by (auto simp: recovered_def list_ex_iff)
  then show ?thesis by (cases "deliver_events ep True (recovered bufs ds) now rx") (auto simp: process_decoder_events_def)
qed

text \<open>The receiver while some of the chunks are missing.\<close>

definition gathering :: "u32 \<Rightarrow> u32 \<Rightarrow> bool \<Rightarrow> u32 \<Rightarrow> bytes \<Rightarrow> u32 \<Rightarrow> nat set \<Rightarrow> video_receiver \<Rightarrow> bool" where
  "gathering ep fid k ts data t0 S rx \<longleftrightarrow>
     S = {} \<and> idle_for ep fid k rx \<and> last_timestamp_us rx = t0 \<or> holding ep fid k ts data t0 S rx"

lemma gathering_deliver:
  assumes "gathering ep fid k ts data t0 S rx" and len: "length data \<le> 4194304"
    and bufs: "chunk_frame_v2 fid k ts data = Some (Inr bufs)" and i: "\<forall>(seq, i, via) \<in> set ds. i < length bufs"
  shows "\<exists>rx' es. deliver_events ep True (recovered bufs ds) now rx = Some (rx', es) \<and> (\<forall>e \<in> set es. is_ack e) \<and>
    gathering ep fid k ts data t0 (S \<union> (fst \<circ> snd) ` set ds) rx'"
proof (cases "holding ep fid k ts data t0 S rx")
  case True
  then show ?thesis using deliver_holding [OF True len bufs i, of now] unfolding gathering_def by blast
next
  case False
  then have idle: "S = {}" "idle_for ep fid k rx" "last_timestamp_us rx = t0" using assms(1) by (auto simp: gathering_def)
  show ?thesis
  proof (cases "ds = []")
    case True
    then show ?thesis using assms(1) by (simp add: recovered_def)
  next
    case False
    then show ?thesis using deliver_idle [OF idle(2) len bufs i False, of now] idle by (auto simp: gathering_def)
  qed
qed

lemma gathering_quiet:
  assumes "gathering ep fid k ts data t0 S rx" and "S \<noteq> {..<length (fragments_v2 data)}"
  shows "flush_reorder now rx = Some (rx, [])"
proof -
  have "completed_order rx = []" if "rx_ok rx" "rx_completed rx = Map.empty"
    using rx_invD(5) [OF that(1) [unfolded rx_ok_def]] that(2) by simp
  then have "completed_order rx = []" using assms by (auto simp: gathering_def idle_for_def holding_def assembling_def)
  then show ?thesis by (subst flush_reorder.simps) (simp add: flush_step_def)
qed

lemma receive_quiet:
  assumes "gathering ep fid k ts data t0 S rx" and len: "length data \<le> 4194304"
    and bufs: "chunk_frame_v2 fid k ts data = Some (Inr bufs)" and "S \<union> chunk_indices ms \<subset> {..<length bufs}"
  shows "\<exists>rx' es. receive_chunks ep bufs (ms @ later) rx = map_option (\<lambda>(rx, out). (rx, es @ out)) (receive_chunks ep bufs later rx') \<and>
    (\<forall>e \<in> set es. is_ack e) \<and> gathering ep fid k ts data t0 (S \<union> chunk_indices ms) rx'"
  using assms(1,4)
proof (induction ms arbitrary: S rx)
  case Nil
  then show ?case by (intro exI [of _ rx] exI [of _ "[]"]) (simp add: chunk_indices_def option.map_id0 [unfolded id_def] case_prod_beta)
next
  case (Cons m ms)
  obtain now ds where m: "m = (now, ds)" by (cases m)
  let ?I = "(fst \<circ> snd) ` set ds"
  have split: "chunk_indices (m # ms) = ?I \<union> chunk_indices ms" by (auto simp: chunk_indices_def m)
  have "\<forall>(seq, i, via) \<in> set ds. i < length bufs" using Cons.prems(2) split by force
  then obtain rx1 es1 where d: "deliver_events ep True (recovered bufs ds) now rx = Some (rx1, es1)" "\<forall>e \<in> set es1. is_ack e"
      "gathering ep fid k ts data t0 (S \<union> ?I) rx1"
    using gathering_deliver [OF Cons.prems(1) len bufs] by blast
  have n: "length bufs = length (fragments_v2 data)" using chunk_frame_v2_eq [OF len, of fid k ts] bufs by auto
  have "S \<union> ?I \<noteq> {..<length (fragments_v2 data)}" using Cons.prems(2) split n by auto
  from gathering_quiet [OF d(3) this] have fl: "flush_reorder now rx1 = Some (rx1, [])" .
  have "S \<union> ?I \<union> chunk_indices ms \<subset> {..<length bufs}" using Cons.prems(2) split by (simp add: Un_assoc)
  from Cons.IH [OF d(3) this] obtain rx' es2 where r: "receive_chunks ep bufs (ms @ later) rx1 =
        map_option (\<lambda>(rx, out). (rx, es2 @ out)) (receive_chunks ep bufs later rx')"
      "\<forall>e \<in> set es2. is_ack e" "gathering ep fid k ts data t0 (S \<union> ?I \<union> chunk_indices ms) rx'"
    by (elim exE conjE)
  have "receive_chunks ep bufs ((m # ms) @ later) rx =
      map_option (\<lambda>(rx, out). (rx, (es1 @ es2) @ out)) (receive_chunks ep bufs later rx')"
    by (cases "receive_chunks ep bufs later rx'") (auto simp: m process_recovered d(1) fl r(1))
  moreover have "\<forall>e \<in> set (es1 @ es2). is_ack e" using d(2) r(2) by auto
  moreover have "gathering ep fid k ts data t0 (S \<union> chunk_indices (m # ms)) rx'" using r(3) split by (simp add: Un_assoc)
  ultimately show ?case by blast
qed

text \<open>
  C4. A frame survives the trip. Let the receiver be idle in the epoch, with no other frame in progress and this frame number or
  none expected next, and not waiting for a key frame unless the frame is one. The chunks that \<open>chunk_frame_v2\<close> makes
  of a frame of at most 4 MiB then come in over any number of messages, in any order, repeated, received or recovered by FEC, up
  to the message that brings the last missing chunk. Acknowledgements apart, the only event is one frame, after that message:
  the original bytes with the sender's frame number, key flag and timestamp. Nothing stays buffered and the following
  frame number is expected next.
\<close>

theorem frame_reassembled:
  assumes "idle_for ep fid k rx" and "chunk_frame_v2 fid k ts data = Some (Inr bufs)"
    and "chunk_indices ms \<subset> {..<length bufs}" and "chunk_indices (ms @ [(now, ds)]) = {..<length bufs}"
  shows "\<exists>rx' evs. receive_chunks ep bufs (ms @ [(now, ds)]) rx = Some (rx', evs) \<and>
    filter (\<lambda>e. \<not> is_ack e) evs = [RxFrame \<lparr>du_frame_id = fid, du_epoch = ep, du_is_key = k, du_timestamp_us = ts,
      du_duration_us = uint ts - uint (last_timestamp_us rx), du_data = data\<rparr>] \<and>
    next_frame_id rx' = Some (fid + 1) \<and> rx_pending rx' = Map.empty \<and> rx_completed rx' = Map.empty \<and> buffered_bytes rx' = 0"
proof -
  have len: "length data \<le> 4194304"
    using assms(2) by (auto simp: chunk_frame_v2_def ENCODED_FRAME_MAX_def split: if_splits)
  have n: "length bufs = length (fragments_v2 data)" "0 < length bufs"
    using chunk_frame_v2_eq [OF len, of fid k ts] assms(2) fragment_count [OF len] by auto
  have all: "chunk_indices ms \<union> (fst \<circ> snd) ` set ds = {..<length bufs}" using assms(4) by (simp add: chunk_indices_def image_Un)
  have "gathering ep fid k ts data (last_timestamp_us rx) {} rx" using assms(1) by (simp add: gathering_def)
  then obtain rx1 es1 where 1: "receive_chunks ep bufs (ms @ [(now, ds)]) rx =
        map_option (\<lambda>(rx, out). (rx, es1 @ out)) (receive_chunks ep bufs [(now, ds)] rx1)"
      "\<forall>e \<in> set es1. is_ack e" "gathering ep fid k ts data (last_timestamp_us rx) (chunk_indices ms) rx1"
    using receive_quiet [OF _ len assms(2), of ep "last_timestamp_us rx" "{}" rx ms "[(now, ds)]"] assms(3) by auto
  have "\<forall>(seq, i, via) \<in> set ds. i < length bufs" using all by force
  then obtain rx2 es2 where 2: "deliver_events ep True (recovered bufs ds) now rx1 = Some (rx2, es2)" "\<forall>e \<in> set es2. is_ack e"
      "gathering ep fid k ts data (last_timestamp_us rx) {..<length bufs} rx2"
    using gathering_deliver [OF 1(3) len assms(2), of ds now] all by auto
  then have "assembled ep fid k ts data (last_timestamp_us rx) rx2"
    using n by (auto simp: gathering_def holding_def assembling_def lessThan_empty_iff)
  from flush_assembled [OF this len, of now] obtain rx' where 3: "flush_reorder now rx2 = Some (rx', [RxFrame \<lparr>du_frame_id = fid, du_epoch = ep,
        du_is_key = k, du_timestamp_us = ts, du_duration_us = uint ts - uint (last_timestamp_us rx), du_data = data\<rparr>])"
      "next_frame_id rx' = Some (fid + 1)" "rx_pending rx' = Map.empty" "rx_completed rx' = Map.empty" "buffered_bytes rx' = 0"
    by blast
  have acks: "filter (\<lambda>e. \<not> is_ack e) es1 = []" "filter (\<lambda>e. \<not> is_ack e) es2 = []" using 1(2) 2(2) by (simp_all add: filter_empty_conv)
  show ?thesis using 1(1) 2(1) 3 acks by (simp add: process_recovered is_ack_def)
qed

theorem frame_reassembled_witness:
  "\<exists>bufs rx evs. chunk_frame_v2 9 True 40 (replicate 2000 6) = Some (Inr bufs) \<and>
     receive_chunks 7 bufs [(5, [(1, 1, False)]), (6, []), (7, [(0, 0, True), (1, 1, False)])] ((rx_new 0)\<lparr>active_epoch := Some 7\<rparr>) = Some (rx, evs) \<and>
     filter (\<lambda>e. \<not> is_ack e) evs = [RxFrame \<lparr>du_frame_id = 9, du_epoch = 7, du_is_key = True, du_timestamp_us = 40,
       du_duration_us = 40, du_data = replicate 2000 6\<rparr>]"
proof -
  let ?rx = "(rx_new 0)\<lparr>active_epoch := Some 7\<rparr>" and ?ms = "[(5, [(1, 1, False)]), (6, [])] :: (nat \<times> (u32 \<times> nat \<times> bool) list) list"
  obtain bufs where b: "chunk_frame_v2 9 True 40 (replicate 2000 6) = Some (Inr bufs)" "length bufs = 2"
    using chunk_frame_v2_eq [of "replicate 2000 6" 9 True 40] by (auto simp: fragments_v2_def chunks.simps)
  have "idle_for 7 9 True ?rx" by (simp add: idle_for_def rx_ok_def rx_inv_def rx_new_def rx_dec_ok_new)
  moreover have "chunk_indices ?ms \<subset> {..<length bufs}" "chunk_indices (?ms @ [(7, [(0, 0, True), (1, 1, False)])]) = {..<length bufs}"
    using b(2) by (auto simp: chunk_indices_def lessThan_Suc numeral_2_eq_2)
  ultimately show ?thesis
    using frame_reassembled [OF _ b(1), of 7 ?rx ?ms 7 "[(0, 0, True), (1, 1, False)]"] b(1) by (fastforce simp: rx_new_def)
qed

section \<open>What a checksum failure does to the gate\<close>

text \<open>A frame without data is one chunk; \<open>feed\<close> is what \<open>on_message\<close> does with one recovered chunk.\<close>

definition empty_chunk :: "u32 \<Rightarrow> bool \<Rightarrow> u32 \<Rightarrow> bytes" where
  "empty_chunk fid k crc = le32 fid @ le16 0 @ le16 1 @ [bool_byte k] @ le32 0 @ le32 0 @ le32 crc"

definition feed :: "u32 \<Rightarrow> bytes \<Rightarrow> nat \<Rightarrow> video_receiver \<Rightarrow> (video_receiver \<times> rx_event list) option" where
  "feed ep payload now rx =
     Option.bind (process_decoder_events ep True [EvRecovered 0 payload False] now rx) (\<lambda>(rx, out1).
     Option.bind (flush_reorder now rx) (\<lambda>(rx, out2). Some (rx, out1 @ out2)))"

lemma parse_empty_chunk:
  "parse_delivery True (empty_chunk fid k crc) =
     Some \<lparr>ck_frame_id = fid, ck_index = 0, ck_count = 1, ck_is_key = k, ck_timestamp_us = 0, ck_encoded_len = 0,
       ck_encoded_crc = crc, ck_fragment = []\<rparr>"
proof -
  let ?h = "\<lparr>c2_frame_id = fid, c2_chunk_index = 0, c2_chunk_count = 1, c2_frame_type_key = k, c2_timestamp_us = 0,
      c2_encoded_frame_len = 0, c2_encoded_frame_crc32 = crc\<rparr>"
  have "encode_chunk_v2 ?h [] = Inr (empty_chunk fid k crc)"
    by (simp add: sbind_validate validate_chunk_v2_def empty_chunk_def wire_consts word_less_nat_alt)
  then show ?thesis using parse_encode_chunk_v2(1) by (simp add: parse_delivery_def)
qed

lemma empty_geometry:
  "chunk_geometry_ok True \<lparr>ck_frame_id = fid, ck_index = 0, ck_count = 1, ck_is_key = k, ck_timestamp_us = 0, ck_encoded_len = 0,
     ck_encoded_crc = crc, ck_fragment = []\<rparr>"
  by (simp add: chunk_geometry_ok_def wire_consts expected_fragment_len_def div_ceil_def word_less_nat_alt)

lemma crc_empty: "ieee_crc32 [] = 0"
  by (simp add: ieee_crc32_def)

lemmas feed_eval = feed_def process_decoder_events_def deliver_chunk_def parse_empty_chunk empty_geometry open_pending_def
  store_chunk_def new_pending_def metadata_matches_def add_part_def complete_frame_def tick_ack_def ack_events_def
  highest_fully_decoded_def discontinue_def flush_step_def assemble_frame_def validate_encoded_frame_v2_def frame_header_def
  checked_sub_def crc_empty MAX_PENDING_FRAMES_def RX_DECODER_MAX_BYTES_def REORDER_MAX_COMPLETED_FRAMES_def REORDER_MAX_WAIT_MS_def

text \<open>
  A delta frame can follow a checksum discontinuity. \<open>assemble_frame\<close> answers a checksum failure of
  frame 5 with a discontinuity that clears the ordering anchor, but \<open>flush_reorder\<close> then sets it to
  6: a key frame 20 that arrives waits behind it, and the delta frame 6 is emitted first although no
  key frame followed the discontinuity.
\<close>

theorem frame_crc_breaks_gate:
  "\<exists>rx1 rx2 rx3 u. feed 7 (empty_chunk 5 False 1) 0 ((rx_new 0)\<lparr>active_epoch := Some 7\<rparr>) = Some (rx1, [RxDiscontinuity 7 FrameCrc]) \<and>
     feed 7 (empty_chunk 20 True 0) 10 rx1 = Some (rx2, []) \<and>
     feed 7 (empty_chunk 6 False 0) 20 rx2 = Some (rx3, [RxFrame u]) \<and> \<not> du_is_key u"
proof -
  let ?rx = "(rx_new 0)\<lparr>active_epoch := Some 7\<rparr>"
  let ?rx1 = "?rx\<lparr>next_frame_id := Some 6, needs_idr := True, awaiting_idr := True\<rparr>"
  let ?f = "\<lparr>pf_is_v2 = True, pf_is_key = True, pf_timestamp_us = 0, pf_chunk_count = 1, pf_encoded_frame_len = 0,
    pf_encoded_frame_crc32 = 0, pf_parts = [Some []], pf_received_count = 1, pf_bytes = 0, pf_used_recovery = False\<rparr>"
  let ?rx2 = "?rx\<lparr>next_frame_id := Some 6, needs_idr := True, completed_order := [(7, 20)],
    rx_completed := [(7, 20) \<mapsto> \<lparr>cf_frame_id = 20, cf_frame = ?f, cf_completed_at_ms = 10\<rparr>]\<rparr>"
  have 1: "feed 7 (empty_chunk 5 False 1) 0 ?rx = Some (?rx1, [RxDiscontinuity 7 FrameCrc])"
    by (simp add: feed_eval rx_new_def Let_def decoder_new_def flush_reorder.simps [of 0])
  have 2: "feed 7 (empty_chunk 20 True 0) 10 ?rx1 = Some (?rx2, [])"
    by (simp add: feed_eval rx_new_def Let_def decoder_new_def flush_reorder.simps [of 10])
  have 3: "\<exists>rx3 u. feed 7 (empty_chunk 6 False 0) 20 ?rx2 = Some (rx3, [RxFrame u]) \<and> \<not> du_is_key u"
    by (simp add: feed_eval rx_new_def Let_def decoder_new_def flush_reorder.simps [of 20])
  show ?thesis using 1 2 3 by blast
qed

end
