(* ===== verification/Frame_Queue.thy ===== *)
theory Frame_Queue
  imports Video_Rx "HOL-Library.Sublist"
begin

text \<open>
  \<open>frame_queue.rs\<close> of the native client: the bounded queue of video events between the receive thread
  and the decoder thread, and the audio packet queue. Every method runs under one mutex, so an
  execution of the threads is a sequence of operations on the state; \<open>fq_run\<close> runs such a sequence and
  keeps the log of enqueued and of popped events. A blocking wait is given the states it finds when it
  is woken. The theorems are the order and gap contract of the queue, the identity of recoveries, and
  the drop-oldest policy of the audio queue.
\<close>

section \<open>Video events and queue state\<close>

definition DEFAULT_FRAME_CAP :: nat where "DEFAULT_FRAME_CAP = 16"

datatype video_event =
  VideoFrame decode_unit
| VideoDiscontinuity u64 u32 discontinuity_reason

primrec as_frame :: "video_event \<Rightarrow> decode_unit option" where
  "as_frame (VideoFrame u) = Some u"
| "as_frame (VideoDiscontinuity _ _ _) = None"

record queue_state =
  qs_events :: "video_event list"
  qs_closed :: bool
  qs_overflowed :: bool
  next_generation :: u64
  recovery :: "(u64 \<times> u32) option"

record frame_push =
  fp_overflowed :: bool
  fp_generation :: "u64 option"

text \<open>\<open>FrameQueue\<close>: the capacity is fixed at construction, the rest is behind the mutex.\<close>

record frame_queue = queue_state +
  fq_cap :: nat

definition fq_new :: "nat \<Rightarrow> frame_queue" where
  "fq_new cap = \<lparr>qs_events = [], qs_closed = False, qs_overflowed = False, next_generation = 0, recovery = None,
     fq_cap = max cap 1\<rparr>"

definition open_recovery_locked :: "u32 \<Rightarrow> frame_queue \<Rightarrow> frame_queue \<times> u64" where
  "open_recovery_locked ep st =
     (let generation = max (next_generation st + 1) 1
      in (st\<lparr>next_generation := generation, recovery := Some (generation, ep)\<rparr>, generation))"

definition push_frame_reporting_overflow :: "decode_unit \<Rightarrow> frame_queue \<Rightarrow> frame_queue \<times> frame_push option" where
  "push_frame_reporting_overflow unit st =
     (if qs_closed st then (st, None)
      else if length (qs_events st) \<ge> fq_cap st
      then let (st, opened) = open_recovery_locked (du_epoch unit) (st\<lparr>qs_events := []\<rparr>);
               st = st\<lparr>qs_events := qs_events st @ [VideoDiscontinuity opened (du_epoch unit) QueueOverflow],
                       qs_overflowed := True\<rparr>
           in (st\<lparr>qs_events := qs_events st @ [VideoFrame unit]\<rparr>,
               Some \<lparr>fp_overflowed = True, fp_generation = Some opened\<rparr>)
      else (st\<lparr>qs_events := qs_events st @ [VideoFrame unit]\<rparr>, Some \<lparr>fp_overflowed = False, fp_generation = None\<rparr>))"

definition push_frame :: "decode_unit \<Rightarrow> frame_queue \<Rightarrow> frame_queue \<times> bool" where
  "push_frame unit st = (let (st, r) = push_frame_reporting_overflow unit st in (st, r \<noteq> None))"

definition push_discontinuity :: "u32 \<Rightarrow> discontinuity_reason \<Rightarrow> frame_queue \<Rightarrow> frame_queue \<times> u64 option" where
  "push_discontinuity ep reason st =
     (if qs_closed st then (st, None)
      else let st = (if length (qs_events st) \<ge> fq_cap st then st\<lparr>qs_overflowed := True, qs_events := []\<rparr> else st);
               (st, generation) = open_recovery_locked ep st
           in (st\<lparr>qs_events := qs_events st @ [VideoDiscontinuity generation ep reason]\<rparr>, Some generation))"

definition try_event :: "frame_queue \<Rightarrow> frame_queue \<times> video_event option" where
  "try_event st = (case qs_events st of [] \<Rightarrow> (st, None) | e # es \<Rightarrow> (st\<lparr>qs_events := es\<rparr>, Some e))"

text \<open>
  \<open>wait_event\<close>: each entry of the list is one return of \<open>wait_timeout\<close>, with the state under the
  re-acquired lock and whether the wait timed out or nothing of the timeout remained. The outer
  \<open>None\<close> means that the caller is still blocked at the end of the list.
\<close>

fun wait_event :: "(frame_queue \<times> bool) list \<Rightarrow> frame_queue \<Rightarrow> (frame_queue \<times> video_event option) option" where
  "wait_event wakes st =
     (case try_event st of
        (st', Some ev) \<Rightarrow> Some (st', Some ev)
      | (_, None) \<Rightarrow>
          if qs_closed st then Some (st, None)
          else (case wakes of
                  [] \<Rightarrow> None
                | (guard, expired) # wakes' \<Rightarrow>
                    if expired \<and> qs_events guard = [] then Some (guard, None) else wait_event wakes' guard))"

declare wait_event.simps [simp del]

text \<open>\<open>try_pop\<close>: discontinuities in front are consumed.\<close>

fun pop_frames :: "video_event list \<Rightarrow> video_event list \<times> decode_unit option" where
  "pop_frames [] = ([], None)"
| "pop_frames (VideoFrame u # es) = (es, Some u)"
| "pop_frames (VideoDiscontinuity _ _ _ # es) = pop_frames es"

definition try_pop :: "frame_queue \<Rightarrow> frame_queue \<times> decode_unit option" where
  "try_pop st = (let (es, u) = pop_frames (qs_events st) in (st\<lparr>qs_events := es\<rparr>, u))"

text \<open>
  \<open>wait_pop\<close>: each entry is one iteration, with the state when the lock is taken, the wake-ups of its
  \<open>wait_event\<close>, and whether the deadline has passed when it returns a discontinuity.
\<close>

fun wait_pop :: "(frame_queue \<times> (frame_queue \<times> bool) list \<times> bool) list \<Rightarrow> (frame_queue \<times> decode_unit option) option" where
  "wait_pop [] = None"
| "wait_pop ((st, wakes, late) # rest) =
     Option.bind (wait_event wakes st) (\<lambda>(st', ev).
       case ev of
         None \<Rightarrow> Some (st', None)
       | Some (VideoFrame u) \<Rightarrow> Some (st', Some u)
       | Some (VideoDiscontinuity _ _ _) \<Rightarrow> if late then Some (st', None) else wait_pop rest)"

definition fq_close :: "frame_queue \<Rightarrow> frame_queue" where
  "fq_close st = st\<lparr>qs_closed := True\<rparr>"

definition take_overflowed :: "frame_queue \<Rightarrow> frame_queue \<times> bool" where
  "take_overflowed st = (st\<lparr>qs_overflowed := False\<rparr>, qs_overflowed st)"

definition acknowledge_recovery :: "u64 \<Rightarrow> u32 \<Rightarrow> frame_queue \<Rightarrow> frame_queue \<times> bool" where
  "acknowledge_recovery generation ep st =
     (if recovery st = Some (generation, ep) then (st\<lparr>recovery := None\<rparr>, True) else (st, False))"

definition clear_recovery :: "frame_queue \<Rightarrow> frame_queue" where
  "clear_recovery st = st\<lparr>recovery := None\<rparr>"

definition fq_len :: "frame_queue \<Rightarrow> nat" where
  "fq_len st = length (qs_events st)"

definition fq_is_empty :: "frame_queue \<Rightarrow> bool" where
  "fq_is_empty st \<longleftrightarrow> fq_len st = 0"

section \<open>The audio queue\<close>

definition DEFAULT_AUDIO_CAP :: nat where "DEFAULT_AUDIO_CAP = 64"

record sample_queue =
  ss_packets :: "bytes list"
  ss_closed :: bool
  sq_cap :: nat

definition sq_new :: "nat \<Rightarrow> sample_queue" where
  "sq_new cap = \<lparr>ss_packets = [], ss_closed = False, sq_cap = max cap 1\<rparr>"

fun drop_oldest :: "nat \<Rightarrow> 'a list \<Rightarrow> 'a list" where
  "drop_oldest cap [] = []"
| "drop_oldest cap (x # xs) = (if length (x # xs) \<ge> cap then drop_oldest cap xs else x # xs)"

definition sq_push :: "bytes \<Rightarrow> sample_queue \<Rightarrow> sample_queue \<times> bool" where
  "sq_push pkt st =
     (if ss_closed st then (st, False)
      else (st\<lparr>ss_packets := drop_oldest (sq_cap st) (ss_packets st) @ [pkt]\<rparr>, True))"

definition sq_pop :: "sample_queue \<Rightarrow> sample_queue \<times> bytes option" where
  "sq_pop st = (case ss_packets st of [] \<Rightarrow> (st, None) | p # ps \<Rightarrow> (st\<lparr>ss_packets := ps\<rparr>, Some p))"

fun sq_wait_pop :: "(sample_queue \<times> bool) list \<Rightarrow> sample_queue \<Rightarrow> (sample_queue \<times> bytes option) option" where
  "sq_wait_pop wakes st =
     (case sq_pop st of
        (st', Some p) \<Rightarrow> Some (st', Some p)
      | (_, None) \<Rightarrow>
          if ss_closed st then Some (st, None)
          else (case wakes of
                  [] \<Rightarrow> None
                | (guard, timed_out) # wakes' \<Rightarrow>
                    if timed_out \<and> ss_packets guard = [] then Some (guard, None) else sq_wait_pop wakes' guard))"

declare sq_wait_pop.simps [simp del]

definition sq_close :: "sample_queue \<Rightarrow> sample_queue" where
  "sq_close st = st\<lparr>ss_closed := True\<rparr>"

definition sq_len :: "sample_queue \<Rightarrow> nat" where
  "sq_len st = length (ss_packets st)"

definition sq_is_empty :: "sample_queue \<Rightarrow> bool" where
  "sq_is_empty st \<longleftrightarrow> sq_len st = 0"

section \<open>Executions\<close>

datatype fq_op =
  PushFrame decode_unit | PushDiscontinuity u32 discontinuity_reason | PopEvent | PopFrame | CloseQueue
| TakeOverflowed | AckRecovery u64 u32 | ClearRecovery

text \<open>One operation: the new state, the events it enqueued and the events it removed for the consumer.\<close>

fun fq_step :: "fq_op \<Rightarrow> frame_queue \<Rightarrow> frame_queue \<times> video_event list \<times> video_event list" where
  "fq_step (PushFrame u) st =
     (let (st', r) = push_frame_reporting_overflow u st
      in (st', case r of None \<Rightarrow> []
               | Some p \<Rightarrow> (case fp_generation p of None \<Rightarrow> [] | Some g \<Rightarrow> [VideoDiscontinuity g (du_epoch u) QueueOverflow])
                            @ [VideoFrame u], []))"
| "fq_step (PushDiscontinuity ep r) st =
     (let (st', g) = push_discontinuity ep r st in (st', case g of None \<Rightarrow> [] | Some g \<Rightarrow> [VideoDiscontinuity g ep r], []))"
| "fq_step PopEvent st = (let (st', e) = try_event st in (st', [], case e of None \<Rightarrow> [] | Some e \<Rightarrow> [e]))"
| "fq_step PopFrame st =
     (let (st', u) = try_pop st in (st', [], take (length (qs_events st) - length (qs_events st')) (qs_events st)))"
| "fq_step CloseQueue st = (fq_close st, [], [])"
| "fq_step TakeOverflowed st = (fst (take_overflowed st), [], [])"
| "fq_step (AckRecovery g ep) st = (fst (acknowledge_recovery g ep st), [], [])"
| "fq_step ClearRecovery st = (clear_recovery st, [], [])"

fun fq_run :: "fq_op list \<Rightarrow> frame_queue \<Rightarrow> frame_queue \<times> video_event list \<times> video_event list" where
  "fq_run [] st = (st, [], [])"
| "fq_run (x # xs) st =
     (let (st1, enq1, pop1) = fq_step x st; (st2, enq2, pop2) = fq_run xs st1 in (st2, enq1 @ enq2, pop1 @ pop2))"

lemma fq_run_append:
  "fq_run (xs @ ys) st = (case fq_run xs st of (st1, e1, p1) \<Rightarrow> case fq_run ys st1 of (st2, e2, p2) \<Rightarrow> (st2, e1 @ e2, p1 @ p2))"
  by (induction xs arbitrary: st) (auto split: prod.splits)

lemma fq_run_invariant:
  assumes "fq_run xs st = (st', enq, pop)" "I st log popped"
    and "\<And>x st log popped st1 e p. I st log popped \<Longrightarrow> fq_step x st = (st1, e, p) \<Longrightarrow> I st1 (log @ e) (popped @ p)"
  shows "I st' (log @ enq) (popped @ pop)"
  using assms(1,2)
proof (induction xs arbitrary: st log popped enq pop)
  case (Cons x xs)
  obtain st1 enq1 pop1 where 1: "fq_step x st = (st1, enq1, pop1)" by (cases "fq_step x st")
  obtain enq2 pop2 where 2: "fq_run xs st1 = (st', enq2, pop2)" "enq = enq1 @ enq2" "pop = pop1 @ pop2"
    using Cons.prems(1) 1 by (cases "fq_run xs st1") auto
  show ?case using Cons.IH [OF 2(1) assms(3) [OF Cons.prems(2) 1]] 2 by simp
qed simp

primrec is_disc :: "video_event \<Rightarrow> bool" where
  "is_disc (VideoFrame _) = False"
| "is_disc (VideoDiscontinuity _ _ _) = True"

subsection \<open>Order and gaps\<close>

text \<open>
  \<open>ix\<close> selects the positions of the log that the consumer sees: increasing, up to the last one, and
  every position that does not follow its predecessor directly is a discontinuity.
\<close>

definition gaps_marked :: "nat list \<Rightarrow> video_event list \<Rightarrow> bool" where
  "gaps_marked ix log \<longleftrightarrow>
     sorted_wrt (<) ix \<and> (\<forall>i \<in> set ix. i < length log) \<and>
     (\<forall>j < length ix. ix ! j = (if j = 0 then 0 else Suc (ix ! (j - 1))) \<or> is_disc (log ! (ix ! j))) \<and>
     (log \<noteq> [] \<longrightarrow> ix \<noteq> [] \<and> last ix = length log - 1)"

lemma gaps_snoc:
  assumes "gaps_marked ix log"
  shows "gaps_marked (ix @ [length log]) (log @ [e])"
proof -
  have nxt: "length log = (if ix = [] then 0 else Suc (last ix))"
    using assms by (cases "log = []") (auto simp: gaps_marked_def)
  have old: "log ! (ix ! j) = (log @ [e]) ! (ix ! j)" if "j < length ix" for j
    using assms that by (auto simp: gaps_marked_def nth_append)
  have "(ix @ [length log]) ! j = (if j = 0 then 0 else Suc ((ix @ [length log]) ! (j - 1))) \<or> is_disc ((log @ [e]) ! ((ix @ [length log]) ! j))"
    if "j < length (ix @ [length log])" for j
  proof (cases "j < length ix")
    case True
    then show ?thesis using assms old [OF True] by (auto simp: gaps_marked_def nth_append)
  next
    case False
    then have "j = length ix" using that by simp
    then show ?thesis using nxt by (cases "ix = []") (simp_all add: nth_append last_conv_nth)
  qed
  then show ?thesis using assms by (auto simp: gaps_marked_def sorted_wrt_append less_Suc_eq)
qed

lemma gaps_cut:
  assumes "gaps_marked ix log" "is_disc e"
  shows "gaps_marked (take n ix @ [length log]) (log @ [e])"
proof -
  let ?ix = "take n ix @ [length log]"
  have old: "log ! (ix ! j) = (log @ [e]) ! (ix ! j)" if "j < length ix" for j
    using assms that by (auto simp: gaps_marked_def nth_append)
  have "?ix ! j = (if j = 0 then 0 else Suc (?ix ! (j - 1))) \<or> is_disc ((log @ [e]) ! (?ix ! j))" if "j < length ?ix" for j
  proof (cases "j < length (take n ix)")
    case True
    then have "?ix ! j = ix ! j" "j \<noteq> 0 \<longrightarrow> ?ix ! (j - 1) = ix ! (j - 1)" by (auto simp: nth_append)
    then show ?thesis using assms(1) old [of j] True by (auto simp: gaps_marked_def)
  next
    case False
    then have "j = length (take n ix)" using that by (simp only: length_append list.size)
    then have "?ix ! j = length log" by (metis nth_append_length)
    then show ?thesis using assms(2) by simp
  qed
  moreover have "\<forall>i \<in> set (take n ix). i < length log" using assms(1) by (auto simp: gaps_marked_def dest: in_set_takeD)
  ultimately show ?thesis using assms(1) by (auto simp: gaps_marked_def sorted_wrt_append sorted_wrt_take less_Suc_eq)
qed

definition seen :: "nat list \<Rightarrow> frame_queue \<Rightarrow> video_event list \<Rightarrow> video_event list \<Rightarrow> bool" where
  "seen ix st log popped \<longleftrightarrow> gaps_marked ix log \<and> popped @ qs_events st = map (\<lambda>i. log ! i) ix"

lemma map_nth_log: "gaps_marked ix log \<Longrightarrow> map (\<lambda>i. (log @ es) ! i) (take n ix) = take n (map (\<lambda>i. log ! i) ix)"
  by (auto simp: take_map nth_append gaps_marked_def dest: in_set_takeD)

lemma seen_enqueue:
  assumes "seen ix st log popped" "qs_events st' = qs_events st @ [e]"
  shows "seen (ix @ [length log]) st' (log @ [e]) popped"
  using assms map_nth_log [of ix log "[e]" "length ix"] gaps_snoc [of ix log e]
  by (simp add: seen_def flip: append_assoc)

lemma seen_restart:
  assumes "seen ix st log popped" "is_disc e" "qs_events st' = [e]"
  shows "seen (take (length popped) ix @ [length log]) st' (log @ [e]) popped"
proof -
  have "popped = take (length popped) (map (\<lambda>i. log ! i) ix)" using assms(1) unfolding seen_def by (metis append_eq_conv_conj)
  then show ?thesis using assms map_nth_log [of ix log "[e]" "length popped"] gaps_cut [of ix log e "length popped"]
    by (simp add: seen_def)
qed

lemma seen_pop:
  assumes "seen ix st log popped" "qs_events st = es @ qs_events st'"
  shows "seen ix st' log (popped @ es)"
  using assms by (simp add: seen_def)

lemma pop_frames_suffix: "\<exists>es'. es = es' @ fst (pop_frames es)"
proof (induction es rule: pop_frames.induct)
  case (3 g ep r es)
  then obtain es' where "es = es' @ fst (pop_frames es)" by blast
  then have "VideoDiscontinuity g ep r # es = (VideoDiscontinuity g ep r # es') @ fst (pop_frames (VideoDiscontinuity g ep r # es))"
    by simp
  then show ?case by blast
qed auto

lemma step_seen:
  assumes "seen ix st log popped" "fq_step x st = (st', enq, pop)"
  shows "\<exists>ix'. seen ix' st' (log @ enq) (popped @ pop)"
proof (cases x)
  case (PushFrame u)
  show ?thesis
  proof (cases "qs_closed st \<or> length (qs_events st) < fq_cap st")
    case True
    then have "(st' = st \<and> enq = [] \<or> qs_events st' = qs_events st @ [VideoFrame u] \<and> enq = [VideoFrame u]) \<and> pop = []"
      using assms(2) PushFrame by (cases "qs_closed st") (auto simp: push_frame_reporting_overflow_def)
    then show ?thesis using assms(1) seen_enqueue [OF assms(1), of st' "VideoFrame u"] by auto
  next
    case False
    let ?g = "max (next_generation st + 1) 1"
    let ?d = "VideoDiscontinuity ?g (du_epoch u) QueueOverflow"
    have e: "qs_events st' = [?d] @ [VideoFrame u]" "enq = [?d] @ [VideoFrame u]" "pop = []"
      using assms(2) PushFrame False by (auto simp: push_frame_reporting_overflow_def open_recovery_locked_def Let_def)
    have "seen (take (length popped) ix @ [length log]) (st\<lparr>qs_events := [?d]\<rparr>) (log @ [?d]) popped"
      by (rule seen_restart [OF assms(1)]) simp_all
    from seen_enqueue [OF this, of st' "VideoFrame u"] e show ?thesis by auto
  qed
next
  case (PushDiscontinuity ep r)
  show ?thesis
  proof (cases "qs_closed st")
    case False
    let ?d = "VideoDiscontinuity (max (next_generation st + 1) 1) ep r"
    have e: "qs_events st' = (if length (qs_events st) \<ge> fq_cap st then [] else qs_events st) @ [?d]" "enq = [?d]" "pop = []"
      using assms(2) PushDiscontinuity False by (auto simp: push_discontinuity_def open_recovery_locked_def Let_def)
    then show ?thesis using seen_restart [OF assms(1), of ?d st'] seen_enqueue [OF assms(1), of st' ?d]
      by (cases "length (qs_events st) \<ge> fq_cap st") auto
  qed (use assms PushDiscontinuity in \<open>auto simp: push_discontinuity_def\<close>)
next
  case PopEvent
  then have "qs_events st = pop @ qs_events st'" "enq = []" using assms(2) by (auto simp: try_event_def split: list.splits)
  then show ?thesis using seen_pop [OF assms(1)] by auto
next
  case PopFrame
  obtain es where es: "qs_events st = es @ fst (pop_frames (qs_events st))" using pop_frames_suffix by blast
  have "qs_events st' = fst (pop_frames (qs_events st))" "pop = take (length (qs_events st) - length (qs_events st')) (qs_events st)" "enq = []"
    using assms(2) PopFrame by (auto simp: try_pop_def split: prod.splits)
  then have "qs_events st = pop @ qs_events st'" using es by (metis append_eq_conv_conj length_append add_diff_cancel_right')
  then show ?thesis using seen_pop [OF assms(1)] \<open>enq = []\<close> by auto
qed (use assms in \<open>auto simp: seen_def fq_close_def take_overflowed_def acknowledge_recovery_def clear_recovery_def\<close>)

lemma seen_new: "seen [] (fq_new cap) [] []"
  by (simp add: seen_def gaps_marked_def fq_new_def)

lemma run_seen:
  assumes "fq_run xs (fq_new cap) = (st, log, popped)"
  shows "\<exists>ix. seen ix st log popped"
proof -
  have "\<exists>ix. seen ix (fq_new cap) [] []" by (auto intro: seen_new)
  then have "\<exists>ix. seen ix st ([] @ log) ([] @ popped)" by (rule fq_run_invariant [OF assms]) (blast dest: step_seen)
  then show ?thesis by simp
qed

subsection \<open>Bounds\<close>

definition fq_bounded :: "frame_queue \<Rightarrow> bool" where
  "fq_bounded st \<longleftrightarrow> 1 \<le> fq_cap st \<and> length (qs_events st) \<le> max 2 (fq_cap st)"

lemma step_bounded:
  assumes "fq_bounded st" "fq_step x st = (st', enq, pop)"
  shows "fq_bounded st' \<and> fq_cap st' = fq_cap st"
proof (cases x)
  case PopFrame
  obtain es where "qs_events st = es @ fst (pop_frames (qs_events st))" using pop_frames_suffix by blast
  then have "length (fst (pop_frames (qs_events st))) \<le> length (qs_events st)" by (metis length_append le_add2)
  then show ?thesis using assms PopFrame by (auto simp: fq_bounded_def try_pop_def Let_def split: prod.splits)
qed (use assms in \<open>auto simp: fq_bounded_def push_frame_reporting_overflow_def push_discontinuity_def open_recovery_locked_def
    try_event_def fq_close_def take_overflowed_def acknowledge_recovery_def clear_recovery_def Let_def
    split: list.splits if_splits\<close>)

lemma run_bounded:
  assumes "fq_run xs (fq_new cap) = (st, log, popped)"
  shows "length (qs_events st) \<le> max 2 cap"
proof -
  have "fq_bounded (fq_new cap) \<and> fq_cap (fq_new cap) = max cap 1" by (simp add: fq_bounded_def fq_new_def)
  then have "fq_bounded st \<and> fq_cap st = max cap 1" by (rule fq_run_invariant [OF assms]) (auto dest: step_bounded)
  then show ?thesis by (auto simp: fq_bounded_def)
qed

subsection \<open>Recoveries\<close>

fun disc_id :: "video_event \<Rightarrow> (u64 \<times> u32) option" where
  "disc_id (VideoFrame _) = None"
| "disc_id (VideoDiscontinuity g ep _) = Some (g, ep)"

definition discs :: "video_event list \<Rightarrow> (u64 \<times> u32) list" where
  "discs log = List.map_filter disc_id log"

lemma discs_append [simp]: "discs (xs @ ys) = discs xs @ discs ys"
  by (induction xs) (simp_all add: discs_def map_filter_Cons List.map_filter_def split: option.split)

lemma discs_simps [simp]: "discs [] = []" "discs [VideoFrame u] = []" "discs [VideoDiscontinuity g ep r] = [(g, ep)]"
  by (simp_all add: discs_def List.map_filter_def)

definition recoveries_ok :: "frame_queue \<Rightarrow> video_event list \<Rightarrow> bool" where
  "recoveries_ok st log \<longleftrightarrow>
     map fst (discs log) = map word_of_nat [1..<Suc (length (discs log))] \<and>
     next_generation st = word_of_nat (length (discs log)) \<and>
     (recovery st = None \<or> discs log \<noteq> [] \<and> recovery st = Some (last (discs log)))"

lemma max_next: "Suc n < 2 ^ 64 \<Longrightarrow> max (word_of_nat n + 1) 1 = (word_of_nat (Suc n) :: u64)"
proof -
  assume n: "Suc n < 2 ^ 64"
  have "unat (word_of_nat (Suc n) :: u64) = Suc n" using n by (simp only: unat_of_nat take_bit_nat_def) simp
  then have "(1 :: u64) \<le> word_of_nat (Suc n)" by (simp add: word_le_nat_alt)
  then show ?thesis by (simp add: max_def add.commute)
qed

lemma recoveries_open:
  assumes "recoveries_ok st log" "Suc (length (discs log)) < 2 ^ 64" "discs enq = [(max (next_generation st + 1) 1, ep)]"
    "next_generation st' = max (next_generation st + 1) 1" "recovery st' = Some (max (next_generation st + 1) 1, ep)"
  shows "recoveries_ok st' (log @ enq)"
  using assms max_next [OF assms(2)] by (auto simp: recoveries_ok_def)

lemma recoveries_same:
  assumes "recoveries_ok st log" "discs enq = []" "next_generation st' = next_generation st" "recovery st' = recovery st \<or> recovery st' = None"
  shows "recoveries_ok st' (log @ enq)"
  using assms by (auto simp: recoveries_ok_def)

lemma step_recoveries:
  assumes "recoveries_ok st log" "fq_step x st = (st', enq, pop)" "length (discs (log @ enq)) < 2 ^ 64"
  shows "recoveries_ok st' (log @ enq)"
proof -
  have "(\<exists>ep. discs enq = [(max (next_generation st + 1) 1, ep)] \<and> next_generation st' = max (next_generation st + 1) 1 \<and>
        recovery st' = Some (max (next_generation st + 1) 1, ep)) \<or>
      (discs enq = [] \<and> next_generation st' = next_generation st \<and> (recovery st' = recovery st \<or> recovery st' = None))"
    using assms(2)
    by (cases x) (auto simp: push_frame_reporting_overflow_def push_discontinuity_def open_recovery_locked_def try_event_def
      try_pop_def fq_close_def take_overflowed_def acknowledge_recovery_def clear_recovery_def Let_def
      discs_def map_filter_Cons List.map_filter_def split: list.splits if_splits prod.splits)
  then show ?thesis
  proof (elim disjE exE conjE)
    fix ep
    assume e: "discs enq = [(max (next_generation st + 1) 1, ep)]" "next_generation st' = max (next_generation st + 1) 1"
      "recovery st' = Some (max (next_generation st + 1) 1, ep)"
    then show ?thesis using assms(3) by (intro recoveries_open [OF assms(1) _ e]) simp
  qed (use recoveries_same [OF assms(1)] in auto)
qed

lemma run_recoveries:
  assumes "fq_run xs (fq_new cap) = (st, log, popped)" "length (discs log) < 2 ^ 64"
  shows "recoveries_ok st log"
proof -
  have "length (discs []) < 2 ^ 64 \<longrightarrow> recoveries_ok (fq_new cap) []" by (simp add: recoveries_ok_def fq_new_def)
  then have "length (discs ([] @ log)) < 2 ^ 64 \<longrightarrow> recoveries_ok st ([] @ log)"
    by (rule fq_run_invariant [OF assms(1)]) (auto intro: step_recoveries)
  then show ?thesis using assms(2) by simp
qed

text \<open>Without acknowledgements the newest recovery stays open.\<close>

primrec keeps_recovery :: "fq_op \<Rightarrow> bool" where
  "keeps_recovery (PushFrame _) = True"
| "keeps_recovery (PushDiscontinuity _ _) = True"
| "keeps_recovery PopEvent = True"
| "keeps_recovery PopFrame = True"
| "keeps_recovery CloseQueue = True"
| "keeps_recovery TakeOverflowed = True"
| "keeps_recovery (AckRecovery _ _) = False"
| "keeps_recovery ClearRecovery = False"

lemma step_open_recovery:
  assumes "fq_step x st = (st', enq, pop)" "keeps_recovery x" "recovery st = (if discs log = [] then None else Some (last (discs log)))"
  shows "recovery st' = (if discs (log @ enq) = [] then None else Some (last (discs (log @ enq))))"
  using assms
  by (cases x) (auto simp: push_frame_reporting_overflow_def push_discontinuity_def open_recovery_locked_def try_event_def
      try_pop_def fq_close_def take_overflowed_def Let_def discs_def map_filter_Cons List.map_filter_def
      split: list.splits if_splits prod.splits)

lemma run_open_recovery:
  assumes "fq_run xs st = (st', enq, pop)" "list_all keeps_recovery xs" "recovery st = (if discs log = [] then None else Some (last (discs log)))"
  shows "recovery st' = (if discs (log @ enq) = [] then None else Some (last (discs (log @ enq))))"
  using assms
proof (induction xs arbitrary: st log enq pop)
  case (Cons x xs)
  obtain st1 enq1 pop1 where 1: "fq_step x st = (st1, enq1, pop1)" by (cases "fq_step x st")
  obtain enq2 pop2 where 2: "fq_run xs st1 = (st', enq2, pop2)" "enq = enq1 @ enq2"
    using Cons.prems(1) 1 by (cases "fq_run xs st1") auto
  have "recovery st1 = (if discs (log @ enq1) = [] then None else Some (last (discs (log @ enq1))))"
    using Cons.prems(2,3) by (intro step_open_recovery [OF 1]) simp_all
  from Cons.IH [OF 2(1) _ this] show ?case using Cons.prems(2) 2(2) by simp
qed simp

lemma generations_inj:
  fixes ds :: "(u64 \<times> u32) list"
  assumes "n < 2 ^ 64" "map fst ds = map word_of_nat [1..<Suc n]"
  shows "distinct (map fst ds)"
proof -
  have "unat (word_of_nat i :: u64) = i" if "i \<in> {1..<Suc n}" for i
    using that assms(1) by (simp only: unat_of_nat take_bit_nat_def) simp
  then have "inj_on (word_of_nat :: nat \<Rightarrow> u64) {1..<Suc n}" by (rule inj_on_inverseI)
  then show ?thesis using assms(2) by (simp only: distinct_map set_upt distinct_upt simp_thms)
qed

subsection \<open>Blocking waits\<close>

lemma wait_event_origin:
  "wait_event wakes st = Some (st', r) \<Longrightarrow> \<exists>g \<in> insert st (fst ` set wakes). (st', r) = try_event g \<and>
     (r = None \<longrightarrow> qs_closed g \<or> (\<exists>w \<in> set wakes. snd w))"
proof (induction wakes arbitrary: st)
  case Nil
  then show ?case by (subst (asm) wait_event.simps) (auto simp: try_event_def split: list.splits if_splits)
next
  case (Cons w wakes)
  obtain g b where w: "w = (g, b)" by (cases w)
  show ?case
  proof (cases "qs_events st = [] \<and> \<not> qs_closed st \<and> \<not> (b \<and> qs_events g = [])")
    case True
    then have "wait_event wakes g = Some (st', r)"
      using Cons.prems w by (subst (asm) wait_event.simps) (auto simp: try_event_def)
    then show ?thesis using Cons.IH [of g] w by auto
  next
    case False
    then show ?thesis using Cons.prems w
      by (subst (asm) wait_event.simps) (auto simp: try_event_def split: list.splits if_splits)
  qed
qed

lemma wait_event_returns: "\<exists>w \<in> set wakes. snd w \<Longrightarrow> wait_event wakes st \<noteq> None"
proof (induction wakes arbitrary: st)
  case (Cons w wakes)
  obtain g b where w: "w = (g, b)" by (cases w)
  show ?case
  proof (cases "b \<and> qs_events g \<noteq> []")
    case True
    then have "wait_event wakes g \<noteq> None" by (subst wait_event.simps) (auto simp: try_event_def split: list.splits)
    then show ?thesis using w by (subst wait_event.simps) (auto simp: try_event_def split: list.splits)
  next
    case False
    then show ?thesis using Cons w by (subst wait_event.simps) (auto simp: try_event_def split: list.splits)
  qed
qed simp

subsection \<open>The audio queue keeps the newest packets\<close>

datatype sq_op = SqPush bytes | SqPop | SqClose

fun sq_step :: "sq_op \<Rightarrow> sample_queue \<Rightarrow> sample_queue \<times> bytes list \<times> bytes list" where
  "sq_step (SqPush p) st = (let (st', ok) = sq_push p st in (st', if ok then [p] else [], []))"
| "sq_step SqPop st = (let (st', p) = sq_pop st in (st', [], case p of None \<Rightarrow> [] | Some p \<Rightarrow> [p]))"
| "sq_step SqClose st = (sq_close st, [], [])"

fun sq_run :: "sq_op list \<Rightarrow> sample_queue \<Rightarrow> sample_queue \<times> bytes list \<times> bytes list" where
  "sq_run [] st = (st, [], [])"
| "sq_run (x # xs) st =
     (let (st1, enq1, pop1) = sq_step x st; (st2, enq2, pop2) = sq_run xs st1 in (st2, enq1 @ enq2, pop1 @ pop2))"

lemma drop_oldest_eq: "0 < cap \<Longrightarrow> drop_oldest cap xs = drop (Suc (length xs) - cap) xs"
  by (induction xs) (auto simp: Suc_diff_le)

definition sq_rel :: "sample_queue \<Rightarrow> bytes list \<Rightarrow> bytes list \<Rightarrow> bool" where
  "sq_rel st log popped \<longleftrightarrow> 0 < sq_cap st \<and> length (ss_packets st) \<le> sq_cap st \<and>
     (\<exists>old. log = old @ ss_packets st \<and> subseq popped old \<and> (length log \<le> sq_cap st \<longrightarrow> popped = old))"

lemma sq_step_rel:
  assumes "sq_rel st log popped" "sq_step x st = (st', enq, pop)"
  shows "sq_rel st' (log @ enq) (popped @ pop) \<and> sq_cap st' = sq_cap st"
proof -
  obtain old where o: "log = old @ ss_packets st" "subseq popped old" "length log \<le> sq_cap st \<longrightarrow> popped = old"
    and c: "0 < sq_cap st" "length (ss_packets st) \<le> sq_cap st"
    using assms(1) by (auto simp: sq_rel_def)
  show ?thesis
  proof (cases x)
    case (SqPush p)
    show ?thesis
    proof (cases "ss_closed st")
      case False
      let ?n = "Suc (length (ss_packets st)) - sq_cap st"
      have st': "st' = st\<lparr>ss_packets := drop ?n (ss_packets st) @ [p]\<rparr>" "enq = [p]" "pop = []"
        using assms(2) SqPush False by (auto simp: sq_push_def drop_oldest_eq [OF c(1)])
      have "log @ enq = (old @ take ?n (ss_packets st)) @ ss_packets st'" using o(1) st' by simp
      moreover have "subseq popped (old @ take ?n (ss_packets st))" using o(2) by (rule subseq_rev_drop_many)
      moreover have "length (log @ enq) \<le> sq_cap st \<longrightarrow> popped = old @ take ?n (ss_packets st)" using o st' by auto
      ultimately show ?thesis using c st' unfolding sq_rel_def by (intro conjI exI [of _ "old @ take ?n (ss_packets st)"]) auto
    qed (use assms SqPush in \<open>auto simp: sq_push_def\<close>)
  next
    case SqPop
    show ?thesis
    proof (cases "ss_packets st")
      case (Cons q qs)
      then have st': "st' = st\<lparr>ss_packets := qs\<rparr>" "enq = []" "pop = [q]" using assms(2) SqPop by (auto simp: sq_pop_def)
      have "subseq (popped @ [q]) (old @ [q])" using o(2) by (simp add: subseq_append)
      then show ?thesis using o c st' Cons unfolding sq_rel_def by (intro conjI exI [of _ "old @ [q]"]) auto
    qed (use assms SqPop in \<open>auto simp: sq_pop_def\<close>)
  qed (use assms in \<open>auto simp: sq_close_def sq_rel_def\<close>)
qed

lemma sq_run_rel:
  assumes "sq_rel st log popped" "sq_run xs st = (st', enq, pop)"
  shows "sq_rel st' (log @ enq) (popped @ pop) \<and> sq_cap st' = sq_cap st"
  using assms
proof (induction xs arbitrary: st log popped enq pop)
  case (Cons x xs)
  obtain st1 enq1 pop1 where 1: "sq_step x st = (st1, enq1, pop1)" by (cases "sq_step x st")
  obtain enq2 pop2 where 2: "sq_run xs st1 = (st', enq2, pop2)" "enq = enq1 @ enq2" "pop = pop1 @ pop2"
    using Cons.prems(2) 1 by (cases "sq_run xs st1") auto
  note S = sq_step_rel [OF Cons.prems(1) 1]
  show ?case using Cons.IH [OF conjunct1 [OF S] 2(1)] S 2 by simp
qed simp

section \<open>Properties\<close>

text \<open>
  C6. The order and gap contract. Whatever the threads do with the queue, what the consumer has popped
  followed by what is still queued is a subsequence of the enqueued events in order; it ends with the
  newest one, and wherever events were skipped the next one is a discontinuity: no frame is observed
  after a loss without the reset event in front of it. The queue holds at most its capacity
  of events, or two when the capacity is below two.
\<close>

theorem queue_gaps_marked:
  assumes "fq_run ops (fq_new cap) = (st, log, popped)"
  shows "\<exists>ix. sorted_wrt (<) ix \<and> popped @ qs_events st = map (\<lambda>i. log ! i) ix \<and>
    (\<forall>j < length ix. ix ! j < length log \<and> (ix ! j = (if j = 0 then 0 else Suc (ix ! (j - 1))) \<or> is_disc (log ! (ix ! j)))) \<and>
    (log \<noteq> [] \<longrightarrow> ix \<noteq> [] \<and> last ix = length log - 1) \<and> length (qs_events st) \<le> max 2 cap"
proof -
  obtain ix where "seen ix st log popped" using run_seen [OF assms] by blast
  then show ?thesis using run_bounded [OF assms] by (intro exI [of _ ix]) (auto simp: seen_def gaps_marked_def)
qed

definition unit0 :: decode_unit where
  "unit0 = \<lparr>du_frame_id = 0, du_epoch = 7, du_is_key = False, du_timestamp_us = 0, du_duration_us = 0, du_data = []\<rparr>"

theorem queue_gaps_marked_witness:
  "\<exists>st log ix. fq_run [PushFrame unit0, PopEvent, PushFrame unit0, PushFrame unit0] (fq_new 1) = (st, log, [VideoFrame unit0]) \<and>
     log = [VideoFrame unit0, VideoFrame unit0, VideoDiscontinuity 1 7 QueueOverflow, VideoFrame unit0] \<and>
     sorted_wrt (<) ix \<and> [VideoFrame unit0] @ qs_events st = map (\<lambda>i. log ! i) ix \<and> length ix = 3 \<and> last ix = 3 \<and>
     (ix ! 1 = Suc (ix ! 0) \<or> is_disc (log ! (ix ! 1))) \<and> length (qs_events st) \<le> 2"
proof -
  let ?log = "[VideoFrame unit0, VideoFrame unit0, VideoDiscontinuity 1 7 QueueOverflow, VideoFrame unit0]"
  obtain st where run: "fq_run [PushFrame unit0, PopEvent, PushFrame unit0, PushFrame unit0] (fq_new 1) = (st, ?log, [VideoFrame unit0])"
    and ev: "qs_events st = [VideoDiscontinuity 1 7 QueueOverflow, VideoFrame unit0]"
    by (simp add: fq_new_def push_frame_reporting_overflow_def try_event_def open_recovery_locked_def unit0_def max_def word_le_nat_alt)
  obtain ix where ix: "sorted_wrt (<) ix" "[VideoFrame unit0] @ qs_events st = map (\<lambda>i. ?log ! i) ix"
      "\<forall>j < length ix. ix ! j < length ?log \<and> (ix ! j = (if j = 0 then 0 else Suc (ix ! (j - 1))) \<or> is_disc (?log ! (ix ! j)))"
      "?log \<noteq> [] \<longrightarrow> ix \<noteq> [] \<and> last ix = length ?log - 1" "length (qs_events st) \<le> max 2 1"
    using queue_gaps_marked [OF run] by (elim exE conjE) (rule that)
  have "length ix = 3" using arg_cong [OF ix(2), of length] ev by simp
  moreover from this have "ix ! 1 = Suc (ix ! 0) \<or> is_disc (?log ! (ix ! 1))" using ix(3) [rule_format, of 1] by simp
  ultimately show ?thesis using run ix(1,2,4,5) by (intro exI [of _ st] exI [of _ ?log] exI [of _ ix]) simp
qed

text \<open>
  Recoveries are identified by their generation. In every run with fewer than \<open>2 ^ 64\<close>
  discontinuities their generations are 1, 2, 3, ...; an open recovery is always that of the newest
  discontinuity, it is open as soon as that discontinuity can be popped and stays so while no operation
  acknowledges or clears; and acknowledging any older discontinuity, even one of the same epoch,
  changes nothing.
\<close>

theorem recovery_generations:
  assumes "fq_run ops (fq_new cap) = (st, log, popped)" and "length (discs log) < 2 ^ 64"
  shows "map fst (discs log) = map word_of_nat [1..<Suc (length (discs log))] \<and> distinct (map fst (discs log)) \<and>
    (recovery st = None \<or> discs log \<noteq> [] \<and> recovery st = Some (last (discs log))) \<and>
    (list_all keeps_recovery ops \<longrightarrow>
       recovery st = (if discs log = [] then None else Some (last (discs log)))) \<and>
    (\<forall>(g, ep) \<in> set (butlast (discs log)). acknowledge_recovery g ep st = (st, False))"
proof -
  note R = run_recoveries [OF assms]
  have d: "distinct (map fst (discs log))"
    by (rule generations_inj [OF assms(2)]) (use R in \<open>simp only: recoveries_ok_def\<close>)
  have "acknowledge_recovery g ep st = (st, False)" if "(g, ep) \<in> set (butlast (discs log))" for g ep
  proof -
    have ne: "discs log \<noteq> []" using that by (cases "discs log") auto
    then have "distinct (map fst (butlast (discs log)) @ [fst (last (discs log))])"
      using d by (metis append_butlast_last_id list.simps(8) list.simps(9) map_append)
    then have "fst (last (discs log)) \<notin> set (map fst (butlast (discs log)))" by simp
    moreover have "g \<in> set (map fst (butlast (discs log)))" using image_eqI [OF _ that, of g fst] by simp
    ultimately have "g \<noteq> fst (last (discs log))" by metis
    then show ?thesis using R by (auto simp: recoveries_ok_def acknowledge_recovery_def)
  qed
  moreover have "recovery st = (if discs log = [] then None else Some (last (discs log)))"
    if "list_all keeps_recovery ops"
    using run_open_recovery [OF assms(1) that, of "[]"] by (simp add: fq_new_def)
  ultimately show ?thesis using R d by (auto simp: recoveries_ok_def)
qed

theorem recovery_generations_witness:
  "\<exists>st. fq_run [PushDiscontinuity 7 ReorderGap, PushDiscontinuity 7 FrameCrc] (fq_new 16) =
     (st, [VideoDiscontinuity 1 7 ReorderGap, VideoDiscontinuity 2 7 FrameCrc], []) \<and>
     acknowledge_recovery 1 7 st = (st, False)"
proof -
  obtain st where run: "fq_run [PushDiscontinuity 7 ReorderGap, PushDiscontinuity 7 FrameCrc] (fq_new 16) =
     (st, [VideoDiscontinuity 1 7 ReorderGap, VideoDiscontinuity 2 7 FrameCrc], [])"
    by (simp add: fq_new_def push_discontinuity_def open_recovery_locked_def max_def word_le_nat_alt)
  have d: "discs [VideoDiscontinuity 1 7 ReorderGap, VideoDiscontinuity 2 7 FrameCrc] = [(1, 7), (2, 7)]"
    by (simp add: discs_def map_filter_Cons List.map_filter_def)
  have "length (discs [VideoDiscontinuity 1 7 ReorderGap, VideoDiscontinuity 2 7 FrameCrc]) < 2 ^ 64" by (simp add: d)
  from recovery_generations [OF run this] run show ?thesis by (auto simp: d)
qed



text \<open>
  The audio queue drops only the oldest packets. In every run the queued packets are the newest of
  those accepted, at most the capacity; the packets popped are older ones in order; and while no more
  than the capacity have been accepted none is lost.
\<close>

theorem audio_queue_keeps_newest:
  assumes "sq_run ops (sq_new cap) = (st, log, popped)"
  shows "\<exists>old. log = old @ ss_packets st \<and> subseq popped old \<and> length (ss_packets st) \<le> max cap 1 \<and>
    (length log \<le> max cap 1 \<longrightarrow> popped = old)"
proof -
  have "sq_rel (sq_new cap) [] []" by (simp add: sq_rel_def sq_new_def)
  from sq_run_rel [OF this assms] show ?thesis by (auto simp: sq_rel_def sq_new_def)
qed

theorem audio_queue_keeps_newest_witness:
  "\<exists>old. [[1], [2], [3]] = old @ [[3 :: u8]] \<and> subseq [[2]] old"
proof -
  have "sq_run [SqPush [1], SqPush [2], SqPop, SqPush [3]] (sq_new 1) =
      (\<lparr>ss_packets = [[3]], ss_closed = False, sq_cap = 1\<rparr>, [[1], [2], [3]], [[2]])"
    by (simp add: sq_new_def sq_push_def sq_pop_def)
  from audio_queue_keeps_newest [OF this] show ?thesis by auto
qed

end
