(* ===== verification/Watchdog.thy ===== *)
theory Watchdog
  imports Prelude
begin

text \<open>
  \<open>watchdog.rs\<close> of the native client: the receive-stage stall watchdog, the decode and present stage
  clocks, and the supervisor that composes them. All machines are pure and driven with wall-clock
  milliseconds. Each is an escalation ladder; the locale \<open>ladder\<close> states that contract once and is
  interpreted on the receive machine and on the stage clock.
\<close>

section \<open>Actions and configuration\<close>

datatype watchdog_action =
  Stall | RecoveredAfter nat | RequestIdr nat | RestartIce | Reconnect | DecodeStall nat | PresentStall nat

record watchdog_config =
  stall_indicator_ms :: nat
  idr_first_ms :: nat
  idr_retry_ms :: nat
  idr_max_attempts :: nat
  ice_restart_ms :: nat
  reconnect_ms :: nat
  decode_stall_ms :: nat
  decode_retry_ms :: nat
  decode_max_attempts :: nat
  present_stall_ms :: nat
  present_retry_ms :: nat
  present_max_attempts :: nat

definition default_watchdog_config :: watchdog_config where
  "default_watchdog_config =
     \<lparr>stall_indicator_ms = 1000, idr_first_ms = 2000, idr_retry_ms = 2000, idr_max_attempts = 3, ice_restart_ms = 10000,
      reconnect_ms = 20000, decode_stall_ms = 2000, decode_retry_ms = 2000, decode_max_attempts = 2,
      present_stall_ms = 2000, present_retry_ms = 2000, present_max_attempts = 4\<rparr>"

section \<open>The receive stage\<close>

datatype rung = RungStall | RungIdr | RungIce | RungReconnect

record stall_watchdog =
  sw_config :: watchdog_config
  sw_running :: bool
  sw_paused :: bool
  last_frame_ms :: nat
  stall_shown :: bool
  idr_attempts :: nat
  ice_requested :: bool
  reconnect_requested :: bool

definition stall_new :: "watchdog_config \<Rightarrow> stall_watchdog" where
  "stall_new c = \<lparr>sw_config = c, sw_running = False, sw_paused = False, last_frame_ms = 0, stall_shown = False,
     idr_attempts = 0, ice_requested = False, reconnect_requested = False\<rparr>"

definition stalled :: "stall_watchdog \<Rightarrow> bool" where
  "stalled w = stall_shown w"

definition stalled_ms :: "nat \<Rightarrow> stall_watchdog \<Rightarrow> nat" where
  "stalled_ms now_ms w = (if \<not> sw_running w \<or> sw_paused w then 0 else now_ms - last_frame_ms w)"

definition reset_episode :: "stall_watchdog \<Rightarrow> stall_watchdog" where
  "reset_episode w = w\<lparr>stall_shown := False, idr_attempts := 0, ice_requested := False, reconnect_requested := False\<rparr>"

definition stall_start :: "nat \<Rightarrow> stall_watchdog \<Rightarrow> stall_watchdog" where
  "stall_start now_ms w = reset_episode (w\<lparr>sw_running := True, sw_paused := False, last_frame_ms := now_ms\<rparr>)"

definition stall_stop :: "stall_watchdog \<Rightarrow> stall_watchdog" where
  "stall_stop w = w\<lparr>sw_running := False, stall_shown := False\<rparr>"

definition stall_pause :: "stall_watchdog \<Rightarrow> stall_watchdog" where
  "stall_pause w = w\<lparr>sw_paused := True\<rparr>"

definition stall_resume :: "nat \<Rightarrow> stall_watchdog \<Rightarrow> stall_watchdog" where
  "stall_resume now_ms w = (if sw_paused w then w\<lparr>sw_paused := False, last_frame_ms := now_ms\<rparr> else w)"

definition frame_received :: "nat \<Rightarrow> stall_watchdog \<Rightarrow> stall_watchdog \<times> watchdog_action option" where
  "frame_received now_ms w =
     (if \<not> sw_running w then (w, None)
      else let action = (if stall_shown w then Some (RecoveredAfter (now_ms - last_frame_ms w)) else None)
           in (reset_episode (w\<lparr>last_frame_ms := now_ms\<rparr>), action))"

definition next_rung :: "nat \<Rightarrow> stall_watchdog \<Rightarrow> rung option" where
  "next_rung elapsed_ms w =
     (let c = sw_config w
      in if \<not> stall_shown w then (if elapsed_ms \<ge> stall_indicator_ms c then Some RungStall else None)
         else if idr_attempts w < idr_max_attempts c \<and> elapsed_ms \<ge> idr_first_ms c + idr_attempts w * idr_retry_ms c
         then Some RungIdr
         else if \<not> ice_requested w \<and> elapsed_ms \<ge> ice_restart_ms c then Some RungIce
         else if elapsed_ms \<ge> reconnect_ms c then Some RungReconnect else None)"

definition stall_tick :: "nat \<Rightarrow> stall_watchdog \<Rightarrow> stall_watchdog \<times> watchdog_action option" where
  "stall_tick now_ms w =
     (if \<not> sw_running w \<or> sw_paused w \<or> reconnect_requested w then (w, None)
      else case next_rung (now_ms - last_frame_ms w) w of
             None \<Rightarrow> (w, None)
           | Some RungStall \<Rightarrow> (w\<lparr>stall_shown := True\<rparr>, Some Stall)
           | Some RungIdr \<Rightarrow> (w\<lparr>idr_attempts := idr_attempts w + 1\<rparr>, Some (RequestIdr (idr_attempts w + 1)))
           | Some RungIce \<Rightarrow> (w\<lparr>ice_requested := True\<rparr>, Some RestartIce)
           | Some RungReconnect \<Rightarrow> (w\<lparr>reconnect_requested := True\<rparr>, Some Reconnect))"

section \<open>The downstream stages\<close>

datatype watchdog_stage = StageReceive | StageDecode | StagePresent

datatype stage_rung = Attempt nat | StageReconnect

record stage_clock =
  sc_running :: bool
  sc_paused :: bool
  armed :: bool
  last_progress_ms :: nat
  attempts :: nat
  exhausted :: bool

definition stage_default :: stage_clock where
  "stage_default = \<lparr>sc_running = False, sc_paused = False, armed = False, last_progress_ms = 0, attempts = 0, exhausted = False\<rparr>"

definition stage_start :: "stage_clock \<Rightarrow> stage_clock" where
  "stage_start s = s\<lparr>sc_running := True, sc_paused := False, armed := False, last_progress_ms := 0, attempts := 0, exhausted := False\<rparr>"

definition stage_stop :: "stage_clock \<Rightarrow> stage_clock" where
  "stage_stop s = s\<lparr>sc_running := False, armed := False\<rparr>"

definition stage_pause :: "stage_clock \<Rightarrow> stage_clock" where
  "stage_pause s = s\<lparr>sc_paused := True\<rparr>"

definition stage_resume :: "nat \<Rightarrow> stage_clock \<Rightarrow> stage_clock" where
  "stage_resume now_ms s = (if sc_paused s then s\<lparr>sc_paused := False, last_progress_ms := now_ms\<rparr> else s)"

definition stage_progress :: "nat \<Rightarrow> stage_clock \<Rightarrow> stage_clock" where
  "stage_progress now_ms s =
     (if \<not> sc_running s then s
      else s\<lparr>armed := True, last_progress_ms := now_ms, attempts := 0, exhausted := False\<rparr>)"

definition age_ms :: "nat \<Rightarrow> stage_clock \<Rightarrow> nat" where
  "age_ms now_ms s = (if \<not> sc_running s \<or> sc_paused s \<or> \<not> armed s then 0 else now_ms - last_progress_ms s)"

definition stage_tick :: "nat \<Rightarrow> nat \<Rightarrow> nat \<Rightarrow> nat \<Rightarrow> stage_clock \<Rightarrow> stage_clock \<times> stage_rung option" where
  "stage_tick now_ms stall_ms retry_ms max_attempts s =
     (if \<not> sc_running s \<or> sc_paused s \<or> \<not> armed s \<or> exhausted s then (s, None)
      else let elapsed = now_ms - last_progress_ms s
           in if attempts s < max_attempts
              then if elapsed \<ge> stall_ms + attempts s * retry_ms
                   then (s\<lparr>attempts := attempts s + 1\<rparr>, Some (Attempt (attempts s + 1))) else (s, None)
              else if elapsed \<ge> stall_ms + max_attempts * retry_ms
                   then (s\<lparr>exhausted := True\<rparr>, Some StageReconnect) else (s, None))"

section \<open>The supervisor\<close>

record watchdog_supervisor =
  ws_config :: watchdog_config
  ws_generation :: nat
  ws_receive :: stall_watchdog
  ws_decode :: stage_clock
  ws_present :: stage_clock

definition supervisor_new :: "watchdog_config \<Rightarrow> watchdog_supervisor" where
  "supervisor_new c = \<lparr>ws_config = c, ws_generation = 0, ws_receive = stall_new c, ws_decode = stage_default, ws_present = stage_default\<rparr>"

definition supervisor_start :: "nat \<Rightarrow> nat \<Rightarrow> watchdog_supervisor \<Rightarrow> watchdog_supervisor" where
  "supervisor_start now_ms generation s =
     s\<lparr>ws_generation := generation, ws_receive := stall_start now_ms (ws_receive s), ws_decode := stage_start (ws_decode s),
       ws_present := stage_start (ws_present s)\<rparr>"

definition supervisor_stop :: "watchdog_supervisor \<Rightarrow> watchdog_supervisor" where
  "supervisor_stop s = s\<lparr>ws_receive := stall_stop (ws_receive s), ws_decode := stage_stop (ws_decode s), ws_present := stage_stop (ws_present s)\<rparr>"

definition is_current :: "nat \<Rightarrow> watchdog_supervisor \<Rightarrow> bool" where
  "is_current generation s \<longleftrightarrow> ws_generation s = generation"

definition supervisor_pause :: "watchdog_supervisor \<Rightarrow> watchdog_supervisor" where
  "supervisor_pause s = s\<lparr>ws_receive := stall_pause (ws_receive s), ws_decode := stage_pause (ws_decode s), ws_present := stage_pause (ws_present s)\<rparr>"

definition supervisor_resume :: "nat \<Rightarrow> watchdog_supervisor \<Rightarrow> watchdog_supervisor" where
  "supervisor_resume now_ms s =
     s\<lparr>ws_receive := stall_resume now_ms (ws_receive s), ws_decode := stage_resume now_ms (ws_decode s),
       ws_present := stage_resume now_ms (ws_present s)\<rparr>"

definition supervisor_frame_received :: "nat \<Rightarrow> watchdog_supervisor \<Rightarrow> watchdog_supervisor \<times> watchdog_action option" where
  "supervisor_frame_received now_ms s = (let (w, a) = frame_received now_ms (ws_receive s) in (s\<lparr>ws_receive := w\<rparr>, a))"

definition decode_progress :: "nat \<Rightarrow> watchdog_supervisor \<Rightarrow> watchdog_supervisor" where
  "decode_progress now_ms s = s\<lparr>ws_decode := stage_progress now_ms (ws_decode s)\<rparr>"

definition present_progress :: "nat \<Rightarrow> watchdog_supervisor \<Rightarrow> watchdog_supervisor" where
  "present_progress now_ms s = s\<lparr>ws_present := stage_progress now_ms (ws_present s)\<rparr>"

definition receive_age_ms :: "nat \<Rightarrow> watchdog_supervisor \<Rightarrow> nat" where
  "receive_age_ms now_ms s = stalled_ms now_ms (ws_receive s)"

definition decode_age_ms :: "nat \<Rightarrow> watchdog_supervisor \<Rightarrow> nat" where
  "decode_age_ms now_ms s = age_ms now_ms (ws_decode s)"

definition present_age_ms :: "nat \<Rightarrow> watchdog_supervisor \<Rightarrow> nat" where
  "present_age_ms now_ms s = age_ms now_ms (ws_present s)"

definition stage_action :: "(nat \<Rightarrow> watchdog_action) \<Rightarrow> stage_rung \<Rightarrow> watchdog_action" where
  "stage_action stall r = (case r of Attempt n \<Rightarrow> stall n | StageReconnect \<Rightarrow> Reconnect)"

definition supervisor_tick :: "nat \<Rightarrow> watchdog_supervisor \<Rightarrow> watchdog_supervisor \<times> (watchdog_stage \<times> watchdog_action \<times> nat) option" where
  "supervisor_tick now_ms s =
     (let at_generation = ws_generation s; c = ws_config s; (w, a) = stall_tick now_ms (ws_receive s); s = s\<lparr>ws_receive := w\<rparr>
      in case a of
           Some action \<Rightarrow> (s, Some (StageReceive, action, at_generation))
         | None \<Rightarrow>
             let (d, r) = stage_tick now_ms (decode_stall_ms c) (decode_retry_ms c) (decode_max_attempts c) (ws_decode s);
                 s = s\<lparr>ws_decode := d\<rparr>
             in case r of
                  Some rung \<Rightarrow> (s, Some (StageDecode, stage_action DecodeStall rung, at_generation))
                | None \<Rightarrow>
                    let (p, r) = stage_tick now_ms (present_stall_ms c) (present_retry_ms c) (present_max_attempts c) (ws_present s);
                        s = s\<lparr>ws_present := p\<rparr>
                    in case r of
                         Some rung \<Rightarrow> (s, Some (StagePresent, stage_action PresentStall rung, at_generation))
                       | None \<Rightarrow> (s, None))"

section \<open>Escalation ladders\<close>

text \<open>
  Within an episode (no progress, no restart) a machine may only emit the next entry of its ladder, one
  per call; when it is overdue it must.
\<close>

datatype episode_op = Tick nat | Pause | Resume nat

fun run_ops :: "('o \<Rightarrow> 's \<Rightarrow> 's \<times> 'a option) \<Rightarrow> 'o list \<Rightarrow> 's \<Rightarrow> 's \<times> 'a list" where
  "run_ops f [] s = (s, [])"
| "run_ops f (x # xs) s =
     (let (s1, a) = f x s; (s2, as) = run_ops f xs s1 in (s2, (case a of None \<Rightarrow> as | Some a \<Rightarrow> a # as)))"

locale ladder =
  fixes step :: "episode_op \<Rightarrow> 's \<Rightarrow> 's \<times> 'a option" and pos :: "'s \<Rightarrow> nat" and rungs :: "'a list" and good :: "'s \<Rightarrow> bool"
  assumes keeps: "good s \<Longrightarrow> good (fst (step x s))"
    and fires: "good s \<Longrightarrow> step x s = (s', Some a) \<Longrightarrow> pos s < length rungs \<and> a = rungs ! pos s \<and> pos s' = Suc (pos s)"
    and holds: "good s \<Longrightarrow> step x s = (s', None) \<Longrightarrow> pos s' = pos s"
begin

lemma in_order:
  assumes "good s" "run_ops step xs s = (s', as)"
  shows "as = take (length as) (drop (pos s) rungs) \<and> pos s' = pos s + length as \<and> good s'"
  using assms
proof (induction xs arbitrary: s as)
  case (Cons x xs)
  obtain s1 a where 1: "step x s = (s1, a)" by (cases "step x s")
  obtain as1 where 2: "run_ops step xs s1 = (s', as1)" "as = (case a of None \<Rightarrow> as1 | Some a \<Rightarrow> a # as1)"
    using Cons.prems(2) 1 by (cases "run_ops step xs s1") auto
  have g: "good s1" using keeps [OF Cons.prems(1), of x] 1 by simp
  show ?case
  proof (cases a)
    case None
    then show ?thesis using Cons.IH [OF g 2(1)] holds [OF Cons.prems(1)] 1 2(2) by auto
  next
    case (Some b)
    note f = fires [OF Cons.prems(1), of x s1 b]
    then have "drop (pos s) rungs = b # drop (Suc (pos s)) rungs" using 1 Some Cons_nth_drop_Suc [of "pos s" rungs] by auto
    then show ?thesis using Cons.IH [OF g 2(1)] f 1 2(2) Some by auto
  qed
qed simp

end

locale live_ladder = ladder +
  fixes overdue :: "nat \<Rightarrow> 's \<Rightarrow> bool"
  assumes must_fire: "good s \<Longrightarrow> overdue now s \<Longrightarrow> pos s < length rungs \<Longrightarrow> snd (step (Tick now) s) \<noteq> None"
    and stays: "good s \<Longrightarrow> overdue n s \<Longrightarrow> overdue n (fst (step (Tick now) s))"
begin

lemma reaches_top:
  assumes "good s" "\<forall>n \<in> set ns. overdue n s" "length rungs \<le> pos s + length ns"
  shows "snd (run_ops step (map Tick ns) s) = drop (pos s) rungs"
  using assms
proof (induction ns arbitrary: s)
  case (Cons n ns)
  obtain s1 a where 1: "step (Tick n) s = (s1, a)" by (cases "step (Tick n) s")
  have g: "good s1" using keeps [OF Cons.prems(1), of "Tick n"] 1 by simp
  have o: "\<forall>m \<in> set ns. overdue m s1" using stays [OF Cons.prems(1), of _ n] Cons.prems(2) 1 by auto
  show ?case
  proof (cases a)
    case None
    then have "length rungs \<le> pos s1" using must_fire [OF Cons.prems(1), of n] Cons.prems(2) 1 holds [OF Cons.prems(1) 1 [unfolded None]]
      by (auto intro: leI)
    then show ?thesis using Cons.IH [OF g o] 1 None holds [OF Cons.prems(1) 1 [unfolded None]] by (auto split: prod.splits)
  next
    case (Some b)
    note f = fires [OF Cons.prems(1) 1 [unfolded Some]]
    then have "drop (pos s) rungs = b # drop (pos s1) rungs" using Cons_nth_drop_Suc [of "pos s" rungs] by auto
    then show ?thesis using Cons.IH [OF g o] f 1 Some Cons.prems(3) by (auto split: prod.splits)
  qed
qed simp

end

section \<open>The receive machine is a ladder\<close>

fun stall_step :: "episode_op \<Rightarrow> stall_watchdog \<Rightarrow> stall_watchdog \<times> watchdog_action option" where
  "stall_step (Tick now_ms) w = stall_tick now_ms w"
| "stall_step Pause w = (stall_pause w, None)"
| "stall_step (Resume now_ms) w = (stall_resume now_ms w, None)"

text \<open>The thresholds are in ladder order; the defaults are.\<close>

definition ordered_config :: "watchdog_config \<Rightarrow> bool" where
  "ordered_config c \<longleftrightarrow> stall_indicator_ms c \<le> reconnect_ms c \<and> ice_restart_ms c \<le> reconnect_ms c \<and>
     (\<forall>a < idr_max_attempts c. idr_first_ms c + a * idr_retry_ms c \<le> ice_restart_ms c)"

lemma default_ordered: "ordered_config default_watchdog_config"
  by (auto simp: ordered_config_def default_watchdog_config_def)

definition stall_rungs :: "watchdog_config \<Rightarrow> watchdog_action list" where
  "stall_rungs c = Stall # map RequestIdr [1..<Suc (idr_max_attempts c)] @ [RestartIce, Reconnect]"

definition stall_pos :: "stall_watchdog \<Rightarrow> nat" where
  "stall_pos w = (if stall_shown w then 1 + idr_attempts w + (if ice_requested w then 1 else 0) + (if reconnect_requested w then 1 else 0) else 0)"

definition stall_good :: "watchdog_config \<Rightarrow> stall_watchdog \<Rightarrow> bool" where
  "stall_good c w \<longleftrightarrow> sw_config w = c \<and> ordered_config c \<and>
     (sw_running w \<longrightarrow> idr_attempts w \<le> idr_max_attempts c \<and> (ice_requested w \<longrightarrow> idr_attempts w = idr_max_attempts c) \<and>
        (reconnect_requested w \<longrightarrow> ice_requested w) \<and>
        (\<not> stall_shown w \<longrightarrow> idr_attempts w = 0 \<and> \<not> ice_requested w \<and> \<not> reconnect_requested w))"

definition stall_overdue :: "nat \<Rightarrow> stall_watchdog \<Rightarrow> bool" where
  "stall_overdue now_ms w \<longleftrightarrow> sw_running w \<and> \<not> sw_paused w \<and> last_frame_ms w + reconnect_ms (sw_config w) \<le> now_ms"

lemma stall_rungs_nth:
  "stall_rungs c ! 0 = Stall" "length (stall_rungs c) = idr_max_attempts c + 3"
  "i < idr_max_attempts c \<Longrightarrow> stall_rungs c ! Suc i = RequestIdr (Suc i)"
  "stall_rungs c ! Suc (idr_max_attempts c) = RestartIce" "stall_rungs c ! Suc (Suc (idr_max_attempts c)) = Reconnect"
  by (simp_all add: stall_rungs_def nth_append del: upt_Suc)

lemma idr_before_ice:
  assumes "stall_good c w" "sw_running w" "idr_attempts w < idr_max_attempts c" "ice_restart_ms c \<le> elapsed"
  shows "idr_first_ms c + idr_attempts w * idr_retry_ms c \<le> elapsed"
  using assms by (auto simp: stall_good_def ordered_config_def intro: order_trans)

lemma next_rung_cases:
  assumes "stall_good c w" "sw_running w" "\<not> reconnect_requested w" "next_rung e w = Some r"
  shows "(r = RungStall \<and> \<not> stall_shown w) \<or> (r = RungIdr \<and> stall_shown w \<and> idr_attempts w < idr_max_attempts c \<and> \<not> ice_requested w) \<or>
    (r = RungIce \<and> stall_shown w \<and> idr_attempts w = idr_max_attempts c \<and> \<not> ice_requested w) \<or>
    (r = RungReconnect \<and> stall_shown w \<and> idr_attempts w = idr_max_attempts c \<and> ice_requested w)"
proof -
  have c: "sw_config w = c" "ice_restart_ms c \<le> reconnect_ms c" "idr_attempts w \<le> idr_max_attempts c"
    "ice_requested w \<longrightarrow> idr_attempts w = idr_max_attempts c"
    using assms(1,2) by (auto simp: stall_good_def ordered_config_def)
  have ice: "idr_attempts w = idr_max_attempts c" if "ice_restart_ms c \<le> e" "\<not> (idr_attempts w < idr_max_attempts c \<and> idr_first_ms c + idr_attempts w * idr_retry_ms c \<le> e)"
    using that idr_before_ice [OF assms(1,2) _ that(1)] c(3) by (meson le_neq_implies_less)
  show ?thesis
  proof (cases "stall_shown w")
    case True
    consider "idr_attempts w < idr_max_attempts c \<and> idr_first_ms c + idr_attempts w * idr_retry_ms c \<le> e"
      | "\<not> (idr_attempts w < idr_max_attempts c \<and> idr_first_ms c + idr_attempts w * idr_retry_ms c \<le> e)" by blast
    then show ?thesis
    proof cases
      case 1
      then show ?thesis using True assms(4) c by (auto simp: next_rung_def Let_def)
    next
      case 2
      then have "if \<not> ice_requested w \<and> ice_restart_ms c \<le> e then r = RungIce else r = RungReconnect \<and> reconnect_ms c \<le> e"
        using True assms(4) c(1) by (auto simp: next_rung_def Let_def split: if_splits)
      then show ?thesis using True ice [OF _ 2] c(2) by (auto split: if_splits)
    qed
  qed (use assms(4) in \<open>auto simp: next_rung_def Let_def split: if_splits\<close>)
qed

interpretation stall: live_ladder stall_step stall_pos "stall_rungs c" "stall_good c" stall_overdue for c
proof unfold_locales
  fix s x
  assume g: "stall_good c s"
  show "stall_good c (fst (stall_step x s))"
  proof (cases x)
    case (Tick now)
    then show ?thesis using g next_rung_cases [OF g]
      by (fastforce simp: stall_tick_def stall_good_def split: option.splits rung.splits)
  qed (use g in \<open>auto simp: stall_pause_def stall_resume_def stall_good_def\<close>)
next
  fix s x s' a
  assume g: "stall_good c s" and s: "stall_step x s = (s', Some a)"
  then obtain now r where x: "x = Tick now" "sw_running s" "\<not> reconnect_requested s" "next_rung (now - last_frame_ms s) s = Some r"
    by (cases x) (auto simp: stall_tick_def split: if_splits option.splits)
  show "stall_pos s < length (stall_rungs c) \<and> a = stall_rungs c ! stall_pos s \<and> stall_pos s' = Suc (stall_pos s)"
    using next_rung_cases [OF g x(2-4)] s x g
    by (cases r) (auto simp: stall_tick_def stall_pos_def stall_rungs_nth stall_good_def split: if_splits)
next
  fix s x s'
  assume "stall_good c s" "stall_step x s = (s', None)"
  then show "stall_pos s' = stall_pos s"
    by (cases x) (auto simp: stall_tick_def stall_pause_def stall_resume_def stall_pos_def split: if_splits option.splits rung.splits)
next
  fix s now
  assume g: "stall_good c s" and o: "stall_overdue now s" and p: "stall_pos s < length (stall_rungs c)"
  have c: "sw_config s = c" "stall_indicator_ms c \<le> reconnect_ms c" "reconnect_ms c \<le> now - last_frame_ms s"
    using g o by (auto simp: stall_good_def ordered_config_def stall_overdue_def)
  have "\<not> reconnect_requested s" using g o p by (auto simp: stall_good_def stall_pos_def stall_rungs_nth stall_overdue_def split: if_splits)
  moreover have "next_rung (now - last_frame_ms s) s \<noteq> None" using c by (simp add: next_rung_def Let_def)
  ultimately show "snd (stall_step (Tick now) s) \<noteq> None" using o by (auto simp: stall_tick_def stall_overdue_def split: rung.split)
next
  fix s n now
  assume "stall_good c s" "stall_overdue n s"
  then show "stall_overdue n (fst (stall_step (Tick now) s))"
    by (auto simp: stall_tick_def stall_overdue_def split: option.split rung.split)
qed

section \<open>The stage clock is a ladder\<close>

fun stage_step :: "nat \<Rightarrow> nat \<Rightarrow> nat \<Rightarrow> episode_op \<Rightarrow> stage_clock \<Rightarrow> stage_clock \<times> stage_rung option" where
  "stage_step stall retry n (Tick now_ms) s = stage_tick now_ms stall retry n s"
| "stage_step stall retry n Pause s = (stage_pause s, None)"
| "stage_step stall retry n (Resume now_ms) s = (stage_resume now_ms s, None)"

definition stage_rungs :: "nat \<Rightarrow> stage_rung list" where
  "stage_rungs n = map Attempt [1..<Suc n] @ [StageReconnect]"

definition stage_pos :: "stage_clock \<Rightarrow> nat" where
  "stage_pos s = attempts s + (if exhausted s then 1 else 0)"

definition stage_good :: "nat \<Rightarrow> stage_clock \<Rightarrow> bool" where
  "stage_good n s \<longleftrightarrow> attempts s \<le> n \<and> (exhausted s \<longrightarrow> attempts s = n)"

definition stage_overdue :: "nat \<Rightarrow> nat \<Rightarrow> nat \<Rightarrow> nat \<Rightarrow> stage_clock \<Rightarrow> bool" where
  "stage_overdue stall retry n now_ms s \<longleftrightarrow> sc_running s \<and> \<not> sc_paused s \<and> armed s \<and> last_progress_ms s + stall + n * retry \<le> now_ms"

lemma stage_rungs_nth:
  "length (stage_rungs n) = Suc n" "i < n \<Longrightarrow> stage_rungs n ! i = Attempt (Suc i)" "stage_rungs n ! n = StageReconnect"
  by (simp_all add: stage_rungs_def nth_append del: upt_Suc)

interpretation stage: live_ladder "stage_step stall retry n" stage_pos "stage_rungs n" "stage_good n" "stage_overdue stall retry n"
  for stall retry n
proof unfold_locales
  fix s x
  assume "stage_good n s"
  then show "stage_good n (fst (stage_step stall retry n x s))"
    by (cases x) (auto simp: stage_tick_def stage_pause_def stage_resume_def stage_good_def Let_def)
next
  fix s x s' a
  assume "stage_good n s" "stage_step stall retry n x s = (s', Some a)"
  then show "stage_pos s < length (stage_rungs n) \<and> a = stage_rungs n ! stage_pos s \<and> stage_pos s' = Suc (stage_pos s)"
    by (cases x) (auto simp: stage_tick_def stage_good_def stage_pos_def stage_rungs_nth Let_def split: if_splits)
next
  fix s x s'
  assume "stage_good n s" "stage_step stall retry n x s = (s', None)"
  then show "stage_pos s' = stage_pos s"
    by (cases x) (auto simp: stage_tick_def stage_pause_def stage_resume_def stage_pos_def Let_def split: if_splits)
next
  fix s now
  assume g: "stage_good n s" and o: "stage_overdue stall retry n now s" and p: "stage_pos s < length (stage_rungs n)"
  have "attempts s * retry \<le> n * retry" using g by (simp add: stage_good_def mult_le_mono1)
  then have "stall + attempts s * retry \<le> now - last_progress_ms s" using o unfolding stage_overdue_def by linarith
  then show "snd (stage_step stall retry n (Tick now) s) \<noteq> None"
    using g o p by (auto simp: stage_tick_def stage_good_def stage_pos_def stage_rungs_nth stage_overdue_def Let_def split: if_splits)
next
  fix s m now
  assume "stage_good n s" "stage_overdue stall retry n m s"
  then show "stage_overdue stall retry n m (fst (stage_step stall retry n (Tick now) s))"
    by (auto simp: stage_tick_def stage_overdue_def Let_def)
qed

section \<open>Properties\<close>

lemma reset_good: "ordered_config (sw_config w) \<Longrightarrow> stall_good (sw_config w) (reset_episode w) \<and> stall_pos (reset_episode w) = 0"
  by (simp add: stall_good_def reset_episode_def stall_pos_def)

text \<open>
  C7. The receive watchdog escalates in order and all the way. With thresholds in ladder order (the
  defaults are), after a start, or after a frame received while running, whatever ticks, pauses and
  resumes follow emit a prefix of: stall, IDR request 1 to n, ICE restart, reconnect, one per call and
  none twice, even if ticks arrive late or the clock jumps; and ticks past the reconnect threshold emit
  the whole ladder within n + 3 calls. A frame received after the reconnect starts the ladder again.
\<close>

theorem receive_escalation:
  assumes "ordered_config (sw_config w)" and "w0 = stall_start t w \<or> sw_running w \<and> w0 = fst (frame_received t w)"
  shows "(\<exists>k. snd (run_ops stall_step ops w0) = take k (stall_rungs (sw_config w))) \<and>
    (\<not> sw_paused w0 \<and> (\<forall>n \<in> set ns. t + reconnect_ms (sw_config w) \<le> n) \<and> idr_max_attempts (sw_config w) + 3 \<le> length ns \<longrightarrow>
      snd (run_ops stall_step (map Tick ns) w0) = stall_rungs (sw_config w))"
proof -
  let ?c = "sw_config w"
  obtain v where v: "w0 = reset_episode v" "sw_config v = ?c" "sw_running v" "last_frame_ms v = t"
    using assms(2) by (auto simp: stall_start_def frame_received_def Let_def)
  have g: "stall_good ?c w0" "stall_pos w0 = 0" using reset_good [of v] assms(1) v by simp_all
  obtain w' as where r: "run_ops stall_step ops w0 = (w', as)" by (cases "run_ops stall_step ops w0")
  have "as = take (length as) (stall_rungs ?c)" using stall.in_order [OF g(1) r] g(2) by simp
  then have "\<exists>k. snd (run_ops stall_step ops w0) = take k (stall_rungs ?c)" using r by auto
  moreover have "snd (run_ops stall_step (map Tick ns) w0) = stall_rungs ?c"
    if "\<not> sw_paused w0" "\<forall>n \<in> set ns. t + reconnect_ms ?c \<le> n" "idr_max_attempts ?c + 3 \<le> length ns"
  proof -
    have "\<forall>n \<in> set ns. stall_overdue n w0" using that(1,2) v by (auto simp: stall_overdue_def reset_episode_def)
    then show ?thesis using stall.reaches_top [OF g(1), of ns] that(3) g(2) by (simp add: stall_rungs_nth)
  qed
  ultimately show ?thesis by blast
qed

theorem receive_escalation_witness:
  "snd (run_ops stall_step (map Tick [20000, 20000, 20000, 20000, 20000, 20000]) (stall_start 0 (stall_new default_watchdog_config))) =
     [Stall, RequestIdr 1, RequestIdr 2, RequestIdr 3, RestartIce, Reconnect]"
  using receive_escalation [of "stall_new default_watchdog_config" _ 0 "[]" "[20000, 20000, 20000, 20000, 20000, 20000]"] default_ordered
  by (simp add: stall_new_def stall_start_def reset_episode_def default_watchdog_config_def stall_rungs_def upt_rec)

text \<open>
  The decode and present clocks give a bounded number of attempts. After progress on a running
  stage, whatever ticks, pauses and resumes follow emit a prefix of: attempt 1 to n, then one reconnect;
  ticks past the last threshold emit all of it within n + 1 calls, and then nothing until the next
  progress.
\<close>

theorem stage_escalation:
  assumes "sc_running s"
  shows "(\<exists>k. snd (run_ops (stage_step stall_ms retry_ms n) ops (stage_progress t s)) = take k (map Attempt [1..<Suc n] @ [StageReconnect])) \<and>
    (\<not> sc_paused s \<and> (\<forall>m \<in> set ns. t + stall_ms + n * retry_ms \<le> m) \<and> n + 1 \<le> length ns \<longrightarrow>
      snd (run_ops (stage_step stall_ms retry_ms n) (map Tick ns) (stage_progress t s)) = map Attempt [1..<Suc n] @ [StageReconnect])"
proof -
  let ?s = "stage_progress t s"
  have g: "stage_good n ?s" "stage_pos ?s = 0" using assms by (simp_all add: stage_good_def stage_pos_def stage_progress_def)
  obtain s' as where r: "run_ops (stage_step stall_ms retry_ms n) ops ?s = (s', as)" by (cases "run_ops (stage_step stall_ms retry_ms n) ops ?s")
  have "as = take (length as) (stage_rungs n)" using stage.in_order [OF g(1) r] g(2) by simp
  then have "\<exists>k. snd (run_ops (stage_step stall_ms retry_ms n) ops ?s) = take k (stage_rungs n)" using r by auto
  moreover have "snd (run_ops (stage_step stall_ms retry_ms n) (map Tick ns) ?s) = stage_rungs n"
    if "\<not> sc_paused s" "\<forall>m \<in> set ns. t + stall_ms + n * retry_ms \<le> m" "n + 1 \<le> length ns"
  proof -
    have "\<forall>m \<in> set ns. stage_overdue stall_ms retry_ms n m ?s"
      using that(1,2) assms by (auto simp: stage_overdue_def stage_progress_def)
    then show ?thesis using stage.reaches_top [OF g(1), of ns stall_ms retry_ms] that(3) g(2) by (simp add: stage_rungs_nth)
  qed
  ultimately show ?thesis unfolding stage_rungs_def by blast
qed

theorem stage_escalation_witness:
  "snd (run_ops (stage_step 2000 2000 2) (map Tick [9000, 9000, 9000, 9000]) (stage_progress 100 (stage_start stage_default))) =
     [Attempt 1, Attempt 2, StageReconnect]"
  using stage_escalation [of "stage_start stage_default" 2000 2000 2 "[]" 100 "[9000, 9000, 9000, 9000]"]
  by (simp add: stage_start_def upt_rec)

subsection \<open>The supervisor keeps the stages apart\<close>

datatype supervisor_op =
  SStop | SPause | SResume nat | SFrame nat | SDecode nat | SPresent nat | STick nat

fun supervisor_step ::
  "supervisor_op \<Rightarrow> watchdog_supervisor \<Rightarrow> watchdog_supervisor \<times> (watchdog_stage \<times> watchdog_action \<times> nat) option" where
  "supervisor_step SStop s = (supervisor_stop s, None)"
| "supervisor_step SPause s = (supervisor_pause s, None)"
| "supervisor_step (SResume now_ms) s = (supervisor_resume now_ms s, None)"
| "supervisor_step (SFrame now_ms) s =
     (let (s', a) = supervisor_frame_received now_ms s in (s', map_option (\<lambda>a. (StageReceive, a, ws_generation s)) a))"
| "supervisor_step (SDecode now_ms) s = (decode_progress now_ms s, None)"
| "supervisor_step (SPresent now_ms) s = (present_progress now_ms s, None)"
| "supervisor_step (STick now_ms) s = supervisor_tick now_ms s"

definition quiet :: "watchdog_stage \<Rightarrow> watchdog_supervisor \<Rightarrow> bool" where
  "quiet st s \<longleftrightarrow> (st = StageDecode \<longrightarrow> \<not> armed (ws_decode s)) \<and> (st = StagePresent \<longrightarrow> \<not> armed (ws_present s))"

primrec drives :: "supervisor_op \<Rightarrow> watchdog_stage option" where
  "drives SStop = None"
| "drives SPause = None"
| "drives (SResume _) = None"
| "drives (SFrame _) = Some StageReceive"
| "drives (SDecode _) = Some StageDecode"
| "drives (SPresent _) = Some StagePresent"
| "drives (STick _) = None"

lemma unarmed_tick: "\<not> armed s \<Longrightarrow> stage_tick now a b n s = (s, None)"
  by (simp add: stage_tick_def)

lemma stage_tick_armed: "stage_tick now a b n s = (s', r) \<Longrightarrow> armed s' = armed s"
  by (auto simp: stage_tick_def Let_def split: if_splits)

lemma supervisor_step_quiet:
  assumes "quiet st s" "st \<noteq> StageReceive" "drives x \<noteq> Some st" "supervisor_step x s = (s', out)"
  shows "quiet st s' \<and> ws_generation s' = ws_generation s \<and> (\<forall>st' a g. out = Some (st', a, g) \<longrightarrow> st' \<noteq> st \<and> g = ws_generation s)"
proof (cases x)
  case (STick now)
  show ?thesis using assms STick unarmed_tick
    by (cases st) (auto simp: quiet_def supervisor_tick_def Let_def split: prod.splits option.splits dest: stage_tick_armed)
qed (use assms in \<open>auto simp: quiet_def supervisor_stop_def supervisor_pause_def supervisor_resume_def supervisor_frame_received_def
    decode_progress_def present_progress_def stage_stop_def stage_pause_def stage_resume_def split: prod.splits if_splits\<close>)

text \<open>
  The downstream stages speak only for themselves. After a start with a session generation, as long
  as no decoder progress has been reported, the supervisor never blames the decode stage, and as long
  as nothing was presented never the present stage, whatever frames arrive and however late the ticks;
  every action carries the generation of that start.
\<close>

theorem stages_isolated:
  assumes "st = StageDecode \<or> st = StagePresent" and "\<forall>x \<in> set ops. drives x \<noteq> Some st"
    and "(st', a, g) \<in> set (snd (run_ops supervisor_step ops (supervisor_start now_ms generation s)))"
  shows "st' \<noteq> st \<and> g = generation"
proof -
  have "\<forall>(st', a, g) \<in> set (snd (run_ops supervisor_step ops s0)). st' \<noteq> st \<and> g = ws_generation s0"
    if "quiet st s0" "\<forall>x \<in> set ops. drives x \<noteq> Some st" for ops s0
    using that
  proof (induction ops arbitrary: s0)
    case (Cons x xs)
    obtain s1 out where 1: "supervisor_step x s0 = (s1, out)" by (cases "supervisor_step x s0")
    note S = supervisor_step_quiet [OF Cons.prems(1) _ _ 1]
    have q: "quiet st s1" "ws_generation s1 = ws_generation s0" using S assms(1) Cons.prems(2) by auto
    show ?case using Cons.IH [OF q(1)] Cons.prems(2) q(2) S assms(1) 1 by (fastforce split: prod.splits option.splits)
  qed simp
  moreover have "quiet st (supervisor_start now_ms generation s)" by (simp add: quiet_def supervisor_start_def stage_start_def)
  ultimately show ?thesis using assms(2,3) by (fastforce simp: supervisor_start_def)
qed

theorem stages_isolated_witness:
  "snd (run_ops supervisor_step [STick 1500, SFrame 1600] (supervisor_start 0 5 (supervisor_new default_watchdog_config))) =
     [(StageReceive, Stall, 5), (StageReceive, RecoveredAfter 1600, 5)] \<and>
   list_all (\<lambda>(st', a, g). st' \<noteq> StageDecode \<and> g = 5)
     (snd (run_ops supervisor_step [STick 1500, SFrame 1600] (supervisor_start 0 5 (supervisor_new default_watchdog_config))))"
proof
  show "snd (run_ops supervisor_step [STick 1500, SFrame 1600] (supervisor_start 0 5 (supervisor_new default_watchdog_config))) =
     [(StageReceive, Stall, 5), (StageReceive, RecoveredAfter 1600, 5)]"
    by (simp add: supervisor_new_def supervisor_start_def supervisor_tick_def stall_tick_def stall_start_def stall_new_def
        reset_episode_def next_rung_def default_watchdog_config_def supervisor_frame_received_def frame_received_def)
  show "list_all (\<lambda>(st', a, g). st' \<noteq> StageDecode \<and> g = 5)
     (snd (run_ops supervisor_step [STick 1500, SFrame 1600] (supervisor_start 0 5 (supervisor_new default_watchdog_config))))"
    using stages_isolated [of StageDecode "[STick 1500, SFrame 1600]" _ _ _ 0 5 "supervisor_new default_watchdog_config"]
    by (auto simp: list_all_iff)
qed

end
