(* ===== verification/Flow.thy ===== *)
theory Flow
  imports Prelude
begin

text \<open>
  \<open>flow.rs\<close> of the native client: the signaling state machine. It consumes the server's messages and
  answers with instructions for the session. The message types are those of \<open>api_bindings.rs\<close>. The
  theorem is the order contract of the signaling exchange.
\<close>

section \<open>Messages\<close>

datatype rtc_sdp_type = SdpOffer | SdpAnswer | SdpPranswer | SdpRollback | SdpUnspecified

record rtc_session_description =
  sd_ty :: rtc_sdp_type
  sd_sdp :: string

record rtc_ice_candidate =
  ic_candidate :: string
  ic_sdp_mid :: "string option"
  ic_sdp_mline_index :: "u16 option"
  ic_username_fragment :: "string option"

record rtc_ice_server =
  is_is_default :: bool
  is_urls :: "string list"
  is_username :: string
  is_credential :: string

datatype stream_signaling_message =
  Description rtc_session_description
| AddIceCandidate rtc_ice_candidate

datatype transport_type = WebRTC | WebSocket

record stream_settings =
  se_bitrate_kbps :: u32
  se_width :: u32
  se_height :: u32
  se_fps :: u32
  se_play_audio_local :: bool
  se_supported_codecs :: u32
  se_hdr :: bool
  se_video_over_fec_only :: bool
  se_requested_fec_protocol_version :: "u8 option"

datatype stream_client_message =
  Init u32 u32 nat nat
| ClientWebRtc stream_signaling_message
| SetTransport transport_type
| StartStream stream_settings
| RequestIdr
| RestartIce

record stream_capabilities =
  cap_touch :: bool
  cap_selected_fec_protocol_version :: "u8 option"
  cap_fec_epoch :: "u32 option"

record audio_video_params =
  av_format :: u32
  av_width :: u32
  av_height :: u32
  av_fps :: u32
  av_audio_sample_rate :: u32
  av_audio_channel_count :: u32
  av_audio_streams :: u32
  av_audio_coupled_streams :: u32
  av_audio_samples_per_frame :: u32
  av_audio_mapping :: "u8 list"

record app_info =
  app_app_id :: u32
  app_title :: string
  app_is_hdr_supported :: bool

datatype log_message_type = Fatal | IfErrorDescription | FatalDescription | Recover | InformError

datatype stream_server_message =
  Setup "rtc_ice_server list"
| ServerWebRtc stream_signaling_message
| UpdateApp app_info
| DebugLog string "log_message_type option"
| ConnectionComplete stream_capabilities audio_video_params
| ConnectionTerminated "32 word"

section \<open>Negotiated parameters\<close>

datatype flow_protocol_error =
  InvalidFecCapabilityTuple "u8 option" "u32 option"
| ConnectionCompleteBeforeSetup
| DuplicateConnectionComplete
| ConnectionCompleteAfterTermination

fun fec_tuple :: "u8 option \<times> u32 option \<Rightarrow> flow_protocol_error + (u8 \<times> u32 option)" where
  "fec_tuple (version, ep) =
     (if (version, ep) = (None, None) \<or> (version, ep) = (Some 1, None) then Inr (1, None)
      else case (version, ep) of
             (Some v, Some e) \<Rightarrow> if v = 2 \<and> e \<noteq> 0 then Inr (2, Some e) else Inl (InvalidFecCapabilityTuple version ep)
           | _ \<Rightarrow> Inl (InvalidFecCapabilityTuple version ep))"

definition negotiated_fec_parameters :: "stream_capabilities \<Rightarrow> flow_protocol_error + (u8 \<times> u32 option)" where
  "negotiated_fec_parameters c = fec_tuple (cap_selected_fec_protocol_version c, cap_fec_epoch c)"

record stream_params = audio_video_params +
  sp_fec_protocol_version :: u8
  sp_fec_epoch :: "u32 option"

definition negotiated_channels :: "u32 \<Rightarrow> u16" where
  "negotiated_channels sdp_ch = (if 1 \<le> sdp_ch \<and> sdp_ch \<le> 8 then ucast sdp_ch else 2)"

section \<open>The flow\<close>

datatype flow_action =
  Send stream_client_message
| CreatePeer "rtc_ice_server list"
| ApplyRemoteOffer rtc_session_description
| AddRemoteCandidate rtc_ice_candidate
| Complete stream_params
| ProtocolError flow_protocol_error
| Terminated "32 word"

record flow_config =
  fl_host_id :: u32
  fl_app_id :: u32
  fl_video_frame_queue_size :: nat
  fl_audio_sample_queue_size :: nat
  fl_bitrate_kbps :: u32
  fl_width :: u32
  fl_height :: u32
  fl_fps :: u32
  fl_supported_codecs :: u32

datatype phase = AwaitSetup | Negotiating | Streaming | PhaseTerminated

record signaling_flow =
  fl_config :: flow_config
  fl_phase :: phase

definition flow_new :: "flow_config \<Rightarrow> signaling_flow" where
  "flow_new config = \<lparr>fl_config = config, fl_phase = AwaitSetup\<rparr>"

definition init_message :: "signaling_flow \<Rightarrow> stream_client_message" where
  "init_message f = Init (fl_host_id (fl_config f)) (fl_app_id (fl_config f)) (fl_video_frame_queue_size (fl_config f))
     (fl_audio_sample_queue_size (fl_config f))"

definition start_settings :: "flow_config \<Rightarrow> stream_settings" where
  "start_settings c =
     \<lparr>se_bitrate_kbps = fl_bitrate_kbps c, se_width = fl_width c, se_height = fl_height c, se_fps = fl_fps c,
      se_play_audio_local = False, se_supported_codecs = fl_supported_codecs c, se_hdr = False,
      se_video_over_fec_only = True, se_requested_fec_protocol_version = Some 2\<rparr>"

fun phase_error :: "phase \<Rightarrow> flow_protocol_error option" where
  "phase_error AwaitSetup = Some ConnectionCompleteBeforeSetup"
| "phase_error Streaming = Some DuplicateConnectionComplete"
| "phase_error PhaseTerminated = Some ConnectionCompleteAfterTermination"
| "phase_error Negotiating = None"

fun on_server_message :: "stream_server_message \<Rightarrow> signaling_flow \<Rightarrow> signaling_flow \<times> flow_action list" where
  "on_server_message (Setup ice_servers) f =
     (if fl_phase f \<noteq> AwaitSetup then (f, [])
      else (f\<lparr>fl_phase := Negotiating\<rparr>,
            [CreatePeer ice_servers, Send (SetTransport WebRTC), Send (StartStream (start_settings (fl_config f)))]))"
| "on_server_message (ServerWebRtc (Description desc)) f = (f, [ApplyRemoteOffer desc])"
| "on_server_message (ServerWebRtc (AddIceCandidate cand)) f = (f, [AddRemoteCandidate cand])"
| "on_server_message (ConnectionComplete capabilities av) f =
     (case phase_error (fl_phase f) of
        Some error \<Rightarrow> (f\<lparr>fl_phase := PhaseTerminated\<rparr>, [ProtocolError error])
      | None \<Rightarrow>
          (case negotiated_fec_parameters capabilities of
             Inl error \<Rightarrow> (f\<lparr>fl_phase := PhaseTerminated\<rparr>, [ProtocolError error])
           | Inr (fec_protocol_version, fec_epoch) \<Rightarrow>
               (f\<lparr>fl_phase := Streaming\<rparr>,
                [Complete (audio_video_params.extend av \<lparr>sp_fec_protocol_version = fec_protocol_version, sp_fec_epoch = fec_epoch\<rparr>)])))"
| "on_server_message (ConnectionTerminated error_code) f = (f\<lparr>fl_phase := PhaseTerminated\<rparr>, [Terminated error_code])"
| "on_server_message (UpdateApp _) f = (f, [])"
| "on_server_message (DebugLog _ _) f = (f, [])"

definition on_local_answer :: "rtc_session_description \<Rightarrow> flow_action" where
  "on_local_answer desc = Send (ClientWebRtc (Description desc))"

definition on_local_candidate :: "rtc_ice_candidate \<Rightarrow> flow_action" where
  "on_local_candidate cand = Send (ClientWebRtc (AddIceCandidate cand))"

definition is_terminated :: "signaling_flow \<Rightarrow> bool" where
  "is_terminated f \<longleftrightarrow> fl_phase f = PhaseTerminated"

section \<open>The order contract\<close>

fun flow_run :: "stream_server_message list \<Rightarrow> signaling_flow \<Rightarrow> signaling_flow \<times> flow_action list" where
  "flow_run [] f = (f, [])"
| "flow_run (msg # msgs) f =
     (let (f1, as1) = on_server_message msg f; (f2, as2) = flow_run msgs f1 in (f2, as1 @ as2))"

text \<open>Milestones set the session up; terminal actions end it.\<close>

primrec milestone :: "flow_action \<Rightarrow> bool" where
  "milestone (Send _) = True"
| "milestone (CreatePeer _) = True"
| "milestone (ApplyRemoteOffer _) = False"
| "milestone (AddRemoteCandidate _) = False"
| "milestone (Complete _) = True"
| "milestone (ProtocolError _) = False"
| "milestone (Terminated _) = False"

primrec terminal :: "flow_action \<Rightarrow> bool" where
  "terminal (Send _) = False"
| "terminal (CreatePeer _) = False"
| "terminal (ApplyRemoteOffer _) = False"
| "terminal (AddRemoteCandidate _) = False"
| "terminal (Complete _) = False"
| "terminal (ProtocolError _) = True"
| "terminal (Terminated _) = True"

fun settled :: "flow_action list \<Rightarrow> bool" where
  "settled [] = True"
| "settled (a # as) \<longleftrightarrow> (terminal a \<longrightarrow> filter milestone as = []) \<and> settled as"

definition params_valid :: "stream_params \<Rightarrow> bool" where
  "params_valid p \<longleftrightarrow>
     sp_fec_protocol_version p = 1 \<and> sp_fec_epoch p = None \<or>
     sp_fec_protocol_version p = 2 \<and> (\<exists>ep. sp_fec_epoch p = Some ep \<and> ep \<noteq> 0)"

text \<open>What a flow may still do in each phase.\<close>

fun ahead :: "flow_config \<Rightarrow> phase \<Rightarrow> rtc_ice_server list \<Rightarrow> stream_params \<Rightarrow> flow_action list" where
  "ahead c AwaitSetup ice p = [CreatePeer ice, Send (SetTransport WebRTC), Send (StartStream (start_settings c)), Complete p]"
| "ahead c Negotiating ice p = [Complete p]"
| "ahead c Streaming ice p = []"
| "ahead c PhaseTerminated ice p = []"

lemma negotiated_valid:
  "negotiated_fec_parameters c = Inr (v, ep) \<Longrightarrow>
     params_valid (audio_video_params.extend av \<lparr>sp_fec_protocol_version = v, sp_fec_epoch = ep\<rparr>)"
  by (auto simp: negotiated_fec_parameters_def params_valid_def audio_video_params.defs split: if_splits option.splits) metis

lemma flow_step_cases:
  assumes "on_server_message msg f = (f', as)"
  shows "fl_config f' = fl_config f"
    and "(fl_phase f' = fl_phase f \<and> filter milestone as = [] \<and> filter terminal as = []) \<or>
      (fl_phase f = AwaitSetup \<and> fl_phase f' = Negotiating \<and> (\<exists>ice. as = [CreatePeer ice, Send (SetTransport WebRTC),
          Send (StartStream (start_settings (fl_config f)))])) \<or>
      (fl_phase f = Negotiating \<and> fl_phase f' = Streaming \<and> (\<exists>p. as = [Complete p] \<and> params_valid p)) \<or>
      (fl_phase f' = PhaseTerminated \<and> (\<exists>a. as = [a] \<and> terminal a \<and> \<not> milestone a))"
proof -
  show "fl_config f' = fl_config f"
    using assms by (induction msg f rule: on_server_message.induct) (auto split: if_splits option.splits sum.splits)
  show "(fl_phase f' = fl_phase f \<and> filter milestone as = [] \<and> filter terminal as = []) \<or>
      (fl_phase f = AwaitSetup \<and> fl_phase f' = Negotiating \<and> (\<exists>ice. as = [CreatePeer ice, Send (SetTransport WebRTC),
          Send (StartStream (start_settings (fl_config f)))])) \<or>
      (fl_phase f = Negotiating \<and> fl_phase f' = Streaming \<and> (\<exists>p. as = [Complete p] \<and> params_valid p)) \<or>
      (fl_phase f' = PhaseTerminated \<and> (\<exists>a. as = [a] \<and> terminal a \<and> \<not> milestone a))"
  proof (cases msg)
    case (ConnectionComplete caps av)
    then show ?thesis using assms negotiated_valid [of caps _ _ av]
      by (cases "fl_phase f") (auto split: sum.splits)
  next
    case (ServerWebRtc m)
    then show ?thesis using assms by (cases m) auto
  qed (use assms in \<open>auto split: if_splits\<close>)
qed

lemma settled_append: "filter terminal as = [] \<Longrightarrow> settled (as @ bs) = settled bs"
  by (induction as) (auto split: if_splits)

lemma flow_ahead:
  assumes "flow_run msgs f = (f', as)"
  shows "(\<exists>ice p k. filter milestone as = take k (ahead (fl_config f) (fl_phase f) ice p) \<and> params_valid p) \<and> settled as"
  using assms
proof (induction msgs arbitrary: f as)
  case Nil
  define p :: stream_params where
    "p = \<lparr>av_format = 0, av_width = 0, av_height = 0, av_fps = 0, av_audio_sample_rate = 0, av_audio_channel_count = 0,
      av_audio_streams = 0, av_audio_coupled_streams = 0, av_audio_samples_per_frame = 0, av_audio_mapping = [],
      sp_fec_protocol_version = 1, sp_fec_epoch = None\<rparr>"
  have "filter milestone as = take 0 (ahead (fl_config f) (fl_phase f) [] p)" "params_valid p"
    using Nil by (simp_all add: p_def params_valid_def)
  then show ?case using Nil by auto
next
  case (Cons msg msgs)
  obtain f1 as1 where 1: "on_server_message msg f = (f1, as1)" by (cases "on_server_message msg f")
  obtain as2 where 2: "flow_run msgs f1 = (f', as2)" "as = as1 @ as2" using Cons.prems 1 by (cases "flow_run msgs f1") auto
  obtain ice p k where IH: "filter milestone as2 = take k (ahead (fl_config f) (fl_phase f1) ice p)" "params_valid p" "settled as2"
    using Cons.IH [OF 2(1)] flow_step_cases(1) [OF 1] by auto
  from flow_step_cases(2) [OF 1] show ?case
  proof (elim disjE exE conjE)
    assume "fl_phase f1 = fl_phase f" "filter milestone as1 = []" "filter terminal as1 = []"
    then show ?case using IH 2(2) by (auto simp: settled_append)
  next
    fix ice'
    assume a: "fl_phase f = AwaitSetup" "fl_phase f1 = Negotiating"
      "as1 = [CreatePeer ice', Send (SetTransport WebRTC), Send (StartStream (start_settings (fl_config f)))]"
    then have "filter milestone as = take (k + 3) (ahead (fl_config f) (fl_phase f) ice' p)" using IH 2(2) by (simp add: numeral_eq_Suc)
    moreover have "settled as" using IH 2(2) a by simp
    ultimately show ?case using IH(2) by blast
  next
    fix p'
    assume a: "fl_phase f = Negotiating" "fl_phase f1 = Streaming" "as1 = [Complete p']" "params_valid p'"
    then have "filter milestone as = take 1 (ahead (fl_config f) (fl_phase f) ice p')" "settled as" using IH 2(2) by simp_all
    then show ?case using a(4) by blast
  next
    fix a
    assume a: "fl_phase f1 = PhaseTerminated" "as1 = [a]" "terminal a" "\<not> milestone a"
    then have "filter milestone as = take 0 (ahead (fl_config f) (fl_phase f) ice p)" "settled as" using IH 2(2) by simp_all
    then show ?case using IH(2) by blast
  qed
qed

text \<open>
  C8. The signaling order. Whatever the server sends, the session-building actions of a flow are a prefix
  of: create the peer, select WebRTC, start the stream with the configured settings, complete; so the
  peer is created and the stream started at most once, and completion is reported at most once and only
  after them. A completion carries version 1 without epoch or version 2 with a non-zero epoch. After a
  termination or a protocol error nothing of this happens any more.
\<close>

theorem signaling_order:
  assumes "flow_run msgs (flow_new config) = (f, acts)"
  shows "(\<exists>ice p k. params_valid p \<and> filter milestone acts =
      take k [CreatePeer ice, Send (SetTransport WebRTC), Send (StartStream (start_settings config)), Complete p]) \<and> settled acts"
  using flow_ahead [OF assms] by (auto simp: flow_new_def)

theorem signaling_order_witness:
  "settled [CreatePeer [], Send (SetTransport WebRTC), Send (StartStream (start_settings
     \<lparr>fl_host_id = 1, fl_app_id = 2, fl_video_frame_queue_size = 3, fl_audio_sample_queue_size = 20, fl_bitrate_kbps = 5000,
      fl_width = 1920, fl_height = 1080, fl_fps = 60, fl_supported_codecs = 1\<rparr>)), Terminated 0]"
proof -
  let ?c = "\<lparr>fl_host_id = 1, fl_app_id = 2, fl_video_frame_queue_size = 3, fl_audio_sample_queue_size = 20, fl_bitrate_kbps = 5000,
      fl_width = 1920, fl_height = 1080, fl_fps = 60, fl_supported_codecs = 1\<rparr>"
  have "flow_run [Setup [], ConnectionTerminated 0, Setup []] (flow_new ?c) = (\<lparr>fl_config = ?c, fl_phase = PhaseTerminated\<rparr>,
      [CreatePeer [], Send (SetTransport WebRTC), Send (StartStream (start_settings ?c)), Terminated 0])"
    by (simp add: flow_new_def)
  from signaling_order [OF this] show ?thesis by blast
qed

end
