(* ===== verification/Path_Select.thy ===== *)
theory Path_Select
  imports Prelude
begin

text \<open>
  \<open>path_select.rs\<close> of the native client: the ladder of transport paths with its roaming generation. The
  theorem is the exact path after any sequence of results, which gives the bound on fallbacks and the
  isolation of generations.
\<close>

datatype transport_path = DirectUdp | TurnUdp | TurnTls443 | WebSocketTcp

datatype fallback_reason = Timeout | IceFailed | Blocked | NetworkChange

definition LADDER :: "transport_path list" where
  "LADDER = [DirectUdp, TurnUdp, TurnTls443, WebSocketTcp]"

record path_selector =
  ps_index :: nat
  ps_generation :: u32
  ps_exhausted :: bool
  ps_stable :: bool
  ps_fallbacks :: nat
  ps_last :: "(transport_path \<times> fallback_reason) option"

definition path_new :: path_selector where
  "path_new = \<lparr>ps_index = 0, ps_generation = 0, ps_exhausted = False, ps_stable = False, ps_fallbacks = 0, ps_last = None\<rparr>"

definition path_current :: "path_selector \<Rightarrow> transport_path option" where
  "path_current s = (if ps_exhausted s then None else Some (LADDER ! ps_index s))"

definition path_succeed :: "u32 \<Rightarrow> path_selector \<Rightarrow> path_selector \<times> bool" where
  "path_succeed generation s =
     (if generation \<noteq> ps_generation s \<or> ps_exhausted s then (s, False) else (s\<lparr>ps_stable := True\<rparr>, True))"

definition path_fallback :: "u32 \<Rightarrow> fallback_reason \<Rightarrow> path_selector \<Rightarrow> path_selector \<times> transport_path option" where
  "path_fallback generation reason s =
     (if generation \<noteq> ps_generation s \<or> ps_exhausted s then (s, path_current s)
      else let s = s\<lparr>ps_last := Some (LADDER ! ps_index s, reason), ps_fallbacks := ps_fallbacks s + 1, ps_stable := False\<rparr>
           in if ps_index s + 1 \<ge> length LADDER then (s\<lparr>ps_exhausted := True\<rparr>, None)
              else (s\<lparr>ps_index := ps_index s + 1\<rparr>, Some (LADDER ! (ps_index s + 1))))"

definition on_network_change :: "path_selector \<Rightarrow> path_selector" where
  "on_network_change s =
     s\<lparr>ps_last := Some (LADDER ! ps_index s, NetworkChange), ps_generation := ps_generation s + 1, ps_index := 0,
       ps_exhausted := False, ps_stable := False\<rparr>"

section \<open>Results\<close>

datatype path_result = Succeeded u32 | FellBack u32 fallback_reason

fun path_step :: "path_result \<Rightarrow> path_selector \<Rightarrow> path_selector" where
  "path_step (Succeeded g) s = fst (path_succeed g s)"
| "path_step (FellBack g r) s = fst (path_fallback g r s)"

text \<open>The failures that belong to a generation.\<close>

fun failures :: "u32 \<Rightarrow> path_result list \<Rightarrow> nat" where
  "failures g [] = 0"
| "failures g (FellBack g' r # rs) = (if g' = g then Suc (failures g rs) else failures g rs)"
| "failures g (Succeeded g' # rs) = failures g rs"

definition at_rung :: "u32 \<Rightarrow> nat \<Rightarrow> nat \<Rightarrow> path_selector \<Rightarrow> bool" where
  "at_rung g k n s \<longleftrightarrow> ps_generation s = g \<and> ps_fallbacks s = n + min k 4 \<and>
     (if k < 4 then ps_index s = k \<and> \<not> ps_exhausted s else ps_index s = 3 \<and> ps_exhausted s)"

lemma at_rung_current: "at_rung g k n s \<Longrightarrow> path_current s = (if k < 4 then Some (LADDER ! k) else None)"
  by (auto simp: at_rung_def path_current_def)

lemma path_step_rung:
  assumes "at_rung g k n s"
  shows "at_rung g (k + failures g [r]) n (path_step r s)"
proof (cases r)
  case (FellBack g' reason)
  consider "k < 3" | "k = 3" | "3 < k" by linarith
  then show ?thesis using assms FellBack
    by cases (auto simp: at_rung_def path_fallback_def Let_def LADDER_def)
qed (use assms in \<open>auto simp: at_rung_def path_succeed_def\<close>)

lemma path_run_rung:
  assumes "at_rung g k n s"
  shows "at_rung g (k + failures g rs) n (fold path_step rs s)"
  using assms
proof (induction rs arbitrary: k s)
  case (Cons r rs)
  have "failures g (r # rs) = failures g [r] + failures g rs" by (cases r) auto
  then show ?case using Cons.IH [OF path_step_rung [OF Cons.prems, of r]] by (simp add: add.assoc)
qed simp

text \<open>
  The path after any results. From a fresh selector, or after a network change from any state,
  whatever successes and failures are reported, with whatever generations: the current path is the
  \<open>k\<close>-th of the ladder, where \<open>k\<close> counts only the failures stamped with the current generation, and none
  is left after four; reports of other generations change nothing, and the generation stays. So at most
  four fallbacks are counted per generation and the ladder is never climbed back.
\<close>

theorem path_after_results:
  assumes "s = path_new \<or> s = on_network_change s0"
  shows "path_current (fold path_step rs s) = (if failures (ps_generation s) rs < 4 then Some (LADDER ! failures (ps_generation s) rs) else None) \<and>
    ps_generation (fold path_step rs s) = ps_generation s \<and>
    ps_fallbacks (fold path_step rs s) = ps_fallbacks s + min (failures (ps_generation s) rs) 4"
proof -
  have "at_rung (ps_generation s) 0 (ps_fallbacks s) s" using assms by (auto simp: at_rung_def path_new_def on_network_change_def)
  from path_run_rung [OF this, of rs] show ?thesis using at_rung_current by (auto simp: at_rung_def)
qed

theorem path_after_results_witness:
  "path_current (fold path_step [FellBack 1 Timeout, FellBack 0 Blocked, Succeeded 1, FellBack 1 IceFailed] (on_network_change path_new)) =
     Some TurnTls443"
  using path_after_results [of "on_network_change path_new" path_new "[FellBack 1 Timeout, FellBack 0 Blocked, Succeeded 1, FellBack 1 IceFailed]"]
  by (simp add: on_network_change_def path_new_def LADDER_def)

end
