(* ===== verification/Login_Limiter.thy ===== *)
theory Login_Limiter
  imports Prelude
begin

text \<open>
  \<open>login_limiter.rs\<close> of the server: the fixed-window limiter of failed logins per address. Instants and
  durations are nanoseconds. The hash map is a partial map, and the order in which it iterates, which
  is unspecified, is the parameter \<open>iter\<close>; the theorems hold for every order. They are the memory bound,
  the refinement to one counter per address, and what eviction does to a blocked address.
\<close>

datatype ip_addr = IpV4 "32 word" | IpV6 "128 word"

text \<open>A linear order on addresses, used to give a concrete iteration order.\<close>

primrec ip_key :: "ip_addr \<Rightarrow> nat" where
  "ip_key (IpV4 w) = 2 * unat w"
| "ip_key (IpV6 w) = Suc (2 * unat w)"

lemma ip_key_inject: "ip_key a = ip_key b \<longleftrightarrow> a = b"
  by (cases a; cases b) (auto dest: arg_cong [where f = even] simp: double_not_eq_Suc_double Suc_double_not_eq_double word_unat_eq_iff)

instantiation ip_addr :: linorder
begin

definition less_eq_ip_addr :: "ip_addr \<Rightarrow> ip_addr \<Rightarrow> bool" where
  "less_eq_ip_addr a b \<longleftrightarrow> ip_key a \<le> ip_key b"

definition less_ip_addr :: "ip_addr \<Rightarrow> ip_addr \<Rightarrow> bool" where
  "less_ip_addr a b \<longleftrightarrow> ip_key a < ip_key b"

instance
  by standard (auto simp: less_eq_ip_addr_def less_ip_addr_def ip_key_inject)

end

definition MAX_FAILURES :: u32 where "MAX_FAILURES = 10"
definition WINDOW :: nat where "WINDOW = 10 * 60 * 10 ^ 9"
definition MAP_LIMIT :: nat where "MAP_LIMIT = 4096"

record entry =
  window_start :: nat
  failures :: u32

datatype limit_check = Allow | Deny nat

type_synonym limiter = "ip_addr \<rightharpoonup> entry"

definition limiter_new :: limiter where
  "limiter_new = Map.empty"

definition limiter_check :: "limiter \<Rightarrow> ip_addr \<Rightarrow> nat \<Rightarrow> limit_check" where
  "limiter_check m ip now =
     (case m ip of
        None \<Rightarrow> Allow
      | Some e \<Rightarrow>
          if now - window_start e \<ge> WINDOW then Allow
          else if failures e \<ge> MAX_FAILURES
          then Deny (max ((WINDOW - (now - window_start e)) div 10 ^ 9) 1)
          else Allow)"

text \<open>\<open>Iterator::min_by_key\<close> returns the first of the least elements.\<close>

fun min_by_key :: "('a \<Rightarrow> nat) \<Rightarrow> 'a list \<Rightarrow> 'a option" where
  "min_by_key f [] = None"
| "min_by_key f (x # xs) = Some (fold (\<lambda>y b. if f y < f b then y else b) xs x)"

definition evict :: "(limiter \<Rightarrow> ip_addr list) \<Rightarrow> nat \<Rightarrow> limiter \<Rightarrow> limiter" where
  "evict iter now m =
     (let m = (\<lambda>ip. case m ip of Some e \<Rightarrow> if now - window_start e < WINDOW then Some e else None | None \<Rightarrow> None)
      in if card (dom m) \<ge> MAP_LIMIT
         then (case min_by_key (\<lambda>ip. window_start (the (m ip))) (iter m) of
                 Some oldest_ip \<Rightarrow> m(oldest_ip := None)
               | None \<Rightarrow> m)
         else m)"

definition bump :: "nat \<Rightarrow> entry option \<Rightarrow> entry" where
  "bump now e =
     (let e = (case e of Some e \<Rightarrow> e | None \<Rightarrow> \<lparr>window_start = now, failures = 0\<rparr>);
          e = (if now - window_start e \<ge> WINDOW then e\<lparr>window_start := now, failures := 0\<rparr> else e)
      in e\<lparr>failures := sat_add (failures e) 1\<rparr>)"

definition record_failure :: "(limiter \<Rightarrow> ip_addr list) \<Rightarrow> ip_addr \<Rightarrow> nat \<Rightarrow> limiter \<Rightarrow> limiter" where
  "record_failure iter ip now m =
     (let m = (if m ip = None \<and> card (dom m) \<ge> MAP_LIMIT then evict iter now m else m)
      in m(ip \<mapsto> bump now (m ip)))"

definition limiter_clear :: "ip_addr \<Rightarrow> limiter \<Rightarrow> limiter" where
  "limiter_clear ip m = m(ip := None)"

section \<open>Runs\<close>

datatype limiter_op = Fail ip_addr nat | Succeed ip_addr

fun limiter_step :: "(limiter \<Rightarrow> ip_addr list) \<Rightarrow> limiter_op \<Rightarrow> limiter \<Rightarrow> limiter" where
  "limiter_step iter (Fail ip now) m = record_failure iter ip now m"
| "limiter_step iter (Succeed ip) m = limiter_clear ip m"

primrec op_ip :: "limiter_op \<Rightarrow> ip_addr" where
  "op_ip (Fail ip _) = ip"
| "op_ip (Succeed ip) = ip"

text \<open>The order of iteration visits every key once.\<close>

definition iterates :: "(limiter \<Rightarrow> ip_addr list) \<Rightarrow> bool" where
  "iterates iter \<longleftrightarrow> (\<forall>m. finite (dom m) \<longrightarrow> distinct (iter m) \<and> set (iter m) = dom m)"

text \<open>The counter of one address by itself.\<close>

fun own_step :: "limiter_op \<Rightarrow> entry option \<Rightarrow> entry option" where
  "own_step (Fail _ now) e = Some (bump now e)"
| "own_step (Succeed _) e = None"

section \<open>Eviction\<close>

lemma min_by_key_Some:
  assumes "min_by_key f xs = Some x"
  shows "x \<in> set xs" "\<And>y. y \<in> set xs \<Longrightarrow> f x \<le> f y"
proof -
  have fold: "fold (\<lambda>y b. if f y < f b then y else b) ys z \<in> insert z (set ys) \<and>
      (\<forall>y \<in> insert z (set ys). f (fold (\<lambda>y b. if f y < f b then y else b) ys z) \<le> f y)" for ys z
    by (induction ys arbitrary: z) fastforce+
  obtain z ys where "xs = z # ys" using assms by (cases xs) auto
  then show "x \<in> set xs" "\<And>y. y \<in> set xs \<Longrightarrow> f x \<le> f y" using assms fold [of ys z] by auto
qed

lemma min_by_key_ne: "xs \<noteq> [] \<Longrightarrow> \<exists>x. min_by_key f xs = Some x"
  by (cases xs) simp_all

definition live :: "nat \<Rightarrow> limiter \<Rightarrow> limiter" where
  "live now m = (\<lambda>ip. case m ip of Some e \<Rightarrow> if now - window_start e < WINDOW then Some e else None | None \<Rightarrow> None)"

lemma live_le: "live now m \<subseteq>\<^sub>m m"
  by (auto simp: live_def map_le_def split: option.splits if_splits)

lemma evict_eq:
  "evict iter now m = (if card (dom (live now m)) \<ge> MAP_LIMIT
     then (case min_by_key (\<lambda>ip. window_start (the (live now m ip))) (iter (live now m)) of
             Some ip \<Rightarrow> (live now m)(ip := None) | None \<Rightarrow> live now m)
     else live now m)"
  unfolding evict_def Let_def live_def [symmetric] by (auto split: option.split)

lemma evict_room:
  assumes "finite (dom m)" "card (dom m) \<le> MAP_LIMIT" "iterates iter"
  shows "card (dom (evict iter now m)) < MAP_LIMIT" "finite (dom (evict iter now m))"
proof -
  let ?l = "live now m"
  have sub: "dom ?l \<subseteq> dom m" using live_le map_le_implies_dom_le by blast
  then have fin: "finite (dom ?l)" "card (dom ?l) \<le> MAP_LIMIT" using assms(1,2) card_mono order_trans by (blast intro: finite_subset)+
  have "\<exists>ip. min_by_key (\<lambda>ip. window_start (the (?l ip))) (iter ?l) = Some ip \<and> ip \<in> dom ?l" if "card (dom ?l) \<ge> MAP_LIMIT"
  proof -
    have "set (iter ?l) = dom ?l" using assms(3) fin(1) by (simp add: iterates_def)
    moreover have "dom ?l \<noteq> {}" using that by (auto simp: MAP_LIMIT_def)
    ultimately have "iter ?l \<noteq> []" by (metis set_empty)
    then obtain ip where ip: "min_by_key (\<lambda>ip. window_start (the (?l ip))) (iter ?l) = Some ip" using min_by_key_ne by blast
    have "ip \<in> dom ?l" using min_by_key_Some(1) [OF ip] unfolding \<open>set (iter ?l) = dom ?l\<close> .
    then show ?thesis using ip by blast
  qed
  then have "(MAP_LIMIT \<le> card (dom ?l) \<and> (\<exists>ip \<in> dom ?l. evict iter now m = ?l(ip := None))) \<or> (card (dom ?l) < MAP_LIMIT \<and> evict iter now m = ?l)"
    by (cases "MAP_LIMIT \<le> card (dom ?l)") (auto simp: evict_eq)
  moreover have "card (dom (?l(ip := None))) < MAP_LIMIT \<and> finite (dom (?l(ip := None)))" if "ip \<in> dom ?l" for ip
    using order_less_le_trans [OF card_Diff1_less [OF fin(1) that] fin(2)] fin(1) by simp
  ultimately show "card (dom (evict iter now m)) < MAP_LIMIT" "finite (dom (evict iter now m))"
    using fin(1) by metis+
qed

lemma record_failure_bound:
  assumes "finite (dom m)" "card (dom m) \<le> MAP_LIMIT" "iterates iter"
  shows "card (dom (record_failure iter ip now m)) \<le> MAP_LIMIT" "finite (dom (record_failure iter ip now m))"
proof -
  let ?m = "if m ip = None \<and> card (dom m) \<ge> MAP_LIMIT then evict iter now m else m"
  have "finite (dom ?m)" "ip \<notin> dom ?m \<longrightarrow> card (dom ?m) < MAP_LIMIT" "card (dom ?m) \<le> MAP_LIMIT"
    using evict_room [OF assms, of now] assms by auto
  then show "card (dom (record_failure iter ip now m)) \<le> MAP_LIMIT" "finite (dom (record_failure iter ip now m))"
    unfolding record_failure_def Let_def by (auto simp: card_insert_if)
qed

lemma run_bound:
  assumes "iterates iter"
  shows "finite (dom m) \<Longrightarrow> card (dom m) \<le> MAP_LIMIT \<Longrightarrow>
    finite (dom (fold (limiter_step iter) xs m)) \<and> card (dom (fold (limiter_step iter) xs m)) \<le> MAP_LIMIT"
proof (induction xs arbitrary: m)
  case (Cons x xs)
  have "finite (dom (limiter_step iter x m)) \<and> card (dom (limiter_step iter x m)) \<le> MAP_LIMIT"
    using record_failure_bound [OF Cons.prems assms] Cons.prems
    by (cases x) (auto simp: limiter_clear_def intro: order_trans [OF card_Diff1_le])
  then show ?case using Cons.IH by simp
qed simp

section \<open>One counter per address\<close>

lemma step_own:
  assumes "finite A" "card A \<le> MAP_LIMIT" "dom m \<subseteq> A" "op_ip x \<in> A"
  shows "limiter_step iter x m ip = (if op_ip x = ip then own_step x (m ip) else m ip)" "dom (limiter_step iter x m) \<subseteq> A"
proof -
  have nf: "\<not> (m (op_ip x) = None \<and> MAP_LIMIT \<le> card (dom m))"
  proof
    assume a: "m (op_ip x) = None \<and> MAP_LIMIT \<le> card (dom m)"
    then have "dom m \<subset> A" using assms(3,4) by auto
    then have "card (dom m) < card A" by (rule psubset_card_mono [OF assms(1)])
    then show False using a assms(2) by simp
  qed
  have "limiter_step iter x m = m(op_ip x := own_step x (m (op_ip x)))"
  proof (cases x)
    case (Fail i now)
    then show ?thesis using nf by (simp only: limiter_step.simps record_failure_def Let_def op_ip.simps own_step.simps if_False)
  qed (simp add: limiter_clear_def)
  then show "limiter_step iter x m ip = (if op_ip x = ip then own_step x (m ip) else m ip)" "dom (limiter_step iter x m) \<subseteq> A"
    using assms(3,4) by (auto split: if_splits)
qed

lemma run_own:
  assumes "finite A" "card A \<le> MAP_LIMIT"
  shows "dom m \<subseteq> A \<Longrightarrow> op_ip ` set xs \<subseteq> A \<Longrightarrow>
    fold (limiter_step iter) xs m ip = fold own_step (filter (\<lambda>x. op_ip x = ip) xs) (m ip)"
proof (induction xs arbitrary: m)
  case (Cons x xs)
  note S = step_own [OF assms Cons.prems(1), of x iter]
  have "dom (limiter_step iter x m) \<subseteq> A" "op_ip ` set xs \<subseteq> A" using S(2) Cons.prems(2) by auto
  from Cons.IH [OF this] show ?case using S(1) [of ip] Cons.prems(2) by simp
qed simp

text \<open>
  C20. The limiter counts each address exactly and in bounded memory. After any sequence of failures and
  successes the map has at most 4096 entries, in whatever order it iterates; and as long as no more
  than 4096 addresses have been seen, the entry of an address is what its own failures and successes
  alone give, so that no traffic from other addresses can block or unblock it.
\<close>

theorem limiter_refines_counters:
  assumes "iterates iter"
  shows "card (dom (fold (limiter_step iter) xs limiter_new)) \<le> 4096 \<and>
    (card (op_ip ` set xs) \<le> 4096 \<longrightarrow>
      fold (limiter_step iter) xs limiter_new ip = fold own_step (filter (\<lambda>x. op_ip x = ip) xs) None)"
  using run_bound [OF assms, of limiter_new xs] run_own [of "op_ip ` set xs" limiter_new xs iter ip]
  by (auto simp: limiter_new_def MAP_LIMIT_def)

text \<open>A concrete order of iteration: sorted by address.\<close>

definition sorted_iter :: "limiter \<Rightarrow> ip_addr list" where
  "sorted_iter m = sorted_list_of_set (dom m)"

lemma sorted_iter_iterates: "iterates sorted_iter"
  by (simp add: iterates_def sorted_iter_def)

theorem limiter_refines_counters_witness:
  "limiter_check (fold (limiter_step sorted_iter) (map (Fail (IpV4 1)) [5, 5, 5, 5, 5, 6, 6, 6, 6, 6] @ [Fail (IpV4 2) 6]) limiter_new) (IpV4 1) 7 = Deny 599"
proof -
  let ?xs = "map (Fail (IpV4 1)) [5, 5, 5, 5, 5, 6, 6, 6, 6, 6] @ [Fail (IpV4 2) 6]"
  have "op_ip ` set ?xs \<subseteq> {IpV4 1, IpV4 2}" by auto
  then have "card (op_ip ` set ?xs) \<le> 4096" using card_mono [of "{IpV4 1, IpV4 2}" "op_ip ` set ?xs"] by simp
  then have "fold (limiter_step sorted_iter) ?xs limiter_new (IpV4 1) = fold own_step (filter (\<lambda>x. op_ip x = IpV4 1) ?xs) None"
    using limiter_refines_counters [OF sorted_iter_iterates, of ?xs "IpV4 1"] by blast
  also have "\<dots> = Some \<lparr>window_start = 5, failures = 10\<rparr>"
    by (simp add: bump_def Let_def WINDOW_def sat_add_def)
  finally show ?thesis by (simp add: limiter_check_def WINDOW_def MAX_FAILURES_def)
qed

section \<open>Eviction of a blocked address\<close>

lemma live_all: "(\<And>ip e. m ip = Some e \<Longrightarrow> now - window_start e < WINDOW) \<Longrightarrow> live now m = m"
  by (rule ext) (simp add: live_def split: option.split)

text \<open>
  A full map unblocks the address that was blocked longest. When the map is full and no window has
  expired, a failure from a new address evicts the entry with the oldest window, even when it is over the
  limit: that address is allowed again before its window ends.
\<close>

theorem eviction_unblocks:
  assumes "iterates iter" and "finite (dom m)" and "card (dom m) = 4096"
    and "\<And>a e. m a = Some e \<Longrightarrow> now - window_start e < WINDOW"
    and "m ip = Some e0" and "MAX_FAILURES \<le> failures e0"
    and "\<And>a e. m a = Some e \<Longrightarrow> a \<noteq> ip \<Longrightarrow> window_start e0 < window_start e" and "m new_ip = None"
  shows "limiter_check m ip now \<noteq> Allow \<and> limiter_check (record_failure iter new_ip now m) ip now = Allow"
proof
  show "limiter_check m ip now \<noteq> Allow" using assms(4) [OF assms(5)] assms(5,6) by (simp add: limiter_check_def)
  have l: "live now m = m" by (rule live_all) (rule assms(4))
  have iter: "set (iter m) = dom m" using assms(1,2) by (simp add: iterates_def)
  then have mem: "ip \<in> set (iter m)" using assms(5) by auto
  then obtain x where x: "min_by_key (\<lambda>ip. window_start (the (m ip))) (iter m) = Some x" using min_by_key_ne by (metis list.set_cases list.distinct(1))
  obtain e where e: "m x = Some e" using min_by_key_Some(1) [OF x] iter by auto
  have "x = ip" using min_by_key_Some(2) [OF x mem] e assms(5) assms(7) [OF e] by fastforce
  then have ev: "evict iter now m = m(ip := None)" using assms(3) x by (simp add: evict_eq l MAP_LIMIT_def)
  have "record_failure iter new_ip now m = (m(ip := None))(new_ip \<mapsto> bump now ((m(ip := None)) new_ip))"
    using assms(3,8) ev by (simp add: record_failure_def MAP_LIMIT_def)
  moreover have "new_ip \<noteq> ip" using assms(5,8) by auto
  ultimately show "limiter_check (record_failure iter new_ip now m) ip now = Allow" by (simp add: limiter_check_def)
qed

definition full_map :: limiter where
  "full_map = (\<lambda>ip. case ip of IpV4 w \<Rightarrow> if w < 4096 then Some \<lparr>window_start = (if w = 0 then 0 else 1), failures = 10\<rparr> else None | IpV6 _ \<Rightarrow> None)"

lemma full_map_dom: "dom full_map = IpV4 ` word_of_nat ` {..<4096}"
proof (intro set_eqI iffI)
  fix ip
  assume "ip \<in> dom full_map"
  then obtain w where w: "ip = IpV4 w" "w < 4096" by (auto simp: full_map_def split: ip_addr.splits if_splits)
  then have "w = word_of_nat (unat w)" "unat w < 4096" by (simp_all add: word_less_nat_alt)
  then show "ip \<in> IpV4 ` word_of_nat ` {..<4096}" using w(1) by blast
next
  fix ip
  assume "ip \<in> IpV4 ` word_of_nat ` {..<4096}"
  then obtain n where "ip = IpV4 (word_of_nat n)" "n < 4096" by auto
  then show "ip \<in> dom full_map" by (simp add: full_map_def dom_def word_less_nat_alt unat_of_nat)
qed

lemma full_map_card: "card (dom full_map) = 4096" "finite (dom full_map)"
proof -
  have "inj_on (word_of_nat :: nat \<Rightarrow> 32 word) {..<4096}"
  proof (rule inj_on_inverseI)
    fix n :: nat
    assume "n \<in> {..<4096}"
    then show "unat (word_of_nat n :: 32 word) = n" by (simp add: unat_of_nat)
  qed
  then have "card (IpV4 ` word_of_nat ` {..<4096}) = 4096" by (simp add: card_image inj_on_def)
  then show "card (dom full_map) = 4096" "finite (dom full_map)" by (simp_all add: full_map_dom)
qed

theorem eviction_unblocks_witness:
  "limiter_check full_map (IpV4 0) 2 \<noteq> Allow \<and>
   limiter_check (record_failure sorted_iter (IpV4 5000) 2 full_map) (IpV4 0) 2 = Allow"
proof (rule eviction_unblocks [OF sorted_iter_iterates full_map_card(2,1)])
  fix a e
  assume "full_map a = Some e"
  then show "2 - window_start e < WINDOW"
    by (auto simp: full_map_def WINDOW_def split: ip_addr.splits if_splits)
next
  fix a e
  assume "full_map a = Some e" "a \<noteq> IpV4 0"
  then show "window_start \<lparr>window_start = 0, failures = 10\<rparr> < window_start e"
    by (auto simp: full_map_def split: ip_addr.splits if_splits)
qed (simp_all add: full_map_def MAX_FAILURES_def word_less_nat_alt)

end
