(* ===== verification/Resolution.thy ===== *)
theory Resolution
  imports Prelude
begin

text \<open>
  \<open>resolution.rs\<close> of the transport core: the controller that maps bandwidth estimates to a rung of the
  resolution ladder. The theorem is its hysteresis: fast down, slow up, always within the ladder.
\<close>

record resolution_ladder_config =
  rungs :: "(u16 \<times> u16) list"
  min_kbps :: "u32 list"
  initial_rung :: nat
  lower_headroom_pct :: u8
  raise_streak :: u16

definition default_ladder :: resolution_ladder_config where
  "default_ladder =
     \<lparr>rungs = [(3840, 2160), (2560, 1440), (1920, 1080), (1600, 900), (1280, 720), (960, 540), (854, 480)],
      min_kbps = [35000, 20000, 10000, 7000, 5000, 3000, 2000], initial_rung = 2, lower_headroom_pct = 10, raise_streak = 8\<rparr>"

definition ladder_sanitised :: "resolution_ladder_config \<Rightarrow> resolution_ladder_config" where
  "ladder_sanitised c =
     (let len = min (length (rungs c)) (length (min_kbps c));
          c = c\<lparr>rungs := take len (rungs c), min_kbps := take len (min_kbps c)\<rparr>;
          c = (if rungs c = [] \<or> min_kbps c = [] then c\<lparr>rungs := rungs default_ladder, min_kbps := min_kbps default_ladder\<rparr> else c);
          max_idx = length (rungs c) - 1
      in c\<lparr>initial_rung := min (initial_rung c) max_idx, lower_headroom_pct := min (lower_headroom_pct c) 100\<rparr>)"

record dyn_resolution_controller =
  rc_config :: resolution_ladder_config
  current_rung :: nat
  good_streak :: u16

definition controller_new :: "resolution_ladder_config \<Rightarrow> dyn_resolution_controller" where
  "controller_new config =
     (let config = ladder_sanitised config in \<lparr>rc_config = config, current_rung = initial_rung config, good_streak = 0\<rparr>)"

text \<open>Indexing a vector; \<open>None\<close> is the panic.\<close>

definition index :: "'a list \<Rightarrow> nat \<Rightarrow> 'a option" where
  "index xs i = (if i < length xs then Some (xs ! i) else None)"

definition controller_current :: "dyn_resolution_controller \<Rightarrow> (u16 \<times> u16) option" where
  "controller_current c = index (rungs (rc_config c)) (current_rung c)"

definition min_kbps_at :: "nat \<Rightarrow> dyn_resolution_controller \<Rightarrow> u32 option" where
  "min_kbps_at rung c = index (min_kbps (rc_config c)) rung"

definition lower_bound :: "u32 \<Rightarrow> u8 \<Rightarrow> u32" where
  "lower_bound current_min pct = current_min - word_of_nat (unat current_min * unat pct div 100)"

definition observe :: "u32 \<Rightarrow> dyn_resolution_controller \<Rightarrow> (dyn_resolution_controller \<times> (u16 \<times> u16)) option" where
  "observe available_kbps c =
     Option.bind (min_kbps_at (current_rung c) c) (\<lambda>current_min.
     Option.bind
       (if available_kbps < lower_bound current_min (lower_headroom_pct (rc_config c))
        then Some (c\<lparr>current_rung := min (current_rung c + 1) (length (rungs (rc_config c)) - 1), good_streak := 0\<rparr>)
        else if current_rung c > 0
        then Option.bind (min_kbps_at (current_rung c - 1) c) (\<lambda>higher_min.
               if available_kbps \<ge> higher_min
               then let c = c\<lparr>good_streak := sat_add (good_streak c) 1\<rparr>
                    in Some (if good_streak c \<ge> raise_streak (rc_config c)
                             then c\<lparr>current_rung := current_rung c - 1, good_streak := 0\<rparr> else c)
               else Some (c\<lparr>good_streak := 0\<rparr>))
        else Some (c\<lparr>good_streak := 0\<rparr>))
       (\<lambda>c. map_option (\<lambda>r. (c, r)) (controller_current c)))"

section \<open>Invariant\<close>

definition ladder_ok :: "resolution_ladder_config \<Rightarrow> bool" where
  "ladder_ok c \<longleftrightarrow> rungs c \<noteq> [] \<and> length (rungs c) = length (min_kbps c) \<and> initial_rung c < length (rungs c) \<and> unat (lower_headroom_pct c) \<le> 100"

lemma sanitised_ok: "ladder_ok (ladder_sanitised c)"
proof -
  have "unat (min (lower_headroom_pct c) 100) \<le> 100" by (simp add: min_def word_le_nat_alt)
  moreover have "min i (length xs - Suc 0) < length xs" if "xs \<noteq> []" for i and xs :: "(u16 \<times> u16) list"
    using that by (cases xs) auto
  ultimately show ?thesis by (auto simp: ladder_ok_def ladder_sanitised_def Let_def default_ladder_def)
qed

definition controller_ok :: "dyn_resolution_controller \<Rightarrow> bool" where
  "controller_ok c \<longleftrightarrow> ladder_ok (rc_config c) \<and> current_rung c < length (rungs (rc_config c)) \<and>
     unat (good_streak c) < max 1 (unat (raise_streak (rc_config c)))"

lemma controller_new_ok: "controller_ok (controller_new config)"
  using sanitised_ok [of config] by (simp add: controller_ok_def controller_new_def Let_def ladder_ok_def)

text \<open>One observation, with the indexing discharged.\<close>

definition too_low :: "u32 \<Rightarrow> dyn_resolution_controller \<Rightarrow> bool" where
  "too_low k c \<longleftrightarrow> k < lower_bound (min_kbps (rc_config c) ! current_rung c) (lower_headroom_pct (rc_config c))"

definition enough :: "u32 \<Rightarrow> dyn_resolution_controller \<Rightarrow> bool" where
  "enough k c \<longleftrightarrow> 0 < current_rung c \<and> min_kbps (rc_config c) ! (current_rung c - 1) \<le> k"

lemma observe_eq:
  assumes "controller_ok c"
  shows "\<exists>c'. observe k c = Some (c', rungs (rc_config c) ! current_rung c') \<and> controller_ok c' \<and> rc_config c' = rc_config c \<and>
    (if too_low k c then current_rung c' = min (current_rung c + 1) (length (rungs (rc_config c)) - 1) \<and> good_streak c' = 0
     else if enough k c
     then (if unat (good_streak c) + 1 \<ge> unat (raise_streak (rc_config c)) then current_rung c' = current_rung c - 1 \<and> good_streak c' = 0
           else current_rung c' = current_rung c \<and> unat (good_streak c') = unat (good_streak c) + 1)
     else current_rung c' = current_rung c \<and> good_streak c' = 0)"
proof -
  have L: "rungs (rc_config c) \<noteq> []" "length (min_kbps (rc_config c)) = length (rungs (rc_config c))"
    "current_rung c < length (rungs (rc_config c))" "unat (good_streak c) < max 1 (unat (raise_streak (rc_config c)))"
    and lad: "ladder_ok (rc_config c)"
    using assms by (auto simp: controller_ok_def ladder_ok_def)
  have sat: "unat (sat_add (good_streak c) 1) = unat (good_streak c) + 1"
    using L(4) unat_lt_u16 [of "raise_streak (rc_config c)"] by (intro trans [OF unat_sat_add]) auto
  have geq: "raise_streak (rc_config c) \<le> sat_add (good_streak c) 1 \<longleftrightarrow> unat (raise_streak (rc_config c)) \<le> unat (good_streak c) + 1"
    by (simp only: word_le_nat_alt sat)
  have idx: "min_kbps_at (current_rung c) c = Some (min_kbps (rc_config c) ! current_rung c)"
    "min_kbps_at (current_rung c - 1) c = Some (min_kbps (rc_config c) ! (current_rung c - 1))"
    using L by (auto simp: min_kbps_at_def index_def)
  note idx' = idx(2) [unfolded One_nat_def]
  have idx0: "min_kbps_at 0 c = Some (min_kbps (rc_config c) ! 0)" using L by (auto simp: min_kbps_at_def index_def)
  note [simp] = idx' idx0
  note [simp] = idx controller_current_def index_def Let_def
  consider "too_low k c" | "\<not> too_low k c" "enough k c" | "\<not> too_low k c" "\<not> enough k c" by blast
  then show ?thesis
  proof cases
    case 1
    moreover have "min (current_rung c + 1) (length (rungs (rc_config c)) - 1) < length (rungs (rc_config c))"
      using L(3) by linarith
    ultimately show ?thesis using lad by (simp add: observe_def too_low_def controller_ok_def)
  next
    case 2
    have less: "current_rung c - 1 < length (rungs (rc_config c))" using L(3) by linarith
    show ?thesis
    proof (cases "unat (raise_streak (rc_config c)) \<le> unat (good_streak c) + 1")
      case True
      then show ?thesis using 2 less lad by (simp add: observe_def too_low_def enough_def controller_ok_def geq)
    next
      case False
      then show ?thesis using 2 L(3) lad by (simp add: observe_def too_low_def enough_def controller_ok_def geq sat)
    qed
  next
    case 3
    then show ?thesis
      using L(3) lad by (cases "current_rung c = 0") (simp_all add: observe_def too_low_def enough_def controller_ok_def)
  qed
qed

text \<open>The headroom never exceeds the minimum, so the subtraction of \<open>observe\<close> does not wrap.\<close>

lemma lower_bound_exact:
  assumes "unat pct \<le> 100"
  shows "unat (lower_bound m pct) = unat m - unat m * unat pct div 100" "lower_bound m pct \<le> m"
proof -
  have le: "unat m * unat pct div 100 \<le> unat m"
    using mult_le_mono2 [OF assms, of "unat m"] by (simp add: less_mult_imp_div_less div_le_mono [of _ "unat m * 100" 100, simplified])
  then have w: "unat (word_of_nat (unat m * unat pct div 100) :: u32) = unat m * unat pct div 100"
    using unat_lt_u32 [of m] by (simp add: unsigned_of_nat take_bit_nat_eq_self_iff)
  then have sub: "(word_of_nat (unat m * unat pct div 100) :: u32) \<le> m" using le by (simp add: word_le_nat_alt)
  show "unat (lower_bound m pct) = unat m - unat m * unat pct div 100"
    unfolding lower_bound_def using sub w by (simp add: unat_sub)
  then show "lower_bound m pct \<le> m" by (simp add: word_le_nat_alt)
qed

section \<open>The history of a controller\<close>

text \<open>
  Running a controller over a sequence of estimates, keeping the estimates with the controllers they were
  observed in, newest first.
\<close>

fun observe_all :: "u32 list \<Rightarrow> dyn_resolution_controller \<Rightarrow> (u32 \<times> dyn_resolution_controller) list
    \<Rightarrow> (dyn_resolution_controller \<times> (u32 \<times> dyn_resolution_controller) list) option" where
  "observe_all [] c h = Some (c, h)"
| "observe_all (k # ks) c h = Option.bind (observe k c) (\<lambda>(c', _). observe_all ks c' ((k, c) # h))"

text \<open>An estimate that speaks for the rung above \<open>r\<close>, observed at rung \<open>r\<close>.\<close>

definition supports :: "nat \<Rightarrow> u32 \<times> dyn_resolution_controller \<Rightarrow> bool" where
  "supports r = (\<lambda>(k, c). current_rung c = r \<and> enough k c \<and> \<not> too_low k c)"

definition streak_ok :: "dyn_resolution_controller \<Rightarrow> (u32 \<times> dyn_resolution_controller) list \<Rightarrow> bool" where
  "streak_ok c h \<longleftrightarrow> controller_ok c \<and> unat (good_streak c) = length (takeWhile (supports (current_rung c)) h)"

lemma observe_streak:
  assumes "streak_ok c h"
  obtains c' where "observe k c = Some (c', rungs (rc_config c) ! current_rung c')" "streak_ok c' ((k, c) # h)"
    "rc_config c' = rc_config c"
    "current_rung c' =
      (if too_low k c then min (current_rung c + 1) (length (rungs (rc_config c)) - 1)
       else if max 1 (unat (raise_streak (rc_config c))) \<le> length (takeWhile (supports (current_rung c)) ((k, c) # h))
       then current_rung c - 1 else current_rung c)"
proof -
  have ok: "controller_ok c" and st: "unat (good_streak c) = length (takeWhile (supports (current_rung c)) h)"
    using assms by (auto simp: streak_ok_def)
  obtain c' where c': "observe k c = Some (c', rungs (rc_config c) ! current_rung c')" "controller_ok c'" "rc_config c' = rc_config c"
    and cs: "if too_low k c then current_rung c' = min (current_rung c + 1) (length (rungs (rc_config c)) - 1) \<and> good_streak c' = 0
     else if enough k c
     then (if unat (good_streak c) + 1 \<ge> unat (raise_streak (rc_config c)) then current_rung c' = current_rung c - 1 \<and> good_streak c' = 0
           else current_rung c' = current_rung c \<and> unat (good_streak c') = unat (good_streak c) + 1)
     else current_rung c' = current_rung c \<and> good_streak c' = 0"
    using observe_eq [OF ok, of k] by (elim exE conjE) (rule that)
  have "unat (good_streak c') = length (takeWhile (supports (current_rung c')) ((k, c) # h)) \<and> current_rung c' =
      (if too_low k c then min (current_rung c + 1) (length (rungs (rc_config c)) - 1)
       else if max 1 (unat (raise_streak (rc_config c))) \<le> length (takeWhile (supports (current_rung c)) ((k, c) # h))
       then current_rung c - 1 else current_rung c)"
    using cs st by (auto simp: supports_def enough_def split: if_splits)
  with c' show ?thesis by (intro that [of c']) (auto simp: streak_ok_def)
qed

lemma observe_all_total:
  assumes "streak_ok c h"
  obtains c' h' where "observe_all ks c h = Some (c', h')" "streak_ok c' h'" "rc_config c' = rc_config c"
    "map fst h' = rev ks @ map fst h"
  using assms
proof (induction ks arbitrary: c h thesis)
  case Nil
  show ?case by (rule Nil.prems(1) [of c h]) (use Nil.prems in auto)
next
  case (Cons k ks)
  from Cons.prems(2) obtain c1 where c1: "observe k c = Some (c1, rungs (rc_config c) ! current_rung c1)"
    "streak_ok c1 ((k, c) # h)" "rc_config c1 = rc_config c" by (rule observe_streak [where k = k])
  obtain c' h' where "observe_all ks c1 ((k, c) # h) = Some (c', h')" "streak_ok c' h'" "rc_config c' = rc_config c1"
    "map fst h' = rev ks @ map fst ((k, c) # h)" by (rule Cons.IH [OF _ c1(2)])
  with c1 show ?case by (intro Cons.prems(1) [of c' h']) auto
qed

text \<open>
  The resolution controller drops fast and recovers slowly. Whatever the configuration and the estimates so
  far, it never indexes out of its ladder and its rung lies in it; the next estimate moves it by the exact rule:
  one rung down at once when the estimate is below the minimum of the current rung less the headroom (the
  subtraction does not wrap), one rung up exactly when the last \<open>raise_streak\<close> estimates (at least one) were all
  observed at this rung and each covers the minimum of the rung above, and otherwise it stays.
\<close>

theorem resolution_hysteresis:
  assumes "observe_all ks (controller_new config) [] = r"
  shows "\<exists>c h c'. r = Some (c, h) \<and> map fst h = rev ks \<and> rc_config c = ladder_sanitised config \<and>
    current_rung c < length (rungs (rc_config c)) \<and>
    unat (lower_bound (min_kbps (rc_config c) ! current_rung c) (lower_headroom_pct (rc_config c))) =
      unat (min_kbps (rc_config c) ! current_rung c) -
      unat (min_kbps (rc_config c) ! current_rung c) * unat (lower_headroom_pct (rc_config c)) div 100 \<and>
    observe k c = Some (c', rungs (rc_config c) ! current_rung c') \<and> current_rung c' < length (rungs (rc_config c)) \<and>
    current_rung c' =
      (if too_low k c then min (current_rung c + 1) (length (rungs (rc_config c)) - 1)
       else if max 1 (unat (raise_streak (rc_config c))) \<le> length (takeWhile (supports (current_rung c)) ((k, c) # h))
       then current_rung c - 1 else current_rung c)"
proof -
  have cfg: "rc_config (controller_new config) = ladder_sanitised config" by (simp add: controller_new_def Let_def)
  have "streak_ok (controller_new config) []"
    using controller_new_ok [of config] by (simp add: streak_ok_def controller_new_def Let_def)
  then obtain c h where ch: "observe_all ks (controller_new config) [] = Some (c, h)" "streak_ok c h"
    "rc_config c = rc_config (controller_new config)" "map fst h = rev ks @ map fst ([] :: (u32 \<times> dyn_resolution_controller) list)"
    by (rule observe_all_total [where ks = ks])
  from ch(2) obtain c' where c': "observe k c = Some (c', rungs (rc_config c) ! current_rung c')" "streak_ok c' ((k, c) # h)"
    "rc_config c' = rc_config c" and mv: "current_rung c' =
      (if too_low k c then min (current_rung c + 1) (length (rungs (rc_config c)) - 1)
       else if max 1 (unat (raise_streak (rc_config c))) \<le> length (takeWhile (supports (current_rung c)) ((k, c) # h))
       then current_rung c - 1 else current_rung c)" by (rule observe_streak [where k = k])
  have "controller_ok c" "controller_ok c'" using ch(2) c'(2) by (auto simp: streak_ok_def)
  then have b: "current_rung c < length (rungs (rc_config c))" "current_rung c' < length (rungs (rc_config c))"
    "unat (lower_headroom_pct (rc_config c)) \<le> 100" using c'(3) by (auto simp: controller_ok_def ladder_ok_def)
  show ?thesis
    using assms ch c'(1) b mv lower_bound_exact(1) [OF b(3)] cfg
    by (intro exI [of _ c] exI [of _ h] exI [of _ c'] conjI) simp_all
qed

theorem resolution_hysteresis_witness:
  "map_option (\<lambda>(c, h). current_rung c) (observe_all [4000, 12000, 12000] (controller_new (default_ladder\<lparr>raise_streak := 2\<rparr>)) []) = Some 2 \<and>
   map_option (\<lambda>(c, h). current_rung c) (observe_all [4000, 12000, 6500, 12000] (controller_new (default_ladder\<lparr>raise_streak := 2\<rparr>)) []) = Some 3 \<and>
   (\<exists>c h c'. observe_all [4000, 12000] (controller_new (default_ladder\<lparr>raise_streak := 2\<rparr>)) [] = Some (c, h) \<and>
     observe 12000 c = Some (c', rungs (rc_config c) ! current_rung c') \<and> current_rung c' < length (rungs (rc_config c)))"
proof (intro conjI)
  show "\<exists>c h c'. observe_all [4000, 12000] (controller_new (default_ladder\<lparr>raise_streak := 2\<rparr>)) [] = Some (c, h) \<and>
     observe 12000 c = Some (c', rungs (rc_config c) ! current_rung c') \<and> current_rung c' < length (rungs (rc_config c))"
    using resolution_hysteresis [of "[4000, 12000]" "default_ladder\<lparr>raise_streak := 2\<rparr>" _ 12000, OF refl] by blast
qed (simp_all add: controller_new_def ladder_sanitised_def default_ladder_def observe_def min_kbps_at_def index_def
    lower_bound_def sat_add_def controller_current_def Let_def word_le_nat_alt)

end
