(* ===== verification/Qu_Wire.thy ===== *)
theory Qu_Wire
  imports Fec_Wire
begin

text \<open>
  \<open>qu_wire.rs\<close> of the streamer: the framing of the \<open>video_qu\<close> data channel that carries lossless tiles beside the
  video. Parsing is shown to be exactly the inverse of encoding up to trailing bytes, and \<open>peek\<close> to agree with it.
\<close>

definition KIND_QU_CONFIG :: u8 where "KIND_QU_CONFIG = 0x01"
definition KIND_QU_TILE :: u8 where "KIND_QU_TILE = 0x02"
definition KIND_QU_INVALIDATE :: u8 where "KIND_QU_INVALIDATE = 0x03"
definition KIND_QU_EPOCH :: u8 where "KIND_QU_EPOCH = 0x04"
definition KIND_QU_SUBSCRIBE :: u8 where "KIND_QU_SUBSCRIBE = 0x81"
definition KIND_QU_BUDGET :: u8 where "KIND_QU_BUDGET = 0x82"

lemmas qu_kinds = KIND_QU_CONFIG_def KIND_QU_TILE_def KIND_QU_INVALIDATE_def KIND_QU_EPOCH_def
  KIND_QU_SUBSCRIBE_def KIND_QU_BUDGET_def

definition CONFIG_LEN :: nat where "CONFIG_LEN = 13"
definition TILE_HDR :: nat where "TILE_HDR = 19"
definition INVALIDATE_HDR :: nat where "INVALIDATE_HDR = 7"
definition EPOCH_LEN :: nat where "EPOCH_LEN = 5"
definition SUBSCRIBE_LEN :: nat where "SUBSCRIBE_LEN = 2"
definition BUDGET_LEN :: nat where "BUDGET_LEN = 5"

lemmas qu_lens = CONFIG_LEN_def TILE_HDR_def INVALIDATE_HDR_def EPOCH_LEN_def SUBSCRIBE_LEN_def BUDGET_LEN_def

datatype qu_msg =
  QuConfig (tile_w: u16) (tile_h: u16) (grid_cols: u16) (grid_rows: u16) (config_epoch: u32)
| QuTile (tile_epoch: u32) (tile_col: u16) (tile_row: u16) (tile_format: u8) (tile_flags: u8) (crc32_bgra: u32) (tile_payload: bytes)
| QuInvalidate (invalidate_epoch: u32) (tiles: "(u16 \<times> u16) list")
| QuEpoch (new_epoch: u32)
| QuSubscribe (qu_version: u8)
| QuBudget (kbps: u32)

section \<open>Encoding\<close>

definition encode_config :: "u16 \<Rightarrow> u16 \<Rightarrow> u16 \<Rightarrow> u16 \<Rightarrow> u32 \<Rightarrow> bytes" where
  "encode_config w h cols rows epoch = KIND_QU_CONFIG # le16 w @ le16 h @ le16 cols @ le16 rows @ le32 epoch"

definition encode_tile :: "u32 \<Rightarrow> u16 \<Rightarrow> u16 \<Rightarrow> u8 \<Rightarrow> u8 \<Rightarrow> u32 \<Rightarrow> bytes \<Rightarrow> bytes" where
  "encode_tile epoch col row format flags crc payload =
     (let payload_len = word_of_nat (length payload)
      in KIND_QU_TILE # le32 epoch @ le16 col @ le16 row @ [format] @ [flags] @ le32 crc @ le32 payload_len @ payload)"

definition encode_invalidate :: "u32 \<Rightarrow> (u16 \<times> u16) list \<Rightarrow> bytes" where
  "encode_invalidate epoch ts =
     (let count = word_of_nat (length ts)
      in KIND_QU_INVALIDATE # le32 epoch @ le16 count @ concat (map (\<lambda>(col, row). le16 col @ le16 row) ts))"

definition encode_epoch :: "u32 \<Rightarrow> bytes" where
  "encode_epoch e = KIND_QU_EPOCH # le32 e"

definition encode_subscribe :: "u8 \<Rightarrow> bytes" where
  "encode_subscribe version = [KIND_QU_SUBSCRIBE, version]"

definition encode_budget :: "u32 \<Rightarrow> bytes" where
  "encode_budget k = KIND_QU_BUDGET # le32 k"

section \<open>Parsing\<close>

text \<open>The pair the loop over \<open>0..count\<close> reads at offset \<open>off\<close>.\<close>

definition tile_at :: "bytes \<Rightarrow> nat \<Rightarrow> (u16 \<times> u16) option" where
  "tile_at buf off = Option.bind (get16 (subslice off (off + 2) buf)) (\<lambda>col.
     Option.bind (get16 (subslice (off + 2) (off + 4) buf)) (\<lambda>row. Some (col, row)))"

definition parse_msg :: "bytes \<Rightarrow> qu_msg option" where
  "parse_msg buf = (case buf of [] \<Rightarrow> None | kind # _ \<Rightarrow>
     if kind = KIND_QU_CONFIG then
       if length buf < CONFIG_LEN then None
       else Option.bind (get16 (subslice 1 3 buf)) (\<lambda>w. Option.bind (get16 (subslice 3 5 buf)) (\<lambda>h.
            Option.bind (get16 (subslice 5 7 buf)) (\<lambda>cols. Option.bind (get16 (subslice 7 9 buf)) (\<lambda>rows.
            Option.bind (get32 (subslice 9 13 buf)) (\<lambda>epoch. Some (QuConfig w h cols rows epoch))))))
     else if kind = KIND_QU_TILE then
       if length buf < TILE_HDR then None
       else Option.bind (get32 (subslice 15 19 buf)) (\<lambda>plen.
         let payload_len = unat plen
         in if length buf < TILE_HDR + payload_len then None
            else Option.bind (get32 (subslice 1 5 buf)) (\<lambda>epoch. Option.bind (get16 (subslice 5 7 buf)) (\<lambda>col.
                 Option.bind (get16 (subslice 7 9 buf)) (\<lambda>row. Option.bind (get32 (subslice 11 15 buf)) (\<lambda>crc.
                   Some (QuTile epoch col row (buf ! 9) (buf ! 10) crc (subslice 19 (19 + payload_len) buf)))))))
     else if kind = KIND_QU_INVALIDATE then
       if length buf < INVALIDATE_HDR then None
       else Option.bind (get32 (subslice 1 5 buf)) (\<lambda>epoch. Option.bind (get16 (subslice 5 7 buf)) (\<lambda>n.
         let count = unat n; expected = INVALIDATE_HDR + count * 4
         in if length buf < expected then None
            else Option.bind (all_some (map (\<lambda>i. tile_at buf (INVALIDATE_HDR + i * 4)) [0..<count]))
                   (\<lambda>ts. Some (QuInvalidate epoch ts))))
     else if kind = KIND_QU_EPOCH then
       if length buf < EPOCH_LEN then None
       else Option.bind (get32 (subslice 1 5 buf)) (\<lambda>e. Some (QuEpoch e))
     else if kind = KIND_QU_SUBSCRIBE then
       if length buf < SUBSCRIBE_LEN then None else Some (QuSubscribe (buf ! 1))
     else if kind = KIND_QU_BUDGET then
       if length buf < BUDGET_LEN then None
       else Option.bind (get32 (subslice 1 5 buf)) (\<lambda>k. Some (QuBudget k))
     else None)"

definition peek :: "bytes \<Rightarrow> (u8 \<times> u32 option) option" where
  "peek buf = (case buf of [] \<Rightarrow> None | kind # _ \<Rightarrow>
     let epoch = (if (kind = KIND_QU_TILE \<or> kind = KIND_QU_INVALIDATE) \<and> length buf \<ge> 5 then get32 (subslice 1 5 buf) else None)
     in Some (kind, epoch))"

section \<open>Parsing is the inverse of encoding\<close>

fun encode_msg :: "qu_msg \<Rightarrow> bytes" where
  "encode_msg (QuConfig w h cols rows epoch) = encode_config w h cols rows epoch"
| "encode_msg (QuTile epoch col row format flags crc payload) = encode_tile epoch col row format flags crc payload"
| "encode_msg (QuInvalidate epoch ts) = encode_invalidate epoch ts"
| "encode_msg (QuEpoch e) = encode_epoch e"
| "encode_msg (QuSubscribe v) = encode_subscribe v"
| "encode_msg (QuBudget k) = encode_budget k"

text \<open>The messages whose variable part fits its length field.\<close>

fun fits :: "qu_msg \<Rightarrow> bool" where
  "fits (QuTile epoch col row format flags crc payload) = (length payload < 2 ^ 32)"
| "fits (QuInvalidate epoch ts) = (length ts < 2 ^ 16)"
| "fits _ = True"

fun msg_epoch :: "qu_msg \<Rightarrow> u32 option" where
  "msg_epoch (QuTile epoch col row format flags crc payload) = Some epoch"
| "msg_epoch (QuInvalidate epoch ts) = Some epoch"
| "msg_epoch _ = None"

lemma get16_eq: "get16 bs = Some w \<longleftrightarrow> bs = le16 w"
  using rd16_eq_Inr [of "()" bs w] by (auto simp: get16_def split: sum.splits)

lemma get32_eq: "get32 bs = Some w \<longleftrightarrow> bs = le32 w"
  using rd32_eq_Inr [of "()" bs w] by (auto simp: get32_def split: sum.splits)

lemma get_le [simp]: "get16 (le16 v) = Some v" "get32 (le32 w) = Some w"
  by (simp_all add: get16_eq get32_eq)

lemma all_some_eq: "all_some (map f xs) = Some ys \<longleftrightarrow> list_all2 (\<lambda>x y. f x = Some y) xs ys"
proof (induction xs arbitrary: ys)
  case (Cons x xs)
  then show ?case by (cases ys) (auto simp: bind_eq_Some_conv)
qed auto

lemma list_all2_snoc: "list_all2 P (xs @ [x]) (ys @ [y]) \<longleftrightarrow> list_all2 P xs ys \<and> P x y"
proof (cases "length xs = length ys")
  case False
  then show ?thesis by (auto dest: list_all2_lengthD)
qed (simp add: list_all2_append)

lemma subslice_join: "a \<le> b \<Longrightarrow> b \<le> c \<Longrightarrow> subslice a b xs @ subslice b c xs = subslice a c xs"
  using take_add [of "b - a" "c - b" "drop a xs"] by (simp add: subslice_def)

abbreviation tile_bytes :: "(u16 \<times> u16) list \<Rightarrow> bytes" where
  "tile_bytes ts \<equiv> concat (map (\<lambda>(col, row). le16 col @ le16 row) ts)"

lemma length_tile_bytes [simp]: "length (tile_bytes ts) = 4 * length ts"
  by (induction ts) auto

text \<open>The loop reads the pairs whose encoding is the region it scans.\<close>

lemma tile_at_eq: "tile_at buf off = Some t \<longleftrightarrow> tile_bytes [t] = subslice off (off + 4) buf"
proof (cases t)
  case (Pair c r)
  have "tile_at buf off = Some (c, r) \<longleftrightarrow> subslice off (off + 2) buf = le16 c \<and> subslice (off + 2) (off + 4) buf = le16 r"
    by (auto simp: tile_at_def bind_eq_Some_conv get16_eq)
  also have "\<dots> \<longleftrightarrow> le16 c @ le16 r = subslice off (off + 4) buf"
  proof
    assume "subslice off (off + 2) buf = le16 c \<and> subslice (off + 2) (off + 4) buf = le16 r"
    then show "le16 c @ le16 r = subslice off (off + 4) buf" using subslice_join [of off "off + 2" "off + 4" buf] by simp
  next
    assume e: "le16 c @ le16 r = subslice off (off + 4) buf"
    have "length (subslice off (off + 2) buf) = 2" using arg_cong [OF e, of length] by simp
    moreover have "le16 c @ le16 r = subslice off (off + 2) buf @ subslice (off + 2) (off + 4) buf"
      using e subslice_join [of off "off + 2" "off + 4" buf] by simp
    ultimately show "subslice off (off + 2) buf = le16 c \<and> subslice (off + 2) (off + 4) buf = le16 r"
      by (metis append_eq_append_conv length_le16)
  qed
  finally show ?thesis using Pair by simp
qed

lemma tile_loop_eq:
  "all_some (map (\<lambda>i. tile_at buf (off + i * 4)) [0..<n]) = Some ts \<longleftrightarrow>
   length ts = n \<and> tile_bytes ts = subslice off (off + n * 4) buf"
proof (induction n arbitrary: ts)
  case 0
  then show ?case by (auto simp: subslice_def)
next
  case (Suc n)
  let ?A = "\<lambda>n ts. all_some (map (\<lambda>i. tile_at buf (off + i * 4)) [0..<n]) = Some ts"
  show ?case
  proof (cases ts rule: rev_cases)
    case Nil
    then show ?thesis by (simp add: all_some_eq del: upt_Suc)
  next
    case (snoc us t)
    have "?A (Suc n) ts \<longleftrightarrow> ?A n us \<and> tile_at buf (off + n * 4) = Some t"
      unfolding all_some_eq snoc by (simp add: list_all2_snoc)
    also have "\<dots> \<longleftrightarrow> length us = n \<and> tile_bytes us = subslice off (off + n * 4) buf \<and>
        tile_bytes [t] = subslice (off + n * 4) (off + n * 4 + 4) buf"
      unfolding Suc.IH tile_at_eq by simp
    also have "\<dots> \<longleftrightarrow> length us = n \<and> tile_bytes us @ tile_bytes [t] = subslice off (off + Suc n * 4) buf" (is "?L \<longleftrightarrow> ?R")
    proof
      assume ?L
      then show ?R using subslice_join [of off "off + n * 4" "off + n * 4 + 4" buf] by (simp add: algebra_simps)
    next
      assume R: ?R
      have "length (subslice off (off + n * 4) buf) = n * 4" using arg_cong [OF conjunct2 [OF R], of length] R by simp
      moreover have "tile_bytes us @ tile_bytes [t] = subslice off (off + n * 4) buf @ subslice (off + n * 4) (off + n * 4 + 4) buf"
        using R subslice_join [of off "off + n * 4" "off + n * 4 + 4" buf] by (simp add: algebra_simps)
      ultimately show ?L using R by (subst (asm) append_eq_append_conv) auto
    qed
    finally show ?thesis using snoc by simp
  qed
qed

text \<open>The fields of a fixed header, as the buffer it was read from.\<close>

lemma from_fields:
  assumes "buf = k # rest"
  shows "a \<le> b \<Longrightarrow> drop a buf = subslice a b buf @ drop b buf" "i < length buf \<Longrightarrow> drop i buf = buf ! i # drop (Suc i) buf"
    "drop 1 buf = rest"
  using assms by (simp_all add: split_at nth_as_slice)

lemma parse_encoded: "fits m \<Longrightarrow> parse_msg (encode_msg m @ extra) = Some m"
proof (cases m)
  case (QuInvalidate epoch ts)
  assume "fits m"
  then have n: "unat (word_of_nat (length ts) :: u16) = length ts" by (simp add: QuInvalidate unat_of_nat)
  have "all_some (map (\<lambda>i. tile_at (encode_msg m @ extra) (7 + i * 4)) [0..<length ts]) = Some ts"
    unfolding tile_loop_eq by (simp add: QuInvalidate encode_invalidate_def Let_def subslice_def)
  then show ?thesis using n by (simp add: QuInvalidate encode_invalidate_def Let_def parse_msg_def qu_kinds qu_lens)
qed (simp_all add: parse_msg_def qu_kinds qu_lens encode_config_def encode_tile_def encode_epoch_def encode_subscribe_def
    encode_budget_def Let_def unat_of_nat nth_append)

text \<open>Conversely, each arm of the parser accepts only an encoding with bytes after it.\<close>

lemma parse_config:
  assumes "parse_msg buf = Some m" "buf = KIND_QU_CONFIG # rest"
  shows "buf = encode_msg m @ drop 13 buf"
proof -
  obtain w h c r e where m: "m = QuConfig w h c r e" and f: "subslice 1 3 buf = le16 w" "subslice 3 5 buf = le16 h"
    "subslice 5 7 buf = le16 c" "subslice 7 9 buf = le16 r" "subslice 9 13 buf = le32 e"
    using assms(1) unfolding parse_msg_def
    by (auto simp: assms(2) bind_eq_Some_conv get16_eq get32_eq qu_kinds simp del: subslice_Cons split: if_splits)
  have "rest = subslice 1 3 buf @ subslice 3 5 buf @ subslice 5 7 buf @ subslice 7 9 buf @ subslice 9 13 buf @ drop 13 buf"
    using from_fields(1) [OF assms(2), of 1 3] from_fields(1) [OF assms(2), of 3 5] from_fields(1) [OF assms(2), of 5 7]
      from_fields(1) [OF assms(2), of 7 9] from_fields(1) [OF assms(2), of 9 13] from_fields(3) [OF assms(2)] by simp
  then show ?thesis using f by (simp add: m assms(2) encode_config_def)
qed

lemma parse_tile:
  assumes "parse_msg buf = Some m" "buf = KIND_QU_TILE # rest"
  shows "fits m \<and> buf = encode_msg m @ drop (19 + length (tile_payload m)) buf"
proof -
  obtain e c r crc n where len: "19 + unat n \<le> length buf"
    and m: "m = QuTile e c r (buf ! 9) (buf ! 10) crc (subslice 19 (19 + unat n) buf)"
    and f: "subslice 1 5 buf = le32 e" "subslice 5 7 buf = le16 c"
    "subslice 7 9 buf = le16 r" "subslice 11 15 buf = le32 crc" "subslice 15 19 buf = le32 n"
    using assms(1) unfolding parse_msg_def
    by (auto simp: assms(2) bind_eq_Some_conv get16_eq get32_eq qu_kinds qu_lens Let_def not_less simp del: subslice_Cons split: if_splits)
  have n: "length (subslice 19 (19 + unat n) buf) = unat n" using len by simp
  have "rest = subslice 1 5 buf @ subslice 5 7 buf @ subslice 7 9 buf @ [buf ! 9, buf ! 10] @ subslice 11 15 buf @ subslice 15 19 buf @
      subslice 19 (19 + unat n) buf @ drop (19 + unat n) buf"
    using len from_fields(1) [OF assms(2), of 1 5] from_fields(1) [OF assms(2), of 5 7] from_fields(1) [OF assms(2), of 7 9]
      from_fields(2) [OF assms(2), of 9] from_fields(2) [OF assms(2), of 10] from_fields(1) [OF assms(2), of 11 15]
      from_fields(1) [OF assms(2), of 15 19] from_fields(1) [OF assms(2), of 19 "19 + unat n"] from_fields(3) [OF assms(2)] by simp
  then show ?thesis using f n unat_lt_u32 [of n] by (simp add: m assms(2) encode_tile_def Let_def)
qed

lemma parse_invalidate:
  assumes "parse_msg buf = Some m" "buf = KIND_QU_INVALIDATE # rest"
  shows "fits m \<and> buf = encode_msg m @ drop (7 + 4 * length (tiles m)) buf"
proof -
  obtain e n ts where m: "m = QuInvalidate e ts" and len: "7 + unat n * 4 \<le> length buf"
    and f: "subslice 1 5 buf = le32 e" "subslice 5 7 buf = le16 n"
    and loop: "all_some (map (\<lambda>i. tile_at buf (7 + i * 4)) [0..<unat n]) = Some ts"
    using assms(1) unfolding parse_msg_def
    by (auto simp: assms(2) bind_eq_Some_conv get16_eq get32_eq qu_kinds qu_lens Let_def not_less simp del: subslice_Cons split: if_splits)
  have ts: "length ts = unat n" "tile_bytes ts = subslice 7 (7 + unat n * 4) buf" using loop by (simp_all add: tile_loop_eq)
  have "rest = subslice 1 5 buf @ subslice 5 7 buf @ subslice 7 (7 + unat n * 4) buf @ drop (7 + unat n * 4) buf"
    using from_fields(1) [OF assms(2), of 1 5] from_fields(1) [OF assms(2), of 5 7]
      from_fields(1) [OF assms(2), of 7 "7 + unat n * 4"] from_fields(3) [OF assms(2)] by simp
  then show ?thesis using f ts unat_lt_u16 [of n] by (simp add: m assms(2) encode_invalidate_def Let_def mult.commute)
qed

lemma parse_short:
  assumes "parse_msg buf = Some m" "buf = k # rest" "k = KIND_QU_EPOCH \<or> k = KIND_QU_SUBSCRIBE \<or> k = KIND_QU_BUDGET"
  shows "fits m \<and> buf = encode_msg m @ drop (length (encode_msg m)) buf"
proof -
  have four: "rest = subslice 1 5 buf @ drop 5 buf" using from_fields(1) [OF assms(2), of 1 5] from_fields(3) [OF assms(2)] by simp
  have pe: "\<exists>e. m = QuEpoch e \<and> subslice 1 5 buf = le32 e" if "k = KIND_QU_EPOCH"
    using assms(1) unfolding parse_msg_def assms(2) that
    by (simp add: bind_eq_Some_conv get32_eq qu_kinds del: subslice_Cons split: if_splits) blast
  have ps: "m = QuSubscribe (buf ! 1) \<and> rest \<noteq> []" if "k = KIND_QU_SUBSCRIBE"
    using assms(1) unfolding parse_msg_def assms(2) that by (auto simp: qu_kinds qu_lens split: if_splits)
  have pb: "\<exists>b. m = QuBudget b \<and> subslice 1 5 buf = le32 b" if "k = KIND_QU_BUDGET"
    using assms(1) unfolding parse_msg_def assms(2) that
    by (simp add: bind_eq_Some_conv get32_eq qu_kinds del: subslice_Cons split: if_splits) blast
  have word: "buf = (k # le32 w) @ drop (length (k # le32 w)) buf" if "subslice 1 5 buf = le32 w" for w
  proof -
    have "length (k # le32 w) = 5" by simp
    moreover have "buf = k # le32 w @ drop 5 buf" using four unfolding that assms(2) [symmetric] using assms(2) by metis
    ultimately show ?thesis by (metis append_Cons)
  qed
  from assms(3) show ?thesis
  proof (elim disjE)
    assume k: "k = KIND_QU_EPOCH"
    obtain e where "m = QuEpoch e" "subslice 1 5 buf = le32 e" using pe [OF k] by blast
    then show ?thesis using word k by (metis encode_epoch_def encode_msg.simps(4) fits.simps(4))
  next
    assume k: "k = KIND_QU_SUBSCRIBE"
    then show ?thesis using ps [OF k] assms(2) by (cases rest) (auto simp: encode_subscribe_def)
  next
    assume k: "k = KIND_QU_BUDGET"
    obtain e where "m = QuBudget e" "subslice 1 5 buf = le32 e" using pb [OF k] by blast
    then show ?thesis using word k by (metis encode_budget_def encode_msg.simps(6) fits.simps(6))
  qed
qed

lemma parse_sound:
  assumes "parse_msg buf = Some m"
  shows "fits m \<and> (\<exists>extra. buf = encode_msg m @ extra)"
proof -
  obtain k rest where buf: "buf = k # rest" using assms by (cases buf) (auto simp: parse_msg_def)
  have "k \<in> {KIND_QU_CONFIG, KIND_QU_TILE, KIND_QU_INVALIDATE} \<or> k = KIND_QU_EPOCH \<or> k = KIND_QU_SUBSCRIBE \<or> k = KIND_QU_BUDGET"
    using assms by (auto simp: parse_msg_def buf split: if_splits)
  then consider "k = KIND_QU_CONFIG" | "k = KIND_QU_TILE" | "k = KIND_QU_INVALIDATE"
    | "k = KIND_QU_EPOCH \<or> k = KIND_QU_SUBSCRIBE \<or> k = KIND_QU_BUDGET" by blast
  then show ?thesis
  proof cases
    case 1
    have "fits m" using assms by (auto simp: parse_msg_def buf 1 bind_eq_Some_conv split: if_splits)
    then show ?thesis using parse_config [OF assms buf [unfolded 1]] by blast
  next
    case 2
    then show ?thesis using parse_tile [OF assms buf [unfolded 2]] by blast
  next
    case 3
    then show ?thesis using parse_invalidate [OF assms buf [unfolded 3]] by blast
  next
    case 4
    then show ?thesis using parse_short [OF assms buf 4] by blast
  qed
qed

lemma peek_encoded: "peek (encode_msg m @ extra) = Some (hd (encode_msg m), msg_epoch m)"
  by (cases m) (simp_all add: peek_def qu_kinds encode_config_def encode_tile_def encode_invalidate_def encode_epoch_def
      encode_subscribe_def encode_budget_def Let_def)

text \<open>
  The \<open>video_qu\<close> parser accepts exactly the encodings: it returns a message if and only if the variable part of
  that message fits its length field and the buffer is its encoding, possibly with bytes after it. So every message
  whose payload and tile list fit is read back unchanged, no field of an accepted buffer is made up, and a buffer cut
  short anywhere is refused; and on every accepted buffer \<open>peek\<close> returns the kind byte and, for the two kinds that
  carry one in front, the epoch the full parse returns.
\<close>

theorem qu_parse_exact:
  "(parse_msg buf = Some m \<longleftrightarrow> fits m \<and> (\<exists>extra. buf = encode_msg m @ extra)) \<and>
   (parse_msg buf = Some m \<longrightarrow> peek buf = Some (hd (encode_msg m), msg_epoch m))"
  using parse_sound [of buf m] parse_encoded [of m] peek_encoded [of m] by blast

theorem qu_parse_exact_witness:
  "parse_msg [3, 9, 0, 0, 0, 2, 0, 1, 0, 2, 0, 3, 0, 4, 0, 77] = Some (QuInvalidate 9 [(1, 2), (3, 4)]) \<and>
   peek [3, 9, 0, 0, 0, 2, 0, 1, 0, 2, 0, 3, 0, 4, 0, 77] = Some (3, Some 9) \<and>
   parse_msg [3, 9, 0, 0, 0, 2, 0, 1, 0, 2, 0, 3, 0, 4] = None"
proof -
  have e: "encode_msg (QuInvalidate 9 [(1, 2), (3, 4)]) = [3, 9, 0, 0, 0, 2, 0, 1, 0, 2, 0, 3, 0, 4, 0]"
    by (simp add: encode_invalidate_def Let_def le16_def le32_def qu_kinds)
  have a: "parse_msg [3, 9, 0, 0, 0, 2, 0, 1, 0, 2, 0, 3, 0, 4, 0, 77] = Some (QuInvalidate 9 [(1, 2), (3, 4)])"
    using qu_parse_exact [of "[3, 9, 0, 0, 0, 2, 0, 1, 0, 2, 0, 3, 0, 4, 0, 77]" "QuInvalidate 9 [(1, 2), (3, 4)]"]
    unfolding e by simp
  moreover have "peek [3, 9, 0, 0, 0, 2, 0, 1, 0, 2, 0, 3, 0, 4, 0, 77] = Some (3, Some 9)"
    using qu_parse_exact [of "[3, 9, 0, 0, 0, 2, 0, 1, 0, 2, 0, 3, 0, 4, 0, 77]" "QuInvalidate 9 [(1, 2), (3, 4)]"] a
    unfolding e by simp
  moreover have "parse_msg [3, 9, 0, 0, 0, 2, 0, 1, 0, 2, 0, 3, 0, 4] = None"
    by (simp add: parse_msg_def qu_kinds qu_lens get16_def get32_def u16_of_def u32_of_def subslice_def)
  ultimately show ?thesis by blast
qed

end
