(* ===== verification/Fec_Sender.thy ===== *)
theory Fec_Sender
  imports Fec_Wire "HOL-Library.Sublist"
begin

text \<open>
  \<open>fec_sender.rs\<close> of the streamer: the handle through which frames and control messages reach the sender task,
  and the task that owns the FEC encoder. Handle and task share atomics, a frame queue behind a mutex and a bounded
  command channel; a step of the model is one access between two points at which the code may be suspended, so a list
  of steps is an interleaving. The clock readings and the outcome of each send are arguments of the steps. The
  theorems hold for every interleaving: what is on the wire is a valid symbol stream, the queue is bounded, encoding
  never fails, and a terminal exit is claimed once.
\<close>

section \<open>Types\<close>

definition QUEUE_CAPACITY :: nat where "QUEUE_CAPACITY = 4"

text \<open>100 ms; an \<open>Instant\<close> is in nanoseconds, and \<open>duration_since\<close> saturates at zero.\<close>

definition QUEUE_RESIDENCE_MAX :: nat where "QUEUE_RESIDENCE_MAX = 100 * 10 ^ 6"

record fec_frame =
  ff_data :: bytes
  ff_is_key :: bool
  ff_timestamp_us :: u32
  ff_enqueued_at :: nat

datatype ack_cmd = CmdSubscribe | CmdAck u32 | CmdNeedsIdr

datatype fec_sender_exit = SinkClosed | EncodeFailed | ChannelClosed | AckChannelClosed | Superseded

fun error_code :: "fec_sender_exit \<Rightarrow> int option" where
  "error_code SinkClosed = Some (- 1)"
| "error_code EncodeFailed = Some (- 2)"
| "error_code ChannelClosed = Some (- 3)"
| "error_code AckChannelClosed = Some (- 4)"
| "error_code Superseded = None"

text \<open>
  Where the task is suspended: in \<open>select!\<close>, before taking the next frame, before the next chunk of a frame, before
  the next repair of a chunk, or at one of the points of its exit.
\<close>

datatype sender_pc =
  AtSelect
| AtPop
| AtChunk fec_frame "bytes list"
| AtRepair fec_frame "bytes list" "symbol list"
| AtStoreExit fec_sender_exit
| AtClearLive
| AtFlush
| Exited

text \<open>
  The state shared by \<open>FecSenderHandle\<close> and the task, the counters and the encoder of the task, and the calls of
  \<open>enqueue\<close> that wait for the mutex (in its order of arrival).
\<close>

record fec_sender =
  fs_active :: bool
  fs_live :: bool
  fs_queue :: "fec_frame list"
  fs_notify :: bool
  fs_acks :: "ack_cmd list"
  fs_handle :: bool
  fs_needs_idr :: bool
  fs_wire_version :: wire_version
  fs_epoch :: epoch
  fs_exit :: "fec_sender_exit option"
  fs_generation :: u32
  fs_own_generation :: u32
  fs_encoder :: fec_encoder
  fs_next_seq :: u32
  fs_next_frame_id :: u32
  fs_pc :: sender_pc
  fs_waiting :: "fec_frame list"

definition spawn_with_wire :: "u32 \<Rightarrow> u32 \<Rightarrow> bool \<Rightarrow> wire_version \<Rightarrow> epoch \<Rightarrow> fec_sender" where
  "spawn_with_wire own_generation generation idr wire_version ep =
     \<lparr>fs_active = False, fs_live = True, fs_queue = [], fs_notify = False, fs_acks = [], fs_handle = True,
      fs_needs_idr = idr, fs_wire_version = wire_version, fs_epoch = ep, fs_exit = None, fs_generation = generation,
      fs_own_generation = own_generation, fs_encoder = encoder_new default_streaming, fs_next_seq = 0,
      fs_next_frame_id = 0, fs_pc = AtSelect, fs_waiting = []\<rparr>"

section \<open>The handle\<close>

definition fs_is_active :: "fec_sender \<Rightarrow> bool" where
  "fs_is_active st \<longleftrightarrow> fs_active st \<and> fs_live st"

definition fs_is_live :: "fec_sender \<Rightarrow> bool" where
  "fs_is_live st \<longleftrightarrow> fs_live st"

definition take_terminal_exit :: "fec_sender \<Rightarrow> fec_sender \<times> fec_sender_exit option" where
  "take_terminal_exit st = (if fs_live st then (st, None) else (st\<lparr>fs_exit := None\<rparr>, fs_exit st))"

text \<open>\<open>enqueue\<close> up to the mutex: the caller gives up with \<open>false\<close> or waits for the lock with its frame.\<close>

definition enqueue_admit :: "bytes \<Rightarrow> bool \<Rightarrow> u32 \<Rightarrow> nat \<Rightarrow> fec_sender \<Rightarrow> fec_sender \<times> fec_frame option" where
  "enqueue_admit data is_key timestamp_us now st =
     (if \<not> fs_is_active st then (st, None)
      else if \<not> is_key \<and> fs_needs_idr st then (st, None)
      else if fs_wire_version st = WireV2 \<and> length data > ENCODED_FRAME_MAX then (st\<lparr>fs_needs_idr := True\<rparr>, None)
      else (st, Some \<lparr>ff_data = data, ff_is_key = is_key, ff_timestamp_us = timestamp_us, ff_enqueued_at = now\<rparr>))"

definition is_expired :: "nat \<Rightarrow> fec_frame \<Rightarrow> bool" where
  "is_expired now f \<longleftrightarrow> now - ff_enqueued_at f \<ge> QUEUE_RESIDENCE_MAX"

text \<open>\<open>enqueue\<close> under the lock; the frame carries the clock reading.\<close>

definition enqueue_locked :: "fec_frame \<Rightarrow> fec_sender \<Rightarrow> fec_sender \<times> bool" where
  "enqueue_locked frame st =
     (if \<not> fs_is_active st then (st, False)
      else let now = ff_enqueued_at frame;
               expired_frame = list_ex (is_expired now) (fs_queue st);
               guard = filter (\<lambda>queued. \<not> is_expired now queued) (fs_queue st);
               st = st\<lparr>fs_queue := guard, fs_needs_idr := fs_needs_idr st \<or> expired_frame\<rparr>
           in if ff_is_key frame then (st\<lparr>fs_queue := [frame], fs_notify := True\<rparr>, True)
              else if length guard \<ge> QUEUE_CAPACITY then (st\<lparr>fs_needs_idr := True\<rparr>, False)
              else (st\<lparr>fs_queue := frame # guard, fs_notify := True\<rparr>, True))"

text \<open>The whole call when nothing happens while it waits.\<close>

definition enqueue :: "bytes \<Rightarrow> bool \<Rightarrow> u32 \<Rightarrow> nat \<Rightarrow> fec_sender \<Rightarrow> fec_sender \<times> bool" where
  "enqueue data is_key timestamp_us now st =
     (case enqueue_admit data is_key timestamp_us now st of
        (st, None) \<Rightarrow> (st, False)
      | (st, Some frame) \<Rightarrow> enqueue_locked frame st)"

fun accepted_control :: "wire_version \<Rightarrow> epoch \<Rightarrow> parsed_control_msg \<Rightarrow> ack_msg option" where
  "accepted_control WireV1 ep (CtlV1 msg) = Some msg"
| "accepted_control WireV2 ep (CtlV2 (V2Subscribe e)) = (if e = ep then Some Subscribe else None)"
| "accepted_control WireV2 ep (CtlV2 (V2Ack e highest_seq)) = (if e = ep then Some (Ack highest_seq) else None)"
| "accepted_control WireV2 ep (CtlV2 (V2NeedsIdr e _)) = (if e = ep then Some NeedsIdr else None)"
| "accepted_control _ _ _ = None"

fun ack_cmd_of :: "ack_msg \<Rightarrow> ack_cmd" where
  "ack_cmd_of Subscribe = CmdSubscribe"
| "ack_cmd_of NeedsIdr = CmdNeedsIdr"
| "ack_cmd_of (Ack v) = CmdAck v"

text \<open>\<open>try_send\<close> on the channel of capacity 16 drops the command when it is full or the task is gone.\<close>

definition forward_control :: "parsed_control_msg \<Rightarrow> fec_sender \<Rightarrow> fec_sender" where
  "forward_control msg st =
     (case accepted_control (fs_wire_version st) (fs_epoch st) msg of
        None \<Rightarrow> st
      | Some m \<Rightarrow> if length (fs_acks st) < 16 \<and> fs_pc st \<noteq> Exited then st\<lparr>fs_acks := fs_acks st @ [ack_cmd_of m]\<rparr> else st)"

definition v2_epoch :: "fec_sender \<Rightarrow> epoch option" where
  "v2_epoch st = (if fs_wire_version st = WireV2 then Some (fs_epoch st) else None)"

section \<open>The sender task\<close>

definition encode_symbol :: "wire_version \<Rightarrow> epoch \<Rightarrow> symbol \<Rightarrow> fec_wire_error + bytes" where
  "encode_symbol wire_version ep y =
     (case wire_version of
        WireV1 \<Rightarrow> Inr (encode_symbol_msg y)
      | WireV2 \<Rightarrow> encode_symbol_msg_v2 (case y of
            Source seq payload \<Rightarrow> V2Source ep seq payload
          | Repair repair_seq window_base window_end payload \<Rightarrow> V2Repair ep repair_seq window_base window_end payload))"

text \<open>\<open>break 'sender\<close> and the two stores after the loop; the slot, \<open>live\<close> and the queue follow in steps of their own.\<close>

definition exit_with :: "fec_sender_exit \<Rightarrow> fec_sender \<Rightarrow> fec_sender" where
  "exit_with reason st =
     st\<lparr>fs_active := False, fs_needs_idr := fs_needs_idr st \<or> reason \<noteq> Superseded, fs_pc := AtStoreExit reason\<rparr>"

text \<open>Taking a frame at clock reading \<open>now\<close>; \<open>None\<close> is a panic.\<close>

definition pop_frame :: "nat \<Rightarrow> fec_sender \<Rightarrow> fec_sender option" where
  "pop_frame now st =
     (if fs_queue st = [] then Some (st\<lparr>fs_pc := AtSelect\<rparr>)
      else let frame = last (fs_queue st); st = st\<lparr>fs_queue := butlast (fs_queue st)\<rparr>
      in if is_expired now frame then Some (st\<lparr>fs_needs_idr := True\<rparr>)
      else let frame_id = fs_next_frame_id st; st = st\<lparr>fs_next_frame_id := frame_id + 1\<rparr>
      in case fs_wire_version st of
           WireV1 \<Rightarrow> Some (st\<lparr>fs_pc := AtChunk frame (chunk_frame frame_id (ff_is_key frame) (ff_timestamp_us frame) (ff_data frame))\<rparr>)
         | WireV2 \<Rightarrow>
             Option.bind (chunk_frame_v2 frame_id (ff_is_key frame) (ff_timestamp_us frame) (ff_data frame)) (\<lambda>r.
               case r of
                 Inr cs \<Rightarrow> Some (st\<lparr>fs_pc := AtChunk frame cs\<rparr>)
               | Inl error \<Rightarrow> Some (st\<lparr>fs_needs_idr := True\<rparr>)))"

text \<open>One iteration of the loop over the chunks: the new state and the message sent.\<close>

definition send_chunk :: "fec_frame \<Rightarrow> bytes \<Rightarrow> bytes list \<Rightarrow> nat \<Rightarrow> bool \<Rightarrow> fec_sender \<Rightarrow> (fec_sender \<times> bytes list) option" where
  "send_chunk frame chunk rest now ok st =
     (if is_expired now frame then Some (st\<lparr>fs_needs_idr := True, fs_pc := AtChunk frame rest\<rparr>, [])
      else if fs_generation st \<noteq> fs_own_generation st then Some (exit_with Superseded st, [])
      else let seq = fs_next_seq st; st = st\<lparr>fs_next_seq := seq + 1\<rparr>
      in Option.bind (enc_push_source (fs_encoder st) seq chunk) (\<lambda>(e, out).
         let st = st\<lparr>fs_encoder := e\<rparr>
         in case encode_symbol (fs_wire_version st) (fs_epoch st) (eo_source out) of
              Inl error \<Rightarrow> Some (exit_with EncodeFailed st, [])
            | Inr src_wire \<Rightarrow>
                if \<not> ok then Some (exit_with SinkClosed st, [])
                else Some (st\<lparr>fs_pc := AtRepair frame rest (eo_repairs out)\<rparr>, [src_wire])))"

definition send_repair :: "fec_frame \<Rightarrow> bytes list \<Rightarrow> symbol \<Rightarrow> symbol list \<Rightarrow> nat \<Rightarrow> bool \<Rightarrow> fec_sender \<Rightarrow> fec_sender \<times> bytes list" where
  "send_repair frame rest repair repairs now ok st =
     (if is_expired now frame then (st\<lparr>fs_needs_idr := True, fs_pc := AtChunk frame rest\<rparr>, [])
      else if fs_generation st \<noteq> fs_own_generation st then (exit_with Superseded st, [])
      else case encode_symbol (fs_wire_version st) (fs_epoch st) repair of
             Inl error \<Rightarrow> (exit_with EncodeFailed st, [])
           | Inr repair_wire \<Rightarrow>
               if \<not> ok then (exit_with ChannelClosed st, [])
               else (st\<lparr>fs_pc := AtRepair frame rest repairs\<rparr>, [repair_wire]))"

text \<open>The \<open>recv\<close> branch of \<open>select!\<close>; it is not ready while the channel is open and empty.\<close>

definition recv_cmd :: "fec_sender \<Rightarrow> fec_sender" where
  "recv_cmd st =
     (case fs_acks st of
        CmdSubscribe # cmds \<Rightarrow> st\<lparr>fs_acks := cmds, fs_active := True\<rparr>
      | CmdAck v # cmds \<Rightarrow> st\<lparr>fs_acks := cmds, fs_encoder := acknowledge (fs_encoder st) v\<rparr>
      | CmdNeedsIdr # cmds \<Rightarrow> st\<lparr>fs_acks := cmds, fs_needs_idr := True\<rparr>
      | [] \<Rightarrow> if fs_handle st then st
              else exit_with (if fs_generation st \<noteq> fs_own_generation st then Superseded else AckChannelClosed) st)"

text \<open>
  The next step of the task: \<open>now\<close> is its clock reading, \<open>ok\<close> the result of its send, and \<open>recv\<close> which ready branch
  \<open>select!\<close> takes.
\<close>

definition task_step :: "nat \<Rightarrow> bool \<Rightarrow> bool \<Rightarrow> fec_sender \<Rightarrow> (fec_sender \<times> bytes list) option" where
  "task_step now ok recv st =
     (case fs_pc st of
        AtSelect \<Rightarrow> Some (if recv then recv_cmd st
                          else if fs_notify st then st\<lparr>fs_notify := False, fs_pc := AtPop\<rparr> else st, [])
      | AtPop \<Rightarrow> map_option (\<lambda>st. (st, [])) (pop_frame now st)
      | AtChunk frame [] \<Rightarrow> Some (st\<lparr>fs_pc := AtPop\<rparr>, [])
      | AtChunk frame (chunk # rest) \<Rightarrow> send_chunk frame chunk rest now ok st
      | AtRepair frame rest [] \<Rightarrow> Some (st\<lparr>fs_pc := AtChunk frame rest\<rparr>, [])
      | AtRepair frame rest (repair # repairs) \<Rightarrow> Some (send_repair frame rest repair repairs now ok st)
      | AtStoreExit reason \<Rightarrow> Some (st\<lparr>fs_exit := Some reason, fs_pc := AtClearLive\<rparr>, [])
      | AtClearLive \<Rightarrow> Some (st\<lparr>fs_live := False, fs_pc := AtFlush\<rparr>, [])
      | AtFlush \<Rightarrow> Some (st\<lparr>fs_queue := [], fs_pc := Exited\<rparr>, [])
      | Exited \<Rightarrow> Some (st, []))"

section \<open>Interleavings\<close>

text \<open>
  What can happen next: a call of the handle or its next half, an access of another owner of the shared flags
  (\<open>needs_idr\<close> is set by RTCP and cleared by the video track, the generation by a new setup), the handle going away, or
  a step of the task. Calls need the handle.
\<close>

datatype sender_op =
  Admit bytes bool u32 nat
| Locked
| Control parsed_control_msg
| TakeExit
| SetNeedsIdr bool
| SetGeneration u32
| DropHandle
| Task nat bool bool

fun sender_step :: "sender_op \<Rightarrow> fec_sender \<Rightarrow> (fec_sender \<times> bytes list) option" where
  "sender_step (Admit data is_key ts now) st =
     Some (if fs_handle st
           then let (st, f) = enqueue_admit data is_key ts now st
                in st\<lparr>fs_waiting := fs_waiting st @ (case f of None \<Rightarrow> [] | Some f \<Rightarrow> [f])\<rparr>
           else st, [])"
| "sender_step Locked st =
     Some (case fs_waiting st of [] \<Rightarrow> st | f # fs \<Rightarrow> (fst (enqueue_locked f st))\<lparr>fs_waiting := fs\<rparr>, [])"
| "sender_step (Control msg) st = Some (if fs_handle st then forward_control msg st else st, [])"
| "sender_step TakeExit st = Some (if fs_handle st then fst (take_terminal_exit st) else st, [])"
| "sender_step (SetNeedsIdr b) st = Some (st\<lparr>fs_needs_idr := b\<rparr>, [])"
| "sender_step (SetGeneration g) st = Some (st\<lparr>fs_generation := g\<rparr>, [])"
| "sender_step DropHandle st = Some (st\<lparr>fs_handle := False\<rparr>, [])"
| "sender_step (Task now ok recv) st = task_step now ok recv st"

fun sender_run :: "sender_op list \<Rightarrow> fec_sender \<Rightarrow> (fec_sender \<times> bytes list) option" where
  "sender_run [] st = Some (st, [])"
| "sender_run (x # xs) st =
     Option.bind (sender_step x st) (\<lambda>(st, out). map_option (\<lambda>(st, outs). (st, out @ outs)) (sender_run xs st))"

text \<open>The chunks that become source symbols.\<close>

fun pushed_in :: "sender_op \<Rightarrow> fec_sender \<Rightarrow> bytes list" where
  "pushed_in (Task now ok recv) st =
     (case fs_pc st of
        AtChunk frame (chunk # rest) \<Rightarrow>
          if is_expired now frame \<or> fs_generation st \<noteq> fs_own_generation st then [] else [chunk]
      | _ \<Rightarrow> [])"
| "pushed_in _ st = []"

fun pushed :: "sender_op list \<Rightarrow> fec_sender \<Rightarrow> bytes list" where
  "pushed [] st = []"
| "pushed (x # xs) st = pushed_in x st @ (case sender_step x st of None \<Rightarrow> [] | Some (st, _) \<Rightarrow> pushed xs st)"

section \<open>Sizes\<close>

fun payload_limit :: "wire_version \<Rightarrow> nat" where
  "payload_limit WireV1 = 1195"
| "payload_limit WireV2 = 1185"

fun encodable :: "wire_version \<Rightarrow> symbol \<Rightarrow> bool" where
  "encodable v (Source seq p) = (length p \<le> payload_limit v)"
| "encodable v (Repair rs wb we p) = (length p \<le> payload_limit v + 2)"

fun is_repair :: "symbol \<Rightarrow> bool" where
  "is_repair (Repair rs wb we p) = True"
| "is_repair (Source seq p) = False"

lemma payload_limit_le: "payload_limit v \<le> 65520"
  by (cases v) simp_all

lemma encode_symbol_total: "encodable v y \<Longrightarrow> \<exists>m. encode_symbol v ep y = Inr m"
  by (cases v; cases y) (simp_all add: encode_symbol_def encode_v2_simps)

lemma chunk_frame_lengths:
  assumes "c \<in> set (chunk_frame fid k ts data)"
  shows "length c \<le> 1195"
proof (cases "data = []")
  case True
  then show ?thesis using assms by (simp add: chunk_frame_def encode_chunk_def)
next
  case False
  obtain i f where "c = encode_chunk fid (word_of_nat i) (word_of_nat (div_ceil (length data) 1182)) k ts f" "f \<in> set (chunks 1182 data)"
    using assms False by (auto simp: chunk_frame_def CHUNK_FRAGMENT_MAX_def Let_def in_set_enumerate_eq)
  moreover have "length f \<le> 1182" if "f \<in> set (chunks 1182 data)" for f
    using that by (auto simp: in_set_conv_nth chunks_nth)
  ultimately show ?thesis by (simp add: encode_chunk_def)
qed

lemma chunk_frame_v2_lengths:
  assumes "length data \<le> ENCODED_FRAME_MAX"
  shows "\<exists>bufs. chunk_frame_v2 fid k ts data = Some (Inr bufs) \<and> (\<forall>c \<in> set bufs. length c \<le> 1185)"
proof -
  have len: "length data \<le> 4194304" using assms by (simp add: ENCODED_FRAME_MAX_def)
  obtain bufs where b: "chunk_frame_v2 fid k ts data = Some (Inr bufs)" "length bufs = length (fragments_v2 data)"
    "\<And>i. i < length bufs \<Longrightarrow> encode_chunk_v2 (header_v2 fid k ts data i) (fragments_v2 data ! i) = Inr (bufs ! i)"
    using chunk_frame_v2_eq [OF len, of fid k ts] by auto
  have "length (bufs ! i) \<le> 1185" if "i < length bufs" for i
    using b(3) [OF that] fragments_v2_facts(3) [of i data] that b(2)
    by (clarsimp simp: encode_chunk_v2_def sbind_eq_Inr) (drule sym, simp)
  then show ?thesis using b(1) by (auto simp: in_set_conv_nth)
qed

text \<open>A repair is as long as the longest length-prefixed payload in the window.\<close>

lemma length_combine_window: "length (combine_window rs ws) = fold max (map (\<lambda>w. length (prefixed_payload w)) ws) 0"
  by (simp add: combine_window_def Let_def fold_xor_scaled)

lemma fold_max_le: "(\<And>x. x \<in> set xs \<Longrightarrow> x \<le> b) \<Longrightarrow> a \<le> b \<Longrightarrow> fold max xs a \<le> (b :: nat)"
  by (induction xs arbitrary: a) auto

lemma push_next:
  assumes inv: "session_inv src s e" and src: "\<And>q. length (src q) \<le> payload_limit v"
  obtains e' out where "enc_push_source e s (src s) = Some (e', out)" "session_inv src (s + 1) e'"
    "eo_source out = Source s (src s)" "\<forall>r \<in> set (eo_repairs out). symbol_valid src r \<and> encodable v r \<and> is_repair r"
proof -
  have len: "length (src s) \<le> 65520" using src [of s] payload_limit_le [of v] by linarith
  obtain e' out where p: "enc_push_source e s (src s) = Some (e', out)" "session_inv src (s + 1) e'"
    "eo_source out = Source s (src s)" "\<forall>r \<in> set (eo_repairs out). symbol_valid src r"
    by (rule session_inv_push [OF inv len])
  have "length (prefixed (src q)) \<le> payload_limit v + 2" for q using src [of q] by (simp add: prefixed_def)
  then have w: "fold max (map (\<lambda>w. length (prefixed_payload w)) (window e')) 0 \<le> payload_limit v + 2"
    using p(2) by (intro fold_max_le) (auto simp: session_inv_def window_of_def)
  obtain f n where "eo_repairs out = map (\<lambda>i. repair_of (f i) (window e')) [0..<n]"
    using enc_push_source_spec [of e "src s" s] inv len p(1) by (auto simp: session_inv_def)
  then have "\<forall>r \<in> set (eo_repairs out). encodable v r \<and> is_repair r" using w by (auto simp: repair_of_def length_combine_window)
  then show ?thesis using that p by blast
qed

section \<open>The invariant of every interleaving\<close>

fun pc_chunks :: "sender_pc \<Rightarrow> bytes list" where
  "pc_chunks (AtChunk f cs) = cs"
| "pc_chunks (AtRepair f cs rs) = cs"
| "pc_chunks _ = []"

fun pc_repairs :: "sender_pc \<Rightarrow> symbol list" where
  "pc_repairs (AtRepair f cs rs) = rs"
| "pc_repairs _ = []"

fun closing :: "sender_pc \<Rightarrow> bool" where
  "closing (AtStoreExit r) = True"
| "closing AtClearLive = True"
| "closing AtFlush = True"
| "closing Exited = True"
| "closing _ = False"

text \<open>The part that does not depend on the stream.\<close>

definition frames_ok :: "fec_sender \<Rightarrow> bool" where
  "frames_ok st \<longleftrightarrow> length (fs_queue st) \<le> QUEUE_CAPACITY \<and>
     (fs_wire_version st = WireV2 \<longrightarrow> (\<forall>f \<in> set (fs_queue st) \<union> set (fs_waiting st). length (ff_data f) \<le> ENCODED_FRAME_MAX)) \<and>
     (\<forall>c \<in> set (pc_chunks (fs_pc st)). length c \<le> payload_limit (fs_wire_version st)) \<and>
     (closing (fs_pc st) \<longrightarrow> \<not> fs_active st) \<and> (fs_pc st = Exited \<longrightarrow> fs_queue st = [])"

text \<open>The part that does.\<close>

definition stream_ok :: "(u32 \<Rightarrow> bytes) \<Rightarrow> fec_sender \<Rightarrow> bool" where
  "stream_ok src st \<longleftrightarrow> session_inv src (fs_next_seq st) (fs_encoder st) \<and>
     (\<forall>r \<in> set (pc_repairs (fs_pc st)). symbol_valid src r \<and> encodable (fs_wire_version st) r \<and> is_repair r) \<and>
     fs_pc st \<noteq> AtStoreExit EncodeFailed \<and> fs_exit st \<noteq> Some EncodeFailed"

lemma enqueue_locked_ok:
  assumes "frames_ok st" "fs_waiting st = f # fs" "stream_ok src st"
  shows "frames_ok ((fst (enqueue_locked f st))\<lparr>fs_waiting := fs\<rparr>)" "stream_ok src ((fst (enqueue_locked f st))\<lparr>fs_waiting := fs\<rparr>)"
    "fs_wire_version (fst (enqueue_locked f st)) = fs_wire_version st" "fs_epoch (fst (enqueue_locked f st)) = fs_epoch st"
    "fs_next_seq (fst (enqueue_locked f st)) = fs_next_seq st"
proof -
  have len: "length (filter P (fs_queue st)) \<le> 4" for P
    using assms(1) le_trans [OF length_filter_le] by (auto simp: frames_ok_def QUEUE_CAPACITY_def)
  show "frames_ok ((fst (enqueue_locked f st))\<lparr>fs_waiting := fs\<rparr>)"
    using assms(1,2) len by (auto simp: frames_ok_def enqueue_locked_def fs_is_active_def Let_def QUEUE_CAPACITY_def)
  show "stream_ok src ((fst (enqueue_locked f st))\<lparr>fs_waiting := fs\<rparr>)"
    using assms(3) by (simp add: stream_ok_def enqueue_locked_def Let_def)
qed (simp_all add: enqueue_locked_def Let_def)

lemma pop_frame_ok:
  assumes "frames_ok st" "stream_ok src st" "fs_pc st = AtPop"
  shows "\<exists>st'. pop_frame now st = Some st' \<and> frames_ok st' \<and> stream_ok src st' \<and> fs_wire_version st' = fs_wire_version st \<and>
    fs_epoch st' = fs_epoch st \<and> fs_next_seq st' = fs_next_seq st"
proof (cases "fs_queue st = [] \<or> is_expired now (last (fs_queue st))")
  case True
  then show ?thesis
    using assms by (auto simp: pop_frame_def frames_ok_def stream_ok_def Let_def dest: in_set_butlastD)
next
  case False
  let ?f = "last (fs_queue st)"
  have f: "?f \<in> set (fs_queue st)" using False by simp
  let ?st = "st\<lparr>fs_queue := butlast (fs_queue st), fs_next_frame_id := fs_next_frame_id st + 1\<rparr>"
  have base: "frames_ok (?st\<lparr>fs_pc := AtChunk ?f cs\<rparr>) \<and> stream_ok src (?st\<lparr>fs_pc := AtChunk ?f cs\<rparr>)"
    if "\<And>c. c \<in> set cs \<Longrightarrow> length c \<le> payload_limit (fs_wire_version st)" for cs
    using assms that by (auto simp: frames_ok_def stream_ok_def dest: in_set_butlastD)
  show ?thesis
  proof (cases "fs_wire_version st")
    case WireV1
    let ?cs = "chunk_frame (fs_next_frame_id st) (ff_is_key ?f) (ff_timestamp_us ?f) (ff_data ?f)"
    have "pop_frame now st = Some (?st\<lparr>fs_pc := AtChunk ?f ?cs\<rparr>)" using False WireV1 by (simp add: pop_frame_def Let_def)
    then show ?thesis using base [of ?cs] chunk_frame_lengths WireV1 by force
  next
    case WireV2
    then have "length (ff_data ?f) \<le> ENCODED_FRAME_MAX" using assms(1) f by (simp add: frames_ok_def)
    then obtain cs where cs: "chunk_frame_v2 (fs_next_frame_id st) (ff_is_key ?f) (ff_timestamp_us ?f) (ff_data ?f) = Some (Inr cs)"
      "\<forall>c \<in> set cs. length c \<le> 1185" using chunk_frame_v2_lengths by blast
    then have "pop_frame now st = Some (?st\<lparr>fs_pc := AtChunk ?f cs\<rparr>)" using False WireV2 by (simp add: pop_frame_def Let_def)
    then show ?thesis using base [of cs] cs(2) WireV2 by force
  qed
qed

section \<open>Every step keeps the invariant\<close>

fun source_seqs :: "symbol list \<Rightarrow> u32 list" where
  "source_seqs [] = []"
| "source_seqs (Source seq p # ys) = seq # source_seqs ys"
| "source_seqs (Repair rs wb we p # ys) = source_seqs ys"

lemma source_seqs_append: "source_seqs (xs @ ys) = source_seqs xs @ source_seqs ys"
  by (induction xs rule: source_seqs.induct) auto

definition carries :: "(u32 \<Rightarrow> bytes) \<Rightarrow> wire_version \<Rightarrow> epoch \<Rightarrow> symbol list \<Rightarrow> bytes list \<Rightarrow> bool" where
  "carries src v ep ys out \<longleftrightarrow> list_all2 (\<lambda>y m. encode_symbol v ep y = Inr m) ys out \<and> list_all (symbol_valid src) ys"

lemma carries_simps [simp]: "carries src v ep [] []"
  "carries src v ep [y] [m] \<longleftrightarrow> encode_symbol v ep y = Inr m \<and> symbol_valid src y"
  by (simp_all add: carries_def)

lemma carries_append: "carries src v ep xs ms \<Longrightarrow> carries src v ep ys ns \<Longrightarrow> carries src v ep (xs @ ys) (ms @ ns)"
  by (simp add: carries_def list_all2_appendI)

text \<open>What a step does: it keeps the invariants and the session constants, emits valid symbols, and numbers its source.\<close>

definition good_step :: "(u32 \<Rightarrow> bytes) \<Rightarrow> fec_sender \<Rightarrow> nat \<Rightarrow> (fec_sender \<times> bytes list) option \<Rightarrow> bool" where
  "good_step src st n r \<longleftrightarrow> (\<exists>st' out ys. r = Some (st', out) \<and> frames_ok st' \<and> stream_ok src st' \<and>
     fs_wire_version st' = fs_wire_version st \<and> fs_epoch st' = fs_epoch st \<and> fs_next_seq st' = fs_next_seq st + word_of_nat n \<and>
     carries src (fs_wire_version st) (fs_epoch st) ys out \<and>
     (source_seqs ys = replicate n (fs_next_seq st) \<or> source_seqs ys = [] \<and> closing (fs_pc st')))"

lemma good_silent:
  assumes "frames_ok st'" "stream_ok src st'" "fs_wire_version st' = fs_wire_version st" "fs_epoch st' = fs_epoch st"
    "fs_next_seq st' = fs_next_seq st"
  shows "good_step src st 0 (Some (st', []))"
  unfolding good_step_def using assms
  by (intro exI [of _ st'] exI [of _ "[] :: bytes list"] exI [of _ "[] :: symbol list"]) simp

lemma exit_with_ok:
  assumes "frames_ok st" "stream_ok src st" "reason \<noteq> EncodeFailed"
  shows "frames_ok (exit_with reason st)" "stream_ok src (exit_with reason st)" "closing (fs_pc (exit_with reason st))"
    "fs_wire_version (exit_with reason st) = fs_wire_version st" "fs_epoch (exit_with reason st) = fs_epoch st"
    "fs_next_seq (exit_with reason st) = fs_next_seq st"
  using assms by (auto simp: frames_ok_def stream_ok_def exit_with_def)

lemma send_chunk_ok:
  assumes ok: "frames_ok st" "stream_ok src st" and pc: "fs_pc st = AtChunk f (c # cs)"
    and src: "\<And>q. length (src q) \<le> payload_limit (fs_wire_version st)"
    and c: "\<not> is_expired now f \<Longrightarrow> fs_generation st = fs_own_generation st \<Longrightarrow> src (fs_next_seq st) = c"
  shows "good_step src st (if is_expired now f \<or> fs_generation st \<noteq> fs_own_generation st then 0 else 1) (send_chunk f c cs now sent st)"
proof (cases "is_expired now f \<or> fs_generation st \<noteq> fs_own_generation st")
  case True
  show ?thesis
  proof (cases "is_expired now f")
    case True
    then show ?thesis using ok pc by (auto simp: send_chunk_def frames_ok_def stream_ok_def intro!: good_silent)
  next
    case False
    then show ?thesis using True exit_with_ok [OF ok, of Superseded] by (auto simp: send_chunk_def intro!: good_silent)
  qed
next
  case False
  let ?s = "fs_next_seq st" and ?v = "fs_wire_version st" and ?ep = "fs_epoch st"
  have c: "src ?s = c" using False c by blast
  have inv: "session_inv src ?s (fs_encoder st)" using ok(2) by (simp add: stream_ok_def)
  obtain e' out where p: "enc_push_source (fs_encoder st) ?s (src ?s) = Some (e', out)" "session_inv src (?s + 1) e'"
    "eo_source out = Source ?s (src ?s)" "\<forall>r \<in> set (eo_repairs out). symbol_valid src r \<and> encodable ?v r \<and> is_repair r"
    by (rule push_next [OF inv src])
  let ?st = "st\<lparr>fs_next_seq := ?s + 1, fs_encoder := e'\<rparr>"
  have ok': "frames_ok ?st" "stream_ok src ?st" using ok pc p(2) by (simp_all add: frames_ok_def stream_ok_def)
  obtain m where m: "encode_symbol ?v ?ep (Source ?s (src ?s)) = Inr m"
    using encode_symbol_total [of ?v "Source ?s (src ?s)" ?ep] src [of ?s] by auto
  have valid: "symbol_valid src (Source ?s (src ?s))" using src [of ?s] payload_limit_le [of ?v] by simp
  show ?thesis
  proof (cases sent)
    case True
    let ?r = "?st\<lparr>fs_pc := AtRepair f cs (eo_repairs out)\<rparr>"
    have "send_chunk f c cs now sent st = Some (?r, [m])" using True False p m c by (simp add: send_chunk_def Let_def)
    moreover have "frames_ok ?r" "stream_ok src ?r" using ok' pc p(4) by (auto simp: frames_ok_def stream_ok_def)
    ultimately show ?thesis unfolding good_step_def using False m valid
      by (intro exI [of _ ?r] exI [of _ "[m]"] exI [of _ "[Source ?s (src ?s)]"]) simp
  next
    case not_sent: False
    let ?r = "exit_with SinkClosed ?st"
    have "send_chunk f c cs now sent st = Some (?r, [])" using not_sent False p m c by (simp add: send_chunk_def Let_def)
    then show ?thesis unfolding good_step_def using False exit_with_ok [OF ok', of SinkClosed]
      by (intro exI [of _ ?r] exI [of _ "[] :: bytes list"] exI [of _ "[] :: symbol list"]) simp
  qed
qed

lemma send_repair_ok:
  assumes ok: "frames_ok st" "stream_ok src st" and pc: "fs_pc st = AtRepair f cs (r # rs)"
  shows "good_step src st 0 (Some (send_repair f cs r rs now sent st))"
proof -
  let ?v = "fs_wire_version st" and ?ep = "fs_epoch st"
  have r: "symbol_valid src r" "encodable ?v r" "source_seqs [r] = []" using ok(2) pc by (auto simp: stream_ok_def elim: is_repair.elims)
  then obtain m where m: "encode_symbol ?v ?ep r = Inr m" using encode_symbol_total by blast
  consider "is_expired now f" | "\<not> is_expired now f" "fs_generation st \<noteq> fs_own_generation st"
    | "\<not> is_expired now f" "fs_generation st = fs_own_generation st" "\<not> sent"
    | "\<not> is_expired now f" "fs_generation st = fs_own_generation st" sent by blast
  then show ?thesis
  proof cases
    case 1
    then show ?thesis using ok pc by (auto simp: send_repair_def frames_ok_def stream_ok_def intro!: good_silent)
  next
    case 2
    then show ?thesis using exit_with_ok [OF ok, of Superseded] by (auto simp: send_repair_def intro!: good_silent)
  next
    case 3
    then show ?thesis using exit_with_ok [OF ok, of ChannelClosed] m by (auto simp: send_repair_def intro!: good_silent)
  next
    case 4
    let ?r = "st\<lparr>fs_pc := AtRepair f cs rs\<rparr>"
    have "send_repair f cs r rs now sent st = (?r, [m])" using 4 m by (simp add: send_repair_def)
    moreover have "frames_ok ?r" "stream_ok src ?r" using ok pc by (auto simp: frames_ok_def stream_ok_def)
    ultimately show ?thesis unfolding good_step_def using m r
      by (intro exI [of _ ?r] exI [of _ "[m]"] exI [of _ "[r]"]) simp
  qed
qed

lemma sender_step_ok:
  assumes ok: "frames_ok st" "stream_ok src st" and src: "\<And>q. length (src q) \<le> payload_limit (fs_wire_version st)"
    and agree: "pushed_in x st = [] \<or> pushed_in x st = [src (fs_next_seq st)]"
  shows "good_step src st (length (pushed_in x st)) (sender_step x st)"
proof (cases x)
  case (Admit data k ts now)
  have idr: "frames_ok (st\<lparr>fs_needs_idr := True\<rparr>)" "stream_ok src (st\<lparr>fs_needs_idr := True\<rparr>)"
    using ok by (simp_all add: frames_ok_def stream_ok_def)
  have wait: "frames_ok (st\<lparr>fs_waiting := fs_waiting st @ [f]\<rparr>)" "stream_ok src (st\<lparr>fs_waiting := fs_waiting st @ [f]\<rparr>)"
    if "fs_wire_version st = WireV2 \<Longrightarrow> length (ff_data f) \<le> ENCODED_FRAME_MAX" for f
    using ok that by (auto simp: frames_ok_def stream_ok_def)
  let ?f = "\<lparr>ff_data = data, ff_is_key = k, ff_timestamp_us = ts, ff_enqueued_at = now\<rparr>"
  have "enqueue_admit data k ts now st = (st, None) \<or> enqueue_admit data k ts now st = (st\<lparr>fs_needs_idr := True\<rparr>, None) \<or>
      enqueue_admit data k ts now st = (st, Some ?f) \<and> (fs_wire_version st = WireV2 \<longrightarrow> length data \<le> ENCODED_FRAME_MAX)"
    by (simp add: enqueue_admit_def not_less)
  then consider "\<not> fs_handle st \<or> enqueue_admit data k ts now st = (st, None)"
    | "fs_handle st" "enqueue_admit data k ts now st = (st\<lparr>fs_needs_idr := True\<rparr>, None)"
    | "fs_handle st" "enqueue_admit data k ts now st = (st, Some ?f)" "fs_wire_version st = WireV2 \<longrightarrow> length data \<le> ENCODED_FRAME_MAX"
    by blast
  then show ?thesis
  proof cases
    case 1
    then show ?thesis using ok by (auto simp: Admit intro!: good_silent)
  next
    case 2
    then show ?thesis using idr by (auto simp: Admit intro!: good_silent)
  next
    case 3
    then show ?thesis using wait [of ?f] by (auto simp: Admit intro!: good_silent)
  qed
next
  case Locked
  show ?thesis
  proof (cases "fs_waiting st")
    case Nil
    then show ?thesis using ok by (auto simp: Locked intro!: good_silent)
  next
    case (Cons f fs)
    then show ?thesis using enqueue_locked_ok [OF ok(1) Cons ok(2)] by (auto simp: Locked intro!: good_silent)
  qed
next
  case (Control msg)
  then show ?thesis using ok
    by (auto simp: forward_control_def frames_ok_def stream_ok_def split: option.split intro!: good_silent)
next
  case TakeExit
  then show ?thesis using ok by (auto simp: take_terminal_exit_def frames_ok_def stream_ok_def intro!: good_silent)
next
  case (Task now sent recv)
  note [simp] = Task task_step_def
  show ?thesis
  proof (cases "fs_pc st")
    case AtSelect
    have cmd: "frames_ok (recv_cmd st) \<and> stream_ok src (recv_cmd st) \<and> fs_wire_version (recv_cmd st) = fs_wire_version st \<and>
        fs_epoch (recv_cmd st) = fs_epoch st \<and> fs_next_seq (recv_cmd st) = fs_next_seq st"
      using ok exit_with_ok [OF ok, of Superseded] exit_with_ok [OF ok, of AckChannelClosed] AtSelect
      by (auto simp: recv_cmd_def frames_ok_def stream_ok_def session_inv_ack split: list.split ack_cmd.split)
    show ?thesis
    proof (cases recv)
      case True
      then show ?thesis using cmd AtSelect by (auto intro!: good_silent)
    next
      case False
      then show ?thesis using ok AtSelect by (auto simp: frames_ok_def stream_ok_def intro!: good_silent)
    qed
  next
    case AtPop
    then show ?thesis using pop_frame_ok [OF ok AtPop, of now] by (auto intro!: good_silent)
  next
    case (AtChunk f cs)
    show ?thesis
    proof (cases cs)
      case Nil
      then show ?thesis using ok AtChunk by (auto simp: frames_ok_def stream_ok_def intro!: good_silent)
    next
      case (Cons c cs')
      have "src (fs_next_seq st) = c" if "\<not> is_expired now f" "fs_generation st = fs_own_generation st"
        using agree that AtChunk Cons by simp
      then show ?thesis using send_chunk_ok [OF ok _ src, of f c cs' now sent] AtChunk Cons by (auto split: if_splits)
    qed
  next
    case (AtRepair f cs rs)
    show ?thesis
    proof (cases rs)
      case Nil
      then show ?thesis using ok AtRepair by (auto simp: frames_ok_def stream_ok_def intro!: good_silent)
    next
      case (Cons r rs')
      then show ?thesis using send_repair_ok [OF ok, of f cs r rs' now sent] AtRepair by simp
    qed
  qed (use ok in \<open>auto simp: frames_ok_def stream_ok_def intro!: good_silent\<close>)
qed (use ok in \<open>auto simp: frames_ok_def stream_ok_def intro!: good_silent\<close>)

section \<open>Runs\<close>

lemma pushed_closing: "closing (fs_pc st) \<Longrightarrow> pushed_in x st = []"
  by (cases x; cases "fs_pc st") auto

lemma closing_stays:
  assumes "closing (fs_pc st)" "sender_step x st = Some (st', out)"
  shows "closing (fs_pc st')"
proof (cases x)
  case (Task now sent recv)
  then show ?thesis using assms by (cases "fs_pc st") (auto simp: task_step_def)
qed (use assms in \<open>auto simp: enqueue_admit_def enqueue_locked_def forward_control_def take_terminal_exit_def Let_def
  split: option.splits list.splits if_splits prod.splits\<close>)

lemma pushed_when_closing: "closing (fs_pc st) \<Longrightarrow> pushed xs st = []"
proof (induction xs arbitrary: st)
  case (Cons x xs)
  then show ?case using closing_stays [of st x] pushed_closing [of st x] by (auto split: option.split)
qed simp

lemma pushed_in_cases:
  assumes "frames_ok st"
  shows "pushed_in x st = [] \<or> (\<exists>c. pushed_in x st = [c] \<and> length c \<le> payload_limit (fs_wire_version st))"
proof (cases x)
  case (Task now sent recv)
  show ?thesis
  proof (cases "\<exists>f c cs. fs_pc st = AtChunk f (c # cs)")
    case True
    then show ?thesis using assms Task by (auto simp: frames_ok_def)
  qed (auto simp: Task split: sender_pc.split list.split)
qed auto

lemma upt_split: "[0..<a + b] = [0..<a] @ map (\<lambda>i. a + i) [0..<b]"
  by (induction b) auto

lemma length_pushed: "length (pushed xs st) \<le> length xs"
proof (induction xs arbitrary: st)
  case (Cons x xs)
  have "length (pushed_in x st) \<le> 1" by (cases x; cases "fs_pc st") (auto split: list.split)
  then show ?case using add_mono [OF _ Cons.IH] by (fastforce split: option.split)
qed simp

text \<open>The stream has the chunks that will be pushed, from the next sequence number on.\<close>

definition agrees :: "(u32 \<Rightarrow> bytes) \<Rightarrow> sender_op list \<Rightarrow> fec_sender \<Rightarrow> bool" where
  "agrees src xs st \<longleftrightarrow> (\<forall>i < length (pushed xs st). length (pushed xs st ! i) \<le> payload_limit (fs_wire_version st) \<longrightarrow>
     src (fs_next_seq st + word_of_nat i) = pushed xs st ! i)"

lemma sender_step_next:
  assumes "frames_ok st" "stream_ok src st" "\<And>q. length (src q) \<le> payload_limit (fs_wire_version st)" "agrees src (x # xs) st"
  obtains st1 out1 ys1 where "sender_step x st = Some (st1, out1)" "frames_ok st1" "stream_ok src st1"
    "fs_wire_version st1 = fs_wire_version st" "fs_epoch st1 = fs_epoch st"
    "fs_next_seq st1 = fs_next_seq st + word_of_nat (length (pushed_in x st))"
    "carries src (fs_wire_version st) (fs_epoch st) ys1 out1"
    "source_seqs ys1 = replicate (length (pushed_in x st)) (fs_next_seq st) \<or> source_seqs ys1 = [] \<and> closing (fs_pc st1)"
    "pushed_in x st = [] \<or> pushed_in x st = [src (fs_next_seq st)]" "agrees src xs st1"
proof -
  let ?n = "length (pushed_in x st)"
  have agree: "pushed_in x st = [] \<or> pushed_in x st = [src (fs_next_seq st)]"
    using pushed_in_cases [OF assms(1), of x] assms(4) by (auto simp: agrees_def nth_append dest: spec [of _ 0])
  obtain st1 out1 ys1 where s1: "sender_step x st = Some (st1, out1)" "frames_ok st1" "stream_ok src st1"
      "fs_wire_version st1 = fs_wire_version st" "fs_epoch st1 = fs_epoch st" "fs_next_seq st1 = fs_next_seq st + word_of_nat ?n"
      "carries src (fs_wire_version st) (fs_epoch st) ys1 out1"
      "source_seqs ys1 = replicate ?n (fs_next_seq st) \<or> source_seqs ys1 = [] \<and> closing (fs_pc st1)"
    using sender_step_ok [OF assms(1-3) agree] unfolding good_step_def by blast
  have "src (fs_next_seq st1 + word_of_nat i) = pushed xs st1 ! i"
    if "i < length (pushed xs st1)" "length (pushed xs st1 ! i) \<le> payload_limit (fs_wire_version st1)" for i
    using assms(4) that s1(4,6) by (auto simp: agrees_def s1(1) nth_append add.assoc dest: spec [of _ "?n + i"])
  then show ?thesis using that s1 agree by (simp add: agrees_def)
qed

text \<open>A stream for a run: fewer than \<open>2 ^ 32\<close> chunks have different sequence numbers.\<close>

lemma stream_exists:
  assumes "length xs < 2 ^ 32" "fs_next_seq st = 0" "fs_wire_version st = v"
  obtains src where "\<And>q. length (src q) \<le> payload_limit v" "agrees src xs st"
proof -
  let ?P = "pushed xs st"
  define src where "src = (\<lambda>q :: u32. if unat q < length ?P \<and> length (?P ! unat q) \<le> payload_limit v then ?P ! unat q else [])"
  have P: "length ?P < 2 ^ 32" using length_pushed [of xs st] assms(1) by linarith
  have "src (word_of_nat i) = ?P ! i" if "i < length ?P" "length (?P ! i) \<le> payload_limit v" for i
  proof -
    have "unat (word_of_nat i :: u32) = i" using that(1) P by (simp add: unat_of_nat)
    then show ?thesis using that by (simp add: src_def)
  qed
  then have "agrees src xs st" by (simp add: agrees_def assms(2,3))
  moreover have "length (src q) \<le> payload_limit v" for q by (simp add: src_def)
  ultimately show ?thesis using that by blast
qed

lemma sender_run_ok:
  assumes "frames_ok st" "stream_ok src st" "\<And>q. length (src q) \<le> payload_limit (fs_wire_version st)" "agrees src xs st"
  shows "\<exists>st' out ys. sender_run xs st = Some (st', out) \<and> frames_ok st' \<and> stream_ok src st' \<and>
    carries src (fs_wire_version st) (fs_epoch st) ys out \<and>
    prefix (source_seqs ys) (map (\<lambda>i. fs_next_seq st + word_of_nat i) [0..<length (pushed xs st)])"
  using assms
proof (induction xs arbitrary: st)
  case Nil
  then show ?case by (intro exI [of _ st] exI [of _ "[] :: bytes list"] exI [of _ "[] :: symbol list"]) simp
next
  case (Cons x xs)
  let ?n = "length (pushed_in x st)"
  obtain st1 out1 ys1 where s1: "sender_step x st = Some (st1, out1)" "frames_ok st1" "stream_ok src st1"
      "fs_wire_version st1 = fs_wire_version st" "fs_epoch st1 = fs_epoch st" "fs_next_seq st1 = fs_next_seq st + word_of_nat ?n"
      "carries src (fs_wire_version st) (fs_epoch st) ys1 out1"
      "source_seqs ys1 = replicate ?n (fs_next_seq st) \<or> source_seqs ys1 = [] \<and> closing (fs_pc st1)"
    and agree: "pushed_in x st = [] \<or> pushed_in x st = [src (fs_next_seq st)]" and later: "agrees src xs st1"
    by (rule sender_step_next [OF Cons.prems])
  have p: "pushed (x # xs) st = pushed_in x st @ pushed xs st1" using s1(1) by simp
  obtain st2 out2 ys2 where s2: "sender_run xs st1 = Some (st2, out2)" "frames_ok st2" "stream_ok src st2"
      "carries src (fs_wire_version st) (fs_epoch st) ys2 out2"
      "prefix (source_seqs ys2) (map (\<lambda>i. fs_next_seq st1 + word_of_nat i) [0..<length (pushed xs st1)])"
    using Cons.IH [OF s1(2,3) _ later] Cons.prems(3) s1(4,5) by metis
  let ?all = "map (\<lambda>i. fs_next_seq st + word_of_nat i) [0..<length (pushed (x # xs) st)]"
  have "?all = map (\<lambda>i. fs_next_seq st + word_of_nat i) [0..<?n] @ map (\<lambda>i. fs_next_seq st1 + word_of_nat i) [0..<length (pushed xs st1)]"
    by (simp only: p length_append upt_split map_append map_map o_def s1(6)) (simp add: add.assoc)
  moreover have "map (\<lambda>i. fs_next_seq st + word_of_nat i) [0..<?n] = replicate ?n (fs_next_seq st)" using agree by auto
  ultimately have all: "?all = replicate ?n (fs_next_seq st) @ map (\<lambda>i. fs_next_seq st1 + word_of_nat i) [0..<length (pushed xs st1)]"
    by simp
  have "prefix (source_seqs (ys1 @ ys2)) ?all"
    using s1(8)
  proof
    assume "source_seqs ys1 = replicate ?n (fs_next_seq st)"
    then show ?thesis unfolding all source_seqs_append using s2(5) by simp
  next
    assume c: "source_seqs ys1 = [] \<and> closing (fs_pc st1)"
    then have "source_seqs ys2 = []" using s2(5) pushed_when_closing [of st1 xs] by simp
    then show ?thesis using c by (simp add: source_seqs_append)
  qed
  then show ?case using s1 s2 carries_append [OF s1(7) s2(4)]
    by (intro exI [of _ st2] exI [of _ "out1 @ out2"] exI [of _ "ys1 @ ys2"]) simp
qed

section \<open>The exit of the task\<close>

text \<open>The reasons the callers have claimed.\<close>

fun claims :: "sender_op list \<Rightarrow> fec_sender \<Rightarrow> fec_sender_exit list" where
  "claims [] st = []"
| "claims (x # xs) st =
     (if x = TakeExit \<and> fs_handle st then (case snd (take_terminal_exit st) of None \<Rightarrow> [] | Some r \<Rightarrow> [r]) else []) @
     (case sender_step x st of None \<Rightarrow> [] | Some (st, _) \<Rightarrow> claims xs st)"

fun exit_stored :: "sender_pc \<Rightarrow> bool" where
  "exit_stored AtClearLive = True"
| "exit_stored AtFlush = True"
| "exit_stored Exited = True"
| "exit_stored _ = False"

definition latch_ok :: "nat \<Rightarrow> fec_sender \<Rightarrow> bool" where
  "latch_ok n st \<longleftrightarrow> n + (if fs_exit st = None then 0 else 1) = (if exit_stored (fs_pc st) then 1 else 0) \<and>
     (fs_live st \<longleftrightarrow> fs_pc st \<notin> {AtFlush, Exited}) \<and> (closing (fs_pc st) \<longrightarrow> \<not> fs_active st) \<and> (fs_live st \<longrightarrow> n = 0)"

lemma latch_same:
  assumes "latch_ok n st" "fs_exit st' = fs_exit st" "fs_live st' = fs_live st" "fs_active st' = fs_active st" "fs_pc st' = fs_pc st"
  shows "latch_ok n st'"
  using assms by (simp add: latch_ok_def)

lemma latch_open: "latch_ok n st \<Longrightarrow> \<not> closing (fs_pc st) \<Longrightarrow> n = 0 \<and> fs_exit st = None \<and> fs_live st"
  by (cases "fs_pc st") (auto simp: latch_ok_def split: if_splits)

text \<open>Before its exit the task leaves slot and flag alone; the first step of the exit only stops the queue.\<close>

definition advances :: "fec_sender \<Rightarrow> fec_sender \<Rightarrow> bool" where
  "advances st st' \<longleftrightarrow> fs_exit st' = fs_exit st \<and> fs_live st' = fs_live st \<and>
     (\<not> closing (fs_pc st') \<or> (\<exists>r. fs_pc st' = AtStoreExit r) \<and> \<not> fs_active st')"

lemma latch_advances:
  assumes "latch_ok n st" "\<not> closing (fs_pc st)" "advances st st'"
  shows "latch_ok n st'"
  using latch_open [OF assms(1,2)] assms(3) by (cases "fs_pc st'") (auto simp: advances_def latch_ok_def)

lemma advances_exit [simp]: "fs_exit s = fs_exit st \<Longrightarrow> fs_live s = fs_live st \<Longrightarrow> advances st (exit_with r s)"
  by (simp add: advances_def exit_with_def)

lemma advances_open: "fs_exit s = fs_exit st \<Longrightarrow> fs_live s = fs_live st \<Longrightarrow> \<not> closing (fs_pc s) \<Longrightarrow> advances st s"
  by (simp add: advances_def)

lemma recv_cmd_advances: "fs_pc st = AtSelect \<Longrightarrow> advances st (recv_cmd st)"
  by (auto simp: recv_cmd_def split: list.split ack_cmd.split intro: advances_open)

lemma pop_frame_advances:
  assumes "pop_frame now st = Some st'" "fs_pc st = AtPop"
  shows "advances st st'"
proof (cases "fs_queue st = [] \<or> is_expired now (last (fs_queue st))")
  case True
  then show ?thesis using assms by (auto simp: pop_frame_def Let_def split: if_splits intro!: advances_open)
next
  case False
  let ?f = "last (fs_queue st)"
  let ?r = "chunk_frame_v2 (fs_next_frame_id st) (ff_is_key ?f) (ff_timestamp_us ?f) (ff_data ?f)"
  consider "fs_wire_version st = WireV1" | e where "fs_wire_version st = WireV2" "?r = Some (Inl e)"
    | cs where "fs_wire_version st = WireV2" "?r = Some (Inr cs)"
    using assms(1) False by (cases "fs_wire_version st"; cases ?r) (auto simp: pop_frame_def Let_def split: sum.splits)
  then show ?thesis using assms False by cases (auto simp: pop_frame_def Let_def intro!: advances_open)
qed

lemma send_chunk_advances:
  assumes "send_chunk f c cs now ok st = Some (st', out)"
  shows "advances st st'"
proof (cases "is_expired now f \<or> fs_generation st \<noteq> fs_own_generation st")
  case True
  then show ?thesis using assms by (auto simp: send_chunk_def advances_def exit_with_def split: if_splits)
next
  case False
  then obtain e o' where p: "enc_push_source (fs_encoder st) (fs_next_seq st) c = Some (e, o')"
    using assms by (auto simp: send_chunk_def Let_def bind_eq_Some_conv)
  show ?thesis
    using assms False p by (cases "encode_symbol (fs_wire_version st) (fs_epoch st) (eo_source o')"; cases ok)
      (auto simp: send_chunk_def Let_def advances_def exit_with_def)
qed

lemma send_repair_advances: "advances st (fst (send_repair f cs r rs now ok st))"
  by (cases "encode_symbol (fs_wire_version st) (fs_epoch st) r") (auto simp: send_repair_def advances_def exit_with_def)

lemma latch_task:
  assumes "latch_ok n st" "task_step now sent recv st = Some (st', out)"
  shows "latch_ok n st'"
proof (cases "closing (fs_pc st)")
  case True
  then show ?thesis using assms by (cases "fs_pc st") (auto simp: task_step_def latch_ok_def)
next
  case False
  have "advances st st'"
  proof (cases "fs_pc st")
    case AtSelect
    then show ?thesis using assms(2) recv_cmd_advances [OF AtSelect]
      by (cases recv; cases "fs_notify st") (auto simp: task_step_def intro!: advances_open)
  next
    case AtPop
    then show ?thesis using assms(2) pop_frame_advances [OF _ AtPop] by (auto simp: task_step_def)
  next
    case (AtChunk f cs)
    then show ?thesis using assms(2) send_chunk_advances [of f _ _ now sent st st' out]
      by (cases cs) (auto simp: task_step_def intro!: advances_open)
  next
    case (AtRepair f cs rs)
    show ?thesis
    proof (cases rs)
      case Nil
      then show ?thesis using assms(2) AtRepair by (auto simp: task_step_def advances_def)
    next
      case (Cons r rs')
      then show ?thesis using assms(2) AtRepair send_repair_advances [of st f cs r rs' now sent] by (simp add: task_step_def)
    qed
  qed (use False in simp_all)
  then show ?thesis by (rule latch_advances [OF assms(1) False])
qed

lemma latch_step:
  assumes "latch_ok n st" "sender_step x st = Some (st', out)"
  shows "latch_ok (n + (if x = TakeExit \<and> fs_handle st \<and> snd (take_terminal_exit st) \<noteq> None then 1 else 0)) st'"
proof (cases x)
  case (Admit data k ts now)
  have "fs_exit (fst (enqueue_admit data k ts now st)) = fs_exit st \<and> fs_live (fst (enqueue_admit data k ts now st)) = fs_live st \<and>
      fs_active (fst (enqueue_admit data k ts now st)) = fs_active st \<and> fs_pc (fst (enqueue_admit data k ts now st)) = fs_pc st"
    by (simp add: enqueue_admit_def)
  then show ?thesis using assms Admit
    by (cases "fs_handle st"; cases "enqueue_admit data k ts now st") (auto simp: Let_def intro!: latch_same [OF assms(1)])
next
  case Locked
  have "fs_exit (fst (enqueue_locked f st)) = fs_exit st \<and> fs_live (fst (enqueue_locked f st)) = fs_live st \<and>
      fs_active (fst (enqueue_locked f st)) = fs_active st \<and> fs_pc (fst (enqueue_locked f st)) = fs_pc st" for f
    by (simp add: enqueue_locked_def Let_def)
  then show ?thesis using assms Locked by (cases "fs_waiting st") (auto intro!: latch_same [OF assms(1)])
next
  case (Control msg)
  then show ?thesis using assms
    by (auto simp: forward_control_def split: option.splits if_splits intro!: latch_same [OF assms(1)])
next
  case TakeExit
  then show ?thesis using assms by (auto simp: take_terminal_exit_def latch_ok_def split: if_splits)
next
  case (Task now sent recv)
  then show ?thesis using latch_task assms by simp
qed (use assms in \<open>auto intro!: latch_same [OF assms(1)]\<close>)

lemma latch_run: "latch_ok n st \<Longrightarrow> sender_run xs st = Some (st', out) \<Longrightarrow> latch_ok (n + length (claims xs st)) st'"
proof (induction xs arbitrary: n st out)
  case (Cons x xs)
  obtain st1 o1 o2 where s: "sender_step x st = Some (st1, o1)" "sender_run xs st1 = Some (st', o2)"
    using Cons.prems(2) by (auto simp: bind_eq_Some_conv)
  show ?case using Cons.IH [OF latch_step [OF Cons.prems(1) s(1)] s(2)] s(1) by (auto split: if_splits option.splits)
qed simp

section \<open>Properties\<close>

lemma spawn_ok: "frames_ok (spawn_with_wire own gen idr v ep)" "stream_ok src (spawn_with_wire own gen idr v ep)"
  "latch_ok 0 (spawn_with_wire own gen idr v ep)"
  by (simp_all add: spawn_with_wire_def frames_ok_def stream_ok_def latch_ok_def session_inv_new)

text \<open>
  C5. What the sender puts on the wire is a valid symbol stream. For every interleaving of enqueued frames, control
  messages, clock readings, sends that succeed or fail, generation changes and key-frame requests, with fewer than
  \<open>2 ^ 32\<close> steps: the task never panics and never exits with \<open>EncodeFailed\<close>; its messages are the encodings of
  symbols that are all valid for one stream of payloads, the source symbols numbered 0, 1, 2, ... without a gap; and
  at most four frames are queued.
\<close>

theorem sender_wire_valid:
  assumes "length ops < 2 ^ 32"
  shows "\<exists>st out src ys n. sender_run ops (spawn_with_wire own gen idr v ep) = Some (st, out) \<and>
    list_all2 (\<lambda>y m. encode_symbol v ep y = Inr m) ys out \<and> list_all (symbol_valid src) ys \<and>
    source_seqs ys = map word_of_nat [0..<n] \<and> n < 2 ^ 32 \<and>
    length (fs_queue st) \<le> 4 \<and> fs_exit st \<noteq> Some EncodeFailed"
proof -
  let ?st = "spawn_with_wire own gen idr v ep"
  have st: "fs_wire_version ?st = v" "fs_epoch ?st = ep" "fs_next_seq ?st = 0" by (simp_all add: spawn_with_wire_def)
  let ?P = "pushed ops ?st"
  have P: "length ?P < 2 ^ 32" using length_pushed [of ops ?st] assms by linarith
  obtain src where src: "\<And>q. length (src q) \<le> payload_limit v" "agrees src ops ?st"
    using stream_exists [OF assms st(3,1)] by blast
  have R: "\<exists>st' out ys. sender_run ops ?st = Some (st', out) \<and> frames_ok st' \<and> stream_ok src st' \<and>
      carries src (fs_wire_version ?st) (fs_epoch ?st) ys out \<and>
      prefix (source_seqs ys) (map (\<lambda>i. fs_next_seq ?st + word_of_nat i) [0..<length ?P])"
    by (rule sender_run_ok [OF spawn_ok(1,2) _ src(2)]) (simp only: st src(1))
  obtain st out ys where run: "sender_run ops ?st = Some (st, out)" "frames_ok st" "stream_ok src st"
    "carries src (fs_wire_version ?st) (fs_epoch ?st) ys out"
    "prefix (source_seqs ys) (map (\<lambda>i. fs_next_seq ?st + word_of_nat i) [0..<length ?P])"
    using R by (elim exE conjE) (rule that)
  obtain n where n: "source_seqs ys = take n (map word_of_nat [0..<length ?P])"
  proof (rule that)
    have "source_seqs ys = take (length (source_seqs ys)) (map (\<lambda>i. fs_next_seq ?st + word_of_nat i) [0..<length ?P])"
      using run(5) by (elim prefixE) (simp only: append_eq_append_conv2 take_append diff_self_eq_0 take_0 append_Nil2 order_refl take_all)
    then show "source_seqs ys = take (length (source_seqs ys)) (map word_of_nat [0..<length ?P])" by (simp only: st add_0)
  qed
  then have "source_seqs ys = map word_of_nat [0..<min n (length ?P)]" by (simp add: take_map min_def)
  moreover have "min n (length ?P) < 2 ^ 32" using P by linarith
  moreover have "list_all2 (\<lambda>y m. encode_symbol v ep y = Inr m) ys out" "list_all (symbol_valid src) ys"
    using run(4) by (simp_all only: carries_def st)
  moreover have "length (fs_queue st) \<le> 4" "fs_exit st \<noteq> Some EncodeFailed"
    using run(2,3) by (simp_all add: frames_ok_def QUEUE_CAPACITY_def stream_ok_def)
  ultimately show ?thesis
    using run(1) by (intro exI [of _ st] exI [of _ out] exI [of _ src] exI [of _ ys] exI [of _ "min n (length ?P)"] conjI)
qed

theorem sender_wire_valid_witness:
  "\<exists>st out src ys n. sender_run [Control (CtlV1 Subscribe), Task 0 True True, Admit [1, 2] True 0 0, Locked, Task 0 True False, Task 0 True True,
       Task 0 True True] (spawn_with_wire 1 1 False WireV1 (Epoch 1)) = Some (st, out) \<and>
     list_all2 (\<lambda>y m. encode_symbol WireV1 (Epoch 1) y = Inr m) ys out \<and> list_all (symbol_valid src) ys \<and>
     source_seqs ys = map word_of_nat [0..<n] \<and> n < 2 ^ 32 \<and> length (fs_queue st) \<le> 4 \<and> fs_exit st \<noteq> Some EncodeFailed"
  by (rule sender_wire_valid) simp

text \<open>
  The exit of the sender is reported exactly once. In every interleaving, callers claim no exit reason while the
  task is live and at most one in all; once the task is dead, the reason is either claimed or still there for the next
  caller, and no frame is accepted any more.
\<close>

theorem terminal_exit_once:
  assumes "sender_run ops (spawn_with_wire own gen idr v ep) = Some (st, out)"
  shows "length (claims ops (spawn_with_wire own gen idr v ep)) \<le> 1 \<and>
    (if fs_is_live st then claims ops (spawn_with_wire own gen idr v ep) = [] \<and> snd (take_terminal_exit st) = None
     else (claims ops (spawn_with_wire own gen idr v ep) = [] \<longleftrightarrow> snd (take_terminal_exit st) \<noteq> None) \<and>
       \<not> snd (enqueue data k ts now st) \<and> \<not> snd (enqueue_locked f st))"
proof -
  let ?n = "length (claims ops (spawn_with_wire own gen idr v ep))"
  have L: "latch_ok ?n st" using latch_run [OF spawn_ok(3) assms] by simp
  have "?n \<le> 1" using L by (auto simp: latch_ok_def split: if_splits)
  moreover have "?n = 0" if "fs_live st"
    using L that by (simp add: latch_ok_def)
  moreover have "?n = 0 \<longleftrightarrow> fs_exit st \<noteq> None" if "\<not> fs_live st"
    using L that by (cases "fs_pc st") (auto simp: latch_ok_def split: if_splits)
  ultimately show ?thesis
    by (auto simp: fs_is_live_def take_terminal_exit_def enqueue_def enqueue_admit_def enqueue_locked_def fs_is_active_def)
qed

text \<open>A sender that is superseded before its first chunk: the reason is claimed by one of three callers.\<close>

definition superseded_run :: "sender_op list" where
  "superseded_run = [Control (CtlV1 Subscribe), Task 0 True True, Admit [1, 2] True 0 0, Locked, Task 0 True False, Task 0 True True,
     SetGeneration 2, Task 0 True True, Task 0 True True, TakeExit, Task 0 True True, TakeExit, TakeExit]"

lemma superseded_run_result:
  "\<exists>st out. sender_run superseded_run (spawn_with_wire 1 1 False WireV1 (Epoch 1)) = Some (st, out) \<and> \<not> fs_is_live st \<and> fs_exit st = None"
  by (simp add: superseded_run_def spawn_with_wire_def task_step_def forward_control_def recv_cmd_def enqueue_admit_def
      enqueue_locked_def fs_is_active_def fs_is_live_def take_terminal_exit_def pop_frame_def is_expired_def QUEUE_RESIDENCE_MAX_def
      chunk_frame_def chunks.simps CHUNK_FRAGMENT_MAX_def div_ceil_def send_chunk_def exit_with_def Let_def)

theorem terminal_exit_once_witness:
  "\<exists>st out. sender_run superseded_run (spawn_with_wire 1 1 False WireV1 (Epoch 1)) = Some (st, out) \<and>
     length (claims superseded_run (spawn_with_wire 1 1 False WireV1 (Epoch 1))) = 1 \<and> \<not> snd (enqueue [3] True 0 0 st)"
proof -
  obtain st out where r: "sender_run superseded_run (spawn_with_wire 1 1 False WireV1 (Epoch 1)) = Some (st, out)"
    "\<not> fs_is_live st" "fs_exit st = None"
    using superseded_run_result by blast
  have "snd (take_terminal_exit st) = None" using r(2,3) by (simp add: take_terminal_exit_def fs_is_live_def)
  then show ?thesis using r(1,2) terminal_exit_once [OF r(1), of "[3]" True 0 0 undefined] by (auto simp: le_Suc_eq)
qed

end
