(* ===== verification/In_Step.thy ===== *)
theory In_Step
  imports Fec_Recovery Video_Rx
begin

text \<open>
  The decoder behind a channel that loses nothing. As long as the sources arrive in order and every repair covers a
  window that ends at the newest of them, the decoder retains a contiguous range that includes the encoder's window:
  it delivers each source at once, a repair never leaves a gap, and no loss is reported, whatever it evicts.
\<close>

section \<open>The retained range\<close>

text \<open>The \<open>m\<close> sequence numbers before \<open>n\<close>.\<close>

definition retains :: "nat \<Rightarrow> u32 \<Rightarrow> fec_decoder \<Rightarrow> bool" where
  "retains m n d \<longleftrightarrow> (\<forall>s. bt_get (sources d) s \<noteq> None \<longleftrightarrow> unat (n - 1 - s) < m)"

definition all_known :: "fec_decoder \<Rightarrow> bool" where
  "all_known d \<longleftrightarrow> (\<forall>s v. bt_get (sources d) s = Some v \<longrightarrow> v \<noteq> Missing \<and> source_cost v \<le> 1193)"

definition tracks :: "nat \<Rightarrow> u32 \<Rightarrow> fec_decoder \<Rightarrow> bool" where
  "tracks w n d \<longleftrightarrow> dec_ok d \<and> max_symbols d = 128 \<and> max_bytes d = RX_DECODER_MAX_BYTES \<and> frontier_seq d = n \<and>
     (\<exists>m. w \<le> m \<and> m \<le> 128 \<and> retains m n d) \<and> all_known d \<and>
     (newest_seq d = None \<or> newest_seq d = Some (n - 1)) \<and>
     (sources d \<noteq> [] \<longrightarrow> newest_seq d = Some (n - 1) \<and> highest_contiguous d = Some (n - 1))"

lemma tracks_mono: "tracks w n d \<Longrightarrow> w' \<le> w \<Longrightarrow> tracks w' n d"
  unfolding tracks_def using le_trans by blast

lemma tracks_new: "tracks 0 0 (decoder_new RX_DECODER_MAX_SYMBOLS RX_DECODER_MAX_BYTES)"
  using dec_ok_new [of RX_DECODER_MAX_SYMBOLS RX_DECODER_MAX_BYTES]
  by (auto simp: tracks_def decoder_new_def frontier_seq_def retains_def all_known_def bt_get_def
      RX_DECODER_MAX_SYMBOLS_def RX_DECODER_MAX_BYTES_def)

lemma retains_card: "m \<le> 128 \<Longrightarrow> card {s :: u32. unat (n - 1 - s) < m} = m"
proof -
  assume m: "m \<le> 128"
  have "bij_betw (\<lambda>j. n - 1 - word_of_nat j) {..<m} {s :: u32. unat (n - 1 - s) < m}"
  proof (rule bij_betw_byWitness [where f' = "\<lambda>s. unat (n - 1 - s)"])
    show "\<forall>j\<in>{..<m}. unat (n - 1 - (n - 1 - word_of_nat j :: u32)) = j" using m by (simp add: unat_of_nat)
    show "(\<lambda>j. n - 1 - word_of_nat j) ` {..<m} \<subseteq> {s :: u32. unat (n - 1 - s) < m}" using m by (auto simp: unat_of_nat)
  qed auto
  then show ?thesis using bij_betw_same_card by fastforce
qed

lemma retains_length:
  assumes "dec_core d" "retains m n d" "m \<le> 128"
  shows "length (sources d) = m"
proof -
  have "dom (bt_get (sources d)) = {s. unat (n - 1 - s) < m}" using assms(2) by (auto simp: retains_def)
  then show ?thesis
    using length_eq_card_dom [of "sources d"] assms(1) retains_card [OF assms(3), of n] by (simp add: dec_core_def)
qed

lemma known_weight:
  assumes "dec_core d" "all_known d"
  shows "bt_weight source_cost (sources d) \<le> 1193 * length (sources d)"
proof -
  have "source_cost v \<le> 1193" if "(s, v) \<in> set (sources d)" for s v
    using assms that core_get [of d s v] by (auto simp: all_known_def)
  then have "(\<Sum>x \<leftarrow> sources d. source_cost (snd x)) \<le> (\<Sum>x \<leftarrow> sources d. 1193)" by (intro sum_list_mono) auto
  then show ?thesis by (simp add: bt_weight_def case_prod_beta sum_list_triv mult.commute)
qed

section \<open>Eviction takes the oldest\<close>

lemma max_by_key_ge: "max_by_key f xs = Some x \<Longrightarrow> y \<in> set xs \<Longrightarrow> f y \<le> f x"
proof (induction xs arbitrary: x)
  case (Cons a xs)
  then show ?case using max_by_key_None [of f xs]
    by (auto split: option.splits if_splits)
qed simp

lemma minus_left_cancel: "a - b = a - c \<Longrightarrow> b = c" for a b c :: u32
proof -
  assume "a - b = a - c"
  then have "a - (a - b) = a - (a - c)" by (rule arg_cong)
  then show "b = c" by (simp only: diff_diff_eq2 add_diff_cancel_left')
qed

lemma candidate_oldest:
  assumes core: "dec_core d" and r: "retains m n d" "m \<le> 128" "0 < m" and h: "highest_contiguous d = Some (n - 1)"
  shows "\<exists>v. eviction_candidate d k = Some (n - word_of_nat m, v)"
proof -
  have key: "unat (n - 1 - s) < m" if "(s, v) \<in> set (sources d)" for s v
    using that core_get [OF core, of s v] r(1) by (auto simp: retains_def)
  have "unat (n - 1 - s) < 2147483648" if "(s, v) \<in> set (sources d)" for s v using key [OF that] r(2) by linarith
  then have all: "filter (\<lambda>e. n - 1 - fst e < 0x80000000) (sources d) = sources d"
    by (auto simp: filter_id_conv word_less_nat_alt)
  let ?old = "n - word_of_nat m :: u32"
  have "n - 1 - ?old = word_of_nat (m - 1)" using r(3) by (cases m) simp_all
  then have dist: "unat (n - 1 - ?old) = m - 1" using r(2) by (simp add: unat_of_nat)
  then have "bt_get (sources d) ?old \<noteq> None" using r(1,3) by (simp add: retains_def)
  then obtain v where old: "(?old, v) \<in> set (sources d)" using core_get [OF core] by blast
  obtain e where e: "max_by_key (\<lambda>e. n - 1 - fst e) (sources d) = Some e"
    using old max_by_key_None [of "\<lambda>e. n - 1 - fst e" "sources d"] by (cases "max_by_key (\<lambda>e. n - 1 - fst e) (sources d)") auto
  have "n - 1 - ?old \<le> n - 1 - fst e" using max_by_key_ge [OF e old] by simp
  then have "unat (n - 1 - fst e) = m - 1"
    using dist key [of "fst e" "snd e"] max_by_key_in [OF e] by (auto simp: word_le_nat_alt)
  then have "n - 1 - fst e = n - 1 - ?old" using dist by (simp add: word_unat_eq_iff)
  then have "fst e = ?old" by (rule minus_left_cancel)
  then have "e = (?old, snd e)" by (cases e) simp
  moreover have "eviction_candidate d k = Some e" using e all h by (simp add: eviction_candidate_def Let_def)
  ultimately show ?thesis by metis
qed

lemma retains_drop_oldest:
  assumes "retains m n d" "m \<le> 128" "0 < m"
  shows "retains (m - 1) n (drop_source (n - word_of_nat m) d)"
proof -
  have "unat (n - 1 - s) < m - 1 \<longleftrightarrow> unat (n - 1 - s) < m \<and> s \<noteq> n - word_of_nat m" for s
  proof -
    have "n - 1 - s = word_of_nat (m - 1) \<longleftrightarrow> s = n - word_of_nat m"
      using assms(3) by (cases m) (auto simp: algebra_simps)
    moreover have "n - 1 - s = word_of_nat (m - 1) \<longleftrightarrow> unat (n - 1 - s) = m - 1"
      using assms(2) by (simp add: word_unat_eq_iff unat_of_nat)
    ultimately show ?thesis by auto
  qed
  then show ?thesis using assms(1) by (simp add: retains_def drop_source_def bt_get_remove)
qed

text \<open>Making room for a source drops at most the oldest of a full range.\<close>

lemma make_room_retains:
  assumes "dec_core d" "max_symbols d = 128" "max_bytes d = RX_DECODER_MAX_BYTES" "length (repairs d) \<le> 128"
    "\<exists>m. w \<le> m \<and> m \<le> 128 \<and> retains m n d" "all_known d"
    "sources d \<noteq> [] \<longrightarrow> newest_seq d = Some (n - 1) \<and> highest_contiguous d = Some (n - 1)" "w \<le> 127" "ab \<le> 2000"
  shows "\<exists>m. w \<le> m \<and> m \<le> 127 \<and> retains m n (fst (make_room (Suc 0) 0 0 ab d))"
  using assms
proof (induction "length (sources d) + length (repairs d)" arbitrary: d rule: less_induct)
  case less
  obtain m where m: "w \<le> m" "m \<le> 128" "retains m n d" using less.prems(5) by blast
  have len: "length (sources d) = m" by (rule retains_length [OF less.prems(1) m(3,2)])
  have mb: "unat (max_bytes d) = 16777216" using less.prems(3) by (simp add: RX_DECODER_MAX_BYTES_def)
  let ?overb = "retained d + ab > unat (max_bytes d)"
  have no_overb: "\<not> ?overb" if "repairs d = []"
    using retained_eq [OF less.prems(1)] known_weight [OF less.prems(1,6)] that m(2) less.prems(9) len mb by simp
  have eq: "make_room (Suc 0) 0 0 ab d =
     (if m + 1 \<le> 128 \<and> \<not> ?overb then (d, [])
      else if repairs d \<noteq> [] \<and> ?overb then make_room (Suc 0) 0 0 ab (evict_oldest_repair d)
      else case newest_seq d of None \<Rightarrow> (d, []) | Some newest \<Rightarrow>
        (case eviction_candidate d newest of None \<Rightarrow> (d, [])
         | Some e \<Rightarrow> (let (d', evs) = make_room (Suc 0) 0 0 ab (drop_source (fst e) d)
             in (d', (if snd e = Missing then [EvEvicted (fst e) (fst e + 1)] else []) @ evs))))"
    using less.prems(2,4) len by (subst make_room.simps [of "Suc 0" 0 0 ab d]) auto
  consider "m + 1 \<le> 128" "\<not> ?overb" | "repairs d \<noteq> []" ?overb | "m = 128" "\<not> ?overb" using m(2) no_overb by linarith
  then show ?case
  proof cases
    case 1
    then show ?thesis using m by (intro exI [of _ m]) (simp add: eq)
  next
    case 2
    let ?d = "evict_oldest_repair d"
    have "length (repairs ?d) < length (repairs d)" "sources ?d = sources d"
      using 2(1) by (cases "repairs d") (simp_all add: evict_oldest_repair_def)
    then have "\<exists>m. w \<le> m \<and> m \<le> 127 \<and> retains m n (fst (make_room (Suc 0) 0 0 ab ?d))"
      using less.hyps [of ?d] less.prems evict_oldest_repair_core(1) [OF less.prems(1) 2(1)]
      by (simp add: evict_oldest_repair_def retains_def all_known_def)
    then show ?thesis using 2 by (simp add: eq)
  next
    case 3
    have hn: "newest_seq d = Some (n - 1)" "highest_contiguous d = Some (n - 1)" using less.prems(7) len 3(1) by auto
    obtain v where c: "eviction_candidate d (n - 1) = Some (n - word_of_nat m, v)"
      using candidate_oldest [OF less.prems(1) m(3,2) _ hn(2), of "n - 1"] 3(1) by auto
    let ?d = "drop_source (n - word_of_nat m) d"
    have r: "retains 127 n ?d" using retains_drop_oldest [OF m(3,2)] 3(1) by simp
    have core: "dec_core ?d" by (rule drop_source_core [OF less.prems(1)])
    have len': "length (sources ?d) = 127" using retains_length [OF core r] by simp
    have ov: "\<not> retained ?d + ab > unat (max_bytes ?d)"
      using btree.weight_remove_le [of "sources d" source_cost "n - word_of_nat m"] 3(2) less.prems(1)
      unfolding retained_eq [OF core] retained_eq [OF less.prems(1)] by (simp add: drop_source_def dec_core_def)
    then have "make_room (Suc 0) 0 0 ab ?d = (?d, [])"
      using len' less.prems(2,4) by (subst make_room.simps) (simp add: drop_source_def)
    then have "fst (make_room (Suc 0) 0 0 ab d) = ?d" using 3 hn(1) c by (simp add: eq)
    then show ?thesis using r less.prems(8) by (intro exI [of _ 127]) simp
  qed
qed

section \<open>No recovery, no loss\<close>

lemma recover_nothing:
  assumes "dec_core d" "all_known d"
  shows "try_recover d = Some (d, [])"
proof -
  have "s \<notin> set (missing_seqs d)" for s using missing_iff [OF assms(1), of s] assms(2) by (auto simp: all_known_def)
  then have "missing_seqs d = []" by (cases "missing_seqs d") auto
  then have "one_elim_pass d = Some []" by (simp add: one_elim_pass_eq elim_runs_def)
  then show ?thesis by (subst try_recover.simps) simp
qed

lemma advance_absent: "bt_get (sources d) (frontier_seq d) = None \<Longrightarrow> advance_contiguous d = Some (d, [])"
  by (subst advance_contiguous.simps) (simp add: Let_def)

lemma advance_one:
  assumes "bt_get (sources d) (frontier_seq d) = Some (Received p)" "bt_get (sources d) (frontier_seq d + 1) = None"
  shows "\<exists>d'. advance_contiguous d = Some (d', []) \<and> sources d' = sources d \<and> newest_seq d' = newest_seq d \<and>
    highest_contiguous d' = Some (frontier_seq d)"
proof -
  let ?d = "(close_open_span_step (frontier_seq d) False d)\<lparr>highest_contiguous := Some (frontier_seq d)\<rparr>"
  have eq: "sources ?d = sources d" "newest_seq ?d = newest_seq d" by (simp_all add: close_open_span_step_def Let_def)
  have "frontier_seq ?d = frontier_seq d + 1" by (simp add: frontier_seq_def [of ?d])
  then have "advance_contiguous ?d = Some (?d, [])" using assms(2) eq(1) by (intro advance_absent) simp
  moreover have "advance_contiguous d = advance_contiguous ?d" using assms(1) by (subst advance_contiguous.simps) (simp add: Let_def)
  ultimately show ?thesis using eq by simp
qed

lemma tracks_absent:
  assumes "retains m n d" "m \<le> 128"
  shows "bt_get (sources d) n = None" "bt_get (sources d) (n + 1) = None"
proof -
  have "n - 1 - n = (- 1 :: u32)" "n - 1 - (n + 1) = (- 2 :: u32)" by simp_all
  moreover have "\<not> unat (- 1 :: u32) < m" "\<not> unat (- 2 :: u32) < m"
    using assms(2) by (simp_all add: unsigned_minus_1_eq_mask mask_eq_exp_minus_1)
  ultimately show "bt_get (sources d) n = None" "bt_get (sources d) (n + 1) = None"
    using assms(1) by (metis retains_def)+
qed

lemma retains_push:
  assumes "retains m n d" "m \<le> 127" "bt_get (sources d') = (bt_get (sources d))(n \<mapsto> v)"
  shows "retains (Suc m) (n + 1) d'"
proof -
  have "unat (n + 1 - 1 - s) < Suc m \<longleftrightarrow> s = n \<or> unat (n - 1 - s) < m" for s
  proof (cases "s = n")
    case False
    then have "n - s \<noteq> 0" by simp
    then have "unat (n - s) = Suc (unat (n - s - 1))" by (simp add: unat_minus_one word_neq_0_conv unat_gt_0)
    moreover have "n - s - 1 = n - 1 - s" by simp
    ultimately show ?thesis using False by simp
  qed simp
  then show ?thesis using assms(1,3) by (auto simp: retains_def)
qed

text \<open>The next source is delivered at once, and nothing else happens.\<close>

lemma push_source_in_step:
  assumes t: "tracks w n d" and w: "w \<le> 127" and p: "length p \<le> 1185"
  shows "\<exists>d'. push_symbol d (Source n p) = Some (d', [EvRecovered n p False]) \<and> tracks (Suc w) (n + 1) d'"
proof -
  obtain m where m: "w \<le> m" "m \<le> 128" "retains m n d" and ok: "dec_ok d" and lim: "max_symbols d = 128" "max_bytes d = RX_DECODER_MAX_BYTES"
    and fr: "frontier_seq d = n" and kn: "all_known d"
    and nw0: "newest_seq d = None \<or> newest_seq d = Some (n - 1)"
    and new: "sources d \<noteq> [] \<longrightarrow> newest_seq d = Some (n - 1) \<and> highest_contiguous d = Some (n - 1)"
    using t by (auto simp: tracks_def)
  have core: "dec_core d" by (rule dec_ok_core [OF ok])
  have mb: "unat (max_bytes d) = 16777216" using lim by (simp add: RX_DECODER_MAX_BYTES_def)
  have rep: "length (repairs d) \<le> 128" using ok lim(1) by (simp add: dec_ok_def)
  note ab = tracks_absent [OF m(3,2)]
  obtain d1 ev where mr: "make_room (Suc 0) 0 0 (length p + 8) d = (d1, ev)" "forgets d d1 ev" "dec_core d1"
    using make_room_spec [OF core, of "Suc 0" "length p + 8"] rep lim(1) p mb by (simp, elim exE conjE) (rule that)
  have "\<exists>m. w \<le> m \<and> m \<le> 128 \<and> retains m n d" using m by blast
  note room = make_room_retains [OF core lim rep this kn new w, of "length p + 8"]
  obtain m1 where m1: "w \<le> m1" "m1 \<le> 127" "retains m1 n d1" using room p unfolding mr(1) by auto
  have "set ev = {EvEvicted s (s + 1) | s. bt_get (sources d) s = Some Missing \<and> bt_get (sources d1) s = None}"
    using mr(2) unfolding forgets_def by (elim conjE)
  moreover have "bt_get (sources d) s \<noteq> Some Missing" for s using kn by (auto simp: all_known_def)
  ultimately have ev: "ev = []" by simp
  have sub: "bt_get (sources d1) s = Some v \<Longrightarrow> bt_get (sources d) s = Some v" for s v by (rule forgets_get [OF mr(2)])
  have f1: "newest_seq d1 = newest_seq d" "highest_contiguous d1 = highest_contiguous d"
    using forgetsD [OF mr(2)] by simp_all
  let ?d = "admit_source n p d1"
  have fr1: "frontier_seq ?d = n" using fr f1(2) by (simp add: frontier_seq_def admit_source_def store_received_def)
  have kn': "all_known ?d" using kn sub p by (auto simp: all_known_def bt_get_insert split: if_splits)
  have core': "dec_core ?d" by (rule admit_source_core [OF mr(3)])
  have "m1 \<le> 128" using m1(2) by simp
  note ab1 = tracks_absent [OF m1(3) this]
  obtain d' where adv: "advance_contiguous ?d = Some (d', [])" "sources d' = sources ?d" "newest_seq d' = newest_seq ?d"
    "highest_contiguous d' = Some n"
    using advance_one [of ?d p] ab1 by (auto simp: fr1 bt_get_insert)
  have push: "push_symbol d (Source n p) = Some (d', [EvRecovered n p False])"
    using ab(1) mr(1) p mb ev adv(1) recover_nothing [OF core' kn']
    by (simp add: dec_push_source_def admit_source_def recover_and_advance_def)
  have nw: "newest_seq ?d = Some n" using nw0 f1(1) by (auto simp: admit_source_def store_received_def note_newest_def)
  have "dec_ok d' \<and> same_limits d d'" using dec_ok_push_symbol [OF ok, of "Source n p"] push by auto
  moreover have "frontier_seq d' = n + 1" using adv(4) by (simp add: frontier_seq_def)
  moreover have "retains (Suc m1) (n + 1) d'" by (rule retains_push [OF m1(3,2)]) (simp add: adv(2) bt_get_insert fun_eq_iff)
  moreover have "all_known d'" using kn' by (simp add: all_known_def adv(2))
  ultimately have "tracks (Suc w) (n + 1) d'"
    unfolding tracks_def using lim m1 adv nw by (auto simp: same_limits_def intro!: exI [of _ "Suc m1"])
  then show ?thesis using push by blast
qed

lemma window_distance:
  assumes "w \<le> 128"
  shows "seq_in_window s (n - word_of_nat w) (word_of_nat w) \<longleftrightarrow> unat (n - 1 - s) < w"
proof -
  let ?x = "n - 1 - s"
  have flip: "s - (n - word_of_nat w) = word_of_nat w - 1 - ?x" by simp
  show ?thesis
  proof (cases w)
    case (Suc k)
    then have w1: "word_of_nat w - 1 = (word_of_nat k :: u32)" by simp
    have uw: "unat (word_of_nat w :: u32) = Suc k" "unat (word_of_nat k :: u32) = k"
      using assms Suc by (simp_all add: unat_of_nat del: of_nat_Suc)
    show ?thesis
    proof (cases "unat ?x \<le> k")
      case True
      then have "?x \<le> word_of_nat k" by (simp only: word_le_nat_alt uw)
      then have "unat (word_of_nat k - ?x) = k - unat ?x" by (simp only: unat_sub uw)
      then show ?thesis using True unfolding seq_in_window_def flip w1 word_less_nat_alt uw by (simp add: Suc)
    next
      case False
      then have "unat (word_of_nat k - ?x) = k + 4294967296 - unat ?x"
        unfolding unat_sub_if_size word_le_nat_alt uw by (simp add: word_size)
      moreover have "unat ?x < 4294967296" using unsigned_less [of ?x] by simp
      ultimately show ?thesis using False unfolding seq_in_window_def flip w1 word_less_nat_alt uw by (simp add: Suc)
    qed
  qed (simp add: seq_in_window_def)
qed

text \<open>A repair whose window ends at the newest source finds every symbol of it known.\<close>

lemma push_repair_in_step:
  assumes t: "tracks w n d" and w: "0 < w" "w \<le> 128"
  shows "\<exists>d'. push_symbol d (Repair q (n - word_of_nat w) n p) = Some (d', []) \<and> tracks w n d'"
proof -
  obtain m where m: "w \<le> m" "m \<le> 128" "retains m n d" and ok: "dec_ok d" and lim: "max_symbols d = 128" "max_bytes d = RX_DECODER_MAX_BYTES"
    and fr: "frontier_seq d = n" and kn: "all_known d"
    and new: "sources d \<noteq> [] \<longrightarrow> newest_seq d = Some (n - 1) \<and> highest_contiguous d = Some (n - 1)"
    using t by (auto simp: tracks_def)
  have "sources d \<noteq> []" using retains_length [OF dec_ok_core [OF ok] m(3,2)] m(1) w(1) by auto
  then have nw: "newest_seq d = Some (n - 1)" "highest_contiguous d = Some (n - 1)" using new by simp_all
  let ?wb = "n - word_of_nat w :: u32"
  have len: "n - ?wb = word_of_nat w" by simp
  have w0: "word_of_nat w \<noteq> (0 :: u32)" using w by (simp add: word_unat_eq_iff unat_of_nat)
  show ?thesis
  proof (cases rule: push_repair_cases [OF ok, of q ?wb n p])
    case 1
    then show ?thesis using t by simp
  next
    case (2 d2 ev)
    let ?d = "register_repair q ?wb n p d2"
    have no_missing: "bt_get (sources d) s \<noteq> Some Missing" for s using kn by (auto simp: all_known_def)
    then have "ev = []" using 2(10) by (cases ev) auto
    have tr: "newest_seq d2 = newest_seq d" "highest_contiguous d2 = highest_contiguous d"
      "bt_get (sources d2) s = (if unat (n - 1 - s) < w then bt_get (sources d) s else None)" for s
      using 2(3) w0 window_distance [OF w(2), of s n] by (simp_all add: trimmed_def)
    have known: "bt_get (sources d) s \<noteq> None" if "unat (n - 1 - s) < w" for s
      using m(1,3) that unfolding retains_def by (meson less_le_trans)
    note R = register_repair_spec [OF 2(2,4,5) refl, of p]
    have get: "bt_get (sources ?d) s = (if unat (n - 1 - s) < w then bt_get (sources d) s else None)" for s
      using known [of s] window_distance [OF w(2), of s n] by (auto simp: R(5) tr(3) set_seq_range)
    have kn': "all_known ?d" using kn by (simp add: all_known_def get)
    have r': "retains w n ?d" using m(1,3) by (auto simp: retains_def get)
    have h: "highest_contiguous ?d = Some (n - 1)" "newest_seq ?d = Some (n - 1)"
      using tr(1,2) nw w0 by (simp_all add: register_repair_def Let_def note_newest_def)
    then have fr': "frontier_seq ?d = n" by (simp add: frontier_seq_def)
    have "advance_contiguous ?d = Some (?d, [])"
      using tracks_absent(1) [OF r' w(2)] by (intro advance_absent) (simp only: fr')
    then have push: "push_symbol d (Repair q ?wb n p) = Some (?d, [])"
      using 2(1) \<open>ev = []\<close> recover_nothing [OF R(1) kn'] by (simp add: recover_and_advance_def)
    have "dec_ok ?d \<and> same_limits d ?d" using dec_ok_push_symbol [OF ok, of "Repair q ?wb n p"] push by auto
    then have "tracks w n ?d" unfolding tracks_def using lim r' kn' h fr' w(2) by (auto simp: same_limits_def)
    then show ?thesis using push by blast
  qed
qed

end
