(* ===== verification/End_To_End.thy ===== *)
theory End_To_End
  imports In_Step Video_Rx_Reassembly Fec_Sender
begin

text \<open>
  Sender and receiver together. When the channel loses and reorders nothing and no frame grows stale while it is
  being sent, the frames the sender task finishes are the frames the receiver emits. The proof is a simulation: the
  receiver's reassembly follows the program counter of the task, and its decoder retains the encoder's window.
\<close>

section \<open>What the receiver shows\<close>

definition shown :: "rx_event list \<Rightarrow> rx_event list" where
  "shown evs = filter (\<lambda>e. \<not> is_ack e) evs"

lemma shown_append [simp]: "shown (a @ b) = shown a @ shown b"
  by (simp add: shown_def)

lemma shown_acks: "\<forall>e \<in> set evs. is_ack e \<Longrightarrow> shown evs = []"
  by (simp add: shown_def)

lemma shown_frame [simp]: "shown [RxFrame u] = [RxFrame u]" "shown [] = []"
  by (simp_all add: shown_def is_ack_def)

lemma shown_ack_events [simp]: "shown (ack_events a) = []"
  using ack_events_acks by (intro shown_acks) blast

text \<open>Without a discontinuity the gate stays open.\<close>

lemma open_stays:
  assumes "monitored gate_monitor gate_rel Open rx evs" "shown evs = map RxFrame us"
  shows "\<not> awaiting_idr rx"
proof -
  have "monitor_run gate_monitor Open es = Some Open" if "shown es = map RxFrame vs" for es vs
    using that
  proof (induction es arbitrary: vs)
    case (Cons e es)
    then show ?case using Cons.IH [of vs] Cons.IH [of "tl vs"] by (cases e; cases vs) (auto simp: shown_def is_ack_def)
  qed simp
  then have "gate_rel rx Open" using assms by (auto simp: monitored_def)
  then show ?thesis by (simp add: gate_rel_def)
qed

section \<open>One message\<close>

lemma deliver_chunk_decoder:
  assumes "deliver_chunk ep v2 p via now rx = Some (rx', es)"
  shows "rx_decoder rx' = rx_decoder rx"
proof -
  have c: "complete_frame k f now rx = Some rx' \<Longrightarrow> rx_decoder rx' = rx_decoder rx" for k f rx rx'
    by (auto simp: complete_frame_def Let_def split: if_splits)
  have s: "store_chunk ep v2 c via now rx = Some (rx', es) \<Longrightarrow> rx_decoder rx' = rx_decoder rx" for c rx rx' es
    by (auto simp: store_chunk_def Let_def discontinue_def split: option.splits if_splits dest: c)
  have o1: "open_pending ep v2 c rx = Inr rx1 \<Longrightarrow> rx_decoder rx1 = rx_decoder rx" for c rx1
    by (auto simp: open_pending_def Let_def split: if_splits)
  have o2: "open_pending ep v2 c rx = Inl r \<Longrightarrow> rx_decoder (fst r) = rx_decoder rx" for c r
    by (auto simp: open_pending_def Let_def split: if_splits)
  have "rx_decoder rx' = rx_decoder rx" if "open_pending ep v2 c rx = Inr rx1" "store_chunk ep v2 c via now rx1 = Some (rx', es)" for c rx1
    using o1 [OF that(1)] s [OF that(2)] by simp
  then show ?thesis using assms
    by (auto simp: deliver_chunk_def split: option.splits if_splits sum.splits dest: o2)
qed

lemma deliver_one_decoder:
  assumes "deliver_events ep v2 [EvRecovered n p via] now rx = Some (rx', es)"
  shows "rx_decoder rx' = rx_decoder rx"
proof -
  obtain rx1 es1 where 1: "deliver_chunk ep v2 p via now rx = Some (rx1, es1)"
    using assms by (cases "deliver_chunk ep v2 p via now rx") auto
  then have "rx' = fst (tick_ack now rx1)" using assms by (auto simp: case_prod_beta)
  then show ?thesis using deliver_chunk_decoder [OF 1] by simp
qed

definition resting :: "u32 \<Rightarrow> u32 \<Rightarrow> video_receiver \<Rightarrow> bool" where
  "resting ep fid rx \<longleftrightarrow> rx_ok rx \<and> (active_epoch rx = None \<or> active_epoch rx = Some ep) \<and> \<not> awaiting_idr rx \<and>
     pending_order rx = [] \<and> completed_order rx = [] \<and> (next_frame_id rx = None \<or> next_frame_id rx = Some fid)"

text \<open>The receiver after the first \<open>i\<close> chunks of a frame.\<close>

definition midway :: "u32 \<Rightarrow> u32 \<Rightarrow> fec_frame \<Rightarrow> nat \<Rightarrow> video_receiver \<Rightarrow> bool" where
  "midway ep fid f i rx \<longleftrightarrow>
     (if i = 0 then resting ep fid rx
      else if i = length (fragments_v2 (ff_data f)) then resting ep (fid + 1) rx
      else \<not> awaiting_idr rx \<and>
        assembling ep fid (ff_is_key f) (ff_timestamp_us f) (ff_data f) (last_timestamp_us rx) {..<i} rx)"

definition unit_for :: "u32 \<Rightarrow> u32 \<Rightarrow> u32 \<Rightarrow> fec_frame \<Rightarrow> decode_unit" where
  "unit_for ep fid t0 f =
     \<lparr>du_frame_id = fid, du_epoch = ep, du_is_key = ff_is_key f, du_timestamp_us = ff_timestamp_us f,
      du_duration_us = uint (ff_timestamp_us f) - uint t0, du_data = ff_data f\<rparr>"

lemma midway_facts:
  assumes "midway ep fid f i rx"
  shows "rx_ok rx" "active_epoch rx = None \<or> active_epoch rx = Some ep" "\<not> awaiting_idr rx" "completed_order rx = []"
proof -
  have "completed_order rx = []" if "rx_ok rx" "rx_completed rx = Map.empty"
    using rx_invD(5) [OF that(1) [unfolded rx_ok_def]] that(2) by simp
  then show "rx_ok rx" "active_epoch rx = None \<or> active_epoch rx = Some ep" "\<not> awaiting_idr rx" "completed_order rx = []"
    using assms by (auto simp: midway_def resting_def assembling_def split: if_splits)
qed

lemma flush_nothing: "completed_order rx = [] \<Longrightarrow> flush_reorder now rx = Some (rx, [])"
  by (subst flush_reorder.simps) (simp add: flush_step_def)

lemma tracks_rx_dec_ok: "tracks w n d \<Longrightarrow> rx_dec_ok d"
  by (simp add: tracks_def rx_dec_ok_def RX_DECODER_MAX_SYMBOLS_def)

lemma midway_start: "midway ep fid f 0 rx = resting ep fid rx"
  by (simp add: midway_def)

text \<open>A symbol of the session: the epoch is taken over and the decoder steps.\<close>

lemma symbol_message:
  assumes "rx_ok rx" "active_epoch rx = None \<or> active_epoch rx = Some ep"
    "parse_symbol_msg_versioned m = Inr msg" "message_symbol msg = (ep, True, y)"
    "push_symbol (rx_decoder rx) y = Some (d, des)" "rx_dec_ok d" "\<not> list_ex is_fec_loss des"
  obtains rx1 where "rx1 = rx\<lparr>active_epoch := Some ep, rx_decoder := d\<rparr>" "rx_ok rx1"
    "on_message m now rx = Option.bind (deliver_events ep True des now rx1) (\<lambda>(rx, out1).
       Option.bind (flush_reorder now rx) (\<lambda>(rx, out2). Some (rx, out1 @ out2)))"
proof -
  let ?rx = "rx\<lparr>active_epoch := Some ep\<rparr>"
  have a: "accept_epoch ep True now rx = ((?rx, []), True)" using assms(2) by (auto simp: accept_epoch_def)
  have "rx_ok ?rx" using accept_epoch_ok(1) [OF assms(1), of ep True now] a by simp
  then have ok: "rx_ok (?rx\<lparr>rx_decoder := d\<rparr>)" by (rule rx_ok_set_decoder [OF _ assms(6)])
  show ?thesis
  proof (rule that [OF _ ok])
    show "on_message m now rx = Option.bind (deliver_events ep True des now (?rx\<lparr>rx_decoder := d\<rparr>)) (\<lambda>(rx, out1).
       Option.bind (flush_reorder now rx) (\<lambda>(rx, out2). Some (rx, out1 @ out2)))"
      using assms(3-5,7) a by (simp add: on_message_def process_decoder_events_def)
  qed simp
qed

lemma source_message:
  assumes mid: "midway ep fid f i rx" and len: "length (ff_data f) \<le> 4194304"
    and bufs: "chunk_frame_v2 fid (ff_is_key f) (ff_timestamp_us f) (ff_data f) = Some (Inr bufs)" and i: "i < length bufs"
    and tr: "tracks w n (rx_decoder rx)" "w \<le> 127" and ep: "epoch_get e = ep" "ep \<noteq> 0"
    and m: "encode_symbol_msg_v2 (V2Source e n (bufs ! i)) = Inr m"
  shows "\<exists>rx' evs. on_message m now rx = Some (rx', evs) \<and> midway ep fid f (Suc i) rx' \<and> tracks (Suc w) (n + 1) (rx_decoder rx') \<and>
    shown evs = (if Suc i = length bufs then [RxFrame (unit_for ep fid (last_timestamp_us rx) f)] else []) \<and>
    last_timestamp_us rx' = (if Suc i = length bufs then ff_timestamp_us f else last_timestamp_us rx)"
proof -
  let ?p = "bufs ! i" and ?k = "ff_is_key f" and ?ts = "ff_timestamp_us f" and ?data = "ff_data f"
  let ?t0 = "last_timestamp_us rx" and ?n = "length (fragments_v2 (ff_data f))"
  note M = midway_facts [OF mid]
  have n: "length bufs = ?n" using chunk_of_parsed(2) [OF len bufs i] .
  have pl: "length ?p \<le> 1185" using m by (simp add: encode_v2_simps split: if_splits)
  obtain d where d: "push_symbol (rx_decoder rx) (Source n ?p) = Some (d, [EvRecovered n ?p False])" "tracks (Suc w) (n + 1) d"
    using push_source_in_step [OF tr pl] by blast
  have parse: "parse_symbol_msg_versioned m = Inr (SymV2 (V2Source e n ?p))"
    using m ep pl by (auto simp: encode_v2_simps parse_symbol_msg_versioned_def parse_v2_source_encoded)
  obtain rx1 where rx1: "rx1 = rx\<lparr>active_epoch := Some ep, rx_decoder := d\<rparr>" "rx_ok rx1"
    "on_message m now rx = Option.bind (deliver_events ep True [EvRecovered n ?p False] now rx1) (\<lambda>(rx, out1).
       Option.bind (flush_reorder now rx) (\<lambda>(rx, out2). Some (rx, out1 @ out2)))"
    by (rule symbol_message [OF M(1,2) parse _ d(1) tracks_rx_dec_ok [OF d(2)]]) (use ep in auto)
  have "\<exists>rx2 es. deliver_events ep True (recovered bufs [(n, i, False)]) now rx1 = Some (rx2, es) \<and> (\<forall>e \<in> set es. is_ack e) \<and>
      holding ep fid ?k ?ts ?data ?t0 {..<Suc i} rx2"
  proof (cases "i = 0")
    case True
    have "idle_for ep fid ?k rx1" using mid True rx1(1,2) by (simp add: midway_def idle_for_def resting_def)
    then show ?thesis using deliver_idle [OF _ len bufs, of ep rx1 "[(n, i, False)]" now] i True rx1(1) by (simp add: lessThan_Suc)
  next
    case False
    then have "assembling ep fid ?k ?ts ?data ?t0 {..<i} rx1" using mid i n rx1 by (simp add: midway_def assembling_def)
    then show ?thesis
      using deliver_holding [OF _ len bufs, of ep ?t0 "{..<i}" rx1 "[(n, i, False)]" now] i by (simp add: holding_def lessThan_Suc)
  qed
  then obtain rx2 es where del: "deliver_events ep True [EvRecovered n ?p False] now rx1 = Some (rx2, es)" "\<forall>e \<in> set es. is_ack e"
      "holding ep fid ?k ?ts ?data ?t0 {..<Suc i} rx2"
    unfolding recovered_def by auto
  have ok2: "rx_ok rx2" "active_epoch rx2 = Some ep" using del(3) by (auto simp: holding_def assembling_def assembled_def)
  obtain rx' evs where fl: "flush_reorder now rx2 = Some (rx', evs)" "rx_ok rx'" "active_epoch rx' = Some ep" "rx_decoder rx' = d"
    using flush_reorder_ok [OF ok2(1), of now] ok2(2) deliver_one_decoder [OF del(1)] rx1(1) by auto
  have on: "on_message m now rx = Some (rx', es @ evs)" unfolding rx1(3) del(1) by (simp add: fl(1))
  have gate: "monitored gate_monitor gate_rel Open rx' (es @ evs)"
    by (rule gate.message [OF M(1) _ on]) (use M(3) in \<open>simp add: gate_rel_def\<close>)
  show ?thesis
  proof (cases "Suc i = length bufs")
    case True
    then have "assembled ep fid ?k ?ts ?data ?t0 rx2" using del(3) n by (auto simp: holding_def assembling_def)
    then obtain rx'' where fa: "flush_reorder now rx2 = Some (rx'', [RxFrame (unit_for ep fid ?t0 f)])" "next_frame_id rx'' = Some (fid + 1)"
      "rx_pending rx'' = Map.empty" "rx_completed rx'' = Map.empty" "last_timestamp_us rx'' = ?ts"
      using flush_assembled [OF _ len, of ep fid ?k ?ts ?t0 rx2 now] unfolding unit_for_def by blast
    then have eq: "rx'' = rx'" "evs = [RxFrame (unit_for ep fid ?t0 f)]" using fl(1) by simp_all
    have "pending_order rx' = []" "completed_order rx' = []"
      using rx_invD(3,5) [OF fl(2) [unfolded rx_ok_def]] fa(3,4) eq by simp_all
    moreover have "shown (es @ evs) = map RxFrame [unit_for ep fid ?t0 f]" using shown_acks [OF del(2)] eq by simp
    moreover have "\<not> awaiting_idr rx'" by (rule open_stays [OF gate calculation(3)])
    ultimately have "midway ep fid f (Suc i) rx'" using fl fa eq True n by (auto simp: midway_def resting_def)
    then show ?thesis using on fa eq True d(2) fl(4) shown_acks [OF del(2)] by simp
  next
    case False
    then have a: "assembling ep fid ?k ?ts ?data ?t0 {..<Suc i} rx2" using del(3) n i by (auto simp: holding_def)
    then have "completed_order rx2 = []" using rx_invD(5) [OF ok2(1) [unfolded rx_ok_def]] by (simp add: assembling_def)
    then have eq: "rx' = rx2" "evs = []" using fl(1) flush_nothing [of rx2 now] by simp_all
    have "\<not> awaiting_idr rx'" by (rule open_stays [OF gate, of "[]"]) (use eq shown_acks [OF del(2)] in simp)
    moreover have "last_timestamp_us rx2 = ?t0" using a by (simp add: assembling_def)
    ultimately have "midway ep fid f (Suc i) rx'" using a eq False n by (simp add: midway_def)
    then show ?thesis using on eq False d(2) fl(4) shown_acks [OF del(2)] \<open>last_timestamp_us rx2 = ?t0\<close> by simp
  qed
qed

text \<open>A repair of the encoder's window changes nothing but the decoder.\<close>

lemma midway_repair:
  assumes "midway ep fid f i rx" "i \<noteq> 0"
    "rx1 = rx\<lparr>active_epoch := Some ep, rx_decoder := d\<rparr>" "rx_ok rx1"
  shows "midway ep fid f i rx1"
  using assms by (auto simp: midway_def resting_def assembling_def)

lemma repair_message:
  assumes mid: "midway ep fid f i rx" "i \<noteq> 0" and tr: "tracks w n (rx_decoder rx)" "0 < w" "w \<le> 128"
    and ep: "epoch_get e = ep" "ep \<noteq> 0" and m: "encode_symbol_msg_v2 (V2Repair e q (n - word_of_nat w) n p) = Inr m"
  shows "\<exists>rx'. on_message m now rx = Some (rx', []) \<and> midway ep fid f i rx' \<and> tracks w n (rx_decoder rx') \<and>
    last_timestamp_us rx' = last_timestamp_us rx"
proof -
  note M = midway_facts [OF mid(1)]
  obtain d where d: "push_symbol (rx_decoder rx) (Repair q (n - word_of_nat w) n p) = Some (d, [])" "tracks w n d"
    using push_repair_in_step [OF tr] by blast
  have parse: "parse_symbol_msg_versioned m = Inr (SymV2 (V2Repair e q (n - word_of_nat w) n p))"
    using m ep by (auto simp: encode_v2_simps parse_symbol_msg_versioned_def parse_v2_repair_encoded split: if_splits)
  obtain rx1 where rx1: "rx1 = rx\<lparr>active_epoch := Some ep, rx_decoder := d\<rparr>" "rx_ok rx1"
    "on_message m now rx = Option.bind (deliver_events ep True [] now rx1) (\<lambda>(rx, out1).
       Option.bind (flush_reorder now rx) (\<lambda>(rx, out2). Some (rx, out1 @ out2)))"
    by (rule symbol_message [OF M(1,2) parse _ d(1) tracks_rx_dec_ok [OF d(2)]]) (use ep in auto)
  have "on_message m now rx = Some (rx1, [])" using rx1(1,3) M(4) flush_nothing [of rx1 now] by simp
  then show ?thesis using midway_repair [OF mid rx1(1,2)] rx1(1) d(2) by simp
qed

section \<open>The key-frame gate in a run\<close>

text \<open>The events that leave a gate shut which a discontinuity has shut.\<close>

fun keeps_shut :: "rx_event \<Rightarrow> bool" where
  "keeps_shut (RxFrame _) = False"
| "keeps_shut (RxDiscontinuity _ r) = (r \<noteq> FrameCrc)"
| "keeps_shut (RxAck _) = True"

lemma gate_stays_shut: "list_all keeps_shut mid \<Longrightarrow> monitor_run gate_monitor Wait mid = Some Wait"
proof (induction mid)
  case (Cons e mid)
  then show ?case by (cases e) auto
qed simp

text \<open>The first symbol of an epoch, which carries the only chunk of a key frame.\<close>

lemma first_of_epoch:
  assumes a: "accept_epoch ep True now rx = ((rxa, out), True)" and new: "rx_decoder rxa = decoder_new RX_DECODER_MAX_SYMBOLS RX_DECODER_MAX_BYTES"
    and idle: "idle_for ep fid True rxa" and len: "length data \<le> 4194304"
    and bufs: "chunk_frame_v2 fid True ts data = Some (Inr [b])" and ep: "epoch_get e = ep" "ep \<noteq> 0"
    and m: "encode_symbol_msg_v2 (V2Source e 0 b) = Inr m"
  shows "\<exists>rx' acks u. on_message m now rx = Some (rx', out @ acks @ [RxFrame u]) \<and> list_all is_ack acks \<and> du_data u = data \<and> du_is_key u \<and>
    rx_ok rx' \<and> active_epoch rx' = Some ep"
proof -
  have pl: "length b \<le> 1185" using m by (simp add: encode_v2_simps split: if_splits)
  obtain d where d: "push_symbol (rx_decoder rxa) (Source 0 b) = Some (d, [EvRecovered 0 b False])" "tracks (Suc 0) 1 d"
    using push_source_in_step [OF tracks_new _ pl] unfolding new by auto
  let ?rx = "rxa\<lparr>rx_decoder := d\<rparr>"
  have parse: "parse_symbol_msg_versioned m = Inr (SymV2 (V2Source e 0 b))"
    using m ep pl by (auto simp: encode_v2_simps parse_symbol_msg_versioned_def parse_v2_source_encoded)
  have "rx_ok ?rx" using idle rx_ok_set_decoder [OF _ tracks_rx_dec_ok [OF d(2)]] by (simp add: idle_for_def)
  then have "idle_for ep fid True ?rx" using idle by (simp add: idle_for_def)
  then obtain rx2 es where del: "deliver_events ep True [EvRecovered 0 b False] now ?rx = Some (rx2, es)" "\<forall>e \<in> set es. is_ack e"
      "holding ep fid True ts data (last_timestamp_us ?rx) {0} rx2"
    using deliver_idle [OF _ len bufs, of ep ?rx "[(0, 0, False)]" now] by (auto simp: recovered_def)
  have n: "length (fragments_v2 data) = 1" using chunk_of_parsed(2) [OF len bufs, of 0] by simp
  then have as: "assembled ep fid True ts data (last_timestamp_us ?rx) rx2" using del(3) by (auto simp: holding_def assembling_def)
  then have ok2: "rx_ok rx2" "active_epoch rx2 = Some ep" by (simp_all add: assembled_def)
  obtain rx' u where fl: "flush_reorder now rx2 = Some (rx', [RxFrame u])" "du_is_key u" "du_data u = data"
    using flush_assembled [OF as len, of now] by auto
  have ok: "rx_ok rx'" "active_epoch rx' = Some ep" using flush_reorder_ok [OF ok2(1), of now] ok2(2) fl(1) by auto
  have "on_message m now rx = Some (rx', out @ es @ [RxFrame u])"
    using parse a d(1) ep del(1) fl(1) by (simp add: on_message_def process_decoder_events_def)
  then show ?thesis using del(2) fl(2,3) ok unfolding list_all_iff by blast
qed

lemma one_chunk: "\<exists>b m. chunk_frame_v2 fid True ts [1, 2, 3] = Some (Inr [b]) \<and> encode_symbol_msg_v2 (V2Source e 0 b) = Inr m"
proof -
  obtain bufs where c: "chunk_frame_v2 fid True ts [1, 2, 3] = Some (Inr bufs)" "length bufs = 1" "\<forall>b \<in> set bufs. length b \<le> 1185"
    using chunk_frame_v2_eq [of "[1, 2, 3]" fid True ts] chunk_frame_v2_lengths [of "[1, 2, 3]" fid True ts]
    by (auto simp: fragments_v2_def chunks.simps ENCODED_FRAME_MAX_def)
  then obtain b where b: "bufs = [b]" "length b \<le> 1185" by (auto simp: length_Suc_conv)
  then show ?thesis using c(1) by (auto simp: encode_v2_simps)
qed

lemma epoch_run:
  "\<exists>m1 m2 rx1 rx2 acks1 acks2 u1 u2. on_message m1 1 (rx_new 0) = Some (rx1, acks1 @ [RxFrame u1]) \<and>
     on_message m2 2 rx1 = Some (rx2, RxDiscontinuity 2 EpochTransition # acks2 @ [RxFrame u2]) \<and> list_all is_ack acks2"
proof -
  obtain b m1 where 1: "chunk_frame_v2 5 True 10 [1, 2, 3] = Some (Inr [b])" "encode_symbol_msg_v2 (V2Source (Epoch 1) 0 b) = Inr m1"
    using one_chunk by blast
  obtain c m2 where 2: "chunk_frame_v2 0 True 20 [1, 2, 3] = Some (Inr [c])" "encode_symbol_msg_v2 (V2Source (Epoch 2) 0 c) = Inr m2"
    using one_chunk by blast
  have "idle_for 1 5 True ((rx_new 0)\<lparr>active_epoch := Some 1\<rparr>)" by (simp add: idle_for_def rx_ok_def rx_inv_def rx_new_def rx_dec_ok_new)
  then obtain rx1 acks1 u1 where m1: "on_message m1 1 (rx_new 0) = Some (rx1, acks1 @ [RxFrame u1])" "rx_ok rx1" "active_epoch rx1 = Some 1"
    using first_of_epoch [of 1 1 "rx_new 0" "(rx_new 0)\<lparr>active_epoch := Some 1\<rparr>" "[]" 5 "[1, 2, 3]" 10 b "Epoch 1" m1] 1
    by (auto simp: accept_epoch_def rx_new_def)
  let ?a = "accept_epoch 2 True 2 rx1"
  have a: "?a = ((fst (fst ?a), [RxDiscontinuity 2 EpochTransition]), True)" "rx_decoder (fst (fst ?a)) = decoder_new RX_DECODER_MAX_SYMBOLS RX_DECODER_MAX_BYTES"
    "active_epoch (fst (fst ?a)) = Some 2" "pending_order (fst (fst ?a)) = []" "completed_order (fst (fst ?a)) = []" "next_frame_id (fst (fst ?a)) = None"
    using m1(3) by (simp_all add: accept_epoch_def discontinue_def Let_def)
  have "idle_for 2 0 True (fst (fst ?a))" using a(3-6) accept_epoch_ok(1) [OF m1(2), of 2 True 2] by (simp add: idle_for_def)
  then obtain rx2 acks2 u2 where "on_message m2 2 rx1 = Some (rx2, [RxDiscontinuity 2 EpochTransition] @ acks2 @ [RxFrame u2])" "list_all is_ack acks2"
    using first_of_epoch [OF a(1,2), of 0 "[1, 2, 3]" 20 c "Epoch 2" m2] 2 by auto
  then show ?thesis using m1(1) unfolding append_Cons append_Nil by blast
qed

text \<open>
  C3. The key-frame gate. In the events of any run of messages, ticks and polls, the first frame emitted after a discontinuity is a
  key frame, so that no delta frame reaches the decoder without its references, provided that neither the discontinuity (an
  epoch transition, a reorder gap, an eviction, a metadata mismatch, a memory cap or an FEC loss) nor one between it and the
  frame is a \<open>FrameCrc\<close>. The frames of a new epoch after those of the old one are an instance.
\<close>

theorem key_frame_gate:
  assumes "rx_trace rx (before @ RxDiscontinuity ep r # mid @ RxFrame u # after)" and "r \<noteq> FrameCrc" and "list_all keeps_shut mid"
  shows "du_is_key u"
proof -
  obtain g where "monitor_run gate_monitor g (RxDiscontinuity ep r # mid @ RxFrame u # after) \<noteq> None"
    using gate.traces [OF assms(1)] by (cases "monitor_run gate_monitor Open before") (auto simp: monitored_def monitor_run_append)
  then show ?thesis using assms(2) gate_stays_shut [OF assms(3)] by (auto simp: monitor_run_append split: if_splits)
qed

theorem key_frame_gate_witness:
  "\<exists>m1 m2 rx1 rx2 acks1 acks2 u1 u2. on_message m1 1 (rx_new 0) = Some (rx1, acks1 @ [RxFrame u1]) \<and>
     on_message m2 2 rx1 = Some (rx2, RxDiscontinuity 2 EpochTransition # acks2 @ [RxFrame u2]) \<and> du_is_key u2"
proof -
  obtain m1 m2 rx1 rx2 acks1 acks2 u1 u2 where m: "on_message m1 1 (rx_new 0) = Some (rx1, acks1 @ [RxFrame u1])"
      "on_message m2 2 rx1 = Some (rx2, RxDiscontinuity 2 EpochTransition # acks2 @ [RxFrame u2])" "list_all is_ack acks2"
    using epoch_run by blast
  have "rx_trace rx1 ([] @ acks1 @ [RxFrame u1])" by (rule rx_next [OF rx_start [of 0], of "InMessage m1 1"]) (use m(1) in simp)
  then have "rx_trace rx2 (([] @ acks1 @ [RxFrame u1]) @ RxDiscontinuity 2 EpochTransition # acks2 @ [RxFrame u2])"
    by (rule rx_next [of _ _ "InMessage m2 2"]) (use m(2) in simp)
  moreover have "list_all keeps_shut acks2" using m(3) by (auto simp: list_all_iff is_ack_def)
  ultimately have "du_is_key u2"
    using key_frame_gate [of rx2 "[] @ acks1 @ [RxFrame u1]" 2 EpochTransition acks2 u2 "[]"] by simp
  then show ?thesis using m by blast
qed

section \<open>Inputs without a message\<close>

fun rx_run :: "rx_input list \<Rightarrow> video_receiver \<Rightarrow> (video_receiver \<times> rx_event list) option" where
  "rx_run [] rx = Some (rx, [])"
| "rx_run (i # is) rx =
     Option.bind (rx_step i rx) (\<lambda>(rx, es). map_option (\<lambda>(rx, es'). (rx, es @ es')) (rx_run is rx))"

fun messages :: "rx_input list \<Rightarrow> bytes list" where
  "messages [] = []"
| "messages (InMessage m t # is) = m # messages is"
| "messages (_ # is) = messages is"

lemma rx_run_append:
  "rx_run (a @ b) rx = Option.bind (rx_run a rx) (\<lambda>(rx, es). map_option (\<lambda>(rx, es'). (rx, es @ es')) (rx_run b rx))"
proof (induction a arbitrary: rx)
  case Nil
  then show ?case by (cases "rx_run b rx") auto
next
  case (Cons i a)
  show ?case
  proof (cases "rx_step i rx")
    case (Some r)
    obtain rx1 es1 where r: "r = (rx1, es1)" by (cases r)
    show ?thesis
    proof (cases "rx_run a rx1")
      case (Some q)
      then show ?thesis using \<open>rx_step i rx = Some r\<close> r Cons.IH [of rx1]
        by (cases q; cases "rx_run b (fst q)") auto
    qed (use Some r Cons.IH [of rx1] in auto)
  qed simp
qed

lemma messages_append [simp]: "messages (a @ b) = messages a @ messages b"
  by (induction a rule: messages.induct) auto

lemma messages_cons: "messages is = m # ms \<Longrightarrow> \<exists>a t b. is = a @ InMessage m t # b \<and> messages a = [] \<and> messages b = ms"
proof (induction "is")
  case (Cons x xs)
  show ?case
  proof (cases "\<exists>t. x = InMessage m t")
    case True
    then show ?thesis using Cons.prems by (auto intro!: exI [of _ "[]"])
  next
    case False
    then have quiet: "messages [x] = []" "messages xs = m # ms" using Cons.prems by (cases x; simp)+
    then obtain a t b where "xs = a @ InMessage m t # b" "messages a = []" "messages b = ms" using Cons.IH by blast
    then show ?thesis using quiet(1) messages_append [of "[x]" a] by (intro exI [of _ "x # a"] exI [of _ t] exI [of _ b]) simp
  qed
qed simp

lemma messages_split: "messages is = a @ b \<Longrightarrow> \<exists>i j. is = i @ j \<and> messages i = a \<and> messages j = b"
proof (induction a arbitrary: "is")
  case Nil
  then show ?case by (intro exI [of _ "[]"] exI [of _ "is"]) simp
next
  case (Cons m a)
  then obtain p t q where 1: "is = p @ InMessage m t # q" "messages p = []" "messages q = a @ b" using messages_cons [of "is" m "a @ b"] by auto
  then obtain i j where "q = i @ j" "messages i = a" "messages j = b" using Cons.IH by blast
  then show ?case using 1 by (intro exI [of _ "p @ InMessage m t # i"] exI [of _ j]) simp
qed

lemma midway_tick [simp]:
  "midway ep fid f i (fst (tick_ack now rx)) = midway ep fid f i rx" "last_timestamp_us (fst (tick_ack now rx)) = last_timestamp_us rx"
proof -
  let ?rx = "fst (tick_ack now rx)"
  have "rx_pending ?rx = rx_pending rx" "rx_completed ?rx = rx_completed rx" "pending_order ?rx = pending_order rx"
    "completed_order ?rx = completed_order rx" "next_frame_id ?rx = next_frame_id rx" "awaiting_idr ?rx = awaiting_idr rx"
    "last_timestamp_us ?rx = last_timestamp_us rx"
    by (simp_all add: tick_ack_def Let_def split: option.split)
  then show "midway ep fid f i ?rx = midway ep fid f i rx" "last_timestamp_us ?rx = last_timestamp_us rx"
    by (simp_all add: midway_def resting_def assembling_def)
qed

definition quietly :: "u32 \<Rightarrow> u32 \<Rightarrow> fec_frame \<Rightarrow> nat \<Rightarrow> video_receiver \<Rightarrow> (video_receiver \<times> rx_event list) option \<Rightarrow> bool" where
  "quietly ep fid f i rx r \<longleftrightarrow> (\<exists>rx' es. r = Some (rx', es) \<and> shown es = [] \<and> midway ep fid f i rx' \<and>
     rx_decoder rx' = rx_decoder rx \<and> last_timestamp_us rx' = last_timestamp_us rx)"

lemma quiet_step:
  assumes mid: "midway ep fid f i rx" and x: "messages [x] = []"
  shows "quietly ep fid f i rx (rx_step x rx)"
proof (cases x)
  case (InTickEvents now)
  then show ?thesis using flush_nothing [OF midway_facts(4) [OF mid], of now] mid
    midway_tick(1) [of ep fid f i now rx] midway_tick(2) [of now rx] tick_ack_ok(3) [of now rx]
    by (cases "tick_ack now rx") (auto simp: quietly_def tick_events_def)
next
  case (InTick now)
  then show ?thesis using mid midway_tick(1) [of ep fid f i now rx] midway_tick(2) [of now rx] tick_ack_ok(3) [of now rx]
    by (cases "tick_ack now rx") (auto simp: quietly_def rx_tick_def)
next
  case InPoll
  have "rx_ok (rx\<lparr>needs_idr := False\<rparr>) = rx_ok rx" by simp
  then have "midway ep fid f i (rx\<lparr>needs_idr := False\<rparr>) = midway ep fid f i rx" by (simp add: midway_def resting_def assembling_def)
  then show ?thesis using InPoll mid by (simp add: quietly_def poll_needs_idr_def)
qed (use x in simp)

lemma quiet_run: "midway ep fid f i rx \<Longrightarrow> messages xs = [] \<Longrightarrow> quietly ep fid f i rx (rx_run xs rx)"
proof (induction xs arbitrary: rx)
  case (Cons x xs)
  have m: "messages [x] = []" "messages xs = []" using Cons.prems(2) by (cases x; simp)+
  obtain rx1 es where 1: "rx_step x rx = Some (rx1, es)" "shown es = []" "midway ep fid f i rx1"
      "rx_decoder rx1 = rx_decoder rx" "last_timestamp_us rx1 = last_timestamp_us rx"
    using quiet_step [OF Cons.prems(1) m(1)] by (auto simp: quietly_def)
  then show ?case using Cons.IH [OF 1(3) m(2)] by (auto simp: quietly_def)
qed (simp add: quietly_def)

section \<open>The receiver follows the sender\<close>

text \<open>A repair of the window as it is now, which ends at the newest source.\<close>

definition latest :: "fec_sender \<Rightarrow> symbol \<Rightarrow> bool" where
  "latest st r \<longleftrightarrow> window (fs_encoder st) \<noteq> [] \<and>
     (\<exists>q p. r = Repair q (fs_next_seq st - word_of_nat (length (window (fs_encoder st)))) (fs_next_seq st) p)"

definition steady :: "fec_sender \<Rightarrow> bool" where
  "steady st \<longleftrightarrow> fs_wire_version st = WireV2 \<and> window_max_symbols (enc_config (fs_encoder st)) = 64 \<and>
     (\<forall>r \<in> set (pc_repairs (fs_pc st)). latest st r)"

text \<open>The task is about to send chunk \<open>i\<close> of frame \<open>f\<close>, which has the number \<open>fid\<close>.\<close>

definition sending :: "bytes list \<Rightarrow> u32 \<Rightarrow> u32 \<Rightarrow> fec_frame \<Rightarrow> nat \<Rightarrow> bool" where
  "sending cs next_id fid f i \<longleftrightarrow> next_id = fid + 1 \<and> length (ff_data f) \<le> 4194304 \<and>
     (\<exists>bufs. chunk_frame_v2 fid (ff_is_key f) (ff_timestamp_us f) (ff_data f) = Some (Inr bufs) \<and> i \<le> length bufs \<and> cs = drop i bufs)"

fun spot :: "sender_pc \<Rightarrow> u32 \<Rightarrow> u32 \<Rightarrow> fec_frame \<Rightarrow> nat \<Rightarrow> bool" where
  "spot AtSelect next_id fid f i \<longleftrightarrow> i = 0 \<and> next_id = fid"
| "spot AtPop next_id fid f i \<longleftrightarrow> i = 0 \<and> next_id = fid"
| "spot (AtChunk g cs) next_id fid f i \<longleftrightarrow> g = f \<and> sending cs next_id fid f i"
| "spot (AtRepair g cs rs) next_id fid f i \<longleftrightarrow> g = f \<and> i \<noteq> 0 \<and> sending cs next_id fid f i"
| "spot _ next_id fid f i \<longleftrightarrow> True"

definition link :: "u32 \<Rightarrow> fec_sender \<Rightarrow> video_receiver \<Rightarrow> bool" where
  "link ep st rx \<longleftrightarrow> steady st \<and>
     (\<exists>fid f i. midway ep fid f i rx \<and> spot (fs_pc st) (fs_next_frame_id st) fid f i) \<and>
     (closing (fs_pc st) \<or> tracks (length (window (fs_encoder st))) (fs_next_seq st) (rx_decoder rx))"

text \<open>The number of the next frame to be finished.\<close>

fun next_out :: "sender_pc \<Rightarrow> u32 \<Rightarrow> u32" where
  "next_out (AtChunk f (c # cs)) next_id = next_id - 1"
| "next_out (AtRepair f (c # cs) rs) next_id = next_id - 1"
| "next_out _ next_id = next_id"

lemma link_same:
  assumes "link ep st rx" "fs_pc st' = fs_pc st" "fs_next_frame_id st' = fs_next_frame_id st" "fs_encoder st' = fs_encoder st"
    "fs_next_seq st' = fs_next_seq st" "fs_wire_version st' = fs_wire_version st"
  shows "link ep st' rx"
  using assms by (simp add: link_def steady_def latest_def)

lemma link_closing:
  assumes "link ep st rx" "fs_wire_version st' = WireV2" "window_max_symbols (enc_config (fs_encoder st')) = 64" "closing (fs_pc st')"
  shows "link ep st' rx"
proof -
  have "pc_repairs (fs_pc st') = []" "spot (fs_pc st') nid fid f i" for nid fid f i using assms(4) by (cases "fs_pc st'"; simp)+
  then show ?thesis using assms by (auto simp: link_def steady_def)
qed

lemma link_exit: "link ep st rx \<Longrightarrow> link ep (exit_with r st) rx"
  by (rule link_closing [of ep st rx]) (simp_all add: exit_with_def link_def steady_def)

lemma link_quiet:
  assumes "link ep st rx" "messages xs = []"
  shows "\<exists>rx' es. rx_run xs rx = Some (rx', es) \<and> shown es = [] \<and> link ep st rx' \<and> last_timestamp_us rx' = last_timestamp_us rx"
proof -
  obtain fid f i where mid: "midway ep fid f i rx" "spot (fs_pc st) (fs_next_frame_id st) fid f i" using assms(1) by (auto simp: link_def)
  obtain rx' es where r: "rx_run xs rx = Some (rx', es)" "shown es = []" "midway ep fid f i rx'"
     "rx_decoder rx' = rx_decoder rx" "last_timestamp_us rx' = last_timestamp_us rx"
    using quiet_run [OF mid(1) assms(2)] by (auto simp: quietly_def)
  then have "link ep st rx'" using assms(1) mid(2) by (auto simp: link_def)
  then show ?thesis using r by blast
qed

lemma link_select: "fs_pc st = AtSelect \<or> fs_pc st = AtPop \<Longrightarrow> link ep st rx \<longleftrightarrow> steady st \<and> resting ep (fs_next_frame_id st) rx \<and>
    tracks (length (window (fs_encoder st))) (fs_next_seq st) (rx_decoder rx)"
  by (auto simp: link_def midway_start)

subsection \<open>Steps that send nothing\<close>

lemma link_recv:
  assumes l: "link ep st rx" and ok: "stream_ok src st" and pc: "fs_pc st = AtSelect"
  shows "link ep (recv_cmd st) rx" "closing (fs_pc (recv_cmd st)) \<or> fs_pc (recv_cmd st) = AtSelect"
    "fs_next_frame_id (recv_cmd st) = fs_next_frame_id st"
proof -
  have "session_inv src (fs_next_seq st) (fs_encoder st)" using ok by (simp add: stream_ok_def)
  then have "\<exists>k. window (acknowledge (fs_encoder st) v) = drop k (window (fs_encoder st))" for v
    using acknowledge_window [of "fs_encoder st" v] by (metis drop0 session_inv_def window_of_def)
  then have "length (window (acknowledge (fs_encoder st) v)) \<le> length (window (fs_encoder st))" for v by (metis length_drop diff_le_self)
  then have ack: "link ep (st\<lparr>fs_acks := cmds, fs_encoder := acknowledge (fs_encoder st) v\<rparr>) rx" for cmds v
    using l pc same_caps_ack [of "fs_encoder st" v] by (auto simp: link_select steady_def same_caps_def elim: tracks_mono)
  have same: "link ep (st\<lparr>fs_acks := cmds, fs_active := b\<rparr>) rx" "link ep (st\<lparr>fs_acks := cmds, fs_needs_idr := b\<rparr>) rx" for cmds b
    by (rule link_same [OF l]; simp)+
  show "link ep (recv_cmd st) rx"
    using ack same l by (auto simp: recv_cmd_def link_exit split: list.split ack_cmd.split)
  show "closing (fs_pc (recv_cmd st)) \<or> fs_pc (recv_cmd st) = AtSelect" "fs_next_frame_id (recv_cmd st) = fs_next_frame_id st"
    using pc by (auto simp: recv_cmd_def exit_with_def split: list.split ack_cmd.split)
qed

lemma link_pop:
  assumes l: "link ep st rx" and ok: "frames_ok st" and pc: "fs_pc st = AtPop" and p: "pop_frame now st = Some st'"
  shows "link ep st' rx" "next_out (fs_pc st') (fs_next_frame_id st') = fs_next_frame_id st"
proof -
  let ?f = "last (fs_queue st)" and ?fid = "fs_next_frame_id st"
  have L: "steady st" "resting ep ?fid rx" "tracks (length (window (fs_encoder st))) (fs_next_seq st) (rx_decoder rx)"
    using l pc by (simp_all add: link_select)
  have "link ep st' rx \<and> next_out (fs_pc st') (fs_next_frame_id st') = ?fid"
  proof (cases "fs_queue st = [] \<or> is_expired now ?f")
    case True
    then show ?thesis using p pc L by (auto simp: pop_frame_def Let_def link_select steady_def latest_def split: if_splits)
  next
    case False
    have v: "fs_wire_version st = WireV2" using L(1) by (simp add: steady_def)
    then have len: "length (ff_data ?f) \<le> 4194304" using ok False by (simp add: frames_ok_def ENCODED_FRAME_MAX_def)
    then have "length (ff_data ?f) \<le> ENCODED_FRAME_MAX" by (simp add: ENCODED_FRAME_MAX_def)
    then obtain cs where cs: "chunk_frame_v2 ?fid (ff_is_key ?f) (ff_timestamp_us ?f) (ff_data ?f) = Some (Inr cs)"
      using chunk_frame_v2_lengths by blast
    have "length cs = length (fragments_v2 (ff_data ?f))" "0 < length cs"
      using chunk_frame_v2_eq [OF len, of ?fid "ff_is_key ?f" "ff_timestamp_us ?f"] cs fragment_count [OF len] by auto
    then obtain c cs' where "cs = c # cs'" by (cases cs) auto
    moreover have "st' = st\<lparr>fs_queue := butlast (fs_queue st), fs_next_frame_id := ?fid + 1, fs_pc := AtChunk ?f cs\<rparr>"
      using False v cs p by (simp add: pop_frame_def Let_def)
    moreover have "sending cs (?fid + 1) ?fid ?f 0" using len cs by (simp add: sending_def)
    moreover have "midway ep ?fid ?f 0 rx" using L(2) by (simp add: midway_def)
    ultimately show ?thesis using L(1,3) by (auto simp: link_def steady_def)
  qed
  then show "link ep st' rx" "next_out (fs_pc st') (fs_next_frame_id st') = ?fid" by simp_all
qed

lemma link_done:
  assumes l: "link ep st rx" and pc: "fs_pc st = AtChunk g []" and st': "st' = st\<lparr>fs_pc := AtPop\<rparr>"
  shows "link ep st' rx"
proof -
  obtain fid i bufs where L: "midway ep fid g i rx" "fs_next_frame_id st = fid + 1" "length (ff_data g) \<le> 4194304"
      "chunk_frame_v2 fid (ff_is_key g) (ff_timestamp_us g) (ff_data g) = Some (Inr bufs)" "i \<le> length bufs" "drop i bufs = []"
    and S: "steady st" "tracks (length (window (fs_encoder st))) (fs_next_seq st) (rx_decoder rx)"
    using l pc by (auto simp: link_def sending_def)
  have "length bufs = length (fragments_v2 (ff_data g))" "0 < length bufs"
    using chunk_frame_v2_eq [OF L(3), of fid "ff_is_key g" "ff_timestamp_us g"] L(4) fragment_count [OF L(3)] by auto
  moreover have "i = length bufs" using L(5,6) by simp
  ultimately have "resting ep (fid + 1) rx" using L(1) by (auto simp: midway_def)
  then show ?thesis using S L(2) by (simp add: st' link_select steady_def)
qed

lemma link_next_chunk:
  assumes l: "link ep st rx" and pc: "fs_pc st = AtRepair g cs rs" and st': "st' = st\<lparr>fs_needs_idr := b, fs_pc := AtChunk g cs\<rparr>"
  shows "link ep st' rx" "next_out (fs_pc st') (fs_next_frame_id st') = next_out (fs_pc st) (fs_next_frame_id st)"
proof -
  show "link ep st' rx" using l pc by (auto simp: st' link_def steady_def)
  show "next_out (fs_pc st') (fs_next_frame_id st') = next_out (fs_pc st) (fs_next_frame_id st)" using pc by (cases cs) (simp_all add: st')
qed

subsection \<open>Steps that send\<close>

lemma repair_of_latest:
  assumes "contiguous ws" "ws \<noteq> []" "length ws \<le> 128" "we_seq (last ws) = n"
  shows "\<exists>p. repair_of q ws = Repair q (n + 1 - word_of_nat (length ws)) (n + 1) p"
proof -
  have "unat (n + 1 - we_seq (hd ws)) = length ws" using contiguous_range(2) [OF assms(1-3)] assms(4) by simp
  then have "n + 1 - we_seq (hd ws) = word_of_nat (length ws)" using assms(3) by (simp add: word_unat_eq_iff unat_of_nat)
  then have "we_seq (hd ws) = n + 1 - word_of_nat (length ws)" by (simp add: algebra_simps)
  then show ?thesis using assms(2,4) by (simp add: repair_of_def)
qed

lemma push_latest:
  assumes inv: "session_inv src n e" and cap: "window_max_symbols (enc_config e) = 64" and len: "length p \<le> 1185"
    and push: "enc_push_source e n p = Some (e', out)"
  shows "eo_source out = Source n p" "enc_config e' = enc_config e" "length (window e) \<le> 64" "length (window e') \<le> Suc (length (window e))"
    "window e' \<noteq> []" "length (window e') \<le> 64"
    "\<forall>r \<in> set (eo_repairs out). \<exists>q pl. r = Repair q (n + 1 - word_of_nat (length (window e'))) (n + 1) pl"
proof -
  have ok: "enc_ok e" "contiguous (window e)" "window e = [] \<or> n = we_seq (last (window e)) + 1"
    using inv by (auto simp: session_inv_def window_of_def)
  have "length p \<le> 65520" using len by simp
  obtain k f N where P: "out = \<lparr>eo_source = Source n p, eo_repairs = map (\<lambda>i. repair_of (f i) (window e')) [0..<N]\<rparr>"
      "window e' = drop k (window e) @ [\<lparr>we_seq = n, prefixed_payload = prefixed p\<rparr>]" "enc_config e' = enc_config e" "enc_ok e'"
    using enc_push_source_spec [OF ok(1) \<open>length p \<le> 65520\<close>, of n] push by auto
  show "eo_source out = Source n p" "enc_config e' = enc_config e" "window e' \<noteq> []" "length (window e') \<le> Suc (length (window e))"
    using P by simp_all
  show "length (window e) \<le> 64" using ok(1) cap by (simp add: enc_ok_def)
  show l': "length (window e') \<le> 64" using P(3,4) cap by (simp add: enc_ok_def)
  have "contiguous [x]" for x by (simp add: contiguous_def)
  then have c: "contiguous (window e')"
    using ok(2,3) contiguous_drop [OF ok(2), of k] by (cases "k < length (window e)") (auto simp: P(2) contiguous_snoc)
  have "\<exists>q' pl. repair_of q (window e') = Repair q' (n + 1 - word_of_nat (length (window e'))) (n + 1) pl" for q
    using repair_of_latest [OF c, of n q] l' P(2) by auto
  then show "\<forall>r \<in> set (eo_repairs out). \<exists>q pl. r = Repair q (n + 1 - word_of_nat (length (window e'))) (n + 1) pl"
    using P(1) by auto
qed

text \<open>The frames a receiver is to emit for the frames a sender has finished.\<close>

fun units :: "u32 \<Rightarrow> u32 \<Rightarrow> u32 \<Rightarrow> fec_frame list \<Rightarrow> decode_unit list" where
  "units ep fid t0 [] = []"
| "units ep fid t0 (f # fs) = unit_for ep fid t0 f # units ep (fid + 1) (ff_timestamp_us f) fs"

definition emits :: "u32 \<Rightarrow> fec_sender \<Rightarrow> video_receiver \<Rightarrow> fec_frame list \<Rightarrow> fec_sender \<Rightarrow> (video_receiver \<times> rx_event list) option \<Rightarrow> bool" where
  "emits ep st rx fs st' r \<longleftrightarrow> (\<exists>rx' evs. r = Some (rx', evs) \<and> link ep st' rx' \<and>
     shown evs = map RxFrame (units ep (next_out (fs_pc st) (fs_next_frame_id st)) (last_timestamp_us rx) fs) \<and>
     (closing (fs_pc st') \<or>
        next_out (fs_pc st') (fs_next_frame_id st') = next_out (fs_pc st) (fs_next_frame_id st) + word_of_nat (length fs)) \<and>
     last_timestamp_us rx' = (if fs = [] then last_timestamp_us rx else ff_timestamp_us (last fs)))"

lemma send_chunk_sent:
  assumes "send_chunk f c cs now sent st = Some (st', [m])" "session_inv src (fs_next_seq st) (fs_encoder st)"
    "fs_wire_version st = WireV2" "window_max_symbols (enc_config (fs_encoder st)) = 64" "length c \<le> 1185"
  obtains e' out where "enc_push_source (fs_encoder st) (fs_next_seq st) c = Some (e', out)"
    "encode_symbol_msg_v2 (V2Source (fs_epoch st) (fs_next_seq st) c) = Inr m"
    "st' = st\<lparr>fs_next_seq := fs_next_seq st + 1, fs_encoder := e', fs_pc := AtRepair f cs (eo_repairs out)\<rparr>"
proof -
  have go: "\<not> is_expired now f" "fs_generation st = fs_own_generation st"
    using assms(1) by (auto simp: send_chunk_def split: if_splits)
  obtain e' out where p: "enc_push_source (fs_encoder st) (fs_next_seq st) c = Some (e', out)"
    using assms(1) go by (auto simp: send_chunk_def Let_def bind_eq_Some_conv)
  have src: "eo_source out = Source (fs_next_seq st) c" by (rule push_latest(1) [OF assms(2,4,5) p])
  show ?thesis
  proof (cases "encode_symbol_msg_v2 (V2Source (fs_epoch st) (fs_next_seq st) c)")
    case (Inl e)
    then show ?thesis using assms(1,3) go p src by (simp add: send_chunk_def encode_symbol_def)
  next
    case (Inr b)
    then have "b = m" "st' = st\<lparr>fs_next_seq := fs_next_seq st + 1, fs_encoder := e', fs_pc := AtRepair f cs (eo_repairs out)\<rparr>"
      using assms(1,3) go p src by (auto simp: send_chunk_def encode_symbol_def Let_def split: if_splits)
    then show ?thesis using that p Inr by simp
  qed
qed

lemma link_send_chunk:
  assumes l: "link ep st rx" and ok: "frames_ok st" "stream_ok src st" and pc: "fs_pc st = AtChunk f (c # cs)"
    and ep: "epoch_get (fs_epoch st) = ep" "ep \<noteq> 0"
    and s: "send_chunk f c cs now sent st = Some (st', [m])"
  shows "emits ep st rx (if cs = [] then [f] else []) st' (on_message m t rx)"
proof -
  let ?n = "fs_next_seq st" and ?e = "fs_encoder st" and ?w = "length (window (fs_encoder st))"
  obtain fid i bufs where L: "midway ep fid f i rx" "fs_next_frame_id st = fid + 1" "length (ff_data f) \<le> 4194304"
      "chunk_frame_v2 fid (ff_is_key f) (ff_timestamp_us f) (ff_data f) = Some (Inr bufs)" "i \<le> length bufs" "drop i bufs = c # cs"
    and S: "steady st" "tracks ?w ?n (rx_decoder rx)"
    using l pc by (auto simp: link_def sending_def)
  have lt: "i < length bufs" using L(6) by (cases "i < length bufs") auto
  have i: "bufs ! i = c" "cs = drop (Suc i) bufs" using Cons_nth_drop_Suc [OF lt] L(6) by simp_all
  have v: "fs_wire_version st = WireV2" "window_max_symbols (enc_config ?e) = 64" using S(1) by (auto simp: steady_def)
  have clen: "length c \<le> 1185" using ok(1) pc v by (simp add: frames_ok_def)
  have inv: "session_inv src ?n ?e" using ok(2) by (simp add: stream_ok_def)
  obtain e' out where p: "enc_push_source ?e ?n c = Some (e', out)"
    "encode_symbol_msg_v2 (V2Source (fs_epoch st) ?n c) = Inr m"
    "st' = st\<lparr>fs_next_seq := ?n + 1, fs_encoder := e', fs_pc := AtRepair f cs (eo_repairs out)\<rparr>"
    by (rule send_chunk_sent [OF s inv v clen])
  note P = push_latest [OF inv v(2) clen p(1)]
  have "?w \<le> 127" using P(3) by simp
  obtain rx' evs where R: "on_message m t rx = Some (rx', evs)" "midway ep fid f (Suc i) rx'" "tracks (Suc ?w) (?n + 1) (rx_decoder rx')"
      "shown evs = (if Suc i = length bufs then [RxFrame (unit_for ep fid (last_timestamp_us rx) f)] else [])"
      "last_timestamp_us rx' = (if Suc i = length bufs then ff_timestamp_us f else last_timestamp_us rx)"
    using source_message [OF L(1,3,4) lt S(2) \<open>?w \<le> 127\<close> ep, of m t] p(2) i(1) by blast
  have last_chunk: "Suc i = length bufs \<longleftrightarrow> cs = []" using lt i(2) by auto
  have "sending cs (fid + 1) fid f (Suc i)" using L(3,4) lt i(2) by (auto simp: sending_def)
  moreover have "tracks (length (window e')) (?n + 1) (rx_decoder rx')" by (rule tracks_mono [OF R(3) P(4)])
  moreover have "steady st'" using v P(2,5,7) by (auto simp: p(3) steady_def latest_def)
  ultimately have "link ep st' rx'" using R(2) L(2) by (auto simp: link_def p(3))
  then show ?thesis using R(1,4,5) last_chunk L(2) pc by (cases cs) (auto simp: emits_def p(3))
qed

lemma link_send_repair:
  assumes l: "link ep st rx" and pc: "fs_pc st = AtRepair f cs (r # rs)" and inv: "stream_ok src st"
    and ep: "epoch_get (fs_epoch st) = ep" "ep \<noteq> 0" and s: "send_repair f cs r rs now sent st = (st', [m])"
  shows "emits ep st rx [] st' (on_message m t rx)"
proof -
  let ?n = "fs_next_seq st" and ?w = "length (window (fs_encoder st))"
  obtain fid i where L: "midway ep fid f i rx" "i \<noteq> 0" "sending cs (fs_next_frame_id st) fid f i"
    and S: "steady st" "tracks ?w ?n (rx_decoder rx)"
    using l pc by (auto simp: link_def)
  obtain q p where r: "r = Repair q (?n - word_of_nat ?w) ?n p" and w: "0 < ?w" using S(1) pc by (auto simp: steady_def latest_def)
  have w': "?w \<le> 128" using inv config_ok_unat(3) [of "enc_config (fs_encoder st)"] by (simp add: stream_ok_def session_inv_def enc_ok_def)
  have enc: "encode_symbol_msg_v2 (V2Repair (fs_epoch st) q (?n - word_of_nat ?w) ?n p) = Inr m"
    "st' = st\<lparr>fs_pc := AtRepair f cs rs\<rparr>"
    using s S(1) r by (auto simp: send_repair_def encode_symbol_def steady_def split: if_splits sum.splits)
  obtain rx' where R: "on_message m t rx = Some (rx', [])" "midway ep fid f i rx'" "tracks ?w ?n (rx_decoder rx')"
      "last_timestamp_us rx' = last_timestamp_us rx"
    using repair_message [OF L(1,2) S(2) w w' ep enc(1), of t] by blast
  then have "link ep st' rx'" using S(1) L(2,3) pc by (auto simp: enc(2) link_def steady_def latest_def)
  then show ?thesis using R(1,4) pc by (cases cs) (auto simp: emits_def enc(2))
qed

section \<open>Steps\<close>

text \<open>The frame whose last chunk a step puts on the wire.\<close>

definition finished_in :: "sender_op \<Rightarrow> fec_sender \<Rightarrow> fec_frame list" where
  "finished_in x st =
     (case fs_pc st of
        AtChunk f [c] \<Rightarrow> (case sender_step x st of Some (st', [m]) \<Rightarrow> [f] | _ \<Rightarrow> [])
      | _ \<Rightarrow> [])"

fun finished :: "sender_op list \<Rightarrow> fec_sender \<Rightarrow> fec_frame list" where
  "finished [] st = []"
| "finished (x # xs) st = finished_in x st @ (case sender_step x st of None \<Rightarrow> [] | Some (st, _) \<Rightarrow> finished xs st)"

text \<open>No chunk is skipped because its frame has become stale.\<close>

fun timely_in :: "sender_op \<Rightarrow> fec_sender \<Rightarrow> bool" where
  "timely_in (Task now sent recv) st = (case fs_pc st of AtChunk f (c # cs) \<Rightarrow> \<not> is_expired now f | _ \<Rightarrow> True)"
| "timely_in _ st = True"

fun timely :: "sender_op list \<Rightarrow> fec_sender \<Rightarrow> bool" where
  "timely [] st = True"
| "timely (x # xs) st = (timely_in x st \<and> (case sender_step x st of None \<Rightarrow> True | Some (st, _) \<Rightarrow> timely xs st))"

lemma emits_silent:
  assumes "link ep st' rx" "messages ins = []"
    "closing (fs_pc st') \<or> next_out (fs_pc st') (fs_next_frame_id st') = next_out (fs_pc st) (fs_next_frame_id st)"
  shows "emits ep st rx [] st' (rx_run ins rx)"
  using link_quiet [OF assms(1,2)] assms(3) by (auto simp: emits_def)

lemma emits_message:
  assumes l: "link ep st rx" and m: "messages ins = [m]"
    and on: "\<And>rx t. link ep st rx \<Longrightarrow> emits ep st rx fs st' (on_message m t rx)"
  shows "emits ep st rx fs st' (rx_run ins rx)"
proof -
  obtain a t b where x: "ins = a @ InMessage m t # b" "messages a = []" "messages b = []" using messages_cons [OF m] by blast
  obtain rx1 es1 where 1: "rx_run a rx = Some (rx1, es1)" "shown es1 = []" "link ep st rx1" "last_timestamp_us rx1 = last_timestamp_us rx"
    using link_quiet [OF l x(2)] by blast
  obtain rx2 es2 where 2: "on_message m t rx1 = Some (rx2, es2)" "link ep st' rx2"
      "shown es2 = map RxFrame (units ep (next_out (fs_pc st) (fs_next_frame_id st)) (last_timestamp_us rx) fs)"
      "closing (fs_pc st') \<or> next_out (fs_pc st') (fs_next_frame_id st') = next_out (fs_pc st) (fs_next_frame_id st) + word_of_nat (length fs)"
      "last_timestamp_us rx2 = (if fs = [] then last_timestamp_us rx else ff_timestamp_us (last fs))"
    using on [OF 1(3), of t] 1(4) unfolding emits_def by auto
  obtain rx3 es3 where 3: "rx_run b rx2 = Some (rx3, es3)" "shown es3 = []" "link ep st' rx3" "last_timestamp_us rx3 = last_timestamp_us rx2"
    using link_quiet [OF 2(2) x(3)] by blast
  have "rx_run ins rx = Some (rx3, es1 @ es2 @ es3)" using 1(1) 2(1) 3(1) by (simp add: x(1) rx_run_append)
  then show ?thesis unfolding emits_def using 1(2) 2(3-5) 3(2-4) by (intro exI [of _ rx3] exI [of _ "es1 @ es2 @ es3"]) simp
qed

lemma finished_silent: "sender_step x st = Some (st', []) \<Longrightarrow> finished_in x st = []"
  by (simp add: finished_in_def split: sender_pc.split list.split)

lemma step_chunk:
  assumes l: "link ep st rx" and ok: "frames_ok st" "stream_ok src st" and ep: "epoch_get (fs_epoch st) = ep" "ep \<noteq> 0"
    and pc: "fs_pc st = AtChunk f (c # cs)" and live: "\<not> is_expired now f"
    and s: "send_chunk f c cs now sent st = Some (st', out)" and ins: "messages ins = out"
  shows "emits ep st rx (finished_in (Task now sent recv) st) st' (rx_run ins rx)"
proof -
  have step: "sender_step (Task now sent recv) st = Some (st', out)" using s pc by (simp add: task_step_def)
  have v: "fs_wire_version st = WireV2" "window_max_symbols (enc_config (fs_encoder st)) = 64" using l by (auto simp: link_def steady_def)
  have clen: "length c \<le> 1185" using ok(1) pc v by (simp add: frames_ok_def)
  have inv: "session_inv src (fs_next_seq st) (fs_encoder st)" using ok(2) by (simp add: stream_ok_def)
  have "closing (fs_pc st') \<and> fs_wire_version st' = WireV2 \<and> window_max_symbols (enc_config (fs_encoder st')) = 64 \<and> out = [] \<or> (\<exists>m. out = [m])"
  proof (cases "fs_generation st = fs_own_generation st")
    case True
    then obtain e' o' where p: "enc_push_source (fs_encoder st) (fs_next_seq st) c = Some (e', o')"
      using s live by (auto simp: send_chunk_def Let_def bind_eq_Some_conv)
    then show ?thesis using s live True v push_latest(2) [OF inv v(2) clen p]
      by (cases "encode_symbol (fs_wire_version st) (fs_epoch st) (eo_source o')"; cases sent) (auto simp: send_chunk_def Let_def exit_with_def)
  qed (use s live v in \<open>auto simp: send_chunk_def exit_with_def\<close>)
  then show ?thesis
  proof (elim disjE exE conjE)
    assume c: "closing (fs_pc st')" "fs_wire_version st' = WireV2" "window_max_symbols (enc_config (fs_encoder st')) = 64" "out = []"
    then show ?thesis using emits_silent [OF link_closing [OF l c(2,3,1)], of ins st] ins finished_silent step by simp
  next
    fix m assume "out = [m]"
    moreover have "finished_in (Task now sent recv) st = (if cs = [] then [f] else [])"
      using step pc calculation by (simp add: finished_in_def split: list.split)
    ultimately show ?thesis
      using emits_message [OF l, of ins m] link_send_chunk [OF _ ok pc ep] s ins by simp
  qed
qed

lemma step_repair:
  assumes l: "link ep st rx" and ok: "stream_ok src st" and ep: "epoch_get (fs_epoch st) = ep" "ep \<noteq> 0"
    and pc: "fs_pc st = AtRepair f cs (r # rs)" and s: "send_repair f cs r rs now sent st = (st', out)" and ins: "messages ins = out"
  shows "emits ep st rx [] st' (rx_run ins rx)"
proof -
  consider "st' = st\<lparr>fs_needs_idr := True, fs_pc := AtChunk f cs\<rparr>" "out = []" | x where "st' = exit_with x st" "out = []" | m where "out = [m]"
    using s by (auto simp: send_repair_def split: if_splits sum.splits)
  then show ?thesis
  proof cases
    case 1
    then show ?thesis using emits_silent [of ep st' rx ins st] link_next_chunk [OF l pc 1(1)] ins by simp
  next
    case 2
    then show ?thesis using emits_silent [OF link_exit [OF l, of x], of ins st] ins by (simp add: exit_with_def)
  next
    case 3
    then show ?thesis using emits_message [OF l, of ins m] link_send_repair [OF _ pc ok ep] s ins by simp
  qed
qed

lemma step_other:
  assumes "sender_step x st = Some (st', out)" "\<And>now sent recv. x \<noteq> Task now sent recv"
  shows "out = []" "fs_pc st' = fs_pc st" "fs_next_frame_id st' = fs_next_frame_id st" "fs_encoder st' = fs_encoder st"
    "fs_next_seq st' = fs_next_seq st" "fs_wire_version st' = fs_wire_version st"
proof -
  have "out = [] \<and> fs_pc st' = fs_pc st \<and> fs_next_frame_id st' = fs_next_frame_id st \<and> fs_encoder st' = fs_encoder st \<and>
      fs_next_seq st' = fs_next_seq st \<and> fs_wire_version st' = fs_wire_version st"
    using assms
    by (cases x) (auto simp: enqueue_admit_def enqueue_locked_def forward_control_def take_terminal_exit_def Let_def
        split: list.splits option.splits if_splits)
  then show "out = []" "fs_pc st' = fs_pc st" "fs_next_frame_id st' = fs_next_frame_id st" "fs_encoder st' = fs_encoder st"
    "fs_next_seq st' = fs_next_seq st" "fs_wire_version st' = fs_wire_version st" by simp_all
qed

lemma link_step:
  assumes l: "link ep st rx" and ok: "frames_ok st" "stream_ok src st" and ep: "epoch_get (fs_epoch st) = ep" "ep \<noteq> 0"
    and t: "timely_in x st" and s: "sender_step x st = Some (st', out)" and ins: "messages ins = out"
  shows "emits ep st rx (finished_in x st) st' (rx_run ins rx)"
proof (cases "\<exists>now sent recv. x = Task now sent recv")
  case False
  then have "\<And>now sent recv. x \<noteq> Task now sent recv" by blast
  note O = step_other [OF s this]
  then show ?thesis using emits_silent [OF link_same [OF l O(2-6)], of ins st] ins finished_silent [of x st st'] s by simp
next
  case True
  then obtain now sent recv where x: "x = Task now sent recv" by blast
  have silent: "emits ep st rx (finished_in x st) st' (rx_run ins rx)"
    if "out = []" "link ep st' rx" "closing (fs_pc st') \<or> next_out (fs_pc st') (fs_next_frame_id st') = next_out (fs_pc st) (fs_next_frame_id st)"
    using emits_silent [OF that(2) _ that(3)] that(1) ins finished_silent [of x st st'] s by simp
  have "out = [] \<and> closing (fs_pc st') \<and> fs_wire_version st' = fs_wire_version st \<and> fs_encoder st' = fs_encoder st" if "closing (fs_pc st)"
    using s x that by (cases "fs_pc st") (auto simp: task_step_def)
  then have closed: ?thesis if "closing (fs_pc st)"
    using that l by (intro silent link_closing [OF l]) (auto simp: link_def steady_def)
  show ?thesis
  proof (cases "fs_pc st")
    case AtSelect
    have "link ep (st\<lparr>fs_notify := False, fs_pc := AtPop\<rparr>) rx" using l AtSelect by (simp add: link_select steady_def)
    then show ?thesis using s x l AtSelect link_recv [OF l ok(2) AtSelect]
      by (intro silent) (auto simp: task_step_def split: if_splits)
  next
    case AtPop
    then show ?thesis using s x link_pop [OF l ok(1) AtPop, of now st'] by (intro silent) (auto simp: task_step_def)
  next
    case (AtChunk f cs)
    show ?thesis
    proof (cases cs)
      case Nil
      then show ?thesis using s x AtChunk link_done [OF l] by (intro silent) (auto simp: task_step_def)
    next
      case (Cons c cs')
      then show ?thesis using step_chunk [OF l ok ep, of f c cs' now sent st' out ins recv] s x t AtChunk ins by (simp add: task_step_def)
    qed
  next
    case (AtRepair f cs rs)
    show ?thesis
    proof (cases rs)
      case Nil
      then have "out = []" "st' = st\<lparr>fs_needs_idr := fs_needs_idr st, fs_pc := AtChunk f cs\<rparr>" using s x AtRepair by (auto simp: task_step_def)
      then show ?thesis using link_next_chunk [OF l AtRepair, of st' "fs_needs_idr st"] by (intro silent) simp_all
    next
      case (Cons r rs')
      have "finished_in x st = []" using AtRepair by (simp add: finished_in_def)
      then show ?thesis using step_repair [OF l ok(2) ep, of f cs r rs' now sent st' out ins] s x AtRepair Cons ins by (simp add: task_step_def)
    qed
  qed (use closed in simp_all)
qed

section \<open>Runs\<close>

lemma finished_closing: "closing (fs_pc st) \<Longrightarrow> finished xs st = []"
proof (induction xs arbitrary: st)
  case (Cons x xs)
  then have "finished_in x st = []" by (cases "fs_pc st") (simp_all add: finished_in_def)
  then show ?case using Cons closing_stays [of st x] by (auto split: option.split)
qed simp

lemma finished_in_cases: "finished_in x st = [] \<or> (\<exists>f. finished_in x st = [f])"
  by (auto simp: finished_in_def split: sender_pc.split list.split option.split)

lemma link_run:
  assumes "link ep st rx" "frames_ok st" "stream_ok src st" "\<And>q. length (src q) \<le> payload_limit (fs_wire_version st)" "agrees src xs st"
    "epoch_get (fs_epoch st) = ep" "ep \<noteq> 0" "timely xs st" "sender_run xs st = Some (st', out)" "messages ins = out"
  shows "\<exists>rx' evs. rx_run ins rx = Some (rx', evs) \<and>
    shown evs = map RxFrame (units ep (next_out (fs_pc st) (fs_next_frame_id st)) (last_timestamp_us rx) (finished xs st))"
  using assms
proof (induction xs arbitrary: st rx out ins)
  case Nil
  then show ?case using link_quiet [OF Nil.prems(1), of ins] by auto
next
  case (Cons x xs)
  obtain st1 out1 where s1: "sender_step x st = Some (st1, out1)" "frames_ok st1" "stream_ok src st1"
      "fs_wire_version st1 = fs_wire_version st" "fs_epoch st1 = fs_epoch st" "agrees src xs st1"
    by (rule sender_step_next [OF Cons.prems(2-5)])
  obtain out2 where s2: "sender_run xs st1 = Some (st', out2)" "out = out1 @ out2"
    using Cons.prems(9) s1(1) by auto
  obtain i j where ij: "ins = i @ j" "messages i = out1" "messages j = out2"
    using messages_split [of ins out1 out2] Cons.prems(10) s2(2) by auto
  let ?fid = "next_out (fs_pc st) (fs_next_frame_id st)" and ?fid1 = "next_out (fs_pc st1) (fs_next_frame_id st1)"
  let ?fs = "finished_in x st" and ?gs = "finished xs st1"
  have t: "timely_in x st" "timely xs st1" using Cons.prems(8) s1(1) by auto
  obtain rx1 es1 where r1: "rx_run i rx = Some (rx1, es1)" "link ep st1 rx1"
      "shown es1 = map RxFrame (units ep ?fid (last_timestamp_us rx) ?fs)"
      "closing (fs_pc st1) \<or> ?fid1 = ?fid + word_of_nat (length ?fs)"
      "last_timestamp_us rx1 = (if ?fs = [] then last_timestamp_us rx else ff_timestamp_us (last ?fs))"
    using link_step [OF Cons.prems(1-3,6,7) t(1) s1(1) ij(2)] unfolding emits_def by blast
  have lim: "length (src q) \<le> payload_limit (fs_wire_version st1)" for q using Cons.prems(4) s1(4) by simp
  have ep1: "epoch_get (fs_epoch st1) = ep" using Cons.prems(6) s1(5) by simp
  obtain rx2 es2 where r2: "rx_run j rx1 = Some (rx2, es2)" "shown es2 = map RxFrame (units ep ?fid1 (last_timestamp_us rx1) ?gs)"
    using Cons.IH [OF r1(2) s1(2,3) lim s1(6) ep1 Cons.prems(7) t(2) s2(1) ij(3)] by blast
  have "units ep ?fid (last_timestamp_us rx) (?fs @ ?gs) = units ep ?fid (last_timestamp_us rx) ?fs @ units ep ?fid1 (last_timestamp_us rx1) ?gs"
    using r1(4,5) finished_in_cases [of x st] finished_closing [of st1 xs] by auto
  then have "shown (es1 @ es2) = map RxFrame (units ep ?fid (last_timestamp_us rx) (finished (x # xs) st))"
    using r1(3) r2(2) s1(1) by simp
  moreover have "rx_run ins rx = Some (rx2, es1 @ es2)" using r1(1) r2(1) by (simp add: ij(1) rx_run_append)
  ultimately show ?case by blast
qed

lemma link_start: "link ep (spawn_with_wire own gen idr WireV2 e) (rx_new t)"
proof -
  have "resting ep 0 (rx_new t)" by (simp add: resting_def rx_ok_new) (simp add: rx_new_def)
  moreover have "tracks 0 0 (rx_decoder (rx_new t))" using tracks_new by (simp add: rx_new_def)
  ultimately show ?thesis
    by (subst link_select) (simp_all add: spawn_with_wire_def steady_def encoder_new_def default_streaming_def sanitised_def)
qed

text \<open>
  C1. End to end over a channel that loses nothing. Take any interleaving of the sender (frames enqueued at any time,
  control messages with any acknowledgement, failing sends, supersession, fewer than \<open>2 ^ 32\<close> steps) in which no frame
  becomes stale while it is being sent, and hand its messages to a fresh receiver in order, at any times and with any
  timer ticks and polls in between. Apart from acknowledgements the receiver emits exactly the frames the sender has
  sent completely: in order, numbered from 0, with the bytes, the key flag and the timestamp given to \<open>enqueue\<close>, and no
  discontinuity, whatever the decoder evicted and whatever repairs were on the wire.
\<close>

theorem lossless_delivery:
  assumes "length ops < 2 ^ 32" and "epoch_get ep \<noteq> 0"
    and "timely ops (spawn_with_wire own gen idr WireV2 ep)"
    and "sender_run ops (spawn_with_wire own gen idr WireV2 ep) = Some (st, out)" and "messages ins = out"
  shows "\<exists>rx evs. rx_run ins (rx_new t0) = Some (rx, evs) \<and>
    filter (\<lambda>e. \<not> is_ack e) evs = map RxFrame (units (epoch_get ep) 0 0 (finished ops (spawn_with_wire own gen idr WireV2 ep)))"
proof -
  let ?st = "spawn_with_wire own gen idr WireV2 ep" and ?rx = "rx_new t0"
  have st: "fs_wire_version ?st = WireV2" "fs_epoch ?st = ep" "fs_next_seq ?st = 0" "fs_pc ?st = AtSelect" "fs_next_frame_id ?st = 0"
    by (simp_all add: spawn_with_wire_def)
  obtain src where src: "\<And>q. length (src q) \<le> payload_limit WireV2" "agrees src ops ?st"
    using stream_exists [OF assms(1) st(3,1)] by blast
  have lim: "length (src q) \<le> payload_limit (fs_wire_version ?st)" for q using src(1) [of q] by (simp only: st(1))
  have "epoch_get (fs_epoch ?st) = epoch_get ep" "last_timestamp_us ?rx = 0" by (simp_all add: st(2) rx_new_def)
  moreover have "link (epoch_get ep) ?st ?rx" by (rule link_start)
  ultimately show ?thesis
    using link_run [OF _ spawn_ok(1,2) lim src(2) _ assms(2-5), of ?rx] by (simp add: st shown_def)
qed

text \<open>A subscribed sender is given one key frame of three bytes.\<close>

definition one_frame_run :: "sender_op list" where
  "one_frame_run = [Control (CtlV2 (V2Subscribe (Epoch 7))), Task 0 True True, Admit [1, 2, 3] True 40 0, Locked, Task 1 True False,
     Task 1 True False, Task 2 True False]"

lemma one_frame_run_result:
  "\<exists>st out. timely one_frame_run (spawn_with_wire 1 1 False WireV2 (Epoch 7)) \<and>
     sender_run one_frame_run (spawn_with_wire 1 1 False WireV2 (Epoch 7)) = Some (st, out) \<and>
     finished one_frame_run (spawn_with_wire 1 1 False WireV2 (Epoch 7)) =
       [\<lparr>ff_data = [1, 2, 3], ff_is_key = True, ff_timestamp_us = 40, ff_enqueued_at = 0\<rparr>]"
proof -
  obtain bufs where c: "chunk_frame_v2 0 True 40 [1, 2, 3] = Some (Inr bufs)" "length bufs = 1" "\<forall>b \<in> set bufs. length b \<le> 1185"
    using chunk_frame_v2_eq [of "[1, 2, 3]" 0 True 40] chunk_frame_v2_lengths [of "[1, 2, 3]" 0 True 40]
    by (auto simp: fragments_v2_def chunks.simps ENCODED_FRAME_MAX_def)
  then obtain b where b: "bufs = [b]" "length b \<le> 1185" by (auto simp: length_Suc_conv)
  obtain e' o' where p: "enc_push_source (encoder_new default_streaming) 0 b = Some (e', o')" "eo_source o' = Source 0 b"
    using enc_push_source_spec [OF enc_ok_new, of b default_streaming 0] b(2) by fastforce
  have "encodable WireV2 (Source 0 b)" using b(2) by simp
  then obtain m where m: "encode_symbol WireV2 (Epoch 7) (Source 0 b) = Inr m" using encode_symbol_total by blast
  show ?thesis
    by (simp add: one_frame_run_def spawn_with_wire_def task_step_def forward_control_def recv_cmd_def enqueue_admit_def enqueue_locked_def
        fs_is_active_def pop_frame_def is_expired_def QUEUE_RESIDENCE_MAX_def QUEUE_CAPACITY_def ENCODED_FRAME_MAX_def finished_in_def
        send_chunk_def Let_def c(1) b(1) p m)
qed

theorem lossless_delivery_witness:
  "\<exists>st out rx evs. sender_run one_frame_run (spawn_with_wire 1 1 False WireV2 (Epoch 7)) = Some (st, out) \<and>
     rx_run (InTick 3 # map (\<lambda>m. InMessage m 9) out) (rx_new 0) = Some (rx, evs) \<and>
     filter (\<lambda>e. \<not> is_ack e) evs = [RxFrame \<lparr>du_frame_id = 0, du_epoch = 7, du_is_key = True, du_timestamp_us = 40,
       du_duration_us = 40, du_data = [1, 2, 3]\<rparr>]"
proof -
  let ?st = "spawn_with_wire 1 1 False WireV2 (Epoch 7)"
  obtain st out where r: "timely one_frame_run ?st" "sender_run one_frame_run ?st = Some (st, out)"
      "finished one_frame_run ?st = [\<lparr>ff_data = [1, 2, 3], ff_is_key = True, ff_timestamp_us = 40, ff_enqueued_at = 0\<rparr>]"
    using one_frame_run_result by (elim exE conjE) (rule that)
  have "messages (InTick 3 # map (\<lambda>m. InMessage m 9) out) = out" by (induction out) simp_all
  moreover have "length one_frame_run < 2 ^ 32" by (simp add: one_frame_run_def)
  ultimately show ?thesis
    using lossless_delivery [OF _ _ r(1,2), of "InTick 3 # map (\<lambda>m. InMessage m 9) out" 0] r(2,3) by (simp add: unit_for_def)
qed

end
