(* ===== verification/Annexb.thy ===== *)
theory Annexb
  imports Prelude "HOL-Library.Sublist"
begin

text \<open>
  \<open>annexb.rs\<close> of the streamer: the splitter that cuts an Annex-B byte stream into NAL units at its start codes. The
  reader is the \<open>Cursor\<close> over a frame that the callers use: a list of bytes, which reads nothing at its end and never
  fails. \<open>None\<close> stands for a panic. Splitting loses no byte, and no unit contains a start code.
\<close>

datatype annexb_start_code = B3 | B4

primrec sc_code :: "annexb_start_code \<Rightarrow> bytes" where
  "sc_code B3 = [0, 0, 1]"
| "sc_code B4 = [0, 0, 0, 1]"

definition sc_len :: "annexb_start_code \<Rightarrow> nat" where
  "sc_len c = length (sc_code c)"

text \<open>A \<open>Range<usize>\<close> is the pair of its ends.\<close>

record annexb_data =
  ad_payload_range :: "nat \<times> nat"
  ad_start_code :: annexb_start_code
  ad_start_code_range :: "nat \<times> nat"
  ad_full :: bytes

record annexb_splitter =
  ab_reader :: bytes
  ab_start_code_buffer :: bytes
  ab_current_start_code :: "annexb_start_code option"
  ab_buffer :: bytes

definition annexb_new :: "bytes \<Rightarrow> annexb_splitter" where
  "annexb_new reader =
     \<lparr>ab_reader = reader, ab_start_code_buffer = [2, 2, 2, 2], ab_current_start_code = None, ab_buffer = []\<rparr>"

definition reset_start_code_buffer :: "annexb_splitter \<Rightarrow> annexb_splitter" where
  "reset_start_code_buffer s = s\<lparr>ab_start_code_buffer := [2, 2, 2, 2]\<rparr>"

text \<open>The patterns \<open>[0, 0, 0, 1]\<close> and \<open>[_, 0, 0, 1]\<close> on the last four bytes.\<close>

definition code_at :: "bytes \<Rightarrow> annexb_start_code option" where
  "code_at w = (if w = [0, 0, 0, 1] then Some B4 else if tl w = [0, 0, 1] then Some B3 else None)"

text \<open>The loop: \<open>w\<close> is the start code buffer, \<open>rd\<close> the bytes still to read.\<close>

fun scan_code :: "bool \<Rightarrow> bytes \<Rightarrow> bytes \<Rightarrow> bytes \<Rightarrow> annexb_start_code option \<times> bytes \<times> bytes \<times> bytes" where
  "scan_code buffer_bytes w buf [] = (code_at w, w, buf, [])"
| "scan_code buffer_bytes w buf (b # rd) =
     (case code_at w of
        Some c \<Rightarrow> (Some c, w, buf, b # rd)
      | None \<Rightarrow> scan_code buffer_bytes (tl w @ [b]) (if buffer_bytes then buf @ [b] else buf) rd)"

definition next_annex_b_start_code :: "bool \<Rightarrow> annexb_splitter \<Rightarrow> annexb_splitter \<times> annexb_start_code option" where
  "next_annex_b_start_code buffer_bytes s =
     (let (c, w, buf, rd) = scan_code buffer_bytes (ab_start_code_buffer s) (ab_buffer s) (ab_reader s)
      in (s\<lparr>ab_reader := rd, ab_start_code_buffer := w, ab_buffer := buf\<rparr>, c))"

definition unit_data :: "annexb_start_code \<Rightarrow> bytes \<Rightarrow> annexb_data" where
  "unit_data c full =
     \<lparr>ad_payload_range = (sc_len c, length full), ad_start_code = c, ad_start_code_range = (0, sc_len c), ad_full = full\<rparr>"

definition annexb_next :: "annexb_splitter \<Rightarrow> (annexb_splitter \<times> annexb_data option) option" where
  "annexb_next s =
     (let (s, found) =
        (case ab_current_start_code s of
           Some c \<Rightarrow> (s, True)
         | None \<Rightarrow>
             (case next_annex_b_start_code False s of
                (s, Some c) \<Rightarrow>
                  (let s = reset_start_code_buffer (s\<lparr>ab_current_start_code := Some c\<rparr>)
                   in (s\<lparr>ab_buffer := ab_buffer s @ sc_code c\<rparr>, True))
              | (s, None) \<Rightarrow> (s, False)))
      in if \<not> found then Some (s, None)
         else Option.bind (ab_current_start_code s) (\<lambda>current.
           case next_annex_b_start_code True s of
             (s, None) \<Rightarrow>
               Some (s\<lparr>ab_current_start_code := None, ab_buffer := []\<rparr>, Some (unit_data current (ab_buffer s)))
           | (s, Some c) \<Rightarrow>
               if length (ab_buffer s) < sc_len c then None
               else let full = take (length (ab_buffer s) - sc_len c) (ab_buffer s)
                    in Some (reset_start_code_buffer (s\<lparr>ab_buffer := sc_code c, ab_current_start_code := Some c\<rparr>),
                         Some (unit_data current full))))"

text \<open>
  Reading to the end, as the callers and \<open>reset\<close> do: the units in order and the splitter that is left. Each call that
  returns a unit takes a start code from the reader or is the last, so the number of bytes plus two calls are enough.
\<close>

fun annexb_all :: "nat \<Rightarrow> annexb_splitter \<Rightarrow> (annexb_splitter \<times> annexb_data list) option" where
  "annexb_all 0 s = None"
| "annexb_all (Suc fuel) s =
     Option.bind (annexb_next s) (\<lambda>(s, d).
       case d of
         None \<Rightarrow> Some (s, [])
       | Some d \<Rightarrow> map_option (\<lambda>(s, ds). (s, d # ds)) (annexb_all fuel s))"

definition annexb_reset :: "bytes \<Rightarrow> annexb_splitter \<Rightarrow> annexb_splitter option" where
  "annexb_reset new_reader s =
     map_option (\<lambda>(s, _). s\<lparr>ab_reader := new_reader\<rparr>) (annexb_all (length (ab_reader s) + 2) s)"

section \<open>Scanning\<close>

text \<open>No start code among the bytes.\<close>

definition no_code :: "bytes \<Rightarrow> bool" where
  "no_code xs \<longleftrightarrow> \<not> sublist [0, 0, 1] xs"

lemma sublist_suffix_snoc: "sublist p (xs @ [b]) \<longleftrightarrow> sublist p xs \<or> suffix p (xs @ [b])"
proof
  assume "sublist p (xs @ [b])"
  then obtain u v where e: "xs @ [b] = u @ p @ v" by (auto simp: sublist_def)
  show "sublist p xs \<or> suffix p (xs @ [b])"
  proof (cases v rule: rev_cases)
    case Nil
    then show ?thesis using e by (auto simp: suffix_def)
  next
    case (snoc v' c)
    then have "xs = u @ p @ v'" using e by (metis append.assoc butlast_snoc)
    then show ?thesis by auto
  qed
qed (auto simp: sublist_append)

definition ends_code :: "bytes \<Rightarrow> bool" where
  "ends_code xs \<longleftrightarrow> suffix [0, 0, 1] xs"

lemma no_code_snoc: "no_code (xs @ [b]) \<longleftrightarrow> no_code xs \<and> \<not> ends_code (xs @ [b])"
  by (auto simp: no_code_def ends_code_def sublist_suffix_snoc)

lemma no_code_Nil [simp]: "no_code []"
  by (simp add: no_code_def)

text \<open>The last four bytes read, filled up with twos.\<close>

definition window4 :: "bytes \<Rightarrow> bytes" where
  "window4 xs = drop (length xs) ([2, 2, 2, 2] @ xs)"

lemma window4_snoc: "tl (window4 xs) @ [b] = window4 (xs @ [b])"
proof -
  have "tl (drop n ys) @ [b] = drop (Suc n) (ys @ [b])" if "n < length ys" for n ys
    using that by (simp add: drop_Suc tl_drop)
  from this [of "length xs" "[2, 2, 2, 2] @ xs"] show ?thesis
    by (simp only: window4_def append.assoc length_append) simp
qed

lemma take_last: "length ys = n \<Longrightarrow> suffix ys xs \<longleftrightarrow> n \<le> length xs \<and> drop (length xs - n) xs = ys"
  by (auto simp: suffix_def) (metis append_take_drop_id)

lemma suffix_padded: "suffix p ([2, 2, 2, 2] @ xs) \<longleftrightarrow> suffix p xs" if "2 \<notin> set p"
proof
  assume "suffix p ([2, 2, 2, 2] @ xs)"
  then consider "suffix p xs" | p' where "p = p' @ xs" "suffix p' [2, 2, 2, 2]"
    unfolding suffix_append by blast
  then show "suffix p xs"
  proof cases
    case (2 p')
    then have "set p' \<subseteq> {2}" using set_mono_suffix [OF 2(2)] by auto
    then have "p' = []" using that 2(1) by (cases p') auto
    then show ?thesis using 2 by simp
  qed
qed (rule suffix_appendI)

lemma drop_Suc_tl_swap: "tl (drop n ys) = drop (Suc n) ys"
  by (simp add: drop_Suc tl_drop)

lemma tl_window4: "tl (window4 xs) = [0, 0, 1] \<longleftrightarrow> ends_code xs"
proof -
  have "tl (window4 xs) = drop (length ([2, 2, 2, 2] @ xs) - 3) ([2, 2, 2, 2] @ xs)"
    using drop_Suc_tl_swap [of "length xs" "[2, 2, 2, 2] @ xs"] by (simp add: window4_def)
  then show ?thesis
    using take_last [of "[0, 0, 1]" 3 "[2, 2, 2, 2] @ xs"] suffix_padded [of "[0, 0, 1]" xs]
    by (simp add: ends_code_def)
qed

lemma window4_full: "window4 xs = [0, 0, 0, 1] \<longleftrightarrow> suffix [0, 0, 0, 1] xs"
  using take_last [of "[0, 0, 0, 1]" 4 "[2, 2, 2, 2] @ xs"] suffix_padded [of "[0, 0, 0, 1]" xs]
  by (simp add: window4_def)

lemma code_at_window: "code_at (window4 xs) = Some c \<longleftrightarrow> ends_code xs \<and> (c = B4 \<longleftrightarrow> suffix [0, 0, 0, 1] xs)"
proof -
  have "suffix [0, 0, 0, 1] xs \<Longrightarrow> ends_code xs"
    by (auto simp: ends_code_def suffix_def)
  then show ?thesis by (cases c) (auto simp: code_at_def tl_window4 window4_full)
qed

lemma code_at_None: "code_at (window4 xs) = None \<longleftrightarrow> \<not> ends_code xs"
  by (auto simp: code_at_def tl_window4 [symmetric])

lemma window4_Nil: "window4 [] = [2, 2, 2, 2]"
  by (simp add: window4_def)

lemma no_code_prefix: "no_code (xs @ ys) \<Longrightarrow> no_code xs"
  by (auto simp: no_code_def sublist_append)

lemma no_code_ends: "no_code xs \<Longrightarrow> \<not> ends_code xs"
  by (auto simp: no_code_def ends_code_def dest: suffix_imp_sublist)

text \<open>The first start code of a byte string: the shortest prefix that ends with one.\<close>

definition first_code :: "bytes \<Rightarrow> bool" where
  "first_code xs \<longleftrightarrow> ends_code xs \<and> no_code (butlast xs)"

definition code_of :: "bytes \<Rightarrow> annexb_start_code" where
  "code_of xs = (if suffix [0, 0, 0, 1] xs then B4 else B3)"

lemma first_code_exists: "\<not> no_code xs \<Longrightarrow> \<exists>a b. xs = a @ b \<and> first_code a"
proof (induction xs rule: rev_induct)
  case (snoc x xs)
  show ?case
  proof (cases "no_code xs")
    case True
    then have "first_code (xs @ [x])" using snoc.prems by (simp add: first_code_def no_code_snoc)
    then show ?thesis by (metis append_Nil2)
  next
    case False
    then show ?thesis using snoc.IH by (metis append.assoc)
  qed
qed simp

lemma scan_code_end:
  "no_code (pre @ rd) \<Longrightarrow> scan_code bb (window4 pre) buf rd = (None, window4 (pre @ rd), if bb then buf @ rd else buf, [])"
proof (induction rd arbitrary: pre buf)
  case Nil
  then show ?case by (simp add: code_at_None no_code_ends)
next
  case (Cons b rd)
  then have "code_at (window4 pre) = None" by (meson code_at_None no_code_ends no_code_prefix)
  then show ?case using Cons.IH [of "pre @ [b]"] Cons.prems by (simp add: window4_snoc)
qed

lemma scan_code_first:
  "first_code (pre @ mid) \<Longrightarrow> mid \<noteq> [] \<Longrightarrow>
    scan_code bb (window4 pre) buf (mid @ rest) =
      (Some (code_of (pre @ mid)), window4 (pre @ mid), if bb then buf @ mid else buf, rest)"
proof (induction mid arbitrary: pre buf)
  case (Cons b mid)
  then have "no_code (pre @ butlast (b # mid))" by (simp add: first_code_def butlast_append)
  then have "code_at (window4 pre) = None" by (meson code_at_None no_code_ends no_code_prefix)
  then have step: "scan_code bb (window4 pre) buf ((b # mid) @ rest) =
      scan_code bb (window4 (pre @ [b])) (if bb then buf @ [b] else buf) (mid @ rest)"
    by (simp add: window4_snoc)
  show ?case
  proof (cases "mid = []")
    case True
    then have "code_at (window4 (pre @ [b])) = Some (code_of (pre @ [b]))"
      using Cons.prems by (simp add: code_at_window first_code_def code_of_def)
    then show ?thesis using step True by (cases rest) auto
  next
    case False
    then show ?thesis using Cons.IH [of "pre @ [b]"] Cons.prems step by simp
  qed
qed simp

section \<open>The states of the splitter\<close>

text \<open>
  Between two streams (\<open>pre\<close> is what was read since the window was last cleared: after \<open>reset\<close> it still holds the end
  of the previous stream), and inside a unit, just after its start code.
\<close>

definition idle_at :: "bytes \<Rightarrow> bytes \<Rightarrow> annexb_splitter" where
  "idle_at pre rd =
     \<lparr>ab_reader = rd, ab_start_code_buffer = window4 pre, ab_current_start_code = None, ab_buffer = []\<rparr>"

definition inside_at :: "annexb_start_code \<Rightarrow> bytes \<Rightarrow> annexb_splitter" where
  "inside_at c rd =
     \<lparr>ab_reader = rd, ab_start_code_buffer = window4 [], ab_current_start_code = Some c, ab_buffer = sc_code c\<rparr>"

lemma annexb_new_idle: "annexb_new rd = idle_at [] rd"
  by (simp add: annexb_new_def idle_at_def window4_Nil)

lemmas splitter_defs = annexb_next_def next_annex_b_start_code_def reset_start_code_buffer_def idle_at_def inside_at_def

lemma next_idle_end: "no_code (pre @ rd) \<Longrightarrow> annexb_next (idle_at pre rd) = Some (idle_at (pre @ rd) [], None)"
  by (simp add: splitter_defs scan_code_end)

lemma next_idle_code:
  "first_code (pre @ mid) \<Longrightarrow> mid \<noteq> [] \<Longrightarrow>
    annexb_next (idle_at pre (mid @ rest)) = annexb_next (inside_at (code_of (pre @ mid)) rest)"
  by (simp add: splitter_defs scan_code_first window4_Nil)

lemma next_inside_end:
  "no_code rd \<Longrightarrow> annexb_next (inside_at c rd) = Some (idle_at rd [], Some (unit_data c (sc_code c @ rd)))"
  by (simp add: splitter_defs scan_code_end [of "[]", simplified])

lemma sc_len_le: "ends_code xs \<Longrightarrow> sc_len (code_of xs) \<le> length xs"
  by (auto simp: sc_len_def code_of_def ends_code_def dest: suffix_length_le)

lemma code_suffix: "ends_code xs \<Longrightarrow> suffix (sc_code (code_of xs)) xs"
  by (auto simp: code_of_def ends_code_def)

lemma next_inside_code:
  assumes "first_code (p @ sc_code d)" and "code_of (p @ sc_code d) = d"
  shows "annexb_next (inside_at c (p @ sc_code d @ rest)) = Some (inside_at d rest, Some (unit_data c (sc_code c @ p)))"
proof -
  have ne: "p @ sc_code d \<noteq> []" by (cases d) auto
  have "scan_code True (window4 []) (sc_code c) ((p @ sc_code d) @ rest) =
      (Some d, window4 (p @ sc_code d), sc_code c @ p @ sc_code d, rest)"
    using scan_code_first [of "[]" "p @ sc_code d"] assms ne by simp
  then show ?thesis by (simp add: splitter_defs sc_len_def window4_Nil)
qed

section \<open>Streams of units\<close>

type_synonym unit_spec = "annexb_start_code \<times> bytes"

definition stream_of :: "unit_spec list \<Rightarrow> bytes" where
  "stream_of us = concat (map (\<lambda>(c, p). sc_code c @ p) us)"

definition annexb_unit :: "unit_spec \<Rightarrow> annexb_data" where
  "annexb_unit u = unit_data (fst u) (sc_code (fst u) @ snd u)"

text \<open>
  A well-formed stream: no payload holds a start code, and a payload before a three-byte code does not end with a zero
  byte (it would be read as part of a four-byte code).
\<close>

fun proper :: "unit_spec list \<Rightarrow> bool" where
  "proper [] \<longleftrightarrow> True"
| "proper ((c, p) # us) \<longleftrightarrow> no_code p \<and> (us \<noteq> [] \<and> fst (hd us) = B3 \<longrightarrow> \<not> suffix [0] p) \<and> proper us"

lemma stream_of_simps [simp]: "stream_of [] = []" "stream_of ((c, p) # us) = sc_code c @ p @ stream_of us"
  by (simp_all add: stream_of_def)

lemma length_stream: "length us \<le> length (stream_of us)"
proof (induction us)
  case (Cons u us)
  then show ?case by (cases u; cases "fst u") auto
qed simp

lemma no_code_zero: "no_code p \<Longrightarrow> no_code (p @ [0])"
  by (auto simp: no_code_snoc ends_code_def suffix_def)

lemma suffix_B3: "suffix [0, 0, 0, 1] (p @ [0, 0, 1]) \<longleftrightarrow> suffix [0] p"
proof -
  have "suffix ([0] @ [0, 0, 1]) (p @ [0, 0, 1]) \<longleftrightarrow> suffix [0] p" by (rule same_suffix_suffix)
  then show ?thesis by simp
qed

text \<open>A start code after a payload is found where it stands.\<close>

lemma boundary:
  assumes "no_code p" and "d = B3 \<longrightarrow> \<not> suffix [0] p"
  shows "first_code (p @ sc_code d)" and "code_of (p @ sc_code d) = d"
proof -
  have "no_code (p @ [0, 0])" and "no_code (p @ [0, 0, 0])"
    using assms(1) no_code_zero [of "p @ [0]"] no_code_zero [of "p @ [0, 0]"] by (simp_all add: no_code_zero)
  then show "first_code (p @ sc_code d)"
    by (cases d) (auto simp: first_code_def ends_code_def suffix_def butlast_append)
  show "code_of (p @ sc_code d) = d"
    using assms(2) by (cases d) (auto simp: code_of_def suffix_B3 suffix_def)
qed

text \<open>Every first start code has this form.\<close>

lemma first_code_split:
  assumes "first_code a"
  obtains p where "a = p @ sc_code (code_of a)" "no_code p" "code_of a = B3 \<longrightarrow> \<not> suffix [0] p"
proof -
  obtain p where a: "a = p @ sc_code (code_of a)"
    using code_suffix assms unfolding first_code_def suffix_def by blast
  have ne: "sc_code (code_of a) \<noteq> []" by (cases "code_of a") auto
  have "butlast a = p @ butlast (sc_code (code_of a))"
    by (subst a) (simp add: butlast_append ne)
  then have "no_code p" using assms no_code_prefix unfolding first_code_def by metis
  moreover have "\<not> suffix [0] p" if "code_of a = B3"
  proof -
    have "a = p @ [0, 0, 1]" using a that by simp
    then show ?thesis using that by (auto simp: code_of_def suffix_B3 split: if_splits)
  qed
  ultimately show ?thesis using a that by blast
qed

lemma inside_decompose: "\<exists>p us. rd = p @ stream_of us \<and> proper ((c, p) # us)"
proof (induction "length rd" arbitrary: rd c rule: less_induct)
  case less
  show ?case
  proof (cases "no_code rd")
    case True
    then show ?thesis by (intro exI [of _ rd] exI [of _ "[]"]) simp
  next
    case False
    then obtain a b where rd: "rd = a @ b" and f: "first_code a" using first_code_exists by blast
    obtain p where p: "a = p @ sc_code (code_of a)" "no_code p" "code_of a = B3 \<longrightarrow> \<not> suffix [0] p"
      by (rule first_code_split [OF f])
    have "a \<noteq> []" using f by (auto simp: first_code_def ends_code_def)
    then obtain q us where q: "b = q @ stream_of us" "proper ((code_of a, q) # us)"
      using less [of b] rd by auto
    have "rd = p @ stream_of ((code_of a, q) # us)" using rd p(1) q(1) by simp
    moreover have "proper ((c, p) # (code_of a, q) # us)" using p(2,3) q(2) by simp
    ultimately show ?thesis by blast
  qed
qed

section \<open>Splitting a stream\<close>

lemma all_inside:
  "proper ((c, p) # us) \<Longrightarrow> length us + 1 < fuel \<Longrightarrow>
    \<exists>q. no_code q \<and> annexb_all fuel (inside_at c (p @ stream_of us)) = Some (idle_at q [], map annexb_unit ((c, p) # us))"
proof (induction us arbitrary: c p fuel)
  case Nil
  then obtain n where n: "fuel = Suc (Suc n)" by (metis add_0 less_imp_Suc_add list.size(3) plus_1_eq_Suc add_Suc_right)
  have "no_code p" using Nil by simp
  then show ?case
    by (intro exI [of _ p]) (simp add: n next_inside_end next_idle_end [of p "[]", simplified] annexb_unit_def)
next
  case (Cons u us)
  obtain d q where u: "u = (d, q)" by (cases u)
  obtain n where n: "fuel = Suc n" using Cons.prems(2) by (cases fuel) auto
  have "annexb_next (inside_at c (p @ stream_of (u # us))) = Some (inside_at d (q @ stream_of us), Some (annexb_unit (c, p)))"
    using next_inside_code [OF boundary [of p d]] Cons.prems(1) by (simp add: u annexb_unit_def)
  moreover obtain r where "no_code r"
      "annexb_all n (inside_at d (q @ stream_of us)) = Some (idle_at r [], map annexb_unit (u # us))"
    using Cons.IH [of d q n] Cons.prems n u by auto
  ultimately show ?case by (auto simp: n)
qed

definition unit_payload :: "annexb_data \<Rightarrow> bytes" where
  "unit_payload d = subslice (fst (ad_payload_range d)) (snd (ad_payload_range d)) (ad_full d)"

lemma unit_payload_unit [simp]: "unit_payload (annexb_unit (c, p)) = p"
  by (simp add: unit_payload_def annexb_unit_def unit_data_def sc_len_def subslice_def)

text \<open>
  From the idle state: the bytes before the first start code are skipped. The first code is the one that ends at its
  place, read together with what the window still holds.
\<close>

lemma all_idle:
  assumes "no_code (pre @ p)" and "proper us" and "length us + 1 < fuel" and "us \<noteq> []"
  shows "\<exists>q. no_code q \<and> annexb_all fuel (idle_at pre (p @ stream_of us)) =
    Some (idle_at q [], map annexb_unit ((code_of (pre @ p @ sc_code (fst (hd us))), snd (hd us)) # tl us))"
proof -
  obtain c r vs where us: "us = (c, r) # vs" using assms(4) by (cases us) auto
  obtain n where n: "fuel = Suc n" using assms(3) by (cases fuel) auto
  let ?d = "code_of (pre @ p @ sc_code c)"
  have ne: "p @ sc_code c \<noteq> []" by (cases c) auto
  have "first_code ((pre @ p) @ sc_code c)"
  proof (cases "c = B3 \<and> suffix [0] (pre @ p)")
    case True
    then obtain z where z: "pre @ p = z @ [0]" by (auto simp: suffix_def)
    have "no_code z" using assms(1) z no_code_prefix by metis
    then have "first_code (z @ sc_code B4)" by (rule boundary(1)) simp
    moreover have "(pre @ p) @ sc_code c = z @ sc_code B4" using True z by simp
    ultimately show ?thesis by metis
  next
    case False
    then show ?thesis using assms(1) boundary(1) [of "pre @ p" c] by blast
  qed
  then have "annexb_next (idle_at pre ((p @ sc_code c) @ r @ stream_of vs)) = annexb_next (inside_at ?d (r @ stream_of vs))"
    using next_idle_code [of pre "p @ sc_code c"] ne by simp
  moreover obtain q where "no_code q"
      "annexb_all fuel (inside_at ?d (r @ stream_of vs)) = Some (idle_at q [], map annexb_unit ((?d, r) # vs))"
    using all_inside [of ?d r vs fuel] assms(2,3) us by auto
  ultimately show ?thesis by (auto simp: us n)
qed

text \<open>
  C21.
  The Annex-B splitter on any bytes: it never panics, ends within the fuel, and its units are exactly the stream
  (\<open>proper\<close> puts the condition of a payload, not of a start code, on the bytes paired with the placeholder \<open>B4\<close>):
  some bytes \<open>p\<close> before the first start code, then start code and payload of each unit in order. No payload and not
  \<open>p\<close> holds a start code, and the extra zero of a four-byte start code is never left at the end of a payload.
\<close>

theorem annexb_split_exact:
  "\<exists>p us s. data = p @ stream_of us \<and> proper ((B4, p) # us) \<and>
     annexb_all (length data + 2) (annexb_new data) = Some (s, map annexb_unit us) \<and>
     map unit_payload (map annexb_unit us) = map snd us"
proof -
  obtain p us where d: "data = p @ stream_of us" and pr: "proper ((B4, p) # us)" using inside_decompose by blast
  have pay: "map unit_payload (map annexb_unit us) = map snd us" by (induction us) auto
  show ?thesis
  proof (cases us)
    case Nil
    then have "annexb_all (length data + 2) (annexb_new data) = Some (idle_at p [], [])"
      using next_idle_end [of "[]" p] d pr by (simp add: annexb_new_idle)
    then show ?thesis using d pr Nil by fastforce
  next
    case (Cons u vs)
    have "code_of ([] @ p @ sc_code (fst u)) = fst u"
      using boundary(2) [of p "fst u"] pr Cons by simp
    moreover have "length us + 1 < length data + 2" using d length_stream [of us] by simp
    ultimately obtain q where "annexb_all (length data + 2) (annexb_new data) = Some (idle_at q [], map annexb_unit us)"
      using all_idle [of "[]" p us "length data + 2"] d pr Cons by (auto simp: annexb_new_idle)
    then show ?thesis using d pr pay by blast
  qed
qed

end
