(* ===== verification/Rtp_Fragment.thy ===== *)
theory Rtp_Fragment
  imports Prelude
begin

text \<open>
  What the H.264 and the H.265 packetisation share: the length-prefixed units of an aggregation packet, and the loop
  that cuts a NAL unit into fragmentation units. The sources write that loop once per codec; the locale
  \<open>fragmenter\<close> states what one loop does, \<open>reassembler\<close> adds what a receiver does with its packets, and their
  lemmas are proved once. The two codecs interpret both.
\<close>

section \<open>Length-prefixed units\<close>

text \<open>The receiver's reading of an aggregation packet after its header.\<close>

function aggregated_units :: "bytes \<Rightarrow> bytes list option" where
  "aggregated_units xs =
     (case xs of
        [] \<Rightarrow> Some []
      | [a] \<Rightarrow> None
      | a # b # rest \<Rightarrow>
          (let n = unat (u16_of b a)
           in if length rest < n then None
              else map_option ((#) (take n rest)) (aggregated_units (drop n rest))))"
  by pat_completeness auto
termination
  by (relation "measure length") auto

declare aggregated_units.simps [simp del]

lemma aggregated_units_Nil [simp]: "aggregated_units [] = Some []"
  by (simp add: aggregated_units.simps)

lemma aggregated_units_Cons [simp]:
  "length u < 65536 \<Longrightarrow>
    aggregated_units (be16 (of_nat (length u)) @ u @ rest) = map_option ((#) u) (aggregated_units rest)"
  by (subst aggregated_units.simps) (simp add: be16_def unat_of_nat Let_def)

lemma aggregated_units_all:
  "list_all (\<lambda>u. length u < 65536) us \<Longrightarrow>
    aggregated_units (concat (map (\<lambda>u. be16 (of_nat (length u)) @ u) us)) = Some us"
  by (induction us) auto

section \<open>Bits of a byte\<close>

lemma byte_eq_iff:
  "a = b \<longleftrightarrow> (bit a 0 = bit b 0 \<and> bit a 1 = bit b 1 \<and> bit a 2 = bit b 2 \<and> bit a 3 = bit b 3 \<and>
     bit a 4 = bit b 4 \<and> bit a 5 = bit b 5 \<and> bit a 6 = bit b 6 \<and> bit a 7 = bit b 7)" for a b :: u8
proof
  assume bits: "bit a 0 = bit b 0 \<and> bit a 1 = bit b 1 \<and> bit a 2 = bit b 2 \<and> bit a 3 = bit b 3 \<and>
     bit a 4 = bit b 4 \<and> bit a 5 = bit b 5 \<and> bit a 6 = bit b 6 \<and> bit a 7 = bit b 7"
  show "a = b"
  proof (rule bit_word_eqI)
    fix n
    assume "n < LENGTH(8)"
    then have "n \<in> {0, 1, 2, 3, 4, 5, 6, 7}" by auto
    then show "bit a n = bit b n" using bits by auto
  qed
qed simp

section \<open>Fragmentation\<close>

locale fragmenter =
  fixes hdr :: bytes
    and fu :: "bool \<Rightarrow> bool \<Rightarrow> u8"
    and emit :: "bool \<Rightarrow> bytes list \<Rightarrow> bytes list"
  assumes emit_Nil: "emit is_first [] = []"
    and emit_Cons: "emit is_first (f # fs) = (hdr @ fu is_first (fs = []) # f) # emit False fs"
begin

lemma emit_bound:
  "list_all (\<lambda>f. length f \<le> n) fs \<Longrightarrow> list_all (\<lambda>p. length p \<le> length hdr + 1 + n) (emit is_first fs)"
  by (induction fs arbitrary: is_first) (auto simp: emit_Nil emit_Cons)

end

text \<open>
  A receiver: \<open>depack acc ps\<close> are the NAL units of the packets, \<open>acc\<close> the unit whose first fragments it has.
\<close>

locale reassembler = fragmenter +
  fixes nal_hdr :: bytes
    and depack :: "bytes option \<Rightarrow> bytes list \<Rightarrow> bytes list option"
  assumes at_start: "depack None ((hdr @ fu True False # f) # ps) = depack (Some (nal_hdr @ f)) ps"
    and at_middle: "depack (Some x) ((hdr @ fu False False # f) # ps) = depack (Some (x @ f)) ps"
    and at_end: "depack (Some x) ((hdr @ fu False True # f) # ps) = map_option ((#) (x @ f)) (depack None ps)"
begin

lemma depack_rest:
  "fs \<noteq> [] \<Longrightarrow> depack (Some x) (emit False fs @ ps) = map_option ((#) (x @ concat fs)) (depack None ps)"
proof (induction fs arbitrary: x)
  case (Cons f fs)
  show ?case
  proof (cases fs)
    case Nil
    then show ?thesis by (simp add: emit_Cons emit_Nil at_end)
  next
    case (Cons g gs)
    then show ?thesis using Cons.IH [of "x @ f"] by (simp add: emit_Cons at_middle)
  qed
qed simp

lemma depack_emit:
  assumes "2 \<le> length fs"
  shows "depack None (emit True fs @ ps) = map_option ((#) (nal_hdr @ concat fs)) (depack None ps)"
proof -
  obtain f g gs where fs: "fs = f # g # gs" using assms by (cases fs; cases "tl fs") auto
  then show ?thesis using depack_rest [of "g # gs" "nal_hdr @ f" ps] by (simp add: emit_Cons [of True] at_start)
qed

end

section \<open>The fragments\<close>

lemma chunks_bound: "list_all (\<lambda>c. length c \<le> n) (chunks n xs)"
proof (cases "n = 0")
  case True
  then show ?thesis by (simp add: chunks.simps)
next
  case False
  then show ?thesis by (auto simp: list_all_length chunks_nth)
qed

lemma chunks_two:
  assumes "0 < n" "n < length xs"
  shows "2 \<le> length (chunks n xs)"
proof -
  have "xs \<noteq> []" and "drop n xs \<noteq> []" using assms by auto
  then show ?thesis using assms by (simp add: chunks_rec)
qed

end
