(* ===== verification/Rtp_Packets.thy ===== *)
theory Rtp_Packets
  imports Rtp_Fragment
begin

text \<open>
  \<open>src/streamer/src/transport/webrtc/video.rs\<close>: from the NAL units of a frame to RTP packets (\<open>packetize\<close>, the loop
  of \<open>send_single_frame\<close>, \<open>trim_bytes_to_range\<close>). The payloader is an argument, as the source takes
  \<open>impl Payloader\<close>; the locale \<open>payloader\<close> is what a frame needs of it, and the two codecs interpret it. The path MTU
  (\<open>RTP_OUTBOUND_MTU\<close> of the webrtc crate) is a parameter.
\<close>

section \<open>Packets\<close>

text \<open>The errors of the payloaders (of \<open>rtp::Error\<close>, the one they raise).\<close>

datatype rtp_error = ErrBufferTooSmall

record rtp_packet =
  rp_version :: u8
  rp_padding :: bool
  rp_extension :: bool
  rp_marker :: bool
  rp_sequence_number :: u16
  rp_timestamp :: u32
  rp_payload_type :: u8
  rp_ssrc :: u32
  rp_payload :: bytes

type_synonym 's payload_fn = "'s \<Rightarrow> nat \<Rightarrow> bytes \<Rightarrow> ('s \<times> (rtp_error + bytes list)) option"

definition rtp_packet_of :: "u16 \<Rightarrow> u32 \<Rightarrow> bool \<Rightarrow> nat \<Rightarrow> nat \<times> bytes \<Rightarrow> rtp_packet" where
  "rtp_packet_of seq ts end_has_marker n ip =
     \<lparr>rp_version = 2, rp_padding = False, rp_extension = False,
      rp_marker = (end_has_marker \<and> fst ip = n - 1),
      rp_sequence_number = seq, rp_timestamp = ts, rp_payload_type = 0, rp_ssrc = 0, rp_payload = snd ip\<rparr>"

text \<open>\<open>mtu - 12\<close> is not guarded: below twelve it is a panic (with overflow checks).\<close>

definition packetize ::
  "'s payload_fn \<Rightarrow> 's \<Rightarrow> nat \<Rightarrow> u16 \<Rightarrow> u32 \<Rightarrow> bytes \<Rightarrow> bool \<Rightarrow> ('s \<times> (rtp_error + rtp_packet list)) option" where
  "packetize payload st mtu seq ts b end_has_marker =
     (if mtu < 12 then None
      else map_option (\<lambda>(st, r).
        (st, case r of
               Inl e \<Rightarrow> Inl e
             | Inr payloads \<Rightarrow>
                 Inr (map (rtp_packet_of seq ts end_has_marker (length payloads)) (enumerate 0 payloads))))
        (payload st (mtu - 12) b))"

text \<open>The loop of \<open>send_single_frame\<close>: a sample that fails is skipped; the last sample carries the marker.\<close>

fun frame_samples :: "'s payload_fn \<Rightarrow> 's \<Rightarrow> nat \<Rightarrow> u32 \<Rightarrow> bytes list \<Rightarrow> ('s \<times> rtp_packet list) option" where
  "frame_samples payload st mtu ts [] = Some (st, [])"
| "frame_samples payload st mtu ts (sample # samples) =
     Option.bind (packetize payload st mtu 0 ts sample (samples = [])) (\<lambda>(st, r).
       case r of
         Inl _ \<Rightarrow> frame_samples payload st mtu ts samples
       | Inr packets \<Rightarrow>
           map_option (\<lambda>(st, rest). (st, packets @ rest)) (frame_samples payload st mtu ts samples))"

text \<open>\<open>BytesMut::split_to\<close> and \<open>split_off\<close> panic out of range; a range that ends before it starts underflows.\<close>

definition trim_bytes_to_range :: "bytes \<Rightarrow> nat \<times> nat \<Rightarrow> bytes option" where
  "trim_bytes_to_range buf rng =
     (if length buf < fst rng \<or> snd rng < fst rng then None
      else let buf = drop (fst rng) buf
           in Some (if snd rng - fst rng < length buf then take (snd rng - fst rng) buf else buf))"

lemma trim_subslice:
  "fst r \<le> snd r \<Longrightarrow> fst r \<le> length buf \<Longrightarrow> trim_bytes_to_range buf r = Some (subslice (fst r) (snd r) buf)"
  by (auto simp: trim_bytes_to_range_def subslice_def Let_def)

section \<open>What a frame needs of its payloader\<close>

text \<open>
  \<open>accept\<close> is the abstract payloader: the NAL units a call makes visible to the receiver. \<open>valid\<close> is the invariant of
  the state, \<open>good\<close> what is asked of a NAL unit at the given payload size.
\<close>

primrec accept_all :: "('s \<Rightarrow> bytes \<Rightarrow> 's \<times> bytes list) \<Rightarrow> 's \<Rightarrow> bytes list \<Rightarrow> 's \<times> bytes list" where
  "accept_all accept st [] = (st, [])"
| "accept_all accept st (n # ns) =
     (let (st, out) = accept st n; (st, rest) = accept_all accept st ns in (st, out @ rest))"

lemma accept_all_Cons [simp]:
  "accept_all accept st (n # ns) =
     (fst (accept_all accept (fst (accept st n)) ns), snd (accept st n) @ snd (accept_all accept (fst (accept st n)) ns))"
  by (simp add: split_beta)

declare accept_all.simps(2) [simp del]

locale payloader =
  fixes payload :: "'s payload_fn"
    and depack :: "bytes option \<Rightarrow> bytes list \<Rightarrow> bytes list option"
    and valid :: "nat \<Rightarrow> 's \<Rightarrow> bool"
    and good :: "nat \<Rightarrow> bytes \<Rightarrow> bool"
    and accept :: "'s \<Rightarrow> bytes \<Rightarrow> 's \<times> bytes list"
  assumes depack_Nil: "depack None [] = Some []"
    and payload_accepts: "valid mtu st \<Longrightarrow> good mtu n \<Longrightarrow>
      \<exists>ps. payload st mtu n = Some (fst (accept st n), Inr ps) \<and> list_all (\<lambda>p. length p \<le> mtu) ps \<and>
        (\<forall>rest. depack None (ps @ rest) = map_option ((@) (snd (accept st n))) (depack None rest))"
    and accept_valid: "valid mtu st \<Longrightarrow> good mtu n \<Longrightarrow> valid mtu (fst (accept st n))"
begin

text \<open>The packets of one sample.\<close>

lemma packetize_accepts:
  assumes "12 \<le> mtu" and "valid (mtu - 12) st" and "good (mtu - 12) n"
  shows "\<exists>ps. packetize payload st mtu 0 ts n mk = Some (fst (accept st n), Inr ps) \<and>
    list_all (\<lambda>p. length (rp_payload p) \<le> mtu - 12 \<and> rp_timestamp p = ts) ps \<and>
    list_all (\<lambda>p. \<not> rp_marker p) (butlast ps) \<and> (ps \<noteq> [] \<longrightarrow> rp_marker (last ps) = mk) \<and>
    (\<forall>rest. depack None (map rp_payload ps @ rest) = map_option ((@) (snd (accept st n))) (depack None rest))"
proof -
  obtain qs where qs: "payload st (mtu - 12) n = Some (fst (accept st n), Inr qs)"
      "list_all (\<lambda>p. length p \<le> mtu - 12) qs"
      "\<forall>rest. depack None (qs @ rest) = map_option ((@) (snd (accept st n))) (depack None rest)"
    using payload_accepts [OF assms(2,3)] by blast
  let ?ps = "map (rtp_packet_of 0 ts mk (length qs)) (enumerate 0 qs)"
  have pay: "map rp_payload ?ps = qs"
    by (simp add: rtp_packet_of_def comp_def)
  have "list_all (\<lambda>p. length (rp_payload p) \<le> mtu - 12 \<and> rp_timestamp p = ts) ?ps"
    using qs(2) by (auto simp: list_all_length rtp_packet_of_def nth_enumerate_eq)
  moreover have "list_all (\<lambda>p. \<not> rp_marker p) (butlast ?ps)"
    by (auto simp: list_all_length nth_butlast rtp_packet_of_def nth_enumerate_eq)
  moreover have "?ps \<noteq> [] \<longrightarrow> rp_marker (last ?ps) = mk"
    by (auto simp: last_conv_nth rtp_packet_of_def nth_enumerate_eq enumerate_eq_zip)
  moreover have "packetize payload st mtu 0 ts n mk = Some (fst (accept st n), Inr ?ps)"
    using assms(1) qs(1) by (simp add: packetize_def)
  ultimately show ?thesis using pay qs(3) by (intro exI [of _ ?ps]) simp
qed

lemma frame_delivered:
  assumes "12 \<le> mtu" and "valid (mtu - 12) st" and "list_all (good (mtu - 12)) ns"
  shows "\<exists>ps. frame_samples payload st mtu ts ns = Some (fst (accept_all accept st ns), ps) \<and>
    list_all (\<lambda>p. length (rp_payload p) \<le> mtu - 12 \<and> rp_timestamp p = ts) ps \<and>
    list_all (\<lambda>p. \<not> rp_marker p) (butlast ps) \<and>
    depack None (map rp_payload ps) = Some (snd (accept_all accept st ns))"
  using assms(2,3)
proof (induction ns arbitrary: st)
  case Nil
  then show ?case by (simp add: depack_Nil)
next
  case (Cons n ns)
  obtain ps where ps: "packetize payload st mtu 0 ts n (ns = []) = Some (fst (accept st n), Inr ps)"
      "list_all (\<lambda>p. length (rp_payload p) \<le> mtu - 12 \<and> rp_timestamp p = ts) ps"
      "list_all (\<lambda>p. \<not> rp_marker p) (butlast ps)" "ps \<noteq> [] \<longrightarrow> rp_marker (last ps) = (ns = [])"
      "\<forall>rest. depack None (map rp_payload ps @ rest) = map_option ((@) (snd (accept st n))) (depack None rest)"
    using packetize_accepts [OF assms(1), of st n ts "ns = []"] Cons.prems by auto
  obtain qs where qs: "frame_samples payload (fst (accept st n)) mtu ts ns = Some (fst (accept_all accept (fst (accept st n)) ns), qs)"
      "list_all (\<lambda>p. length (rp_payload p) \<le> mtu - 12 \<and> rp_timestamp p = ts) qs"
      "list_all (\<lambda>p. \<not> rp_marker p) (butlast qs)"
      "depack None (map rp_payload qs) = Some (snd (accept_all accept (fst (accept st n)) ns))"
    using Cons.IH [of "fst (accept st n)"] accept_valid Cons.prems by auto
  have "list_all (\<lambda>p. \<not> rp_marker p) (butlast (ps @ qs))"
  proof (cases "qs = []")
    case False
    then have "ns \<noteq> []" using qs(1) by auto
    then have "list_all (\<lambda>p. \<not> rp_marker p) ps"
      using ps(3,4) by (cases ps rule: rev_cases) auto
    then show ?thesis using False qs(3) by (simp add: butlast_append)
  qed (simp add: ps(3))
  then show ?case using ps(1,2,5) qs(1,2,4) by (intro exI [of _ "ps @ qs"]) simp
qed

text \<open>The marker is on the last packet whenever the last NAL unit is one the receiver sees.\<close>

lemma frame_marker:
  assumes "12 \<le> mtu" and "valid (mtu - 12) st" and "list_all (good (mtu - 12)) (ns @ [n])"
    and "snd (accept (fst (accept_all accept st ns)) n) \<noteq> []"
    and "frame_samples payload st mtu ts (ns @ [n]) = Some (st', ps)"
  shows "ps \<noteq> [] \<and> rp_marker (last ps)"
  using assms(2-)
proof (induction ns arbitrary: st ps)
  case Nil
  obtain qs where qs: "packetize payload st mtu 0 ts n True = Some (fst (accept st n), Inr qs)"
      "qs \<noteq> [] \<longrightarrow> rp_marker (last qs) = True"
      "\<forall>rest. depack None (map rp_payload qs @ rest) = map_option ((@) (snd (accept st n))) (depack None rest)"
    using packetize_accepts [OF assms(1), of st n ts True] Nil.prems(1,2) by auto
  have "ps = qs" using Nil.prems(4) qs(1) by simp
  moreover have "qs \<noteq> []"
  proof
    assume "qs = []"
    then show False using qs(3) Nil.prems(3) by (auto simp: depack_Nil dest: spec [of _ "[]"])
  qed
  ultimately show ?case using qs(2) by simp
next
  case (Cons m ns)
  obtain qs where qs: "packetize payload st mtu 0 ts m False = Some (fst (accept st m), Inr qs)"
    using packetize_accepts [OF assms(1), of st m ts False] Cons.prems(1,2) by auto
  obtain rs where rs: "frame_samples payload (fst (accept st m)) mtu ts (ns @ [n]) = Some (st', rs)" "ps = qs @ rs"
    using Cons.prems(4) qs by auto
  have "rs \<noteq> [] \<and> rp_marker (last rs)"
    using Cons.IH [OF _ _ _ rs(1)] Cons.prems(1-3) accept_valid by simp
  then show ?case using rs(2) by simp
qed

end

end
