(* ===== verification/Rtp_Stream.thy ===== *)
theory Rtp_Stream
  imports Annexb Rtp_Packets
begin

text \<open>
  The codec branches of \<open>send_decode_unit\<close> in \<open>src/streamer/src/transport/webrtc/video.rs\<close>: the reader is reset to the
  frame, its NAL units become the samples, and the samples go through the payloader. The branches differ in the NAL
  reader and the payloader, which are the arguments here; \<open>nal_source\<close> is what a branch needs of its reader, and
  \<open>frame_sender\<close> joins it with \<open>payloader\<close>. The result is over whole sequences of frames, with the state that the
  reader and the payloader keep from one frame to the next.
\<close>

type_synonym nal_read = "nat \<Rightarrow> annexb_splitter \<Rightarrow> (annexb_splitter \<times> bytes list) option"

text \<open>One frame: \<open>nal_reader.reset\<close>, the \<open>while let\<close> loop, and the packets of \<open>send_single_frame\<close>.\<close>

definition send_frame ::
  "nal_read \<Rightarrow> 's payload_fn \<Rightarrow> nat \<Rightarrow> annexb_splitter \<Rightarrow> 's \<Rightarrow> u32 \<Rightarrow> bytes \<Rightarrow>
     (annexb_splitter \<times> 's \<times> rtp_packet list) option" where
  "send_frame read payload mtu rd st ts full_frame =
     Option.bind (annexb_reset full_frame rd) (\<lambda>rd.
     Option.bind (read (length full_frame + 2) rd) (\<lambda>(rd, samples).
     map_option (\<lambda>(st, packets). (rd, st, packets)) (frame_samples payload st mtu ts samples)))"

fun send_frames ::
  "nal_read \<Rightarrow> 's payload_fn \<Rightarrow> nat \<Rightarrow> annexb_splitter \<Rightarrow> 's \<Rightarrow> (u32 \<times> bytes) list \<Rightarrow>
     (annexb_splitter \<times> 's \<times> rtp_packet list list) option" where
  "send_frames read payload mtu rd st [] = Some (rd, st, [])"
| "send_frames read payload mtu rd st ((ts, full_frame) # frames) =
     Option.bind (send_frame read payload mtu rd st ts full_frame) (\<lambda>(rd, st, packets).
     map_option (\<lambda>(rd, st, rest). (rd, st, packets # rest)) (send_frames read payload mtu rd st frames))"

section \<open>Between two frames\<close>

lemma annexb_reset_idle:
  "no_code pre \<Longrightarrow> annexb_reset frame (idle_at pre []) = Some (idle_at pre frame)"
  using next_idle_end [of pre "[]"] by (simp add: annexb_reset_def idle_at_def)

text \<open>
  A reader that has read a stream to its end, or is new: the window may still hold the end of the last unit, and the
  units of the next stream come out all the same.
\<close>

lemma idle_stream:
  assumes "no_code pre" and "proper us" and "us \<noteq> []"
  shows "\<exists>q vs. no_code q \<and> map snd vs = map snd us \<and>
    annexb_all (length (stream_of us) + 2) (idle_at pre (stream_of us)) = Some (idle_at q [], map annexb_unit vs)"
proof -
  have "length us + 1 < length (stream_of us) + 2" using length_stream [of us] by simp
  then obtain q where q: "no_code q" "annexb_all (length (stream_of us) + 2) (idle_at pre (stream_of us)) =
      Some (idle_at q [], map annexb_unit ((code_of (pre @ [] @ sc_code (fst (hd us))), snd (hd us)) # tl us))"
    using all_idle [of pre "[]" us "length (stream_of us) + 2"] assms by auto
  moreover have "map snd ((code_of (pre @ [] @ sc_code (fst (hd us))), snd (hd us)) # tl us) = map snd us"
    using assms(3) by (cases us) auto
  ultimately show ?thesis by blast
qed

section \<open>What a frame needs of its NAL reader\<close>

locale nal_source =
  fixes read :: nal_read
    and keep :: "bytes \<Rightarrow> bool"
    and hdr_size :: nat
  assumes read_end: "annexb_next s = Some (s', None) \<Longrightarrow> read (Suc n) s = Some (s', [])"
    and read_unit: "annexb_next s = Some (s', Some (annexb_unit (c, p))) \<Longrightarrow> hdr_size \<le> length p \<Longrightarrow>
      read (Suc n) s = map_option (\<lambda>(s, xs). (s, if keep p then p # xs else xs)) (read n s')"
begin

lemma read_all:
  "annexb_all n s = Some (s', map annexb_unit us) \<Longrightarrow> list_all (\<lambda>u. hdr_size \<le> length (snd u)) us \<Longrightarrow>
    read n s = Some (s', filter keep (map snd us))"
proof (induction n arbitrary: s us)
  case (Suc n)
  obtain t d where nx: "annexb_next s = Some (t, d)" using Suc.prems(1) by (auto split: Option.bind_splits)
  show ?case
  proof (cases us)
    case Nil
    then show ?thesis
      using Suc.prems(1) nx read_end [of s t n] by (cases d) auto
  next
    case (Cons u vs)
    then have "d = Some (annexb_unit u)" and "annexb_all n t = Some (s', map annexb_unit vs)"
      using Suc.prems(1) nx by (auto split: option.splits)
    then show ?thesis
      using Suc.IH [of t vs] Suc.prems(2) nx Cons read_unit [of s t "fst u" "snd u" n] by simp
  qed
qed simp

end

section \<open>Sending a sequence of frames\<close>

text \<open>What the receiver sees of each frame.\<close>

primrec accept_frames :: "('s \<Rightarrow> bytes \<Rightarrow> 's \<times> bytes list) \<Rightarrow> 's \<Rightarrow> bytes list list \<Rightarrow> bytes list list" where
  "accept_frames accept st [] = []"
| "accept_frames accept st (ns # fs) =
     snd (accept_all accept st ns) # accept_frames accept (fst (accept_all accept st ns)) fs"

definition frame_units :: "(u32 \<times> unit_spec list) \<Rightarrow> bytes list" where
  "frame_units f = map snd (snd f)"

definition frame_bytes :: "(u32 \<times> unit_spec list) \<Rightarrow> u32 \<times> bytes" where
  "frame_bytes f = (fst f, stream_of (snd f))"

text \<open>The packets of a frame fit the path, carry its timestamp, and only the last one may have the marker.\<close>

definition frame_packets :: "nat \<Rightarrow> (u32 \<times> unit_spec list) \<Rightarrow> rtp_packet list \<Rightarrow> bool" where
  "frame_packets mtu f ps \<longleftrightarrow>
     list_all (\<lambda>p. length (rp_payload p) \<le> mtu - 12 \<and> rp_timestamp p = fst f) ps \<and>
     list_all (\<lambda>p. \<not> rp_marker p) (butlast ps)"

locale frame_sender = nal_source read keep hdr_size + payloader payload depack valid good accept
  for read and keep and hdr_size
    and payload :: "'s payload_fn" and depack and valid and good and accept +
  assumes good_size: "good mtu n \<Longrightarrow> hdr_size \<le> length n"
    and skipped: "\<not> keep n \<Longrightarrow> accept st n = (st, [])"
begin

lemma accept_kept: "accept_all accept st (filter keep ns) = accept_all accept st ns"
  by (induction ns arbitrary: st) (auto simp: skipped)

lemma accept_all_valid:
  "valid mtu st \<Longrightarrow> list_all (good mtu) ns \<Longrightarrow> valid mtu (fst (accept_all accept st ns))"
  by (induction ns arbitrary: st) (auto simp: accept_valid)

lemma send_frame_delivered:
  assumes "12 \<le> mtu" and "valid (mtu - 12) st" and "no_code pre"
    and "proper us" and "us \<noteq> []" and "list_all (\<lambda>u. good (mtu - 12) (snd u)) us"
  shows "\<exists>q ps. no_code q \<and>
    send_frame read payload mtu (idle_at pre []) st ts (stream_of us) =
      Some (idle_at q [], fst (accept_all accept st (map snd us)), ps) \<and>
    list_all (\<lambda>p. length (rp_payload p) \<le> mtu - 12 \<and> rp_timestamp p = ts) ps \<and>
    list_all (\<lambda>p. \<not> rp_marker p) (butlast ps) \<and>
    depack None (map rp_payload ps) = Some (snd (accept_all accept st (map snd us)))"
proof -
  obtain q vs where q: "no_code q" "map snd vs = map snd us"
      "annexb_all (length (stream_of us) + 2) (idle_at pre (stream_of us)) = Some (idle_at q [], map annexb_unit vs)"
    using idle_stream [OF assms(3-5)] by blast
  have gs: "list_all (good (mtu - 12)) (map snd us)" using assms(6) by (simp add: list.pred_map comp_def)
  have "list_all (\<lambda>p. hdr_size \<le> length p) (map snd vs)"
    using gs good_size by (auto simp: q(2) elim!: list.pred_mono_strong)
  then have "list_all (\<lambda>u. hdr_size \<le> length (snd u)) vs" by (simp add: list.pred_map comp_def)
  then have rd: "read (length (stream_of us) + 2) (idle_at pre (stream_of us)) = Some (idle_at q [], filter keep (map snd us))"
    using read_all [OF q(3)] q(2) by simp
  have "list_all (good (mtu - 12)) (filter keep (map snd us))" using gs by (auto simp: list_all_iff)
  then obtain ps where "frame_samples payload st mtu ts (filter keep (map snd us)) =
        Some (fst (accept_all accept st (map snd us)), ps)"
      "list_all (\<lambda>p. length (rp_payload p) \<le> mtu - 12 \<and> rp_timestamp p = ts) ps"
      "list_all (\<lambda>p. \<not> rp_marker p) (butlast ps)"
      "depack None (map rp_payload ps) = Some (snd (accept_all accept st (map snd us)))"
    using frame_delivered [OF assms(1,2), of "filter keep (map snd us)" ts] by (auto simp: accept_kept)
  then show ?thesis
    using q(1) rd assms(3) by (intro exI [of _ q] exI [of _ ps]) (simp add: send_frame_def annexb_reset_idle)
qed

lemma send_frames_delivered:
  assumes "12 \<le> mtu" and "valid (mtu - 12) st" and "no_code pre"
    and "list_all (\<lambda>f. proper (snd f) \<and> snd f \<noteq> [] \<and> list_all (good (mtu - 12)) (frame_units f)) fs"
  shows "\<exists>rd st' pss. send_frames read payload mtu (idle_at pre []) st (map frame_bytes fs) = Some (rd, st', pss) \<and>
    list_all2 (frame_packets mtu) fs pss \<and>
    map (\<lambda>ps. depack None (map rp_payload ps)) pss = map Some (accept_frames accept st (map frame_units fs))"
  using assms(2-)
proof (induction fs arbitrary: st pre)
  case (Cons f fs)
  have gs: "list_all (\<lambda>u. good (mtu - 12) (snd u)) (snd f)"
    using Cons.prems(3) by (simp add: frame_units_def list.pred_map comp_def)
  obtain q ps where q: "no_code q"
      "send_frame read payload mtu (idle_at pre []) st (fst f) (stream_of (snd f)) =
        Some (idle_at q [], fst (accept_all accept st (frame_units f)), ps)"
      "list_all (\<lambda>p. length (rp_payload p) \<le> mtu - 12 \<and> rp_timestamp p = fst f) ps"
      "list_all (\<lambda>p. \<not> rp_marker p) (butlast ps)"
      "depack None (map rp_payload ps) = Some (snd (accept_all accept st (frame_units f)))"
    using send_frame_delivered [OF assms(1) Cons.prems(1,2), of "snd f" "fst f"] Cons.prems(3) gs
    by (auto simp: frame_units_def)
  have "valid (mtu - 12) (fst (accept_all accept st (frame_units f)))"
    using accept_all_valid Cons.prems(1,3) by simp
  then obtain rd st' pss where
      "send_frames read payload mtu (idle_at q []) (fst (accept_all accept st (frame_units f))) (map frame_bytes fs) =
        Some (rd, st', pss)" "list_all2 (frame_packets mtu) fs pss"
      "map (\<lambda>ps. depack None (map rp_payload ps)) pss =
        map Some (accept_frames accept (fst (accept_all accept st (frame_units f))) (map frame_units fs))"
    using Cons.IH [of "fst (accept_all accept st (frame_units f))" q] q(1) Cons.prems(3) by auto
  then show ?case
    using q(2-) by (intro exI [of _ rd] exI [of _ st'] exI [of _ "ps # pss"])
      (simp add: frame_bytes_def [of f] frame_packets_def [of mtu f ps])
qed simp

end

end
