(* ===== verification/Rtp_H264.thy ===== *)
theory Rtp_H264
  imports Rtp_Stream
begin

text \<open>
  \<open>src/streamer/src/transport/webrtc/video/h264\<close>: the NAL unit header (\<open>mod.rs\<close>), the reader on top of the Annex-B
  splitter (\<open>reader.rs\<close>) and the RTP payloader (\<open>payloader.rs\<close>). \<open>usize\<close> subtractions and slice indices that the
  source does not guard are panics (\<open>None\<close>). The receiver of RFC 3984, section 5, is stated as a reference definition;
  the theorem is that it gets back the NAL units that went into the payloader.
\<close>

section \<open>The NAL unit header\<close>

datatype h264_nal_unit_type =
  Unspecified | CodedSliceNonIDR | CodedSliceDataPartitionA | CodedSliceDataPartitionB | CodedSliceDataPartitionC |
  CodedSliceIDR | Sei | Sps | Pps | AccessUnitDelimiter | EndOfSequence | EndOfStream | FillerData | SPSEx |
  PrefixNALUnit | SubsetSPS | DepthParameterSet | Reserved17 | Reserved18 | CodedSliceAux | CodedSliceExt |
  CodedSliceExtDepth | Reserved22 | Reserved23 | StapA | Unspecified25 | Unspecified26 | Unspecified27 |
  FragmentationUnit | Unspecified29 | Unspecified30 | Unspecified31

text \<open>The discriminants (\<open>as u8\<close>), and \<open>FromPrimitive::from_u8\<close>: the type with that discriminant.\<close>

primrec h264_as_u8 :: "h264_nal_unit_type \<Rightarrow> u8" where
  "h264_as_u8 Unspecified = 0"
| "h264_as_u8 CodedSliceNonIDR = 1"
| "h264_as_u8 CodedSliceDataPartitionA = 2"
| "h264_as_u8 CodedSliceDataPartitionB = 3"
| "h264_as_u8 CodedSliceDataPartitionC = 4"
| "h264_as_u8 CodedSliceIDR = 5"
| "h264_as_u8 Sei = 6"
| "h264_as_u8 Sps = 7"
| "h264_as_u8 Pps = 8"
| "h264_as_u8 AccessUnitDelimiter = 9"
| "h264_as_u8 EndOfSequence = 10"
| "h264_as_u8 EndOfStream = 11"
| "h264_as_u8 FillerData = 12"
| "h264_as_u8 SPSEx = 13"
| "h264_as_u8 PrefixNALUnit = 14"
| "h264_as_u8 SubsetSPS = 15"
| "h264_as_u8 DepthParameterSet = 16"
| "h264_as_u8 Reserved17 = 17"
| "h264_as_u8 Reserved18 = 18"
| "h264_as_u8 CodedSliceAux = 19"
| "h264_as_u8 CodedSliceExt = 20"
| "h264_as_u8 CodedSliceExtDepth = 21"
| "h264_as_u8 Reserved22 = 22"
| "h264_as_u8 Reserved23 = 23"
| "h264_as_u8 StapA = 24"
| "h264_as_u8 Unspecified25 = 25"
| "h264_as_u8 Unspecified26 = 26"
| "h264_as_u8 Unspecified27 = 27"
| "h264_as_u8 FragmentationUnit = 28"
| "h264_as_u8 Unspecified29 = 29"
| "h264_as_u8 Unspecified30 = 30"
| "h264_as_u8 Unspecified31 = 31"

definition h264_nal_unit_types :: "h264_nal_unit_type list" where
  "h264_nal_unit_types =
    [Unspecified, CodedSliceNonIDR, CodedSliceDataPartitionA, CodedSliceDataPartitionB, CodedSliceDataPartitionC,
     CodedSliceIDR, Sei, Sps, Pps, AccessUnitDelimiter, EndOfSequence, EndOfStream, FillerData, SPSEx, PrefixNALUnit,
     SubsetSPS, DepthParameterSet, Reserved17, Reserved18, CodedSliceAux, CodedSliceExt, CodedSliceExtDepth,
     Reserved22, Reserved23, StapA, Unspecified25, Unspecified26, Unspecified27, FragmentationUnit, Unspecified29,
     Unspecified30, Unspecified31]"

definition h264_type_from_u8 :: "u8 \<Rightarrow> h264_nal_unit_type option" where
  "h264_type_from_u8 b = (if unat b < length h264_nal_unit_types then Some (h264_nal_unit_types ! unat b) else None)"

record h264_nal_header =
  h4_forbidden_zero_bit :: bool
  h4_nal_ref_idc :: u8
  h4_nal_unit_type :: h264_nal_unit_type

text \<open>\<open>None\<close> is the panic of the \<open>unwrap\<close>.\<close>

definition h264_header_parse :: "u8 \<Rightarrow> h264_nal_header option" where
  "h264_header_parse h =
     map_option (\<lambda>ty.
       \<lparr>h4_forbidden_zero_bit = (drop_bit 7 (h AND 0x80) = 1),
        h4_nal_ref_idc = drop_bit 5 (h AND 0x60),
        h4_nal_unit_type = ty\<rparr>)
       (h264_type_from_u8 (h AND 0x1F))"

definition h264_header_serialize :: "h264_nal_header \<Rightarrow> u8" where
  "h264_header_serialize h =
     (let b = (if h4_forbidden_zero_bit h then 0x80 else 0);
          b = b OR push_bit 5 (h4_nal_ref_idc h AND 3)
      in b OR (h264_as_u8 (h4_nal_unit_type h) AND 0x1F))"

section \<open>The reader\<close>

record h264_nal =
  h4n_payload_range :: "nat \<times> nat"
  h4n_header :: h264_nal_header
  h4n_header_range :: "nat \<times> nat"
  h4n_start_code :: annexb_start_code
  h4n_start_code_range :: "nat \<times> nat"
  h4n_full :: bytes

text \<open>
  \<open>next_nal\<close>: the slice of the header is taken without a length check, so a unit without a byte after its start
  code is a panic.
\<close>

definition h264_next_nal :: "annexb_splitter \<Rightarrow> (annexb_splitter \<times> h264_nal option) option" where
  "h264_next_nal s =
     Option.bind (annexb_next s) (\<lambda>(s, d).
       case d of
         None \<Rightarrow> Some (s, None)
       | Some a \<Rightarrow>
           (let start = fst (ad_payload_range a); header_range = (start, start + 1)
            in if length (ad_full a) < start + 1 then None
               else Option.bind (h264_header_parse (ad_full a ! start)) (\<lambda>header.
                 Some (s, Some
                   \<lparr>h4n_payload_range = (snd header_range, snd (ad_payload_range a)),
                    h4n_header = header,
                    h4n_header_range = header_range,
                    h4n_start_code = ad_start_code a,
                    h4n_start_code_range = ad_start_code_range a,
                    h4n_full = ad_full a\<rparr>))))"

text \<open>
  The \<open>while let\<close> loop over \<open>next_nal\<close> in \<open>send_decode_unit\<close>: fillers are skipped, of the others the bytes from the
  header on become a sample.
\<close>

fun h264_read_samples :: nal_read where
  "h264_read_samples 0 s = None"
| "h264_read_samples (Suc fuel) s =
     Option.bind (h264_next_nal s) (\<lambda>(s, nal).
       case nal of
         None \<Rightarrow> Some (s, [])
       | Some nal \<Rightarrow>
           if h4_nal_unit_type (h4n_header nal) = FillerData then h264_read_samples fuel s
           else Option.bind (trim_bytes_to_range (h4n_full nal) (fst (h4n_header_range nal), snd (h4n_payload_range nal)))
             (\<lambda>data. map_option (\<lambda>(s, samples). (s, data # samples)) (h264_read_samples fuel s)))"

definition h264_reader_reset :: "bytes \<Rightarrow> annexb_splitter \<Rightarrow> annexb_splitter option" where
  "h264_reader_reset new_reader s = annexb_reset new_reader s"

section \<open>The payloader\<close>

record h264_payloader =
  h4_sps_nalu :: "bytes option"
  h4_pps_nalu :: "bytes option"

definition h264_payloader_default :: h264_payloader where
  "h264_payloader_default = \<lparr>h4_sps_nalu = None, h4_pps_nalu = None\<rparr>"

record h264_fu_header =
  h4fu_start :: bool
  h4fu_end :: bool
  h4fu_reserved_bit :: bool
  h4fu_nal_unit_type :: h264_nal_unit_type

definition h264_fu_parse :: "u8 \<Rightarrow> h264_fu_header option" where
  "h264_fu_parse h =
     map_option (\<lambda>ty.
       \<lparr>h4fu_start = (h AND 0x80 \<noteq> 0), h4fu_end = (h AND 0x40 \<noteq> 0), h4fu_reserved_bit = (h AND 0x20 \<noteq> 0),
        h4fu_nal_unit_type = ty\<rparr>)
       (h264_type_from_u8 (h AND 0x1F))"

definition h264_fu_serialize :: "h264_fu_header \<Rightarrow> u8" where
  "h264_fu_serialize h =
     (let b = (if h4fu_start h then 0x80 else 0);
          b = (if h4fu_end h then b OR 0x40 else b);
          b = (if h4fu_reserved_bit h then b OR 0x20 else b)
      in b OR (h264_as_u8 (h4fu_nal_unit_type h) AND 0x1F))"

definition h264_build_single_nal :: "bytes \<Rightarrow> bytes" where
  "h264_build_single_nal nalu = nalu"

text \<open>The largest \<open>nal_ref_idc\<close> of the units; \<open>nalu[0]\<close> of an empty one is a panic.\<close>

fun h264_stap_ref_idc :: "u8 \<Rightarrow> bytes list \<Rightarrow> u8 option" where
  "h264_stap_ref_idc idc [] = Some idc"
| "h264_stap_ref_idc idc ([] # nalus) = None"
| "h264_stap_ref_idc idc ((b # nalu) # nalus) =
     Option.bind (h264_header_parse b) (\<lambda>h.
       h264_stap_ref_idc (if idc < h4_nal_ref_idc h then h4_nal_ref_idc h else idc) nalus)"

definition h264_build_stap_a :: "bytes list \<Rightarrow> bytes option" where
  "h264_build_stap_a nalus =
     map_option (\<lambda>idc.
       h264_header_serialize \<lparr>h4_forbidden_zero_bit = False, h4_nal_ref_idc = idc, h4_nal_unit_type = StapA\<rparr>
         # concat (map (\<lambda>nalu. be16 (of_nat (length nalu)) @ nalu) nalus))
       (h264_stap_ref_idc 0 nalus)"

text \<open>The \<open>while let\<close> loop over the peekable fragments.\<close>

fun h264_fu_loop :: "u8 \<Rightarrow> h264_nal_unit_type \<Rightarrow> bool \<Rightarrow> bytes list \<Rightarrow> bytes list" where
  "h264_fu_loop hdr ty is_first [] = []"
| "h264_fu_loop hdr ty is_first (frag # frags) =
     (hdr # h264_fu_serialize
        \<lparr>h4fu_start = is_first, h4fu_end = (frags = []), h4fu_reserved_bit = False, h4fu_nal_unit_type = ty\<rparr> # frag)
     # h264_fu_loop hdr ty False frags"

text \<open>
  \<open>mtu - 2\<close> underflows below two (a panic with overflow checks) and \<open>chunks(0)\<close> panics at two; \<open>nalu[1..]\<close> panics on
  an empty unit.
\<close>

definition h264_build_fragmented :: "bytes \<Rightarrow> h264_nal_header \<Rightarrow> nat \<Rightarrow> bytes list option" where
  "h264_build_fragmented nalu nal_header mtu =
     (if mtu \<le> 2 \<or> nalu = [] then None
      else Some (h264_fu_loop (h264_header_serialize (nal_header\<lparr>h4_nal_unit_type := FragmentationUnit\<rparr>))
             (h4_nal_unit_type nal_header) True (chunks (mtu - 1 - 1) (tl nalu))))"

definition h264_payload :: "h264_payloader \<Rightarrow> nat \<Rightarrow> bytes \<Rightarrow> (h264_payloader \<times> (rtp_error + bytes list)) option" where
  "h264_payload st mtu b =
     (case b of
        [] \<Rightarrow> Some (st, Inl ErrBufferTooSmall)
      | b0 # _ \<Rightarrow>
          Option.bind (h264_header_parse b0) (\<lambda>nal_header.
            let ty = h4_nal_unit_type nal_header
            in if ty = AccessUnitDelimiter \<or> ty = FillerData then Some (st, Inr [])
               else if ty = Pps then Some (st\<lparr>h4_pps_nalu := Some b\<rparr>, Inr [])
               else if ty = Sps then Some (st\<lparr>h4_sps_nalu := Some b\<rparr>, Inr [])
               else
                 (let finish = (\<lambda>st packets.
                    if length b \<le> mtu then Some (st, Inr (packets @ [h264_build_single_nal b]))
                    else map_option (\<lambda>ps. (st, Inr (packets @ ps))) (h264_build_fragmented b nal_header mtu))
                  in case (h4_pps_nalu st, h4_sps_nalu st) of
                       (Some pps, Some sps) \<Rightarrow>
                         Option.bind (h264_build_stap_a [sps, pps]) (\<lambda>stap_a.
                           if mtu \<le> length stap_a then Some (st, Inr [])
                           else finish (st\<lparr>h4_pps_nalu := None, h4_sps_nalu := None\<rparr>) [stap_a])
                     | _ \<Rightarrow> finish st [])))"

section \<open>The receiver of RFC 3984\<close>

definition h264_type_bits :: "bytes \<Rightarrow> u8" where
  "h264_type_bits nalu = hd nalu AND 0x1F"

text \<open>
  The non-interleaved mode: single NAL unit packets (types 1 to 23), STAP-A (24) and FU-A (28). \<open>acc\<close> is the unit
  whose fragments are being collected; anything out of order is refused.
\<close>

fun h264_depack :: "bytes option \<Rightarrow> bytes list \<Rightarrow> bytes list option" where
  "h264_depack acc [] = (if acc = None then Some [] else None)"
| "h264_depack acc ([] # ps) = None"
| "h264_depack acc ((h # rest) # ps) =
     (if h AND 0x1F = 28 then
        (case rest of
           [] \<Rightarrow> None
         | fu # frag \<Rightarrow>
             if bit fu 7 = (acc = None) then
               (let nal = (case acc of None \<Rightarrow> [(h AND 0xE0) OR (fu AND 0x1F)] | Some x \<Rightarrow> x) @ frag
                in if bit fu 6 then map_option ((#) nal) (h264_depack None ps) else h264_depack (Some nal) ps)
             else None)
      else if acc \<noteq> None then None
      else if h AND 0x1F = 24 then
        Option.bind (aggregated_units rest) (\<lambda>us. map_option ((@) us) (h264_depack None ps))
      else map_option ((#) (h # rest)) (h264_depack None ps))"

section \<open>Headers\<close>

lemma h264_types_as_u8: "list_all (\<lambda>n. h264_as_u8 (h264_nal_unit_types ! n) = of_nat n) [0..<32]"
  by (simp add: h264_nal_unit_types_def upt_rec)

lemma h264_from_u8:
  assumes "unat b < 32"
  shows "h264_type_from_u8 b = Some (h264_nal_unit_types ! unat b)"
    and "h264_as_u8 (h264_nal_unit_types ! unat b) = b"
  using assms h264_types_as_u8
  by (simp_all add: h264_type_from_u8_def list_all_iff h264_nal_unit_types_def)

lemma and31_lt: "unat (h AND 0x1F :: u8) < 32"
proof -
  have "h AND 0x1F = take_bit 5 h" by (simp add: take_bit_eq_mask mask_eq_exp_minus_1)
  then show ?thesis using take_bit_nat_less_exp [of 5 "unat h"] by (simp add: unsigned_take_bit_eq)
qed

lemma h264_parse_eq:
  "h264_header_parse h = Some
     \<lparr>h4_forbidden_zero_bit = bit h 7, h4_nal_ref_idc = drop_bit 5 (h AND 0x60),
      h4_nal_unit_type = h264_nal_unit_types ! unat (h AND 0x1F)\<rparr>"
proof -
  have "drop_bit 7 (h AND 0x80) = 1 \<longleftrightarrow> bit h 7" by (simp add: byte_eq_iff bit_simps)
  then show ?thesis by (simp add: h264_header_parse_def h264_from_u8 and31_lt)
qed

lemma h264_type_as_bits: "h264_as_u8 (h264_nal_unit_types ! unat (h AND 0x1F)) = h AND 0x1F"
  by (simp add: h264_from_u8 and31_lt)

lemma h264_types_of_as: "h264_nal_unit_types ! unat (h264_as_u8 ty) = ty"
  by (cases ty) (simp_all add: h264_nal_unit_types_def)

lemma h264_type_iff: "h264_nal_unit_types ! unat (h AND 0x1F) = ty \<longleftrightarrow> h AND 0x1F = h264_as_u8 ty"
  by (metis h264_type_as_bits h264_types_of_as)

lemma h264_header_roundtrip:
  assumes "h4_nal_ref_idc h < 4"
  shows "h264_header_parse (h264_header_serialize h) = Some h"
proof -
  let ?b = "h264_header_serialize h" and ?x = "h264_as_u8 (h4_nal_unit_type h)" and ?i = "h4_nal_ref_idc h"
  have "unat ?x < 32" by (cases "h4_nal_unit_type h") simp_all
  then have "?x AND 0x1F = ?x"
    using less_mask_eq [of ?x 5] by (simp add: mask_eq_exp_minus_1 word_less_nat_alt)
  then have x: "\<not> bit ?x 5" "\<not> bit ?x 6" "\<not> bit ?x 7" by (simp_all add: byte_eq_iff bit_simps)
  have "?i AND 3 = ?i" using assms less_mask_eq [of ?i 2] by (simp add: mask_eq_exp_minus_1)
  then have i: "\<not> bit ?i 2" "\<not> bit ?i 3" "\<not> bit ?i 4" "\<not> bit ?i 5" "\<not> bit ?i 6" "\<not> bit ?i 7"
    by (simp_all add: byte_eq_iff bit_simps)
  have "bit ?b 7 = h4_forbidden_zero_bit h" and "?b AND 0x1F = ?x" and "drop_bit 5 (?b AND 0x60) = ?i"
    using x i by (simp_all add: h264_header_serialize_def Let_def byte_eq_iff bit_simps)
  then show ?thesis by (simp only: h264_parse_eq h264_types_of_as) simp
qed

section \<open>Fragmentation units\<close>

definition h264_fu_byte :: "u8 \<Rightarrow> bool \<Rightarrow> bool \<Rightarrow> u8" where
  "h264_fu_byte h s e = h264_fu_serialize
     \<lparr>h4fu_start = s, h4fu_end = e, h4fu_reserved_bit = False,
      h4fu_nal_unit_type = h264_nal_unit_types ! unat (h AND 0x1F)\<rparr>"

lemma h264_fu_byte_facts:
  "bit (h264_fu_byte h s e) 7 = s" "bit (h264_fu_byte h s e) 6 = e" "h264_fu_byte h s e AND 0x1F = h AND 0x1F"
  by (simp_all add: h264_fu_byte_def h264_fu_serialize_def Let_def h264_type_as_bits byte_eq_iff bit_simps)

definition h264_fu_indicator :: "u8 \<Rightarrow> u8" where
  "h264_fu_indicator h = (h AND 0xE0) OR 28"

lemma h264_fu_indicator_facts:
  "h264_fu_indicator h AND 0x1F = 28" "(h264_fu_indicator h AND 0xE0) OR (h AND 0x1F) = h"
  by (simp_all add: h264_fu_indicator_def byte_eq_iff bit_simps)

lemma h264_fu_indicator_header:
  "h264_header_parse h = Some nh \<Longrightarrow>
    h264_header_serialize (nh\<lparr>h4_nal_unit_type := FragmentationUnit\<rparr>) = h264_fu_indicator h"
  by (auto simp: h264_parse_eq h264_header_serialize_def h264_fu_indicator_def byte_eq_iff bit_simps)

interpretation h264_fu: reassembler "[h264_fu_indicator h]" "h264_fu_byte h"
  "h264_fu_loop (h264_fu_indicator h) (h264_nal_unit_types ! unat (h AND 0x1F))" "[h]" h264_depack for h
  by unfold_locales
    (simp_all add: h264_fu_indicator_facts h264_fu_byte_facts(1,2) h264_fu_byte_facts(3) h264_fu_byte_def [symmetric])

section \<open>The contract of the payloader\<close>

text \<open>
  The abstract payloader: delimiters and fillers are dropped, the parameter sets are held back and go out, both, in
  front of the next other NAL unit.
\<close>

definition h264_accept :: "h264_payloader \<Rightarrow> bytes \<Rightarrow> h264_payloader \<times> bytes list" where
  "h264_accept st n =
     (if h264_type_bits n = 9 \<or> h264_type_bits n = 12 then (st, [])
      else if h264_type_bits n = 8 then (st\<lparr>h4_pps_nalu := Some n\<rparr>, [])
      else if h264_type_bits n = 7 then (st\<lparr>h4_sps_nalu := Some n\<rparr>, [])
      else case (h4_sps_nalu st, h4_pps_nalu st) of
             (Some sps, Some pps) \<Rightarrow> (st\<lparr>h4_sps_nalu := None, h4_pps_nalu := None\<rparr>, [sps, pps, n])
           | _ \<Rightarrow> (st, [n]))"

text \<open>
  A NAL unit the payloader can carry: not empty, not of a type that RTP uses for itself, and small enough for the
  aggregation packet when it is a parameter set.
\<close>

definition h264_param_fits :: "nat \<Rightarrow> bytes \<Rightarrow> bool" where
  "h264_param_fits mtu n \<longleftrightarrow> n \<noteq> [] \<and> 2 * length n + 5 < mtu"

definition h264_good :: "nat \<Rightarrow> bytes \<Rightarrow> bool" where
  "h264_good mtu n \<longleftrightarrow> n \<noteq> [] \<and> h264_type_bits n < 24 \<and> 2 < mtu \<and> mtu \<le> 65536 \<and>
     (h264_type_bits n = 7 \<or> h264_type_bits n = 8 \<longrightarrow> h264_param_fits mtu n)"

definition h264_valid :: "nat \<Rightarrow> h264_payloader \<Rightarrow> bool" where
  "h264_valid mtu st \<longleftrightarrow>
     pred_option (h264_param_fits mtu) (h4_sps_nalu st) \<and> pred_option (h264_param_fits mtu) (h4_pps_nalu st)"

lemma h264_accept_valid: "h264_valid mtu st \<Longrightarrow> h264_good mtu n \<Longrightarrow> h264_valid mtu (fst (h264_accept st n))"
  by (auto simp: h264_valid_def h264_good_def h264_accept_def split: option.splits)

text \<open>The STAP-A of two parameter sets, and what the receiver makes of it.\<close>

lemma h264_ref_idc_total: "list_all (\<lambda>n. n \<noteq> []) ns \<Longrightarrow> \<exists>i. h264_stap_ref_idc idc ns = Some i"
proof (induction ns arbitrary: idc)
  case (Cons n ns)
  then show ?case by (cases n) (simp_all add: h264_parse_eq)
qed simp

lemma h264_stap:
  assumes "h264_param_fits mtu sps" and "h264_param_fits mtu pps" and "mtu \<le> 65536"
  shows "\<exists>p. h264_build_stap_a [sps, pps] = Some p \<and> length p < mtu \<and>
    (\<forall>rest. h264_depack None (p # rest) = map_option ((@) [sps, pps]) (h264_depack None rest))"
proof -
  obtain i where "h264_stap_ref_idc 0 [sps, pps] = Some i"
    using h264_ref_idc_total [of "[sps, pps]"] assms by (auto simp: h264_param_fits_def)
  let ?h = "h264_header_serialize \<lparr>h4_forbidden_zero_bit = False, h4_nal_ref_idc = i, h4_nal_unit_type = StapA\<rparr>"
  let ?us = "concat (map (\<lambda>nalu. be16 (of_nat (length nalu)) @ nalu) [sps, pps])"
  have "?h AND 0x1F = 24" by (simp add: h264_header_serialize_def byte_eq_iff bit_simps)
  moreover have "aggregated_units ?us = Some [sps, pps]"
    using aggregated_units_all [of "[sps, pps]"] assms by (auto simp: h264_param_fits_def)
  ultimately have "h264_depack None ((?h # ?us) # rest) = map_option ((@) [sps, pps]) (h264_depack None rest)" for rest
    by simp
  moreover have "length (?h # ?us) < mtu" using assms by (auto simp: h264_param_fits_def be16_def)
  ultimately show ?thesis
    using \<open>h264_stap_ref_idc 0 [sps, pps] = Some i\<close> by (simp add: h264_build_stap_a_def)
qed

text \<open>One NAL unit, whole or in fragments.\<close>

lemma h264_single:
  assumes "n \<noteq> []" and "h264_type_bits n < 24"
  shows "h264_depack None (n # rest) = map_option ((#) n) (h264_depack None rest)"
  using assms by (cases n) (auto simp: h264_type_bits_def)

lemma h264_fragmented:
  assumes "n \<noteq> []" "2 < mtu" "mtu < length n" "h264_header_parse (hd n) = Some nh"
  shows "\<exists>ps. h264_build_fragmented n nh mtu = Some ps \<and> list_all (\<lambda>p. length p \<le> mtu) ps \<and>
    (\<forall>rest. h264_depack None (ps @ rest) = map_option ((#) n) (h264_depack None rest))"
proof -
  let ?fs = "chunks (mtu - 1 - 1) (tl n)"
  let ?ps = "h264_fu_loop (h264_fu_indicator (hd n)) (h264_nal_unit_types ! unat (hd n AND 0x1F)) True ?fs"
  have "h4_nal_unit_type nh = h264_nal_unit_types ! unat (hd n AND 0x1F)"
    using assms(4) by (auto simp: h264_parse_eq)
  then have "h264_build_fragmented n nh mtu = Some ?ps"
    using assms by (simp add: h264_build_fragmented_def h264_fu_indicator_header)
  moreover have "list_all (\<lambda>p. length p \<le> mtu) ?ps"
    using h264_fu.emit_bound [OF chunks_bound [of "mtu - 1 - 1" "tl n"], of "hd n" True] assms(2)
    by (auto elim!: list.pred_mono_strong)
  moreover have "2 \<le> length ?fs" using assms by (intro chunks_two) auto
  then have "h264_depack None (?ps @ rest) = map_option ((#) n) (h264_depack None rest)" for rest
    using h264_fu.depack_emit [of ?fs "hd n" rest] concat_chunks [of "mtu - 1 - 1" "tl n"] assms(1,2) by simp
  ultimately show ?thesis by blast
qed

lemma h264_finish:
  assumes "h264_good mtu n" "h264_header_parse (hd n) = Some nh"
  shows "\<exists>ps. (if length n \<le> mtu then Some [h264_build_single_nal n] else h264_build_fragmented n nh mtu) = Some ps \<and>
    list_all (\<lambda>p. length p \<le> mtu) ps \<and>
    (\<forall>rest. h264_depack None (ps @ rest) = map_option ((#) n) (h264_depack None rest))"
proof (cases "length n \<le> mtu")
  case True
  then show ?thesis using assms h264_single [of n] by (auto simp: h264_good_def h264_build_single_nal_def)
next
  case False
  then show ?thesis using assms h264_fragmented [of n mtu nh] by (auto simp: h264_good_def)
qed

lemma h264_payload_accepts:
  assumes "h264_valid mtu st" and good: "h264_good mtu n"
  shows "\<exists>ps. h264_payload st mtu n = Some (fst (h264_accept st n), Inr ps) \<and> list_all (\<lambda>p. length p \<le> mtu) ps \<and>
    (\<forall>rest. h264_depack None (ps @ rest) = map_option ((@) (snd (h264_accept st n))) (h264_depack None rest))"
proof -
  obtain b0 bs where n: "n = b0 # bs" using good by (cases n) (auto simp: h264_good_def)
  obtain nh where nh: "h264_header_parse b0 = Some nh" and ty: "h4_nal_unit_type nh = h264_nal_unit_types ! unat (b0 AND 0x1F)"
    by (simp add: h264_parse_eq)
  have tb: "h264_type_bits n = b0 AND 0x1F" by (simp add: h264_type_bits_def n)
  obtain ps where ps: "(if length n \<le> mtu then Some [h264_build_single_nal n] else h264_build_fragmented n nh mtu) = Some ps"
      "list_all (\<lambda>p. length p \<le> mtu) ps"
      "\<forall>rest. h264_depack None (ps @ rest) = map_option ((#) n) (h264_depack None rest)"
    using h264_finish [OF good] nh by (auto simp: n)
  note types = h264_type_iff [of b0 AccessUnitDelimiter] h264_type_iff [of b0 FillerData]
    h264_type_iff [of b0 Pps] h264_type_iff [of b0 Sps]
  consider (held) "b0 AND 0x1F \<in> {7, 8, 9, 12}" | (other) "b0 AND 0x1F \<notin> {7, 8, 9, 12}" by blast
  then show ?thesis
  proof cases
    case held
    then show ?thesis
      using nh ty types tb by (auto simp: h264_payload_def h264_accept_def n Let_def option.map_id map_option_idI)
  next
    case other
    have fin: "(if length n \<le> mtu then Some (st', Inr (qs @ [h264_build_single_nal n]))
        else map_option (\<lambda>ps. (st', Inr (qs @ ps))) (h264_build_fragmented n nh mtu)) = Some (st', Inr (qs @ ps))"
      for st' :: h264_payloader and qs
      using ps(1) by (auto split: if_splits)
    show ?thesis
    proof (cases "h4_sps_nalu st = None \<or> h4_pps_nalu st = None")
      case True
      then have "h264_payload st mtu n = Some (st, Inr ps)"
        using other nh ty types fin [of st "[]"] by (auto simp: h264_payload_def n Let_def split: option.splits)
      moreover have "h264_accept st n = (st, [n])"
        using other tb True by (auto simp: h264_accept_def split: option.splits)
      moreover have "((@) [n]) = ((#) n)" by auto
      ultimately show ?thesis using ps(2,3) by simp
    next
      case False
      then obtain sps pps where held: "h4_sps_nalu st = Some sps" "h4_pps_nalu st = Some pps" by auto
      obtain p where p: "h264_build_stap_a [sps, pps] = Some p" "length p < mtu"
          "\<forall>rest. h264_depack None (p # rest) = map_option ((@) [sps, pps]) (h264_depack None rest)"
        using h264_stap [of mtu sps pps] assms held by (auto simp: h264_valid_def h264_good_def)
      let ?st = "st\<lparr>h4_sps_nalu := None, h4_pps_nalu := None\<rparr>"
      have "h264_payload st mtu n = Some (?st, Inr (p # ps))"
        using other nh ty types held p(1,2) fin [of ?st "[p]"] by (auto simp: h264_payload_def n Let_def)
      moreover have "h264_accept st n = (?st, [sps, pps, n])"
        using other tb held by (auto simp: h264_accept_def)
      moreover have "h264_depack None ((p # ps) @ rest) = map_option ((@) [sps, pps, n]) (h264_depack None rest)" for rest
        using p(3) ps(3) by (cases "h264_depack None rest") simp_all
      ultimately show ?thesis using p(2) ps(2) by auto
    qed
  qed
qed

interpretation h264: payloader h264_payload h264_depack h264_valid h264_good h264_accept
  by unfold_locales (simp_all add: h264_payload_accepts h264_accept_valid)

section \<open>Sending frames\<close>

definition h264_kept :: "bytes \<Rightarrow> bool" where
  "h264_kept n \<longleftrightarrow> h264_type_bits n \<noteq> 12"

lemma h264_next_unit:
  assumes "annexb_next s = Some (s', Some (annexb_unit (c, p)))" and "1 \<le> length p"
  shows "\<exists>nal. h264_next_nal s = Some (s', Some nal) \<and>
    (h4_nal_unit_type (h4n_header nal) = FillerData \<longleftrightarrow> \<not> h264_kept p) \<and>
    trim_bytes_to_range (h4n_full nal) (fst (h4n_header_range nal), snd (h4n_payload_range nal)) = Some p"
proof -
  obtain b bs where p: "p = b # bs" using assms(2) by (cases p) auto
  have "trim_bytes_to_range (sc_code c @ p) (sc_len c, length (sc_code c @ p)) = Some p"
    by (simp add: trim_subslice sc_len_def subslice_def)
  moreover have "(sc_code c @ p) ! sc_len c = b" by (simp add: p sc_len_def nth_append)
  moreover have "h264_kept p \<longleftrightarrow> b AND 0x1F \<noteq> 12" by (simp add: h264_kept_def h264_type_bits_def p)
  moreover have "length (sc_code c @ p) \<ge> sc_len c + 1" by (simp add: p sc_len_def)
  ultimately show ?thesis
    using assms(1) h264_type_iff [of b FillerData]
    by (simp add: h264_next_nal_def annexb_unit_def unit_data_def Let_def h264_parse_eq)
qed

interpretation h264_sender: frame_sender h264_read_samples h264_kept 1 h264_payload h264_depack h264_valid h264_good h264_accept
proof unfold_locales
  show "h264_read_samples (Suc n) s = Some (s', [])" if "annexb_next s = Some (s', None)" for s s' n
    using that by (simp add: h264_next_nal_def)
  show "h264_read_samples (Suc n) s = map_option (\<lambda>(s, xs). (s, if h264_kept p then p # xs else xs)) (h264_read_samples n s')"
    if "annexb_next s = Some (s', Some (annexb_unit (c, p)))" and "1 \<le> length p" for s s' c p n
    using h264_next_unit [OF that] by (auto simp: map_option_case split: option.splits)
  show "1 \<le> length n" if "h264_good mtu n" for mtu n
    using that by (cases n) (auto simp: h264_good_def)
  show "h264_accept st n = (st, [])" if "\<not> h264_kept n" for st n
    using that by (simp add: h264_accept_def h264_kept_def)
qed

text \<open>
  C9.
  A stream of H.264 frames over RTP. Every frame is a well-formed Annex-B stream (\<open>proper\<close>: no start code inside a unit), and its
  units are \<open>h264_good\<close>: not empty, of the types 0 to 23, the payload MTU between 3 and 65536, and a parameter set such that two
  of its length fit one aggregation packet. Then, whatever frames came before, the packets of a frame fit the path MTU, only
  the last one may carry the marker, and a receiver that follows RFC 3984 gets, frame by frame, the NAL units of the
  stream in order, with access unit delimiters and fillers dropped and the parameter sets held back until the next other unit.
\<close>

theorem h264_stream_delivered:
  assumes "12 \<le> mtu"
    and "list_all (\<lambda>f. proper (snd f) \<and> snd f \<noteq> [] \<and> list_all (h264_good (mtu - 12)) (frame_units f)) frames"
  shows "\<exists>rd st pss.
    send_frames h264_read_samples h264_payload mtu (annexb_new []) h264_payloader_default (map frame_bytes frames) =
      Some (rd, st, pss) \<and>
    list_all2 (frame_packets mtu) frames pss \<and>
    map (\<lambda>ps. h264_depack None (map rp_payload ps)) pss =
      map Some (accept_frames h264_accept h264_payloader_default (map frame_units frames))"
  using h264_sender.send_frames_delivered [of mtu h264_payloader_default "[]" frames] assms
  by (simp add: annexb_new_idle h264_valid_def h264_payloader_default_def)

theorem h264_stream_delivered_witness:
  "\<exists>rd st pss.
    send_frames h264_read_samples h264_payload 40 (annexb_new []) h264_payloader_default
      (map frame_bytes [(1, [(B4, [0x67, 1, 2]), (B4, [0x68, 3]), (B3, 0x65 # replicate 60 7)]), (2, [(B4, [0x41, 5])])]) =
      Some (rd, st, pss) \<and>
    map (\<lambda>ps. h264_depack None (map rp_payload ps)) pss =
      map Some [[[0x67, 1, 2], [0x68, 3], 0x65 # replicate 60 7], [[0x41, 5]]]"
proof -
  let ?fs = "[(1, [(B4, [0x67, 1, 2]), (B4, [0x68, 3]), (B3, 0x65 # replicate 60 7)]), (2, [(B4, [0x41, 5])])]
    :: (u32 \<times> unit_spec list) list"
  have "accept_frames h264_accept h264_payloader_default (map frame_units ?fs) =
      [[[0x67, 1, 2], [0x68, 3], 0x65 # replicate 60 7], [[0x41, 5]]]"
    by (simp add: frame_units_def h264_accept_def h264_payloader_default_def h264_type_bits_def)
  moreover have "list_all (\<lambda>f. proper (snd f) \<and> snd f \<noteq> [] \<and> list_all (h264_good (40 - 12)) (frame_units f)) ?fs"
    by (simp add: frame_units_def h264_good_def h264_param_fits_def h264_type_bits_def no_code_def) code_simp
  ultimately show ?thesis using h264_stream_delivered [of 40 ?fs] by auto
qed

section \<open>What the payloader does outside these conditions\<close>

text \<open>
  Parameter sets that do not fit one aggregation packet stop the stream: the pair stays held back, and every NAL unit
  other than a parameter set that follows is discarded without an error, for as long as the sets are not replaced.
\<close>

theorem h264_oversize_params_block:
  assumes "h4_sps_nalu st = Some sps" and "h4_pps_nalu st = Some pps" and "sps \<noteq> []" and "pps \<noteq> []"
    and "mtu \<le> length sps + length pps + 5"
    and "list_all (\<lambda>n. n \<noteq> [] \<and> h264_type_bits n \<noteq> 7 \<and> h264_type_bits n \<noteq> 8) ns"
  shows "frame_samples h264_payload st (mtu + 12) ts ns = Some (st, [])"
  using assms(6)
proof (induction ns)
  case (Cons n ns)
  obtain b bs where n: "n = b # bs" using Cons.prems by (cases n) auto
  obtain i where i: "h264_stap_ref_idc 0 [sps, pps] = Some i"
    using h264_ref_idc_total [of "[sps, pps]"] assms(3,4) by auto
  have "h264_payload st mtu n = Some (st, Inr [])"
    using Cons.prems assms(1,2,5) h264_type_iff [of b Pps] h264_type_iff [of b Sps]
    by (auto simp: h264_payload_def n Let_def h264_parse_eq h264_type_bits_def h264_build_stap_a_def i be16_def)
  then show ?case using Cons by (simp add: packetize_def)
qed simp

theorem h264_oversize_params_block_witness:
  "frame_samples h264_payload \<lparr>h4_sps_nalu = Some (0x67 # replicate 30 1), h4_pps_nalu = Some [0x68, 2]\<rparr> (20 + 12) 7
     [[0x65, 1, 2, 3], [0x41, 4]] =
   Some (\<lparr>h4_sps_nalu = Some (0x67 # replicate 30 1), h4_pps_nalu = Some [0x68, 2]\<rparr>, [])"
  using h264_oversize_params_block [of "\<lparr>h4_sps_nalu = Some (0x67 # replicate 30 1), h4_pps_nalu = Some [0x68, 2]\<rparr>"
    "0x67 # replicate 30 1" "[0x68, 2]" 20 "[[0x65, 1, 2, 3], [0x41, 4]]" 7]
  by (simp add: h264_type_bits_def)

text \<open>A start code with no byte after it: the reader panics.\<close>

theorem h264_empty_unit_panics: "h264_next_nal (annexb_new [0, 0, 1]) = None"
  by code_simp

end
