(* ===== verification/H265_Nal.thy ===== *)
theory H265_Nal
  imports Rtp_Fragment
begin

text \<open>
  \<open>src/streamer/src/transport/webrtc/video/h265/reader.rs\<close>: the NAL unit types of H.265 and the two-byte NAL unit header.
\<close>

section \<open>The NAL unit header\<close>

datatype (plugins only: code size) h265_nal_unit_type =
  TrailN | TrailR | TsaN | TsaR | StsaN | StsaR | RadlN | RadlR | RaslN | RaslR | RsvVclN10 | RsvVclR11 | RsvVclN12 |
  RsvVclR13 | RsvVclN14 | RsvVclR15 | BlaWLp | BlaWRadl | BlaNLp | IdrWRadl | IdrNLp | CraNut | RsvIrapVcl22 |
  RsvIrapVcl23 | RsvVcl24 | RsvVcl25 | RsvVcl26 | RsvVcl27 | RsvVcl28 | RsvVcl29 | RsvVcl30 | RsvVcl31 | VpsNut |
  SpsNut | PpsNut | AudNut | EosNut | EobNut | FdNut | PrefixSeiNut | SuffixSeiNut | RsvNvcl41 | RsvNvcl42 |
  RsvNvcl43 | RsvNvcl44 | RsvNvcl45 | RsvNvcl46 | RsvNvcl47 | AggregationUnit | FragmentationUnit | Unspec50 |
  Unspec51 | Unspec52 | Unspec53 | Unspec54 | Unspec55 | Unspec56 | Unspec57 | Unspec58 | Unspec59 | Unspec60 |
  Unspec61 | Unspec62 | Unspec63

primrec h265_as_u8 :: "h265_nal_unit_type \<Rightarrow> u8" where
  "h265_as_u8 TrailN = 0"
| "h265_as_u8 TrailR = 1"
| "h265_as_u8 TsaN = 2"
| "h265_as_u8 TsaR = 3"
| "h265_as_u8 StsaN = 4"
| "h265_as_u8 StsaR = 5"
| "h265_as_u8 RadlN = 6"
| "h265_as_u8 RadlR = 7"
| "h265_as_u8 RaslN = 8"
| "h265_as_u8 RaslR = 9"
| "h265_as_u8 RsvVclN10 = 10"
| "h265_as_u8 RsvVclR11 = 11"
| "h265_as_u8 RsvVclN12 = 12"
| "h265_as_u8 RsvVclR13 = 13"
| "h265_as_u8 RsvVclN14 = 14"
| "h265_as_u8 RsvVclR15 = 15"
| "h265_as_u8 BlaWLp = 16"
| "h265_as_u8 BlaWRadl = 17"
| "h265_as_u8 BlaNLp = 18"
| "h265_as_u8 IdrWRadl = 19"
| "h265_as_u8 IdrNLp = 20"
| "h265_as_u8 CraNut = 21"
| "h265_as_u8 RsvIrapVcl22 = 22"
| "h265_as_u8 RsvIrapVcl23 = 23"
| "h265_as_u8 RsvVcl24 = 24"
| "h265_as_u8 RsvVcl25 = 25"
| "h265_as_u8 RsvVcl26 = 26"
| "h265_as_u8 RsvVcl27 = 27"
| "h265_as_u8 RsvVcl28 = 28"
| "h265_as_u8 RsvVcl29 = 29"
| "h265_as_u8 RsvVcl30 = 30"
| "h265_as_u8 RsvVcl31 = 31"
| "h265_as_u8 VpsNut = 32"
| "h265_as_u8 SpsNut = 33"
| "h265_as_u8 PpsNut = 34"
| "h265_as_u8 AudNut = 35"
| "h265_as_u8 EosNut = 36"
| "h265_as_u8 EobNut = 37"
| "h265_as_u8 FdNut = 38"
| "h265_as_u8 PrefixSeiNut = 39"
| "h265_as_u8 SuffixSeiNut = 40"
| "h265_as_u8 RsvNvcl41 = 41"
| "h265_as_u8 RsvNvcl42 = 42"
| "h265_as_u8 RsvNvcl43 = 43"
| "h265_as_u8 RsvNvcl44 = 44"
| "h265_as_u8 RsvNvcl45 = 45"
| "h265_as_u8 RsvNvcl46 = 46"
| "h265_as_u8 RsvNvcl47 = 47"
| "h265_as_u8 AggregationUnit = 48"
| "h265_as_u8 FragmentationUnit = 49"
| "h265_as_u8 Unspec50 = 50"
| "h265_as_u8 Unspec51 = 51"
| "h265_as_u8 Unspec52 = 52"
| "h265_as_u8 Unspec53 = 53"
| "h265_as_u8 Unspec54 = 54"
| "h265_as_u8 Unspec55 = 55"
| "h265_as_u8 Unspec56 = 56"
| "h265_as_u8 Unspec57 = 57"
| "h265_as_u8 Unspec58 = 58"
| "h265_as_u8 Unspec59 = 59"
| "h265_as_u8 Unspec60 = 60"
| "h265_as_u8 Unspec61 = 61"
| "h265_as_u8 Unspec62 = 62"
| "h265_as_u8 Unspec63 = 63"

definition h265_nal_unit_types :: "h265_nal_unit_type list" where
  "h265_nal_unit_types =
    [TrailN, TrailR, TsaN, TsaR, StsaN, StsaR, RadlN, RadlR, RaslN, RaslR, RsvVclN10, RsvVclR11, RsvVclN12,
     RsvVclR13, RsvVclN14, RsvVclR15, BlaWLp, BlaWRadl, BlaNLp, IdrWRadl, IdrNLp, CraNut, RsvIrapVcl22, RsvIrapVcl23,
     RsvVcl24, RsvVcl25, RsvVcl26, RsvVcl27, RsvVcl28, RsvVcl29, RsvVcl30, RsvVcl31, VpsNut, SpsNut, PpsNut, AudNut,
     EosNut, EobNut, FdNut, PrefixSeiNut, SuffixSeiNut, RsvNvcl41, RsvNvcl42, RsvNvcl43, RsvNvcl44, RsvNvcl45,
     RsvNvcl46, RsvNvcl47, AggregationUnit, FragmentationUnit, Unspec50, Unspec51, Unspec52, Unspec53, Unspec54,
     Unspec55, Unspec56, Unspec57, Unspec58, Unspec59, Unspec60, Unspec61, Unspec62, Unspec63]"

definition h265_type_from_u8 :: "u8 \<Rightarrow> h265_nal_unit_type option" where
  "h265_type_from_u8 b = (if unat b < length h265_nal_unit_types then Some (h265_nal_unit_types ! unat b) else None)"

record h265_nal_header =
  h5_forbidden_zero_bit :: bool
  h5_nal_unit_type :: h265_nal_unit_type
  h5_nuh_layer_id :: u8
  h5_nuh_temporal_id_plus1 :: u8

definition h265_header_parse :: "u8 \<Rightarrow> u8 \<Rightarrow> h265_nal_header option" where
  "h265_header_parse h0 h1 =
     map_option (\<lambda>ty.
       \<lparr>h5_forbidden_zero_bit = (h0 AND 0x80 \<noteq> 0),
        h5_nal_unit_type = ty,
        h5_nuh_layer_id = push_bit 5 (h0 AND 1) OR drop_bit 3 (h1 AND 0xF8),
        h5_nuh_temporal_id_plus1 = h1 AND 7\<rparr>)
       (h265_type_from_u8 (drop_bit 1 (h0 AND 0x7E)))"

definition h265_header_serialize :: "h265_nal_header \<Rightarrow> bytes" where
  "h265_header_serialize h =
     (let b0 = (if h5_forbidden_zero_bit h then 0x80 else 0);
          b0 = b0 OR push_bit 1 (h265_as_u8 (h5_nal_unit_type h) AND 0x3F);
          b0 = b0 OR (drop_bit 5 (h5_nuh_layer_id h) AND 1);
          b1 = push_bit 3 (h5_nuh_layer_id h AND 0x1F);
          b1 = b1 OR (h5_nuh_temporal_id_plus1 h AND 7)
      in [b0, b1])"

section \<open>Headers\<close>

lemma h265_types_as_u8: "list_all (\<lambda>n. h265_as_u8 (h265_nal_unit_types ! n) = of_nat n) [0..<64]"
  by (simp add: h265_nal_unit_types_def upt_rec)

lemma h265_from_u8:
  assumes "unat b < 64"
  shows "h265_type_from_u8 b = Some (h265_nal_unit_types ! unat b)"
    and "h265_as_u8 (h265_nal_unit_types ! unat b) = b"
  using assms h265_types_as_u8
  by (simp_all add: h265_type_from_u8_def list_all_iff h265_nal_unit_types_def)

text \<open>The six bits of the type.\<close>

definition h265_bits :: "u8 \<Rightarrow> u8" where
  "h265_bits h0 = drop_bit 1 h0 AND 0x3F"

lemma h265_bits_lt: "unat (h265_bits h0) < 64"
proof -
  have "h265_bits h0 = take_bit 6 (drop_bit 1 h0)" by (simp add: h265_bits_def take_bit_eq_mask mask_eq_exp_minus_1)
  then show ?thesis using take_bit_nat_less_exp [of 6 "unat (drop_bit 1 h0)"] by (simp add: unsigned_take_bit_eq)
qed

lemma h265_type_as_bits: "h265_as_u8 (h265_nal_unit_types ! unat (h265_bits h0)) = h265_bits h0"
  by (simp add: h265_from_u8 h265_bits_lt)

lemma h265_types_of_as: "h265_nal_unit_types ! unat (h265_as_u8 ty) = ty"
  by (cases ty) (simp_all add: h265_nal_unit_types_def)

lemma h265_type_iff: "h265_nal_unit_types ! unat (h265_bits h0) = ty \<longleftrightarrow> h265_bits h0 = h265_as_u8 ty"
  by (metis h265_type_as_bits h265_types_of_as)

lemma h265_parse_eq:
  "h265_header_parse h0 h1 = Some
     \<lparr>h5_forbidden_zero_bit = bit h0 7, h5_nal_unit_type = h265_nal_unit_types ! unat (h265_bits h0),
      h5_nuh_layer_id = push_bit 5 (h0 AND 1) OR drop_bit 3 (h1 AND 0xF8), h5_nuh_temporal_id_plus1 = h1 AND 7\<rparr>"
proof -
  have "h0 AND 0x80 \<noteq> 0 \<longleftrightarrow> bit h0 7" and "drop_bit 1 (h0 AND 0x7E) = h265_bits h0"
    by (simp_all add: h265_bits_def byte_eq_iff bit_simps)
  then show ?thesis by (simp add: h265_header_parse_def h265_from_u8 h265_bits_lt)
qed

text \<open>A header that is parsed, with its type replaced, and written again.\<close>

lemma h265_serialize_retyped:
  "h265_header_parse h0 h1 = Some h \<Longrightarrow>
    h265_header_serialize (h\<lparr>h5_nal_unit_type := ty\<rparr>) = [(h0 AND 0x81) OR push_bit 1 (h265_as_u8 ty AND 0x3F), h1]"
  by (auto simp: h265_parse_eq h265_header_serialize_def Let_def byte_eq_iff bit_simps)

lemma h265_bits_retyped: "h265_bits ((h0 AND 0x81) OR push_bit 1 (x AND 0x3F)) = x AND 0x3F"
  by (simp add: h265_bits_def byte_eq_iff bit_simps bit_double_iff mult.commute [of x 2] numeral_2_eq_2)

end
