(* ===== verification/Rtp_H265.thy ===== *)
theory Rtp_H265
  imports Rtp_Stream H265_Nal
begin

text \<open>
  \<open>src/streamer/src/transport/webrtc/video/h265\<close>: the reader (\<open>reader.rs\<close>) and the RTP payloader
  (\<open>payloader.rs\<close>). Panics are \<open>None\<close>. The receiver of RFC 7798 is stated as a reference definition, and the two
  locales of the H.264 side are interpreted a second time.
\<close>

section \<open>The reader\<close>

record h265_nal =
  h5n_payload_range :: "nat \<times> nat"
  h5n_header :: h265_nal_header
  h5n_header_range :: "nat \<times> nat"
  h5n_start_code :: annexb_start_code
  h5n_start_code_range :: "nat \<times> nat"
  h5n_full :: bytes

text \<open>A unit with fewer than two bytes after its start code is a panic.\<close>

definition h265_next_nal :: "annexb_splitter \<Rightarrow> (annexb_splitter \<times> h265_nal option) option" where
  "h265_next_nal s =
     Option.bind (annexb_next s) (\<lambda>(s, d).
       case d of
         None \<Rightarrow> Some (s, None)
       | Some a \<Rightarrow>
           (let start = fst (ad_payload_range a); header_range = (start, start + 2)
            in if length (ad_full a) < start + 2 then None
               else Option.bind (h265_header_parse (ad_full a ! start) (ad_full a ! (start + 1))) (\<lambda>header.
                 Some (s, Some
                   \<lparr>h5n_payload_range = (snd header_range, snd (ad_payload_range a)),
                    h5n_header = header,
                    h5n_header_range = header_range,
                    h5n_start_code = ad_start_code a,
                    h5n_start_code_range = ad_start_code_range a,
                    h5n_full = ad_full a\<rparr>))))"

definition h265_reader_reset :: "bytes \<Rightarrow> annexb_splitter \<Rightarrow> annexb_splitter option" where
  "h265_reader_reset new_reader s = annexb_reset new_reader s"

text \<open>The \<open>while let\<close> loop over \<open>next_nal\<close> in \<open>send_decode_unit\<close>.\<close>

fun h265_read_samples :: nal_read where
  "h265_read_samples 0 s = None"
| "h265_read_samples (Suc fuel) s =
     Option.bind (h265_next_nal s) (\<lambda>(s, nal).
       case nal of
         None \<Rightarrow> Some (s, [])
       | Some nal \<Rightarrow>
           Option.bind (trim_bytes_to_range (h5n_full nal) (fst (h5n_header_range nal), snd (h5n_payload_range nal)))
             (\<lambda>data. map_option (\<lambda>(s, samples). (s, data # samples)) (h265_read_samples fuel s)))"

section \<open>The payloader\<close>

record h265_fu_header =
  h5fu_start :: bool
  h5fu_end :: bool
  h5fu_nal_unit_type :: h265_nal_unit_type

definition h265_fu_serialize :: "h265_fu_header \<Rightarrow> u8" where
  "h265_fu_serialize h =
     (let b = (if h5fu_start h then 0x80 else 0);
          b = (if h5fu_end h then b OR 0x40 else b)
      in b OR (h265_as_u8 (h5fu_nal_unit_type h) AND 0x3F))"

record h265_payloader =
  h5_vps_nalu :: "bytes option"
  h5_sps_nalu :: "bytes option"
  h5_pps_nalu :: "bytes option"

definition h265_payloader_default :: h265_payloader where
  "h265_payloader_default = \<lparr>h5_vps_nalu = None, h5_sps_nalu = None, h5_pps_nalu = None\<rparr>"

definition h265_build_single_packet :: "bytes \<Rightarrow> bytes" where
  "h265_build_single_packet nalu = nalu"

fun h265_fu_loop :: "bytes \<Rightarrow> h265_nal_unit_type \<Rightarrow> bool \<Rightarrow> bytes list \<Rightarrow> bytes list" where
  "h265_fu_loop hdr ty is_first [] = []"
| "h265_fu_loop hdr ty is_first (frag # frags) =
     (hdr @ [h265_fu_serialize
        \<lparr>h5fu_start = is_first, h5fu_end = (frags = []), h5fu_nal_unit_type = ty\<rparr>] @ frag)
     # h265_fu_loop hdr ty False frags"

text \<open>\<open>mtu - 3\<close> underflows below three, \<open>chunks(0)\<close> panics at three, \<open>nalu[2..]\<close> panics on a shorter unit.\<close>

definition h265_build_fragmented :: "h265_nal_header \<Rightarrow> bytes \<Rightarrow> nat \<Rightarrow> bytes list option" where
  "h265_build_fragmented nal_header nalu mtu =
     (if mtu \<le> 3 \<or> length nalu < 2 then None
      else Some (h265_fu_loop (h265_header_serialize (nal_header\<lparr>h5_nal_unit_type := FragmentationUnit\<rparr>))
             (h5_nal_unit_type nal_header) True (chunks (mtu - 2 - 1) (drop 2 nalu))))"

text \<open>The header of an aggregation packet: the flag of any unit, the least layer and temporal ids.\<close>

fun h265_aggr_header :: "h265_nal_header \<Rightarrow> bytes list \<Rightarrow> h265_nal_header option" where
  "h265_aggr_header a [] = Some a"
| "h265_aggr_header a (nalu # nalus) =
     (case nalu of
        h0 # h1 # _ \<Rightarrow>
          Option.bind (h265_header_parse h0 h1) (\<lambda>h.
            let a = (if h5_forbidden_zero_bit h then a\<lparr>h5_forbidden_zero_bit := True\<rparr> else a);
                a = (if h5_nuh_layer_id h < h5_nuh_layer_id a then a\<lparr>h5_nuh_layer_id := h5_nuh_layer_id h\<rparr> else a);
                a = (if h5_nuh_temporal_id_plus1 h < h5_nuh_temporal_id_plus1 a
                     then a\<lparr>h5_nuh_temporal_id_plus1 := h5_nuh_temporal_id_plus1 h\<rparr> else a)
            in h265_aggr_header a nalus)
      | _ \<Rightarrow> None)"

definition h265_build_aggregation :: "bytes list \<Rightarrow> bytes option" where
  "h265_build_aggregation nalus =
     map_option (\<lambda>h. h265_header_serialize h @ concat (map (\<lambda>nalu. be16 (of_nat (length nalu)) @ nalu) nalus))
       (h265_aggr_header
          \<lparr>h5_forbidden_zero_bit = False, h5_nal_unit_type = AggregationUnit, h5_nuh_layer_id = 255,
           h5_nuh_temporal_id_plus1 = 255\<rparr> nalus)"

text \<open>The parameter sets are remembered.\<close>

definition h265_remember :: "h265_nal_unit_type \<Rightarrow> bytes \<Rightarrow> h265_payloader \<Rightarrow> h265_payloader" where
  "h265_remember ty b st =
     (if ty = VpsNut then st\<lparr>h5_vps_nalu := Some b\<rparr>
      else if ty = SpsNut then st\<lparr>h5_sps_nalu := Some b\<rparr>
      else if ty = PpsNut then st\<lparr>h5_pps_nalu := Some b\<rparr>
      else st)"

definition h265_payload :: "h265_payloader \<Rightarrow> nat \<Rightarrow> bytes \<Rightarrow> (h265_payloader \<times> (rtp_error + bytes list)) option" where
  "h265_payload st mtu b =
     (if length b < 2 then Some (st, Inl ErrBufferTooSmall)
      else Option.bind (h265_header_parse (b ! 0) (b ! 1)) (\<lambda>header.
        let ty = h5_nal_unit_type header;
            st = h265_remember ty b st;
            taken = st\<lparr>h5_vps_nalu := None, h5_sps_nalu := None, h5_pps_nalu := None\<rparr>
        in case (h5_vps_nalu st, h5_sps_nalu st, h5_pps_nalu st) of
             (Some vps, Some sps, Some pps) \<Rightarrow>
               map_option (\<lambda>packet.
                 (taken, Inr (if length packet \<le> mtu then [packet]
                              else [h265_build_single_packet vps, h265_build_single_packet sps,
                                    h265_build_single_packet pps])))
                 (h265_build_aggregation [vps, sps, pps])
           | _ \<Rightarrow>
               if ty = VpsNut \<or> ty = SpsNut \<or> ty = PpsNut then Some (st, Inr [])
               else if length b \<le> mtu then Some (st, Inr [h265_build_single_packet b])
               else map_option (\<lambda>ps. (st, Inr ps)) (h265_build_fragmented header b mtu)))"

section \<open>The receiver of RFC 7798\<close>

definition h265_type_bits :: "bytes \<Rightarrow> u8" where
  "h265_type_bits nalu = h265_bits (hd nalu)"

text \<open>
  Single NAL unit packets, aggregation packets (48) and fragmentation units (49). \<open>acc\<close> is the unit whose fragments are
  being collected; anything out of order is refused.
\<close>

fun h265_depack :: "bytes option \<Rightarrow> bytes list \<Rightarrow> bytes list option" where
  "h265_depack acc [] = (if acc = None then Some [] else None)"
| "h265_depack acc ((h0 # h1 # rest) # ps) =
     (if h265_bits h0 = 49 then
        (case rest of
           [] \<Rightarrow> None
         | fu # frag \<Rightarrow>
             if bit fu 7 = (acc = None) then
               (let nal = (case acc of None \<Rightarrow> [(h0 AND 0x81) OR push_bit 1 (fu AND 0x3F), h1] | Some x \<Rightarrow> x) @ frag
                in if bit fu 6 then map_option ((#) nal) (h265_depack None ps) else h265_depack (Some nal) ps)
             else None)
      else if acc \<noteq> None then None
      else if h265_bits h0 = 48 then
        Option.bind (aggregated_units rest) (\<lambda>us. map_option ((@) us) (h265_depack None ps))
      else map_option ((#) (h0 # h1 # rest)) (h265_depack None ps))"
| "h265_depack acc (_ # ps) = None"

section \<open>Fragmentation units\<close>

definition h265_fu_byte :: "u8 \<Rightarrow> bool \<Rightarrow> bool \<Rightarrow> u8" where
  "h265_fu_byte h0 s e = h265_fu_serialize
     \<lparr>h5fu_start = s, h5fu_end = e, h5fu_nal_unit_type = h265_nal_unit_types ! unat (h265_bits h0)\<rparr>"

lemma h265_fu_byte_facts:
  "bit (h265_fu_byte h0 s e) 7 = s" "bit (h265_fu_byte h0 s e) 6 = e" "h265_fu_byte h0 s e AND 0x3F = h265_bits h0"
proof -
  have "\<not> bit (h265_bits h0) 6" "\<not> bit (h265_bits h0) 7" by (simp_all add: h265_bits_def bit_simps)
  then show "bit (h265_fu_byte h0 s e) 7 = s" "bit (h265_fu_byte h0 s e) 6 = e"
      "h265_fu_byte h0 s e AND 0x3F = h265_bits h0"
    by (simp_all add: h265_fu_byte_def h265_fu_serialize_def Let_def h265_type_as_bits byte_eq_iff bit_simps)
qed

definition h265_fu_indicator :: "u8 \<Rightarrow> u8" where
  "h265_fu_indicator h0 = (h0 AND 0x81) OR 98"

lemma h265_fu_indicator_facts:
  "h265_bits (h265_fu_indicator h0) = 49" "(h265_fu_indicator h0 AND 0x81) OR h265_bits h0 * 2 = h0"
  by (simp_all add: h265_fu_indicator_def h265_bits_def byte_eq_iff bit_simps bit_double_iff mult.commute [of _ 2]
    numeral_eq_Suc)

lemma h265_fu_indicator_header:
  "h265_header_parse h0 h1 = Some nh \<Longrightarrow>
    h265_header_serialize (nh\<lparr>h5_nal_unit_type := FragmentationUnit\<rparr>) = [h265_fu_indicator h0, h1]"
  by (simp add: h265_serialize_retyped h265_fu_indicator_def)

interpretation h265_fu: reassembler "[h265_fu_indicator h0, h1]" "h265_fu_byte h0"
  "h265_fu_loop [h265_fu_indicator h0, h1] (h265_nal_unit_types ! unat (h265_bits h0))" "[h0, h1]" h265_depack for h0 h1
  by unfold_locales
    (simp_all add: h265_fu_indicator_facts h265_fu_byte_facts(1,2) h265_fu_byte_facts(3) h265_fu_byte_def [symmetric])

section \<open>The contract of the payloader\<close>

text \<open>
  The abstract payloader: the parameter sets are held back and go out together when the third of them arrives; every
  other NAL unit goes out at once.
\<close>

definition h265_accept :: "h265_payloader \<Rightarrow> bytes \<Rightarrow> h265_payloader \<times> bytes list" where
  "h265_accept st n =
     (if h265_type_bits n \<in> {32, 33, 34} then
        (let st = (if h265_type_bits n = 32 then st\<lparr>h5_vps_nalu := Some n\<rparr>
                   else if h265_type_bits n = 33 then st\<lparr>h5_sps_nalu := Some n\<rparr>
                   else st\<lparr>h5_pps_nalu := Some n\<rparr>)
         in case (h5_vps_nalu st, h5_sps_nalu st, h5_pps_nalu st) of
              (Some vps, Some sps, Some pps) \<Rightarrow> (h265_payloader_default, [vps, sps, pps])
            | _ \<Rightarrow> (st, []))
      else (st, [n]))"

definition h265_param_fits :: "nat \<Rightarrow> bytes \<Rightarrow> bool" where
  "h265_param_fits mtu n \<longleftrightarrow> 2 \<le> length n \<and> length n \<le> mtu \<and> mtu < 65536 \<and> h265_type_bits n < 48"

definition h265_good :: "nat \<Rightarrow> bytes \<Rightarrow> bool" where
  "h265_good mtu n \<longleftrightarrow> 2 \<le> length n \<and> h265_type_bits n < 48 \<and> 3 < mtu \<and>
     (h265_type_bits n \<in> {32, 33, 34} \<longrightarrow> h265_param_fits mtu n)"

definition h265_valid :: "nat \<Rightarrow> h265_payloader \<Rightarrow> bool" where
  "h265_valid mtu st \<longleftrightarrow>
     pred_option (h265_param_fits mtu) (h5_vps_nalu st) \<and> pred_option (h265_param_fits mtu) (h5_sps_nalu st) \<and>
     pred_option (h265_param_fits mtu) (h5_pps_nalu st) \<and>
     (h5_vps_nalu st = None \<or> h5_sps_nalu st = None \<or> h5_pps_nalu st = None)"

lemma h265_accept_valid: "h265_valid mtu st \<Longrightarrow> h265_good mtu n \<Longrightarrow> h265_valid mtu (fst (h265_accept st n))"
  by (auto simp: h265_valid_def h265_good_def h265_accept_def h265_payloader_default_def Let_def
    split: option.splits if_splits)

lemma h265_single:
  assumes "2 \<le> length n" and "h265_type_bits n < 48"
  shows "h265_depack None (n # rest) = map_option ((#) n) (h265_depack None rest)"
proof -
  obtain h0 h1 bs where "n = h0 # h1 # bs" using assms(1) by (cases n; cases "tl n") auto
  then show ?thesis using assms(2) by (auto simp: h265_type_bits_def)
qed

lemma h265_fragmented:
  assumes "3 < mtu" "mtu < length n" "h265_header_parse (n ! 0) (n ! 1) = Some nh"
  shows "\<exists>ps. h265_build_fragmented nh n mtu = Some ps \<and> list_all (\<lambda>p. length p \<le> mtu) ps \<and>
    (\<forall>rest. h265_depack None (ps @ rest) = map_option ((#) n) (h265_depack None rest))"
proof -
  obtain h0 h1 bs where n: "n = h0 # h1 # bs" using assms by (cases n; cases "tl n") auto
  let ?fs = "chunks (mtu - 2 - 1) bs"
  let ?ps = "h265_fu_loop [h265_fu_indicator h0, h1] (h265_nal_unit_types ! unat (h265_bits h0)) True ?fs"
  have "h5_nal_unit_type nh = h265_nal_unit_types ! unat (h265_bits h0)"
    using assms(3) by (auto simp: h265_parse_eq n)
  then have "h265_build_fragmented nh n mtu = Some ?ps"
    using assms h265_fu_indicator_header [of h0 h1 nh] by (simp add: h265_build_fragmented_def n)
  moreover have "list_all (\<lambda>p. length p \<le> mtu) ?ps"
    using h265_fu.emit_bound [OF chunks_bound [of "mtu - 2 - 1" bs], of h0 h1 True] assms(1)
    by (auto elim!: list.pred_mono_strong)
  moreover have "2 \<le> length ?fs" using assms by (intro chunks_two) (auto simp: n)
  then have "h265_depack None (?ps @ rest) = map_option ((#) n) (h265_depack None rest)" for rest
    using h265_fu.depack_emit [of ?fs h0 h1 rest] concat_chunks [of "mtu - 2 - 1" bs] assms(1) by (simp add: n)
  ultimately show ?thesis by blast
qed

text \<open>The aggregation packet of units of at least two bytes.\<close>

lemma h265_aggr_header_total: "list_all (\<lambda>n. 2 \<le> length n) ns \<Longrightarrow> \<exists>h. h265_aggr_header a ns = Some h"
proof (induction ns arbitrary: a)
  case (Cons n ns)
  obtain h0 h1 bs where "n = h0 # h1 # bs" using Cons.prems by (cases n; cases "tl n") auto
  then show ?case using Cons by (simp add: h265_parse_eq Let_def)
qed simp

lemma h265_aggr_header_type:
  "h265_aggr_header a ns = Some h \<Longrightarrow> h5_nal_unit_type h = h5_nal_unit_type a"
proof (induction ns arbitrary: a)
  case (Cons n ns)
  obtain h0 h1 bs where n: "n = h0 # h1 # bs" using Cons.prems by (auto split: list.splits)
  show ?case using Cons.IH Cons.prems by (fastforce simp: n h265_parse_eq Let_def split: if_splits)
qed simp

lemma h265_serialize_type:
  "h5_nal_unit_type h = AggregationUnit \<Longrightarrow>
    length (h265_header_serialize h) = 2 \<and> h265_bits (hd (h265_header_serialize h)) = 48"
  by (simp add: h265_header_serialize_def Let_def h265_bits_def byte_eq_iff bit_simps)

lemma h265_aggregation:
  assumes "list_all (h265_param_fits mtu) ns"
  shows "\<exists>p. h265_build_aggregation ns = Some p \<and>
    (\<forall>rest. h265_depack None (p # rest) = map_option ((@) ns) (h265_depack None rest))"
proof -
  have sizes: "list_all (\<lambda>n. 2 \<le> length n) ns"
    using assms by (auto simp: h265_param_fits_def elim!: list.pred_mono_strong)
  obtain h where h: "h265_aggr_header \<lparr>h5_forbidden_zero_bit = False, h5_nal_unit_type = AggregationUnit,
      h5_nuh_layer_id = 255, h5_nuh_temporal_id_plus1 = 255\<rparr> ns = Some h" "h5_nal_unit_type h = AggregationUnit"
    using h265_aggr_header_total [OF sizes] h265_aggr_header_type by fastforce
  obtain b0 b1 where b: "h265_header_serialize h = [b0, b1]" "h265_bits b0 = 48"
    using h265_serialize_type [OF h(2)] by (cases "h265_header_serialize h"; cases "tl (h265_header_serialize h)") auto
  have "list_all (\<lambda>u. length u < 65536) ns"
    using assms by (auto simp: h265_param_fits_def elim!: list.pred_mono_strong)
  then show ?thesis using h(1) b aggregated_units_all [of ns] by (simp add: h265_build_aggregation_def)
qed

lemma h265_remember_bits:
  assumes "h265_header_parse (n ! 0) b1 = Some nh" and "2 \<le> length n"
  shows "h265_remember (h5_nal_unit_type nh) n st =
      (if h265_type_bits n = 32 then st\<lparr>h5_vps_nalu := Some n\<rparr>
       else if h265_type_bits n = 33 then st\<lparr>h5_sps_nalu := Some n\<rparr>
       else if h265_type_bits n = 34 then st\<lparr>h5_pps_nalu := Some n\<rparr> else st)"
    and "h5_nal_unit_type nh = VpsNut \<or> h5_nal_unit_type nh = SpsNut \<or> h5_nal_unit_type nh = PpsNut \<longleftrightarrow>
      h265_type_bits n \<in> {32, 33, 34}"
proof -
  have "h5_nal_unit_type nh = h265_nal_unit_types ! unat (h265_type_bits n)"
    using assms by (cases n) (auto simp: h265_parse_eq h265_type_bits_def)
  moreover note types = h265_type_iff [of "hd n" VpsNut] h265_type_iff [of "hd n" SpsNut] h265_type_iff [of "hd n" PpsNut]
  ultimately show "h265_remember (h5_nal_unit_type nh) n st =
      (if h265_type_bits n = 32 then st\<lparr>h5_vps_nalu := Some n\<rparr>
       else if h265_type_bits n = 33 then st\<lparr>h5_sps_nalu := Some n\<rparr>
       else if h265_type_bits n = 34 then st\<lparr>h5_pps_nalu := Some n\<rparr> else st)"
    and "h5_nal_unit_type nh = VpsNut \<or> h5_nal_unit_type nh = SpsNut \<or> h5_nal_unit_type nh = PpsNut \<longleftrightarrow>
      h265_type_bits n \<in> {32, 33, 34}"
    by (simp_all add: h265_remember_def h265_type_bits_def)
qed

lemma h265_flush:
  assumes "list_all (h265_param_fits mtu) [vps, sps, pps]"
  shows "\<exists>p ps. h265_build_aggregation [vps, sps, pps] = Some p \<and>
    ps = (if length p \<le> mtu then [p] else map h265_build_single_packet [vps, sps, pps]) \<and>
    list_all (\<lambda>p. length p \<le> mtu) ps \<and>
    (\<forall>rest. h265_depack None (ps @ rest) = map_option ((@) [vps, sps, pps]) (h265_depack None rest))"
proof -
  obtain p where p: "h265_build_aggregation [vps, sps, pps] = Some p"
      "\<forall>rest. h265_depack None (p # rest) = map_option ((@) [vps, sps, pps]) (h265_depack None rest)"
    using h265_aggregation [OF assms] by blast
  have "h265_depack None (n # rest) = map_option ((#) n) (h265_depack None rest)" if "n \<in> {vps, sps, pps}" for n rest
    using that assms h265_single [of n rest] by (auto simp: h265_param_fits_def)
  then have "h265_depack None ([vps, sps, pps] @ rest) = map_option ((@) [vps, sps, pps]) (h265_depack None rest)" for rest
    by (cases "h265_depack None rest") simp_all
  then show ?thesis using p assms by (auto simp: h265_build_single_packet_def h265_param_fits_def)
qed

lemma h265_payload_accepts:
  assumes valid: "h265_valid mtu st" and good: "h265_good mtu n"
  shows "\<exists>ps. h265_payload st mtu n = Some (fst (h265_accept st n), Inr ps) \<and> list_all (\<lambda>p. length p \<le> mtu) ps \<and>
    (\<forall>rest. h265_depack None (ps @ rest) = map_option ((@) (snd (h265_accept st n))) (h265_depack None rest))"
proof -
  have len: "2 \<le> length n" using good by (simp add: h265_good_def)
  obtain nh where nh: "h265_header_parse (n ! 0) (n ! 1) = Some nh" by (simp add: h265_parse_eq)
  let ?st = "h265_remember (h5_nal_unit_type nh) n st"
  note bits = h265_remember_bits [OF nh len]
  have len': "\<not> length n < 2" using len by simp
  note unfold = h265_payload_def Let_def nh [unfolded One_nat_def] len' bits(2)
  show ?thesis
  proof (cases "h265_type_bits n \<in> {32, 33, 34}")
    case param: True
    have acc: "h265_accept st n = (case (h5_vps_nalu ?st, h5_sps_nalu ?st, h5_pps_nalu ?st) of
        (Some vps, Some sps, Some pps) \<Rightarrow> (h265_payloader_default, [vps, sps, pps]) | _ \<Rightarrow> (?st, []))"
      using param by (auto simp: h265_accept_def bits(1) Let_def split: option.split)
    have fits: "pred_option (h265_param_fits mtu) (h5_vps_nalu ?st)" "pred_option (h265_param_fits mtu) (h5_sps_nalu ?st)"
        "pred_option (h265_param_fits mtu) (h5_pps_nalu ?st)"
      using valid good param by (auto simp: h265_valid_def h265_good_def bits(1))
    show ?thesis
    proof (cases "h5_vps_nalu ?st = None \<or> h5_sps_nalu ?st = None \<or> h5_pps_nalu ?st = None")
      case True
      then have "h265_payload st mtu n = Some (?st, Inr [])"
        using len param by (auto simp: unfold split: option.split)
      moreover have "h265_accept st n = (?st, [])" using True acc by (auto split: option.split)
      ultimately show ?thesis by (simp add: map_option_idI)
    next
      case False
      then obtain vps sps pps where held: "h5_vps_nalu ?st = Some vps" "h5_sps_nalu ?st = Some sps" "h5_pps_nalu ?st = Some pps"
        by auto
      obtain p ps where p: "h265_build_aggregation [vps, sps, pps] = Some p"
          "ps = (if length p \<le> mtu then [p] else map h265_build_single_packet [vps, sps, pps])"
          "list_all (\<lambda>p. length p \<le> mtu) ps"
          "\<forall>rest. h265_depack None (ps @ rest) = map_option ((@) [vps, sps, pps]) (h265_depack None rest)"
        using h265_flush [of mtu vps sps pps] fits held by auto
      have "h265_payload st mtu n = Some (h265_payloader_default, Inr ps)"
        using len held p(1,2) by (auto simp: unfold h265_payloader_default_def)
      then show ?thesis using acc held p(3,4) by simp
    qed
  next
    case other: False
    then have st: "?st = st" and acc: "h265_accept st n = (st, [n])"
      by (auto simp: bits(1) h265_accept_def)
    have pay: "h265_payload st mtu n =
        (if length n \<le> mtu then Some (st, Inr [h265_build_single_packet n])
         else map_option (\<lambda>ps. (st, Inr ps)) (h265_build_fragmented nh n mtu))"
      using len other valid by (auto simp: unfold st h265_valid_def split: option.split)
    have eq: "((@) [n]) = ((#) n)" by auto
    show ?thesis
    proof (cases "length n \<le> mtu")
      case True
      then show ?thesis using pay acc eq h265_single [of n] good by (simp add: h265_good_def h265_build_single_packet_def)
    next
      case False
      then show ?thesis using pay acc eq h265_fragmented [OF _ _ nh, of mtu] good by (auto simp: h265_good_def)
    qed
  qed
qed

section \<open>Sending frames\<close>

lemma h265_next_unit:
  assumes "annexb_next s = Some (s', Some (annexb_unit (c, p)))" and "2 \<le> length p"
  shows "\<exists>nal. h265_next_nal s = Some (s', Some nal) \<and>
    trim_bytes_to_range (h5n_full nal) (fst (h5n_header_range nal), snd (h5n_payload_range nal)) = Some p"
proof -
  have "trim_bytes_to_range (sc_code c @ p) (sc_len c, length (sc_code c @ p)) = Some p"
    by (simp add: trim_subslice sc_len_def subslice_def)
  moreover have "length (sc_code c @ p) \<ge> sc_len c + 2" using assms(2) by (simp add: sc_len_def)
  ultimately show ?thesis
    using assms(1) by (simp add: h265_next_nal_def annexb_unit_def unit_data_def Let_def h265_parse_eq)
qed

interpretation h265: payloader h265_payload h265_depack h265_valid h265_good h265_accept
  by unfold_locales (simp_all add: h265_payload_accepts h265_accept_valid)

interpretation h265_sender: frame_sender h265_read_samples "\<lambda>_. True" 2 h265_payload h265_depack h265_valid h265_good h265_accept
proof unfold_locales
  show "h265_read_samples (Suc n) s = Some (s', [])" if "annexb_next s = Some (s', None)" for s s' n
    using that by (simp add: h265_next_nal_def)
  show "h265_read_samples (Suc n) s = map_option (\<lambda>(s, xs). (s, if True then p # xs else xs)) (h265_read_samples n s')"
    if "annexb_next s = Some (s', Some (annexb_unit (c, p)))" and "2 \<le> length p" for s s' c p n
    using h265_next_unit [OF that] by auto
qed (simp_all add: h265_good_def)

text \<open>
  C10.
  A stream of H.265 frames over RTP. Every frame is a well-formed Annex-B stream (\<open>proper\<close>: no start code inside a unit), and its
  units are \<open>h265_good\<close>: at least two bytes long, of a type below 48, the payload MTU above 3, and each VPS, SPS or PPS no longer than a
  payload MTU below 65536. Then the packets of a frame fit the path MTU, only the last one may carry the marker, and a receiver
  that follows RFC 7798 gets, frame by frame, the NAL units of the stream in order, except that the three parameter sets are
  held back and come together when the third has arrived.
\<close>

theorem h265_stream_delivered:
  assumes "12 \<le> mtu"
    and "list_all (\<lambda>f. proper (snd f) \<and> snd f \<noteq> [] \<and> list_all (h265_good (mtu - 12)) (frame_units f)) frames"
  shows "\<exists>rd st pss.
    send_frames h265_read_samples h265_payload mtu (annexb_new []) h265_payloader_default (map frame_bytes frames) =
      Some (rd, st, pss) \<and>
    list_all2 (frame_packets mtu) frames pss \<and>
    map (\<lambda>ps. h265_depack None (map rp_payload ps)) pss =
      map Some (accept_frames h265_accept h265_payloader_default (map frame_units frames))"
  using h265_sender.send_frames_delivered [of mtu h265_payloader_default "[]" frames] assms
  by (simp add: annexb_new_idle h265_valid_def h265_payloader_default_def)

theorem h265_stream_delivered_witness:
  "\<exists>rd st pss.
    send_frames h265_read_samples h265_payload 40 (annexb_new []) h265_payloader_default
      (map frame_bytes [(1, [(B4, [0x40, 1, 9]), (B4, [0x42, 1]), (B4, [0x44, 1]), (B3, 0x26 # 1 # replicate 60 7)]),
        (2, [(B4, [2, 1, 5])])]) = Some (rd, st, pss) \<and>
    map (\<lambda>ps. h265_depack None (map rp_payload ps)) pss =
      map Some [[[0x40, 1, 9], [0x42, 1], [0x44, 1], 0x26 # 1 # replicate 60 7], [[2, 1, 5]]]"
proof -
  let ?fs = "[(1, [(B4, [0x40, 1, 9]), (B4, [0x42, 1]), (B4, [0x44, 1]), (B3, 0x26 # 1 # replicate 60 7)]),
      (2, [(B4, [2, 1, 5])])] :: (u32 \<times> unit_spec list) list"
  have "accept_frames h265_accept h265_payloader_default (map frame_units ?fs) =
      [[[0x40, 1, 9], [0x42, 1], [0x44, 1], 0x26 # 1 # replicate 60 7], [[2, 1, 5]]]"
    by (simp add: frame_units_def h265_accept_def h265_payloader_default_def h265_type_bits_def h265_bits_def Let_def)
  moreover have "list_all (\<lambda>f. proper (snd f) \<and> snd f \<noteq> [] \<and> list_all (h265_good (40 - 12)) (frame_units f)) ?fs"
    by (simp add: frame_units_def h265_good_def h265_param_fits_def h265_type_bits_def h265_bits_def no_code_def) code_simp
  ultimately show ?thesis using h265_stream_delivered [of 40 ?fs] by auto
qed

end
