(* ===== verification/Utf8.thy ===== *)
theory Utf8
  imports Prelude
begin

text \<open>
  Rust strings: a \<open>String\<close> is the list of its Unicode scalar values (\<open>char\<close>s, as \<open>nat\<close>), \<open>as_bytes\<close> its UTF-8
  encoding. What the sources use of the standard library is here: \<open>as_bytes\<close>, \<open>str::from_utf8\<close>, and the valid part of
  the first chunk of \<open>utf8_chunks\<close>.
\<close>

type_synonym rust_string = "nat list"

definition scalar_value :: "nat \<Rightarrow> bool" where
  "scalar_value c \<longleftrightarrow> c < 0x110000 \<and> \<not> (0xD800 \<le> c \<and> c < 0xE000)"

text \<open>\<open>as u8\<close>.\<close>

definition byte_of :: "nat \<Rightarrow> u8" where
  "byte_of k = of_nat k"

definition utf8_enc :: "nat \<Rightarrow> bytes" where
  "utf8_enc c =
     (if c < 0x80 then [byte_of c]
      else if c < 0x800 then [byte_of (0xC0 + c div 64), byte_of (0x80 + c mod 64)]
      else if c < 0x10000 then [byte_of (0xE0 + c div 4096), byte_of (0x80 + c div 64 mod 64), byte_of (0x80 + c mod 64)]
      else [byte_of (0xF0 + c div 262144), byte_of (0x80 + c div 4096 mod 64), byte_of (0x80 + c div 64 mod 64),
            byte_of (0x80 + c mod 64)])"

definition as_bytes :: "rust_string \<Rightarrow> bytes" where
  "as_bytes s = concat (map utf8_enc s)"

definition cont_byte :: "u8 \<Rightarrow> bool" where
  "cont_byte b \<longleftrightarrow> 0x80 \<le> unat b \<and> unat b < 0xC0"

text \<open>
  The first character of a byte string, if it starts with a well-formed sequence (Unicode, table 3-7): no overlong form,
  no surrogate, nothing above the last code point.
\<close>

definition utf8_next :: "bytes \<Rightarrow> (nat \<times> bytes) option" where
  "utf8_next bs =
     (case bs of
        [] \<Rightarrow> None
      | b0 # r0 \<Rightarrow>
          if unat b0 < 0x80 then Some (unat b0, r0)
          else case r0 of
            [] \<Rightarrow> None
          | b1 # r1 \<Rightarrow>
              if \<not> cont_byte b1 then None
              else if 0xC2 \<le> unat b0 \<and> unat b0 < 0xE0 then Some ((unat b0 - 0xC0) * 64 + (unat b1 - 0x80), r1)
              else case r1 of
                [] \<Rightarrow> None
              | b2 # r2 \<Rightarrow>
                  if \<not> cont_byte b2 then None
                  else if 0xE0 \<le> unat b0 \<and> unat b0 < 0xF0 then
                    (let c = (unat b0 - 0xE0) * 4096 + (unat b1 - 0x80) * 64 + (unat b2 - 0x80)
                     in if 0x800 \<le> c \<and> scalar_value c then Some (c, r2) else None)
                  else case r2 of
                    [] \<Rightarrow> None
                  | b3 # r3 \<Rightarrow>
                      if cont_byte b3 \<and> 0xF0 \<le> unat b0 \<and> unat b0 < 0xF5 then
                        (let c = (unat b0 - 0xF0) * 262144 + (unat b1 - 0x80) * 4096 + (unat b2 - 0x80) * 64 + (unat b3 - 0x80)
                         in if 0x10000 \<le> c \<and> scalar_value c then Some (c, r3) else None)
                      else None)"

lemma utf8_next_shorter: "utf8_next bs = Some (c, rest) \<Longrightarrow> length rest < length bs"
  by (auto simp: utf8_next_def Let_def split: list.splits if_splits)

text \<open>The longest valid prefix, and what follows it.\<close>

function utf8_prefix :: "bytes \<Rightarrow> rust_string \<times> bytes" where
  "utf8_prefix bs =
     (case utf8_next bs of
        None \<Rightarrow> ([], bs)
      | Some (c, rest) \<Rightarrow> (let (cs, tail) = utf8_prefix rest in (c # cs, tail)))"
  by pat_completeness auto
termination
  by (relation "measure length") (auto dest: utf8_next_shorter)

declare utf8_prefix.simps [simp del]

definition from_utf8 :: "bytes \<Rightarrow> rust_string option" where
  "from_utf8 bs = (case utf8_prefix bs of (cs, tail) \<Rightarrow> if tail = [] then Some cs else None)"

section \<open>Encoding and decoding\<close>

lemma unat_byte: "k < 256 \<Longrightarrow> unat (byte_of k) = k"
  by (simp add: byte_of_def unat_of_nat)

lemma sixty_four:
  "c div 64 * 64 + c mod 64 = c" "c div 4096 * 64 + c div 64 mod 64 = c div 64"
  "c div 262144 * 64 + c div 4096 mod 64 = c div 4096" for c :: nat
  using div_mult_mod_eq [of "c div 64" 64] div_mult_mod_eq [of "c div 4096" 64] by (simp_all add: div_mult2_eq [symmetric])

lemma utf8_next_enc:
  assumes "scalar_value c"
  shows "utf8_next (utf8_enc c @ rest) = Some (c, rest)"
proof -
  have c: "c < 0x110000" using assms by (simp add: scalar_value_def)
  consider "c < 0x80" | "0x80 \<le> c" "c < 0x800" | "0x800 \<le> c" "c < 0x10000" | "0x10000 \<le> c" by linarith
  then show ?thesis
  proof cases
    case 1
    then show ?thesis by (simp add: utf8_next_def utf8_enc_def unat_byte)
  next
    case 2
    then have "c div 64 < 32" "2 \<le> c div 64" by auto
    then show ?thesis using 2 by (simp add: utf8_next_def utf8_enc_def unat_byte cont_byte_def)
  next
    case 3
    then have hi: "c div 4096 < 16" by auto
    have sum: "c div 4096 * 4096 + c div 64 mod 64 * 64 + c mod 64 = c"
      using sixty_four [of c] by linarith
    have lt: "c div 64 mod 64 < 64" "c mod 64 < 64" by simp_all
    show ?thesis using 3 hi lt sum assms by (simp add: utf8_next_def utf8_enc_def unat_byte cont_byte_def Let_def)
  next
    case 4
    then have hi: "c div 262144 < 5" using c by auto
    have sum: "c div 262144 * 262144 + c div 4096 mod 64 * 4096 + c div 64 mod 64 * 64 + c mod 64 = c"
      using sixty_four [of c] by linarith
    have lt: "c div 4096 mod 64 < 64" "c div 64 mod 64 < 64" "c mod 64 < 64" by simp_all
    show ?thesis using 4 hi lt sum assms by (simp add: utf8_next_def utf8_enc_def unat_byte cont_byte_def Let_def)
  qed
qed

lemma utf8_prefix_as_bytes:
  "list_all scalar_value cs \<Longrightarrow> utf8_prefix (as_bytes cs @ rest) = (cs @ fst (utf8_prefix rest), snd (utf8_prefix rest))"
proof (induction cs)
  case Nil
  then show ?case by (simp add: as_bytes_def)
next
  case (Cons c cs)
  then show ?case
    by (subst utf8_prefix.simps) (simp add: as_bytes_def utf8_next_enc split_beta)
qed

lemma utf8_prefix_Nil [simp]: "utf8_prefix [] = ([], [])"
  by (simp add: utf8_prefix.simps utf8_next_def)

lemma from_utf8_as_bytes: "list_all scalar_value cs \<Longrightarrow> from_utf8 (as_bytes cs) = Some cs"
  using utf8_prefix_as_bytes [of cs "[]"] by (simp add: from_utf8_def)

lemma length_utf8_enc: "1 \<le> length (utf8_enc c)" "length (utf8_enc c) = 1 \<longleftrightarrow> c < 0x80"
  by (auto simp: utf8_enc_def)

lemma length_as_bytes: "length cs \<le> length (as_bytes cs)"
    "length (as_bytes cs) = length cs \<longleftrightarrow> list_all (\<lambda>c. c < 0x80) cs"
proof -
  have le: "length cs \<le> length (as_bytes cs)" for cs
    by (induction cs) (auto simp: as_bytes_def utf8_enc_def)
  then show "length cs \<le> length (as_bytes cs)" .
  show "length (as_bytes cs) = length cs \<longleftrightarrow> list_all (\<lambda>c. c < 0x80) cs"
  proof (induction cs)
    case (Cons c cs)
    then show ?case using le [of cs] length_utf8_enc [of c] by (auto simp: as_bytes_def)
  qed (simp add: as_bytes_def)
qed

end
