(* ===== verification/Desktop_Control.thy ===== *)
theory Desktop_Control
  imports Serial Utf8
begin

text \<open>
  \<open>src/common/src/desktop_control.rs\<close>: the control envelope, the domain, status and reason codes, the control
  generation and the ownership lease, the output selection, and the payload codecs of the five domains. The locale
  \<open>codec\<close> states what a payload codec promises; every codec of the file interprets it, and that a payload survives the
  envelope is proved once.
\<close>

section \<open>Sixty-four bits\<close>

definition le64 :: "u64 \<Rightarrow> bytes" where
  "le64 w =
     [ucast w, ucast (drop_bit 8 w), ucast (drop_bit 16 w), ucast (drop_bit 24 w),
      ucast (drop_bit 32 w), ucast (drop_bit 40 w), ucast (drop_bit 48 w), ucast (drop_bit 56 w)]"

definition u64_of :: "u8 \<Rightarrow> u8 \<Rightarrow> u8 \<Rightarrow> u8 \<Rightarrow> u8 \<Rightarrow> u8 \<Rightarrow> u8 \<Rightarrow> u8 \<Rightarrow> u64" where
  "u64_of a b c d e f g h =
     ucast a OR push_bit 8 (ucast b) OR push_bit 16 (ucast c) OR push_bit 24 (ucast d) OR
     push_bit 32 (ucast e) OR push_bit 40 (ucast f) OR push_bit 48 (ucast g) OR push_bit 56 (ucast h)"

section \<open>Codes\<close>

datatype control_domain = DomCursor | DomDisplay | DomPrivacy | DomClipboard | DomFileTransfer

fun domain_to_u8 :: "control_domain \<Rightarrow> u8" where
  "domain_to_u8 DomCursor = 1"
| "domain_to_u8 DomDisplay = 2"
| "domain_to_u8 DomPrivacy = 3"
| "domain_to_u8 DomClipboard = 4"
| "domain_to_u8 DomFileTransfer = 5"

definition domain_from_u8 :: "u8 \<Rightarrow> control_domain option" where
  "domain_from_u8 code =
     (if code = 1 then Some DomCursor
      else if code = 2 then Some DomDisplay
      else if code = 3 then Some DomPrivacy
      else if code = 4 then Some DomClipboard
      else if code = 5 then Some DomFileTransfer
      else None)"

datatype downgrade_reason =
  Unsupported | CapabilityMismatch | ResourceBusy | StaleGeneration | PolicyDenied | TransientError | VersionMismatch |
  UnknownReason u8

fun reason_to_u8 :: "downgrade_reason \<Rightarrow> u8" where
  "reason_to_u8 Unsupported = 1"
| "reason_to_u8 CapabilityMismatch = 2"
| "reason_to_u8 ResourceBusy = 3"
| "reason_to_u8 StaleGeneration = 4"
| "reason_to_u8 PolicyDenied = 5"
| "reason_to_u8 TransientError = 6"
| "reason_to_u8 VersionMismatch = 7"
| "reason_to_u8 (UnknownReason raw) = raw"

definition reason_from_u8 :: "u8 \<Rightarrow> downgrade_reason option" where
  "reason_from_u8 code =
     (if code = 0 then None
      else if code = 1 then Some Unsupported
      else if code = 2 then Some CapabilityMismatch
      else if code = 3 then Some ResourceBusy
      else if code = 4 then Some StaleGeneration
      else if code = 5 then Some PolicyDenied
      else if code = 6 then Some TransientError
      else if code = 7 then Some VersionMismatch
      else Some (UnknownReason code))"

text \<open>\<open>reason.map_or(0, DowngradeReason::to_u8)\<close>.\<close>

definition reason_byte :: "downgrade_reason option \<Rightarrow> u8" where
  "reason_byte r = (case r of None \<Rightarrow> 0 | Some r \<Rightarrow> reason_to_u8 r)"

datatype transition_status = Applied | Downgraded | Rejected

fun status_to_u8 :: "transition_status \<Rightarrow> u8" where
  "status_to_u8 Applied = 0"
| "status_to_u8 Downgraded = 1"
| "status_to_u8 Rejected = 2"

definition status_from_u8 :: "u8 \<Rightarrow> transition_status option" where
  "status_from_u8 code =
     (if code = 0 then Some Applied else if code = 1 then Some Downgraded else if code = 2 then Some Rejected else None)"

section \<open>Generations and the lease\<close>

definition gen_next :: "u32 \<Rightarrow> u32" where
  "gen_next g = g + 1"

definition gen_supersedes :: "u32 \<Rightarrow> u32 \<Rightarrow> bool" where
  "gen_supersedes a b \<longleftrightarrow> a \<noteq> b \<and> a - b < 0x80000000"

text \<open>The lease is the generation of its owner.\<close>

record ownership_lease =
  ol_generation :: "u32 option"

definition lease_new :: ownership_lease where
  "lease_new = \<lparr>ol_generation = None\<rparr>"

definition lease_current :: "ownership_lease \<Rightarrow> u32 option" where
  "lease_current l = ol_generation l"

definition lease_admit :: "u32 \<Rightarrow> ownership_lease \<Rightarrow> ownership_lease \<times> bool" where
  "lease_admit incoming l =
     (case ol_generation l of
        None \<Rightarrow> (l\<lparr>ol_generation := Some incoming\<rparr>, True)
      | Some current \<Rightarrow>
          if incoming = current \<or> gen_supersedes incoming current
          then (l\<lparr>ol_generation := Some incoming\<rparr>, True) else (l, False))"

definition lease_release :: "ownership_lease \<Rightarrow> ownership_lease" where
  "lease_release l = l\<lparr>ol_generation := None\<rparr>"

section \<open>The envelope\<close>

definition CONTROL_VERSION :: u8 where
  "CONTROL_VERSION = 1"

definition CONTROL_HEADER_LEN :: nat where
  "CONTROL_HEADER_LEN = 12"

definition CONTROL_MAX_PAYLOAD :: nat where
  "CONTROL_MAX_PAYLOAD = 262144"

record control_envelope =
  ce_domain :: u8
  ce_kind :: u16
  ce_generation :: u32
  ce_payload :: bytes

definition typed_domain :: "control_envelope \<Rightarrow> control_domain option" where
  "typed_domain e = domain_from_u8 (ce_domain e)"

definition encode_envelope :: "control_domain \<Rightarrow> u16 \<Rightarrow> u32 \<Rightarrow> bytes \<Rightarrow> bytes option" where
  "encode_envelope domain kind generation payload =
     (if CONTROL_MAX_PAYLOAD < length payload then None
      else Some ([CONTROL_VERSION, domain_to_u8 domain] @ le16 kind @ le32 generation @
                 le32 (of_nat (length payload)) @ payload))"

definition decode_envelope :: "bytes \<Rightarrow> control_envelope option" where
  "decode_envelope bs =
     (if length bs < CONTROL_HEADER_LEN then None
      else if bs ! 0 \<noteq> CONTROL_VERSION then None
      else let payload_len = unat (u32_of (bs ! 8) (bs ! 9) (bs ! 10) (bs ! 11))
           in if CONTROL_MAX_PAYLOAD < payload_len then None
              else if length bs < CONTROL_HEADER_LEN + payload_len then None
              else Some
                \<lparr>ce_domain = bs ! 1, ce_kind = u16_of (bs ! 2) (bs ! 3),
                 ce_generation = u32_of (bs ! 4) (bs ! 5) (bs ! 6) (bs ! 7),
                 ce_payload = subslice CONTROL_HEADER_LEN (CONTROL_HEADER_LEN + payload_len) bs\<rparr>)"

section \<open>The display domain\<close>

record mode_request =
  mq_output_id :: u16
  mq_width :: u16
  mq_height :: u16
  mq_refresh_mhz :: u32

record mode_result =
  mr_output_id :: u16
  mr_width :: u16
  mr_height :: u16
  mr_refresh_mhz :: u32
  mr_status :: transition_status
  mr_reason :: "downgrade_reason option"

definition encode_mode_request :: "mode_request \<Rightarrow> bytes" where
  "encode_mode_request r = le16 (mq_output_id r) @ le16 (mq_width r) @ le16 (mq_height r) @ le32 (mq_refresh_mhz r)"

definition decode_mode_request :: "bytes \<Rightarrow> mode_request option" where
  "decode_mode_request bs =
     (if length bs < 10 then None
      else Some
        \<lparr>mq_output_id = u16_of (bs ! 0) (bs ! 1), mq_width = u16_of (bs ! 2) (bs ! 3),
         mq_height = u16_of (bs ! 4) (bs ! 5), mq_refresh_mhz = u32_of (bs ! 6) (bs ! 7) (bs ! 8) (bs ! 9)\<rparr>)"

definition encode_mode_result :: "mode_result \<Rightarrow> bytes" where
  "encode_mode_result r =
     le16 (mr_output_id r) @ le16 (mr_width r) @ le16 (mr_height r) @ le32 (mr_refresh_mhz r) @
     [status_to_u8 (mr_status r), reason_byte (mr_reason r)]"

definition decode_mode_result :: "bytes \<Rightarrow> mode_result option" where
  "decode_mode_result bs =
     (if length bs < 12 then None
      else Option.bind (status_from_u8 (bs ! 10)) (\<lambda>status. Some
        \<lparr>mr_output_id = u16_of (bs ! 0) (bs ! 1), mr_width = u16_of (bs ! 2) (bs ! 3),
         mr_height = u16_of (bs ! 4) (bs ! 5), mr_refresh_mhz = u32_of (bs ! 6) (bs ! 7) (bs ! 8) (bs ! 9),
         mr_status = status, mr_reason = reason_from_u8 (bs ! 11)\<rparr>))"

record applied_mode =
  am_output_id :: u16
  am_width :: u16
  am_height :: u16
  am_refresh_mhz :: u32

record output_selection =
  os_applied :: "applied_mode option"
  os_pending :: "mode_request option"

definition os_request :: "mode_request \<Rightarrow> output_selection \<Rightarrow> output_selection" where
  "os_request req s = s\<lparr>os_pending := Some req\<rparr>"

definition os_reconcile :: "mode_result \<Rightarrow> output_selection \<Rightarrow> output_selection \<times> transition_status" where
  "os_reconcile r s =
     (let s = s\<lparr>os_pending := None\<rparr>
      in (case mr_status r of
            Rejected \<Rightarrow> s
          | _ \<Rightarrow> s\<lparr>os_applied := Some
              \<lparr>am_output_id = mr_output_id r, am_width = mr_width r, am_height = mr_height r,
               am_refresh_mhz = mr_refresh_mhz r\<rparr>\<rparr>,
          mr_status r))"

definition os_on_output_removed :: "u16 \<Rightarrow> u16 \<Rightarrow> output_selection \<Rightarrow> output_selection \<times> mode_request option" where
  "os_on_output_removed output_id fallback_output s =
     (if map_option am_output_id (os_applied s) = Some output_id then
        (let req = \<lparr>mq_output_id = fallback_output, mq_width = 0, mq_height = 0, mq_refresh_mhz = 0\<rparr>
         in (s\<lparr>os_applied := None, os_pending := Some req\<rparr>, Some req))
      else (s, None))"

section \<open>The privacy, cursor and clipboard domains\<close>

definition PROTECT_ALL :: u8 where
  "PROTECT_ALL = 1 OR 2"

record privacy_request =
  pq_enable :: bool
  pq_protections :: u8

record privacy_state =
  ps_active :: bool
  ps_protections_effective :: u8
  ps_status :: transition_status
  ps_reason :: "downgrade_reason option"

definition flag_byte :: "bool \<Rightarrow> u8" where
  "flag_byte b = (if b then 1 else 0)"

definition encode_privacy_request :: "privacy_request \<Rightarrow> bytes" where
  "encode_privacy_request r = [flag_byte (pq_enable r), pq_protections r]"

definition decode_privacy_request :: "bytes \<Rightarrow> privacy_request option" where
  "decode_privacy_request bs =
     (if length bs < 2 then None
      else if bs ! 1 AND NOT PROTECT_ALL \<noteq> 0 then None
      else Some \<lparr>pq_enable = (bs ! 0 \<noteq> 0), pq_protections = bs ! 1\<rparr>)"

definition encode_privacy_state :: "privacy_state \<Rightarrow> bytes" where
  "encode_privacy_state s =
     [flag_byte (ps_active s), ps_protections_effective s, status_to_u8 (ps_status s), reason_byte (ps_reason s)]"

definition decode_privacy_state :: "bytes \<Rightarrow> privacy_state option" where
  "decode_privacy_state bs =
     (if length bs < 4 then None
      else Option.bind (status_from_u8 (bs ! 2)) (\<lambda>status. Some
        \<lparr>ps_active = (bs ! 0 \<noteq> 0), ps_protections_effective = bs ! 1, ps_status = status,
         ps_reason = reason_from_u8 (bs ! 3)\<rparr>))"

datatype cursor_owner = OwnerHost | OwnerClient

fun owner_to_u8 :: "cursor_owner \<Rightarrow> u8" where
  "owner_to_u8 OwnerHost = 0"
| "owner_to_u8 OwnerClient = 1"

definition owner_from_u8 :: "u8 \<Rightarrow> cursor_owner option" where
  "owner_from_u8 code = (if code = 0 then Some OwnerHost else if code = 1 then Some OwnerClient else None)"

definition encode_authority :: "cursor_owner \<Rightarrow> bytes" where
  "encode_authority owner = [owner_to_u8 owner]"

definition decode_authority :: "bytes \<Rightarrow> cursor_owner option" where
  "decode_authority bs = (if length bs < 1 then None else owner_from_u8 (bs ! 0))"

definition CLIP_ALL :: u8 where
  "CLIP_ALL = 1 OR 2 OR 4"

definition encode_clip_offer :: "u8 \<Rightarrow> bytes" where
  "encode_clip_offer kinds = [kinds AND CLIP_ALL]"

definition decode_clip_offer :: "bytes \<Rightarrow> u8 option" where
  "decode_clip_offer bs = (if length bs < 1 then None else Some (bs ! 0 AND CLIP_ALL))"

definition encode_clip_request :: "u8 \<Rightarrow> bytes" where
  "encode_clip_request kind = [kind]"

text \<open>\<open>u8::count_ones\<close>.\<close>

definition count_ones :: "u8 \<Rightarrow> nat" where
  "count_ones b = length (filter (bit b) [0..<8])"

definition decode_clip_request :: "bytes \<Rightarrow> u8 option" where
  "decode_clip_request bs =
     (if length bs < 1 then None
      else if bs ! 0 AND NOT CLIP_ALL \<noteq> 0 \<or> count_ones (bs ! 0) \<noteq> 1 then None
      else Some (bs ! 0))"

section \<open>The file transfer domain\<close>

definition FT_OFFER_HEADER_LEN :: nat where
  "FT_OFFER_HEADER_LEN = 14"

definition FT_MAX_NAME_LEN :: nat where
  "FT_MAX_NAME_LEN = 1024"

record file_offer =
  fo_transfer_id :: u32
  fo_total_size :: u64
  fo_name :: rust_string

definition encode_file_offer :: "file_offer \<Rightarrow> bytes option" where
  "encode_file_offer offer =
     (let name = as_bytes (fo_name offer)
      in if FT_MAX_NAME_LEN < length name then None
         else Some (le32 (fo_transfer_id offer) @ le64 (fo_total_size offer) @ le16 (of_nat (length name)) @ name))"

definition decode_file_offer :: "bytes \<Rightarrow> file_offer option" where
  "decode_file_offer bs =
     (if length bs < FT_OFFER_HEADER_LEN then None
      else let name_len = unat (u16_of (bs ! 12) (bs ! 13))
           in if FT_MAX_NAME_LEN < name_len then None
              else if length bs < FT_OFFER_HEADER_LEN + name_len then None
              else map_option (\<lambda>name.
                \<lparr>fo_transfer_id = u32_of (bs ! 0) (bs ! 1) (bs ! 2) (bs ! 3),
                 fo_total_size = u64_of (bs ! 4) (bs ! 5) (bs ! 6) (bs ! 7) (bs ! 8) (bs ! 9) (bs ! 10) (bs ! 11),
                 fo_name = name\<rparr>)
                (from_utf8 (subslice FT_OFFER_HEADER_LEN (FT_OFFER_HEADER_LEN + name_len) bs)))"

definition encode_accept :: "u32 \<Rightarrow> bytes" where
  "encode_accept transfer_id = le32 transfer_id"

definition decode_accept :: "bytes \<Rightarrow> u32 option" where
  "decode_accept bs = (if length bs < 4 then None else Some (u32_of (bs ! 0) (bs ! 1) (bs ! 2) (bs ! 3)))"

definition encode_cancel :: "u32 \<Rightarrow> downgrade_reason option \<Rightarrow> bytes" where
  "encode_cancel transfer_id reason = le32 transfer_id @ [reason_byte reason]"

definition decode_cancel :: "bytes \<Rightarrow> (u32 \<times> downgrade_reason option) option" where
  "decode_cancel bs =
     (if length bs < 5 then None
      else Some (u32_of (bs ! 0) (bs ! 1) (bs ! 2) (bs ! 3), reason_from_u8 (bs ! 4)))"

definition encode_ft_progress :: "u32 \<Rightarrow> u64 \<Rightarrow> bytes" where
  "encode_ft_progress transfer_id bytes_done = le32 transfer_id @ le64 bytes_done"

definition decode_ft_progress :: "bytes \<Rightarrow> (u32 \<times> u64) option" where
  "decode_ft_progress bs =
     (if length bs < 12 then None
      else Some (u32_of (bs ! 0) (bs ! 1) (bs ! 2) (bs ! 3),
        u64_of (bs ! 4) (bs ! 5) (bs ! 6) (bs ! 7) (bs ! 8) (bs ! 9) (bs ! 10) (bs ! 11)))"

section \<open>Codes come back\<close>

lemma u64_of_le64 [simp]:
  "u64_of (ucast w) (ucast (drop_bit 8 w)) (ucast (drop_bit 16 w)) (ucast (drop_bit 24 w))
     (ucast (drop_bit 32 w)) (ucast (drop_bit 40 w)) (ucast (drop_bit 48 w)) (ucast (drop_bit 56 w)) = w"
  (is "?l = w")
proof (rule bit_word_eqI)
  fix n assume "n < LENGTH(64)"
  then consider "n < 8" | "8 \<le> n \<and> n < 16" | "16 \<le> n \<and> n < 24" | "24 \<le> n \<and> n < 32" |
    "32 \<le> n \<and> n < 40" | "40 \<le> n \<and> n < 48" | "48 \<le> n \<and> n < 56" | "56 \<le> n \<and> n < 64"
    by fastforce
  then show "bit ?l n \<longleftrightarrow> bit w n"
    by cases (auto simp: u64_of_def bit_simps)
qed

lemma domain_roundtrip [simp]: "domain_from_u8 (domain_to_u8 d) = Some d"
  by (cases d) (simp_all add: domain_from_u8_def)

lemma status_roundtrip [simp]: "status_from_u8 (status_to_u8 s) = Some s"
  by (cases s) (simp_all add: status_from_u8_def)

lemma owner_roundtrip [simp]: "owner_from_u8 (owner_to_u8 w) = Some w"
  by (cases w) (simp_all add: owner_from_u8_def)

text \<open>A reason that its code stands for: not an \<open>Unknown\<close> with a code that has another meaning.\<close>

fun reason_ok :: "downgrade_reason \<Rightarrow> bool" where
  "reason_ok (UnknownReason raw) \<longleftrightarrow> 7 < raw"
| "reason_ok _ \<longleftrightarrow> True"

lemma code_small: "raw = 0 \<or> raw = 1 \<or> raw = 2 \<or> raw = 3 \<or> raw = 4 \<or> raw = 5 \<or> raw = 6 \<or> raw = 7"
  if "\<not> 7 < raw" for raw :: u8
proof -
  have "unat raw \<le> 7" using that by (simp add: word_less_nat_alt)
  then have "unat raw \<in> {0, 1, 2, 3, 4, 5, 6, 7}" by auto
  then show ?thesis by (auto simp: word_unat_eq_iff)
qed

lemma reason_roundtrip: "reason_from_u8 (reason_to_u8 r) = Some r \<longleftrightarrow> reason_ok r"
proof (cases r)
  case (UnknownReason raw)
  then show ?thesis using code_small [of raw] by (auto simp: reason_from_u8_def)
qed (simp_all add: reason_from_u8_def)

lemma reason_byte_roundtrip: "pred_option reason_ok r \<Longrightarrow> reason_from_u8 (reason_byte r) = r"
  by (cases r) (auto simp: reason_byte_def reason_from_u8_def reason_roundtrip [unfolded reason_from_u8_def])

section \<open>Codecs\<close>

lemma decode_encoded_envelope:
  assumes "encode_envelope d k g payload = Some bs"
  shows "decode_envelope (bs @ rest) = Some
    \<lparr>ce_domain = domain_to_u8 d, ce_kind = k, ce_generation = g, ce_payload = payload\<rparr>"
proof -
  have len: "length payload \<le> 262144" and bs: "bs = [1, domain_to_u8 d] @ le16 k @ le32 g @ le32 (of_nat (length payload)) @ payload"
    using assms by (auto simp: encode_envelope_def CONTROL_MAX_PAYLOAD_def CONTROL_VERSION_def split: if_splits)
  have "unat (word_of_nat (length payload) :: u32) = length payload" using len by (simp add: unat_of_nat)
  then show ?thesis
    using len by (simp add: bs decode_envelope_def CONTROL_HEADER_LEN_def CONTROL_VERSION_def CONTROL_MAX_PAYLOAD_def
      le16_def le32_def Let_def subslice_def)
qed

lemma enveloped_payload:
  assumes "length payload \<le> CONTROL_MAX_PAYLOAD"
  shows "\<exists>bs e. encode_envelope d k g payload = Some bs \<and> decode_envelope (bs @ rest) = Some e \<and>
    typed_domain e = Some d \<and> ce_kind e = k \<and> ce_generation e = g \<and> ce_payload e = payload"
proof -
  obtain bs where bs: "encode_envelope d k g payload = Some bs" using assms by (simp add: encode_envelope_def)
  then show ?thesis using decode_encoded_envelope [OF bs, of rest] by (auto simp: typed_domain_def)
qed

locale codec =
  fixes enc :: "'a \<Rightarrow> bytes"
    and dec :: "bytes \<Rightarrow> 'a option"
    and ok :: "'a \<Rightarrow> bool"
  assumes dec_enc: "ok x \<Longrightarrow> dec (enc x @ rest) = Some x"
begin

text \<open>Two messages with the same encoding, even as the start of a longer buffer, are equal.\<close>

lemma enc_prefix_free: "ok x \<Longrightarrow> ok y \<Longrightarrow> enc x @ r = enc y @ s \<Longrightarrow> x = y"
  by (metis dec_enc option.inject)

lemma enveloped:
  assumes "ok x" and "length (enc x) \<le> CONTROL_MAX_PAYLOAD"
  shows "\<exists>bs e. encode_envelope d k g (enc x) = Some bs \<and> decode_envelope (bs @ rest) = Some e \<and>
    typed_domain e = Some d \<and> ce_kind e = k \<and> ce_generation e = g \<and> dec (ce_payload e) = Some x"
  using enveloped_payload [OF assms(2), of d k g rest] dec_enc [OF assms(1), of "[]"] by auto

end

definition privacy_request_ok :: "privacy_request \<Rightarrow> bool" where
  "privacy_request_ok r \<longleftrightarrow> pq_protections r AND NOT PROTECT_ALL = 0"

definition clip_request_ok :: "u8 \<Rightarrow> bool" where
  "clip_request_ok k \<longleftrightarrow> k AND NOT CLIP_ALL = 0 \<and> count_ones k = 1"

definition file_offer_ok :: "file_offer \<Rightarrow> bool" where
  "file_offer_ok f \<longleftrightarrow> list_all scalar_value (fo_name f) \<and> length (as_bytes (fo_name f)) \<le> FT_MAX_NAME_LEN"

interpretation mode_request: codec encode_mode_request decode_mode_request "\<lambda>_. True"
  by unfold_locales (simp add: encode_mode_request_def decode_mode_request_def le16_def le32_def)

interpretation mode_result: codec encode_mode_result decode_mode_result "\<lambda>r. pred_option reason_ok (mr_reason r)"
  by unfold_locales
    (simp add: encode_mode_result_def decode_mode_result_def le16_def le32_def reason_byte_roundtrip)

interpretation privacy_request: codec encode_privacy_request decode_privacy_request privacy_request_ok
  by unfold_locales (simp add: encode_privacy_request_def decode_privacy_request_def privacy_request_ok_def flag_byte_def)

interpretation privacy_state: codec encode_privacy_state decode_privacy_state "\<lambda>s. pred_option reason_ok (ps_reason s)"
  by unfold_locales
    (simp add: encode_privacy_state_def decode_privacy_state_def flag_byte_def reason_byte_roundtrip)

interpretation authority: codec encode_authority decode_authority "\<lambda>_. True"
  by unfold_locales (simp add: encode_authority_def decode_authority_def)

interpretation clip_offer: codec encode_clip_offer decode_clip_offer "\<lambda>k. k AND CLIP_ALL = k"
  by unfold_locales (simp add: encode_clip_offer_def decode_clip_offer_def)

interpretation clip_request: codec encode_clip_request decode_clip_request clip_request_ok
  by unfold_locales (simp add: encode_clip_request_def decode_clip_request_def clip_request_ok_def)

interpretation accept: codec encode_accept decode_accept "\<lambda>_. True"
  by unfold_locales (simp add: encode_accept_def decode_accept_def le32_def)

interpretation cancel: codec "\<lambda>(i, r). encode_cancel i r" decode_cancel "\<lambda>c. pred_option reason_ok (snd c)"
  by unfold_locales (auto simp: encode_cancel_def decode_cancel_def le32_def reason_byte_roundtrip)

interpretation progress: codec "\<lambda>(i, n). encode_ft_progress i n" decode_ft_progress "\<lambda>_. True"
  by unfold_locales (auto simp: encode_ft_progress_def decode_ft_progress_def le32_def le64_def)

lemma decode_encoded_offer:
  assumes "file_offer_ok f"
  shows "\<exists>bs. encode_file_offer f = Some bs \<and> decode_file_offer (bs @ rest) = Some f"
proof -
  let ?name = "as_bytes (fo_name f)"
  have len: "length ?name \<le> 1024" using assms by (simp add: file_offer_ok_def FT_MAX_NAME_LEN_def)
  then have n: "unat (word_of_nat (length ?name) :: u16) = length ?name" by (simp add: unat_of_nat)
  have "from_utf8 ?name = Some (fo_name f)" using assms by (simp add: file_offer_ok_def from_utf8_as_bytes)
  then show ?thesis
    using len n by (simp add: encode_file_offer_def decode_file_offer_def FT_MAX_NAME_LEN_def FT_OFFER_HEADER_LEN_def
      le16_def le32_def le64_def Let_def subslice_def)
qed

interpretation file_offer: codec "\<lambda>f. the (encode_file_offer f)" decode_file_offer file_offer_ok
  by unfold_locales (use decode_encoded_offer in fastforce)

lemma reason_byte_exact: "reason_from_u8 (reason_byte r) = r \<longleftrightarrow> pred_option reason_ok r"
proof (cases r)
  case (Some y)
  then show ?thesis using reason_roundtrip [of y] by (simp add: reason_byte_def)
qed (simp add: reason_byte_roundtrip)

lemma envelope_exact:
  "case encode_envelope d kind g payload of
     None \<Rightarrow> CONTROL_MAX_PAYLOAD < length payload
   | Some bs \<Rightarrow> length payload \<le> CONTROL_MAX_PAYLOAD \<and> (\<exists>e. decode_envelope (bs @ rest) = Some e \<and>
       typed_domain e = Some d \<and> ce_kind e = kind \<and> ce_generation e = g \<and> ce_payload e = payload)"
proof (cases "CONTROL_MAX_PAYLOAD < length payload")
  case False
  then show ?thesis using enveloped_payload [of payload d kind g rest] by auto
qed (simp add: encode_envelope_def)

lemma offer_exact:
  "list_all scalar_value (fo_name f) \<longrightarrow> (case encode_file_offer f of
     None \<Rightarrow> FT_MAX_NAME_LEN < length (as_bytes (fo_name f)) | Some bs \<Rightarrow> decode_file_offer (bs @ rest) = Some f)"
proof (cases "FT_MAX_NAME_LEN < length (as_bytes (fo_name f))")
  case False
  then show ?thesis using decode_encoded_offer [of f rest] by (auto simp: file_offer_ok_def)
qed (simp add: encode_file_offer_def)

lemma reason_codecs_exact:
  "decode_mode_result (encode_mode_result r @ rest) = Some r \<longleftrightarrow> pred_option reason_ok (mr_reason r)"
  "decode_privacy_state (encode_privacy_state s @ rest) = Some s \<longleftrightarrow> pred_option reason_ok (ps_reason s)"
  "decode_cancel (encode_cancel i x @ rest) = Some (i, x) \<longleftrightarrow> pred_option reason_ok x"
proof -
  show "decode_mode_result (encode_mode_result r @ rest) = Some r \<longleftrightarrow> pred_option reason_ok (mr_reason r)"
    by (cases r) (simp add: encode_mode_result_def decode_mode_result_def le16_def le32_def reason_byte_exact)
  show "decode_privacy_state (encode_privacy_state s @ rest) = Some s \<longleftrightarrow> pred_option reason_ok (ps_reason s)"
    by (cases s) (simp add: encode_privacy_state_def decode_privacy_state_def flag_byte_def reason_byte_exact)
  show "decode_cancel (encode_cancel i x @ rest) = Some (i, x) \<longleftrightarrow> pred_option reason_ok x"
    by (simp add: encode_cancel_def decode_cancel_def le32_def reason_byte_exact)
qed

lemma request_codecs_exact:
  "decode_privacy_request (encode_privacy_request p @ rest) = (if privacy_request_ok p then Some p else None)"
  "decode_clip_request (encode_clip_request k @ rest) = (if clip_request_ok k then Some k else None)"
  using privacy_request.dec_enc [of p rest] clip_request.dec_enc [of k rest]
  by (simp_all add: encode_privacy_request_def decode_privacy_request_def privacy_request_ok_def
      encode_clip_request_def decode_clip_request_def clip_request_ok_def)

lemma clip_offer_masked: "decode_clip_offer (encode_clip_offer k @ rest) = Some (k AND CLIP_ALL)"
  by (simp add: encode_clip_offer_def decode_clip_offer_def and.assoc)

section \<open>The lease as a maximum\<close>

lemma supersedes_serial: "gen_supersedes a b \<longleftrightarrow> serial_cmp a b = Some Greater"
  by (auto simp: gen_supersedes_def serial_cmp_def Let_def)

fun lease_run :: "ownership_lease \<Rightarrow> u32 list \<Rightarrow> ownership_lease \<times> bool list" where
  "lease_run l [] = (l, [])"
| "lease_run l (g # gs) =
     (let (l, admitted) = lease_admit g l; (l, rest) = lease_run l gs in (l, admitted # rest))"

text \<open>The specification: a counter that only grows.\<close>

fun max_run :: "nat \<Rightarrow> nat list \<Rightarrow> nat \<times> bool list" where
  "max_run m [] = (m, [])"
| "max_run m (k # ks) = (let (m', rest) = max_run (max m k) ks in (m', (m \<le> k) # rest))"

lemma admit_offsets:
  assumes "m < 2 ^ 31" and "k < 2 ^ 31"
  shows "lease_admit (g0 + of_nat k) \<lparr>ol_generation = Some (g0 + of_nat m)\<rparr> =
    (\<lparr>ol_generation = Some (g0 + of_nat (max m k))\<rparr>, m \<le> k)"
proof -
  have "unat (of_nat k - of_nat m :: u32) = (if m \<le> k then k - m else 2 ^ 32 + k - m)"
    using assms by (auto simp: unat_sub_if_size unat_of_nat word_size)
  then have "(of_nat k - of_nat m :: u32) < 0x80000000 \<longleftrightarrow> m \<le> k"
    using assms by (auto simp: word_less_nat_alt)
  moreover have "(of_nat k :: u32) = of_nat m \<longleftrightarrow> k = m"
    using assms by (simp add: word_unat_eq_iff unat_of_nat)
  ultimately show ?thesis
    by (auto simp: lease_admit_def gen_supersedes_def max_def)
qed

lemma lease_run_max:
  "list_all (\<lambda>k. k < 2 ^ 31) ks \<Longrightarrow> m < 2 ^ 31 \<Longrightarrow>
    lease_run \<lparr>ol_generation = Some (g0 + of_nat m)\<rparr> (map (\<lambda>k. g0 + of_nat k) ks) =
      (\<lparr>ol_generation = Some (g0 + of_nat (fst (max_run m ks)))\<rparr>, snd (max_run m ks))"
  by (induction ks arbitrary: m) (simp_all add: admit_offsets split_beta Let_def)

lemma max_run_Max: "fst (max_run m ks) = Max (insert m (set ks))"
proof -
  have "fst (max_run m ks) = fold max ks m"
    by (induction ks arbitrary: m) (simp_all add: split_beta Let_def max.commute)
  then show ?thesis using Max.set_eq_fold [of m ks] by simp
qed

text \<open>
  The ownership lease, across the wrap of the generation counter: after a first claim \<open>g0\<close>, claims with generations
  within half the number range above it are admitted exactly when no newer claim was admitted before, a refused claim
  changes nothing, and the lease ends with the newest generation that came: it behaves as a counter that never
  goes back.
\<close>

theorem lease_refines_max:
  assumes "list_all (\<lambda>k. k < 2 ^ 31) ks"
  shows "lease_run lease_new (g0 # map (\<lambda>k. g0 + of_nat k) ks) =
      (\<lparr>ol_generation = Some (g0 + of_nat (fst (max_run 0 ks)))\<rparr>, True # snd (max_run 0 ks)) \<and>
    fst (max_run 0 ks) = Max (insert 0 (set ks))"
proof -
  have "lease_admit g0 lease_new = (\<lparr>ol_generation = Some (g0 + of_nat 0)\<rparr>, True)"
    by (simp add: lease_admit_def lease_new_def)
  then show ?thesis using lease_run_max [OF assms, of 0 g0] by (simp add: max_run_Max)
qed

theorem lease_refines_max_witness:
  "lease_run lease_new [0xFFFFFFFE, 0xFFFFFFFF, 3, 0, 3] = (\<lparr>ol_generation = Some 3\<rparr>, [True, True, True, False, True])"
proof -
  have "map (\<lambda>k. 0xFFFFFFFE + of_nat k :: u32) [1, 5, 2, 5] = [0xFFFFFFFF, 3, 0, 3]"
    and "max_run 0 [1, 5, 2, 5] = (5, [True, True, False, True])"
    and "(0xFFFFFFFE + of_nat 5 :: u32) = 3"
    by simp_all
  then show ?thesis
    using lease_refines_max [of "[1, 5, 2, 5]" "0xFFFFFFFE"] by (simp del: lease_run.simps list.map of_nat_numeral)
qed



end
