(* ===== verification/Input_Wire.thy ===== *)
theory Input_Wire
  imports Utf8
begin

text \<open>
  \<open>src/common/src/buffer.rs\<close> (the byte buffer, big-endian as \<open>new\<close> makes it) and \<open>src/common/src/input_wire.rs\<close>: the
  packets a client sends on the input and control channels, \<open>encode\<close> and \<open>deserialize\<close>. A read past the end of the
  slice is a panic: the outer \<open>None\<close> of the reading functions. \<open>i8\<close>, \<open>i16\<close> and \<open>f32\<close> travel as their bit patterns.
  The moonlight-common types (mouse buttons, key and controller flags) and \<open>serde_json\<close> are parameters, collected in a
  record; what a round trip needs of them is the predicate \<open>wire_laws\<close>.
\<close>

section \<open>The byte buffer\<close>

datatype utf8_error = InvalidChunks | BufferTooSmall

record byte_buffer =
  bb_position :: nat
  bb_limit :: nat
  bb_little_endian :: bool
  bb_buffer :: bytes

definition bb_new :: "bytes \<Rightarrow> byte_buffer" where
  "bb_new buffer = \<lparr>bb_position = 0, bb_limit = length buffer, bb_little_endian = False, bb_buffer = buffer\<rparr>"

text \<open>\<open>get_u8_array\<close>: the slice panics out of range.\<close>

definition bb_get_array :: "nat \<Rightarrow> byte_buffer \<Rightarrow> (bytes \<times> byte_buffer) option" where
  "bb_get_array n b =
     (if length (bb_buffer b) < bb_position b + n then None
      else Some (subslice (bb_position b) (bb_position b + n) (bb_buffer b), b\<lparr>bb_position := bb_position b + n\<rparr>))"

definition bb_get_u8 :: "byte_buffer \<Rightarrow> (u8 \<times> byte_buffer) option" where
  "bb_get_u8 b = map_option (\<lambda>(a, b). (a ! 0, b)) (bb_get_array 1 b)"

definition bb_get_bool :: "byte_buffer \<Rightarrow> (bool \<times> byte_buffer) option" where
  "bb_get_bool b = map_option (\<lambda>(x, b). (x \<noteq> 0, b)) (bb_get_u8 b)"

definition bb_get_u16 :: "byte_buffer \<Rightarrow> (u16 \<times> byte_buffer) option" where
  "bb_get_u16 b =
     map_option (\<lambda>(a, b'). (if bb_little_endian b then u16_of (a ! 0) (a ! 1) else u16_of (a ! 1) (a ! 0), b'))
       (bb_get_array 2 b)"

definition bb_get_u32 :: "byte_buffer \<Rightarrow> (u32 \<times> byte_buffer) option" where
  "bb_get_u32 b =
     map_option (\<lambda>(a, b').
       (if bb_little_endian b then u32_of (a ! 0) (a ! 1) (a ! 2) (a ! 3) else u32_of (a ! 3) (a ! 2) (a ! 1) (a ! 0), b'))
       (bb_get_array 4 b)"

text \<open>
  \<open>get_utf8_raw\<close>: the first \<open>characters\<close> characters of the first chunk of \<open>utf8_chunks\<close>; the position does not move.
  There is no chunk only when nothing is left.
\<close>

definition bb_get_utf8_raw :: "nat \<Rightarrow> byte_buffer \<Rightarrow> (utf8_error + rust_string) option" where
  "bb_get_utf8_raw characters b =
     (if characters = 0 then Some (Inr [])
      else if length (bb_buffer b) < bb_position b then None
      else let rest = drop (bb_position b) (bb_buffer b); valid = fst (utf8_prefix rest)
           in if rest = [] then Some (Inl InvalidChunks)
              else if length valid < characters then Some (Inl BufferTooSmall)
              else Some (Inr (take characters valid)))"

definition bb_remaining :: "byte_buffer \<Rightarrow> nat" where
  "bb_remaining b = bb_limit b - bb_position b"

definition bb_reset :: "byte_buffer \<Rightarrow> byte_buffer" where
  "bb_reset b = b\<lparr>bb_position := 0, bb_limit := 0\<rparr>"

definition bb_flip :: "byte_buffer \<Rightarrow> byte_buffer" where
  "bb_flip b = b\<lparr>bb_limit := bb_position b, bb_position := 0\<rparr>"

definition bb_put_array :: "bytes \<Rightarrow> byte_buffer \<Rightarrow> byte_buffer \<times> bool" where
  "bb_put_array array b =
     (if length (bb_buffer b) - bb_position b < length array then (b, False)
      else (b\<lparr>bb_buffer := take (bb_position b) (bb_buffer b) @ array @ drop (bb_position b + length array) (bb_buffer b),
              bb_position := bb_position b + length array\<rparr>, True))"

definition bb_put_u8 :: "u8 \<Rightarrow> byte_buffer \<Rightarrow> byte_buffer \<times> bool" where
  "bb_put_u8 x b = bb_put_array [x] b"

definition bb_put_u16 :: "u16 \<Rightarrow> byte_buffer \<Rightarrow> byte_buffer \<times> bool" where
  "bb_put_u16 x b = bb_put_array (if bb_little_endian b then le16 x else be16 x) b"

definition bb_put_u32 :: "u32 \<Rightarrow> byte_buffer \<Rightarrow> byte_buffer \<times> bool" where
  "bb_put_u32 x b = bb_put_array (if bb_little_endian b then le32 x else be32 x) b"

definition bb_put_utf8_raw :: "rust_string \<Rightarrow> byte_buffer \<Rightarrow> byte_buffer \<times> bool" where
  "bb_put_utf8_raw s b = bb_put_array (as_bytes s) b"

section \<open>Packets\<close>

datatype mouse_action = Press | Release
datatype key_action = KeyDown | KeyUp
datatype touch_event = TouchDown | TouchMove | TouchCancel | TouchOther

text \<open>
  The parameters: \<open>'msg\<close> the general messages with \<open>serde_json\<close>, \<open>'mb\<close> the mouse buttons, \<open>'km\<close>, \<open>'cb\<close> and \<open>'cc\<close> the
  flag sets with \<open>bits\<close> and \<open>from_bits\<close>, \<open>'kf\<close> the key flags and \<open>'ct\<close> the controller types.
\<close>

record ('msg, 'mb, 'km, 'kf, 'cb, 'cc, 'ct) wire_env =
  json_to_string :: "'msg \<Rightarrow> rust_string option"
  json_from_str :: "rust_string \<Rightarrow> 'msg option"
  button_u8 :: "'mb \<Rightarrow> u8"
  button_from_u8 :: "u8 \<Rightarrow> 'mb option"
  modifiers_bits :: "'km \<Rightarrow> u8"
  modifiers_from_bits :: "u8 \<Rightarrow> 'km option"
  modifiers_empty :: 'km
  key_flags_empty :: 'kf
  buttons_bits :: "'cb \<Rightarrow> u32"
  buttons_from_bits :: "u32 \<Rightarrow> 'cb option"
  buttons_all :: 'cb
  caps_bits :: "'cc \<Rightarrow> u16"
  caps_from_bits :: "u16 \<Rightarrow> 'cc option"
  caps_empty :: 'cc
  controller_unknown :: 'ct

datatype ('msg, 'mb, 'km, 'kf, 'cb, 'cc, 'ct) inbound_packet =
  General 'msg
| MouseMove u16 u16
| MousePosition u16 u16 u16 u16
| MouseButton mouse_action 'mb
| HighResScroll u16 u16
| Scroll u8 u8
| Key key_action 'km u16 'kf
| Text rust_string
| ControllerConnected u8 'ct 'cb 'cc
| ControllerDisconnected u8
| ControllerState u8 'cb u8 u8 u16 u16 u16 u16
| Touch u32 u32 u32 u32 u32 u32 "u16 option" touch_event
| Rtt u16
| RequestVideoIdr

text \<open>\<open>CONTROLLER_CHANNELS\<close>: the sixteen channel ids from \<open>TransportChannelId::CONTROLLER0\<close> on.\<close>

definition CONTROLLER_CHANNELS :: "u8 list" where
  "CONTROLLER_CHANNELS = [10, 11, 12, 13, 14, 15, 16, 17, 18, 19, 20, 21, 22, 23, 24, 25]"

fun encode_packet ::
  "('msg, 'mb, 'km, 'kf, 'cb, 'cc, 'ct) wire_env \<Rightarrow> ('msg, 'mb, 'km, 'kf, 'cb, 'cc, 'ct) inbound_packet \<Rightarrow>
     (u8 \<times> bytes) option" where
  "encode_packet env (General message) =
     Option.bind (json_to_string env message) (\<lambda>json.
       let bs = as_bytes json
       in if 65535 < length bs then None else Some (0, be16 (of_nat (length bs)) @ bs))"
| "encode_packet env (MouseMove delta_x delta_y) = Some (6, 0 # be16 delta_x @ be16 delta_y)"
| "encode_packet env (MousePosition x y w h) = Some (5, 1 # be16 x @ be16 y @ be16 w @ be16 h)"
| "encode_packet env (MouseButton action button) =
     Some (4, [2, if action = Press then 1 else 0, button_u8 env button])"
| "encode_packet env (HighResScroll delta_x delta_y) = Some (4, 3 # be16 delta_x @ be16 delta_y)"
| "encode_packet env (Scroll delta_x delta_y) = Some (4, [4, delta_x, delta_y])"
| "encode_packet env (Key action modifiers key flags) =
     Some (7, [0, if action = KeyDown then 1 else 0, modifiers_bits env modifiers] @ be16 key)"
| "encode_packet env (Text text) =
     (if 255 < length text then None else Some (7, [1, of_nat (length text)] @ as_bytes text))"
| "encode_packet env (ControllerConnected i ty supported capabilities) =
     Some (9, [0, i] @ be32 (buttons_bits env supported) @ be16 (caps_bits env capabilities))"
| "encode_packet env (ControllerDisconnected i) = Some (9, [1, i])"
| "encode_packet env (ControllerState i buttons lt rt lx ly rx ry) =
     (if length CONTROLLER_CHANNELS \<le> unat i then None
      else Some (CONTROLLER_CHANNELS ! unat i,
        0 # be32 (buttons_bits env buttons) @ [lt, rt] @ be16 lx @ be16 ly @ be16 rx @ be16 ry))"
| "encode_packet env (Touch pointer_id x y pressure major minor rotation event_type) =
     Option.bind (case event_type of
         TouchDown \<Rightarrow> Some 0 | TouchMove \<Rightarrow> Some 1 | TouchCancel \<Rightarrow> Some 2 | TouchOther \<Rightarrow> None) (\<lambda>ty.
       Some (8, ty # be32 pointer_id @ be32 x @ be32 y @ be32 pressure @ be32 major @ be32 minor @
         be16 (case rotation of None \<Rightarrow> 0 | Some r \<Rightarrow> r)))"
| "encode_packet env (Rtt sequence_number) = Some (26, 0 # be16 sequence_number)"
| "encode_packet env RequestVideoIdr = Some (2, [0])"

section \<open>Reading a packet\<close>

text \<open>One definition per channel; the inner \<open>None\<close> is a packet that is refused.\<close>

definition read_general ::
  "('msg, 'mb, 'km, 'kf, 'cb, 'cc, 'ct) wire_env \<Rightarrow> byte_buffer \<Rightarrow>
     ('msg, 'mb, 'km, 'kf, 'cb, 'cc, 'ct) inbound_packet option option" where
  "read_general env b =
     (if bb_remaining b < 2 then Some None
      else Option.bind (bb_get_u16 b) (\<lambda>(len, b).
        Option.bind (bb_get_utf8_raw (unat len) b) (\<lambda>r.
          case r of
            Inl _ \<Rightarrow> Some None
          | Inr text \<Rightarrow> Some (map_option General (json_from_str env text)))))"

definition read_host_video ::
  "byte_buffer \<Rightarrow> ('msg, 'mb, 'km, 'kf, 'cb, 'cc, 'ct) inbound_packet option option" where
  "read_host_video b =
     (if bb_remaining b < 1 then Some None
      else Option.bind (bb_get_u8 b) (\<lambda>(ty, b). Some (if ty = 0 then Some RequestVideoIdr else None)))"

definition read_mouse ::
  "('msg, 'mb, 'km, 'kf, 'cb, 'cc, 'ct) wire_env \<Rightarrow> byte_buffer \<Rightarrow>
     ('msg, 'mb, 'km, 'kf, 'cb, 'cc, 'ct) inbound_packet option option" where
  "read_mouse env b =
     (if bb_remaining b < 1 then Some None
      else Option.bind (bb_get_u8 b) (\<lambda>(ty, b).
        if ty = 0 then
          (if bb_remaining b < 4 then Some None
           else Option.bind (bb_get_u16 b) (\<lambda>(delta_x, b).
             Option.bind (bb_get_u16 b) (\<lambda>(delta_y, b). Some (Some (MouseMove delta_x delta_y)))))
        else if ty = 1 then
          (if bb_remaining b < 8 then Some None
           else Option.bind (bb_get_u16 b) (\<lambda>(x, b).
             Option.bind (bb_get_u16 b) (\<lambda>(y, b).
             Option.bind (bb_get_u16 b) (\<lambda>(w, b).
             Option.bind (bb_get_u16 b) (\<lambda>(h, b). Some (Some (MousePosition x y w h)))))))
        else if ty = 2 then
          (if bb_remaining b < 2 then Some None
           else Option.bind (bb_get_bool b) (\<lambda>(press, b).
             Option.bind (bb_get_u8 b) (\<lambda>(button, b).
               Some (map_option (MouseButton (if press then Press else Release)) (button_from_u8 env button)))))
        else if ty = 3 then
          (if bb_remaining b < 4 then Some None
           else Option.bind (bb_get_u16 b) (\<lambda>(delta_x, b).
             Option.bind (bb_get_u16 b) (\<lambda>(delta_y, b). Some (Some (HighResScroll delta_x delta_y)))))
        else if ty = 4 then
          (if bb_remaining b < 2 then Some None
           else Option.bind (bb_get_u8 b) (\<lambda>(delta_x, b).
             Option.bind (bb_get_u8 b) (\<lambda>(delta_y, b). Some (Some (Scroll delta_x delta_y)))))
        else Some None))"

definition read_keyboard ::
  "('msg, 'mb, 'km, 'kf, 'cb, 'cc, 'ct) wire_env \<Rightarrow> byte_buffer \<Rightarrow>
     ('msg, 'mb, 'km, 'kf, 'cb, 'cc, 'ct) inbound_packet option option" where
  "read_keyboard env b =
     (if bb_remaining b < 1 then Some None
      else Option.bind (bb_get_u8 b) (\<lambda>(ty, b).
        if ty = 0 then
          (if bb_remaining b < 4 then Some None
           else Option.bind (bb_get_bool b) (\<lambda>(down, b).
             Option.bind (bb_get_u8 b) (\<lambda>(bits, b).
             Option.bind (bb_get_u16 b) (\<lambda>(key, b).
               Some (Some (Key (if down then KeyDown else KeyUp)
                 (case modifiers_from_bits env bits of None \<Rightarrow> modifiers_empty env | Some m \<Rightarrow> m) key
                 (key_flags_empty env)))))))
        else if ty = 1 then
          (if bb_remaining b < 1 then Some None
           else Option.bind (bb_get_u8 b) (\<lambda>(len, b).
             Option.bind (bb_get_utf8_raw (unat len) b) (\<lambda>r.
               case r of Inl _ \<Rightarrow> Some None | Inr key \<Rightarrow> Some (Some (Text key)))))
        else Some None))"

definition read_touch ::
  "byte_buffer \<Rightarrow> ('msg, 'mb, 'km, 'kf, 'cb, 'cc, 'ct) inbound_packet option option" where
  "read_touch b =
     (if bb_remaining b < 27 then Some None
      else Option.bind (bb_get_u8 b) (\<lambda>(ty, b).
        if \<not> ty < 3 then Some None
        else Option.bind (bb_get_u32 b) (\<lambda>(pointer_id, b).
          Option.bind (bb_get_u32 b) (\<lambda>(x, b).
          Option.bind (bb_get_u32 b) (\<lambda>(y, b).
          Option.bind (bb_get_u32 b) (\<lambda>(pressure, b).
          Option.bind (bb_get_u32 b) (\<lambda>(major, b).
          Option.bind (bb_get_u32 b) (\<lambda>(minor, b).
          Option.bind (bb_get_u16 b) (\<lambda>(rotation, b).
            Some (Some (Touch pointer_id x y pressure major minor (Some rotation)
              (if ty = 0 then TouchDown else if ty = 1 then TouchMove else TouchCancel))))))))))))"

definition read_controllers ::
  "('msg, 'mb, 'km, 'kf, 'cb, 'cc, 'ct) wire_env \<Rightarrow> byte_buffer \<Rightarrow>
     ('msg, 'mb, 'km, 'kf, 'cb, 'cc, 'ct) inbound_packet option option" where
  "read_controllers env b =
     (if bb_remaining b < 1 then Some None
      else Option.bind (bb_get_u8 b) (\<lambda>(ty, b).
        if ty = 0 then
          (if bb_remaining b < 7 then Some None
           else Option.bind (bb_get_u8 b) (\<lambda>(i, b).
             Option.bind (bb_get_u32 b) (\<lambda>(buttons, b).
             Option.bind (bb_get_u16 b) (\<lambda>(caps, b).
               Some (Some (ControllerConnected i (controller_unknown env)
                 (case buttons_from_bits env buttons of None \<Rightarrow> buttons_all env | Some x \<Rightarrow> x)
                 (case caps_from_bits env caps of None \<Rightarrow> caps_empty env | Some x \<Rightarrow> x)))))))
        else if ty = 1 then
          (if bb_remaining b < 1 then Some None
           else Option.bind (bb_get_u8 b) (\<lambda>(i, b). Some (Some (ControllerDisconnected i))))
        else Some None))"

text \<open>\<open>iter().enumerate().find\<close> over the controller channels.\<close>

fun find_channel :: "u8 \<Rightarrow> nat \<Rightarrow> u8 list \<Rightarrow> nat option" where
  "find_channel channel n [] = None"
| "find_channel channel n (c # cs) = (if c = channel then Some n else find_channel channel (Suc n) cs)"

definition read_controller_state ::
  "('msg, 'mb, 'km, 'kf, 'cb, 'cc, 'ct) wire_env \<Rightarrow> u8 \<Rightarrow> byte_buffer \<Rightarrow>
     ('msg, 'mb, 'km, 'kf, 'cb, 'cc, 'ct) inbound_packet option option" where
  "read_controller_state env channel b =
     (case find_channel channel 0 CONTROLLER_CHANNELS of
        None \<Rightarrow> Some None
      | Some gamepad_id \<Rightarrow>
          if bb_remaining b < 1 then Some None
          else Option.bind (bb_get_u8 b) (\<lambda>(ty, b).
            if ty = 0 then
              (if bb_remaining b < 14 then Some None
               else Option.bind (bb_get_u32 b) (\<lambda>(bits, b).
                 case buttons_from_bits env bits of
                   None \<Rightarrow> Some None
                 | Some buttons \<Rightarrow>
                     Option.bind (bb_get_u8 b) (\<lambda>(lt, b).
                     Option.bind (bb_get_u8 b) (\<lambda>(rt, b).
                     Option.bind (bb_get_u16 b) (\<lambda>(lx, b).
                     Option.bind (bb_get_u16 b) (\<lambda>(ly, b).
                     Option.bind (bb_get_u16 b) (\<lambda>(rx, b).
                     Option.bind (bb_get_u16 b) (\<lambda>(ry, b).
                       Some (Some (ControllerState (of_nat gamepad_id) buttons lt rt lx ly rx ry))))))))))
            else Some None))"

text \<open>The type byte of a round-trip packet is read without a check of the length.\<close>

definition read_rtt ::
  "byte_buffer \<Rightarrow> ('msg, 'mb, 'km, 'kf, 'cb, 'cc, 'ct) inbound_packet option option" where
  "read_rtt b =
     Option.bind (bb_get_u8 b) (\<lambda>(ty, b).
       if ty = 0 then
         (if bb_remaining b < 2 then Some None
          else Option.bind (bb_get_u16 b) (\<lambda>(sequence_number, b). Some (Some (Rtt sequence_number))))
       else Some None)"

definition deserialize_packet ::
  "('msg, 'mb, 'km, 'kf, 'cb, 'cc, 'ct) wire_env \<Rightarrow> u8 \<Rightarrow> bytes \<Rightarrow>
     ('msg, 'mb, 'km, 'kf, 'cb, 'cc, 'ct) inbound_packet option option" where
  "deserialize_packet env channel bs =
     (let b = bb_new bs
      in if channel = 0 then read_general env b
         else if channel = 1 then Some None
         else if channel = 2 then read_host_video b
         else if channel = 3 then Some None
         else if channel = 5 \<or> channel = 4 \<or> channel = 6 then read_mouse env b
         else if channel = 7 then read_keyboard env b
         else if channel = 8 then read_touch b
         else if channel = 9 then read_controllers env b
         else if channel \<in> set CONTROLLER_CHANNELS then read_controller_state env channel b
         else if channel = 26 then read_rtt b
         else Some None)"

section \<open>Reads that stay inside the buffer\<close>

definition bb_ok :: "byte_buffer \<Rightarrow> bool" where
  "bb_ok b \<longleftrightarrow> bb_limit b = length (bb_buffer b) \<and> bb_position b \<le> bb_limit b"

lemma bb_ok_new: "bb_ok (bb_new bs)"
  by (simp add: bb_ok_def bb_new_def)

text \<open>A computation that does not panic, with the rules that follow the shape of a reader.\<close>

definition returns :: "'a option \<Rightarrow> bool" where
  "returns r \<longleftrightarrow> r \<noteq> None"

lemma returns_Some: "returns (Some x)"
  by (simp add: returns_def)

lemma returns_if: "(c \<Longrightarrow> returns a) \<Longrightarrow> (\<not> c \<Longrightarrow> returns b) \<Longrightarrow> returns (if c then a else b)"
  by simp

lemma returns_case_option: "returns a \<Longrightarrow> (\<And>x. returns (f x)) \<Longrightarrow> returns (case r of None \<Rightarrow> a | Some x \<Rightarrow> f x)"
  by (cases r) auto

lemma returns_case_sum: "(\<And>x. returns (f x)) \<Longrightarrow> (\<And>x. returns (g x)) \<Longrightarrow> returns (case r of Inl x \<Rightarrow> f x | Inr x \<Rightarrow> g x)"
  by (cases r) auto

locale buffer_read =
  fixes get :: "byte_buffer \<Rightarrow> ('a \<times> byte_buffer) option"
    and width :: nat
  assumes get_inside: "bb_ok b \<Longrightarrow> width \<le> bb_remaining b \<Longrightarrow>
    \<exists>x b'. get b = Some (x, b') \<and> bb_ok b' \<and> bb_remaining b' = bb_remaining b - width"
begin

lemma bind_returns:
  assumes "bb_ok b" and "width \<le> bb_remaining b"
    and "\<And>x b'. bb_ok b' \<Longrightarrow> bb_remaining b' = bb_remaining b - width \<Longrightarrow> returns (f x b')"
  shows "returns (Option.bind (get b) (\<lambda>(x, b). f x b))"
  using get_inside [OF assms(1,2)] assms(3) by auto

end

lemma get_array_inside:
  "bb_ok b \<Longrightarrow> n \<le> bb_remaining b \<Longrightarrow>
    \<exists>x b'. bb_get_array n b = Some (x, b') \<and> bb_ok b' \<and> bb_remaining b' = bb_remaining b - n"
  by (auto simp: bb_get_array_def bb_ok_def bb_remaining_def)

interpretation get_u8: buffer_read bb_get_u8 1
proof
  fix b
  assume "bb_ok b" and "1 \<le> bb_remaining b"
  then show "\<exists>x b'. bb_get_u8 b = Some (x, b') \<and> bb_ok b' \<and> bb_remaining b' = bb_remaining b - 1"
    using get_array_inside [of b 1] by (auto simp: bb_get_u8_def)
qed

interpretation get_bool: buffer_read bb_get_bool 1
proof
  fix b
  assume "bb_ok b" and "1 \<le> bb_remaining b"
  then show "\<exists>x b'. bb_get_bool b = Some (x, b') \<and> bb_ok b' \<and> bb_remaining b' = bb_remaining b - 1"
    using get_u8.get_inside [of b] by (auto simp: bb_get_bool_def)
qed

interpretation get_u16: buffer_read bb_get_u16 2
proof
  fix b
  assume "bb_ok b" and "2 \<le> bb_remaining b"
  then show "\<exists>x b'. bb_get_u16 b = Some (x, b') \<and> bb_ok b' \<and> bb_remaining b' = bb_remaining b - 2"
    using get_array_inside [of b 2] by (cases "bb_little_endian b") (auto simp: bb_get_u16_def)
qed

interpretation get_u32: buffer_read bb_get_u32 4
proof
  fix b
  assume "bb_ok b" and "4 \<le> bb_remaining b"
  then show "\<exists>x b'. bb_get_u32 b = Some (x, b') \<and> bb_ok b' \<and> bb_remaining b' = bb_remaining b - 4"
    using get_array_inside [of b 4] by (cases "bb_little_endian b") (auto simp: bb_get_u32_def)
qed

lemma utf8_returns:
  "bb_ok b \<Longrightarrow> (\<And>r. returns (f r)) \<Longrightarrow> returns (Option.bind (bb_get_utf8_raw n b) f)"
  by (auto simp: bb_get_utf8_raw_def bb_ok_def Let_def)

lemmas returns_rules =
  returns_Some returns_if returns_case_option returns_case_sum utf8_returns
  get_u8.bind_returns get_bool.bind_returns get_u16.bind_returns get_u32.bind_returns

lemma readers_return:
  assumes "bb_ok b"
  shows "returns (read_general env b)" and "returns (read_host_video b)" and "returns (read_mouse env b)"
    and "returns (read_keyboard env b)" and "returns (read_touch b)" and "returns (read_controllers env b)"
    and "returns (read_controller_state env ch b)"
  using assms
  unfolding read_general_def read_host_video_def read_mouse_def read_keyboard_def read_touch_def read_controllers_def
    read_controller_state_def
  by (intro returns_rules; simp)+

text \<open>
  C28.
  Reading any bytes on any channel returns, with a packet or a refusal, except for an empty message on the round-trip
  channel, which panics: its type byte is read without the check every other channel makes.
\<close>

theorem deserialize_panics_iff:
  "deserialize_packet env channel bs = None \<longleftrightarrow> channel = 26 \<and> bs = []"
proof -
  have ok: "bb_ok (bb_new bs)" by (rule bb_ok_new)
  have rtt: "read_rtt (bb_new bs) = None \<longleftrightarrow> bs = []"
  proof (cases "bs = []")
    case True
    then show ?thesis by (simp add: read_rtt_def bb_new_def bb_get_u8_def bb_get_array_def)
  next
    case False
    then have "1 \<le> bb_remaining (bb_new bs)" by (cases bs) (auto simp: bb_new_def bb_remaining_def)
    then have "returns (read_rtt (bb_new bs))"
      unfolding read_rtt_def using ok by (intro returns_rules; simp)
    then show ?thesis using False by (simp add: returns_def)
  qed
  have "26 \<notin> set CONTROLLER_CHANNELS" by (simp add: CONTROLLER_CHANNELS_def)
  then show ?thesis
    using readers_return [OF ok] rtt by (auto simp: deserialize_packet_def Let_def returns_def)
qed

section \<open>Reading what was written\<close>

text \<open>A buffer over \<open>pre @ rest\<close> that has been read up to \<open>rest\<close>.\<close>

definition at_buf :: "bytes \<Rightarrow> bytes \<Rightarrow> byte_buffer" where
  "at_buf pre rest =
     \<lparr>bb_position = length pre, bb_limit = length pre + length rest, bb_little_endian = False, bb_buffer = pre @ rest\<rparr>"

lemma bb_new_at: "bb_new bs = at_buf [] bs"
  by (simp add: bb_new_def at_buf_def)

lemma remaining_at [simp]: "bb_remaining (at_buf pre rest) = length rest"
  by (simp add: at_buf_def bb_remaining_def)

lemma get_array_at: "bb_get_array (length xs) (at_buf pre (xs @ rest)) = Some (xs, at_buf (pre @ xs) rest)"
  by (simp add: bb_get_array_def at_buf_def subslice_def)

lemma get_u8_at [simp]: "bb_get_u8 (at_buf pre (x # rest)) = Some (x, at_buf (pre @ [x]) rest)"
  using get_array_at [of "[x]" pre rest] by (simp add: bb_get_u8_def)

lemma get_bool_at [simp]: "bb_get_bool (at_buf pre (x # rest)) = Some (x \<noteq> 0, at_buf (pre @ [x]) rest)"
  by (simp add: bb_get_bool_def)

lemma length_be [simp]: "length (be16 w) = 2" "length (be32 v) = 4"
  by (simp_all add: be16_def be32_def)

lemma big_endian_at [simp]: "\<not> bb_little_endian (at_buf pre rest)"
  by (simp add: at_buf_def)

lemma get_u16_at [simp]: "bb_get_u16 (at_buf pre (be16 w @ rest)) = Some (w, at_buf (pre @ be16 w) rest)"
  using get_array_at [of "be16 w" pre rest] by (simp add: bb_get_u16_def) (simp add: be16_def)

lemma get_u32_at [simp]: "bb_get_u32 (at_buf pre (be32 w @ rest)) = Some (w, at_buf (pre @ be32 w) rest)"
  using get_array_at [of "be32 w" pre rest] by (simp add: bb_get_u32_def) (simp add: be32_def)

lemma get_u16_end [simp]: "bb_get_u16 (at_buf pre (be16 w)) = Some (w, at_buf (pre @ be16 w) [])"
  using get_u16_at [of pre w "[]"] by simp

lemma get_utf8_at:
  assumes "list_all scalar_value cs"
  shows "bb_get_utf8_raw n (at_buf pre (as_bytes cs)) =
    (if n = 0 then Some (Inr []) else if cs = [] then Some (Inl InvalidChunks)
     else if length cs < n then Some (Inl BufferTooSmall) else Some (Inr (take n cs)))"
proof -
  have "as_bytes cs = [] \<longleftrightarrow> cs = []" by (cases cs) (auto simp: as_bytes_def utf8_enc_def)
  moreover have "fst (utf8_prefix (as_bytes cs)) = cs" using utf8_prefix_as_bytes [OF assms, of "[]"] by simp
  ultimately show ?thesis by (auto simp: bb_get_utf8_raw_def at_buf_def Let_def)
qed

text \<open>
  What is asked of the parameters: \<open>serde_json\<close> reads back what it wrote (a string is a list of scalar values), and each
  \<open>from_bits\<close> or \<open>from_u8\<close> accepts the code of every value.
\<close>

definition wire_laws :: "('msg, 'mb, 'km, 'kf, 'cb, 'cc, 'ct) wire_env \<Rightarrow> bool" where
  "wire_laws env \<longleftrightarrow>
     (\<forall>m s. json_to_string env m = Some s \<longrightarrow> list_all scalar_value s \<and> json_from_str env s = Some m) \<and>
     (\<forall>x. button_from_u8 env (button_u8 env x) = Some x) \<and>
     (\<forall>x. modifiers_from_bits env (modifiers_bits env x) = Some x) \<and>
     (\<forall>x. buttons_from_bits env (buttons_bits env x) = Some x) \<and>
     (\<forall>x. caps_from_bits env (caps_bits env x) = Some x)"

text \<open>What the receiver gets: the key flags and the controller type are not on the wire, a missing rotation is zero.\<close>

fun received ::
  "('msg, 'mb, 'km, 'kf, 'cb, 'cc, 'ct) wire_env \<Rightarrow> ('msg, 'mb, 'km, 'kf, 'cb, 'cc, 'ct) inbound_packet \<Rightarrow>
     ('msg, 'mb, 'km, 'kf, 'cb, 'cc, 'ct) inbound_packet" where
  "received env (Key action modifiers key flags) = Key action modifiers key (key_flags_empty env)"
| "received env (ControllerConnected i ty b c) = ControllerConnected i (controller_unknown env) b c"
| "received env (Touch i x y p a m rotation ty) = Touch i x y p a m (Some (case rotation of None \<Rightarrow> 0 | Some r \<Rightarrow> r)) ty"
| "received env p = p"

definition ascii :: "rust_string \<Rightarrow> bool" where
  "ascii s \<longleftrightarrow> list_all (\<lambda>c. c < 0x80) s"

text \<open>A text is a list of scalar values, as every \<open>String\<close> is; a general message arrives only when its JSON is ASCII.\<close>

fun packet_arrives ::
  "('msg, 'mb, 'km, 'kf, 'cb, 'cc, 'ct) wire_env \<Rightarrow> ('msg, 'mb, 'km, 'kf, 'cb, 'cc, 'ct) inbound_packet \<Rightarrow> bool" where
  "packet_arrives env (General m) \<longleftrightarrow> pred_option ascii (json_to_string env m)"
| "packet_arrives env p \<longleftrightarrow> True"

fun packet_text :: "('msg, 'mb, 'km, 'kf, 'cb, 'cc, 'ct) inbound_packet \<Rightarrow> rust_string" where
  "packet_text (Text s) = s"
| "packet_text p = []"

lemma find_controller: "i < 16 \<Longrightarrow> find_channel (CONTROLLER_CHANNELS ! i) 0 CONTROLLER_CHANNELS = Some i"
proof -
  have "list_all (\<lambda>i. find_channel (CONTROLLER_CHANNELS ! i) 0 CONTROLLER_CHANNELS = Some i) [0..<16]"
    by (simp add: CONTROLLER_CHANNELS_def upt_rec)
  then show "i < 16 \<Longrightarrow> find_channel (CONTROLLER_CHANNELS ! i) 0 CONTROLLER_CHANNELS = Some i"
    by (simp add: list_all_iff)
qed

lemma controller_channel:
  assumes "i < 16"
  shows "deserialize_packet env (CONTROLLER_CHANNELS ! i) bs = read_controller_state env (CONTROLLER_CHANNELS ! i) (bb_new bs)"
proof -
  have "list_all (\<lambda>i. CONTROLLER_CHANNELS ! i \<notin> {0, 1, 2, 3, 4, 5, 6, 7, 8, 9}) [0..<16]"
    by (simp add: CONTROLLER_CHANNELS_def upt_rec)
  then have "CONTROLLER_CHANNELS ! i \<notin> {0, 1, 2, 3, 4, 5, 6, 7, 8, 9}" using assms by (simp add: list_all_iff)
  moreover have "CONTROLLER_CHANNELS ! i \<in> set CONTROLLER_CHANNELS"
    using assms by (intro nth_mem) (simp add: CONTROLLER_CHANNELS_def)
  ultimately show ?thesis by (simp add: deserialize_packet_def Let_def)
qed

lemma general_roundtrip:
  assumes "wire_laws env" and "encode_packet env (General m) = Some (ch, bs)"
  shows "deserialize_packet env ch bs = Some (if packet_arrives env (General m) then Some (General m) else None)"
proof -
  obtain s where s: "json_to_string env m = Some s" "length (as_bytes s) \<le> 65535"
      "ch = 0" "bs = be16 (of_nat (length (as_bytes s))) @ as_bytes s"
    using assms(2) by (cases "json_to_string env m") (auto simp: Let_def split: if_splits)
  have laws: "list_all scalar_value s" "json_from_str env s = Some m"
    using assms(1) s(1) by (auto simp: wire_laws_def)
  have n: "unat (of_nat (length (as_bytes s)) :: u16) = length (as_bytes s)" using s(2) by (simp add: unat_of_nat)
  have "as_bytes s = [] \<longleftrightarrow> s = []" by (cases s) (auto simp: as_bytes_def utf8_enc_def)
  moreover have "length s \<le> length (as_bytes s)" "length (as_bytes s) = length s \<longleftrightarrow> ascii s"
    using length_as_bytes [of s] by (simp_all add: ascii_def)
  ultimately show ?thesis
    using laws n by (auto simp: s deserialize_packet_def Let_def read_general_def bb_new_at get_utf8_at ascii_def)
qed

lemma text_roundtrip:
  assumes "list_all scalar_value s" and "encode_packet env (Text s) = Some (ch, bs)"
  shows "deserialize_packet env ch bs = Some (Some (Text s))"
proof -
  have s: "length s \<le> 255" "ch = 7" "bs = [1, of_nat (length s)] @ as_bytes s"
    using assms(2) by (auto split: if_splits)
  have "unat (of_nat (length s) :: u8) = length s" using s(1) by (simp add: unat_of_nat)
  then show ?thesis using assms(1) by (auto simp: s(2,3) deserialize_packet_def read_keyboard_def bb_new_at get_utf8_at)
qed

lemma controller_state_roundtrip:
  assumes "wire_laws env" and "encode_packet env (ControllerState i b lt rt lx ly rx ry) = Some (ch, bs)"
  shows "deserialize_packet env ch bs = Some (Some (ControllerState i b lt rt lx ly rx ry))"
proof -
  have i: "unat i < 16" "ch = CONTROLLER_CHANNELS ! unat i"
      "bs = 0 # be32 (buttons_bits env b) @ [lt, rt] @ be16 lx @ be16 ly @ be16 rx @ be16 ry"
    using assms(2) by (auto simp: CONTROLLER_CHANNELS_def split: if_splits)
  have "buttons_from_bits env (buttons_bits env b) = Some b" using assms(1) by (simp add: wire_laws_def)
  then show ?thesis
    using i(1) by (simp add: i(2,3) controller_channel read_controller_state_def find_controller bb_new_at)
qed

text \<open>
  C11.
  Client and host agree on the wire: what \<open>encode\<close> produces is read by \<open>deserialize\<close> on the same channel as the packet
  that was sent, up to the fields that are not on the wire. The one exception is a general message whose JSON is not
  ASCII: its length prefix counts bytes, \<open>deserialize\<close> counts characters, and the message is dropped.
\<close>

theorem packet_roundtrip:
  assumes "wire_laws env" and "list_all scalar_value (packet_text p)" and "encode_packet env p = Some (ch, bs)"
  shows "deserialize_packet env ch bs = Some (if packet_arrives env p then Some (received env p) else None)"
proof -
  note simps = deserialize_packet_def Let_def bb_new_at read_mouse_def read_keyboard_def read_touch_def
    read_controllers_def read_rtt_def read_host_video_def CONTROLLER_CHANNELS_def wire_laws_def
  show ?thesis
  proof (cases p)
    case (General m)
    then show ?thesis using general_roundtrip [of env m ch bs] assms(1,3) by simp
  next
    case (Text s)
    then show ?thesis using text_roundtrip [of s env ch bs] assms(2,3) by simp
  next
    case (ControllerState i b lt rt lx ly rx ry)
    then show ?thesis using controller_state_roundtrip [of env i b lt rt lx ly rx ry ch bs] assms(1,3) by simp
  next
    case (MouseButton a b)
    then show ?thesis using assms by (cases a) (auto simp: simps)
  next
    case (Key a m k f)
    then show ?thesis using assms by (cases a) (auto simp: simps)
  next
    case (Touch i x y pr a m r ty)
    then show ?thesis using assms by (cases ty) (auto simp: simps)
  qed (use assms in \<open>auto simp: simps\<close>)
qed

text \<open>An instance of the parameters: messages that are their own JSON, flag sets that are their bits.\<close>

definition plain_env :: "(rust_string, u8, u8, unit, u32, u16, unit) wire_env" where
  "plain_env =
     \<lparr>json_to_string = (\<lambda>s. if list_all scalar_value s then Some s else None), json_from_str = Some,
      button_u8 = id, button_from_u8 = Some, modifiers_bits = id, modifiers_from_bits = Some, modifiers_empty = 0,
      key_flags_empty = (), buttons_bits = id, buttons_from_bits = Some, buttons_all = 0xFFFFFFFF,
      caps_bits = id, caps_from_bits = Some, caps_empty = 0, controller_unknown = ()\<rparr>"

lemma plain_env_laws: "wire_laws plain_env"
  by (simp add: wire_laws_def plain_env_def)

theorem packet_roundtrip_witness:
  "deserialize_packet plain_env 0 ([0, 4] @ [34, 0xC3, 0xA9, 34]) = Some None \<and>
   deserialize_packet plain_env 7 [0, 1, 3, 0, 65] = Some (Some (Key KeyDown 3 65 ()))"
proof -
  have "encode_packet plain_env (General [34, 0xE9, 34]) = Some (0, [0, 4] @ [34, 0xC3, 0xA9, 34])"
    by (simp add: plain_env_def scalar_value_def as_bytes_def utf8_enc_def byte_of_def be16_def)
  moreover have "\<not> packet_arrives plain_env (General [34, 0xE9, 34])"
    by (simp add: plain_env_def ascii_def scalar_value_def)
  moreover have "encode_packet plain_env (Key KeyDown 3 65 ()) = Some (7, [0, 1, 3, 0, 65])"
    by (simp add: plain_env_def be16_def)
  ultimately show ?thesis
    using packet_roundtrip [OF plain_env_laws, of "General [34, 0xE9, 34]" 0 "[0, 4] @ [34, 0xC3, 0xA9, 34]"]
      packet_roundtrip [OF plain_env_laws, of "Key KeyDown 3 65 ()" 7 "[0, 1, 3, 0, 65]"]
    by simp
qed

end
