(* ===== verification/Slice.thy ===== *)
theory Slice
  imports Prelude
begin

text \<open>
  \<open>src/transport-core/src/slice.rs\<close>: the reassembler of sub-frame slices, and \<open>src/transport-core/src/mode.rs\<close>: the
  table from stream modes to knobs. The theorems are that a frame is reported complete only when all its slices came,
  in one epoch and, while recovery waits for a key frame, all of them of a key frame; and that the slices of a frame,
  in any order, complete it.
\<close>

section \<open>Slices\<close>

definition MAX_SLICES :: u8 where
  "MAX_SLICES = 4"

datatype slice_outcome = Pending | FrameComplete | Gated | EpochReset | Malformed

record slice_reassembler =
  sr_epoch :: u32
  sr_awaiting_key :: bool
  sr_frame_id :: "u32 option"
  sr_slice_count :: u8
  sr_got :: u8
  sr_dropped_partial :: nat

definition slice_new :: "u32 \<Rightarrow> slice_reassembler" where
  "slice_new epoch =
     \<lparr>sr_epoch = epoch, sr_awaiting_key = True, sr_frame_id = None, sr_slice_count = 0, sr_got = 0, sr_dropped_partial = 0\<rparr>"

definition drop_partial_if_incomplete :: "slice_reassembler \<Rightarrow> slice_reassembler" where
  "drop_partial_if_incomplete s =
     (if sr_frame_id s \<noteq> None \<and> sr_got s \<noteq> 0 then s\<lparr>sr_dropped_partial := sr_dropped_partial s + 1\<rparr> else s)"

definition request_recovery :: "slice_reassembler \<Rightarrow> slice_reassembler" where
  "request_recovery s =
     (drop_partial_if_incomplete s)\<lparr>sr_awaiting_key := True, sr_frame_id := None, sr_got := 0\<rparr>"

record slice_push =
  sp_epoch :: u32
  sp_frame_id :: u32
  sp_slice_index :: u8
  sp_slice_count :: u8
  sp_is_key :: bool

text \<open>The epoch change, and the rest of \<open>push\<close> once the epoch is the current one.\<close>

definition adopt_epoch :: "u32 \<Rightarrow> slice_reassembler \<Rightarrow> slice_reassembler" where
  "adopt_epoch epoch s =
     (if epoch = sr_epoch s then s
      else (drop_partial_if_incomplete s)
        \<lparr>sr_epoch := epoch, sr_awaiting_key := True, sr_frame_id := None, sr_got := 0, sr_slice_count := 0\<rparr>)"

definition start_frame :: "slice_push \<Rightarrow> slice_reassembler \<Rightarrow> slice_reassembler" where
  "start_frame p s =
     (if sr_frame_id s \<noteq> Some (sp_frame_id p)
      then (drop_partial_if_incomplete s)
        \<lparr>sr_frame_id := Some (sp_frame_id p), sr_slice_count := sp_slice_count p, sr_got := 0\<rparr>
      else s)"

definition add_slice :: "slice_push \<Rightarrow> slice_reassembler \<Rightarrow> slice_reassembler \<times> slice_outcome" where
  "add_slice p s =
     (let s = s\<lparr>sr_got := sr_got s OR push_bit (unat (sp_slice_index p)) 1\<rparr>;
          full = (push_bit (unat (sp_slice_count p)) 1 - 1 :: u16)
      in if ucast (sr_got s) = full
         then ((if sp_is_key p then s\<lparr>sr_awaiting_key := False\<rparr> else s)\<lparr>sr_frame_id := None, sr_got := 0\<rparr>, FrameComplete)
         else (s, Pending))"

definition slice_push_op :: "slice_push \<Rightarrow> slice_reassembler \<Rightarrow> slice_reassembler \<times> slice_outcome" where
  "slice_push_op p s =
     (if sp_slice_count p = 0 \<or> sp_slice_count p > MAX_SLICES \<or> sp_slice_index p \<ge> sp_slice_count p then (s, Malformed)
      else if sp_epoch p \<noteq> sr_epoch s \<and> \<not> sp_is_key p then (adopt_epoch (sp_epoch p) s, EpochReset)
      else let s = adopt_epoch (sp_epoch p) s
           in if sr_awaiting_key s \<and> \<not> sp_is_key p then (s, Gated)
              else if sr_frame_id s = Some (sp_frame_id p) \<and> sr_slice_count s \<noteq> sp_slice_count p then (s, Malformed)
              else add_slice p (start_frame p s))"

section \<open>Modes\<close>

datatype stream_mode = ModeFast | ModeMedium | ModeQuality
datatype codec_pref = PrefH264 | PrefHevc | PrefAv1

record user_tradeoffs =
  ut_bitrate_kbps :: u32
  ut_width :: u16
  ut_height :: u16
  ut_fps :: u16

record mode_knobs =
  mk_codec_pref :: codec_pref
  mk_width :: u16
  mk_height :: u16
  mk_bitrate_kbps :: u32
  mk_fps :: u16
  mk_audio_exclusive_default :: bool

fun mode_defaults :: "stream_mode \<Rightarrow> mode_knobs" where
  "mode_defaults ModeFast =
     \<lparr>mk_codec_pref = PrefH264, mk_width = 1280, mk_height = 720, mk_bitrate_kbps = 5000, mk_fps = 60,
      mk_audio_exclusive_default = True\<rparr>"
| "mode_defaults ModeMedium =
     \<lparr>mk_codec_pref = PrefHevc, mk_width = 1920, mk_height = 1080, mk_bitrate_kbps = 8000, mk_fps = 60,
      mk_audio_exclusive_default = True\<rparr>"
| "mode_defaults ModeQuality =
     \<lparr>mk_codec_pref = PrefAv1, mk_width = 3840, mk_height = 2160, mk_bitrate_kbps = 25000, mk_fps = 60,
      mk_audio_exclusive_default = False\<rparr>"

definition knobs_for :: "stream_mode \<Rightarrow> user_tradeoffs \<Rightarrow> mode_knobs" where
  "knobs_for mode user =
     (let k = mode_defaults mode;
          k = (if ut_bitrate_kbps user \<noteq> 0 then k\<lparr>mk_bitrate_kbps := ut_bitrate_kbps user\<rparr> else k);
          k = (if ut_width user \<noteq> 0 then k\<lparr>mk_width := ut_width user\<rparr> else k);
          k = (if ut_height user \<noteq> 0 then k\<lparr>mk_height := ut_height user\<rparr> else k)
      in if ut_fps user \<noteq> 0 then k\<lparr>mk_fps := ut_fps user\<rparr> else k)"

definition canonical_vectors :: "(stream_mode \<times> mode_knobs) list" where
  "canonical_vectors =
     map (\<lambda>mode. (mode, knobs_for mode \<lparr>ut_bitrate_kbps = 0, ut_width = 0, ut_height = 0, ut_fps = 0\<rparr>))
       [ModeFast, ModeMedium, ModeQuality]"

lemma knobs_for_fields:
  "mk_bitrate_kbps (knobs_for mode u) = (if ut_bitrate_kbps u = 0 then mk_bitrate_kbps (mode_defaults mode) else ut_bitrate_kbps u)"
  "mk_width (knobs_for mode u) = (if ut_width u = 0 then mk_width (mode_defaults mode) else ut_width u)"
  "mk_height (knobs_for mode u) = (if ut_height u = 0 then mk_height (mode_defaults mode) else ut_height u)"
  "mk_fps (knobs_for mode u) = (if ut_fps u = 0 then mk_fps (mode_defaults mode) else ut_fps u)"
  "mk_codec_pref (knobs_for mode u) = mk_codec_pref (mode_defaults mode)"
  by (simp_all add: knobs_for_def Let_def)

lemma canonical_vectors_defaults: "canonical_vectors = map (\<lambda>m. (m, mode_defaults m)) [ModeFast, ModeMedium, ModeQuality]"
  by (simp add: canonical_vectors_def knobs_for_def)

section \<open>Complete sets of slices\<close>

lemma mask16: "push_bit n 1 - 1 = (mask n :: u16)"
  by (simp add: mask_eq_exp_minus_1 push_bit_eq_mult)

lemma full_iff:
  fixes got :: u8
  assumes "n \<le> 4" and "\<And>i. bit got i \<Longrightarrow> i < n"
  shows "(ucast got :: u16) = push_bit (n) 1 - 1 \<longleftrightarrow> (\<forall>i < n. bit got i)"
proof
  assume eq: "(ucast got :: u16) = push_bit (n) 1 - 1"
  have "bit (ucast got :: u16) i" if "i < n" for i
    unfolding eq mask16 using that assms(1) by (simp add: bit_mask_iff)
  then show "\<forall>i < n. bit got i" by (auto simp: bit_simps)
next
  assume all: "\<forall>i < n. bit got i"
  show "(ucast got :: u16) = push_bit (n) 1 - 1"
    unfolding mask16 by (rule bit_word_eqI) (use all assms(2) in \<open>auto simp: bit_simps\<close>)
qed

section \<open>Runs\<close>

datatype slice_op = PushSlice slice_push | Recover

fun slice_step :: "slice_op \<Rightarrow> slice_reassembler \<Rightarrow> slice_reassembler \<times> slice_outcome option" where
  "slice_step (PushSlice p) s = (case slice_push_op p s of (s, out) \<Rightarrow> (s, Some out))"
| "slice_step Recover s = (request_recovery s, None)"

definition slice_run :: "slice_op list \<Rightarrow> slice_reassembler \<Rightarrow> slice_reassembler" where
  "slice_run ops s = fold (\<lambda>op s. fst (slice_step op s)) ops s"

text \<open>Slice \<open>i\<close> of the frame was pushed, and if \<open>key\<close> as one of a key frame.\<close>

definition slice_came :: "slice_op list \<Rightarrow> u32 \<Rightarrow> u32 \<Rightarrow> u8 \<Rightarrow> bool \<Rightarrow> nat \<Rightarrow> bool" where
  "slice_came ops e f n key i \<longleftrightarrow>
     (\<exists>p. PushSlice p \<in> set ops \<and> sp_epoch p = e \<and> sp_frame_id p = f \<and> sp_slice_count p = n \<and>
        unat (sp_slice_index p) = i \<and> (key \<longrightarrow> sp_is_key p))"

definition slices_ok :: "slice_op list \<Rightarrow> slice_reassembler \<Rightarrow> bool" where
  "slices_ok ops s \<longleftrightarrow>
     (sr_frame_id s = None \<longrightarrow> sr_got s = 0) \<and>
     (\<forall>f i. sr_frame_id s = Some f \<longrightarrow> bit (sr_got s) i \<longrightarrow>
        i < unat (sr_slice_count s) \<and> slice_came ops (sr_epoch s) f (sr_slice_count s) (sr_awaiting_key s) i)"

lemma slice_came_more: "slice_came ops e f n key i \<Longrightarrow> slice_came (ops @ [op]) e f n key i"
  by (auto simp: slice_came_def)

lemma slices_ok_more: "slices_ok ops s \<Longrightarrow> slices_ok (ops @ [op]) s"
  by (auto simp: slices_ok_def slice_came_more)

lemma slices_ok_empty: "sr_frame_id s = None \<Longrightarrow> sr_got s = 0 \<Longrightarrow> slices_ok ops s"
  by (simp add: slices_ok_def)

lemma drop_partial_fields [simp]:
  "sr_epoch (drop_partial_if_incomplete s) = sr_epoch s"
  "sr_awaiting_key (drop_partial_if_incomplete s) = sr_awaiting_key s"
  "sr_frame_id (drop_partial_if_incomplete s) = sr_frame_id s"
  "sr_slice_count (drop_partial_if_incomplete s) = sr_slice_count s"
  "sr_got (drop_partial_if_incomplete s) = sr_got s"
  by (simp_all add: drop_partial_if_incomplete_def)

lemma slices_ok_adopt: "slices_ok ops s \<Longrightarrow> slices_ok ops (adopt_epoch e s)"
  by (auto simp: adopt_epoch_def slices_ok_empty)

lemma adopt_epoch_epoch [simp]: "sr_epoch (adopt_epoch e s) = e"
  by (simp add: adopt_epoch_def)

text \<open>The frame a slice belongs to, once it is the current one.\<close>

definition current_frame :: "slice_push \<Rightarrow> slice_reassembler \<Rightarrow> bool" where
  "current_frame p s \<longleftrightarrow>
     sr_epoch s = sp_epoch p \<and> sr_frame_id s = Some (sp_frame_id p) \<and> sr_slice_count s = sp_slice_count p"

lemma start_frame_current:
  assumes "slices_ok ops s" and "sr_epoch s = sp_epoch p"
    and "sr_frame_id s = Some (sp_frame_id p) \<Longrightarrow> sr_slice_count s = sp_slice_count p"
  shows "current_frame p (start_frame p s) \<and> slices_ok ops (start_frame p s) \<and>
    sr_awaiting_key (start_frame p s) = sr_awaiting_key s"
  using assms by (auto simp: current_frame_def start_frame_def slices_ok_def)

lemma add_slice_sound:
  assumes "current_frame p s" and "slices_ok ops s" and "unat (sp_slice_count p) \<le> 4"
    and "unat (sp_slice_index p) < unat (sp_slice_count p)" and "sr_awaiting_key s \<longrightarrow> sp_is_key p"
    and "add_slice p s = (s', out)"
  shows "slices_ok (ops @ [PushSlice p]) s'" and "sr_epoch s' = sr_epoch s"
    and "out = FrameComplete \<Longrightarrow> i < unat (sp_slice_count p) \<Longrightarrow>
      slice_came (ops @ [PushSlice p]) (sp_epoch p) (sp_frame_id p) (sp_slice_count p) (sr_awaiting_key s) i"
    and "sr_awaiting_key s \<Longrightarrow> \<not> sr_awaiting_key s' \<Longrightarrow> out = FrameComplete"
proof -
  let ?got = "sr_got s OR push_bit (unat (sp_slice_index p)) 1"
  have came: "i < unat (sp_slice_count p) \<and>
      slice_came (ops @ [PushSlice p]) (sp_epoch p) (sp_frame_id p) (sp_slice_count p) (sr_awaiting_key s) i"
    if "bit ?got i" for i
  proof (cases "i = unat (sp_slice_index p)")
    case True
    then show ?thesis using assms(4,5) by (auto simp: slice_came_def)
  next
    case False
    then have "bit (sr_got s) i" using that by (auto simp: bit_simps)
    then show ?thesis
      using assms(1,2) slice_came_more by (auto simp: slices_ok_def current_frame_def)
  qed
  have full: "(ucast ?got :: u16) = push_bit (unat (sp_slice_count p)) 1 - 1 \<longleftrightarrow> (\<forall>i < unat (sp_slice_count p). bit ?got i)"
    using full_iff [of "unat (sp_slice_count p)" ?got] assms(3) came by blast
  show "slices_ok (ops @ [PushSlice p]) s'" and "sr_epoch s' = sr_epoch s"
      and "sr_awaiting_key s \<Longrightarrow> \<not> sr_awaiting_key s' \<Longrightarrow> out = FrameComplete"
    using assms(1,6) came
    by (auto simp: add_slice_def Let_def slices_ok_def current_frame_def split: if_splits)
  show "slice_came (ops @ [PushSlice p]) (sp_epoch p) (sp_frame_id p) (sp_slice_count p) (sr_awaiting_key s) i"
    if "out = FrameComplete" "i < unat (sp_slice_count p)"
    using assms(6) that full came by (auto simp: add_slice_def Let_def split: if_splits)
qed

definition well_formed_slice :: "slice_push \<Rightarrow> bool" where
  "well_formed_slice p \<longleftrightarrow>
     sp_slice_count p \<noteq> 0 \<and> sp_slice_count p \<le> MAX_SLICES \<and> sp_slice_index p < sp_slice_count p"

text \<open>Whether a push meets the recovery gate: it is closed, or the push closes it by its epoch.\<close>

definition gate_closed :: "slice_push \<Rightarrow> slice_reassembler \<Rightarrow> bool" where
  "gate_closed p s \<longleftrightarrow> sr_awaiting_key s \<or> sp_epoch p \<noteq> sr_epoch s"

lemma adopt_awaiting: "sr_awaiting_key (adopt_epoch (sp_epoch p) s) = gate_closed p s"
  by (auto simp: adopt_epoch_def gate_closed_def)

lemma push_cases:
  assumes "slice_push_op p s = (s', out)"
  obtains (skip) "s' = s \<or> s' = adopt_epoch (sp_epoch p) s" "out \<noteq> FrameComplete" "out \<noteq> Pending"
  | (add) "well_formed_slice p" "gate_closed p s \<longrightarrow> sp_is_key p"
      "sr_frame_id (adopt_epoch (sp_epoch p) s) = Some (sp_frame_id p) \<Longrightarrow>
        sr_slice_count (adopt_epoch (sp_epoch p) s) = sp_slice_count p"
      "add_slice p (start_frame p (adopt_epoch (sp_epoch p) s)) = (s', out)"
  using assms adopt_awaiting [of p s]
  by (auto simp: slice_push_op_def Let_def well_formed_slice_def not_le split: if_splits)

lemma push_sound:
  assumes "slices_ok ops s" and "slice_push_op p s = (s', out)"
  shows "slices_ok (ops @ [PushSlice p]) s'"
    and "out = FrameComplete \<Longrightarrow> i < unat (sp_slice_count p) \<Longrightarrow>
      slice_came (ops @ [PushSlice p]) (sp_epoch p) (sp_frame_id p) (sp_slice_count p) (gate_closed p s) i"
    and "sr_awaiting_key s \<or> sr_epoch s' \<noteq> sr_epoch s \<Longrightarrow> \<not> sr_awaiting_key s' \<Longrightarrow> out = FrameComplete \<and> sr_epoch s' = sp_epoch p \<and> sp_is_key p"
    and "\<not> gate_closed p s \<Longrightarrow> sr_epoch s' = sr_epoch s"
proof -
  let ?a = "adopt_epoch (sp_epoch p) s"
  have a: "slices_ok ops ?a" using assms(1) by (rule slices_ok_adopt)
  have "slices_ok (ops @ [PushSlice p]) s' \<and>
    (out = FrameComplete \<longrightarrow> i < unat (sp_slice_count p) \<longrightarrow>
      slice_came (ops @ [PushSlice p]) (sp_epoch p) (sp_frame_id p) (sp_slice_count p) (gate_closed p s) i) \<and>
    (sr_awaiting_key s \<or> sr_epoch s' \<noteq> sr_epoch s \<longrightarrow> \<not> sr_awaiting_key s' \<longrightarrow> out = FrameComplete \<and> sr_epoch s' = sp_epoch p \<and> sp_is_key p) \<and>
    (\<not> gate_closed p s \<longrightarrow> sr_epoch s' = sr_epoch s)"
    using assms(2)
  proof (cases rule: push_cases)
    case skip
    then show ?thesis
      using a assms(1) slices_ok_more adopt_awaiting [of p s]
      by (auto simp: gate_closed_def adopt_epoch_def split: if_splits)
  next
    case add
    let ?s = "start_frame p ?a"
    have cur: "current_frame p ?s" "slices_ok ops ?s" "sr_awaiting_key ?s = gate_closed p s"
      using start_frame_current [OF a _ add(3)] adopt_awaiting [of p s] by auto
    have wf: "unat (sp_slice_count p) \<le> 4" "unat (sp_slice_index p) < unat (sp_slice_count p)"
      using add(1) by (auto simp: well_formed_slice_def MAX_SLICES_def word_le_nat_alt word_less_nat_alt)
    have key: "sr_awaiting_key ?s \<longrightarrow> sp_is_key p" using add(2) cur(3) by simp
    note sound = add_slice_sound [OF cur(1,2) wf key add(4)]
    show ?thesis
      using sound cur add(2) by (auto simp: current_frame_def gate_closed_def)
  qed
  then show "slices_ok (ops @ [PushSlice p]) s'"
    and "out = FrameComplete \<Longrightarrow> i < unat (sp_slice_count p) \<Longrightarrow>
      slice_came (ops @ [PushSlice p]) (sp_epoch p) (sp_frame_id p) (sp_slice_count p) (gate_closed p s) i"
    and "sr_awaiting_key s \<or> sr_epoch s' \<noteq> sr_epoch s \<Longrightarrow> \<not> sr_awaiting_key s' \<Longrightarrow> out = FrameComplete \<and> sr_epoch s' = sp_epoch p \<and> sp_is_key p"
    and "\<not> gate_closed p s \<Longrightarrow> sr_epoch s' = sr_epoch s"
    by blast+
qed

lemma slice_run_append: "slice_run (ops @ [op]) s = fst (slice_step op (slice_run ops s))"
  by (simp add: slice_run_def)

lemma slice_run_ok: "slices_ok ops (slice_run ops (slice_new e))"
proof (induction ops rule: rev_induct)
  case Nil
  then show ?case by (simp add: slice_run_def slice_new_def slices_ok_empty)
next
  case (snoc op ops)
  show ?case
  proof (cases op)
    case (PushSlice p)
    obtain s' out where "slice_push_op p (slice_run ops (slice_new e)) = (s', out)" by fastforce
    then show ?thesis using push_sound(1) [OF snoc] PushSlice by (simp add: slice_run_append)
  next
    case Recover
    then show ?thesis by (simp add: slice_run_append request_recovery_def slices_ok_empty)
  qed
qed

text \<open>
  The slice reassembler, after any sequence of pushes and recovery requests: a push completes a frame only when all
  slices of that frame were pushed with the same slice count in its epoch, and, when the push met the recovery gate (a
  key frame is awaited, or the epoch is new), all of them as slices of a key frame. A gate that is
  closed, or that the push closes by moving to a new epoch, is open after the push only if it completed such a frame.
\<close>

theorem slice_reassembly_sound:
  assumes "slice_push_op p (slice_run ops (slice_new e0)) = (s', out)"
  shows "(out = FrameComplete \<longrightarrow> (\<forall>i < unat (sp_slice_count p).
      slice_came (ops @ [PushSlice p]) (sp_epoch p) (sp_frame_id p) (sp_slice_count p)
        (gate_closed p (slice_run ops (slice_new e0))) i)) \<and>
    (sr_awaiting_key (slice_run ops (slice_new e0)) \<or> sr_epoch s' \<noteq> sr_epoch (slice_run ops (slice_new e0)) \<longrightarrow>
      \<not> sr_awaiting_key s' \<longrightarrow> out = FrameComplete \<and> sr_epoch s' = sp_epoch p \<and> sp_is_key p)"
  using push_sound(2,3) [OF slice_run_ok assms] by blast

theorem slice_reassembly_sound_witness:
  "slice_came [PushSlice \<lparr>sp_epoch = 1, sp_frame_id = 5, sp_slice_index = 1, sp_slice_count = 2, sp_is_key = True\<rparr>,
     PushSlice \<lparr>sp_epoch = 1, sp_frame_id = 5, sp_slice_index = 0, sp_slice_count = 2, sp_is_key = True\<rparr>] 1 5 2 True 1"
proof -
  let ?p = "\<lambda>i. \<lparr>sp_epoch = 1, sp_frame_id = 5, sp_slice_index = i, sp_slice_count = 2, sp_is_key = True\<rparr>"
  have "slice_push_op (?p 0) (slice_run [PushSlice (?p 1)] (slice_new 1)) =
      (\<lparr>sr_epoch = 1, sr_awaiting_key = False, sr_frame_id = None, sr_slice_count = 2, sr_got = 0, sr_dropped_partial = 0\<rparr>,
       FrameComplete)"
    by code_simp
  moreover have "gate_closed (?p 0) (slice_run [PushSlice (?p 1)] (slice_new 1))" by code_simp
  ultimately show ?thesis using slice_reassembly_sound [of "?p 0" "[PushSlice (?p 1)]" 1] by fastforce
qed

section \<open>Every frame completes\<close>

fun slice_outcomes :: "slice_push list \<Rightarrow> slice_reassembler \<Rightarrow> slice_outcome list" where
  "slice_outcomes [] s = []"
| "slice_outcomes (p # ps) s = (case slice_push_op p s of (s, out) \<Rightarrow> out # slice_outcomes ps s)"

definition key_slice :: "u32 \<Rightarrow> u32 \<Rightarrow> nat \<Rightarrow> nat \<Rightarrow> slice_push" where
  "key_slice e f n i =
     \<lparr>sp_epoch = e, sp_frame_id = f, sp_slice_index = of_nat i, sp_slice_count = of_nat n, sp_is_key = True\<rparr>"

lemma unat_small_u8: "k \<le> 4 \<Longrightarrow> unat (of_nat k :: u8) = k"
  by (simp add: unat_of_nat)

lemma key_slice_well_formed: "i < n \<Longrightarrow> n \<le> 4 \<Longrightarrow> well_formed_slice (key_slice e f n i)"
  by (simp add: well_formed_slice_def key_slice_def MAX_SLICES_def word_less_nat_alt word_le_nat_alt unat_eq_0 [symmetric]
    unat_small_u8)

text \<open>The slices \<open>js\<close> of the frame are in.\<close>

definition collecting :: "u32 \<Rightarrow> u32 \<Rightarrow> nat \<Rightarrow> nat set \<Rightarrow> slice_reassembler \<Rightarrow> bool" where
  "collecting e f n js s \<longleftrightarrow>
     sr_epoch s = e \<and> sr_frame_id s = Some f \<and> sr_slice_count s = of_nat n \<and> (\<forall>i. bit (sr_got s) i \<longleftrightarrow> i \<in> js)"

lemma add_key_slice:
  assumes "collecting e f n js s" and "js \<subseteq> {..<n}" and "i < n" and "n \<le> 4"
  shows "\<exists>s'. add_slice (key_slice e f n i) s = (s', if insert i js = {..<n} then FrameComplete else Pending) \<and>
    (insert i js \<noteq> {..<n} \<longrightarrow> collecting e f n (insert i js) s')"
proof -
  let ?got = "sr_got s OR push_bit i 1"
  have bits: "bit ?got k \<longleftrightarrow> k \<in> insert i js" for k
    using assms by (auto simp: collecting_def bit_simps)
  have sub: "k < n" if "bit ?got k" for k using that assms(2,3) unfolding bits by auto
  have "(ucast ?got :: u16) = push_bit n 1 - 1 \<longleftrightarrow> (\<forall>k < n. bit ?got k)"
    by (rule full_iff [OF assms(4) sub])
  also have "\<dots> \<longleftrightarrow> insert i js = {..<n}"
    unfolding bits using assms(2,3) by auto
  finally have full: "(ucast ?got :: u16) = push_bit n 1 - 1 \<longleftrightarrow> insert i js = {..<n}" .
  have fields: "unat (sp_slice_index (key_slice e f n i)) = i" "unat (sp_slice_count (key_slice e f n i)) = n"
    using assms(3,4) by (simp_all add: key_slice_def unat_small_u8)
  show ?thesis
    unfolding add_slice_def Let_def fields slice_reassembler.select_convs slice_reassembler.update_convs
    using assms(1) bits full by (auto simp: collecting_def)
qed

lemma push_collecting:
  assumes "collecting e f n js s" and "i < n" and "n \<le> 4"
  shows "slice_push_op (key_slice e f n i) s = add_slice (key_slice e f n i) s"
  using key_slice_well_formed [OF assms(2,3), of e f] assms(1)
  by (auto simp: slice_push_op_def well_formed_slice_def Let_def adopt_epoch_def start_frame_def collecting_def key_slice_def)

lemma outcomes_collecting:
  assumes "n \<le> 4" and "collecting e f n js s" and "js \<subseteq> {..<n}" and "distinct is" and "set is = {..<n} - js" and "is \<noteq> []"
  shows "slice_outcomes (map (key_slice e f n) is) s = replicate (length is - 1) Pending @ [FrameComplete]"
  using assms(2-)
proof (induction "is" arbitrary: js s)
  case (Cons i "is")
  have i: "i < n" using Cons.prems(4) by auto
  have op: "slice_push_op (key_slice e f n i) s = add_slice (key_slice e f n i) s"
    by (rule push_collecting [OF Cons.prems(1) i assms(1)])
  obtain s' where s': "slice_push_op (key_slice e f n i) s = (s', if insert i js = {..<n} then FrameComplete else Pending)"
      "insert i js \<noteq> {..<n} \<longrightarrow> collecting e f n (insert i js) s'"
    using add_key_slice [OF Cons.prems(1,2) i assms(1)] unfolding op by blast
  have rest: "set is = {..<n} - insert i js" using Cons.prems(3,4) by auto
  show ?case
  proof (cases "is = []")
    case True
    then have "insert i js = {..<n}" using rest Cons.prems(2) i by auto
    then show ?thesis using True s'(1) by simp
  next
    case False
    have more: "insert i js \<noteq> {..<n}"
    proof
      assume "insert i js = {..<n}"
      then have "set is = {}" unfolding rest by simp
      then show False using False by simp
    qed
    have "slice_outcomes (map (key_slice e f n) is) s' = replicate (length is - 1) Pending @ [FrameComplete]"
    proof (rule Cons.IH)
      show "collecting e f n (insert i js) s'" using s'(2) more by blast
      show "insert i js \<subseteq> {..<n}" using Cons.prems(2) i by blast
      show "distinct is" using Cons.prems(3) by simp
    qed (fact rest False)+
    moreover have "slice_push_op (key_slice e f n i) s = (s', Pending)" using s'(1) more by (simp only: if_False)
    moreover obtain k where "length is = Suc k" using False by (cases "is") auto
    ultimately show ?thesis by simp
  qed
qed simp

text \<open>
  A key frame of one to four slices completes whatever the order of its slices, from every state that is not already
  collecting that frame: each push but the last is pending, the last one completes the frame.
\<close>

theorem slice_frame_completes:
  assumes "1 \<le> n" and "n \<le> 4" and "distinct is" and "set is = {..<n}"
    and "sr_frame_id s \<noteq> Some f \<or> sr_epoch s \<noteq> e"
  shows "slice_outcomes (map (key_slice e f n) is) s = replicate (n - 1) Pending @ [FrameComplete]"
proof -
  have len: "length is = n" using assms(3,4) distinct_card [of "is"] by simp
  obtain i js where "is": "is = i # js" using len assms(1) by (cases "is") auto
  then have i: "i < n" using assms(4) by auto
  let ?p = "key_slice e f n i" and ?s = "start_frame (key_slice e f n i) (adopt_epoch e s)"
  have "sr_frame_id (adopt_epoch e s) \<noteq> Some f" using assms(5) by (auto simp: adopt_epoch_def)
  then have col: "collecting e f n {} ?s" and op: "slice_push_op ?p s = add_slice ?p ?s"
    using key_slice_well_formed [OF i assms(2), of e f]
    by (auto simp: collecting_def start_frame_def key_slice_def slice_push_op_def well_formed_slice_def Let_def)
  have "slice_outcomes (map (key_slice e f n) is) s = slice_outcomes (map (key_slice e f n) is) ?s"
    using op push_collecting [OF col i assms(2)] by (simp add: "is")
  then show ?thesis
    using outcomes_collecting [OF assms(2) col, of "is"] assms(3,4) len "is" by simp
qed

theorem slice_frame_completes_witness:
  "slice_outcomes (map (key_slice 9 5 3) [2, 0, 1]) (slice_new 1) = [Pending, Pending, FrameComplete]"
proof -
  have "set [2, 0, 1] = {..<3::nat}" by auto
  then show ?thesis
    using slice_frame_completes [of 3 "[2, 0, 1]" "slice_new 1" 5 9] by (simp add: slice_new_def numeral_2_eq_2)
qed

end
