(* ===== verification/F64.thy ===== *)
theory F64
  imports Prelude Complex_Main "HOL-Library.Log_Nat"
begin

text \<open>
  Rust's \<open>f64\<close> (IEEE 754 binary64) as the rate controllers use it. A finite value is the rational number it denotes; \<open>rnd\<close>
  rounds an exact result to a multiple of the unit in the last place, ties to even, and \<open>f64_of\<close> adds the overflow to
  infinity. The two zeros are one value: no controller divides by zero or reads a sign bit. The locale \<open>rounding\<close> is what the
  controllers need of the rounding, interpreted on \<open>rnd\<close>.
\<close>

section \<open>Rounding to nearest, ties to even\<close>

definition flog2 :: "rat \<Rightarrow> int" where
  "flog2 q = (let (n, d) = quotient_of q; k = bitlen n - bitlen d in if 2 powi k \<le> q then k else k - 1)"

definition round_half_even :: "rat \<Rightarrow> int" where
  "round_half_even q = (let f = \<lfloor>q\<rfloor>; r = q - of_int f
    in if r < 1 / 2 then f else if 1 / 2 < r then f + 1 else if even f then f else f + 1)"

definition ulp_exp :: "rat \<Rightarrow> int" where
  "ulp_exp q = max (- 1074) (flog2 q - 52)"

definition rnd_pos :: "rat \<Rightarrow> rat" where
  "rnd_pos q = (let e = ulp_exp q in of_int (round_half_even (q / 2 powi e)) * 2 powi e)"

definition rnd :: "rat \<Rightarrow> rat" where
  "rnd q = (if q < 0 then - rnd_pos (- q) else if q = 0 then 0 else rnd_pos q)"

lemma powi_pos [simp]: "0 < (2 :: rat) powi k"
  by (simp add: zero_less_power_int)

lemma powi_mono: "j \<le> k \<Longrightarrow> (2 :: rat) powi j \<le> 2 powi k"
  by (simp add: power_int_increasing)

lemma powi_less_iff: "(2 :: rat) powi j < 2 powi k \<longleftrightarrow> j < k"
  by (metis linorder_not_le powi_mono power_int_strict_increasing one_less_numeral_iff semiring_norm(76))

lemma powi_add: "(2 :: rat) powi (j + k) = 2 powi j * 2 powi k"
  by (simp add: power_int_add)

lemma bitlen_powi:
  assumes "0 < n"
  shows "(2 :: rat) powi (bitlen n - 1) \<le> of_int n" "of_int n < (2 :: rat) powi bitlen n"
proof -
  have b: "2 ^ nat (bitlen n - 1) \<le> n" "n < 2 ^ nat (bitlen n)" using bitlen_bounds [OF assms] by auto
  have k: "0 \<le> bitlen n - 1" using assms bitlen_le_iff_power [of n 0] by (auto simp: bitlen_nonneg)
  have "(2 :: rat) powi (bitlen n - 1) = of_int (2 ^ nat (bitlen n - 1))" using k by (simp add: power_int_def)
  then show "(2 :: rat) powi (bitlen n - 1) \<le> of_int n" using b(1) by (simp only: of_int_le_iff)
  have "(2 :: rat) powi bitlen n = of_int (2 ^ nat (bitlen n))" by (simp add: power_int_def bitlen_nonneg)
  then show "of_int n < (2 :: rat) powi bitlen n" using b(2) by (simp only: of_int_less_iff)
qed

lemma flog2_bounds:
  assumes "0 < q"
  shows "2 powi flog2 q \<le> q" "q < 2 powi (flog2 q + 1)"
proof -
  obtain n d where nd: "quotient_of q = (n, d)" by (cases "quotient_of q")
  have d: "0 < d" and q: "q = of_int n / of_int d"
    using nd quotient_of_denom_pos quotient_of_div by auto
  have n: "0 < n" using assms d unfolding q by (simp add: zero_less_divide_iff)
  let ?k = "bitlen n - bitlen d"
  have low: "2 powi (?k - 1) < q"
  proof -
    have "(2 :: rat) powi (?k - 1) * of_int d < 2 powi (?k - 1) * 2 powi bitlen d"
      using bitlen_powi(2) [OF d] by (simp add: mult_strict_left_mono)
    also have "\<dots> = 2 powi (bitlen n - 1)" by (simp flip: powi_add)
    also have "\<dots> \<le> of_int n" by (rule bitlen_powi(1) [OF n])
    finally show ?thesis using d by (simp add: q pos_less_divide_eq)
  qed
  have high: "q < 2 powi (?k + 1)"
  proof -
    have "(of_int n :: rat) < 2 powi bitlen n" by (rule bitlen_powi(2) [OF n])
    also have "\<dots> = 2 powi (?k + 1) * 2 powi (bitlen d - 1)" by (simp flip: powi_add)
    also have "\<dots> \<le> 2 powi (?k + 1) * of_int d"
      using bitlen_powi(1) [OF d] by (simp add: mult_left_mono)
    finally show ?thesis using d by (simp add: q pos_divide_less_eq)
  qed
  show "2 powi flog2 q \<le> q" "q < 2 powi (flog2 q + 1)"
    using low high by (auto simp: flog2_def nd Let_def)
qed

lemma flog2_less:
  assumes "0 < q" "q < 2 powi k"
  shows "flog2 q < k"
  using le_less_trans [OF flog2_bounds(1) [OF assms(1)] assms(2)] by (simp add: powi_less_iff)

lemma flog2_mono:
  assumes "0 < x" "x \<le> y"
  shows "flog2 x \<le> flog2 y"
  using flog2_less [OF assms(1), of "flog2 y + 1"] flog2_bounds(2) [of y] assms by linarith

lemma round_half_even_bounds: "\<lfloor>q\<rfloor> \<le> round_half_even q" "round_half_even q \<le> \<lfloor>q\<rfloor> + 1"
  by (auto simp: round_half_even_def Let_def)

lemma round_half_even_int [simp]: "round_half_even (of_int n) = n"
  by (simp add: round_half_even_def)

lemma round_half_even_mono:
  assumes "x \<le> y"
  shows "round_half_even x \<le> round_half_even y"
proof (cases "\<lfloor>x\<rfloor> = \<lfloor>y\<rfloor>")
  case True
  then show ?thesis using assms by (simp add: round_half_even_def Let_def)
next
  case False
  then have "\<lfloor>x\<rfloor> + 1 \<le> \<lfloor>y\<rfloor>" using floor_mono [OF assms] by simp
  then show ?thesis using round_half_even_bounds(2) [of x] round_half_even_bounds(1) [of y] by linarith
qed

lemma rnd_pos_mono:
  assumes "0 < x" "x \<le> y"
  shows "rnd_pos x \<le> rnd_pos y"
proof -
  let ?e = "ulp_exp x" and ?f = "ulp_exp y"
  have y: "0 < y" using assms by simp
  have ef: "?e \<le> ?f" using flog2_mono [OF assms] by (simp add: ulp_exp_def)
  show ?thesis
  proof (cases "?e = ?f")
    case True
    have "x / 2 powi ?f \<le> y / 2 powi ?f" using assms by (simp add: divide_right_mono)
    from round_half_even_mono [OF this] show ?thesis
      by (simp add: rnd_pos_def Let_def True mult_right_mono)
  next
    case False
    have fy: "?f = flog2 y - 52" using False ef by (auto simp: ulp_exp_def max_def split: if_splits)
    have "flog2 x + 1 \<le> ?e + 53" by (simp add: ulp_exp_def)
    then have "x < 2 powi (?e + 53)"
      using flog2_bounds(2) [OF assms(1)] powi_mono by (meson less_le_trans)
    then have "x / 2 powi ?e \<le> of_int (2 ^ 53)"
      by (simp add: pos_divide_le_eq powi_add mult.commute)
    from round_half_even_mono [OF this] have "round_half_even (x / 2 powi ?e) \<le> 2 ^ 53"
      by (simp only: round_half_even_int)
    then have "(of_int (round_half_even (x / 2 powi ?e)) :: rat) \<le> 2 powi 53"
      by (metis (mono_tags) of_int_le_iff of_int_numeral of_int_power power_int_numeral)
    then have "rnd_pos x \<le> 2 powi 53 * 2 powi ?e"
      by (simp add: rnd_pos_def Let_def mult_right_mono del: power_int_numeral)
    also have "\<dots> \<le> 2 powi 52 * 2 powi ?f"
      using powi_mono [of "53 + ?e" "52 + ?f"] False ef by (simp add: powi_add del: power_int_numeral)
    also have "\<dots> \<le> rnd_pos y"
    proof -
      have "2 powi (52 + ?f) \<le> y" using flog2_bounds(1) [OF y] fy by simp
      then have "of_int (2 ^ 52) \<le> y / 2 powi ?f" by (simp add: pos_le_divide_eq powi_add)
      from round_half_even_mono [OF this] have "2 ^ 52 \<le> round_half_even (y / 2 powi ?f)"
        by (simp only: round_half_even_int)
      then have "2 powi 52 \<le> (of_int (round_half_even (y / 2 powi ?f)) :: rat)"
        by (metis (mono_tags) of_int_le_iff of_int_numeral of_int_power power_int_numeral)
      then show ?thesis by (simp add: rnd_pos_def Let_def mult_right_mono del: power_int_numeral)
    qed
    finally show ?thesis .
  qed
qed

text \<open>A value whose significand fits 53 bits is its own rounding.\<close>

lemma rnd_pos_exact:
  assumes "0 < n" "n \<le> 2 ^ 53" "- 1074 \<le> e"
  shows "rnd_pos (of_int n * 2 powi e) = of_int n * 2 powi e"
proof -
  let ?q = "of_int n * 2 powi e :: rat" and ?u = "ulp_exp (of_int n * 2 powi e)"
  have q: "0 < ?q" using assms(1) by simp
  have "\<exists>k :: int. ?q = of_int k * 2 powi ?u"
  proof (cases "?u \<le> e")
    case True
    have "(2 :: rat) powi e = 2 powi (e - ?u) * 2 powi ?u" by (simp flip: powi_add)
    also have "(2 :: rat) powi (e - ?u) = of_int (2 ^ nat (e - ?u))" using True by (simp add: power_int_def)
    finally show ?thesis by (metis mult.assoc of_int_mult)
  next
    case False
    have "n = 2 ^ 53"
    proof (rule ccontr)
      assume "n \<noteq> 2 ^ 53"
      then have "(of_int n :: rat) < of_int (2 ^ 53)" using assms(2) by (simp only: of_int_less_iff)
      then have "?q < 2 powi (53 + e)" by (simp add: powi_add)
      from flog2_less [OF q this] show False using False assms(3) by (simp add: ulp_exp_def)
    qed
    then have p: "?q = 2 powi (53 + e)" by (simp add: powi_add)
    have "flog2 ?q < 54 + e" by (rule flog2_less [OF q]) (simp add: p powi_less_iff)
    then have "?u = e + 1" using False assms(3) by (auto simp: ulp_exp_def)
    then have "?q = of_int (2 ^ 52) * 2 powi ?u"
      using powi_add [of 52 "e + 1"] by (simp add: p add.commute add.left_commute)
    then show ?thesis by blast
  qed
  then obtain k :: int where k: "?q = of_int k * 2 powi ?u" ..
  then have "?q / 2 powi ?u = of_int k" by (simp add: divide_eq_eq)
  then show ?thesis using k by (simp add: rnd_pos_def Let_def)
qed

lemma rnd_of_pos: "0 < q \<Longrightarrow> rnd q = rnd_pos q"
  by (simp add: rnd_def)

lemma rnd_exact:
  assumes "\<bar>n\<bar> \<le> 2 ^ 53" "- 1074 \<le> e"
  shows "rnd (of_int n * 2 powi e) = of_int n * 2 powi e"
proof (cases n "0 :: int" rule: linorder_cases)
  case less
  then have "of_int n * (2 :: rat) powi e < 0" by (simp add: mult_neg_pos)
  then show ?thesis using rnd_pos_exact [of "- n" e] less assms by (simp add: rnd_def)
next
  case equal
  then show ?thesis by (simp add: rnd_def)
next
  case greater
  then have "0 < of_int n * (2 :: rat) powi e" by simp
  then have "rnd (of_int n * 2 powi e) = rnd_pos (of_int n * 2 powi e)" by (rule rnd_of_pos)
  then show ?thesis using rnd_pos_exact [of n e] greater assms by simp
qed

lemma rnd_pos_nonneg: "0 \<le> q \<Longrightarrow> 0 \<le> rnd_pos q"
  using round_half_even_mono [of 0 "q / 2 powi ulp_exp q"] round_half_even_int [of 0]
  by (simp add: rnd_pos_def Let_def divide_nonneg_nonneg)

lemma rnd_mono: "x \<le> y \<Longrightarrow> rnd x \<le> rnd y"
  using rnd_pos_mono [of x y] rnd_pos_mono [of "- y" "- x"] rnd_pos_nonneg [of y] rnd_pos_nonneg [of "- x"]
  by (auto simp: rnd_def)

section \<open>What a controller relies on\<close>

text \<open>Rounding is monotone and exact on values with a significand of 53 bits.\<close>

locale rounding =
  fixes r :: "rat \<Rightarrow> rat"
  assumes r_mono: "x \<le> y \<Longrightarrow> r x \<le> r y"
    and r_exact: "\<bar>n\<bar> \<le> 2 ^ 53 \<Longrightarrow> - 1074 \<le> e \<Longrightarrow> r (of_int n * 2 powi e) = of_int n * 2 powi e"
begin

lemma r_int: "\<bar>n\<bar> \<le> 2 ^ 53 \<Longrightarrow> r (of_int n) = of_int n"
  using r_exact [of n 0] by simp

lemma r_nat: "n \<le> 2 ^ 53 \<Longrightarrow> r (of_nat n) = of_nat n"
  using r_int [of "int n"] by simp

lemma r_dyadic: "\<bar>n\<bar> \<le> 2 ^ 53 \<Longrightarrow> k \<le> 1074 \<Longrightarrow> r (of_int n / 2 ^ k) = of_int n / 2 ^ k"
  using r_exact [of n "- int k"] by (simp add: power_int_minus divide_inverse)

lemma r_0 [simp]: "r 0 = 0"
  using r_int [of 0] by simp

lemma r_nonneg: "0 \<le> x \<Longrightarrow> 0 \<le> r x"
  using r_mono [of 0 x] by simp

lemma r_le_nat: "x \<le> of_nat n \<Longrightarrow> n \<le> 2 ^ 53 \<Longrightarrow> r x \<le> of_nat n"
  using r_mono [of x "of_nat n"] by (simp add: r_nat)

lemma r_ge_nat: "of_nat n \<le> x \<Longrightarrow> n \<le> 2 ^ 53 \<Longrightarrow> of_nat n \<le> r x"
  using r_mono [of "of_nat n" x] by (simp add: r_nat)

text \<open>A comparison of rounded values decides the exact comparison when the values are not too close.\<close>

lemma r_less_gap: "x + g \<le> y \<Longrightarrow> r (y - g) < r y \<Longrightarrow> r x < r y"
  using r_mono [of x "y - g"] by simp

end

interpretation b64: rounding rnd
  using rnd_mono rnd_exact by unfold_locales

section \<open>Values and operations\<close>

datatype f64 = F_NaN | F_inf bool | Fin rat

text \<open>\<open>F_inf True\<close> is negative infinity. An exact result is rounded, and overflows from \<open>2\<^sup>1\<^sup>0\<^sup>2\<^sup>4\<close> on.\<close>

definition f64_of :: "rat \<Rightarrow> f64" where
  "f64_of q = (let v = rnd q in if v = 0 \<or> flog2 \<bar>v\<bar> \<le> 1023 then Fin v else F_inf (q < 0))"

text \<open>\<open>n as f64\<close> and \<open>f64::from\<close> for unsigned integers; a decimal literal is the \<open>f64_of\<close> of its value.\<close>

definition f_of_word :: "'a :: len word \<Rightarrow> f64" where
  "f_of_word w = f64_of (of_int (uint w))"

fun f_is_finite :: "f64 \<Rightarrow> bool" where
  "f_is_finite (Fin _) = True"
| "f_is_finite _ = False"

fun f_lt :: "f64 \<Rightarrow> f64 \<Rightarrow> bool" where
  "f_lt (Fin x) (Fin y) = (x < y)"
| "f_lt (F_inf s) (Fin _) = s"
| "f_lt (Fin _) (F_inf t) = (\<not> t)"
| "f_lt (F_inf s) (F_inf t) = (s \<and> \<not> t)"
| "f_lt _ _ = False"

fun f_le :: "f64 \<Rightarrow> f64 \<Rightarrow> bool" where
  "f_le (Fin x) (Fin y) = (x \<le> y)"
| "f_le (F_inf s) (Fin _) = s"
| "f_le (Fin _) (F_inf t) = (\<not> t)"
| "f_le (F_inf s) (F_inf t) = (s \<or> \<not> t)"
| "f_le _ _ = False"

fun f_add :: "f64 \<Rightarrow> f64 \<Rightarrow> f64" where
  "f_add (Fin x) (Fin y) = f64_of (x + y)"
| "f_add (F_inf s) (Fin _) = F_inf s"
| "f_add (Fin _) (F_inf t) = F_inf t"
| "f_add (F_inf s) (F_inf t) = (if s = t then F_inf s else F_NaN)"
| "f_add _ _ = F_NaN"

fun f_neg :: "f64 \<Rightarrow> f64" where
  "f_neg (Fin x) = Fin (- x)"
| "f_neg (F_inf s) = F_inf (\<not> s)"
| "f_neg F_NaN = F_NaN"

definition f_sub :: "f64 \<Rightarrow> f64 \<Rightarrow> f64" where
  "f_sub a b = f_add a (f_neg b)"

fun f_mul :: "f64 \<Rightarrow> f64 \<Rightarrow> f64" where
  "f_mul (Fin x) (Fin y) = f64_of (x * y)"
| "f_mul (F_inf s) (Fin y) = (if y = 0 then F_NaN else F_inf (s \<noteq> (y < 0)))"
| "f_mul (Fin x) (F_inf t) = (if x = 0 then F_NaN else F_inf ((x < 0) \<noteq> t))"
| "f_mul (F_inf s) (F_inf t) = F_inf (s \<noteq> t)"
| "f_mul _ _ = F_NaN"

fun f_div :: "f64 \<Rightarrow> f64 \<Rightarrow> f64" where
  "f_div (Fin x) (Fin y) = (if y = 0 then if x = 0 then F_NaN else F_inf (x < 0) else f64_of (x / y))"
| "f_div (F_inf s) (Fin y) = F_inf (s \<noteq> (y < 0))"
| "f_div (Fin _) (F_inf _) = Fin 0"
| "f_div _ _ = F_NaN"

fun f_abs :: "f64 \<Rightarrow> f64" where
  "f_abs (Fin x) = Fin \<bar>x\<bar>"
| "f_abs (F_inf _) = F_inf False"
| "f_abs F_NaN = F_NaN"

text \<open>
  \<open>f64::min\<close> and \<open>max\<close> return the other operand when one is not a number; \<open>clamp\<close> keeps it, and panics unless its bounds
  are ordered, as \<open>Ord::clamp\<close> does.
\<close>

definition f_min :: "f64 \<Rightarrow> f64 \<Rightarrow> f64" where
  "f_min a b = (if a = F_NaN then b else if b = F_NaN then a else if f_lt b a then b else a)"

definition f_max :: "f64 \<Rightarrow> f64 \<Rightarrow> f64" where
  "f_max a b = (if a = F_NaN then b else if b = F_NaN then a else if f_lt a b then b else a)"

definition f_clamp :: "f64 \<Rightarrow> f64 \<Rightarrow> f64 \<Rightarrow> f64 option" where
  "f_clamp x lo hi = (if f_le lo hi
    then let y = if f_lt x lo then lo else x in Some (if f_lt hi y then hi else y) else None)"

definition ord_clamp :: "'a :: linorder \<Rightarrow> 'a \<Rightarrow> 'a \<Rightarrow> 'a option" where
  "ord_clamp x lo hi = (if lo \<le> hi then Some (if x < lo then lo else if hi < x then hi else x) else None)"

text \<open>\<open>f64::round\<close>: to the nearest integer, halves away from zero.\<close>

fun f_round :: "f64 \<Rightarrow> f64" where
  "f_round (Fin x) = f64_of (if 0 \<le> x then of_int \<lfloor>x + 1 / 2\<rfloor> else - of_int \<lfloor>1 / 2 - x\<rfloor>)"
| "f_round v = v"

text \<open>\<open>as u32\<close>, \<open>as u8\<close>: truncation, saturating at both ends, and 0 for what is not a number.\<close>

fun f_to_word :: "f64 \<Rightarrow> 'a :: len word" where
  "f_to_word (Fin x) = (if x \<le> 0 then 0 else if 2 ^ LENGTH('a) \<le> \<lfloor>x\<rfloor> then - 1 else of_int \<lfloor>x\<rfloor>)"
| "f_to_word (F_inf s) = (if s then 0 else - 1)"
| "f_to_word F_NaN = 0"

section \<open>Exact and bounded results\<close>

lemma unat_sat_add_min: "unat (sat_add a b) = min (unat a + unat b) (2 ^ LENGTH('a) - 1)"
  for a b :: "'a :: len word"
  by (auto simp: sat_add_def unat_word_ariths unsigned_minus_1_eq_mask mask_eq_exp_minus_1)

lemma ord_clamp_eq: "lo \<le> hi \<Longrightarrow> ord_clamp x lo hi = Some (max lo (min x hi))"
  by (auto simp: ord_clamp_def max_def min_def)

text \<open>A loss fraction, cut to \<open>[0, 1]\<close>.\<close>

lemma f_clamp_unit: "f_clamp (Fin q) (Fin 0) (Fin 1) = Some (Fin (max 0 (min q 1)))"
  by (auto simp: f_clamp_def Let_def max_def min_def)

lemma f64_of_bounded:
  assumes "0 \<le> q" "q \<le> of_nat n" "n \<le> 2 ^ 53"
  shows "f64_of q = Fin (rnd q)" "0 \<le> rnd q" "rnd q \<le> of_nat n"
proof -
  show b: "0 \<le> rnd q" "rnd q \<le> of_nat n" using assms b64.r_nonneg b64.r_le_nat by auto
  have "(of_nat n :: rat) \<le> of_nat (2 ^ 53)" using assms(3) by (simp only: of_nat_le_iff)
  also have "\<dots> < 2 powi 54" by simp
  finally have "rnd q < 2 powi 54" using b by linarith
  then show "f64_of q = Fin (rnd q)" using b(1) flog2_less [of "rnd q" 54]
    by (cases "rnd q = 0") (auto simp: f64_of_def Let_def)
qed

lemma f64_of_nat: "n \<le> 2 ^ 53 \<Longrightarrow> f64_of (of_nat n) = Fin (of_nat n)"
  using f64_of_bounded(1) [of "of_nat n" n] by (simp add: b64.r_nat)

lemma f_of_word_nat: "f_of_word w = f64_of (of_nat (unat w))"
  by (simp add: f_of_word_def)

lemma f_of_u32: "f_of_word (w :: u32) = Fin (of_nat (unat w))"
  unfolding f_of_word_nat using unat_lt_u32 [of w] by (intro f64_of_nat) simp

lemma f_of_u16: "f_of_word (w :: u16) = Fin (of_nat (unat w))"
  unfolding f_of_word_nat using unat_lt_u16 [of w] by (intro f64_of_nat) simp

lemma f_of_u8: "f_of_word (w :: u8) = Fin (of_nat (unat w))"
  unfolding f_of_word_nat using unat_lt_u8 [of w] by (intro f64_of_nat) simp

lemma unat_f_to_word:
  assumes "0 \<le> x" "\<lfloor>x\<rfloor> < 2 ^ LENGTH('a)"
  shows "unat (f_to_word (Fin x) :: 'a :: len word) = nat \<lfloor>x\<rfloor>"
proof (cases "x = 0")
  case False
  have "0 \<le> \<lfloor>x\<rfloor>" using assms(1) by simp
  then obtain k where k: "\<lfloor>x\<rfloor> = int k" by (metis nonneg_int_cases)
  have "k < 2 ^ LENGTH('a)" using assms(2) k by (metis of_nat_less_iff of_nat_numeral of_nat_power)
  then show ?thesis using assms False k by (simp add: unat_of_nat take_bit_nat_eq_self)
qed simp

text \<open>\<open>(n as f64 * h) as u32\<close> with a factor of at most one.\<close>

lemma f_scale_nat:
  assumes "0 \<le> h" "h \<le> 1" "n < 4294967296"
  shows "f_mul (Fin (of_nat n)) (Fin h) = Fin (rnd (of_nat n * h))"
    and "unat (f_to_word (f_mul (Fin (of_nat n)) (Fin h)) :: u32) = nat \<lfloor>rnd (of_nat n * h)\<rfloor>"
    and "unat (f_to_word (f_mul (Fin (of_nat n)) (Fin h)) :: u32) \<le> n"
proof -
  have n: "n \<le> 2 ^ 53" using assms(3) by simp
  have q: "0 \<le> of_nat n * h" "of_nat n * h \<le> of_nat n" using assms by (auto simp: mult_left_le)
  note b = f64_of_bounded [OF q n]
  show m: "f_mul (Fin (of_nat n)) (Fin h) = Fin (rnd (of_nat n * h))" using b(1) by simp
  have le: "\<lfloor>rnd (of_nat n * h)\<rfloor> \<le> int n" using b(3) by linarith
  show u: "unat (f_to_word (f_mul (Fin (of_nat n)) (Fin h)) :: u32) = nat \<lfloor>rnd (of_nat n * h)\<rfloor>"
    unfolding m using le_less_trans [OF b(3), of 4294967296] assms(3) by (intro unat_f_to_word [OF b(2)]) simp
  show "unat (f_to_word (f_mul (Fin (of_nat n)) (Fin h)) :: u32) \<le> n"
    unfolding u using le by simp
qed

lemmas f_scale = f_scale_nat [OF _ _ unat_lt_u32]

lemma f64_of_unit: "0 \<le> q \<Longrightarrow> q \<le> 1 \<Longrightarrow> f64_of q = Fin (rnd q) \<and> 0 \<le> rnd q \<and> rnd q \<le> 1"
  using f64_of_bounded [of q 1] by simp

lemma dyadic_exact:
  assumes "n \<le> 2 ^ 53" "k \<le> 53"
  shows "f64_of (of_nat n / 2 ^ k) = Fin (of_nat n / 2 ^ k)"
proof -
  have "rnd (of_int (int n) / 2 ^ k) = of_int (int n) / 2 ^ k" using assms by (intro b64.r_dyadic) auto
  moreover have "of_nat n / 2 ^ k \<le> (of_nat n :: rat)" using mult_left_mono [of 1 "2 ^ k" "of_nat n :: rat"] by (simp add: divide_le_eq)
  ultimately show ?thesis using f64_of_bounded(1) [of "of_nat n / 2 ^ k" n] assms(1) by simp
qed

section \<open>Words\<close>

lemma sat_add_ge: "a \<le> sat_add a b" for a b :: "'a :: len word"
proof -
  have "unat a \<le> 2 ^ LENGTH('a) - 1" using unsigned_less [where 'a = nat, of a] by linarith
  then show ?thesis by (simp add: word_le_nat_alt unat_sat_add_min)
qed

lemma unat_sat_add_le: "unat (sat_add a b) \<le> unat a + unat b" for a b :: "'a :: len word"
  by (simp add: unat_sat_add_min)

lemma unat_max: "unat (max a b) = max (unat a) (unat b)" and unat_min: "unat (min a b) = min (unat a) (unat b)"
  for a b :: "'a :: len word"
  by (simp_all add: max_def min_def word_le_nat_alt)

end
