(* ===== verification/Abr.thy ===== *)
theory Abr
  imports F64
begin

text \<open>
  The adaptive bitrate controller and the apply gate (\<open>streamer/src/abr.rs\<close>). \<open>AbrController\<close> turns the browser's bandwidth
  estimates and loss reports into a target, \<open>ApplyGate\<close> decides when a target is worth a message to the host. A panic of
  \<open>clamp\<close> is \<open>None\<close>. The decisions taken in floating point are shown equal to integer arithmetic.
\<close>

section \<open>Configuration\<close>

definition DEFAULT_HEADROOM :: f64 where "DEFAULT_HEADROOM = f64_of (9 / 10)"
definition HIGH_LOSS_FRACTION :: f64 where "HIGH_LOSS_FRACTION = f64_of (1 / 10)"
definition LOSS_DECREASE_K :: f64 where "LOSS_DECREASE_K = f64_of (1 / 2)"

record abr_config =
  ac_ceiling_kbps :: u32
  ac_floor_kbps :: u32
  ac_increase_step_kbps :: u32
  ac_headroom :: f64

definition abr_from_ceiling :: "u32 \<Rightarrow> abr_config" where
  "abr_from_ceiling ceiling0 = (let ceiling = max ceiling0 1
    in \<lparr>ac_ceiling_kbps = ceiling, ac_floor_kbps = min (max (ceiling div 10) 500) ceiling,
        ac_increase_step_kbps = max (ceiling div 20) 250, ac_headroom = DEFAULT_HEADROOM\<rparr>)"

definition abr_sanitised :: "abr_config \<Rightarrow> abr_config option" where
  "abr_sanitised c = (let ceiling = max (ac_ceiling_kbps c) 1 in
    case ord_clamp (ac_floor_kbps c) 1 ceiling of None \<Rightarrow> None
    | Some flr \<Rightarrow> Some \<lparr>ac_ceiling_kbps = ceiling, ac_floor_kbps = flr,
        ac_increase_step_kbps = max (ac_increase_step_kbps c) 1,
        ac_headroom = (if f_is_finite (ac_headroom c) \<and> f_lt (Fin 0) (ac_headroom c)
          then f_min (ac_headroom c) (Fin 1) else DEFAULT_HEADROOM)\<rparr>)"

section \<open>Controller\<close>

record abr_controller =
  abr_config :: abr_config
  abr_current_kbps :: u32

definition abr_new :: "abr_config \<Rightarrow> abr_controller option" where
  "abr_new c = (case abr_sanitised c of None \<Rightarrow> None
    | Some c' \<Rightarrow> Some \<lparr>abr_config = c', abr_current_kbps = ac_ceiling_kbps c'\<rparr>)"

definition abr_observe :: "abr_controller \<Rightarrow> u32 \<Rightarrow> abr_controller option" where
  "abr_observe s observed = (let c = abr_config s;
    usable = if ac_ceiling_kbps c \<le> observed then ac_ceiling_kbps c
      else f_to_word (f_mul (f_of_word observed) (ac_headroom c))
    in case ord_clamp usable (ac_floor_kbps c) (ac_ceiling_kbps c) of None \<Rightarrow> None
    | Some bounded \<Rightarrow> Some (s\<lparr>abr_current_kbps := if bounded < abr_current_kbps s then bounded
        else max (min (sat_add (abr_current_kbps s) (ac_increase_step_kbps c)) bounded) (ac_floor_kbps c)\<rparr>))"

definition sanitise_loss :: "f64 \<Rightarrow> f64 option" where
  "sanitise_loss v = (if f_is_finite v then f_clamp v (Fin 0) (Fin 1) else Some (Fin 0))"

definition abr_observe_loss :: "abr_controller \<Rightarrow> f64 \<Rightarrow> abr_controller option" where
  "abr_observe_loss s loss_fraction = (let c = abr_config s in
    case sanitise_loss loss_fraction of None \<Rightarrow> None
    | Some loss \<Rightarrow> if f_le HIGH_LOSS_FRACTION loss
      then let reduced = f_to_word (f_mul (f_of_word (abr_current_kbps s))
          (f_sub (Fin 1) (f_mul LOSS_DECREASE_K loss)))
        in case ord_clamp reduced (ac_floor_kbps c) (ac_ceiling_kbps c) of None \<Rightarrow> None
        | Some k \<Rightarrow> Some (s\<lparr>abr_current_kbps := k\<rparr>)
      else Some s)"

text \<open>The observations of one RTCP loop.\<close>

datatype abr_input = Remb u32 | Loss f64

fun abr_step :: "abr_controller \<Rightarrow> abr_input \<Rightarrow> abr_controller option" where
  "abr_step s (Remb w) = abr_observe s w"
| "abr_step s (Loss v) = abr_observe_loss s v"

fun abr_run :: "abr_controller \<Rightarrow> abr_input list \<Rightarrow> abr_controller option" where
  "abr_run s [] = Some s"
| "abr_run s (i # is) = (case abr_step s i of None \<Rightarrow> None | Some s' \<Rightarrow> abr_run s' is)"

section \<open>Apply gate\<close>

definition MIN_APPLY_INTERVAL_MS :: nat where "MIN_APPLY_INTERVAL_MS = 900"
definition APPLY_HYSTERESIS_FRAC :: f64 where "APPLY_HYSTERESIS_FRAC = f64_of (1 / 10)"
definition EMERGENCY_DECREASE_FRAC :: f64 where "EMERGENCY_DECREASE_FRAC = f64_of (1 / 5)"

record apply_gate =
  last_sent_kbps :: u32
  last_sent_ms :: nat
  has_baseline :: bool

definition gate_new :: apply_gate where
  "gate_new = \<lparr>last_sent_kbps = 0, last_sent_ms = 0, has_baseline = False\<rparr>"

definition gate_delta_frac :: "apply_gate \<Rightarrow> u32 \<Rightarrow> f64" where
  "gate_delta_frac g target = f_div (f_abs (f_sub (f_of_word target) (f_of_word (last_sent_kbps g))))
    (f_of_word (max (last_sent_kbps g) 1))"

definition next_candidate :: "apply_gate \<Rightarrow> u32 \<Rightarrow> nat \<Rightarrow> u32 option" where
  "next_candidate g target now = (
    if target = 0 then None
    else if \<not> has_baseline g then Some target
    else let delta_frac = gate_delta_frac g target;
        emergency_decrease = (target < last_sent_kbps g \<and> f_le EMERGENCY_DECREASE_FRAC delta_frac)
      in if \<not> emergency_decrease \<and> now - last_sent_ms g < MIN_APPLY_INTERVAL_MS then None
      else if f_lt delta_frac APPLY_HYSTERESIS_FRAC then None
      else Some target)"

definition gate_record :: "apply_gate \<Rightarrow> u32 \<Rightarrow> nat \<Rightarrow> apply_gate" where
  "gate_record g kbps now = g\<lparr>last_sent_kbps := kbps, last_sent_ms := now, has_baseline := True\<rparr>"

definition record_sent_unacknowledged :: "apply_gate \<Rightarrow> u32 \<Rightarrow> nat \<Rightarrow> apply_gate" where
  "record_sent_unacknowledged g kbps now = gate_record g kbps now"

definition seed_initial_bitrate :: "apply_gate \<Rightarrow> u32 \<Rightarrow> nat \<Rightarrow> apply_gate" where
  "seed_initial_bitrate g kbps now = (if 0 < kbps then gate_record g kbps now else g)"

definition should_send :: "apply_gate \<Rightarrow> u32 \<Rightarrow> nat \<Rightarrow> u32 option \<times> apply_gate" where
  "should_send g target now = (case next_candidate g target now of None \<Rightarrow> (None, g)
    | Some candidate \<Rightarrow> (Some candidate, record_sent_unacknowledged g candidate now))"

section \<open>The constants as rationals\<close>

lemma abr_constants:
  "DEFAULT_HEADROOM = Fin (rnd (9 / 10))" "HIGH_LOSS_FRACTION = Fin (rnd (1 / 10))" "LOSS_DECREASE_K = Fin (1 / 2)"
  "APPLY_HYSTERESIS_FRAC = Fin (rnd (1 / 10))" "EMERGENCY_DECREASE_FRAC = Fin (rnd (1 / 5))"
  using f64_of_unit [of "9 / 10"] f64_of_unit [of "1 / 10"] f64_of_unit [of "1 / 5"] f64_of_unit [of "1 / 2"]
    b64.r_dyadic [of 1 1]
  by (simp_all add: DEFAULT_HEADROOM_def HIGH_LOSS_FRACTION_def LOSS_DECREASE_K_def
      APPLY_HYSTERESIS_FRAC_def EMERGENCY_DECREASE_FRAC_def)

section \<open>Invariant\<close>

definition abr_inv :: "abr_controller \<Rightarrow> bool" where
  "abr_inv s \<longleftrightarrow> (let c = abr_config s in 1 \<le> ac_floor_kbps c \<and> ac_floor_kbps c \<le> abr_current_kbps s
    \<and> abr_current_kbps s \<le> ac_ceiling_kbps c
    \<and> (case ac_headroom c of Fin h \<Rightarrow> 0 \<le> h \<and> h \<le> 1 | _ \<Rightarrow> False))"

lemma abr_new_inv: "\<exists>s. abr_new c = Some s \<and> abr_inv s"
proof -
  have one: "1 \<le> max (ac_ceiling_kbps c) 1" by simp
  have "\<exists>h. (if f_is_finite (ac_headroom c) \<and> f_lt (Fin 0) (ac_headroom c)
      then f_min (ac_headroom c) (Fin 1) else DEFAULT_HEADROOM) = Fin h \<and> 0 \<le> h \<and> h \<le> 1"
    using f64_of_unit [of "9 / 10"] abr_constants(1) by (cases "ac_headroom c") (auto simp: f_min_def)
  then obtain h where h: "(if f_is_finite (ac_headroom c) \<and> f_lt (Fin 0) (ac_headroom c)
      then f_min (ac_headroom c) (Fin 1) else DEFAULT_HEADROOM) = Fin h" "0 \<le> h" "h \<le> 1" by blast
  then show ?thesis by (simp add: abr_new_def abr_sanitised_def ord_clamp_eq [OF one] abr_inv_def Let_def)
qed

lemma abr_invE:
  assumes "abr_inv s"
  obtains h where "ac_headroom (abr_config s) = Fin h" "0 \<le> h" "h \<le> 1"
    "1 \<le> ac_floor_kbps (abr_config s)" "ac_floor_kbps (abr_config s) \<le> abr_current_kbps s"
    "abr_current_kbps s \<le> ac_ceiling_kbps (abr_config s)"
    "ac_floor_kbps (abr_config s) \<le> ac_ceiling_kbps (abr_config s)"
proof -
  from assms obtain h where "ac_headroom (abr_config s) = Fin h" "0 \<le> h" "h \<le> 1"
    by (cases "ac_headroom (abr_config s)") (auto simp: abr_inv_def Let_def)
  with assms show thesis by (intro that [of h]) (auto simp: abr_inv_def Let_def)
qed

lemma abr_inv_update:
  assumes "abr_inv s" "ac_floor_kbps (abr_config s) \<le> k" "k \<le> ac_ceiling_kbps (abr_config s)"
  shows "abr_inv (s\<lparr>abr_current_kbps := k\<rparr>)"
  using assms by (simp add: abr_inv_def Let_def)

definition abr_usable :: "abr_controller \<Rightarrow> u32 \<Rightarrow> u32" where
  "abr_usable s w = (if ac_ceiling_kbps (abr_config s) \<le> w then ac_ceiling_kbps (abr_config s)
    else f_to_word (f_mul (f_of_word w) (ac_headroom (abr_config s))))"

lemma abr_usable_le:
  assumes "abr_inv s"
  shows "abr_usable s w \<le> w"
proof -
  from assms obtain h where "ac_headroom (abr_config s) = Fin h" "0 \<le> h" "h \<le> 1" by (rule abr_invE)
  then show ?thesis using f_scale(3) [of h w]
    by (simp add: abr_usable_def f_of_u32 word_le_nat_alt del: of_nat_unat f_mul.simps)
qed

text \<open>One estimate: the new target in closed form, and what it may be.\<close>

lemma abr_observe_eq:
  assumes "abr_inv s"
  shows "abr_observe s w = Some (s\<lparr>abr_current_kbps :=
    (let b = max (ac_floor_kbps (abr_config s)) (min (abr_usable s w) (ac_ceiling_kbps (abr_config s)))
     in if b < abr_current_kbps s then b
       else max (min (sat_add (abr_current_kbps s) (ac_increase_step_kbps (abr_config s))) b)
         (ac_floor_kbps (abr_config s)))\<rparr>)"
  using assms by (elim abr_invE) (simp add: abr_observe_def abr_usable_def Let_def ord_clamp_eq)

lemma abr_observe_spec:
  assumes "abr_inv s"
  obtains k where "abr_observe s w = Some (s\<lparr>abr_current_kbps := k\<rparr>)"
    "ac_floor_kbps (abr_config s) \<le> k" "k \<le> ac_ceiling_kbps (abr_config s)"
    "k \<le> max (ac_floor_kbps (abr_config s)) w"
    "unat k \<le> unat (abr_current_kbps s) + unat (ac_increase_step_kbps (abr_config s))"
    "ac_ceiling_kbps (abr_config s) \<le> w \<longrightarrow>
      k = min (sat_add (abr_current_kbps s) (ac_increase_step_kbps (abr_config s))) (ac_ceiling_kbps (abr_config s))"
proof -
  let ?c = "abr_config s" and ?x = "abr_current_kbps s"
  let ?a = "sat_add ?x (ac_increase_step_kbps ?c)"
  define b where "b = max (ac_floor_kbps ?c) (min (abr_usable s w) (ac_ceiling_kbps ?c))"
  define k where "k = (if b < ?x then b else max (min ?a b) (ac_floor_kbps ?c))"
  from assms have i: "ac_floor_kbps ?c \<le> ?x" "?x \<le> ac_ceiling_kbps ?c" "ac_floor_kbps ?c \<le> ac_ceiling_kbps ?c"
    by (auto elim: abr_invE)
  note u = abr_usable_le [OF assms, of w] and a = sat_add_ge [of ?x "ac_increase_step_kbps ?c"]
  have b: "ac_floor_kbps ?c \<le> b" "b \<le> ac_ceiling_kbps ?c" "b \<le> max (ac_floor_kbps ?c) w"
    using i u by (auto simp: b_def max_def min_def)
  have k: "ac_floor_kbps ?c \<le> k" "k \<le> b" "k \<le> ?a" using b i a by (auto simp: k_def max_def min_def)
  show thesis
  proof (rule that [of k])
    show "abr_observe s w = Some (s\<lparr>abr_current_kbps := k\<rparr>)"
      by (simp add: abr_observe_eq [OF assms] k_def b_def Let_def)
    show "ac_floor_kbps ?c \<le> k" "k \<le> ac_ceiling_kbps ?c" "k \<le> max (ac_floor_kbps ?c) w"
      using k b by (auto intro: order_trans)
    show "unat k \<le> unat ?x + unat (ac_increase_step_kbps ?c)"
      using k(3) unat_sat_add_le [of ?x "ac_increase_step_kbps ?c"] by (simp add: word_le_nat_alt)
    show "ac_ceiling_kbps ?c \<le> w \<longrightarrow> k = min ?a (ac_ceiling_kbps ?c)"
    proof
      assume "ac_ceiling_kbps ?c \<le> w"
      then have "b = ac_ceiling_kbps ?c" using i by (auto simp: b_def abr_usable_def max_def)
      then show "k = min ?a (ac_ceiling_kbps ?c)" using i a by (auto simp: k_def max_def min_def)
    qed
  qed
qed

text \<open>One loss report.\<close>

lemma sanitise_loss_unit: "\<exists>q. sanitise_loss v = Some (Fin q) \<and> 0 \<le> q \<and> q \<le> 1"
  by (cases v) (auto simp: sanitise_loss_def f_clamp_unit max_def min_def)

lemma loss_factor:
  assumes "0 \<le> q" "q \<le> 1"
  obtains h where "f_sub (Fin 1) (f_mul LOSS_DECREASE_K (Fin q)) = Fin h" "0 \<le> h" "h \<le> 1"
proof -
  have p: "f_mul LOSS_DECREASE_K (Fin q) = Fin (rnd (q / 2))" "0 \<le> rnd (q / 2)" "rnd (q / 2) \<le> 1"
    using f64_of_unit [of "q / 2"] assms by (auto simp: abr_constants)
  then have "f_sub (Fin 1) (f_mul LOSS_DECREASE_K (Fin q)) = f64_of (1 - rnd (q / 2))" by (simp add: f_sub_def)
  with f64_of_unit [of "1 - rnd (q / 2)"] p(2,3) show thesis by (intro that [of "rnd (1 - rnd (q / 2))"]) auto
qed

lemma abr_observe_loss_spec:
  assumes "abr_inv s"
  obtains k where "abr_observe_loss s v = Some (s\<lparr>abr_current_kbps := k\<rparr>)"
    "ac_floor_kbps (abr_config s) \<le> k" "k \<le> abr_current_kbps s"
proof -
  let ?c = "abr_config s" and ?x = "abr_current_kbps s"
  from assms have i: "ac_floor_kbps ?c \<le> ?x" "?x \<le> ac_ceiling_kbps ?c" "ac_floor_kbps ?c \<le> ac_ceiling_kbps ?c"
    by (auto elim: abr_invE)
  obtain q where q: "sanitise_loss v = Some (Fin q)" "0 \<le> q" "q \<le> 1" using sanitise_loss_unit by blast
  show thesis
  proof (cases "f_le HIGH_LOSS_FRACTION (Fin q)")
    case False
    then show thesis using i q by (intro that [of ?x]) (auto simp: abr_observe_loss_def)
  next
    case True
    obtain h where h: "f_sub (Fin 1) (f_mul LOSS_DECREASE_K (Fin q)) = Fin h" "0 \<le> h" "h \<le> 1"
      using loss_factor [OF q(2,3)] by blast
    define d :: u32 where "d = f_to_word (f_mul (f_of_word ?x) (Fin h))"
    have d: "d \<le> ?x" using f_scale(3) [OF h(2,3), of ?x] by (simp only: d_def f_of_u32 word_le_nat_alt)
    have "abr_observe_loss s v = Some (s\<lparr>abr_current_kbps := max (ac_floor_kbps ?c) (min d (ac_ceiling_kbps ?c))\<rparr>)"
      using True i by (simp add: abr_observe_loss_def q h(1) d_def ord_clamp_eq Let_def)
    then show thesis by (rule that) (use d i in \<open>auto simp: max_def min_def\<close>)
  qed
qed

text \<open>Every step succeeds and keeps the invariant and the configuration.\<close>

lemma abr_step_inv:
  assumes "abr_inv s"
  obtains s' where "abr_step s i = Some s'" "abr_inv s'" "abr_config s' = abr_config s"
proof (cases i)
  case (Remb w)
  obtain k where "abr_observe s w = Some (s\<lparr>abr_current_kbps := k\<rparr>)"
    "ac_floor_kbps (abr_config s) \<le> k" "k \<le> ac_ceiling_kbps (abr_config s)"
    by (rule abr_observe_spec [OF assms, of w])
  with that [of "s\<lparr>abr_current_kbps := k\<rparr>"] abr_inv_update [OF assms] show thesis by (simp add: Remb)
next
  case (Loss v)
  obtain k where k: "abr_observe_loss s v = Some (s\<lparr>abr_current_kbps := k\<rparr>)"
    "ac_floor_kbps (abr_config s) \<le> k" "k \<le> abr_current_kbps s" by (rule abr_observe_loss_spec [OF assms])
  moreover have "k \<le> ac_ceiling_kbps (abr_config s)" using k(3) assms by (auto elim!: abr_invE intro: order_trans)
  ultimately show thesis using that [of "s\<lparr>abr_current_kbps := k\<rparr>"] abr_inv_update [OF assms] by (simp add: Loss)
qed

lemma abr_run_inv: "abr_inv s \<Longrightarrow> \<exists>s'. abr_run s is = Some s' \<and> abr_inv s' \<and> abr_config s' = abr_config s"
proof (induction "is" arbitrary: s)
  case (Cons i "is")
  obtain s' where s': "abr_step s i = Some s'" "abr_inv s'" "abr_config s' = abr_config s"
    by (rule abr_step_inv [OF Cons.prems])
  then show ?case using Cons.IH [of s'] by simp
qed simp

section \<open>Recovery\<close>

text \<open>Each estimate at or above the ceiling adds a step, so a bounded number of them restores the ceiling.\<close>

lemma abr_run_append: "abr_run s (a @ b) = (case abr_run s a of None \<Rightarrow> None | Some s' \<Rightarrow> abr_run s' b)"
  by (induction a arbitrary: s) (auto split: option.splits)

lemma abr_climb:
  assumes "abr_inv s" "list_all (\<lambda>w. ac_ceiling_kbps (abr_config s) \<le> w) ws"
  shows "\<exists>s'. abr_run s (map Remb ws) = Some s' \<and> abr_config s' = abr_config s
    \<and> unat (abr_current_kbps s') = min (unat (abr_current_kbps s)
        + length ws * unat (ac_increase_step_kbps (abr_config s))) (unat (ac_ceiling_kbps (abr_config s)))"
  using assms
proof (induction ws arbitrary: s)
  case Nil
  then have "abr_current_kbps s \<le> ac_ceiling_kbps (abr_config s)" by (auto elim: abr_invE)
  then show ?case by (simp add: word_le_nat_alt)
next
  case (Cons w ws)
  let ?c = "abr_config s" and ?x = "abr_current_kbps s"
  obtain k where k: "abr_observe s w = Some (s\<lparr>abr_current_kbps := k\<rparr>)"
    "ac_floor_kbps ?c \<le> k" "k \<le> ac_ceiling_kbps ?c"
    "ac_ceiling_kbps ?c \<le> w \<longrightarrow> k = min (sat_add ?x (ac_increase_step_kbps ?c)) (ac_ceiling_kbps ?c)"
    by (rule abr_observe_spec [OF Cons.prems(1), of w])
  have "unat (min a b) = min (unat a) (unat b)" for a b :: u32 by (simp add: min_def word_le_nat_alt)
  then have u: "unat k = min (unat ?x + unat (ac_increase_step_kbps ?c)) (unat (ac_ceiling_kbps ?c))"
    using k(4) Cons.prems(2) unat_lt_u32 [of "ac_ceiling_kbps ?c"] by (simp add: unat_sat_add_min)
  obtain s' where "abr_run (s\<lparr>abr_current_kbps := k\<rparr>) (map Remb ws) = Some s'" "abr_config s' = ?c"
    "unat (abr_current_kbps s') = min (unat k + length ws * unat (ac_increase_step_kbps ?c)) (unat (ac_ceiling_kbps ?c))"
    using Cons.IH [OF abr_inv_update [OF Cons.prems(1) k(2,3)]] Cons.prems(2) by auto
  then show ?case using k(1) u by auto
qed

section \<open>Integer arithmetic\<close>

text \<open>
  What the RTCP loop of \<open>video.rs\<close> feeds the controller: an estimate in kbps, or the largest \<open>fraction_lost\<close> byte of a
  receiver report, divided by 256.
\<close>

datatype rtcp_input = Rtcp_Remb u32 | Rtcp_Loss u8

fun abr_input_of :: "rtcp_input \<Rightarrow> abr_input" where
  "abr_input_of (Rtcp_Remb w) = Remb w"
| "abr_input_of (Rtcp_Loss b) = Loss (f_div (f_of_word b) (Fin 256))"

text \<open>The reference: the same controller on natural numbers, with no rounding.\<close>

record int_abr =
  ia_ceiling :: nat
  ia_floor :: nat
  ia_step :: nat
  ia_current :: nat

definition int_abr_of :: "nat \<Rightarrow> int_abr" where
  "int_abr_of n = (let c = max n 1 in \<lparr>ia_ceiling = c, ia_floor = min (max (c div 10) 500) c,
    ia_step = max (c div 20) 250, ia_current = c\<rparr>)"

fun int_abr_step :: "int_abr \<Rightarrow> rtcp_input \<Rightarrow> int_abr" where
  "int_abr_step a (Rtcp_Remb w) = (
    let usable = if ia_ceiling a \<le> unat w then ia_ceiling a else 9 * unat w div 10;
        b = max (ia_floor a) (min usable (ia_ceiling a))
    in a\<lparr>ia_current := if b < ia_current a then b else min (ia_current a + ia_step a) b\<rparr>)"
| "int_abr_step a (Rtcp_Loss b) = (if unat b < 26 then a
    else a\<lparr>ia_current := max (ia_floor a) (ia_current a * (512 - unat b) div 512)\<rparr>)"

definition int_abr_abs :: "abr_controller \<Rightarrow> int_abr" where
  "int_abr_abs s = \<lparr>ia_ceiling = unat (ac_ceiling_kbps (abr_config s)), ia_floor = unat (ac_floor_kbps (abr_config s)),
    ia_step = unat (ac_increase_step_kbps (abr_config s)), ia_current = unat (abr_current_kbps s)\<rparr>"

lemma rnd_9_10: "rnd (9 / 10) = 8106479329266893 / 9007199254740992"
  by code_simp

lemma rnd_1_10: "rnd (1 / 10) = 3602879701896397 / 36028797018963968"
  by code_simp

text \<open>\<open>(n as f64 * 0.9) as u32\<close> is \<open>9 * n / 10\<close> for every \<open>u32\<close>.\<close>

lemma floor_rnd_eq:
  assumes "of_nat d \<le> x" "x \<le> of_nat d + 15 / 16" "d < 2 ^ 48"
  shows "nat \<lfloor>rnd x\<rfloor> = d"
proof -
  have "rnd x \<le> rnd (of_int (16 * int d + 15) / 2 ^ 4)" using assms(2) by (intro b64.r_mono) (simp add: field_simps)
  also have "\<dots> = of_int (16 * int d + 15) / 2 ^ 4" using assms(3) by (intro b64.r_dyadic) auto
  finally have "rnd x < of_nat d + 1" by (simp add: field_simps)
  moreover have "of_nat d \<le> rnd x" using assms(1,3) by (intro b64.r_ge_nat) auto
  ultimately have "\<lfloor>rnd x\<rfloor> = int d" by (intro floor_unique) auto
  then show ?thesis by simp
qed

lemma scale_9_10: "unat (f_to_word (f_mul (f_of_word (w :: u32)) DEFAULT_HEADROOM) :: u32) = 9 * unat w div 10"
proof -
  define n where "n = unat w"
  have n: "n < 4294967296" using unat_lt_u32 by (simp add: n_def)
  define d where "d = 9 * n div 10"
  have "10 * d \<le> 9 * n" "9 * n \<le> 10 * d + 9" by (auto simp: d_def)
  then have "of_nat (10 * d) \<le> (of_nat (9 * n) :: rat)" "of_nat (9 * n) \<le> (of_nat (10 * d + 9) :: rat)"
    by (simp_all only: of_nat_le_iff)
  then have dq: "10 * of_nat d \<le> (9 * of_nat n :: rat)" "9 * of_nat n \<le> (10 * of_nat d + 9 :: rat)" by simp_all
  have nq: "(of_nat n :: rat) \<le> 4294967296" using n by simp
  have "nat \<lfloor>rnd (of_nat n * rnd (9 / 10))\<rfloor> = d"
  proof (rule floor_rnd_eq)
    show "of_nat d \<le> of_nat n * rnd (9 / 10)" using dq(1) unfolding rnd_9_10 by simp
    show "of_nat n * rnd (9 / 10) \<le> of_nat d + 15 / 16" using dq(2) nq unfolding rnd_9_10 by simp
    show "d < 2 ^ 48" using n by (simp add: d_def)
  qed
  moreover have "unat (f_to_word (f_mul (Fin (of_nat (unat w))) (Fin (rnd (9 / 10)))) :: u32)
      = nat \<lfloor>rnd (of_nat (unat w) * rnd (9 / 10))\<rfloor>"
    by (rule f_scale(2)) (simp_all add: rnd_9_10)
  ultimately show ?thesis unfolding abr_constants f_of_u32 n_def d_def by metis
qed

text \<open>A loss byte is exact at every step of the decrease.\<close>

lemma loss_byte: "f_div (f_of_word (b :: u8)) (Fin 256) = Fin (of_nat (unat b) / 256)"
  using dyadic_exact [of "unat b" 8] unat_lt_u8 [of b] unfolding f_of_u8 by simp

lemma loss_knee:
  assumes "n < 256"
  shows "f_le HIGH_LOSS_FRACTION (Fin (of_nat n / 256)) \<longleftrightarrow> 26 \<le> n"
proof (cases "26 \<le> n")
  case True
  then have "(26 :: rat) \<le> of_nat n" by simp
  then show ?thesis using True by (simp add: abr_constants rnd_1_10 field_simps)
next
  case False
  then have "(of_nat n :: rat) \<le> 25" by simp
  then show ?thesis using False by (simp add: abr_constants rnd_1_10 field_simps)
qed

lemma loss_reduced:
  fixes w :: u32
  assumes "n < 256"
  shows "unat (f_to_word (f_mul (f_of_word w) (f_sub (Fin 1) (f_mul LOSS_DECREASE_K (Fin (of_nat n / 256))))) :: u32)
    = unat w * (512 - n) div 512"
proof -
  define m where "m = unat w"
  have m: "m < 4294967296" using unat_lt_u32 by (simp add: m_def)
  define k where "k = 512 - n"
  have k: "k \<le> 512" "(of_nat k :: rat) = 512 - of_nat n" using assms by (auto simp: k_def of_nat_diff)
  have "f_mul LOSS_DECREASE_K (Fin (of_nat n / 256)) = Fin (of_nat n / 512)"
    using dyadic_exact [of n 9] assms by (simp add: abr_constants)
  then have f: "f_sub (Fin 1) (f_mul LOSS_DECREASE_K (Fin (of_nat n / 256))) = Fin (of_nat k / 512)"
    using dyadic_exact [of k 9] k by (simp add: f_sub_def diff_divide_distrib)
  have "m * k \<le> 4294967296 * 512" using m k by (intro mult_mono) auto
  then have "f64_of (of_nat (m * k) / 2 ^ 9) = Fin (of_nat (m * k) / 2 ^ 9)" by (intro dyadic_exact) auto
  then have p: "f_mul (Fin (of_nat m)) (Fin (of_nat k / 512)) = Fin (of_nat (m * k) / of_nat 512)" by simp
  have q: "\<lfloor>of_nat (m * k) / (of_nat 512 :: rat)\<rfloor> = int (m * k div 512)" by (rule floor_divide_of_nat_eq)
  have "m * k \<le> m * 512" using k by simp
  then have "m * k div 512 \<le> m" by (simp add: div_le_mono [of "m * k" "m * 512" 512, simplified])
  then have "int (m * k div 512) < 2 ^ LENGTH(32)" using m by simp
  then have "\<lfloor>of_nat (m * k) / (of_nat 512 :: rat)\<rfloor> < 2 ^ LENGTH(32)" unfolding q .
  then have "unat (f_to_word (Fin (of_nat (m * k) / of_nat 512)) :: u32) = nat (int (m * k div 512))"
    unfolding q [symmetric] by (intro unat_f_to_word) (simp add: divide_nonneg_nonneg, simp only:)
  then show ?thesis unfolding f f_of_u32 m_def [symmetric] p by (simp only: nat_int k_def)
qed

text \<open>One step of the controller is one step of the reference, when its headroom is the default.\<close>

lemma int_abr_simulates:
  assumes "abr_inv s" "ac_headroom (abr_config s) = DEFAULT_HEADROOM"
  shows "\<exists>s'. abr_step s (abr_input_of i) = Some s' \<and> int_abr_abs s' = int_abr_step (int_abr_abs s) i"
proof (cases i)
  case (Rtcp_Remb w)
  let ?c = "abr_config s" and ?x = "abr_current_kbps s"
  from assms(1) have "ac_floor_kbps ?c \<le> ac_ceiling_kbps ?c" by (rule abr_invE)
  then have fc: "unat (ac_floor_kbps ?c) \<le> unat (ac_ceiling_kbps ?c)" by (simp add: word_le_nat_alt)
  have u: "unat (abr_usable s w) = (if unat (ac_ceiling_kbps ?c) \<le> unat w then unat (ac_ceiling_kbps ?c) else 9 * unat w div 10)"
    using scale_9_10 [of w] by (simp add: abr_usable_def assms(2) word_le_nat_alt)
  define b where "b = max (ac_floor_kbps ?c) (min (abr_usable s w) (ac_ceiling_kbps ?c))"
  have ub: "unat b = max (unat (ac_floor_kbps ?c)) (min (unat (abr_usable s w)) (unat (ac_ceiling_kbps ?c)))"
    by (simp add: b_def unat_max unat_min)
  let ?a = "sat_add ?x (ac_increase_step_kbps ?c)"
  from assms(1) have "ac_floor_kbps ?c \<le> ?x" by (rule abr_invE)
  then have "ac_floor_kbps ?c \<le> min ?a b" using sat_add_ge [of ?x "ac_increase_step_kbps ?c"] by (simp add: b_def)
  then have "max (min ?a b) (ac_floor_kbps ?c) = min ?a b" by (simp add: max_absorb1)
  moreover have "unat (min ?a b) = min (unat ?x + unat (ac_increase_step_kbps ?c)) (unat b)"
    using unat_lt_u32 [of b] by (simp add: unat_min unat_sat_add_min)
  ultimately have k: "unat (if b < ?x then b else max (min ?a b) (ac_floor_kbps ?c))
      = (if unat b < unat ?x then unat b else min (unat ?x + unat (ac_increase_step_kbps ?c)) (unat b))"
    by (simp add: word_less_nat_alt)
  have "int_abr_step (int_abr_abs s) i = (int_abr_abs s)\<lparr>ia_current := (if unat b < unat ?x then unat b
      else min (unat ?x + unat (ac_increase_step_kbps ?c)) (unat b))\<rparr>"
    unfolding Rtcp_Remb int_abr_step.simps Let_def ub u by (simp only: int_abr_abs_def int_abr.simps)
  moreover have "abr_step s (abr_input_of i) = Some (s\<lparr>abr_current_kbps :=
      if b < ?x then b else max (min ?a b) (ac_floor_kbps ?c)\<rparr>)"
    by (simp only: Rtcp_Remb abr_input_of.simps abr_step.simps abr_observe_eq [OF assms(1)] Let_def b_def)
  moreover have "int_abr_abs (s\<lparr>abr_current_kbps := v\<rparr>) = (int_abr_abs s)\<lparr>ia_current := unat v\<rparr>" for v
    by (simp add: int_abr_abs_def)
  ultimately show ?thesis by (simp only: k option.inject ex_simps simp_thms)
next
  case (Rtcp_Loss b)
  let ?c = "abr_config s" and ?x = "abr_current_kbps s" and ?q = "of_nat (unat b) / 256 :: rat"
  have n: "unat b < 256" by (rule unat_lt_u8)
  have q: "sanitise_loss (Fin ?q) = Some (Fin ?q)"
    using n by (auto simp: sanitise_loss_def f_clamp_def Let_def simp del: of_nat_unat)
  define d :: u32 where "d = f_to_word (f_mul (f_of_word ?x) (f_sub (Fin 1) (f_mul LOSS_DECREASE_K (Fin ?q))))"
  have d: "unat d = unat ?x * (512 - unat b) div 512" unfolding d_def by (rule loss_reduced [OF n])
  have "unat ?x * (512 - unat b) div 512 \<le> unat ?x * 512 div 512" by (intro div_le_mono mult_left_mono) auto
  then have "d \<le> ?x" using d by (simp add: word_le_nat_alt)
  then have "ord_clamp d (ac_floor_kbps ?c) (ac_ceiling_kbps ?c) = Some (max (ac_floor_kbps ?c) d)"
    using assms(1) by (elim abr_invE) (simp add: ord_clamp_eq min_absorb1 order_trans)
  then show ?thesis
    using loss_knee [OF n] unfolding Rtcp_Loss abr_input_of.simps loss_byte abr_step.simps abr_observe_loss_def q
    by (auto simp: int_abr_abs_def unat_max d not_less simp flip: d_def simp del: of_nat_unat)
qed

lemma int_abr_run:
  assumes "abr_inv s" "ac_headroom (abr_config s) = DEFAULT_HEADROOM"
  shows "\<exists>s'. abr_run s (map abr_input_of rs) = Some s' \<and> int_abr_abs s' = foldl int_abr_step (int_abr_abs s) rs"
  using assms
proof (induction rs arbitrary: s)
  case (Cons r rs)
  obtain s' where s': "abr_step s (abr_input_of r) = Some s'" "abr_inv s'" "abr_config s' = abr_config s"
    by (rule abr_step_inv [OF Cons.prems(1)])
  moreover have "int_abr_abs s' = int_abr_step (int_abr_abs s) r"
    using int_abr_simulates [OF Cons.prems, of r] s'(1) by auto
  ultimately show ?case using Cons.IH [of s'] Cons.prems(2) by simp
qed simp

lemma abr_new_default:
  obtains s where "abr_new (abr_from_ceiling n) = Some s" "abr_inv s"
    "ac_headroom (abr_config s) = DEFAULT_HEADROOM" "int_abr_abs s = int_abr_of (unat n)"
proof -
  obtain s where s: "abr_new (abr_from_ceiling n) = Some s" "abr_inv s" using abr_new_inv by blast
  let ?c = "max n 1"
  have one: "1 \<le> ?c" by simp
  have f: "max 1 (min (min (max (?c div 10) 500) ?c) ?c) = min (max (?c div 10) 500) ?c"
  proof -
    have "1 \<le> min (max (?c div 10) 500) ?c" by (simp add: le_max_iff_disj)
    then show ?thesis by (simp add: max_absorb2)
  qed
  have h: "f_min DEFAULT_HEADROOM (Fin 1) = DEFAULT_HEADROOM"
    by (simp add: abr_constants rnd_9_10 f_min_def)
  have "(1 :: u32) \<le> max (?c div 20) 250" by (simp add: le_max_iff_disj)
  then have "s = \<lparr>abr_config = abr_from_ceiling n, abr_current_kbps = ?c\<rparr>"
    using s(1) h f by (simp add: abr_new_def abr_sanitised_def abr_from_ceiling_def Let_def ord_clamp_eq max_absorb1
      cong: if_cong)
  then show thesis using s
    by (intro that [of s]) (simp_all add: abr_from_ceiling_def int_abr_abs_def int_abr_of_def Let_def unat_max unat_min unat_div)
qed

section \<open>The gate in integers\<close>

lemma rnd_gaps: "rnd (1 / 10 - 1 / 42949672960) < rnd (1 / 10)" "rnd (1 / 5 - 1 / 21474836480) < rnd (1 / 5)"
  by code_simp+

text \<open>
  A quotient of \<open>u32\<close> values that is not \<open>1 / c\<close> is far enough from it for the rounded comparison to be the exact one.
\<close>

lemma rnd_quotient_cmp:
  assumes "0 < l" "l < 4294967296" "0 < c" "rnd (1 / of_nat c - 1 / of_nat (c * 4294967296)) < rnd (1 / of_nat c)"
  shows "rnd (1 / of_nat c) \<le> rnd (of_nat k / of_nat l) \<longleftrightarrow> l \<le> c * k"
proof (cases "l \<le> c * k")
  case True
  then have "(of_nat l :: rat) \<le> of_nat (c * k)" by (simp only: of_nat_le_iff)
  then have "1 / of_nat c \<le> (of_nat k / of_nat l :: rat)" using assms by (simp add: field_simps)
  then show ?thesis using True by (simp add: b64.r_mono)
next
  case False
  then have "c * k + 1 \<le> l" by simp
  then have "(of_nat (c * k + 1) :: rat) \<le> of_nat l" by (simp only: of_nat_le_iff)
  then have "of_nat c * of_nat k + 1 \<le> (of_nat l :: rat)" by simp
  then have "(of_nat c * of_nat k + 1) / (of_nat c * of_nat l) \<le> (of_nat l / (of_nat c * of_nat l) :: rat)"
    by (intro divide_right_mono) auto
  then have "of_nat k / of_nat l + 1 / (of_nat c * of_nat l) \<le> (1 / of_nat c :: rat)"
    using assms(1,3) by (simp add: add_divide_distrib)
  moreover have "1 / of_nat (c * 4294967296) \<le> (1 / (of_nat c * of_nat l) :: rat)"
    using assms by (simp add: field_simps)
  ultimately have "of_nat k / of_nat l + 1 / of_nat (c * 4294967296) \<le> (1 / of_nat c :: rat)" by linarith
  from b64.r_less_gap [OF this assms(4)] show ?thesis using False by simp
qed

text \<open>The distance between two integers, and the integer reading of the gate.\<close>

definition nat_dist :: "nat \<Rightarrow> nat \<Rightarrow> nat" where
  "nat_dist a b = (if a \<le> b then b - a else a - b)"

lemma gate_delta_frac_eq:
  "gate_delta_frac g t = Fin (rnd (of_nat (nat_dist (unat t) (unat (last_sent_kbps g)))
    / of_nat (max (unat (last_sent_kbps g)) 1)))"
proof -
  define a b where "a = unat t" and "b = unat (last_sent_kbps g)"
  define k where "k = nat_dist a b"
  have ab: "a < 4294967296" "b < 4294967296" using unat_lt_u32 by (auto simp: a_def b_def)
  have k: "k < 4294967296" "\<bar>of_nat a - of_nat b\<bar> = (of_nat k :: rat)"
    using ab by (auto simp: k_def nat_dist_def of_nat_diff)
  have "rnd (of_int (int a - int b)) = of_int (int a - int b)" using ab by (intro b64.r_int) auto
  then have r: "rnd (of_nat a - of_nat b) = of_nat a - of_nat b" by simp
  have fin: "f64_of (of_nat a - of_nat b) = Fin (of_nat a - of_nat b)"
    using flog2_less [of "of_nat k" 54] k r by (cases "k = 0") (auto simp: f64_of_def Let_def)
  have d: "f_abs (f_sub (f_of_word t) (f_of_word (last_sent_kbps g))) = Fin (of_nat k)"
    unfolding f_of_u32 a_def [symmetric] b_def [symmetric] using fin k by (simp add: f_sub_def)
  have "of_nat k / of_nat (max b 1) \<le> (of_nat k :: rat)" by (cases b) (auto simp: divide_le_eq field_simps)
  then have q: "f64_of (of_nat k / of_nat (max b 1)) = Fin (rnd (of_nat k / of_nat (max b 1)))"
    using k by (intro f64_of_bounded(1) [of _ k]) auto
  have m: "unat (max (last_sent_kbps g) 1) = max b 1" by (simp add: b_def unat_max)
  show ?thesis
    unfolding gate_delta_frac_def d f_of_u32 [of "max (last_sent_kbps g) 1"] m f_div.simps
      a_def [symmetric] b_def [symmetric] k_def [symmetric]
    using q by (auto split: if_splits)
qed

lemma next_candidate_int:
  "next_candidate g t now = (let a = unat t; b = unat (last_sent_kbps g); l = max b 1 in
    if a = 0 then None
    else if has_baseline g then if l \<le> 10 * nat_dist a b
        \<and> (900 \<le> now - last_sent_ms g \<or> a < b \<and> l \<le> 5 * nat_dist a b)
      then Some t else None
    else Some t)"
proof -
  define k l where "k = nat_dist (unat t) (unat (last_sent_kbps g))" and "l = max (unat (last_sent_kbps g)) 1"
  have l: "0 < l" "l < 4294967296" using unat_lt_u32 by (auto simp: l_def)
  have c: "rnd (1 / 10) \<le> rnd (of_nat k / of_nat l) \<longleftrightarrow> l \<le> 10 * k"
    "rnd (1 / 5) \<le> rnd (of_nat k / of_nat l) \<longleftrightarrow> l \<le> 5 * k"
    using rnd_quotient_cmp [OF l, of 10 k] rnd_quotient_cmp [OF l, of 5 k] rnd_gaps by simp_all
  have d: "gate_delta_frac g t = Fin (rnd (of_nat k / of_nat l))" by (simp only: gate_delta_frac_eq k_def l_def)
  show ?thesis
    unfolding next_candidate_def Let_def d abr_constants f_le.simps f_lt.simps k_def [symmetric] l_def [symmetric] not_le [symmetric] c
      MIN_APPLY_INTERVAL_MS_def
    by (auto simp: word_less_nat_alt word_le_nat_alt unat_eq_zero not_le)
qed

section \<open>Properties\<close>

text \<open>
  C26.
  The floating-point rate controller is exact. Driven by any sequence of bandwidth estimates and loss bytes, the controller made from
  a configured ceiling never panics, and its bounds and its target are at every point those of the controller on natural
  numbers: 90 percent of an estimate is \<open>9 * w div 10\<close>, a loss byte counts from 26 on and takes \<open>b / 512\<close> of the target.
\<close>

theorem abr_exact:
  "\<exists>s s'. abr_new (abr_from_ceiling n) = Some s \<and> abr_run s (map abr_input_of rs) = Some s'
    \<and> int_abr_abs s' = foldl int_abr_step (int_abr_of (unat n)) rs"
proof -
  obtain s where s: "abr_new (abr_from_ceiling n) = Some s" "abr_inv s"
    "ac_headroom (abr_config s) = DEFAULT_HEADROOM" "int_abr_abs s = int_abr_of (unat n)" by (rule abr_new_default)
  then show ?thesis using int_abr_run [OF s(2,3), of rs] by auto
qed

text \<open>
  Down fast, up slowly, in bounds. For every configuration (even an inconsistent one) and every history of estimates and losses (any
  \<open>f64\<close>, not a number and infinities included) no \<open>clamp\<close> panics and the target is between a floor of at least 1 and the
  ceiling. From there, an estimate takes the target at once to at most the estimate (or the floor), and raises it by at most
  one step; a loss report never raises it.
\<close>

theorem abr_bounded_response:
  "\<exists>s s'. abr_new c = Some s \<and> abr_run s is = Some s' \<and> abr_config s' = abr_config s
    \<and> 1 \<le> ac_floor_kbps (abr_config s) \<and> ac_floor_kbps (abr_config s) \<le> abr_current_kbps s'
    \<and> abr_current_kbps s' \<le> ac_ceiling_kbps (abr_config s)
    \<and> (\<exists>k. abr_observe s' w = Some (s'\<lparr>abr_current_kbps := k\<rparr>) \<and> k \<le> max (ac_floor_kbps (abr_config s)) w
        \<and> unat k \<le> unat (abr_current_kbps s') + unat (ac_increase_step_kbps (abr_config s)))
    \<and> (\<exists>k. abr_observe_loss s' v = Some (s'\<lparr>abr_current_kbps := k\<rparr>) \<and> k \<le> abr_current_kbps s')"
proof -
  obtain s where s: "abr_new c = Some s" "abr_inv s" using abr_new_inv by blast
  obtain s' where s': "abr_run s is = Some s'" "abr_inv s'" "abr_config s' = abr_config s"
    using abr_run_inv [OF s(2)] by blast
  obtain k where "abr_observe s' w = Some (s'\<lparr>abr_current_kbps := k\<rparr>)" "k \<le> max (ac_floor_kbps (abr_config s')) w"
    "unat k \<le> unat (abr_current_kbps s') + unat (ac_increase_step_kbps (abr_config s'))"
    by (rule abr_observe_spec [OF s'(2), of w])
  moreover obtain j where "abr_observe_loss s' v = Some (s'\<lparr>abr_current_kbps := j\<rparr>)" "j \<le> abr_current_kbps s'"
    by (rule abr_observe_loss_spec [OF s'(2), of v])
  moreover have "1 \<le> ac_floor_kbps (abr_config s')" "ac_floor_kbps (abr_config s') \<le> abr_current_kbps s'"
    "abr_current_kbps s' \<le> ac_ceiling_kbps (abr_config s')" using s'(2) by (auto elim: abr_invE)
  ultimately show ?thesis using s(1) s'(1,3) by auto
qed

text \<open>
  Recovery in twenty estimates: whatever happened before, once the network reports at least the configured ceiling twenty times in
  a row, the target is the ceiling again.
\<close>

theorem abr_recovers:
  assumes "length ws = 20" "list_all (\<lambda>w. max n 1 \<le> w) ws"
  shows "\<exists>s s'. abr_new (abr_from_ceiling n) = Some s \<and> abr_run s (is @ map Remb ws) = Some s'
    \<and> abr_current_kbps s' = max n 1"
proof -
  obtain s where s: "abr_new (abr_from_ceiling n) = Some s" "abr_inv s" "int_abr_abs s = int_abr_of (unat n)"
    by (rule abr_new_default)
  let ?m = "max (unat n) 1" and ?c = "abr_config s"
  have c: "unat (ac_ceiling_kbps ?c) = ?m" "unat (ac_floor_kbps ?c) = min (max (?m div 10) 500) ?m"
    "unat (ac_increase_step_kbps ?c) = max (?m div 20) 250"
    using s(3) by (simp_all add: int_abr_abs_def int_abr_of_def Let_def)
  then have ceil: "ac_ceiling_kbps ?c = max n 1" by (simp add: word_unat_eq_iff unat_max)
  obtain s1 where s1: "abr_run s is = Some s1" "abr_inv s1" "abr_config s1 = ?c" using abr_run_inv [OF s(2)] by blast
  obtain s2 where s2: "abr_run s1 (map Remb ws) = Some s2"
    "unat (abr_current_kbps s2) = min (unat (abr_current_kbps s1) + 20 * unat (ac_increase_step_kbps ?c)) ?m"
    using abr_climb [OF s1(2), of ws] assms s1(3) ceil c(1) by auto
  have "unat (ac_floor_kbps ?c) \<le> unat (abr_current_kbps s1)" using s1(2,3) by (auto simp: word_le_nat_alt elim: abr_invE)
  moreover have "?m \<le> min (max (?m div 10) 500) ?m + 20 * max (?m div 20) 250" by linarith
  ultimately have "unat (abr_current_kbps s2) = ?m" using s2(2) c by linarith
  then have "abr_current_kbps s2 = max n 1" by (simp add: word_unat_eq_iff unat_max)
  then show ?thesis using s(1) s1(1) s2(1) by (simp add: abr_run_append)
qed

theorem abr_recovers_witness:
  "\<exists>s s'. abr_new (abr_from_ceiling 8000) = Some s
    \<and> abr_run s ([Loss (Fin 1), Remb 0, Loss F_NaN] @ map Remb (replicate 20 9000)) = Some s'
    \<and> abr_current_kbps s' = 8000"
  using abr_recovers [of "replicate 20 9000" 8000 "[Loss (Fin 1), Remb 0, Loss F_NaN]"]
  by (simp add: list_all_iff del: abr_run.simps)

text \<open>
  The apply gate decides as integer arithmetic does. For every state, target and time it lets the target through exactly when the target
  is not zero and either nothing was sent yet, or it differs from the last value by at least a tenth, and 900 ms have passed
  or it is a decrease by at least a fifth.
\<close>

theorem gate_exact:
  "next_candidate g t now = (let a = unat t; b = unat (last_sent_kbps g); l = max b 1 in
    if a = 0 then None
    else if has_baseline g then if l \<le> 10 * nat_dist a b
        \<and> (900 \<le> now - last_sent_ms g \<or> a < b \<and> l \<le> 5 * nat_dist a b)
      then Some t else None
    else Some t)"
  by (rule next_candidate_int)

end
