(* ===== verification/Bitrate_Apply.thy ===== *)
theory Bitrate_Apply
  imports Abr
begin

text \<open>
  Applying a bitrate to the host (\<open>streamer/src/bitrate_apply.rs\<close>): the status machine around the apply gate, and its runs as
  sequences of polls and acknowledgements. The outcome of the host call is an input of each poll.
\<close>

section \<open>Outcomes and status\<close>

datatype bitrate_apply_outcome = Out_SentUnacknowledged | Out_Unsupported string | Out_Failed string

datatype ack_status = Ack_Dispatched | Ack_ValidationFailed | Ack_EncoderApplied | Ack_EncoderFailed | Ack_UnsupportedParam

definition ack_from_wire :: "u32 \<Rightarrow> ack_status option" where
  "ack_from_wire raw = (if raw = 0 then Some Ack_Dispatched else if raw = 1 then Some Ack_ValidationFailed
    else if raw = 2 then Some Ack_EncoderApplied else if raw = 3 then Some Ack_EncoderFailed
    else if raw = 4 then Some Ack_UnsupportedParam else None)"

datatype ack_tier = Tier_Dispatched | Tier_EncoderConfirmed

definition ACK_TIMEOUT_MS :: nat where "ACK_TIMEOUT_MS = 3000"

datatype bitrate_apply_status =
  Ba_Idle
| Ba_SentUnacknowledged u32
| Ba_PendingAck u32 nat
| Ba_Applied u32 u32 ack_tier
| Ba_ApplyFailed u32 ack_status
| Ba_AckTimeout u32
| Ba_Unsupported u32 string
| Ba_Failed u32 string

fun is_terminal :: "bitrate_apply_status \<Rightarrow> bool" where
  "is_terminal (Ba_Unsupported _ _) = True"
| "is_terminal _ = False"

text \<open>The call into the GameStream client library: its result is a parameter.\<close>

datatype change_bitrate_result = Cb_Ok | Cb_NotSupportedOnHost | Cb_Err string

fun apply_bitrate_kbps :: "(u32 \<Rightarrow> change_bitrate_result) \<Rightarrow> u32 \<Rightarrow> bitrate_apply_outcome" where
  "apply_bitrate_kbps change_bitrate kbps = (case change_bitrate kbps of
    Cb_Ok \<Rightarrow> Out_SentUnacknowledged
  | Cb_NotSupportedOnHost \<Rightarrow> Out_Unsupported ''host did not advertise the compatible 0x5506 bitrate capability''
  | Cb_Err e \<Rightarrow> Out_Failed e)"

section \<open>Machine\<close>

record bitrate_apply_machine =
  ba_gate :: apply_gate
  ba_status :: bitrate_apply_status
  ba_last_attempt_ms :: "nat option"
  ba_ack_supported :: bool

definition ba_new :: "u32 \<Rightarrow> bitrate_apply_machine" where
  "ba_new initial = \<lparr>ba_gate = seed_initial_bitrate gate_new initial 0, ba_status = Ba_Idle,
    ba_last_attempt_ms = None, ba_ack_supported = False\<rparr>"

definition enable_ack_tracking :: "bitrate_apply_machine \<Rightarrow> bitrate_apply_machine" where
  "enable_ack_tracking m = m\<lparr>ba_ack_supported := True\<rparr>"

fun handle_ack :: "bitrate_apply_machine \<Rightarrow> u32 \<Rightarrow> ack_status \<Rightarrow> bitrate_apply_status option \<times> bitrate_apply_machine" where
  "handle_ack m applied status = (case ba_status m of
    Ba_PendingAck kbps _ \<Rightarrow>
      (let st = (case status of
          Ack_Dispatched \<Rightarrow> Ba_Applied kbps applied Tier_Dispatched
        | Ack_EncoderApplied \<Rightarrow> Ba_Applied kbps applied Tier_EncoderConfirmed
        | _ \<Rightarrow> Ba_ApplyFailed kbps status)
       in (Some st, m\<lparr>ba_status := st\<rparr>))
  | _ \<Rightarrow> (None, m))"

text \<open>The guards of \<open>poll\<close> before the gate is asked: \<open>None\<close> when they let the call go on.\<close>

definition retry_too_soon :: "bitrate_apply_machine \<Rightarrow> nat \<Rightarrow> bool" where
  "retry_too_soon m now = ((case ba_status m of Ba_Failed _ _ \<Rightarrow> True | _ \<Rightarrow> False)
    \<and> (case ba_last_attempt_ms m of Some t \<Rightarrow> now - t < MIN_APPLY_INTERVAL_MS | None \<Rightarrow> False))"

text \<open>
  Besides the returned status and the new machine, a poll shows the host call it made, if any: the time and the candidate.
\<close>

type_synonym poll_result = "bitrate_apply_status option \<times> (nat \<times> u32) option \<times> bitrate_apply_machine"

definition poll_gate :: "bitrate_apply_machine \<Rightarrow> u32 \<Rightarrow> nat \<Rightarrow> (u32 \<Rightarrow> bitrate_apply_outcome) \<Rightarrow> poll_result" where
  "poll_gate m target now host = (case next_candidate (ba_gate m) target now of
    None \<Rightarrow> (None, None, m)
  | Some candidate \<Rightarrow>
      let m1 = m\<lparr>ba_last_attempt_ms := Some now\<rparr>;
          m2 = (case host candidate of
            Out_SentUnacknowledged \<Rightarrow> m1\<lparr>ba_gate := record_sent_unacknowledged (ba_gate m1) candidate now,
              ba_status := if ba_ack_supported m1 then Ba_PendingAck candidate now else Ba_SentUnacknowledged candidate\<rparr>
          | Out_Unsupported reason \<Rightarrow> m1\<lparr>ba_status := Ba_Unsupported candidate reason\<rparr>
          | Out_Failed error \<Rightarrow> m1\<lparr>ba_status := Ba_Failed candidate error\<rparr>)
      in (Some (ba_status m2), Some (now, candidate), m2))"

definition ba_poll :: "bitrate_apply_machine \<Rightarrow> u32 \<Rightarrow> nat \<Rightarrow> (u32 \<Rightarrow> bitrate_apply_outcome) \<Rightarrow> poll_result" where
  "ba_poll m target now host = (
    if is_terminal (ba_status m) then (None, None, m)
    else case ba_status m of
      Ba_PendingAck kbps sent_at \<Rightarrow> if ACK_TIMEOUT_MS \<le> now - sent_at
        then (Some (Ba_AckTimeout kbps), None, m\<lparr>ba_status := Ba_AckTimeout kbps\<rparr>) else (None, None, m)
    | _ \<Rightarrow> if retry_too_soon m now then (None, None, m) else poll_gate m target now host)"

section \<open>Runs\<close>

text \<open>A poll with what the host would answer, or the delivery of an acknowledgement.\<close>

datatype ba_event = Ev_Poll u32 nat bitrate_apply_outcome | Ev_Ack u32 u32

text \<open>One event: the machine after it and the host call with its outcome. An unknown status value is discarded.\<close>

fun ba_step :: "bitrate_apply_machine \<Rightarrow> ba_event
    \<Rightarrow> (nat \<times> u32 \<times> bitrate_apply_outcome) list \<times> bitrate_apply_machine" where
  "ba_step m (Ev_Poll target now outcome) = (case ba_poll m target now (\<lambda>_. outcome) of
    (_, None, m') \<Rightarrow> ([], m') | (_, Some (t, k), m') \<Rightarrow> ([(t, k, outcome)], m'))"
| "ba_step m (Ev_Ack applied raw) = (case ack_from_wire raw of
    None \<Rightarrow> ([], m) | Some st \<Rightarrow> ([], snd (handle_ack m applied st)))"

fun ba_run :: "bitrate_apply_machine \<Rightarrow> ba_event list
    \<Rightarrow> (nat \<times> u32 \<times> bitrate_apply_outcome) list \<times> bitrate_apply_machine" where
  "ba_run m [] = ([], m)"
| "ba_run m (e # es) = (let (cs, m1) = ba_step m e; (cs', m2) = ba_run m1 es in (cs @ cs', m2))"

text \<open>The calls the library accepted, after the bitrate the stream was started with.\<close>

definition sent_calls :: "(nat \<times> u32 \<times> bitrate_apply_outcome) list \<Rightarrow> (nat \<times> u32) list" where
  "sent_calls cs = map (\<lambda>(t, k, _). (t, k)) (filter (\<lambda>(_, _, r). r = Out_SentUnacknowledged) cs)"

definition initial_call :: "u32 \<Rightarrow> (nat \<times> u32) list" where
  "initial_call k = (if 0 < k then [(0, k)] else [])"

text \<open>When a second value may follow a first.\<close>

definition spaced :: "nat \<times> u32 \<Rightarrow> nat \<times> u32 \<Rightarrow> bool" where
  "spaced p q = (let a = unat (snd q); b = unat (snd p) in
    max b 1 \<le> 10 * nat_dist a b \<and> (900 \<le> fst q - fst p \<or> a < b \<and> b \<le> 5 * nat_dist a b))"

section \<open>Invariant\<close>

text \<open>The gate remembers the last accepted call.\<close>

definition gate_of :: "(nat \<times> u32) list \<Rightarrow> apply_gate" where
  "gate_of ps = (if ps = [] then gate_new
    else \<lparr>last_sent_kbps = snd (last ps), last_sent_ms = fst (last ps), has_baseline = True\<rparr>)"

lemma gate_of_snoc [simp]: "gate_record (gate_of ps) k t = gate_of (ps @ [(t, k)])"
  by (simp add: gate_of_def gate_record_def gate_new_def)

lemma next_candidate_spaced:
  assumes "next_candidate (gate_of ps) t now = Some k"
  shows "k = t" "0 < t" "ps \<noteq> [] \<Longrightarrow> spaced (last ps) (now, t)"
  using assms by (auto simp: next_candidate_int gate_of_def gate_new_def spaced_def Let_def word_gt_0 unat_eq_zero max_def
      split: if_splits)

lemma ba_step_sent:
  assumes "ba_gate m = gate_of ps" "successively spaced ps" "ba_step m e = (cs, m')"
  shows "ba_gate m' = gate_of (ps @ sent_calls cs) \<and> successively spaced (ps @ sent_calls cs)"
proof (cases e)
  case (Ev_Ack a raw)
  then show ?thesis using assms
    by (auto simp: sent_calls_def Let_def split: option.splits bitrate_apply_status.splits)
next
  case (Ev_Poll target now r)
  show ?thesis
  proof (cases "fst (snd (ba_poll m target now (\<lambda>_. r)))")
    case None
    then have "cs = []" "ba_gate m' = ba_gate m"
      using assms(3) by (auto simp: Ev_Poll ba_poll_def poll_gate_def Let_def
          split: option.splits prod.splits bitrate_apply_status.splits if_splits)
    then show ?thesis using assms by (simp add: sent_calls_def)
  next
    case (Some c)
    then obtain k where k: "next_candidate (gate_of ps) target now = Some k" "c = (now, k)"
      "ba_poll m target now (\<lambda>_. r) = poll_gate m target now (\<lambda>_. r)"
      using assms(1) by (auto simp: ba_poll_def poll_gate_def Let_def
          split: option.splits bitrate_apply_status.splits if_splits)
    note sp = next_candidate_spaced [OF k(1)]
    from k assms have "cs = [(now, k, r)]"
      and g: "ba_gate m' = (if r = Out_SentUnacknowledged then gate_of (ps @ [(now, k)]) else gate_of ps)"
      by (cases r; simp add: Ev_Poll poll_gate_def Let_def record_sent_unacknowledged_def; fastforce)+
    then show ?thesis using assms(2) sp
      by (auto simp: sent_calls_def successively_append_iff)
  qed
qed

lemma ba_run_sent:
  assumes "ba_gate m = gate_of ps" "successively spaced ps" "ba_run m es = (cs, m')"
  shows "ba_gate m' = gate_of (ps @ sent_calls cs) \<and> successively spaced (ps @ sent_calls cs)"
  using assms
proof (induction es arbitrary: m ps cs)
  case Nil
  then show ?case by (simp add: sent_calls_def)
next
  case (Cons e es)
  obtain c m1 where e: "ba_step m e = (c, m1)" by (cases "ba_step m e")
  obtain c' m2 where es: "ba_run m1 es = (c', m2)" by (cases "ba_run m1 es")
  have c: "cs = c @ c'" "m' = m2" using Cons.prems(3) e es by (auto simp: Let_def)
  have s: "sent_calls (c @ c') = sent_calls c @ sent_calls c'" by (simp add: sent_calls_def)
  note st = ba_step_sent [OF Cons.prems(1,2) e]
  show ?case
    using Cons.IH [OF conjunct1 [OF st] conjunct2 [OF st], of c'] es unfolding c s append_assoc by blast
qed

definition ba_start :: "u32 \<Rightarrow> bool \<Rightarrow> bitrate_apply_machine" where
  "ba_start k ack = (if ack then enable_ack_tracking (ba_new k) else ba_new k)"

lemma ba_start_gate: "ba_gate (ba_start k ack) = gate_of (initial_call k)" "successively spaced (initial_call k)"
  by (simp_all add: ba_start_def ba_new_def enable_ack_tracking_def seed_initial_bitrate_def gate_of_def
      initial_call_def gate_record_def gate_new_def)

text \<open>A request that waits for its acknowledgement is the last one the gate recorded.\<close>

definition pending_recorded :: "bitrate_apply_machine \<Rightarrow> bool" where
  "pending_recorded m = (case ba_status m of Ba_PendingAck k t \<Rightarrow>
      ba_gate m = \<lparr>last_sent_kbps = k, last_sent_ms = t, has_baseline = True\<rparr> | _ \<Rightarrow> True)"

lemma pending_recorded_step: "pending_recorded m \<Longrightarrow> pending_recorded (snd (ba_step m e))"
proof (cases e)
  case (Ev_Ack a raw)
  then show "pending_recorded m \<Longrightarrow> ?thesis"
    by (auto simp: pending_recorded_def Let_def split: option.splits bitrate_apply_status.splits ack_status.splits)
next
  case (Ev_Poll target now r)
  then show "pending_recorded m \<Longrightarrow> ?thesis"
    by (auto simp: pending_recorded_def ba_poll_def poll_gate_def Let_def record_sent_unacknowledged_def gate_record_def
        split: option.splits bitrate_apply_status.splits bitrate_apply_outcome.splits prod.splits if_splits)
qed

lemma ba_run_Cons:
  "fst (ba_run m (e # es)) = fst (ba_step m e) @ fst (ba_run (snd (ba_step m e)) es)"
  "snd (ba_run m (e # es)) = snd (ba_run (snd (ba_step m e)) es)"
  by (simp_all add: Let_def split_beta)

lemma pending_recorded_run: "pending_recorded m \<Longrightarrow> pending_recorded (snd (ba_run m es))"
  by (induction es arbitrary: m) (simp_all add: ba_run_Cons pending_recorded_step del: ba_run.simps(2))

text \<open>Events that leave the machine as it is.\<close>

lemma ba_run_stays:
  assumes "\<And>e. e \<in> set es \<Longrightarrow> ba_step m e = ([], m)"
  shows "ba_run m es = ([], m)"
  using assms by (induction es) auto

lemma ba_run_no_calls:
  assumes "I m" "\<And>m e. I m \<Longrightarrow> e \<in> set es \<Longrightarrow> fst (ba_step m e) = [] \<and> I (snd (ba_step m e))"
  shows "fst (ba_run m es) = []"
  using assms by (induction es arbitrary: m) (simp_all add: ba_run_Cons del: ba_run.simps(2))

text \<open>A target equal to the recorded one never passes the gate.\<close>

lemma same_target_held:
  assumes "has_baseline (ba_gate m)" "last_sent_kbps (ba_gate m) = k"
  shows "fst (ba_step m (Ev_Poll k now r)) = [] \<and> ba_gate (snd (ba_step m (Ev_Poll k now r))) = ba_gate m"
proof -
  have "next_candidate (ba_gate m) k now = None" using assms by (simp add: next_candidate_int nat_dist_def Let_def)
  then show ?thesis
    by (auto simp: ba_poll_def poll_gate_def split: bitrate_apply_status.splits)
qed

section \<open>Properties\<close>

text \<open>
  C27.
  No control churn. Whatever targets, times, host answers and acknowledgements arrive, two consecutive bitrates the library accepted
  (the one the stream started with included) differ by at least a tenth of the first, and either 900 ms passed between them
  or the second is lower by at least a fifth.
\<close>

theorem applied_bitrates_spaced:
  "successively spaced (initial_call k @ sent_calls (fst (ba_run (ba_start k ack) es)))"
  using ba_run_sent [OF ba_start_gate, of k ack es] by (metis prod.collapse)

text \<open>
  One request in flight, and a host that refuses is left alone. While a request waits for its acknowledgement and the wait has not
  reached 3000 ms, polls and unknown status values change nothing and call nobody; after the host reported that it does not
  support the message, no event does.
\<close>

theorem request_in_flight_blocks:
  assumes "is_terminal (ba_status m) \<or> (\<exists>k t. ba_status m = Ba_PendingAck k t \<and> list_all (\<lambda>e. case e of
      Ev_Poll _ now _ \<Rightarrow> now < t + 3000 | Ev_Ack _ raw \<Rightarrow> ack_from_wire raw = None) es)"
  shows "ba_run m es = ([], m)"
proof (rule ba_run_stays)
  fix e assume e: "e \<in> set es"
  from assms show "ba_step m e = ([], m)"
  proof (elim disjE exE conjE)
    assume "is_terminal (ba_status m)"
    then show ?thesis
      by (cases e) (auto simp: ba_poll_def split: option.splits bitrate_apply_status.splits)
  next
    fix k t assume m: "ba_status m = Ba_PendingAck k t"
      and es: "list_all (\<lambda>e. case e of Ev_Poll _ now _ \<Rightarrow> now < t + 3000 | Ev_Ack _ raw \<Rightarrow> ack_from_wire raw = None) es"
    from es e have "case e of Ev_Poll _ now _ \<Rightarrow> now < t + 3000 | Ev_Ack _ raw \<Rightarrow> ack_from_wire raw = None" by (auto simp: list_all_iff)
    then show ?thesis using m
      by (cases e) (auto simp: ba_poll_def ACK_TIMEOUT_MS_def)
  qed
qed

theorem request_in_flight_blocks_witness:
  "ba_run (ba_start 0 True) [Ev_Poll 8000 1000 Out_SentUnacknowledged, Ev_Poll 2000 3999 Out_SentUnacknowledged, Ev_Ack 8000 9]
    = ([(1000, 8000, Out_SentUnacknowledged)], snd (ba_run (ba_start 0 True) [Ev_Poll 8000 1000 Out_SentUnacknowledged]))"
proof -
  define m where "m = snd (ba_run (ba_start 0 True) [Ev_Poll 8000 1000 Out_SentUnacknowledged])"
  have s: "ba_step (ba_start 0 True) (Ev_Poll 8000 1000 Out_SentUnacknowledged) = ([(1000, 8000, Out_SentUnacknowledged)], m)"
    "ba_status m = Ba_PendingAck 8000 1000"
    by (simp_all add: m_def ba_start_def ba_new_def enable_ack_tracking_def seed_initial_bitrate_def gate_new_def ba_poll_def
        retry_too_soon_def poll_gate_def next_candidate_def)
  have "ba_run m [Ev_Poll 2000 3999 Out_SentUnacknowledged, Ev_Ack 8000 9] = ([], m)"
    by (rule request_in_flight_blocks) (simp add: s(2) ack_from_wire_def)
  then show ?thesis unfolding m_def [symmetric] ba_run.simps(2) [of "ba_start 0 True"] s(1) Let_def prod.case by simp
qed

text \<open>
  A request whose acknowledgement never comes is not sent again. In every reachable state in which a request for \<open>k\<close> waits, no
  sequence of polls with the target \<open>k\<close>, however late, calls the host: the gate has recorded the request as sent and holds an
  unchanged target, also after the timeout.
\<close>

theorem timed_out_request_not_retried:
  assumes "ba_status (snd (ba_run (ba_start k0 ack) es)) = Ba_PendingAck k t"
    "list_all (\<lambda>e. case e of Ev_Poll target _ _ \<Rightarrow> target = k | Ev_Ack _ _ \<Rightarrow> False) fs"
  shows "fst (ba_run (snd (ba_run (ba_start k0 ack) es)) fs) = []"
proof (rule ba_run_no_calls [where I = "\<lambda>m. has_baseline (ba_gate m) \<and> last_sent_kbps (ba_gate m) = k"])
  have "pending_recorded (ba_start k0 ack)" by (simp add: pending_recorded_def ba_start_def ba_new_def enable_ack_tracking_def)
  from pending_recorded_run [OF this, of es] assms(1)
  show "has_baseline (ba_gate (snd (ba_run (ba_start k0 ack) es))) \<and> last_sent_kbps (ba_gate (snd (ba_run (ba_start k0 ack) es))) = k"
    by (simp add: pending_recorded_def)
next
  fix m :: bitrate_apply_machine and e assume m: "has_baseline (ba_gate m) \<and> last_sent_kbps (ba_gate m) = k" and e: "e \<in> set fs"
  from assms(2) e obtain now r where "e = Ev_Poll k now r" by (cases e) (auto simp: list_all_iff)
  then show "fst (ba_step m e) = [] \<and> has_baseline (ba_gate (snd (ba_step m e))) \<and> last_sent_kbps (ba_gate (snd (ba_step m e))) = k"
    using same_target_held [of m k now r] m by simp
qed

theorem timed_out_request_not_retried_witness:
  "fst (ba_run (snd (ba_run (ba_start 0 True) [Ev_Poll 8000 1000 Out_SentUnacknowledged]))
    [Ev_Poll 8000 4000 Out_SentUnacknowledged, Ev_Poll 8000 60000 Out_SentUnacknowledged]) = []"
  by (rule timed_out_request_not_retried [where k = 8000 and t = 1000])
    (simp_all add: ba_start_def ba_new_def enable_ack_tracking_def seed_initial_bitrate_def gate_new_def ba_poll_def
      retry_too_soon_def poll_gate_def next_candidate_def)

end
