(* ===== verification/Cc.thy ===== *)
theory Cc
  imports Abr
begin

text \<open>
  The frame-delay congestion controller (\<open>CcController\<close> in \<open>streamer/src/cc.rs\<close>) and the composition of its target with the
  adaptive bitrate. Durations are \<open>u64\<close> microseconds with the saturating arithmetic of the source, ratios are \<open>f64\<close>; a panic
  (division by zero, \<open>clamp\<close>) is \<open>None\<close>.
\<close>

section \<open>Configuration\<close>

record cc_config =
  cc_min_kbps :: u32
  cc_max_kbps :: u32
  cc_window_frames :: nat
  cc_ema_alpha_inv :: u32
  cc_inflate_ratio :: f64
  cc_deflate_ratio :: f64
  cc_inflate_frames :: u32
  cc_deflate_frames :: u32
  cc_md_factor :: f64
  cc_probe_additive_kbps :: u32
  cc_cooldown_frames :: u32
  cc_loss_threshold :: f64
  cc_budget_factor :: f64

definition cc_from_ceiling :: "u32 \<Rightarrow> cc_config" where
  "cc_from_ceiling max0 = (let mx = max max0 1 in
    \<lparr>cc_min_kbps = min (max (mx div 10) 500) mx, cc_max_kbps = mx, cc_window_frames = 60, cc_ema_alpha_inv = 8,
     cc_inflate_ratio = f64_of (5 / 4), cc_deflate_ratio = f64_of (9 / 10), cc_inflate_frames = 8, cc_deflate_frames = 16,
     cc_md_factor = f64_of (17 / 20), cc_probe_additive_kbps = max (mx div 40) 100, cc_cooldown_frames = 30,
     cc_loss_threshold = f64_of (1 / 10), cc_budget_factor = f64_of 1\<rparr>)"

definition cc_sanitised :: "cc_config \<Rightarrow> cc_config option" where
  "cc_sanitised c = (let mx = max (cc_max_kbps c) 1 in
    case ord_clamp (cc_min_kbps c) 1 mx of None \<Rightarrow> None
    | Some mn \<Rightarrow> Some
      \<lparr>cc_min_kbps = mn, cc_max_kbps = mx,
       cc_window_frames = max 1 (min (cc_window_frames c) 10000),
       cc_ema_alpha_inv = max (cc_ema_alpha_inv c) 1,
       cc_inflate_ratio = (if f_is_finite (cc_inflate_ratio c) \<and> f_lt (Fin 1) (cc_inflate_ratio c)
         then cc_inflate_ratio c else f64_of (5 / 4)),
       cc_deflate_ratio = (if f_is_finite (cc_deflate_ratio c) \<and> f_lt (Fin 0) (cc_deflate_ratio c)
           \<and> f_lt (cc_deflate_ratio c) (Fin 1) then cc_deflate_ratio c else f64_of (9 / 10)),
       cc_inflate_frames = max (cc_inflate_frames c) 1,
       cc_deflate_frames = max (cc_deflate_frames c) 1,
       cc_md_factor = (if f_is_finite (cc_md_factor c) \<and> f_lt (Fin 0) (cc_md_factor c)
         then f_min (cc_md_factor c) (Fin 1) else f64_of (17 / 20)),
       cc_probe_additive_kbps = max (cc_probe_additive_kbps c) 1,
       cc_cooldown_frames = max 1 (min (cc_cooldown_frames c) 10000),
       cc_loss_threshold = (if f_is_finite (cc_loss_threshold c) \<and> f_lt (Fin 0) (cc_loss_threshold c)
           \<and> f_le (cc_loss_threshold c) (Fin 1) then cc_loss_threshold c else f64_of (1 / 10)),
       cc_budget_factor = (if f_is_finite (cc_budget_factor c) \<and> f_lt (Fin 0) (cc_budget_factor c)
         then f_min (cc_budget_factor c) (f64_of 1000000) else f64_of 1)\<rparr>)"

section \<open>Controller\<close>

datatype cc_verdict = Skipped | WarmingUp | Hold | Decrease | Increase | CooldownHold

record cc_controller =
  cc_config :: cc_config
  cc_target_kbps :: u32
  cc_window :: "u64 list"
  cc_baseline_us :: "u64 option"
  cc_smoothed_us :: "u64 option"
  cc_inflate_count :: u32
  cc_deflate_count :: u32
  cc_cooldown_remaining :: u32
  cc_last_send_done_us :: "u64 option"

definition cc_new :: "cc_config \<Rightarrow> cc_controller option" where
  "cc_new c = (case cc_sanitised c of None \<Rightarrow> None
    | Some c' \<Rightarrow> Some \<lparr>cc_config = c', cc_target_kbps = cc_max_kbps c', cc_window = [], cc_baseline_us = None,
        cc_smoothed_us = None, cc_inflate_count = 0, cc_deflate_count = 0, cc_cooldown_remaining = 0,
        cc_last_send_done_us = None\<rparr>)"

definition sat_mul :: "'a::len word \<Rightarrow> 'a word \<Rightarrow> 'a word" where
  "sat_mul a b = (if 2 ^ LENGTH('a) \<le> uint a * uint b then - 1 else a * b)"

text \<open>The average, the window and the baseline of one frame.\<close>

definition cc_ema :: "cc_controller \<Rightarrow> u64 \<Rightarrow> u64 option" where
  "cc_ema s service = (let n = ucast (cc_ema_alpha_inv (cc_config s)) :: u64 in
    if n = 0 then None
    else Some (case cc_smoothed_us s of None \<Rightarrow> service
      | Some v \<Rightarrow> sat_add (sat_mul v (n - 1)) service div n))"

definition cc_push_window :: "cc_controller \<Rightarrow> u64 \<Rightarrow> cc_controller" where
  "cc_push_window s service = (let w = cc_window s @ [service];
      w' = if cc_window_frames (cc_config s) < length w then tl w else w
    in s\<lparr>cc_window := w', cc_baseline_us := if length w' = cc_window_frames (cc_config s)
      then Some (if w' = [] then 1 else min_list w') else cc_baseline_us s\<rparr>)"

definition cc_inflated :: "cc_config \<Rightarrow> u64 \<Rightarrow> u64 \<Rightarrow> u64 \<Rightarrow> bool" where
  "cc_inflated c smoothed baseline interval = (
    f_lt (cc_inflate_ratio c) (f_div (f_of_word smoothed) (f_of_word baseline))
    \<or> (0 < interval \<and> f_lt (f_mul (cc_budget_factor c) (f_of_word interval)) (f_of_word smoothed)))"

definition cc_deflated :: "cc_config \<Rightarrow> u64 \<Rightarrow> u64 \<Rightarrow> bool" where
  "cc_deflated c smoothed baseline = f_lt (f_div (f_of_word smoothed) (f_of_word baseline)) (cc_deflate_ratio c)"

definition cc_count :: "cc_controller \<Rightarrow> bool \<Rightarrow> bool \<Rightarrow> cc_controller" where
  "cc_count s inflated deflated = (
    if inflated then s\<lparr>cc_inflate_count := sat_add (cc_inflate_count s) 1, cc_deflate_count := 0\<rparr>
    else if deflated then s\<lparr>cc_deflate_count := sat_add (cc_deflate_count s) 1, cc_inflate_count := 0\<rparr>
    else s\<lparr>cc_inflate_count := 0, cc_deflate_count := 0\<rparr>)"

definition cc_decreased :: "cc_controller \<Rightarrow> u32 option" where
  "cc_decreased s = ord_clamp (f_to_word (f_mul (f_of_word (cc_target_kbps s)) (cc_md_factor (cc_config s))))
    (cc_min_kbps (cc_config s)) (cc_max_kbps (cc_config s))"

definition cc_act :: "cc_controller \<Rightarrow> (cc_verdict \<times> cc_controller) option" where
  "cc_act s = (let c = cc_config s in
    if cc_inflate_frames c \<le> cc_inflate_count s then
      if 0 < cc_cooldown_remaining s then Some (CooldownHold, s)
      else case cc_decreased s of None \<Rightarrow> None
        | Some k \<Rightarrow> Some (Decrease, s\<lparr>cc_target_kbps := k,
            cc_cooldown_remaining := sat_add (cc_cooldown_frames c) 1, cc_inflate_count := 0\<rparr>)
    else if cc_deflate_frames c \<le> cc_deflate_count s then
      Some (Increase, s\<lparr>cc_target_kbps := min (sat_add (cc_target_kbps s) (cc_probe_additive_kbps c)) (cc_max_kbps c),
        cc_deflate_count := 0\<rparr>)
    else Some (Hold, s))"

definition cc_cool :: "cc_controller \<Rightarrow> cc_controller" where
  "cc_cool s = (let r = sat_sub (cc_cooldown_remaining s) 1;
      s' = s\<lparr>cc_cooldown_remaining := r\<rparr>
    in if 0 < cc_cooldown_remaining s \<and> r = 0 then s'\<lparr>cc_inflate_count := 0\<rparr> else s')"

text \<open>\<open>on_frame\<close>; the frame size is not used by the control law.\<close>

definition cc_on_frame :: "cc_controller \<Rightarrow> u64 \<Rightarrow> u64 \<Rightarrow> u64 \<Rightarrow> ((u32 \<times> cc_verdict) \<times> cc_controller) option" where
  "cc_on_frame s send_start send_done interval = (
    let service = sat_sub send_done send_start in
    if (case cc_last_send_done_us s of None \<Rightarrow> False | Some l \<Rightarrow> send_done \<le> l)
    then Some ((cc_target_kbps s, Skipped), s)
    else let s1 = s\<lparr>cc_last_send_done_us := Some send_done\<rparr> in
    case cc_ema s1 service of None \<Rightarrow> None
    | Some smoothed \<Rightarrow>
      let s2 = cc_push_window (s1\<lparr>cc_smoothed_us := Some smoothed\<rparr>) service in
      case cc_baseline_us s2 of
        None \<Rightarrow> let s3 = s2\<lparr>cc_cooldown_remaining := sat_sub (cc_cooldown_remaining s2) 1\<rparr>
          in Some ((cc_target_kbps s3, WarmingUp), s3)
      | Some b \<Rightarrow>
        let baseline = max b 1; c = cc_config s2;
            s3 = cc_count s2 (cc_inflated c smoothed baseline interval) (cc_deflated c smoothed baseline)
        in case cc_act s3 of None \<Rightarrow> None
          | Some (v, s4) \<Rightarrow> let s5 = cc_cool s4 in Some ((cc_target_kbps s5, v), s5))"

definition cc_on_loss_report :: "cc_controller \<Rightarrow> f64 \<Rightarrow> (u32 \<times> cc_controller) option" where
  "cc_on_loss_report s loss_fraction = (case sanitise_loss loss_fraction of None \<Rightarrow> None
    | Some loss \<Rightarrow> if f_le (cc_loss_threshold (cc_config s)) loss
      then case cc_decreased s of None \<Rightarrow> None
        | Some k \<Rightarrow> Some (k, s\<lparr>cc_target_kbps := k, cc_cooldown_remaining := cc_cooldown_frames (cc_config s),
            cc_inflate_count := 0, cc_deflate_count := 0\<rparr>)
      else Some (cc_target_kbps s, s))"

section \<open>Composition with the adaptive bitrate\<close>

definition effective_target_kbps :: "u32 \<Rightarrow> u32 \<Rightarrow> u32" where
  "effective_target_kbps abr cc = (if abr = 0 then cc else if cc = 0 then abr else min abr cc)"

definition interval_us_from_fps :: "u32 \<Rightarrow> u64" where
  "interval_us_from_fps fps = (if fps = 0 then 0 else 1000000 div ucast fps)"

section \<open>Runs\<close>

text \<open>The sender loop feeds frames and, before a frame, pending loss reports. The log has the verdict of every frame.\<close>

datatype cc_event = Cc_Frame u64 u64 u64 | Cc_Loss f64

fun cc_step :: "cc_controller \<Rightarrow> cc_event \<Rightarrow> (cc_verdict list \<times> cc_controller) option" where
  "cc_step s (Cc_Frame a b i) = (case cc_on_frame s a b i of None \<Rightarrow> None | Some ((_, v), s') \<Rightarrow> Some ([v], s'))"
| "cc_step s (Cc_Loss q) = (case cc_on_loss_report s q of None \<Rightarrow> None | Some (_, s') \<Rightarrow> Some ([], s'))"

fun cc_run :: "cc_controller \<Rightarrow> cc_event list \<Rightarrow> (cc_verdict list \<times> cc_controller) option" where
  "cc_run s [] = Some ([], s)"
| "cc_run s (e # es) = (case cc_step s e of None \<Rightarrow> None
    | Some (vs, s1) \<Rightarrow> (case cc_run s1 es of None \<Rightarrow> None | Some (ws, s2) \<Rightarrow> Some (vs @ ws, s2)))"

section \<open>Invariant\<close>

definition cc_config_ok :: "cc_config \<Rightarrow> bool" where
  "cc_config_ok c \<longleftrightarrow> 1 \<le> cc_min_kbps c \<and> cc_min_kbps c \<le> cc_max_kbps c \<and> 1 \<le> cc_ema_alpha_inv c
    \<and> 1 \<le> cc_inflate_frames c \<and> 1 \<le> cc_cooldown_frames c \<and> cc_cooldown_frames c \<le> 10000
    \<and> (case cc_md_factor c of Fin h \<Rightarrow> 0 \<le> h \<and> h \<le> 1 | _ \<Rightarrow> False)"

definition cc_inv :: "cc_controller \<Rightarrow> bool" where
  "cc_inv s \<longleftrightarrow> cc_config_ok (cc_config s) \<and> cc_min_kbps (cc_config s) \<le> cc_target_kbps s
    \<and> cc_target_kbps s \<le> cc_max_kbps (cc_config s)
    \<and> (cc_baseline_us s = None \<longrightarrow> cc_inflate_count s = 0)"

lemma cc_new_inv: "\<exists>s. cc_new c = Some s \<and> cc_inv s \<and> cc_target_kbps s = cc_max_kbps (cc_config s)"
proof -
  have one: "1 \<le> max (cc_max_kbps c) 1" by simp
  have "\<exists>h. (if f_is_finite (cc_md_factor c) \<and> f_lt (Fin 0) (cc_md_factor c)
      then f_min (cc_md_factor c) (Fin 1) else f64_of (17 / 20)) = Fin h \<and> 0 \<le> h \<and> h \<le> 1"
    using f64_of_unit [of "17 / 20"] by (cases "cc_md_factor c") (auto simp: f_min_def)
  then obtain h where h: "(if f_is_finite (cc_md_factor c) \<and> f_lt (Fin 0) (cc_md_factor c)
      then f_min (cc_md_factor c) (Fin 1) else f64_of (17 / 20)) = Fin h" "0 \<le> h" "h \<le> 1" by blast
  then show ?thesis
    by (simp add: cc_new_def cc_sanitised_def ord_clamp_eq [OF one] cc_inv_def cc_config_ok_def Let_def)
qed

text \<open>The multiplicative decrease exists and does not raise the target.\<close>

lemma cc_decreased_spec:
  assumes "cc_inv s"
  obtains k where "cc_decreased s = Some k" "k \<le> cc_target_kbps s" "cc_min_kbps (cc_config s) \<le> k"
proof -
  let ?c = "cc_config s"
  from assms obtain h where h: "cc_md_factor ?c = Fin h" "0 \<le> h" "h \<le> 1"
    by (cases "cc_md_factor ?c") (auto simp: cc_inv_def cc_config_ok_def)
  define d :: u32 where "d = f_to_word (f_mul (f_of_word (cc_target_kbps s)) (Fin h))"
  have d: "d \<le> cc_target_kbps s"
    using f_scale(3) [OF h(2,3), of "cc_target_kbps s"] by (simp only: d_def f_of_u32 word_le_nat_alt)
  have i: "cc_min_kbps ?c \<le> cc_max_kbps ?c" "cc_min_kbps ?c \<le> cc_target_kbps s"
    using assms by (auto simp: cc_inv_def cc_config_ok_def)
  then have "cc_decreased s = Some (max (cc_min_kbps ?c) (min d (cc_max_kbps ?c)))"
    by (simp add: cc_decreased_def h(1) d_def ord_clamp_eq)
  then show thesis by (rule that) (use d i in \<open>auto simp: min_le_iff_disj\<close>)
qed

text \<open>The stages of a frame: what each leaves alone.\<close>

lemma cc_push_window_same [simp]:
  "cc_config (cc_push_window s x) = cc_config s" "cc_target_kbps (cc_push_window s x) = cc_target_kbps s"
  "cc_inflate_count (cc_push_window s x) = cc_inflate_count s"
  "cc_cooldown_remaining (cc_push_window s x) = cc_cooldown_remaining s"
  by (simp_all add: cc_push_window_def Let_def)

lemma cc_count_same [simp]:
  "cc_config (cc_count s a b) = cc_config s" "cc_target_kbps (cc_count s a b) = cc_target_kbps s"
  "cc_cooldown_remaining (cc_count s a b) = cc_cooldown_remaining s"
  by (simp_all add: cc_count_def)

lemma cc_count_inflate: "unat (cc_inflate_count (cc_count s a b)) \<le> unat (cc_inflate_count s) + 1"
  using unat_sat_add_le [of "cc_inflate_count s" 1] by (simp add: cc_count_def)

lemma cc_cool_same [simp]: "cc_config (cc_cool s) = cc_config s" "cc_target_kbps (cc_cool s) = cc_target_kbps s"
  by (simp_all add: cc_cool_def Let_def)

text \<open>
  The part of the state the spacing of decreases depends on: the wait after the last one and the count of inflated frames.
  \<open>cc_tick\<close> says how one processed frame changes it, \<open>d\<close> being whether the frame decreased.
\<close>

definition cc_tick :: "cc_controller \<Rightarrow> bool \<Rightarrow> cc_controller \<Rightarrow> bool" where
  "cc_tick s d s' \<longleftrightarrow> (if d
    then cc_cooldown_remaining s = 0 \<and> unat (cc_inflate_frames (cc_config s)) \<le> unat (cc_inflate_count s) + 1
      \<and> unat (cc_cooldown_remaining s') = unat (cc_cooldown_frames (cc_config s)) \<and> cc_inflate_count s' = 0
    else unat (cc_cooldown_remaining s') = unat (cc_cooldown_remaining s) - 1
      \<and> unat (cc_inflate_count s') \<le> unat (cc_inflate_count s) + 1
      \<and> (unat (cc_cooldown_remaining s) = 1 \<longrightarrow> cc_inflate_count s' = 0))"

lemma cc_push_window_baseline: "cc_baseline_us (cc_push_window s x) = None \<Longrightarrow> cc_baseline_us s = None"
  by (auto simp: cc_push_window_def Let_def split: if_splits)

lemma cc_cool_tick:
  "unat (cc_cooldown_remaining (cc_cool s)) = unat (cc_cooldown_remaining s) - 1"
  "cc_inflate_count (cc_cool s) = (if unat (cc_cooldown_remaining s) = 1 then 0 else cc_inflate_count s)"
proof -
  have "sat_sub r 1 = 0 \<longleftrightarrow> unat r \<le> 1" "0 < r \<longleftrightarrow> 0 < unat r" for r :: u32
    by (simp_all add: word_unat_eq_iff [of "sat_sub r 1"] unat_sat_sub word_gt_0 unat_gt_0)
  then show "unat (cc_cooldown_remaining (cc_cool s)) = unat (cc_cooldown_remaining s) - 1"
    "cc_inflate_count (cc_cool s) = (if unat (cc_cooldown_remaining s) = 1 then 0 else cc_inflate_count s)"
    by (auto simp: cc_cool_def Let_def unat_sat_sub)
qed

text \<open>What an action and the whole frame may do to the target.\<close>

definition cc_moves :: "cc_config \<Rightarrow> u32 \<Rightarrow> cc_verdict \<Rightarrow> u32 \<Rightarrow> bool" where
  "cc_moves c old v new \<longleftrightarrow> (case v of Decrease \<Rightarrow> new \<le> old
    | Increase \<Rightarrow> old \<le> new \<and> unat new \<le> unat old + unat (cc_probe_additive_kbps c)
    | _ \<Rightarrow> new = old)"

lemma cc_act_spec:
  assumes "cc_config_ok (cc_config s)" "cc_min_kbps (cc_config s) \<le> cc_target_kbps s"
    "cc_target_kbps s \<le> cc_max_kbps (cc_config s)"
  obtains v s' where "cc_act s = Some (v, s')" "cc_config s' = cc_config s" "cc_baseline_us s' = cc_baseline_us s"
    "cc_min_kbps (cc_config s) \<le> cc_target_kbps s'" "cc_target_kbps s' \<le> cc_max_kbps (cc_config s)"
    "cc_moves (cc_config s) (cc_target_kbps s) v (cc_target_kbps s')" "v \<noteq> Skipped"
    "v = Decrease \<Longrightarrow> cc_cooldown_remaining s = 0 \<and> cc_inflate_frames (cc_config s) \<le> cc_inflate_count s
      \<and> cc_inflate_count s' = 0 \<and> unat (cc_cooldown_remaining s') = unat (cc_cooldown_frames (cc_config s)) + 1"
    "v \<noteq> Decrease \<Longrightarrow> cc_cooldown_remaining s' = cc_cooldown_remaining s \<and> cc_inflate_count s' = cc_inflate_count s"
proof -
  let ?c = "cc_config s"
  have "cc_decreased (s\<lparr>cc_baseline_us := Some 0\<rparr>) = cc_decreased s" by (simp add: cc_decreased_def)
  moreover have "cc_inv (s\<lparr>cc_baseline_us := Some 0\<rparr>)" using assms by (simp add: cc_inv_def)
  ultimately obtain k where k: "cc_decreased s = Some k" "k \<le> cc_target_kbps s" "cc_min_kbps ?c \<le> k"
    using cc_decreased_spec [of "s\<lparr>cc_baseline_us := Some 0\<rparr>"] by auto
  have cd: "unat (sat_add (cc_cooldown_frames ?c) 1) = unat (cc_cooldown_frames ?c) + 1"
    using assms(1) by (simp add: unat_sat_add_min cc_config_ok_def word_le_nat_alt)
  let ?a = "sat_add (cc_target_kbps s) (cc_probe_additive_kbps ?c)"
  have a: "cc_target_kbps s \<le> ?a" "unat ?a \<le> unat (cc_target_kbps s) + unat (cc_probe_additive_kbps ?c)"
    by (rule sat_add_ge, rule unat_sat_add_le)
  consider (hold) "cc_inflate_frames ?c \<le> cc_inflate_count s" "0 < cc_cooldown_remaining s"
    | (dec) "cc_inflate_frames ?c \<le> cc_inflate_count s" "cc_cooldown_remaining s = 0"
    | (inc) "\<not> cc_inflate_frames ?c \<le> cc_inflate_count s" "cc_deflate_frames ?c \<le> cc_deflate_count s"
    | (no) "\<not> cc_inflate_frames ?c \<le> cc_inflate_count s" "\<not> cc_deflate_frames ?c \<le> cc_deflate_count s"
    by (metis word_gt_0)
  then show thesis
  proof cases
    case hold
    then show thesis using assms by (intro that) (auto simp: cc_act_def cc_moves_def Let_def)
  next
    case dec
    let ?s = "s\<lparr>cc_target_kbps := k, cc_cooldown_remaining := sat_add (cc_cooldown_frames ?c) 1, cc_inflate_count := 0\<rparr>"
    show thesis using dec k assms cd
      by (intro that [of Decrease ?s]) (auto simp: cc_act_def cc_moves_def Let_def)
  next
    case inc
    let ?s = "s\<lparr>cc_target_kbps := min ?a (cc_max_kbps ?c), cc_deflate_count := 0\<rparr>"
    have "unat (min ?a (cc_max_kbps ?c)) \<le> unat (cc_target_kbps s) + unat (cc_probe_additive_kbps ?c)"
      using a(2) by (simp add: unat_min)
    then show thesis using inc assms a
      by (intro that [of Increase ?s]) (auto simp: cc_act_def cc_moves_def Let_def intro: order_trans)
  next
    case no
    then show thesis using assms by (intro that) (auto simp: cc_act_def cc_moves_def Let_def)
  qed
qed

lemma cc_ema_total:
  assumes "cc_config_ok (cc_config s)"
  shows "\<exists>m. cc_ema s x = Some m"
proof -
  have "cc_ema_alpha_inv (cc_config s) \<noteq> 0" using assms by (auto simp: cc_config_ok_def)
  moreover have "unat (ucast w :: u64) = unat w" for w :: u32
    using unat_lt_u32 [of w] by (simp add: unsigned_ucast_eq take_bit_nat_eq_self)
  ultimately have "(ucast (cc_ema_alpha_inv (cc_config s)) :: u64) \<noteq> 0"
    by (metis unat_eq_zero)
  then show ?thesis by (simp add: cc_ema_def Let_def)
qed

lemma cc_on_frame_spec:
  assumes "cc_inv s"
  obtains v s' where "cc_on_frame s a b i = Some ((cc_target_kbps s', v), s')" "cc_inv s'" "cc_config s' = cc_config s"
    "cc_moves (cc_config s) (cc_target_kbps s) v (cc_target_kbps s')" "v = Skipped \<longrightarrow> s' = s"
    "v \<noteq> Skipped \<longrightarrow> cc_tick s (v = Decrease) s'"
proof (cases "case cc_last_send_done_us s of None \<Rightarrow> False | Some l \<Rightarrow> b \<le> l")
  case True
  then show thesis using assms by (intro that [of s Skipped]) (simp_all add: cc_on_frame_def cc_moves_def Let_def)
next
  case False
  define s1 where "s1 = s\<lparr>cc_last_send_done_us := Some b\<rparr>"
  have ok: "cc_config_ok (cc_config s)" "cc_min_kbps (cc_config s) \<le> cc_target_kbps s"
    "cc_target_kbps s \<le> cc_max_kbps (cc_config s)" using assms by (auto simp: cc_inv_def)
  obtain m where m: "cc_ema s1 (sat_sub b a) = Some m"
    using cc_ema_total [of s1] ok(1) by (auto simp: s1_def)
  define s2 where "s2 = cc_push_window (s1\<lparr>cc_smoothed_us := Some m\<rparr>) (sat_sub b a)"
  have s2: "cc_config s2 = cc_config s" "cc_target_kbps s2 = cc_target_kbps s" "cc_inflate_count s2 = cc_inflate_count s"
    "cc_cooldown_remaining s2 = cc_cooldown_remaining s"
    by (simp_all add: s2_def s1_def)
  note unfold = cc_on_frame_def Let_def False m s1_def [symmetric] s2_def [symmetric]
  show thesis
  proof (cases "cc_baseline_us s2")
    case None
    then have "cc_baseline_us s = None" using cc_push_window_baseline by (fastforce simp: s2_def s1_def)
    then have z: "cc_inflate_count s = 0" using assms by (simp add: cc_inv_def)
    let ?s = "s2\<lparr>cc_cooldown_remaining := sat_sub (cc_cooldown_remaining s2) 1\<rparr>"
    show thesis
      using None ok s2 z m False
      by (intro that [of ?s WarmingUp])
        (auto simp: unfold cc_inv_def cc_moves_def cc_tick_def unat_sat_sub)
  next
    case (Some w)
    define s3 where "s3 = cc_count s2 (cc_inflated (cc_config s2) m (max w 1) i) (cc_deflated (cc_config s2) m (max w 1))"
    have s3: "cc_config s3 = cc_config s" "cc_target_kbps s3 = cc_target_kbps s"
      "cc_cooldown_remaining s3 = cc_cooldown_remaining s" "cc_baseline_us s3 = Some w"
      by (simp_all add: s3_def s2 Some cc_count_def)
    have i3: "unat (cc_inflate_count s3) \<le> unat (cc_inflate_count s) + 1"
      using cc_count_inflate [of s2] s2(3) by (simp add: s3_def)
    obtain v s4 where s4: "cc_act s3 = Some (v, s4)" "cc_config s4 = cc_config s" "cc_baseline_us s4 = Some w"
      "cc_min_kbps (cc_config s) \<le> cc_target_kbps s4" "cc_target_kbps s4 \<le> cc_max_kbps (cc_config s)"
      "cc_moves (cc_config s) (cc_target_kbps s) v (cc_target_kbps s4)" "v \<noteq> Skipped"
      "v = Decrease \<Longrightarrow> cc_cooldown_remaining s = 0 \<and> cc_inflate_frames (cc_config s) \<le> cc_inflate_count s3
        \<and> cc_inflate_count s4 = 0 \<and> unat (cc_cooldown_remaining s4) = unat (cc_cooldown_frames (cc_config s)) + 1"
      "v \<noteq> Decrease \<Longrightarrow> cc_cooldown_remaining s4 = cc_cooldown_remaining s \<and> cc_inflate_count s4 = cc_inflate_count s3"
      using cc_act_spec [of s3] ok s3 by (metis (no_types, lifting))
    have "cc_tick s (v = Decrease) (cc_cool s4)"
    proof (cases "v = Decrease")
      case True
      then show ?thesis using s4(8) i3 by (auto simp: cc_tick_def cc_cool_tick word_le_nat_alt)
    next
      case False
      then show ?thesis using s4(9) i3 by (auto simp: cc_tick_def cc_cool_tick)
    qed
    moreover have "cc_on_frame s a b i = Some ((cc_target_kbps (cc_cool s4), v), cc_cool s4)"
      using Some False m s4(1) by (simp add: unfold s3_def [symmetric])
    moreover have "cc_baseline_us (cc_cool s4) = Some w" using s4(3) by (simp add: cc_cool_def Let_def)
    then have "cc_inv (cc_cool s4)" using s4 ok by (simp add: cc_inv_def)
    ultimately show thesis using s4 by (intro that [of "cc_cool s4" v]) auto
  qed
qed

lemma cc_on_loss_spec:
  assumes "cc_inv s"
  obtains s' where "cc_on_loss_report s q = Some (cc_target_kbps s', s')" "cc_inv s'" "cc_config s' = cc_config s"
    "cc_target_kbps s' \<le> cc_target_kbps s"
    "s' = s \<or> cc_cooldown_remaining s' = cc_cooldown_frames (cc_config s) \<and> cc_inflate_count s' = 0"
proof -
  obtain p where p: "sanitise_loss q = Some (Fin p)" using sanitise_loss_unit by blast
  obtain k where k: "cc_decreased s = Some k" "k \<le> cc_target_kbps s" "cc_min_kbps (cc_config s) \<le> k"
    by (rule cc_decreased_spec [OF assms])
  show thesis
  proof (cases "f_le (cc_loss_threshold (cc_config s)) (Fin p)")
    case False
    then show thesis using assms p by (intro that [of s]) (simp_all add: cc_on_loss_report_def)
  next
    case True
    let ?s = "s\<lparr>cc_target_kbps := k, cc_cooldown_remaining := cc_cooldown_frames (cc_config s),
      cc_inflate_count := 0, cc_deflate_count := 0\<rparr>"
    show thesis using assms p k True
      by (intro that [of ?s]) (auto simp: cc_on_loss_report_def cc_inv_def intro: order_trans)
  qed
qed

section \<open>Spacing of decreases\<close>

text \<open>Frames processed since the last decrease of a log.\<close>

definition since_decrease :: "cc_verdict list \<Rightarrow> nat" where
  "since_decrease vs = length (takeWhile (\<lambda>v. v \<noteq> Decrease) (rev vs))"

lemma since_decrease_snoc [simp]:
  "since_decrease (vs @ [v]) = (if v = Decrease then 0 else Suc (since_decrease vs))"
  by (simp add: since_decrease_def)

lemma since_decrease_bound: "i < length vs \<Longrightarrow> vs ! i = Decrease \<Longrightarrow> i + since_decrease vs < length vs"
proof (induction vs rule: rev_induct)
  case (snoc v vs)
  then show ?case by (cases "i = length vs") (auto simp: nth_append)
qed simp

definition decreases_apart :: "nat \<Rightarrow> cc_verdict list \<Rightarrow> bool" where
  "decreases_apart n vs \<longleftrightarrow> (\<forall>i j. i < j \<longrightarrow> j < length vs \<longrightarrow> vs ! i = Decrease \<longrightarrow> vs ! j = Decrease \<longrightarrow> n \<le> j - i)"

lemma decreases_apart_snoc:
  assumes "decreases_apart n vs" "v = Decrease \<Longrightarrow> Decrease \<in> set vs \<Longrightarrow> n \<le> since_decrease vs + 1"
  shows "decreases_apart n (vs @ [v])"
  unfolding decreases_apart_def
proof (intro allI impI)
  fix i j
  assume ij: "i < j" "j < length (vs @ [v])" and d: "(vs @ [v]) ! i = Decrease" "(vs @ [v]) ! j = Decrease"
  show "n \<le> j - i"
  proof (cases "j < length vs")
    case True
    then show ?thesis using assms(1) ij d by (auto simp: decreases_apart_def nth_append)
  next
    case False
    then have l: "j = length vs" using ij by simp
    then have j: "j = length vs" "v = Decrease" "i < length vs" using ij d by (simp_all del: append_assoc)
    then have "vs ! i = Decrease" using d by (simp add: nth_append)
    then have "Decrease \<in> set vs" "i + since_decrease vs < length vs"
      using j(3) since_decrease_bound by (metis nth_mem, blast)
    then show ?thesis using assms(2) j by auto
  qed
qed

text \<open>The wait that is left covers what is missing to the minimal distance.\<close>

definition cc_wait :: "cc_verdict list \<Rightarrow> cc_controller \<Rightarrow> bool" where
  "cc_wait vs s \<longleftrightarrow> (Decrease \<in> set vs \<longrightarrow> (let n = unat (cc_cooldown_frames (cc_config s)); r = unat (cc_cooldown_remaining s)
    in n \<le> since_decrease vs + r \<and> (r = 0 \<longrightarrow> unat (cc_inflate_count s) + n \<le> since_decrease vs)))"

lemma cc_wait_tick:
  assumes "cc_wait vs s" "cc_tick s (v = Decrease) s'" "cc_config s' = cc_config s" "cc_inv s"
  shows "cc_wait (vs @ [v]) s'"
    and "v = Decrease \<Longrightarrow> Decrease \<in> set vs \<Longrightarrow>
      unat (cc_cooldown_frames (cc_config s)) + unat (cc_inflate_frames (cc_config s)) \<le> since_decrease vs + 1"
proof -
  have "1 \<le> unat (cc_cooldown_frames (cc_config s))"
    using assms(4) by (auto simp: cc_inv_def cc_config_ok_def word_le_nat_alt)
  then show "cc_wait (vs @ [v]) s'"
    using assms(1-3) by (auto simp: cc_wait_def cc_tick_def Let_def split: if_splits)
  assume "v = Decrease" "Decrease \<in> set vs"
  then show "unat (cc_cooldown_frames (cc_config s)) + unat (cc_inflate_frames (cc_config s)) \<le> since_decrease vs + 1"
    using assms(1,2) by (auto simp: cc_wait_def cc_tick_def Let_def)
qed

definition processed :: "cc_verdict list \<Rightarrow> cc_verdict list" where
  "processed vs = filter (\<lambda>v. v \<noteq> Skipped) vs"

lemma processed_append [simp]: "processed (a @ b) = processed a @ processed b"
  by (simp add: processed_def)

lemma cc_step_spaced:
  assumes "cc_inv s" "cc_wait ws s" "decreases_apart n ws"
    "n = unat (cc_cooldown_frames (cc_config s)) + unat (cc_inflate_frames (cc_config s))"
  obtains vs s' where "cc_step s e = Some (vs, s')" "cc_inv s'" "cc_config s' = cc_config s"
    "cc_wait (ws @ processed vs) s'" "decreases_apart n (ws @ processed vs)"
proof (cases e)
  case (Cc_Frame a b i)
  obtain v s' where f: "cc_on_frame s a b i = Some ((cc_target_kbps s', v), s')" "cc_inv s'" "cc_config s' = cc_config s"
    "v = Skipped \<longrightarrow> s' = s" "v \<noteq> Skipped \<longrightarrow> cc_tick s (v = Decrease) s'" by (rule cc_on_frame_spec [OF assms(1), of a b i])
  show thesis
  proof (cases "v = Skipped")
    case True
    then show thesis using f assms by (intro that [of "[v]" s']) (auto simp: Cc_Frame processed_def)
  next
    case False
    note t = cc_wait_tick [OF assms(2) mp [OF f(5) False] f(3) assms(1)]
    have "decreases_apart n (ws @ [v])" using t(2) by (intro decreases_apart_snoc [OF assms(3)]) (simp add: assms(4))
    then show thesis using f t(1) False by (intro that [of "[v]" s']) (auto simp: Cc_Frame processed_def)
  qed
next
  case (Cc_Loss q)
  obtain s' where l: "cc_on_loss_report s q = Some (cc_target_kbps s', s')" "cc_inv s'" "cc_config s' = cc_config s"
    "s' = s \<or> cc_cooldown_remaining s' = cc_cooldown_frames (cc_config s) \<and> cc_inflate_count s' = 0"
    by (rule cc_on_loss_spec [OF assms(1), of q])
  have "cc_cooldown_frames (cc_config s) \<noteq> 0" using assms(1) by (auto simp: cc_inv_def cc_config_ok_def)
  then have "cc_wait ws s'" using l(3,4) assms(2) by (auto simp: cc_wait_def Let_def unat_eq_zero)
  then show thesis using l assms(3) by (intro that [of "[]" s']) (auto simp: Cc_Loss processed_def)
qed

lemma cc_run_spaced:
  assumes "cc_inv s" "cc_wait ws s" "decreases_apart n ws"
    "n = unat (cc_cooldown_frames (cc_config s)) + unat (cc_inflate_frames (cc_config s))"
  shows "\<exists>vs s'. cc_run s es = Some (vs, s') \<and> cc_inv s' \<and> cc_config s' = cc_config s
    \<and> decreases_apart n (ws @ processed vs)"
  using assms
proof (induction es arbitrary: s ws)
  case Nil
  then show ?case by (simp add: processed_def)
next
  case (Cons e es)
  obtain vs s1 where e: "cc_step s e = Some (vs, s1)" "cc_inv s1" "cc_config s1 = cc_config s"
    "cc_wait (ws @ processed vs) s1" "decreases_apart n (ws @ processed vs)" by (rule cc_step_spaced [OF Cons.prems])
  obtain us s2 where "cc_run s1 es = Some (us, s2)" "cc_inv s2" "cc_config s2 = cc_config s1"
    "decreases_apart n ((ws @ processed vs) @ processed us)"
    using Cons.IH [OF e(2,4,5)] Cons.prems(4) e(3) by auto
  then show ?case using e(1,3) by auto
qed

section \<open>Properties\<close>

text \<open>
  C29.
  No oscillation. For every configuration, whatever frames (in any order, with any times) and loss reports come, the controller never
  panics, and two frames that each decreased the bitrate are at least the cooldown plus the inflation count apart, counted in
  processed frames.
\<close>

theorem cc_decreases_apart:
  "\<exists>s vs s'. cc_new c = Some s \<and> cc_run s es = Some (vs, s')
    \<and> decreases_apart (unat (cc_cooldown_frames (cc_config s)) + unat (cc_inflate_frames (cc_config s))) (processed vs)"
proof -
  obtain s where s: "cc_new c = Some s" "cc_inv s" using cc_new_inv by blast
  have "cc_wait [] s" "decreases_apart n []" for n by (simp_all add: cc_wait_def decreases_apart_def)
  from cc_run_spaced [OF s(2) this refl, of es] show ?thesis using s(1) by auto
qed

text \<open>
  C30.
  The target in bounds and its moves. After any run the target is between a minimum of at least 1 and the maximum; the next frame lowers
  it only with the verdict \<open>Decrease\<close>, raises it only with \<open>Increase\<close> and by at most the probe step, and a loss report never raises it.
  The effective bitrate is then the smaller of this target and the adaptive one, or this target when there is no other.
\<close>

theorem cc_target_bounded:
  "\<exists>s vs s'. cc_new c = Some s \<and> cc_run s es = Some (vs, s') \<and> 1 \<le> cc_min_kbps (cc_config s)
    \<and> cc_min_kbps (cc_config s) \<le> cc_target_kbps s' \<and> cc_target_kbps s' \<le> cc_max_kbps (cc_config s)
    \<and> (\<exists>v t. cc_on_frame s' a b i = Some ((cc_target_kbps t, v), t)
        \<and> cc_moves (cc_config s) (cc_target_kbps s') v (cc_target_kbps t))
    \<and> (\<exists>t. cc_on_loss_report s' q = Some (cc_target_kbps t, t) \<and> cc_target_kbps t \<le> cc_target_kbps s')
    \<and> effective_target_kbps abr (cc_target_kbps s') = (if abr = 0 then cc_target_kbps s' else min abr (cc_target_kbps s'))"
proof -
  obtain s where s: "cc_new c = Some s" "cc_inv s" using cc_new_inv by blast
  have "cc_wait [] s" "decreases_apart n []" for n by (simp_all add: cc_wait_def decreases_apart_def)
  from cc_run_spaced [OF s(2) this refl, of es] obtain vs s' where
    s': "cc_run s es = Some (vs, s')" "cc_inv s'" "cc_config s' = cc_config s" by blast
  obtain v t where f: "cc_on_frame s' a b i = Some ((cc_target_kbps t, v), t)"
    "cc_moves (cc_config s') (cc_target_kbps s') v (cc_target_kbps t)" by (rule cc_on_frame_spec [OF s'(2), of a b i])
  obtain u where l: "cc_on_loss_report s' q = Some (cc_target_kbps u, u)" "cc_target_kbps u \<le> cc_target_kbps s'"
    by (rule cc_on_loss_spec [OF s'(2), of q])
  have m: "1 \<le> cc_min_kbps (cc_config s)" "cc_min_kbps (cc_config s) \<le> cc_target_kbps s'"
    "cc_target_kbps s' \<le> cc_max_kbps (cc_config s)" using s'(2,3) by (auto simp: cc_inv_def cc_config_ok_def)
  then have "cc_target_kbps s' \<noteq> 0" by auto
  then have "effective_target_kbps abr (cc_target_kbps s') = (if abr = 0 then cc_target_kbps s' else min abr (cc_target_kbps s'))"
    by (simp add: effective_target_kbps_def)
  with s(1) s' f l m show ?thesis by auto
qed

end
