(* ===== verification/Cc_Shared.thy ===== *)
theory Cc_Shared
  imports Abr
begin

text \<open>
  The atomics that connect the tasks of congestion control (\<open>CcShared\<close> in \<open>streamer/src/cc.rs\<close>): the sender loop publishes its
  target, the RTCP reader posts loss reports, the bitrate task reads the target, and a stream setup begins a new generation
  while tasks of the old one still run. Every load, store, \<open>fetch_add\<close> and \<open>compare_exchange_weak\<close> is one step; any number of
  threads interleave.
\<close>

section \<open>Packing\<close>

definition LOSS_MAILBOX_EMPTY :: u64 where "LOSS_MAILBOX_EMPTY = - 1"

definition cc_pack :: "u32 \<Rightarrow> u32 \<Rightarrow> u64" where
  "cc_pack g v = push_bit 32 (ucast g) OR ucast v"

definition cc_unpack :: "u64 \<Rightarrow> u32 \<times> u32" where
  "cc_unpack p = (ucast (drop_bit 32 p), ucast p)"

lemma cc_unpack_pack [simp]: "cc_unpack (cc_pack g v) = (g, v)"
proof -
  have "ucast (drop_bit 32 (push_bit 32 (ucast g) OR ucast v :: u64)) = g"
    by (rule bit_word_eqI) (auto simp: bit_simps dest: bit_imp_le_length)
  moreover have "ucast (push_bit 32 (ucast g) OR ucast v :: u64) = v"
    by (rule bit_word_eqI) (auto simp: bit_simps)
  ultimately show ?thesis by (simp add: cc_pack_def cc_unpack_def)
qed

lemma cc_pack_inject [simp]: "cc_pack g v = cc_pack g' v' \<longleftrightarrow> g = g' \<and> v = v'"
  by (metis cc_unpack_pack prod.inject)

lemma cc_pack_loss: "cc_pack g (ucast (b :: u8)) \<noteq> LOSS_MAILBOX_EMPTY"
proof
  assume "cc_pack g (ucast b) = LOSS_MAILBOX_EMPTY"
  then have "ucast b = (ucast (LOSS_MAILBOX_EMPTY) :: u32)"
    using cc_unpack_pack [of g "ucast b"] by (simp add: cc_unpack_def)
  then have "bit (ucast b :: u32) 8 = bit (ucast LOSS_MAILBOX_EMPTY :: u32) 8" by simp
  then show False using bit_imp_le_length [of b 8] by (auto simp: LOSS_MAILBOX_EMPTY_def bit_simps)
qed

lemma ucast_u8_u32_inject [simp]: "(ucast (a :: u8) :: u32) = ucast b \<longleftrightarrow> a = b"
proof
  assume e: "(ucast a :: u32) = ucast b"
  have "unat (ucast x :: u32) = unat x" for x :: u8
    using unat_lt_u8 [of x] by (simp add: unsigned_ucast_eq take_bit_nat_eq_self)
  then show "a = b" using e by (metis word_unat_eq_iff)
qed simp

section \<open>Shared state and calls\<close>

record cc_shared =
  sh_generation :: u32
  sh_target_packed :: u64
  sh_loss_packed :: u64
  sh_frame_interval_us :: u64

definition sh_new :: cc_shared where
  "sh_new = \<lparr>sh_generation = 0, sh_target_packed = cc_pack 0 0, sh_loss_packed = LOSS_MAILBOX_EMPTY, sh_frame_interval_us = 0\<rparr>"

text \<open>The methods, and the points between the atomic operations of each.\<close>

datatype sh_call = Begin_generation | Publish_target u32 u32 | Read_target | Post_loss u32 u8 | Take_loss u32
  | Set_interval u64 | Read_interval

datatype sh_pc = At_idle | At_begin_target u32 | At_begin_loss u32 | At_publish u32 u32 | At_read u32
  | At_post u32 u8 | At_take u32 | At_take_cas u32 u64

text \<open>What a step makes visible: the stores of writers, and the results of calls.\<close>

datatype sh_out = Began u32 | Published u32 u32 | Target u32 u32 | Posted u32 u8 | Taken u32 u32 f64 | No_loss u32
  | Interval u64

definition begin_fetch :: "cc_shared \<Rightarrow> sh_pc \<times> cc_shared" where
  "begin_fetch s = (let g = sh_generation s + 1 in (At_begin_target g, s\<lparr>sh_generation := g\<rparr>))"

definition publish_check :: "u32 \<Rightarrow> u32 \<Rightarrow> cc_shared \<Rightarrow> sh_pc" where
  "publish_check g kbps s = (if sh_generation s \<noteq> g then At_idle else At_publish g kbps)"

definition post_check :: "u32 \<Rightarrow> u8 \<Rightarrow> cc_shared \<Rightarrow> sh_pc" where
  "post_check g b s = (if sh_generation s \<noteq> g then At_idle else At_post g b)"

definition read_packed :: "u32 \<Rightarrow> cc_shared \<Rightarrow> u32" where
  "read_packed current s = (let (g, kbps) = cc_unpack (sh_target_packed s) in if g = current then kbps else 0)"

definition take_load :: "u32 \<Rightarrow> cc_shared \<Rightarrow> sh_pc \<times> sh_out list" where
  "take_load g s = (let current = sh_loss_packed s in
    if current = LOSS_MAILBOX_EMPTY then (At_idle, [No_loss g])
    else if fst (cc_unpack current) \<noteq> g then (At_idle, [No_loss g])
    else (At_take_cas g current, []))"

text \<open>The exchange fails when the mailbox changed, and may fail for no reason; then the loop loads again.\<close>

definition take_cas :: "bool \<Rightarrow> u32 \<Rightarrow> u64 \<Rightarrow> cc_shared \<Rightarrow> sh_pc \<times> cc_shared \<times> sh_out list" where
  "take_cas spurious g current s = (if sh_loss_packed s = current \<and> \<not> spurious
    then let fraction = snd (cc_unpack current)
      in (At_idle, s\<lparr>sh_loss_packed := LOSS_MAILBOX_EMPTY\<rparr>, [Taken g fraction (f_div (f_of_word fraction) (Fin 256))])
    else (At_take g, s, []))"

text \<open>The first atomic operation of a call, and the next one of a call in progress.\<close>

fun sh_start :: "sh_call \<Rightarrow> cc_shared \<Rightarrow> sh_pc \<times> cc_shared \<times> sh_out list" where
  "sh_start Begin_generation s = (let (pc, s') = begin_fetch s in (pc, s', []))"
| "sh_start (Publish_target g kbps) s = (publish_check g kbps s, s, [])"
| "sh_start Read_target s = (At_read (sh_generation s), s, [])"
| "sh_start (Post_loss g b) s = (post_check g b s, s, [])"
| "sh_start (Take_loss g) s = (let (pc, out) = take_load g s in (pc, s, out))"
| "sh_start (Set_interval us) s = (At_idle, s\<lparr>sh_frame_interval_us := us\<rparr>, [])"
| "sh_start Read_interval s = (At_idle, s, [Interval (sh_frame_interval_us s)])"

fun sh_cont :: "bool \<Rightarrow> sh_pc \<Rightarrow> cc_shared \<Rightarrow> sh_pc \<times> cc_shared \<times> sh_out list" where
  "sh_cont _ At_idle s = (At_idle, s, [])"
| "sh_cont _ (At_begin_target g) s = (At_begin_loss g, s\<lparr>sh_target_packed := cc_pack g 0\<rparr>, [])"
| "sh_cont _ (At_begin_loss g) s = (At_idle, s\<lparr>sh_loss_packed := LOSS_MAILBOX_EMPTY\<rparr>, [Began g])"
| "sh_cont _ (At_publish g kbps) s = (At_idle, s\<lparr>sh_target_packed := cc_pack g kbps\<rparr>, [Published g kbps])"
| "sh_cont _ (At_read current) s = (At_idle, s, [Target current (read_packed current s)])"
| "sh_cont _ (At_post g b) s = (At_idle, s\<lparr>sh_loss_packed := cc_pack g (ucast b)\<rparr>, [Posted g b])"
| "sh_cont _ (At_take g) s = (let (pc, out) = take_load g s in (pc, s, out))"
| "sh_cont spurious (At_take_cas g current) s = take_cas spurious g current s"

text \<open>Reachable states: the program counter of every thread, the memory, and what was visible so far.\<close>

inductive sh_reach :: "(nat \<Rightarrow> sh_pc) \<Rightarrow> cc_shared \<Rightarrow> sh_out list \<Rightarrow> bool" where
  sh_init: "sh_reach (\<lambda>_. At_idle) sh_new []"
| sh_call: "sh_reach pcs s h \<Longrightarrow> pcs t = At_idle \<Longrightarrow> sh_start call s = (pc, s', out)
    \<Longrightarrow> sh_reach (pcs(t := pc)) s' (h @ out)"
| sh_next: "sh_reach pcs s h \<Longrightarrow> pcs t \<noteq> At_idle \<Longrightarrow> sh_cont sp (pcs t) s = (pc, s', out)
    \<Longrightarrow> sh_reach (pcs(t := pc)) s' (h @ out)"

section \<open>Invariants\<close>

text \<open>
  The published word holds a target that some writer stored under its own generation, or none. The mailbox holds a post that was
  stored; what was taken, together with what is in the mailbox, was posted at least as often.
\<close>

definition sh_target_ok :: "cc_shared \<Rightarrow> sh_out list \<Rightarrow> bool" where
  "sh_target_ok s h \<longleftrightarrow> (\<exists>g v. sh_target_packed s = cc_pack g v \<and> (v = 0 \<or> Published g v \<in> set h))"

definition sh_taken :: "u32 \<Rightarrow> u32 \<Rightarrow> sh_out list \<Rightarrow> nat" where
  "sh_taken g f h = length (filter (\<lambda>x. case x of Taken g' f' _ \<Rightarrow> g' = g \<and> f' = f | _ \<Rightarrow> False) h)"

definition sh_posted :: "u32 \<Rightarrow> u32 \<Rightarrow> sh_out list \<Rightarrow> nat" where
  "sh_posted g f h = length (filter (\<lambda>x. case x of Posted g' b \<Rightarrow> g' = g \<and> ucast b = f | _ \<Rightarrow> False) h)"

definition sh_mail :: "u32 \<Rightarrow> u32 \<Rightarrow> cc_shared \<Rightarrow> nat" where
  "sh_mail g f s = (if sh_loss_packed s \<noteq> LOSS_MAILBOX_EMPTY \<and> cc_unpack (sh_loss_packed s) = (g, f) then 1 else 0)"

definition sh_loss_ok :: "cc_shared \<Rightarrow> sh_out list \<Rightarrow> bool" where
  "sh_loss_ok s h \<longleftrightarrow> (\<forall>g f. sh_taken g f h + sh_mail g f s \<le> sh_posted g f h)"

definition sh_cas_ok :: "sh_pc \<Rightarrow> bool" where
  "sh_cas_ok pc = (case pc of At_take_cas g x \<Rightarrow> x \<noteq> LOSS_MAILBOX_EMPTY \<and> fst (cc_unpack x) = g | _ \<Rightarrow> True)"

lemma sh_count_append [simp]:
  "sh_taken g f (h @ k) = sh_taken g f h + sh_taken g f k" "sh_posted g f (h @ k) = sh_posted g f h + sh_posted g f k"
  by (simp_all add: sh_taken_def sh_posted_def)

lemma sh_start_ok:
  assumes "sh_start call s = (pc, s', out)"
  shows "sh_target_packed s' = sh_target_packed s" "sh_loss_packed s' = sh_loss_packed s" "sh_cas_ok pc"
    "sh_taken g f out = 0" "sh_posted g f out = 0"
  using assms
  by (cases call; auto simp: begin_fetch_def publish_check_def post_check_def take_load_def sh_cas_ok_def sh_taken_def
      sh_posted_def Let_def split: if_splits)+

lemma sh_cont_cas_ok: "sh_cont sp p s = (pc, s', out) \<Longrightarrow> sh_cas_ok pc"
  by (cases "(sp, p, s)" rule: sh_cont.cases)
    (auto simp: take_load_def take_cas_def sh_cas_ok_def Let_def split: if_splits)

lemma sh_cont_target_ok:
  assumes "sh_target_ok s h" "sh_cont sp p s = (pc, s', out)"
  shows "sh_target_ok s' (h @ out)"
  using assms
  by (cases "(sp, p, s)" rule: sh_cont.cases)
    (auto simp: sh_target_ok_def take_load_def take_cas_def Let_def split: if_splits)

lemma sh_cont_loss_ok:
  assumes "sh_loss_ok s h" "sh_cas_ok p" "sh_cont sp p s = (pc, s', out)"
  shows "sh_loss_ok s' (h @ out)"
  unfolding sh_loss_ok_def
proof (intro allI)
  fix g f
  have "sh_taken g f out + sh_mail g f s' \<le> sh_posted g f out + sh_mail g f s"
    using assms(2,3) cc_pack_loss
    by (cases "(sp, p, s)" rule: sh_cont.cases)
      (auto simp: sh_taken_def sh_posted_def sh_mail_def take_load_def take_cas_def sh_cas_ok_def Let_def
        split: if_splits)
  moreover have "sh_taken g f h + sh_mail g f s \<le> sh_posted g f h" using assms(1) by (simp add: sh_loss_ok_def)
  ultimately show "sh_taken g f (h @ out) + sh_mail g f s' \<le> sh_posted g f (h @ out)" by simp
qed

text \<open>A target that was read was published under the generation the reader had loaded; a report that was taken is a byte over 256.\<close>

definition sh_outs_ok :: "sh_out list \<Rightarrow> bool" where
  "sh_outs_ok h \<longleftrightarrow> list_all (\<lambda>x. case x of
      Target cur k \<Rightarrow> k = 0 \<or> Published cur k \<in> set h
    | Taken g f v \<Rightarrow> v = Fin (of_nat (unat f) / 256)
    | _ \<Rightarrow> True) h"

lemma sh_outs_ok_append:
  assumes "sh_outs_ok h" "list_all (\<lambda>x. case x of Target cur k \<Rightarrow> k = 0 \<or> Published cur k \<in> set h
    | Taken g f v \<Rightarrow> v = Fin (of_nat (unat f) / 256) | _ \<Rightarrow> True) out"
  shows "sh_outs_ok (h @ out)"
  using assms by (fastforce simp: sh_outs_ok_def list_all_iff split: sh_out.splits)

lemma fraction_exact: "f_div (f_of_word (f :: u32)) (Fin 256) = Fin (of_nat (unat f) / 256)"
proof -
  have "unat f \<le> 2 ^ 53" using unat_lt_u32 [of f] by simp
  from dyadic_exact [OF this, of 8] show ?thesis unfolding f_of_u32 by simp
qed

lemma sh_step_outs_ok:
  assumes "sh_outs_ok h" "sh_target_ok s h" "sh_cont sp p s = (pc, s', out) \<or> sh_start call s = (pc, s', out)"
  shows "sh_outs_ok (h @ out)"
proof (rule sh_outs_ok_append [OF assms(1)])
  obtain g v where t: "sh_target_packed s = cc_pack g v" "v = 0 \<or> Published g v \<in> set h"
    using assms(2) by (auto simp: sh_target_ok_def)
  from assms(3) show "list_all (\<lambda>x. case x of Target cur k \<Rightarrow> k = 0 \<or> Published cur k \<in> set h
    | Taken g f v \<Rightarrow> v = Fin (of_nat (unat f) / 256) | _ \<Rightarrow> True) out"
  proof
    assume "sh_cont sp p s = (pc, s', out)"
    then show ?thesis using t
      by (cases "(sp, p, s)" rule: sh_cont.cases)
        (auto simp: take_load_def take_cas_def read_packed_def fraction_exact Let_def simp del: of_nat_unat split: if_splits)
  next
    assume "sh_start call s = (pc, s', out)"
    then show ?thesis by (cases call) (auto simp: begin_fetch_def take_load_def Let_def split: if_splits)
  qed
qed

lemma sh_reach_inv:
  "sh_reach pcs s h \<Longrightarrow> (\<forall>t. sh_cas_ok (pcs t)) \<and> sh_target_ok s h \<and> sh_loss_ok s h \<and> sh_outs_ok h"
proof (induction rule: sh_reach.induct)
  case sh_init
  show ?case
    by (auto simp: sh_cas_ok_def sh_target_ok_def sh_loss_ok_def sh_outs_ok_def sh_new_def sh_taken_def sh_posted_def sh_mail_def)
next
  case (sh_call pcs s h t call pc s' out)
  note o = sh_start_ok [OF sh_call.hyps(3)]
  have "sh_target_ok s' (h @ out)" using sh_call.IH o(1) by (auto simp: sh_target_ok_def)
  moreover have "sh_loss_ok s' (h @ out)" using sh_call.IH o(2,4,5) by (simp add: sh_loss_ok_def sh_mail_def)
  moreover have "sh_outs_ok (h @ out)" using sh_call.IH sh_call.hyps(3) sh_step_outs_ok by blast
  ultimately show ?case using sh_call.IH o(3) by simp
next
  case (sh_next pcs s h t sp pc s' out)
  have "sh_cas_ok (pcs t)" using sh_next.IH by blast
  then have "sh_loss_ok s' (h @ out)" using sh_next.IH sh_next.hyps(3) sh_cont_loss_ok by blast
  moreover have "sh_target_ok s' (h @ out)" using sh_next.IH sh_next.hyps(3) sh_cont_target_ok by blast
  moreover have "sh_outs_ok (h @ out)" using sh_next.IH sh_next.hyps(3) sh_step_outs_ok by blast
  moreover have "sh_cas_ok pc" using sh_next.hyps(3) by (rule sh_cont_cas_ok)
  ultimately show ?case using sh_next.IH by simp
qed

section \<open>Schedules\<close>

text \<open>A schedule picks the thread of each step; it makes runs of the relation executable.\<close>

datatype sh_sched = Do_call nat sh_call | Do_next nat bool

fun sh_exec :: "sh_sched list \<Rightarrow> (nat \<Rightarrow> sh_pc) \<times> cc_shared \<times> sh_out list \<Rightarrow> (nat \<Rightarrow> sh_pc) \<times> cc_shared \<times> sh_out list" where
  "sh_exec [] c = c"
| "sh_exec (Do_call t call # ds) (pcs, s, h) = (if pcs t = At_idle
    then let (pc, s', out) = sh_start call s in sh_exec ds (pcs(t := pc), s', h @ out) else sh_exec ds (pcs, s, h))"
| "sh_exec (Do_next t sp # ds) (pcs, s, h) = (if pcs t \<noteq> At_idle
    then let (pc, s', out) = sh_cont sp (pcs t) s in sh_exec ds (pcs(t := pc), s', h @ out) else sh_exec ds (pcs, s, h))"

lemma sh_exec_reach: "sh_reach pcs s h \<Longrightarrow> sh_exec ds (pcs, s, h) = (pcs', s', h') \<Longrightarrow> sh_reach pcs' s' h'"
proof (induction ds arbitrary: pcs s h)
  case (Cons d ds)
  show ?case
  proof (cases d)
    case (Do_call t call)
    obtain pc s1 out where "sh_start call s = (pc, s1, out)" by (cases "sh_start call s")
    then show ?thesis using Cons.prems Cons.IH sh_call [of pcs s h t call pc s1 out]
      by (cases "pcs t = At_idle") (simp_all add: Do_call, blast)
  next
    case (Do_next t sp)
    obtain pc s1 out where "sh_cont sp (pcs t) s = (pc, s1, out)" by (cases "sh_cont sp (pcs t) s")
    then show ?thesis using Cons.prems Cons.IH sh_next [of pcs s h t sp pc s1 out]
      by (cases "pcs t = At_idle") (simp_all add: Do_next, blast)
  qed
qed simp

section \<open>Properties\<close>

text \<open>
  C31.
  Generations do not mix. In every interleaving of any number of threads, a target that a reader gets is 0 or was published under
  the generation that was current when the reader looked, never one of a superseded task; no loss report is taken twice or by
  another generation than the one that posted it (the reports taken are at most those posted, per generation and value), and a
  report taken is the posted byte divided by 256, exactly.
\<close>

theorem generations_isolated:
  assumes "sh_reach pcs s h"
  shows "list_all (\<lambda>x. case x of Target cur k \<Rightarrow> k = 0 \<or> Published cur k \<in> set h
      | Taken g f v \<Rightarrow> (\<exists>b. f = ucast b \<and> Posted g b \<in> set h \<and> v = Fin (of_nat (unat f) / 256)) | _ \<Rightarrow> True) h
    \<and> sh_taken g f h \<le> sh_posted g f h"
proof -
  from sh_reach_inv [OF assms] have i: "sh_loss_ok s h" "sh_outs_ok h" by auto
  then have n: "sh_taken g f h \<le> sh_posted g f h" for g f unfolding sh_loss_ok_def by (metis add_leD1)
  have t: "\<exists>b. f = ucast b \<and> Posted g b \<in> set h" if "Taken g f v \<in> set h" for g f v
  proof -
    let ?P = "\<lambda>x. case x of Posted g' b \<Rightarrow> g' = g \<and> ucast b = f | _ \<Rightarrow> False"
    have "sh_taken g f h \<noteq> 0" using that unfolding sh_taken_def length_0_conv filter_empty_conv by fastforce
    then have "filter ?P h \<noteq> []" using n [of g f] unfolding sh_posted_def by auto
    then obtain x where "x \<in> set h" "?P x" unfolding filter_empty_conv by blast
    then show ?thesis by (cases x rule: sh_out.exhaust) auto
  qed
  have "list_all (\<lambda>x. case x of Target cur k \<Rightarrow> k = 0 \<or> Published cur k \<in> set h
      | Taken g f v \<Rightarrow> (\<exists>b. f = ucast b \<and> Posted g b \<in> set h \<and> v = Fin (of_nat (unat f) / 256)) | _ \<Rightarrow> True) h"
    unfolding list_all_iff
  proof
    fix x assume x: "x \<in> set h"
    from i(2) x have "case x of Target cur k \<Rightarrow> k = 0 \<or> Published cur k \<in> set h
      | Taken g f v \<Rightarrow> v = Fin (of_nat (unat f) / 256) | _ \<Rightarrow> True"
      unfolding sh_outs_ok_def list_all_iff by blast
    then show "case x of Target cur k \<Rightarrow> k = 0 \<or> Published cur k \<in> set h
      | Taken g f v \<Rightarrow> (\<exists>b. f = ucast b \<and> Posted g b \<in> set h \<and> v = Fin (of_nat (unat f) / 256)) | _ \<Rightarrow> True"
      using t x by (cases x rule: sh_out.exhaust) (auto simp del: of_nat_unat)
  qed
  with n show ?thesis by blast
qed

text \<open>
  A ghost of generation 1 passes its check, a new stream begins generation 2, the ghost stores: the reader of generation 2 sees no
  target. The report of generation 2 is taken once although the exchange fails spuriously before.
\<close>

definition ghost_schedule :: "sh_sched list" where
  "ghost_schedule = [Do_call 0 Begin_generation, Do_next 0 False, Do_next 0 False, Do_call 1 (Publish_target 1 700),
    Do_call 0 Begin_generation, Do_next 0 False, Do_next 0 False, Do_next 1 False, Do_call 2 Read_target, Do_next 2 False,
    Do_call 3 (Publish_target 2 900), Do_next 3 False, Do_call 2 Read_target, Do_next 2 False, Do_call 4 (Post_loss 2 64), Do_next 4 False,
    Do_call 1 (Take_loss 1), Do_call 3 (Take_loss 2), Do_next 3 True, Do_next 3 False, Do_next 3 False, Do_call 3 (Take_loss 2)]"

definition ghost_history :: "sh_out list" where
  "ghost_history = [Began 1, Began 2, Published 1 700, Target 2 0, Published 2 900, Target 2 900, Posted 2 64,
    No_loss 1, Taken 2 64 (f_div (f_of_word (64 :: u32)) (Fin 256)), No_loss 2]"

theorem generations_isolated_witness:
  "snd (snd (sh_exec ghost_schedule (\<lambda>_. At_idle, sh_new, []))) = ghost_history
    \<and> sh_taken 2 64 ghost_history \<le> sh_posted 2 64 ghost_history"
proof -
  obtain pcs s h where e: "sh_exec ghost_schedule (\<lambda>_. At_idle, sh_new, []) = (pcs, s, h)"
    by (cases "sh_exec ghost_schedule (\<lambda>_. At_idle, sh_new, [])")
  have h: "snd (snd (sh_exec ghost_schedule (\<lambda>_. At_idle, sh_new, []))) = ghost_history"
    by code_simp
  then show ?thesis using generations_isolated [OF sh_exec_reach [OF sh_init e], of 2 64] e by simp
qed

end
