(* ===== verification/Fec_Ratio.thy ===== *)
theory Fec_Ratio
  imports F64
begin

text \<open>
  The redundancy controller (\<open>transport-core/src/fec_ratio.rs\<close>): it turns loss estimates into the ratio of repair symbols. The
  floating-point mapping from loss to ratio is shown equal to integer arithmetic; the ratio rises at once to what the loss asks
  for and decays only after a streak of clean intervals.
\<close>

section \<open>Configuration and controller\<close>

record fec_ratio_config =
  fr_min_pct :: u8
  fr_max_pct :: u8
  fr_initial_pct :: u8
  fr_headroom_pct :: u8
  fr_slope_x100 :: u16
  fr_decay_streak :: u16
  fr_decay_step_pct :: u8
  fr_decay_loss_threshold :: f64

definition fr_default :: fec_ratio_config where
  "fr_default = \<lparr>fr_min_pct = 5, fr_max_pct = 50, fr_initial_pct = 20, fr_headroom_pct = 5, fr_slope_x100 = 300,
    fr_decay_streak = 8, fr_decay_step_pct = 2, fr_decay_loss_threshold = f64_of (1 / 200)\<rparr>"

definition fr_sanitised :: "fec_ratio_config \<Rightarrow> fec_ratio_config option" where
  "fr_sanitised c = (let mn = min (fr_min_pct c) (max (fr_max_pct c) 1); mx = max (fr_max_pct c) mn in
    case ord_clamp (fr_initial_pct c) mn mx of None \<Rightarrow> None
    | Some p \<Rightarrow> Some (c\<lparr>fr_min_pct := mn, fr_max_pct := mx, fr_initial_pct := p,
        fr_decay_loss_threshold := f_max (fr_decay_loss_threshold c) (Fin 0)\<rparr>))"

record fec_ratio_controller =
  fr_config :: fec_ratio_config
  fr_current_pct :: u8
  fr_clean_streak :: u16

definition fr_new :: "fec_ratio_config \<Rightarrow> fec_ratio_controller option" where
  "fr_new c = (case fr_sanitised c of None \<Rightarrow> None
    | Some c' \<Rightarrow> Some \<lparr>fr_config = c', fr_current_pct = fr_initial_pct c', fr_clean_streak = 0\<rparr>)"

definition fr_current_ratio :: "fec_ratio_controller \<Rightarrow> u8 \<times> u8" where
  "fr_current_ratio s = (fr_current_pct s, 100)"

definition loss_target_pct :: "fec_ratio_controller \<Rightarrow> f64 \<Rightarrow> u8 option" where
  "loss_target_pct s loss_fraction = (let c = fr_config s in
    case f_clamp loss_fraction (Fin 0) (Fin 1) of None \<Rightarrow> None
    | Some loss \<Rightarrow>
      let loss_pct = f_round (f_mul loss (Fin 100));
          scaled = f_div (f_mul loss_pct (f_of_word (fr_slope_x100 c))) (Fin 100);
          target = f_add (f_of_word (fr_headroom_pct c)) scaled
      in case f_clamp (f_round target) (f_of_word (fr_min_pct c)) (f_of_word (fr_max_pct c)) of None \<Rightarrow> None
        | Some t \<Rightarrow> Some (f_to_word t))"

definition fr_observe :: "fec_ratio_controller \<Rightarrow> f64 \<Rightarrow> ((u8 \<times> u8) \<times> fec_ratio_controller) option" where
  "fr_observe s loss_fraction = (case loss_target_pct s loss_fraction of None \<Rightarrow> None
    | Some target \<Rightarrow>
      let c = fr_config s;
          s' = (if fr_current_pct s < target then s\<lparr>fr_current_pct := target, fr_clean_streak := 0\<rparr>
            else if f_le loss_fraction (fr_decay_loss_threshold c) then
              let streak = sat_add (fr_clean_streak s) 1 in
              if fr_decay_streak c \<le> streak
              then s\<lparr>fr_current_pct := max (sat_sub (fr_current_pct s) (fr_decay_step_pct c)) (fr_min_pct c), fr_clean_streak := 0\<rparr>
              else s\<lparr>fr_clean_streak := streak\<rparr>
            else s\<lparr>fr_clean_streak := 0\<rparr>)
      in Some (fr_current_ratio s', s'))"

fun fr_run :: "fec_ratio_controller \<Rightarrow> f64 list \<Rightarrow> fec_ratio_controller option" where
  "fr_run s [] = Some s"
| "fr_run s (v # vs) = (case fr_observe s v of None \<Rightarrow> None | Some (_, s') \<Rightarrow> fr_run s' vs)"

section \<open>The mapping in integers\<close>

text \<open>The loss in percent, rounded, and the ratio it asks for; what is not a number asks for 0.\<close>

fun loss_percent :: "f64 \<Rightarrow> nat" where
  "loss_percent (Fin q) = nat \<lfloor>rnd (100 * max 0 (min q 1)) + 1 / 2\<rfloor>"
| "loss_percent (F_inf s) = (if s then 0 else 100)"
| "loss_percent F_NaN = 0"

definition int_target :: "fec_ratio_config \<Rightarrow> f64 \<Rightarrow> nat" where
  "int_target c v = (if v = F_NaN then 0
    else max (unat (fr_min_pct c)) (min (unat (fr_headroom_pct c) + (loss_percent v * unat (fr_slope_x100 c) + 50) div 100)
      (unat (fr_max_pct c))))"

lemma f_clamp_fin: "a \<le> b \<Longrightarrow> f_clamp (Fin x) (Fin a) (Fin b) = Some (Fin (max a (min x b)))"
  by (auto simp: f_clamp_def Let_def max_def min_def)

lemma f_round_nat:
  assumes "0 \<le> x" "x \<le> of_nat n" "n < 2 ^ 52"
  shows "f_round (Fin x) = Fin (of_nat (nat \<lfloor>x + 1 / 2\<rfloor>))" "nat \<lfloor>x + 1 / 2\<rfloor> \<le> n"
proof -
  have f: "0 \<le> \<lfloor>x + 1 / 2\<rfloor>" "\<lfloor>x + 1 / 2\<rfloor> \<le> int n" using assms(1,2) by linarith+
  then show n: "nat \<lfloor>x + 1 / 2\<rfloor> \<le> n" by simp
  have "f64_of (of_nat (nat \<lfloor>x + 1 / 2\<rfloor>)) = Fin (of_nat (nat \<lfloor>x + 1 / 2\<rfloor>))"
    using n assms(3) by (intro f64_of_nat) simp
  moreover have "(of_nat (nat \<lfloor>x + 1 / 2\<rfloor>) :: rat) = of_int \<lfloor>x + 1 / 2\<rfloor>" using f(1) by simp
  ultimately show "f_round (Fin x) = Fin (of_nat (nat \<lfloor>x + 1 / 2\<rfloor>))" using assms(1) by simp
qed

text \<open>Headroom plus scaled loss, rounded twice on the way, is the rounded exact value.\<close>

lemma affine_round:
  assumes "h < 256" "N \<le> 6553500"
  shows "f_round (f_add (Fin (of_nat h)) (f_div (Fin (of_nat N)) (Fin 100))) = Fin (of_nat (h + (N + 50) div 100))"
proof -
  define d where "d = (N + 50) div 100"
  have "100 * d \<le> N + 50" "N + 50 \<le> 100 * d + 99" by (auto simp: d_def)
  then have "of_nat (100 * d) \<le> (of_nat (N + 50) :: rat)" "of_nat (N + 50) \<le> (of_nat (100 * d + 99) :: rat)"
    by (simp_all only: of_nat_le_iff)
  then have dq: "100 * of_nat d \<le> (of_nat N + 50 :: rat)" "of_nat N \<le> (100 * of_nat d + 49 :: rat)" by simp_all
  have d: "d \<le> 65535" using assms(2) by (simp add: d_def)
  define y where "y = rnd (of_nat N / 100)"
  have q: "0 \<le> (of_nat N / 100 :: rat)" "of_nat N / 100 \<le> (of_nat 65535 :: rat)"
    using assms(2) by (auto simp: field_simps)
  have fd: "f_div (Fin (of_nat N)) (Fin 100) = Fin y" "0 \<le> y" "y \<le> of_nat 65535"
    using f64_of_bounded [OF q] by (auto simp: y_def)
  have lo: "of_int (2 * int d - 1) / 2 ^ 1 \<le> y"
    unfolding y_def using dq(1) d b64.r_mono [of "of_int (2 * int d - 1) / 2 ^ 1" "of_nat N / 100"]
    by (subst b64.r_dyadic [of "2 * int d - 1" 1, symmetric]) (auto simp: field_simps)
  have hi: "y \<le> of_int (128 * int d + 63) / 2 ^ 7"
    unfolding y_def using dq(2) d b64.r_mono [of "of_nat N / 100" "of_int (128 * int d + 63) / 2 ^ 7"]
    by (subst b64.r_dyadic [of "128 * int d + 63" 7, symmetric]) (auto simp: field_simps)
  define z where "z = rnd (of_nat h + y)"
  have p: "0 \<le> of_nat h + y" "of_nat h + y \<le> (of_nat 65791 :: rat)" using fd assms(1) by auto
  have fa: "f_add (Fin (of_nat h)) (Fin y) = Fin z" "0 \<le> z" "z \<le> of_nat 65791"
    using f64_of_bounded [OF p] by (auto simp: z_def)
  have zlo: "of_int (2 * int (h + d) - 1) / 2 ^ 1 \<le> z"
    unfolding z_def using lo d assms(1) b64.r_mono [of "of_int (2 * int (h + d) - 1) / 2 ^ 1" "of_nat h + y"]
    by (subst b64.r_dyadic [of "2 * int (h + d) - 1" 1, symmetric]) (auto simp: field_simps)
  have zhi: "z \<le> of_int (128 * int (h + d) + 63) / 2 ^ 7"
    unfolding z_def using hi d assms(1) b64.r_mono [of "of_nat h + y" "of_int (128 * int (h + d) + 63) / 2 ^ 7"]
    by (subst b64.r_dyadic [of "128 * int (h + d) + 63" 7, symmetric]) (auto simp: field_simps)
  have "\<lfloor>z + 1 / 2\<rfloor> = int (h + d)" using zlo zhi by (intro floor_unique) (auto simp: field_simps)
  then have "f_round (Fin z) = Fin (of_nat (h + d))" using f_round_nat(1) [OF fa(2,3)] by simp
  then show ?thesis by (simp only: fd(1) fa(1) d_def)
qed

lemma loss_percent_le: "loss_percent v \<le> 100"
proof (cases v)
  case (Fin q)
  have "rnd (100 * max 0 (min q 1)) \<le> of_nat 100" by (rule b64.r_le_nat) auto
  then show ?thesis by (simp add: Fin) linarith
qed auto

lemma loss_percent_round:
  assumes "v \<noteq> F_NaN"
  obtains q where "f_clamp v (Fin 0) (Fin 1) = Some (Fin q)" "f_round (f_mul (Fin q) (Fin 100)) = Fin (of_nat (loss_percent v))"
proof (cases v)
  case (Fin x)
  define q where "q = max 0 (min x 1)"
  have q: "0 \<le> 100 * q" "100 * q \<le> of_nat 100" by (auto simp: q_def)
  have "f_mul (Fin q) (Fin 100) = Fin (rnd (100 * q))" "0 \<le> rnd (100 * q)" "rnd (100 * q) \<le> of_nat 100"
    using f64_of_bounded [OF q] by (auto simp: mult.commute)
  then show thesis using f_round_nat(1) [of "rnd (100 * q)" 100]
    by (intro that [of q]) (simp_all add: Fin q_def f_clamp_fin)
next
  case (F_inf neg)
  have h: "rnd 100 = 100" using b64.r_nat [of 100] by simp
  have "f64_of 100 = Fin 100" "f64_of 0 = Fin 0" using f64_of_nat [of 100] f64_of_nat [of 0] by simp_all
  moreover have "\<lfloor>1 / 2 :: rat\<rfloor> = 0" "\<lfloor>201 / 2 :: rat\<rfloor> = 100" by (simp_all add: floor_eq_iff)
  ultimately show thesis using that [of "if neg then 0 else 1"] F_inf h
    by (cases neg) (auto simp: f_clamp_def Let_def)
qed (use assms in simp)

lemma loss_target_eq:
  assumes "fr_min_pct (fr_config s) \<le> fr_max_pct (fr_config s)"
  obtains t where "loss_target_pct s v = Some t" "unat t = int_target (fr_config s) v"
proof (cases "v = F_NaN")
  case True
  have "f_of_word (fr_min_pct (fr_config s)) = Fin (of_nat (unat (fr_min_pct (fr_config s))))"
    "f_of_word (fr_max_pct (fr_config s)) = Fin (of_nat (unat (fr_max_pct (fr_config s))))" by (simp_all only: f_of_u8)
  then show thesis using assms
    by (intro that [of 0]) (auto simp: True loss_target_pct_def f_clamp_def int_target_def Let_def word_le_nat_alt
        simp del: of_nat_unat split: f64.splits)
next
  case False
  let ?c = "fr_config s"
  define a b h N where "a = unat (fr_min_pct ?c)" and "b = unat (fr_max_pct ?c)" and "h = unat (fr_headroom_pct ?c)"
    and "N = loss_percent v * unat (fr_slope_x100 ?c)"
  have ab: "a \<le> b" "b < 256" "h < 256" using assms unat_lt_u8 by (auto simp: a_def b_def h_def word_le_nat_alt)
  have N: "N \<le> 100 * 65535" unfolding N_def using loss_percent_le [of v] unat_lt_u16 [of "fr_slope_x100 ?c"] by (intro mult_mono) auto
  obtain q where q: "f_clamp v (Fin 0) (Fin 1) = Some (Fin q)" "f_round (f_mul (Fin q) (Fin 100)) = Fin (of_nat (loss_percent v))"
    by (rule loss_percent_round [OF False])
  have m: "f_mul (Fin (of_nat (loss_percent v))) (f_of_word (fr_slope_x100 ?c)) = Fin (of_nat N)"
    unfolding f_of_u16 N_def using N f64_of_nat [of N] by (simp add: N_def del: of_nat_unat)
  define t where "t = max a (min (h + (N + 50) div 100) b)"
  have "f_clamp (Fin (of_nat (h + (N + 50) div 100))) (Fin (of_nat a)) (Fin (of_nat b)) = Some (Fin (of_nat t))"
    using ab(1) by (subst f_clamp_fin) (auto simp: t_def of_nat_max of_nat_min max_def min_def)
  then have "loss_target_pct s v = Some (f_to_word (Fin (of_nat t)))"
    using affine_round [OF ab(3), of N] N
    by (simp only: loss_target_pct_def Let_def q m option.case f_of_u8 a_def b_def h_def)
  moreover have "t < 256" using ab by (simp add: t_def)
  then have "unat (f_to_word (Fin (of_nat t)) :: u8) = t" using unat_f_to_word [of "of_nat t", where 'a = 8] by simp
  ultimately show thesis using False
    by (intro that) (auto simp: int_target_def t_def a_def b_def h_def N_def)
qed

text \<open>More loss never asks for less.\<close>

lemma loss_percent_mono: "f_le v w \<Longrightarrow> loss_percent v \<le> loss_percent w"
proof (induction v w rule: f_le.induct)
  case (1 x y)
  then have "rnd (100 * max 0 (min x 1)) \<le> rnd (100 * max 0 (min y 1))" by (intro b64.r_mono) (auto simp: max_def min_def)
  then have "\<lfloor>rnd (100 * max 0 (min x 1)) + 1 / 2\<rfloor> \<le> \<lfloor>rnd (100 * max 0 (min y 1)) + 1 / 2\<rfloor>" by (intro floor_mono) simp
  then show ?case by (simp only: loss_percent.simps nat_mono)
next
  case (3 x t)
  then show ?case using loss_percent_le [of "Fin x"] by simp
qed auto

lemma int_target_mono:
  assumes "f_le v w"
  shows "int_target c v \<le> int_target c w"
proof -
  have "w \<noteq> F_NaN" "v \<noteq> F_NaN" using assms by (auto elim: f_le.elims)
  moreover have "loss_percent v * unat (fr_slope_x100 c) \<le> loss_percent w * unat (fr_slope_x100 c)"
    using loss_percent_mono [OF assms] by simp
  then have "(loss_percent v * unat (fr_slope_x100 c) + 50) div 100 \<le> (loss_percent w * unat (fr_slope_x100 c) + 50) div 100"
    by (intro div_le_mono) simp
  ultimately show ?thesis by (auto simp: int_target_def)
qed

section \<open>Invariant\<close>

definition fr_inv :: "fec_ratio_controller \<Rightarrow> bool" where
  "fr_inv s \<longleftrightarrow> fr_min_pct (fr_config s) \<le> fr_current_pct s \<and> fr_current_pct s \<le> fr_max_pct (fr_config s)"

lemma fr_new_inv: "\<exists>s. fr_new c = Some s \<and> fr_inv s \<and> fr_clean_streak s = 0"
  by (simp add: fr_new_def fr_sanitised_def fr_inv_def Let_def ord_clamp_eq)

definition fr_clean :: "fec_ratio_controller \<Rightarrow> f64 \<Rightarrow> bool" where
  "fr_clean s v = f_le v (fr_decay_loss_threshold (fr_config s))"

text \<open>One observation with the target \<open>t\<close>: the three cases of the code.\<close>

definition fr_effect :: "fec_ratio_controller \<Rightarrow> u8 \<Rightarrow> f64 \<Rightarrow> fec_ratio_controller \<Rightarrow> bool" where
  "fr_effect s t v s' \<longleftrightarrow> (let c = fr_config s in
    if fr_current_pct s < t then fr_current_pct s' = t \<and> fr_clean_streak s' = 0
    else if fr_clean s v \<and> unat (fr_decay_streak c) \<le> unat (sat_add (fr_clean_streak s) 1)
    then fr_current_pct s' = max (sat_sub (fr_current_pct s) (fr_decay_step_pct c)) (fr_min_pct c) \<and> fr_clean_streak s' = 0
    else fr_current_pct s' = fr_current_pct s \<and> fr_clean_streak s' = (if fr_clean s v then sat_add (fr_clean_streak s) 1 else 0))"

lemma fr_observe_spec:
  assumes "fr_inv s"
  obtains t s' where "loss_target_pct s v = Some t" "unat t = int_target (fr_config s) v"
    "fr_observe s v = Some (fr_current_ratio s', s')" "fr_inv s'" "fr_config s' = fr_config s"
    "fr_effect s t v s'"
proof -
  let ?c = "fr_config s"
  have mm: "fr_min_pct ?c \<le> fr_max_pct ?c" using assms by (auto simp: fr_inv_def)
  obtain t where t: "loss_target_pct s v = Some t" "unat t = int_target ?c v" by (rule loss_target_eq [OF mm])
  have tm: "t \<le> fr_max_pct ?c" using t(2) mm by (auto simp: int_target_def word_le_nat_alt split: if_splits)
  have sub: "sat_sub (fr_current_pct s) (fr_decay_step_pct ?c) \<le> fr_max_pct ?c"
    using assms by (auto simp: fr_inv_def word_le_nat_alt unat_sat_sub)
  obtain p s' where o: "fr_observe s v = Some (p, s')" using t(1) by (simp add: fr_observe_def Let_def)
  have c: "p = fr_current_ratio s'" "fr_config s' = ?c"
    using o t(1) by (auto simp: fr_observe_def Let_def split: if_splits)
  have k: "fr_effect s t v s'"
    using o t(1) by (auto simp: fr_effect_def fr_observe_def Let_def fr_clean_def word_le_nat_alt)
  have "fr_inv s'" using k c(2) assms tm sub by (auto simp: fr_effect_def fr_inv_def Let_def split: if_splits intro: order_trans less_imp_le)
  with t o c k show thesis by (intro that) auto
qed

lemma fr_run_snoc: "fr_run s (vs @ [v]) = (case fr_run s vs of None \<Rightarrow> None
    | Some s' \<Rightarrow> (case fr_observe s' v of None \<Rightarrow> None | Some (_, s'') \<Rightarrow> Some s''))"
  by (induction vs arbitrary: s) (auto split: option.splits)

text \<open>The streak counts clean intervals at the end of the history.\<close>

lemma fr_run_inv:
  assumes "fr_inv s" "fr_clean_streak s = 0"
  shows "\<exists>s'. fr_run s vs = Some s' \<and> fr_inv s' \<and> fr_config s' = fr_config s
    \<and> unat (fr_clean_streak s') \<le> length (takeWhile (fr_clean s) (rev vs))"
proof (induction vs rule: rev_induct)
  case Nil
  then show ?case using assms by simp
next
  case (snoc v vs)
  then obtain s1 where s1: "fr_run s vs = Some s1" "fr_inv s1" "fr_config s1 = fr_config s"
    "unat (fr_clean_streak s1) \<le> length (takeWhile (fr_clean s) (rev vs))" by blast
  obtain t s' where o: "fr_observe s1 v = Some (fr_current_ratio s', s')" "fr_inv s'" "fr_config s' = fr_config s1"
    "fr_effect s1 t v s'"
    by (rule fr_observe_spec [OF s1(2), of v])
  have cl: "fr_clean s1 = fr_clean s" using s1(3) by (simp add: fr_clean_def fun_eq_iff)
  have "unat (fr_clean_streak s') \<le> (if fr_clean s v then unat (fr_clean_streak s1) + 1 else 0)"
    using o(4) unat_sat_add_le [of "fr_clean_streak s1" 1] by (auto simp: fr_effect_def Let_def cl split: if_splits)
  then show ?case using s1 o(1-3) by (auto simp: fr_run_snoc)
qed

section \<open>Properties\<close>

text \<open>
  C32.
  The ratio follows the loss. For every configuration and every history of estimates (any \<open>f64\<close>) nothing panics and the ratio is within
  its bounds. The ratio that an estimate asks for is, although computed in floating point, exactly the headroom plus the slope
  times the loss in percent, rounded to the nearest integer and cut to the bounds; when it is above the current ratio the
  controller takes it at once, and otherwise the ratio does not rise and stays above it, up to one decay step in a clean interval.
\<close>

theorem fec_ratio_tracks_loss:
  "\<exists>s s' s'' t. fr_new c = Some s \<and> fr_run s vs = Some s' \<and> fr_observe s' v = Some (fr_current_ratio s'', s'')
    \<and> fr_min_pct (fr_config s) \<le> fr_current_pct s'' \<and> fr_current_pct s'' \<le> fr_max_pct (fr_config s)
    \<and> loss_target_pct s' v = Some t \<and> unat t = int_target (fr_config s) v
    \<and> (if fr_current_pct s' < t then fr_current_pct s'' = t
       else fr_current_pct s'' \<le> fr_current_pct s'
         \<and> unat t \<le> unat (fr_current_pct s'') + (if fr_clean s v then unat (fr_decay_step_pct (fr_config s)) else 0))"
proof -
  obtain s where s: "fr_new c = Some s" "fr_inv s" "fr_clean_streak s = 0" using fr_new_inv by blast
  obtain s' where s': "fr_run s vs = Some s'" "fr_inv s'" "fr_config s' = fr_config s" using fr_run_inv [OF s(2,3)] by blast
  obtain t s'' where o: "loss_target_pct s' v = Some t" "unat t = int_target (fr_config s') v"
    "fr_observe s' v = Some (fr_current_ratio s'', s'')" "fr_inv s''" "fr_config s'' = fr_config s'"
    "fr_effect s' t v s''"
    by (rule fr_observe_spec [OF s'(2), of v])
  have cl: "fr_clean s' v = fr_clean s v" using s'(3) by (simp add: fr_clean_def)
  have "if fr_current_pct s' < t then fr_current_pct s'' = t
       else fr_current_pct s'' \<le> fr_current_pct s'
         \<and> unat t \<le> unat (fr_current_pct s'') + (if fr_clean s v then unat (fr_decay_step_pct (fr_config s)) else 0)"
    using o(6) s'(2,3) by (auto simp: fr_effect_def Let_def cl fr_inv_def word_le_nat_alt word_less_nat_alt unat_max unat_sat_sub split: if_splits)
  then show ?thesis using s(1) s' o(1-5) by (auto simp: fr_inv_def)
qed

text \<open>
  Redundancy decays only on evidence: the ratio falls only when as many intervals as the decay streak, the last one included, were clean in
  a row, and then by at most one step.
\<close>

theorem fec_ratio_decays_after_streak:
  assumes "fr_new c = Some s" "fr_run s vs = Some s'" "fr_observe s' v = Some (r, s'')" "fr_current_pct s'' < fr_current_pct s'"
  shows "list_all (fr_clean s) (take (unat (fr_decay_streak (fr_config s))) (rev (vs @ [v])))
    \<and> unat (fr_decay_streak (fr_config s)) \<le> length (vs @ [v])
    \<and> unat (fr_current_pct s') \<le> unat (fr_current_pct s'') + unat (fr_decay_step_pct (fr_config s))"
proof -
  have i: "fr_inv s" "fr_clean_streak s = 0" using fr_new_inv [of c] assms(1) by auto
  have s': "fr_inv s'" "fr_config s' = fr_config s" "unat (fr_clean_streak s') \<le> length (takeWhile (fr_clean s) (rev vs))"
    using fr_run_inv [OF i, of vs] assms(2) by auto
  obtain t q where o: "fr_observe s' v = Some (fr_current_ratio q, q)"
    "fr_effect s' t v q"
    by (rule fr_observe_spec [OF s'(1), of v])
  have q: "q = s''" using o(1) assms(3) by simp
  have cl: "fr_clean s' v = fr_clean s v" using s'(2) by (simp add: fr_clean_def)
  have d: "fr_clean s v" "unat (fr_decay_streak (fr_config s)) \<le> unat (sat_add (fr_clean_streak s') 1)"
    "fr_current_pct s'' = max (sat_sub (fr_current_pct s') (fr_decay_step_pct (fr_config s))) (fr_min_pct (fr_config s))"
    using o(2) assms(4) s'(2) by (auto simp: fr_effect_def Let_def q cl split: if_splits)
  let ?n = "unat (fr_decay_streak (fr_config s))" and ?w = "takeWhile (fr_clean s) (rev (vs @ [v]))"
  have n: "?n \<le> length ?w" using d(1,2) s'(3) unat_sat_add_le [of "fr_clean_streak s'" 1] by simp
  have "take ?n (rev (vs @ [v])) = take ?n ?w" using n by (metis append_take_drop_id le_Suc_ex takeWhile_dropWhile_id take_append take_all diff_is_0_eq take_0 append_Nil2)
  then have "list_all (fr_clean s) (take ?n (rev (vs @ [v])))"
    unfolding list_all_iff by (metis in_set_takeD set_takeWhileD)
  moreover have "?n \<le> length (vs @ [v])" using n length_takeWhile_le [of "fr_clean s" "rev (vs @ [v])"] by simp
  moreover have "unat (fr_current_pct s') \<le> unat (fr_current_pct s'') + unat (fr_decay_step_pct (fr_config s))"
    unfolding d(3) by (simp add: unat_max unat_sat_sub)
  ultimately show ?thesis by blast
qed

theorem fec_ratio_decays_after_streak_witness:
  "fr_observe \<lparr>fr_config = fr_default\<lparr>fr_decay_streak := 1\<rparr>, fr_current_pct = 20, fr_clean_streak = 0\<rparr> (Fin 0)
      = Some ((18, 100), \<lparr>fr_config = fr_default\<lparr>fr_decay_streak := 1\<rparr>, fr_current_pct = 18, fr_clean_streak = 0\<rparr>)
    \<and> fr_clean \<lparr>fr_config = fr_default\<lparr>fr_decay_streak := 1\<rparr>, fr_current_pct = 20, fr_clean_streak = 0\<rparr> (Fin 0)"
proof -
  let ?c = "fr_default\<lparr>fr_decay_streak := 1\<rparr>"
  let ?s = "\<lparr>fr_config = ?c, fr_current_pct = 20, fr_clean_streak = 0\<rparr>"
  have n: "fr_new ?c = Some ?s" by code_simp
  obtain t where t: "loss_target_pct ?s (Fin 0) = Some t" "unat t = int_target ?c (Fin 0)"
    using loss_target_eq [of ?s "Fin 0"] by (auto simp: fr_default_def)
  have "\<lfloor>1 / 2 :: rat\<rfloor> = 0" by (simp add: floor_eq_iff)
  then have "unat t = unat (5 :: u8)" using t(2) by (simp add: int_target_def fr_default_def)
  then have t5: "t = 5" by (simp only: word_unat_eq_iff)
  have "f_le (Fin 0) (f64_of (1 / 200))" using f64_of_unit [of "1 / 200"] by simp
  then have o: "fr_observe ?s (Fin 0) = Some ((18, 100), \<lparr>fr_config = ?c, fr_current_pct = 18, fr_clean_streak = 0\<rparr>)"
    using t(1) by (simp add: fr_observe_def t5 fr_default_def fr_current_ratio_def sat_add_def sat_sub_def)
  show ?thesis using fec_ratio_decays_after_streak [OF n fr_run.simps(1) o] o by (simp add: fr_default_def)
qed

end
