(* ===== verification/Qu_Relay.thy ===== *)
theory Qu_Relay
  imports Qu_Wire
begin

text \<open>
  The relay of the \<open>video_qu\<close> channel (\<open>streamer/src/transport/webrtc/qu_relay.rs\<close>): a task that accepts one TCP connection of
  the host at a time, a task per connection that reads length-prefixed frames and writes the client's messages, and the filter
  between them and the data channel. Both tasks wait in \<open>tokio::select!\<close>: when one branch completes, the futures of the others
  are dropped, with what they have read. Steps of the tasks interleave freely; the sink takes what it is given.
\<close>

section \<open>Reading a frame\<close>

definition MAX_MSG_LEN :: u32 where "MAX_MSG_LEN = 4 * 1024 * 1024"

definition resolve_relay_port :: "u16 option \<Rightarrow> u16" where
  "resolve_relay_port configured = (case configured of None \<Rightarrow> 0 | Some p \<Rightarrow> p)"

text \<open>
  The future of \<open>read_frame\<close>: inside the first \<open>read_exact\<close> with the bytes it has, or inside the second. A poll takes bytes
  from the socket until the future completes or none are left.
\<close>

datatype read_state = In_len bytes | In_body nat bytes

datatype read_result = Rd_pending read_state | Rd_ok bytes | Rd_err

definition read_body :: "nat \<Rightarrow> bytes \<Rightarrow> bytes \<Rightarrow> read_result \<times> bytes" where
  "read_body n got avail = (let need = n - length got in
    if length avail < need then (Rd_pending (In_body n (got @ avail)), [])
    else (Rd_ok (got @ take need avail), drop need avail))"

fun read_frame :: "read_state \<Rightarrow> bytes \<Rightarrow> read_result \<times> bytes" where
  "read_frame (In_len got) avail = (let need = 4 - length got in
    if length avail < need then (Rd_pending (In_len (got @ avail)), [])
    else let rest = drop need avail in
      case rd32 () (got @ take need avail) of Inl _ \<Rightarrow> (Rd_err, rest)
      | Inr len \<Rightarrow> if len = 0 then (Rd_err, rest) else if MAX_MSG_LEN < len then (Rd_err, rest)
          else read_body (unat len) [] rest)"
| "read_frame (In_body n got) avail = read_body n got avail"

section \<open>The connection\<close>

record qu_conn =
  cn_read :: read_state
  cn_buf :: bytes
  cn_wq :: "bytes list"
  cn_out :: bytes
  cn_open :: bool

definition conn_new :: "bytes option \<Rightarrow> qu_conn" where
  "conn_new pending = \<lparr>cn_read = In_len [], cn_buf = [], cn_wq = (case pending of None \<Rightarrow> [] | Some d \<Rightarrow> [d]),
    cn_out = [], cn_open = True\<rparr>"

text \<open>\<open>try_send\<close> on a channel of capacity 16, closed when its receiver is gone.\<close>

definition conn_try_send :: "bytes \<Rightarrow> qu_conn \<Rightarrow> qu_conn" where
  "conn_try_send d c = (if cn_open c \<and> length (cn_wq c) < 16 then c\<lparr>cn_wq := cn_wq c @ [d]\<rparr> else c)"

definition framed :: "bytes \<Rightarrow> bytes" where
  "framed d = le32 (word_of_nat (length d)) @ d"

text \<open>
  What happens to a connection: bytes arrive; the read future is polled (at the end of the stream, a future that still waits
  ends with an error); the branch of the writer wins and drops the read future.
\<close>

datatype conn_event = Ce_arrive bytes | Ce_poll | Ce_eof | Ce_write bool

definition conn_poll :: "bool \<Rightarrow> qu_conn \<Rightarrow> qu_conn \<times> bytes list" where
  "conn_poll eof c = (case read_frame (cn_read c) (cn_buf c) of
    (Rd_pending st, rest) \<Rightarrow> (c\<lparr>cn_read := st, cn_buf := rest, cn_open := \<not> eof\<rparr>, [])
  | (Rd_ok msg, rest) \<Rightarrow> (c\<lparr>cn_read := In_len [], cn_buf := rest\<rparr>, [msg])
  | (Rd_err, rest) \<Rightarrow> (c\<lparr>cn_buf := rest, cn_open := False\<rparr>, []))"

definition conn_write :: "bool \<Rightarrow> qu_conn \<Rightarrow> qu_conn" where
  "conn_write ok c = (case cn_wq c of [] \<Rightarrow> c
    | d # ds \<Rightarrow> if ok then c\<lparr>cn_read := In_len [], cn_wq := ds, cn_out := cn_out c @ framed d\<rparr>
        else c\<lparr>cn_read := In_len [], cn_wq := ds, cn_open := False\<rparr>)"

fun conn_step :: "qu_conn \<Rightarrow> conn_event \<Rightarrow> qu_conn \<times> bytes list" where
  "conn_step c (Ce_arrive bs) = (c\<lparr>cn_buf := cn_buf c @ bs\<rparr>, [])"
| "conn_step c Ce_poll = (if cn_open c then conn_poll False c else (c, []))"
| "conn_step c Ce_eof = (if cn_open c then conn_poll True c else (c, []))"
| "conn_step c (Ce_write ok) = (if cn_open c then conn_write ok c else c, [])"

fun conn_run :: "qu_conn \<Rightarrow> conn_event list \<Rightarrow> qu_conn \<times> bytes list" where
  "conn_run c [] = (c, [])"
| "conn_run c (e # es) = (let (c1, ms) = conn_step c e; (c2, ns) = conn_run c1 es in (c2, ms @ ns))"

section \<open>Routing\<close>

text \<open>
  \<open>handle_socket_frame\<close>: the epoch after the message, and what is to be sent to the data channel. Configuration and epoch
  messages are relayed always, the rest when the client has subscribed.
\<close>

definition relay_to_sink :: "bool \<Rightarrow> bytes \<Rightarrow> bytes option" where
  "relay_to_sink active msg = (if \<not> active then None else Some msg)"

definition handle_socket_frame :: "bytes \<Rightarrow> bool \<Rightarrow> u32 option \<Rightarrow> u32 option \<times> bytes option" where
  "handle_socket_frame msg active epoch = (case msg of [] \<Rightarrow> (epoch, None)
    | kind # _ \<Rightarrow>
      if 0x80 \<le> kind then (epoch, None)
      else if kind = KIND_QU_CONFIG then
        (case parse_msg msg of Some (QuConfig _ _ _ _ e) \<Rightarrow> Some e | _ \<Rightarrow> epoch, Some msg)
      else if kind = KIND_QU_EPOCH then
        (case parse_msg msg of Some (QuEpoch e) \<Rightarrow> Some e | _ \<Rightarrow> epoch, Some msg)
      else if kind = KIND_QU_TILE \<or> kind = KIND_QU_INVALIDATE then
        (case (epoch, Option.bind (peek msg) snd) of
          (Some c, Some m) \<Rightarrow> (epoch, if c = m then relay_to_sink active msg else None)
        | _ \<Rightarrow> (epoch, None))
      else (epoch, relay_to_sink active msg))"

section \<open>The relay task\<close>

text \<open>
  \<open>qr_sending\<close> is the message a connection task is handing to the data channel; while it waits there it neither reads nor
  writes. A superseded generation is noticed at the top of the loop of each task, after the event it waited for.
\<close>

record qu_relay =
  qr_active :: bool
  qr_client_q :: "bytes list"
  qr_epoch :: "u32 option"
  qr_conn :: "qu_conn option"
  qr_sending :: "bytes option"
  qr_pending_subscribe :: "bytes option"
  qr_sink :: "bytes list"
  qr_current :: bool
  qr_running :: bool

definition relay_spawn :: qu_relay where
  "relay_spawn = \<lparr>qr_active = False, qr_client_q = [], qr_epoch = None, qr_conn = None, qr_sending = None,
    qr_pending_subscribe = None, qr_sink = [], qr_current = True, qr_running = True\<rparr>"

definition forward_client_msg :: "bytes \<Rightarrow> qu_relay \<Rightarrow> qu_relay" where
  "forward_client_msg data r = (let queued = (if qr_running r \<and> length (qr_client_q r) < 16 then qr_client_q r @ [data] else qr_client_q r)
    in case data of [] \<Rightarrow> r
    | kind # _ \<Rightarrow> if kind = KIND_QU_SUBSCRIBE then r\<lparr>qr_active := True, qr_client_q := queued\<rparr>
        else if kind = KIND_QU_BUDGET then r\<lparr>qr_client_q := queued\<rparr>
        else r)"

definition relay_exit :: "qu_relay \<Rightarrow> qu_relay" where
  "relay_exit r = r\<lparr>qr_conn := None, qr_sending := None, qr_running := False\<rparr>"

definition relay_guard :: "qu_relay \<Rightarrow> qu_relay" where
  "relay_guard r = (if qr_current r then r else relay_exit r)"

definition relay_accept :: "qu_relay \<Rightarrow> qu_relay" where
  "relay_accept r = r\<lparr>qr_conn := Some (conn_new (qr_pending_subscribe r)), qr_sending := None\<rparr>"

definition relay_client :: "bytes \<Rightarrow> qu_relay \<Rightarrow> qu_relay" where
  "relay_client data r = (let r1 = (case data of [] \<Rightarrow> r
      | kind # _ \<Rightarrow> if kind = KIND_QU_SUBSCRIBE then r\<lparr>qr_pending_subscribe := Some data\<rparr> else r)
    in r1\<lparr>qr_conn := map_option (conn_try_send data) (qr_conn r1)\<rparr>)"

text \<open>The guard of the connection task, after a frame or a write.\<close>

definition conn_guard :: "qu_relay \<Rightarrow> qu_relay" where
  "conn_guard r = (if qr_current r then r else r\<lparr>qr_conn := map_option (\<lambda>c. c\<lparr>cn_open := False\<rparr>) (qr_conn r)\<rparr>)"

definition relay_conn :: "conn_event \<Rightarrow> qu_conn \<Rightarrow> qu_relay \<Rightarrow> qu_relay" where
  "relay_conn e c r = (case conn_step c e of
    (c', []) \<Rightarrow> (let r1 = r\<lparr>qr_conn := Some c'\<rparr> in case e of Ce_write _ \<Rightarrow> conn_guard r1 | _ \<Rightarrow> r1)
  | (c', msg # _) \<Rightarrow>
      (case handle_socket_frame msg (qr_active r) (qr_epoch r) of
        (ep, None) \<Rightarrow> conn_guard (r\<lparr>qr_conn := Some c', qr_epoch := ep\<rparr>)
      | (ep, Some out) \<Rightarrow> r\<lparr>qr_conn := Some c', qr_epoch := ep, qr_sending := Some out\<rparr>))"

datatype relay_event = Re_client bytes | Re_take | Re_accept | Re_accept_err | Re_conn conn_event | Re_sent
  | Re_supersede | Re_handle_dropped

fun relay_step :: "qu_relay \<Rightarrow> relay_event \<Rightarrow> qu_relay" where
  "relay_step r (Re_client data) = forward_client_msg data r"
| "relay_step r Re_take = (case qr_client_q r of [] \<Rightarrow> r
    | d # ds \<Rightarrow> if qr_running r then relay_guard (relay_client d (r\<lparr>qr_client_q := ds\<rparr>)) else r)"
| "relay_step r Re_accept = (if qr_running r then relay_guard (relay_accept r) else r)"
| "relay_step r Re_accept_err = (if qr_running r then relay_guard r else r)"
| "relay_step r (Re_conn e) = (case qr_conn r of None \<Rightarrow> r
    | Some c \<Rightarrow> (case (qr_sending r, e) of
        (None, _) \<Rightarrow> relay_conn e c r
      | (Some _, Ce_arrive _) \<Rightarrow> relay_conn e c r
      | _ \<Rightarrow> r))"
| "relay_step r Re_sent = (case qr_sending r of None \<Rightarrow> r
    | Some m \<Rightarrow> conn_guard (r\<lparr>qr_sink := qr_sink r @ [m], qr_sending := None\<rparr>))"
| "relay_step r Re_supersede = r\<lparr>qr_current := False\<rparr>"
| "relay_step r Re_handle_dropped = (if qr_running r \<and> qr_client_q r = [] then relay_exit r else r)"

definition relay_run :: "relay_event list \<Rightarrow> qu_relay" where
  "relay_run es = foldl relay_step relay_spawn es"

section \<open>Frames\<close>

text \<open>The lengths the reader accepts, and the bytes a waiting future has taken.\<close>

definition valid_frame :: "bytes \<Rightarrow> bool" where
  "valid_frame m \<longleftrightarrow> 0 < length m \<and> length m \<le> unat MAX_MSG_LEN"

fun state_bytes :: "read_state \<Rightarrow> bytes" where
  "state_bytes (In_len got) = got"
| "state_bytes (In_body n got) = le32 (word_of_nat n) @ got"

fun wf_read :: "read_state \<Rightarrow> bool" where
  "wf_read (In_len got) = (length got < 4)"
| "wf_read (In_body n got) = (length got < n \<and> n \<le> unat MAX_MSG_LEN)"

lemma MAX_MSG_LEN_unat: "unat MAX_MSG_LEN = 4194304"
  by (simp add: MAX_MSG_LEN_def)

lemma unat_word_of_small: "n \<le> unat MAX_MSG_LEN \<Longrightarrow> unat (word_of_nat n :: u32) = n"
  by (simp add: MAX_MSG_LEN_unat unat_of_nat take_bit_nat_eq_self)

lemma le32_inject: "le32 a = le32 b \<longleftrightarrow> a = b"
  by (metis rd32_le32 sum.inject(2))

lemma take_4_framed: "take 4 (framed m @ xs) = le32 (word_of_nat (length m))"
  by (simp add: framed_def)

text \<open>A poll of the second read.\<close>

lemma read_body_cases:
  assumes "length got < n" "n \<le> unat MAX_MSG_LEN"
  shows "(\<exists>got'. read_body n got avail = (Rd_pending (In_body n got'), []) \<and> wf_read (In_body n got') \<and> got' = got @ avail)
    \<or> (\<exists>m rest. read_body n got avail = (Rd_ok m, rest) \<and> valid_frame m \<and> le32 (word_of_nat n) @ got @ avail = framed m @ rest)"
proof (cases "length avail < n - length got")
  case True
  then show ?thesis using assms by (simp add: read_body_def)
next
  case False
  then have "length (got @ take (n - length got) avail) = n" using assms(1) by simp
  moreover have "read_body n got avail = (Rd_ok (got @ take (n - length got) avail), drop (n - length got) avail)"
    using False by (simp add: read_body_def Let_def)
  ultimately show ?thesis using assms
    by (intro disjI2 exI [of _ "got @ take (n - length got) avail"] exI [of _ "drop (n - length got) avail"])
      (auto simp: valid_frame_def framed_def)
qed

text \<open>A poll in any state: it waits with all the bytes, completes a frame, or finds a length out of range.\<close>

lemma read_frame_cases:
  assumes "wf_read st"
  obtains (wait) st' where "read_frame st avail = (Rd_pending st', [])" "wf_read st'" "state_bytes st' = state_bytes st @ avail"
  | (ready) m rest where "read_frame st avail = (Rd_ok m, rest)" "valid_frame m" "state_bytes st @ avail = framed m @ rest"
  | (bad) len rest where "read_frame st avail = (Rd_err, rest)" "take 4 (state_bytes st @ avail) = le32 len"
      "len = 0 \<or> MAX_MSG_LEN < len"
proof (cases st)
  case (In_body n got)
  then show thesis using read_body_cases [of got n avail] assms wait ready by auto
next
  case (In_len got)
  let ?need = "4 - length got"
  have g: "length got < 4" using assms In_len by simp
  show thesis
  proof (cases "length avail < ?need")
    case True
    then show thesis using In_len wait [of "In_len (got @ avail)"] g by simp
  next
    case False
    let ?rest = "drop ?need avail"
    have l4: "length (got @ take ?need avail) = 4" using False g by simp
    obtain len where len: "rd32 () (got @ take ?need avail) = Inr len" using rd32_total [OF l4, of "()"] by (elim exE)
    then have le: "got @ take ?need avail = le32 len" by (simp add: rd32_eq_Inr)
    have "got @ avail = (got @ take ?need avail) @ ?rest" by (simp only: append.assoc append_take_drop_id)
    then have all: "state_bytes st @ avail = le32 len @ ?rest" unfolding le In_len by (simp only: state_bytes.simps)
    show thesis
    proof (cases "len = 0 \<or> MAX_MSG_LEN < len")
      case True
      then have "read_frame st avail = (Rd_err, ?rest)" using False len by (auto simp: In_len Let_def)
      then show thesis using bad [of ?rest len] all True by simp
    next
      case ok: False
      then have n: "0 < unat len" "unat len \<le> unat MAX_MSG_LEN"
        by (auto simp: word_le_nat_alt not_less unat_gt_0)
      have r: "read_frame st avail = read_body (unat len) [] ?rest" using False len ok by (simp add: In_len Let_def)
      have z: "length [] < unat len" using n(1) by simp
      from read_body_cases [OF z n(2), of ?rest] show thesis
      proof (elim disjE exE conjE)
        fix got' assume "read_body (unat len) [] ?rest = (Rd_pending (In_body (unat len) got'), [])"
          "wf_read (In_body (unat len) got')" "got' = [] @ ?rest"
        then show thesis using wait r all by simp
      next
        fix m rest assume "read_body (unat len) [] ?rest = (Rd_ok m, rest)" "valid_frame m"
          "le32 (word_of_nat (unat len)) @ [] @ ?rest = framed m @ rest"
        then show thesis using ready r all by simp
      qed
    qed
  qed
qed

text \<open>A frame determines its bytes: the stream of valid frames can be read in one way only.\<close>

lemma framed_unique:
  assumes "framed m @ xs = framed k @ ys" "valid_frame m" "valid_frame k"
  shows "m = k \<and> xs = ys"
proof -
  have "take 4 (framed m @ xs) = take 4 (framed k @ ys)" using assms(1) by simp
  then have "(word_of_nat (length m) :: u32) = word_of_nat (length k)" by (simp only: take_4_framed le32_inject)
  then have "length m = length k" using assms(2,3) unat_word_of_small by (metis valid_frame_def)
  then show ?thesis using assms(1) by (simp add: framed_def)
qed

lemma no_bad_length:
  assumes "take 4 (framed m @ xs) = le32 len" "valid_frame m"
  shows "len \<noteq> 0 \<and> \<not> MAX_MSG_LEN < len"
proof -
  have "len = word_of_nat (length m)" using assms(1) by (simp only: take_4_framed le32_inject)
  then have "unat len = length m" using assms(2) by (simp add: valid_frame_def unat_word_of_small)
  then show ?thesis using assms(2) by (auto simp: valid_frame_def word_less_nat_alt)
qed

lemma waiting_is_partial:
  assumes "wf_read st" "state_bytes st = framed m @ xs" "valid_frame m"
  shows False
proof (cases st)
  case (In_len got)
  then show False using assms by (simp add: framed_def)
next
  case (In_body n got)
  have "take 4 (state_bytes st) = take 4 (framed m @ xs)" using assms(2) by simp
  then have "(word_of_nat n :: u32) = word_of_nat (length m)" by (simp only: take_4_framed In_body) (simp add: le32_inject)
  then have "n = length m" using assms(1,3) In_body unat_word_of_small by (metis valid_frame_def wf_read.simps(2))
  moreover have "length got = length m + length xs" using arg_cong [OF assms(2), of length] by (simp add: In_body framed_def)
  ultimately show False using assms(1) In_body by simp
qed

section \<open>Reading a stream\<close>

text \<open>
  The events of a connection whose writer wins only when the read future has taken nothing; \<open>arrived\<close> is what the host sent.
\<close>

fun writes_between :: "qu_conn \<Rightarrow> conn_event list \<Rightarrow> bool" where
  "writes_between c [] = True"
| "writes_between c (e # es) = ((case e of Ce_write ok \<Rightarrow> ok \<and> cn_read c = In_len [] | Ce_eof \<Rightarrow> False | _ \<Rightarrow> True)
    \<and> writes_between (fst (conn_step c e)) es)"

definition arrived :: "conn_event list \<Rightarrow> bytes" where
  "arrived es = concat (map (\<lambda>e. case e of Ce_arrive bs \<Rightarrow> bs | _ \<Rightarrow> []) es)"

text \<open>What the future has taken, what the socket holds and what is still to arrive are the frames not read yet.\<close>

definition in_sync :: "qu_conn \<Rightarrow> bytes \<Rightarrow> bytes list \<Rightarrow> bool" where
  "in_sync c coming ms \<longleftrightarrow> cn_open c \<and> wf_read (cn_read c) \<and> list_all valid_frame ms
    \<and> state_bytes (cn_read c) @ cn_buf c @ coming = concat (map framed ms)"

lemma conn_poll_sync:
  assumes "in_sync c coming ms"
  obtains c' where "conn_poll False c = (c', [])" "in_sync c' coming ms"
  | m ms' c' where "conn_poll False c = (c', [m])" "ms = m # ms'" "in_sync c' coming ms'"
proof -
  have i: "cn_open c" "wf_read (cn_read c)" "list_all valid_frame ms"
    "(state_bytes (cn_read c) @ cn_buf c) @ coming = concat (map framed ms)" using assms by (auto simp: in_sync_def)
  show thesis
  proof (rule read_frame_cases [OF i(2), of "cn_buf c"])
    fix st assume w: "read_frame (cn_read c) (cn_buf c) = (Rd_pending st, [])" "wf_read st"
      "state_bytes st = state_bytes (cn_read c) @ cn_buf c"
    show thesis by (rule that(1) [of "c\<lparr>cn_read := st, cn_buf := [], cn_open := True\<rparr>"]) (use w i in \<open>auto simp: conn_poll_def in_sync_def\<close>)
  next
    fix m rest assume w: "read_frame (cn_read c) (cn_buf c) = (Rd_ok m, rest)" "valid_frame m"
      "state_bytes (cn_read c) @ cn_buf c = framed m @ rest"
    then have e: "framed m @ rest @ coming = concat (map framed ms)" using i(4) by simp
    then obtain k ks where ms: "ms = k # ks" by (cases ms) (auto simp: framed_def le32_def)
    have "m = k \<and> rest @ coming = concat (map framed ks)"
      using e i(3) w(2) by (intro framed_unique) (auto simp: ms)
    then show thesis using i ms 
      by (intro that(2) [of "c\<lparr>cn_read := In_len [], cn_buf := rest\<rparr>" m ks]) (auto simp: w(1) conn_poll_def in_sync_def)
  next
    fix len rest assume w: "take 4 (state_bytes (cn_read c) @ cn_buf c) = le32 len" "len = 0 \<or> MAX_MSG_LEN < len"
    have "length (state_bytes (cn_read c) @ cn_buf c) \<ge> 4" using arg_cong [OF w(1), of length] by simp
    then have t: "take 4 (concat (map framed ms)) = le32 len" using w(1) i(4) by (metis (no_types, lifting) append_eq_append_conv_if take_append diff_is_0_eq take_0 append_Nil2)
    then obtain k ks where ms: "ms = k # ks" by (cases ms) (auto simp: le32_def)
    show thesis using no_bad_length [of k "concat (map framed ks)" len] t w(2) i(3) by (auto simp: ms)
  qed
qed

lemma conn_run_sync:
  assumes "in_sync c (arrived es) ms" "writes_between c es"
  shows "\<exists>c' ns ks. conn_run c es = (c', ns) \<and> ms = ns @ ks \<and> in_sync c' [] ks"
  using assms
proof (induction es arbitrary: c ms)
  case Nil
  then show ?case by (auto simp: arrived_def)
next
  case (Cons e es)
  show ?case
  proof (cases e)
    case (Ce_arrive bs)
    have "in_sync (fst (conn_step c e)) (arrived es) ms"
      using Cons.prems(1) by (simp add: Ce_arrive in_sync_def arrived_def)
    then show ?thesis using Cons.IH [of "fst (conn_step c e)" ms] Cons.prems(2) by (auto simp: Ce_arrive)
  next
    case Ce_poll
    have a: "arrived (e # es) = arrived es" by (simp add: Ce_poll arrived_def)
    have o: "cn_open c" using Cons.prems(1) by (simp add: in_sync_def)
    show ?thesis
    proof (rule conn_poll_sync [OF Cons.prems(1) [unfolded a]])
      fix c' assume "conn_poll False c = (c', [])" "in_sync c' (arrived es) ms"
      then show ?thesis using Cons.IH [of c' ms] Cons.prems(2) o by (auto simp: Ce_poll)
    next
      fix m ms' c' assume "conn_poll False c = (c', [m])" "ms = m # ms'" "in_sync c' (arrived es) ms'"
      then show ?thesis using Cons.IH [of c' ms'] Cons.prems(2) o by (auto simp: Ce_poll)
    qed
  next
    case Ce_eof
    then show ?thesis using Cons.prems(2) by simp
  next
    case (Ce_write ok)
    have "in_sync (fst (conn_step c e)) (arrived es) ms" "snd (conn_step c e) = []"
      using Cons.prems by (auto simp: Ce_write in_sync_def arrived_def conn_write_def split: list.split)
    then show ?thesis using Cons.IH [of "fst (conn_step c e)" ms] Cons.prems(2) by (auto simp: Let_def split_beta)
  qed
qed

lemma in_sync_drained:
  assumes "in_sync c [] ks" "cn_buf c = []"
  shows "ks = []"
proof (cases ks)
  case (Cons m ms)
  then have "state_bytes (cn_read c) = framed m @ concat (map framed ms)" "wf_read (cn_read c)" "valid_frame m"
    using assms by (auto simp: in_sync_def)
  then show ?thesis using waiting_is_partial by blast
qed

section \<open>Epochs on the data channel\<close>

text \<open>The epoch a receiver of the data channel is in, and what may reach it there.\<close>

definition opens_epoch :: "u32 option \<Rightarrow> bytes \<Rightarrow> u32 option" where
  "opens_epoch ep m = (case parse_msg m of Some (QuConfig _ _ _ _ e) \<Rightarrow> Some e | Some (QuEpoch e) \<Rightarrow> Some e | _ \<Rightarrow> ep)"

definition msg_in_epoch :: "u32 option \<Rightarrow> bytes \<Rightarrow> bool" where
  "msg_in_epoch ep m = (case m of [] \<Rightarrow> False | kind # _ \<Rightarrow> kind < 0x80
    \<and> (if kind = KIND_QU_TILE \<or> kind = KIND_QU_INVALIDATE then ep \<noteq> None \<and> Option.bind (peek m) snd = ep else True))"

fun sink_ok :: "u32 option \<Rightarrow> bytes list \<Rightarrow> bool" where
  "sink_ok ep [] = True"
| "sink_ok ep (m # ms) = (msg_in_epoch ep m \<and> sink_ok (opens_epoch ep m) ms)"

lemma sink_ok_snoc: "sink_ok ep (ms @ [m]) \<longleftrightarrow> sink_ok ep ms \<and> msg_in_epoch (foldl opens_epoch ep ms) m"
  by (induction ms arbitrary: ep) auto

lemma parse_kind:
  "parse_msg (k # bs) = Some (QuConfig w h c r e) \<Longrightarrow> k = KIND_QU_CONFIG"
  "parse_msg (k # bs) = Some (QuEpoch e) \<Longrightarrow> k = KIND_QU_EPOCH"
  by (auto simp: parse_msg_def Let_def split: if_splits bind_splits option.splits)

lemma handle_socket_frame_ok:
  assumes "handle_socket_frame msg active ep = (ep', out)"
  shows "case out of None \<Rightarrow> ep' = ep
    | Some m \<Rightarrow> m = msg \<and> msg_in_epoch ep m \<and> ep' = opens_epoch ep m \<and> (active \<or> hd m = KIND_QU_CONFIG \<or> hd m = KIND_QU_EPOCH)"
proof (cases msg)
  case Nil
  then show ?thesis using assms by (simp add: handle_socket_frame_def)
next
  case (Cons k bs)
  have o: "opens_epoch ep (k # bs) = (if k = KIND_QU_CONFIG then case parse_msg (k # bs) of Some (QuConfig _ _ _ _ e) \<Rightarrow> Some e | _ \<Rightarrow> ep
      else if k = KIND_QU_EPOCH then case parse_msg (k # bs) of Some (QuEpoch e) \<Rightarrow> Some e | _ \<Rightarrow> ep else ep)"
    using parse_kind [of k bs] by (auto simp: opens_epoch_def qu_kinds split: option.splits qu_msg.splits)
  consider "0x80 \<le> k" | "k < 0x80" "k = KIND_QU_CONFIG" | "k < 0x80" "k = KIND_QU_EPOCH"
    | "k < 0x80" "k = KIND_QU_TILE \<or> k = KIND_QU_INVALIDATE"
    | "k < 0x80" "k \<noteq> KIND_QU_CONFIG" "k \<noteq> KIND_QU_EPOCH" "k \<noteq> KIND_QU_TILE" "k \<noteq> KIND_QU_INVALIDATE" by (metis not_le)
  then show ?thesis
  proof cases
    case 1
    then show ?thesis using assms by (auto simp: Cons handle_socket_frame_def)
  next
    case 2
    then have "k \<noteq> KIND_QU_TILE" "k \<noteq> KIND_QU_INVALIDATE" by (auto simp: qu_kinds)
    moreover have "\<not> 0x80 \<le> k" using 2(1) by (simp only: not_le)
    ultimately show ?thesis using assms o 2 by (auto simp: Cons handle_socket_frame_def msg_in_epoch_def)
  next
    case 3
    then have "k \<noteq> KIND_QU_TILE" "k \<noteq> KIND_QU_INVALIDATE" "k \<noteq> KIND_QU_CONFIG" by (auto simp: qu_kinds)
    moreover have "\<not> 0x80 \<le> k" using 3(1) by (simp only: not_le)
    ultimately show ?thesis using assms o 3 by (auto simp: Cons handle_socket_frame_def msg_in_epoch_def)
  next
    case 4
    then have k: "k \<noteq> KIND_QU_CONFIG" "k \<noteq> KIND_QU_EPOCH" by (auto simp: qu_kinds)
    have "\<not> 0x80 \<le> k" using 4(1) by (simp only: not_le)
    then    show ?thesis
      using assms o 4 k by (cases ep; cases "Option.bind (peek (k # bs)) snd")
        (auto simp: Cons handle_socket_frame_def msg_in_epoch_def relay_to_sink_def)
  next
    case 5
    have "\<not> 0x80 \<le> k" using 5(1) by (simp only: not_le)
    then show ?thesis using assms o 5
      by (auto simp: Cons handle_socket_frame_def msg_in_epoch_def relay_to_sink_def)
  qed
qed

text \<open>The messages given to the data channel, the one being sent included, and the invariant of the relay.\<close>

definition sink_of :: "qu_relay \<Rightarrow> bytes list" where
  "sink_of r = qr_sink r @ (case qr_sending r of None \<Rightarrow> [] | Some m \<Rightarrow> [m])"

definition config_only :: "bytes list \<Rightarrow> bool" where
  "config_only ms = list_all (\<lambda>m. hd m = KIND_QU_CONFIG \<or> hd m = KIND_QU_EPOCH) ms"

definition relay_inv :: "qu_relay \<Rightarrow> bool" where
  "relay_inv r \<longleftrightarrow> sink_ok None (sink_of r) \<and> (qr_active r \<or> config_only (sink_of r))
    \<and> (qr_epoch r = foldl opens_epoch None (sink_of r) \<or> qr_conn r = None \<and> \<not> qr_running r)"

fun accepts_quiet :: "qu_relay \<Rightarrow> relay_event list \<Rightarrow> bool" where
  "accepts_quiet r [] = True"
| "accepts_quiet r (e # es) = ((case e of Re_accept \<Rightarrow> qr_sending r = None | _ \<Rightarrow> True) \<and> accepts_quiet (relay_step r e) es)"

lemma relay_inv_exit:
  assumes "relay_inv r"
  shows "relay_inv (relay_exit r)"
  using assms
  by (cases "qr_sending r") (auto simp: relay_inv_def relay_exit_def sink_of_def sink_ok_snoc config_only_def)

lemma relay_inv_guard: "relay_inv r \<Longrightarrow> relay_inv (relay_guard r)"
  by (simp add: relay_guard_def relay_inv_exit)

lemma relay_inv_same:
  assumes "relay_inv r" "qr_sink r' = qr_sink r" "qr_sending r' = qr_sending r" "qr_active r \<longrightarrow> qr_active r'"
    "qr_epoch r' = qr_epoch r" "qr_running r' = qr_running r" "qr_conn r' = None \<or> qr_conn r \<noteq> None \<or> qr_running r"
  shows "relay_inv r'"
  using assms by (auto simp: relay_inv_def sink_of_def)

lemma relay_inv_conn_guard: "relay_inv r \<Longrightarrow> relay_inv (conn_guard r)"
  by (cases "qr_conn r") (auto simp: conn_guard_def relay_inv_def sink_of_def)

lemma relay_inv_conn:
  assumes "relay_inv r" "qr_conn r = Some c" "snd (conn_step c e) = [] \<or> qr_sending r = None"
  shows "relay_inv (relay_conn e c r)"
proof -
  obtain c' ms where st: "conn_step c e = (c', ms)" by (cases "conn_step c e")
  have same: "relay_inv (r\<lparr>qr_conn := Some c'\<rparr>)" using assms(1,2) by (auto intro: relay_inv_same)
  show ?thesis
  proof (cases ms)
    case Nil
    then show ?thesis using st same by (simp add: relay_conn_def Let_def relay_inv_conn_guard split: conn_event.split)
  next
    case (Cons msg rest)
    obtain ep out where h: "handle_socket_frame msg (qr_active r) (qr_epoch r) = (ep, out)"
      by (cases "handle_socket_frame msg (qr_active r) (qr_epoch r)")
    note hs = handle_socket_frame_ok [OF h]
    show ?thesis
    proof (cases out)
      case None
      then have "r\<lparr>qr_conn := Some c', qr_epoch := ep\<rparr> = r\<lparr>qr_conn := Some c'\<rparr>" using hs by simp
      then show ?thesis using st h None same by (simp add: relay_conn_def Cons relay_inv_conn_guard)
    next
      case (Some m)
      have s: "qr_sending r = None" using assms(3) st Cons by simp
      have "qr_epoch r = foldl opens_epoch None (sink_of r)" using assms(1,2) by (auto simp: relay_inv_def)
      then show ?thesis using st h Some hs s assms(1)
        by (auto simp: relay_conn_def Cons relay_inv_def sink_of_def sink_ok_snoc config_only_def)
    qed
  qed
qed

lemma relay_step_inv:
  assumes "relay_inv r" "case e of Re_accept \<Rightarrow> qr_sending r = None | _ \<Rightarrow> True"
  shows "relay_inv (relay_step r e)"
proof (cases e)
  case (Re_client d)
  then show ?thesis using assms(1)
    by (auto simp: forward_client_msg_def Let_def split: list.split intro: relay_inv_same)
next
  case Re_take
  show ?thesis
  proof (cases "qr_client_q r")
    case (Cons d ds)
    have "relay_inv (relay_client d (r\<lparr>qr_client_q := ds\<rparr>))" if "qr_running r"
      using assms(1) that by (intro relay_inv_same [OF assms(1)]) (auto simp: relay_client_def Let_def split: list.split)
    then show ?thesis using assms(1) by (auto simp: Re_take Cons intro: relay_inv_guard)
  qed (use assms(1) Re_take in simp)
next
  case Re_accept
  have "relay_inv (relay_accept r)" if "qr_running r"
    using assms that by (intro relay_inv_same [OF assms(1)]) (auto simp: relay_accept_def Re_accept)
  then show ?thesis using assms(1) by (auto simp: Re_accept intro: relay_inv_guard)
next
  case (Re_conn ce)
  show ?thesis
  proof (cases "qr_conn r")
    case (Some c)
    then show ?thesis using assms(1) relay_inv_conn [OF assms(1) Some, of ce]
      by (cases "qr_sending r"; cases ce) (simp_all add: Re_conn)
  qed (use assms(1) Re_conn in simp)
next
  case Re_sent
  have "relay_inv (r\<lparr>qr_sink := qr_sink r @ [m], qr_sending := None\<rparr>)" if "qr_sending r = Some m" for m
    using assms(1) that by (simp add: relay_inv_def sink_of_def)
  then show ?thesis using assms(1) by (auto simp: Re_sent intro: relay_inv_conn_guard split: option.split)
qed (use assms(1) in \<open>auto intro: relay_inv_guard relay_inv_exit relay_inv_same\<close>)

lemma relay_run_inv:
  assumes "relay_inv r" "accepts_quiet r es"
  shows "relay_inv (foldl relay_step r es)"
  using assms by (induction es arbitrary: r) (auto intro: relay_step_inv)

section \<open>Properties\<close>

text \<open>
  C23.
  Frames survive any fragmentation. If the host sends valid frames, then however the bytes are split on arrival and however often the reader
  is polled, as long as the writer's branch wins only between frames, the connection stays open and the messages read are a prefix of
  those sent, in order and unchanged; once the socket is drained they are all of them.
\<close>

theorem host_frames_read_exactly:
  assumes "list_all valid_frame ms" "arrived es = concat (map framed ms)" "writes_between (conn_new p) es"
    "conn_run (conn_new p) es = (c, ns)"
  shows "cn_open c \<and> ns = take (length ns) ms \<and> (cn_buf c \<noteq> [] \<or> ns = ms)"
proof -
  have "in_sync (conn_new p) (arrived es) ms" using assms(1,2) by (simp add: in_sync_def conn_new_def)
  from conn_run_sync [OF this assms(3)] assms(4) obtain ks where k: "ms = ns @ ks" "in_sync c [] ks" by auto
  have "cn_buf c \<noteq> [] \<or> ks = []" using in_sync_drained [OF k(2)] by blast
  then show ?thesis using k by (auto simp: in_sync_def)
qed

theorem host_frames_read_exactly_witness:
  "conn_run (conn_new None) [Ce_arrive [1, 0], Ce_poll, Ce_arrive [0, 0, 9, 2, 0, 0, 0, 8], Ce_poll, Ce_arrive [7], Ce_poll]
    = (conn_new None, [[9], [8, 7]])"
proof -
  let ?es = "[Ce_arrive [1, 0], Ce_poll, Ce_arrive [0, 0, 9, 2, 0, 0, 0, 8], Ce_poll, Ce_arrive [7], Ce_poll] :: conn_event list"
  have q: "writes_between (conn_new None) ?es" by code_simp
  have a: "arrived ?es = concat (map framed [[9], [8, 7]])" by code_simp
  have v: "list_all valid_frame [[9], [8, 7]]" by (simp add: valid_frame_def MAX_MSG_LEN_unat)
  obtain c ns where r: "conn_run (conn_new None) ?es = (c, ns)" by (cases "conn_run (conn_new None) ?es")
  have c: "fst (conn_run (conn_new None) ?es) = conn_new None" by code_simp
  then have "c = conn_new None" using r by simp
  then have "ns = [[9], [8, 7]]" using host_frames_read_exactly [OF v a q r] by (simp add: conn_new_def)
  then show ?thesis using r c by simp
qed

text \<open>
  C24.
  The epoch filter. In every interleaving of the host's frames, client messages, accepts, writes and a superseded generation in which no
  connection is replaced while it hands a message to the data channel: what reaches the data channel never has a client-band
  kind, every tile or invalidation carries the epoch that the configuration and epoch messages before it on the channel opened,
  and before a subscription only configuration and epoch messages are sent.
\<close>

theorem relay_epoch_filter:
  assumes "accepts_quiet relay_spawn es"
  shows "sink_ok None (qr_sink (relay_run es)) \<and> (qr_active (relay_run es) \<or> config_only (qr_sink (relay_run es)))"
proof -
  have "relay_inv relay_spawn" by (simp add: relay_inv_def relay_spawn_def sink_of_def config_only_def)
  from relay_run_inv [OF this assms] have "relay_inv (relay_run es)" by (simp add: relay_run_def)
  then show ?thesis
    by (cases "qr_sending (relay_run es)") (auto simp: relay_inv_def sink_of_def sink_ok_snoc config_only_def)
qed

definition filter_run :: "relay_event list" where
  "filter_run = [Re_accept, Re_conn (Ce_arrive (framed (encode_epoch 3) @ framed (encode_invalidate 2 []))), Re_conn Ce_poll,
    Re_sent, Re_client (encode_subscribe 1), Re_take, Re_conn Ce_poll, Re_conn (Ce_arrive (framed (encode_invalidate 3 []))),
    Re_conn Ce_poll, Re_sent]"

theorem relay_epoch_filter_witness:
  "qr_sink (relay_run filter_run) = [encode_epoch 3, encode_invalidate 3 []] \<and> sink_ok None (qr_sink (relay_run filter_run))"
proof -
  have "accepts_quiet relay_spawn filter_run" by code_simp
  moreover have "qr_sink (relay_run filter_run) = [encode_epoch 3, encode_invalidate 3 []]" by code_simp
  ultimately show ?thesis using relay_epoch_filter by blast
qed

text \<open>
  C25.
  A cancelled read forges a message. The host sends one valid frame, a tile. The reader has taken its first bytes when a message of the
  client is written: the branch of the writer drops the read future with those bytes, the rest of the tile is read as a new
  frame, and the client receives an epoch message that the host never sent.
\<close>

definition forging_tile :: bytes where
  "forging_tile = encode_tile 1 0 0 0 0 0 (framed (encode_epoch 7))"

definition cancelled_run :: "relay_event list" where
  "cancelled_run = [Re_accept, Re_client (encode_budget 1000), Re_take, Re_conn (Ce_arrive (take 23 (framed forging_tile))),
    Re_conn Ce_poll, Re_conn (Ce_write True), Re_conn (Ce_arrive (drop 23 (framed forging_tile))), Re_conn Ce_poll, Re_sent]"

theorem cancelled_read_forges:
  "valid_frame forging_tile \<and> qr_sink (relay_run cancelled_run) = [encode_epoch 7] \<and> qr_epoch (relay_run cancelled_run) = Some 7"
proof -
  have "length forging_tile = 28" by code_simp
  then have "valid_frame forging_tile" by (simp add: valid_frame_def MAX_MSG_LEN_unat)
  moreover have "qr_sink (relay_run cancelled_run) = [encode_epoch 7]" by code_simp
  moreover have "qr_epoch (relay_run cancelled_run) = Some 7" by code_simp
  ultimately show ?thesis by blast
qed

text \<open>
  A connection that is replaced while it hands its configuration to the data channel has already set the epoch: the tiles of that
  epoch pass the filter on the next connection, and the client never got the configuration.
\<close>

definition aborted_run :: "relay_event list" where
  "aborted_run = [Re_client (encode_subscribe 1), Re_accept, Re_conn (Ce_arrive (framed (encode_epoch 5))), Re_conn Ce_poll,
    Re_accept, Re_conn (Ce_arrive (framed (encode_invalidate 5 []))), Re_conn Ce_poll, Re_sent]"

theorem aborted_send_loses_epoch:
  "qr_sink (relay_run aborted_run) = [encode_invalidate 5 []] \<and> \<not> sink_ok None (qr_sink (relay_run aborted_run))"
proof -
  have s: "qr_sink (relay_run aborted_run) = [encode_invalidate 5 []]" by code_simp
  have "\<not> sink_ok None [encode_invalidate 5 []]" by code_simp
  then show ?thesis using s by simp
qed

end
