(* ===== verification/Canon_Json.thy ===== *)
theory Canon_Json
  imports Utf8 "HOL-Library.List_Lexorder"
begin

text \<open>
  Canonical JSON (\<open>tools/updater/src/canon.rs\<close>), the bytes a release manifest is signed over. \<open>serde_json\<close>'s \<open>Value\<close> is
  the datatype \<open>json\<close>: an object is the list of its members in the iteration order of the map, whose keys are distinct; a
  number is an integer or a number with a fraction, given by its printed form. The output of \<open>write_canonical\<close> is what it
  appends to \<open>out\<close>. The result shown here is that the writer is injective up to the order of members, so a signature on the
  bytes is a signature on the value.
\<close>

datatype json_number = Json_Int int | Json_Fraction rust_string

datatype json = Json_Null | Json_Bool bool | Json_Number json_number | Json_String rust_string
  | Json_Array "json list" | Json_Object "(rust_string \<times> json) list"

datatype canon_error = NonIntegerNumber rust_string

text \<open>A string literal, and the decimal digits \<open>to_string\<close> prints.\<close>

definition lit :: "string \<Rightarrow> rust_string" where
  "lit s = map of_char s"

fun dec_digits :: "nat \<Rightarrow> rust_string" where
  "dec_digits n = (if n < 10 then [48 + n] else dec_digits (n div 10) @ [48 + n mod 10])"

declare dec_digits.simps [simp del]

definition dec_int :: "int \<Rightarrow> rust_string" where
  "dec_int i = (if i < 0 then 45 # dec_digits (nat (- i)) else dec_digits (nat i))"

fun as_u64 :: "json_number \<Rightarrow> int option" where
  "as_u64 (Json_Int i) = (if 0 \<le> i \<and> i < 2 ^ 64 then Some i else None)"
| "as_u64 (Json_Fraction _) = None"

fun as_i64 :: "json_number \<Rightarrow> int option" where
  "as_i64 (Json_Int i) = (if - (2 ^ 63) \<le> i \<and> i < 2 ^ 63 then Some i else None)"
| "as_i64 (Json_Fraction _) = None"

fun number_to_string :: "json_number \<Rightarrow> rust_string" where
  "number_to_string (Json_Int i) = dec_int i"
| "number_to_string (Json_Fraction s) = s"

definition write_canonical_number :: "json_number \<Rightarrow> canon_error + rust_string" where
  "write_canonical_number n = (case as_u64 n of Some u \<Rightarrow> Inr (dec_int u)
    | None \<Rightarrow> (case as_i64 n of Some i \<Rightarrow> Inr (dec_int i) | None \<Rightarrow> Inl (NonIntegerNumber (number_to_string n))))"

text \<open>\<open>{:x}\<close> of a digit, and the escape of one character.\<close>

definition hex_digit :: "nat \<Rightarrow> nat" where
  "hex_digit d = (if d < 10 then 48 + d else 87 + d)"

definition write_canonical_char :: "nat \<Rightarrow> rust_string" where
  "write_canonical_char c = (
    if c = 0x22 then [92, 0x22]
    else if c = 92 then [92, 92]
    else if c = 0x08 then [92, 98]
    else if c = 0x0C then [92, 102]
    else if c = 10 then [92, 110]
    else if c = 13 then [92, 114]
    else if c = 9 then [92, 116]
    else if c < 0x20 then [92, 117, 48, 48, hex_digit (c div 16), hex_digit (c mod 16)]
    else [c])"

definition write_canonical_string :: "rust_string \<Rightarrow> rust_string" where
  "write_canonical_string s = 0x22 # concat (map write_canonical_char s) @ [0x22]"

text \<open>The loops over items and members: a comma before each but the first, and the first error ends them.\<close>

fun write_items :: "(canon_error + rust_string) list \<Rightarrow> canon_error + rust_string list" where
  "write_items [] = Inr []"
| "write_items (x # xs) = sbind x (\<lambda>s. sbind (write_items xs) (\<lambda>ss. Inr (s # ss)))"

fun comma_join :: "rust_string list \<Rightarrow> rust_string" where
  "comma_join [] = []"
| "comma_join [s] = s"
| "comma_join (s # t # ss) = s @ 44 # comma_join (t # ss)"

definition write_member :: "rust_string \<times> (canon_error + rust_string) \<Rightarrow> canon_error + rust_string" where
  "write_member m = sbind (snd m) (\<lambda>s. Inr (write_canonical_string (fst m) @ 58 # s))"

primrec write_canonical :: "json \<Rightarrow> canon_error + rust_string" where
  "write_canonical Json_Null = Inr (lit ''null'')"
| "write_canonical (Json_Bool b) = Inr (if b then lit ''true'' else lit ''false'')"
| "write_canonical (Json_Number n) = write_canonical_number n"
| "write_canonical (Json_String s) = Inr (write_canonical_string s)"
| "write_canonical (Json_Array xs) = sbind (write_items (map write_canonical xs)) (\<lambda>ss. Inr (91 # comma_join ss @ [93]))"
| "write_canonical (Json_Object kvs) =
    sbind (write_items (map write_member (sort_key (as_bytes \<circ> fst) (map (map_prod id write_canonical) kvs))))
      (\<lambda>ss. Inr (123 # comma_join ss @ [125]))"

definition canonicalize :: "json \<Rightarrow> canon_error + rust_string" where
  "canonicalize v = write_canonical v"

section \<open>Members in order\<close>

text \<open>A value with the members of each object in the order of their keys; two values are the same data if it is equal.\<close>

primrec in_key_order :: "json \<Rightarrow> json" where
  "in_key_order Json_Null = Json_Null"
| "in_key_order (Json_Bool b) = Json_Bool b"
| "in_key_order (Json_Number n) = Json_Number n"
| "in_key_order (Json_String s) = Json_String s"
| "in_key_order (Json_Array xs) = Json_Array (map in_key_order xs)"
| "in_key_order (Json_Object kvs) = Json_Object (sort_key (as_bytes \<circ> fst) (map (map_prod id in_key_order) kvs))"

text \<open>The writer on values whose members are in order already.\<close>

primrec write_plain :: "json \<Rightarrow> canon_error + rust_string" where
  "write_plain Json_Null = Inr (lit ''null'')"
| "write_plain (Json_Bool b) = Inr (if b then lit ''true'' else lit ''false'')"
| "write_plain (Json_Number n) = write_canonical_number n"
| "write_plain (Json_String s) = Inr (write_canonical_string s)"
| "write_plain (Json_Array xs) = sbind (write_items (map write_plain xs)) (\<lambda>ss. Inr (91 # comma_join ss @ [93]))"
| "write_plain (Json_Object kvs) =
    sbind (write_items (map write_member (map (map_prod id write_plain) kvs))) (\<lambda>ss. Inr (123 # comma_join ss @ [125]))"

lemma map_insort_key: "map f (insort_key k x xs) = insort_key k' (f x) (map f xs)" if "\<And>y. k' (f y) = k y"
  using that by (induction xs) auto

lemma map_sort_key: "map f (sort_key k xs) = sort_key k' (map f xs)" if "\<And>y. k' (f y) = k y"
  by (induction xs) (simp_all add: that map_insort_key [where k' = k'])

lemma sort_members:
  "sort_key (as_bytes \<circ> fst) (map (map_prod id f) kvs) = map (map_prod id f) (sort_key (as_bytes \<circ> fst) kvs)"
  by (rule map_sort_key [symmetric]) (simp add: case_prod_unfold)

lemma write_canonical_plain: "write_canonical v = write_plain (in_key_order v)"
proof (induction v)
  case (Json_Object kvs)
  have "map (map_prod id write_canonical) kvs = map (map_prod id write_plain) (map (map_prod id in_key_order) kvs)"
    using Json_Object by (force simp: prod_set_defs)
  then show ?case by (simp add: sort_members del: map_map)
qed (simp_all add: comp_def cong: map_cong)

section \<open>The output determines the value\<close>

text \<open>Escapes are a prefix code in which no code starts with a quote.\<close>

definition unhex :: "nat \<Rightarrow> nat" where
  "unhex h = (if h < 58 then h - 48 else h - 87)"

lemma unhex_hex_digit: "d < 16 \<Longrightarrow> unhex (hex_digit d) = d"
  by (simp add: unhex_def hex_digit_def)

lemma canonical_char_hd: "\<exists>a r. write_canonical_char c = a # r \<and> a \<noteq> 0x22"
  by (simp add: write_canonical_char_def)

definition read_char :: "rust_string \<Rightarrow> nat \<times> rust_string" where
  "read_char r = (if hd r \<noteq> 92 then (hd r, tl r)
    else if r ! 1 = 117 then (16 * unhex (r ! 4) + unhex (r ! 5), drop 6 r)
    else (if r ! 1 = 98 then 8 else if r ! 1 = 102 then 12 else if r ! 1 = 110 then 10
      else if r ! 1 = 114 then 13 else if r ! 1 = 116 then 9 else r ! 1, drop 2 r))"

lemma read_canonical_char: "read_char (write_canonical_char c @ x) = (c, x)"
proof (cases "c < 32 \<and> c \<notin> {8, 9, 10, 12, 13}")
  case True
  then have "write_canonical_char c = [92, 117, 48, 48, hex_digit (c div 16), hex_digit (c mod 16)]"
    by (auto simp: write_canonical_char_def)
  moreover have "16 * unhex (hex_digit (c div 16)) + unhex (hex_digit (c mod 16)) = c"
  proof -
    have "c div 16 < 16" using True by linarith
    then show ?thesis by (simp add: unhex_hex_digit)
  qed
  ultimately show ?thesis by (simp add: read_char_def)
next
  case False
  then consider "c \<in> {8, 9, 10, 12, 13, 0x22, 92}" | "32 \<le> c" "c \<noteq> 0x22" "c \<noteq> 92" by force
  then show ?thesis
  proof cases
    case 1
    then show ?thesis by (elim insertE) (simp_all add: write_canonical_char_def read_char_def)
  next
    case 2
    then show ?thesis by (simp add: write_canonical_char_def read_char_def)
  qed
qed

lemma canonical_char_prefix: "write_canonical_char c @ x = write_canonical_char d @ y \<Longrightarrow> c = d \<and> x = y"
  by (metis read_canonical_char prod.inject)

lemma canonical_chars_prefix:
  "concat (map write_canonical_char s) @ 0x22 # x = concat (map write_canonical_char t) @ 0x22 # y \<Longrightarrow> s = t \<and> x = y"
proof (induction s arbitrary: t)
  case Nil
  then show ?case using canonical_char_hd [of "hd t"] by (cases t) auto
next
  case (Cons c s)
  show ?case
  proof (cases t)
    case Nil
    then show ?thesis using Cons.prems canonical_char_hd [of c] by auto
  next
    case (Cons d t')
    then show ?thesis using Cons.prems Cons.IH [of t']
        canonical_char_prefix [of c "concat (map write_canonical_char s) @ 0x22 # x" d
          "concat (map write_canonical_char t') @ 0x22 # y"]
      by simp
  qed
qed

lemma canonical_string_prefix:
  "write_canonical_string s @ x = write_canonical_string t @ y \<Longrightarrow> s = t \<and> x = y"
  using canonical_chars_prefix [of s x t y] by (simp add: write_canonical_string_def)

text \<open>Numbers are not delimited by themselves: what follows must not start with a digit.\<close>

definition digit_char :: "nat \<Rightarrow> bool" where
  "digit_char c \<longleftrightarrow> 48 \<le> c \<and> c \<le> 57"

definition delimited :: "rust_string \<Rightarrow> bool" where
  "delimited r \<longleftrightarrow> (case r of [] \<Rightarrow> True | c # _ \<Rightarrow> \<not> digit_char c)"

lemma delimited_simps [simp]: "delimited []" "delimited (c # r) \<longleftrightarrow> \<not> digit_char c"
  by (simp_all add: delimited_def)

lemma dec_digits_digits: "c \<in> set (dec_digits n) \<Longrightarrow> digit_char c"
proof (induction n rule: dec_digits.induct)
  case (1 n)
  then show ?case by (subst (asm) dec_digits.simps) (auto simp: digit_char_def split: if_splits)
qed

definition dec_value :: "rust_string \<Rightarrow> nat" where
  "dec_value ds = foldl (\<lambda>a d. 10 * a + (d - 48)) 0 ds"

lemma dec_value_digits: "dec_value (dec_digits n) = n"
proof (induction n rule: dec_digits.induct)
  case (1 n)
  then show ?case by (subst dec_digits.simps) (auto simp: dec_value_def)
qed

lemma take_digits: "delimited x \<Longrightarrow> takeWhile digit_char (dec_digits n @ x) = dec_digits n"
  using dec_digits_digits by (cases x) (simp_all add: takeWhile_append2 takeWhile_append1)

lemma dec_digits_prefix:
  assumes "dec_digits n @ x = dec_digits m @ y" and "delimited x" and "delimited y"
  shows "n = m \<and> x = y"
proof -
  have "dec_digits n = dec_digits m" using assms take_digits by metis
  then show ?thesis using assms(1) dec_value_digits by (metis same_append_eq)
qed

lemma dec_digits_Cons: "\<exists>c r. dec_digits n = c # r \<and> digit_char c"
proof (cases "dec_digits n")
  case Nil
  then show ?thesis by (subst (asm) dec_digits.simps) (simp split: if_splits)
next
  case (Cons c r)
  then show ?thesis using dec_digits_digits [of c n] by simp
qed

lemma dec_int_prefix:
  assumes eq: "dec_int i @ x = dec_int j @ y" and d: "delimited x" "delimited y"
  shows "i = j \<and> x = y"
proof -
  have no_minus: "dec_digits n @ a \<noteq> 45 # b" for n a b
    using dec_digits_Cons [of n] by (auto simp: digit_char_def)
  have "(i < 0) = (j < 0)"
    using eq no_minus no_minus [symmetric] by (auto simp: dec_int_def split: if_splits)
  then show ?thesis
    using eq d dec_digits_prefix [of "nat (- i)" x "nat (- j)" y] dec_digits_prefix [of "nat i" x "nat j" y]
    by (auto simp: dec_int_def nat_eq_iff split: if_splits)
qed

lemma canonical_number: "write_canonical_number n = Inr s \<longleftrightarrow> (\<exists>i. n = Json_Int i \<and> s = dec_int i \<and> - (2 ^ 63) \<le> i \<and> i < 2 ^ 64)"
  by (cases n) (auto simp: write_canonical_number_def split: option.splits if_splits)

text \<open>The first character tells the kind of value.\<close>

fun head_fits :: "nat \<Rightarrow> json \<Rightarrow> bool" where
  "head_fits c Json_Null = (c = 110)"
| "head_fits c (Json_Bool b) = (c = (if b then 116 else 102))"
| "head_fits c (Json_Number _) = (c = 45 \<or> digit_char c)"
| "head_fits c (Json_String _) = (c = 34)"
| "head_fits c (Json_Array _) = (c = 91)"
| "head_fits c (Json_Object _) = (c = 123)"

lemma dec_int_head: "\<exists>c r. dec_int i = c # r \<and> (c = 45 \<or> digit_char c)"
  using dec_digits_Cons [of "nat i"] by (auto simp: dec_int_def)

lemma plain_head: "write_plain v = Inr s \<Longrightarrow> \<exists>c r. s = c # r \<and> head_fits c v"
  using dec_int_head
  by (cases v) (auto simp: lit_def canonical_number sbind_eq_Inr write_canonical_string_def)

definition same_kind :: "json \<Rightarrow> json \<Rightarrow> bool" where
  "same_kind v w \<longleftrightarrow> (\<exists>c. head_fits c v \<and> head_fits c w)"

lemma plain_same_kind: "write_plain v = Inr s \<Longrightarrow> write_plain w = Inr t \<Longrightarrow> s @ x = t @ y \<Longrightarrow> same_kind v w"
  using plain_head [of v s] plain_head [of w t] by (auto simp: same_kind_def)

text \<open>Items and members, each followed by a comma or the closing bracket.\<close>

lemma write_items_Inr: "write_items xs = Inr ss \<longleftrightarrow> xs = map Inr ss"
  by (induction xs arbitrary: ss) (auto simp: sbind_eq_Inr Cons_eq_map_conv)

definition after_item :: "rust_string list \<Rightarrow> nat \<Rightarrow> rust_string \<Rightarrow> rust_string" where
  "after_item ss c x = (if ss = [] then c # x else 44 # comma_join ss @ c # x)"

lemma comma_join_Cons: "comma_join (s # ss) @ c # x = s @ after_item ss c x"
  by (cases ss) (simp_all add: after_item_def)

lemma items_prefix:
  fixes f :: "'a \<Rightarrow> canon_error + rust_string"
  assumes one: "\<And>v w s t x y. v \<in> set vs \<Longrightarrow> f v = Inr s \<Longrightarrow> f w = Inr t \<Longrightarrow> delimited x \<Longrightarrow> delimited y \<Longrightarrow>
      s @ x = t @ y \<Longrightarrow> v = w \<and> x = y"
    and head: "\<And>v s. f v = Inr s \<Longrightarrow> \<exists>a r. s = a # r \<and> a \<noteq> c"
    and c: "c \<noteq> 44" "\<not> digit_char c"
    and vs: "map f vs = map Inr ss" and ws: "map f ws = map Inr ts"
    and eq: "comma_join ss @ c # x = comma_join ts @ c # y"
  shows "vs = ws \<and> x = y"
  using one vs ws eq
proof (induction vs arbitrary: ss ws ts)
  case Nil
  then show ?case
  proof (cases ws)
    case (Cons w ws')
    then obtain t ts' where "ts = t # ts'" "f w = Inr t" using Nil.prems by auto
    then show ?thesis using Nil.prems head [of w t] by (auto simp: comma_join_Cons)
  qed auto
next
  case (Cons v vs)
  obtain s ss' where s: "ss = s # ss'" "f v = Inr s" "map f vs = map Inr ss'" using Cons.prems(2) by auto
  show ?case
  proof (cases ws)
    case Nil
    then show ?thesis using Cons.prems(3,4) s head [of v s] by (auto simp: comma_join_Cons)
  next
    case w: (Cons w ws')
    obtain t ts' where t: "ts = t # ts'" "f w = Inr t" "map f ws' = map Inr ts'" using Cons.prems(3) w by auto
    have d: "delimited (after_item zs c z)" for zs z
      using c by (simp add: after_item_def digit_char_def)
    have "v = w \<and> after_item ss' c x = after_item ts' c y"
      using Cons.prems(1) [OF _ s(2) t(2) d d] Cons.prems(4) by (simp add: s(1) t(1) comma_join_Cons)
    then have vw: "v = w" and rest: "after_item ss' c x = after_item ts' c y" by auto
    show ?thesis
    proof (cases "ss' = []")
      case True
      then show ?thesis using rest c s t w vw by (auto simp: after_item_def split: if_splits)
    next
      case False
      then have eq': "comma_join ss' @ c # x = comma_join ts' @ c # y"
        using rest c by (auto simp: after_item_def split: if_splits)
      have "vs = ws' \<and> x = y"
        by (rule Cons.IH [OF _ s(3) t(3) eq']) (rule Cons.prems(1), simp_all)
      then show ?thesis by (simp add: w vw)
    qed
  qed
qed

lemma member_prefix:
  assumes "write_member (k, a) = Inr s" and "write_member (l, b) = Inr t" and "s @ x = t @ y"
  shows "k = l \<and> (\<exists>p q. a = Inr p \<and> b = Inr q \<and> p @ x = q @ y)"
proof -
  obtain p q where pq: "a = Inr p" "b = Inr q" and s: "s = write_canonical_string k @ 58 # p"
    and t: "t = write_canonical_string l @ 58 # q"
    using assms(1,2) by (auto simp: write_member_def sbind_eq_Inr)
  have "k = l \<and> 58 # p @ x = 58 # q @ y"
    using canonical_string_prefix [of k "58 # p @ x" l "58 # q @ y"] assms(3) by (simp add: s t)
  then show ?thesis using pq by simp
qed

lemma plain_prefix:
  assumes "write_plain v = Inr s" and "write_plain w = Inr t" and "delimited x" and "delimited y" and "s @ x = t @ y"
  shows "v = w \<and> x = y"
  using assms
proof (induction v arbitrary: w s t x y)
  case Json_Null
  then show ?case using plain_same_kind [OF Json_Null(1,2,5)]
    by (cases w) (auto simp: same_kind_def lit_def digit_char_def split: if_splits)
next
  case (Json_Bool b)
  then show ?case using plain_same_kind [OF Json_Bool(1,2,5)]
    by (cases w) (auto simp: same_kind_def lit_def digit_char_def split: if_splits)
next
  case (Json_Number n)
  obtain i where i: "n = Json_Int i" "s = dec_int i" using Json_Number.prems(1) by (auto simp: canonical_number)
  show ?case
  proof (cases w)
    case (Json_Number m)
    then obtain j where "m = Json_Int j" "t = dec_int j"
      using \<open>write_plain w = Inr t\<close> by (auto simp: canonical_number)
    moreover from this have "dec_int i @ x = dec_int j @ y" using \<open>s @ x = t @ y\<close> i by simp
    ultimately show ?thesis using dec_int_prefix [of i x j y] \<open>delimited x\<close> \<open>delimited y\<close> i(1) \<open>w = Json_Number m\<close> by simp
  qed (use plain_same_kind [OF Json_Number.prems(1,2,5)] in \<open>auto simp: same_kind_def digit_char_def split: if_splits\<close>)
next
  case (Json_String r)
  show ?case
  proof (cases w)
    case w: (Json_String u)
    then have "write_canonical_string r @ x = write_canonical_string u @ y" using Json_String.prems by simp
    then show ?thesis using canonical_string_prefix [of r x u y] w by simp
  qed (use plain_same_kind [OF Json_String.prems(1,2,5)] in \<open>auto simp: same_kind_def digit_char_def split: if_splits\<close>)
next
  case (Json_Array vs)
  obtain ss where ss: "map write_plain vs = map Inr ss" "s = 91 # comma_join ss @ [93]"
    using Json_Array.prems(1) by (auto simp: sbind_eq_Inr write_items_Inr)
  show ?case
  proof (cases w)
    case w: (Json_Array ws)
    then obtain ts where ts: "map write_plain ws = map Inr ts" "t = 91 # comma_join ts @ [93]"
      using Json_Array.prems(2) by (auto simp: sbind_eq_Inr write_items_Inr)
    have "vs = ws \<and> x = y"
    proof (rule items_prefix [OF _ _ _ _ ss(1) ts(1)])
      show "comma_join ss @ 93 # x = comma_join ts @ 93 # y" using Json_Array.prems(5) by (simp add: ss(2) ts(2))
    next
      fix v q assume "write_plain v = Inr q"
      then show "\<exists>a r. q = a # r \<and> a \<noteq> 93" using plain_head [of v q] by (cases v) (auto simp: digit_char_def)
    qed (use Json_Array.IH in \<open>simp_all add: digit_char_def\<close>)
    then show ?thesis by (simp add: w)
  qed (use plain_same_kind [OF Json_Array.prems(1,2,5)] in \<open>auto simp: same_kind_def digit_char_def split: if_splits\<close>)
next
  case (Json_Object kvs)
  let ?f = "\<lambda>kv. write_member (map_prod id write_plain kv)"
  obtain ss where ss: "map ?f kvs = map Inr ss" "s = 123 # comma_join ss @ [125]"
    using Json_Object.prems(1) by (auto simp: sbind_eq_Inr write_items_Inr comp_def)
  show ?case
  proof (cases w)
    case w: (Json_Object lws)
    then obtain ts where ts: "map ?f lws = map Inr ts" "t = 123 # comma_join ts @ [125]"
      using Json_Object.prems(2) by (auto simp: sbind_eq_Inr write_items_Inr comp_def)
    have "kvs = lws \<and> x = y"
    proof (rule items_prefix [OF _ _ _ _ ss(1) ts(1)])
      show "comma_join ss @ 125 # x = comma_join ts @ 125 # y" using Json_Object.prems(5) by (simp add: ss(2) ts(2))
    next
      fix kv q assume "?f kv = Inr q"
      then show "\<exists>a r. q = a # r \<and> a \<noteq> 125" by (auto simp: write_member_def sbind_eq_Inr write_canonical_string_def)
    next
      fix kv lw p q x y
      assume kv: "kv \<in> set kvs" and *: "?f kv = Inr p" "?f lw = Inr q" "delimited x" "delimited y" "p @ x = q @ y"
      obtain k v l u where kl: "kv = (k, v)" "lw = (l, u)" by (cases kv, cases lw)
      obtain p' q' where pq: "k = l" "write_plain v = Inr p'" "write_plain u = Inr q'" "p' @ x = q' @ y"
        using member_prefix [of k "write_plain v" p l "write_plain u" q x y] * kl by auto
      have "v \<in> Basic_BNFs.snds kv" by (simp add: kl)
      then have "v = u \<and> x = y" by (rule Json_Object.IH [OF kv _ pq(2,3) *(3,4) pq(4)])
      then show "kv = lw \<and> x = y" by (simp add: kl pq(1))
    qed (simp_all add: digit_char_def)
    then show ?thesis by (simp add: w)
  qed (use plain_same_kind [OF Json_Object.prems(1,2,5)] in \<open>auto simp: same_kind_def digit_char_def split: if_splits\<close>)
qed

lemma canonical_determines:
  assumes "canonicalize v = Inr s" and "canonicalize w = Inr s"
  shows "in_key_order v = in_key_order w"
  using plain_prefix [of "in_key_order v" s "in_key_order w" s "[]" "[]"] assms
  by (simp add: canonicalize_def write_canonical_plain)

end
