(* ===== verification/Human_Json.thy ===== *)
theory Human_Json
  imports Canon_Json
begin

text \<open>
  The configuration format (\<open>src/human_json.rs\<close>): JSON with comments and trailing commas, which a preprocessor turns into JSON by
  overwriting them with blanks. The model keeps the two-character look-ahead buffer of the code. Shown: the buffered machine is
  a plain function on the remaining text and always returns; no character moves, and only comments and commas become blanks; JSON
  without either is left as it is.
\<close>

record json_preprocessor =
  jp_iter :: rust_string
  jp_peek_len :: nat
  jp_peek :: "nat list"
  jp_new_string :: rust_string

datatype comment_state = No_Comment | SingleLine | MultiLine

definition jp_start :: "rust_string \<Rightarrow> json_preprocessor" where
  "jp_start text = \<lparr>jp_iter = text, jp_peek_len = 0, jp_peek = [32, 32], jp_new_string = []\<rparr>"

text \<open>\<open>peek\<close> and \<open>next\<close> are only called for one or two characters. A \<open>next\<close> beyond the buffered characters is an underflow.\<close>

fun fill_peek :: "nat \<Rightarrow> rust_string \<Rightarrow> nat \<Rightarrow> nat list \<Rightarrow> bool \<times> rust_string \<times> nat \<times> nat list" where
  "fill_peek n [] k buf = (\<not> k < n, [], k, buf)"
| "fill_peek n (c # it) k buf = (if k < n then fill_peek n it (Suc k) (buf[k := c]) else (True, c # it, k, buf))"

definition peek_chars :: "nat \<Rightarrow> json_preprocessor \<Rightarrow> rust_string option \<times> json_preprocessor" where
  "peek_chars n s = (case fill_peek n (jp_iter s) (jp_peek_len s) (jp_peek s) of (ok, it, k, buf) \<Rightarrow>
    (if ok then Some (take n buf) else None, s\<lparr>jp_iter := it, jp_peek_len := k, jp_peek := buf\<rparr>))"

definition next_chars :: "nat \<Rightarrow> rust_string option \<Rightarrow> json_preprocessor \<Rightarrow> json_preprocessor option" where
  "next_chars n insert_instead s0 = (case peek_chars n s0 of (result, s) \<Rightarrow>
    let s1 = (case result of None \<Rightarrow> s | Some actual \<Rightarrow>
          s\<lparr>jp_new_string := jp_new_string s @ (case insert_instead of Some x \<Rightarrow> x | None \<Rightarrow> actual)\<rparr>)
    in if jp_peek_len s1 < n then None
      else Some (s1\<lparr>jp_peek_len := jp_peek_len s1 - n, jp_peek := drop n (jp_peek s1) @ drop (length (jp_peek s1) - n) (jp_peek s1)\<rparr>))"

partial_function (option) validate_empty :: "comment_state \<Rightarrow> json_preprocessor \<Rightarrow> json_preprocessor option" where
  "validate_empty state s0 = (case state of
      No_Comment \<Rightarrow> (case peek_chars 2 s0 of (None, s) \<Rightarrow> Some s
        | (Some cs, s) \<Rightarrow>
          if cs ! 0 = 35 then Option.bind (next_chars 1 (Some [32]) s) (validate_empty SingleLine)
          else if cs = [47, 47] then Option.bind (next_chars 2 (Some [32, 32]) s) (validate_empty SingleLine)
          else if cs = [47, 42] then Option.bind (next_chars 2 (Some [32, 32]) s) (validate_empty MultiLine)
          else if cs ! 0 = 32 \<or> cs ! 0 = 10 \<or> cs ! 0 = 13 then Option.bind (next_chars 1 None s) (validate_empty No_Comment)
          else Some s)
    | SingleLine \<Rightarrow> (case peek_chars 1 s0 of (None, s) \<Rightarrow> Some s
        | (Some cs, s) \<Rightarrow>
          if cs ! 0 = 10 \<or> cs ! 0 = 13 then Option.bind (next_chars 1 None s) (validate_empty No_Comment)
          else Option.bind (next_chars 1 (Some [32]) s) (validate_empty SingleLine))
    | MultiLine \<Rightarrow> (case peek_chars 2 s0 of (None, s) \<Rightarrow> Some s
        | (Some cs, s) \<Rightarrow>
          if cs = [42, 47] then Option.bind (next_chars 2 (Some [32, 32]) s) (validate_empty No_Comment)
          else if cs ! 0 = 10 \<or> cs ! 0 = 13 then Option.bind (next_chars 1 None s) (validate_empty MultiLine)
          else Option.bind (next_chars 1 (Some [32]) s) (validate_empty MultiLine)))"

text \<open>The rest of a string literal. The flag says whether to continue after it.\<close>

partial_function (option) string_loop :: "bool \<Rightarrow> json_preprocessor \<Rightarrow> (bool \<times> json_preprocessor) option" where
  "string_loop escaped s0 = (case peek_chars 1 s0 of (None, s) \<Rightarrow> Some (False, s)
    | (Some cs, s) \<Rightarrow>
      if \<not> escaped \<and> cs ! 0 = 34 then Option.bind (next_chars 1 None s) (\<lambda>s'. Some (True, s'))
      else Option.bind (next_chars 1 None s) (string_loop (\<not> escaped \<and> cs ! 0 = 92)))"

definition validate_next :: "json_preprocessor \<Rightarrow> (bool \<times> json_preprocessor) option" where
  "validate_next s0 = Option.bind (validate_empty No_Comment s0) (\<lambda>s1. case peek_chars 1 s1 of (None, s) \<Rightarrow> Some (False, s)
    | (Some cs, s) \<Rightarrow>
      if cs ! 0 = 34 then Option.bind (next_chars 1 None s) (string_loop False)
      else if cs ! 0 = 44 then
        let maybe_comma_index = length (jp_new_string s) in
        Option.bind (next_chars 1 (Some [32]) s) (\<lambda>s2. Option.bind (validate_empty No_Comment s2) (\<lambda>s3.
          case peek_chars 1 s3 of (None, s4) \<Rightarrow> Some (False, s4)
          | (Some ds, s4) \<Rightarrow> Some (True, if ds ! 0 = 125 \<or> ds ! 0 = 93 then s4
              else s4\<lparr>jp_new_string := (jp_new_string s4)[maybe_comma_index := 44]\<rparr>)))
      else Option.bind (next_chars 1 None s) (\<lambda>s'. Some (True, s')))"

partial_function (option) preprocess_loop :: "json_preprocessor \<Rightarrow> rust_string option" where
  "preprocess_loop s = Option.bind (validate_next s) (\<lambda>(continue, s').
    if continue then preprocess_loop s' else Some (jp_new_string s'))"

definition preprocess_human_json :: "rust_string \<Rightarrow> rust_string option" where
  "preprocess_human_json json = preprocess_loop (jp_start json)"

section \<open>On the remaining text\<close>

text \<open>What the blanks and comments in front are turned into, and what follows them.\<close>

fun skip_empty :: "comment_state \<Rightarrow> rust_string \<Rightarrow> rust_string \<times> rust_string" where
  "skip_empty No_Comment (c # d # r) = (
    if c = 35 then apfst ((#) 32) (skip_empty SingleLine (d # r))
    else if c = 47 \<and> d = 47 then apfst ((@) [32, 32]) (skip_empty SingleLine r)
    else if c = 47 \<and> d = 42 then apfst ((@) [32, 32]) (skip_empty MultiLine r)
    else if c = 32 \<or> c = 10 \<or> c = 13 then apfst ((#) c) (skip_empty No_Comment (d # r))
    else ([], c # d # r))"
| "skip_empty SingleLine (c # r) =
    (if c = 10 \<or> c = 13 then apfst ((#) c) (skip_empty No_Comment r) else apfst ((#) 32) (skip_empty SingleLine r))"
| "skip_empty MultiLine (c # d # r) = (
    if c = 42 \<and> d = 47 then apfst ((@) [32, 32]) (skip_empty No_Comment r)
    else if c = 10 \<or> c = 13 then apfst ((#) c) (skip_empty MultiLine (d # r))
    else apfst ((#) 32) (skip_empty MultiLine (d # r)))"
| "skip_empty _ r = ([], r)"

fun string_rest :: "bool \<Rightarrow> rust_string \<Rightarrow> rust_string \<times> rust_string" where
  "string_rest escaped [] = ([], [])"
| "string_rest escaped (c # r) = (if \<not> escaped \<and> c = 34 then ([c], r) else apfst ((#) c) (string_rest (\<not> escaped \<and> c = 92) r))"

lemma skip_empty_length: "length (fst (skip_empty st r)) + length (snd (skip_empty st r)) = length r"
  by (induction st r rule: skip_empty.induct) auto

lemma string_rest_length: "length (fst (string_rest e r)) + length (snd (string_rest e r)) = length r"
  by (induction e r rule: string_rest.induct) auto

lemma skip_empty_le: "skip_empty st r = (o1, r1) \<Longrightarrow> length r1 \<le> length r"
  using skip_empty_length [of st r] by simp

lemma string_rest_le: "string_rest e r = (o1, r1) \<Longrightarrow> length r1 \<le> length r"
  using string_rest_length [of e r] by simp

function strip :: "rust_string \<Rightarrow> rust_string" where
  "strip text = (case skip_empty No_Comment text of (blanks, rest) \<Rightarrow> blanks @ (case rest of [] \<Rightarrow> []
    | c # r \<Rightarrow>
      if c = 34 then case string_rest False r of (s, r') \<Rightarrow> 34 # s @ strip r'
      else if c = 44 then (case skip_empty No_Comment r of (bs, r') \<Rightarrow>
        (if r' = [] \<or> hd r' = 125 \<or> hd r' = 93 then 32 else 44) # bs @ strip r')
      else c # strip r))"
  by pat_completeness auto

termination
  by (relation "measure length")
     (auto dest!: skip_empty_le [OF sym] string_rest_le [OF sym] skip_empty_le string_rest_le)

declare strip.simps [simp del]

text \<open>The state stands for the text still to be read and the text written.\<close>

definition stands_for :: "json_preprocessor \<Rightarrow> rust_string \<Rightarrow> rust_string \<Rightarrow> bool" where
  "stands_for s rest out \<longleftrightarrow> length (jp_peek s) = 2 \<and> jp_peek_len s \<le> 2 \<and>
    take (jp_peek_len s) (jp_peek s) @ jp_iter s = rest \<and> jp_new_string s = out"

lemma stands_for_start: "stands_for (jp_start json) json []"
  by (simp add: stands_for_def jp_start_def)

lemma fill_peek_spec:
  assumes "fill_peek n it k buf = (ok, it', k', buf')" and "n \<le> length buf" and "k \<le> length buf"
  shows "length buf' = length buf \<and> k' \<le> length buf \<and> take k' buf' @ it' = take k buf @ it \<and> (ok \<longleftrightarrow> n \<le> k + length it) \<and> (ok \<longleftrightarrow> n \<le> k')"
  using assms
proof (induction n it k buf rule: fill_peek.induct)
  case (2 n c it k buf)
  show ?case
  proof (cases "k < n")
    case True
    then have "k < length buf" using 2(3) by simp
    then have "take (Suc k) (buf[k := c]) = take k buf @ [c]" by (simp add: take_Suc_conv_app_nth)
    then show ?thesis using 2 True \<open>k < length buf\<close> by auto
  qed (use 2 in auto)
qed auto

lemma peek_spec:
  assumes "stands_for s rest out" and "n \<le> 2"
  obtains s' where "peek_chars n s = (if n \<le> length rest then Some (take n rest) else None, s')" "stands_for s' rest out"
    "n \<le> length rest \<longrightarrow> n \<le> jp_peek_len s'"
proof -
  obtain ok it k buf where f: "fill_peek n (jp_iter s) (jp_peek_len s) (jp_peek s) = (ok, it, k, buf)" by (metis prod_cases4)
  have "length rest = jp_peek_len s + length (jp_iter s)" using assms(1) by (auto simp: stands_for_def)
  then have sp: "length buf = 2" "k \<le> 2" "take k buf @ it = rest" "ok \<longleftrightarrow> n \<le> length rest" "ok \<longleftrightarrow> n \<le> k"
    using fill_peek_spec [OF f] assms by (auto simp: stands_for_def)
  have "take n buf = take n rest" if "n \<le> k" using that sp by (auto simp: min_def)
  then show ?thesis using sp f assms(1) that [of "s\<lparr>jp_iter := it, jp_peek_len := k, jp_peek := buf\<rparr>"]
    by (auto simp: peek_chars_def stands_for_def)
qed

lemma next_spec:
  assumes "stands_for s rest out" and "0 < n" and "n \<le> 2" and "n \<le> length rest"
  obtains s' where "next_chars n ins s = Some s'"
    "stands_for s' (drop n rest) (out @ (case ins of Some x \<Rightarrow> x | None \<Rightarrow> take n rest))"
proof -
  obtain s1 where p: "peek_chars n s = (Some (take n rest), s1)" "stands_for s1 rest out" "n \<le> jp_peek_len s1"
    using peek_spec [OF assms(1,3)] assms(4) by metis
  obtain a b where ab: "jp_peek s1 = [a, b]" using p(2) by (auto simp: stands_for_def length_Suc_conv numeral_2_eq_2)
  have "jp_peek_len s1 \<le> 2" using p(2) by (simp add: stands_for_def)
  then consider "n = 1" "jp_peek_len s1 = 1" | "n = 1" "jp_peek_len s1 = 2" | "n = 2" "jp_peek_len s1 = 2" using assms(2,3) p(3) by linarith
  then show ?thesis
    using that p ab by cases (auto simp: next_chars_def stands_for_def Let_def numeral_2_eq_2)
qed

text \<open>The loops do what the functions on the text do.\<close>

lemma peek_none: "stands_for s rest out \<Longrightarrow> length rest < n \<Longrightarrow> n \<le> 2 \<Longrightarrow> \<exists>s'. peek_chars n s = (None, s') \<and> stands_for s' rest out"
  by (rule peek_spec [of s rest out n]) auto

lemma peek_some: "stands_for s rest out \<Longrightarrow> n \<le> length rest \<Longrightarrow> n \<le> 2 \<Longrightarrow>
    \<exists>s'. peek_chars n s = (Some (take n rest), s') \<and> stands_for s' rest out"
  by (rule peek_spec [of s rest out n]) auto

lemma next_written: "stands_for s (c # r) out \<Longrightarrow> \<exists>s'. next_chars 1 None s = Some s' \<and> stands_for s' r (out @ [c])"
  "stands_for s (c # r) out \<Longrightarrow> \<exists>s'. next_chars 1 (Some [x]) s = Some s' \<and> stands_for s' r (out @ [x])"
  "stands_for s (c # d # r) out \<Longrightarrow> \<exists>s'. next_chars 2 (Some [x, y]) s = Some s' \<and> stands_for s' r (out @ [x, y])"
  subgoal by (rule next_spec [of s "c # r" out 1 None]) auto
  subgoal by (rule next_spec [of s "c # r" out 1 "Some [x]"]) auto
  subgoal by (rule next_spec [of s "c # d # r" out 2 "Some [x, y]"]) auto
  done

text \<open>The loops do what the functions on the text do.\<close>

definition validate_empty_ok :: "comment_state \<Rightarrow> rust_string \<Rightarrow> json_preprocessor \<Rightarrow> rust_string \<Rightarrow> bool" where
  "validate_empty_ok st rest s out \<longleftrightarrow>
    (\<exists>s'. validate_empty st s = Some s' \<and> stands_for s' (snd (skip_empty st rest)) (out @ fst (skip_empty st rest)))"

lemma validate_empty_short:
  assumes "stands_for s rest out" and "length rest < (if st = SingleLine then 1 else 2)" and "skip_empty st rest = ([], rest)"
  shows "validate_empty_ok st rest s out"
proof -
  obtain s' where "peek_chars (if st = SingleLine then 1 else 2) s = (None, s')" "stands_for s' rest out"
    using peek_none [OF assms(1,2)] by (metis order_refl one_le_numeral)
  then show ?thesis unfolding validate_empty_ok_def using assms(3) by (subst validate_empty.simps) (cases st; simp)
qed

lemma validate_empty_spec: "stands_for s rest out \<Longrightarrow> validate_empty_ok st rest s out"
proof (induction st rest arbitrary: s out rule: skip_empty.induct)
  case (1 c d r)
  obtain s1 where s1: "peek_chars 2 s = (Some [c, d], s1)" "stands_for s1 (c # d # r) out"
    using peek_some [OF "1.prems", of 2] by (auto simp: numeral_2_eq_2)
  consider (hash) "c = 35" | (line) "c = 47" "d = 47" | (block) "c = 47" "d = 42" | (blank) "c = 32 \<or> c = 10 \<or> c = 13"
    | (other) "c \<noteq> 35" "\<not> (c = 47 \<and> d = 47)" "\<not> (c = 47 \<and> d = 42)" "\<not> (c = 32 \<or> c = 10 \<or> c = 13)" by blast
  then show ?case
  proof cases
    case hash
    obtain s2 where s2: "next_chars 1 (Some [32]) s1 = Some s2" "stands_for s2 (d # r) (out @ [32])" using next_written(2) [OF s1(2)] by blast
    show ?thesis using "1.IH"(1) [OF hash s2(2)] hash s1(1) s2(1) unfolding validate_empty_ok_def
      by (subst validate_empty.simps) simp
  next
    case line
    obtain s2 where s2: "next_chars 2 (Some [32, 32]) s1 = Some s2" "stands_for s2 r (out @ [32, 32])" using next_written(3) [OF s1(2)] by blast
    show ?thesis using "1.IH"(2) [OF _ _ s2(2)] line s1(1) s2(1) unfolding validate_empty_ok_def
      by (subst validate_empty.simps) simp
  next
    case block
    obtain s2 where s2: "next_chars 2 (Some [32, 32]) s1 = Some s2" "stands_for s2 r (out @ [32, 32])" using next_written(3) [OF s1(2)] by blast
    show ?thesis using "1.IH"(3) [OF _ _ _ s2(2)] block s1(1) s2(1) unfolding validate_empty_ok_def
      by (subst validate_empty.simps) simp
  next
    case blank
    obtain s2 where s2: "next_chars 1 None s1 = Some s2" "stands_for s2 (d # r) (out @ [c])" using next_written(1) [OF s1(2)] by blast
    have c: "c \<noteq> 35" "c \<noteq> 47" using blank by auto
    show ?thesis using "1.IH"(4) [OF _ _ _ blank s2(2)] blank c s1(1) s2(1) unfolding validate_empty_ok_def
      by (subst validate_empty.simps) simp
  next
    case other
    then show ?thesis using s1 unfolding validate_empty_ok_def by (subst validate_empty.simps) auto
  qed
next
  case (2 c r)
  obtain s1 where s1: "peek_chars 1 s = (Some [c], s1)" "stands_for s1 (c # r) out" using peek_some [OF "2.prems", of 1] by auto
  show ?case
  proof (cases "c = 10 \<or> c = 13")
    case True
    obtain s2 where s2: "next_chars 1 None s1 = Some s2" "stands_for s2 r (out @ [c])" using next_written(1) [OF s1(2)] by blast
    show ?thesis using "2.IH"(1) [OF True s2(2)] True s1(1) s2(1) unfolding validate_empty_ok_def by (subst validate_empty.simps) simp
  next
    case False
    obtain s2 where s2: "next_chars 1 (Some [32]) s1 = Some s2" "stands_for s2 r (out @ [32])" using next_written(2) [OF s1(2)] by blast
    show ?thesis using "2.IH"(2) [OF False s2(2)] False s1(1) s2(1) unfolding validate_empty_ok_def by (subst validate_empty.simps) simp
  qed
next
  case (3 c d r)
  obtain s1 where s1: "peek_chars 2 s = (Some [c, d], s1)" "stands_for s1 (c # d # r) out"
    using peek_some [OF "3.prems", of 2] by (auto simp: numeral_2_eq_2)
  consider (stop) "c = 42" "d = 47" | (brk) "c = 10 \<or> c = 13" | (other) "\<not> (c = 42 \<and> d = 47)" "\<not> (c = 10 \<or> c = 13)" by blast
  then show ?case
  proof cases
    case stop
    obtain s2 where s2: "next_chars 2 (Some [32, 32]) s1 = Some s2" "stands_for s2 r (out @ [32, 32])" using next_written(3) [OF s1(2)] by blast
    show ?thesis using "3.IH"(1) [OF _ s2(2)] stop s1(1) s2(1) unfolding validate_empty_ok_def by (subst validate_empty.simps) simp
  next
    case brk
    obtain s2 where s2: "next_chars 1 None s1 = Some s2" "stands_for s2 (d # r) (out @ [c])" using next_written(1) [OF s1(2)] by blast
    have c: "c \<noteq> 42" using brk by auto
    show ?thesis using "3.IH"(2) [OF _ brk s2(2)] brk c s1(1) s2(1) unfolding validate_empty_ok_def by (subst validate_empty.simps) simp
  next
    case other
    obtain s2 where s2: "next_chars 1 (Some [32]) s1 = Some s2" "stands_for s2 (d # r) (out @ [32])" using next_written(2) [OF s1(2)] by blast
    show ?thesis using "3.IH"(3) [OF other s2(2)] other s1(1) s2(1) unfolding validate_empty_ok_def by (subst validate_empty.simps) auto
  qed
qed (rule validate_empty_short; simp)+

lemma string_loop_spec:
  "stands_for s rest out \<Longrightarrow> \<exists>continue s'. string_loop e s = Some (continue, s') \<and>
    stands_for s' (snd (string_rest e rest)) (out @ fst (string_rest e rest)) \<and> (continue \<or> snd (string_rest e rest) = [])"
proof (induction e rest arbitrary: s out rule: string_rest.induct)
  case (1 e)
  then obtain s' where "peek_chars 1 s = (None, s')" "stands_for s' [] out" using peek_none [of s "[]" out 1] by auto
  then show ?case by (subst string_loop.simps) auto
next
  case (2 e c r)
  obtain s1 where s1: "peek_chars 1 s = (Some [c], s1)" "stands_for s1 (c # r) out" using peek_some [OF 2(2), of 1] by auto
  obtain s2 where s2: "next_chars 1 None s1 = Some s2" "stands_for s2 r (out @ [c])" using next_written(1) [OF s1(2)] by blast
  show ?case
  proof (cases "\<not> e \<and> c = 34")
    case True
    then show ?thesis by (subst string_loop.simps) (use s1 s2 in auto)
  next
    case False
    then show ?thesis using 2(1) [OF False s2(2)] by (subst string_loop.simps) (use False s1 s2 in auto)
  qed
qed


lemma stands_for_replace: "stands_for s rest out \<Longrightarrow> stands_for (s\<lparr>jp_new_string := (jp_new_string s)[i := c]\<rparr>) rest (out[i := c])"
  by (simp add: stands_for_def)

lemma preprocess_loop_spec: "stands_for s rest out \<Longrightarrow> preprocess_loop s = Some (out @ strip rest)"
proof (induction rest arbitrary: s out rule: strip.induct)
  case (1 rest)
  obtain bs r1 where e: "skip_empty No_Comment rest = (bs, r1)" by force
  obtain s1 where s1: "validate_empty No_Comment s = Some s1" "stands_for s1 r1 (out @ bs)"
    using validate_empty_spec [OF "1.prems", of No_Comment] e by (auto simp: validate_empty_ok_def)
  show ?case
  proof (cases r1)
    case Nil
    obtain s2 where "peek_chars 1 s1 = (None, s2)" "stands_for s2 r1 (out @ bs)" using peek_none [OF s1(2), of 1] Nil by auto
    then show ?thesis using s1(1) e Nil by (subst preprocess_loop.simps) (simp add: validate_next_def strip.simps [of rest] stands_for_def)
  next
    case (Cons c r)
    obtain s2 where s2: "peek_chars 1 s1 = (Some [c], s2)" "stands_for s2 (c # r) (out @ bs)" using peek_some [OF s1(2), of 1] Cons by auto
    consider (str) "c = 34" | (comma) "c = 44" | (other) "c \<noteq> 34" "c \<noteq> 44" by blast
    then show ?thesis
    proof cases
      case str
      obtain b r' where sr: "string_rest False r = (b, r')" by force
      obtain s3 where s3: "next_chars 1 None s2 = Some s3" "stands_for s3 r (out @ bs @ [c])" using next_written(1) [OF s2(2)] by auto
      obtain continue s4 where s4: "string_loop False s3 = Some (continue, s4)" "stands_for s4 r' (out @ bs @ c # b)" "continue \<or> r' = []"
        using string_loop_spec [OF s3(2), of False] sr by auto
      have "preprocess_loop s = (if continue then preprocess_loop s4 else Some (jp_new_string s4))"
        using s1(1) s2(1) s3(1) s4(1) str by (subst preprocess_loop.simps) (simp add: validate_next_def)
      moreover have "preprocess_loop s4 = Some ((out @ bs @ c # b) @ strip r')"
        using "1.IH"(1) [OF e [symmetric] Cons str sr [symmetric] s4(2)] .
      ultimately show ?thesis using s4 e sr str Cons by (auto simp: strip.simps [of rest] strip.simps [of "[]"] stands_for_def)
    next
      case comma
      obtain b r' where sr: "skip_empty No_Comment r = (b, r')" by force
      let ?i = "length (jp_new_string s2)"
      have i: "?i = length (out @ bs)" using s2(2) by (simp add: stands_for_def)
      obtain s3 where s3: "next_chars 1 (Some [32]) s2 = Some s3" "stands_for s3 r (out @ bs @ [32])" using next_written(2) [OF s2(2)] by auto
      obtain s4 where s4: "validate_empty No_Comment s3 = Some s4" "stands_for s4 r' (out @ bs @ 32 # b)"
        using validate_empty_spec [OF s3(2), of No_Comment] sr by (auto simp: validate_empty_ok_def)
      show ?thesis
      proof (cases r')
        case Nil
        obtain s5 where "peek_chars 1 s4 = (None, s5)" "stands_for s5 r' (out @ bs @ 32 # b)" using peek_none [OF s4(2), of 1] Nil by auto
        then show ?thesis using s1(1) s2(1) s3(1) s4(1) e sr comma Cons Nil
          by (subst preprocess_loop.simps) (simp add: validate_next_def Let_def strip.simps [of rest] strip.simps [of "[]"] stands_for_def)
      next
        case (Cons d r'')
        obtain s5 where s5: "peek_chars 1 s4 = (Some [d], s5)" "stands_for s5 r' (out @ bs @ 32 # b)" using peek_some [OF s4(2), of 1] Cons by auto
        let ?closing = "d = 125 \<or> d = 93"
        let ?s6 = "if ?closing then s5 else s5\<lparr>jp_new_string := (jp_new_string s5)[?i := 44]\<rparr>"
        have "stands_for ?s6 r' (out @ bs @ (if ?closing then 32 else 44) # b)"
          using s5(2) stands_for_replace [OF s5(2), of ?i 44] i by (auto simp: list_update_append)
        then have "preprocess_loop ?s6 = Some ((out @ bs @ (if ?closing then 32 else 44) # b) @ strip r')"
          using "1.IH"(2) [OF e [symmetric] \<open>r1 = c # r\<close> _ comma sr [symmetric]] comma by simp
        moreover have "preprocess_loop s = preprocess_loop ?s6"
          using s1(1) s2(1) s3(1) s4(1) s5(1) comma by (subst preprocess_loop.simps) (simp add: validate_next_def Let_def)
        ultimately show ?thesis using e sr comma Cons \<open>r1 = c # r\<close> by (simp add: strip.simps [of rest])
      qed
    next
      case other
      obtain s3 where s3: "next_chars 1 None s2 = Some s3" "stands_for s3 r (out @ bs @ [c])" using next_written(1) [OF s2(2)] by auto
      have "preprocess_loop s = preprocess_loop s3"
        using s1(1) s2(1) s3(1) other by (subst preprocess_loop.simps) (simp add: validate_next_def)
      then show ?thesis using "1.IH"(3) [OF e [symmetric] Cons other s3(2)] e other Cons by (simp add: strip.simps [of rest])
    qed
  qed
qed

section \<open>What is removed\<close>

text \<open>A character stays as it is or becomes a blank; line breaks stay.\<close>

definition blanked :: "nat \<Rightarrow> nat \<Rightarrow> bool" where
  "blanked c d \<longleftrightarrow> d = c \<or> d = 32 \<and> c \<noteq> 10 \<and> c \<noteq> 13"

lemma blanked_refl [simp]: "blanked c c"
  by (simp add: blanked_def)

lemma skip_empty_blanked: "list_all2 blanked r (fst (skip_empty st r) @ snd (skip_empty st r))"
  by (induction st r rule: skip_empty.induct) (auto simp: blanked_def list_all2_same)

lemma string_rest_same: "fst (string_rest e r) @ snd (string_rest e r) = r"
  by (induction e r rule: string_rest.induct) auto

lemma list_all2_trans_app:
  assumes "list_all2 P xs (ys @ zs)" and "list_all2 P zs ws" and "\<And>a b c. P a b \<Longrightarrow> P b c \<Longrightarrow> P a c" and "\<And>a. P a a"
  shows "list_all2 P xs (ys @ ws)"
proof -
  have "list_all2 P (ys @ zs) (ys @ ws)" using assms(2,4) by (auto intro: list_all2_appendI simp: list_all2_same)
  then show ?thesis using list_all2_trans [of P P P xs "ys @ zs" "ys @ ws"] assms(1,3) by blast
qed

lemma blanked_trans: "blanked a b \<Longrightarrow> blanked b c \<Longrightarrow> blanked a c"
  by (auto simp: blanked_def)

lemmas blanked_app = list_all2_trans_app [where P = blanked, OF _ _ blanked_trans blanked_refl]

lemma strip_blanked: "list_all2 blanked json (strip json)"
proof (induction json rule: strip.induct)
  case (1 t)
  obtain bs r1 where e: "skip_empty No_Comment t = (bs, r1)" by force
  have front: "list_all2 blanked t (bs @ r1)" using skip_empty_blanked [of t No_Comment] e by simp
  show ?case
  proof (cases r1)
    case (Cons c r)
    consider (str) "c = 34" | (comma) "c = 44" | (other) "c \<noteq> 34" "c \<noteq> 44" by blast
    then show ?thesis
    proof cases
      case str
      obtain b r' where sr: "string_rest False r = (b, r')" by force
      have "r = b @ r'" using string_rest_same [of False r] sr by simp
      then have "list_all2 blanked r1 (c # b @ strip r')"
        using "1.IH"(1) [OF e [symmetric] Cons str sr [symmetric]] Cons by (auto intro: list_all2_appendI simp: list_all2_same)
      then show ?thesis using blanked_app [OF front] e str sr Cons by (simp add: strip.simps [of t])
    next
      case comma
      obtain b r' where sr: "skip_empty No_Comment r = (b, r')" by force
      have "list_all2 blanked r (b @ strip r')"
        using blanked_app [of r b r'] skip_empty_blanked [of r No_Comment] sr "1.IH"(2) [OF e [symmetric] Cons _ comma sr [symmetric]] comma by simp
      then have "list_all2 blanked r1 ((if r' = [] \<or> hd r' = 125 \<or> hd r' = 93 then 32 else 44) # b @ strip r')"
        using Cons comma by (simp add: blanked_def)
      then show ?thesis using blanked_app [OF front] e comma sr Cons by (simp add: strip.simps [of t])
    next
      case other
      then have "list_all2 blanked r1 (c # strip r)" using "1.IH"(3) [OF e [symmetric] Cons other] Cons by simp
      then show ?thesis using blanked_app [OF front] e other Cons by (simp add: strip.simps [of t])
    qed
  qed (use front e in \<open>simp add: strip.simps [of t]\<close>)
qed

section \<open>JSON is left alone\<close>

definition ordinary :: "nat \<Rightarrow> bool" where
  "ordinary c \<longleftrightarrow> c \<notin> {32, 10, 13, 35, 47, 44, 125, 93}"

lemma skip_ordinary: "ordinary c \<Longrightarrow> skip_empty No_Comment (c # r) = ([], c # r)"
  by (cases r) (auto simp: ordinary_def)

lemma strip_Nil [simp]: "strip [] = []"
  by (simp add: strip.simps [of "[]"])

lemma strip_char: "c \<notin> {32, 10, 13, 35, 47, 44, 34} \<Longrightarrow> strip (c # r) = c # strip r"
  by (cases r) (simp_all add: strip.simps [of "[c]"] strip.simps [of "c # _"])

lemma strip_comma: "ordinary c \<Longrightarrow> strip (44 # c # r) = 44 # strip (c # r)"
  by (auto simp: strip.simps [of "44 # c # r"] skip_ordinary) (auto simp: ordinary_def)

lemma string_rest_char:
  "string_rest False (write_canonical_char c @ r) = apfst ((@) (write_canonical_char c)) (string_rest False r)"
  by (auto simp: write_canonical_char_def hex_digit_def apfst_def map_prod_def split: prod.splits)

lemma strip_string: "strip (write_canonical_string s @ r) = write_canonical_string s @ strip r"
proof -
  have "string_rest False (concat (map write_canonical_char s) @ 34 # r) = (concat (map write_canonical_char s) @ [34], r)"
    by (induction s) (simp_all add: string_rest_char)
  then show ?thesis
    using skip_ordinary [of 34 "concat (map write_canonical_char s) @ 34 # r"]
    by (simp add: write_canonical_string_def ordinary_def strip.simps [of "34 # _"])
qed

text \<open>A text that is passed over, whatever follows.\<close>

definition passed :: "rust_string \<Rightarrow> bool" where
  "passed t \<longleftrightarrow> t \<noteq> [] \<and> ordinary (hd t) \<and> (\<forall>r. strip (t @ r) = t @ strip r)"

lemma strip_chars: "list_all (\<lambda>c. c \<notin> {32, 10, 13, 35, 47, 44, 34}) t \<Longrightarrow> strip (t @ r) = t @ strip r"
  by (induction t) (simp_all add: strip_char)

lemma passed_chars: "t \<noteq> [] \<Longrightarrow> list_all (\<lambda>c. c \<notin> {32, 10, 13, 35, 47, 44, 34, 125, 93}) t \<Longrightarrow> passed t"
  using strip_chars [of t] by (cases t) (auto simp: passed_def ordinary_def list_all_iff)

lemma digits_chars: "list_all (\<lambda>c. 48 \<le> c \<and> c < 58) (dec_digits n)"
  by (induction n rule: dec_digits.induct) (subst dec_digits.simps, simp)

lemma passed_int: "passed (dec_int i)"
proof -
  have "dec_digits n \<noteq> []" for n by (subst dec_digits.simps) simp
  moreover have "list_all (\<lambda>c. c \<notin> {32, 10, 13, 35, 47, 44, 34, 125, 93}) (dec_digits n)" for n
    by (rule list.pred_mono_strong [OF digits_chars [of n]]) auto
  ultimately show ?thesis by (intro passed_chars) (simp_all add: dec_int_def)
qed

lemma passed_string: "passed (write_canonical_string s)"
  by (simp add: passed_def strip_string) (simp add: write_canonical_string_def ordinary_def)

lemma passed_member: "passed t \<Longrightarrow> passed (write_canonical_string k @ 58 # t)"
  by (simp add: passed_def strip_string strip_char) (simp add: write_canonical_string_def ordinary_def)

lemma strip_comma_join: "list_all passed ss \<Longrightarrow> strip (comma_join ss @ r) = comma_join ss @ strip r"
proof (induction ss rule: comma_join.induct)
  case (3 s t ss)
  obtain c t' where t: "t = c # t'" "ordinary c" using 3(2) by (cases t) (auto simp: passed_def)
  obtain u where u: "comma_join (t # ss) = c # u" using t(1) by (cases ss) auto
  have "strip (s @ 44 # comma_join (t # ss) @ r) = s @ strip (44 # comma_join (t # ss) @ r)" using 3(2) by (simp add: passed_def)
  then show ?case using 3 strip_comma [OF t(2), of "u @ r"] by (simp add: u)
qed (simp_all add: passed_def)

lemma passed_brackets:
  assumes "list_all passed ss" and "a \<in> {91, 123}" and "b \<in> {93, 125}"
  shows "passed (a # comma_join ss @ [b])"
proof -
  have "strip (a # comma_join ss @ b # r) = a # comma_join ss @ b # strip r" for r
    using assms strip_char [of a] strip_comma_join [OF assms(1), of "b # r"] strip_char [of b r] by auto
  then show ?thesis using assms(2) by (auto simp: passed_def ordinary_def)
qed

lemma map_Inr_member: "map f xs = map Inr ss \<Longrightarrow> s \<in> set ss \<Longrightarrow> \<exists>x \<in> set xs. f x = Inr s"
  by (metis (no_types, lifting) image_iff list.set_map)

lemma canonical_passed: "write_canonical v = Inr t \<Longrightarrow> passed t"
proof (induction v arbitrary: t)
  case (Json_Array xs)
  then obtain ss where ss: "map write_canonical xs = map Inr ss" "t = 91 # comma_join ss @ [93]"
    by (auto simp: write_items_Inr sbind_eq_Inr)
  have "list_all passed ss" using map_Inr_member [OF ss(1)] Json_Array(1) unfolding list_all_iff by blast
  then show ?case using ss(2) passed_brackets by simp
next
  case (Json_Object kvs)
  let ?ms = "sort_key (as_bytes \<circ> fst) (map (map_prod id write_canonical) kvs)"
  obtain ss where ss: "map write_member ?ms = map Inr ss" "t = 123 # comma_join ss @ [125]"
    using Json_Object(2) by (auto simp: write_items_Inr sbind_eq_Inr)
  have "passed s" if m: "write_member m = Inr s" "m \<in> set ?ms" for m s
  proof -
    obtain k x where kx: "(k, x) \<in> set kvs" "m = (k, write_canonical x)" using m(2) by auto
    then obtain u where "write_canonical x = Inr u" "s = write_canonical_string k @ 58 # u"
      using m(1) by (auto simp: write_member_def sbind_eq_Inr)
    then show ?thesis using Json_Object(1) [OF kx(1), of x] passed_member by (simp add: snds.simps)
  qed
  then have "list_all passed ss" using map_Inr_member [OF ss(1)] unfolding list_all_iff by blast
  then show ?case using ss(2) passed_brackets by simp
qed (auto simp: lit_def write_canonical_number_def passed_int passed_string intro!: passed_int intro: passed_chars split: option.splits)

text \<open>
  C35. The preprocessor returns for every text, without an underflow of its look-ahead buffer, and its result is that of the plain
  function \<open>strip\<close>. It moves no character: each stays where it is or becomes a blank, and line breaks stay, so that the line and the
  character column of an error are those of the file.
\<close>

theorem preprocess_positions:
  "\<exists>out. preprocess_human_json json = Some out \<and> out = strip json \<and> list_all2 blanked json out"
  using preprocess_loop_spec [OF stands_for_start] strip_blanked by (simp add: preprocess_human_json_def)

text \<open>
  Compact JSON of any value is left as it is: nothing inside a string, and no comma between items, is taken for a comment or a
  trailing comma.
\<close>

theorem json_unchanged:
  assumes "canonicalize v = Inr t"
  shows "preprocess_human_json t = Some t"
proof -
  have "strip (t @ []) = t @ strip []" using canonical_passed [of v t] assms unfolding passed_def canonicalize_def by blast
  then show ?thesis using preprocess_loop_spec [OF stands_for_start] by (simp add: preprocess_human_json_def)
qed

theorem json_unchanged_witness:
  "preprocess_human_json (lit ''[-7,'' @ [34, 44, 93, 35, 34] @ lit '']'') = Some (lit ''[-7,'' @ [34, 44, 93, 35, 34] @ lit '']'')"
  using json_unchanged [of "Json_Array [Json_Number (Json_Int (- 7)), Json_String [44, 93, 35]]"]
  by (simp add: canonicalize_def write_canonical_number_def write_canonical_string_def write_canonical_char_def dec_int_def dec_digits.simps lit_def)

text \<open>
  A tab is not passed over: a trailing comma before a tab is kept. And a comment sign that is the last character stays.
\<close>

theorem tab_keeps_trailing_comma:
  "preprocess_human_json (lit ''[1,'' @ [9] @ lit '']'') = Some (lit ''[1,'' @ [9] @ lit '']'') \<and>
   preprocess_human_json (lit ''[1, ]'') = Some (lit ''[1  ]'') \<and>
   preprocess_human_json (lit ''{}#'') = Some (lit ''{}#'') \<and>
   preprocess_human_json (lit ''{}##'') = Some (lit ''{}  '')"
  using preprocess_loop_spec [OF stands_for_start] by (simp add: preprocess_human_json_def lit_def strip.simps)

end
