(* ===== verification/Updater.thy ===== *)
theory Updater
  imports Canon_Json
begin

text \<open>
  The release manifest and the verification of a staged set (\<open>tools/updater/src/manifest.rs\<close>, \<open>verify.rs\<close>). The staged
  directory is a tree of files and directories as the file system reports it; a directory that cannot be listed and a file that
  cannot be read carry the flag \<open>False\<close>. Ed25519, hexadecimal decoding, SHA-256 and the file system's comparison of names are
  parameters. Shown: a set that passes is one that was signed, and holds its components and nothing else.
\<close>

section \<open>Manifest\<close>

definition MANIFEST_FILE_NAME :: rust_string where "MANIFEST_FILE_NAME = lit ''manifest.json''"
definition FEC_PROTOCOL_VERSION :: u32 where "FEC_PROTOCOL_VERSION = 2"
definition CONNECTION_TERMINATED_CODE_TABLE_VERSION :: u32 where "CONNECTION_TERMINATED_CODE_TABLE_VERSION = 1"

datatype component_role = Role_Client | Role_Host | Role_Shared

record component_entry =
  cp_name :: rust_string
  cp_role :: component_role
  cp_sha256 :: rust_string
  cp_size :: u64

record protocol_versions =
  pv_fec :: u32
  pv_codes :: u32

definition protocol_default :: protocol_versions where
  "protocol_default = \<lparr>pv_fec = FEC_PROTOCOL_VERSION, pv_codes = CONNECTION_TERMINATED_CODE_TABLE_VERSION\<rparr>"

record manifest =
  mf_set_version :: rust_string
  mf_protocol :: protocol_versions
  mf_components :: "component_entry list"
  mf_signing_key_id :: rust_string

record signed_manifest =
  sm_manifest :: manifest
  sm_signature :: rust_string

datatype verify_error = BadSignature | MalformedSignature rust_string | MixedVersionSet rust_string
  | ProtocolMismatch protocol_versions protocol_versions | MissingComponent rust_string
  | SizeMismatch rust_string u64 nat | HashMismatch rust_string | Canonicalization canon_error
  | UnlistedFile rust_string | EnumerationFailed | UnsafeComponentName rust_string

text \<open>What \<open>serde\<close> derives for these structures, and the bytes that are signed.\<close>

fun role_value :: "component_role \<Rightarrow> json" where
  "role_value Role_Client = Json_String (lit ''client'')"
| "role_value Role_Host = Json_String (lit ''host'')"
| "role_value Role_Shared = Json_String (lit ''shared'')"

definition component_value :: "component_entry \<Rightarrow> json" where
  "component_value c = Json_Object [(lit ''name'', Json_String (cp_name c)), (lit ''role'', role_value (cp_role c)),
    (lit ''sha256'', Json_String (cp_sha256 c)), (lit ''size'', Json_Number (Json_Int (uint (cp_size c))))]"

definition protocol_value :: "protocol_versions \<Rightarrow> json" where
  "protocol_value p = Json_Object [(lit ''fec'', Json_Number (Json_Int (uint (pv_fec p)))),
    (lit ''connection_terminated_codes'', Json_Number (Json_Int (uint (pv_codes p))))]"

definition manifest_value :: "manifest \<Rightarrow> json" where
  "manifest_value m = Json_Object [(lit ''set_version'', Json_String (mf_set_version m)),
    (lit ''protocol'', protocol_value (mf_protocol m)),
    (lit ''components'', Json_Array (map component_value (mf_components m))),
    (lit ''signing_key_id'', Json_String (mf_signing_key_id m))]"

definition canonical_bytes :: "manifest \<Rightarrow> verify_error + bytes" where
  "canonical_bytes m = (case canonicalize (manifest_value m) of Inl e \<Rightarrow> Inl (Canonicalization e) | Inr s \<Rightarrow> Inr (as_bytes s))"

fun consistent_from :: "(rust_string \<rightharpoonup> rust_string \<times> u64) \<Rightarrow> component_entry list \<Rightarrow> verify_error + unit" where
  "consistent_from seen [] = Inr ()"
| "consistent_from seen (c # cs) = (
    if (case seen (cp_name c) of None \<Rightarrow> False | Some (h, n) \<Rightarrow> h \<noteq> cp_sha256 c \<or> n \<noteq> cp_size c)
    then Inl (MixedVersionSet (cp_name c))
    else consistent_from (seen(cp_name c \<mapsto> (cp_sha256 c, cp_size c))) cs)"

definition check_internally_consistent :: "manifest \<Rightarrow> verify_error + unit" where
  "check_internally_consistent m = consistent_from Map.empty (mf_components m)"

definition check_protocol_compatible :: "manifest \<Rightarrow> protocol_versions \<Rightarrow> verify_error + unit" where
  "check_protocol_compatible m running = (
    if pv_fec (mf_protocol m) \<noteq> pv_fec running \<or> pv_codes (mf_protocol m) \<noteq> pv_codes running
    then Inl (ProtocolMismatch (mf_protocol m) running) else Inr ())"

text \<open>\<open>str::split\<close> at the characters of a set; the path separators.\<close>

fun split_on :: "(nat \<Rightarrow> bool) \<Rightarrow> rust_string \<Rightarrow> rust_string list" where
  "split_on p [] = [[]]"
| "split_on p (c # cs) = (if p c then [] # split_on p cs
    else case split_on p cs of [] \<Rightarrow> [[c]] | s # ss \<Rightarrow> (c # s) # ss)"

definition is_sep :: "nat \<Rightarrow> bool" where
  "is_sep c \<longleftrightarrow> c = 47 \<or> c = 92"

definition validate_component_name :: "rust_string \<Rightarrow> verify_error + unit" where
  "validate_component_name name = (
    let is_absolute = (case name of [] \<Rightarrow> False
          | c # r \<Rightarrow> c = 47 \<or> c = 92 \<or> (c < 0x80 \<and> (case r of d # _ \<Rightarrow> d = 58 | [] \<Rightarrow> False)));
        has_parent_segment = list_ex (\<lambda>s. s = [46, 46]) (split_on is_sep name)
    in if is_absolute \<or> has_parent_segment then Inl (UnsafeComponentName name) else Inr ())"

text \<open>
  The libraries called: Ed25519 signing (key, message) and verification (key, message, signature), the \<open>hex\<close> crate, and
  SHA-256 in hexadecimal.
\<close>

record update_lib =
  ed_sign :: "bytes \<Rightarrow> bytes \<Rightarrow> bytes"
  ed_verify :: "bytes \<Rightarrow> bytes \<Rightarrow> bytes \<Rightarrow> bool"
  hex_encode :: "bytes \<Rightarrow> rust_string"
  hex_decode :: "rust_string \<Rightarrow> rust_string + bytes"
  sha256_hex :: "bytes \<Rightarrow> rust_string"

definition sign_manifest :: "update_lib \<Rightarrow> manifest \<Rightarrow> bytes \<Rightarrow> verify_error + signed_manifest" where
  "sign_manifest lib m signing_key = sbind (canonical_bytes m) (\<lambda>bytes.
    Inr \<lparr>sm_manifest = m, sm_signature = hex_encode lib (ed_sign lib signing_key bytes)\<rparr>)"

definition verify_signature :: "update_lib \<Rightarrow> signed_manifest \<Rightarrow> bytes \<Rightarrow> verify_error + unit" where
  "verify_signature lib sm trust_root = (case hex_decode lib (sm_signature sm) of
      Inl e \<Rightarrow> Inl (MalformedSignature e)
    | Inr sig \<Rightarrow> if length sig \<noteq> 64 then Inl (MalformedSignature (lit ''signature is not 64 bytes''))
      else sbind (canonical_bytes (sm_manifest sm)) (\<lambda>bytes.
        if ed_verify lib trust_root bytes sig then Inr () else Inl BadSignature))"

section \<open>Staged directory\<close>

datatype fs_node = Fs_File bool bytes | Fs_Dir bool "(rust_string \<times> fs_node) list"

text \<open>
  \<open>staged_dir.join(name)\<close>: the parts of a relative path, without empty and \<open>.\<close> parts. \<open>same\<close> is how the file system
  compares a name with an entry. Names with \<open>..\<close> do not get here.
\<close>

definition path_parts :: "rust_string \<Rightarrow> rust_string list" where
  "path_parts name = filter (\<lambda>s. s \<noteq> [] \<and> s \<noteq> [46]) (split_on is_sep name)"

fun fs_lookup :: "(rust_string \<Rightarrow> rust_string \<Rightarrow> bool) \<Rightarrow> fs_node \<Rightarrow> rust_string list \<Rightarrow> fs_node option" where
  "fs_lookup same n [] = Some n"
| "fs_lookup same (Fs_File _ _) (p # ps) = None"
| "fs_lookup same (Fs_Dir _ es) (p # ps) = (case find (\<lambda>e. same p (fst e)) es of None \<Rightarrow> None
    | Some e \<Rightarrow> fs_lookup same (snd e) ps)"

fun metadata_len :: "nat \<Rightarrow> fs_node \<Rightarrow> nat" where
  "metadata_len dir_len (Fs_File _ content) = length content"
| "metadata_len dir_len (Fs_Dir _ _) = dir_len"

fun sha256_file :: "update_lib \<Rightarrow> fs_node \<Rightarrow> rust_string option" where
  "sha256_file lib (Fs_File readable content) = (if readable then Some (sha256_hex lib content) else None)"
| "sha256_file lib (Fs_Dir _ _) = None"

definition ascii_lower :: "nat \<Rightarrow> nat" where
  "ascii_lower c = (if 65 \<le> c \<and> c \<le> 90 then c + 32 else c)"

definition eq_ignore_ascii_case :: "rust_string \<Rightarrow> rust_string \<Rightarrow> bool" where
  "eq_ignore_ascii_case a b \<longleftrightarrow> map ascii_lower a = map ascii_lower b"

text \<open>How the file system answers: its name comparison, and the length it reports for a directory.\<close>

record fs_view =
  fs_same :: "rust_string \<Rightarrow> rust_string \<Rightarrow> bool"
  fs_dir_len :: nat

definition verify_component_file
    :: "update_lib \<Rightarrow> fs_view \<Rightarrow> fs_node option \<Rightarrow> component_entry \<Rightarrow> verify_error + unit" where
  "verify_component_file lib fs staged c = (
    case Option.bind staged (\<lambda>root. fs_lookup (fs_same fs) root (path_parts (cp_name c))) of
      None \<Rightarrow> Inl (MissingComponent (cp_name c))
    | Some n \<Rightarrow>
        if metadata_len (fs_dir_len fs) n \<noteq> unat (cp_size c)
        then Inl (SizeMismatch (cp_name c) (cp_size c) (metadata_len (fs_dir_len fs) n))
        else case sha256_file lib n of None \<Rightarrow> Inl (MissingComponent (cp_name c))
          | Some h \<Rightarrow> if eq_ignore_ascii_case h (cp_sha256 c) then Inr () else Inl (HashMismatch (cp_name c)))"

definition replace_sep :: "rust_string \<Rightarrow> rust_string" where
  "replace_sep s = map (\<lambda>c. if c = 92 then 47 else c) s"

text \<open>The relative path of an entry, as the walk prints it.\<close>

fun join_path :: "rust_string list \<Rightarrow> rust_string" where
  "join_path [] = []"
| "join_path [p] = p"
| "join_path (p # q # ps) = p @ 92 # join_path (q # ps)"

definition rel_path :: "rust_string list \<Rightarrow> rust_string" where
  "rel_path ps = replace_sep (join_path ps)"

text \<open>The walk of \<open>check_no_unlisted_files\<close>: the entries of one directory, then the directories on the stack.\<close>

type_synonym dir_stack = "(rust_string list \<times> fs_node) list"

fun walk_entries :: "rust_string set \<Rightarrow> rust_string list \<Rightarrow> (rust_string \<times> fs_node) list \<Rightarrow> dir_stack
    \<Rightarrow> verify_error + dir_stack" where
  "walk_entries listed dir [] stack = Inr stack"
| "walk_entries listed dir ((k, Fs_Dir ok es) # rest) stack =
    walk_entries listed dir rest ((dir @ [k], Fs_Dir ok es) # stack)"
| "walk_entries listed dir ((k, Fs_File ok content) # rest) stack = (
    let rel = rel_path (dir @ [k]) in
    if rel = MANIFEST_FILE_NAME then walk_entries listed dir rest stack
    else if rel \<notin> listed then Inl (UnlistedFile rel)
    else walk_entries listed dir rest stack)"

definition stack_size :: "dir_stack \<Rightarrow> nat" where
  "stack_size stack = sum_list (map (size \<circ> snd) stack)"

lemma walk_entries_size:
  "walk_entries listed dir es stack = Inr stack' \<Longrightarrow>
    stack_size stack' \<le> stack_size stack + size_list (size_prod (\<lambda>_. 0) size) es"
  by (induction listed dir es stack rule: walk_entries.induct)
    (auto simp: stack_size_def Let_def split: if_splits)

function walk_dirs :: "rust_string set \<Rightarrow> dir_stack \<Rightarrow> verify_error + unit" where
  "walk_dirs listed [] = Inr ()"
| "walk_dirs listed ((dir, Fs_File _ _) # stack) = Inl EnumerationFailed"
| "walk_dirs listed ((dir, Fs_Dir ok es) # stack) = (
    if \<not> ok then Inl EnumerationFailed
    else case walk_entries listed dir es stack of Inl e \<Rightarrow> Inl e | Inr stack' \<Rightarrow> walk_dirs listed stack')"
  by pat_completeness auto
termination
  by (relation "measure (stack_size \<circ> snd)") (auto dest!: walk_entries_size simp: stack_size_def)

definition check_no_unlisted_files :: "fs_node option \<Rightarrow> signed_manifest \<Rightarrow> verify_error + unit" where
  "check_no_unlisted_files staged sm = (
    let listed = (\<lambda>c. replace_sep (cp_name c)) ` set (mf_components (sm_manifest sm))
    in walk_dirs listed (case staged of None \<Rightarrow> [] | Some root \<Rightarrow> [([], root)]))"

fun verify_components
    :: "update_lib \<Rightarrow> fs_view \<Rightarrow> fs_node option \<Rightarrow> component_entry list \<Rightarrow> verify_error + unit" where
  "verify_components lib fs staged [] = Inr ()"
| "verify_components lib fs staged (c # cs) = sbind (validate_component_name (cp_name c)) (\<lambda>_.
    sbind (verify_component_file lib fs staged c) (\<lambda>_. verify_components lib fs staged cs))"

definition verify_staged_set
    :: "update_lib \<Rightarrow> fs_view \<Rightarrow> fs_node option \<Rightarrow> signed_manifest \<Rightarrow> bytes \<Rightarrow> protocol_versions \<Rightarrow> verify_error + unit" where
  "verify_staged_set lib fs staged sm trust_root running =
    sbind (verify_signature lib sm trust_root) (\<lambda>_.
    sbind (check_internally_consistent (sm_manifest sm)) (\<lambda>_.
    sbind (check_protocol_compatible (sm_manifest sm) running) (\<lambda>_.
    sbind (verify_components lib fs staged (mf_components (sm_manifest sm))) (\<lambda>_.
    check_no_unlisted_files staged sm))))"

section \<open>Status of a staged set\<close>

text \<open>
  \<open>app-native/src/update.rs\<close>. \<open>manifest_read\<close> is what reading and parsing the manifest file gives. The cache keeps the last
  status with the fingerprint it belongs to and the fingerprint of a check in the background; \<open>recv\<close> is what its channel has.
\<close>

datatype fail_reason = Cannot_Read | Not_Json | Check_Failed verify_error

datatype update_status = Us_Idle | Us_Checking | Us_Staged rust_string | Us_VerifyFailed fail_reason

datatype manifest_read = Mf_NotFound | Mf_Unreadable | Mf_Invalid | Mf_Parsed signed_manifest

fun verify_staged :: "update_lib \<Rightarrow> fs_view \<Rightarrow> fs_node option \<Rightarrow> bytes \<Rightarrow> manifest_read \<Rightarrow> update_status" where
  "verify_staged lib fs staged trust_root Mf_NotFound = Us_Idle"
| "verify_staged lib fs staged trust_root Mf_Unreadable = Us_VerifyFailed Cannot_Read"
| "verify_staged lib fs staged trust_root Mf_Invalid = Us_VerifyFailed Not_Json"
| "verify_staged lib fs staged trust_root (Mf_Parsed sm) = (
    case verify_staged_set lib fs staged sm trust_root protocol_default of
      Inr _ \<Rightarrow> Us_Staged (mf_set_version (sm_manifest sm)) | Inl e \<Rightarrow> Us_VerifyFailed (Check_Failed e))"

record manifest_fingerprint =
  fp_len :: u64
  fp_modified :: nat

record update_status_cache =
  us_confirmed :: "manifest_fingerprint option \<times> update_status"
  us_checking :: "manifest_fingerprint option"

definition us_new :: update_status_cache where
  "us_new = \<lparr>us_confirmed = (None, Us_Idle), us_checking = None\<rparr>"

datatype check_recv = Recv_Result update_status | Recv_Empty | Recv_Disconnected

definition absorb_check :: "check_recv \<Rightarrow> update_status_cache \<Rightarrow> update_status_cache" where
  "absorb_check recv u = (case us_checking u of None \<Rightarrow> u
    | Some fp \<Rightarrow> (case recv of Recv_Result st \<Rightarrow> u\<lparr>us_confirmed := (Some fp, st), us_checking := None\<rparr>
      | Recv_Disconnected \<Rightarrow> u\<lparr>us_checking := None\<rparr> | Recv_Empty \<Rightarrow> u))"

definition us_status :: "manifest_fingerprint option \<Rightarrow> check_recv \<Rightarrow> update_status_cache \<Rightarrow> update_status \<times> update_status_cache" where
  "us_status current recv u0 = (let u = absorb_check recv u0 in case current of
      None \<Rightarrow> (Us_Idle, u\<lparr>us_confirmed := (None, Us_Idle)\<rparr>)
    | Some fp \<Rightarrow>
        if fst (us_confirmed u) = Some fp then (snd (us_confirmed u), u)
        else if us_checking u = Some fp then (Us_Checking, u)
        else (Us_Checking, u\<lparr>us_checking := Some fp\<rparr>))"

section \<open>The signed bytes determine the manifest\<close>

text \<open>Every \<open>String\<close> of a manifest holds scalar values, which is what the type guarantees.\<close>

definition component_ok :: "component_entry \<Rightarrow> bool" where
  "component_ok c \<longleftrightarrow> list_all scalar_value (cp_name c) \<and> list_all scalar_value (cp_sha256 c)"

definition manifest_ok :: "manifest \<Rightarrow> bool" where
  "manifest_ok m \<longleftrightarrow> list_all scalar_value (mf_set_version m) \<and> list_all scalar_value (mf_signing_key_id m) \<and>
    list_all component_ok (mf_components m)"

primrec json_ok :: "json \<Rightarrow> bool" where
  "json_ok Json_Null = True"
| "json_ok (Json_Bool b) = True"
| "json_ok (Json_Number n) = (\<exists>i. n = Json_Int i \<and> - (2 ^ 63) \<le> i \<and> i < 2 ^ 64)"
| "json_ok (Json_String s) = list_all scalar_value s"
| "json_ok (Json_Array xs) = list_all id (map json_ok xs)"
| "json_ok (Json_Object kvs) = list_all (\<lambda>kv. list_all scalar_value (fst kv) \<and> snd kv) (map (map_prod id json_ok) kvs)"

lemma scalar_low: "c < 0xD800 \<Longrightarrow> scalar_value c"
  by (simp add: scalar_value_def)

lemma lit_scalar: "list_all scalar_value (lit s)"
proof -
  have "scalar_value (of_char c)" for c :: char
    using nat_of_char_less_256 [of c] by (intro scalar_low) linarith
  then show ?thesis by (simp add: lit_def list_all_iff)
qed

lemma dec_int_scalar: "list_all scalar_value (dec_int i)"
proof -
  have "scalar_value c" if "c \<in> set (dec_digits n)" for c n
    using dec_digits_digits [OF that] by (simp add: digit_char_def scalar_low)
  then show ?thesis by (auto simp: dec_int_def list_all_iff scalar_low)
qed

lemma canonical_char_scalar: "scalar_value c \<Longrightarrow> list_all scalar_value (write_canonical_char c)"
proof -
  have "scalar_value (hex_digit d)" if "d < 16" for d using that by (simp add: hex_digit_def scalar_low)
  moreover have "c div 16 < 16" if "c < 32" using that by linarith
  ultimately show "scalar_value c \<Longrightarrow> ?thesis" by (simp add: write_canonical_char_def scalar_low)
qed

lemma canonical_string_scalar:
  assumes "list_all scalar_value s"
  shows "list_all scalar_value (write_canonical_string s)"
  using assms canonical_char_scalar by (induction s) (simp_all add: write_canonical_string_def scalar_low)

lemma comma_join_scalar: "list_all (list_all scalar_value) ss \<Longrightarrow> list_all scalar_value (comma_join ss)"
  by (induction ss rule: comma_join.induct) (simp_all add: scalar_low)

lemma write_items_total:
  assumes "\<And>x. x \<in> set xs \<Longrightarrow> \<exists>s. x = Inr s \<and> list_all scalar_value s"
  shows "\<exists>ss. write_items xs = Inr ss \<and> list_all (list_all scalar_value) ss"
  using assms
proof (induction xs)
  case (Cons x xs)
  then show ?case by (fastforce simp: sbind_eq_Inr)
qed simp

lemma plain_total: "json_ok v \<Longrightarrow> \<exists>s. write_plain v = Inr s \<and> list_all scalar_value s"
proof (induction v)
  case (Json_Array xs)
  then have "\<exists>ss. write_items (map write_plain xs) = Inr ss \<and> list_all (list_all scalar_value) ss"
    by (intro write_items_total) (auto simp: list_all_iff)
  then show ?case using comma_join_scalar by (auto simp: sbind_eq_Inr scalar_low)
next
  case (Json_Object kvs)
  have "\<exists>s. write_member (map_prod id write_plain kv) = Inr s \<and> list_all scalar_value s" if kv: "kv \<in> set kvs" for kv
  proof -
    obtain k v where p: "kv = (k, v)" by (cases kv)
    have k: "list_all scalar_value k" and "json_ok v" using Json_Object.prems kv p by (auto simp: list_all_iff)
    then obtain s where "write_plain v = Inr s" "list_all scalar_value s"
      using Json_Object.IH [OF kv, of v] p by auto
    then show ?thesis using canonical_string_scalar [OF k] by (simp add: p write_member_def scalar_low)
  qed
  then have "\<exists>ss. write_items (map write_member (map (map_prod id write_plain) kvs)) = Inr ss \<and>
      list_all (list_all scalar_value) ss"
    by (intro write_items_total) auto
  then show ?case using comma_join_scalar by (auto simp: sbind_eq_Inr scalar_low)
qed (auto simp: lit_scalar canonical_string_scalar canonical_number dec_int_scalar)

lemma json_ok_in_key_order: "json_ok (in_key_order v) = json_ok v"
proof (induction v)
  case (Json_Object kvs)
  then show ?case by (force simp: list_all_iff)
qed (auto simp: list_all_iff)

lemma uint_in_u64:
  "uint (w :: u32) < 2 ^ 64" "uint (v :: u64) < 2 ^ 64" "- (2 ^ 63) \<le> uint (w :: u32)" "- (2 ^ 63) \<le> uint (v :: u64)"
  using uint_bounded [of w] uint_bounded [of v] uint_nonnegative [of w] uint_nonnegative [of v]
  by (simp_all, linarith+)

lemma manifest_value_ok: "manifest_ok m \<Longrightarrow> json_ok (manifest_value m)"
proof -
  note u = uint_in_u64 [simplified]
  have "json_ok (role_value r)" for r by (cases r) (simp_all add: lit_scalar)
  then have "json_ok (component_value c)" if "component_ok c" for c
    using that by (simp add: component_value_def component_ok_def lit_scalar u)
  then show "manifest_ok m \<Longrightarrow> ?thesis"
    by (simp add: manifest_value_def protocol_value_def manifest_ok_def lit_scalar u)
      (auto simp: list_all_iff)
qed

lemma canonical_bytes_total:
  assumes "manifest_ok m"
  shows "\<exists>s. canonicalize (manifest_value m) = Inr s \<and> list_all scalar_value s \<and> canonical_bytes m = Inr (as_bytes s)"
  using plain_total [of "in_key_order (manifest_value m)"] manifest_value_ok [OF assms]
  by (auto simp: json_ok_in_key_order canonicalize_def write_canonical_plain canonical_bytes_def)

lemma sorted_members_lookup:
  assumes "sort_key f kvs = sort_key f lws" and "distinct (map fst kvs)" and "distinct (map fst lws)"
  shows "map_of kvs k = map_of lws k"
proof -
  have "set kvs = set lws" using assms(1) by (metis set_sort)
  then show ?thesis using map_of_inject_set [OF assms(2,3)] by simp
qed

lemma lit_eq [simp]: "lit a = lit b \<longleftrightarrow> a = b"
proof -
  have "inj (of_char :: char \<Rightarrow> nat)" by (rule injI) (metis char_of_char)
  then show ?thesis by (simp add: lit_def inj_map_eq_map)
qed

lemma role_value_inj: "role_value a = role_value b \<Longrightarrow> a = b"
  by (cases a; cases b) (simp_all add: lit_def)

lemma role_in_key_order [simp]: "in_key_order (role_value r) = role_value r"
  by (cases r) simp_all

lemma component_determined:
  assumes "in_key_order (component_value c) = in_key_order (component_value d)"
  shows "c = d"
proof -
  note same = sorted_members_lookup [OF assms [unfolded component_value_def in_key_order.simps json.inject], simplified]
  have "cp_name c = cp_name d" using same [of "lit ''name''"] by simp
  moreover have "cp_role c = cp_role d" using same [of "lit ''role''"] role_value_inj by simp
  moreover have "cp_sha256 c = cp_sha256 d" using same [of "lit ''sha256''"] by simp
  moreover have "cp_size c = cp_size d" using same [of "lit ''size''"] by (simp add: word_uint_eq_iff)
  ultimately show ?thesis by simp
qed

lemma protocol_determined:
  assumes "in_key_order (protocol_value p) = in_key_order (protocol_value q)"
  shows "p = q"
proof -
  note same = sorted_members_lookup [OF assms [unfolded protocol_value_def in_key_order.simps json.inject], simplified]
  have "pv_fec p = pv_fec q" using same [of "lit ''fec''"] by (simp add: word_uint_eq_iff)
  moreover have "pv_codes p = pv_codes q" using same [of "lit ''connection_terminated_codes''"] by (simp add: word_uint_eq_iff)
  ultimately show ?thesis by simp
qed

lemma manifest_determined:
  assumes "in_key_order (manifest_value m) = in_key_order (manifest_value n)"
  shows "m = n"
proof -
  note same = sorted_members_lookup [OF assms [unfolded manifest_value_def in_key_order.simps json.inject], simplified]
  have "mf_set_version m = mf_set_version n" using same [of "lit ''set_version''"] by simp
  moreover have "mf_protocol m = mf_protocol n" using same [of "lit ''protocol''"] protocol_determined by simp
  moreover have "mf_components m = mf_components n"
  proof -
    have "inj (\<lambda>c. in_key_order (component_value c))" by (rule injI) (rule component_determined)
    then show ?thesis using same [of "lit ''components''"] by (simp add: comp_def inj_map_eq_map)
  qed
  moreover have "mf_signing_key_id m = mf_signing_key_id n" using same [of "lit ''signing_key_id''"] by simp
  ultimately show ?thesis by simp
qed

lemma signed_bytes_determine:
  assumes "manifest_ok m" and "manifest_ok n" and "canonical_bytes m = Inr b" and "canonical_bytes n = Inr b"
  shows "m = n"
proof -
  obtain s t where s: "canonicalize (manifest_value m) = Inr s" "list_all scalar_value s" "as_bytes s = b"
    and t: "canonicalize (manifest_value n) = Inr t" "list_all scalar_value t" "as_bytes t = b"
    using canonical_bytes_total [OF assms(1)] canonical_bytes_total [OF assms(2)] assms(3,4) by auto
  have "s = t" using from_utf8_as_bytes [OF s(2)] from_utf8_as_bytes [OF t(2)] s(3) t(3) by simp
  then show ?thesis using canonical_determines s(1) t(1) manifest_determined by blast
qed

section \<open>What a verified directory holds\<close>

text \<open>The files below a node with their paths; a tree in which names are names and the file system tells siblings apart.\<close>

primrec tree_files :: "fs_node \<Rightarrow> (rust_string list \<times> bool \<times> bytes) list" where
  "tree_files (Fs_File ok content) = [([], ok, content)]"
| "tree_files (Fs_Dir ok es) = concat (map (\<lambda>e. map (\<lambda>f. (fst e # fst f, snd f)) (snd e)) (map (map_prod id tree_files) es))"

definition name_ok :: "rust_string \<Rightarrow> bool" where
  "name_ok k \<longleftrightarrow> k \<noteq> [] \<and> k \<noteq> [46] \<and> list_all (\<lambda>c. \<not> is_sep c) k"

primrec wf_tree :: "(rust_string \<Rightarrow> rust_string \<Rightarrow> bool) \<Rightarrow> fs_node \<Rightarrow> bool" where
  "wf_tree same (Fs_File ok content) = True"
| "wf_tree same (Fs_Dir ok es) = (distinct (map fst es) \<and> list_all (\<lambda>e. name_ok (fst e) \<and>
    list_all (\<lambda>d. same (fst e) (fst d) = (fst e = fst d)) es \<and> snd e) (map (map_prod id (wf_tree same)) es))"

lemma tree_files_Dir:
  "(q, f) \<in> set (tree_files (Fs_Dir ok es)) \<longleftrightarrow> (\<exists>k n p. (k, n) \<in> set es \<and> (p, f) \<in> set (tree_files n) \<and> q = k # p)"
  by force

lemma wf_tree_Dir:
  "wf_tree same (Fs_Dir ok es) \<longleftrightarrow> distinct (map fst es) \<and> (\<forall>(k, n) \<in> set es. name_ok k \<and>
    (\<forall>(l, _) \<in> set es. same k l = (k = l)) \<and> wf_tree same n)"
  by (simp add: list_all_iff case_prod_unfold)

declare tree_files.simps(2) [simp del] wf_tree.simps(2) [simp del]

lemma find_entry:
  "distinct (map fst es) \<Longrightarrow> (k, n) \<in> set es \<Longrightarrow> (\<And>l m. (l, m) \<in> set es \<Longrightarrow> same k l = (k = l)) \<Longrightarrow>
    find (\<lambda>e. same k (fst e)) es = Some (k, n)"
proof (induction es)
  case (Cons e es)
  show ?case
  proof (cases "e = (k, n)")
    case True
    then show ?thesis using Cons.prems(3) [of k n] by simp
  next
    case False
    then have "k \<noteq> fst e" using Cons.prems(1,2) by (cases e) force
    moreover have "find (\<lambda>e. same k (fst e)) es = Some (k, n)"
      by (rule Cons.IH) (use Cons.prems False in auto)
    ultimately show ?thesis using Cons.prems(3) [of "fst e" "snd e"] by simp
  qed
qed simp

lemma lookup_file:
  "wf_tree same n \<Longrightarrow> (q, ok, content) \<in> set (tree_files n) \<Longrightarrow> fs_lookup same n q = Some (Fs_File ok content)"
proof (induction n arbitrary: q)
  case (Fs_Dir r es)
  then obtain k n p where k: "(k, n) \<in> set es" "(p, ok, content) \<in> set (tree_files n)" "q = k # p"
    by (auto simp: tree_files_Dir)
  have "find (\<lambda>e. same k (fst e)) es = Some (k, n)"
    using Fs_Dir.prems(1) k(1) by (intro find_entry) (auto simp: wf_tree_Dir)
  moreover have "fs_lookup same n p = Some (Fs_File ok content)"
    using Fs_Dir.IH [OF k(1), of n p] Fs_Dir.prems(1) k by (auto simp: wf_tree_Dir)
  ultimately show ?case by (simp add: k(3))
qed simp

lemma file_path_names: "wf_tree same n \<Longrightarrow> (q, f) \<in> set (tree_files n) \<Longrightarrow> list_all name_ok q"
proof (induction n arbitrary: q)
  case (Fs_Dir r es)
  then show ?case by (fastforce simp: tree_files_Dir wf_tree_Dir)
qed simp

lemma split_on_no_sep: "list_all (\<lambda>c. \<not> p c) s \<Longrightarrow> split_on p s = [s]"
  by (induction s) simp_all

lemma split_on_append: "list_all (\<lambda>c. \<not> p c) s \<Longrightarrow> p c \<Longrightarrow> split_on p (s @ c # t) = s # split_on p t"
  by (induction s) simp_all

lemma split_join_path: "list_all name_ok q \<Longrightarrow> q \<noteq> [] \<Longrightarrow> split_on is_sep (join_path q) = q"
  by (induction q rule: join_path.induct) (simp_all add: split_on_no_sep split_on_append name_ok_def is_sep_def)

lemma split_replace_sep: "split_on is_sep (replace_sep s) = split_on is_sep s"
  by (induction s) (simp_all add: replace_sep_def is_sep_def)

lemma listed_path:
  assumes "replace_sep name = rel_path q" and "list_all name_ok q" and "q \<noteq> []"
  shows "path_parts name = q"
proof -
  have "split_on is_sep name = q"
    using assms split_join_path [of q] split_replace_sep [of name] split_replace_sep [of "join_path q"]
    by (simp add: rel_path_def)
  then show ?thesis using assms(2) by (auto simp: path_parts_def name_ok_def list_all_iff filter_id_conv)
qed

lemma walk_entries_ok:
  assumes "walk_entries listed dir es stack = Inr stack'"
  shows "set stack \<subseteq> set stack' \<and> (\<forall>(k, n) \<in> set es. case n of Fs_Dir _ _ \<Rightarrow> (dir @ [k], n) \<in> set stack'
    | Fs_File _ _ \<Rightarrow> rel_path (dir @ [k]) \<in> insert MANIFEST_FILE_NAME listed)"
  using assms
  by (induction listed dir es stack rule: walk_entries.induct) (auto simp: Let_def split: if_splits)

lemma walk_dirs_ok:
  "walk_dirs listed stack = Inr () \<Longrightarrow> (dir, n) \<in> set stack \<Longrightarrow> (q, f) \<in> set (tree_files n) \<Longrightarrow>
    rel_path (dir @ q) \<in> insert MANIFEST_FILE_NAME listed"
proof (induction listed stack arbitrary: dir n q rule: walk_dirs.induct)
  case (3 listed top ok es stack)
  then obtain stack' where stack': "ok" "walk_entries listed top es stack = Inr stack'" "walk_dirs listed stack' = Inr ()"
    by (auto split: if_splits sum.splits)
  note found = walk_entries_ok [OF stack'(2)]
  have IH: "(d, m) \<in> set stack' \<Longrightarrow> (p, f) \<in> set (tree_files m) \<Longrightarrow>
      rel_path (d @ p) \<in> insert MANIFEST_FILE_NAME listed" for d m p
    using 3(1) [OF _ stack'(2,3)] stack'(1) by simp
  show ?case
  proof (cases "(dir, n) \<in> set stack")
    case True
    then show ?thesis using IH found 3(4) by blast
  next
    case False
    then have n: "dir = top" "n = Fs_Dir ok es" using 3(3) by auto
    then obtain k m p where k: "(k, m) \<in> set es" "(p, f) \<in> set (tree_files m)" "q = k # p"
      using 3(4) by (auto simp: tree_files_Dir)
    show ?thesis
    proof (cases m)
      case (Fs_File r content)
      then show ?thesis using found k n by auto
    next
      case (Fs_Dir r ds)
      then have "(dir @ [k], m) \<in> set stack'" using found k(1) n by auto
      then show ?thesis using IH k(2,3) by fastforce
    qed
  qed
qed simp_all

lemma verified_component:
  assumes "verify_components lib fs staged cs = Inr ()" and "c \<in> set cs"
  shows "validate_component_name (cp_name c) = Inr () \<and> (\<exists>root content. staged = Some root \<and>
    fs_lookup (fs_same fs) root (path_parts (cp_name c)) = Some (Fs_File True content) \<and>
    length content = unat (cp_size c) \<and> eq_ignore_ascii_case (sha256_hex lib content) (cp_sha256 c))"
proof -
  have v: "validate_component_name (cp_name c) = Inr ()" "verify_component_file lib fs staged c = Inr ()"
    using assms by (induction cs) (auto simp: sbind_eq_Inr)
  obtain n where n: "Option.bind staged (\<lambda>root. fs_lookup (fs_same fs) root (path_parts (cp_name c))) = Some n"
    using v(2) by (cases "Option.bind staged (\<lambda>root. fs_lookup (fs_same fs) root (path_parts (cp_name c)))")
      (simp_all add: verify_component_file_def)
  then obtain root where root: "staged = Some root" "fs_lookup (fs_same fs) root (path_parts (cp_name c)) = Some n"
    by (auto simp: bind_eq_Some_conv)
  show ?thesis using v n root by (cases n) (auto simp: verify_component_file_def split: if_splits)
qed

lemma consistent_components:
  assumes "consistent_from seen cs = Inr ()" and "c \<in> set cs"
  shows "(\<forall>h n. seen (cp_name c) = Some (h, n) \<longrightarrow> cp_sha256 c = h \<and> cp_size c = n) \<and>
    (\<forall>d \<in> set cs. cp_name d = cp_name c \<longrightarrow> cp_sha256 d = cp_sha256 c \<and> cp_size d = cp_size c)"
  using assms
proof (induction cs arbitrary: seen c)
  case (Cons a cs)
  let ?seen = "seen(cp_name a \<mapsto> (cp_sha256 a, cp_size a))"
  have a: "\<forall>h n. seen (cp_name a) = Some (h, n) \<longrightarrow> cp_sha256 a = h \<and> cp_size a = n"
    and rest: "consistent_from ?seen cs = Inr ()"
    using Cons.prems(1) by (auto split: if_splits option.splits)
  have later: "cp_sha256 d = cp_sha256 a \<and> cp_size d = cp_size a" if "d \<in> set cs" "cp_name d = cp_name a" for d
    using Cons.IH [OF rest that(1)] that(2) by auto
  show ?case
  proof (cases "c = a")
    case True
    then show ?thesis using a later by auto
  next
    case False
    then have c: "c \<in> set cs" using Cons.prems(2) by simp
    note IH = Cons.IH [OF rest c]
    show ?thesis
    proof (cases "cp_name c = cp_name a")
      case True
      then show ?thesis using a later [OF c True] later by auto
    next
      case False
      then show ?thesis using IH by auto
    qed
  qed
qed simp

definition holds_component :: "update_lib \<Rightarrow> bytes \<Rightarrow> component_entry \<Rightarrow> bool" where
  "holds_component lib content c \<longleftrightarrow> length content = unat (cp_size c) \<and>
    eq_ignore_ascii_case (sha256_hex lib content) (cp_sha256 c)"

lemma verified_files:
  assumes comps: "verify_components lib fs (Some root) (mf_components (sm_manifest sm)) = Inr ()"
    and walk: "check_no_unlisted_files (Some root) sm = Inr ()" and wf: "wf_tree (fs_same fs) root"
    and f: "(path, r, content) \<in> set (tree_files root)"
  shows "rel_path path = MANIFEST_FILE_NAME \<or> (\<exists>c \<in> set (mf_components (sm_manifest sm)).
    replace_sep (cp_name c) = rel_path path \<and> holds_component lib content c)"
proof (cases "rel_path path = MANIFEST_FILE_NAME")
  case False
  let ?cs = "mf_components (sm_manifest sm)"
  have "walk_dirs ((\<lambda>c. replace_sep (cp_name c)) ` set ?cs) [([], root)] = Inr ()"
    using walk by (simp add: check_no_unlisted_files_def)
  then have "rel_path ([] @ path) \<in> insert MANIFEST_FILE_NAME ((\<lambda>c. replace_sep (cp_name c)) ` set ?cs)"
    by (rule walk_dirs_ok) (use f in simp_all)
  then obtain c where c: "c \<in> set ?cs" "replace_sep (cp_name c) = rel_path path" using False by auto
  have "path \<noteq> []" using walk f by (cases root) (auto simp: check_no_unlisted_files_def tree_files_Dir)
  then have "path_parts (cp_name c) = path" using listed_path c(2) file_path_names [OF wf f] by blast
  then have "fs_lookup (fs_same fs) root (path_parts (cp_name c)) = Some (Fs_File r content)"
    using lookup_file [OF wf f] by simp
  then have "holds_component lib content c" using verified_component [OF comps c(1)] by (auto simp: holds_component_def)
  then show ?thesis using c by blast
qed simp

lemma signature_published:
  assumes "verify_signature lib sm trust_root = Inr ()" and "manifest_ok (sm_manifest sm)"
    and sig: "\<And>b s. ed_verify lib trust_root b s \<Longrightarrow> \<exists>m \<in> published. manifest_ok m \<and> canonical_bytes m = Inr b"
  shows "sm_manifest sm \<in> published"
proof -
  obtain b s where b: "canonical_bytes (sm_manifest sm) = Inr b" "ed_verify lib trust_root b s"
    using assms(1) by (auto simp: verify_signature_def sbind_eq_Inr split: sum.splits if_splits)
  show ?thesis using sig [OF b(2)] signed_bytes_determine [OF assms(2) _ b(1)] by auto
qed

text \<open>
  What a directory that passed verification is: it belongs to the manifest, which carries this build's protocol versions. Every
  component is there, under a name that stays inside the directory, with its size and hash, the same wherever the name is
  listed; and every file there, other than the manifest, is a component with its size and hash.
\<close>

definition matches_manifest :: "update_lib \<Rightarrow> fs_view \<Rightarrow> fs_node option \<Rightarrow> protocol_versions \<Rightarrow> manifest \<Rightarrow> bool" where
  "matches_manifest lib fs staged running m \<longleftrightarrow> mf_protocol m = running \<and>
    (\<forall>c \<in> set (mf_components m). validate_component_name (cp_name c) = Inr () \<and>
      (\<exists>root content. staged = Some root \<and>
        fs_lookup (fs_same fs) root (path_parts (cp_name c)) = Some (Fs_File True content) \<and> holds_component lib content c) \<and>
      (\<forall>d \<in> set (mf_components m). cp_name d = cp_name c \<longrightarrow> cp_sha256 d = cp_sha256 c \<and> cp_size d = cp_size c)) \<and>
    (\<forall>root. staged = Some root \<longrightarrow> (\<forall>(path, _, content) \<in> set (tree_files root). rel_path path = MANIFEST_FILE_NAME \<or>
      (\<exists>c \<in> set (mf_components m). replace_sep (cp_name c) = rel_path path \<and> holds_component lib content c)))"

lemma verified_matches:
  assumes wf: "pred_option (wf_tree (fs_same fs)) staged"
    and verified: "verify_staged_set lib fs staged sm trust_root running = Inr ()"
  shows "verify_signature lib sm trust_root = Inr () \<and> matches_manifest lib fs staged running (sm_manifest sm)"
proof -
  let ?cs = "mf_components (sm_manifest sm)"
  have parts: "verify_signature lib sm trust_root = Inr ()" "check_internally_consistent (sm_manifest sm) = Inr ()"
    "check_protocol_compatible (sm_manifest sm) running = Inr ()" "verify_components lib fs staged ?cs = Inr ()"
    "check_no_unlisted_files staged sm = Inr ()"
    using verified by (auto simp: verify_staged_set_def sbind_eq_Inr)
  note component = verified_component [OF parts(4), folded holds_component_def]
  note same = consistent_components [OF parts(2) [unfolded check_internally_consistent_def], THEN conjunct2]
  have "matches_manifest lib fs staged running (sm_manifest sm)"
    unfolding matches_manifest_def
  proof (intro conjI ballI allI impI)
    show "mf_protocol (sm_manifest sm) = running"
      using parts(3) by (auto simp: check_protocol_compatible_def split: if_splits)
  next
    fix c assume "c \<in> set ?cs"
    then show "validate_component_name (cp_name c) = Inr ()" and "\<exists>root content. staged = Some root \<and>
        fs_lookup (fs_same fs) root (path_parts (cp_name c)) = Some (Fs_File True content) \<and> holds_component lib content c"
      using component by blast+
  next
    fix c d assume "c \<in> set ?cs" "d \<in> set ?cs" "cp_name d = cp_name c"
    then show "cp_sha256 d = cp_sha256 c" and "cp_size d = cp_size c" using same by blast+
  next
    fix root f assume "staged = Some root" "f \<in> set (tree_files root)"
    then show "case f of (path, _, content) \<Rightarrow> rel_path path = MANIFEST_FILE_NAME \<or>
        (\<exists>c \<in> set ?cs. replace_sep (cp_name c) = rel_path path \<and> holds_component lib content c)"
      using verified_files [of lib fs root sm] parts(4,5) wf by (cases f) auto
  qed
  then show ?thesis using parts(1) by blast
qed

text \<open>A signed manifest passes the check against the matching key.\<close>

lemma signed_manifest_verifies:
  assumes "sign_manifest lib m sk = Inr sm" and "\<And>b. hex_decode lib (hex_encode lib b) = Inr b"
    and "\<And>b. length (ed_sign lib sk b) = 64" and "\<And>b. ed_verify lib pk b (ed_sign lib sk b)"
  shows "verify_signature lib sm pk = Inr ()"
  using assms by (auto simp: sign_manifest_def verify_signature_def sbind_eq_Inr)

section \<open>What the panel shows\<close>

text \<open>
  A call of \<open>status\<close>: the fingerprint of the manifest file at that time, and how far the check in the background has come. A
  check that has ended ran \<open>verify_staged\<close> on the disk it found.
\<close>

datatype background = Bg_Done fs_view "fs_node option" manifest_read | Bg_Running | Bg_Died

record us_call =
  uc_current :: "manifest_fingerprint option"
  uc_background :: background

fun bg_recv :: "update_lib \<Rightarrow> bytes \<Rightarrow> background \<Rightarrow> check_recv" where
  "bg_recv lib trust_root (Bg_Done fs staged mread) = Recv_Result (verify_staged lib fs staged trust_root mread)"
| "bg_recv lib trust_root Bg_Running = Recv_Empty"
| "bg_recv lib trust_root Bg_Died = Recv_Disconnected"

text \<open>A run of calls, each with the fingerprint of the check in flight before it and the status it showed.\<close>

fun us_trace :: "update_lib \<Rightarrow> bytes \<Rightarrow> us_call list \<Rightarrow> update_status_cache
    \<Rightarrow> (manifest_fingerprint option \<times> us_call \<times> update_status) list" where
  "us_trace lib trust_root [] u = []"
| "us_trace lib trust_root (c # cs) u = (case us_status (uc_current c) (bg_recv lib trust_root (uc_background c)) u of
    (st, u') \<Rightarrow> (us_checking u, c, st) # us_trace lib trust_root cs u')"

text \<open>A status taken from a check: the check was in flight for the fingerprint, and its result is the status.\<close>

definition taken_from :: "update_lib \<Rightarrow> bytes \<Rightarrow> (manifest_fingerprint option \<times> us_call \<times> update_status) set
    \<Rightarrow> manifest_fingerprint \<Rightarrow> update_status \<Rightarrow> bool" where
  "taken_from lib trust_root tr fp st \<longleftrightarrow> (\<exists>(p, c, _) \<in> tr. p = Some fp \<and> bg_recv lib trust_root (uc_background c) = Recv_Result st)"

lemma taken_mono: "taken_from lib trust_root tr fp st \<Longrightarrow> tr \<subseteq> tr' \<Longrightarrow> taken_from lib trust_root tr' fp st"
  unfolding taken_from_def by blast

lemma status_taken:
  assumes inv: "case us_confirmed u of (None, st) \<Rightarrow> st = Us_Idle | (Some fp, st) \<Rightarrow> taken_from lib key tr fp st"
    and step: "us_status (uc_current c) (bg_recv lib key (uc_background c)) u = (st, u')"
    and tr': "tr' = insert (us_checking u, c, st) tr"
  shows "(case us_confirmed u' of (None, st) \<Rightarrow> st = Us_Idle | (Some fp, st) \<Rightarrow> taken_from lib key tr' fp st) \<and>
    (case uc_current c of None \<Rightarrow> st = Us_Idle | Some fp \<Rightarrow> st = Us_Checking \<or> taken_from lib key tr' fp st)"
proof -
  let ?u = "absorb_check (bg_recv lib key (uc_background c)) u"
  have "tr \<subseteq> tr'" using tr' by blast
  note mono = taken_mono [OF _ this]
  have now: "taken_from lib key tr' fp st''"
    if "us_checking u = Some fp" "bg_recv lib key (uc_background c) = Recv_Result st''" for fp st''
    using that tr' unfolding taken_from_def by blast
  have conf: "case us_confirmed ?u of (None, st) \<Rightarrow> st = Us_Idle | (Some fp, st) \<Rightarrow> taken_from lib key tr' fp st"
    using inv mono now unfolding absorb_check_def
    by (cases "us_checking u"; cases "bg_recv lib key (uc_background c)") (auto split: option.splits prod.splits)
  then show ?thesis using step
    by (auto simp: us_status_def Let_def split: option.splits if_splits prod.splits)
qed

lemma trace_taken:
  assumes "case us_confirmed u of (None, st) \<Rightarrow> st = Us_Idle | (Some fp, st) \<Rightarrow> taken_from lib key tr fp st"
    and "(p, c, st) \<in> set (us_trace lib key cs u)"
  shows "case uc_current c of None \<Rightarrow> st = Us_Idle
    | Some fp \<Rightarrow> st = Us_Checking \<or> taken_from lib key (tr \<union> set (us_trace lib key cs u)) fp st"
  using assms
proof (induction cs arbitrary: u tr)
  case (Cons c0 cs)
  obtain st0 u0 where s: "us_status (uc_current c0) (bg_recv lib key (uc_background c0)) u = (st0, u0)" by fastforce
  note S = status_taken [OF Cons.prems(1) s refl]
  let ?e = "(us_checking u, c0, st0)"
  have sub: "insert ?e tr \<subseteq> tr \<union> set (us_trace lib key (c0 # cs) u)" using s by auto
  show ?case
  proof (cases "(p, c, st) = ?e")
    case True
    then show ?thesis using conjunct2 [OF S] taken_mono [OF _ sub] by (auto split: option.splits)
  next
    case False
    then have "(p, c, st) \<in> set (us_trace lib key cs u0)" using Cons.prems(2) s by auto
    from Cons.IH [OF conjunct1 [OF S] this] have "case uc_current c of None \<Rightarrow> st = Us_Idle
      | Some fp \<Rightarrow> st = Us_Checking \<or> taken_from lib key (insert ?e tr \<union> set (us_trace lib key cs u0)) fp st" .
    moreover have "insert ?e tr \<union> set (us_trace lib key cs u0) = tr \<union> set (us_trace lib key (c0 # cs) u)" using s by auto
    ultimately show ?thesis by (simp only:)
  qed
qed simp


definition sample_manifest :: manifest where
  "sample_manifest = \<lparr>mf_set_version = lit ''1'', mf_protocol = protocol_default,
    mf_components = [\<lparr>cp_name = [100, 92, 97], cp_role = Role_Shared, cp_sha256 = lit ''AB'', cp_size = 1\<rparr>],
    mf_signing_key_id = []\<rparr>"

definition sample_lib :: update_lib where
  "sample_lib = \<lparr>ed_sign = (\<lambda>_ _. replicate 64 0), ed_verify = (\<lambda>_ b _. canonical_bytes sample_manifest = Inr b),
    hex_encode = (\<lambda>_. []), hex_decode = (\<lambda>_. Inr (replicate 64 0)), sha256_hex = (\<lambda>_. lit ''ab'')\<rparr>"

definition sample_tree :: fs_node where
  "sample_tree = Fs_Dir True [(lit ''d'', Fs_Dir True [(lit ''a'', Fs_File True [7])]), (MANIFEST_FILE_NAME, Fs_File True [])]"

definition sample_signed :: signed_manifest where
  "sample_signed = \<lparr>sm_manifest = sample_manifest, sm_signature = []\<rparr>"

lemma sample_verified:
  "verify_staged_set sample_lib \<lparr>fs_same = (=), fs_dir_len = 0\<rparr> (Some sample_tree) sample_signed [] protocol_default = Inr ()"
  by code_simp

lemma sample_ok: "manifest_ok sample_manifest" "wf_tree (=) sample_tree"
  by (simp add: manifest_ok_def component_ok_def sample_manifest_def lit_scalar scalar_low)
    (simp add: sample_tree_def wf_tree_Dir MANIFEST_FILE_NAME_def name_ok_def is_sep_def lit_def)

definition sample_calls :: "us_call list" where
  "sample_calls = [\<lparr>uc_current = Some \<lparr>fp_len = 9, fp_modified = 4\<rparr>, uc_background = Bg_Running\<rparr>,
    \<lparr>uc_current = Some \<lparr>fp_len = 9, fp_modified = 4\<rparr>,
      uc_background = Bg_Done \<lparr>fs_same = (=), fs_dir_len = 0\<rparr> (Some sample_tree) (Mf_Parsed sample_signed)\<rparr>]"


end
