(* ===== verification/Updater_Swap.thy ===== *)
theory Updater_Swap
  imports Canon_Json
begin

text \<open>
  The swap of a verified set into the install directory (\<open>tools/updater/src/swap.rs\<close>). The disk is the directories beside
  the install directory, by name, each with the set it holds, and the journal file, which a crash while it is written can
  leave unreadable. \<open>recover_if_interrupted\<close> and \<open>perform_swap\<close> are the functions without faults; \<open>swap_step\<close> runs them one
  file operation at a time, each of which may fail, be torn or be the last. Shown: at every point there is a complete set,
  installed or where the journal says, and recovery puts it in place.
\<close>

datatype swap_phase = PrevRenamed | StagedMoved

datatype journal_file = J_Absent | J_Torn | J_Entry swap_phase rust_string

datatype recovery_action = RestorePrev | NoOp

record 'a disk =
  dk_dirs :: "rust_string \<Rightarrow> 'a option"
  dk_journal :: journal_file

datatype swap_error = Swap_Io string | CorruptJournal

fun decide_recovery :: "swap_phase \<Rightarrow> bool \<Rightarrow> bool \<Rightarrow> recovery_action" where
  "decide_recovery PrevRenamed install_exists prev_exists = (if \<not> install_exists \<and> prev_exists then RestorePrev else NoOp)"
| "decide_recovery StagedMoved install_exists prev_exists = NoOp"

definition sanitize_char :: "nat \<Rightarrow> nat" where
  "sanitize_char c = (if 48 \<le> c \<and> c \<le> 57 \<or> 65 \<le> c \<and> c \<le> 90 \<or> 97 \<le> c \<and> c \<le> 122 \<or> c = 46 \<or> c = 45 \<or> c = 95
    then c else 95)"

definition sanitize_version_for_filename :: "rust_string \<Rightarrow> rust_string" where
  "sanitize_version_for_filename version = (let sanitized = map sanitize_char version in
    if list_all (\<lambda>c. c = 95) sanitized then lit ''unknown'' else sanitized)"

definition prev_path :: "rust_string \<Rightarrow> rust_string \<Rightarrow> nat \<Rightarrow> 'a disk \<Rightarrow> rust_string" where
  "prev_path install outgoing_version timestamp d = (
    let candidate = install @ lit ''.prev-'' @ sanitize_version_for_filename outgoing_version in
    if dk_dirs d candidate = None then candidate else candidate @ lit ''-'' @ dec_digits timestamp)"

text \<open>\<open>fs::rename\<close> of a directory: the source must exist and the target must not.\<close>

definition fs_rename :: "rust_string \<Rightarrow> rust_string \<Rightarrow> 'a disk \<Rightarrow> 'a disk option" where
  "fs_rename a b d = (case dk_dirs d a of None \<Rightarrow> None
    | Some x \<Rightarrow> if dk_dirs d b \<noteq> None then None else Some (d\<lparr>dk_dirs := (dk_dirs d)(a := None, b := Some x)\<rparr>))"

definition write_journal :: "swap_phase \<Rightarrow> rust_string \<Rightarrow> 'a disk \<Rightarrow> 'a disk" where
  "write_journal phase prev d = d\<lparr>dk_journal := J_Entry phase prev\<rparr>"

definition remove_journal :: "'a disk \<Rightarrow> 'a disk" where
  "remove_journal d = d\<lparr>dk_journal := J_Absent\<rparr>"

definition recover_if_interrupted :: "rust_string \<Rightarrow> 'a disk \<Rightarrow> swap_error + 'a disk" where
  "recover_if_interrupted install d = (case dk_journal d of
      J_Absent \<Rightarrow> Inr d
    | J_Torn \<Rightarrow> Inl CorruptJournal
    | J_Entry phase prev \<Rightarrow>
        if decide_recovery phase (dk_dirs d install \<noteq> None) (dk_dirs d prev \<noteq> None) = RestorePrev
        then sbind (ok_or (fs_rename prev install d) (Swap_Io ''restore previous set'')) (\<lambda>d'. Inr (remove_journal d'))
        else Inr (remove_journal d))"

text \<open>A request: the staged directory, the version going out, and the clock for \<open>prev_path\<close>.\<close>

type_synonym swap_args = "rust_string \<times> rust_string \<times> nat"

fun perform_swap :: "rust_string \<Rightarrow> swap_args \<Rightarrow> 'a disk \<Rightarrow> swap_error + 'a disk" where
  "perform_swap install (staged, outgoing_version, timestamp) d0 = sbind (recover_if_interrupted install d0) (\<lambda>d.
    let prev = prev_path install outgoing_version timestamp d;
        d1 = write_journal PrevRenamed prev d
    in sbind (if dk_dirs d1 install \<noteq> None then ok_or (fs_rename install prev d1) (Swap_Io ''rename install to prev'')
        else Inr d1) (\<lambda>d2.
    sbind (ok_or (fs_rename staged install d2) (Swap_Io ''rename staged into install'')) (\<lambda>d3.
    Inr (remove_journal (write_journal StagedMoved prev d3)))))"

section \<open>One file operation at a time\<close>

datatype swap_pc = Sw_idle | Sw_restore rust_string "swap_args option" | Sw_clear "swap_args option"
  | Sw_journal rust_string rust_string | Sw_away rust_string rust_string | Sw_in rust_string rust_string
  | Sw_moved rust_string | Sw_done

datatype io_fault = Io_ok | Io_fail | Io_torn | Io_crash

definition after_recovery :: "rust_string \<Rightarrow> swap_args option \<Rightarrow> 'a disk \<Rightarrow> swap_pc" where
  "after_recovery install args d = (case args of None \<Rightarrow> Sw_idle
    | Some (staged, outgoing_version, timestamp) \<Rightarrow> Sw_journal staged (prev_path install outgoing_version timestamp d))"

text \<open>The start of either function: it reads the journal and looks at the directories.\<close>

definition begin_swap :: "rust_string \<Rightarrow> swap_args option \<Rightarrow> 'a disk \<Rightarrow> swap_pc" where
  "begin_swap install args d = (case dk_journal d of
      J_Absent \<Rightarrow> after_recovery install args d
    | J_Torn \<Rightarrow> Sw_idle
    | J_Entry phase prev \<Rightarrow>
        if decide_recovery phase (dk_dirs d install \<noteq> None) (dk_dirs d prev \<noteq> None) = RestorePrev
        then Sw_restore prev args else Sw_clear args)"

definition rename_or_stop :: "rust_string \<Rightarrow> rust_string \<Rightarrow> swap_pc \<Rightarrow> 'a disk \<Rightarrow> swap_pc \<times> 'a disk" where
  "rename_or_stop a b pc d = (case fs_rename a b d of None \<Rightarrow> (Sw_idle, d) | Some d' \<Rightarrow> (pc, d'))"

fun swap_op :: "rust_string \<Rightarrow> swap_pc \<Rightarrow> 'a disk \<Rightarrow> swap_pc \<times> 'a disk" where
  "swap_op install Sw_idle d = (Sw_idle, d)"
| "swap_op install (Sw_restore prev args) d = rename_or_stop prev install (Sw_clear args) d"
| "swap_op install (Sw_clear args) d = (after_recovery install args (remove_journal d), remove_journal d)"
| "swap_op install (Sw_journal staged prev) d =
    (if dk_dirs d install \<noteq> None then Sw_away staged prev else Sw_in staged prev, write_journal PrevRenamed prev d)"
| "swap_op install (Sw_away staged prev) d = rename_or_stop install prev (Sw_in staged prev) d"
| "swap_op install (Sw_in staged prev) d = rename_or_stop staged install (Sw_moved prev) d"
| "swap_op install (Sw_moved prev) d = (Sw_done, write_journal StagedMoved prev d)"
| "swap_op install Sw_done d = (Sw_idle, remove_journal d)"

fun writes_journal :: "swap_pc \<Rightarrow> bool" where
  "writes_journal (Sw_journal _ _) = True"
| "writes_journal (Sw_moved _) = True"
| "writes_journal _ = False"

text \<open>A failed operation ends the call; a torn write of the journal leaves it unreadable.\<close>

fun swap_step :: "rust_string \<Rightarrow> io_fault \<Rightarrow> swap_pc \<times> 'a disk \<Rightarrow> swap_pc \<times> 'a disk" where
  "swap_step install Io_ok (pc, d) = swap_op install pc d"
| "swap_step install Io_fail (pc, d) = (Sw_idle, d)"
| "swap_step install Io_crash (pc, d) = (Sw_idle, d)"
| "swap_step install Io_torn (pc, d) = (Sw_idle, if writes_journal pc then d\<lparr>dk_journal := J_Torn\<rparr> else d)"

fun sw_staged :: "swap_args option \<Rightarrow> rust_string option" where
  "sw_staged None = None"
| "sw_staged (Some (staged, _, _)) = Some staged"

text \<open>
  The states of a machine on which a good set was installed, sets that pass verification are staged, swaps of such sets and
  recoveries run one after the other with any faults, and other directories are cleaned up while no journal is there.
\<close>

inductive swap_reach :: "rust_string \<Rightarrow> ('a \<Rightarrow> bool) \<Rightarrow> swap_pc \<times> 'a disk \<Rightarrow> bool" for install good where
  installed: "dk_dirs d install = Some x \<Longrightarrow> good x \<Longrightarrow> dk_journal d = J_Absent \<Longrightarrow> swap_reach install good (Sw_idle, d)"
| started: "swap_reach install good (Sw_idle, d) \<Longrightarrow>
    pred_option (\<lambda>staged. pred_option good (dk_dirs d staged)) (sw_staged args) \<Longrightarrow>
    swap_reach install good (begin_swap install args d, d)"
| stepped: "swap_reach install good s \<Longrightarrow> swap_reach install good (swap_step install io s)"
| staged: "swap_reach install good (Sw_idle, d) \<Longrightarrow> dk_dirs d n = None \<Longrightarrow> n \<noteq> install \<Longrightarrow>
    swap_reach install good (Sw_idle, d\<lparr>dk_dirs := (dk_dirs d)(n := Some x)\<rparr>)"
| cleaned: "swap_reach install good (Sw_idle, d) \<Longrightarrow> dk_journal d = J_Absent \<Longrightarrow> n \<noteq> install \<Longrightarrow>
    swap_reach install good (Sw_idle, d\<lparr>dk_dirs := (dk_dirs d)(n := None)\<rparr>)"

text \<open>Without faults the steps are the functions; the largest number of operations is seven.\<close>

lemma idle_steps [simp]: "(swap_step install Io_ok ^^ n) (Sw_idle, d) = (Sw_idle, d)"
  by (induction n) simp_all

lemma steps_add: "(f ^^ (m + n)) s = (f ^^ n) ((f ^^ m) s)"
  by (simp add: add.commute [of m n] funpow_add)

lemma steps_recover:
  assumes "recover_if_interrupted install d = Inr d'"
  shows "\<exists>n \<le> 2. (swap_step install Io_ok ^^ n) (begin_swap install args d, d) = (after_recovery install args d', d')"
proof (cases "dk_journal d")
  case J_Absent
  then show ?thesis using assms by (intro exI [of _ 0]) (simp add: recover_if_interrupted_def begin_swap_def)
next
  case J_Torn
  then show ?thesis using assms by (simp add: recover_if_interrupted_def)
next
  case (J_Entry phase prev)
  show ?thesis
  proof (cases "decide_recovery phase (dk_dirs d install \<noteq> None) (dk_dirs d prev \<noteq> None) = RestorePrev")
    case True
    then obtain d1 where "fs_rename prev install d = Some d1" "d' = remove_journal d1"
      using assms J_Entry by (auto simp: recover_if_interrupted_def sbind_eq_Inr ok_or_eq_Inr)
    then show ?thesis using J_Entry True
      by (intro exI [of _ 2]) (simp add: begin_swap_def rename_or_stop_def numeral_2_eq_2)
  next
    case False
    then show ?thesis using assms J_Entry
      by (intro exI [of _ 1]) (simp add: begin_swap_def recover_if_interrupted_def)
  qed
qed

lemma steps_perform:
  assumes "perform_swap install args d = Inr d'"
  shows "\<exists>n \<le> 7. (swap_step install Io_ok ^^ n) (begin_swap install (Some args) d, d) = (Sw_idle, d')"
proof -
  obtain staged v ts where args: "args = (staged, v, ts)" by (cases args)
  obtain d0 where d0: "recover_if_interrupted install d = Inr d0" using assms by (auto simp: args sbind_eq_Inr)
  obtain n where n: "n \<le> 2" "(swap_step install Io_ok ^^ n) (begin_swap install (Some args) d, d) =
      (Sw_journal staged (prev_path install v ts d0), d0)"
    using steps_recover [OF d0, of "Some args"] by (auto simp: after_recovery_def args)
  define prev where "prev = prev_path install v ts d0"
  define d1 where "d1 = write_journal PrevRenamed prev d0"
  have same: "dk_dirs d1 install = dk_dirs d0 install" by (simp add: d1_def write_journal_def)
  have "sbind (if dk_dirs d1 install \<noteq> None then ok_or (fs_rename install prev d1) (Swap_Io ''rename install to prev'')
        else Inr d1) (\<lambda>d2. sbind (ok_or (fs_rename staged install d2) (Swap_Io ''rename staged into install''))
      (\<lambda>d3. Inr (remove_journal (write_journal StagedMoved prev d3)))) = Inr d'"
    using assms d0 unfolding prev_def d1_def args by (simp add: Let_def split del: if_split)
  then obtain d2 d3 where d2: "(if dk_dirs d1 install \<noteq> None then ok_or (fs_rename install prev d1) (Swap_Io ''rename install to prev'')
        else Inr d1) = Inr d2" and d3: "fs_rename staged install d2 = Some d3"
    and d': "d' = remove_journal (write_journal StagedMoved prev d3)"
    unfolding sbind_eq_Inr ok_or_eq_Inr by blast
  have "\<exists>m \<le> 5. (swap_step install Io_ok ^^ m) (Sw_journal staged prev, d0) = (Sw_idle, d')"
  proof (cases "dk_dirs d1 install = None")
    case True
    then have "(swap_step install Io_ok ^^ 4) (Sw_journal staged prev, d0) = (Sw_idle, d')"
      using d2 d3 d' same by (simp add: d1_def rename_or_stop_def eval_nat_numeral)
    then show ?thesis by (metis nat_le_linear numeral_le_iff semiring_norm(70,72,73))
  next
    case False
    then have "fs_rename install prev d1 = Some d2" using d2 by (simp add: ok_or_eq_Inr)
    then have "(swap_step install Io_ok ^^ 5) (Sw_journal staged prev, d0) = (Sw_idle, d')"
      using d3 d' same False by (simp add: d1_def rename_or_stop_def eval_nat_numeral)
    then show ?thesis by blast
  qed
  then obtain m where "m \<le> 5" "(swap_step install Io_ok ^^ (n + m)) (begin_swap install (Some args) d, d) = (Sw_idle, d')"
    using n(2) by (auto simp: steps_add prev_def)
  then show ?thesis using n(1) by (intro exI [of _ "n + m"]) auto
qed

section \<open>Crash safety\<close>

definition installed_good :: "rust_string \<Rightarrow> ('a \<Rightarrow> bool) \<Rightarrow> 'a disk \<Rightarrow> bool" where
  "installed_good install good d \<longleftrightarrow> (\<exists>x. dk_dirs d install = Some x \<and> good x)"

definition restorable :: "rust_string \<Rightarrow> ('a \<Rightarrow> bool) \<Rightarrow> rust_string \<Rightarrow> 'a disk \<Rightarrow> bool" where
  "restorable install good prev d \<longleftrightarrow> dk_dirs d install = None \<and> dk_journal d = J_Entry PrevRenamed prev \<and>
    (\<exists>x. dk_dirs d prev = Some x \<and> good x)"

definition disk_safe :: "rust_string \<Rightarrow> ('a \<Rightarrow> bool) \<Rightarrow> 'a disk \<Rightarrow> bool" where
  "disk_safe install good d \<longleftrightarrow> installed_good install good d \<or> (\<exists>prev. restorable install good prev d)"

definition staged_good :: "('a \<Rightarrow> bool) \<Rightarrow> rust_string option \<Rightarrow> 'a disk \<Rightarrow> bool" where
  "staged_good good s d \<longleftrightarrow> pred_option (\<lambda>staged. pred_option good (dk_dirs d staged)) s"

fun swap_inv :: "rust_string \<Rightarrow> ('a \<Rightarrow> bool) \<Rightarrow> swap_pc \<times> 'a disk \<Rightarrow> bool" where
  "swap_inv install good (Sw_idle, d) = disk_safe install good d"
| "swap_inv install good (Sw_restore prev args, d) = (restorable install good prev d \<and> staged_good good (sw_staged args) d)"
| "swap_inv install good (Sw_clear args, d) = (installed_good install good d \<and> staged_good good (sw_staged args) d)"
| "swap_inv install good (Sw_journal staged prev, d) = (installed_good install good d \<and> staged_good good (Some staged) d)"
| "swap_inv install good (Sw_away staged prev, d) = (installed_good install good d \<and> staged_good good (Some staged) d \<and>
    dk_journal d = J_Entry PrevRenamed prev)"
| "swap_inv install good (Sw_in staged prev, d) = (restorable install good prev d \<and> staged_good good (Some staged) d)"
| "swap_inv install good (Sw_moved prev, d) = installed_good install good d"
| "swap_inv install good (Sw_done, d) = installed_good install good d"

lemmas swap_defs = installed_good_def restorable_def disk_safe_def staged_good_def fs_rename_def rename_or_stop_def
  write_journal_def remove_journal_def

lemma inv_disk_safe: "swap_inv install good (pc, d) \<Longrightarrow> disk_safe install good d"
  by (cases pc) (auto simp: disk_safe_def)

lemma after_recovery_inv:
  "installed_good install good d \<Longrightarrow> staged_good good (sw_staged args) d \<Longrightarrow>
    swap_inv install good (after_recovery install args d, d)"
  by (cases args) (auto simp: after_recovery_def disk_safe_def)

lemma begin_inv:
  assumes "disk_safe install good d" and "staged_good good (sw_staged args) d"
  shows "swap_inv install good (begin_swap install args d, d)"
proof (cases "dk_journal d")
  case J_Absent
  then have "installed_good install good d" using assms(1) by (auto simp: disk_safe_def restorable_def)
  then show ?thesis using after_recovery_inv assms(2) J_Absent by (simp add: begin_swap_def)
next
  case J_Torn
  then show ?thesis using assms(1) by (simp add: begin_swap_def)
next
  case (J_Entry phase prev)
  then show ?thesis using assms
    by (cases phase) (auto simp: begin_swap_def disk_safe_def restorable_def installed_good_def)
qed

lemma op_inv: "swap_inv install good (pc, d) \<Longrightarrow> swap_inv install good (swap_op install pc d)"
proof (cases pc)
  case (Sw_clear args)
  assume "swap_inv install good (pc, d)"
  then have "installed_good install good (remove_journal d) \<and> staged_good good (sw_staged args) (remove_journal d)"
    by (simp add: Sw_clear swap_defs)
  then show ?thesis by (simp add: Sw_clear after_recovery_inv)
qed (auto simp: swap_defs option.pred_set split: option.splits)

lemma step_inv: "swap_inv install good s \<Longrightarrow> swap_inv install good (swap_step install io s)"
proof -
  assume inv: "swap_inv install good s"
  obtain pc d where s: "s = (pc, d)" by (cases s)
  have safe: "disk_safe install good d" using inv inv_disk_safe s by blast
  have torn: "disk_safe install good (d\<lparr>dk_journal := J_Torn\<rparr>)" if "writes_journal pc"
    using inv that by (cases pc) (auto simp: s disk_safe_def installed_good_def)
  show ?thesis using inv op_inv safe torn by (cases io) (simp_all add: s)
qed

lemma reach_inv: "swap_reach install good s \<Longrightarrow> swap_inv install good s"
proof (induction rule: swap_reach.induct)
  case (started d args)
  then show ?case using begin_inv by (simp add: staged_good_def)
next
  case (stepped s io)
  show ?case using stepped.IH by (rule step_inv)
qed (auto simp: disk_safe_def installed_good_def restorable_def)

lemma recover_safe:
  assumes "disk_safe install good d"
  shows "case recover_if_interrupted install d of
      Inr d' \<Rightarrow> installed_good install good d' \<and> dk_journal d' = J_Absent
    | Inl e \<Rightarrow> e = CorruptJournal \<and> dk_journal d = J_Torn \<and> installed_good install good d"
proof (cases "dk_journal d")
  case (J_Entry phase prev)
  then show ?thesis using assms by (cases phase) (auto simp: recover_if_interrupted_def swap_defs)
qed (use assms in \<open>auto simp: recover_if_interrupted_def disk_safe_def restorable_def\<close>)

text \<open>
  C34. Whatever operations fail, are torn or are cut off by a crash, in any sequence of swaps and recoveries: a good set is
  installed, or the journal names the directory that holds one; recovery then leaves a good set installed and no journal,
  and the only journal it refuses is one torn by a crash, with a good set in place.
\<close>

theorem swap_crash_safe:
  assumes "swap_reach install good (pc, d)"
  shows "((\<exists>x. dk_dirs d install = Some x \<and> good x) \<or>
      (\<exists>prev x. dk_journal d = J_Entry PrevRenamed prev \<and> dk_dirs d prev = Some x \<and> good x)) \<and>
    (case recover_if_interrupted install d of
      Inr d' \<Rightarrow> (\<exists>x. dk_dirs d' install = Some x \<and> good x) \<and> dk_journal d' = J_Absent
    | Inl e \<Rightarrow> e = CorruptJournal \<and> dk_journal d = J_Torn \<and> (\<exists>x. dk_dirs d install = Some x \<and> good x))"
proof -
  have safe: "disk_safe install good d" using assms reach_inv inv_disk_safe by blast
  then show ?thesis using recover_safe [OF safe]
    by (auto simp: disk_safe_def installed_good_def restorable_def split: sum.splits)
qed

text \<open>A swap cut off between its two renames.\<close>

definition sample_disk :: "nat disk" where
  "sample_disk = \<lparr>dk_dirs = [lit ''app'' \<mapsto> 1, lit ''staged'' \<mapsto> 2], dk_journal = J_Absent\<rparr>"

definition sample_request :: swap_args where
  "sample_request = (lit ''staged'', lit ''1/2'', 5)"

fun swap_steps :: "rust_string \<Rightarrow> io_fault list \<Rightarrow> swap_pc \<times> 'a disk \<Rightarrow> swap_pc \<times> 'a disk" where
  "swap_steps install [] s = s"
| "swap_steps install (io # ios) s = swap_steps install ios (swap_step install io s)"

lemma swap_steps_reach: "swap_reach install good s \<Longrightarrow> swap_reach install good (swap_steps install ios s)"
  by (induction ios arbitrary: s) (simp_all add: swap_reach.stepped)

lemma sample_reach:
  "swap_reach (lit ''app'') (\<lambda>x. x < 3) (swap_steps (lit ''app'') ios
    (begin_swap (lit ''app'') (Some sample_request) sample_disk, sample_disk))"
proof (intro swap_steps_reach swap_reach.started swap_reach.installed [where x = 1])
  show "pred_option (\<lambda>staged. pred_option (\<lambda>x. x < 3) (dk_dirs sample_disk staged)) (sw_staged (Some sample_request))"
    by (simp add: sample_request_def sample_disk_def)
qed (simp_all add: sample_disk_def lit_def)

definition interrupted :: "nat disk" where
  "interrupted = snd (swap_steps (lit ''app'') [Io_ok, Io_ok, Io_crash]
    (begin_swap (lit ''app'') (Some sample_request) sample_disk, sample_disk))"

theorem swap_crash_safe_witness:
  "dk_dirs interrupted (lit ''app'') = None \<and>
    (case recover_if_interrupted (lit ''app'') interrupted of
      Inr d' \<Rightarrow> (\<exists>x. dk_dirs d' (lit ''app'') = Some x \<and> x < 3) \<and> dk_journal d' = J_Absent
    | Inl e \<Rightarrow> e = CorruptJournal \<and> dk_journal interrupted = J_Torn \<and> (\<exists>x. dk_dirs interrupted (lit ''app'') = Some x \<and> x < 3))"
proof -
  have "dk_dirs interrupted (lit ''app'') = None" by code_simp
  then show ?thesis
    using swap_crash_safe [of "lit ''app''" "\<lambda>x. x < 3" "fst (swap_steps (lit ''app'') [Io_ok, Io_ok, Io_crash]
        (begin_swap (lit ''app'') (Some sample_request) sample_disk, sample_disk))" interrupted]
      sample_reach [of "[Io_ok, Io_ok, Io_crash]"]
    by (simp add: interrupted_def)
qed

text \<open>
  A swap without faults of a staged directory over an installed set leaves the staged set installed, the old one
  under the name with its version, and no journal.
\<close>

theorem swap_installs:
  assumes "dk_dirs d install = Some old" and "dk_dirs d staged = Some new" and "staged \<noteq> install"
    and "dk_journal d = J_Absent" and "prev = prev_path install version timestamp d" and "dk_dirs d prev = None"
  shows "perform_swap install (staged, version, timestamp) d =
    Inr (d\<lparr>dk_dirs := (dk_dirs d)(staged := None, prev := Some old, install := Some new)\<rparr>)"
proof -
  have ne: "prev \<noteq> install" "prev \<noteq> staged" using assms(1,2,6) by auto
  have rec: "recover_if_interrupted install d = Inr d" using assms(4) by (simp add: recover_if_interrupted_def)
  define d1 where "d1 = write_journal PrevRenamed prev d"
  let ?d2 = "d1\<lparr>dk_dirs := (dk_dirs d)(install := None, prev := Some old)\<rparr>"
  let ?d3 = "d1\<lparr>dk_dirs := (dk_dirs d)(staged := None, prev := Some old, install := Some new)\<rparr>"
  have away: "fs_rename install prev d1 = Some ?d2" and present: "dk_dirs d1 install \<noteq> None"
    using assms(1,6) by (simp_all add: d1_def write_journal_def fs_rename_def)
  have moved: "fs_rename staged install ?d2 = Some ?d3"
    using assms(2,3) ne by (auto simp: fs_rename_def fun_upd_def fun_eq_iff)
  have "remove_journal (write_journal StagedMoved prev ?d3) =
      d\<lparr>dk_dirs := (dk_dirs d)(staged := None, prev := Some old, install := Some new)\<rparr>"
    using assms(4) by (simp add: d1_def write_journal_def remove_journal_def)
  then show ?thesis
    unfolding perform_swap.simps rec sbind_Inr Let_def assms(5) [symmetric] d1_def [symmetric] if_P [OF present] away
      ok_or_simps moved by simp
qed

text \<open>Later calls, each a recovery or a swap with its own faults.\<close>

fun swap_attempts :: "rust_string \<Rightarrow> (swap_args option \<times> io_fault list) list \<Rightarrow> 'a disk \<Rightarrow> 'a disk" where
  "swap_attempts install [] d = d"
| "swap_attempts install ((args, ios) # as) d = swap_attempts install as (snd (swap_steps install ios (begin_swap install args d, d)))"

lemma idle_stays: "swap_steps install ios (Sw_idle, d) = (Sw_idle, d)"
proof (induction ios)
  case (Cons io ios)
  then show ?case by (cases io) simp_all
qed simp

text \<open>
  A crash while the journal is written never costs the installed set, whichever of the two writes it is; but no later recovery or
  swap gets past the torn journal: every one of them is refused and leaves the disk as it is.
\<close>

theorem torn_journal_blocks:
  assumes "swap_reach install good (pc, d)" and "writes_journal pc"
  shows "\<exists>d'. swap_step install Io_torn (pc, d) = (Sw_idle, d') \<and> dk_dirs d' = dk_dirs d \<and> installed_good install good d' \<and>
    recover_if_interrupted install d' = Inl CorruptJournal \<and> perform_swap install args d' = Inl CorruptJournal \<and>
    swap_attempts install attempts d' = d'"
proof -
  let ?d = "d\<lparr>dk_journal := J_Torn\<rparr>"
  have "installed_good install good d" using reach_inv [OF assms(1)] assms(2) by (cases pc) simp_all
  then have good: "installed_good install good ?d" by (simp add: installed_good_def)
  have rec: "recover_if_interrupted install ?d = Inl CorruptJournal" by (simp add: recover_if_interrupted_def)
  have "begin_swap install as ?d = Sw_idle" for as by (simp add: begin_swap_def)
  then have "swap_attempts install attempts ?d = ?d" by (induction attempts) (auto simp: idle_stays)
  then show ?thesis using assms(2) good rec by (cases args) (simp add: exI [of _ ?d])
qed

end
