(* ===== verification/Input_Broker.thy ===== *)
theory Input_Broker
  imports Desktop_Control
begin

text \<open>
  The keyboard broker (\<open>input-broker/src/protocol.rs\<close> and the client loop of \<open>main.rs\<close>): the pipe format, the capture state,
  and \<open>serve_client\<close> one iteration at a time. What the pipe and the driver answer are inputs of an iteration. Shown: the batch
  format is exact in both directions, and a client is sent the events of its capture with no event missing, repeated or
  from another capture.
\<close>

section \<open>Format\<close>

definition VERSION :: u16 where "VERSION = 1"
definition PIPE_MAGIC :: bytes where "PIPE_MAGIC = [0x42, 0x50, 0x4B, 0x31]"
definition MAX_PAYLOAD :: nat where "MAX_PAYLOAD = 64 * 1024"
definition EVENT_SIZE :: nat where "EVENT_SIZE = 32"
definition BATCH_PREFIX_SIZE :: nat where "BATCH_PREFIX_SIZE = 8"

datatype message_kind = Mk_Arm | Mk_Disarm | Mk_Events | Mk_Status

datatype protocol_error = Pe_Truncated | Pe_BadMagic | Pe_VersionMismatch | Pe_UnknownKind | Pe_PayloadTooLarge
  | Pe_MalformedBatch | Pe_SequenceGap | Pe_AlreadyConnected | Pe_NotOwner | Pe_NotArmed | Pe_NonceMismatch

fun kind_code :: "message_kind \<Rightarrow> u16" where
  "kind_code Mk_Arm = 1" | "kind_code Mk_Disarm = 2" | "kind_code Mk_Events = 3" | "kind_code Mk_Status = 4"

definition kind_try_from :: "u16 \<Rightarrow> protocol_error + message_kind" where
  "kind_try_from v = (if v = 1 then Inr Mk_Arm else if v = 2 then Inr Mk_Disarm else if v = 3 then Inr Mk_Events
    else if v = 4 then Inr Mk_Status else Inl Pe_UnknownKind)"

record broker_header =
  bh_kind :: message_kind
  bh_payload_len :: u32

record key_event =
  ke_kind :: u16
  ke_sequence :: u32
  ke_nonce :: u64
  ke_make_code :: u16
  ke_flags :: u16
  ke_extra_information :: u32
  ke_interrupt_time_100ns :: u64

record key_batch =
  kb_dropped :: u32
  kb_events :: "key_event list"

definition encode_header :: "message_kind \<Rightarrow> nat \<Rightarrow> protocol_error + bytes" where
  "encode_header kind payload_len = (if payload_len > MAX_PAYLOAD then Inl Pe_PayloadTooLarge
    else Inr (PIPE_MAGIC @ le16 VERSION @ le16 (kind_code kind) @ le32 (of_nat payload_len)))"

definition decode_header :: "bytes \<Rightarrow> protocol_error + broker_header" where
  "decode_header bs = (if length bs \<noteq> 12 then Inl Pe_Truncated
    else if take 4 bs \<noteq> PIPE_MAGIC then Inl Pe_BadMagic
    else if u16_of (bs ! 4) (bs ! 5) \<noteq> VERSION then Inl Pe_VersionMismatch
    else let payload_len = u32_of (bs ! 8) (bs ! 9) (bs ! 10) (bs ! 11) in
      if unat payload_len > MAX_PAYLOAD then Inl Pe_PayloadTooLarge
      else sbind (kind_try_from (u16_of (bs ! 6) (bs ! 7))) (\<lambda>kind. Inr \<lparr>bh_kind = kind, bh_payload_len = payload_len\<rparr>))"

definition decode_event :: "bytes \<Rightarrow> protocol_error + key_event" where
  "decode_event c = (if u16_of (c ! 0) (c ! 1) \<noteq> VERSION then Inl Pe_VersionMismatch
    else Inr \<lparr>ke_kind = u16_of (c ! 2) (c ! 3),
      ke_sequence = u32_of (c ! 4) (c ! 5) (c ! 6) (c ! 7),
      ke_nonce = u64_of (c ! 8) (c ! 9) (c ! 10) (c ! 11) (c ! 12) (c ! 13) (c ! 14) (c ! 15),
      ke_make_code = u16_of (c ! 16) (c ! 17),
      ke_flags = u16_of (c ! 18) (c ! 19),
      ke_extra_information = u32_of (c ! 20) (c ! 21) (c ! 22) (c ! 23),
      ke_interrupt_time_100ns = u64_of (c ! 24) (c ! 25) (c ! 26) (c ! 27) (c ! 28) (c ! 29) (c ! 30) (c ! 31)\<rparr>)"

fun decode_events :: "bytes list \<Rightarrow> protocol_error + key_event list" where
  "decode_events [] = Inr []"
| "decode_events (c # cs) = sbind (decode_event c) (\<lambda>e. sbind (decode_events cs) (\<lambda>es. Inr (e # es)))"

text \<open>\<open>usize\<close> has 64 bits, so that the checked products do not overflow.\<close>

definition decode_batch :: "bytes \<Rightarrow> protocol_error + key_batch" where
  "decode_batch bs = (if length bs < BATCH_PREFIX_SIZE then Inl Pe_MalformedBatch
    else let count = unat (u32_of (bs ! 0) (bs ! 1) (bs ! 2) (bs ! 3));
        dropped = u32_of (bs ! 4) (bs ! 5) (bs ! 6) (bs ! 7);
        expected = BATCH_PREFIX_SIZE + count * EVENT_SIZE
      in if length bs \<noteq> expected \<or> length bs > MAX_PAYLOAD then Inl Pe_MalformedBatch
      else sbind (decode_events (chunks EVENT_SIZE (drop BATCH_PREFIX_SIZE bs)))
        (\<lambda>es. Inr \<lparr>kb_dropped = dropped, kb_events = es\<rparr>))"

definition event_bytes :: "key_event \<Rightarrow> bytes" where
  "event_bytes e = le16 VERSION @ le16 (ke_kind e) @ le32 (ke_sequence e) @ le64 (ke_nonce e) @ le16 (ke_make_code e) @
    le16 (ke_flags e) @ le32 (ke_extra_information e) @ le64 (ke_interrupt_time_100ns e)"

definition encode_batch :: "key_batch \<Rightarrow> protocol_error + bytes" where
  "encode_batch b = (if BATCH_PREFIX_SIZE + length (kb_events b) * EVENT_SIZE > MAX_PAYLOAD then Inl Pe_PayloadTooLarge
    else Inr (le32 (of_nat (length (kb_events b))) @ le32 (kb_dropped b) @ concat (map event_bytes (kb_events b))))"

section \<open>Capture state\<close>

record capture_state =
  cs_owner :: "u64 option"
  cs_armed :: bool
  cs_last_sequence :: "u32 option"
  cs_nonce :: "u64 option"

definition capture_default :: capture_state where
  "capture_default = \<lparr>cs_owner = None, cs_armed = False, cs_last_sequence = None, cs_nonce = None\<rparr>"

definition cs_fail_closed :: "capture_state \<Rightarrow> capture_state" where
  "cs_fail_closed s = s\<lparr>cs_armed := False, cs_last_sequence := None, cs_nonce := None\<rparr>"

definition cs_connect :: "u64 \<Rightarrow> capture_state \<Rightarrow> (protocol_error + unit) \<times> capture_state" where
  "cs_connect client s = (if cs_owner s \<noteq> None then (Inl Pe_AlreadyConnected, s)
    else (Inr (), cs_fail_closed (s\<lparr>cs_owner := Some client\<rparr>)))"

definition require_owner :: "u64 \<Rightarrow> capture_state \<Rightarrow> protocol_error + unit" where
  "require_owner client s = (if cs_owner s = Some client then Inr () else Inl Pe_NotOwner)"

definition cs_arm :: "u64 \<Rightarrow> u64 \<Rightarrow> capture_state \<Rightarrow> (protocol_error + unit) \<times> capture_state" where
  "cs_arm client nonce s = (case require_owner client s of Inl e \<Rightarrow> (Inl e, s)
    | Inr _ \<Rightarrow> (Inr (), s\<lparr>cs_armed := True, cs_last_sequence := None, cs_nonce := Some nonce\<rparr>))"

definition cs_disarm :: "u64 \<Rightarrow> capture_state \<Rightarrow> (protocol_error + unit) \<times> capture_state" where
  "cs_disarm client s = (case require_owner client s of Inl e \<Rightarrow> (Inl e, s) | Inr _ \<Rightarrow> (Inr (), cs_fail_closed s))"

definition cs_disconnect :: "u64 \<Rightarrow> capture_state \<Rightarrow> (protocol_error + unit) \<times> capture_state" where
  "cs_disconnect client s = (case require_owner client s of Inl e \<Rightarrow> (Inl e, s)
    | Inr _ \<Rightarrow> (Inr (), cs_fail_closed (s\<lparr>cs_owner := None\<rparr>)))"

definition cs_is_armed :: "capture_state \<Rightarrow> bool" where
  "cs_is_armed s \<longleftrightarrow> cs_owner s \<noteq> None \<and> cs_armed s"

fun observe_events :: "key_event list \<Rightarrow> capture_state \<Rightarrow> (protocol_error + unit) \<times> capture_state" where
  "observe_events [] s = (Inr (), s)"
| "observe_events (e # es) s = (
    if Some (ke_nonce e) \<noteq> cs_nonce s then (Inl Pe_NonceMismatch, cs_fail_closed s)
    else if cs_last_sequence s = None \<and> ke_sequence e \<noteq> 1 then (Inl Pe_SequenceGap, cs_fail_closed s)
    else if (case cs_last_sequence s of None \<Rightarrow> False | Some last_seq \<Rightarrow> ke_sequence e \<noteq> last_seq + 1)
    then (Inl Pe_SequenceGap, cs_fail_closed s)
    else observe_events es (s\<lparr>cs_last_sequence := Some (ke_sequence e)\<rparr>))"

definition observe_batch :: "u64 \<Rightarrow> key_batch \<Rightarrow> capture_state \<Rightarrow> (protocol_error + unit) \<times> capture_state" where
  "observe_batch client b s = (case require_owner client s of Inl e \<Rightarrow> (Inl e, s)
    | Inr _ \<Rightarrow> if \<not> cs_armed s then (Inl Pe_NotArmed, s)
      else if kb_dropped b \<noteq> 0 then (Inl Pe_SequenceGap, cs_fail_closed s)
      else observe_events (kb_events b) s)"

section \<open>Serving a client\<close>

text \<open>
  The inputs of one iteration: whether the session is still current; the message on the pipe, if one is complete, or an error;
  the nonce the driver starts a capture with; whether disarming and the two writes succeed (a write that fails is followed by the end of the connection); whether the lease is due and its
  refresh succeeds; and the batch read from the driver.
\<close>

datatype pipe_input = Pipe_Error | Pipe_Nothing | Pipe_Message message_kind bytes

record broker_input =
  bi_current :: bool
  bi_pipe :: pipe_input
  bi_begin :: "u64 option"
  bi_disarm_ok :: bool
  bi_refresh_due :: bool
  bi_refresh_ok :: bool
  bi_batch :: "key_batch option"
  bi_status_ok :: bool
  bi_write_ok :: bool

text \<open>What is written to the pipe, kind and payload. The result is the state after the iteration, or \<open>None\<close> when it returns.\<close>

type_synonym broker_out = "(message_kind \<times> bytes) list"

definition serve_control :: "u64 \<Rightarrow> broker_input \<Rightarrow> capture_state \<Rightarrow> capture_state option \<times> broker_out" where
  "serve_control client i s = (case bi_pipe i of
      Pipe_Error \<Rightarrow> (None, [])
    | Pipe_Nothing \<Rightarrow> (Some s, [])
    | Pipe_Message kind payload \<Rightarrow>
        if kind = Mk_Arm \<and> payload = [] then (case bi_begin i of None \<Rightarrow> (None, [])
          | Some nonce \<Rightarrow> (case cs_arm client nonce s of (Inl _, _) \<Rightarrow> (None, [])
            | (Inr _, s') \<Rightarrow> if bi_status_ok i then (Some s', [(Mk_Status, [1])]) else (None, [])))
        else if kind = Mk_Disarm \<and> payload = [] then (case cs_disarm client s of (Inl _, _) \<Rightarrow> (None, [])
          | (Inr _, s') \<Rightarrow> if bi_disarm_ok i \<and> bi_status_ok i then (Some s', [(Mk_Status, [0])]) else (None, []))
        else (None, []))"

definition serve_events :: "u64 \<Rightarrow> broker_input \<Rightarrow> capture_state \<Rightarrow> capture_state option \<times> broker_out" where
  "serve_events client i s = (
    if \<not> cs_is_armed s then (Some s, [])
    else if bi_refresh_due i \<and> \<not> bi_refresh_ok i then (None, [])
    else case bi_batch i of None \<Rightarrow> (None, [])
      | Some b \<Rightarrow> if kb_events b = [] \<and> kb_dropped b = 0 then (Some s, [])
        else case observe_batch client b s of (Inl _, _) \<Rightarrow> (None, [])
          | (Inr _, s') \<Rightarrow> (case encode_batch b of Inl _ \<Rightarrow> (None, [])
            | Inr payload \<Rightarrow> if bi_write_ok i then (Some s', [(Mk_Events, payload)]) else (None, [])))"

definition serve_step :: "u64 \<Rightarrow> broker_input \<Rightarrow> capture_state \<Rightarrow> capture_state option \<times> broker_out" where
  "serve_step client i s = (if \<not> bi_current i then (None, [])
    else case serve_control client i s of (None, out) \<Rightarrow> (None, out)
      | (Some s1, out1) \<Rightarrow> (case serve_events client i s1 of (r, out2) \<Rightarrow> (r, out1 @ out2)))"

fun serve_loop :: "u64 \<Rightarrow> broker_input list \<Rightarrow> capture_state \<Rightarrow> broker_out" where
  "serve_loop client [] s = []"
| "serve_loop client (i # is) s = (case serve_step client i s of (None, out) \<Rightarrow> out
    | (Some s', out) \<Rightarrow> out @ serve_loop client is s')"

definition serve_client :: "broker_input list \<Rightarrow> broker_out" where
  "serve_client is = serve_loop 1 is (snd (cs_connect 1 capture_default))"

section \<open>The format is exact\<close>

lemma ucast_u64_of [simp]:
  "ucast (u64_of a b c d e f g h) = a" "ucast (drop_bit 8 (u64_of a b c d e f g h)) = b"
  "ucast (drop_bit 16 (u64_of a b c d e f g h)) = c" "ucast (drop_bit 24 (u64_of a b c d e f g h)) = d"
  "ucast (drop_bit 32 (u64_of a b c d e f g h)) = e" "ucast (drop_bit 40 (u64_of a b c d e f g h)) = f"
  "ucast (drop_bit 48 (u64_of a b c d e f g h)) = g" "ucast (drop_bit 56 (u64_of a b c d e f g h)) = h"
  by (rule bit_word_eqI, auto simp: u64_of_def bit_simps dest: bit_imp_le_length; fail)+

lemma length_event_bytes: "length (event_bytes e) = EVENT_SIZE"
  by (simp add: event_bytes_def EVENT_SIZE_def le64_def)

lemma decode_event_bytes: "decode_event (event_bytes e) = Inr e"
  by (simp add: decode_event_def event_bytes_def le16_def le32_def le64_def)

lemma decode_event_exact:
  assumes "length c = EVENT_SIZE" and "decode_event c = Inr e"
  shows "c = event_bytes e"
proof -
  have "c = map ((!) c) [0..<32]" using assms(1) map_nth [of c] by (simp add: EVENT_SIZE_def)
  also have "\<dots> = event_bytes e"
  proof -
    have v: "VERSION = u16_of (c ! 0) (c ! 1)" using assms(2) by (simp add: decode_event_def split: if_splits)
    have "[0..<32] = [0, 1, 2, 3, 4, 5, 6, 7, 8, 9, 10, 11, 12, 13, 14, 15, 16, 17, 18, 19, 20, 21, 22, 23, 24, 25, 26, 27, 28, 29, 30, 31]"
      by (simp add: upt_rec)
    then show ?thesis using assms(2)
      by (auto simp: decode_event_def event_bytes_def v le16_def le32_def le64_def split: if_splits)
  qed
  finally show ?thesis .
qed

lemma decode_events_bytes: "decode_events (map event_bytes es) = Inr es"
  by (induction es) (simp_all add: decode_event_bytes)

lemma decode_events_exact:
  "(\<And>c. c \<in> set cs \<Longrightarrow> length c = EVENT_SIZE) \<Longrightarrow> decode_events cs = Inr es \<Longrightarrow> cs = map event_bytes es"
  by (induction cs arbitrary: es) (auto simp: sbind_eq_Inr decode_event_exact)

lemma chunks_event_bytes: "chunks EVENT_SIZE (concat (map event_bytes es)) = map event_bytes es"
  by (induction es) (simp_all add: chunks_rec length_event_bytes [unfolded EVENT_SIZE_def] EVENT_SIZE_def
      flip: length_greater_0_conv)

lemma encode_decoded:
  assumes "decode_batch bs = Inr b"
  shows "encode_batch b = Inr bs"
proof -
  define n where "n = unat (u32_of (bs ! 0) (bs ! 1) (bs ! 2) (bs ! 3))"
  obtain es where es: "decode_events (chunks EVENT_SIZE (drop 8 bs)) = Inr es"
    "b = \<lparr>kb_dropped = u32_of (bs ! 4) (bs ! 5) (bs ! 6) (bs ! 7), kb_events = es\<rparr>"
    and len: "length bs = 8 + n * 32" "length bs \<le> MAX_PAYLOAD"
    using assms by (auto simp: decode_batch_def Let_def n_def BATCH_PREFIX_SIZE_def EVENT_SIZE_def sbind_eq_Inr split: if_splits)
  have sizes: "length c = EVENT_SIZE" if c: "c \<in> set (chunks EVENT_SIZE (drop 8 bs))" for c
  proof -
    obtain i where i: "i < length (chunks EVENT_SIZE (drop 8 bs))" "c = chunks EVENT_SIZE (drop 8 bs) ! i"
      using c by (auto simp: in_set_conv_nth)
    have "i < n" using i(1) len(1) by (simp add: length_chunks EVENT_SIZE_def div_ceil_def)
    then show ?thesis using i len(1) by (simp add: chunks_nth EVENT_SIZE_def)
  qed
  have chunks: "chunks EVENT_SIZE (drop 8 bs) = map event_bytes es" by (rule decode_events_exact [OF sizes es(1)])
  have body: "drop 8 bs = concat (map event_bytes es)"
    using concat_chunks [of EVENT_SIZE "drop 8 bs"] chunks by (simp add: EVENT_SIZE_def)
  have "length (drop 8 bs) = 32 * length es"
    unfolding body using length_event_bytes by (simp add: length_concat comp_def EVENT_SIZE_def sum_list_triv)
  then have n: "length es = n" using len(1) by simp
  have "take 8 bs = map ((!) (take 8 bs)) [0..<8]" using map_nth [of "take 8 bs"] len(1) by simp
  also have "[0..<8] = [0, 1, 2, 3, 4, 5, 6, 7]" by (simp add: upt_rec)
  finally have "take 8 bs = le32 (of_nat n) @ le32 (kb_dropped b)" by (simp add: n_def es(2) le32_def)
  then have "bs = (le32 (of_nat (length es)) @ le32 (kb_dropped b)) @ concat (map event_bytes es)"
    using append_take_drop_id [of 8 bs] body n by metis
  then show ?thesis
    using len n es(2) by (simp add: encode_batch_def BATCH_PREFIX_SIZE_def EVENT_SIZE_def)
qed

lemma decode_encoded:
  assumes "encode_batch b = Inr bs"
  shows "decode_batch bs = Inr b"
proof -
  let ?es = "kb_events b"
  have len: "8 + length ?es * 32 \<le> MAX_PAYLOAD"
    and bs: "bs = le32 (of_nat (length ?es)) @ le32 (kb_dropped b) @ concat (map event_bytes ?es)"
    using assms by (auto simp: encode_batch_def BATCH_PREFIX_SIZE_def EVENT_SIZE_def split: if_splits)
  have count: "unat (of_nat (length ?es) :: u32) = length ?es"
    using len by (simp add: unat_of_nat MAX_PAYLOAD_def)
  have "length bs = 8 + length ?es * 32"
    using length_event_bytes by (simp add: bs length_concat comp_def EVENT_SIZE_def sum_list_triv)
  moreover have "u32_of (bs ! 0) (bs ! 1) (bs ! 2) (bs ! 3) = of_nat (length ?es)"
    "u32_of (bs ! 4) (bs ! 5) (bs ! 6) (bs ! 7) = kb_dropped b" "drop 8 bs = concat (map event_bytes ?es)"
    by (simp_all add: bs le32_def)
  ultimately show ?thesis
    using len count
    by (simp add: decode_batch_def Let_def BATCH_PREFIX_SIZE_def EVENT_SIZE_def
        chunks_event_bytes [unfolded EVENT_SIZE_def] decode_events_bytes)
qed

text \<open>
  C37. A buffer is decoded to a batch exactly when it is what the encoder writes for that batch: the two functions are inverse
  to each other, on every input.
\<close>

theorem batch_format_exact: "decode_batch bs = Inr b \<longleftrightarrow> encode_batch b = Inr bs"
  using encode_decoded decode_encoded by blast

lemma header_roundtrip:
  assumes "n \<le> MAX_PAYLOAD"
  shows "\<exists>bs. encode_header k n = Inr bs \<and> decode_header bs = Inr \<lparr>bh_kind = k, bh_payload_len = of_nat n\<rparr>"
proof -
  have "unat (of_nat n :: u32) = n" using assms by (simp add: unat_of_nat MAX_PAYLOAD_def)
  moreover have "kind_try_from (kind_code k) = Inr k" by (cases k) (simp_all add: kind_try_from_def)
  ultimately show ?thesis
    using assms by (simp add: encode_header_def decode_header_def PIPE_MAGIC_def le16_def le32_def Let_def)
qed

section \<open>What the client is sent\<close>

text \<open>
  The messages of \<open>serve_client\<close>, each with the nonce the driver had ready in its iteration, which is the one a capture is
  started with when the message answers an arm.
\<close>

fun serve_tagged :: "u64 \<Rightarrow> broker_input list \<Rightarrow> capture_state \<Rightarrow> (u64 option \<times> message_kind \<times> bytes) list" where
  "serve_tagged client [] s = []"
| "serve_tagged client (i # is) s = (case serve_step client i s of (r, out) \<Rightarrow>
    map (Pair (bi_begin i)) out @ (case r of None \<Rightarrow> [] | Some s' \<Rightarrow> serve_tagged client is s'))"

lemma serve_tagged_messages: "map snd (serve_tagged client is s) = serve_loop client is s"
  by (induction "is" arbitrary: s) (auto simp: comp_def split: prod.splits option.splits)

text \<open>
  The contract of the messages on the pipe: events come only between an arm and the next disarm, each payload decodes to a
  batch that lost nothing, and the events since the arm are numbered 1, 2, 3, and so on, all with the nonce the driver
  returned for that arm.
\<close>

definition next_events :: "u64 \<times> nat \<Rightarrow> key_batch \<Rightarrow> bool" where
  "next_events st b \<longleftrightarrow> (case st of (nonce, k) \<Rightarrow> kb_dropped b = 0 \<and> kb_events b \<noteq> [] \<and>
    map ke_sequence (kb_events b) = map of_nat [Suc k..<Suc (k + length (kb_events b))] \<and>
    list_all (\<lambda>e. ke_nonce e = nonce) (kb_events b))"

fun client_stream_ok :: "(u64 \<times> nat) option \<Rightarrow> (u64 option \<times> message_kind \<times> bytes) list \<Rightarrow> bool" where
  "client_stream_ok st [] = True"
| "client_stream_ok st ((begun, Mk_Status, payload) # out) = (
    if payload = [1] then (case begun of None \<Rightarrow> False | Some nonce \<Rightarrow> client_stream_ok (Some (nonce, 0)) out)
    else payload = [0] \<and> client_stream_ok None out)"
| "client_stream_ok (Some st) ((_, Mk_Events, payload) # out) = (case decode_batch payload of Inl _ \<Rightarrow> False
    | Inr b \<Rightarrow> next_events st b \<and> client_stream_ok (Some (fst st, snd st + length (kb_events b))) out)"
| "client_stream_ok st (_ # out) = False"

definition last_after :: "nat \<Rightarrow> u32 option" where
  "last_after k = (if k = 0 then None else Some (of_nat k))"

text \<open>The capture state knows where the stream is.\<close>

definition capture_at :: "u64 \<Rightarrow> (u64 \<times> nat) option \<Rightarrow> capture_state \<Rightarrow> bool" where
  "capture_at client st s \<longleftrightarrow> cs_owner s = Some client \<and> (case st of None \<Rightarrow> \<not> cs_armed s
    | Some (nonce, k) \<Rightarrow> cs_armed s \<and> cs_last_sequence s = last_after k \<and> cs_nonce s = Some nonce)"

lemma observe_events_ok:
  "observe_events es s = (Inr (), s') \<Longrightarrow> cs_last_sequence s = last_after k \<Longrightarrow>
    map ke_sequence es = map of_nat [Suc k..<Suc (k + length es)] \<and> (\<forall>e \<in> set es. Some (ke_nonce e) = cs_nonce s) \<and>
    s' = s\<lparr>cs_last_sequence := last_after (k + length es)\<rparr>"
proof (induction es arbitrary: s k)
  case (Cons e es)
  have e: "Some (ke_nonce e) = cs_nonce s" "ke_sequence e = of_nat (Suc k)"
    "observe_events es (s\<lparr>cs_last_sequence := Some (ke_sequence e)\<rparr>) = (Inr (), s')"
    using Cons.prems by (auto simp: last_after_def split: if_splits)
  have "last_after (Suc k) = Some (ke_sequence e)" by (simp add: last_after_def e(2))
  then show ?case using Cons.IH [OF e(3), of "Suc k"] e(1,2) by (simp add: upt_conv_Cons del: upt_Suc)
qed simp

text \<open>A part of an iteration keeps the contract: whatever may follow in the state it reaches may follow its messages.\<close>

definition keeps_stream
    :: "u64 \<Rightarrow> (u64 \<times> nat) option \<Rightarrow> u64 option \<Rightarrow> capture_state option \<times> broker_out \<Rightarrow> bool" where
  "keeps_stream client st begun res \<longleftrightarrow> (\<exists>st'. pred_option (capture_at client st') (fst res) \<and>
    (\<forall>more. client_stream_ok st' more \<longrightarrow> client_stream_ok st (map (Pair begun) (snd res) @ more)))"

lemma keeps_silent: "capture_at client st s \<Longrightarrow> r = None \<or> r = Some s \<Longrightarrow> keeps_stream client st begun (r, [])"
  by (auto simp: keeps_stream_def)

lemma serve_control_ok:
  assumes "capture_at client st s"
  shows "keeps_stream client st (bi_begin i) (serve_control client i s)"
proof -
  obtain r out where step: "serve_control client i s = (r, out)" by fastforce
  then consider "out = []" "r = None \<or> r = Some s"
    | nonce s' where "bi_begin i = Some nonce" "cs_arm client nonce s = (Inr (), s')" "r = Some s'" "out = [(Mk_Status, [1])]"
    | s' where "cs_disarm client s = (Inr (), s')" "r = Some s'" "out = [(Mk_Status, [0])]"
    by (auto simp: serve_control_def split: pipe_input.splits if_splits option.splits prod.splits sum.splits)
  then show ?thesis
  proof cases
    case 1
    then show ?thesis using keeps_silent [OF assms] step by simp
  next
    case (2 nonce s')
    then have "capture_at client (Some (nonce, 0)) s'"
      using assms by (auto simp: capture_at_def cs_arm_def require_owner_def last_after_def)
    then show ?thesis using 2 step unfolding keeps_stream_def by (intro exI [of _ "Some (nonce, 0)"]) simp
  next
    case (3 s')
    then have "capture_at client None s'"
      using assms by (auto simp: capture_at_def cs_disarm_def require_owner_def cs_fail_closed_def)
    then show ?thesis using 3 step unfolding keeps_stream_def by (intro exI [of _ None]) simp
  qed
qed

lemma serve_events_ok:
  assumes at: "capture_at client st s"
  shows "keeps_stream client st begun (serve_events client i s)"
proof -
  obtain r out where step: "serve_events client i s = (r, out)" by fastforce
  then consider "out = []" "r = None \<or> r = Some s"
    | b s' payload where "cs_is_armed s" "kb_events b \<noteq> [] \<or> kb_dropped b \<noteq> 0" "observe_batch client b s = (Inr (), s')"
      "encode_batch b = Inr payload" "out = [(Mk_Events, payload)]" "r = Some s'"
    by (auto simp: serve_events_def split: if_splits option.splits prod.splits sum.splits)
  then show ?thesis
  proof cases
    case 1
    then show ?thesis using keeps_silent [OF at] step by simp
  next
    case b: (2 b s' payload)
    obtain nonce k where st: "st = Some (nonce, k)" using b(1) at by (cases st) (auto simp: capture_at_def cs_is_armed_def)
    have n: "cs_nonce s = Some nonce" "cs_last_sequence s = last_after k" using at by (simp_all add: capture_at_def st)
    have obs: "kb_dropped b = 0" "observe_events (kb_events b) s = (Inr (), s')"
      using b(1,3) at by (auto simp: observe_batch_def require_owner_def capture_at_def st split: if_splits)
    note ev = observe_events_ok [OF obs(2) n(2)]
    have "next_events (nonce, k) b"
      using b(2) obs(1) ev n(1) by (simp add: next_events_def list_all_iff)
    moreover have "capture_at client (Some (nonce, k + length (kb_events b))) s'" using at ev n by (simp add: capture_at_def st)
    ultimately show ?thesis using b(5,6) step decode_encoded [OF b(4)] unfolding keeps_stream_def
      by (intro exI [of _ "Some (nonce, k + length (kb_events b))"]) (simp add: st)
  qed
qed

lemma serve_step_ok:
  assumes "capture_at client st s"
  shows "keeps_stream client st (bi_begin i) (serve_step client i s)"
proof (cases "bi_current i")
  case True
  obtain r1 out1 where c: "serve_control client i s = (r1, out1)" by fastforce
  obtain st1 where st1: "\<forall>more. client_stream_ok st1 more \<longrightarrow> client_stream_ok st (map (Pair (bi_begin i)) out1 @ more)"
      "pred_option (capture_at client st1) r1"
    using serve_control_ok [OF assms, of i] c by (auto simp: keeps_stream_def)
  show ?thesis
  proof (cases r1)
    case None
    then show ?thesis using True c st1 by (auto simp: serve_step_def keeps_stream_def)
  next
    case (Some s1)
    obtain r2 out2 where e: "serve_events client i s1 = (r2, out2)" by fastforce
    have "capture_at client st1 s1" using st1(2) Some by simp
    from serve_events_ok [OF this, of "bi_begin i" i] obtain st2
      where "\<forall>more. client_stream_ok st2 more \<longrightarrow> client_stream_ok st1 (map (Pair (bi_begin i)) out2 @ more)"
        "pred_option (capture_at client st2) r2"
      by (auto simp: keeps_stream_def e)
    then show ?thesis using True c Some e st1(1) unfolding keeps_stream_def
      by (intro exI [of _ st2]) (simp add: serve_step_def)
  qed
qed (use keeps_silent [OF assms] in \<open>simp add: serve_step_def\<close>)

lemma serve_tagged_ok: "capture_at client st s \<Longrightarrow> client_stream_ok st (serve_tagged client is s)"
proof (induction "is" arbitrary: st s)
  case (Cons i "is")
  obtain r out where o: "serve_step client i s = (r, out)" by fastforce
  obtain st' where st': "\<forall>more. client_stream_ok st' more \<longrightarrow> client_stream_ok st (map (Pair (bi_begin i)) out @ more)"
      "pred_option (capture_at client st') r"
    using serve_step_ok [OF Cons.prems, of i] o by (auto simp: keeps_stream_def)
  have "client_stream_ok st' (case r of None \<Rightarrow> [] | Some s' \<Rightarrow> serve_tagged client is s')"
    using st'(2) Cons.IH by (cases r) simp_all
  then show ?case using st'(1) o by simp
qed simp

text \<open>
  C36. Whatever the driver and the client do, the messages written to a client follow the contract: events only between an arm and
  the next disarm, in batches that decode and lost nothing, numbered without a gap from the arm on, and each with the nonce that
  the driver returned for that arm.
\<close>

theorem client_stream_exact:
  "map snd (serve_tagged 1 is (snd (cs_connect 1 capture_default))) = serve_client is \<and>
   client_stream_ok None (serve_tagged 1 is (snd (cs_connect 1 capture_default)))"
proof
  show "client_stream_ok None (serve_tagged 1 is (snd (cs_connect 1 capture_default)))"
    by (rule serve_tagged_ok) (simp add: capture_at_def cs_connect_def capture_default_def cs_fail_closed_def)
qed (simp add: serve_client_def serve_tagged_messages)

end
