(* ===== verification/Host_Policy.thy ===== *)
theory Host_Policy
  imports Desktop_Control "HOL-Library.Signed_Division"
begin

text \<open>
  The policies of the native host: privacy mode (\<open>app-native/src/privacy_mode.rs\<close>), the authority lease
  (\<open>host_authority.rs\<close>), virtual devices (\<open>virtual_device_policy.rs\<close>) and the registry of monitors (\<open>output_registry.rs\<close>).
  The closures that act on the platform are modelled by their answers, and their calls are recorded.
\<close>

section \<open>Privacy mode\<close>

definition PROTECT_BLANK_DISPLAY :: u8 where "PROTECT_BLANK_DISPLAY = 1"
definition PROTECT_BLOCK_LOCAL_INPUT :: u8 where "PROTECT_BLOCK_LOCAL_INPUT = 2"

definition PROTECTION_BITS :: "u8 list" where
  "PROTECTION_BITS = [PROTECT_BLANK_DISPLAY, PROTECT_BLOCK_LOCAL_INPUT]"

record privacy_mode =
  pm_active :: bool
  pm_protections :: u8

definition pm_new :: privacy_mode where
  "pm_new = \<lparr>pm_active = False, pm_protections = 0\<rparr>"

definition pm_state :: "privacy_mode \<Rightarrow> privacy_state" where
  "pm_state m = \<lparr>ps_active = pm_active m, ps_protections_effective = pm_protections m, ps_status = Applied, ps_reason = None\<rparr>"

text \<open>The calls of the closures \<open>apply\<close>, with its answer, and \<open>rollback\<close>.\<close>

datatype platform_call = Call_Apply u8 bool | Call_Rollback u8

definition rollbacks :: "u8 \<Rightarrow> platform_call list" where
  "rollbacks w = map Call_Rollback (filter (\<lambda>b. w AND b \<noteq> 0) PROTECTION_BITS)"

fun apply_bits :: "(u8 \<Rightarrow> bool) \<Rightarrow> u8 \<Rightarrow> u8 list \<Rightarrow> u8 \<Rightarrow> bool \<times> platform_call list" where
  "apply_bits act requested [] applied = (True, [])"
| "apply_bits act requested (b # bits) applied = (
    if requested AND b = 0 then apply_bits act requested bits applied
    else if act b then (let (ok, calls) = apply_bits act requested bits (applied OR b)
      in (ok, Call_Apply b True # calls))
    else (False, Call_Apply b False # rollbacks applied))"

definition pm_engage :: "u8 \<Rightarrow> (u8 \<Rightarrow> bool) \<Rightarrow> privacy_mode \<Rightarrow> privacy_state \<times> privacy_mode \<times> platform_call list" where
  "pm_engage requested act m = (
    if requested = 0 \<or> requested AND NOT PROTECT_ALL \<noteq> 0
    then (\<lparr>ps_active = pm_active m, ps_protections_effective = pm_protections m, ps_status = Rejected,
        ps_reason = Some Unsupported\<rparr>, m, [])
    else let released = (if pm_active m then rollbacks (pm_protections m) else []);
        (ok, calls) = apply_bits act requested PROTECTION_BITS 0
      in if ok then (\<lparr>ps_active = True, ps_protections_effective = requested, ps_status = Applied, ps_reason = None\<rparr>,
          \<lparr>pm_active = True, pm_protections = requested\<rparr>, released @ calls)
        else (\<lparr>ps_active = False, ps_protections_effective = 0, ps_status = Rejected, ps_reason = Some PolicyDenied\<rparr>,
          \<lparr>pm_active = False, pm_protections = 0\<rparr>, released @ calls))"

definition pm_disengage :: "privacy_mode \<Rightarrow> privacy_mode \<times> platform_call list" where
  "pm_disengage m = (\<lparr>pm_active = False, pm_protections = 0\<rparr>, rollbacks (pm_protections m))"

definition pm_fail_open :: "privacy_mode \<Rightarrow> bool \<times> privacy_mode" where
  "pm_fail_open m = (pm_active m, \<lparr>pm_active = False, pm_protections = 0\<rparr>)"

text \<open>The protections in force on the platform. A fault drops them all before \<open>fail_open\<close> is called.\<close>

fun platform_after :: "u8 \<Rightarrow> platform_call \<Rightarrow> u8" where
  "platform_after w (Call_Apply b ok) = (if ok then w OR b else w)"
| "platform_after w (Call_Rollback b) = w AND NOT b"

datatype privacy_op = Pm_Engage u8 "u8 \<Rightarrow> bool" | Pm_Disengage | Pm_Fault

fun privacy_step :: "privacy_mode \<times> u8 \<Rightarrow> privacy_op \<Rightarrow> privacy_mode \<times> u8" where
  "privacy_step (m, w) (Pm_Engage requested act) = (case pm_engage requested act m of
    (_, m', calls) \<Rightarrow> (m', foldl platform_after w calls))"
| "privacy_step (m, w) Pm_Disengage = (case pm_disengage m of (m', calls) \<Rightarrow> (m', foldl platform_after w calls))"
| "privacy_step (m, w) Pm_Fault = (snd (pm_fail_open m), 0)"

definition privacy_run :: "privacy_op list \<Rightarrow> privacy_mode \<times> u8" where
  "privacy_run ops = foldl privacy_step (pm_new, 0) ops"

definition privacy_inv :: "privacy_mode \<times> u8 \<Rightarrow> bool" where
  "privacy_inv s \<longleftrightarrow> snd s = pm_protections (fst s) \<and> pm_protections (fst s) AND NOT PROTECT_ALL = 0 \<and>
    (pm_active (fst s) \<longleftrightarrow> pm_protections (fst s) \<noteq> 0)"

lemma protect_masks: "w AND NOT PROTECT_ALL = 0 \<longleftrightarrow> w = 0 \<or> w = 1 \<or> w = 2 \<or> w = 3"
proof
  assume "w AND NOT PROTECT_ALL = 0"
  moreover have "w = (w AND PROTECT_ALL) OR (w AND NOT PROTECT_ALL)" by (simp flip: bit.conj_disj_distrib)
  ultimately have "w = w AND 3" by (simp add: PROTECT_ALL_def)
  then have "w \<le> 3" by (metis word_and_le1)
  then have "unat w \<le> 3" by (simp add: word_le_nat_alt)
  then have "unat w = 0 \<or> unat w = 1 \<or> unat w = 2 \<or> unat w = 3" by linarith
  then show "w = 0 \<or> w = 1 \<or> w = 2 \<or> w = 3" by (auto simp: word_unat_eq_iff)
qed (auto simp: PROTECT_ALL_def)

lemmas privacy_defs = rollbacks_def PROTECTION_BITS_def PROTECT_BLANK_DISPLAY_def PROTECT_BLOCK_LOCAL_INPUT_def

lemma rollbacks_clear: "w AND NOT PROTECT_ALL = 0 \<Longrightarrow> foldl platform_after w (rollbacks w) = 0"
  by (auto simp: protect_masks privacy_defs)

text \<open>From a clean base the calls leave exactly the request in force, or nothing.\<close>

lemma apply_bits_all:
  assumes "requested AND NOT PROTECT_ALL = 0"
  shows "foldl platform_after 0 (snd (apply_bits act requested PROTECTION_BITS 0)) =
    (if fst (apply_bits act requested PROTECTION_BITS 0) then requested else 0)"
  using assms unfolding protect_masks
  by (elim disjE) (simp_all add: privacy_defs)

lemma engage_inv:
  assumes "privacy_inv (m, w)"
  shows "privacy_inv (privacy_step (m, w) (Pm_Engage requested act))"
proof (cases "requested = 0 \<or> requested AND NOT PROTECT_ALL \<noteq> 0")
  case True
  then show ?thesis using assms by (simp add: pm_engage_def)
next
  case False
  have "foldl platform_after w (if pm_active m then rollbacks (pm_protections m) else []) = 0"
    using assms rollbacks_clear [of w] by (auto simp: privacy_inv_def)
  then show ?thesis
    using False apply_bits_all [of requested act]
    by (auto simp: pm_engage_def privacy_inv_def Let_def split: prod.splits if_splits)
qed

lemma privacy_step_inv: "privacy_inv s \<Longrightarrow> privacy_inv (privacy_step s op)"
proof (cases op)
  case (Pm_Engage requested act)
  then show "privacy_inv s \<Longrightarrow> ?thesis" using engage_inv by (cases s) simp
next
  case Pm_Disengage
  then show "privacy_inv s \<Longrightarrow> ?thesis"
    using rollbacks_clear by (cases s) (auto simp: privacy_inv_def pm_disengage_def)
next
  case Pm_Fault
  then show "privacy_inv s \<Longrightarrow> ?thesis" by (cases s) (simp add: privacy_inv_def pm_fail_open_def)
qed

lemma privacy_run_inv: "privacy_inv (privacy_run ops)"
  unfolding privacy_run_def
  by (induction ops rule: rev_induct) (simp_all add: privacy_step_inv, simp add: privacy_inv_def pm_new_def)

text \<open>
  C38. After any sequence of engagements, in which platform actions may fail, disengagements and faults, the protections in force
  on the platform are those the mode reports, and privacy is active exactly when there are any. The next engagement puts
  exactly the requested protections in force and says so, or puts none in force and says so, or is refused and changes nothing.
\<close>

theorem privacy_transactional:
  "case privacy_run ops of (m, w) \<Rightarrow> w = pm_protections m \<and> (pm_active m \<longleftrightarrow> w \<noteq> 0) \<and>
    (case pm_engage requested act m of (st, m', calls) \<Rightarrow> let w' = foldl platform_after w calls in
      w' = pm_protections m' \<and> ps_protections_effective st = w' \<and> ps_active st = pm_active m' \<and>
      (ps_status st = Applied \<and> w' = requested \<or>
       ps_status st = Rejected \<and> (ps_reason st = Some PolicyDenied \<and> w' = 0 \<or>
         ps_reason st = Some Unsupported \<and> m' = m \<and> w' = w)))"
proof -
  obtain m w where r: "privacy_run ops = (m, w)" by fastforce
  have inv: "privacy_inv (m, w)" using privacy_run_inv [of ops] by (simp add: r)
  have inv': "privacy_inv (privacy_step (m, w) (Pm_Engage requested act))" by (rule engage_inv [OF inv])
  obtain st m' calls where e: "pm_engage requested act m = (st, m', calls)" by (metis prod_cases3)
  have w': "foldl platform_after w calls = pm_protections m'" using inv' by (simp add: e privacy_inv_def)
  have "ps_protections_effective st = pm_protections m' \<and> ps_active st = pm_active m' \<and>
      (ps_status st = Applied \<and> pm_protections m' = requested \<or>
       ps_status st = Rejected \<and> (ps_reason st = Some PolicyDenied \<and> pm_protections m' = 0 \<or>
         ps_reason st = Some Unsupported \<and> m' = m \<and> calls = []))"
    using e by (auto simp: pm_engage_def Let_def split: if_splits prod.splits)
  then show ?thesis using inv w' by (auto simp: r e privacy_inv_def Let_def)
qed

section \<open>Host authority\<close>

datatype host_authority = Ha_Local | Ha_Held u64 u32 u64 | Ha_Degraded downgrade_reason

datatype ha_acquire_result = Ha_Granted | Ha_Renewed | Ha_Denied

record ha_journal =
  hj_held_owner :: "u64 option"
  hj_generation :: "u32 option"

record ha_lease =
  ha_state :: host_authority
  ha_lease_ms :: u64

definition ha_new :: "u64 \<Rightarrow> ha_lease" where
  "ha_new lease_ms = \<lparr>ha_state = Ha_Local, ha_lease_ms = lease_ms\<rparr>"

definition ha_local_control :: "ha_lease \<Rightarrow> bool" where
  "ha_local_control l \<longleftrightarrow> (case ha_state l of Ha_Held _ _ _ \<Rightarrow> False | _ \<Rightarrow> True)"

definition ha_poll :: "u64 \<Rightarrow> ha_lease \<Rightarrow> bool \<times> ha_lease" where
  "ha_poll now l = (case ha_state l of Ha_Held _ _ deadline \<Rightarrow> if deadline \<le> now then (True, l\<lparr>ha_state := Ha_Local\<rparr>) else (False, l)
    | _ \<Rightarrow> (False, l))"

definition ha_acquire :: "u64 \<Rightarrow> u32 \<Rightarrow> u64 \<Rightarrow> ha_lease \<Rightarrow> ha_acquire_result \<times> ha_lease" where
  "ha_acquire owner generation now l0 = (let l = snd (ha_poll now l0);
      held = l\<lparr>ha_state := Ha_Held owner generation (sat_add now (ha_lease_ms l))\<rparr>
    in case ha_state l of
      Ha_Degraded _ \<Rightarrow> (Ha_Denied, l)
    | Ha_Local \<Rightarrow> (Ha_Granted, held)
    | Ha_Held cur_owner cur_gen _ \<Rightarrow>
        if owner \<noteq> cur_owner then (Ha_Denied, l)
        else if generation = cur_gen \<or> gen_supersedes generation cur_gen then (Ha_Renewed, held)
        else (Ha_Denied, l))"

definition ha_release :: "u64 \<Rightarrow> ha_lease \<Rightarrow> bool \<times> ha_lease" where
  "ha_release owner l = (case ha_state l of Ha_Held cur _ _ \<Rightarrow> if cur = owner then (True, l\<lparr>ha_state := Ha_Local\<rparr>) else (False, l)
    | _ \<Rightarrow> (False, l))"

definition ha_fault :: "downgrade_reason \<Rightarrow> ha_lease \<Rightarrow> ha_lease" where
  "ha_fault reason l = l\<lparr>ha_state := Ha_Degraded reason\<rparr>"

definition ha_clear_fault :: "ha_lease \<Rightarrow> ha_lease" where
  "ha_clear_fault l = (case ha_state l of Ha_Degraded _ \<Rightarrow> l\<lparr>ha_state := Ha_Local\<rparr> | _ \<Rightarrow> l)"

definition ha_journal_of :: "ha_lease \<Rightarrow> ha_journal" where
  "ha_journal_of l = (case ha_state l of Ha_Held owner generation _ \<Rightarrow>
      \<lparr>hj_held_owner = Some owner, hj_generation = Some generation\<rparr>
    | _ \<Rightarrow> \<lparr>hj_held_owner = None, hj_generation = None\<rparr>)"

definition ha_recover :: "ha_journal \<Rightarrow> u64 \<Rightarrow> ha_lease \<times> u64 option" where
  "ha_recover journal lease_ms = (ha_new lease_ms, hj_held_owner journal)"

datatype ha_op = Op_Poll u64 | Op_Acquire u64 u32 u64 | Op_Release u64 | Op_Fault downgrade_reason | Op_Clear | Op_Reboot

fun ha_step :: "ha_lease \<Rightarrow> ha_op \<Rightarrow> ha_lease" where
  "ha_step l (Op_Poll now) = snd (ha_poll now l)"
| "ha_step l (Op_Acquire owner generation now) = snd (ha_acquire owner generation now l)"
| "ha_step l (Op_Release owner) = snd (ha_release owner l)"
| "ha_step l (Op_Fault reason) = ha_fault reason l"
| "ha_step l Op_Clear = ha_clear_fault l"
| "ha_step l Op_Reboot = fst (ha_recover (ha_journal_of l) (ha_lease_ms l))"

definition ha_inv :: "u64 \<Rightarrow> ha_op list \<Rightarrow> ha_lease \<Rightarrow> bool" where
  "ha_inv lease_ms ops l \<longleftrightarrow> ha_lease_ms l = lease_ms \<and> (case ha_state l of Ha_Held owner generation deadline \<Rightarrow>
      (\<exists>t. Op_Acquire owner generation t \<in> set ops \<and> deadline = sat_add t lease_ms) | _ \<Rightarrow> True)"

lemma ha_step_inv: "ha_inv lease_ms ops l \<Longrightarrow> ha_inv lease_ms (ops @ [op]) (ha_step l op)"
  by (cases op)
    (auto simp: ha_inv_def ha_poll_def ha_acquire_def ha_release_def ha_fault_def ha_clear_fault_def ha_recover_def ha_new_def
      Let_def split: host_authority.splits if_splits)

lemma ha_run_inv: "ha_inv lease_ms ops (foldl ha_step (ha_new lease_ms) ops)"
proof (induction ops rule: rev_induct)
  case (snoc op ops)
  then show ?case using ha_step_inv by simp
qed (simp add: ha_inv_def ha_new_def)

text \<open>
  In every reachable state a held lease was acquired by its owner, and ends a lease time after that: a poll or another
  owner's request at or after its deadline finds local control. Before it nobody else gets the lease, and the owner only renews it
  with a generation that is not older.
\<close>

theorem authority_bounded:
  assumes "ha_state (foldl ha_step (ha_new lease_ms) ops) = Ha_Held owner generation deadline"
    and l: "l = foldl ha_step (ha_new lease_ms) ops"
  shows "(\<exists>t. Op_Acquire owner generation t \<in> set ops \<and> deadline = sat_add t lease_ms) \<and>
    (if deadline \<le> now
     then ha_local_control (snd (ha_poll now l)) \<and> fst (ha_acquire other g now l) = Ha_Granted
     else fst (ha_poll now l) = False \<and> (other \<noteq> owner \<or> (g \<noteq> generation \<and> \<not> gen_supersedes g generation)
       \<longrightarrow> ha_acquire other g now l = (Ha_Denied, l)))"
  using assms ha_run_inv [of lease_ms ops]
  by (auto simp: ha_inv_def ha_poll_def ha_local_control_def ha_acquire_def Let_def)

theorem authority_bounded_witness:
  "ha_state (foldl ha_step (ha_new 500) [Op_Acquire 7 1 100]) = Ha_Held 7 1 600 \<and>
    ha_local_control (snd (ha_poll 600 (foldl ha_step (ha_new 500) [Op_Acquire 7 1 100])))"
proof -
  have held: "ha_state (foldl ha_step (ha_new 500) [Op_Acquire 7 1 100]) = Ha_Held 7 1 600"
    by (simp add: ha_new_def ha_acquire_def ha_poll_def sat_add_def Let_def)
  show ?thesis using authority_bounded [OF held refl, of 600] held by simp
qed

section \<open>Virtual devices\<close>

datatype virtual_device_kind = Vd_Display | Vd_Hid

datatype producer = Real | Virtual

text \<open>The two arrays of two, by kind.\<close>

record virtual_device_policy =
  vd_evidence :: "virtual_device_kind \<Rightarrow> rust_string option"
  vd_producer :: "virtual_device_kind \<Rightarrow> producer option"

definition vd_new :: virtual_device_policy where
  "vd_new = \<lparr>vd_evidence = (\<lambda>_. None), vd_producer = (\<lambda>_. None)\<rparr>"

definition vd_record_failure :: "virtual_device_kind \<Rightarrow> rust_string \<Rightarrow> virtual_device_policy \<Rightarrow> virtual_device_policy" where
  "vd_record_failure kind cell p = p\<lparr>vd_evidence := (vd_evidence p)(kind := Some cell)\<rparr>"

definition claim_real :: "virtual_device_kind \<Rightarrow> virtual_device_policy \<Rightarrow> bool \<times> virtual_device_policy" where
  "claim_real kind p = (case vd_producer p kind of Some Virtual \<Rightarrow> (False, p)
    | _ \<Rightarrow> (True, p\<lparr>vd_producer := (vd_producer p)(kind := Some Real)\<rparr>))"

definition enable_virtual :: "virtual_device_kind \<Rightarrow> virtual_device_policy \<Rightarrow> bool \<times> virtual_device_policy" where
  "enable_virtual kind p = (if vd_evidence p kind = None then (False, p)
    else if vd_producer p kind \<noteq> None then (vd_producer p kind = Some Virtual, p)
    else (True, p\<lparr>vd_producer := (vd_producer p)(kind := Some Virtual)\<rparr>))"

definition vd_release :: "virtual_device_kind \<Rightarrow> virtual_device_policy \<Rightarrow> virtual_device_policy" where
  "vd_release kind p = p\<lparr>vd_producer := (vd_producer p)(kind := None)\<rparr>"

datatype vd_op = Vd_Failure virtual_device_kind rust_string | Vd_Claim virtual_device_kind | Vd_Enable virtual_device_kind
  | Vd_Release virtual_device_kind

fun vd_step :: "virtual_device_policy \<Rightarrow> vd_op \<Rightarrow> virtual_device_policy" where
  "vd_step p (Vd_Failure kind cell) = vd_record_failure kind cell p"
| "vd_step p (Vd_Claim kind) = snd (claim_real kind p)"
| "vd_step p (Vd_Enable kind) = snd (enable_virtual kind p)"
| "vd_step p (Vd_Release kind) = vd_release kind p"

text \<open>A virtual device produces only after a failure was recorded for its kind.\<close>

lemma virtual_needs_evidence:
  "vd_producer (foldl vd_step vd_new ops) kind = Some Virtual \<Longrightarrow> \<exists>cell. Vd_Failure kind cell \<in> set ops"
proof -
  have "(vd_producer (foldl vd_step vd_new ops) k = Some Virtual \<longrightarrow> vd_evidence (foldl vd_step vd_new ops) k \<noteq> None) \<and>
      (vd_evidence (foldl vd_step vd_new ops) k \<noteq> None \<longrightarrow> (\<exists>cell. Vd_Failure k cell \<in> set ops))" for k
  proof (induction ops rule: rev_induct)
    case (snoc op ops)
    then show ?case
      by (cases op) (auto simp: vd_record_failure_def claim_real_def enable_virtual_def vd_release_def
          split: option.splits producer.splits if_splits)
  qed (simp add: vd_new_def)
  then show "vd_producer (foldl vd_step vd_new ops) kind = Some Virtual \<Longrightarrow> ?thesis" by blast
qed

section \<open>Registry of outputs\<close>

definition FNV_OFFSET :: u64 where "FNV_OFFSET = 0xcbf29ce484222325"
definition FNV_PRIME :: u64 where "FNV_PRIME = 0x100000001b3"

definition edid_output_id :: "bytes \<Rightarrow> u64" where
  "edid_output_id edid = foldl (\<lambda>hash b. (hash XOR ucast b) * FNV_PRIME) FNV_OFFSET edid"

record output_sample =
  os_edid :: bytes
  os_os_index :: u32
  os_dpi :: u32

record output_entry =
  oe_id :: u64
  oe_os_index :: u32
  oe_dpi :: u32
  oe_connected :: bool
  oe_streaming :: bool

record output_registry =
  or_outputs :: "output_entry list"
  or_max_streams :: nat

definition or_new :: "nat \<Rightarrow> output_registry" where
  "or_new max_streams = \<lparr>or_outputs = [], or_max_streams = max_streams\<rparr>"

text \<open>\<open>iter_mut().find(..)\<close> and an update of what it finds.\<close>

fun update_first :: "('a \<Rightarrow> bool) \<Rightarrow> ('a \<Rightarrow> 'a) \<Rightarrow> 'a list \<Rightarrow> 'a list" where
  "update_first p f [] = []"
| "update_first p f (x # xs) = (if p x then f x # xs else x # update_first p f xs)"

definition enumerate_sample :: "output_entry list \<Rightarrow> output_sample \<Rightarrow> output_entry list" where
  "enumerate_sample es sample = (let i = edid_output_id (os_edid sample) in
    if list_ex (\<lambda>e. oe_id e = i) es
    then update_first (\<lambda>e. oe_id e = i)
      (\<lambda>e. e\<lparr>oe_os_index := os_os_index sample, oe_dpi := os_dpi sample, oe_connected := True\<rparr>) es
    else es @ [\<lparr>oe_id = i, oe_os_index = os_os_index sample, oe_dpi = os_dpi sample, oe_connected = True, oe_streaming = False\<rparr>])"

definition or_enumerate :: "output_sample list \<Rightarrow> output_registry \<Rightarrow> output_registry" where
  "or_enumerate samples r = r\<lparr>or_outputs := map (\<lambda>e. if oe_connected e then e else e\<lparr>oe_streaming := False\<rparr>)
    (foldl enumerate_sample (map (\<lambda>e. e\<lparr>oe_connected := False\<rparr>) (or_outputs r)) samples)\<rparr>"

definition or_get :: "u64 \<Rightarrow> output_registry \<Rightarrow> output_entry option" where
  "or_get i r = find (\<lambda>e. oe_id e = i) (or_outputs r)"

definition connected_count :: "output_registry \<Rightarrow> nat" where
  "connected_count r = length (filter oe_connected (or_outputs r))"

definition streaming_count :: "output_registry \<Rightarrow> nat" where
  "streaming_count r = length (filter oe_streaming (or_outputs r))"

definition try_stream :: "u64 \<Rightarrow> output_registry \<Rightarrow> bool \<times> output_registry" where
  "try_stream i r = (if or_max_streams r \<le> streaming_count r then (False, r)
    else case or_get i r of None \<Rightarrow> (False, r)
      | Some e \<Rightarrow> if oe_connected e \<and> \<not> oe_streaming e
        then (True, r\<lparr>or_outputs := update_first (\<lambda>e. oe_id e = i) (\<lambda>e. e\<lparr>oe_streaming := True\<rparr>) (or_outputs r)\<rparr>)
        else (False, r))"

definition stop_stream :: "u64 \<Rightarrow> output_registry \<Rightarrow> bool \<times> output_registry" where
  "stop_stream i r = (case or_get i r of None \<Rightarrow> (False, r)
    | Some e \<Rightarrow> if oe_streaming e
      then (True, r\<lparr>or_outputs := update_first (\<lambda>e. oe_id e = i) (\<lambda>e. e\<lparr>oe_streaming := False\<rparr>) (or_outputs r)\<rparr>)
      else (False, r))"

text \<open>The product and the quotient are \<open>i64\<close>, which holds them; the result is cut to \<open>i32\<close>.\<close>

definition scale_i32 :: "32 word \<Rightarrow> u32 \<Rightarrow> u32 \<Rightarrow> 32 word" where
  "scale_i32 v dst src = word_of_int ((sint v * uint dst) sdiv uint src)"

definition transform_point :: "u64 \<Rightarrow> u64 \<Rightarrow> 32 word \<Rightarrow> 32 word \<Rightarrow> output_registry \<Rightarrow> (32 word \<times> 32 word) option" where
  "transform_point from_id to_id x y r = (case or_get from_id r of None \<Rightarrow> None
    | Some src \<Rightarrow> (case or_get to_id r of None \<Rightarrow> None
      | Some dst \<Rightarrow> if oe_dpi src = 0 then None
        else Some (scale_i32 x (oe_dpi dst) (oe_dpi src), scale_i32 y (oe_dpi dst) (oe_dpi src))))"

lemma scale_product_fits: "\<bar>sint (v :: 32 word) * uint (d :: u32)\<bar> < 2 ^ 63"
proof -
  have "\<bar>sint v\<bar> \<le> 2 ^ 31" using sint_greater_eq [of v] sint_less [of v] by simp
  moreover have "\<bar>uint d\<bar> \<le> 2 ^ 32 - 1" using uint_bounded [of d] by simp
  ultimately have "\<bar>sint v\<bar> * \<bar>uint d\<bar> \<le> 2 ^ 31 * (2 ^ 32 - 1)" by (intro mult_mono) simp_all
  then show ?thesis by (simp add: abs_mult)
qed

lemma scale_same_dpi: "d \<noteq> 0 \<Longrightarrow> scale_i32 v d d = v"
proof -
  assume "d \<noteq> 0"
  then have "0 < uint d" by (metis uint_0_iff uint_nonnegative order_le_less)
  then have "(sint v * uint d) sdiv uint d = sint v"
    using \<open>d \<noteq> 0\<close> by (simp add: signed_divide_int_def sgn_mult abs_mult mult_sgn_abs)
  then show ?thesis by (simp add: scale_i32_def)
qed

datatype or_op = Or_Enumerate "output_sample list" | Or_Try u64 | Or_Stop u64

fun or_step :: "output_registry \<Rightarrow> or_op \<Rightarrow> output_registry" where
  "or_step r (Or_Enumerate samples) = or_enumerate samples r"
| "or_step r (Or_Try i) = snd (try_stream i r)"
| "or_step r (Or_Stop i) = snd (stop_stream i r)"

definition or_inv :: "output_registry \<Rightarrow> bool" where
  "or_inv r \<longleftrightarrow> distinct (map oe_id (or_outputs r)) \<and> streaming_count r \<le> or_max_streams r \<and>
    list_all (\<lambda>e. oe_streaming e \<longrightarrow> oe_connected e) (or_outputs r)"

lemma update_first_ids: "(\<And>x. g (f x) = g x) \<Longrightarrow> map g (update_first p f xs) = map g xs"
  by (induction xs) simp_all

lemma update_first_count:
  "length (filter q (update_first p f xs)) \<le> Suc (length (filter q xs))"
  "(\<And>x. q (f x) \<Longrightarrow> q x) \<Longrightarrow> length (filter q (update_first p f xs)) \<le> length (filter q xs)"
  by (induction xs) auto

lemma update_first_all: "list_all q xs \<Longrightarrow> (\<And>x. find p xs = Some x \<Longrightarrow> q (f x)) \<Longrightarrow> list_all q (update_first p f xs)"
  by (induction xs) simp_all

lemma drop_streams_count:
  "length (filter oe_streaming (map (\<lambda>e. if oe_connected e then e else e\<lparr>oe_streaming := False\<rparr>) es)) \<le>
    length (filter oe_streaming es)"
  by (induction es) simp_all

lemma enumerate_ids:
  assumes "distinct (map oe_id es)"
  shows "\<exists>new. map oe_id (foldl enumerate_sample es samples) = map oe_id es @ new \<and>
    distinct (map oe_id es @ new) \<and> length (filter oe_streaming (foldl enumerate_sample es samples)) \<le> length (filter oe_streaming es)"
  using assms
proof (induction samples rule: rev_induct)
  case (snoc sample samples)
  let ?es = "foldl enumerate_sample es samples" and ?i = "edid_output_id (os_edid sample)"
  obtain new where new: "map oe_id ?es = map oe_id es @ new" "distinct (map oe_id es @ new)"
    "length (filter oe_streaming ?es) \<le> length (filter oe_streaming es)"
    using snoc by blast
  show ?case
  proof (cases "list_ex (\<lambda>e. oe_id e = ?i) ?es")
    case True
    have "length (filter oe_streaming (enumerate_sample ?es sample)) \<le> length (filter oe_streaming ?es)"
      using True by (simp add: enumerate_sample_def) (rule update_first_count(2), simp)
    moreover have "map oe_id (enumerate_sample ?es sample) = map oe_id ?es"
      using True by (simp add: enumerate_sample_def update_first_ids)
    ultimately show ?thesis using new by (intro exI [of _ new]) simp
  next
    case False
    then have "?i \<notin> set (map oe_id es @ new)" by (auto simp flip: new(1) simp: list_ex_iff)
    moreover obtain x where "enumerate_sample ?es sample = ?es @ [x]" "oe_id x = ?i" "\<not> oe_streaming x"
      using False by (simp add: enumerate_sample_def Let_def)
    ultimately show ?thesis using new by (intro exI [of _ "new @ [?i]"]) simp
  qed
qed (simp add: exI [of _ "[]"])

lemma or_step_inv: "or_inv r \<Longrightarrow> or_inv (or_step r op) \<and> (\<exists>new. map oe_id (or_outputs (or_step r op)) =
  map oe_id (or_outputs r) @ new) \<and> or_max_streams (or_step r op) = or_max_streams r"
proof (cases op)
  case (Or_Enumerate samples)
  assume inv: "or_inv r"
  let ?off = "map (\<lambda>e. e\<lparr>oe_connected := False\<rparr>) (or_outputs r)"
  let ?es = "foldl enumerate_sample ?off samples"
  let ?g = "\<lambda>e. if oe_connected e then e else e\<lparr>oe_streaming := False\<rparr>"
  have ids: "map oe_id ?off = map oe_id (or_outputs r)" by simp
  have off: "length (filter oe_streaming ?off) = streaming_count r" by (simp add: streaming_count_def filter_map comp_def)
  obtain new where new: "map oe_id ?es = map oe_id (or_outputs r) @ new" "distinct (map oe_id (or_outputs r) @ new)"
    "length (filter oe_streaming ?es) \<le> streaming_count r"
    using enumerate_ids [of ?off samples, unfolded ids off] inv by (auto simp: or_inv_def)
  have g: "map oe_id (map ?g ?es) = map oe_id ?es" by simp
  have "length (filter oe_streaming (map ?g ?es)) \<le> length (filter oe_streaming ?es)"
    by (rule drop_streams_count)
  then show ?thesis using inv new g
    by (auto simp: Or_Enumerate or_enumerate_def or_inv_def streaming_count_def list_all_iff simp del: map_map)
next
  case (Or_Try i)
  assume inv: "or_inv r"
  show ?thesis
  proof (cases "fst (try_stream i r)")
    case True
    then obtain e where e: "streaming_count r < or_max_streams r" "or_get i r = Some e" "oe_connected e"
      "snd (try_stream i r) = r\<lparr>or_outputs := update_first (\<lambda>e. oe_id e = i) (\<lambda>e. e\<lparr>oe_streaming := True\<rparr>) (or_outputs r)\<rparr>"
      by (auto simp: try_stream_def split: if_splits option.splits)
    have "list_all (\<lambda>e. oe_streaming e \<longrightarrow> oe_connected e)
        (update_first (\<lambda>e. oe_id e = i) (\<lambda>e. e\<lparr>oe_streaming := True\<rparr>) (or_outputs r))"
      by (rule update_first_all) (use inv e in \<open>auto simp: or_inv_def or_get_def\<close>)
    moreover have "length (filter oe_streaming (update_first (\<lambda>e. oe_id e = i) (\<lambda>e. e\<lparr>oe_streaming := True\<rparr>) (or_outputs r)))
        \<le> or_max_streams r"
      using update_first_count(1) [of oe_streaming] e(1) unfolding streaming_count_def by (meson Suc_leI le_trans)
    ultimately show ?thesis using inv e(4) by (simp add: Or_Try or_inv_def streaming_count_def update_first_ids)
  next
    case False
    then have "snd (try_stream i r) = r" by (auto simp: try_stream_def split: if_splits option.splits)
    then show ?thesis using inv by (simp add: Or_Try)
  qed
next
  case (Or_Stop i)
  assume inv: "or_inv r"
  let ?es = "update_first (\<lambda>e. oe_id e = i) (\<lambda>e. e\<lparr>oe_streaming := False\<rparr>) (or_outputs r)"
  have "length (filter oe_streaming ?es) \<le> length (filter oe_streaming (or_outputs r))"
    by (rule update_first_count(2)) simp
  moreover have "list_all (\<lambda>e. oe_streaming e \<longrightarrow> oe_connected e) ?es"
    by (rule update_first_all) (use inv in \<open>auto simp: or_inv_def\<close>)
  ultimately show ?thesis using inv
    by (auto simp: Or_Stop stop_stream_def or_inv_def streaming_count_def update_first_ids split: option.splits)
qed

text \<open>
  C39. After any sequence of enumerations, starts and stops, every output is listed once, only connected outputs stream, no more
  than the cap of them do, and an output that was ever seen keeps its identity and its place.
\<close>

theorem registry_well_formed:
  "case foldl or_step (or_new max_streams) ops of r \<Rightarrow> distinct (map oe_id (or_outputs r)) \<and> streaming_count r \<le> max_streams \<and>
    set (filter oe_streaming (or_outputs r)) \<subseteq> set (filter oe_connected (or_outputs r)) \<and>
    (\<exists>new. map oe_id (or_outputs (or_step r op)) = map oe_id (or_outputs r) @ new)"
proof -
  have "or_inv (foldl or_step (or_new max_streams) ops) \<and> or_max_streams (foldl or_step (or_new max_streams) ops) = max_streams"
  proof (induction ops rule: rev_induct)
    case (snoc op ops)
    then show ?case using or_step_inv by simp
  qed (simp add: or_new_def or_inv_def streaming_count_def)
  then show ?thesis using or_step_inv by (auto simp: or_inv_def list_all_iff)
qed

end
