(* ===== verification/Client_Policy.thy ===== *)
theory Client_Policy
  imports Fec_Wire "HOL-Library.Sublist" "HOL-Library.Signed_Division"
begin

text \<open>
  State machines of the client: frame pacing (\<open>app-native/src/frame_pacer.rs\<close>), the composition of lossless tiles
  (\<open>qu_composition.rs\<close>), immersive mode (\<open>immersive.rs\<close>), touch contacts (\<open>common/src/pen_touch.rs\<close>) and the microphone gate
  (\<open>common/src/mic.rs\<close>).
\<close>

section \<open>Frame pacing\<close>

record frame_pacer =
  fp_target_interval_us :: nat
  fp_max_queue_age_us :: nat
  fp_max_queue_frames :: nat
  fp_queue :: "nat list"
  fp_dropped_stale :: nat
  fp_presented :: nat

definition pacer_new :: "u32 \<Rightarrow> nat \<Rightarrow> frame_pacer" where
  "pacer_new refresh_mhz max_queue_frames = (let interval = 1000000000 div max (unat refresh_mhz) 1; frames = max max_queue_frames 1
    in \<lparr>fp_target_interval_us = interval, fp_max_queue_age_us = min (interval * frames) (2 ^ 64 - 1),
      fp_max_queue_frames = frames, fp_queue = [], fp_dropped_stale = 0, fp_presented = 0\<rparr>)"

text \<open>The two loops that drop from the front; the first ends at the latest with an empty queue, since the bound is not zero.\<close>

fun drop_overflow :: "nat \<Rightarrow> nat list \<Rightarrow> nat \<Rightarrow> nat list \<times> nat" where
  "drop_overflow bound [] dropped = ([], dropped)"
| "drop_overflow bound (f # q) dropped = (if bound \<le> length (f # q) then drop_overflow bound q (dropped + 1) else (f # q, dropped))"

fun drop_stale :: "nat \<Rightarrow> nat \<Rightarrow> nat list \<Rightarrow> nat \<Rightarrow> nat list \<times> nat" where
  "drop_stale now age [] dropped = ([], dropped)"
| "drop_stale now age (f # q) dropped = (if now - f > age then drop_stale now age q (dropped + 1) else (f # q, dropped))"

definition pacer_push :: "nat \<Rightarrow> frame_pacer \<Rightarrow> frame_pacer" where
  "pacer_push arrival p = (case drop_overflow (fp_max_queue_frames p) (fp_queue p) (fp_dropped_stale p) of
    (q, dropped) \<Rightarrow> p\<lparr>fp_queue := q @ [arrival], fp_dropped_stale := dropped\<rparr>)"

definition pick_present :: "nat \<Rightarrow> frame_pacer \<Rightarrow> nat option \<times> frame_pacer" where
  "pick_present now p = (case drop_stale now (fp_max_queue_age_us p) (fp_queue p) (fp_dropped_stale p) of
      ([], dropped) \<Rightarrow> (None, p\<lparr>fp_queue := [], fp_dropped_stale := dropped\<rparr>)
    | (f # q, dropped) \<Rightarrow> (Some f, p\<lparr>fp_queue := q, fp_dropped_stale := dropped, fp_presented := fp_presented p + 1\<rparr>))"

datatype pacer_op = Pace_Push nat | Pace_Pick nat

text \<open>A run, with the frames it presents and when.\<close>

fun pacer_run :: "pacer_op list \<Rightarrow> frame_pacer \<Rightarrow> (nat \<times> nat) list \<times> frame_pacer" where
  "pacer_run [] p = ([], p)"
| "pacer_run (Pace_Push f # ops) p = pacer_run ops (pacer_push f p)"
| "pacer_run (Pace_Pick now # ops) p = (case pick_present now p of
      (None, p') \<Rightarrow> pacer_run ops p'
    | (Some f, p') \<Rightarrow> (case pacer_run ops p' of (out, p'') \<Rightarrow> ((now, f) # out, p'')))"

fun pacer_pushed :: "pacer_op list \<Rightarrow> nat list" where
  "pacer_pushed [] = []"
| "pacer_pushed (Pace_Push f # ops) = f # pacer_pushed ops"
| "pacer_pushed (Pace_Pick _ # ops) = pacer_pushed ops"

lemma drop_overflow_suffix:
  "drop_overflow bound q d = (q', d') \<Longrightarrow> suffix q' q \<and> d' + length q' = d + length q \<and> (0 < bound \<longrightarrow> length q' < bound)"
  by (induction bound q d rule: drop_overflow.induct) (fastforce simp: suffix_Cons split: if_splits)+

lemma drop_stale_suffix:
  "drop_stale now age q d = (q', d') \<Longrightarrow> suffix q' q \<and> d' + length q' = d + length q \<and> (\<forall>f r. q' = f # r \<longrightarrow> now - f \<le> age)"
  by (induction now age q d rule: drop_stale.induct) (fastforce simp: suffix_Cons split: if_splits)+

lemma pacer_run_exact:
  assumes "pacer_run ops p = (out, p')" and "0 < fp_max_queue_frames p" and "length (fp_queue p) \<le> fp_max_queue_frames p"
  shows "subseq (map snd out @ fp_queue p') (fp_queue p @ pacer_pushed ops) \<and> length (fp_queue p') \<le> fp_max_queue_frames p \<and>
    fp_max_queue_frames p' = fp_max_queue_frames p \<and>
    (\<forall>(now, f) \<in> set out. now - f \<le> fp_max_queue_age_us p) \<and> fp_presented p' = fp_presented p + length out \<and>
    fp_dropped_stale p' + length out + length (fp_queue p') = fp_dropped_stale p + length (fp_queue p) + length (pacer_pushed ops)"
  using assms
proof (induction ops p arbitrary: out rule: pacer_run.induct)
  case (2 f ops p)
  obtain q d where q: "drop_overflow (fp_max_queue_frames p) (fp_queue p) (fp_dropped_stale p) = (q, d)" by fastforce
  note s = drop_overflow_suffix [OF q]
  have "subseq ((q @ [f]) @ pacer_pushed ops) (fp_queue p @ pacer_pushed (Pace_Push f # ops))"
    using s by (auto simp: suffix_def)
  moreover have "pacer_push f p = p\<lparr>fp_queue := q @ [f], fp_dropped_stale := d\<rparr>" by (simp add: pacer_push_def q)
  ultimately show ?case using 2 s by (auto intro: subseq_order.trans)
next
  case (3 now ops p)
  obtain q d where q: "drop_stale now (fp_max_queue_age_us p) (fp_queue p) (fp_dropped_stale p) = (q, d)" by fastforce
  note s = drop_stale_suffix [OF q]
  show ?case
  proof (cases q)
    case Nil
    have "pick_present now p = (None, p\<lparr>fp_queue := [], fp_dropped_stale := d\<rparr>)" by (simp add: pick_present_def q Nil)
    then show ?thesis using 3 s Nil by (auto intro: subseq_order.trans [OF _ list_emb_append2])
  next
    case (Cons f r)
    let ?p = "p\<lparr>fp_queue := r, fp_dropped_stale := d, fp_presented := fp_presented p + 1\<rparr>"
    have pick: "pick_present now p = (Some f, ?p)" by (simp add: pick_present_def q Cons)
    obtain out' p'' where r: "pacer_run ops ?p = (out', p'')" by fastforce
    have out: "out = (now, f) # out'" "p' = p''" using 3(3) pick r by simp_all
    have len: "length r \<le> fp_max_queue_frames p" using s Cons 3(5) by (auto simp: suffix_def)
    note IH = 3(2) [OF pick [symmetric] refl, of out', unfolded r, simplified]
    have sub: "subseq (f # map snd out' @ fp_queue p'') (f # r @ pacer_pushed ops)"
      using IH len 3(4) out by auto
    have "subseq (f # r @ pacer_pushed ops) (fp_queue p @ pacer_pushed ops)"
      using s Cons by (auto simp: suffix_def)
    then show ?thesis using IH sub s Cons len 3(4) out by (auto intro: subseq_order.trans)
  qed
qed simp

text \<open>
  From a new pacer: the frames presented and those still queued are frames pushed, in their order; a presented frame is not older
  than the limit; the queue stays within its bound; and every frame pushed was presented, is queued, or is counted as dropped.
\<close>

theorem pacer_bounded:
  "case pacer_run ops (pacer_new refresh frames) of (out, p) \<Rightarrow>
    subseq (map snd out @ fp_queue p) (pacer_pushed ops) \<and> length (fp_queue p) \<le> max frames 1 \<and> fp_presented p = length out \<and>
    list_all (\<lambda>(now, f). now - f \<le> fp_max_queue_age_us (pacer_new refresh frames)) out \<and>
    fp_dropped_stale p + fp_presented p + length (fp_queue p) = length (pacer_pushed ops)"
proof -
  obtain out p where r: "pacer_run ops (pacer_new refresh frames) = (out, p)" by fastforce
  have new: "fp_queue (pacer_new refresh frames) = []" "fp_max_queue_frames (pacer_new refresh frames) = max frames 1"
    "fp_dropped_stale (pacer_new refresh frames) = 0" "fp_presented (pacer_new refresh frames) = 0"
    by (simp_all add: pacer_new_def Let_def)
  show ?thesis unfolding r prod.case list_all_iff using pacer_run_exact [OF r, unfolded new] by simp
qed

section \<open>Tile composition\<close>

datatype tile_outcome = Tile_Applied | Tile_StaleEpoch | Tile_OutOfGrid | Tile_CrcMismatch | Tile_OverBudget

record stored_tile =
  st_bytes :: nat
  st_crc :: u32

type_synonym grid_pos = "u16 \<times> u16"

text \<open>The hash map of tiles is a list of entries, one for each position.\<close>

record qu_composition =
  qc_tile_w :: u16
  qc_tile_h :: u16
  qc_grid_cols :: u16
  qc_grid_rows :: u16
  qc_epoch :: u32
  qc_max_bytes :: nat
  qc_used_bytes :: nat
  qc_tiles :: "(grid_pos \<times> stored_tile) list"

definition qc_new :: "u16 \<Rightarrow> u16 \<Rightarrow> u16 \<Rightarrow> u16 \<Rightarrow> u32 \<Rightarrow> nat \<Rightarrow> qu_composition" where
  "qc_new tile_w tile_h grid_cols grid_rows epoch max_bytes = \<lparr>qc_tile_w = tile_w, qc_tile_h = tile_h, qc_grid_cols = grid_cols,
    qc_grid_rows = grid_rows, qc_epoch = epoch, qc_max_bytes = max_bytes, qc_used_bytes = 0, qc_tiles = []\<rparr>"

definition tiles_without :: "grid_pos \<Rightarrow> (grid_pos \<times> stored_tile) list \<Rightarrow> (grid_pos \<times> stored_tile) list" where
  "tiles_without pos ts = filter (\<lambda>t. fst t \<noteq> pos) ts"

definition qc_crc32 :: "bytes \<Rightarrow> u32" where
  "qc_crc32 bs = NOT (foldl (\<lambda>crc b. ((\<lambda>c. drop_bit 1 c XOR (0xEDB88320 AND - (c AND 1))) ^^ 8) (crc XOR ucast b)) 0xFFFFFFFF bs)"

text \<open>\<open>None\<close> is the panic of an underflow.\<close>

definition apply_tile :: "u32 \<Rightarrow> u16 \<Rightarrow> u16 \<Rightarrow> bytes \<Rightarrow> u32 \<Rightarrow> qu_composition \<Rightarrow> (tile_outcome \<times> qu_composition) option" where
  "apply_tile epoch col row decoded crc c = (
    if epoch \<noteq> qc_epoch c then Some (Tile_StaleEpoch, c)
    else if qc_grid_cols c \<le> col \<or> qc_grid_rows c \<le> row then Some (Tile_OutOfGrid, c)
    else if qc_crc32 decoded \<noteq> crc then Some (Tile_CrcMismatch, c)
    else let old = (case map_of (qc_tiles c) (col, row) of None \<Rightarrow> 0 | Some t \<Rightarrow> st_bytes t) in
      if qc_used_bytes c < old then None
      else let projected = qc_used_bytes c - old + length decoded in
        if projected > qc_max_bytes c then Some (Tile_OverBudget, c)
        else Some (Tile_Applied, c\<lparr>qc_used_bytes := projected,
          qc_tiles := ((col, row), \<lparr>st_bytes = length decoded, st_crc = crc\<rparr>) # tiles_without (col, row) (qc_tiles c)\<rparr>))"

fun remove_tiles :: "grid_pos list \<Rightarrow> qu_composition \<Rightarrow> qu_composition option" where
  "remove_tiles [] c = Some c"
| "remove_tiles (pos # ps) c = (case map_of (qc_tiles c) pos of None \<Rightarrow> remove_tiles ps c
    | Some t \<Rightarrow> if qc_used_bytes c < st_bytes t then None
      else remove_tiles ps (c\<lparr>qc_tiles := tiles_without pos (qc_tiles c), qc_used_bytes := qc_used_bytes c - st_bytes t\<rparr>))"

definition apply_invalidate :: "u32 \<Rightarrow> grid_pos list \<Rightarrow> qu_composition \<Rightarrow> (bool \<times> qu_composition) option" where
  "apply_invalidate epoch ps c = (if epoch \<noteq> qc_epoch c then Some (False, c) else map_option (Pair True) (remove_tiles ps c))"

definition qc_set_epoch :: "u32 \<Rightarrow> qu_composition \<Rightarrow> qu_composition" where
  "qc_set_epoch e c = c\<lparr>qc_epoch := e, qc_tiles := [], qc_used_bytes := 0\<rparr>"

datatype qc_op = Qc_Tile u32 u16 u16 bytes u32 | Qc_Invalidate u32 "grid_pos list" | Qc_Epoch u32

fun qc_step :: "qc_op \<Rightarrow> qu_composition \<Rightarrow> qu_composition option" where
  "qc_step (Qc_Tile epoch col row decoded crc) c = map_option snd (apply_tile epoch col row decoded crc c)"
| "qc_step (Qc_Invalidate epoch ps) c = map_option snd (apply_invalidate epoch ps c)"
| "qc_step (Qc_Epoch e) c = Some (qc_set_epoch e c)"

fun qc_run :: "qc_op list \<Rightarrow> qu_composition \<Rightarrow> qu_composition option" where
  "qc_run [] c = Some c"
| "qc_run (op # ops) c = Option.bind (qc_step op c) (qc_run ops)"

lemma qc_crc32_ieee: "qc_crc32 bs = ieee_crc32 bs"
proof -
  have "(\<lambda>c. drop_bit 1 c XOR (0xEDB88320 AND - (c AND 1))) = crc_bit" by (simp add: crc_bit_def fun_eq_iff)
  moreover have "(0xFFFFFFFF :: u32) = NOT 0" by code_simp
  ultimately show ?thesis
    unfolding qc_crc32_def ieee_crc32_def crc_byte_def [abs_def] foldl_conv_fold by metis
qed

definition qc_inv :: "qu_composition \<Rightarrow> bool" where
  "qc_inv c \<longleftrightarrow> distinct (map fst (qc_tiles c)) \<and> qc_used_bytes c = sum_list (map (st_bytes \<circ> snd) (qc_tiles c)) \<and>
    qc_used_bytes c \<le> qc_max_bytes c \<and>
    (\<forall>((col, row), t) \<in> set (qc_tiles c). col < qc_grid_cols c \<and> row < qc_grid_rows c)"

lemma without_lookup: "map_of ts pos = None \<Longrightarrow> tiles_without pos ts = ts"
  by (auto simp: tiles_without_def map_of_eq_None_iff intro: filter_True)

lemma without_sum:
  "distinct (map fst ts) \<Longrightarrow> map_of ts pos = Some t \<Longrightarrow>
    sum_list (map (st_bytes \<circ> snd) ts) = st_bytes t + sum_list (map (st_bytes \<circ> snd) (tiles_without pos ts))"
proof (induction ts)
  case (Cons a ts)
  show ?case
  proof (cases "fst a = pos")
    case True
    then have "map_of ts pos = None" using Cons.prems(1) by (auto simp: map_of_eq_None_iff)
    then show ?thesis using True Cons.prems(2) without_lookup [of ts pos] by (cases a) (auto simp: tiles_without_def)
  next
    case False
    then show ?thesis using Cons by (cases a) (auto simp: tiles_without_def)
  qed
qed simp

lemma without_distinct: "distinct (map fst ts) \<Longrightarrow> distinct (map fst (tiles_without pos ts)) \<and> pos \<notin> fst ` set (tiles_without pos ts)"
  by (auto simp: tiles_without_def distinct_map_filter)

lemma tile_kept: "x \<in> set (tiles_without pos ts) \<Longrightarrow> x \<in> set ts"
  by (simp add: tiles_without_def)

lemma apply_tile_inv:
  assumes inv: "qc_inv c"
  shows "\<exists>out c'. apply_tile epoch col row decoded crc c = Some (out, c') \<and> qc_inv c'"
proof (cases "map_of (qc_tiles c) (col, row)")
  case None
  then show ?thesis using inv without_distinct [of "qc_tiles c" "(col, row)"] without_lookup [OF None]
    by (auto simp: apply_tile_def qc_inv_def Let_def not_le None)
next
  case (Some t)
  have "sum_list (map (st_bytes \<circ> snd) (qc_tiles c)) = st_bytes t +
      sum_list (map (st_bytes \<circ> snd) (tiles_without (col, row) (qc_tiles c)))"
    using inv Some by (intro without_sum) (simp_all add: qc_inv_def)
  then show ?thesis using inv without_distinct [of "qc_tiles c" "(col, row)"] Some
    by (auto simp: apply_tile_def qc_inv_def Let_def not_le dest: tile_kept)
qed

lemma remove_tiles_inv: "qc_inv c \<Longrightarrow> \<exists>c'. remove_tiles ps c = Some c' \<and> qc_inv c' \<and> qc_epoch c' = qc_epoch c"
proof (induction ps arbitrary: c)
  case (Cons pos ps)
  show ?case
  proof (cases "map_of (qc_tiles c) pos")
    case None
    then show ?thesis using Cons by simp
  next
    case (Some t)
    let ?c = "c\<lparr>qc_tiles := tiles_without pos (qc_tiles c), qc_used_bytes := qc_used_bytes c - st_bytes t\<rparr>"
    have sum: "sum_list (map (st_bytes \<circ> snd) (qc_tiles c)) = st_bytes t +
        sum_list (map (st_bytes \<circ> snd) (tiles_without pos (qc_tiles c)))"
      using Cons.prems Some by (intro without_sum) (simp_all add: qc_inv_def)
    then have "qc_inv ?c" using Cons.prems without_distinct [of "qc_tiles c" pos]
      by (auto simp: qc_inv_def dest: tile_kept)
    then show ?thesis using Cons.IH [of ?c] Some sum Cons.prems by (auto simp: qc_inv_def)
  qed
qed simp

text \<open>
  No sequence of tiles, invalidations and epochs makes the byte counter underflow; it is the size of the tiles held, which are
  inside the grid, one for each position, and within the budget.
\<close>

theorem composition_bounded:
  "case qc_run ops (qc_new tw th cols rows epoch budget) of None \<Rightarrow> False
    | Some c \<Rightarrow> qc_used_bytes c = sum_list (map (st_bytes \<circ> snd) (qc_tiles c)) \<and> qc_used_bytes c \<le> qc_max_bytes c \<and>
      distinct (map fst (qc_tiles c)) \<and> list_all (\<lambda>t. fst (fst t) < qc_grid_cols c \<and> snd (fst t) < qc_grid_rows c) (qc_tiles c)"
proof -
  have step: "\<exists>c'. qc_step op c = Some c' \<and> qc_inv c'" if "qc_inv c" for op c
  proof (cases op)
    case (Qc_Tile epoch col row decoded crc)
    then show ?thesis using apply_tile_inv [OF that, of epoch col row decoded crc] by auto
  next
    case (Qc_Invalidate epoch ps)
    then show ?thesis using remove_tiles_inv [OF that, of ps] that by (auto simp: apply_invalidate_def)
  next
    case (Qc_Epoch e)
    then show ?thesis by (simp add: qc_set_epoch_def qc_inv_def)
  qed
  have "\<exists>c'. qc_run ops c = Some c' \<and> qc_inv c'" if "qc_inv c" for ops c
    using that
  proof (induction ops arbitrary: c)
    case (Cons op ops)
    then show ?case using step [of c op] by auto
  qed simp
  moreover have "qc_inv (qc_new tw th cols rows epoch budget)" by (simp add: qc_inv_def qc_new_def)
  ultimately obtain c where "qc_run ops (qc_new tw th cols rows epoch budget) = Some c" "qc_inv c" by blast
  then show ?thesis by (auto simp: qc_inv_def list_all_iff)
qed

section \<open>Immersive mode\<close>

definition wants_relative_capture :: "bool \<Rightarrow> bool \<Rightarrow> bool" where
  "wants_relative_capture engaged host_cursor_visible \<longleftrightarrow> engaged \<and> \<not> host_cursor_visible"

datatype frame_capture = Fc_Clip | Fc_Unclip | Fc_ReleaseAndExit

definition frame_capture_of :: "bool \<Rightarrow> bool \<Rightarrow> frame_capture" where
  "frame_capture_of our_window_foreground host_cursor_visible = (if \<not> our_window_foreground then Fc_ReleaseAndExit
    else if host_cursor_visible then Fc_Unclip else Fc_Clip)"

datatype immersive_action = Im_SetFullscreen bool | Im_Engage | Im_Release

datatype immersive = Im_Off | Im_Entering | Im_On

fun im_on_tick :: "immersive \<Rightarrow> bool \<Rightarrow> immersive \<times> immersive_action list" where
  "im_on_tick Im_Off toggle = (if toggle then (Im_Entering, [Im_SetFullscreen True]) else (Im_Off, []))"
| "im_on_tick Im_Entering toggle = (if toggle then (Im_Off, [Im_SetFullscreen False]) else (Im_On, [Im_Engage]))"
| "im_on_tick Im_On toggle = (if toggle then (Im_Off, [Im_Release, Im_SetFullscreen False]) else (Im_On, []))"

fun im_reset :: "immersive \<Rightarrow> immersive \<times> immersive_action list" where
  "im_reset Im_Off = (Im_Off, [])"
| "im_reset Im_Entering = (Im_Off, [Im_SetFullscreen False])"
| "im_reset Im_On = (Im_Off, [Im_Release, Im_SetFullscreen False])"

text \<open>The shell that executes the actions: whether it is in fullscreen and whether the mouse is captured.\<close>

fun shell_after :: "bool \<times> bool \<Rightarrow> immersive_action \<Rightarrow> bool \<times> bool" where
  "shell_after (full, captured) (Im_SetFullscreen b) = (b, captured)"
| "shell_after (full, captured) Im_Engage = (full, True)"
| "shell_after (full, captured) Im_Release = (full, False)"

datatype im_input = Im_Tick bool | Im_Reset

fun im_step :: "immersive \<times> bool \<times> bool \<Rightarrow> im_input \<Rightarrow> immersive \<times> bool \<times> bool" where
  "im_step (m, shell) (Im_Tick toggle) = (case im_on_tick m toggle of (m', acts) \<Rightarrow> (m', foldl shell_after shell acts))"
| "im_step (m, shell) Im_Reset = (case im_reset m of (m', acts) \<Rightarrow> (m', foldl shell_after shell acts))"

text \<open>The shell is in fullscreen exactly while the mode is not off, and the mouse is captured exactly while it is on.\<close>

lemma immersive_in_step:
  "foldl im_step (Im_Off, False, False) is = (m, full, captured) \<Longrightarrow> full = (m \<noteq> Im_Off) \<and> captured = (m = Im_On)"
proof (induction "is" arbitrary: m full captured rule: rev_induct)
  case (snoc i "is")
  obtain m0 f0 c0 where s: "foldl im_step (Im_Off, False, False) is = (m0, f0, c0)" by (metis prod_cases3)
  then show ?case using snoc.IH [OF s] snoc.prems by (cases m0; cases i) (auto split: if_splits)
qed simp

section \<open>Touch contacts\<close>

definition MAX_CONTACTS :: nat where "MAX_CONTACTS = 10"
definition PEN_PRESSURE_MAX :: u16 where "PEN_PRESSURE_MAX = 1024"

datatype touch_phase = Touch_Down | Touch_Move | Touch_Up | Touch_Cancel

datatype contact_outcome = Started | Updated | Ended | Contact_Rejected

record contact =
  ct_id :: u32
  ct_x :: "32 word"
  ct_y :: "32 word"

type_synonym contact_tracker = "contact list"

definition is_down :: "u32 \<Rightarrow> contact_tracker \<Rightarrow> bool" where
  "is_down i cs \<longleftrightarrow> list_ex (\<lambda>c. ct_id c = i) cs"

fun move_contact :: "u32 \<Rightarrow> 32 word \<Rightarrow> 32 word \<Rightarrow> contact_tracker \<Rightarrow> contact_tracker" where
  "move_contact i x y [] = []"
| "move_contact i x y (c # cs) = (if ct_id c = i then c\<lparr>ct_x := x, ct_y := y\<rparr> # cs else c # move_contact i x y cs)"

fun remove_contact :: "u32 \<Rightarrow> contact_tracker \<Rightarrow> contact_tracker" where
  "remove_contact i [] = []"
| "remove_contact i (c # cs) = (if ct_id c = i then cs else c # remove_contact i cs)"

fun apply_touch :: "u32 \<Rightarrow> touch_phase \<Rightarrow> 32 word \<Rightarrow> 32 word \<Rightarrow> contact_tracker \<Rightarrow> contact_outcome \<times> contact_tracker" where
  "apply_touch i Touch_Down x y cs = (if is_down i cs \<or> MAX_CONTACTS \<le> length cs then (Contact_Rejected, cs)
    else (Started, cs @ [\<lparr>ct_id = i, ct_x = x, ct_y = y\<rparr>]))"
| "apply_touch i Touch_Move x y cs = (if is_down i cs then (Updated, move_contact i x y cs) else (Contact_Rejected, cs))"
| "apply_touch i Touch_Up x y cs = (if is_down i cs then (Ended, remove_contact i cs) else (Contact_Rejected, cs))"
| "apply_touch i Touch_Cancel x y cs = (if is_down i cs then (Ended, remove_contact i cs) else (Contact_Rejected, cs))"

definition cancel_all :: "contact_tracker \<Rightarrow> nat \<times> contact_tracker" where
  "cancel_all cs = (length cs, [])"

definition clamp_tilt :: "32 word \<Rightarrow> 8 word" where
  "clamp_tilt t = word_of_int (max (- 90) (min (sint t) 90))"

definition normalize_pen :: "u16 \<Rightarrow> 32 word \<Rightarrow> 32 word \<Rightarrow> u16 \<times> 8 word \<times> 8 word" where
  "normalize_pen pressure tilt_x tilt_y = (min pressure PEN_PRESSURE_MAX, clamp_tilt tilt_x, clamp_tilt tilt_y)"

definition transform_contact :: "32 word \<Rightarrow> 32 word \<Rightarrow> 32 word \<Rightarrow> 32 word \<Rightarrow> 32 word \<Rightarrow> 32 word \<Rightarrow> (32 word \<times> 32 word) option" where
  "transform_contact x y client_w client_h stream_w stream_h = (if sint client_w \<le> 0 \<or> sint client_h \<le> 0 then None
    else Some (word_of_int ((sint x * sint stream_w) sdiv sint client_w), word_of_int ((sint y * sint stream_h) sdiv sint client_h)))"

datatype touch_op = Touch_At u32 touch_phase "32 word" "32 word" | Cancel_All

fun touch_step :: "contact_tracker \<Rightarrow> touch_op \<Rightarrow> contact_tracker" where
  "touch_step cs (Touch_At i phase x y) = snd (apply_touch i phase x y cs)"
| "touch_step cs Cancel_All = snd (cancel_all cs)"

lemma move_contact_ids: "map ct_id (move_contact i x y cs) = map ct_id cs"
  by (induction cs) simp_all

lemma remove_contact_ids: "map ct_id (remove_contact i cs) = remove1 i (map ct_id cs)"
  by (induction cs) simp_all

text \<open>The contacts are distinct and at most ten, and a pen sample is in its range.\<close>

lemma contacts_bounded:
  "distinct (map ct_id (foldl touch_step [] ops)) \<and> length (foldl touch_step [] ops) \<le> MAX_CONTACTS"
proof (induction ops rule: rev_induct)
  case (snoc op ops)
  let ?cs = "foldl touch_step [] ops"
  have move: "length (move_contact i x y cs) = length cs" for i x y cs by (induction cs) simp_all
  have gone: "length (remove_contact i cs) \<le> length cs" for i cs by (induction cs) auto
  show ?case
  proof (cases op)
    case (Touch_At i phase x y)
    then show ?thesis using snoc gone [of i ?cs]
      by (cases phase) (auto simp: move move_contact_ids remove_contact_ids is_down_def list_ex_iff)
  next
    case Cancel_All
    then show ?thesis by (simp add: cancel_all_def)
  qed
qed simp

lemma pen_in_range:
  "case normalize_pen p tx ty of (p', tx', ty') \<Rightarrow> p' \<le> PEN_PRESSURE_MAX \<and> - 90 \<le> sint tx' \<and> sint tx' \<le> 90 \<and> - 90 \<le> sint ty' \<and> sint ty' \<le> 90"
proof -
  have "sint (clamp_tilt t) = max (- 90) (min (sint t) 90)" for t
    by (simp add: clamp_tilt_def signed_of_int signed_take_bit_int_eq_self)
  then show ?thesis by (simp add: normalize_pen_def)
qed

section \<open>Microphone\<close>

datatype mic_permission = Mic_Prompt | Mic_Granted | Mic_Denied

record microphone_gate =
  mg_permission :: mic_permission
  mg_muted :: bool
  mg_device :: "u64 option"
  mg_session_active :: bool

definition mg_new :: microphone_gate where
  "mg_new = \<lparr>mg_permission = Mic_Prompt, mg_muted = False, mg_device = None, mg_session_active = False\<rparr>"

definition can_capture :: "microphone_gate \<Rightarrow> bool" where
  "can_capture g \<longleftrightarrow> mg_permission g = Mic_Granted \<and> \<not> mg_muted g \<and> mg_device g \<noteq> None \<and> mg_session_active g"

datatype mic_op = Mg_SetPermission mic_permission | Mg_Mute | Mg_Unmute | Mg_SetDevice "u64 option" | Mg_SetActive bool
  | Mg_FailClosed | Mg_Reconnect

fun mg_step :: "microphone_gate \<Rightarrow> mic_op \<Rightarrow> microphone_gate" where
  "mg_step g (Mg_SetPermission p) = g\<lparr>mg_permission := p\<rparr>"
| "mg_step g Mg_Mute = g\<lparr>mg_muted := True\<rparr>"
| "mg_step g Mg_Unmute = g\<lparr>mg_muted := False\<rparr>"
| "mg_step g (Mg_SetDevice d) = g\<lparr>mg_device := d\<rparr>"
| "mg_step g (Mg_SetActive b) = g\<lparr>mg_session_active := b\<rparr>"
| "mg_step g Mg_FailClosed = g\<lparr>mg_muted := True\<rparr>"
| "mg_step g Mg_Reconnect = g\<lparr>mg_session_active := False, mg_device := None\<rparr>"

text \<open>After a mute or a failure nothing is captured until an unmute; after a reconnect not before a device is set and the session
  is active again.\<close>

lemma muted_until_unmuted:
  assumes "op = Mg_Mute \<or> op = Mg_FailClosed" and "can_capture (foldl mg_step g (pre @ op # post))"
  shows "Mg_Unmute \<in> set post"
proof (rule ccontr)
  assume "Mg_Unmute \<notin> set post"
  moreover have "mg_muted g' \<Longrightarrow> Mg_Unmute \<notin> set ops \<Longrightarrow> mg_muted (foldl mg_step g' ops)" for g' ops
  proof (induction ops arbitrary: g')
    case (Cons o' ops)
    then show ?case by (cases o') auto
  qed simp
  moreover have "mg_muted (mg_step (foldl mg_step g pre) op)" using assms(1) by auto
  ultimately show False using assms(2) by (simp add: can_capture_def)
qed

lemma reconnect_needs_both:
  assumes "can_capture (foldl mg_step g (pre @ Mg_Reconnect # post))"
  shows "Mg_SetActive True \<in> set post \<and> (\<exists>d. Mg_SetDevice (Some d) \<in> set post)"
proof -
  have act: "\<not> mg_session_active g' \<Longrightarrow> Mg_SetActive True \<notin> set ops \<Longrightarrow> \<not> mg_session_active (foldl mg_step g' ops)" for g' ops
  proof (induction ops arbitrary: g')
    case (Cons o' ops)
    then show ?case by (cases o') auto
  qed simp
  have dev: "mg_device g' = None \<Longrightarrow> (\<And>d. Mg_SetDevice (Some d) \<notin> set ops) \<Longrightarrow> mg_device (foldl mg_step g' ops) = None" for g' ops
  proof (induction ops arbitrary: g')
    case (Cons o' ops)
    have "mg_device (mg_step g' o') = None"
    proof (cases o')
      case (Mg_SetDevice x)
      then show ?thesis using Cons.prems(2) by (cases x) auto
    qed (use Cons.prems(1) in simp_all)
    then show ?case using Cons.IH Cons.prems(2) by simp
  qed simp
  let ?g = "mg_step (foldl mg_step g pre) Mg_Reconnect"
  have "Mg_SetActive True \<in> set post" using assms act [of ?g post] by (auto simp: can_capture_def)
  moreover have "\<exists>d. Mg_SetDevice (Some d) \<in> set post"
  proof (rule ccontr)
    assume "\<nexists>d. Mg_SetDevice (Some d) \<in> set post"
    then have "mg_device (foldl mg_step ?g post) = None" by (intro dev) auto
    then show False using assms by (simp add: can_capture_def)
  qed
  ultimately show ?thesis by blast
qed

end
