(* ===== verification/Cursor.thy ===== *)
theory Cursor
  imports Desktop_Control
begin

text \<open>
  The cursor channel: the encoder of the host (\<open>streamer/src/transport/cursor_wire.rs\<close>) and the decoder, the shared readback and
  the rendering authority of the client (\<open>client-transport/src/cursor.rs\<close>). Coordinates are \<open>i32\<close>, as words. Shown: what the
  host encodes is what the client decodes, also from a longer buffer; an older frame decodes without a shape; one side at most
  draws the cursor.
\<close>

definition CURSOR_KIND_POS :: u8 where "CURSOR_KIND_POS = 0"
definition CURSOR_KIND_SHAPE :: u8 where "CURSOR_KIND_SHAPE = 1"
definition CURSOR_POS_LEN :: nat where "CURSOR_POS_LEN = 14"
definition CURSOR_POS_V2_LEN :: nat where "CURSOR_POS_V2_LEN = 18"
definition CURSOR_SHAPE_HEADER_LEN :: nat where "CURSOR_SHAPE_HEADER_LEN = 17"
definition CURSOR_SHAPE_MAX_PNG_LEN :: nat where "CURSOR_SHAPE_MAX_PNG_LEN = 262144"

record cursor_pos =
  cp_visible :: bool
  cp_x :: u32
  cp_y :: u32
  cp_vw :: u16
  cp_vh :: u16
  cp_shape_id :: u32

record cursor_shape =
  sh_shape_id :: u32
  sh_w :: u16
  sh_h :: u16
  sh_hot_x :: u16
  sh_hot_y :: u16
  sh_png :: bytes

definition encode_pos :: "cursor_pos \<Rightarrow> bytes" where
  "encode_pos p = [CURSOR_KIND_POS, if cp_visible p then 1 else 0] @ le32 (cp_x p) @ le32 (cp_y p) @ le16 (cp_vw p) @
    le16 (cp_vh p) @ le32 (cp_shape_id p)"

definition encode_shape :: "u32 \<Rightarrow> u16 \<Rightarrow> u16 \<Rightarrow> u16 \<Rightarrow> u16 \<Rightarrow> bytes \<Rightarrow> bytes option" where
  "encode_shape shape_id w h hot_x hot_y png = (if length png > CURSOR_SHAPE_MAX_PNG_LEN then None
    else Some ([CURSOR_KIND_SHAPE] @ le32 shape_id @ le16 w @ le16 h @ le16 hot_x @ le16 hot_y @ le32 (of_nat (length png)) @ png))"

definition decode_pos :: "bytes \<Rightarrow> cursor_pos option" where
  "decode_pos bs = (if bs = [] \<or> bs ! 0 \<noteq> CURSOR_KIND_POS then None
    else if length bs < CURSOR_POS_LEN then None
    else Some \<lparr>cp_visible = (bs ! 1 \<noteq> 0),
      cp_x = u32_of (bs ! 2) (bs ! 3) (bs ! 4) (bs ! 5),
      cp_y = u32_of (bs ! 6) (bs ! 7) (bs ! 8) (bs ! 9),
      cp_vw = u16_of (bs ! 10) (bs ! 11), cp_vh = u16_of (bs ! 12) (bs ! 13),
      cp_shape_id = (if CURSOR_POS_V2_LEN \<le> length bs then u32_of (bs ! 14) (bs ! 15) (bs ! 16) (bs ! 17) else 0)\<rparr>)"

definition decode_shape :: "bytes \<Rightarrow> cursor_shape option" where
  "decode_shape bs = (if length bs < CURSOR_SHAPE_HEADER_LEN \<or> bs ! 0 \<noteq> CURSOR_KIND_SHAPE then None
    else let png_len = unat (u32_of (bs ! 13) (bs ! 14) (bs ! 15) (bs ! 16)) in
      if png_len > CURSOR_SHAPE_MAX_PNG_LEN then None
      else if length bs < CURSOR_SHAPE_HEADER_LEN + png_len then None
      else Some \<lparr>sh_shape_id = u32_of (bs ! 1) (bs ! 2) (bs ! 3) (bs ! 4),
        sh_w = u16_of (bs ! 5) (bs ! 6), sh_h = u16_of (bs ! 7) (bs ! 8),
        sh_hot_x = u16_of (bs ! 9) (bs ! 10), sh_hot_y = u16_of (bs ! 11) (bs ! 12),
        sh_png = subslice CURSOR_SHAPE_HEADER_LEN (CURSOR_SHAPE_HEADER_LEN + png_len) bs\<rparr>)"

section \<open>Readback\<close>

record cursor_shared =
  cu_visible :: bool
  cu_pos :: u64
  cu_shape_id :: u32
  cu_shape :: "cursor_shape option"

definition cu_default :: cursor_shared where
  "cu_default = \<lparr>cu_visible = True, cu_pos = 0, cu_shape_id = 0, cu_shape = None\<rparr>"

definition pack_pos :: "u32 \<Rightarrow> u32 \<Rightarrow> u64" where
  "pack_pos x y = push_bit 32 (ucast x) OR ucast y"

definition cu_store :: "cursor_pos \<Rightarrow> cursor_shared \<Rightarrow> cursor_shared" where
  "cu_store p s = s\<lparr>cu_visible := cp_visible p, cu_pos := pack_pos (cp_x p) (cp_y p), cu_shape_id := cp_shape_id p\<rparr>"

definition cu_position :: "cursor_shared \<Rightarrow> u32 \<times> u32" where
  "cu_position s = (ucast (drop_bit 32 (cu_pos s)), ucast (cu_pos s))"

definition cu_store_shape :: "cursor_shape \<Rightarrow> cursor_shared \<Rightarrow> cursor_shared" where
  "cu_store_shape sh s = s\<lparr>cu_shape := Some sh\<rparr>"

section \<open>Rendering authority\<close>

record cursor_authority =
  ca_lease :: ownership_lease
  ca_owner :: cursor_owner
  ca_latest_shape_id :: u32
  ca_applied_shape_id :: "u32 option"
  ca_visible :: bool

definition ca_default :: cursor_authority where
  "ca_default = \<lparr>ca_lease = lease_new, ca_owner = OwnerHost, ca_latest_shape_id = 0, ca_applied_shape_id = None, ca_visible = True\<rparr>"

definition apply_authority :: "u32 \<Rightarrow> cursor_owner \<Rightarrow> cursor_authority \<Rightarrow> bool \<times> cursor_authority" where
  "apply_authority generation owner a = (case lease_admit generation (ca_lease a) of
    (l, admitted) \<Rightarrow> if admitted then (True, a\<lparr>ca_lease := l, ca_owner := owner\<rparr>) else (False, a\<lparr>ca_lease := l\<rparr>))"

definition render_client :: "cursor_authority \<Rightarrow> bool" where
  "render_client a \<longleftrightarrow> ca_owner a = OwnerClient"

definition host_baked :: "cursor_authority \<Rightarrow> bool" where
  "host_baked a \<longleftrightarrow> ca_owner a = OwnerHost"

definition note_shape :: "u32 \<Rightarrow> cursor_authority \<Rightarrow> cursor_authority" where
  "note_shape shape_id a = a\<lparr>ca_latest_shape_id := shape_id\<rparr>"

definition set_cursor_visible :: "bool \<Rightarrow> cursor_authority \<Rightarrow> cursor_authority" where
  "set_cursor_visible v a = a\<lparr>ca_visible := v\<rparr>"

definition take_shape_change :: "cursor_authority \<Rightarrow> u32 option \<times> cursor_authority" where
  "take_shape_change a = (if \<not> render_client a \<or> ca_latest_shape_id a = 0 then (None, a)
    else if ca_applied_shape_id a = Some (ca_latest_shape_id a) then (None, a)
    else (Some (ca_latest_shape_id a), a\<lparr>ca_applied_shape_id := Some (ca_latest_shape_id a)\<rparr>))"

definition cursor_reconnect :: "cursor_authority \<Rightarrow> cursor_authority" where
  "cursor_reconnect a = a\<lparr>ca_lease := lease_release (ca_lease a), ca_owner := OwnerHost, ca_applied_shape_id := None\<rparr>"

section \<open>Round trips\<close>

lemma encode_pos_Cons:
  "encode_pos p @ rest = CURSOR_KIND_POS # (if cp_visible p then 1 else 0) # le32 (cp_x p) @ le32 (cp_y p) @ le16 (cp_vw p) @
    le16 (cp_vh p) @ le32 (cp_shape_id p) @ rest"
  by (simp add: encode_pos_def)

lemma decode_encoded_pos: "decode_pos (encode_pos p @ rest) = Some p"
  by (simp add: decode_pos_def encode_pos_Cons le16_def le32_def CURSOR_POS_LEN_def CURSOR_POS_V2_LEN_def)

lemma decode_encoded_shape:
  assumes "length png \<le> CURSOR_SHAPE_MAX_PNG_LEN"
  shows "\<exists>bs. encode_shape i w h hx hy png = Some bs \<and> decode_shape (bs @ rest) =
    Some \<lparr>sh_shape_id = i, sh_w = w, sh_h = h, sh_hot_x = hx, sh_hot_y = hy, sh_png = png\<rparr>"
proof -
  let ?n = "of_nat (length png) :: u32"
  define hdr where "hdr = [CURSOR_KIND_SHAPE] @ le32 i @ le16 w @ le16 h @ le16 hx @ le16 hy @ le32 ?n"
  have n: "unat ?n = length png" using assms by (simp add: unat_of_nat CURSOR_SHAPE_MAX_PNG_LEN_def)
  have len: "length hdr = 17" by (simp add: hdr_def)
  have nth: "(hdr @ png @ rest) ! j = hdr ! j" if "j < 17" for j using that len by (simp add: nth_append)
  have sub: "subslice 17 (17 + length png) (hdr @ png @ rest) = png" using len by (simp add: subslice_def)
  have "encode_shape i w h hx hy png = Some (hdr @ png)" using assms by (simp add: encode_shape_def hdr_def)
  moreover have "decode_shape (hdr @ png @ rest) =
      Some \<lparr>sh_shape_id = i, sh_w = w, sh_h = h, sh_hot_x = hx, sh_hot_y = hy, sh_png = png\<rparr>"
  proof -
    have "u32_of (hdr ! 13) (hdr ! 14) (hdr ! 15) (hdr ! 16) = ?n" "hdr ! 0 = CURSOR_KIND_SHAPE"
      "u32_of (hdr ! 1) (hdr ! 2) (hdr ! 3) (hdr ! 4) = i" "u16_of (hdr ! 5) (hdr ! 6) = w" "u16_of (hdr ! 7) (hdr ! 8) = h"
      "u16_of (hdr ! 9) (hdr ! 10) = hx" "u16_of (hdr ! 11) (hdr ! 12) = hy"
      by (simp_all add: hdr_def le16_def le32_def)
    then show ?thesis
      using assms by (simp add: decode_shape_def CURSOR_SHAPE_HEADER_LEN_def nth len n sub Let_def)
  qed
  ultimately show ?thesis by simp
qed

lemma old_pos_frame: "decode_pos (take 14 (encode_pos p)) = Some (p\<lparr>cp_shape_id := 0\<rparr>)"
  by (simp add: decode_pos_def encode_pos_def le16_def le32_def CURSOR_POS_LEN_def CURSOR_POS_V2_LEN_def)

interpretation cursor_position: codec encode_pos decode_pos "\<lambda>_. True"
  by unfold_locales (rule decode_encoded_pos)

lemma position_packed: "cu_position (cu_store p s) = (cp_x p, cp_y p)"
proof -
  have "ucast (drop_bit 32 (pack_pos x y)) = x" "ucast (pack_pos x y) = y" for x y
    by (rule bit_word_eqI; auto simp: pack_pos_def bit_simps dest: bit_imp_le_length)+
  then show ?thesis by (simp add: cu_position_def cu_store_def)
qed

text \<open>
  A position or shape the host encodes is the one the client decodes, whatever follows it in the buffer, and the position read
  back from the shared word is the one stored; a frame of the first version decodes with no shape; a shape over the limit is not
  sent.
\<close>

theorem cursor_roundtrip:
  "decode_pos (encode_pos p @ rest) = Some p \<and> decode_pos (take 14 (encode_pos p)) = Some (p\<lparr>cp_shape_id := 0\<rparr>) \<and>
    cu_position (cu_store p s) = (cp_x p, cp_y p) \<and>
    (case encode_shape i w h hx hy png of None \<Rightarrow> length png > CURSOR_SHAPE_MAX_PNG_LEN
      | Some bs \<Rightarrow> decode_shape (bs @ rest) =
          Some \<lparr>sh_shape_id = i, sh_w = w, sh_h = h, sh_hot_x = hx, sh_hot_y = hy, sh_png = png\<rparr>)"
  using decode_encoded_pos old_pos_frame position_packed decode_encoded_shape [of png i w h hx hy rest]
  by (auto simp: encode_shape_def)

text \<open>
  The steps of a client. A shape is handed out only while the client draws, each id once until it changes or the connection is
  renewed; after a reconnect the next claim by the client brings the last shape back.
\<close>

datatype cursor_op = Cur_Authority u32 cursor_owner | Cur_Shape u32 | Cur_Visible bool | Cur_Take | Cur_Reconnect

fun cursor_step :: "cursor_authority \<Rightarrow> cursor_op \<Rightarrow> cursor_authority \<times> u32 option" where
  "cursor_step a (Cur_Authority g owner) = (snd (apply_authority g owner a), None)"
| "cursor_step a (Cur_Shape i) = (note_shape i a, None)"
| "cursor_step a (Cur_Visible v) = (set_cursor_visible v a, None)"
| "cursor_step a Cur_Take = (snd (take_shape_change a), fst (take_shape_change a))"
| "cursor_step a Cur_Reconnect = (cursor_reconnect a, None)"

lemma one_cursor: "render_client a \<noteq> host_baked a"
  by (cases "ca_owner a") (simp_all add: render_client_def host_baked_def)

lemma shape_taken_once:
  assumes "cursor_step a Cur_Take = (a', Some i)"
  shows "render_client a \<and> i = ca_latest_shape_id a \<and> i \<noteq> 0 \<and> fst (take_shape_change a') = None"
  using assms by (auto simp: take_shape_change_def render_client_def split: if_splits)

lemma shape_restored:
  assumes "ca_latest_shape_id a \<noteq> 0"
  shows "fst (take_shape_change (snd (apply_authority g OwnerClient (cursor_reconnect a)))) = Some (ca_latest_shape_id a)"
  using assms by (simp add: apply_authority_def cursor_reconnect_def lease_admit_def lease_release_def take_shape_change_def
      render_client_def)

end
