(* ===== verification/File_Transfer.thy ===== *)
theory File_Transfer
  imports Updater
begin

text \<open>
  The safety core of file transfer (\<open>common/src/file_transfer.rs\<close>): the check of a destination name, and the transfer of a file as
  a state machine. Shown: an accepted name is one safe path component, and a file is committed only with consent, within the
  quota, complete and with a matching hash.
\<close>

definition RESERVED :: "rust_string list" where
  "RESERVED = map lit [''CON'', ''PRN'', ''AUX'', ''NUL'', ''COM1'', ''COM2'', ''COM3'', ''COM4'', ''COM5'', ''COM6'', ''COM7'',
    ''COM8'', ''COM9'', ''LPT1'', ''LPT2'', ''LPT3'', ''LPT4'', ''LPT5'', ''LPT6'', ''LPT7'', ''LPT8'', ''LPT9'']"

definition is_bidi_or_format :: "nat \<Rightarrow> bool" where
  "is_bidi_or_format c \<longleftrightarrow> 0x200B \<le> c \<and> c \<le> 0x200F \<or> 0x202A \<le> c \<and> c \<le> 0x202E \<or> 0x2066 \<le> c \<and> c \<le> 0x2069 \<or> c = 0xFEFF"

text \<open>\<open>char::is_control\<close>: the characters of category Cc.\<close>

definition is_control :: "nat \<Rightarrow> bool" where
  "is_control c \<longleftrightarrow> c < 0x20 \<or> 0x7F \<le> c \<and> c \<le> 0x9F"

definition unsafe_char :: "nat \<Rightarrow> bool" where
  "unsafe_char c \<longleftrightarrow> c \<in> {47, 92, 0, 58, 60, 62, 34, 124, 63, 42} \<or> is_control c \<or> is_bidi_or_format c"

definition name_stem :: "rust_string \<Rightarrow> rust_string" where
  "name_stem name = (case split_on (\<lambda>c. c = 46) name of [] \<Rightarrow> name | s # _ \<Rightarrow> s)"

definition safe_dest_name :: "rust_string \<Rightarrow> rust_string option" where
  "safe_dest_name name = (
    if name = [] \<or> length (as_bytes name) > 255 then None
    else if list_ex unsafe_char name then None
    else if name = [46] \<or> name = [46, 46] then None
    else if list_ex (\<lambda>r. eq_ignore_ascii_case r (name_stem name)) RESERVED then None
    else if last name = 32 \<or> last name = 46 then None
    else Some name)"

datatype transfer_phase = Ft_Offered | Ft_Accepted | Ft_Complete | Ft_Cancelled

record file_transfer =
  ft_phase :: transfer_phase
  ft_total :: u64
  ft_received :: u64

definition ft_offer :: "u64 \<Rightarrow> u64 \<Rightarrow> file_transfer" where
  "ft_offer tot quota = \<lparr>ft_phase = (if tot > quota then Ft_Cancelled else Ft_Offered), ft_total = tot, ft_received = 0\<rparr>"

definition ft_accept :: "file_transfer \<Rightarrow> bool \<times> file_transfer" where
  "ft_accept t = (if ft_phase t = Ft_Offered then (True, t\<lparr>ft_phase := Ft_Accepted\<rparr>) else (False, t))"

definition ft_receive :: "u64 \<Rightarrow> file_transfer \<Rightarrow> bool \<times> file_transfer" where
  "ft_receive len t = (if ft_phase t \<noteq> Ft_Accepted then (False, t)
    else let next_count = sat_add (ft_received t) len in
      if next_count > ft_total t then (False, t\<lparr>ft_phase := Ft_Cancelled\<rparr>) else (True, t\<lparr>ft_received := next_count\<rparr>))"

definition fully_received :: "file_transfer \<Rightarrow> bool" where
  "fully_received t \<longleftrightarrow> ft_phase t = Ft_Accepted \<and> ft_received t = ft_total t"

definition ft_commit :: "bool \<Rightarrow> file_transfer \<Rightarrow> bool \<times> file_transfer" where
  "ft_commit hash_matches t = (
    if ft_phase t = Ft_Accepted \<and> ft_received t = ft_total t \<and> hash_matches then (True, t\<lparr>ft_phase := Ft_Complete\<rparr>)
    else if ft_phase t = Ft_Accepted then (False, t\<lparr>ft_phase := Ft_Cancelled\<rparr>) else (False, t))"

definition ft_cancel :: "file_transfer \<Rightarrow> file_transfer" where
  "ft_cancel t = (if ft_phase t = Ft_Offered \<or> ft_phase t = Ft_Accepted then t\<lparr>ft_phase := Ft_Cancelled\<rparr> else t)"

datatype ft_op = Ft_Op_Accept | Ft_Op_Receive u64 | Ft_Op_Commit bool | Ft_Op_Cancel

fun ft_step :: "file_transfer \<Rightarrow> ft_op \<Rightarrow> file_transfer" where
  "ft_step t Ft_Op_Accept = snd (ft_accept t)"
| "ft_step t (Ft_Op_Receive len) = snd (ft_receive len t)"
| "ft_step t (Ft_Op_Commit h) = snd (ft_commit h t)"
| "ft_step t Ft_Op_Cancel = ft_cancel t"

section \<open>Names\<close>

text \<open>
  An accepted name is unchanged, stays one component when it is joined to a directory, passes the check for component names of
  the updater, and has no reserved stem.
\<close>

theorem safe_name_one_component:
  assumes "safe_dest_name name = Some dest"
  shows "dest = name \<and> path_parts name = [name] \<and> validate_component_name name = Inr () \<and> name \<noteq> [46, 46] \<and>
    \<not> list_ex (\<lambda>r. eq_ignore_ascii_case r (name_stem name)) RESERVED"
proof -
  have safe: "\<not> list_ex unsafe_char name" and dots: "name \<noteq> [46]" "name \<noteq> [46, 46]" "name \<noteq> []" and dest: "dest = name"
    and stem: "\<not> list_ex (\<lambda>r. eq_ignore_ascii_case r (name_stem name)) RESERVED"
    using assms by (auto simp: safe_dest_name_def split: if_splits)
  have "list_all (\<lambda>c. \<not> is_sep c) name" using safe by (auto simp: list_all_iff list_ex_iff unsafe_char_def is_sep_def)
  then have split: "split_on is_sep name = [name]" by (rule split_on_no_sep)
  have ok: "c \<noteq> 47 \<and> c \<noteq> 92 \<and> c \<noteq> 58" if "c \<in> set name" for c
    using safe that by (auto simp: list_ex_iff unsafe_char_def)
  have "validate_component_name name = Inr ()"
    using ok dots split by (cases name) (auto simp: validate_component_name_def Let_def split: list.splits)
  then show ?thesis using dest stem dots split by (simp add: path_parts_def)
qed

theorem safe_name_one_component_witness: "path_parts (lit ''a.txt'') = [lit ''a.txt'']"
proof -
  have "safe_dest_name (lit ''a.txt'') = Some (lit ''a.txt'')"
    by (simp add: safe_dest_name_def lit_def as_bytes_def utf8_enc_def unsafe_char_def is_control_def is_bidi_or_format_def RESERVED_def
        name_stem_def eq_ignore_ascii_case_def ascii_lower_def)
  then show ?thesis using safe_name_one_component by blast
qed

section \<open>Transfers\<close>

definition ft_inv :: "u64 \<Rightarrow> u64 \<Rightarrow> ft_op list \<Rightarrow> file_transfer \<Rightarrow> bool" where
  "ft_inv tot quota ops t \<longleftrightarrow> ft_total t = tot \<and> ft_received t \<le> tot \<and>
    (ft_phase t = Ft_Accepted \<or> ft_phase t = Ft_Complete \<longrightarrow> tot \<le> quota \<and> Ft_Op_Accept \<in> set ops) \<and>
    (ft_phase t = Ft_Offered \<longrightarrow> tot \<le> quota) \<and>
    (ft_phase t = Ft_Complete \<longrightarrow> ft_received t = tot \<and> Ft_Op_Commit True \<in> set ops)"

lemma ft_step_inv: "ft_inv tot quota ops t \<Longrightarrow> ft_inv tot quota (ops @ [op]) (ft_step t op)"
  by (cases op) (auto simp: ft_inv_def ft_accept_def ft_receive_def ft_commit_def ft_cancel_def Let_def)

text \<open>A transfer is complete only after consent, within its quota, with all its bytes and a matching hash.\<close>

lemma transfer_committed:
  assumes "ft_phase (foldl ft_step (ft_offer tot quota) ops) = Ft_Complete"
  shows "tot \<le> quota \<and> ft_received (foldl ft_step (ft_offer tot quota) ops) = tot \<and>
    Ft_Op_Accept \<in> set ops \<and> Ft_Op_Commit True \<in> set ops"
proof -
  have "ft_inv tot quota ops (foldl ft_step (ft_offer tot quota) ops)"
  proof (induction ops rule: rev_induct)
    case (snoc op ops)
    then show ?case using ft_step_inv by simp
  qed (auto simp: ft_inv_def ft_offer_def not_less)
  then show ?thesis using assms by (simp add: ft_inv_def)
qed

end
