(* ===== verification/Media_Policy.thy ===== *)
theory Media_Policy
  imports Desktop_Control F64
begin

text \<open>
  Media negotiation and measurement: the capability matrix (\<open>common/src/media_caps.rs\<close>), channel layouts (\<open>surround.rs\<close>) and
  latency statistics (\<open>latency.rs\<close>). Shown: a negotiated mode is one both peers support, negotiating it again changes nothing, and a
  reason is given exactly when the request was changed; the layout is the largest that fits; the percentiles are the nearest ranks.
\<close>

section \<open>Capability matrix\<close>

datatype video_codec = H264 | Hevc | Av1
datatype chroma_subsampling = Yuv420 | Yuv444
datatype bit_depth = Eight | Ten
datatype color_primaries = Prim_Bt709 | Prim_Bt2020
datatype transfer_function = Tf_Bt709 | Tf_Pq | Tf_Hlg
datatype matrix_coefficients = Mx_Bt709 | Mx_Bt2020Ncl
datatype color_range = Limited | Full

fun codec_to_u8 :: "video_codec \<Rightarrow> u8" where
  "codec_to_u8 H264 = 1" | "codec_to_u8 Hevc = 2" | "codec_to_u8 Av1 = 3"

definition codec_from_u8 :: "u8 \<Rightarrow> video_codec option" where
  "codec_from_u8 c = (if c = 1 then Some H264 else if c = 2 then Some Hevc else if c = 3 then Some Av1 else None)"

fun codec_bit :: "video_codec \<Rightarrow> u8" where
  "codec_bit H264 = 1" | "codec_bit Hevc = 2" | "codec_bit Av1 = 4"

fun chroma_to_u8 :: "chroma_subsampling \<Rightarrow> u8" where
  "chroma_to_u8 Yuv420 = 0" | "chroma_to_u8 Yuv444 = 1"

definition chroma_from_u8 :: "u8 \<Rightarrow> chroma_subsampling option" where
  "chroma_from_u8 c = (if c = 0 then Some Yuv420 else if c = 1 then Some Yuv444 else None)"

fun depth_to_u8 :: "bit_depth \<Rightarrow> u8" where
  "depth_to_u8 Eight = 8" | "depth_to_u8 Ten = 10"

definition depth_from_u8 :: "u8 \<Rightarrow> bit_depth option" where
  "depth_from_u8 c = (if c = 8 then Some Eight else if c = 10 then Some Ten else None)"

fun primaries_to_u8 :: "color_primaries \<Rightarrow> u8" where
  "primaries_to_u8 Prim_Bt709 = 1" | "primaries_to_u8 Prim_Bt2020 = 9"

definition primaries_from_u8 :: "u8 \<Rightarrow> color_primaries option" where
  "primaries_from_u8 c = (if c = 1 then Some Prim_Bt709 else if c = 9 then Some Prim_Bt2020 else None)"

fun transfer_to_u8 :: "transfer_function \<Rightarrow> u8" where
  "transfer_to_u8 Tf_Bt709 = 1" | "transfer_to_u8 Tf_Pq = 16" | "transfer_to_u8 Tf_Hlg = 18"

definition transfer_from_u8 :: "u8 \<Rightarrow> transfer_function option" where
  "transfer_from_u8 c = (if c = 1 then Some Tf_Bt709 else if c = 16 then Some Tf_Pq else if c = 18 then Some Tf_Hlg else None)"

definition is_hdr :: "transfer_function \<Rightarrow> bool" where
  "is_hdr t \<longleftrightarrow> t = Tf_Pq \<or> t = Tf_Hlg"

fun matrix_to_u8 :: "matrix_coefficients \<Rightarrow> u8" where
  "matrix_to_u8 Mx_Bt709 = 1" | "matrix_to_u8 Mx_Bt2020Ncl = 9"

definition matrix_from_u8 :: "u8 \<Rightarrow> matrix_coefficients option" where
  "matrix_from_u8 c = (if c = 1 then Some Mx_Bt709 else if c = 9 then Some Mx_Bt2020Ncl else None)"

fun range_to_u8 :: "color_range \<Rightarrow> u8" where
  "range_to_u8 Limited = 0" | "range_to_u8 Full = 1"

definition range_from_u8 :: "u8 \<Rightarrow> color_range option" where
  "range_from_u8 c = (if c = 0 then Some Limited else if c = 1 then Some Full else None)"

record hdr_metadata =
  hm_max_cll :: u16
  hm_max_fall :: u16
  hm_max_luminance :: u32
  hm_min_luminance :: u32

definition encode_hdr :: "hdr_metadata \<Rightarrow> bytes" where
  "encode_hdr m = le16 (hm_max_cll m) @ le16 (hm_max_fall m) @ le32 (hm_max_luminance m) @ le32 (hm_min_luminance m)"

definition decode_hdr :: "bytes \<Rightarrow> hdr_metadata option" where
  "decode_hdr bs = (if length bs < 12 then None else Some \<lparr>hm_max_cll = u16_of (bs ! 0) (bs ! 1),
    hm_max_fall = u16_of (bs ! 2) (bs ! 3), hm_max_luminance = u32_of (bs ! 4) (bs ! 5) (bs ! 6) (bs ! 7),
    hm_min_luminance = u32_of (bs ! 8) (bs ! 9) (bs ! 10) (bs ! 11)\<rparr>)"

interpretation hdr: codec encode_hdr decode_hdr "\<lambda>_. True"
  by unfold_locales (simp add: encode_hdr_def decode_hdr_def le16_def le32_def)

record video_mode =
  vm_codec :: video_codec
  vm_chroma :: chroma_subsampling
  vm_bit_depth :: bit_depth
  vm_primaries :: color_primaries
  vm_transfer :: transfer_function
  vm_matrix :: matrix_coefficients
  vm_range :: color_range
  vm_hdr :: "hdr_metadata option"
  vm_width :: u16
  vm_height :: u16
  vm_refresh_mhz :: u32
  vm_vrr :: bool

definition sdr_baseline :: video_mode where
  "sdr_baseline = \<lparr>vm_codec = H264, vm_chroma = Yuv420, vm_bit_depth = Eight, vm_primaries = Prim_Bt709, vm_transfer = Tf_Bt709,
    vm_matrix = Mx_Bt709, vm_range = Limited, vm_hdr = None, vm_width = 1920, vm_height = 1080, vm_refresh_mhz = 60000, vm_vrr = False\<rparr>"

record media_caps =
  mc_codecs :: u8
  mc_chroma444 :: bool
  mc_bit10 :: bool
  mc_hdr :: bool
  mc_max_refresh_mhz :: u32
  mc_vrr :: bool

definition supports_codec :: "media_caps \<Rightarrow> video_codec \<Rightarrow> bool" where
  "supports_codec c v \<longleftrightarrow> v = H264 \<or> mc_codecs c AND codec_bit v \<noteq> 0"

definition best_common_codec :: "u8 \<Rightarrow> video_codec" where
  "best_common_codec shared = (if shared AND codec_bit Av1 \<noteq> 0 then Av1 else if shared AND codec_bit Hevc \<noteq> 0 then Hevc else H264)"

text \<open>The reason is the first one found; \<open>downgrade\<close> is one such test.\<close>

type_synonym negotiation = "video_mode \<times> downgrade_reason option"

definition downgrade :: "bool \<Rightarrow> (video_mode \<Rightarrow> video_mode) \<Rightarrow> downgrade_reason \<Rightarrow> negotiation \<Rightarrow> negotiation" where
  "downgrade cond f r n = (if cond then (f (fst n), Some (case snd n of None \<Rightarrow> r | Some r' \<Rightarrow> r')) else n)"

definition to_sdr :: "video_mode \<Rightarrow> video_mode" where
  "to_sdr m = m\<lparr>vm_hdr := None, vm_primaries := Prim_Bt709, vm_transfer := Tf_Bt709, vm_matrix := Mx_Bt709, vm_range := Limited\<rparr>"

definition negotiate_media :: "media_caps \<Rightarrow> media_caps \<Rightarrow> video_mode \<Rightarrow> negotiation" where
  "negotiate_media client host requested = (
    let n0 = (requested, None);
        n1 = downgrade (\<not> (supports_codec client (vm_codec requested) \<and> supports_codec host (vm_codec requested)))
          (\<lambda>m. m\<lparr>vm_codec := best_common_codec (mc_codecs client AND mc_codecs host)\<rparr>) CapabilityMismatch n0;
        n2 = downgrade (vm_chroma requested = Yuv444 \<and> \<not> (mc_chroma444 client \<and> mc_chroma444 host))
          (\<lambda>m. m\<lparr>vm_chroma := Yuv420\<rparr>) CapabilityMismatch n1;
        n3 = downgrade (vm_bit_depth requested = Ten \<and> \<not> (mc_bit10 client \<and> mc_bit10 host))
          (\<lambda>m. m\<lparr>vm_bit_depth := Eight\<rparr>) CapabilityMismatch n2;
        n4 = downgrade ((is_hdr (vm_transfer requested) \<or> vm_hdr requested \<noteq> None) \<and> \<not> (mc_hdr client \<and> mc_hdr host))
          to_sdr Unsupported n3;
        refresh_cap = min (mc_max_refresh_mhz client) (mc_max_refresh_mhz host);
        n5 = downgrade (vm_refresh_mhz requested > refresh_cap) (\<lambda>m. m\<lparr>vm_refresh_mhz := refresh_cap\<rparr>) CapabilityMismatch n4
    in downgrade (vm_vrr requested \<and> \<not> (mc_vrr client \<and> mc_vrr host)) (\<lambda>m. m\<lparr>vm_vrr := False\<rparr>) CapabilityMismatch n5)"

definition peer_supports :: "media_caps \<Rightarrow> video_mode \<Rightarrow> bool" where
  "peer_supports c m \<longleftrightarrow> supports_codec c (vm_codec m) \<and> (vm_chroma m = Yuv444 \<longrightarrow> mc_chroma444 c) \<and>
    (vm_bit_depth m = Ten \<longrightarrow> mc_bit10 c) \<and> (is_hdr (vm_transfer m) \<or> vm_hdr m \<noteq> None \<longrightarrow> mc_hdr c) \<and>
    vm_refresh_mhz m \<le> mc_max_refresh_mhz c \<and> (vm_vrr m \<longrightarrow> mc_vrr c)"

lemma codes_come_back: "codec_from_u8 (codec_to_u8 c) = Some c" "chroma_from_u8 (chroma_to_u8 s) = Some s"
  "depth_from_u8 (depth_to_u8 d) = Some d" "primaries_from_u8 (primaries_to_u8 p) = Some p"
  "transfer_from_u8 (transfer_to_u8 t) = Some t" "matrix_from_u8 (matrix_to_u8 m) = Some m" "range_from_u8 (range_to_u8 r) = Some r"
  subgoal by (cases c) (simp_all add: codec_from_u8_def)
  subgoal by (cases s) (simp_all add: chroma_from_u8_def)
  subgoal by (cases d) (simp_all add: depth_from_u8_def)
  subgoal by (cases p) (simp_all add: primaries_from_u8_def)
  subgoal by (cases t) (simp_all add: transfer_from_u8_def)
  subgoal by (cases m) (simp_all add: matrix_from_u8_def)
  subgoal by (cases r) (simp_all add: range_from_u8_def)
  done

lemma shared_bit:
  fixes a b c :: u8
  assumes "(a AND b) AND c \<noteq> 0"
  shows "a AND c \<noteq> 0" "b AND c \<noteq> 0"
proof -
  have "(a AND b) AND c = (a AND c) AND b" "(a AND b) AND c = (b AND c) AND a" by (simp_all add: ac_simps)
  then show "a AND c \<noteq> 0" "b AND c \<noteq> 0" using assms by auto
qed

lemma best_common_supported:
  "supports_codec a (best_common_codec (mc_codecs a AND mc_codecs b)) \<and> supports_codec b (best_common_codec (mc_codecs a AND mc_codecs b))"
proof -
  let ?s = "mc_codecs a AND mc_codecs b"
  consider "?s AND codec_bit Av1 \<noteq> 0" | "?s AND codec_bit Av1 = 0" "?s AND codec_bit Hevc \<noteq> 0"
    | "?s AND codec_bit Av1 = 0" "?s AND codec_bit Hevc = 0" by blast
  then show ?thesis
  proof cases
    case 1
    then show ?thesis using shared_bit [OF 1] by (simp only: best_common_codec_def supports_codec_def if_True simp_thms)
  next
    case 2
    then show ?thesis using shared_bit [OF 2(2)] by (simp only: best_common_codec_def supports_codec_def if_True if_False simp_thms)
  next
    case 3
    then show ?thesis by (simp only: best_common_codec_def supports_codec_def if_False simp_thms)
  qed
qed

lemma downgrade_fst: "fst (downgrade c f r n) = (if c then f (fst n) else fst n)"
  by (simp add: downgrade_def)

lemma downgrade_None: "snd (downgrade c f r n) = None \<longleftrightarrow> \<not> c \<and> snd n = None"
  by (simp add: downgrade_def)

text \<open>A step changes the one field it is about: the others pass through it.\<close>

lemma downgrade_keeps: "(\<And>m. g (f m) = g m) \<Longrightarrow> g (fst (downgrade c f r n)) = g (fst n)"
  by (simp add: downgrade_def)

lemma downgrade_sets: "(\<And>m. g (f m) = v) \<Longrightarrow> g (fst (downgrade c f r n)) = (if c then v else g (fst n))"
  by (simp add: downgrade_def)

lemma to_sdr_fields: "vm_codec (to_sdr m) = vm_codec m" "vm_chroma (to_sdr m) = vm_chroma m" "vm_bit_depth (to_sdr m) = vm_bit_depth m"
  "vm_refresh_mhz (to_sdr m) = vm_refresh_mhz m" "vm_vrr (to_sdr m) = vm_vrr m" "vm_transfer (to_sdr m) = Tf_Bt709" "vm_hdr (to_sdr m) = None"
  by (simp_all add: to_sdr_def)

lemma negotiated_codec: "vm_codec (fst (negotiate_media client host q)) =
    (if \<not> (supports_codec client (vm_codec q) \<and> supports_codec host (vm_codec q))
     then best_common_codec (mc_codecs client AND mc_codecs host) else vm_codec q)"
  unfolding negotiate_media_def Let_def
  by (simp add: downgrade_keeps [where g = vm_codec] downgrade_sets [where g = vm_codec] to_sdr_fields split del: if_split cong: if_cong)

lemma negotiated_chroma: "vm_chroma (fst (negotiate_media client host q)) =
    (if vm_chroma q = Yuv444 \<and> \<not> (mc_chroma444 client \<and> mc_chroma444 host) then Yuv420 else vm_chroma q)"
  unfolding negotiate_media_def Let_def
  by (simp add: downgrade_keeps [where g = vm_chroma] downgrade_sets [where g = vm_chroma] to_sdr_fields split del: if_split cong: if_cong)

lemma negotiated_depth: "vm_bit_depth (fst (negotiate_media client host q)) =
    (if vm_bit_depth q = Ten \<and> \<not> (mc_bit10 client \<and> mc_bit10 host) then Eight else vm_bit_depth q)"
  unfolding negotiate_media_def Let_def
  by (simp add: downgrade_keeps [where g = vm_bit_depth] downgrade_sets [where g = vm_bit_depth] to_sdr_fields split del: if_split cong: if_cong)

lemma negotiated_hdr: "vm_transfer (fst (negotiate_media client host q)) =
    (if (is_hdr (vm_transfer q) \<or> vm_hdr q \<noteq> None) \<and> \<not> (mc_hdr client \<and> mc_hdr host) then Tf_Bt709 else vm_transfer q)"
  "vm_hdr (fst (negotiate_media client host q)) =
    (if (is_hdr (vm_transfer q) \<or> vm_hdr q \<noteq> None) \<and> \<not> (mc_hdr client \<and> mc_hdr host) then None else vm_hdr q)"
  unfolding negotiate_media_def Let_def
  by (simp_all add: downgrade_keeps [where g = vm_transfer] downgrade_sets [where g = vm_transfer] downgrade_keeps [where g = vm_hdr]
      downgrade_sets [where g = vm_hdr] to_sdr_fields split del: if_split cong: if_cong)

lemma negotiated_refresh: "vm_refresh_mhz (fst (negotiate_media client host q)) =
    (if vm_refresh_mhz q > min (mc_max_refresh_mhz client) (mc_max_refresh_mhz host)
     then min (mc_max_refresh_mhz client) (mc_max_refresh_mhz host) else vm_refresh_mhz q)"
  unfolding negotiate_media_def Let_def
  by (simp add: downgrade_keeps [where g = vm_refresh_mhz] downgrade_sets [where g = vm_refresh_mhz] to_sdr_fields split del: if_split cong: if_cong)

lemma negotiated_vrr: "vm_vrr (fst (negotiate_media client host q)) =
    (if vm_vrr q \<and> \<not> (mc_vrr client \<and> mc_vrr host) then False else vm_vrr q)"
  unfolding negotiate_media_def Let_def
  by (subst downgrade_sets [where g = vm_vrr and v = False], simp)
     (simp add: downgrade_keeps [where g = vm_vrr] to_sdr_fields)

lemmas negotiated_fields = negotiated_codec negotiated_chroma negotiated_depth negotiated_hdr negotiated_refresh negotiated_vrr

lemma negotiated_supported:
  "peer_supports client (fst (negotiate_media client host q)) \<and> peer_supports host (fst (negotiate_media client host q))"
proof -
  let ?m = "fst (negotiate_media client host q)"
  have "supports_codec client (vm_codec ?m) \<and> supports_codec host (vm_codec ?m)"
    unfolding negotiated_codec using best_common_supported [of client host] by (simp only: split: if_split) blast
  moreover have "vm_chroma ?m = Yuv444 \<longrightarrow> mc_chroma444 client \<and> mc_chroma444 host" unfolding negotiated_chroma by simp
  moreover have "vm_bit_depth ?m = Ten \<longrightarrow> mc_bit10 client \<and> mc_bit10 host" unfolding negotiated_depth by simp
  moreover have "is_hdr (vm_transfer ?m) \<or> vm_hdr ?m \<noteq> None \<longrightarrow> mc_hdr client \<and> mc_hdr host"
    unfolding negotiated_hdr by (simp add: is_hdr_def)
  moreover have "vm_refresh_mhz ?m \<le> min (mc_max_refresh_mhz client) (mc_max_refresh_mhz host)"
    unfolding negotiated_refresh by (simp only: not_less order_refl split: if_split) blast
  moreover have "vm_vrr ?m \<longrightarrow> mc_vrr client \<and> mc_vrr host" unfolding negotiated_vrr by simp
  ultimately show ?thesis unfolding peer_supports_def by (simp only: min.bounded_iff) blast
qed

lemma downgrade_False: "\<not> c \<Longrightarrow> downgrade c f r n = n"
  by (simp add: downgrade_def)

lemma supported_unchanged:
  assumes "peer_supports client m" and "peer_supports host m"
  shows "negotiate_media client host m = (m, None)"
proof -
  note p = assms [unfolded peer_supports_def]
  have "supports_codec client (vm_codec m) \<and> supports_codec host (vm_codec m)" using p by blast
  moreover have "\<not> (vm_chroma m = Yuv444 \<and> \<not> (mc_chroma444 client \<and> mc_chroma444 host))" using p by blast
  moreover have "\<not> (vm_bit_depth m = Ten \<and> \<not> (mc_bit10 client \<and> mc_bit10 host))" using p by blast
  moreover have "\<not> ((is_hdr (vm_transfer m) \<or> vm_hdr m \<noteq> None) \<and> \<not> (mc_hdr client \<and> mc_hdr host))" using p by blast
  moreover have "\<not> vm_refresh_mhz m > min (mc_max_refresh_mhz client) (mc_max_refresh_mhz host)" using p by (simp add: not_less)
  moreover have "\<not> (vm_vrr m \<and> \<not> (mc_vrr client \<and> mc_vrr host))" using p by blast
  ultimately show ?thesis by (simp only: negotiate_media_def Let_def downgrade_False simp_thms)
qed

lemma no_reason_supported:
  assumes "snd (negotiate_media client host m) = None"
  shows "peer_supports client m \<and> peer_supports host m"
  using assms unfolding negotiate_media_def Let_def downgrade_None peer_supports_def not_less
  by (simp only: min.bounded_iff) blast

text \<open>
  C40. Whatever is asked for, the negotiated mode is one both peers support; negotiating it again leaves it as it is and gives no
  reason; and no reason is given exactly when both peers support the request itself, which is then granted unchanged.
\<close>

theorem negotiation_stable:
  "peer_supports client (fst (negotiate_media client host q)) \<and> peer_supports host (fst (negotiate_media client host q)) \<and>
   negotiate_media client host (fst (negotiate_media client host q)) = (fst (negotiate_media client host q), None) \<and>
   (snd (negotiate_media client host q) = None \<longleftrightarrow> peer_supports client q \<and> peer_supports host q) \<and>
   (negotiate_media client host q = (q, None) \<longleftrightarrow> peer_supports client q \<and> peer_supports host q)"
proof -
  have "snd (negotiate_media client host q) = None \<longleftrightarrow> peer_supports client q \<and> peer_supports host q"
    using no_reason_supported [of client host q] supported_unchanged [of client q host] by auto
  moreover have "negotiate_media client host q = (q, None) \<longleftrightarrow> peer_supports client q \<and> peer_supports host q"
    using no_reason_supported [of client host q] supported_unchanged [of client q host] by auto
  ultimately show ?thesis using negotiated_supported [of client host q] supported_unchanged [of client _ host] by blast
qed

section \<open>Channel layouts\<close>

datatype speaker = FrontLeft | FrontRight | FrontCenter | Lfe | BackLeft | BackRight | SideLeft | SideRight
datatype channel_layout = Mono | Stereo | Surround51 | Surround71

fun channel_count :: "channel_layout \<Rightarrow> u8" where
  "channel_count Mono = 1"
| "channel_count Stereo = 2"
| "channel_count Surround51 = 6"
| "channel_count Surround71 = 8"

fun opus_order :: "channel_layout \<Rightarrow> speaker list" where
  "opus_order Mono = [FrontCenter]"
| "opus_order Stereo = [FrontLeft, FrontRight]"
| "opus_order Surround51 = [FrontLeft, FrontCenter, FrontRight, BackLeft, BackRight, Lfe]"
| "opus_order Surround71 = [FrontLeft, FrontCenter, FrontRight, SideLeft, SideRight, BackLeft, BackRight, Lfe]"

definition LAYOUTS_DESC :: "channel_layout list" where
  "LAYOUTS_DESC = [Surround71, Surround51, Stereo, Mono]"

definition negotiate_layout :: "channel_layout \<Rightarrow> u8 \<Rightarrow> channel_layout \<times> bool" where
  "negotiate_layout source sink_max = (
    let cap = min (channel_count source) sink_max;
        selected = (case find (\<lambda>l. channel_count l \<le> cap) LAYOUTS_DESC of Some l \<Rightarrow> l | None \<Rightarrow> Mono)
    in (selected, channel_count selected < channel_count source))"

lemma opus_order_per_channel: "length (opus_order l) = unat (channel_count l)" "distinct (opus_order l)"
  by (cases l; simp)+

text \<open>The chosen layout fits, no larger one does, and a change is reported; a sink without any channel still gets mono.\<close>

lemma layout_is_largest:
  assumes "0 < sink_max" and "negotiate_layout source sink_max = (l, down)"
  shows "channel_count l \<le> min (channel_count source) sink_max"
    and "channel_count l' \<le> min (channel_count source) sink_max \<Longrightarrow> channel_count l' \<le> channel_count l"
    and "down \<longleftrightarrow> l \<noteq> source"
proof -
  have "1 \<le> sink_max" using assms(1) by (simp add: word_le_nat_alt word_less_nat_alt Suc_le_eq)
  then have one: "channel_count Mono \<le> min (channel_count source) sink_max" by (cases source) simp_all
  show fits: "channel_count l \<le> min (channel_count source) sink_max"
    using assms(2) one by (auto simp: negotiate_layout_def LAYOUTS_DESC_def Let_def split: if_splits)
  show "channel_count l' \<le> channel_count l" if "channel_count l' \<le> min (channel_count source) sink_max"
    using assms(2) that by (cases l') (auto simp: negotiate_layout_def LAYOUTS_DESC_def Let_def split: if_splits)
  have "down \<longleftrightarrow> channel_count l < channel_count source" using assms(2) by (auto simp: negotiate_layout_def Let_def)
  moreover have "channel_count l \<le> channel_count source" using fits by simp
  ultimately show "down \<longleftrightarrow> l \<noteq> source" by (cases l; cases source; simp add: word_le_nat_alt)
qed

section \<open>Latency statistics\<close>

record stage_timestamps =
  st_input_us :: u64
  st_capture_us :: u64
  st_encode_us :: u64
  st_send_us :: u64
  st_receive_us :: u64
  st_decode_us :: u64
  st_present_us :: u64

definition host_valid :: "stage_timestamps \<Rightarrow> bool" where
  "host_valid t \<longleftrightarrow> st_input_us t \<le> st_capture_us t \<and> st_capture_us t \<le> st_encode_us t \<and> st_encode_us t \<le> st_send_us t"

definition client_valid :: "stage_timestamps \<Rightarrow> bool" where
  "client_valid t \<longleftrightarrow> st_receive_us t \<le> st_decode_us t \<and> st_decode_us t \<le> st_present_us t"

definition stamps_valid :: "stage_timestamps \<Rightarrow> bool" where
  "stamps_valid t \<longleftrightarrow> host_valid t \<and> client_valid t"

definition host_pipeline_us :: "stage_timestamps \<Rightarrow> u64" where
  "host_pipeline_us t = sat_sub (st_send_us t) (st_input_us t)"

definition client_pipeline_us :: "stage_timestamps \<Rightarrow> u64" where
  "client_pipeline_us t = sat_sub (st_present_us t) (st_receive_us t)"

record latency_stats =
  ls_count :: nat
  ls_min :: u64
  ls_p50 :: u64
  ls_p95 :: u64
  ls_p99 :: u64
  ls_max :: u64

fun f_ceil :: "f64 \<Rightarrow> f64" where
  "f_ceil (Fin x) = f64_of (of_int \<lceil>x\<rceil>)"
| "f_ceil v = v"

definition percentile_index :: "nat \<Rightarrow> f64 \<Rightarrow> nat" where
  "percentile_index len fraction =
    (let rank = f_to_word (f_ceil (f_mul fraction (f64_of (of_nat len)))) :: u64 in min (unat rank - 1) (len - 1))"

definition from_samples :: "u64 list \<Rightarrow> latency_stats option" where
  "from_samples samples = (if samples = [] then None else
    let sorted = sort samples; len = length sorted in
    Some \<lparr>ls_count = len, ls_min = sorted ! 0, ls_p50 = sorted ! percentile_index len (f64_of (50 / 100)),
      ls_p95 = sorted ! percentile_index len (f64_of (95 / 100)), ls_p99 = sorted ! percentile_index len (f64_of (99 / 100)),
      ls_max = sorted ! (len - 1)\<rparr>)"

definition summarize_run :: "stage_timestamps list \<Rightarrow> nat \<Rightarrow> (latency_stats \<times> latency_stats) option" where
  "summarize_run samples min_samples = (
    let valid = filter stamps_valid samples in
    if length valid < max min_samples 1 then None
    else (case from_samples (map host_pipeline_us valid) of None \<Rightarrow> None
      | Some h \<Rightarrow> (case from_samples (map client_pipeline_us valid) of None \<Rightarrow> None | Some c \<Rightarrow> Some (h, c))))"

text \<open>Rounding, the product and the conversion are all monotone, so a larger fraction names no earlier rank.\<close>

lemma f64_of_cases:
  assumes "0 \<le> x"
  shows "f64_of x = Fin (rnd x) \<or> f64_of x = F_inf False"
  using assms by (simp add: f64_of_def Let_def not_less)

lemma f_to_word_mono:
  assumes "x \<le> y"
  shows "f_to_word (Fin x) \<le> (f_to_word (Fin y) :: 'a :: len word)"
proof (cases "x \<le> 0 \<or> 2 ^ LENGTH('a) \<le> \<lfloor>y\<rfloor>")
  case False
  moreover have "\<lfloor>x\<rfloor> \<le> \<lfloor>y\<rfloor>" using assms by (rule floor_mono)
  ultimately have "0 \<le> x" "0 \<le> y" "\<lfloor>x\<rfloor> < 2 ^ LENGTH('a)" "\<lfloor>y\<rfloor> < 2 ^ LENGTH('a)" using assms by auto
  then show ?thesis using \<open>\<lfloor>x\<rfloor> \<le> \<lfloor>y\<rfloor>\<close> by (simp only: word_le_nat_alt unat_f_to_word nat_mono)
next
  case True
  then show ?thesis using assms by (auto simp: not_le)
qed

lemma f64_of_finite_mono:
  assumes "0 \<le> x" "x \<le> y" "f64_of y = Fin v"
  shows "f64_of x = Fin (rnd x)"
proof -
  have "0 \<le> rnd x" "rnd x \<le> rnd y" using assms b64.r_nonneg rnd_mono by auto
  then show ?thesis using assms(3) flog2_mono [of "rnd x" "rnd y"]
    by (cases "rnd x = 0") (auto simp: f64_of_def Let_def order_le_less split: if_splits)
qed

lemma f64_of_to_word_mono:
  assumes "0 \<le> x" "x \<le> y"
  shows "f_to_word (f64_of x) \<le> (f_to_word (f64_of y) :: 'a :: len word)"
proof -
  have y: "0 \<le> y" using assms by linarith
  show ?thesis
  proof (cases "f64_of y = F_inf False")
    case False
    then have fy: "f64_of y = Fin (rnd y)" using f64_of_cases [OF y] by blast
    have le: "0 \<le> rnd x" "rnd x \<le> rnd y" using assms b64.r_nonneg rnd_mono by auto
    moreover have "f64_of x = Fin (rnd x)" using f64_of_finite_mono [OF assms fy] .
    ultimately show ?thesis unfolding fy by (simp only: f_to_word_mono [OF le(2)])
  qed simp
qed

lemma ceil_product_mono:
  assumes "0 \<le> a" "a \<le> b" "0 \<le> n"
  shows "f_to_word (f_ceil (f_mul (Fin a) (f64_of n))) \<le> (f_to_word (f_ceil (f_mul (Fin b) (f64_of n))) :: 'a :: len word)"
proof (cases "f64_of n = F_inf False")
  case False
  then have n: "f64_of n = Fin (rnd n)" "0 \<le> rnd n" using f64_of_cases [OF assms(3)] b64.r_nonneg [OF assms(3)] by blast+
  have le: "0 \<le> a * rnd n" "a * rnd n \<le> b * rnd n" using assms n(2) by (auto intro: mult_right_mono)
  show ?thesis
  proof (cases "f64_of (b * rnd n) = F_inf False")
    case False
    then have fb: "f64_of (b * rnd n) = Fin (rnd (b * rnd n))" using f64_of_cases [OF order_trans [OF le]] by blast
    have fa: "f64_of (a * rnd n) = Fin (rnd (a * rnd n))"
      using f64_of_finite_mono [OF le] fb by simp
    have "\<lceil>rnd (a * rnd n)\<rceil> \<le> \<lceil>rnd (b * rnd n)\<rceil>" "0 \<le> \<lceil>rnd (a * rnd n)\<rceil>"
      using rnd_mono [OF le(2)] b64.r_nonneg [OF le(1)] by (auto intro: ceiling_mono)
    then show ?thesis unfolding n(1) by (simp add: fa fb f64_of_to_word_mono)
  qed (simp add: n(1))
qed (use assms in \<open>cases "a = 0"; simp\<close>)

lemma percentile_index_mono:
  assumes "0 \<le> a" "a \<le> b"
  shows "percentile_index len (Fin a) \<le> percentile_index len (Fin b)"
proof -
  have "f_to_word (f_ceil (f_mul (Fin a) (f64_of (of_nat len)))) \<le> (f_to_word (f_ceil (f_mul (Fin b) (f64_of (of_nat len)))) :: u64)"
    by (rule ceil_product_mono) (use assms in auto)
  then show ?thesis unfolding percentile_index_def Let_def word_le_nat_alt by (intro min.mono diff_le_mono order_refl)
qed

lemma percentile_index_less: "0 < len \<Longrightarrow> percentile_index len p < len"
  by (simp add: percentile_index_def Let_def min_less_iff_disj)

lemma percentiles_ordered:
  assumes "0 \<le> p" "p \<le> q" "q \<le> 1"
  shows "percentile_index len (f64_of p) \<le> percentile_index len (f64_of q)"
  using percentile_index_mono [of "rnd p" "rnd q" len] f64_of_unit [of p] f64_of_unit [of q] rnd_mono [OF assms(2)] assms by simp

text \<open>What a summary says of its samples.\<close>

definition summarizes :: "latency_stats \<Rightarrow> u64 list \<Rightarrow> bool" where
  "summarizes s samples \<longleftrightarrow> ls_count s = length samples \<and> {ls_min s, ls_p50 s, ls_p95 s, ls_p99 s, ls_max s} \<subseteq> set samples \<and>
    set samples \<subseteq> {ls_min s..ls_max s} \<and> ls_min s \<le> ls_p50 s \<and> ls_p50 s \<le> ls_p95 s \<and> ls_p95 s \<le> ls_p99 s \<and> ls_p99 s \<le> ls_max s"

lemma from_samples_summarizes:
  assumes "from_samples samples = Some s"
  shows "summarizes s samples"
proof -
  let ?s = "sort samples" and ?n = "length samples"
  let ?i = "percentile_index ?n (f64_of (50 / 100))" and ?j = "percentile_index ?n (f64_of (95 / 100))"
    and ?k = "percentile_index ?n (f64_of (99 / 100))"
  have n: "0 < ?n" using assms by (auto simp: from_samples_def split: if_splits)
  then have s: "ls_count s = ?n" "ls_min s = ?s ! 0" "ls_p50 s = ?s ! ?i" "ls_p95 s = ?s ! ?j" "ls_p99 s = ?s ! ?k" "ls_max s = ?s ! (?n - 1)"
    using assms unfolding from_samples_def Let_def by auto
  have at: "?s ! i \<le> ?s ! j" if "i \<le> j" "j < ?n" for i j using that sorted_nth_mono [of ?s i j] by simp
  have mem: "?s ! i \<in> set samples" if "i < ?n" for i using that nth_mem [of i ?s] by simp
  have between: "x \<in> {?s ! 0..?s ! (?n - 1)}" if x: "x \<in> set samples" for x
  proof -
    obtain i where "i < ?n" "x = ?s ! i" using x in_set_conv_nth [of x ?s] by auto
    then show ?thesis using at [of 0 i] at [of i "?n - 1"] by simp
  qed
  have lt: "?i < ?n" "?j < ?n" "?k < ?n" by (rule percentile_index_less [OF n])+
  have "?i \<le> ?j" "?j \<le> ?k" by (rule percentiles_ordered; simp)+
  then have "?s ! 0 \<le> ?s ! ?i" "?s ! ?i \<le> ?s ! ?j" "?s ! ?j \<le> ?s ! ?k" using at [OF _ lt(1)] at [OF _ lt(2)] at [OF _ lt(3)] by blast+
  moreover have "?s ! ?k \<le> ?s ! (?n - 1)" using lt(3) n by (intro at) linarith+
  moreover have "{?s ! 0, ?s ! ?i, ?s ! ?j, ?s ! ?k, ?s ! (?n - 1)} \<subseteq> set samples" 
    using mem [of 0] mem [of "?n - 1"] mem [OF lt(1)] mem [OF lt(2)] mem [OF lt(3)] n by (simp only: insert_subset empty_subsetI simp_thms diff_less zero_less_one)
  ultimately show ?thesis unfolding summarizes_def s using between by blast
qed

text \<open>
  A summary exists exactly for a run with samples; it counts them, its minimum and maximum bound every sample, and minimum,
  median, 95th and 99th percentile and maximum are samples of the run in ascending order. A run that mixes in samples whose clock
  stepped is summarised as if they were absent, and refused exactly when fewer than the demanded number, or none, are left.
\<close>

theorem latency_summary:
  "(from_samples samples = None) = (samples = []) \<and>
   (case from_samples samples of None \<Rightarrow> True | Some s \<Rightarrow> summarizes s samples) \<and>
   summarize_run run k = summarize_run (filter stamps_valid run) k \<and>
   (summarize_run run k = None) = (length (filter stamps_valid run) < max k 1)"
proof (intro conjI)
  show none: "(from_samples samples = None) = (samples = [])" for samples by (simp add: from_samples_def Let_def)
  show "case from_samples samples of None \<Rightarrow> True | Some s \<Rightarrow> summarizes s samples"
    using from_samples_summarizes by (simp split: option.split)
  show "summarize_run run k = summarize_run (filter stamps_valid run) k" by (simp add: summarize_run_def)
  show "(summarize_run run k = None) = (length (filter stamps_valid run) < max k 1)"
  proof (cases "length (filter stamps_valid run) < max k 1")
    case False
    then have "filter stamps_valid run \<noteq> []" by auto
    then obtain h c where "from_samples (map host_pipeline_us (filter stamps_valid run)) = Some h"
      "from_samples (map client_pipeline_us (filter stamps_valid run)) = Some c" using none by (metis Nil_is_map_conv not_Some_eq)
    then show ?thesis using False by (simp add: summarize_run_def Let_def)
  qed (simp add: summarize_run_def)
qed

end
