(* ===== verification/Spec2Isabelle.thy ===== *)
theory Spec2Isabelle
  imports Prelude Gf256 Gauss Serial Ord_Map Fec_Encoder Fec_Decoder Fec_Recovery Fec_Wire Video_Rx
    Video_Rx_Trace Video_Rx_Reassembly Frame_Queue Watchdog Flow Path_Select Login_Limiter Resolution Qu_Wire Fec_Sender
    In_Step End_To_End Annexb Rtp_Fragment Rtp_Packets Rtp_Stream Rtp_H264 H265_Nal Rtp_H265 Utf8 Desktop_Control Input_Wire
    Slice F64 Abr Bitrate_Apply Cc Cc_Shared Fec_Ratio Qu_Relay
    Canon_Json Human_Json Updater Updater_Swap Input_Broker Host_Policy Client_Policy Cursor File_Transfer Media_Policy
begin

text \<open>
  Verification of betterparsec, a remote desktop system: a streamer beside the host sends encoded video over a
  lossy WebRTC data channel, protected by a sliding-window erasure code, to a native client; a web server
  authenticates users and brokers the signaling. The development covers the deterministic core of the video path,
  from the streamer's frame queue to the client's decoder queue, and the state machines around it.

  \<^bold>\<open>How the parts interact.\<close> The streamer hands encoded frames to the FEC sender
  (\<open>streamer/src/transport/webrtc/fec_sender.rs\<close>), whose task splits a frame into chunks and encodes the messages
  (\<open>transport-core/src/fec_wire.rs\<close>), numbering each chunk as a source symbol of the sliding-window encoder
  (\<open>FecEncoder\<close> in \<open>transport-core/src/fec.rs\<close>), which adds repair symbols. The client's \<open>VideoReceiver\<close>
  (\<open>transport-core/src/video_rx.rs\<close>) parses the messages, pushes the symbols into \<open>FecDecoder\<close> (\<open>fec.rs\<close>),
  reassembles the recovered chunks into frames, puts frames in order, and emits frames, discontinuities and
  acknowledgements; acknowledgements and key-frame requests travel back to the sender. The receive thread puts
  the events into the bounded queue of \<open>client-transport/src/frame_queue.rs\<close>, from which the decoder thread pops
  them. Browsers get the same frames over an RTP track (\<open>video.rs\<close>, \<open>video/annexb.rs\<close>, \<open>video/h264\<close>, \<open>video/h265\<close>); input
  and control packets travel to the host in the formats of \<open>common/src/input_wire.rs\<close> and \<open>desktop_control.rs\<close>. Beside that path, \<open>client-transport/src/watchdog.rs\<close> escalates stalls, \<open>flow.rs\<close> drives the signaling,
  \<open>path_select.rs\<close> walks the ladder of transports, \<open>transport-core/src/resolution.rs\<close> chooses the resolution,
  \<open>streamer/src/transport/webrtc/qu_wire.rs\<close> frames the lossless tile channel, and the server limits failed logins
  (\<open>src/api/login_limiter.rs\<close>). The rate of the encoder is decided by two controllers, one on the receiver's estimates and
  loss reports (\<open>streamer/src/abr.rs\<close>) and one on the time each frame takes to send (\<open>cc.rs\<close>), which share atomics with the
  task that applies the smaller target to the host (\<open>bitrate_apply.rs\<close>); \<open>transport-core/src/fec_ratio.rs\<close> turns reported
  loss into the redundancy of the encoder, and \<open>qu_relay.rs\<close> carries the tile channel between host and client. The pointer
  travels beside the video (\<open>cursor_wire.rs\<close>, \<open>client-transport/src/cursor.rs\<close>); the native application paces and composes frames
  and follows small policies of its own (\<open>app-native/src\<close>), a broker process hands it the events of a keyboard driver
  (\<open>input-broker/src\<close>), and an updater verifies a signed set of files and swaps it in (\<open>tools/updater/src\<close>).

  \<^bold>\<open>Theories.\<close>

  \<^item> \<open>Prelude\<close>: machine integers as words, little-endian codecs, slices, the error monad for \<open>Result\<close>, list lemmas.

  \<^item> \<open>Gf256\<close>: \<open>build_tables\<close>, \<open>gf_mul\<close>, \<open>gf_inv\<close>, \<open>gf_coeff\<close>. Table multiplication is shift-and-add multiplication
    modulo the polynomial, and a field; the locale \<open>byte_field\<close> (interpretation \<open>gf\<close>) is what the code above needs of it.

  \<^item> \<open>Gauss\<close>: \<open>gaussian_elim\<close>; it returns exactly the unknowns the system determines, with their values.

  \<^item> \<open>Serial\<close>: \<open>serial_cmp\<close>, \<open>seq_in_window\<close>, \<open>seq_advanced\<close> and the wrapping window loop; locale \<open>serial_order\<close>
    (interpretation \<open>serial\<close>).

  \<^item> \<open>Ord_Map\<close>: \<open>BTreeMap\<close> as an association list in key order; locale \<open>ordered_map\<close>, interpreted on it (\<open>btree\<close>) and, in
    \<open>Video_Rx\<close>, on the hash maps of the receiver (\<open>hmap\<close>).

  \<^item> \<open>Fec_Encoder\<close>: \<open>FecConfig\<close>, \<open>FecEncoder\<close> (\<open>push_source\<close>, \<open>acknowledge\<close>, \<open>set_redundancy\<close>, repair
    generation, trimming). Totality, caps, the exact repair rate, exact acknowledgement, and validity of each symbol
    against the source stream; this validity is what the decoder theorems assume of their input.

  \<^item> \<open>Fec_Decoder\<close>: \<open>FecDecoder\<close> with every operation. Totality and bounds on any input, and the contract of the
    contiguous frontier and its loss spans. \<open>Fec_Recovery\<close>: what is recovered is what was sent, when that holds, when a
    loss is repaired at once, and a run of valid symbols in which it does not hold.

  \<^item> \<open>Fec_Wire\<close>: chunk headers, symbol and control messages in both versions, CRC-32; round trips in both directions,
    rejection of corrupted bytes, splitting a frame and joining it.

  \<^item> \<open>Fec_Sender\<close>: the handle (\<open>enqueue\<close>, control methods, terminal exit) and the task, as small steps whose order is
    arbitrary. Every interleaving puts valid symbols on the wire.

  \<^item> \<open>Video_Rx\<close>: \<open>VideoReceiver\<close> with every operation and its invariant. \<open>Video_Rx_Trace\<close>: runs as an inductive set;
    totality and memory bounds, acknowledgements (monitor interpretation \<open>acks\<close>) and the key-frame gate (\<open>gate\<close>), both
    instances of the locale \<open>rx_monitor\<close>. \<open>Video_Rx_Reassembly\<close>: the chunks of a frame, in any order and over any
    number of messages, give that frame.

  \<^item> \<open>In_Step\<close>, \<open>End_To_End\<close>: sender and receiver composed over a channel that loses nothing. The decoder retains the
    encoder's window, the reassembly follows the program counter of the sender task, and so the receiver emits the frames the
    sender finished. \<open>End_To_End\<close> also states the key-frame gate, on a run over two epochs.

  \<^item> \<open>Frame_Queue\<close>: the video event queue and the audio packet queue; every gap is marked, waits end, recovery
    generations are ordered.

  \<^item> \<open>Watchdog\<close>: the receive watchdog, the stage clocks and the supervisor; the locales \<open>ladder\<close> and \<open>live_ladder\<close>
    (interpretations \<open>stall\<close>, \<open>stage\<close>) give the order and the liveness of an escalation.

  \<^item> \<open>Flow\<close>, \<open>Path_Select\<close>, \<open>Resolution\<close>, \<open>Login_Limiter\<close>, \<open>Qu_Wire\<close>: one state machine or format each, with its contract
    (order of signaling, path after a sequence of results, hysteresis, refinement to independent counters, exact parsing).

  \<^item> \<open>Annexb\<close>, \<open>Rtp_Fragment\<close>, \<open>Rtp_Packets\<close>, \<open>Rtp_Stream\<close>, \<open>Rtp_H264\<close>, \<open>H265_Nal\<close>, \<open>Rtp_H265\<close>: the media path for
    browsers (\<open>streamer/src/transport/webrtc/video\<close> and the codec branches of \<open>video.rs\<close>). The splitter cuts an Annex-B
    stream exactly at its start codes; the locales \<open>fragmenter\<close> and \<open>reassembler\<close> (fragmentation units), \<open>payloader\<close> (what a
    call makes visible to the receiver), \<open>nal_source\<close> and \<open>frame_sender\<close> are interpreted for both codecs (\<open>h264_fu\<close>, \<open>h264\<close>,
    \<open>h264_sender\<close>, and the same for \<open>h265\<close>), so that a receiver that follows the RFC gets the encoder's NAL units.

  \<^item> \<open>Utf8\<close>: Rust strings and UTF-8. \<open>Desktop_Control\<close>: \<open>common/src/desktop_control.rs\<close>; the ownership lease refines a counter
    that only grows, and every payload codec interprets the locale \<open>codec\<close>. \<open>Input_Wire\<close>: \<open>common/src/buffer.rs\<close> and
    \<open>input_wire.rs\<close>; reading returns on every input but one (locale \<open>buffer_read\<close>), and gives back what was encoded.

  \<^item> \<open>Slice\<close>: \<open>transport-core/src/slice.rs\<close> and \<open>mode.rs\<close>. A frame is reported complete only when each of its slices came, in
    its epoch and behind a key frame; the mode tables agree with their published vectors.

  \<^item> \<open>F64\<close>: the \<open>f64\<close> operations the controllers use, with rounding to nearest even; the locale \<open>rounding\<close> (interpretation
    \<open>b64\<close>) is what the proofs above it use. \<open>Abr\<close>, \<open>Fec_Ratio\<close>: the two loss controllers and the apply gate; their results
    are those of integer arithmetic, for every input. \<open>Cc\<close>: the frame-delay controller, its bounds and the distance of its
    decreases. \<open>Cc_Shared\<close>: its atomics, one operation at a time, under every interleaving. \<open>Bitrate_Apply\<close>: the machine that
    tracks a request to the host, over every sequence of polls and acknowledgements.

  \<^item> \<open>Qu_Relay\<close>: the relay and connection tasks of the tile channel and the epoch filter, as steps in any order, with the
    cancellation of a read that another branch of the select overtakes.

  \<^item> \<open>Canon_Json\<close>: the canonical JSON that is signed (\<open>canon.rs\<close>); two values with the same canonical form are equal up to the
    order of members. \<open>Updater\<close>: the manifest checks, the walk of the staged directory (\<open>manifest.rs\<close>, \<open>verify.rs\<close>) and the
    status cache of the shell (\<open>app-native/src/update.rs\<close>); over every sequence of status calls, a version is shown as staged
    only when every check held for the manifest with the present fingerprint. \<open>Human_Json\<close>: the preprocessor that takes comments and
    trailing commas out of the server's configuration (\<open>src/human_json.rs\<close>), without moving a character.
    \<open>Updater_Swap\<close>: the swap and its recovery (\<open>swap.rs\<close>) one file system operation at a time, with failures and crashes in
    between. Signature, hash and JSON reader are the parameters \<open>update_lib\<close>; a theorem that relies on the
    signature scheme has that as a hypothesis.

  \<^item> \<open>Input_Broker\<close>: the pipe format, the capture state and the loop that serves a client. \<open>Host_Policy\<close>: privacy mode, the host
    authority lease, virtual devices and the output registry. \<open>Client_Policy\<close>: frame pacer, tile composition, immersive mode,
    touch contacts and microphone gate. \<open>Cursor\<close>: the pointer messages and who draws it. \<open>File_Transfer\<close>: destination names and
    the transfer machine. \<open>Media_Policy\<close>: capability negotiation, channel layouts, latency percentiles. Each has its invariant
    or its exact behaviour over every sequence of operations.

  \<^bold>\<open>Modelling choices.\<close> \<open>u8\<close>, \<open>u16\<close> and \<open>u32\<close> keep their width and wrap as in the source; \<open>usize\<close>, byte counters and
  clocks are \<open>nat\<close>, since memory and uptime bound them, and \<open>saturating_sub\<close> is subtraction on \<open>nat\<close>. A Rust error is
  \<open>Inl\<close> of an error datatype; a panic (index, \<open>expect\<close>, underflow) or a loop that does not end is \<open>None\<close>, so a totality
  theorem excludes both; where the guards around an operation rule a panic out, the total operation of HOL stands for
  it. An aborted task takes no further step. The loops whose end is not structural are \<open>partial_function\<close>s (\<open>try_recover\<close>, \<open>scan_missing\<close>,
  \<open>advance_contiguous\<close>, \<open>flush_reorder\<close>), shown to return for every state in their invariant; the repair loop of the
  encoder has \<open>ratio_acc + 1\<close> units of fuel, of which each iteration that ends uses one, since it lowers \<open>ratio_acc\<close>; the others
  carry a termination proof. Code that runs under one mutex is one step; a blocking wait takes the states it finds when it is woken; the
  iteration order of a hash map, the clock and the outcome of a send are arguments, so theorems hold for every choice. An \<open>f64\<close> is a rational
  number or a special value; each operation rounds its exact result to the nearest binary64 number (overflow included),
  and the two zeros are one value, which no operation used here tells apart.

  \<^bold>\<open>Not modelled.\<close> Code that is calls into WebRTC, the operating system, graphics, audio or HTTP
  libraries (the session, the C interface, the native application, the streamer process, the web server beyond the
  limiter and the configuration format); the installer, drivers, the web client. These parts have their decisions in modelled
  code or none that can be separated from the library calls.
\<close>

end
